(* ===== verification/Sesc_Prelude.thy ===== *)
theory Sesc_Prelude
  imports Main "HOL-Library.Monad_Syntax" "HOL-Library.Multiset" "HOL-Library.Word"
begin

text \<open>
  What the component theories share: the result type of operations that can abort, the
  integer casts of the source written out, lemmas on lists that are updated by index, on
  sums over a window of buckets and on masks that are one less than a power of two, and
  the collections that the component proofs use.

  SESC checks its internal contracts with the macro \<open>I(c)\<close> of libsuc/nanassert.h. A
  DEBUG build aborts when \<open>c\<close> is false. An operation that contains such checks, or that
  follows a pointer that may be null, returns an option: \<open>None\<close> is the abort (or the
  null dereference), \<open>Some\<close> a normal return. Every theorem that says an operation
  returns \<open>Some\<close> therefore says that no assertion fails and no null pointer is followed.
\<close>

unbundle bit_operations_syntax

named_theorems tq_simps \<open>unfolding rules of the time queue\<close>
named_theorems mesi_simps \<open>unfolding rules of the coherence protocol\<close>
named_theorems cache_simps \<open>unfolding rules of the cache core\<close>

subsection \<open>Assertions\<close>

definition I_check :: "bool \<Rightarrow> unit option" where
  "I_check c = (if c then Some () else None)"

lemma I_check_simps [simp]: "I_check True = Some ()" "I_check False = None"
  by (simp_all add: I_check_def)

lemma I_check_eq_Some [simp]: "(I_check c = Some u) = c"
  by (simp add: I_check_def)

lemma I_check_bind_eq_Some [simp]:
  "(Option.bind (I_check c) f = Some r) = (c \<and> f () = Some r)"
  by (cases c) simp_all

lemma I_check_bind_eq_None [simp]:
  "(Option.bind (I_check c) f = None) = (c \<longrightarrow> f () = None)"
  by (cases c) simp_all

subsection \<open>Casts\<close>

text \<open>The conversions of C between integers of different widths, on mathematical integers.\<close>

definition u16 :: "int \<Rightarrow> nat" where "u16 x = nat (x mod 2 ^ 16)"
definition u32 :: "int \<Rightarrow> nat" where "u32 x = nat (x mod 2 ^ 32)"
definition u64 :: "int \<Rightarrow> nat" where "u64 x = nat (x mod 2 ^ 64)"
definition s32 :: "int \<Rightarrow> int" where "s32 x = (x + 2 ^ 31) mod 2 ^ 32 - 2 ^ 31"

lemma u16_small: "0 \<le> x \<Longrightarrow> x < 2 ^ 16 \<Longrightarrow> u16 x = nat x"
  by (simp add: u16_def)

lemma u32_small: "0 \<le> x \<Longrightarrow> x < 2 ^ 32 \<Longrightarrow> u32 x = nat x"
  by (simp add: u32_def)

lemma u64_small: "0 \<le> x \<Longrightarrow> x < 2 ^ 64 \<Longrightarrow> u64 x = nat x"
  by (simp add: u64_def)

lemma u16_bound [simp]: "u16 x < 65536"
  unfolding u16_def by (simp add: nat_less_iff)

lemma u32_bound [simp]: "u32 x < 4294967296"
  unfolding u32_def by (simp add: nat_less_iff)

lemma u64_bound [simp]: "u64 x < 18446744073709551616"
  unfolding u64_def by (simp add: nat_less_iff)

lemma u32_of_nat [simp]: "n < 4294967296 \<Longrightarrow> u32 (int n) = n"
  by (simp add: u32_def)

lemma u64_of_nat [simp]: "n < 18446744073709551616 \<Longrightarrow> u64 (int n) = n"
  by (simp add: u64_def)

lemma s32_small: "- (2 ^ 31) \<le> x \<Longrightarrow> x < 2 ^ 31 \<Longrightarrow> s32 x = x"
  by (simp add: s32_def)

subsection \<open>Arrays\<close>

text \<open>Access to an array by an index of the source; out of range is \<open>None\<close>.\<close>

definition arr_get :: "'a list \<Rightarrow> int \<Rightarrow> 'a option" where
  "arr_get xs i = (if 0 \<le> i \<and> i < int (length xs) then Some (xs ! nat i) else None)"

definition arr_set :: "'a list \<Rightarrow> int \<Rightarrow> 'a \<Rightarrow> 'a list option" where
  "arr_set xs i x = (if 0 \<le> i \<and> i < int (length xs) then Some (xs[nat i := x]) else None)"

lemma arr_nat [simp]:
  "arr_get xs (int i) = (if i < length xs then Some (xs ! i) else None)"
  "arr_set xs (int i) x = (if i < length xs then Some (xs[i := x]) else None)"
  by (simp_all add: arr_get_def arr_set_def)

lemma arr_word:
  "arr_get xs (uint w) = (if unat w < length xs then Some (xs ! unat w) else None)"
  "arr_set xs (uint w) v = (if unat w < length xs then Some (xs[unat w := v]) else None)"
  using nat_less_iff [of "uint w" "length xs"] by (simp_all add: arr_get_def arr_set_def)

subsection \<open>Masks\<close>

lemma and_mask_mod: "(n::nat) AND (2 ^ k - 1) = n mod 2 ^ k"
  by (simp add: take_bit_eq_mod [symmetric] take_bit_eq_mask mask_eq_exp_minus_1)

lemma and_mask_mod_Suc [simp]: "(n::nat) AND (2 ^ k - Suc 0) = n mod 2 ^ k"
  using and_mask_mod [of n k] by simp

lemma and_div2: "((a::nat) AND b) div 2 = (a div 2) AND (b div 2)"
  using drop_bit_and [of 1 a b] by (simp only: drop_bit_eq_div power_one_right)

text \<open>The usual test for a power of two: \<open>x & (x - 1)\<close> is zero.\<close>

lemma pow2_test_exp: "((2::nat) ^ k) AND (2 ^ k - 1) = 0"
  by simp

lemma pow2_test_odd_part:
  fixes x :: nat
  assumes "0 < x" and "x AND (x - 1) = 0"
  shows "\<exists>k. x = 2 ^ k"
  using assms
proof (induction x rule: less_induct)
  case (less x)
  show ?case
  proof (cases "even x")
    case True
    then obtain y where y: "x = 2 * y" by (rule evenE)
    with less.prems have y0: "0 < y" by simp
    have "x - 1 = 2 * (y - 1) + 1" using y y0 by simp
    then have "(x AND (x - 1)) div 2 = y AND (y - 1)"
      using y by (simp only: and_div2) simp
    with less.prems have "y AND (y - 1) = 0" by simp
    with less.IH [of y] y y0 obtain k where "y = 2 ^ k" by auto
    with y have "x = 2 ^ Suc k" by simp
    then show ?thesis by blast
  next
    case False
    then have "x mod 2 = 1" by presburger
    show ?thesis
    proof (cases "x = 1")
      case True
      then have "x = 2 ^ 0" by simp
      then show ?thesis by blast
    next
      case one: False
      from False obtain y where y: "x = 2 * y + 1" by (rule oddE)
      with one have y0: "0 < y" by simp
      from y have "x - 1 = 2 * y" by simp
      then have "(x AND (x - 1)) div 2 = y AND y"
        using y by (simp only: and_div2) simp
      with less.prems y0 show ?thesis by simp
    qed
  qed
qed

lemma pow2_test_iff: "0 < x \<Longrightarrow> ((x::nat) AND (x - 1) = 0) = (\<exists>k. x = 2 ^ k)"
  using pow2_test_odd_part [of x] by (elim ex1E | auto)

end
