(* ===== verification/Std_Heap.thy ===== *)
theory Std_Heap
  imports Sesc_Prelude
begin

text \<open>
  The heap algorithms of the C++ standard library that libsuc/TQueue.h uses:
  \<open>std::push_heap\<close>, \<open>std::pop_heap\<close> and \<open>std::make_heap\<close> on a vector, with the
  comparator \<open>DLess\<close> of the queue (\<open>x->getTQTime() > y->getTQTime()\<close>), so that the
  first element is one with the least key. They are the usual binary heap algorithms;
  the theorems about the queue rest only on the three facts that the standard
  guarantees: the elements are permuted, the result is a heap, and the first element of
  a heap is a least one.
\<close>

definition heap_swap :: "'a list \<Rightarrow> nat \<Rightarrow> nat \<Rightarrow> 'a list" where
  "heap_swap v i j = v[i := v ! j, j := v ! i]"

definition parent :: "nat \<Rightarrow> nat" where
  "parent i = (i - 1) div 2"

function sift_up :: "('a \<Rightarrow> nat) \<Rightarrow> 'a list \<Rightarrow> nat \<Rightarrow> 'a list" where
  "sift_up key v i =
     (if i = 0 then v
      else if key (v ! parent i) > key (v ! i)
      then sift_up key (heap_swap v i (parent i)) (parent i)
      else v)"
  by pat_completeness auto
termination
  by (relation "measure (\<lambda>(key, v, i). i)") (auto simp: parent_def)

declare sift_up.simps [simp del]

definition least_child :: "('a \<Rightarrow> nat) \<Rightarrow> 'a list \<Rightarrow> nat \<Rightarrow> nat \<Rightarrow> nat" where
  "least_child key v n i =
     (let c = 2 * i + 1
      in if c + 1 < n \<and> key (v ! (c + 1)) < key (v ! c) then c + 1 else c)"

function sift_down :: "('a \<Rightarrow> nat) \<Rightarrow> 'a list \<Rightarrow> nat \<Rightarrow> nat \<Rightarrow> 'a list" where
  "sift_down key v n i =
     (if 2 * i + 1 < n \<and> key (v ! least_child key v n i) < key (v ! i)
      then sift_down key (heap_swap v i (least_child key v n i)) n (least_child key v n i)
      else v)"
  by pat_completeness auto
termination
  by (relation "measure (\<lambda>(key, v, n, i). n - i)") (auto simp: least_child_def Let_def)

declare sift_down.simps [simp del]

text \<open>\<open>push_heap(begin, end)\<close>: the last element is the new one.\<close>

definition push_heap :: "('a \<Rightarrow> nat) \<Rightarrow> 'a list \<Rightarrow> 'a list" where
  "push_heap key v = sift_up key v (length v - 1)"

text \<open>\<open>pop_heap(begin, end)\<close>: the first element goes to the end, the rest is a heap.\<close>

definition pop_heap :: "('a \<Rightarrow> nat) \<Rightarrow> 'a list \<Rightarrow> 'a list" where
  "pop_heap key v =
     (if length v < 2 then v
      else sift_down key (heap_swap v 0 (length v - 1)) (length v - 1) 0)"

fun make_heap_from :: "('a \<Rightarrow> nat) \<Rightarrow> 'a list \<Rightarrow> nat \<Rightarrow> 'a list" where
  "make_heap_from key v 0 = v"
| "make_heap_from key v (Suc i) = make_heap_from key (sift_down key v (length v) i) i"

definition make_heap :: "('a \<Rightarrow> nat) \<Rightarrow> 'a list \<Rightarrow> 'a list" where
  "make_heap key v = make_heap_from key v (length v div 2)"

definition is_heap :: "('a \<Rightarrow> nat) \<Rightarrow> 'a list \<Rightarrow> bool" where
  "is_heap key v = (\<forall>j<length v. 0 < j \<longrightarrow> key (v ! parent j) \<le> key (v ! j))"

subsection \<open>Elements are permuted\<close>

lemma length_heap_swap [simp]: "length (heap_swap v i j) = length v"
  by (simp add: heap_swap_def)

lemma mset_heap_swap [simp]: "i < length v \<Longrightarrow> j < length v \<Longrightarrow> mset (heap_swap v i j) = mset v"
  by (simp add: heap_swap_def mset_swap)

lemma nth_heap_swap:
  "i < length v \<Longrightarrow> j < length v \<Longrightarrow> k < length v \<Longrightarrow>
   heap_swap v i j ! k = (if k = j then v ! i else if k = i then v ! j else v ! k)"
  by (auto simp: heap_swap_def nth_list_update)

lemma parent_less: "0 < i \<Longrightarrow> parent i < i"
  by (auto simp: parent_def)

lemma least_child_bounds:
  "2 * i + 1 < n \<Longrightarrow> least_child key v n i < n \<and> i < least_child key v n i
     \<and> parent (least_child key v n i) = i"
  by (auto simp: least_child_def Let_def parent_def)

lemma children_of: "parent j = i \<Longrightarrow> 0 < j \<Longrightarrow> j = 2 * i + 1 \<or> j = 2 * i + 2"
  by (auto simp: parent_def)

lemma least_child_least:
  "0 < j \<Longrightarrow> j < n \<Longrightarrow> parent j = i \<Longrightarrow> key (v ! least_child key v n i) \<le> key (v ! j)"
  using children_of [of j i] by (auto simp: least_child_def Let_def)

lemma mset_sift_up: "i < length v \<Longrightarrow> mset (sift_up key v i) = mset v"
proof (induction key v i rule: sift_up.induct)
  case (1 key v i)
  then show ?case
    using parent_less [of i] by (subst sift_up.simps) auto
qed

lemma mset_sift_down: "n \<le> length v \<Longrightarrow> mset (sift_down key v n i) = mset v"
proof (induction key v n i rule: sift_down.induct)
  case (1 key v n i)
  then show ?case
    using least_child_bounds [of i n key v] by (subst sift_down.simps) auto
qed

lemma length_sift_down [simp]: "length (sift_down key v n i) = length v"
proof (induction key v n i rule: sift_down.induct)
  case (1 key v n i)
  then show ?case by (subst sift_down.simps) auto
qed

lemma mset_push_heap [simp]: "mset (push_heap key v) = mset v"
  by (cases v) (simp_all add: push_heap_def mset_sift_up sift_up.simps [of key "[]"])

lemma length_push_heap [simp]: "length (push_heap key v) = length v"
  by (rule mset_eq_length) simp

lemma set_push_heap [simp]: "set (push_heap key v) = set v"
  by (rule mset_eq_setD) simp

lemma distinct_push_heap [simp]: "distinct (push_heap key v) = distinct v"
  by (rule mset_eq_imp_distinct_iff) simp

lemma mset_pop_heap [simp]: "mset (pop_heap key v) = mset v"
  by (cases v) (simp_all add: pop_heap_def mset_sift_down)

lemma distinct_pop_heap [simp]: "distinct (pop_heap key v) = distinct v"
  by (rule mset_eq_imp_distinct_iff) simp

lemma length_pop_heap [simp]: "length (pop_heap key v) = length v"
  by (rule mset_eq_length) simp

lemma mset_make_heap_from: "mset (make_heap_from key v i) = mset v"
  by (induction key v i rule: make_heap_from.induct) (simp_all add: mset_sift_down)

lemma mset_make_heap [simp]: "mset (make_heap key v) = mset v"
  by (simp add: make_heap_def mset_make_heap_from)

lemma distinct_make_heap [simp]: "distinct (make_heap key v) = distinct v"
  by (rule mset_eq_imp_distinct_iff) simp

lemma set_make_heap [simp]: "set (make_heap key v) = set v"
  by (rule mset_eq_setD) simp

subsection \<open>The heap order\<close>

text \<open>The order everywhere but above \<open>i\<close>, where a small element may be on its way up.\<close>

definition heap_up_to :: "('a \<Rightarrow> nat) \<Rightarrow> 'a list \<Rightarrow> nat \<Rightarrow> bool" where
  "heap_up_to key v i =
     ((\<forall>j<length v. 0 < j \<longrightarrow> j \<noteq> i \<longrightarrow> key (v ! parent j) \<le> key (v ! j)) \<and>
      (\<forall>j<length v. 0 < j \<longrightarrow> 0 < i \<longrightarrow> parent j = i \<longrightarrow> key (v ! parent i) \<le> key (v ! j)))"

lemma heap_up_to_step:
  assumes "heap_up_to key v i" and "i < length v" and "0 < i"
    and "key (v ! i) < key (v ! parent i)"
  shows "heap_up_to key (heap_swap v i (parent i)) (parent i)"
proof -
  let ?p = "parent i" and ?w = "heap_swap v i (parent i)"
  have p: "?p < i" using assms(3) by (rule parent_less)
  with assms(2) have p2: "?p < length v" by simp
  have w: "?w ! k = (if k = ?p then v ! i else if k = i then v ! ?p else v ! k)"
    if "k < length v" for k
    using that p2 assms(2) by (simp add: nth_heap_swap)
  have pj: "parent j < length v" if "j < length v" for j
    using that by (auto simp: parent_def)
  have le: "key (v ! parent j) \<le> key (v ! j)" if "j < length v" "0 < j" "j \<noteq> i" for j
    using assms that by (simp add: heap_up_to_def)
  have up: "key (v ! ?p) \<le> key (v ! j)" if "j < length v" "0 < j" "parent j = i" for j
    using assms that by (simp add: heap_up_to_def)
  have "key (?w ! parent j) \<le> key (?w ! j)" if j: "j < length v" "0 < j" "j \<noteq> ?p" for j
  proof (cases "j = i")
    case True
    then show ?thesis using w pj j p assms by (simp add: less_imp_le)
  next
    case False
    then show ?thesis using w [of j] w [of "parent j"] pj j le [of j] up [of j] assms
      by (auto intro: le_trans less_imp_le)
  qed
  moreover have "key (?w ! parent ?p) \<le> key (?w ! j)"
    if j: "j < length v" "0 < j" "0 < ?p" "parent j = ?p" for j
  proof -
    have "parent ?p \<noteq> ?p" "parent ?p \<noteq> i" "parent ?p < length v"
      using parent_less [of ?p] j p p2 by simp_all
    then have 1: "?w ! parent ?p = v ! parent ?p" using w by simp
    have 2: "key (v ! parent ?p) \<le> key (v ! ?p)" using le [of ?p] p p2 j by simp
    have "j \<noteq> ?p" using j parent_less [of j] by auto
    then show ?thesis
      using 1 2 w [of j] j le [of j] by (auto intro: le_trans)
  qed
  ultimately show ?thesis by (simp add: heap_up_to_def)
qed

lemma sift_up_heap:
  "heap_up_to key v i \<Longrightarrow> i < length v \<Longrightarrow> is_heap key (sift_up key v i)"
proof (induction key v i rule: sift_up.induct)
  case (1 key v i)
  show ?case
  proof (cases "0 < i \<and> key (v ! i) < key (v ! parent i)")
    case True
    with "1.prems" have "heap_up_to key (heap_swap v i (parent i)) (parent i)"
      by (simp add: heap_up_to_step)
    then have "is_heap key (sift_up key (heap_swap v i (parent i)) (parent i))"
      using "1.IH" "1.prems" True parent_less [of i] by simp
    then show ?thesis using True by (subst sift_up.simps) simp
  next
    case False
    with "1.prems" have "is_heap key v"
      unfolding is_heap_def heap_up_to_def
      by (metis linorder_not_le neq0_conv)
    with False show ?thesis by (subst sift_up.simps) auto
  qed
qed

lemma heap_up_to_snoc: "is_heap key v \<Longrightarrow> heap_up_to key (v @ [x]) (length v)"
  by (auto simp: is_heap_def heap_up_to_def nth_append parent_def)

lemma push_heap_heap: "is_heap key v \<Longrightarrow> is_heap key (push_heap key (v @ [x]))"
  unfolding push_heap_def by (rule sift_up_heap) (simp_all add: heap_up_to_snoc)

lemma heap_fst_least: "is_heap key v \<Longrightarrow> i < length v \<Longrightarrow> key (v ! 0) \<le> key (v ! i)"
proof (induction i rule: less_induct)
  case (less i)
  show ?case
  proof (cases "i = 0")
    case False
    then have "parent i < i" by (simp add: parent_less)
    with less have "key (v ! 0) \<le> key (v ! parent i)" by simp
    moreover have "key (v ! parent i) \<le> key (v ! i)"
      using less.prems False by (simp add: is_heap_def)
    ultimately show ?thesis by simp
  qed simp
qed

lemma heap_hd_least:
  assumes "is_heap key v" and "x \<in> set v"
  shows "key (hd v) \<le> key x"
proof -
  from assms(2) obtain i where i: "i < length v" "v ! i = x" by (auto simp: in_set_conv_nth)
  then have "v \<noteq> []" by auto
  with heap_fst_least [OF assms(1) i(1)] i(2) show ?thesis by (simp add: hd_conv_nth)
qed

lemma hd_push_heap:
  assumes "is_heap key v"
  shows "key (hd (push_heap key (v @ [x]))) =
    (if v = [] then key x else min (key (hd v)) (key x))"
proof -
  let ?w = "push_heap key (v @ [x])"
  have ne: "?w \<noteq> []" by (metis length_push_heap length_0_conv snoc_eq_iff_butlast)
  have st: "set ?w = insert x (set v)" by simp
  have le: "key (hd ?w) \<le> key y" if "y \<in> insert x (set v)" for y
    using heap_hd_least [OF push_heap_heap [OF assms]] that st by blast
  have "hd ?w \<in> insert x (set v)" using ne st hd_in_set by blast
  then have "hd ?w = x \<or> v \<noteq> [] \<and> key (hd v) \<le> key (hd ?w)"
    using heap_hd_least [OF assms] by auto
  moreover have "key (hd ?w) \<le> key x" using le by simp
  moreover have "key (hd ?w) \<le> key (hd v)" if "v \<noteq> []" using le that by simp
  ultimately show ?thesis
    by (cases "v = []") (auto simp: min_def)
qed

text \<open>
  The order among the first \<open>n\<close> elements at and below position \<open>k\<close>, but for what is
  directly below \<open>i\<close>, where a large element may be on its way down.
\<close>

definition heap_below :: "('a \<Rightarrow> nat) \<Rightarrow> 'a list \<Rightarrow> nat \<Rightarrow> nat \<Rightarrow> nat \<Rightarrow> bool" where
  "heap_below key v n k i =
     ((\<forall>j<n. 0 < j \<longrightarrow> k \<le> parent j \<longrightarrow> parent j \<noteq> i \<longrightarrow> key (v ! parent j) \<le> key (v ! j)) \<and>
      (\<forall>j<n. 0 < j \<longrightarrow> 0 < i \<longrightarrow> k \<le> parent i \<longrightarrow> parent j = i \<longrightarrow> key (v ! parent i) \<le> key (v ! j)))"

definition heap_from :: "('a \<Rightarrow> nat) \<Rightarrow> 'a list \<Rightarrow> nat \<Rightarrow> nat \<Rightarrow> bool" where
  "heap_from key v n k = (\<forall>j<n. 0 < j \<longrightarrow> k \<le> parent j \<longrightarrow> key (v ! parent j) \<le> key (v ! j))"

lemma heap_below_step:
  assumes "heap_below key v n k i" and "n \<le> length v" and "k \<le> i" and "2 * i + 1 < n"
    and "key (v ! least_child key v n i) < key (v ! i)"
  shows "heap_below key (heap_swap v i (least_child key v n i)) n k (least_child key v n i)"
proof -
  let ?c = "least_child key v n i" and ?w = "heap_swap v i (least_child key v n i)"
  have c: "?c < n" "i < ?c" "parent ?c = i" using least_child_bounds assms(4) by blast+
  have w: "?w ! m = (if m = ?c then v ! i else if m = i then v ! ?c else v ! m)"
    if "m < n" for m
    using that c assms(2) by (simp add: nth_heap_swap)
  have pj: "parent j < n" if "j < n" for j using that by (auto simp: parent_def)
  have le: "key (v ! parent j) \<le> key (v ! j)"
    if "j < n" "0 < j" "k \<le> parent j" "parent j \<noteq> i" for j
    using assms that by (simp add: heap_below_def)
  have dn: "key (v ! parent i) \<le> key (v ! j)"
    if "j < n" "0 < j" "0 < i" "k \<le> parent i" "parent j = i" for j
    using assms that by (simp add: heap_below_def)
  have "key (?w ! parent j) \<le> key (?w ! j)"
    if j: "j < n" "0 < j" "k \<le> parent j" "parent j \<noteq> ?c" for j
  proof (cases "parent j = i")
    case True
    then show ?thesis
      using w [of j] w [of i] c j least_child_least [of j n i key v] assms(5)
        parent_less [of j] by auto
  next
    case False
    then show ?thesis
      using w [of j] w [of "parent j"] pj [of j] j le [of j] dn [of ?c] c
      by (auto split: if_splits)
  qed
  moreover have "key (?w ! parent ?c) \<le> key (?w ! j)"
    if j: "j < n" "0 < j" "parent j = ?c" for j
  proof -
    have "j \<noteq> i" "j \<noteq> ?c" using parent_less [of j] j c by auto
    then show ?thesis using w [of j] w [of i] c j le [of j] assms(3) by auto
  qed
  ultimately show ?thesis by (simp add: heap_below_def)
qed

lemma sift_down_from:
  "heap_below key v n k i \<Longrightarrow> n \<le> length v \<Longrightarrow> k \<le> i \<Longrightarrow> heap_from key (sift_down key v n i) n k"
proof (induction key v n i rule: sift_down.induct)
  case (1 key v n i)
  let ?c = "least_child key v n i"
  show ?case
  proof (cases "2 * i + 1 < n \<and> key (v ! ?c) < key (v ! i)")
    case True
    with "1.prems" have "heap_below key (heap_swap v i ?c) n k ?c"
      by (simp add: heap_below_step)
    moreover have "k \<le> ?c" using least_child_bounds [of i n key v] True "1.prems" by simp
    ultimately have "heap_from key (sift_down key (heap_swap v i ?c) n ?c) n k"
      using "1.IH" "1.prems" True by simp
    with True show ?thesis by (subst sift_down.simps) simp
  next
    case False
    have "key (v ! parent j) \<le> key (v ! j)" if j: "j < n" "0 < j" "k \<le> parent j" for j
    proof (cases "parent j = i")
      case True
      then have "2 * i + 1 < n" using j children_of [of j i] by auto
      with False show ?thesis
        using least_child_least [of j n i key v] j True by simp
    next
      case False
      then show ?thesis using "1.prems" j by (simp add: heap_below_def)
    qed
    with False show ?thesis by (subst sift_down.simps) (auto simp: heap_from_def)
  qed
qed

lemma nth_sift_down_above: "n \<le> m \<Longrightarrow> sift_down key v n i ! m = v ! m"
proof (induction key v n i rule: sift_down.induct)
  case (1 key v n i)
  let ?c = "least_child key v n i"
  show ?case
  proof (cases "2 * i + 1 < n \<and> key (v ! ?c) < key (v ! i)")
    case True
    have "heap_swap v i ?c ! m = v ! m"
      using least_child_bounds [of i n key v] True "1.prems" by (simp add: heap_swap_def)
    with True "1.IH" "1.prems" show ?thesis by (subst sift_down.simps) simp
  next
    case False
    then show ?thesis by (subst sift_down.simps) auto
  qed
qed

lemma is_heap_butlast_iff:
  "is_heap key (butlast v) = heap_from key v (length v - 1) 0"
  by (auto simp: is_heap_def heap_from_def nth_butlast parent_def)

lemma is_heap_below:
  assumes "is_heap key v"
  shows "heap_below key (heap_swap v 0 (length v - 1)) (length v - 1) 0 0"
proof -
  have "key (heap_swap v 0 (length v - 1) ! parent j) \<le> key (heap_swap v 0 (length v - 1) ! j)"
    if j: "j < length v - 1" "0 < j" "parent j \<noteq> 0" for j
  proof -
    have "parent j < j" using j by (simp add: parent_less)
    with j have "heap_swap v 0 (length v - 1) ! parent j = v ! parent j"
      and "heap_swap v 0 (length v - 1) ! j = v ! j"
      by (simp_all add: heap_swap_def)
    then show ?thesis using assms j by (simp add: is_heap_def)
  qed
  then show ?thesis by (simp add: heap_below_def)
qed

lemma pop_heap_heap:
  assumes "is_heap key v"
  shows "is_heap key (butlast (pop_heap key v))"
proof (cases "length v < 2")
  case True
  then show ?thesis by (auto simp: pop_heap_def is_heap_def)
next
  case False
  then have "heap_from key (pop_heap key v) (length v - 1) 0"
    using sift_down_from [OF is_heap_below [OF assms]] by (simp add: pop_heap_def)
  then show ?thesis by (simp add: is_heap_butlast_iff)
qed

lemma last_pop_heap:
  assumes "v \<noteq> []"
  shows "last (pop_heap key v) = hd v"
proof (cases "length v < 2")
  case True
  with assms show ?thesis by (cases v) (auto simp: pop_heap_def)
next
  case False
  have "sift_down key (heap_swap v 0 (length v - 1)) (length v - 1) 0 \<noteq> []"
    using assms length_sift_down by (metis length_heap_swap length_0_conv)
  with assms False show ?thesis
    by (simp add: pop_heap_def last_conv_nth nth_sift_down_above nth_heap_swap hd_conv_nth)
qed

lemma mset_butlast_pop_heap:
  assumes "v \<noteq> []"
  shows "mset (butlast (pop_heap key v)) = mset v - {#hd v#}"
proof -
  have ne: "pop_heap key v \<noteq> []" using assms by (metis length_pop_heap length_0_conv)
  then have "mset v = mset (butlast (pop_heap key v)) + {#hd v#}"
    using assms last_pop_heap mset_pop_heap
    by (metis append_butlast_last_id mset_append mset_single_iff_right)
  then show ?thesis by simp
qed

lemma make_heap_from_heap:
  "heap_from key v (length v) i \<Longrightarrow> is_heap key (make_heap_from key v i)"
proof (induction key v i rule: make_heap_from.induct)
  case (1 key v)
  then show ?case by (simp add: is_heap_def heap_from_def)
next
  case (2 key v i)
  have "heap_below key v (length v) i i"
    using "2.prems" by (auto simp: heap_from_def heap_below_def parent_def)
  then have "heap_from key (sift_down key v (length v) i) (length v) i"
    by (simp add: sift_down_from)
  then show ?case using "2.IH" by simp
qed

lemma make_heap_heap: "is_heap key (make_heap key v)"
proof -
  have "heap_from key v (length v) (length v div 2)"
    by (auto simp: heap_from_def parent_def)
  then show ?thesis by (simp add: make_heap_def make_heap_from_heap)
qed

end
