(* ===== verification/Snippets_Model.thy ===== *)
theory Snippets_Model
  imports Sesc_Prelude
begin

text \<open>
  libsuc/Snippets.h and Snippets.cpp: the constants of simulated time and the integer
  helpers. \<open>ulong\<close> is a 64-bit word, \<open>unsigned int\<close> a 32-bit word.
\<close>

definition MaxTime :: nat where
  "MaxTime = 2 ^ 64 - 1 - 1024"

definition MaxDeltaTime :: nat where
  "MaxDeltaTime = 65535 - 1024"

text \<open>
  The loop of \<open>log2i\<close>: \<open>while (m < n) { i++; m <<= 1; }\<close> on 64-bit words. For an
  argument above \<open>2 ^ 63\<close> the shift reaches zero and the loop never ends, so the
  loop is a partial function. The result is returned as an \<open>unsigned short\<close>.
\<close>

partial_function (option) log2i_loop :: "64 word \<Rightarrow> 64 word \<Rightarrow> 64 word \<Rightarrow> 64 word option" where
  "log2i_loop n m i = (if m < n then log2i_loop n (push_bit 1 m) (i + 1) else Some i)"

definition log2i :: "64 word \<Rightarrow> 16 word option" where
  "log2i n = do {
     I_check (n \<noteq> 1 \<longrightarrow> n AND (n - 1) = 0);
     i \<leftarrow> log2i_loop n 1 0;
     Some (ucast i) }"

text \<open>\<open>roundUpPower2\<close>, the branch-free rounding of an \<open>unsigned int\<close>.\<close>

definition roundUpPower2 :: "32 word \<Rightarrow> 32 word" where
  "roundUpPower2 x0 =
     (let x1 = x0 - 1;
          x2 = x1 OR drop_bit 1 x1;
          x3 = x2 OR drop_bit 2 x2;
          x4 = x3 OR drop_bit 4 x3;
          x5 = x4 OR drop_bit 8 x4;
          x6 = x5 OR drop_bit 16 x5
      in x6 + 1)"

text \<open>The macro \<open>CEILDiv\<close>, as written: \<open>(x)-1)/(y)+1\<close> without outer parentheses.\<close>

definition CEILDiv :: "nat \<Rightarrow> nat \<Rightarrow> nat" where
  "CEILDiv x y = (x - 1) div y + 1"

end
