(* ===== verification/TQueue_Model.thy ===== *)
theory TQueue_Model
  imports Std_Heap Snippets_Model
begin

text \<open>
  The time queue of libsuc/TQueue.h and TQueue.cpp, the agenda of the simulator: an array
  of \<open>AccessSize\<close> singly linked lists of nodes for the near future (a calendar indexed by
  \<open>time & AccessMask\<close>) and a heap \<open>tooFar\<close> for the rest. The nodes are objects of the
  class \<open>User\<close> that carry their own time, next pointer and queue tag, so the model keeps
  them in a store \<open>users\<close> from node identities to records, and pointers are options of
  identities (\<open>None\<close> is the null pointer).

  This theory holds the state and the operations; \<open>TQueue_Correct\<close> holds the invariant and
  shows that the operations implement the interface of \<open>Agenda\<close>.
\<close>

subsection \<open>State\<close>

datatype queue_type = InNoQueue | InFastQueue | InTooFarQueue

record 'n user =
  tq_time :: nat
  tq_next :: "'n option"
  qType :: queue_type

record 'n tqueue =
  minTime :: nat
  minPos :: nat
  nNodes :: int
  AccessSize :: nat
  AccessMask :: nat
  access :: "'n option list"
  accessTail :: "'n option list"
  tooFar :: "'n list"
  minTooFar :: nat
  users :: "'n \<Rightarrow> 'n user"

subsection \<open>Accessors of a node\<close>

definition isInQueue :: "'n user \<Rightarrow> bool" where
  "isInQueue u = (qType u \<noteq> InNoQueue)"

definition isInFastQueue :: "'n user \<Rightarrow> bool" where
  "isInFastQueue u = (qType u = InFastQueue)"

definition isInTooFarQueue :: "'n user \<Rightarrow> bool" where
  "isInTooFarQueue u = (qType u = InTooFarQueue)"

definition upd_user :: "'n \<Rightarrow> ('n user \<Rightarrow> 'n user) \<Rightarrow> 'n tqueue \<Rightarrow> 'n tqueue" where
  "upd_user n f q = q\<lparr>users := (users q)(n := f (users q n))\<rparr>"

abbreviation removeFromQueue :: "'n \<Rightarrow> 'n tqueue \<Rightarrow> 'n tqueue" where
  "removeFromQueue n \<equiv> upd_user n (\<lambda>u. u\<lparr>qType := InNoQueue\<rparr>)"

abbreviation setInFastQueue :: "'n \<Rightarrow> 'n tqueue \<Rightarrow> 'n tqueue" where
  "setInFastQueue n \<equiv> upd_user n (\<lambda>u. u\<lparr>qType := InFastQueue\<rparr>)"

abbreviation setInTooFarQueue :: "'n \<Rightarrow> 'n tqueue \<Rightarrow> 'n tqueue" where
  "setInTooFarQueue n \<equiv> upd_user n (\<lambda>u. u\<lparr>qType := InTooFarQueue\<rparr>)"

abbreviation setTQTime :: "'n \<Rightarrow> nat \<Rightarrow> 'n tqueue \<Rightarrow> 'n tqueue" where
  "setTQTime n t \<equiv> upd_user n (\<lambda>u. u\<lparr>tq_time := t\<rparr>)"

abbreviation setTQNext :: "'n \<Rightarrow> 'n option \<Rightarrow> 'n tqueue \<Rightarrow> 'n tqueue" where
  "setTQNext n p \<equiv> upd_user n (\<lambda>u. u\<lparr>tq_next := p\<rparr>)"

abbreviation time_of :: "'n tqueue \<Rightarrow> 'n \<Rightarrow> nat" where
  "time_of q n \<equiv> tq_time (users q n)"

subsection \<open>Construction and reset\<close>

text \<open>
  \<open>reset\<close> clears \<open>access\<close> and the counters. It touches neither \<open>accessTail\<close> (whose
  malloc'ed contents \<open>junk\<close> are arbitrary) nor the nodes nor the vector \<open>tooFar\<close>.
\<close>

definition tq_reset :: "'n tqueue \<Rightarrow> 'n tqueue" where
  "tq_reset q = q\<lparr>access := replicate (AccessSize q) None, nNodes := 0,
     minTime := 0, minPos := 0, minTooFar := MaxTime\<rparr>"

definition tq_new :: "nat \<Rightarrow> 'n option list \<Rightarrow> 'n option list \<Rightarrow> ('n \<Rightarrow> 'n user) \<Rightarrow> 'n tqueue option" where
  "tq_new MaxTimeDiff junk junkTail us = do {
     I_check (7 < MaxTimeDiff);
     I_check (MaxTimeDiff AND (MaxTimeDiff - 1) = 0);
     Some (tq_reset \<lparr>minTime = 0, minPos = 0, nNodes = 0, AccessSize = MaxTimeDiff,
       AccessMask = MaxTimeDiff - 1, access = junk, accessTail = junkTail, tooFar = [],
       minTooFar = 0, users = us\<rparr>) }"

subsection \<open>Insertion\<close>

definition slot_of :: "'n tqueue \<Rightarrow> nat \<Rightarrow> nat" where
  "slot_of q t = u32 (int (minPos q) + int t - int (minTime q)) AND AccessMask q"

definition tq_addNode :: "'n tqueue \<Rightarrow> 'n \<Rightarrow> nat \<Rightarrow> 'n tqueue option" where
  "tq_addNode q node t = do {
     I_check (minTime q \<le> t);
     I_check (u32 \<bar>s32 (int t - int (minTime q))\<bar> < AccessSize q);
     let pos = slot_of q t;
     q1 \<leftarrow> (case access q ! pos of
              None \<Rightarrow> Some (q\<lparr>access := (access q)[pos := Some node]\<rparr>)
            | Some _ \<Rightarrow>
                (case accessTail q ! pos of
                   None \<Rightarrow> None
                 | Some tail \<Rightarrow> Some (setTQNext tail (Some node) q)));
     let q2 = q1\<lparr>accessTail := (accessTail q1)[pos := Some node]\<rparr>;
     let q3 = setTQNext node None (setInFastQueue node q2);
     Some (q3\<lparr>nNodes := nNodes q3 + 1\<rparr>) }"

definition tq_insert :: "'n tqueue \<Rightarrow> 'n \<Rightarrow> nat \<Rightarrow> 'n tqueue option" where
  "tq_insert q data t = do {
     I_check (\<not> isInQueue (users q data));
     I_check (minTime q \<le> t);
     let q1 = setTQTime data t q;
     if u32 (int t - int (minTime q1)) < AccessSize q1 then tq_addNode q1 data t
     else
       let q2 = setInTooFarQueue data q1;
           q3 = q2\<lparr>tooFar := push_heap (time_of q2) (tooFar q2 @ [data])\<rparr>
       in Some (if t < minTooFar q3 then q3\<lparr>minTooFar := t\<rparr> else q3) }"

subsection \<open>Extraction\<close>

lemma tq_addNode_tooFar [simp]: "tq_addNode q n t = Some q' \<Longrightarrow> tooFar q' = tooFar q"
  by (auto simp: tq_addNode_def upd_user_def Let_def split: option.splits bind_splits)

text \<open>
  The loop of \<open>adjustTooFar\<close> moves the front of the heap into the window as long as it
  fits, and stops when the heap is empty.
\<close>

function tq_adjust_loop :: "'n tqueue \<Rightarrow> 'n tqueue option" where
  "tq_adjust_loop q =
     (case tooFar q of
        [] \<Rightarrow> None
      | front # _ \<Rightarrow>
          if u32 (int (time_of q front) - int (minTime q)) < AccessSize q then
            (case tq_addNode q front (time_of q front) of
               None \<Rightarrow> None
             | Some q1 \<Rightarrow>
                 let rest = butlast (pop_heap (time_of q1) (tooFar q1));
                     q2 = q1\<lparr>tooFar := rest\<rparr>
                 in if rest = [] then Some (q2\<lparr>minTooFar := MaxTime\<rparr>)
                    else tq_adjust_loop q2)
          else Some (q\<lparr>minTooFar := time_of q front\<rparr>))"
  by pat_completeness auto
termination
  by (relation "measure (\<lambda>q. length (tooFar q))") auto

declare tq_adjust_loop.simps [simp del]

definition tq_adjustTooFar :: "'n tqueue \<Rightarrow> 'n tqueue option" where
  "tq_adjustTooFar q = do { I_check (tooFar q \<noteq> []); tq_adjust_loop q }"

text \<open>The loop \<open>while (node == 0 && minTime < cTime)\<close> of \<open>nextJob\<close>.\<close>

function tq_walk :: "'n tqueue \<Rightarrow> nat \<Rightarrow> 'n tqueue" where
  "tq_walk q cTime =
     (if access q ! minPos q = None \<and> minTime q < cTime
      then tq_walk (q\<lparr>minPos := (minPos q + 1) AND AccessMask q, minTime := minTime q + 1\<rparr>) cTime
      else q)"
  by pat_completeness auto
termination
  by (relation "measure (\<lambda>(q, c). c - minTime q)") auto

declare tq_walk.simps [simp del]

text \<open>Takes the first node of the list at \<open>minPos\<close> off the list.\<close>

definition tq_take :: "'n tqueue \<Rightarrow> 'n \<Rightarrow> 'n tqueue" where
  "tq_take q node =
     removeFromQueue node
       (q\<lparr>nNodes := nNodes q - 1, access := (access q)[minPos q := tq_next (users q node)]\<rparr>)"

definition tq_nextJob_slow :: "'n tqueue \<Rightarrow> nat \<Rightarrow> ('n option \<times> 'n tqueue) option" where
  "tq_nextJob_slow q cTime = do {
     q1 \<leftarrow> (if minTooFar q \<le> cTime then tq_adjustTooFar q else Some q);
     if nNodes q1 = 0 then Some (None, q1\<lparr>minTime := cTime, minPos := 0\<rparr>)
     else
       let q2 = tq_walk q1 cTime
       in (case access q2 ! minPos q2 of
             None \<Rightarrow> Some (None, q2)
           | Some node \<Rightarrow> do {
               I_check (minTime q2 \<le> cTime);
               I_check (nNodes q2 \<noteq> 0);
               Some (Some node, tq_take q2 node) }) }"

definition tq_nextJob :: "'n tqueue \<Rightarrow> nat \<Rightarrow> ('n option \<times> 'n tqueue) option" where
  "tq_nextJob q cTime =
     (case access q ! minPos q of
        Some node \<Rightarrow>
          if minTime q = cTime then Some (Some node, tq_take q node)
          else tq_nextJob_slow q cTime
      | None \<Rightarrow> tq_nextJob_slow q cTime)"

definition tq_size :: "'n tqueue \<Rightarrow> int" where
  "tq_size q = nNodes q + int (length (tooFar q))"

definition tq_empty :: "'n tqueue \<Rightarrow> bool" where
  "tq_empty q = (nNodes q = 0 \<and> tooFar q = [])"

subsection \<open>Removal and rescheduling\<close>

text \<open>
  The list walks of \<open>remove\<close> follow next pointers and stop at the node, or at the end of
  the list; on a cyclic list they would not stop.
\<close>

partial_function (option) tq_find_prev ::
  "('n \<Rightarrow> 'n user) \<Rightarrow> 'n \<Rightarrow> 'n option \<Rightarrow> 'n option \<Rightarrow> 'n option option" where
  "tq_find_prev us node prev cur =
     (if cur = Some node then Some prev
      else (case cur of
              None \<Rightarrow> None
            | Some c \<Rightarrow> tq_find_prev us node (Some c) (tq_next (us c))))"

partial_function (option) tq_list_end ::
  "('n \<Rightarrow> 'n user) \<Rightarrow> 'n option \<Rightarrow> 'n option option" where
  "tq_list_end us p =
     (case p of None \<Rightarrow> Some None | Some c \<Rightarrow> tq_list_end us (tq_next (us c)))"

definition tq_remove_tooFar :: "'n tqueue \<Rightarrow> 'n \<Rightarrow> 'n tqueue option" where
  "tq_remove_tooFar q node =
     (case tooFar q of
        [] \<Rightarrow> None
      | front # _ \<Rightarrow>
          if front = node then
            let rest = butlast (pop_heap (time_of q) (tooFar q))
            in Some (q\<lparr>tooFar := rest,
                 minTooFar := (case rest of [] \<Rightarrow> MaxTime | f # _ \<Rightarrow> time_of q f)\<rparr>)
          else do {
            I_check (node \<in> set (tooFar q));
            let rest = remove1 node (tooFar q);
            I_check (node \<notin> set rest);
            Some (q\<lparr>tooFar := make_heap (time_of q) rest\<rparr>) })"

definition tq_remove_fast :: "'n tqueue \<Rightarrow> 'n \<Rightarrow> 'n tqueue option" where
  "tq_remove_fast q node =
     (if access q ! minPos q = Some node then Some (tq_take q node)
      else do {
        let pos = slot_of q (time_of q node);
        prev \<leftarrow> tq_find_prev (users q) node None (access q ! pos);
        let q1 = (case prev of
                    None \<Rightarrow> q\<lparr>access := (access q)[pos := tq_next (users q node)]\<rparr>
                  | Some p \<Rightarrow> setTQNext p (tq_next (users q node)) q);
        q2 \<leftarrow> (if accessTail q1 ! pos = Some node then do {
                 e \<leftarrow> tq_list_end (users q1) (access q1 ! pos);
                 Some (q1\<lparr>accessTail := (accessTail q1)[pos := e]\<rparr>) }
               else Some q1);
        Some (q2\<lparr>nNodes := nNodes q2 - 1\<rparr>) })"

definition tq_remove :: "'n tqueue \<Rightarrow> 'n \<Rightarrow> 'n tqueue option" where
  "tq_remove q node =
     (if isInTooFarQueue (users q node) then tq_remove_tooFar q node
      else if isInFastQueue (users q node) then tq_remove_fast q node
      else do { I_check (\<not> isInQueue (users q node)); Some q })"

definition tq_reschedule :: "'n tqueue \<Rightarrow> 'n \<Rightarrow> nat \<Rightarrow> 'n tqueue option" where
  "tq_reschedule q node rTime = do {
     q1 \<leftarrow> tq_remove q node;
     I_check (\<not> isInQueue (users q1 node));
     tq_insert q1 node rTime }"

end
