(* ===== verification/Agenda.thy ===== *)
theory Agenda
  imports Snippets_Model
begin

text \<open>
  The interface between the event scheduler (libsuc/callback.h) and its queue
  (libsuc/TQueue.h). A queue is a finite map from pending nodes to the times at which
  they are due. \<open>now\<close> is the time the queue has been advanced to, \<open>span\<close> the number of
  cycles that it covers with its array. The client may advance the queue by less than
  \<open>span\<close> cycles at a time, and insert less than \<open>2 ^ 32\<close> cycles ahead (the queue
  compares time differences as 32-bit integers).
\<close>

locale agenda_queue =
  fixes ok :: "'q \<Rightarrow> bool"
    and pending :: "'q \<Rightarrow> 'n \<Rightarrow> nat option"
    and now :: "'q \<Rightarrow> nat"
    and span :: "'q \<Rightarrow> nat"
    and ins :: "'q \<Rightarrow> 'n \<Rightarrow> nat \<Rightarrow> 'q option"
    and nxt :: "'q \<Rightarrow> nat \<Rightarrow> ('n option \<times> 'q) option"
  assumes pending_finite: "ok q \<Longrightarrow> finite (dom (pending q))"
    and pending_after_now: "ok q \<Longrightarrow> pending q n = Some t \<Longrightarrow> now q \<le> t"
    and ins_law: "ok q \<Longrightarrow> pending q n = None \<Longrightarrow> now q \<le> t \<Longrightarrow> t < now q + 2 ^ 32 \<Longrightarrow> t \<le> MaxTime \<Longrightarrow>
      \<exists>q'. ins q n t = Some q' \<and> ok q' \<and> pending q' = (pending q)(n \<mapsto> t) \<and>
           now q' = now q \<and> span q' = span q"
    and nxt_law: "ok q \<Longrightarrow> now q \<le> c \<Longrightarrow> c < now q + span q \<Longrightarrow> c < MaxTime \<Longrightarrow>
      \<exists>r q'. nxt q c = Some (r, q') \<and> ok q' \<and> span q' = span q \<and>
        (case r of
           None \<Rightarrow> pending q' = pending q \<and> now q' = c \<and> (\<forall>n t. pending q n = Some t \<longrightarrow> c < t)
         | Some n \<Rightarrow> pending q n = Some (now q') \<and> now q' \<le> c \<and>
             pending q' = (pending q)(n := None))"
begin

lemma nxt_least:
  assumes "ok q" "now q \<le> c" "c < now q + span q" "c < MaxTime" and "nxt q c = Some (Some n, q')"
    and "pending q m = Some t"
  shows "now q' \<le> t"
  using nxt_law [OF assms(1-4)] assms(5,6) pending_after_now [of q' m t]
  by (cases "m = n") auto

lemma nxt_None_iff:
  assumes "ok q" "now q \<le> c" "c < now q + span q" "c < MaxTime" and "nxt q c = Some (r, q')"
  shows "(r = None) = (\<forall>n t. pending q n = Some t \<longrightarrow> c < t)"
  using nxt_law [OF assms(1-4)] assms(5) by (cases r) (auto, fastforce)

end

end
