(* ===== verification/TQueue_Correct.thy ===== *)
theory TQueue_Correct
  imports TQueue_Model Agenda
begin

text \<open>
  The invariant of the time queue and the correctness of \<open>insert\<close> and \<open>nextJob\<close>. The
  ghost function \<open>B\<close> gives the list of nodes of every bucket.
\<close>

subsection \<open>Linked lists in the node store\<close>

fun chain :: "('n \<Rightarrow> 'n user) \<Rightarrow> 'n option \<Rightarrow> 'n list \<Rightarrow> bool" where
  "chain us p [] = (p = None)"
| "chain us p (x # xs) = (p = Some x \<and> chain us (tq_next (us x)) xs)"

lemma chain_None [simp]: "chain us None xs = (xs = [])"
  by (cases xs) auto

lemma chain_Some: "chain us (Some x) xs = (\<exists>ys. xs = x # ys \<and> chain us (tq_next (us x)) ys)"
  by (cases xs) auto

lemma chain_cong:
  "chain us p xs \<Longrightarrow> (\<And>x. x \<in> set xs \<Longrightarrow> tq_next (us' x) = tq_next (us x)) \<Longrightarrow> chain us' p xs"
  by (induction xs arbitrary: p) auto

lemma chain_snoc:
  assumes "chain us p xs" and "xs \<noteq> []" and "distinct xs" and "n \<notin> set xs"
    and "tq_next (us' (last xs)) = Some n" and "tq_next (us' n) = None"
    and "\<And>x. x \<in> set (butlast xs) \<Longrightarrow> tq_next (us' x) = tq_next (us x)"
  shows "chain us' p (xs @ [n])"
  using assms
proof (induction xs arbitrary: p)
  case (Cons x xs)
  then show ?case by (cases "xs = []") auto
qed simp

subsection \<open>The invariant\<close>

definition slot :: "'n tqueue \<Rightarrow> nat \<Rightarrow> nat" where
  "slot q t = (minPos q + (t - minTime q)) mod AccessSize q"

definition size_ok :: "'n tqueue \<Rightarrow> bool" where
  "size_ok q = ((\<exists>k\<le>31. AccessSize q = 2 ^ k) \<and> AccessMask q = AccessSize q - 1 \<and>
     length (access q) = AccessSize q \<and> length (accessTail q) = AccessSize q \<and>
     minPos q < AccessSize q)"

definition bucket_ok :: "'n tqueue \<Rightarrow> nat \<Rightarrow> 'n list \<Rightarrow> bool" where
  "bucket_ok q p xs =
     (chain (users q) (access q ! p) xs \<and> distinct xs \<and>
      (xs \<noteq> [] \<longrightarrow> accessTail q ! p = Some (last xs)) \<and>
      (\<forall>n\<in>set xs. qType (users q n) = InFastQueue \<and> minTime q \<le> time_of q n \<and>
         time_of q n < minTime q + AccessSize q \<and> slot q (time_of q n) = p))"

definition window_ok :: "'n tqueue \<Rightarrow> (nat \<Rightarrow> 'n list) \<Rightarrow> bool" where
  "window_ok q B = (\<forall>p<AccessSize q. bucket_ok q p (B p))"

definition count_ok :: "'n tqueue \<Rightarrow> (nat \<Rightarrow> 'n list) \<Rightarrow> bool" where
  "count_ok q B = (nNodes q = (\<Sum>p<AccessSize q. int (length (B p))))"

definition far_node :: "'n tqueue \<Rightarrow> 'n \<Rightarrow> bool" where
  "far_node q n = (qType (users q n) = InTooFarQueue \<and> minTime q \<le> time_of q n \<and>
     time_of q n < minTime q + 2 ^ 32 \<and> time_of q n \<le> MaxTime)"

definition far_ok :: "'n tqueue \<Rightarrow> bool" where
  "far_ok q = (is_heap (time_of q) (tooFar q) \<and> distinct (tooFar q) \<and>
     (\<forall>n\<in>set (tooFar q). far_node q n))"

definition minTooFar_ok :: "'n tqueue \<Rightarrow> bool" where
  "minTooFar_ok q =
     (minTooFar q = (case tooFar q of [] \<Rightarrow> MaxTime | f # _ \<Rightarrow> time_of q f))"

definition member_ok :: "'n tqueue \<Rightarrow> (nat \<Rightarrow> 'n list) \<Rightarrow> bool" where
  "member_ok q B =
     (\<forall>n. (qType (users q n) = InFastQueue \<longrightarrow> (\<exists>p<AccessSize q. n \<in> set (B p))) \<and>
          (qType (users q n) = InTooFarQueue \<longrightarrow> n \<in> set (tooFar q)))"

definition tq_inv :: "'n tqueue \<Rightarrow> (nat \<Rightarrow> 'n list) \<Rightarrow> bool" where
  "tq_inv q B = (size_ok q \<and> window_ok q B \<and> count_ok q B \<and> far_ok q \<and>
     minTooFar_ok q \<and> member_ok q B)"

definition tq_ok :: "'n tqueue \<Rightarrow> bool" where
  "tq_ok q = (\<exists>B. tq_inv q B)"

text \<open>The abstract state: which nodes are pending, and when they are due.\<close>

definition agenda :: "'n tqueue \<Rightarrow> 'n \<Rightarrow> nat option" where
  "agenda q n = (if qType (users q n) = InNoQueue then None else Some (time_of q n))"

lemma agenda_Some: "(agenda q n = Some t) = (isInQueue (users q n) \<and> time_of q n = t)"
  by (auto simp: agenda_def isInQueue_def)

lemma agenda_frame [simp]:
  "agenda (q\<lparr>tooFar := v\<rparr>) = agenda q" "agenda (q\<lparr>minTooFar := t\<rparr>) = agenda q"
  "agenda (q\<lparr>minTime := t\<rparr>) = agenda q" "agenda (q\<lparr>minPos := t\<rparr>) = agenda q"
  by (simp_all add: agenda_def fun_eq_iff)

lemma window_frame [simp]:
  "window_ok (q\<lparr>tooFar := v\<rparr>) B = window_ok q B"
  "window_ok (q\<lparr>minTooFar := t\<rparr>) B = window_ok q B"
  by (simp_all add: window_ok_def bucket_ok_def slot_def)

subsection \<open>Arithmetic of the window\<close>

lemma mod_2_32: "k \<le> 31 \<Longrightarrow> (n::nat) mod 2 ^ 32 mod 2 ^ k = n mod 2 ^ k"
  using le_imp_power_dvd [of k 32 "2::nat"] by (intro mod_mod_cancel) simp

lemma u32_nat_mod: "u32 (int n) = n mod 2 ^ 32"
  by (simp add: u32_def zmod_int [symmetric] nat_mod_distrib)

lemma slot_of_slot:
  assumes "size_ok q" and "minTime q \<le> t"
  shows "slot_of q t = slot q t"
proof -
  from assms(1) obtain k where k: "k \<le> 31" "AccessSize q = 2 ^ k" "AccessMask q = 2 ^ k - 1"
    by (auto simp: size_ok_def)
  have "int (minPos q) + int t - int (minTime q) = int (minPos q + (t - minTime q))"
    using assms(2) by simp
  then have "slot_of q t = ((minPos q + (t - minTime q)) mod 2 ^ 32) AND (2 ^ k - 1)"
    using k(3) by (simp only: slot_of_def u32_nat_mod)
  then show ?thesis using k(1,2) by (simp only: and_mask_mod mod_2_32 slot_def)
qed

lemma slot_bound: "size_ok q \<Longrightarrow> slot q t < AccessSize q"
  by (auto simp: slot_def size_ok_def)

lemma next_pos: "size_ok q \<Longrightarrow> (minPos q + 1) AND AccessMask q = (minPos q + 1) mod AccessSize q"
  by (auto simp: size_ok_def)

lemma AccessSize_le: "size_ok q \<Longrightarrow> AccessSize q \<le> 2147483648"
  using power_increasing [of _ 31 "2::nat"] by (auto simp: size_ok_def)

lemma time_check:
  "size_ok q \<Longrightarrow> minTime q \<le> t \<Longrightarrow> t < minTime q + AccessSize q \<Longrightarrow>
   u32 \<bar>s32 (int t - int (minTime q))\<bar> < AccessSize q"
proof -
  assume a: "size_ok q" "minTime q \<le> t" "t < minTime q + AccessSize q"
  let ?d = "int t - int (minTime q)"
  have d: "0 \<le> ?d" "?d < int (AccessSize q)" "?d < 2147483648"
    using a AccessSize_le [OF a(1)] by linarith+
  then have "s32 ?d = ?d" by (simp add: s32_small)
  with d show ?thesis by (simp add: u32_small nat_less_iff)
qed

lemma near_iff:
  "minTime q \<le> t \<Longrightarrow> t < minTime q + 2 ^ 32 \<Longrightarrow>
   (u32 (int t - int (minTime q)) < AccessSize q) = (t < minTime q + AccessSize q)"
  by (auto simp: u32_small)

subsection \<open>Adding a node to the window\<close>

lemma users_upd_user [simp]: "users (upd_user n f q) = (users q)(n := f (users q n))"
  by (simp add: upd_user_def)

lemma upd_user_frame [simp]:
  "minTime (upd_user n f q) = minTime q" "minPos (upd_user n f q) = minPos q"
  "nNodes (upd_user n f q) = nNodes q" "AccessSize (upd_user n f q) = AccessSize q"
  "AccessMask (upd_user n f q) = AccessMask q" "access (upd_user n f q) = access q"
  "accessTail (upd_user n f q) = accessTail q" "tooFar (upd_user n f q) = tooFar q"
  "minTooFar (upd_user n f q) = minTooFar q"
  by (simp_all add: upd_user_def)

text \<open>What \<open>addNode\<close> may change: the lists, the count, the node and the old tail.\<close>

definition added :: "'n tqueue \<Rightarrow> 'n \<Rightarrow> 'n tqueue \<Rightarrow> bool" where
  "added q node q' =
     (minTime q' = minTime q \<and> minPos q' = minPos q \<and> AccessSize q' = AccessSize q \<and>
      AccessMask q' = AccessMask q \<and> tooFar q' = tooFar q \<and> minTooFar q' = minTooFar q \<and>
      nNodes q' = nNodes q + 1 \<and>
      (\<forall>m. time_of q' m = time_of q m) \<and>
      (\<forall>m. qType (users q' m) = (if m = node then InFastQueue else qType (users q m))))"

lemma addNode_ok:
  assumes inv: "size_ok q" "window_ok q B"
    and fresh: "\<And>p. p < AccessSize q \<Longrightarrow> node \<notin> set (B p)"
    and t: "time_of q node = t" "minTime q \<le> t" "t < minTime q + AccessSize q"
  shows "\<exists>q'. tq_addNode q node t = Some q' \<and> added q node q' \<and> size_ok q' \<and>
           window_ok q' (B(slot q t := B (slot q t) @ [node]))"
proof -
  let ?p = "slot q t"
  have p: "?p < AccessSize q" using inv(1) by (rule slot_bound)
  have pl: "?p < length (access q)" "?p < length (accessTail q)"
    using p inv(1) by (auto simp: size_ok_def)
  have bp: "bucket_ok q ?p (B ?p)" using inv(2) p by (simp add: window_ok_def)
  have other: "bucket_ok q' r (B r)"
    if "r < AccessSize q" "r \<noteq> ?p" "added q node q'" "access q' ! r = access q ! r"
      "accessTail q' ! r = accessTail q ! r"
      "\<And>x. x \<in> set (B r) \<Longrightarrow> tq_next (users q' x) = tq_next (users q x)" for q' r
  proof -
    have "bucket_ok q r (B r)" using inv(2) that(1) by (simp add: window_ok_def)
    then show ?thesis using that fresh [OF that(1)]
      by (auto simp: bucket_ok_def added_def slot_def intro: chain_cong)
  qed
  have disj: "x \<notin> set (B r)" if "x \<in> set (B ?p)" "r < AccessSize q" "r \<noteq> ?p" for x r
  proof -
    have "bucket_ok q r (B r)" using inv(2) that by (simp add: window_ok_def)
    with that bp show ?thesis by (auto simp: bucket_ok_def)
  qed
  show ?thesis
  proof (cases "access q ! ?p")
    case None
    then have Bp: "B ?p = []" using bp by (simp add: bucket_ok_def)
    let ?q = "q\<lparr>access := (access q)[?p := Some node], accessTail := (accessTail q)[?p := Some node],
      nNodes := nNodes q + 1,
      users := (users q)(node := (users q node)\<lparr>qType := InFastQueue, tq_next := None\<rparr>)\<rparr>"
    have "tq_addNode q node t = Some ?q"
      using inv(1) t None time_check [OF inv(1) t(2,3)]
      by (simp add: tq_addNode_def slot_of_slot upd_user_def Let_def)
    moreover have ad: "added q node ?q" by (simp add: added_def)
    moreover have "size_ok ?q" using inv(1) by (simp add: size_ok_def)
    moreover have "bucket_ok ?q r ((B(?p := B ?p @ [node])) r)" if "r < AccessSize q" for r
    proof (cases "r = ?p")
      case True
      then show ?thesis using Bp t pl by (simp add: bucket_ok_def slot_def)
    next
      case False
      have "bucket_ok ?q r (B r)"
        by (rule other [OF that False ad]) (use False fresh [OF that] in auto)
      then show ?thesis using False by simp
    qed
    ultimately show ?thesis by (auto simp: window_ok_def)
  next
    case (Some h)
    then have Bp: "B ?p \<noteq> []" using bp by (auto simp: bucket_ok_def)
    let ?tl = "last (B ?p)"
    have tl: "accessTail q ! ?p = Some ?tl" using bp Bp by (simp add: bucket_ok_def)
    have tln: "?tl \<noteq> node" using Bp fresh [OF p] last_in_set by metis
    let ?us = "((users q)(?tl := (users q ?tl)\<lparr>tq_next := Some node\<rparr>))
      (node := (users q node)\<lparr>qType := InFastQueue, tq_next := None\<rparr>)"
    let ?q = "q\<lparr>accessTail := (accessTail q)[?p := Some node], nNodes := nNodes q + 1,
      users := ?us\<rparr>"
    have "tq_addNode q node t = Some ?q"
      using inv(1) t Some tl tln time_check [OF inv(1) t(2,3)]
      by (simp add: tq_addNode_def slot_of_slot upd_user_def Let_def)
    moreover have ad: "added q node ?q" using tln by (simp add: added_def)
    moreover have "size_ok ?q" using inv(1) by (simp add: size_ok_def)
    moreover have "bucket_ok ?q r ((B(?p := B ?p @ [node])) r)" if r: "r < AccessSize q" for r
    proof (cases "r = ?p")
      case True
      have "chain ?us (access q ! ?p) (B ?p @ [node])"
      proof (rule chain_snoc [of "users q"])
        show "tq_next (?us x) = tq_next (users q x)" if "x \<in> set (butlast (B ?p))" for x
        proof -
          have "x \<in> set (B ?p)" using that by (rule in_set_butlastD)
          moreover have "x \<noteq> ?tl"
            using that bp Bp by (metis bucket_ok_def append_butlast_last_id distinct_append
                disjoint_insert(2) list.simps(15) IntI empty_iff list.set_intros(1))
          ultimately show ?thesis using fresh [OF p] by auto
        qed
      qed (use bp Bp fresh [OF p] tln in \<open>auto simp: bucket_ok_def\<close>)
      then show ?thesis using True bp fresh [OF p] t pl tln
        by (auto simp: bucket_ok_def slot_def)
    next
      case False
      have "?tl \<notin> set (B r)" using disj [OF _ r False] Bp by simp
      then have "bucket_ok ?q r (B r)"
        by (intro other [OF r False ad]) (use False fresh [OF r] in auto)
      then show ?thesis using False by simp
    qed
    ultimately show ?thesis by (auto simp: window_ok_def)
  qed
qed


subsection \<open>Reading the invariant\<close>

lemma is_heap_cong: "(\<And>x. x \<in> set v \<Longrightarrow> k1 x = k2 x) \<Longrightarrow> is_heap k1 v = is_heap k2 v"
  by (auto simp: is_heap_def parent_def)

lemma sum_bucket_upd:
  fixes B :: "nat \<Rightarrow> 'n list"
  shows "s < N \<Longrightarrow> (\<Sum>p<N. int (length ((B(s := xs)) p))) =
    (\<Sum>p<N. int (length (B p))) - int (length (B s)) + int (length xs)"
  by (simp add: sum.remove [of "{..<N}" s] sum.remove [of "{..<N}" s "\<lambda>p. int (length (B p))"])

lemma window_member:
  "window_ok q B \<Longrightarrow> p < AccessSize q \<Longrightarrow> n \<in> set (B p) \<Longrightarrow>
   qType (users q n) = InFastQueue \<and> minTime q \<le> time_of q n \<and>
   time_of q n < minTime q + AccessSize q \<and> slot q (time_of q n) = p"
  by (auto simp: window_ok_def bucket_ok_def)

lemma window_idle:
  "window_ok q B \<Longrightarrow> qType (users q n) \<noteq> InFastQueue \<Longrightarrow> p < AccessSize q \<Longrightarrow> n \<notin> set (B p)"
  by (auto dest: window_member)

lemma far_idle: "far_ok q \<Longrightarrow> qType (users q n) \<noteq> InTooFarQueue \<Longrightarrow> n \<notin> set (tooFar q)"
  by (auto simp: far_ok_def far_node_def)

lemma minTooFar_hd:
  "tooFar q \<noteq> [] \<Longrightarrow> minTooFar_ok q = (minTooFar q = time_of q (hd (tooFar q)))"
  by (auto simp: minTooFar_ok_def split: list.splits)

lemma head_bucket:
  assumes "size_ok q" and "window_ok q B" and "access q ! minPos q = Some node"
  shows "\<exists>xs. B (minPos q) = node # xs \<and> chain (users q) (tq_next (users q node)) xs \<and>
           time_of q node = minTime q"
proof -
  have p: "minPos q < AccessSize q" using assms(1) by (simp add: size_ok_def)
  have b: "bucket_ok q (minPos q) (B (minPos q))" using assms(2) p by (simp add: window_ok_def)
  then obtain xs where xs: "B (minPos q) = node # xs" "chain (users q) (tq_next (users q node)) xs"
    using assms(3) by (auto simp: bucket_ok_def chain_Some)
  let ?d = "time_of q node - minTime q"
  have "?d < AccessSize q" "minTime q \<le> time_of q node" "(minPos q + ?d) mod AccessSize q = minPos q"
    using b xs by (auto simp: bucket_ok_def slot_def)
  then have "?d = 0"
    using p by (cases "minPos q + ?d < AccessSize q") (auto simp: le_mod_geq)
  with \<open>minTime q \<le> time_of q node\<close> xs show ?thesis by auto
qed

subsection \<open>Insertion\<close>

lemma setTQTime_window:
  assumes "window_ok q B" and "qType (users q n) = InNoQueue"
  shows "window_ok (setTQTime n t q) B"
proof -
  have "bucket_ok (setTQTime n t q) p (B p)" if p: "p < AccessSize q" for p
  proof -
    have n: "n \<notin> set (B p)" using window_idle assms p by fastforce
    have "bucket_ok q p (B p)" using assms(1) p by (simp add: window_ok_def)
    with n show ?thesis
      by (auto simp: bucket_ok_def slot_def intro: chain_cong)
  qed
  then show ?thesis by (simp add: window_ok_def)
qed

lemma insert_near:
  assumes inv: "tq_inv q B" and n: "qType (users q n) = InNoQueue"
    and t: "minTime q \<le> t" "t < minTime q + AccessSize q"
  shows "\<exists>q' B'. tq_insert q n t = Some q' \<and> tq_inv q' B' \<and> agenda q' = (agenda q)(n \<mapsto> t) \<and>
           minTime q' = minTime q \<and> AccessSize q' = AccessSize q"
proof -
  let ?q = "setTQTime n t q" and ?B = "B(slot q t := B (slot q t) @ [n])"
  have sl: "slot ?q t = slot q t" by (simp add: slot_def)
  have sz: "size_ok ?q" using inv by (simp add: tq_inv_def size_ok_def)
  have win: "window_ok ?q B" using inv n by (simp add: tq_inv_def setTQTime_window)
  have fr: "n \<notin> set (B p)" if "p < AccessSize ?q" for p
    using window_idle [OF win _ that] n by simp
  obtain q' where q': "tq_addNode ?q n t = Some q'" "added ?q n q'" "size_ok q'" "window_ok q' ?B"
    using addNode_ok [OF sz win fr, of t] t by (auto simp: sl)
  have nf: "n \<notin> set (tooFar q)" using inv n by (simp add: tq_inv_def far_idle)
  have tm: "time_of q' m = (if m = n then t else time_of q m)" for m
    using q'(2) by (simp add: added_def)
  have p: "slot q t < AccessSize q" using inv by (simp add: tq_inv_def slot_bound)
  have "count_ok q' ?B"
    using inv q'(2) p by (simp add: tq_inv_def count_ok_def added_def sum_bucket_upd del: fun_upd_apply)
  moreover have "far_ok q'"
  proof -
    have "is_heap (time_of q') (tooFar q) = is_heap (time_of q) (tooFar q)"
      using nf tm by (intro is_heap_cong) auto
    then show ?thesis
      using inv q'(2) nf tm by (auto simp: tq_inv_def far_ok_def far_node_def added_def)
  qed
  moreover have "minTooFar_ok q'"
    using inv q'(2) nf tm
    by (auto simp: tq_inv_def minTooFar_ok_def added_def split: list.splits)
  moreover have "member_ok q' ?B"
  proof -
    have "\<exists>r<AccessSize q. m \<in> set (?B r)" if "qType (users q' m) = InFastQueue" for m
    proof (cases "m = n")
      case True
      with p show ?thesis by (intro exI [of _ "slot q t"]) simp
    next
      case False
      then have "qType (users q m) = InFastQueue" using that q'(2) by (simp add: added_def)
      then obtain r where "r < AccessSize q" "m \<in> set (B r)"
        using inv by (auto simp: tq_inv_def member_ok_def)
      then show ?thesis by (intro exI [of _ r]) auto
    qed
    moreover have "m \<in> set (tooFar q)" if "qType (users q' m) = InTooFarQueue" for m
      using inv q'(2) that by (auto simp: tq_inv_def member_ok_def added_def split: if_splits)
    ultimately show ?thesis using q'(2) by (simp add: member_ok_def added_def)
  qed
  moreover have "agenda q' = (agenda q)(n \<mapsto> t)"
    using q'(2) tm by (auto simp: agenda_def added_def)
  moreover have "tq_insert q n t = Some q'"
  proof -
    have "AccessSize q \<le> 2147483648" using inv by (simp add: tq_inv_def AccessSize_le)
    then have "u32 (int t - int (minTime q)) < AccessSize q"
      using t near_iff [of q t] by simp
    then show ?thesis using q'(1) n t by (simp add: tq_insert_def isInQueue_def Let_def)
  qed
  ultimately show ?thesis
    using q' by (auto simp: tq_inv_def added_def)
qed

lemma insert_far:
  assumes inv: "tq_inv q B" and n: "qType (users q n) = InNoQueue"
    and t: "minTime q + AccessSize q \<le> t" "t < minTime q + 2 ^ 32" "t \<le> MaxTime"
  shows "\<exists>q'. tq_insert q n t = Some q' \<and> tq_inv q' B \<and> agenda q' = (agenda q)(n \<mapsto> t) \<and>
           minTime q' = minTime q \<and> AccessSize q' = AccessSize q"
proof -
  let ?q1 = "setInTooFarQueue n (setTQTime n t q)"
  let ?v = "push_heap (time_of ?q1) (tooFar q @ [n])"
  let ?q' = "?q1\<lparr>tooFar := ?v, minTooFar := min t (minTooFar q)\<rparr>"
  have ins: "tq_insert q n t = Some ?q'"
    using n t near_iff [of q t]
    by (simp add: tq_insert_def isInQueue_def Let_def upd_user_def min_def)
  have nf: "n \<notin> set (tooFar q)" using inv n by (simp add: tq_inv_def far_idle)
  have nw: "n \<notin> set (B p)" if "p < AccessSize q" for p
    using inv n that window_idle by (fastforce simp: tq_inv_def)
  have "window_ok ?q' B"
    unfolding window_ok_def
  proof (intro allI impI)
    fix p assume p: "p < AccessSize ?q'"
    then have "bucket_ok q p (B p)" using inv by (simp add: tq_inv_def window_ok_def)
    then show "bucket_ok ?q' p (B p)" using nw [of p] p
      by (auto simp: bucket_ok_def slot_def intro: chain_cong)
  qed
  moreover have "far_ok ?q'"
  proof -
    have "is_heap (time_of ?q1) (tooFar q) = is_heap (time_of q) (tooFar q)"
      using nf by (intro is_heap_cong) auto
    then have "is_heap (time_of ?q1) ?v"
      using inv by (intro push_heap_heap) (simp add: tq_inv_def far_ok_def)
    moreover have "distinct ?v"
      using inv nf by (simp add: tq_inv_def far_ok_def)
    ultimately show ?thesis
      using inv nf t by (auto simp: tq_inv_def far_ok_def far_node_def)
  qed
  moreover have "minTooFar_ok ?q'"
  proof -
    have "is_heap (time_of ?q1) (tooFar q) = is_heap (time_of q) (tooFar q)"
      using nf by (intro is_heap_cong) auto
    then have "is_heap (time_of ?q1) (tooFar q)"
      using inv by (simp add: tq_inv_def far_ok_def)
    then have hd: "time_of ?q1 (hd ?v) =
        (if tooFar q = [] then t else min (time_of ?q1 (hd (tooFar q))) t)"
      by (subst hd_push_heap) simp_all
    have ne: "?v \<noteq> []" by (metis length_push_heap length_0_conv snoc_eq_iff_butlast)
    have "time_of ?q1 (hd (tooFar q)) = minTooFar q" if "tooFar q \<noteq> []"
      using inv nf that hd_in_set [OF that] minTooFar_hd [OF that]
      by (auto simp: tq_inv_def)
    moreover have "minTooFar q = MaxTime" if "tooFar q = []"
      using inv that by (simp add: tq_inv_def minTooFar_ok_def)
    ultimately have "time_of ?q1 (hd ?v) = min t (minTooFar q)"
      using hd t(3) by (auto simp: min.commute)
    then show ?thesis using ne by (simp add: minTooFar_hd)
  qed
  moreover have "member_ok ?q' B"
    using inv n by (auto simp: tq_inv_def member_ok_def)
  moreover have "agenda ?q' = (agenda q)(n \<mapsto> t)"
    by (auto simp: agenda_def)
  moreover have "size_ok ?q'" "count_ok ?q' B"
    using inv by (simp_all add: tq_inv_def size_ok_def count_ok_def)
  ultimately show ?thesis using ins by (auto simp: tq_inv_def)
qed


subsection \<open>Taking the first node\<close>

lemma take_ok:
  assumes inv: "tq_inv q B" and hd: "access q ! minPos q = Some node"
  shows "tq_inv (tq_take q node) (B(minPos q := tl (B (minPos q)))) \<and>
         agenda q node = Some (minTime q) \<and>
         agenda (tq_take q node) = (agenda q)(node := None) \<and> 0 < nNodes q"
proof -
  let ?p = "minPos q" and ?q = "tq_take q node" and ?B = "B(minPos q := tl (B (minPos q)))"
  have sz: "size_ok q" and win: "window_ok q B" using inv by (simp_all add: tq_inv_def)
  obtain xs where xs: "B ?p = node # xs" "chain (users q) (tq_next (users q node)) xs"
      "time_of q node = minTime q"
    using head_bucket [OF sz win hd] by blast
  have p: "?p < AccessSize q" "?p < length (access q)" using sz by (auto simp: size_ok_def)
  have bp: "bucket_ok q ?p (node # xs)" using win p xs by (auto simp: window_ok_def)
  have nodeT: "qType (users q node) = InFastQueue" using bp by (simp add: bucket_ok_def)
  have "bucket_ok ?q r (?B r)" if r: "r < AccessSize q" for r
  proof (cases "r = ?p")
    case True
    have "node \<notin> set xs" using bp by (simp add: bucket_ok_def)
    then have "chain (users ?q) (tq_next (users q node)) xs"
      using xs(2) by (auto simp: tq_take_def intro: chain_cong)
    then show ?thesis using True bp xs p
      by (auto simp: bucket_ok_def tq_take_def slot_def split: if_splits)
  next
    case False
    have b: "bucket_ok q r (B r)" using win r by (simp add: window_ok_def)
    have "node \<notin> set (B r)"
      using window_member [OF win r, of node] window_member [OF win p(1), of node] xs False by auto
    then show ?thesis using b False p
      by (auto simp: bucket_ok_def tq_take_def slot_def intro: chain_cong)
  qed
  then have "window_ok ?q ?B" by (simp add: window_ok_def tq_take_def)
  moreover have "size_ok ?q" using sz by (simp add: size_ok_def tq_take_def)
  moreover have "count_ok ?q ?B"
    using inv p(1) xs(1) by (simp add: tq_inv_def count_ok_def tq_take_def sum_bucket_upd del: fun_upd_apply)
  moreover have nf: "node \<notin> set (tooFar q)" using inv nodeT by (simp add: tq_inv_def far_idle)
  have tm: "time_of ?q = time_of q" by (auto simp: tq_take_def)
  have "far_ok ?q"
    using inv nf tm by (auto simp: tq_inv_def far_ok_def far_node_def tq_take_def)
  moreover have "minTooFar_ok ?q"
    using inv tm by (auto simp: tq_inv_def minTooFar_ok_def tq_take_def split: list.splits)
  moreover have "member_ok ?q ?B"
  proof -
    have "\<exists>r<AccessSize q. m \<in> set (?B r)" if "qType (users ?q m) = InFastQueue" for m
    proof -
      have m: "m \<noteq> node" "qType (users q m) = InFastQueue"
        using that by (auto simp: tq_take_def split: if_splits)
      then obtain r where "r < AccessSize q" "m \<in> set (B r)"
        using inv by (auto simp: tq_inv_def member_ok_def)
      with m(1) xs(1) show ?thesis by (intro exI [of _ r]) auto
    qed
    moreover have "m \<in> set (tooFar q)" if "qType (users ?q m) = InTooFarQueue" for m
      using inv that by (auto simp: tq_inv_def member_ok_def tq_take_def split: if_splits)
    moreover have "AccessSize ?q = AccessSize q" "tooFar ?q = tooFar q"
      by (simp_all add: tq_take_def)
    ultimately show ?thesis unfolding member_ok_def by metis
  qed
  moreover have "agenda ?q = (agenda q)(node := None)"
    using tm by (auto simp: agenda_def tq_take_def fun_eq_iff)
  moreover have "agenda q node = Some (minTime q)" using nodeT xs(3) by (simp add: agenda_def)
  moreover have "0 < nNodes q"
  proof -
    have "int (length (B ?p)) \<le> nNodes q"
      using inv p(1) by (auto simp: tq_inv_def count_ok_def intro!: member_le_sum)
    then show ?thesis using xs(1) by simp
  qed
  ultimately show ?thesis by (simp add: tq_inv_def)
qed

subsection \<open>Walking to the next bucket\<close>

lemma step_slot:
  assumes "(m::nat) + 1 \<le> t" and "p < N"
  shows "((p + 1) mod N + (t - (m + 1))) mod N = (p + (t - m)) mod N"
proof -
  have "((p + 1) mod N + (t - (m + 1))) mod N = (p + 1 + (t - (m + 1))) mod N"
    by (rule mod_add_left_eq)
  also have "p + 1 + (t - (m + 1)) = p + (t - m)" using assms(1) by simp
  finally show ?thesis .
qed

lemma walk_step:
  assumes inv: "tq_inv q B" and e: "access q ! minPos q = None"
    and far: "\<forall>n\<in>set (tooFar q). minTime q < time_of q n"
  shows "tq_inv (q\<lparr>minPos := (minPos q + 1) AND AccessMask q, minTime := minTime q + 1\<rparr>) B"
proof -
  let ?q = "q\<lparr>minPos := (minPos q + 1) AND AccessMask q, minTime := minTime q + 1\<rparr>"
  have sz: "size_ok q" and win: "window_ok q B" using inv by (simp_all add: tq_inv_def)
  have p: "minPos q < AccessSize q" using sz by (simp add: size_ok_def)
  have pos: "minPos ?q = (minPos q + 1) mod AccessSize q"
    using next_pos [OF sz] by simp
  have Bp: "B (minPos q) = []"
    using win p e by (auto simp: window_ok_def bucket_ok_def)
  have later: "minTime q + 1 \<le> time_of q n" if "r < AccessSize q" "n \<in> set (B r)" for r n
  proof -
    have n: "minTime q \<le> time_of q n" "slot q (time_of q n) = r"
      using window_member [OF win that] by simp_all
    have "time_of q n \<noteq> minTime q"
      using n(2) p that Bp by (auto simp: slot_def)
    with n(1) show ?thesis by simp
  qed
  have "bucket_ok ?q r (B r)" if r: "r < AccessSize q" for r
  proof -
    have b: "bucket_ok q r (B r)" using win r by (simp add: window_ok_def)
    have "slot ?q (time_of q n) = slot q (time_of q n)" if "n \<in> set (B r)" for n
      using later [OF r that] p pos step_slot [of "minTime q" "time_of q n" "minPos q" "AccessSize q"]
      by (simp add: slot_def)
    then show ?thesis using b later [OF r]
      by (fastforce simp: bucket_ok_def)
  qed
  then have "window_ok ?q B" by (simp add: window_ok_def)
  moreover have "size_ok ?q" using sz pos p by (simp add: size_ok_def)
  moreover have "far_ok ?q"
    using inv far by (auto simp: tq_inv_def far_ok_def far_node_def)
  ultimately show ?thesis
    using inv by (simp add: tq_inv_def count_ok_def minTooFar_ok_def member_ok_def split: list.splits)
qed

lemma walk_ok:
  "tq_inv q B \<Longrightarrow> minTime q \<le> c \<Longrightarrow> \<forall>n\<in>set (tooFar q). c < time_of q n \<Longrightarrow>
   (let q' = tq_walk q c in
      tq_inv q' B \<and> agenda q' = agenda q \<and> AccessSize q' = AccessSize q \<and> tooFar q' = tooFar q \<and>
      time_of q' = time_of q \<and> nNodes q' = nNodes q \<and>
      minTime q \<le> minTime q' \<and> minTime q' \<le> c \<and>
      (access q' ! minPos q' = None \<longrightarrow> minTime q' = c))"
proof (induction q c rule: tq_walk.induct)
  case (1 q c)
  let ?s = "q\<lparr>minPos := (minPos q + 1) AND AccessMask q, minTime := minTime q + 1\<rparr>"
  show ?case
  proof (cases "access q ! minPos q = None \<and> minTime q < c")
    case True
    have "tq_inv ?s B" using True "1.prems" by (intro walk_step) auto
    moreover have "agenda ?s = agenda q" by (simp add: agenda_def fun_eq_iff)
    ultimately show ?thesis
      using "1.IH" True "1.prems" by (subst tq_walk.simps) (auto simp: Let_def)
  next
    case False
    then show ?thesis using "1.prems" by (subst tq_walk.simps) (auto simp: Let_def)
  qed
qed


subsection \<open>Moving the near part of the heap into the window\<close>

text \<open>The invariant without \<open>minTooFar\<close>, which is out of date inside the loop.\<close>

definition tq_inv_loop :: "'n tqueue \<Rightarrow> (nat \<Rightarrow> 'n list) \<Rightarrow> bool" where
  "tq_inv_loop q B = (size_ok q \<and> window_ok q B \<and> count_ok q B \<and> far_ok q \<and> member_ok q B)"

lemma tq_inv_split: "tq_inv q B = (tq_inv_loop q B \<and> minTooFar_ok q)"
  by (auto simp: tq_inv_def tq_inv_loop_def)

lemma set_pop_rest:
  assumes "distinct v" and "v \<noteq> []"
  shows "distinct (butlast (pop_heap k v)) \<and> set (butlast (pop_heap k v)) = set v - {hd v}"
proof -
  have m: "mset (butlast (pop_heap k v)) = mset (tl v)"
    using assms(2) mset_butlast_pop_heap [OF assms(2)] by (cases v) auto
  then have "set (butlast (pop_heap k v)) = set (tl v)"
    and "distinct (butlast (pop_heap k v)) = distinct (tl v)"
    by (rule mset_eq_setD, rule mset_eq_imp_distinct_iff)
  with assms show ?thesis by (cases v) auto
qed

lemma adjust_step:
  assumes inv: "tq_inv_loop q B" and v: "tooFar q = front # v"
    and near: "time_of q front < minTime q + AccessSize q"
  shows "\<exists>q1 B'. tq_addNode q front (time_of q front) = Some q1 \<and> added q front q1 \<and>
     tq_inv_loop (q1\<lparr>tooFar := butlast (pop_heap (time_of q1) (tooFar q1))\<rparr>) B' \<and>
     set (butlast (pop_heap (time_of q1) (tooFar q1))) = set (tooFar q) - {front}"
proof -
  let ?t = "time_of q front" and ?B = "B(slot q (time_of q front) := B (slot q (time_of q front)) @ [front])"
  have sz: "size_ok q" and win: "window_ok q B" and far: "far_ok q"
    using inv by (simp_all add: tq_inv_loop_def)
  have ft: "qType (users q front) = InTooFarQueue" "minTime q \<le> ?t"
    using far v by (simp_all add: far_ok_def far_node_def)
  have fr: "front \<notin> set (B p)" if "p < AccessSize q" for p
    using window_idle [OF win _ that] ft by simp
  obtain q1 where q1: "tq_addNode q front ?t = Some q1" "added q front q1" "size_ok q1"
      "window_ok q1 ?B"
    using addNode_ok [OF sz win fr, of ?t] ft near by auto
  have tm: "time_of q1 = time_of q" using q1(2) by (simp add: added_def)
  have far1: "tooFar q1 = tooFar q" using q1(2) by (simp add: added_def)
  let ?rest = "butlast (pop_heap (time_of q1) (tooFar q1))"
  let ?q2 = "q1\<lparr>tooFar := ?rest\<rparr>"
  have rest: "distinct ?rest" "set ?rest = set (tooFar q) - {front}"
    using far v set_pop_rest [of "tooFar q" "time_of q1"] by (auto simp: far1 far_ok_def)
  have p: "slot q ?t < AccessSize q" using sz by (rule slot_bound)
  have "window_ok ?q2 ?B" using q1(4) by simp
  moreover have "size_ok ?q2" using q1(3) by (simp add: size_ok_def)
  moreover have "count_ok ?q2 ?B"
    using inv q1(2) p
    by (simp add: tq_inv_loop_def count_ok_def added_def sum_bucket_upd del: fun_upd_apply)
  moreover have "far_ok ?q2"
  proof -
    have "is_heap (time_of q1) ?rest"
      using far tm far1 by (intro pop_heap_heap) (simp add: far_ok_def)
    then show ?thesis
      using rest far q1(2) tm by (auto simp: far_ok_def far_node_def added_def)
  qed
  moreover have "member_ok ?q2 ?B"
  proof -
    have "\<exists>r<AccessSize q. m \<in> set (?B r)" if m: "qType (users q1 m) = InFastQueue" for m
    proof (cases "m = front")
      case True
      with p show ?thesis by (intro exI [of _ "slot q ?t"]) simp
    next
      case False
      then have "qType (users q m) = InFastQueue" using m q1(2) by (simp add: added_def)
      then obtain r where "r < AccessSize q" "m \<in> set (B r)"
        using inv by (auto simp: tq_inv_loop_def member_ok_def)
      then show ?thesis by (intro exI [of _ r]) auto
    qed
    moreover have "m \<in> set ?rest" if "qType (users q1 m) = InTooFarQueue" for m
      using inv q1(2) that rest
      by (auto simp: tq_inv_loop_def member_ok_def added_def split: if_splits)
    ultimately show ?thesis using q1(2) by (simp add: member_ok_def added_def)
  qed
  ultimately show ?thesis using q1 rest by (auto simp: tq_inv_loop_def)
qed

text \<open>What a move of nodes between the two parts keeps, and what it establishes.\<close>

definition moved :: "'n tqueue \<Rightarrow> 'n tqueue \<Rightarrow> bool" where
  "moved q q' = (minTime q' = minTime q \<and> minPos q' = minPos q \<and> AccessSize q' = AccessSize q \<and>
     agenda q' = agenda q)"

lemma added_agenda: "added q n q1 \<Longrightarrow> qType (users q n) \<noteq> InNoQueue \<Longrightarrow> agenda q1 = agenda q"
  by (auto simp: added_def agenda_def fun_eq_iff)

lemma adjust_loop_ok:
  "tq_inv_loop q B \<Longrightarrow> tooFar q \<noteq> [] \<Longrightarrow>
   \<exists>q' B'. tq_adjust_loop q = Some q' \<and> tq_inv q' B' \<and> moved q q' \<and>
     (\<forall>n\<in>set (tooFar q'). minTime q' + AccessSize q' \<le> time_of q' n)"
proof (induction q arbitrary: B rule: tq_adjust_loop.induct)
  case (1 q)
  from "1.prems"(2) obtain front v where v: "tooFar q = front # v" by (cases "tooFar q") auto
  have far: "far_ok q" using "1.prems"(1) by (simp add: tq_inv_loop_def)
  then have ft: "far_node q front" using v by (simp add: far_ok_def)
  have niff: "(u32 (int (time_of q front) - int (minTime q)) < AccessSize q) =
      (time_of q front < minTime q + AccessSize q)"
    using ft by (intro near_iff) (simp_all add: far_node_def)
  show ?case
  proof (cases "time_of q front < minTime q + AccessSize q")
    case True
    obtain q1 B1 where q1: "tq_addNode q front (time_of q front) = Some q1" "added q front q1"
        "tq_inv_loop (q1\<lparr>tooFar := butlast (pop_heap (time_of q1) (tooFar q1))\<rparr>) B1"
      using adjust_step [OF "1.prems"(1) v True] by blast
    let ?rest = "butlast (pop_heap (time_of q1) (tooFar q1))"
    let ?q2 = "q1\<lparr>tooFar := ?rest\<rparr>"
    have ag: "agenda ?q2 = agenda q"
      using added_agenda [OF q1(2)] ft by (simp add: far_node_def agenda_def)
    have mv: "moved q ?q2" using q1(2) ag by (simp add: moved_def added_def)
    show ?thesis
    proof (cases "?rest = []")
      case empty: True
      then have "tq_adjust_loop q = Some (?q2\<lparr>minTooFar := MaxTime\<rparr>)"
        using v True niff q1(1) by (subst tq_adjust_loop.simps) (simp add: Let_def)
      moreover have "tq_inv (?q2\<lparr>minTooFar := MaxTime\<rparr>) B1"
        using q1(3) empty
        by (simp add: tq_inv_def tq_inv_loop_def size_ok_def
            count_ok_def far_ok_def minTooFar_ok_def member_ok_def)
      moreover have "moved q (?q2\<lparr>minTooFar := MaxTime\<rparr>)"
        using mv by (simp add: moved_def agenda_def)
      ultimately show ?thesis using empty by auto
    next
      case False
      then have eq: "tq_adjust_loop q = tq_adjust_loop ?q2"
        using v True niff q1(1) by (subst tq_adjust_loop.simps) (simp add: Let_def)
      have "\<exists>q' B'. tq_adjust_loop ?q2 = Some q' \<and> tq_inv q' B' \<and> moved ?q2 q' \<and>
          (\<forall>n\<in>set (tooFar q'). minTime q' + AccessSize q' \<le> time_of q' n)"
        using "1.IH" [OF v _ q1(1) refl refl False q1(3)] True niff False by simp
      then show ?thesis using eq mv by (auto simp: moved_def)
    qed
  next
    case False
    let ?q' = "q\<lparr>minTooFar := time_of q front\<rparr>"
    have "tq_adjust_loop q = Some ?q'"
      using v False niff by (subst tq_adjust_loop.simps) simp
    moreover have "tq_inv ?q' B"
      using "1.prems"(1) v
      by (simp add: tq_inv_def tq_inv_loop_def size_ok_def
          count_ok_def far_ok_def far_node_def minTooFar_ok_def member_ok_def)
    moreover have "moved q ?q'" by (simp add: moved_def agenda_def)
    moreover have "minTime q + AccessSize q \<le> time_of q n" if "n \<in> set (tooFar q)" for n
      using heap_hd_least [of "time_of q" "tooFar q" n] far that v False
      by (simp add: far_ok_def)
    ultimately show ?thesis by auto
  qed
qed


subsection \<open>The next job\<close>

lemma minTooFar_bound:
  assumes "tq_inv q B" and "c < minTooFar q" and "n \<in> set (tooFar q)"
  shows "c < time_of q n"
proof -
  have "tooFar q \<noteq> []" using assms(3) by auto
  then have "minTooFar q = time_of q (hd (tooFar q))"
    using assms(1) by (simp add: tq_inv_def minTooFar_hd)
  moreover have "time_of q (hd (tooFar q)) \<le> time_of q n"
    using assms by (intro heap_hd_least) (simp_all add: tq_inv_def far_ok_def)
  ultimately show ?thesis using assms(2) by simp
qed

text \<open>After the heap was adjusted: the clock is inside the window and the heap is past it.\<close>

lemma next_tail:
  assumes inv: "tq_inv q B" and c: "minTime q \<le> c" and far: "\<forall>n\<in>set (tooFar q). c < time_of q n"
    and ne: "nNodes q \<noteq> 0"
  shows "let q2 = tq_walk q c in tq_inv q2 B \<and> agenda q2 = agenda q \<and> AccessSize q2 = AccessSize q \<and>
    minTime q2 \<le> c \<and>
    (case access q2 ! minPos q2 of
       None \<Rightarrow> minTime q2 = c \<and> (\<forall>n t. agenda q n = Some t \<longrightarrow> c < t)
     | Some n \<Rightarrow> agenda q n = Some (minTime q2))"
proof -
  let ?q2 = "tq_walk q c"
  have w: "tq_inv ?q2 B" "agenda ?q2 = agenda q" "AccessSize ?q2 = AccessSize q"
      "tooFar ?q2 = tooFar q" "time_of ?q2 = time_of q" "minTime ?q2 \<le> c"
      "access ?q2 ! minPos ?q2 = None \<longrightarrow> minTime ?q2 = c"
    using walk_ok [OF inv c far] by (simp_all add: Let_def)
  have none: "c < t" if e: "access ?q2 ! minPos ?q2 = None" and a: "agenda q n = Some t" for n t
  proof (cases "qType (users ?q2 n)")
    case InNoQueue
    then show ?thesis using a w(2) by (metis agenda_def option.simps(3))
  next
    case InTooFarQueue
    then have "n \<in> set (tooFar q)" using w(1,4) by (auto simp: tq_inv_def member_ok_def)
    moreover have "t = time_of q n" using a by (auto simp: agenda_def split: if_splits)
    ultimately show ?thesis using far by simp
  next
    case InFastQueue
    then obtain p where p: "p < AccessSize ?q2" "n \<in> set (B p)"
      using w(1) by (auto simp: tq_inv_def member_ok_def)
    have win: "window_ok ?q2 B" and sz: "size_ok ?q2" using w(1) by (simp_all add: tq_inv_def)
    have mp: "minPos ?q2 < AccessSize ?q2" using sz by (simp add: size_ok_def)
    have "B (minPos ?q2) = []" using win mp e by (auto simp: window_ok_def bucket_ok_def)
    then have "p \<noteq> minPos ?q2" using p by auto
    then have "time_of ?q2 n \<noteq> minTime ?q2"
      using window_member [OF win p] mp by (auto simp: slot_def)
    moreover have "minTime ?q2 \<le> time_of ?q2 n" using window_member [OF win p] by simp
    moreover have "t = time_of ?q2 n"
      using a fun_cong [OF w(5), of n] by (simp add: agenda_def split: if_splits)
    ultimately show ?thesis using e w(7) by simp
  qed
  have "agenda q n = Some (minTime ?q2)" if "access ?q2 ! minPos ?q2 = Some n" for n
    using take_ok [OF w(1) that] w(2) by simp
  then show ?thesis using w none by (auto simp: Let_def split: option.splits)
qed

lemma empty_window:
  assumes inv: "tq_inv q B" and e: "nNodes q = 0" and p: "p < AccessSize q"
  shows "B p = []"
proof -
  have "(\<Sum>p<AccessSize q. int (length (B p))) = 0" using inv e by (simp add: tq_inv_def count_ok_def)
  then show ?thesis using p by (subst (asm) sum_nonneg_eq_0_iff) auto
qed

lemma rebase_ok:
  assumes inv: "tq_inv q B" and e: "nNodes q = 0" and c: "minTime q \<le> c"
    and far: "\<forall>n\<in>set (tooFar q). c < time_of q n"
  shows "tq_inv (q\<lparr>minTime := c, minPos := 0\<rparr>) B \<and> (\<forall>n t. agenda q n = Some t \<longrightarrow> c < t)"
proof -
  let ?q = "q\<lparr>minTime := c, minPos := 0\<rparr>"
  have B: "B p = []" if "p < AccessSize q" for p using empty_window [OF inv e that] .
  have "bucket_ok ?q p (B p)" if p: "p < AccessSize q" for p
  proof -
    have "bucket_ok q p (B p)" using inv p by (simp add: tq_inv_def window_ok_def)
    then show ?thesis using B [OF p] by (simp add: bucket_ok_def)
  qed
  then have "window_ok ?q B" by (simp add: window_ok_def)
  moreover have "size_ok ?q" using inv by (auto simp: tq_inv_def size_ok_def)
  moreover have "far_ok ?q"
    using inv c far by (fastforce simp: tq_inv_def far_ok_def far_node_def)
  moreover have "count_ok ?q B" "minTooFar_ok ?q" "member_ok ?q B"
    using inv by (simp_all add: tq_inv_def count_ok_def minTooFar_ok_def member_ok_def split: list.splits)
  moreover have "c < t" if a: "agenda q n = Some t" for n t
  proof -
    have "qType (users q n) \<noteq> InFastQueue"
      using inv B by (auto simp: tq_inv_def member_ok_def)
    then have "n \<in> set (tooFar q)" "t = time_of q n"
      using a inv by (cases "qType (users q n)"; auto simp: agenda_def tq_inv_def member_ok_def)+
    then show ?thesis using far by simp
  qed
  ultimately show ?thesis by (simp add: tq_inv_def)
qed

definition next_post :: "'n tqueue \<Rightarrow> nat \<Rightarrow> 'n option \<Rightarrow> 'n tqueue \<Rightarrow> bool" where
  "next_post q c r q' = (tq_ok q' \<and> AccessSize q' = AccessSize q \<and>
     (case r of
        None \<Rightarrow> agenda q' = agenda q \<and> minTime q' = c \<and> (\<forall>n t. agenda q n = Some t \<longrightarrow> c < t)
      | Some n \<Rightarrow> agenda q n = Some (minTime q') \<and> minTime q' \<le> c \<and>
          agenda q' = (agenda q)(n := None)))"

lemma adjusted:
  assumes inv: "tq_inv q B" and c: "minTime q \<le> c" "c < minTime q + AccessSize q" "c < MaxTime"
  shows "\<exists>q1 B1. (if minTooFar q \<le> c then tq_adjustTooFar q else Some q) = Some q1 \<and>
    tq_inv q1 B1 \<and> moved q q1 \<and> (\<forall>n\<in>set (tooFar q1). c < time_of q1 n)"
proof (cases "minTooFar q \<le> c")
  case True
  have ne: "tooFar q \<noteq> []" using True inv c by (auto simp: tq_inv_def minTooFar_ok_def)
  then obtain q1 B1 where q1: "tq_adjust_loop q = Some q1" "tq_inv q1 B1" "moved q q1"
      "\<forall>n\<in>set (tooFar q1). minTime q1 + AccessSize q1 \<le> time_of q1 n"
    using adjust_loop_ok [of q B] inv by (auto simp: tq_inv_split)
  have "minTime q1 + AccessSize q1 = minTime q + AccessSize q"
    using q1(3) by (simp add: moved_def)
  then have "\<forall>n\<in>set (tooFar q1). c < time_of q1 n" using q1(4) c by fastforce
  then show ?thesis using True ne q1 by (auto simp: tq_adjustTooFar_def)
next
  case False
  then show ?thesis using inv minTooFar_bound [OF inv] by (auto simp: moved_def)
qed

lemma slow_ok:
  assumes inv: "tq_inv q B" and c: "minTime q \<le> c" "c < minTime q + AccessSize q" "c < MaxTime"
  shows "\<exists>r q'. tq_nextJob_slow q c = Some (r, q') \<and> next_post q c r q'"
proof -
  obtain q1 B1 where q1: "(if minTooFar q \<le> c then tq_adjustTooFar q else Some q) = Some q1"
      "tq_inv q1 B1" "moved q q1" "\<forall>n\<in>set (tooFar q1). c < time_of q1 n"
    using adjusted [OF assms] by blast
  have mv: "minTime q1 = minTime q" "agenda q1 = agenda q" "AccessSize q1 = AccessSize q"
    using q1(3) by (simp_all add: moved_def)
  have eq: "tq_nextJob_slow q c =
      (if nNodes q1 = 0 then Some (None, q1\<lparr>minTime := c, minPos := 0\<rparr>)
       else case access (tq_walk q1 c) ! minPos (tq_walk q1 c) of
         None \<Rightarrow> Some (None, tq_walk q1 c)
       | Some node \<Rightarrow> do { I_check (minTime (tq_walk q1 c) \<le> c);
           I_check (nNodes (tq_walk q1 c) \<noteq> 0);
           Some (Some node, tq_take (tq_walk q1 c) node) })"
    unfolding tq_nextJob_slow_def q1(1) by (simp add: Let_def)
  show ?thesis
  proof (cases "nNodes q1 = 0")
    case True
    have "tq_ok (q1\<lparr>minTime := c, minPos := 0\<rparr>)" "\<forall>n t. agenda q1 n = Some t \<longrightarrow> c < t"
      using rebase_ok [OF q1(2) True _ q1(4)] c mv by (auto simp: tq_ok_def)
    then show ?thesis using eq True mv by (simp add: next_post_def)
  next
    case False
    let ?q2 = "tq_walk q1 c"
    have w: "tq_inv ?q2 B1" "agenda ?q2 = agenda q1" "AccessSize ?q2 = AccessSize q1" "minTime ?q2 \<le> c"
        "case access ?q2 ! minPos ?q2 of
           None \<Rightarrow> minTime ?q2 = c \<and> (\<forall>n t. agenda q1 n = Some t \<longrightarrow> c < t)
         | Some n \<Rightarrow> agenda q1 n = Some (minTime ?q2)"
      using next_tail [OF q1(2) _ q1(4) False] c mv by (auto simp: Let_def)
    show ?thesis
    proof (cases "access ?q2 ! minPos ?q2")
      case None
      then show ?thesis using eq False w mv by (auto simp: next_post_def tq_ok_def)
    next
      case (Some n)
      have t: "tq_ok (tq_take ?q2 n)" "agenda (tq_take ?q2 n) = (agenda ?q2)(n := None)" "0 < nNodes ?q2"
        using take_ok [OF w(1) Some] by (auto simp: tq_ok_def)
      have "minTime (tq_take ?q2 n) = minTime ?q2" "AccessSize (tq_take ?q2 n) = AccessSize ?q2"
        by (simp_all add: tq_take_def)
      then show ?thesis using eq False Some w mv t by (simp add: next_post_def)
    qed
  qed
qed

lemma nextJob_ok:
  assumes inv: "tq_ok q" and c: "minTime q \<le> c" "c < minTime q + AccessSize q" "c < MaxTime"
  shows "\<exists>r q'. tq_nextJob q c = Some (r, q') \<and> next_post q c r q'"
proof -
  obtain B where B: "tq_inv q B" using inv by (auto simp: tq_ok_def)
  show ?thesis
  proof (cases "\<exists>node. access q ! minPos q = Some node \<and> minTime q = c")
    case True
    then obtain node where n: "access q ! minPos q = Some node" "minTime q = c" by blast
    have "tq_ok (tq_take q node)" "agenda (tq_take q node) = (agenda q)(node := None)"
        "agenda q node = Some (minTime q)"
      using take_ok [OF B n(1)] by (auto simp: tq_ok_def)
    moreover have "minTime (tq_take q node) = minTime q" "AccessSize (tq_take q node) = AccessSize q"
      by (simp_all add: tq_take_def)
    ultimately show ?thesis using n by (simp add: tq_nextJob_def next_post_def)
  next
    case False
    then have "tq_nextJob q c = tq_nextJob_slow q c"
      by (auto simp: tq_nextJob_def split: option.splits)
    then show ?thesis using slow_ok [OF B c] by simp
  qed
qed

lemma insert_ok:
  assumes inv: "tq_ok q" and n: "agenda q n = None"
    and t: "minTime q \<le> t" "t < minTime q + 2 ^ 32" "t \<le> MaxTime"
  shows "\<exists>q'. tq_insert q n t = Some q' \<and> tq_ok q' \<and> agenda q' = (agenda q)(n \<mapsto> t) \<and>
           minTime q' = minTime q \<and> AccessSize q' = AccessSize q"
proof -
  obtain B where B: "tq_inv q B" using inv by (auto simp: tq_ok_def)
  have idle: "qType (users q n) = InNoQueue" using n by (auto simp: agenda_def split: if_splits)
  show ?thesis
  proof (cases "t < minTime q + AccessSize q")
    case True
    then show ?thesis using insert_near [OF B idle t(1)] by (auto simp: tq_ok_def)
  next
    case False
    then show ?thesis using insert_far [OF B idle _ t(2,3)] by (auto simp: tq_ok_def)
  qed
qed

lemma agenda_finite:
  assumes "tq_ok q"
  shows "finite (dom (agenda q))"
proof -
  obtain B where B: "tq_inv q B" using assms by (auto simp: tq_ok_def)
  have "n \<in> (\<Union>p<AccessSize q. set (B p)) \<union> set (tooFar q)" if "n \<in> dom (agenda q)" for n
    using B that by (cases "qType (users q n)") (auto simp: agenda_def tq_inv_def member_ok_def)
  then have "dom (agenda q) \<subseteq> (\<Union>p<AccessSize q. set (B p)) \<union> set (tooFar q)" by blast
  then show ?thesis by (rule finite_subset) simp
qed

lemma new_ok:
  assumes "tq_new N junk junkTail us = Some q" and "length junkTail = N" and "N \<le> 2 ^ 31"
    and "\<And>n. qType (us n) = InNoQueue"
  shows "tq_ok q \<and> agenda q = Map.empty \<and> minTime q = 0 \<and> AccessSize q = N"
proof -
  from assms(1) have s: "7 < N" "N AND (N - 1) = 0"
    by (auto simp: tq_new_def)
  then obtain k where k: "N = 2 ^ k" using pow2_test_iff [of N] by auto
  have "k \<le> 31" using assms(3) k by (metis power_le_imp_le_exp one_less_numeral_iff semiring_norm(76))
  have q: "q = tq_reset \<lparr>minTime = 0, minPos = 0, nNodes = 0, AccessSize = N,
       AccessMask = N - 1, access = junk, accessTail = junkTail, tooFar = [],
       minTooFar = 0, users = us\<rparr>"
    using assms(1) by (auto simp: tq_new_def)
  have "tq_inv q (\<lambda>_. [])"
    using assms(2,4) k \<open>k \<le> 31\<close>
    by (auto simp: q tq_reset_def tq_inv_def size_ok_def window_ok_def bucket_ok_def count_ok_def
        far_ok_def is_heap_def minTooFar_ok_def member_ok_def)
  then show ?thesis using assms(4) by (auto simp: tq_ok_def q tq_reset_def agenda_def)
qed


lemma pending_after_minTime:
  assumes "tq_ok q" and "agenda q n = Some t"
  shows "minTime q \<le> t"
proof -
  obtain B where B: "tq_inv q B" using assms(1) by (auto simp: tq_ok_def)
  show ?thesis
  proof (cases "qType (users q n)")
    case InNoQueue
    then show ?thesis using assms(2) by (simp add: agenda_def)
  next
    case InFastQueue
    then obtain p where "p < AccessSize q" "n \<in> set (B p)"
      using B by (auto simp: tq_inv_def member_ok_def)
    then show ?thesis
      using B assms(2) window_member [of q B p n] by (auto simp: tq_inv_def agenda_def)
  next
    case InTooFarQueue
    then have "far_node q n" using B by (auto simp: tq_inv_def member_ok_def far_ok_def)
    then show ?thesis using assms(2) by (auto simp: agenda_def far_node_def)
  qed
qed

subsection \<open>The queue is an agenda\<close>

interpretation tq: agenda_queue tq_ok agenda minTime AccessSize tq_insert tq_nextJob
proof
  fix q :: "'a tqueue" and n t c
  show "finite (dom (agenda q))" if "tq_ok q" using that by (rule agenda_finite)
  show "minTime q \<le> t" if "tq_ok q" "agenda q n = Some t" using that by (rule pending_after_minTime)
  show "\<exists>q'. tq_insert q n t = Some q' \<and> tq_ok q' \<and> agenda q' = (agenda q)(n \<mapsto> t) \<and>
      minTime q' = minTime q \<and> AccessSize q' = AccessSize q"
    if "tq_ok q" "agenda q n = None" "minTime q \<le> t" "t < minTime q + 2 ^ 32" "t \<le> MaxTime"
    using that by (rule insert_ok)
  show "\<exists>r q'. tq_nextJob q c = Some (r, q') \<and> tq_ok q' \<and> AccessSize q' = AccessSize q \<and>
      (case r of
         None \<Rightarrow> agenda q' = agenda q \<and> minTime q' = c \<and> (\<forall>n t. agenda q n = Some t \<longrightarrow> c < t)
       | Some n \<Rightarrow> agenda q n = Some (minTime q') \<and> minTime q' \<le> c \<and>
           agenda q' = (agenda q)(n := None))"
    if "tq_ok q" "minTime q \<le> c" "c < minTime q + AccessSize q" "c < MaxTime"
    using nextJob_ok [OF that] by (simp add: next_post_def)
qed

end
