(* ===== verification/TQueue_Remove.thy ===== *)
theory TQueue_Remove
  imports TQueue_Correct
begin

text \<open>
  \<open>reset\<close>, \<open>remove\<close> and \<open>reschedule\<close> of the time queue. Taking the first node of the current
  bucket off is what \<open>nextJob\<close> does, and keeps the invariant; the other branches of
  \<open>remove\<close> unlink the node without changing its queue tag.
\<close>

subsection \<open>Reset\<close>

lemma empty_agenda:
  assumes "tq_ok q" "tq_empty q"
  shows "agenda q = Map.empty"
proof -
  obtain B where inv: "tq_inv q B" using assms(1) by (auto simp: tq_ok_def)
  have "qType (users q n) \<noteq> InFastQueue" for n
    using inv empty_window [OF inv] assms(2) by (auto simp: tq_empty_def tq_inv_def member_ok_def)
  moreover have "qType (users q n) \<noteq> InTooFarQueue" for n
    using inv assms(2) by (auto simp: tq_empty_def tq_inv_def member_ok_def)
  ultimately have "qType (users q n) = InNoQueue" for n by (metis queue_type.exhaust)
  then show ?thesis by (simp add: agenda_def fun_eq_iff)
qed

lemma idle_ok:
  assumes sz: "size_ok q" and a: "access q = replicate (AccessSize q) None"
    and e: "nNodes q = 0" "tooFar q = []" "minTooFar q = MaxTime"
    and idle: "\<And>n. qType (users q n) = InNoQueue"
  shows "tq_ok q"
proof -
  have "tq_inv q (\<lambda>_. [])"
    using assms by (auto simp: tq_inv_def window_ok_def bucket_ok_def count_ok_def far_ok_def
        minTooFar_ok_def member_ok_def is_heap_def)
  then show ?thesis by (auto simp: tq_ok_def)
qed

lemma reset_ok:
  assumes ok: "tq_ok q" and e: "tq_empty q"
  shows "tq_ok (tq_reset q) \<and> agenda (tq_reset q) = Map.empty \<and> minTime (tq_reset q) = 0 \<and>
    AccessSize (tq_reset q) = AccessSize q"
proof -
  have ag: "agenda q = Map.empty" using empty_agenda [OF ok e] .
  have idle: "qType (users q n) = InNoQueue" for n
    using fun_cong [OF ag, of n] by (simp add: agenda_def split: if_splits)
  have "size_ok (tq_reset q)" using ok by (auto simp: tq_ok_def tq_inv_def size_ok_def tq_reset_def)
  then have "tq_ok (tq_reset q)"
    by (rule idle_ok) (use e idle in \<open>simp_all add: tq_reset_def tq_empty_def\<close>)
  moreover have "agenda (tq_reset q) = agenda q" by (simp add: agenda_def tq_reset_def fun_eq_iff)
  ultimately show ?thesis using ag by (simp add: tq_reset_def)
qed

subsection \<open>Removing the first node\<close>

lemma remove_first_ok:
  assumes ok: "tq_ok q" and n: "access q ! minPos q = Some n"
  shows "\<exists>q'. tq_remove q n = Some q' \<and> tq_ok q' \<and> agenda q' = (agenda q)(n := None) \<and>
    minTime q' = minTime q \<and> AccessSize q' = AccessSize q"
proof -
  obtain B where inv: "tq_inv q B" using ok by (auto simp: tq_ok_def)
  have sz: "size_ok q" and win: "window_ok q B" using inv by (simp_all add: tq_inv_def)
  obtain xs where "B (minPos q) = n # xs" using head_bucket [OF sz win n] by blast
  moreover have "minPos q < AccessSize q" using sz by (simp add: size_ok_def)
  ultimately have "qType (users q n) = InFastQueue"
    using win by (auto simp: window_ok_def bucket_ok_def)
  then have "tq_remove q n = Some (tq_take q n)"
    using n by (simp add: tq_remove_def tq_remove_fast_def isInTooFarQueue_def isInFastQueue_def)
  then show ?thesis using take_ok [OF inv n] by (auto simp: tq_ok_def tq_take_def)
qed

lemma reschedule_first_ok:
  assumes ok: "tq_ok q" and n: "access q ! minPos q = Some n"
    and t: "minTime q \<le> t" "t < minTime q + 2 ^ 32" "t \<le> MaxTime"
  shows "\<exists>q'. tq_reschedule q n t = Some q' \<and> tq_ok q' \<and> agenda q' = (agenda q)(n \<mapsto> t)"
proof -
  obtain q1 where q1: "tq_remove q n = Some q1" "tq_ok q1" "agenda q1 = (agenda q)(n := None)"
      "minTime q1 = minTime q"
    using remove_first_ok [OF ok n] by blast
  have idle: "agenda q1 n = None" using q1(3) by simp
  then have "\<not> isInQueue (users q1 n)" by (simp add: agenda_def isInQueue_def split: if_splits)
  then show ?thesis using tq.ins_law [OF q1(2) idle, of t] t q1
    by (auto simp: tq_reschedule_def)
qed

subsection \<open>Removing any other node\<close>

lemma remove_keeps_tag:
  assumes "tq_remove q n = Some q'" "access q ! minPos q \<noteq> Some n"
  shows "qType (users q' n) = qType (users q n)"
  using assms
  by (auto simp: tq_remove_def tq_remove_tooFar_def tq_remove_fast_def Let_def upd_user_def
      split: if_splits option.splits list.splits bind_splits)

lemma find_prev_chain:
  "chain us p (xs @ n # ys) \<Longrightarrow> n \<notin> set xs \<Longrightarrow>
   tq_find_prev us n prev p = Some (if xs = [] then prev else Some (last xs))"
proof (induction xs arbitrary: p prev)
  case Nil
  then show ?case by (simp add: tq_find_prev.simps)
next
  case (Cons x xs)
  have "tq_find_prev us n prev p = tq_find_prev us n (Some x) (tq_next (us x))"
    using Cons.prems by (subst tq_find_prev.simps) auto
  also have "\<dots> = Some (if xs = [] then Some x else Some (last xs))"
    using Cons by simp
  finally show ?case by simp
qed

lemma list_end_chain: "chain us p xs \<Longrightarrow> tq_list_end us p = Some None"
proof (induction xs arbitrary: p)
  case Nil
  then show ?case by (simp add: tq_list_end.simps)
next
  case (Cons x xs)
  then show ?case by (subst tq_list_end.simps) auto
qed

lemma chain_last_next: "chain us p (xs @ [n]) \<Longrightarrow> tq_next (us n) = None"
  by (induction xs arbitrary: p) auto

lemma chain_drop_last:
  "chain us p (xs @ [n]) \<Longrightarrow> xs \<noteq> [] \<Longrightarrow> tq_next (us' (last xs)) = None \<Longrightarrow>
   (\<And>x. x \<in> set (butlast xs) \<Longrightarrow> tq_next (us' x) = tq_next (us x)) \<Longrightarrow> chain us' p xs"
proof (induction xs arbitrary: p)
  case Nil
  then show ?case by simp
next
  case (Cons x xs)
  then show ?case by (cases "xs = []") auto
qed

text \<open>The last of several nodes of a bucket: the tail pointer of the bucket becomes null.\<close>

lemma remove_tail:
  assumes inv: "tq_inv q B" and p: "p < AccessSize q" and B: "B p = xs @ [n]" "xs \<noteq> []"
  shows "\<exists>q'. tq_remove q n = Some q' \<and> access q' ! p \<noteq> None \<and> accessTail q' ! p = None \<and>
    minTime q' = minTime q \<and> minPos q' = minPos q \<and> AccessSize q' = AccessSize q \<and>
    AccessMask q' = AccessMask q \<and> (\<forall>m. qType (users q' m) = qType (users q m))"
proof -
  have sz: "size_ok q" using inv by (simp add: tq_inv_def)
  have b: "bucket_ok q p (xs @ [n])" using inv p B(1) by (auto simp: tq_inv_def window_ok_def)
  then have ch: "chain (users q) (access q ! p) (xs @ [n])" and d: "distinct (xs @ [n])"
    and tail: "accessTail q ! p = Some n"
    and n: "qType (users q n) = InFastQueue" "minTime q \<le> time_of q n"
      "time_of q n < minTime q + AccessSize q" "slot q (time_of q n) = p"
    by (auto simp: bucket_ok_def)
  have pos: "slot_of q (time_of q n) = p" using slot_of_slot [OF sz n(2)] n(4) by simp
  obtain x ys where xs: "xs = x # ys" using B(2) by (cases xs) auto
  then have hd: "access q ! p = Some x" using ch by simp
  have nohd: "access q ! minPos q \<noteq> Some n"
  proof
    assume a: "access q ! minPos q = Some n"
    then obtain zs where "B (minPos q) = n # zs"
      using head_bucket [OF sz _ a] inv by (auto simp: tq_inv_def)
    moreover have "minPos q < AccessSize q" using sz by (simp add: size_ok_def)
    ultimately have "slot q (time_of q n) = minPos q"
      using inv by (auto simp: tq_inv_def window_ok_def bucket_ok_def)
    then have "p = minPos q" using n(4) by simp
    then show False using a hd d xs by simp
  qed
  have prev: "tq_find_prev (users q) n None (access q ! p) = Some (Some (last xs))"
    using find_prev_chain [OF ch] d B(2) by auto
  let ?q1 = "setTQNext (last xs) (tq_next (users q n)) q"
  have "last xs \<notin> set (butlast xs)" using d B(2) by (metis append_butlast_last_id distinct_append
        not_distinct_conv_prefix)
  then have "chain (users ?q1) (access q ! p) xs"
    using chain_last_next [OF ch] by (intro chain_drop_last [OF ch B(2)]) auto
  then have e: "tq_list_end (users ?q1) (access ?q1 ! p) = Some None"
    using list_end_chain by simp
  have "p < length (accessTail q)" using sz p by (simp add: size_ok_def)
  then have "tq_remove q n = Some (?q1\<lparr>accessTail := (accessTail q)[p := None], nNodes := nNodes q - 1\<rparr>)"
    using n(1) nohd pos prev tail e
    by (simp add: tq_remove_def tq_remove_fast_def isInTooFarQueue_def isInFastQueue_def)
  then show ?thesis using hd \<open>p < length (accessTail q)\<close> by simp
qed

end
