(* ===== verification/EventScheduler.thy ===== *)
theory EventScheduler
  imports TQueue_Correct
begin

text \<open>
  The event scheduler of libsuc/callback.h and callback.cpp: the global clock, the time
  queue \<open>cbQ\<close>, \<open>schedule\<close>, \<open>scheduleAbs\<close> and \<open>advanceClock\<close>, which is called once per
  simulated cycle by the main loop (libcore/RunningProcs.cpp) and runs every callback that
  is due.

  The code that a callback runs (\<open>cb->call()\<close>, a virtual method) is a parameter
  \<open>call\<close> of the model: a function on the whole simulator state, whose component
  \<open>world\<close> is everything but the clock and the queue.
\<close>

subsection \<open>State and operations\<close>

record ('q, 'w) sim =
  globalClock :: nat
  cbQ :: 'q
  world :: 'w

definition ES_schedule ::
  "nat \<Rightarrow> 'n \<Rightarrow> ('n tqueue, 'w) sim \<Rightarrow> ('n tqueue, 'w) sim option" where
  "ES_schedule delta cb s = do {
     I_check (delta \<noteq> 0);
     q \<leftarrow> tq_insert (cbQ s) cb (u64 (int (globalClock s) + int delta));
     Some (s\<lparr>cbQ := q\<rparr>) }"

definition ES_scheduleAbs ::
  "nat \<Rightarrow> 'n \<Rightarrow> ('n tqueue, 'w) sim \<Rightarrow> ('n tqueue, 'w) sim option" where
  "ES_scheduleAbs tim cb s = do {
     I_check (globalClock s < tim);
     q \<leftarrow> tq_insert (cbQ s) cb tim;
     Some (s\<lparr>cbQ := q\<rparr>) }"

text \<open>
  The loop \<open>while ((cb = cbQ.nextJob(globalClock))) cb->call();\<close>, for any queue
  operation \<open>nxt\<close>. \<open>None\<close> is an abort or a loop that does not end (a callback could
  keep inserting work that is already due).
\<close>

partial_function (option) run_jobs ::
  "('q \<Rightarrow> nat \<Rightarrow> ('n option \<times> 'q) option) \<Rightarrow> ('n \<Rightarrow> ('q, 'w) sim \<Rightarrow> ('q, 'w) sim option) \<Rightarrow>
   ('q, 'w) sim \<Rightarrow> ('q, 'w) sim option" where
  "run_jobs nxt call s =
     (case nxt (cbQ s) (globalClock s) of
        None \<Rightarrow> None
      | Some (r, q) \<Rightarrow>
          (case r of
             None \<Rightarrow> Some (s\<lparr>cbQ := q\<rparr>)
           | Some cb \<Rightarrow>
               (case call cb (s\<lparr>cbQ := q\<rparr>) of
                  None \<Rightarrow> None
                | Some s1 \<Rightarrow> run_jobs nxt call s1)))"

definition ES_advanceClock ::
  "('n \<Rightarrow> ('n tqueue, 'w) sim \<Rightarrow> ('n tqueue, 'w) sim option) \<Rightarrow>
   ('n tqueue, 'w) sim \<Rightarrow> ('n tqueue, 'w) sim option" where
  "ES_advanceClock call s = do {
     s1 \<leftarrow> run_jobs tq_nextJob call s;
     Some (s1\<lparr>globalClock := u64 (int (globalClock s1) + 1)\<rparr>) }"

definition ES_empty :: "('n tqueue, 'w) sim \<Rightarrow> bool" where
  "ES_empty s = tq_empty (cbQ s)"

definition ES_size :: "('n tqueue, 'w) sim \<Rightarrow> int" where
  "ES_size s = tq_size (cbQ s)"

definition ES_reset :: "('n tqueue, 'w) sim \<Rightarrow> ('n tqueue, 'w) sim option" where
  "ES_reset s = do {
     I_check (ES_empty s);
     Some (s\<lparr>cbQ := tq_reset (cbQ s), globalClock := 0\<rparr>) }"

subsection \<open>Runs of the job loop, with their trace\<close>

inductive jobs_run ::
  "('q \<Rightarrow> nat \<Rightarrow> ('n option \<times> 'q) option) \<Rightarrow> ('n \<Rightarrow> ('q, 'w) sim \<Rightarrow> ('q, 'w) sim option) \<Rightarrow>
   ('q, 'w) sim \<Rightarrow> 'n list \<Rightarrow> ('q, 'w) sim \<Rightarrow> bool"
  for nxt call where
  stop: "nxt (cbQ s) (globalClock s) = Some (None, q) \<Longrightarrow> jobs_run nxt call s [] (s\<lparr>cbQ := q\<rparr>)"
| job: "nxt (cbQ s) (globalClock s) = Some (Some cb, q) \<Longrightarrow> call cb (s\<lparr>cbQ := q\<rparr>) = Some s1 \<Longrightarrow>
     jobs_run nxt call s1 xs s2 \<Longrightarrow> jobs_run nxt call s (cb # xs) s2"

inductive_cases jobs_run_NilE: "jobs_run nxt call s [] s2"
inductive_cases jobs_run_ConsE: "jobs_run nxt call s (cb # xs) s2"

lemma jobs_run_run_jobs: "jobs_run nxt call s xs s2 \<Longrightarrow> run_jobs nxt call s = Some s2"
  by (induction rule: jobs_run.induct) (simp_all add: run_jobs.simps)

lemma run_jobs_jobs_run:
  assumes ret: "run_jobs nxt call s = Some s2"
  shows "\<exists>xs. jobs_run nxt call s xs s2"
proof (rule run_jobs.raw_induct
    [where P = "\<lambda>nxt call s r. \<exists>xs. jobs_run nxt call s xs r", OF _ ret])
  fix f :: "('q \<Rightarrow> nat \<Rightarrow> ('n option \<times> 'q) option) \<Rightarrow>
      ('n \<Rightarrow> ('q, 'w) sim \<Rightarrow> ('q, 'w) sim option) \<Rightarrow> ('q, 'w) sim \<Rightarrow> ('q, 'w) sim option"
    and nxt call s r
  assume IH: "\<And>nxt call s r. f nxt call s = Some r \<Longrightarrow> \<exists>xs. jobs_run nxt call s xs r"
    and eq: "(case nxt (cbQ s) (globalClock s) of None \<Rightarrow> None
      | Some (r, q) \<Rightarrow> (case r of None \<Rightarrow> Some (s\<lparr>cbQ := q\<rparr>)
         | Some cb \<Rightarrow> (case call cb (s\<lparr>cbQ := q\<rparr>) of None \<Rightarrow> None | Some s1 \<Rightarrow> f nxt call s1)))
      = Some r"
  from eq show "\<exists>xs. jobs_run nxt call s xs r"
    by (auto split: option.splits prod.splits dest!: IH intro: jobs_run.intros)
qed

lemma run_jobs_iff: "(run_jobs nxt call s = Some s2) = (\<exists>xs. jobs_run nxt call s xs s2)"
  using jobs_run_run_jobs run_jobs_jobs_run by metis

subsection \<open>What a callback may do to the agenda\<close>

text \<open>
  A callback that schedules work only through \<open>schedule\<close> and \<open>scheduleAbs\<close> keeps the
  clock, keeps every pending entry and adds entries that are due after the current cycle.
\<close>

definition keeps_agenda ::
  "('q \<Rightarrow> bool) \<Rightarrow> ('q \<Rightarrow> 'n \<Rightarrow> nat option) \<Rightarrow> ('q \<Rightarrow> nat) \<Rightarrow> ('q \<Rightarrow> nat) \<Rightarrow>
   ('q, 'w) sim \<Rightarrow> ('q, 'w) sim \<Rightarrow> bool" where
  "keeps_agenda ok pending now span s s' =
     (globalClock s' = globalClock s \<and> ok (cbQ s') \<and> now (cbQ s') = now (cbQ s) \<and>
      span (cbQ s') = span (cbQ s) \<and>
      (\<forall>m t. pending (cbQ s) m = Some t \<longrightarrow> pending (cbQ s') m = Some t) \<and>
      (\<forall>m t. pending (cbQ s') m = Some t \<longrightarrow> pending (cbQ s) m = Some t \<or> globalClock s < t))"

text \<open>
  The client's side: every callback returns and keeps the agenda. \<open>J\<close> is an invariant of
  the client that may relate its own state to the agenda; it holds before the callback was
  taken off the queue, and must hold again after the callback has run.
\<close>

definition client_ok ::
  "('q \<Rightarrow> bool) \<Rightarrow> ('q \<Rightarrow> 'n \<Rightarrow> nat option) \<Rightarrow> ('q \<Rightarrow> nat) \<Rightarrow> ('q \<Rightarrow> nat) \<Rightarrow>
   ('n \<Rightarrow> ('q, 'w) sim \<Rightarrow> ('q, 'w) sim option) \<Rightarrow> ('w \<Rightarrow> ('n \<Rightarrow> nat option) \<Rightarrow> bool) \<Rightarrow> bool" where
  "client_ok ok pending now span call J =
     (\<forall>cb s t. ok (cbQ s) \<and> now (cbQ s) \<le> globalClock s \<and> globalClock s < now (cbQ s) + span (cbQ s) \<and>
        globalClock s + 65536 \<le> MaxTime \<and> t \<le> globalClock s \<and>
        pending (cbQ s) cb = None \<and> J (world s) ((pending (cbQ s))(cb \<mapsto> t)) \<longrightarrow>
        (\<exists>s'. call cb s = Some s' \<and> keeps_agenda ok pending now span s s' \<and>
              J (world s') (pending (cbQ s'))))"

context agenda_queue begin

text \<open>The jobs that are due in state \<open>s\<close>.\<close>

definition due :: "('q, 'w) sim \<Rightarrow> 'n set" where
  "due s = {n. \<exists>t. pending (cbQ s) n = Some t \<and> t \<le> globalClock s}"

lemma due_finite: "ok (cbQ s) \<Longrightarrow> finite (due s)"
  using pending_finite [of "cbQ s"] by (rule rev_finite_subset) (auto simp: due_def)

lemma run_all_due:
  assumes call: "client_ok ok pending now span call J"
  shows "ok (cbQ s) \<Longrightarrow> now (cbQ s) \<le> globalClock s \<Longrightarrow>
    globalClock s < now (cbQ s) + span (cbQ s) \<Longrightarrow> globalClock s + 65536 \<le> MaxTime \<Longrightarrow>
    J (world s) (pending (cbQ s)) \<Longrightarrow>
    \<exists>xs s'. jobs_run nxt call s xs s' \<and> distinct xs \<and> set xs = due s \<and>
      sorted (map (\<lambda>n. the (pending (cbQ s) n)) xs) \<and> J (world s') (pending (cbQ s')) \<and>
      ok (cbQ s') \<and> globalClock s' = globalClock s \<and> now (cbQ s') = globalClock s \<and>
      span (cbQ s') = span (cbQ s) \<and>
      (\<forall>m t. pending (cbQ s') m = Some t \<longrightarrow> globalClock s < t) \<and>
      (\<forall>m t. pending (cbQ s) m = Some t \<longrightarrow> globalClock s < t \<longrightarrow> pending (cbQ s') m = Some t)"
proof (induction "card (due s)" arbitrary: s rule: less_induct)
  case less
  let ?c = "globalClock s"
  note ok = less.prems(1) and range = less.prems(2-4) and J = less.prems(5)
  have "?c < MaxTime" using range(3) by simp
  from nxt_law [OF ok range(1,2) this] obtain r q where nx: "nxt (cbQ s) ?c = Some (r, q)" "ok q"
      "span q = span (cbQ s)"
      "case r of
         None \<Rightarrow> pending q = pending (cbQ s) \<and> now q = ?c \<and> (\<forall>n t. pending (cbQ s) n = Some t \<longrightarrow> ?c < t)
       | Some n \<Rightarrow> pending (cbQ s) n = Some (now q) \<and> now q \<le> ?c \<and>
           pending q = (pending (cbQ s))(n := None)"
    by blast
  show ?case
  proof (cases r)
    case None
    then have "due s = {}" using nx(4) by (fastforce simp: due_def)
    moreover have "jobs_run nxt call s [] (s\<lparr>cbQ := q\<rparr>)"
      using nx(1) None by (intro jobs_run.stop) simp
    ultimately show ?thesis using nx None J
      by (intro exI [of _ "[]"] exI [of _ "s\<lparr>cbQ := q\<rparr>"]) auto
  next
    case (Some n)
    let ?s = "s\<lparr>cbQ := q\<rparr>"
    have n: "pending (cbQ s) n = Some (now q)" "now q \<le> ?c" "pending q = (pending (cbQ s))(n := None)"
      using nx(4) Some by simp_all
    have nowq: "now (cbQ s) \<le> now q" using pending_after_now [OF ok n(1)] .
    have "(pending q)(n \<mapsto> now q) = pending (cbQ s)" using n by (auto simp: fun_eq_iff)
    then obtain s1 where s1: "call n ?s = Some s1" "keeps_agenda ok pending now span ?s s1"
        "J (world s1) (pending (cbQ s1))"
      using call [unfolded client_ok_def, THEN spec, of n, THEN spec, of ?s, THEN spec, of "now q"]
        nx(2,3) n range nowq J by auto
    have k: "globalClock s1 = ?c" "ok (cbQ s1)" "now (cbQ s1) = now q" "span (cbQ s1) = span (cbQ s)"
        "\<And>m t. pending q m = Some t \<Longrightarrow> pending (cbQ s1) m = Some t"
        "\<And>m t. pending (cbQ s1) m = Some t \<Longrightarrow> pending q m = Some t \<or> ?c < t"
      using s1(2) nx(3) by (auto simp: keeps_agenda_def)
    have due1: "due s1 = due s - {n}"
      using k n by (fastforce simp: due_def split: if_splits)
    have nin: "n \<in> due s" using n by (simp add: due_def)
    have "card (due s1) < card (due s)"
      unfolding due1 using due_finite [OF ok] nin by (rule card_Diff1_less)
    with less.hyps [of s1] k nowq n range s1(3) obtain xs s' where
      IH: "jobs_run nxt call s1 xs s'" "distinct xs" "set xs = due s1"
        "sorted (map (\<lambda>n. the (pending (cbQ s1) n)) xs)" "J (world s') (pending (cbQ s'))" "ok (cbQ s')"
        "globalClock s' = ?c" "now (cbQ s') = ?c" "span (cbQ s') = span (cbQ s)"
        "\<forall>m t. pending (cbQ s') m = Some t \<longrightarrow> ?c < t"
        "\<forall>m t. pending (cbQ s1) m = Some t \<longrightarrow> ?c < t \<longrightarrow> pending (cbQ s') m = Some t"
      by auto
    have same: "pending (cbQ s1) m = pending (cbQ s) m" if "m \<in> set xs" for m
    proof -
      have "m \<noteq> n" "m \<in> due s" using that IH(3) due1 by auto
      then show ?thesis using k(5) [of m] n(3) by (auto simp: due_def)
    qed
    have eqm: "map (\<lambda>n. the (pending (cbQ s1) n)) xs = map (\<lambda>n. the (pending (cbQ s) n)) xs"
      using same by simp
    have "sorted (map (\<lambda>n. the (pending (cbQ s) n)) xs)" using IH(4) unfolding eqm .
    moreover have "now q \<le> the (pending (cbQ s) m)" if "m \<in> set xs" for m
    proof -
      have "m \<in> due s1" using that IH(3) by simp
      then obtain t where t: "pending (cbQ s1) m = Some t" by (auto simp: due_def)
      then have "now (cbQ s1) \<le> t" using pending_after_now k(2) by blast
      then show ?thesis using k(3) t same [OF that] by simp
    qed
    ultimately have "sorted (map (\<lambda>n. the (pending (cbQ s) n)) (n # xs))"
      using n(1) by simp
    moreover have "jobs_run nxt call s (n # xs) s'"
      using nx(1) Some s1(1) IH(1) by (auto intro: jobs_run.job)
    moreover have "distinct (n # xs)" "set (n # xs) = due s" using IH(2,3) due1 nin by auto
    moreover have "pending (cbQ s') m = Some t" if "pending (cbQ s) m = Some t" "?c < t" for m t
    proof -
      have "m \<noteq> n" using that n by auto
      then show ?thesis using that IH(11) k(5) [of m t] n(3) by simp
    qed
    ultimately show ?thesis using IH(5-10)
      by (intro exI [of _ "n # xs"] exI [of _ s']) (intro conjI allI impI; (assumption | simp only:))
  qed
qed

end


subsection \<open>Cycles\<close>

text \<open>
  Between two calls of \<open>advanceClock\<close> nothing pending is overdue, and the queue has been
  advanced to the current or to the previous cycle.
\<close>

definition sim_ok :: "('n tqueue, 'w) sim \<Rightarrow> bool" where
  "sim_ok s = (tq_ok (cbQ s) \<and> minTime (cbQ s) \<le> globalClock s \<and>
     globalClock s \<le> minTime (cbQ s) + 1 \<and> 2 \<le> AccessSize (cbQ s) \<and>
     (\<forall>n t. agenda (cbQ s) n = Some t \<longrightarrow> globalClock s \<le> t))"

abbreviation tq_client_ok ::
  "('n \<Rightarrow> ('n tqueue, 'w) sim \<Rightarrow> ('n tqueue, 'w) sim option) \<Rightarrow>
   ('w \<Rightarrow> ('n \<Rightarrow> nat option) \<Rightarrow> bool) \<Rightarrow> bool" where
  "tq_client_ok \<equiv> client_ok tq_ok agenda minTime AccessSize"

lemma AccessSize_bound: "tq_ok q \<Longrightarrow> AccessSize q \<le> 2147483648"
  by (auto simp: tq_ok_def tq_inv_def dest: AccessSize_le)

lemma MaxTime_less: "MaxTime < 18446744073709551616"
  by (simp add: MaxTime_def)

lemma schedule_lemma:
  assumes "tq_ok (cbQ s)" and "minTime (cbQ s) \<le> globalClock s"
    and "globalClock s < minTime (cbQ s) + AccessSize (cbQ s)"
    and "agenda (cbQ s) cb = None" and "0 < delta" and "delta \<le> 65535"
    and "globalClock s + 65535 \<le> MaxTime"
  shows "\<exists>q. ES_schedule delta cb s = Some (s\<lparr>cbQ := q\<rparr>) \<and> tq_ok q \<and>
    agenda q = (agenda (cbQ s))(cb \<mapsto> globalClock s + delta) \<and>
    minTime q = minTime (cbQ s) \<and> AccessSize q = AccessSize (cbQ s)"
proof -
  let ?t = "globalClock s + delta"
  have t: "minTime (cbQ s) \<le> ?t" "?t < minTime (cbQ s) + 2 ^ 32" "?t \<le> MaxTime"
    using assms AccessSize_bound [OF assms(1)] by simp_all
  have "u64 (int (globalClock s) + int delta) = ?t"
    using t(3) MaxTime_less by (simp flip: of_nat_add)
  then show ?thesis
    using tq.ins_law [OF assms(1,4) t] assms(5) by (auto simp: ES_schedule_def)
qed

lemma advance_lemma:
  assumes s: "sim_ok s" and c: "globalClock s + 65536 \<le> MaxTime"
    and call: "tq_client_ok call J" and J: "J (world s) (agenda (cbQ s))"
  shows "\<exists>xs s'. jobs_run tq_nextJob call s xs s' \<and> distinct xs \<and>
    set xs = {n. agenda (cbQ s) n = Some (globalClock s)} \<and>
    ES_advanceClock call s = Some (s'\<lparr>globalClock := globalClock s + 1\<rparr>) \<and>
    sim_ok (s'\<lparr>globalClock := globalClock s + 1\<rparr>) \<and> J (world s') (agenda (cbQ s')) \<and>
    (\<forall>m t. agenda (cbQ s) m = Some t \<longrightarrow> globalClock s < t \<longrightarrow> agenda (cbQ s') m = Some t)"
proof -
  have pre: "tq_ok (cbQ s)" "minTime (cbQ s) \<le> globalClock s"
      "globalClock s < minTime (cbQ s) + AccessSize (cbQ s)"
    using s by (simp_all add: sim_ok_def)
  from tq.run_all_due [OF call pre c J] obtain xs s' where
    R: "jobs_run tq_nextJob call s xs s' \<and> distinct xs \<and> set xs = tq.due s \<and>
      sorted (map (\<lambda>n. the (agenda (cbQ s) n)) xs) \<and> J (world s') (agenda (cbQ s')) \<and>
      tq_ok (cbQ s') \<and> globalClock s' = globalClock s \<and> minTime (cbQ s') = globalClock s \<and>
      AccessSize (cbQ s') = AccessSize (cbQ s) \<and>
      (\<forall>m t. agenda (cbQ s') m = Some t \<longrightarrow> globalClock s < t) \<and>
      (\<forall>m t. agenda (cbQ s) m = Some t \<longrightarrow> globalClock s < t \<longrightarrow> agenda (cbQ s') m = Some t)"
    by (elim exE) (rule that)
  have r: "jobs_run tq_nextJob call s xs s'" "distinct xs" "set xs = tq.due s"
      "J (world s') (agenda (cbQ s'))" "tq_ok (cbQ s')" "globalClock s' = globalClock s"
      "minTime (cbQ s') = globalClock s" "AccessSize (cbQ s') = AccessSize (cbQ s)"
      "\<forall>m t. agenda (cbQ s') m = Some t \<longrightarrow> globalClock s < t"
      "\<forall>m t. agenda (cbQ s) m = Some t \<longrightarrow> globalClock s < t \<longrightarrow> agenda (cbQ s') m = Some t"
    using R by blast+
  have "tq.due s = {n. agenda (cbQ s) n = Some (globalClock s)}"
    using s by (fastforce simp: tq.due_def sim_ok_def)
  moreover have "ES_advanceClock call s = Some (s'\<lparr>globalClock := globalClock s + 1\<rparr>)"
  proof -
    have "u64 (int (globalClock s) + 1) = globalClock s + 1"
      using c MaxTime_less by (subst u64_small) simp_all
    then show ?thesis using jobs_run_run_jobs [OF r(1)] r(6) by (simp add: ES_advanceClock_def)
  qed
  moreover have "sim_ok (s'\<lparr>globalClock := globalClock s + 1\<rparr>)"
    using r(5-9) s by (auto simp: sim_ok_def Suc_le_eq)
  ultimately show ?thesis using r(1-4,10) by (intro exI [of _ xs] exI [of _ s']) simp
qed

text \<open>A run of several cycles, as the main loop does it.\<close>

fun ES_cycles ::
  "('n \<Rightarrow> ('n tqueue, 'w) sim \<Rightarrow> ('n tqueue, 'w) sim option) \<Rightarrow> nat \<Rightarrow>
   ('n tqueue, 'w) sim \<Rightarrow> ('n tqueue, 'w) sim option" where
  "ES_cycles call 0 s = Some s"
| "ES_cycles call (Suc k) s =
     (case ES_advanceClock call s of None \<Rightarrow> None | Some s' \<Rightarrow> ES_cycles call k s')"

lemma ES_cycles_snoc:
  "ES_cycles call (Suc k) s = Option.bind (ES_cycles call k s) (ES_advanceClock call)"
proof (induction k arbitrary: s)
  case 0
  then show ?case by (cases "ES_advanceClock call s") simp_all
next
  case (Suc k)
  show ?case
  proof (cases "ES_advanceClock call s")
    case None
    then show ?thesis by simp
  next
    case (Some a)
    have "ES_cycles call (Suc (Suc k)) s = ES_cycles call (Suc k) a" by (simp add: Some)
    also note Suc.IH
    also have "Option.bind (ES_cycles call k a) (ES_advanceClock call) =
        Option.bind (ES_cycles call (Suc k) s) (ES_advanceClock call)" by (simp add: Some)
    finally show ?thesis .
  qed
qed

lemma cycles_pending:
  assumes call: "tq_client_ok call J"
  shows "sim_ok s \<Longrightarrow> J (world s) (agenda (cbQ s)) \<Longrightarrow> globalClock s + k + 65536 \<le> MaxTime \<Longrightarrow>
    agenda (cbQ s) n = Some (globalClock s + k) \<Longrightarrow>
    \<exists>s'. ES_cycles call k s = Some s' \<and> sim_ok s' \<and> J (world s') (agenda (cbQ s')) \<and>
      globalClock s' = globalClock s + k \<and> agenda (cbQ s') n = Some (globalClock s')"
proof (induction k arbitrary: s)
  case 0
  then show ?case by simp
next
  case (Suc k)
  then obtain s' where s': "ES_advanceClock call s = Some (s'\<lparr>globalClock := globalClock s + 1\<rparr>)"
      "sim_ok (s'\<lparr>globalClock := globalClock s + 1\<rparr>)" "J (world s') (agenda (cbQ s'))"
      "agenda (cbQ s') n = Some (globalClock s + Suc k)"
    using advance_lemma [OF Suc.prems(1) _ call Suc.prems(2)] by fastforce
  then show ?case using Suc.IH [of "s'\<lparr>globalClock := globalClock s + 1\<rparr>"] Suc.prems by simp
qed

subsection \<open>A client: periodic timers\<close>

text \<open>Every callback schedules itself again, \<open>period cb\<close> cycles later.\<close>

definition timer :: "('n \<Rightarrow> nat) \<Rightarrow> 'n \<Rightarrow> ('n tqueue, 'w) sim \<Rightarrow> ('n tqueue, 'w) sim option" where
  "timer period cb s = ES_schedule (period cb) cb s"

lemma timer_client_ok:
  fixes period :: "'n \<Rightarrow> nat"
  assumes "\<And>cb. 0 < period cb \<and> period cb \<le> 65535"
  shows "tq_client_ok (timer period :: 'n \<Rightarrow> ('n tqueue, 'w) sim \<Rightarrow> _) (\<lambda>w ag. True)"
  unfolding client_ok_def
proof (intro allI impI)
  fix cb :: 'n and s :: "('n tqueue, 'w) sim" and t
  assume a: "tq_ok (cbQ s) \<and> minTime (cbQ s) \<le> globalClock s \<and>
     globalClock s < minTime (cbQ s) + AccessSize (cbQ s) \<and>
     globalClock s + 65536 \<le> MaxTime \<and> t \<le> globalClock s \<and> agenda (cbQ s) cb = None \<and> True"
  then obtain q where q: "ES_schedule (period cb) cb s = Some (s\<lparr>cbQ := q\<rparr>)" "tq_ok q"
      "agenda q = (agenda (cbQ s))(cb \<mapsto> globalClock s + period cb)"
      "minTime q = minTime (cbQ s)" "AccessSize q = AccessSize (cbQ s)"
    using schedule_lemma [of s cb "period cb"] assms [of cb] by auto
  have "keeps_agenda tq_ok agenda minTime AccessSize s (s\<lparr>cbQ := q\<rparr>)"
    using q a assms [of cb] by (auto simp: keeps_agenda_def)
  then show "\<exists>s'. timer period cb s = Some s' \<and>
      keeps_agenda tq_ok agenda minTime AccessSize s s' \<and> True"
    using q(1) by (simp add: timer_def)
qed

end
