(* ===== verification/Pool_Model.thy ===== *)
theory Pool_Model
  imports Snippets_Model
begin

text \<open>
  The object pools of libsuc/pool.h, in the DEBUG build (with \<open>POOL_SIZE_CHECK\<close>, without
  \<open>POOL_TIMEOUT\<close>, whose define is commented out). A pool keeps a singly linked list of free
  holders; \<open>out\<close> takes its first holder and \<open>in\<close> gives one back. Holders are natural
  numbers: \<open>::new Holder\<close> takes the next number \<open>fresh\<close>.

  \<open>allocator\<close> is the contract that the users of a pool rely on.
\<close>

subsection \<open>State and operations\<close>

record pool =
  psize :: nat
  warn_psize :: nat
  deleted :: bool
  Size :: nat
  first :: "nat option"
  holderNext :: "nat \<Rightarrow> nat option"
  inPool :: "nat \<Rightarrow> bool"
  fresh :: nat

text \<open>The body of the loop of \<open>reproduce\<close>, and the loop.\<close>

definition pool_new_holder :: "'a pool_scheme \<Rightarrow> 'a pool_scheme" where
  "pool_new_holder p =
     p\<lparr>holderNext := (holderNext p)(fresh p := first p),
       inPool := (inPool p)(fresh p := True),
       first := Some (fresh p), fresh := fresh p + 1\<rparr>"

definition pool_reproduce :: "'a pool_scheme \<Rightarrow> 'a pool_scheme option" where
  "pool_reproduce p = do {
     I_check (first p = None);
     Some ((pool_new_holder ^^ Size p) p) }"

definition pool_new :: "nat \<Rightarrow> pool option" where
  "pool_new s = do {
     I_check (0 < s);
     pool_reproduce \<lparr>psize = 0, warn_psize = s * 8, deleted = False, Size = s, first = None,
       holderNext = (\<lambda>_. None), inPool = (\<lambda>_. False), fresh = 0\<rparr> }"

definition pool_in :: "'a pool_scheme \<Rightarrow> nat \<Rightarrow> 'a pool_scheme option" where
  "pool_in p h = do {
     I_check (\<not> deleted p);
     I_check (\<not> inPool p h);
     Some (p\<lparr>inPool := (inPool p)(h := True), holderNext := (holderNext p)(h := first p),
             first := Some h, psize := u64 (int (psize p) - 1)\<rparr>) }"

definition pool_out :: "'a pool_scheme \<Rightarrow> (nat \<times> 'a pool_scheme) option" where
  "pool_out p = do {
     I_check (\<not> deleted p);
     h \<leftarrow> first p;
     I_check (inPool p h);
     let p1 = p\<lparr>inPool := (inPool p)(h := False), psize := u64 (int (psize p) + 1)\<rparr>;
     I_check (psize p1 < warn_psize p1);
     let p2 = p1\<lparr>first := holderNext p1 h\<rparr>;
     p3 \<leftarrow> (if first p2 = None then pool_reproduce p2 else Some p2);
     Some (h, p3) }"

text \<open>\<open>pool1\<close> is the same code with a constructor argument for the holders.\<close>

record 'p pool1 = pool + p1 :: 'p

definition pool1_new :: "'p \<Rightarrow> nat \<Rightarrow> 'p pool1 option" where
  "pool1_new a1 s = do {
     I_check (0 < s);
     pool_reproduce \<lparr>psize = 0, warn_psize = s * 8, deleted = False, Size = s, first = None,
       holderNext = (\<lambda>_. None), inPool = (\<lambda>_. False), fresh = 0, p1 = a1\<rparr> }"

subsection \<open>Linked lists through a next map\<close>

fun linked :: "('n \<Rightarrow> 'n option) \<Rightarrow> 'n option \<Rightarrow> 'n list \<Rightarrow> bool" where
  "linked nx p [] = (p = None)"
| "linked nx p (x # xs) = (p = Some x \<and> linked nx (nx x) xs)"

lemma linked_None [simp]: "linked nx None xs = (xs = [])"
  by (cases xs) simp_all

lemma linked_Some: "linked nx (Some x) xs = (\<exists>ys. xs = x # ys \<and> linked nx (nx x) ys)"
  by (cases xs) auto

lemma linked_upd [simp]: "x \<notin> set xs \<Longrightarrow> linked (nx(x := y)) p xs = linked nx p xs"
  by (induction xs arbitrary: p) auto

subsection \<open>Invariant\<close>

definition pool_inv :: "'a pool_scheme \<Rightarrow> nat list \<Rightarrow> bool" where
  "pool_inv p free = (linked (holderNext p) (first p) free \<and> distinct free \<and>
     (\<forall>n. inPool p n = (n \<in> set free)) \<and> (\<forall>n\<in>set free. n < fresh p))"

text \<open>The objects that have been handed out and not given back.\<close>

definition in_use :: "'a pool_scheme \<Rightarrow> nat set" where
  "in_use p = {n. n < fresh p \<and> \<not> inPool p n}"

definition pool_ok :: "'a pool_scheme \<Rightarrow> bool" where
  "pool_ok p = (\<not> deleted p \<and> 0 < Size p \<and> first p \<noteq> None \<and> (\<exists>free. pool_inv p free) \<and>
     psize p = card (in_use p) \<and> psize p < 2 ^ 63)"

lemma in_use_finite [simp]: "finite (in_use p)"
  by (simp add: in_use_def)

lemma new_holder_inv:
  assumes "pool_inv p free"
  shows "pool_inv (pool_new_holder p) (fresh p # free) \<and>
    in_use (pool_new_holder p) = in_use p"
  using assms by (auto simp: pool_inv_def pool_new_holder_def in_use_def less_Suc_eq)

lemma new_holder_frame [simp]:
  "psize (pool_new_holder p) = psize p" "warn_psize (pool_new_holder p) = warn_psize p"
  "deleted (pool_new_holder p) = deleted p" "Size (pool_new_holder p) = Size p"
  "first (pool_new_holder p) \<noteq> None"
  by (simp_all add: pool_new_holder_def)

lemma holders_frame [simp]:
  "psize ((pool_new_holder ^^ k) p) = psize p" "warn_psize ((pool_new_holder ^^ k) p) = warn_psize p"
  "deleted ((pool_new_holder ^^ k) p) = deleted p" "Size ((pool_new_holder ^^ k) p) = Size p"
  by (induction k) simp_all

lemma holders_inv:
  assumes "pool_inv p free"
  shows "(\<exists>free'. pool_inv ((pool_new_holder ^^ k) p) free') \<and>
    in_use ((pool_new_holder ^^ k) p) = in_use p \<and>
    (0 < k \<longrightarrow> first ((pool_new_holder ^^ k) p) \<noteq> None)"
  using assms by (induction k) (auto dest: new_holder_inv)

lemma reproduce_ok:
  assumes "pool_inv p free" "first p = None" "0 < Size p"
  shows "\<exists>p'. pool_reproduce p = Some p' \<and> (\<exists>free'. pool_inv p' free') \<and> in_use p' = in_use p \<and>
    first p' \<noteq> None \<and> psize p' = psize p \<and> deleted p' = deleted p \<and> Size p' = Size p \<and>
    warn_psize p' = warn_psize p"
  using assms holders_inv [OF assms(1), of "Size p"] by (simp add: pool_reproduce_def)

lemma pool_new_ok:
  assumes "pool_new s = Some p"
  shows "pool_ok p \<and> in_use p = {} \<and> warn_psize p = s * 8"
proof -
  let ?p0 = "\<lparr>psize = 0, warn_psize = s * 8, deleted = False, Size = s, first = None,
       holderNext = (\<lambda>_. None), inPool = (\<lambda>_. False), fresh = 0\<rparr>"
  have s: "0 < s" and p: "pool_reproduce ?p0 = Some p"
    using assms by (auto simp: pool_new_def)
  have inv: "pool_inv ?p0 []" by (simp add: pool_inv_def)
  have "in_use ?p0 = {}" by (simp add: in_use_def)
  then show ?thesis using reproduce_ok [OF inv] s p by (auto simp: pool_ok_def)
qed

lemma pool_out_ok:
  assumes "pool_ok p" and lim: "card (in_use p) + 1 < warn_psize p"
  shows "\<exists>h p'. pool_out p = Some (h, p') \<and> h \<notin> in_use p \<and> in_use p' = insert h (in_use p) \<and>
    pool_ok p' \<and> warn_psize p' = warn_psize p \<or> 2 ^ 63 \<le> card (in_use p) + 1"
proof (cases "2 ^ 63 \<le> card (in_use p) + 1")
  case True
  then show ?thesis by blast
next
  case small: False
  obtain free where inv: "pool_inv p free" using assms(1) by (auto simp: pool_ok_def)
  obtain h where h: "first p = Some h" using assms(1) by (auto simp: pool_ok_def)
  then obtain rest where free: "free = h # rest" "linked (holderNext p) (holderNext p h) rest"
    using inv by (auto simp: pool_inv_def linked_Some)
  let ?p2 = "p\<lparr>inPool := (inPool p)(h := False), psize := psize p + 1, first := holderNext p h\<rparr>"
  have ps: "psize p = card (in_use p)" "u64 (int (psize p) + 1) = psize p + 1"
    using assms(1) small by (simp_all add: pool_ok_def u64_small)
  have inv2: "pool_inv ?p2 rest" using inv free h by (auto simp: pool_inv_def)
  have use: "h \<notin> in_use p" "in_use ?p2 = insert h (in_use p)"
    using inv free by (auto simp: in_use_def pool_inv_def)
  then have card: "card (in_use ?p2) = card (in_use p) + 1" by simp
  have inp: "inPool p h" using inv free by (simp add: pool_inv_def)
  have fixed: "\<not> deleted p" "0 < Size p" using assms(1) by (auto simp: pool_ok_def)
  have out: "pool_out p = (if first ?p2 = None
      then map_option (Pair h) (pool_reproduce ?p2) else Some (h, ?p2))"
    using h inp fixed ps lim by (auto simp: pool_out_def Let_def map_option_case split: option.splits)
  show ?thesis
  proof (cases "first ?p2")
    case None
    then obtain p' where p': "pool_reproduce ?p2 = Some p'" "\<exists>free'. pool_inv p' free'"
        "in_use p' = in_use ?p2" "first p' \<noteq> None" "psize p' = psize ?p2" "deleted p' = deleted ?p2"
        "Size p' = Size ?p2" "warn_psize p' = warn_psize ?p2"
      using reproduce_ok [OF inv2] fixed by auto
    have "pool_ok p'" using p' fixed card small ps by (simp add: pool_ok_def)
    then show ?thesis using out None p' use by simp
  next
    case (Some a)
    have "pool_ok ?p2" using Some inv2 fixed card small ps by (auto simp: pool_ok_def)
    then show ?thesis using out Some use by simp
  qed
qed

lemma pool_in_ok:
  assumes "pool_ok p" and h: "h \<in> in_use p"
  shows "\<exists>p'. pool_in p h = Some p' \<and> in_use p' = in_use p - {h} \<and> pool_ok p' \<and>
    warn_psize p' = warn_psize p"
proof -
  obtain free where inv: "pool_inv p free" using assms(1) by (auto simp: pool_ok_def)
  have n: "\<not> inPool p h" "h < fresh p" using h by (auto simp: in_use_def)
  have pos: "0 < card (in_use p)" using h by (auto simp: card_gt_0_iff)
  let ?p = "p\<lparr>inPool := (inPool p)(h := True), holderNext := (holderNext p)(h := first p),
             first := Some h, psize := psize p - 1\<rparr>"
  have "u64 (int (psize p) - 1) = psize p - 1"
    using assms(1) pos by (auto simp: pool_ok_def u64_small nat_diff_distrib)
  then have "pool_in p h = Some ?p" using assms(1) n by (simp add: pool_in_def pool_ok_def)
  moreover have "pool_inv ?p (h # free)" using inv n by (auto simp: pool_inv_def)
  moreover have use: "in_use ?p = in_use p - {h}" by (auto simp: in_use_def)
  moreover have "pool_ok ?p"
    unfolding pool_ok_def
  proof (intro conjI)
    show "\<exists>free. pool_inv ?p free" using calculation(2) by blast
    show "psize ?p = card (in_use ?p)"
      using assms(1) h unfolding use by (simp add: pool_ok_def)
  qed (use assms(1) in \<open>auto simp: pool_ok_def\<close>)
  ultimately show ?thesis by simp
qed

lemma pool_in_twice: "pool_ok p \<Longrightarrow> inPool p h \<Longrightarrow> pool_in p h = None"
  by (simp add: pool_in_def)

subsection \<open>The contract\<close>

locale allocator =
  fixes ok :: "'p \<Rightarrow> bool"
    and used :: "'p \<Rightarrow> 'n set"
    and limit :: "'p \<Rightarrow> nat"
    and give :: "'p \<Rightarrow> ('n \<times> 'p) option"
    and takeback :: "'p \<Rightarrow> 'n \<Rightarrow> 'p option"
  assumes give_law: "ok p \<Longrightarrow> card (used p) + 1 < limit p \<Longrightarrow> limit p \<le> 2 ^ 63 \<Longrightarrow>
      \<exists>h p'. give p = Some (h, p') \<and> h \<notin> used p \<and> used p' = insert h (used p) \<and> ok p' \<and>
        limit p' = limit p"
    and takeback_law: "ok p \<Longrightarrow> h \<in> used p \<Longrightarrow>
      \<exists>p'. takeback p h = Some p' \<and> used p' = used p - {h} \<and> ok p' \<and> limit p' = limit p"
    and used_finite: "ok p \<Longrightarrow> finite (used p)"

text \<open>A sequence of requests: \<open>None\<close> takes an object out, \<open>Some h\<close> gives \<open>h\<close> back.\<close>

fun pool_trace :: "('p \<Rightarrow> ('n \<times> 'p) option) \<Rightarrow> ('p \<Rightarrow> 'n \<Rightarrow> 'p option) \<Rightarrow> 'p \<Rightarrow> 'n option list \<Rightarrow>
    ('n option list \<times> 'p) option" where
  "pool_trace give takeback p [] = Some ([], p)"
| "pool_trace give takeback p (None # rs) =
     (case give p of None \<Rightarrow> None
      | Some (h, p') \<Rightarrow> map_option (apfst ((#) (Some h))) (pool_trace give takeback p' rs))"
| "pool_trace give takeback p (Some h # rs) =
     (case takeback p h of None \<Rightarrow> None
      | Some p' \<Rightarrow> map_option (apfst ((#) None)) (pool_trace give takeback p' rs))"

context allocator begin

text \<open>Objects taken out and not given back are pairwise different.\<close>

lemma takes_distinct:
  assumes "ok p" "card (used p) + k < limit p" "limit p \<le> 2 ^ 63"
  shows "\<exists>hs p'. pool_trace give takeback p (replicate k None) = Some (map Some hs, p') \<and>
    length hs = k \<and> distinct hs \<and> set hs \<inter> used p = {} \<and> used p' = used p \<union> set hs \<and> ok p' \<and>
    limit p' = limit p"
  using assms
proof (induction k arbitrary: p)
  case 0
  then show ?case by simp
next
  case (Suc k)
  then obtain h p1 where h: "give p = Some (h, p1)" "h \<notin> used p" "used p1 = insert h (used p)" "ok p1"
      "limit p1 = limit p"
    using give_law [of p] by auto
  have "card (used p1) = card (used p) + 1" using h used_finite [OF Suc.prems(1)] by simp
  then obtain hs p' where "pool_trace give takeback p1 (replicate k None) = Some (map Some hs, p')"
      "length hs = k" "distinct hs" "set hs \<inter> used p1 = {}" "used p' = used p1 \<union> set hs" "ok p'"
      "limit p' = limit p1"
    using Suc.IH [of p1] Suc.prems h by auto
  then show ?case using h by (intro exI [of _ "h # hs"] exI [of _ p']) auto
qed

text \<open>Giving an object back makes room for another.\<close>

lemma give_takeback:
  assumes "ok p" "card (used p) + 1 < limit p" "limit p \<le> 2 ^ 63"
  shows "\<exists>h p1 p2. give p = Some (h, p1) \<and> takeback p1 h = Some p2 \<and> used p2 = used p \<and> ok p2"
  using give_law [OF assms] takeback_law by fastforce

end

interpretation pool: allocator pool_ok in_use warn_psize pool_out pool_in
proof
  fix p :: "'a pool_scheme" and h
  show "\<exists>h p'. pool_out p = Some (h, p') \<and> h \<notin> in_use p \<and> in_use p' = insert h (in_use p) \<and>
      pool_ok p' \<and> warn_psize p' = warn_psize p"
    if "pool_ok p" "card (in_use p) + 1 < warn_psize p" "warn_psize p \<le> 2 ^ 63"
    using pool_out_ok [OF that(1,2)] that(2,3) by auto
  show "\<exists>p'. pool_in p h = Some p' \<and> in_use p' = in_use p - {h} \<and> pool_ok p' \<and>
      warn_psize p' = warn_psize p" if "pool_ok p" "h \<in> in_use p"
    using pool_in_ok [OF that] .
  show "finite (in_use p)" by simp
qed

end
