(* ===== verification/Callbacks.thy ===== *)
theory Callbacks
  imports EventScheduler Pool_Model
begin

text \<open>
  The callback classes of libsuc/callback.h. A callback of the dynamic classes
  (\<open>CallbackFunction1-3\<close>, \<open>CallbackMember0-4\<close>) is an object of a pool: \<open>create\<close> takes one
  out and stores the arguments in it, \<open>call\<close> runs the function on the stored arguments and
  gives the object back. The classes differ in the arguments they store, so their code is
  modelled once, for a payload \<open>'a\<close>, and each class is that model at its own payload (for a
  member, with the instance first). A callback of the static classes is an object of its
  owner, with a flag \<open>isFree\<close> in the DEBUG build.

  The function that a callback runs is the parameter \<open>f\<close>, on the state of the simulator.
\<close>

subsection \<open>Dynamic callbacks\<close>

record ('a, 'w) cb_world =
  cbPool :: pool
  params :: "nat \<Rightarrow> 'a"
  client :: 'w

type_synonym ('a, 'w) cb_sim = "(nat tqueue, ('a, 'w) cb_world) sim"
type_synonym ('a, 'w) cb_fun = "'a \<Rightarrow> ('a, 'w) cb_sim \<Rightarrow> ('a, 'w) cb_sim option"

definition cb_create :: "'a \<Rightarrow> ('a, 'w) cb_sim \<Rightarrow> (nat \<times> ('a, 'w) cb_sim) option" where
  "cb_create a s = do {
     (cb, p) \<leftarrow> pool_out (cbPool (world s));
     Some (cb, s\<lparr>world := (world s)\<lparr>cbPool := p, params := (params (world s))(cb := a)\<rparr>\<rparr>) }"

definition cb_schedule :: "('a, 'w) cb_fun \<Rightarrow> nat \<Rightarrow> 'a \<Rightarrow> ('a, 'w) cb_sim \<Rightarrow> ('a, 'w) cb_sim option" where
  "cb_schedule f delta a s =
     (if delta = 0 then f a s
      else do { (cb, s1) \<leftarrow> cb_create a s; ES_schedule delta cb s1 })"

definition cb_scheduleAbs :: "('a, 'w) cb_fun \<Rightarrow> nat \<Rightarrow> 'a \<Rightarrow> ('a, 'w) cb_sim \<Rightarrow> ('a, 'w) cb_sim option" where
  "cb_scheduleAbs f tim a s =
     (if tim = globalClock s then f a s
      else do { (cb, s1) \<leftarrow> cb_create a s; ES_scheduleAbs tim cb s1 })"

definition cb_destroy :: "nat \<Rightarrow> ('a, 'w) cb_sim \<Rightarrow> ('a, 'w) cb_sim option" where
  "cb_destroy cb s = do {
     p \<leftarrow> pool_in (cbPool (world s)) cb;
     Some (s\<lparr>world := (world s)\<lparr>cbPool := p\<rparr>\<rparr>) }"

definition cb_call :: "('a, 'w) cb_fun \<Rightarrow> nat \<Rightarrow> ('a, 'w) cb_sim \<Rightarrow> ('a, 'w) cb_sim option" where
  "cb_call f cb s = do {
     s1 \<leftarrow> f (params (world s) cb) s;
     cb_destroy cb s1 }"

definition cb_setParams :: "('a \<Rightarrow> 'a) \<Rightarrow> nat \<Rightarrow> ('a, 'w) cb_sim \<Rightarrow> ('a, 'w) cb_sim" where
  "cb_setParams g cb s =
     s\<lparr>world := (world s)\<lparr>params := (params (world s))(cb := g (params (world s) cb))\<rparr>\<rparr>"

subsection \<open>The dynamic classes\<close>

record ('a, 'w) cb_class =
  cls_create :: "'a \<Rightarrow> ('a, 'w) cb_sim \<Rightarrow> (nat \<times> ('a, 'w) cb_sim) option"
  cls_schedule :: "nat \<Rightarrow> 'a \<Rightarrow> ('a, 'w) cb_sim \<Rightarrow> ('a, 'w) cb_sim option"
  cls_scheduleAbs :: "nat \<Rightarrow> 'a \<Rightarrow> ('a, 'w) cb_sim \<Rightarrow> ('a, 'w) cb_sim option"
  cls_call :: "nat \<Rightarrow> ('a, 'w) cb_sim \<Rightarrow> ('a, 'w) cb_sim option"
  cls_destroy :: "nat \<Rightarrow> ('a, 'w) cb_sim \<Rightarrow> ('a, 'w) cb_sim option"

definition cb_class_of :: "('a, 'w) cb_fun \<Rightarrow> ('a, 'w) cb_class" where
  "cb_class_of f = \<lparr>cls_create = cb_create, cls_schedule = cb_schedule f,
     cls_scheduleAbs = cb_scheduleAbs f, cls_call = cb_call f, cls_destroy = cb_destroy\<rparr>"

definition CallbackFunction1 where
  "CallbackFunction1 funcPtr = cb_class_of (\<lambda>p1. funcPtr p1)"

definition CallbackFunction2 where
  "CallbackFunction2 funcPtr = cb_class_of (\<lambda>(p1, p2). funcPtr p1 p2)"

definition CallbackFunction3 where
  "CallbackFunction3 funcPtr = cb_class_of (\<lambda>(p1, p2, p3). funcPtr p1 p2 p3)"

definition CallbackMember0 where
  "CallbackMember0 memberPtr = cb_class_of (\<lambda>i. memberPtr i)"

definition CallbackMember1 where
  "CallbackMember1 memberPtr = cb_class_of (\<lambda>(i, p1). memberPtr i p1)"

definition CallbackMember2 where
  "CallbackMember2 memberPtr = cb_class_of (\<lambda>(i, p1, p2). memberPtr i p1 p2)"

definition CallbackMember3 where
  "CallbackMember3 memberPtr = cb_class_of (\<lambda>(i, p1, p2, p3). memberPtr i p1 p2 p3)"

definition CallbackMember4 where
  "CallbackMember4 memberPtr = cb_class_of (\<lambda>(i, p1, p2, p3, p4). memberPtr i p1 p2 p3 p4)"

subsection \<open>Static callbacks\<close>

record ('n, 'a, 'w) scb_world =
  isFree :: "'n \<Rightarrow> bool"
  sparams :: "'n \<Rightarrow> 'a"
  sclient :: 'w

type_synonym ('n, 'a, 'w) scb_sim = "('n tqueue, ('n, 'a, 'w) scb_world) sim"
type_synonym ('n, 'a, 'w) scb_fun = "'a \<Rightarrow> ('n, 'a, 'w) scb_sim \<Rightarrow> ('n, 'a, 'w) scb_sim option"

definition set_isFree :: "'n \<Rightarrow> bool \<Rightarrow> ('n, 'a, 'w) scb_sim \<Rightarrow> ('n, 'a, 'w) scb_sim" where
  "set_isFree n b s = s\<lparr>world := (world s)\<lparr>isFree := (isFree (world s))(n := b)\<rparr>\<rparr>"

definition set_sparams :: "'n \<Rightarrow> 'a \<Rightarrow> ('n, 'a, 'w) scb_sim \<Rightarrow> ('n, 'a, 'w) scb_sim" where
  "set_sparams n a s = s\<lparr>world := (world s)\<lparr>sparams := (sparams (world s))(n := a)\<rparr>\<rparr>"

definition scb_schedule ::
  "('n, 'a, 'w) scb_fun \<Rightarrow> nat \<Rightarrow> 'n \<Rightarrow> 'a \<Rightarrow> ('n, 'a, 'w) scb_sim \<Rightarrow> ('n, 'a, 'w) scb_sim option" where
  "scb_schedule f delta this a s = do {
     I_check (isFree (world s) this);
     if delta = 0 then f a s
     else ES_schedule delta this (set_isFree this False (set_sparams this a s)) }"

definition scb_scheduleAbs ::
  "('n, 'a, 'w) scb_fun \<Rightarrow> nat \<Rightarrow> 'n \<Rightarrow> 'a \<Rightarrow> ('n, 'a, 'w) scb_sim \<Rightarrow> ('n, 'a, 'w) scb_sim option" where
  "scb_scheduleAbs f tim this a s = do {
     I_check (isFree (world s) this);
     if tim = globalClock s then f a s
     else ES_scheduleAbs tim this (set_isFree this False (set_sparams this a s)) }"

definition scb_call ::
  "('n, 'a, 'w) scb_fun \<Rightarrow> 'n \<Rightarrow> ('n, 'a, 'w) scb_sim \<Rightarrow> ('n, 'a, 'w) scb_sim option" where
  "scb_call f this s =
     (let s1 = set_isFree this True s in f (sparams (world s1) this) s1)"

text \<open>\<open>StaticCallbackFunction0\<close> and \<open>StaticCallbackMember0\<close> store no argument. The latter
  goes through its own \<open>call\<close> when nothing has to be scheduled.\<close>

definition scb0_schedule ::
  "(('n, 'a, 'w) scb_sim \<Rightarrow> ('n, 'a, 'w) scb_sim option) \<Rightarrow> nat \<Rightarrow> 'n \<Rightarrow>
   ('n, 'a, 'w) scb_sim \<Rightarrow> ('n, 'a, 'w) scb_sim option" where
  "scb0_schedule f delta this s = do {
     I_check (isFree (world s) this);
     if delta = 0 then f s
     else ES_schedule delta this (set_isFree this False s) }"

definition scb0_scheduleAbs ::
  "(('n, 'a, 'w) scb_sim \<Rightarrow> ('n, 'a, 'w) scb_sim option) \<Rightarrow> nat \<Rightarrow> 'n \<Rightarrow>
   ('n, 'a, 'w) scb_sim \<Rightarrow> ('n, 'a, 'w) scb_sim option" where
  "scb0_scheduleAbs f tim this s = do {
     I_check (isFree (world s) this);
     if tim = globalClock s then f s
     else ES_scheduleAbs tim this (set_isFree this False s) }"

definition scb0_call ::
  "(('n, 'a, 'w) scb_sim \<Rightarrow> ('n, 'a, 'w) scb_sim option) \<Rightarrow> 'n \<Rightarrow>
   ('n, 'a, 'w) scb_sim \<Rightarrow> ('n, 'a, 'w) scb_sim option" where
  "scb0_call f this s = f (set_isFree this True s)"

definition scbm0_schedule ::
  "(('n, 'a, 'w) scb_sim \<Rightarrow> ('n, 'a, 'w) scb_sim option) \<Rightarrow> nat \<Rightarrow> 'n \<Rightarrow>
   ('n, 'a, 'w) scb_sim \<Rightarrow> ('n, 'a, 'w) scb_sim option" where
  "scbm0_schedule f delta this s = do {
     I_check (isFree (world s) this);
     if delta = 0 then scb0_call f this s
     else ES_schedule delta this (set_isFree this False s) }"

definition scbm0_scheduleAbs ::
  "(('n, 'a, 'w) scb_sim \<Rightarrow> ('n, 'a, 'w) scb_sim option) \<Rightarrow> nat \<Rightarrow> 'n \<Rightarrow>
   ('n, 'a, 'w) scb_sim \<Rightarrow> ('n, 'a, 'w) scb_sim option" where
  "scbm0_scheduleAbs f tim this s = do {
     I_check (isFree (world s) this);
     if tim = globalClock s then scb0_call f this s
     else ES_scheduleAbs tim this (set_isFree this False s) }"

record ('n, 'a, 'w) scb_class =
  scls_schedule :: "nat \<Rightarrow> 'n \<Rightarrow> 'a \<Rightarrow> ('n, 'a, 'w) scb_sim \<Rightarrow> ('n, 'a, 'w) scb_sim option"
  scls_scheduleAbs :: "nat \<Rightarrow> 'n \<Rightarrow> 'a \<Rightarrow> ('n, 'a, 'w) scb_sim \<Rightarrow> ('n, 'a, 'w) scb_sim option"
  scls_call :: "'n \<Rightarrow> ('n, 'a, 'w) scb_sim \<Rightarrow> ('n, 'a, 'w) scb_sim option"

definition StaticCallbackFunction2 where
  "StaticCallbackFunction2 funcPtr =
     (let f = (\<lambda>(p1, p2). funcPtr p1 p2)
      in \<lparr>scls_schedule = scb_schedule f, scls_scheduleAbs = scb_scheduleAbs f, scls_call = scb_call f\<rparr>)"

definition StaticCallbackMember1 where
  "StaticCallbackMember1 i memberPtr =
     (let f = (\<lambda>p1. memberPtr i p1)
      in \<lparr>scls_schedule = scb_schedule f, scls_scheduleAbs = scb_scheduleAbs f, scls_call = scb_call f\<rparr>)"

definition StaticCallbackMember2 where
  "StaticCallbackMember2 i memberPtr =
     (let f = (\<lambda>(p1, p2). memberPtr i p1 p2)
      in \<lparr>scls_schedule = scb_schedule f, scls_scheduleAbs = scb_scheduleAbs f, scls_call = scb_call f\<rparr>)"

subsection \<open>What dynamic callbacks keep\<close>

text \<open>
  The objects in the time queue are objects that the pool has handed out; the others that are
  out of it belong to somebody else. The callback \<open>cb\<close> is due at \<open>T\<close> and holds the arguments
  \<open>a\<close>, or else the goal of running it has been reached; \<open>R\<close> is what the functions need
  to know of the state of the client and of the number of objects that are out, which bounds
  what they take.
\<close>

definition cb_pool_ok :: "('a, 'w) cb_world \<Rightarrow> (nat \<Rightarrow> nat option) \<Rightarrow> bool" where
  "cb_pool_ok w ag = (pool_ok (cbPool w) \<and> dom ag \<subseteq> in_use (cbPool w))"

definition others :: "('a, 'w) cb_world \<Rightarrow> (nat \<Rightarrow> nat option) \<Rightarrow> nat set" where
  "others w ag = in_use (cbPool w) - dom ag"

definition cb_inv :: "nat \<Rightarrow> 'a \<Rightarrow> nat \<Rightarrow> ('w \<Rightarrow> bool) \<Rightarrow> ('w \<Rightarrow> nat \<Rightarrow> bool) \<Rightarrow> nat set \<Rightarrow> nat \<Rightarrow>
    ('a, 'w) cb_world \<Rightarrow> (nat \<Rightarrow> nat option) \<Rightarrow> bool" where
  "cb_inv cb a T goal R L k w ag =
     (cb_pool_ok w ag \<and> (goal (client w) \<or> ag cb = Some T \<and> params w cb = a) \<and>
      others w ag = L \<and> R (client w) (card (in_use (cbPool w))) \<and> warn_psize (cbPool w) = k)"

text \<open>
  What a function run by a callback may do: add entries to the agenda, for callbacks that it
  takes out of the pool itself, and nothing to objects that are in use.
\<close>

definition cb_frame :: "('a, 'w) cb_sim \<Rightarrow> ('a, 'w) cb_sim \<Rightarrow> bool" where
  "cb_frame s s' =
     (keeps_agenda tq_ok agenda minTime AccessSize s s' \<and> cb_pool_ok (world s') (agenda (cbQ s')) \<and>
      others (world s') (agenda (cbQ s')) = others (world s) (agenda (cbQ s)) \<and>
      in_use (cbPool (world s)) \<subseteq> in_use (cbPool (world s')) \<and>
      warn_psize (cbPool (world s')) = warn_psize (cbPool (world s)) \<and>
      (\<forall>n\<in>in_use (cbPool (world s)). n \<in> dom (agenda (cbQ s')) \<longrightarrow> n \<in> dom (agenda (cbQ s))) \<and>
      (\<forall>n\<in>in_use (cbPool (world s)). params (world s') n = params (world s) n))"

text \<open>
  The function returns, keeps the frame, reaches the goal on \<open>a0\<close> and never loses it. It runs
  with \<open>R\<close> for the objects that are out, the one of the running callback included, and
  establishes it for those that are out when the running one has been given back. \<open>k\<close> is the
  number of objects at which the pool stops the program.
\<close>

definition fun_ok :: "('a, 'w) cb_fun \<Rightarrow> 'a \<Rightarrow> ('w \<Rightarrow> bool) \<Rightarrow> ('w \<Rightarrow> nat \<Rightarrow> bool) \<Rightarrow> nat \<Rightarrow> bool" where
  "fun_ok f a0 goal R k = (\<forall>a s. tq_ok (cbQ s) \<and> minTime (cbQ s) \<le> globalClock s \<and>
     globalClock s < minTime (cbQ s) + AccessSize (cbQ s) \<and> globalClock s + 65536 \<le> MaxTime \<and>
     cb_pool_ok (world s) (agenda (cbQ s)) \<and> warn_psize (cbPool (world s)) = k \<and>
     R (client (world s)) (card (in_use (cbPool (world s)))) \<longrightarrow>
     (\<exists>s'. f a s = Some s' \<and> cb_frame s s' \<and> R (client (world s')) (card (in_use (cbPool (world s'))) - 1) \<and>
       (a = a0 \<or> goal (client (world s)) \<longrightarrow> goal (client (world s')))))"

lemma cb_client_ok:
  fixes f :: "('a, 'w) cb_fun"
  assumes f: "fun_ok f a0 goal R k"
  shows "tq_client_ok (cb_call f) (cb_inv cb0 a0 T goal R L k)"
  unfolding client_ok_def
proof (intro allI impI)
  fix cb :: nat and s :: "('a, 'w) cb_sim" and t
  assume a: "tq_ok (cbQ s) \<and> minTime (cbQ s) \<le> globalClock s \<and>
     globalClock s < minTime (cbQ s) + AccessSize (cbQ s) \<and>
     globalClock s + 65536 \<le> MaxTime \<and> t \<le> globalClock s \<and> agenda (cbQ s) cb = None \<and>
     cb_inv cb0 a0 T goal R L k (world s) ((agenda (cbQ s))(cb \<mapsto> t))"
  then have J: "cb_pool_ok (world s) (agenda (cbQ s))" "cb \<in> in_use (cbPool (world s))"
    and L: "others (world s) (agenda (cbQ s)) = insert cb L" "cb \<notin> L"
    by (auto simp: cb_inv_def cb_pool_ok_def others_def)
  obtain s1 where s1: "f (params (world s) cb) s = Some s1" "cb_frame s s1"
      "params (world s) cb = a0 \<or> goal (client (world s)) \<longrightarrow> goal (client (world s1))"
      "R (client (world s1)) (card (in_use (cbPool (world s1))) - 1)"
    using f a J(1) unfolding fun_ok_def cb_inv_def by blast
  have cb1: "cb \<in> in_use (cbPool (world s1))" "pool_ok (cbPool (world s1))"
    using s1(2) J(2) by (auto simp: cb_frame_def cb_pool_ok_def)
  obtain p where p: "pool_in (cbPool (world s1)) cb = Some p"
      "in_use p = in_use (cbPool (world s1)) - {cb}" "pool_ok p" "warn_psize p = warn_psize (cbPool (world s1))"
    using pool.takeback_law [OF cb1(2,1)] by auto
  let ?s' = "s1\<lparr>world := (world s1)\<lparr>cbPool := p\<rparr>\<rparr>"
  have "cb_call f cb s = Some ?s'" using s1(1) p(1) by (simp add: cb_call_def cb_destroy_def)
  moreover have "keeps_agenda tq_ok agenda minTime AccessSize s ?s'"
    using s1(2) by (simp add: cb_frame_def keeps_agenda_def)
  moreover have out: "cb \<notin> dom (agenda (cbQ s1))"
    using s1(2) J(2) a unfolding cb_frame_def by blast
  moreover have "agenda (cbQ s1) cb0 = Some T \<and> params (world s1) cb0 = a0"
    if "agenda (cbQ s) cb0 = Some T" "params (world s) cb0 = a0"
  proof -
    have "cb0 \<in> in_use (cbPool (world s))" using that J(1) by (auto simp: cb_pool_ok_def)
    then show ?thesis using that s1(2) by (simp add: cb_frame_def keeps_agenda_def)
  qed
  moreover have "goal (client (world s1)) \<or> agenda (cbQ s) cb0 = Some T \<and> params (world s) cb0 = a0"
    using a s1(3) by (auto simp: cb_inv_def split: if_splits)
  moreover have "others (world ?s') (agenda (cbQ ?s')) = L"
    using s1(2) L p(2) by (auto simp: cb_frame_def others_def)
  moreover have "card (in_use p) = card (in_use (cbPool (world s1))) - 1"
    using p(2) cb1(1) by (simp add: card_Diff_singleton)
  moreover have "warn_psize p = k" using p(4) s1(2) a by (auto simp: cb_frame_def cb_inv_def)
  ultimately show "\<exists>s'. cb_call f cb s = Some s' \<and> keeps_agenda tq_ok agenda minTime AccessSize s s' \<and>
      cb_inv cb0 a0 T goal R L k (world s') (agenda (cbQ s'))"
    using p s1(2,4) by (intro exI [of _ ?s']) (auto simp: cb_inv_def cb_pool_ok_def cb_frame_def)
qed

lemma cb_create_ok:
  assumes "cb_pool_ok (world s) ag"
    and "card (in_use (cbPool (world s))) + 1 < warn_psize (cbPool (world s))"
    and "warn_psize (cbPool (world s)) \<le> 2 ^ 63"
  shows "\<exists>cb p. cb_create a s =
      Some (cb, s\<lparr>world := (world s)\<lparr>cbPool := p, params := (params (world s))(cb := a)\<rparr>\<rparr>) \<and>
    cb \<notin> in_use (cbPool (world s)) \<and> in_use p = insert cb (in_use (cbPool (world s))) \<and> pool_ok p \<and>
    warn_psize p = warn_psize (cbPool (world s))"
  using pool.give_law [of "cbPool (world s)"] assms by (auto simp: cb_create_def cb_pool_ok_def)

text \<open>Scheduling \<open>a\<close> takes a fresh object out of the pool and enters it into the agenda.\<close>

lemma cb_schedule_ok:
  assumes s: "sim_ok s" "cb_pool_ok (world s) (agenda (cbQ s))"
    and room: "card (in_use (cbPool (world s))) + 1 < warn_psize (cbPool (world s))"
      "warn_psize (cbPool (world s)) \<le> 2 ^ 63"
    and delta: "0 < delta" "delta \<le> 65535" "globalClock s + 65535 \<le> MaxTime"
    and R: "R (client (world s)) (card (in_use (cbPool (world s))) + 1)"
  shows "\<exists>cb s'. cb_schedule f delta a s = Some s' \<and> sim_ok s' \<and> globalClock s' = globalClock s \<and>
    agenda (cbQ s') = (agenda (cbQ s))(cb \<mapsto> globalClock s + delta) \<and> cb \<notin> dom (agenda (cbQ s)) \<and>
    cb_inv cb a (globalClock s + delta) goal R (others (world s) (agenda (cbQ s))) (warn_psize (cbPool (world s)))
      (world s') (agenda (cbQ s'))"
proof -
  obtain cb p where c: "cb_create a s =
      Some (cb, s\<lparr>world := (world s)\<lparr>cbPool := p, params := (params (world s))(cb := a)\<rparr>\<rparr>)"
      "cb \<notin> in_use (cbPool (world s))" "in_use p = insert cb (in_use (cbPool (world s)))" "pool_ok p"
      "warn_psize p = warn_psize (cbPool (world s))"
    using cb_create_ok [OF s(2) room] by blast
  let ?s1 = "s\<lparr>world := (world s)\<lparr>cbPool := p, params := (params (world s))(cb := a)\<rparr>\<rparr>"
  have idle: "agenda (cbQ s) cb = None" using c(2) s(2) by (auto simp: cb_pool_ok_def)
  then obtain q where q: "ES_schedule delta cb ?s1 = Some (?s1\<lparr>cbQ := q\<rparr>)" "tq_ok q"
      "agenda q = (agenda (cbQ s))(cb \<mapsto> globalClock s + delta)"
      "minTime q = minTime (cbQ s)" "AccessSize q = AccessSize (cbQ s)"
    using schedule_lemma [of ?s1 cb delta] s(1) delta by (auto simp: sim_ok_def)
  have "cb_schedule f delta a s = Some (?s1\<lparr>cbQ := q\<rparr>)"
    using c(1) q(1) delta(1) by (simp add: cb_schedule_def)
  moreover have "sim_ok (?s1\<lparr>cbQ := q\<rparr>)" using s(1) q by (auto simp: sim_ok_def)
  moreover have "card (in_use p) = card (in_use (cbPool (world s))) + 1" using c(2,3) by simp
  then have "cb_inv cb a (globalClock s + delta) goal R (others (world s) (agenda (cbQ s))) (warn_psize (cbPool (world s)))
      (world (?s1\<lparr>cbQ := q\<rparr>)) (agenda q)"
    using c q s(2) R by (auto simp: cb_inv_def cb_pool_ok_def others_def)
  ultimately show ?thesis using q(3) idle by (intro exI [of _ cb] exI [of _ "?s1\<lparr>cbQ := q\<rparr>"]) auto
qed

text \<open>Running \<open>delta\<close> cycles and one more runs the function on \<open>a\<close>.\<close>

lemma cb_reaches_goal:
  assumes f: "fun_ok f a goal R k" and s: "sim_ok s"
    and J: "cb_inv cb a (globalClock s + delta) goal R L k (world s) (agenda (cbQ s))"
    and cb: "agenda (cbQ s) cb = Some (globalClock s + delta)"
    and bound: "globalClock s + delta + 65536 \<le> MaxTime"
  shows "\<exists>s'. ES_cycles (cb_call f) (Suc delta) s = Some s' \<and> sim_ok s' \<and>
    goal (client (world s')) \<and> cb_pool_ok (world s') (agenda (cbQ s')) \<and>
    others (world s') (agenda (cbQ s')) = L \<and> globalClock s' = globalClock s + delta + 1"
proof -
  note c = cb_client_ok [OF f, of cb "globalClock s + delta"]
  obtain s2 where s2: "ES_cycles (cb_call f) delta s = Some s2" "sim_ok s2"
      "cb_inv cb a (globalClock s + delta) goal R L k (world s2) (agenda (cbQ s2))"
      "globalClock s2 = globalClock s + delta"
    using cycles_pending [OF c s J bound cb] by blast
  obtain s3 where s3: "ES_advanceClock (cb_call f) s2 = Some (s3\<lparr>globalClock := globalClock s2 + 1\<rparr>)"
      "sim_ok (s3\<lparr>globalClock := globalClock s2 + 1\<rparr>)"
      "cb_inv cb a (globalClock s + delta) goal R L k (world s3) (agenda (cbQ s3))"
    using advance_lemma [OF s2(2) _ c s2(3)] bound s2(4) by auto
  have "agenda (cbQ s3) cb \<noteq> Some (globalClock s + delta)"
    using s3(2) s2(4) unfolding sim_ok_def by fastforce
  then have "goal (client (world s3))" using s3(3) by (simp add: cb_inv_def)
  moreover have "ES_cycles (cb_call f) (Suc delta) s = Some (s3\<lparr>globalClock := globalClock s2 + 1\<rparr>)"
    using s2(1) s3(1) ES_cycles_snoc [of "cb_call f" delta s] by simp
  ultimately show ?thesis using s3(2,3) s2(4) by (auto simp: cb_inv_def)
qed

subsection \<open>Static callbacks: the flag agrees with the queue\<close>

definition scb_inv :: "('n, 'a, 'w) scb_sim \<Rightarrow> bool" where
  "scb_inv s = (\<forall>n. isFree (world s) n = (agenda (cbQ s) n = None))"

lemma set_isFree_frame [simp]:
  "cbQ (set_isFree n b s) = cbQ s" "globalClock (set_isFree n b s) = globalClock s"
  "cbQ (set_sparams n a s) = cbQ s" "globalClock (set_sparams n a s) = globalClock s"
  "isFree (world (set_isFree n b s)) = (isFree (world s))(n := b)"
  "isFree (world (set_sparams n a s)) = isFree (world s)"
  "sparams (world (set_isFree n b s)) = sparams (world s)"
  "sparams (world (set_sparams n a s)) = (sparams (world s))(n := a)"
  by (simp_all add: set_isFree_def set_sparams_def)

lemma scb_schedule_ok:
  assumes s: "sim_ok s" "scb_inv s"
    and delta: "0 < delta" "delta \<le> 65535" "globalClock s + 65535 \<le> MaxTime"
  shows "scb_schedule f delta n a s =
      (if agenda (cbQ s) n = None
       then ES_schedule delta n (set_isFree n False (set_sparams n a s)) else None)"
    and "agenda (cbQ s) n = None \<Longrightarrow>
      \<exists>s'. scb_schedule f delta n a s = Some s' \<and> sim_ok s' \<and> scb_inv s' \<and>
        agenda (cbQ s') = (agenda (cbQ s))(n \<mapsto> globalClock s + delta) \<and> sparams (world s') n = a"
proof -
  show eq: "scb_schedule f delta n a s =
      (if agenda (cbQ s) n = None
       then ES_schedule delta n (set_isFree n False (set_sparams n a s)) else None)"
    using s(2) delta(1) by (cases "agenda (cbQ s) n") (simp_all add: scb_schedule_def scb_inv_def)
  assume n: "agenda (cbQ s) n = None"
  let ?s1 = "set_isFree n False (set_sparams n a s)"
  obtain q where q: "ES_schedule delta n ?s1 = Some (?s1\<lparr>cbQ := q\<rparr>)" "tq_ok q"
      "agenda q = (agenda (cbQ s))(n \<mapsto> globalClock s + delta)"
      "minTime q = minTime (cbQ s)" "AccessSize q = AccessSize (cbQ s)"
    using schedule_lemma [of ?s1 n delta] s(1) delta n by (auto simp: sim_ok_def)
  have "sim_ok (?s1\<lparr>cbQ := q\<rparr>)" using s(1) q by (auto simp: sim_ok_def)
  moreover have "scb_inv (?s1\<lparr>cbQ := q\<rparr>)" using s(2) q(3) by (auto simp: scb_inv_def)
  ultimately show "\<exists>s'. scb_schedule f delta n a s = Some s' \<and> sim_ok s' \<and> scb_inv s' \<and>
        agenda (cbQ s') = (agenda (cbQ s))(n \<mapsto> globalClock s + delta) \<and> sparams (world s') n = a"
    using eq n q by simp
qed

end
