(* ===== verification/Engine_Examples.thy ===== *)
theory Engine_Examples
  imports TQueue_Remove Callbacks
begin

text \<open>
  Concrete states of the simulation engine, on which the hypotheses of the properties hold:
  a queue with eight buckets as the constructor returns it, a simulator that uses it, and
  callbacks that log their argument.
\<close>

definition idle_users :: "nat \<Rightarrow> nat user" where
  "idle_users = (\<lambda>_. \<lparr>tq_time = 0, tq_next = None, qType = InNoQueue\<rparr>)"

definition queue8 :: "nat tqueue" where
  "queue8 = \<lparr>minTime = 0, minPos = 0, nNodes = 0, AccessSize = 8, AccessMask = 7,
     access = replicate 8 None, accessTail = replicate 8 None, tooFar = [], minTooFar = MaxTime,
     users = idle_users\<rparr>"

lemma queue8_new: "tq_new 8 (replicate 8 None) (replicate 8 None) idle_users = Some queue8"
  by (simp add: tq_new_def tq_reset_def queue8_def)

lemma queue8_ok [simp]: "tq_ok queue8" "agenda queue8 = Map.empty" "minTime queue8 = 0"
    "AccessSize queue8 = 8"
  using new_ok [OF queue8_new] by (simp_all add: idle_users_def)

text \<open>Node 1 is due at time 0, node 2 at time 5.\<close>

definition queue8_12 :: "nat tqueue" where
  "queue8_12 = the (do { q \<leftarrow> tq_insert queue8 1 0; tq_insert q 2 5 })"

lemma queue8_12_ok:
  "tq_ok queue8_12 \<and> agenda queue8_12 = [1 \<mapsto> 0, 2 \<mapsto> 5] \<and> minTime queue8_12 = 0 \<and>
   AccessSize queue8_12 = 8"
proof -
  obtain q where q: "tq_insert queue8 1 0 = Some q" "tq_ok q" "agenda q = [1 \<mapsto> 0]"
      "minTime q = 0" "AccessSize q = 8"
    using insert_ok [of queue8 1 0] by auto
  have "agenda q 2 = None" using q(3) by simp
  then show ?thesis using insert_ok [OF q(2), of 2 5] q by (auto simp: queue8_12_def MaxTime_def)
qed

text \<open>Nodes 1 and 2 are both due at time 3.\<close>

definition queue8_33 :: "nat tqueue" where
  "queue8_33 = \<lparr>minTime = 0, minPos = 0, nNodes = 2, AccessSize = 8, AccessMask = 7,
     access = [None, None, None, Some 1, None, None, None, None],
     accessTail = [None, None, None, Some 2, None, None, None, None],
     tooFar = [], minTooFar = MaxTime,
     users = idle_users (1 := \<lparr>tq_time = 3, tq_next = Some 2, qType = InFastQueue\<rparr>,
       2 := \<lparr>tq_time = 3, tq_next = None, qType = InFastQueue\<rparr>)\<rparr>"

lemma replicate8: "replicate 8 x = [x, x, x, x, x, x, x, x]"
  by (simp add: eval_nat_numeral)

lemma queue8_33_run: "do { q \<leftarrow> tq_insert queue8 1 3; tq_insert q 2 3 } = Some queue8_33"
  by (simp add: queue8_def queue8_33_def idle_users_def tq_insert_def tq_addNode_def Let_def
      slot_of_def isInQueue_def upd_user_def u32_def s32_def replicate8)

lemma all8: "(\<forall>p<8. P p) = (P 0 \<and> P 1 \<and> P 2 \<and> P 3 \<and> P 4 \<and> P 5 \<and> P 6 \<and> P (7::nat))"
  by (auto simp: eval_nat_numeral All_less_Suc)

lemma ex8: "(\<exists>p<8. P p) = (P 0 \<or> P 1 \<or> P 2 \<or> P 3 \<or> P 4 \<or> P 5 \<or> P 6 \<or> P (7::nat))"
  using all8 [of "\<lambda>p. \<not> P p"] by blast

lemma sum8: "(\<Sum>p<(8::nat). f p) = f 0 + f 1 + f 2 + f 3 + f 4 + f 5 + f 6 + (f 7 :: int)"
  by (simp add: eval_nat_numeral)

lemma queue8_33_inv: "tq_inv queue8_33 (\<lambda>p. if p = 3 then [1, 2] else [])"
proof -
  have "\<exists>k\<le>31. (8::nat) = 2 ^ k" by (rule exI [of _ 3]) simp
  then show ?thesis
    by (simp add: queue8_33_def tq_inv_def size_ok_def window_ok_def bucket_ok_def all8 count_ok_def
        sum8 slot_def far_ok_def is_heap_def minTooFar_ok_def member_ok_def ex8 idle_users_def)
qed

definition sim8 :: "(nat tqueue, unit) sim" where
  "sim8 = \<lparr>globalClock = 0, cbQ = queue8_12, world = ()\<rparr>"

lemma sim8_ok [simp]: "sim_ok sim8"
  using queue8_12_ok by (auto simp: sim_ok_def sim8_def split: if_splits)

lemma sim8_simps [simp]: "globalClock sim8 = 0" "cbQ sim8 = queue8_12"
  by (simp_all add: sim8_def)

subsection \<open>A callback that schedules itself\<close>

text \<open>A timer that logs its arguments: it schedules itself again, three cycles later, until its argument is zero.\<close>

definition timer_fun :: "(nat, nat list) cb_fun" where
  "timer_fun a s =
     (let s1 = s\<lparr>world := (world s)\<lparr>client := a # client (world s)\<rparr>\<rparr>
      in if a = 0 then Some s1 else do { (cb, s2) \<leftarrow> cb_create (a - 1) s1; ES_schedule 3 cb s2 })"

lemma timer_fun_ok:
  assumes "k \<le> 2 ^ 63"
  shows "fun_ok timer_fun a (\<lambda>w. a \<in> set w) (\<lambda>w n. n + 1 < k) k"
  unfolding fun_ok_def
proof (intro allI impI)
  fix b :: nat and s :: "(nat, nat list) cb_sim"
  assume A: "tq_ok (cbQ s) \<and> minTime (cbQ s) \<le> globalClock s \<and>
     globalClock s < minTime (cbQ s) + AccessSize (cbQ s) \<and> globalClock s + 65536 \<le> MaxTime \<and>
     cb_pool_ok (world s) (agenda (cbQ s)) \<and> warn_psize (cbPool (world s)) = k \<and> card (in_use (cbPool (world s))) + 1 < k"
  let ?s1 = "s\<lparr>world := (world s)\<lparr>client := b # client (world s)\<rparr>\<rparr>"
  show "\<exists>s'. timer_fun b s = Some s' \<and> cb_frame s s' \<and> card (in_use (cbPool (world s'))) - 1 + 1 < k \<and>
      (b = a \<or> a \<in> set (client (world s)) \<longrightarrow> a \<in> set (client (world s')))"
  proof (cases "b = 0")
    case True
    then show ?thesis using A by (auto simp: timer_fun_def cb_frame_def keeps_agenda_def cb_pool_ok_def others_def)
  next
    case False
    obtain cb p where c: "cb_create (b - 1) ?s1 =
        Some (cb, ?s1\<lparr>world := (world ?s1)\<lparr>cbPool := p, params := (params (world ?s1))(cb := b - 1)\<rparr>\<rparr>)"
        "cb \<notin> in_use (cbPool (world s))" "in_use p = insert cb (in_use (cbPool (world s)))" "pool_ok p"
        "warn_psize p = warn_psize (cbPool (world s))"
      using cb_create_ok [of ?s1 "agenda (cbQ s)" "b - 1"] A assms by (auto simp: cb_pool_ok_def)
    let ?s2 = "?s1\<lparr>world := (world ?s1)\<lparr>cbPool := p, params := (params (world ?s1))(cb := b - 1)\<rparr>\<rparr>"
    have "agenda (cbQ s) cb = None" using A c(2) by (auto simp: cb_pool_ok_def)
    then obtain q where q: "ES_schedule 3 cb ?s2 = Some (?s2\<lparr>cbQ := q\<rparr>)" "tq_ok q"
        "agenda q = (agenda (cbQ s))(cb \<mapsto> globalClock s + 3)" "minTime q = minTime (cbQ s)" "AccessSize q = AccessSize (cbQ s)"
      using schedule_lemma [of ?s2 cb 3] A by auto
    have "timer_fun b s = Some (?s2\<lparr>cbQ := q\<rparr>)" using False c(1) q(1) by (simp add: timer_fun_def Let_def)
    moreover have "cb_frame s (?s2\<lparr>cbQ := q\<rparr>)"
      using A c q \<open>agenda (cbQ s) cb = None\<close> by (auto simp: cb_frame_def keeps_agenda_def cb_pool_ok_def others_def split: if_splits)
    moreover have "card (in_use p) - 1 + 1 < k" using A c(2,3) by simp
    ultimately show ?thesis by (intro exI [of _ "?s2\<lparr>cbQ := q\<rparr>"]) auto
  qed
qed

definition cb_sim8 :: "(nat, nat list) cb_sim" where
  "cb_sim8 = \<lparr>globalClock = 0, cbQ = queue8,
     world = \<lparr>cbPool = the (pool_new 16), params = (\<lambda>_. 0), client = []\<rparr>\<rparr>"

lemma cb_sim8_ok:
  "sim_ok cb_sim8 \<and> cb_pool_ok (world cb_sim8) (agenda (cbQ cb_sim8)) \<and>
   in_use (cbPool (world cb_sim8)) = {} \<and> warn_psize (cbPool (world cb_sim8)) = 128"
proof -
  obtain p where p: "pool_new 16 = Some p"
    by (auto simp: pool_new_def pool_reproduce_def)
  then show ?thesis using pool_new_ok [OF p] by (simp add: cb_sim8_def sim_ok_def cb_pool_ok_def)
qed

definition scb_sim8 :: "(nat, nat, unit) scb_sim" where
  "scb_sim8 = \<lparr>globalClock = 0, cbQ = queue8,
     world = \<lparr>isFree = (\<lambda>_. True), sparams = (\<lambda>_. 0), sclient = ()\<rparr>\<rparr>"

lemma scb_sim8_ok: "sim_ok scb_sim8 \<and> scb_inv scb_sim8"
  by (simp add: scb_sim8_def sim_ok_def scb_inv_def)

end
