(* ===== verification/CallbackContainer.thy ===== *)
theory CallbackContainer
  imports Pool_Model
begin

text \<open>
  \<open>CallbackContainer\<close> of libsuc/callback.h: callbacks chained through the field
  \<open>nextCB4Container\<close> of \<open>CallbackBase\<close>, in the DEBUG build. What a callback does when it is
  called is the parameter \<open>f\<close>; it may add callbacks to the container that calls it.
\<close>

subsection \<open>State and operations\<close>

record ('n, 'w) cc =
  cc_first :: "'n option"
  cc_last :: "'n option"
  nextCB :: "'n \<Rightarrow> 'n option"
  cc_world :: 'w

definition cc_new :: "('n \<Rightarrow> 'n option) \<Rightarrow> 'w \<Rightarrow> ('n, 'w) cc" where
  "cc_new nx w = \<lparr>cc_first = None, cc_last = None, nextCB = nx, cc_world = w\<rparr>"

definition cc_add :: "('n, 'w) cc \<Rightarrow> 'n \<Rightarrow> ('n, 'w) cc option" where
  "cc_add s c = do {
     I_check (nextCB s c = None);
     let s1 = s\<lparr>nextCB := (nextCB s)(c := None)\<rparr>;
     Some (case cc_last s1 of
             None \<Rightarrow> s1\<lparr>cc_first := Some c, cc_last := Some c\<rparr>
           | Some l \<Rightarrow> s1\<lparr>nextCB := (nextCB s1)(l := Some c), cc_last := Some c\<rparr>) }"

text \<open>Takes the first callback off the chain.\<close>

definition cc_unlink :: "('n, 'w) cc \<Rightarrow> 'n \<Rightarrow> ('n, 'w) cc" where
  "cc_unlink s cb =
     (let s1 = s\<lparr>cc_first := nextCB s cb, nextCB := (nextCB s)(cb := None)\<rparr>
      in if cc_first s1 = None then s1\<lparr>cc_last := None\<rparr> else s1)"

definition cc_callNext ::
  "('n \<Rightarrow> ('n, 'w) cc \<Rightarrow> ('n, 'w) cc option) \<Rightarrow> ('n, 'w) cc \<Rightarrow> ('n, 'w) cc option" where
  "cc_callNext f s =
     (case cc_first s of None \<Rightarrow> Some s | Some cb \<Rightarrow> f cb (cc_unlink s cb))"

text \<open>The loop of \<open>call\<close> runs until the chain is empty; callbacks may keep it from ending.\<close>

partial_function (option) cc_call ::
  "('n \<Rightarrow> ('n, 'w) cc \<Rightarrow> ('n, 'w) cc option) \<Rightarrow> ('n, 'w) cc \<Rightarrow> ('n, 'w) cc option" where
  "cc_call f s =
     (case cc_first s of
        None \<Rightarrow> Some s
      | Some cb \<Rightarrow>
          (case f cb (cc_unlink s cb) of None \<Rightarrow> None | Some s1 \<Rightarrow> cc_call f s1))"

definition cc_empty :: "('n, 'w) cc \<Rightarrow> bool" where
  "cc_empty s = (cc_first s = None)"

definition cc_makeEmpty :: "('n, 'w) cc \<Rightarrow> ('n, 'w) cc" where
  "cc_makeEmpty s = s\<lparr>cc_first := None\<rparr>"

subsection \<open>The chain is a queue\<close>

definition cc_inv :: "('n, 'w) cc \<Rightarrow> 'n list \<Rightarrow> bool" where
  "cc_inv s xs = (linked (nextCB s) (cc_first s) xs \<and> distinct xs \<and>
     cc_last s = (if xs = [] then None else Some (last xs)) \<and>
     (\<forall>n. n \<notin> set xs \<longrightarrow> nextCB s n = None))"

lemma linked_last: "linked nx p xs \<Longrightarrow> xs \<noteq> [] \<Longrightarrow> nx (last xs) = None"
  by (induction xs arbitrary: p) auto

lemma linked_snoc:
  "linked nx p xs \<Longrightarrow> distinct xs \<Longrightarrow> xs \<noteq> [] \<Longrightarrow> c \<notin> set xs \<Longrightarrow> nx c = None \<Longrightarrow>
   linked (nx(last xs := Some c)) p (xs @ [c])"
proof (induction xs arbitrary: p)
  case Nil
  then show ?case by simp
next
  case (Cons x xs)
  show ?case
  proof (cases "xs = []")
    case True
    then show ?thesis using Cons.prems by auto
  next
    case False
    then have "x \<noteq> last xs" using Cons.prems(2) by auto
    then show ?thesis using Cons False by auto
  qed
qed

lemma cc_new_inv: "cc_inv (cc_new (\<lambda>_. None) w) []"
  by (simp add: cc_inv_def cc_new_def)

lemma cc_add_ok:
  assumes "cc_inv s xs" "c \<notin> set xs"
  shows "\<exists>s'. cc_add s c = Some s' \<and> cc_inv s' (xs @ [c]) \<and> cc_world s' = cc_world s"
proof -
  have c: "nextCB s c = None" using assms by (simp add: cc_inv_def)
  then have "(nextCB s)(c := None) = nextCB s" by auto
  then show ?thesis using assms c linked_snoc [of "nextCB s" "cc_first s" xs c]
    by (auto simp: cc_add_def cc_inv_def fun_upd_idem)
qed

lemma cc_unlink_ok:
  assumes "cc_inv s (x # xs)"
  shows "cc_first s = Some x \<and> cc_inv (cc_unlink s x) xs \<and> cc_world (cc_unlink s x) = cc_world s"
  using assms by (cases xs) (auto simp: cc_inv_def cc_unlink_def Let_def linked_Some)

lemma cc_empty_iff: "cc_inv s xs \<Longrightarrow> cc_empty s = (xs = [])"
  by (cases xs) (auto simp: cc_inv_def cc_empty_def)

text \<open>A callback that appends \<open>ext cb\<close> to the container, and changes the world by \<open>g\<close>.\<close>

definition adds :: "('n \<Rightarrow> 'w \<Rightarrow> 'n list) \<Rightarrow> ('n \<Rightarrow> 'w \<Rightarrow> 'w) \<Rightarrow>
    ('n \<Rightarrow> ('n, 'w) cc \<Rightarrow> ('n, 'w) cc option) \<Rightarrow> bool" where
  "adds ext g f = (\<forall>cb s xs. cc_inv s xs \<longrightarrow> set (ext cb (cc_world s)) \<inter> set xs = {} \<longrightarrow>
     distinct (ext cb (cc_world s)) \<longrightarrow>
     (\<exists>s'. f cb s = Some s' \<and> cc_inv s' (xs @ ext cb (cc_world s)) \<and>
           cc_world s' = g cb (cc_world s)))"

fun cc_add_all :: "('n, 'w) cc \<Rightarrow> 'n list \<Rightarrow> ('n, 'w) cc option" where
  "cc_add_all s [] = Some s"
| "cc_add_all s (c # cs) = do { s1 \<leftarrow> cc_add s c; cc_add_all s1 cs }"

lemma cc_add_all_ok:
  "cc_inv s xs \<Longrightarrow> distinct (xs @ cs) \<Longrightarrow>
   \<exists>s'. cc_add_all s cs = Some s' \<and> cc_inv s' (xs @ cs) \<and> cc_world s' = cc_world s"
proof (induction cs arbitrary: s xs)
  case (Cons c cs)
  then obtain s1 where s1: "cc_add s c = Some s1" "cc_inv s1 (xs @ [c])" "cc_world s1 = cc_world s"
    using cc_add_ok [of s xs c] by auto
  then show ?case using Cons.IH [OF s1(2)] Cons.prems(2) by auto
qed simp

text \<open>The order of the calls, as a queue; at most \<open>n\<close> callbacks are called.\<close>

fun cc_serve :: "('n \<Rightarrow> 'w \<Rightarrow> 'n list) \<Rightarrow> ('n \<Rightarrow> 'w \<Rightarrow> 'w) \<Rightarrow> nat \<Rightarrow> 'n list \<Rightarrow> 'w \<Rightarrow> 'w option" where
  "cc_serve ext g n [] w = Some w"
| "cc_serve ext g 0 (x # xs) w = None"
| "cc_serve ext g (Suc n) (x # xs) w =
     (if set (ext x w) \<inter> set xs = {} \<and> distinct (ext x w) then cc_serve ext g n (xs @ ext x w) (g x w) else None)"

lemma cc_call_serves:
  assumes f: "adds ext g f"
  shows "cc_inv s xs \<Longrightarrow> cc_serve ext g n xs (cc_world s) = Some w \<Longrightarrow>
    \<exists>s'. cc_call f s = Some s' \<and> cc_inv s' [] \<and> cc_world s' = w"
proof (induction n arbitrary: s xs)
  have nil: "\<exists>s'. cc_call f s = Some s' \<and> cc_inv s' [] \<and> cc_world s' = w"
    if "cc_inv s []" "cc_serve ext g n [] (cc_world s) = Some w" for s n
  proof -
    have "cc_first s = None" using that(1) by (simp add: cc_inv_def)
    then have "cc_call f s = Some s" by (simp add: cc_call.simps)
    then show ?thesis using that by (cases n) simp_all
  qed
  {
    case 0
    then show ?case using nil by (cases xs) simp_all
  next
    case (Suc n)
    show ?case
    proof (cases xs)
      case Nil
      then show ?thesis using nil Suc.prems by blast
    next
      case (Cons x ys)
      note u = cc_unlink_ok [OF Suc.prems(1) [unfolded Cons]]
      have e: "set (ext x (cc_world s)) \<inter> set ys = {}" "distinct (ext x (cc_world s))"
          "cc_serve ext g n (ys @ ext x (cc_world s)) (g x (cc_world s)) = Some w"
        using Suc.prems(2) Cons by (simp_all split: if_splits)
      obtain s1 where s1: "f x (cc_unlink s x) = Some s1" "cc_inv s1 (ys @ ext x (cc_world s))"
          "cc_world s1 = g x (cc_world s)"
        using f [unfolded adds_def, THEN spec, of x, THEN spec, of "cc_unlink s x", THEN spec, of ys] u e by auto
      obtain s' where s': "cc_call f s1 = Some s'" "cc_inv s' []" "cc_world s' = w"
        using Suc.IH [OF s1(2)] s1(3) e(3) by auto
      have "cc_call f s = Some s'" using u s1(1) s'(1) by (subst cc_call.simps) simp
      then show ?thesis using s' by blast
    qed
  }
qed

text \<open>Everything added between two calls of \<open>callNext\<close> is called later, in its turn.\<close>

lemma cc_callNext_ok:
  assumes "adds ext g f" "cc_inv s (x # xs)"
    and "set (ext x (cc_world s)) \<inter> set xs = {}" "distinct (ext x (cc_world s))"
  shows "\<exists>s'. cc_callNext f s = Some s' \<and> cc_inv s' (xs @ ext x (cc_world s)) \<and>
    cc_world s' = g x (cc_world s)"
  using assms(1) [unfolded adds_def, THEN spec, of x, THEN spec, of "cc_unlink s x", THEN spec, of xs]
    cc_unlink_ok [OF assms(2)] assms(3,4) by (auto simp: cc_callNext_def)

end
