(* ===== verification/Snippets_Correct.thy ===== *)
theory Snippets_Correct
  imports Snippets_Model
begin

text \<open>
  What the integer helpers of libsuc/Snippets.cpp compute: \<open>log2i\<close> on the powers of two
  that it accepts, and where its loop does not end; \<open>roundUpPower2\<close>.
\<close>

lemma unat_word_pow2: "k < LENGTH('a) \<Longrightarrow> unat ((2::'a::len word) ^ k) = 2 ^ k"
  by (metis of_nat_numeral of_nat_power one_less_numeral_iff power_strict_increasing semiring_norm(76)
      take_bit_nat_eq_self unat_of_nat take_bit_eq_mod)

lemma pow2_less_iff_word: "j < 64 \<Longrightarrow> k < 64 \<Longrightarrow> ((2::64 word) ^ j < 2 ^ k) = (j < k)"
  by (simp add: word_less_nat_alt unat_word_pow2)

lemma log2i_loop_pow2:
  "j \<le> k \<Longrightarrow> k < 64 \<Longrightarrow> log2i_loop (2 ^ k) (2 ^ j) (of_nat j) = Some (of_nat k)"
proof (induction "k - j" arbitrary: j)
  case 0
  then show ?case by (simp add: log2i_loop.simps)
next
  case (Suc d)
  then have "j < k" by simp
  moreover have "push_bit 1 ((2::64 word) ^ j) = 2 ^ Suc j" by (simp add: push_bit_eq_mult)
  moreover have "(of_nat j :: 64 word) + 1 = of_nat (Suc j)" by simp
  ultimately show ?case
    using Suc.hyps(1) [of "Suc j"] Suc.hyps(2) Suc.prems
    by (subst log2i_loop.simps) (simp add: pow2_less_iff_word del: of_nat_Suc power_Suc)
qed

lemma log2i_pow2:
  assumes "k < 64"
  shows "log2i (2 ^ k) = Some (of_nat k)"
proof -
  have "((2::64 word) ^ k) AND (2 ^ k - 1) = 0"
    by (rule bit_eqI) (auto simp: bit_and_iff bit_exp_iff bit_mask_iff simp flip: mask_eq_exp_minus_1)
  moreover have "log2i_loop (2 ^ k) 1 0 = Some (of_nat k)"
    using log2i_loop_pow2 [of 0 k] assms by simp
  moreover have "ucast (of_nat k :: 64 word) = (of_nat k :: 16 word)"
    using assms by (simp add: unsigned_of_nat take_bit_nat_eq_self)
  ultimately show ?thesis by (simp add: log2i_def)
qed

lemma unat_log2i: "k < 64 \<Longrightarrow> unat (of_nat k :: 16 word) = k"
  by (simp add: unsigned_of_nat take_bit_nat_eq_self)


lemma log2i_loop_stuck:
  assumes n: "(2::64 word) ^ 63 < n" and ret: "log2i_loop n m i = Some r"
  shows "\<not> (m = 0 \<or> (\<exists>j<64. m = 2 ^ j))"
proof -
  have "(2::64 word) ^ 63 < n \<longrightarrow> \<not> (m = 0 \<or> (\<exists>j<64. m = 2 ^ j))"
  proof (rule log2i_loop.raw_induct
    [where P = "\<lambda>n m i r. (2::64 word) ^ 63 < n \<longrightarrow> \<not> (m = 0 \<or> (\<exists>j<64. m = 2 ^ j))", OF _ ret])
    fix f :: "64 word \<Rightarrow> 64 word \<Rightarrow> 64 word \<Rightarrow> 64 word option" and n m i r
    assume IH: "\<And>n m i r. f n m i = Some r \<Longrightarrow> 2 ^ 63 < n \<longrightarrow> \<not> (m = 0 \<or> (\<exists>j<64. m = 2 ^ j))"
      and eq: "(if m < n then f n (push_bit 1 m) (i + 1) else Some i) = Some r"
    show "2 ^ 63 < n \<longrightarrow> \<not> (m = 0 \<or> (\<exists>j<64. m = 2 ^ j))"
    proof (rule impI, rule notI)
      assume n: "2 ^ 63 < n" and m: "m = 0 \<or> (\<exists>j<64. m = 2 ^ j)"
      have "m \<le> 2 ^ 63"
      proof (cases "m = 0")
        case True
        then show ?thesis by simp
      next
        case False
        then obtain j where j: "j < 64" "m = 2 ^ j" using m by blast
        have "\<not> (2::64 word) ^ 63 < 2 ^ j" using j(1) pow2_less_iff_word [of 63 j] by simp
        then show ?thesis using j(2) by simp
      qed
      then have "m < n" using n by simp
      then have "f n (push_bit 1 m) (i + 1) = Some r" using eq by simp
      then have "\<not> (push_bit 1 m = 0 \<or> (\<exists>j<64. push_bit 1 m = 2 ^ j))" using IH n by blast
      moreover have "push_bit 1 m = 0 \<or> (\<exists>j<64. push_bit 1 m = 2 ^ j)"
      proof (cases "m = 0")
        case True
        then show ?thesis by simp
      next
        case False
        then obtain j where j: "j < 64" "m = 2 ^ j" using m by blast
        have "push_bit 1 m = 2 ^ Suc j" using j(2) by (simp add: push_bit_eq_mult)
        moreover have "(2::64 word) ^ Suc j = 0" if "j = 63" using that by simp
        ultimately show ?thesis using j(1) by (cases "j = 63") (auto intro!: exI [of _ "Suc j"])
      qed
      ultimately show False by blast
    qed
  qed
  then show ?thesis using n by blast
qed

lemma log2i_diverges:
  assumes "(2::64 word) ^ 63 < n"
  shows "log2i n = None"
proof -
  have none: "log2i_loop n 1 0 \<noteq> Some r" for r
    using log2i_loop_stuck [OF assms, of 1 0 r] by (metis power_0 zero_less_numeral)
  have "log2i_loop n 1 0 = None"
    using none by (cases "log2i_loop n 1 0") auto
  then show ?thesis by (simp add: log2i_def)
qed

subsection \<open>The least power of two that is not below a number\<close>

definition pow2_above :: "nat \<Rightarrow> nat" where
  "pow2_above m = 2 ^ (LEAST k. m \<le> 2 ^ k)"

lemma pow2_above_ge: "m \<le> pow2_above m"
  unfolding pow2_above_def by (rule LeastI [of _ m]) (simp add: less_imp_le)

lemma pow2_above_Suc:
  assumes "m AND (m - 1) \<noteq> 0"
  shows "m < pow2_above m" and "pow2_above (Suc m) = pow2_above m"
proof -
  have "m \<noteq> 2 ^ k" for k using assms by (auto simp: and_mask_mod)
  then have lt: "m \<le> 2 ^ k \<Longrightarrow> m < 2 ^ k" for k by (simp add: le_less)
  show "m < pow2_above m" using pow2_above_ge [of m] lt by (auto simp: pow2_above_def)
  have "(Suc m \<le> 2 ^ k) = (m \<le> 2 ^ k)" for k using lt [of k] by auto
  then show "pow2_above (Suc m) = pow2_above m" by (simp add: pow2_above_def)
qed

lemma pow2_above_eq: "2 ^ h < x \<Longrightarrow> x \<le> 2 ^ Suc h \<Longrightarrow> pow2_above x = 2 ^ Suc h"
proof -
  assume a: "2 ^ h < x" "x \<le> 2 ^ Suc h"
  have "(LEAST k. x \<le> 2 ^ k) = Suc h"
  proof (rule Least_equality)
    show "x \<le> 2 ^ Suc h" using a by simp
    fix k
    assume "x \<le> 2 ^ k"
    then have "(2::nat) ^ h < 2 ^ k" by (rule less_le_trans [OF a(1)])
    then show "Suc h \<le> k" by simp
  qed
  then show ?thesis by (simp add: pow2_above_def)
qed

lemma between_pow2: "0 < (x::nat) \<Longrightarrow> \<exists>h. 2 ^ h \<le> x \<and> x < 2 ^ Suc h"
proof (induction x)
  case 0
  then show ?case by simp
next
  case (Suc x)
  show ?case
  proof (cases "x = 0")
    case True
    then show ?thesis by (intro exI [of _ 0]) simp
  next
    case False
    then obtain h where h: "2 ^ h \<le> x" "x < 2 ^ Suc h" using Suc by auto
    show ?thesis
    proof (cases "Suc x = 2 ^ Suc h")
      case True
      then show ?thesis by (intro exI [of _ "Suc h"]) simp
    next
      case False
      then show ?thesis using h by (intro exI [of _ h]) simp
    qed
  qed
qed

subsection \<open>roundUpPower2\<close>

text \<open>In \<open>y\<close> every bit of \<open>x\<close> is smeared over the \<open>k\<close> positions below it.\<close>

definition smeared :: "nat \<Rightarrow> 32 word \<Rightarrow> 32 word \<Rightarrow> bool" where
  "smeared k x y = (\<forall>n. bit y n = (\<exists>d<k. bit x (n + d)))"

lemma smeared_step:
  assumes "smeared k x y" and kk: "k' = k + k"
  shows "smeared k' x (y OR drop_bit k y)"
  unfolding smeared_def kk
proof
  fix n
  have "(\<exists>d<k + k. bit x (n + d)) = ((\<exists>d<k. bit x (n + d)) \<or> (\<exists>d<k. bit x (n + (k + d))))"
  proof
    assume "\<exists>d<k + k. bit x (n + d)"
    then obtain d where d: "d < k + k" "bit x (n + d)" by blast
    show "(\<exists>d<k. bit x (n + d)) \<or> (\<exists>d<k. bit x (n + (k + d)))"
    proof (cases "d < k")
      case True
      then show ?thesis using d by blast
    next
      case False
      then have "d - k < k" "bit x (n + (k + (d - k)))" using d by simp_all
      then show ?thesis by blast
    qed
  next
    assume "(\<exists>d<k. bit x (n + d)) \<or> (\<exists>d<k. bit x (n + (k + d)))"
    then show "\<exists>d<k + k. bit x (n + d)"
    proof
      assume "\<exists>d<k. bit x (n + d)"
      then obtain d where "d < k" "bit x (n + d)" by blast
      then show ?thesis by (intro exI [of _ d]) simp
    next
      assume "\<exists>d<k. bit x (n + (k + d))"
      then obtain d where "d < k" "bit x (n + (k + d))" by blast
      then show ?thesis by (intro exI [of _ "k + d"]) simp
    qed
  qed
  then show "bit (y OR drop_bit k y) n = (\<exists>d<k + k. bit x (n + d))"
    using assms by (simp add: smeared_def bit_or_iff bit_drop_bit_eq add.assoc add.left_commute)
qed

lemma bit_top: "2 ^ h \<le> unat (x::32 word) \<Longrightarrow> unat x < 2 ^ Suc h \<Longrightarrow> bit x h"
proof -
  assume a: "2 ^ h \<le> unat (x::32 word)" "unat x < 2 ^ Suc h"
  have "unat x div 2 ^ h = 1" using a by (intro Euclidean_Rings.div_nat_eqI) auto
  then have "bit (unat x) h" by (simp add: bit_iff_odd)
  then show "bit x h" by (simp add: bit_unsigned_iff)
qed

lemma bit_above: "unat (x::32 word) < 2 ^ Suc h \<Longrightarrow> h < n \<Longrightarrow> \<not> bit x n"
proof
  assume a: "unat (x::32 word) < 2 ^ Suc h" "h < n" "bit x n"
  then have "bit (unat x) n" by (simp add: bit_unsigned_iff bit_imp_le_length)
  moreover have "unat x < 2 ^ n"
    using a by (meson Suc_leI le_less_trans less_le_trans one_le_numeral power_increasing)
  ultimately show False by (simp add: bit_iff_odd)
qed

lemma smeared_mask:
  assumes sm: "smeared 32 x y" and x: "2 ^ h \<le> unat x" "unat x < 2 ^ Suc h"
  shows "y = mask (Suc h)"
proof (rule bit_word_eqI)
  fix n :: nat
  assume n: "n < LENGTH(32)"
  note top = bit_top [OF x]
  then have h: "h < 32" by (rule bit_imp_le_length [THEN less_le_trans]) simp
  show "bit y n = bit (mask (Suc h) :: 32 word) n"
  proof (cases "n \<le> h")
    case True
    then have "\<exists>d<32. bit x (n + d)" using top h by (intro exI [of _ "h - n"]) simp
    then show ?thesis using sm n True by (simp add: smeared_def bit_mask_iff)
  next
    case False
    then have "\<not> bit x (n + d)" for d using bit_above [OF x(2), of "n + d"] by simp
    then show ?thesis using sm False by (simp add: smeared_def bit_mask_iff)
  qed
qed

lemma roundUp_smeared: "\<exists>y. smeared 32 (x - 1) y \<and> roundUpPower2 x = y + 1"
proof -
  define x1 where "x1 = x - 1"
  define x2 where "x2 = x1 OR drop_bit 1 x1"
  define x3 where "x3 = x2 OR drop_bit 2 x2"
  define x4 where "x4 = x3 OR drop_bit 4 x3"
  define x5 where "x5 = x4 OR drop_bit 8 x4"
  define x6 where "x6 = x5 OR drop_bit 16 x5"
  have "smeared 1 x1 x1" by (simp add: smeared_def)
  then have "smeared 2 x1 x2" unfolding x2_def by (rule smeared_step) simp
  then have "smeared 4 x1 x3" unfolding x3_def by (rule smeared_step) simp
  then have "smeared 8 x1 x4" unfolding x4_def by (rule smeared_step) simp
  then have "smeared 16 x1 x5" unfolding x5_def by (rule smeared_step) simp
  then have "smeared 32 x1 x6" unfolding x6_def by (rule smeared_step) simp
  moreover have "roundUpPower2 x = x6 + 1"
    by (simp add: roundUpPower2_def Let_def x1_def x2_def x3_def x4_def x5_def x6_def)
  ultimately show ?thesis unfolding x1_def by blast
qed

lemma roundUp_correct:
  assumes "0 < unat x" "unat x \<le> 2 ^ 31"
  shows "unat (roundUpPower2 x) = pow2_above (unat x)"
proof -
  obtain y where y: "smeared 32 (x - 1) y" "roundUpPower2 x = y + 1" using roundUp_smeared by blast
  have "x \<noteq> 0" using assms(1) by auto
  then have x1: "unat (x - 1) = unat x - 1" by (simp add: unat_minus_one)
  show ?thesis
  proof (cases "unat x = 1")
    case True
    then have "(of_nat (unat x) :: 32 word) = 1" by simp
    then have "x = 1" by simp
    moreover have "pow2_above 1 = 1" by (simp add: pow2_above_def)
    ultimately show ?thesis by (simp add: roundUpPower2_def)
  next
    case False
    then have "0 < unat (x - 1)" using assms(1) x1 by simp
    then obtain h where h: "2 ^ h \<le> unat (x - 1)" "unat (x - 1) < 2 ^ Suc h"
      using between_pow2 by blast
    then have "(2::nat) ^ h < 2 ^ 31" using x1 assms by simp
    then have h31: "h < 31" by (rule power_less_imp_less_exp [rotated]) simp
    have "roundUpPower2 x = 2 ^ Suc h"
      using smeared_mask [OF y(1) h] y(2) by (simp add: mask_eq_exp_minus_1)
    then have "unat (roundUpPower2 x) = 2 ^ Suc h"
      using unat_word_pow2 [of "Suc h", where 'a=32] h31 by simp
    moreover have "pow2_above (unat x) = 2 ^ Suc h" using h x1 assms by (intro pow2_above_eq) simp_all
    ultimately show ?thesis by simp
  qed
qed

end
