(* ===== verification/FastQueue.thy ===== *)
theory FastQueue
  imports Snippets_Correct
begin

text \<open>
  The bounded ring buffer of libsuc/FastQueue.h (the variant without
  \<open>FASTQUEUE_USE_QUEUE\<close>), and the contract of a bounded first-in first-out queue that it
  implements.
\<close>

subsection \<open>State and operations\<close>

record 'd fastqueue =
  pipe :: "'d list"
  pipeMask :: nat
  fq_start :: nat
  fq_end :: nat
  nElems :: nat

text \<open>The loop of the constructor: \<open>while (pipeMask & (pipeMask - 1)) pipeMask++;\<close>.\<close>

function fq_round :: "nat \<Rightarrow> nat" where
  "fq_round m = (if m AND (m - 1) \<noteq> 0 then fq_round (Suc m) else m)"
  by pat_completeness auto
termination
proof (relation "measure (\<lambda>m. pow2_above m - m)")
  fix m :: nat
  assume "m AND (m - 1) \<noteq> 0"
  then show "(Suc m, m) \<in> measure (\<lambda>m. pow2_above m - m)"
    using pow2_above_Suc [of m] by simp
qed simp

declare fq_round.simps [simp del]

definition fq_new :: "nat \<Rightarrow> (nat \<Rightarrow> 'd) \<Rightarrow> 'd fastqueue option" where
  "fq_new sz junk = do {
     I_check (sz \<noteq> 0);
     I_check (sz < 256 * 1024);
     let cap = fq_round sz;
     Some \<lparr>pipe = map junk [0..<cap], pipeMask = cap - 1, fq_start = 0, fq_end = 0, nElems = 0\<rparr> }"

definition fq_push :: "'d fastqueue \<Rightarrow> 'd \<Rightarrow> 'd fastqueue option" where
  "fq_push q d = do {
     I_check (nElems q \<le> pipeMask q);
     let q1 = q\<lparr>pipe := (pipe q)[fq_end q := d]\<rparr>;
     I_check (fq_end q1 = (fq_start q1 + nElems q1) AND pipeMask q1);
     Some (q1\<lparr>fq_end := (fq_end q1 + 1) AND pipeMask q1, nElems := u32 (int (nElems q1) + 1)\<rparr>) }"

definition fq_top :: "'d fastqueue \<Rightarrow> 'd option" where
  "fq_top q = do { I_check (nElems q \<noteq> 0); Some (pipe q ! fq_start q) }"

definition fq_pop :: "'d fastqueue \<Rightarrow> 'd fastqueue" where
  "fq_pop q = q\<lparr>nElems := u32 (int (nElems q) - 1), fq_start := (fq_start q + 1) AND pipeMask q\<rparr>"

definition fq_getIdFromTop :: "'d fastqueue \<Rightarrow> nat \<Rightarrow> nat option" where
  "fq_getIdFromTop q i = do { I_check (i < nElems q); Some ((fq_start q + i) AND pipeMask q) }"

definition fq_getNextId :: "'d fastqueue \<Rightarrow> nat \<Rightarrow> nat" where
  "fq_getNextId q i = (i + 1) AND pipeMask q"

definition fq_isEnd :: "'d fastqueue \<Rightarrow> nat \<Rightarrow> bool" where
  "fq_isEnd q i = (i = fq_end q)"

definition fq_getData :: "'d fastqueue \<Rightarrow> nat \<Rightarrow> 'd option" where
  "fq_getData q i = do {
     I_check (i \<le> pipeMask q);
     I_check (i \<noteq> fq_end q);
     Some (pipe q ! i) }"

definition fq_topNext :: "'d fastqueue \<Rightarrow> 'd option" where
  "fq_topNext q = do { i \<leftarrow> fq_getIdFromTop q 1; fq_getData q i }"

definition fq_size :: "'d fastqueue \<Rightarrow> nat" where
  "fq_size q = nElems q"

definition fq_empty :: "'d fastqueue \<Rightarrow> bool" where
  "fq_empty q = (nElems q = 0)"

subsection \<open>The contract of a bounded queue\<close>

locale bounded_fifo =
  fixes ok :: "'q \<Rightarrow> bool"
    and contents :: "'q \<Rightarrow> 'd list"
    and cap :: "'q \<Rightarrow> nat"
    and enq :: "'q \<Rightarrow> 'd \<Rightarrow> 'q option"
    and front :: "'q \<Rightarrow> 'd option"
    and deq :: "'q \<Rightarrow> 'q"
  assumes enq_law: "ok q \<Longrightarrow> length (contents q) < cap q \<Longrightarrow>
      \<exists>q'. enq q d = Some q' \<and> ok q' \<and> contents q' = contents q @ [d] \<and> cap q' = cap q"
    and enq_full: "ok q \<Longrightarrow> length (contents q) = cap q \<Longrightarrow> enq q d = None"
    and front_law: "ok q \<Longrightarrow> front q = (case contents q of [] \<Rightarrow> None | d # _ \<Rightarrow> Some d)"
    and deq_law: "ok q \<Longrightarrow> contents q \<noteq> [] \<Longrightarrow>
      ok (deq q) \<and> contents (deq q) = tl (contents q) \<and> cap (deq q) = cap q"

text \<open>Sequences of operations, on the queue and on a list of bounded length.\<close>

datatype 'd queue_op = Push 'd | TopPop

fun queue_run :: "('q \<Rightarrow> 'd \<Rightarrow> 'q option) \<Rightarrow> ('q \<Rightarrow> 'd option) \<Rightarrow> ('q \<Rightarrow> 'q) \<Rightarrow> 'd queue_op list \<Rightarrow> 'q \<Rightarrow> ('d list \<times> 'q) option" where
  "queue_run enq front deq [] q = Some ([], q)"
| "queue_run enq front deq (Push d # ops) q =
     (case enq q d of None \<Rightarrow> None | Some q' \<Rightarrow> queue_run enq front deq ops q')"
| "queue_run enq front deq (TopPop # ops) q =
     (case front q of
        None \<Rightarrow> None
      | Some d \<Rightarrow> map_option (apfst ((#) d)) (queue_run enq front deq ops (deq q)))"

fun list_run :: "nat \<Rightarrow> 'd queue_op list \<Rightarrow> 'd list \<Rightarrow> ('d list \<times> 'd list) option" where
  "list_run n [] ds = Some ([], ds)"
| "list_run n (Push d # ops) ds = (if length ds < n then list_run n ops (ds @ [d]) else None)"
| "list_run n (TopPop # ops) [] = None"
| "list_run n (TopPop # ops) (d # ds) = map_option (apfst ((#) d)) (list_run n ops ds)"

context bounded_fifo begin

lemma queue_run_ok:
  assumes "ok q" "length (contents q) \<le> cap q"
  shows "case list_run (cap q) ops (contents q) of
      None \<Rightarrow> queue_run enq front deq ops q = None
    | Some (out, ds) \<Rightarrow> \<exists>q'. queue_run enq front deq ops q = Some (out, q') \<and> ok q' \<and> contents q' = ds"
  using assms
proof (induction ops arbitrary: q)
  case (Cons op ops)
  show ?case
  proof (cases op)
    case (Push d)
    show ?thesis
    proof (cases "length (contents q) < cap q")
      case True
      then obtain q' where "enq q d = Some q'" "ok q'" "contents q' = contents q @ [d]" "cap q' = cap q"
        using enq_law [OF Cons.prems(1), of d] by blast
      then show ?thesis using Cons.IH [of q'] Push True by (auto split: option.splits)
    next
      case False
      then show ?thesis using enq_full [OF Cons.prems(1), of d] Cons.prems(2) Push by (auto split: option.splits)
    qed
  next
    case TopPop
    show ?thesis
    proof (cases "contents q")
      case Nil
      then show ?thesis using front_law [OF Cons.prems(1)] TopPop by (auto split: option.splits)
    next
      case c: (Cons d ds)
      have "front q = Some d" "ok (deq q)" "contents (deq q) = ds" "cap (deq q) = cap q"
        using deq_law [OF Cons.prems(1)] front_law [OF Cons.prems(1)] c by simp_all
      then show ?thesis using Cons.IH [of "deq q"] c TopPop Cons.prems(2) by (auto split: option.splits)
    qed
  qed
qed simp

end

lemma pow2_above_least: "\<exists>k. pow2_above m = 2 ^ k \<and> m \<le> 2 ^ k \<and> (\<forall>j. m \<le> 2 ^ j \<longrightarrow> (2::nat) ^ k \<le> 2 ^ j)"
proof (intro exI conjI allI impI)
  show "pow2_above m = 2 ^ (LEAST k. m \<le> 2 ^ k)" by (simp add: pow2_above_def)
  then show "m \<le> 2 ^ (LEAST k. m \<le> 2 ^ k)" using pow2_above_ge [of m] by simp
  show "(2::nat) ^ (LEAST k. m \<le> 2 ^ k) \<le> 2 ^ j" if "m \<le> 2 ^ j" for j
    using Least_le [of "\<lambda>k. m \<le> 2 ^ k", OF that] by (simp add: power_increasing)
qed

subsection \<open>The ring buffer implements it\<close>

definition fq_ok :: "'d fastqueue \<Rightarrow> bool" where
  "fq_ok q = ((\<exists>k\<le>18. pipeMask q = 2 ^ k - 1) \<and> length (pipe q) = pipeMask q + 1 \<and>
     fq_start q \<le> pipeMask q \<and> nElems q \<le> pipeMask q + 1 \<and>
     fq_end q = (fq_start q + nElems q) mod (pipeMask q + 1))"

definition fq_contents :: "'d fastqueue \<Rightarrow> 'd list" where
  "fq_contents q = map (\<lambda>i. pipe q ! ((fq_start q + i) mod (pipeMask q + 1))) [0..<nElems q]"

definition fq_cap :: "'d fastqueue \<Rightarrow> nat" where
  "fq_cap q = pipeMask q + 1"

lemma fq_mask: "fq_ok q \<Longrightarrow> n AND pipeMask q = n mod (pipeMask q + 1)"
  by (auto simp: fq_ok_def)

lemma fq_bound: "fq_ok q \<Longrightarrow> pipeMask q < 262144"
proof -
  assume "fq_ok q"
  then obtain k where "k \<le> 18" "pipeMask q = 2 ^ k - 1" by (auto simp: fq_ok_def)
  then show ?thesis using power_increasing [of k 18 "2::nat"] by simp
qed

lemma fq_round_spec: "0 < m \<Longrightarrow> fq_round m = pow2_above m"
proof (induction m rule: fq_round.induct)
  case (1 m)
  show ?case
  proof (cases "m AND (m - 1) = 0")
    case True
    then obtain k where k: "m = 2 ^ k" using 1(2) pow2_test_iff by blast
    have "(LEAST j. (2::nat) ^ k \<le> 2 ^ j) = k" by (rule Least_equality) simp_all
    moreover have "fq_round m = m" using True by (simp add: fq_round.simps [of m])
    ultimately show ?thesis using k by (simp only: pow2_above_def)
  next
    case False
    then show ?thesis using 1 pow2_above_Suc [of m] by (simp add: fq_round.simps [of m])
  qed
qed

lemma fq_push_ok:
  assumes ok: "fq_ok q" and room: "nElems q < fq_cap q"
  shows "\<exists>q'. fq_push q d = Some q' \<and> fq_ok q' \<and> fq_contents q' = fq_contents q @ [d] \<and>
    fq_cap q' = fq_cap q"
proof -
  let ?c = "pipeMask q + 1"
  let ?q = "q\<lparr>pipe := (pipe q)[fq_end q := d], fq_end := (fq_end q + 1) mod ?c,
      nElems := nElems q + 1\<rparr>"
  note b = fq_bound [OF ok]
  have e: "fq_end q = (fq_start q + nElems q) mod ?c" using ok by (simp add: fq_ok_def)
  have "u32 (int (nElems q) + 1) = nElems q + 1"
    using room b by (subst u32_small) (simp_all add: fq_cap_def)
  then have "fq_push q d = Some ?q"
    using room e by (simp add: fq_push_def fq_mask [OF ok] fq_cap_def)
  moreover have "fq_ok ?q"
    using ok room e by (auto simp: fq_ok_def fq_cap_def mod_simps)
  moreover have "fq_contents ?q = fq_contents q @ [d]"
  proof (rule nth_equalityI)
    show "length (fq_contents ?q) = length (fq_contents q @ [d])" by (simp add: fq_contents_def)
    fix i
    assume "i < length (fq_contents ?q)"
    then have i: "i < Suc (nElems q)" by (simp add: fq_contents_def)
    show "fq_contents ?q ! i = (fq_contents q @ [d]) ! i"
    proof (cases "i = nElems q")
      case True
      then show ?thesis using ok e
        by (simp add: fq_contents_def fq_ok_def nth_append del: upt_Suc)
    next
      case False
      then have lt: "i < nElems q" using i by simp
      have "(fq_start q + i) mod ?c \<noteq> (fq_start q + nElems q) mod ?c"
      proof
        assume "(fq_start q + i) mod ?c = (fq_start q + nElems q) mod ?c"
        then have "?c dvd (fq_start q + nElems q) - (fq_start q + i)"
          using lt by (intro mod_eq_dvd_iff_nat [THEN iffD1]) simp_all
        moreover have "(fq_start q + nElems q) - (fq_start q + i) = nElems q - i" by simp
        moreover have "nElems q - i < ?c" "0 < nElems q - i" using lt room by (auto simp: fq_cap_def)
        ultimately show False using nat_dvd_not_less [of "nElems q - i" ?c] by simp
      qed
      then show ?thesis using lt e
        by (simp add: fq_contents_def nth_append del: upt_Suc)
    qed
  qed
  ultimately show ?thesis by (simp add: fq_cap_def)
qed

lemma fq_pop_ok:
  assumes ok: "fq_ok q" and ne: "fq_contents q \<noteq> []"
  shows "fq_ok (fq_pop q) \<and> fq_contents (fq_pop q) = tl (fq_contents q) \<and> fq_cap (fq_pop q) = fq_cap q"
proof -
  let ?c = "pipeMask q + 1"
  have n: "0 < nElems q" using ne by (simp add: fq_contents_def)
  have "u32 (int (nElems q) - 1) = nElems q - 1"
    using n ok fq_bound [OF ok] by (subst u32_small) (auto simp: fq_ok_def)
  then have pop: "fq_pop q = q\<lparr>nElems := nElems q - 1, fq_start := (fq_start q + 1) mod ?c\<rparr>"
    by (simp add: fq_pop_def fq_mask [OF ok])
  have "((fq_start q + 1) mod ?c + (nElems q - 1)) mod ?c = (fq_start q + nElems q) mod ?c"
    by (subst mod_add_left_eq) (use n in simp)
  moreover have "(fq_start q + 1) mod ?c \<le> pipeMask q"
    using mod_less_divisor [of ?c "fq_start q + 1"] by linarith
  ultimately have "fq_ok (fq_pop q)" using ok by (auto simp: fq_ok_def pop)
  moreover have "fq_contents (fq_pop q) = tl (fq_contents q)"
    by (rule nth_equalityI) (auto simp: fq_contents_def pop nth_tl mod_simps)
  ultimately show ?thesis by (simp add: fq_cap_def pop)
qed

lemma fq_front: "fq_ok q \<Longrightarrow> fq_top q = (case fq_contents q of [] \<Rightarrow> None | d # _ \<Rightarrow> Some d)"
  by (cases "nElems q") (simp_all add: fq_top_def fq_contents_def upt_conv_Cons fq_ok_def del: upt_Suc)

interpretation fq: bounded_fifo fq_ok fq_contents fq_cap fq_push fq_top fq_pop
proof
  fix q :: "'d fastqueue" and d
  show "\<exists>q'. fq_push q d = Some q' \<and> fq_ok q' \<and> fq_contents q' = fq_contents q @ [d] \<and>
      fq_cap q' = fq_cap q" if "fq_ok q" "length (fq_contents q) < fq_cap q"
    using fq_push_ok that by (simp add: fq_contents_def)
  show "fq_push q d = None" if "fq_ok q" "length (fq_contents q) = fq_cap q"
    using that by (simp add: fq_contents_def fq_cap_def fq_push_def)
  show "fq_top q = (case fq_contents q of [] \<Rightarrow> None | d # _ \<Rightarrow> Some d)" if "fq_ok q"
    using that by (rule fq_front)
  show "fq_ok (fq_pop q) \<and> fq_contents (fq_pop q) = tl (fq_contents q) \<and> fq_cap (fq_pop q) = fq_cap q"
    if "fq_ok q" "fq_contents q \<noteq> []" using that by (rule fq_pop_ok)
qed

lemma fq_new_ok:
  assumes "0 < sz" "sz < 256 * 1024"
  shows "\<exists>q. fq_new sz junk = Some q \<and> fq_ok q \<and> fq_contents q = [] \<and> fq_cap q = pow2_above sz"
proof -
  let ?k = "LEAST k. sz \<le> 2 ^ k"
  have "?k \<le> 18" by (rule Least_le) (use assms in simp)
  moreover have cap: "pow2_above sz = 2 ^ ?k" by (simp add: pow2_above_def)
  ultimately show ?thesis
    using assms by (auto simp: fq_new_def fq_round_spec fq_ok_def fq_contents_def fq_cap_def Let_def)
qed

end
