(* ===== verification/Engine_Properties.thy ===== *)
theory Engine_Properties
  imports Engine_Examples CallbackContainer FastQueue
begin

text \<open>
  What the simulation engine guarantees: the time queue implements the agenda, a cycle runs
  what is due, and the queues and pools around it keep what they are given.
\<close>

subsection \<open>The time queue\<close>

text \<open>C3: inserting an idle node into a well-formed queue, at a time that is not before the
  current one and less than 2^32 cycles ahead, returns; it adds exactly that entry to the
  agenda, and the queue stays well formed.\<close>

theorem tq_insert_refines:
  assumes "tq_ok q" "agenda q n = None" "minTime q \<le> t" "t < minTime q + 2 ^ 32" "t \<le> MaxTime"
  shows "\<exists>q'. tq_insert q n t = Some q' \<and> tq_ok q' \<and> agenda q' = (agenda q)(n \<mapsto> t) \<and>
    minTime q' = minTime q \<and> AccessSize q' = AccessSize q"
  using assms by (rule tq.ins_law)

theorem tq_insert_refines_witness:
  "\<exists>q'. tq_insert queue8_12 3 100 = Some q' \<and> agenda q' = [1 \<mapsto> 0, 2 \<mapsto> 5, 3 \<mapsto> 100]"
  using tq_insert_refines [of queue8_12 3 100] queue8_12_ok by (auto simp: MaxTime_def)

text \<open>C4: \<open>nextJob\<close> of a well-formed queue, for a cycle within its window, returns; it
  returns a node that is due and takes just that entry off the agenda, and no other entry
  is due earlier; or it returns null because nothing is due, and advances to the cycle.\<close>

theorem tq_nextJob_refines:
  assumes "tq_ok q" "minTime q \<le> c" "c < minTime q + AccessSize q" "c < MaxTime"
  shows "\<exists>r q'. tq_nextJob q c = Some (r, q') \<and> tq_ok q' \<and> AccessSize q' = AccessSize q \<and>
    (case r of
       None \<Rightarrow> agenda q' = agenda q \<and> minTime q' = c \<and> (\<forall>n t. agenda q n = Some t \<longrightarrow> c < t)
     | Some n \<Rightarrow> agenda q n = Some (minTime q') \<and> minTime q' \<le> c \<and>
         (\<forall>m t. agenda q m = Some t \<longrightarrow> minTime q' \<le> t) \<and> agenda q' = (agenda q)(n := None))"
proof -
  obtain r q' where r: "tq_nextJob q c = Some (r, q') \<and> tq_ok q' \<and> AccessSize q' = AccessSize q \<and>
      (case r of
         None \<Rightarrow> agenda q' = agenda q \<and> minTime q' = c \<and> (\<forall>n t. agenda q n = Some t \<longrightarrow> c < t)
       | Some n \<Rightarrow> agenda q n = Some (minTime q') \<and> minTime q' \<le> c \<and>
           agenda q' = (agenda q)(n := None))"
    using tq.nxt_law [OF assms] by blast
  show ?thesis
  proof (cases r)
    case None
    then show ?thesis using r by auto
  next
    case (Some n)
    have "\<forall>m t. agenda q m = Some t \<longrightarrow> minTime q' \<le> t"
      using tq.nxt_least [OF assms, of n q'] r Some by blast
    then show ?thesis using r Some by auto
  qed
qed

theorem tq_nextJob_refines_witness:
  "\<exists>q'. tq_nextJob queue8_12 3 = Some (Some 1, q') \<and> agenda q' = [2 \<mapsto> 5]"
proof -
  obtain r q' where r: "tq_nextJob queue8_12 3 = Some (r, q')"
      "case r of
         None \<Rightarrow> agenda q' = agenda queue8_12 \<and> minTime q' = 3 \<and>
           (\<forall>n t. agenda queue8_12 n = Some t \<longrightarrow> 3 < t)
       | Some n \<Rightarrow> agenda queue8_12 n = Some (minTime q') \<and> minTime q' \<le> 3 \<and>
           (\<forall>m t. agenda queue8_12 m = Some t \<longrightarrow> minTime q' \<le> t) \<and>
           agenda q' = (agenda queue8_12)(n := None)"
    using tq_nextJob_refines [of queue8_12 3] queue8_12_ok by (auto simp: MaxTime_def)
  have ag: "agenda queue8_12 = [1 \<mapsto> 0, 2 \<mapsto> 5]" using queue8_12_ok by simp
  have "r = Some 1" using r(2) by (cases r) (auto simp: ag split: if_splits)
  then show ?thesis using r by (auto simp: ag fun_eq_iff)
qed

text \<open>Resetting an empty queue, whatever the clock had reached, gives an empty queue at
  time zero that is well formed again.\<close>

theorem tq_reset_fresh:
  assumes "tq_ok q" "tq_empty q"
  shows "tq_ok (tq_reset q) \<and> agenda (tq_reset q) = Map.empty \<and> minTime (tq_reset q) = 0 \<and>
    AccessSize (tq_reset q) = AccessSize q"
  using assms by (rule reset_ok)

theorem tq_reset_fresh_witness: "tq_ok (tq_reset queue8) \<and> minTime (tq_reset queue8) = 0"
proof -
  have "tq_empty queue8" by (simp add: tq_empty_def queue8_def)
  then show ?thesis using tq_reset_fresh [OF queue8_ok(1)] by simp
qed

text \<open>C39: a node that is due exactly 2^32 cycles ahead is taken for one that is due now: a
  new queue accepts it in its window, and \<open>nextJob\<close> at time 0 returns it.\<close>

theorem tq_insert_wraps:
  assumes "tq_new N junk junkTail us = Some q" "qType (us n) = InNoQueue"
  shows "\<exists>q' q''. tq_insert q n (2 ^ 32) = Some q' \<and> time_of q' n = 2 ^ 32 \<and>
    tq_nextJob q' 0 = Some (Some n, q'')"
proof -
  have N: "7 < N" and q: "q = tq_reset \<lparr>minTime = 0, minPos = 0, nNodes = 0, AccessSize = N,
       AccessMask = N - 1, access = junk, accessTail = junkTail, tooFar = [], minTooFar = 0, users = us\<rparr>"
    using assms(1) by (auto simp: tq_new_def)
  have u: "u32 4294967296 = 0" "s32 4294967296 = 0" "u32 0 = 0" by (simp_all add: u32_def s32_def)
  have acc: "access q = replicate N None" "minPos q = 0" "minTime q = 0" "AccessSize q = N"
      "users q = us" "AccessMask q = N - 1"
    by (simp_all add: q tq_reset_def)
  show ?thesis using N assms(2)
    by (auto simp: tq_insert_def tq_addNode_def slot_of_def isInQueue_def acc u Let_def tq_nextJob_def)
qed

theorem tq_insert_wraps_witness:
  "\<exists>q' q''. tq_insert queue8 3 (2 ^ 32) = Some q' \<and> tq_nextJob q' 0 = Some (Some 3, q'')"
  using tq_insert_wraps [OF queue8_new, of 3] by (auto simp: idle_users_def)

text \<open>C37: \<open>reschedule\<close> moves the first node of the current bucket to its new time; for every
  other node in the queue it fails (the result is \<open>None\<close>): where \<open>remove\<close> returns it leaves the
  queue tag of the node as it was, so that the assertion after it does not hold.\<close>

theorem tq_reschedule_only_first:
  assumes "tq_ok q" "agenda q n = Some t0"
    and "minTime q \<le> t" "t < minTime q + 2 ^ 32" "t \<le> MaxTime"
  shows "if access q ! minPos q = Some n
    then \<exists>q'. tq_reschedule q n t = Some q' \<and> tq_ok q' \<and> agenda q' = (agenda q)(n \<mapsto> t)
    else tq_reschedule q n t = None"
proof (cases "access q ! minPos q = Some n")
  case True
  then show ?thesis using reschedule_first_ok [OF assms(1) True assms(3-5)] by simp
next
  case False
  have "qType (users q n) \<noteq> InNoQueue" using assms(2) by (auto simp: agenda_def)
  then have "tq_reschedule q n t = None"
    using remove_keeps_tag [OF _ False]
    by (cases "tq_remove q n") (auto simp: tq_reschedule_def isInQueue_def)
  then show ?thesis using False by simp
qed

theorem tq_reschedule_only_first_witness: "tq_reschedule queue8_33 2 7 = None"
proof -
  have "access queue8_33 ! minPos queue8_33 \<noteq> Some 2" "agenda queue8_33 2 = Some 3"
      "minTime queue8_33 = 0" "tq_ok queue8_33"
    using queue8_33_inv by (auto simp: queue8_33_def agenda_def tq_ok_def)
  then show ?thesis
    using tq_reschedule_only_first [of queue8_33 2 3 7] by (simp add: MaxTime_def)
qed

text \<open>C38: when the last of several nodes of a bucket is removed, \<open>remove\<close> returns with the
  bucket's tail pointer null, and the next insertion into that bucket dereferences it.\<close>

theorem tq_remove_tail_breaks:
  assumes "tq_inv q B" "p < AccessSize q" "B p = xs @ [n]" "xs \<noteq> []"
    and "agenda q m = None" "m \<noteq> n"
  shows "\<exists>q'. tq_remove q n = Some q' \<and> tq_insert q' m (time_of q n) = None"
proof -
  obtain q' where q': "tq_remove q n = Some q'" "access q' ! p \<noteq> None" "accessTail q' ! p = None"
      "minTime q' = minTime q" "minPos q' = minPos q" "AccessSize q' = AccessSize q"
      "AccessMask q' = AccessMask q"
    using remove_tail [OF assms(1-4)] by blast
  have sz: "size_ok q" using assms(1) by (simp add: tq_inv_def)
  have n: "minTime q \<le> time_of q n" "time_of q n < minTime q + AccessSize q" "slot q (time_of q n) = p"
    using assms(1-3) by (auto simp: tq_inv_def window_ok_def bucket_ok_def)
  have "slot_of q' (time_of q n) = p"
    using slot_of_slot [OF sz n(1)] n(3) q' by (simp add: slot_of_def)
  moreover have "u32 (int (time_of q n) - int (minTime q)) < AccessSize q"
    using near_iff [of q "time_of q n"] n AccessSize_le [OF sz] by simp
  ultimately have "tq_insert q' m (time_of q n) = None" using q'
    by (auto simp: tq_insert_def tq_addNode_def Let_def slot_of_def split: option.splits)
  then show ?thesis using q'(1) by blast
qed

theorem tq_remove_tail_breaks_witness:
  "\<exists>q'. tq_remove queue8_33 2 = Some q' \<and> tq_insert q' 3 3 = None"
proof -
  have "agenda queue8_33 3 = None" "AccessSize queue8_33 = 8" "time_of queue8_33 2 = 3"
    by (simp_all add: queue8_33_def agenda_def idle_users_def)
  then show ?thesis
    using tq_remove_tail_breaks [OF queue8_33_inv, of 3 "[1]" 2 3] by auto
qed

subsection \<open>The event scheduler\<close>

text \<open>C1: a cycle of \<open>advanceClock\<close>, with callbacks that return and schedule only future work,
  returns; it calls exactly the callbacks that are due in this cycle, each once, advances
  the clock by one, leaves nothing overdue, and keeps every entry that is due later.\<close>

theorem advanceClock_runs_due:
  assumes "sim_ok s" "globalClock s + 65536 \<le> MaxTime" "tq_client_ok call J"
    and "J (world s) (agenda (cbQ s))"
  shows "\<exists>xs s'. jobs_run tq_nextJob call s xs s' \<and> distinct xs \<and>
    set xs = {n. agenda (cbQ s) n = Some (globalClock s)} \<and>
    ES_advanceClock call s = Some (s'\<lparr>globalClock := globalClock s + 1\<rparr>) \<and>
    sim_ok (s'\<lparr>globalClock := globalClock s + 1\<rparr>) \<and> J (world s') (agenda (cbQ s')) \<and>
    (\<forall>m t. agenda (cbQ s) m = Some t \<longrightarrow> globalClock s < t \<longrightarrow> agenda (cbQ s') m = Some t)"
  using assms by (rule advance_lemma)

theorem advanceClock_runs_due_witness:
  "\<exists>s'. jobs_run tq_nextJob (timer (\<lambda>_. 3)) sim8 [1] s' \<and>
    ES_advanceClock (timer (\<lambda>_. 3)) sim8 = Some (s'\<lparr>globalClock := 1\<rparr>) \<and>
    agenda (cbQ s') 2 = Some 5"
proof -
  have ag: "agenda queue8_12 = [1 \<mapsto> 0, 2 \<mapsto> 5]" using queue8_12_ok by simp
  have c: "tq_client_ok (timer (\<lambda>_. 3) :: nat \<Rightarrow> (nat tqueue, unit) sim \<Rightarrow> _) (\<lambda>w ag. True)"
    by (rule timer_client_ok) simp
  obtain xs s' where r: "jobs_run tq_nextJob (timer (\<lambda>_. 3)) sim8 xs s'" "distinct xs"
      "set xs = {n. agenda (cbQ sim8) n = Some (globalClock sim8)}"
      "ES_advanceClock (timer (\<lambda>_. 3)) sim8 = Some (s'\<lparr>globalClock := globalClock sim8 + 1\<rparr>)"
      "\<forall>m t. agenda (cbQ sim8) m = Some t \<longrightarrow> globalClock sim8 < t \<longrightarrow> agenda (cbQ s') m = Some t"
    using advanceClock_runs_due [OF sim8_ok _ c] by (auto simp: MaxTime_def)
  have "set xs = {1}" using r(3) by (auto simp: ag split: if_splits)
  then have "xs = [1]" using r(2) by (cases xs rule: list.exhaust; cases "tl xs") auto
  then show ?thesis using r(1,4,5) by (auto simp: ag)
qed

text \<open>C2: a callback that is scheduled \<open>delta\<close> cycles ahead is not lost and not run early:
  \<open>delta\<close> calls of \<open>advanceClock\<close> return with it still pending, for the cycle that the clock
  then shows, and the next call runs it, once.\<close>

theorem scheduled_callback_runs:
  assumes "sim_ok s" "agenda (cbQ s) cb = None" "0 < delta" "delta \<le> 65535"
    and "globalClock s + delta + 65536 \<le> MaxTime" "tq_client_ok call J"
    and "J (world s) ((agenda (cbQ s))(cb \<mapsto> globalClock s + delta))"
  shows "\<exists>s1 s2 xs s3. ES_schedule delta cb s = Some s1 \<and> ES_cycles call delta s1 = Some s2 \<and>
    globalClock s2 = globalClock s + delta \<and> agenda (cbQ s2) cb = Some (globalClock s2) \<and>
    jobs_run tq_nextJob call s2 xs s3 \<and> cb \<in> set xs \<and> distinct xs \<and>
    ES_advanceClock call s2 = Some (s3\<lparr>globalClock := globalClock s2 + 1\<rparr>)"
proof -
  obtain q where q: "ES_schedule delta cb s = Some (s\<lparr>cbQ := q\<rparr>)" "tq_ok q"
      "agenda q = (agenda (cbQ s))(cb \<mapsto> globalClock s + delta)"
      "minTime q = minTime (cbQ s)" "AccessSize q = AccessSize (cbQ s)"
    using schedule_lemma [of s cb delta] assms(1-5) by (auto simp: sim_ok_def)
  let ?s1 = "s\<lparr>cbQ := q\<rparr>"
  have ok: "sim_ok ?s1" using assms(1) q by (auto simp: sim_ok_def)
  obtain s2 where s2: "ES_cycles call delta ?s1 = Some s2" "sim_ok s2" "J (world s2) (agenda (cbQ s2))"
      "globalClock s2 = globalClock s + delta" "agenda (cbQ s2) cb = Some (globalClock s2)"
    using cycles_pending [OF assms(6) ok, of delta cb] assms(5,7) q(3) by auto
  have "globalClock s2 + 65536 \<le> MaxTime" using s2(4) assms(5) by simp
  then obtain xs s3 where "jobs_run tq_nextJob call s2 xs s3" "distinct xs"
      "set xs = {n. agenda (cbQ s2) n = Some (globalClock s2)}"
      "ES_advanceClock call s2 = Some (s3\<lparr>globalClock := globalClock s2 + 1\<rparr>)"
    using advance_lemma [OF s2(2) _ assms(6) s2(3)] by blast
  then show ?thesis using q(1) s2 by blast
qed

theorem scheduled_callback_runs_witness:
  "\<exists>s1 s2 xs s3. ES_schedule 2 7 sim8 = Some s1 \<and> ES_cycles (timer (\<lambda>_. 3)) 2 s1 = Some s2 \<and>
    globalClock s2 = 2 \<and> jobs_run tq_nextJob (timer (\<lambda>_. 3)) s2 xs s3 \<and> 7 \<in> set xs"
proof -
  have c: "tq_client_ok (timer (\<lambda>_. 3) :: nat \<Rightarrow> (nat tqueue, unit) sim \<Rightarrow> _) (\<lambda>w ag. True)"
    by (rule timer_client_ok) simp
  have "agenda (cbQ sim8) 7 = None" using queue8_12_ok by simp
  then show ?thesis
    using scheduled_callback_runs [OF sim8_ok _ _ _ _ c, of 7 2] by (fastforce simp: MaxTime_def)
qed

subsection \<open>Callbacks\<close>

text \<open>C5: \<open>schedule\<close> of a dynamic callback class returns, and after \<open>delta\<close> cycles and one
  more the function has been run on the stored arguments. No object of the pool is lost: at the
  end every object that is out of the pool is a scheduled callback, or was out already and not
  scheduled at the start. The functions that callbacks run may take further objects and schedule them
  (\<open>fun_ok\<close>: \<open>R\<close> is the client's own bound on the number of objects that are out).\<close>

theorem dynamic_callback_runs:
  assumes "sim_ok s" "cb_pool_ok (world s) (agenda (cbQ s))"
    and "card (in_use (cbPool (world s))) + 1 < warn_psize (cbPool (world s))"
    and "warn_psize (cbPool (world s)) \<le> 2 ^ 63" "0 < delta" "delta \<le> 65535"
    and "globalClock s + delta + 65536 \<le> MaxTime" "fun_ok f a goal R (warn_psize (cbPool (world s)))"
    and "R (client (world s)) (card (in_use (cbPool (world s))) + 1)"
  shows "\<exists>s1 s2. cb_schedule f delta a s = Some s1 \<and> ES_cycles (cb_call f) (Suc delta) s1 = Some s2 \<and>
    goal (client (world s2)) \<and> globalClock s2 = globalClock s + delta + 1 \<and> sim_ok s2 \<and>
    cb_pool_ok (world s2) (agenda (cbQ s2)) \<and>
    in_use (cbPool (world s2)) - dom (agenda (cbQ s2)) = in_use (cbPool (world s)) - dom (agenda (cbQ s))"
proof -
  have "globalClock s + 65535 \<le> MaxTime" using assms(7) by simp
  then obtain cb s1 where s1: "cb_schedule f delta a s = Some s1" "sim_ok s1"
      "globalClock s1 = globalClock s"
      "agenda (cbQ s1) = (agenda (cbQ s))(cb \<mapsto> globalClock s + delta)"
      "cb_inv cb a (globalClock s + delta) goal R (others (world s) (agenda (cbQ s))) (warn_psize (cbPool (world s)))
         (world s1) (agenda (cbQ s1))"
    using cb_schedule_ok [where R = R, OF assms(1-6) _ assms(9), of f a goal] by blast
  obtain s2 where s2: "ES_cycles (cb_call f) (Suc delta) s1 = Some s2" "sim_ok s2" "goal (client (world s2))"
      "cb_pool_ok (world s2) (agenda (cbQ s2))" "others (world s2) (agenda (cbQ s2)) = others (world s) (agenda (cbQ s))"
      "globalClock s2 = globalClock s1 + delta + 1"
    using cb_reaches_goal [OF assms(8) s1(2), of cb delta] s1(3-5) assms(7) by auto
  then show ?thesis using s1(1,3) by (intro exI [of _ s1] exI [of _ s2]) (simp add: others_def del: ES_cycles.simps)
qed

theorem dynamic_callback_runs_witness:
  "\<exists>s1 s2. cb_schedule timer_fun 3 42 cb_sim8 = Some s1 \<and>
    ES_cycles (cb_call timer_fun) (Suc 3) s1 = Some s2 \<and> 42 \<in> set (client (world s2)) \<and>
    in_use (cbPool (world s2)) = dom (agenda (cbQ s2))"
proof -
  have t: "globalClock cb_sim8 + 3 + 65536 \<le> MaxTime" by (simp add: cb_sim8_def MaxTime_def)
  have "fun_ok timer_fun 42 (\<lambda>w. 42 \<in> set w) (\<lambda>w n. n + 1 < 128) (warn_psize (cbPool (world cb_sim8)))"
    using timer_fun_ok [of 128 42] cb_sim8_ok by simp
  then obtain s1 s2 where s: "cb_schedule timer_fun 3 42 cb_sim8 = Some s1" "ES_cycles (cb_call timer_fun) (Suc 3) s1 = Some s2"
      "42 \<in> set (client (world s2))" "cb_pool_ok (world s2) (agenda (cbQ s2))"
      "in_use (cbPool (world s2)) - dom (agenda (cbQ s2)) = in_use (cbPool (world cb_sim8)) - dom (agenda (cbQ cb_sim8))"
    using dynamic_callback_runs [of cb_sim8 3 timer_fun 42 "\<lambda>w. 42 \<in> set w" "\<lambda>w n. n + 1 < 128"] cb_sim8_ok t
    by (auto simp del: ES_cycles.simps)
  then have "in_use (cbPool (world s2)) = dom (agenda (cbQ s2))" using cb_sim8_ok by (auto simp: cb_pool_ok_def)
  then show ?thesis using s by blast
qed

text \<open>C24: the flag \<open>isFree\<close> of a static callback says whether it is in the queue: \<open>schedule\<close>
  succeeds exactly on a callback that is not pending, enters it for \<open>delta\<close> cycles ahead and
  keeps flag and queue in agreement; on a pending callback it fails its assertion.\<close>

theorem static_callback_schedule:
  assumes "sim_ok s" "scb_inv s" "0 < delta" "delta \<le> 65535" "globalClock s + 65535 \<le> MaxTime"
  shows "case agenda (cbQ s) n of
      Some _ \<Rightarrow> scb_schedule f delta n a s = None
    | None \<Rightarrow> \<exists>s'. scb_schedule f delta n a s = Some s' \<and> sim_ok s' \<and> scb_inv s' \<and>
        agenda (cbQ s') = (agenda (cbQ s))(n \<mapsto> globalClock s + delta) \<and> sparams (world s') n = a"
  using scb_schedule_ok(1) [OF assms, where f = f and n = n and a = a]
    scb_schedule_ok(2) [OF assms, where f = f and n = n and a = a]
  by (simp split: option.split)

theorem static_callback_schedule_witness:
  "\<exists>s'. scb_schedule (\<lambda>_. Some) 5 1 7 scb_sim8 = Some s' \<and> agenda (cbQ s') = [1 \<mapsto> 5]"
  using static_callback_schedule [where s = scb_sim8 and delta = 5 and n = 1 and f = "\<lambda>_. Some" and a = 7]
    scb_sim8_ok
  by (auto simp: MaxTime_def scb_sim8_def)

subsection \<open>Containers, pools and queues\<close>

text \<open>C25: callbacks that are added to a new container are called in the order in which they were
  added, each once, and the container is empty at the end. A callback may add further ones to the
  container that calls it; these are called after all that were there before. The order is that
  of \<open>cc_serve\<close>, a queue, whenever it ends within some number \<open>n\<close> of calls and no callback is
  added while it is still in the container.\<close>

theorem container_call_fifo:
  assumes "adds ext g f" "distinct xs" "cc_serve ext g n xs w = Some w'"
  shows "\<exists>s1 s2. cc_add_all (cc_new (\<lambda>_. None) w) xs = Some s1 \<and> cc_call f s1 = Some s2 \<and>
    cc_empty s2 \<and> cc_world s2 = w'"
proof -
  obtain s1 where s1: "cc_add_all (cc_new (\<lambda>_. None) w) xs = Some s1" "cc_inv s1 xs" "cc_world s1 = w"
    using cc_add_all_ok [OF cc_new_inv, of xs w] assms(2) by (auto simp: cc_new_def)
  obtain s2 where "cc_call f s1 = Some s2" "cc_inv s2 []" "cc_world s2 = w'"
    using cc_call_serves [OF assms(1) s1(2)] assms(3) s1(3) by auto
  then show ?thesis using s1(1) cc_empty_iff by blast
qed

text \<open>In the witness a callback that is called for the first time adds the callback 9.\<close>

theorem container_call_fifo_witness:
  "\<exists>s1 s2. cc_add_all (cc_new (\<lambda>_. None) ([] :: nat list)) [4, 2] = Some s1 \<and>
    cc_call (\<lambda>n s. if n = 4 then map_option (\<lambda>s. s\<lparr>cc_world := cc_world s @ [n]\<rparr>) (cc_add s 9)
      else Some (s\<lparr>cc_world := cc_world s @ [n]\<rparr>)) s1 = Some s2 \<and> cc_world s2 = [4, 2, 9]"
proof -
  let ?f = "\<lambda>n s. if n = 4 then map_option (\<lambda>s. s\<lparr>cc_world := cc_world s @ [n]\<rparr>) (cc_add s 9)
      else Some (s\<lparr>cc_world := cc_world s @ [n]\<rparr>)"
  let ?ext = "\<lambda>n (w :: nat list). if n = 4 then [9] else [] :: nat list" and ?g = "\<lambda>n w. w @ [n]"
  have "adds ?ext ?g ?f"
    unfolding adds_def
  proof (intro allI impI)
    fix n :: nat and s :: "(nat, nat list) cc" and xs
    assume i: "cc_inv s xs" and e: "set (?ext n (cc_world s)) \<inter> set xs = {}"
    show "\<exists>s'. ?f n s = Some s' \<and> cc_inv s' (xs @ ?ext n (cc_world s)) \<and> cc_world s' = ?g n (cc_world s)"
    proof (cases "n = 4")
      case True
      then obtain s' where "cc_add s 9 = Some s'" "cc_inv s' (xs @ [9])" "cc_world s' = cc_world s"
        using cc_add_ok [OF i, of 9] e by auto
      then show ?thesis using True by (simp add: cc_inv_def)
    next
      case False
      then show ?thesis using i by (simp add: cc_inv_def)
    qed
  qed
  moreover have "cc_serve ?ext ?g 3 [4, 2] [] = Some [4, 2, 9]" by (simp add: eval_nat_numeral)
  ultimately show ?thesis using container_call_fifo [of ?ext ?g ?f "[4, 2]" 3 "[]" "[4, 2, 9]"] by auto
qed

text \<open>\<open>makeEmpty\<close> forgets only the head of the chain: a callback that is added to a
  container after \<open>makeEmpty\<close> is linked behind the old last one, and the container still is
  empty for \<open>empty\<close> and \<open>call\<close>.\<close>

theorem container_makeEmpty_loses:
  assumes "cc_inv s xs" "xs \<noteq> []" "c \<notin> set xs"
  shows "\<exists>s'. cc_add (cc_makeEmpty s) c = Some s' \<and> cc_empty s' \<and> cc_call f s' = Some s'"
  using assms by (auto simp: cc_inv_def cc_add_def cc_makeEmpty_def cc_empty_def cc_call.simps)

theorem container_makeEmpty_loses_witness:
  "\<exists>s1 s2. cc_add (cc_new (\<lambda>_. None) ()) (4::nat) = Some s1 \<and>
    cc_add (cc_makeEmpty s1) 2 = Some s2 \<and> cc_call (\<lambda>_ _. None) s2 = Some s2"
proof -
  obtain s1 where s1: "cc_add (cc_new (\<lambda>_. None) ()) (4::nat) = Some s1" "cc_inv s1 [4]"
    using cc_add_ok [OF cc_new_inv, of "4::nat" "()"] by auto
  then show ?thesis using container_makeEmpty_loses [OF s1(2), of 2] by auto
qed

text \<open>C27: as long as the pool stays below its warning size, \<open>out\<close> returns objects that are
  pairwise different and different from all that are in use, whatever was given back before;
  an object in use can be given back, and an object in the pool cannot.\<close>

theorem pool_out_distinct:
  assumes "pool_ok p" "card (in_use p) + k < warn_psize p" "warn_psize p \<le> 2 ^ 63"
  shows "\<exists>hs p'. pool_trace pool_out pool_in p (replicate k None) = Some (map Some hs, p') \<and>
    length hs = k \<and> distinct hs \<and> set hs \<inter> in_use p = {} \<and> in_use p' = in_use p \<union> set hs \<and>
    pool_ok p' \<and> (\<forall>h\<in>in_use p'. \<exists>p''. pool_in p' h = Some p'' \<and> in_use p'' = in_use p' - {h}) \<and>
    (\<forall>h. inPool p' h \<longrightarrow> pool_in p' h = None)"
proof -
  obtain hs p' where r: "pool_trace pool_out pool_in p (replicate k None) = Some (map Some hs, p')"
      "length hs = k" "distinct hs" "set hs \<inter> in_use p = {}" "in_use p' = in_use p \<union> set hs" "pool_ok p'"
    using pool.takes_distinct [OF assms] by blast
  have "\<forall>h\<in>in_use p'. \<exists>p''. pool_in p' h = Some p'' \<and> in_use p'' = in_use p' - {h}"
    using pool.takeback_law [OF r(6)] by blast
  then show ?thesis using r pool_in_twice [OF r(6)] by blast
qed

theorem pool_out_distinct_witness:
  "\<exists>p hs p'. pool_new 2 = Some p \<and>
    pool_trace pool_out pool_in p (replicate 5 None) = Some (map Some hs, p') \<and> distinct hs"
proof -
  obtain p where p: "pool_new 2 = Some p" by (auto simp: pool_new_def pool_reproduce_def)
  then show ?thesis using pool_out_distinct [of p 5] pool_new_ok [OF p] by auto
qed

text \<open>C28: a new \<open>FastQueue\<close> behaves like a first-in first-out queue whose capacity is the least
  power of two that is not below the size asked for. Any sequence of \<open>push\<close> and \<open>top\<close> with
  \<open>pop\<close> gives the outputs of a list of bounded length (\<open>list_run\<close>), however often the indices wrap
  around, and an assertion fails exactly when the list is full or empty.\<close>

theorem fastqueue_fifo:
  assumes "0 < sz" "sz < 256 * 1024"
  shows "\<exists>q k. fq_new sz junk = Some q \<and> sz \<le> 2 ^ k \<and> (\<forall>j. sz \<le> 2 ^ j \<longrightarrow> (2::nat) ^ k \<le> 2 ^ j) \<and>
    (\<forall>ops. (case list_run (2 ^ k) ops [] of
        None \<Rightarrow> queue_run fq_push fq_top fq_pop ops q = None
      | Some (out, ds) \<Rightarrow> \<exists>q'. queue_run fq_push fq_top fq_pop ops q = Some (out, q') \<and>
          fq_size q' = length ds \<and> fq_empty q' = (ds = [])))"
proof -
  obtain q where q: "fq_new sz junk = Some q" "fq_ok q" "fq_contents q = []" "fq_cap q = pow2_above sz"
    using fq_new_ok [OF assms] by blast
  obtain k where k: "pow2_above sz = 2 ^ k" "sz \<le> 2 ^ k" "\<forall>j. sz \<le> 2 ^ j \<longrightarrow> (2::nat) ^ k \<le> 2 ^ j"
    using pow2_above_least [of sz] by blast
  have n: "length (fq_contents r) = fq_size r" "fq_empty r = (fq_contents r = [])" for r :: "'a fastqueue"
    by (simp_all add: fq_contents_def fq_size_def fq_empty_def)
  have "case list_run (2 ^ k) ops [] of
      None \<Rightarrow> queue_run fq_push fq_top fq_pop ops q = None
    | Some (out, ds) \<Rightarrow> \<exists>q'. queue_run fq_push fq_top fq_pop ops q = Some (out, q') \<and> fq_size q' = length ds \<and> fq_empty q' = (ds = [])"
    for ops
    using fq.queue_run_ok [OF q(2), of ops] unfolding q(3,4) k(1) by (auto simp: n split: option.splits)
  then show ?thesis using q(1) k(2,3) by blast
qed

theorem fastqueue_fifo_witness:
  "\<exists>q q'. fq_new 3 (\<lambda>_. 0) = Some q \<and>
    queue_run fq_push fq_top fq_pop [Push 5, Push 6, Push 7, TopPop, TopPop, Push 8, Push 9, Push 1, TopPop, TopPop, TopPop] q =
      Some ([5, 6, 7, 8, 9 :: nat], q') \<and> fq_size q' = 1"
proof -
  obtain q :: "nat fastqueue" and k where q: "fq_new 3 (\<lambda>_. 0) = Some q" "3 \<le> (2::nat) ^ k" "\<forall>j. 3 \<le> (2::nat) ^ j \<longrightarrow> (2::nat) ^ k \<le> 2 ^ j"
    and r: "\<And>ops. case list_run (2 ^ k) ops [] of None \<Rightarrow> queue_run fq_push fq_top fq_pop ops q = None
      | Some (out, ds) \<Rightarrow> \<exists>q'. queue_run fq_push fq_top fq_pop ops q = Some (out, q') \<and> fq_size q' = length ds \<and> fq_empty q' = (ds = [])"
    using fastqueue_fifo [of 3 "\<lambda>_. 0 :: nat"] by auto
  have "(2::nat) ^ k \<le> 2 ^ 2" using q(3) [THEN spec, of 2] by simp
  moreover have "k \<noteq> 0 \<and> k \<noteq> 1" using q(2) by (cases "k = 0"; cases "k = 1"; simp)
  ultimately have "k = 2" using power_increasing_iff [of "2::nat" k 2] by simp
  then show ?thesis
    using q(1) r [of "[Push 5, Push 6, Push 7, TopPop, TopPop, Push 8, Push 9, Push 1, TopPop, TopPop, TopPop]"]
    by (auto simp del: queue_run.simps)
qed

text \<open>a full \<open>FastQueue\<close> rejects a push, and although it is not empty, \<open>getData\<close> of its
  first element fails its assertion, and \<open>isEnd\<close> holds of it: \<open>end\<close> has come round to
  \<open>start\<close>.\<close>

theorem fastqueue_full:
  assumes "fq_ok q" "nElems q = pipeMask q + 1"
  shows "fq_push q d = None \<and> fq_getIdFromTop q 0 = Some (fq_start q) \<and> fq_isEnd q (fq_start q) \<and>
    fq_getData q (fq_start q) = None \<and> fq_top q \<noteq> None"
proof -
  have "fq_start q < pipeMask q + 1" "fq_end q = (fq_start q + (pipeMask q + 1)) mod (pipeMask q + 1)"
    using assms by (auto simp: fq_ok_def)
  then have e: "fq_end q = fq_start q" by (simp only: mod_add_self2 mod_less)
  have "fq_start q AND pipeMask q = fq_start q"
    using fq_mask [OF assms(1)] assms(1) by (simp add: fq_ok_def)
  moreover have "fq_push q d = None"
    using fq.enq_full [OF assms(1)] assms(2) by (simp add: fq_contents_def fq_cap_def)
  ultimately show ?thesis using e assms(2)
    by (simp add: fq_getIdFromTop_def fq_isEnd_def fq_getData_def fq_top_def)
qed

theorem fastqueue_full_witness:
  "fq_getData \<lparr>pipe = [1, 2], pipeMask = 1, fq_start = 1, fq_end = 1, nElems = 2\<rparr> 1 = (None :: nat option)"
proof -
  have "\<exists>k\<le>18. (1::nat) = 2 ^ k - 1" by (rule exI [of _ 1]) simp
  then have "fq_ok \<lparr>pipe = [1, 2 :: nat], pipeMask = 1, fq_start = 1, fq_end = 1, nElems = 2\<rparr>"
    by (simp add: fq_ok_def) presburger
  from fastqueue_full [OF this] show ?thesis by simp
qed

end
