(* ===== verification/Port_Model.thy ===== *)
theory Port_Model
  imports Snippets_Model
begin

text \<open>
  The ports of libsuc/Port.h and Port.cpp, with which the simulator models contention: a
  port has a number of units that are busy for some cycles after every use, and \<open>nextSlot\<close>
  returns the cycle in which the next use starts. \<open>PortGeneric::create\<close> chooses among five
  classes with the same interface; the class hierarchy is the datatype \<open>port\<close>, and the
  virtual functions are dispatched on it. The parameter \<open>c\<close> is the global clock.

  Simulated times are unbounded naturals here (a 64-bit \<open>Time_t\<close> wraps after \<open>2 ^ 64\<close>
  cycles of simulation); the 16-bit \<open>TimeDelta_t\<close> that \<open>nextSlotDelta\<close> returns is truncated
  as in the source.
\<close>

subsection \<open>Statistics\<close>

record gstats_avg =
  ga_data :: int
  ga_nData :: int

definition GStatsAvg_sample :: "gstats_avg \<Rightarrow> int \<Rightarrow> gstats_avg" where
  "GStatsAvg_sample g v = g\<lparr>ga_data := ga_data g + v, ga_nData := ga_nData g + 1\<rparr>"

definition GStatsAvg_msamples :: "gstats_avg \<Rightarrow> int \<Rightarrow> int \<Rightarrow> gstats_avg" where
  "GStatsAvg_msamples g v n = g\<lparr>ga_data := ga_data g + v, ga_nData := ga_nData g + n\<rparr>"

definition GStatsAvg_resetStat :: "gstats_avg \<Rightarrow> gstats_avg" where
  "GStatsAvg_resetStat g = g\<lparr>ga_data := 0, ga_nData := 0\<rparr>"

definition GStatsAvg_new :: gstats_avg where
  "GStatsAvg_new = \<lparr>ga_data = 0, ga_nData = 0\<rparr>"

subsection \<open>PortUnlimited\<close>

record port_base =
  nUsers :: int
  avgTime :: gstats_avg

definition port_base_new :: port_base where
  "port_base_new = \<lparr>nUsers = 0, avgTime = GStatsAvg_new\<rparr>"

definition port_sample :: "int \<Rightarrow> 'a port_base_scheme \<Rightarrow> 'a port_base_scheme" where
  "port_sample v p = p\<lparr>avgTime := GStatsAvg_sample (avgTime p) v\<rparr>"

definition subscribe :: "'a port_base_scheme \<Rightarrow> 'a port_base_scheme" where
  "subscribe p = p\<lparr>nUsers := nUsers p + 1\<rparr>"

definition unsubscribe :: "'a port_base_scheme \<Rightarrow> 'a port_base_scheme" where
  "unsubscribe p = p\<lparr>nUsers := nUsers p - 1\<rparr>"

record port_timed = port_base +
  lTime :: nat

text \<open>The statement \<open>if (lTime < globalClock) lTime = globalClock;\<close>.\<close>

definition catch_up :: "nat \<Rightarrow> 'a port_timed_scheme \<Rightarrow> 'a port_timed_scheme" where
  "catch_up c p = (if lTime p < c then p\<lparr>lTime := c\<rparr> else p)"

definition Unlimited_new :: "nat \<Rightarrow> port_timed" where
  "Unlimited_new c = port_base.extend port_base_new \<lparr>lTime = c\<rparr>"

definition Unlimited_nextSlot :: "nat \<Rightarrow> port_timed \<Rightarrow> nat \<times> port_timed" where
  "Unlimited_nextSlot c p0 =
     (let p = port_sample (int (lTime (catch_up c p0)) - int c) (catch_up c p0)
      in (lTime p, p))"

definition Unlimited_occupySlots :: "nat \<Rightarrow> nat \<Rightarrow> port_timed \<Rightarrow> nat \<times> port_timed" where
  "Unlimited_occupySlots c nSlots p0 =
     (let p = port_sample (int (lTime (catch_up c p0)) - int c) (catch_up c p0)
      in (lTime p, p))"

definition Unlimited_calcNextSlot :: "nat \<Rightarrow> port_timed \<Rightarrow> nat" where
  "Unlimited_calcNextSlot c p = (if lTime p < c then c else lTime p)"

definition Unlimited_lock4nCycles :: "nat \<Rightarrow> nat \<Rightarrow> port_timed \<Rightarrow> port_timed" where
  "Unlimited_lock4nCycles c clks p0 = (let p = catch_up c p0 in p\<lparr>lTime := lTime p + clks\<rparr>)"

subsection \<open>PortFullyPipe\<close>

definition FullyPipe_new :: "nat \<Rightarrow> port_timed" where
  "FullyPipe_new c = port_base.extend port_base_new \<lparr>lTime = c\<rparr>"

definition FullyPipe_calcNextSlot :: "nat \<Rightarrow> port_timed \<Rightarrow> nat" where
  "FullyPipe_calcNextSlot c p = (if lTime p < c then c else lTime p)"

definition FullyPipe_nextSlot :: "nat \<Rightarrow> port_timed \<Rightarrow> (nat \<times> port_timed) option" where
  "FullyPipe_nextSlot c p0 = do {
     let cns = FullyPipe_calcNextSlot c p0;
     let p = catch_up c p0;
     I_check (cns = lTime p);
     let p1 = port_sample (int (lTime p) - int c) p;
     Some (lTime p1, p1\<lparr>lTime := lTime p1 + 1\<rparr>) }"

definition FullyPipe_occupySlots :: "nat \<Rightarrow> nat \<Rightarrow> port_timed \<Rightarrow> nat \<times> port_timed" where
  "FullyPipe_occupySlots c nSlots p0 =
     (let p = catch_up c p0;
          p1 = port_sample (int (lTime p) - int c) p
      in (lTime p1, p1\<lparr>lTime := lTime p1 + nSlots\<rparr>))"

definition FullyPipe_lock4nCycles :: "nat \<Rightarrow> nat \<Rightarrow> port_timed \<Rightarrow> port_timed" where
  "FullyPipe_lock4nCycles c clks p0 = (let p = catch_up c p0 in p\<lparr>lTime := lTime p + clks\<rparr>)"

subsection \<open>PortFullyNPipe\<close>

record port_fullynpipe = port_timed +
  nUnitsMinusOne :: nat
  freeUnits :: nat

definition FullyNPipe_new :: "nat \<Rightarrow> nat \<Rightarrow> port_fullynpipe option" where
  "FullyNPipe_new c nFU = do {
     I_check (0 < nFU);
     Some \<lparr>nUsers = 0, avgTime = GStatsAvg_new, lTime = c, nUnitsMinusOne = nFU - 1,
           freeUnits = nFU\<rparr> }"

definition FullyNPipe_calcNextSlot :: "nat \<Rightarrow> port_fullynpipe \<Rightarrow> nat" where
  "FullyNPipe_calcNextSlot c p =
     (if lTime p < c then c else lTime p + (if freeUnits p = 0 then 1 else 0))"

definition FullyNPipe_nextSlot :: "nat \<Rightarrow> port_fullynpipe \<Rightarrow> (nat \<times> port_fullynpipe) option" where
  "FullyNPipe_nextSlot c p = do {
     let cns = FullyNPipe_calcNextSlot c p;
     let p1 = (if lTime p < c then p\<lparr>lTime := c, freeUnits := nUnitsMinusOne p\<rparr>
               else if 0 < freeUnits p then p\<lparr>freeUnits := freeUnits p - 1\<rparr>
               else p\<lparr>lTime := lTime p + 1, freeUnits := nUnitsMinusOne p\<rparr>);
     I_check (cns = lTime p1);
     let p2 = port_sample (int (lTime p1) - int c) p1;
     Some (lTime p2, p2) }"

definition FullyNPipe_occupySlots :: "nat \<Rightarrow> nat \<Rightarrow> port_fullynpipe \<Rightarrow> nat \<times> port_fullynpipe" where
  "FullyNPipe_occupySlots c nSlots p0 =
     (let p = catch_up c p0;
          p1 = port_sample (int (lTime p) - int c) p
      in (lTime p1, p1\<lparr>lTime := lTime p1 + nSlots div (nUnitsMinusOne p1 + 1)\<rparr>))"

definition FullyNPipe_lock4nCycles :: "nat \<Rightarrow> nat \<Rightarrow> port_fullynpipe \<Rightarrow> port_fullynpipe" where
  "FullyNPipe_lock4nCycles c clks p0 =
     (let p = catch_up c p0
      in p\<lparr>lTime := lTime p + clks, freeUnits := nUnitsMinusOne p + 1\<rparr>)"

subsection \<open>PortPipe\<close>

record port_pipe = port_timed +
  pp_ocp :: nat

definition Pipe_new :: "nat \<Rightarrow> nat \<Rightarrow> port_pipe" where
  "Pipe_new c occ = \<lparr>nUsers = 0, avgTime = GStatsAvg_new,
     lTime = (if occ < c then c - occ else 0), pp_ocp = occ\<rparr>"

definition Pipe_calcNextSlot :: "nat \<Rightarrow> port_pipe \<Rightarrow> nat" where
  "Pipe_calcNextSlot c p = (if lTime p < c then c else lTime p)"

definition Pipe_nextSlot :: "nat \<Rightarrow> port_pipe \<Rightarrow> (nat \<times> port_pipe) option" where
  "Pipe_nextSlot c p0 = do {
     let cns = Pipe_calcNextSlot c p0;
     let p = catch_up c p0;
     let st = lTime p;
     let p1 = p\<lparr>lTime := lTime p + pp_ocp p\<rparr>;
     I_check (cns = st);
     Some (st, port_sample (int st - int c) p1) }"

definition Pipe_occupySlots :: "nat \<Rightarrow> nat \<Rightarrow> port_pipe \<Rightarrow> (nat \<times> port_pipe) option" where
  "Pipe_occupySlots c nSlots p0 = do {
     let p = catch_up c p0;
     I_check (1 < pp_ocp p);
     let p1 = port_sample (int (lTime p) - int c) p;
     Some (lTime p1, p1\<lparr>lTime := lTime p1 + pp_ocp p1 * nSlots\<rparr>) }"

definition Pipe_lock4nCycles :: "nat \<Rightarrow> nat \<Rightarrow> port_pipe \<Rightarrow> port_pipe" where
  "Pipe_lock4nCycles c clks p0 = (let p = catch_up c p0 in p\<lparr>lTime := lTime p + clks\<rparr>)"

subsection \<open>PortNPipe\<close>

record port_npipe = port_base +
  doStats :: bool
  np_ocp :: nat
  np_nUnits :: nat
  portBusyUntil :: "nat list"

definition NPipe_new :: "nat \<Rightarrow> nat \<Rightarrow> nat \<Rightarrow> port_npipe" where
  "NPipe_new c nFU occ = \<lparr>nUsers = 0, avgTime = GStatsAvg_new, doStats = True, np_ocp = occ,
     np_nUnits = nFU, portBusyUntil = replicate nFU c\<rparr>"

text \<open>The minimum that the loops over units \<open>1 .. nUnits - 1\<close> compute, from unit 0 on.\<close>

definition NPipe_calcNextSlot :: "nat \<Rightarrow> port_npipe \<Rightarrow> nat" where
  "NPipe_calcNextSlot c p =
     (let firsttime = fold (\<lambda>i firsttime. if portBusyUntil p ! i < firsttime
                                          then portBusyUntil p ! i else firsttime)
                        [1..<np_nUnits p] (portBusyUntil p ! 0)
      in if firsttime < c then c else firsttime)"

text \<open>
  The search of \<open>nextSlot\<close>: \<open>Inl i\<close> when unit \<open>i\<close> is idle before the current cycle, \<open>Inr\<close>
  the unit with the least busy time otherwise.
\<close>

fun NPipe_search :: "nat list \<Rightarrow> nat \<Rightarrow> nat list \<Rightarrow> nat \<Rightarrow> nat \<Rightarrow> nat + nat \<times> nat" where
  "NPipe_search busy c [] bufPort bufTime = Inr (bufPort, bufTime)"
| "NPipe_search busy c (i # is) bufPort bufTime =
     (if busy ! i < c then Inl i
      else if busy ! i < bufTime then NPipe_search busy c is i (busy ! i)
      else NPipe_search busy c is bufPort bufTime)"

definition NPipe_sample :: "int \<Rightarrow> port_npipe \<Rightarrow> port_npipe" where
  "NPipe_sample v p = (if doStats p then port_sample v p else p)"

definition NPipe_nextSlot_occ :: "nat \<Rightarrow> nat \<Rightarrow> port_npipe \<Rightarrow> (nat \<times> port_npipe) option" where
  "NPipe_nextSlot_occ c occupancy p = do {
     let cns = NPipe_calcNextSlot c p;
     let busy = portBusyUntil p;
     if busy ! 0 < c then do {
       let p1 = p\<lparr>portBusyUntil := busy[0 := c + occupancy]\<rparr>;
       I_check (cns = c);
       Some (c, NPipe_sample 0 p1) }
     else
       (case NPipe_search busy c [1..<np_nUnits p] 0 (busy ! 0) of
          Inl i \<Rightarrow> do {
            let p1 = p\<lparr>portBusyUntil := busy[i := c + occupancy]\<rparr>;
            I_check (cns = c);
            Some (c, NPipe_sample 0 p1) }
        | Inr (bufPort, bufTime) \<Rightarrow> do {
            let p1 = p\<lparr>portBusyUntil := busy[bufPort := busy ! bufPort + occupancy]\<rparr>;
            I_check (cns = bufTime);
            Some (bufTime, NPipe_sample (int bufTime - int c) p1) }) }"

definition NPipe_nextSlot :: "nat \<Rightarrow> port_npipe \<Rightarrow> (nat \<times> port_npipe) option" where
  "NPipe_nextSlot c p = NPipe_nextSlot_occ c (np_ocp p) p"

text \<open>The loop \<open>for (i=1; i<nSlots; i++) nextSlot();\<close>.\<close>

fun NPipe_moreSlots :: "nat \<Rightarrow> nat \<Rightarrow> port_npipe \<Rightarrow> port_npipe option" where
  "NPipe_moreSlots c 0 p = Some p"
| "NPipe_moreSlots c (Suc k) p =
     (case NPipe_nextSlot c p of None \<Rightarrow> None | Some (_, p') \<Rightarrow> NPipe_moreSlots c k p')"

definition NPipe_occupySlots :: "nat \<Rightarrow> nat \<Rightarrow> port_npipe \<Rightarrow> (nat \<times> port_npipe) option" where
  "NPipe_occupySlots c nSlots p = do {
     let p1 = port_sample (int (portBusyUntil p ! 0) - int c) p;
     (t, p2) \<leftarrow> NPipe_nextSlot c (p1\<lparr>doStats := False\<rparr>);
     p3 \<leftarrow> NPipe_moreSlots c (nSlots - 1) p2;
     Some (t, p3\<lparr>doStats := True\<rparr>) }"

definition NPipe_lock4nCycles :: "nat \<Rightarrow> nat \<Rightarrow> port_npipe \<Rightarrow> port_npipe" where
  "NPipe_lock4nCycles c clks p =
     (let cns = NPipe_calcNextSlot c p + clks
      in p\<lparr>portBusyUntil := map (\<lambda>b. if b < cns then cns else b) (portBusyUntil p)\<rparr>)"

subsection \<open>PortGeneric\<close>

datatype port =
  PortUnlimited port_timed
| PortFullyPipe port_timed
| PortFullyNPipe port_fullynpipe
| PortPipe port_pipe
| PortNPipe port_npipe

definition Port_create :: "nat \<Rightarrow> nat \<Rightarrow> nat \<Rightarrow> port option" where
  "Port_create c nUnits occ =
     (if occ = 0 \<or> nUnits = 0 then Some (PortUnlimited (Unlimited_new c))
      else if occ = 1 then
        (if nUnits = 1 then Some (PortFullyPipe (FullyPipe_new c))
         else map_option PortFullyNPipe (FullyNPipe_new c nUnits))
      else
        (if nUnits = 1 then Some (PortPipe (Pipe_new c occ))
         else Some (PortNPipe (NPipe_new c nUnits occ))))"

definition Port_nextSlot :: "nat \<Rightarrow> port \<Rightarrow> (nat \<times> port) option" where
  "Port_nextSlot c p =
     (case p of
        PortUnlimited u \<Rightarrow> Some (apsnd PortUnlimited (Unlimited_nextSlot c u))
      | PortFullyPipe u \<Rightarrow> map_option (apsnd PortFullyPipe) (FullyPipe_nextSlot c u)
      | PortFullyNPipe u \<Rightarrow> map_option (apsnd PortFullyNPipe) (FullyNPipe_nextSlot c u)
      | PortPipe u \<Rightarrow> map_option (apsnd PortPipe) (Pipe_nextSlot c u)
      | PortNPipe u \<Rightarrow> map_option (apsnd PortNPipe) (NPipe_nextSlot c u))"

definition Port_occupySlots :: "nat \<Rightarrow> nat \<Rightarrow> port \<Rightarrow> (nat \<times> port) option" where
  "Port_occupySlots c nSlots p =
     (case p of
        PortUnlimited u \<Rightarrow> Some (apsnd PortUnlimited (Unlimited_occupySlots c nSlots u))
      | PortFullyPipe u \<Rightarrow> Some (apsnd PortFullyPipe (FullyPipe_occupySlots c nSlots u))
      | PortFullyNPipe u \<Rightarrow> Some (apsnd PortFullyNPipe (FullyNPipe_occupySlots c nSlots u))
      | PortPipe u \<Rightarrow> map_option (apsnd PortPipe) (Pipe_occupySlots c nSlots u)
      | PortNPipe u \<Rightarrow> map_option (apsnd PortNPipe) (NPipe_occupySlots c nSlots u))"

definition Port_calcNextSlot :: "nat \<Rightarrow> port \<Rightarrow> nat" where
  "Port_calcNextSlot c p =
     (case p of
        PortUnlimited u \<Rightarrow> Unlimited_calcNextSlot c u
      | PortFullyPipe u \<Rightarrow> FullyPipe_calcNextSlot c u
      | PortFullyNPipe u \<Rightarrow> FullyNPipe_calcNextSlot c u
      | PortPipe u \<Rightarrow> Pipe_calcNextSlot c u
      | PortNPipe u \<Rightarrow> NPipe_calcNextSlot c u)"

definition Port_lock4nCycles :: "nat \<Rightarrow> nat \<Rightarrow> port \<Rightarrow> port" where
  "Port_lock4nCycles c clks p =
     (case p of
        PortUnlimited u \<Rightarrow> PortUnlimited (Unlimited_lock4nCycles c clks u)
      | PortFullyPipe u \<Rightarrow> PortFullyPipe (FullyPipe_lock4nCycles c clks u)
      | PortFullyNPipe u \<Rightarrow> PortFullyNPipe (FullyNPipe_lock4nCycles c clks u)
      | PortPipe u \<Rightarrow> PortPipe (Pipe_lock4nCycles c clks u)
      | PortNPipe u \<Rightarrow> PortNPipe (NPipe_lock4nCycles c clks u))"

definition Port_nextSlotDelta :: "nat \<Rightarrow> port \<Rightarrow> (nat \<times> port) option" where
  "Port_nextSlotDelta c p = do {
     (t, p') \<leftarrow> Port_nextSlot c p;
     Some (u16 (int t - int c), p') }"

end
