(* ===== verification/Port_Correct.thy ===== *)
theory Port_Correct
  imports Port_Model
begin

text \<open>
  All ports with the same number of units and the same occupancy grant the same slots.
  The reference is a multiset of the times at which the units become free: \<open>nextSlot\<close> takes
  the least of them (or the current cycle), and makes that unit busy for the occupancy.
  Every class refines the reference, which has the bandwidth that the port promises.
\<close>

subsection \<open>The reference\<close>

definition at_clock :: "nat \<Rightarrow> nat multiset \<Rightarrow> nat multiset" where
  "at_clock c B = image_mset (max c) B"

definition grant :: "nat \<Rightarrow> nat multiset \<Rightarrow> nat \<times> nat multiset" where
  "grant occ B = (Min_mset B, add_mset (Min_mset B + occ) (B - {#Min_mset B#}))"

text \<open>The slots granted to a sequence of requests, each made at its own clock.\<close>

fun grants :: "nat \<Rightarrow> nat list \<Rightarrow> nat multiset \<Rightarrow> nat list" where
  "grants occ [] B = []"
| "grants occ (c # cs) B =
     (let (t, B') = grant occ (at_clock c B) in t # grants occ cs B')"

lemma grant_size: "B \<noteq> {#} \<Longrightarrow> size (snd (grant occ B)) = size B"
  by (simp add: grant_def size_Diff_singleton nonempty_has_size)

lemma at_clock_simps [simp]:
  "size (at_clock c B) = size B" "(at_clock c B = {#}) = (B = {#})"
  "set_mset (at_clock c B) = max c ` set_mset B"
  by (simp_all add: at_clock_def)

lemma at_clock_at_clock: "c \<le> c' \<Longrightarrow> at_clock c' (at_clock c B) = at_clock c' B"
  by (simp add: at_clock_def multiset.map_comp o_def max.absorb2 flip: max.assoc)

text \<open>Units that are busy in cycle \<open>x\<close>, and granted slots that occupy a unit in cycle \<open>x\<close>.\<close>

definition busy_in :: "nat \<Rightarrow> nat multiset \<Rightarrow> nat" where
  "busy_in x B = size (filter_mset (\<lambda>b. x < b) B)"

definition covers :: "nat \<Rightarrow> nat \<Rightarrow> nat list \<Rightarrow> nat" where
  "covers occ x ts = length (filter (\<lambda>s. x < s + occ) ts)"

definition covered :: "nat \<Rightarrow> nat list \<Rightarrow> nat multiset \<Rightarrow> bool" where
  "covered occ ts B = (\<forall>x. Min_mset B \<le> x \<longrightarrow> covers occ x ts \<le> busy_in x B)"

lemma coveredD:
  assumes "covered occ ts B" "B \<noteq> {#}" "Min_mset B \<le> x"
  shows "covers occ x ts \<le> busy_in x B"
  using assms by (simp add: covered_def)

lemma busy_in_at_clock: "c \<le> x \<Longrightarrow> busy_in x (at_clock c B) = busy_in x B"
proof -
  assume "c \<le> x"
  then have "(x < max c b) = (x < b)" for b by auto
  then show ?thesis by (simp add: busy_in_def at_clock_def filter_mset_image_mset)
qed

lemma covered_at_clock:
  assumes "covered occ ts B" "B \<noteq> {#}"
  shows "covered occ ts (at_clock c B)"
  unfolding covered_def
proof (intro allI impI)
  fix x
  assume m: "Min_mset (at_clock c B) \<le> x"
  have "Min_mset (at_clock c B) \<in># at_clock c B" using assms(2) by (intro Min_in) auto
  then obtain b where b: "b \<in># B" "Min_mset (at_clock c B) = max c b" by auto
  have "Min_mset B \<le> b" using b(1) by simp
  then have "c \<le> x" "Min_mset B \<le> x" using b(2) m by auto
  then show "covers occ x ts \<le> busy_in x (at_clock c B)"
    using coveredD [OF assms] by (simp add: busy_in_at_clock)
qed

lemma busy_in_grant:
  assumes "B \<noteq> {#}" "Min_mset B \<le> x"
  shows "busy_in x (snd (grant occ B)) = busy_in x B + (if x < Min_mset B + occ then 1 else 0)"
proof -
  let ?m = "Min_mset B"
  have "?m \<in># B" using assms(1) by (intro Min_in) auto
  then obtain C where C: "B = add_mset ?m C" by (metis insert_DiffM)
  have "busy_in x B = busy_in x C" using C assms(2) by (metis (no_types, lifting) busy_in_def
        filter_mset_add_mset linorder_not_less)
  moreover have "snd (grant occ B) = add_mset (?m + occ) C" using C by (metis add_mset_remove_trivial
        grant_def snd_conv)
  ultimately show ?thesis by (simp add: busy_in_def)
qed

lemma grant_Min:
  assumes "B \<noteq> {#}"
  shows "Min_mset B \<le> Min_mset (snd (grant occ B))"
proof -
  let ?B' = "snd (grant occ B)"
  have "?B' \<noteq> {#}" by (simp add: grant_def)
  then have "Min_mset ?B' \<in># ?B'" by (intro Min_in) auto
  then consider "Min_mset ?B' = Min_mset B + occ" | "Min_mset ?B' \<in># B"
    by (auto simp: grant_def dest: in_diffD)
  then show ?thesis by cases auto
qed

lemma covered_grant:
  assumes "covered occ ts B" "B \<noteq> {#}" "\<forall>s\<in>set ts. s \<le> Min_mset B"
  shows "covered occ (ts @ [Min_mset B]) (snd (grant occ B))"
  unfolding covered_def
proof (intro allI impI)
  fix x
  assume "Min_mset (snd (grant occ B)) \<le> x"
  then have "Min_mset B \<le> x" using grant_Min [OF assms(2), of occ] by simp
  then show "covers occ x (ts @ [Min_mset B]) \<le> busy_in x (snd (grant occ B))"
    using coveredD [OF assms(1,2)] by (simp add: busy_in_grant [OF assms(2)] covers_def)
qed

text \<open>When a slot is granted, a unit is free: fewer than all units are covered by others.\<close>

lemma covers_less:
  assumes "covered occ ts B" "B \<noteq> {#}"
  shows "covers occ (Min_mset B) ts < size B"
proof -
  have "Min_mset B \<in># B" using assms(2) by (intro Min_in) auto
  then have "filter_mset (\<lambda>b. Min_mset B < b) B \<noteq> B" by (metis filter_mset_eq_conv
        less_irrefl multiset_partition)
  then have "busy_in (Min_mset B) B < size B"
    unfolding busy_in_def by (intro mset_subset_size) (simp add: subset_mset.less_le)
  then show ?thesis using coveredD [OF assms, of "Min_mset B"] by simp
qed

text \<open>
  The bandwidth: slots come in order, never before the request, and the slot \<open>n\<close> requests
  later starts at least one occupancy later, where \<open>n\<close> is the number of units.
\<close>

definition bandwidth :: "nat \<Rightarrow> nat \<Rightarrow> nat list \<Rightarrow> bool" where
  "bandwidth n occ ts = (sorted ts \<and> (\<forall>i. i + n < length ts \<longrightarrow> ts ! i + occ \<le> ts ! (i + n)))"

lemma bandwidth_snoc:
  assumes bw: "bandwidth n occ ts" and top: "\<forall>s\<in>set ts. s \<le> t" and few: "covers occ t ts < n"
  shows "bandwidth n occ (ts @ [t])"
proof -
  have "ts ! i + occ \<le> t" if i: "i + n = length ts" for i
  proof (rule ccontr)
    assume neg: "\<not> ts ! i + occ \<le> t"
    have "t < s + occ" if "s \<in> set (drop i ts)" for s
    proof -
      obtain j where j: "s = ts ! (i + j)" "i + j < length ts"
        using \<open>s \<in> set (drop i ts)\<close> i by (auto simp: in_set_conv_nth)
      have "ts ! i \<le> ts ! (i + j)" using bw j(2) by (simp add: bandwidth_def sorted_nth_mono)
      then show ?thesis using neg j(1) by simp
    qed
    then have "filter (\<lambda>s. t < s + occ) (drop i ts) = drop i ts" by simp
    then have "n \<le> covers occ t (take i ts @ drop i ts)"
      unfolding covers_def filter_append using i by simp
    then show False using few by simp
  qed
  moreover have "0 < n" using few by simp
  ultimately show ?thesis using bw top
    by (auto simp: bandwidth_def sorted_append nth_append less_Suc_eq)
qed

lemma grants_bandwidth:
  assumes "covered occ ts B" "bandwidth (size B) occ ts" "\<forall>s\<in>set ts. s \<le> Min_mset B" "B \<noteq> {#}"
  shows "bandwidth (size B) occ (ts @ grants occ cs B)"
  using assms
proof (induction cs arbitrary: ts B)
  case Nil
  then show ?case by simp
next
  case (Cons c cs)
  let ?C = "at_clock c B" and ?t = "Min_mset (at_clock c B)"
  let ?B' = "snd (grant occ ?C)"
  have ne: "?C \<noteq> {#}" "?B' \<noteq> {#}" using Cons.prems(4) by (simp_all add: grant_def)
  have "?t \<in># ?C" using ne(1) by (intro Min_in) auto
  then obtain b where "b \<in># B" "?t = max c b" by auto
  moreover have "Min_mset B \<le> b" using \<open>b \<in># B\<close> by simp
  ultimately have "Min_mset B \<le> ?t" by linarith
  then have top: "\<forall>s\<in>set ts. s \<le> ?t" using Cons.prems(3) by auto
  have cov: "covered occ ts ?C" by (rule covered_at_clock [OF Cons.prems(1,4)])
  have sz: "size ?B' = size B" using grant_size [OF ne(1)] by simp
  have "covers occ ?t ts < size B" using covers_less [OF cov ne(1)] by simp
  then have "bandwidth (size B) occ (ts @ [?t])" by (rule bandwidth_snoc [OF Cons.prems(2) top])
  moreover have "covered occ (ts @ [?t]) ?B'" by (rule covered_grant [OF cov ne(1) top])
  moreover have "\<forall>s\<in>set (ts @ [?t]). s \<le> Min_mset ?B'"
    using top grant_Min [OF ne(1), of occ] by fastforce
  ultimately have "bandwidth (size ?B') occ ((ts @ [?t]) @ grants occ cs ?B')"
    using Cons.IH [of "ts @ [?t]" ?B'] sz ne(2) by simp
  then show ?case using sz by (simp add: grant_def Let_def)
qed

lemma grants_bandwidth_new: "B \<noteq> {#} \<Longrightarrow> bandwidth (size B) occ (grants occ cs B)"
  using grants_bandwidth [of occ "[]" B cs] by (simp add: covered_def covers_def bandwidth_def)

lemma grants_after:
  "B \<noteq> {#} \<Longrightarrow> i < length cs \<Longrightarrow> cs ! i \<le> grants occ cs B ! i"
proof (induction cs arbitrary: B i)
  case Nil
  then show ?case by simp
next
  case (Cons c cs)
  have "Min_mset (at_clock c B) \<in># at_clock c B" using Cons.prems(1) by (intro Min_in) auto
  then have "c \<le> Min_mset (at_clock c B)" by auto
  then show ?case using Cons by (cases i) (auto simp: grant_def)
qed

lemma grants_length [simp]: "length (grants occ cs B) = length cs"
  by (induction cs arbitrary: B) (simp_all add: grant_def)


text \<open>Only the busy times above the clock of the first request matter.\<close>

lemma grants_at_clock:
  assumes "\<forall>c\<in>set cs. c0 \<le> c" "at_clock c0 B = at_clock c0 B'"
  shows "grants occ cs B = grants occ cs B'"
proof (cases cs)
  case Nil
  then show ?thesis by simp
next
  case (Cons c cs')
  then have "at_clock c B = at_clock c B'"
    using assms at_clock_at_clock [of c0 c B] at_clock_at_clock [of c0 c B'] by simp
  then show ?thesis using Cons by simp
qed

subsection \<open>The contract of a port\<close>

fun slots :: "(nat \<Rightarrow> 'p \<Rightarrow> (nat \<times> 'p) option) \<Rightarrow> nat list \<Rightarrow> 'p \<Rightarrow> (nat list \<times> 'p) option" where
  "slots nxt [] p = Some ([], p)"
| "slots nxt (c # cs) p =
     (case nxt c p of
        None \<Rightarrow> None
      | Some (t, p') \<Rightarrow> map_option (apfst ((#) t)) (slots nxt cs p'))"

locale slot_server =
  fixes ok :: "'p \<Rightarrow> bool"
    and units :: "'p \<Rightarrow> nat multiset"
    and occupancy :: "'p \<Rightarrow> nat"
    and calc :: "nat \<Rightarrow> 'p \<Rightarrow> nat"
    and nextSlot :: "nat \<Rightarrow> 'p \<Rightarrow> (nat \<times> 'p) option"
  assumes units_ne: "ok p \<Longrightarrow> units p \<noteq> {#}"
    and nextSlot_law: "ok p \<Longrightarrow>
      \<exists>p'. nextSlot c p = Some (calc c p, p') \<and> ok p' \<and> occupancy p' = occupancy p \<and>
        calc c p = fst (grant (occupancy p) (at_clock c (units p))) \<and>
        at_clock c (units p') = at_clock c (snd (grant (occupancy p) (at_clock c (units p))))"
begin

lemma slots_grants:
  assumes "ok p" "sorted cs"
  shows "\<exists>p'. slots nextSlot cs p = Some (grants (occupancy p) cs (units p), p') \<and> ok p'"
  using assms
proof (induction cs arbitrary: p)
  case Nil
  then show ?case by simp
next
  case (Cons c cs)
  obtain p1 where p1: "nextSlot c p = Some (calc c p, p1)" "ok p1" "occupancy p1 = occupancy p"
      "calc c p = fst (grant (occupancy p) (at_clock c (units p)))"
      "at_clock c (units p1) = at_clock c (snd (grant (occupancy p) (at_clock c (units p))))"
    using nextSlot_law [OF Cons.prems(1)] by blast
  have "grants (occupancy p) cs (units p1) =
      grants (occupancy p) cs (snd (grant (occupancy p) (at_clock c (units p))))"
    using Cons.prems(2) by (intro grants_at_clock [of _ c, OF _ p1(5)]) simp
  then show ?case using Cons.IH [OF p1(2)] Cons.prems p1(1,3,4)
    by (auto simp: split_beta Let_def)
qed

lemma slots_bandwidth:
  assumes "ok p" "sorted cs"
  shows "\<exists>ts p'. slots nextSlot cs p = Some (ts, p') \<and> length ts = length cs \<and>
    bandwidth (size (units p)) (occupancy p) ts \<and> (\<forall>i<length cs. cs ! i \<le> ts ! i)"
  using slots_grants [OF assms] grants_bandwidth_new [OF units_ne [OF assms(1)]]
    grants_after [OF units_ne [OF assms(1)]] by fastforce

end

lemma catch_up_simps [simp]:
  "lTime (catch_up c p) = max c (lTime p)" "avgTime (catch_up c p) = avgTime p"
  "port_timed.more (catch_up c p) = port_timed.more p"
  by (simp_all add: catch_up_def max_def)

lemma port_sample_simps [simp]: "lTime (port_sample v p) = lTime p"
  "nUnitsMinusOne (port_sample v q) = nUnitsMinusOne q" "freeUnits (port_sample v q) = freeUnits q"
  "pp_ocp (port_sample v r) = pp_ocp r" "np_ocp (port_sample v u) = np_ocp u"
  "np_nUnits (port_sample v u) = np_nUnits u" "portBusyUntil (port_sample v u) = portBusyUntil u"
  by (simp_all add: port_sample_def)

subsection \<open>One unit\<close>

interpretation fully_pipe: slot_server "\<lambda>_. True" "\<lambda>p. {#lTime p#}" "\<lambda>_. 1"
    FullyPipe_calcNextSlot FullyPipe_nextSlot
  by unfold_locales
    (auto simp: FullyPipe_nextSlot_def FullyPipe_calcNextSlot_def grant_def at_clock_def Let_def max_def)

lemma catch_up_pipe [simp]: "pp_ocp (catch_up c p) = pp_ocp p"
  by (simp add: catch_up_def)

interpretation pipe: slot_server "\<lambda>_. True" "\<lambda>p. {#lTime p#}" pp_ocp Pipe_calcNextSlot Pipe_nextSlot
  by unfold_locales
    (auto simp: Pipe_nextSlot_def Pipe_calcNextSlot_def grant_def at_clock_def Let_def max_def)

subsection \<open>Many units that are busy for one cycle\<close>

definition fully_units :: "port_fullynpipe \<Rightarrow> nat multiset" where
  "fully_units p = replicate_mset (freeUnits p) (lTime p) +
     replicate_mset (nUnitsMinusOne p + 1 - freeUnits p) (lTime p + 1)"

definition fully_ok :: "port_fullynpipe \<Rightarrow> bool" where
  "fully_ok p = (freeUnits p \<le> nUnitsMinusOne p + 1)"

lemma Min_replicate [simp]: "Min_mset (add_mset a (replicate_mset n a)) = a"
  by (cases n) simp_all

lemma replicate_add: "replicate_mset (m + n) x = replicate_mset m x + replicate_mset n x"
  by (induction m) simp_all

lemma fully_idle:
  assumes "fully_ok p" "lTime p < c"
  shows "at_clock c (fully_units p) = replicate_mset (nUnitsMinusOne p + 1) c"
proof -
  have "at_clock c (fully_units p) =
      replicate_mset (freeUnits p) c + replicate_mset (nUnitsMinusOne p + 1 - freeUnits p) c"
    using assms(2) by (simp add: fully_units_def at_clock_def max_absorb1)
  also have "\<dots> = replicate_mset (freeUnits p + (nUnitsMinusOne p + 1 - freeUnits p)) c"
    by (simp only: replicate_add)
  finally show ?thesis using assms(1) by (simp add: fully_ok_def)
qed

lemma at_clock_replicate [simp]: "at_clock c (replicate_mset n x) = replicate_mset n (max c x)"
  "at_clock c (A + B) = at_clock c A + at_clock c B"
  "at_clock c (add_mset x A) = add_mset (max c x) (at_clock c A)"
  by (simp_all add: at_clock_def)

lemma grant_add: "Min_mset (add_mset m B) = m \<Longrightarrow> grant occ (add_mset m B) = (m, add_mset (m + occ) B)"
  by (simp add: grant_def)

lemma fully_nextSlot:
  assumes ok: "fully_ok p"
  shows "\<exists>p'. FullyNPipe_nextSlot c p = Some (FullyNPipe_calcNextSlot c p, p') \<and> fully_ok p' \<and>
    FullyNPipe_calcNextSlot c p = fst (grant 1 (at_clock c (fully_units p))) \<and>
    at_clock c (fully_units p') = at_clock c (snd (grant 1 (at_clock c (fully_units p))))"
proof -
  let ?n = "nUnitsMinusOne p"
  consider (idle) "lTime p < c" | (free) k where "c \<le> lTime p" "freeUnits p = Suc k"
    | (full) "c \<le> lTime p" "freeUnits p = 0"
    by (metis not0_implies_Suc not_le)
  then show ?thesis
  proof cases
    case idle
    have g: "grant 1 (at_clock c (fully_units p)) = (c, add_mset (c + 1) (replicate_mset ?n c))"
      using fully_idle [OF ok idle] by (simp add: grant_add)
    show ?thesis
      unfolding g using idle by (simp add: FullyNPipe_nextSlot_def FullyNPipe_calcNextSlot_def fully_ok_def
          fully_units_def Let_def)
  next
    case free
    have u: "fully_units p = add_mset (lTime p) (replicate_mset k (lTime p) +
        replicate_mset (?n + 1 - Suc k) (lTime p + 1))"
      using free(2) by (simp add: fully_units_def)
    have "Min_mset (fully_units p) = lTime p" unfolding u by (intro Min_eqI) (auto split: if_splits)
    moreover have "at_clock c (fully_units p) = fully_units p"
      using free(1) by (simp add: fully_units_def max_def)
    ultimately have g: "grant 1 (at_clock c (fully_units p)) = (lTime p, add_mset (lTime p + 1)
        (replicate_mset k (lTime p) + replicate_mset (?n + 1 - Suc k) (lTime p + 1)))"
      using u by (simp add: grant_add)
    have "?n + 1 - k = Suc (?n + 1 - Suc k)" using ok free(2) by (simp add: fully_ok_def)
    then have "replicate_mset (?n + 1 - k) x = add_mset x (replicate_mset (?n + 1 - Suc k) x)" for x :: nat
      by (simp only: replicate_mset_Suc)
    then show ?thesis
      unfolding g using free ok by (simp add: FullyNPipe_nextSlot_def FullyNPipe_calcNextSlot_def fully_ok_def
          fully_units_def Let_def)
  next
    case full
    have u: "at_clock c (fully_units p) = replicate_mset (Suc ?n) (lTime p + 1)"
      using full by (simp add: fully_units_def max_def)
    then have g: "grant 1 (at_clock c (fully_units p)) =
        (lTime p + 1, add_mset (lTime p + 2) (replicate_mset ?n (lTime p + 1)))"
      by (simp add: grant_add)
    show ?thesis
      unfolding g using full by (simp add: FullyNPipe_nextSlot_def FullyNPipe_calcNextSlot_def fully_ok_def
          fully_units_def Let_def)
  qed
qed

interpretation fully_npipe: slot_server fully_ok fully_units "\<lambda>_. 1"
    FullyNPipe_calcNextSlot FullyNPipe_nextSlot
proof
  fix p c
  show "fully_units p \<noteq> {#}" by (auto simp: fully_units_def)
  show "\<exists>p'. FullyNPipe_nextSlot c p = Some (FullyNPipe_calcNextSlot c p, p') \<and> fully_ok p' \<and> 1 = 1 \<and>
        FullyNPipe_calcNextSlot c p = fst (grant 1 (at_clock c (fully_units p))) \<and>
        at_clock c (fully_units p') = at_clock c (snd (grant 1 (at_clock c (fully_units p))))"
    if "fully_ok p" using fully_nextSlot [OF that] by simp
qed

subsection \<open>Many units with an occupancy\<close>

definition npipe_ok :: "port_npipe \<Rightarrow> bool" where
  "npipe_ok p = (length (portBusyUntil p) = np_nUnits p \<and> 0 < np_nUnits p)"

lemma fold_min: "fold (\<lambda>i m. if busy ! i < m then busy ! i else m) is m =
    Min (insert m ((!) busy ` set is))"
  for m :: nat
proof (induction "is" arbitrary: m)
  case Nil
  then show ?case by simp
next
  case (Cons i "is")
  have "(if busy ! i < m then busy ! i else m) = min (busy ! i) m" by (simp add: min_def)
  moreover have "Min (insert (min (busy ! i) m) ((!) busy ` set is)) =
      Min (insert m (insert (busy ! i) ((!) busy ` set is)))"
    by (cases "is = []") (simp_all add: min.commute min.assoc)
  ultimately show ?case using Cons.IH by simp
qed

lemma busy_set: "npipe_ok p \<Longrightarrow>
  insert (portBusyUntil p ! 0) ((!) (portBusyUntil p) ` {1..<np_nUnits p}) = set (portBusyUntil p)"
proof -
  assume ok: "npipe_ok p"
  have "insert 0 {1..<np_nUnits p} = {0..<np_nUnits p}" using ok by (auto simp: npipe_ok_def)
  then have "insert (portBusyUntil p ! 0) ((!) (portBusyUntil p) ` {1..<np_nUnits p}) =
      (!) (portBusyUntil p) ` {0..<np_nUnits p}" by (metis image_insert)
  also have "\<dots> = set (portBusyUntil p)" using ok by (auto simp: npipe_ok_def set_conv_nth)
  finally show ?thesis .
qed

lemma npipe_calc:
  assumes ok: "npipe_ok p"
  shows "NPipe_calcNextSlot c p = Min_mset (at_clock c (mset (portBusyUntil p)))"
proof -
  have "NPipe_calcNextSlot c p = max c (Min (set (portBusyUntil p)))"
    unfolding NPipe_calcNextSlot_def fold_min using busy_set [OF ok] by (simp add: Let_def max_def)
  also have "\<dots> = Min (max c ` set (portBusyUntil p))"
    using ok by (intro mono_Min_commute) (auto simp: npipe_ok_def mono_def)
  finally show ?thesis by simp
qed

lemma search_Inl: "NPipe_search busy c is b t = Inl i \<Longrightarrow> i \<in> set is \<and> busy ! i < c"
  by (induction busy c "is" b t rule: NPipe_search.induct) (auto split: if_splits)

lemma search_Inr:
  "NPipe_search busy c is b t = Inr (b', t') \<Longrightarrow> t = busy ! b \<Longrightarrow>
   t' = busy ! b' \<and> b' \<in> insert b (set is) \<and> (\<forall>j\<in>set is. c \<le> busy ! j) \<and>
   (\<forall>j\<in>insert b (set is). t' \<le> busy ! j)"
proof (induction busy c "is" b t rule: NPipe_search.induct)
  case (1 busy c b t)
  then show ?case by auto
next
  case (2 busy c i "is" b t)
  show ?case
  proof (cases "busy ! i < c")
    case True
    then show ?thesis using 2(3) by simp
  next
    case False
    show ?thesis
    proof (cases "busy ! i < t")
      case True
      then show ?thesis using 2(1) [OF False True _ refl] 2(3,4) False by auto
    next
      case ge: False
      then show ?thesis using 2(2) [OF False ge _ 2(4)] 2(3,4) False by fastforce
    qed
  qed
qed

text \<open>Making unit \<open>i\<close> busy, when its time is the least one at the clock.\<close>

lemma npipe_take:
  assumes ok: "npipe_ok p" and i: "i < np_nUnits p"
    and m: "Min_mset (at_clock c (mset (portBusyUntil p))) = max c (portBusyUntil p ! i)"
    and new: "b = max c (portBusyUntil p ! i) + occ"
  shows "mset ((portBusyUntil p)[i := b]) = add_mset b (mset (portBusyUntil p) - {#portBusyUntil p ! i#})"
    and "at_clock c (mset ((portBusyUntil p)[i := b])) =
      at_clock c (snd (grant occ (at_clock c (mset (portBusyUntil p)))))"
proof -
  let ?v = "portBusyUntil p"
  have len: "i < length ?v" using ok i by (simp add: npipe_ok_def)
  show upd: "mset (?v[i := b]) = add_mset b (mset ?v - {#?v ! i#})" using len by (rule mset_update)
  obtain C where C: "mset ?v = add_mset (?v ! i) C"
    using len by (metis insert_DiffM nth_mem_mset)
  have "at_clock c (at_clock c C) = at_clock c C" by (simp add: at_clock_at_clock)
  then show "at_clock c (mset (?v[i := b])) = at_clock c (snd (grant occ (at_clock c (mset ?v))))"
    using m unfolding upd C by (simp add: grant_def new)
qed

lemma npipe_nextSlot:
  assumes ok: "npipe_ok p"
  shows "\<exists>p'. NPipe_nextSlot_occ c occ p = Some (NPipe_calcNextSlot c p, p') \<and> npipe_ok p' \<and>
    np_ocp p' = np_ocp p \<and> np_nUnits p' = np_nUnits p \<and>
    at_clock c (mset (portBusyUntil p')) =
      at_clock c (snd (grant occ (at_clock c (mset (portBusyUntil p)))))"
proof -
  let ?v = "portBusyUntil p" and ?m = "Min_mset (at_clock c (mset (portBusyUntil p)))"
  have len: "0 < length ?v" "length ?v = np_nUnits p" using ok by (simp_all add: npipe_ok_def)
  have le: "?m \<le> max c (?v ! i)" if "i < length ?v" for i
    using that by (auto intro!: Min_le)
  have "set ?v \<noteq> {}" using len by auto
  then have ge: "c \<le> ?m" by (simp add: Min_ge_iff)
  have take: "?thesis" if u: "NPipe_nextSlot_occ c occ p =
        Some (NPipe_calcNextSlot c p, NPipe_sample d (p\<lparr>portBusyUntil := ?v[i := b]\<rparr>))"
      and i: "i < length ?v" "?m = max c (?v ! i)" "b = max c (?v ! i) + occ" for d i b
    using u npipe_take(2) [OF ok, of i c b occ] i len
    by (auto simp: NPipe_sample_def npipe_ok_def)
  have idle: "NPipe_calcNextSlot c p = c" "?m = max c (?v ! i)" if "i < length ?v" "?v ! i < c" for i
    using le [OF that(1)] that(2) ge npipe_calc [OF ok] by simp_all
  show ?thesis
  proof (cases "?v ! 0 < c")
    case True
    show ?thesis
      by (rule take [of 0 0 "c + occ"]) (use True len idle [of 0] in \<open>simp_all add: NPipe_nextSlot_occ_def Let_def\<close>)
  next
    case False
    show ?thesis
    proof (cases "NPipe_search ?v c [1..<np_nUnits p] 0 (?v ! 0)")
      case (Inl i)
      then have i: "i < length ?v" "?v ! i < c" using search_Inl [OF Inl] len by auto
      show ?thesis
        by (rule take [of 0 i "c + occ"])
          (use False Inl i idle [OF i] in \<open>simp_all add: NPipe_nextSlot_occ_def Let_def\<close>)
    next
      case (Inr bt)
      obtain b t where bt: "bt = (b, t)" by (cases bt)
      note s = search_Inr [OF Inr [unfolded bt] refl]
      have b: "b < length ?v" "t = ?v ! b" using s len by auto
      have all: "c \<le> x \<and> t \<le> x" if x: "x \<in> set ?v" for x
      proof -
        obtain j where j: "x = ?v ! j" "j < length ?v" using x by (auto simp: in_set_conv_nth)
        have "j < np_nUnits p" using j(2) len(2) by simp
        then have "j = 0 \<or> j \<in> set [1..<np_nUnits p]" by auto
        then show ?thesis using s False j(1) by auto
      qed
      have "c \<le> t" using all b by auto
      have "?m = t"
      proof (rule Min_eqI)
        show "t \<le> y" if y: "y \<in># at_clock c (mset ?v)" for y
        proof -
          obtain x where "x \<in> set ?v" "y = max c x" using y by auto
          then show ?thesis using all [of x] by simp
        qed
        have "max c (?v ! b) = t" "?v ! b \<in> set ?v" using b \<open>c \<le> t\<close> by simp_all
        then show "t \<in># at_clock c (mset ?v)" by (metis at_clock_simps(3) imageI set_mset_mset)
      qed simp
      then have m: "?m = max c (?v ! b)" and calc: "NPipe_calcNextSlot c p = t"
        using \<open>c \<le> t\<close> b npipe_calc [OF ok] by simp_all
      have "NPipe_nextSlot_occ c occ p = Some (NPipe_calcNextSlot c p,
          NPipe_sample (int t - int c) (p\<lparr>portBusyUntil := ?v[b := ?v ! b + occ]\<rparr>))"
        using False Inr unfolding bt by (simp add: NPipe_nextSlot_occ_def Let_def calc)
      then show ?thesis by (rule take) (use b(1) m \<open>c \<le> t\<close> b(2) in auto)
    qed
  qed
qed

interpretation npipe: slot_server npipe_ok "\<lambda>p. mset (portBusyUntil p)" np_ocp
    NPipe_calcNextSlot NPipe_nextSlot
proof
  fix p c
  show "mset (portBusyUntil p) \<noteq> {#}" if "npipe_ok p" using that by (auto simp: npipe_ok_def)
  show "\<exists>p'. NPipe_nextSlot c p = Some (NPipe_calcNextSlot c p, p') \<and> npipe_ok p' \<and> np_ocp p' = np_ocp p \<and>
        NPipe_calcNextSlot c p = fst (grant (np_ocp p) (at_clock c (mset (portBusyUntil p)))) \<and>
        at_clock c (mset (portBusyUntil p')) =
          at_clock c (snd (grant (np_ocp p) (at_clock c (mset (portBusyUntil p)))))"
    if "npipe_ok p"
    using npipe_nextSlot [OF that, of c "np_ocp p"] npipe_calc [OF that, of c]
    by (auto simp: NPipe_nextSlot_def grant_def)
qed

subsection \<open>The port that create returns\<close>

lemma slots_lift:
  assumes "\<And>c u. nxt' c (K u) = map_option (apsnd K) (nxt c u)"
  shows "slots nxt' cs (K u) = map_option (apsnd K) (slots nxt cs u)"
proof (induction cs arbitrary: u)
  case Nil
  then show ?case by simp
next
  case (Cons c cs)
  show ?case
    by (cases "nxt c u") (auto simp: assms Cons.IH option.map_comp o_def apfst_def apsnd_def
        map_prod_def split_beta)
qed

lemma slots_ports [simp]:
  "slots Port_nextSlot cs (PortFullyPipe u) = map_option (apsnd PortFullyPipe) (slots FullyPipe_nextSlot cs u)"
  "slots Port_nextSlot cs (PortFullyNPipe v) = map_option (apsnd PortFullyNPipe) (slots FullyNPipe_nextSlot cs v)"
  "slots Port_nextSlot cs (PortPipe w) = map_option (apsnd PortPipe) (slots Pipe_nextSlot cs w)"
  "slots Port_nextSlot cs (PortNPipe x) = map_option (apsnd PortNPipe) (slots NPipe_nextSlot cs x)"
  by (rule slots_lift, simp add: Port_nextSlot_def)+

lemma create_slots:
  assumes p: "Port_create c0 n occ = Some p" and pos: "0 < n" "0 < occ" and cs: "sorted (c0 # cs)"
  shows "\<exists>p'. slots Port_nextSlot cs p = Some (grants occ cs (replicate_mset n c0), p')"
proof -
  have srt: "sorted cs" and le: "\<forall>c\<in>set cs. c0 \<le> c" using cs by simp_all
  consider (a) "occ = 1" "n = 1" | (b) "occ = 1" "n \<noteq> 1" | (c) "occ \<noteq> 1" "n = 1" | (d) "occ \<noteq> 1" "n \<noteq> 1"
    by blast
  then show ?thesis
  proof cases
    case a
    then have "p = PortFullyPipe (FullyPipe_new c0)" using p by (simp add: Port_create_def)
    then show ?thesis using fully_pipe.slots_grants [OF TrueI srt, of "FullyPipe_new c0"] a
      by (auto simp: FullyPipe_new_def port_base.defs port_base_new_def)
  next
    case b
    let ?u = "\<lparr>nUsers = 0, avgTime = GStatsAvg_new, lTime = c0, nUnitsMinusOne = n - 1, freeUnits = n\<rparr>"
    have "p = PortFullyNPipe ?u" using b p pos by (auto simp: Port_create_def FullyNPipe_new_def)
    moreover have "fully_ok ?u" "fully_units ?u = replicate_mset n c0"
      using pos by (simp_all add: fully_ok_def fully_units_def)
    ultimately show ?thesis using fully_npipe.slots_grants [of ?u cs] srt b by auto
  next
    case c
    have p': "p = PortPipe (Pipe_new c0 occ)" using c p pos by (simp add: Port_create_def)
    have "grants occ cs {#lTime (Pipe_new c0 occ)#} = grants occ cs {#c0#}"
      by (rule grants_at_clock [OF le]) (simp add: Pipe_new_def)
    moreover have "pp_ocp (Pipe_new c0 occ) = occ" by (simp add: Pipe_new_def)
    ultimately show ?thesis using pipe.slots_grants [OF TrueI srt, of "Pipe_new c0 occ"] c p' by auto
  next
    case d
    have "p = PortNPipe (NPipe_new c0 n occ)" using d p pos by (simp add: Port_create_def)
    moreover have "npipe_ok (NPipe_new c0 n occ)" using pos by (simp add: npipe_ok_def NPipe_new_def)
    moreover have "np_ocp (NPipe_new c0 n occ) = occ"
        "mset (portBusyUntil (NPipe_new c0 n occ)) = replicate_mset n c0"
      by (simp_all add: NPipe_new_def)
    ultimately show ?thesis using npipe.slots_grants [of "NPipe_new c0 n occ" cs] srt by auto
  qed
qed

lemma npipe_new_slots:
  assumes "0 < n" "sorted (c0 # cs)"
  shows "\<exists>p'. slots NPipe_nextSlot cs (NPipe_new c0 n occ) =
    Some (grants occ cs (replicate_mset n c0), p')"
proof -
  have "npipe_ok (NPipe_new c0 n occ)" using assms by (simp add: npipe_ok_def NPipe_new_def)
  moreover have "np_ocp (NPipe_new c0 n occ) = occ"
      "mset (portBusyUntil (NPipe_new c0 n occ)) = replicate_mset n c0"
    by (simp_all add: NPipe_new_def)
  ultimately show ?thesis using npipe.slots_grants [of "NPipe_new c0 n occ" cs] assms(2) by auto
qed

end
