(* ===== verification/Port_Occupy.thy ===== *)
theory Port_Occupy
  imports Port_Correct
begin

text \<open>
  \<open>occupySlots\<close> and \<open>lock4nCycles\<close> of the ports. Port.h documents the first as equivalent to
  \<open>nSlots\<close> calls of \<open>nextSlot\<close>: the pipelined ports with one unit keep to that.
\<close>

text \<open>The slots that \<open>k\<close> calls of \<open>nextSlot\<close> in the same cycle grant.\<close>

lemma FullyPipe_slots:
  "\<exists>p'. slots FullyPipe_nextSlot (replicate k c) p =
     Some (map (\<lambda>i. max c (lTime p) + i) [0..<k], p') \<and> (0 < k \<longrightarrow> lTime p' = max c (lTime p) + k)"
proof (induction k arbitrary: p)
  case 0
  then show ?case by simp
next
  case (Suc k)
  let ?p1 = "port_sample (int (max c (lTime p)) - int c) (catch_up c p)\<lparr>lTime := max c (lTime p) + 1\<rparr>"
  have n: "FullyPipe_nextSlot c p = Some (max c (lTime p), ?p1)"
    by (simp add: FullyPipe_nextSlot_def FullyPipe_calcNextSlot_def Let_def max_def)
  have m: "max c (lTime ?p1) = max c (lTime p) + 1" by simp
  obtain p' where p': "slots FullyPipe_nextSlot (replicate k c) ?p1 =
      Some (map (\<lambda>i. max c (lTime ?p1) + i) [0..<k], p')"
      "0 < k \<longrightarrow> lTime p' = max c (lTime ?p1) + k"
    using Suc.IH [of ?p1] by blast
  have up: "map (\<lambda>i. max c (lTime p) + i) [0..<Suc k] =
      max c (lTime p) # map (\<lambda>i. max c (lTime p) + 1 + i) [0..<k]"
    by (simp add: upt_conv_Cons map_Suc_upt [symmetric] del: upt_Suc)
  have "k = 0 \<Longrightarrow> p' = ?p1" using p'(1) by simp
  then have "lTime p' = max c (lTime p) + Suc k" using p'(2) unfolding m by (cases k) auto
  then show ?case using p'(1) unfolding m by (simp add: n up del: upt_Suc)
qed

lemma Pipe_slots:
  "\<exists>p'. slots Pipe_nextSlot (replicate k c) p =
     Some (map (\<lambda>i. max c (lTime p) + i * pp_ocp p) [0..<k], p') \<and>
     (0 < k \<longrightarrow> lTime p' = max c (lTime p) + k * pp_ocp p) \<and> pp_ocp p' = pp_ocp p"
proof (induction k arbitrary: p)
  case 0
  then show ?case by simp
next
  case (Suc k)
  let ?p1 = "port_sample (int (max c (lTime p)) - int c)
      ((catch_up c p)\<lparr>lTime := max c (lTime p) + pp_ocp p\<rparr>)"
  have n: "Pipe_nextSlot c p = Some (max c (lTime p), ?p1)"
    by (simp add: Pipe_nextSlot_def Pipe_calcNextSlot_def Let_def max_def)
  have m: "max c (lTime ?p1) = max c (lTime p) + pp_ocp p" "pp_ocp ?p1 = pp_ocp p"
    by (simp_all add: port_sample_def)
  obtain p' where p': "slots Pipe_nextSlot (replicate k c) ?p1 =
      Some (map (\<lambda>i. max c (lTime ?p1) + i * pp_ocp ?p1) [0..<k], p')"
      "0 < k \<longrightarrow> lTime p' = max c (lTime ?p1) + k * pp_ocp ?p1" "pp_ocp p' = pp_ocp ?p1"
    using Suc.IH [of ?p1] by blast
  have up: "map (\<lambda>i. max c (lTime p) + i * pp_ocp p) [0..<Suc k] =
      max c (lTime p) # map (\<lambda>i. max c (lTime p) + pp_ocp p + i * pp_ocp p) [0..<k]"
    by (simp add: upt_conv_Cons map_Suc_upt [symmetric] del: upt_Suc)
  have "k = 0 \<Longrightarrow> p' = ?p1" using p'(1) by simp
  then have "lTime p' = max c (lTime p) + Suc k * pp_ocp p" using p'(2) unfolding m by (cases k) auto
  then show ?case using p'(1,3) unfolding m by (simp add: n up del: upt_Suc)
qed

text \<open>\<open>PortNPipe\<close> does not sample the wait while \<open>doStats\<close> is off.\<close>

lemma NPipe_quiet:
  assumes "NPipe_nextSlot c p = Some (t, p')" "\<not> doStats p"
  shows "avgTime p' = avgTime p \<and> \<not> doStats p'"
  using assms by (auto simp: NPipe_nextSlot_def NPipe_nextSlot_occ_def NPipe_sample_def Let_def
      split: if_splits sum.splits prod.splits)

lemma NPipe_moreSlots_quiet:
  "NPipe_moreSlots c k p = Some p' \<Longrightarrow> \<not> doStats p \<Longrightarrow> avgTime p' = avgTime p"
proof (induction k arbitrary: p)
  case 0
  then show ?case by simp
next
  case (Suc k)
  then obtain t p1 where p1: "NPipe_nextSlot c p = Some (t, p1)" "NPipe_moreSlots c k p1 = Some p'"
    by (auto split: option.splits)
  then show ?case using NPipe_quiet [OF p1(1) Suc.prems(2)] Suc.IH [OF p1(2)] by simp
qed

lemma NPipe_slots_defined:
  "npipe_ok p \<Longrightarrow> \<exists>p'. NPipe_moreSlots c k p = Some p'"
proof (induction k arbitrary: p)
  case 0
  then show ?case by simp
next
  case (Suc k)
  then show ?case using npipe.nextSlot_law [OF Suc.prems, of c] by auto
qed

lemma NPipe_occupy_sample:
  assumes "npipe_ok p"
  shows "\<exists>t p'. NPipe_occupySlots c nSlots p = Some (t, p') \<and>
    ga_data (avgTime p') = ga_data (avgTime p) + (int (portBusyUntil p ! 0) - int c) \<and>
    ga_nData (avgTime p') = ga_nData (avgTime p) + 1"
proof -
  let ?p1 = "port_sample (int (portBusyUntil p ! 0) - int c) p\<lparr>doStats := False\<rparr>"
  have ok: "npipe_ok ?p1" using assms by (simp add: npipe_ok_def port_sample_def)
  obtain t p2 where p2: "NPipe_nextSlot c ?p1 = Some (t, p2)" "npipe_ok p2"
    using npipe.nextSlot_law [OF ok, of c] by blast
  obtain p3 where p3: "NPipe_moreSlots c (nSlots - 1) p2 = Some p3"
    using NPipe_slots_defined [OF p2(2)] by blast
  have q: "avgTime p2 = avgTime ?p1" "\<not> doStats p2" using NPipe_quiet [OF p2(1)] by simp_all
  have "avgTime p3 = avgTime ?p1" using NPipe_moreSlots_quiet [OF p3 q(2)] q(1) by simp
  then show ?thesis using p2 p3
    by (auto simp: NPipe_occupySlots_def port_sample_def GStatsAvg_sample_def)
qed

text \<open>After \<open>lock4nCycles\<close> no slot is free before the locked cycles are over.\<close>

lemma NPipe_lock:
  assumes "npipe_ok p"
  shows "c + clks \<le> NPipe_calcNextSlot c (NPipe_lock4nCycles c clks p)"
proof -
  let ?p = "NPipe_lock4nCycles c clks p"
  have ok: "npipe_ok ?p" using assms by (simp add: npipe_ok_def NPipe_lock4nCycles_def Let_def)
  have c: "c \<le> NPipe_calcNextSlot c p" by (simp add: NPipe_calcNextSlot_def Let_def)
  have "c + clks \<le> b" if "b \<in># mset (portBusyUntil ?p)" for b
    using that c by (auto simp: NPipe_lock4nCycles_def Let_def split: if_splits)
  moreover have "mset (portBusyUntil ?p) \<noteq> {#}" using ok by (auto simp: npipe_ok_def)
  ultimately show ?thesis unfolding npipe_calc [OF ok]
    by (subst Min_ge_iff) (auto simp: le_max_iff_disj)
qed

end
