(* ===== verification/Cache_Model.thy ===== *)
theory Cache_Model
  imports Snippets_Model
begin

text \<open>
  The cache core of libsuc/CacheCore.h and CacheCore.cpp: the geometry of a set-associative
  cache (\<open>CacheGeneric\<close>), the associative cache \<open>CacheAssoc\<close>, which keeps every set in order
  of use, and the direct-mapped cache \<open>CacheDM\<close>.

  The class is a template over the state of a line. What the template needs from it is the
  record \<open>line_ops\<close>, a parameter of the operations; \<open>StateGeneric\<close> is the instance of
  CacheCore.h. \<open>mem\<close> is the array of lines, and a pointer to a line is its index in \<open>mem\<close>;
  \<open>content\<close> is the array of pointers that the operations permute. Addresses and the numbers
  of the geometry are \<open>ulong\<close>, naturals below \<open>2 ^ 64\<close>.
\<close>

subsection \<open>The template parameter\<close>

record 'l line_ops =
  getTag :: "'l \<Rightarrow> nat"
  setTag :: "nat \<Rightarrow> 'l \<Rightarrow> 'l option"
  isValid :: "'l \<Rightarrow> bool"
  isLocked :: "'l \<Rightarrow> bool"
  initialize :: "'l \<Rightarrow> 'l"
  invalidate :: "'l \<Rightarrow> 'l"

text \<open>\<open>StateGeneric\<close>: the tag is the whole state, and zero means invalid.\<close>

definition StateGeneric :: "nat line_ops" where
  "StateGeneric = \<lparr>getTag = (\<lambda>l. l), setTag = (\<lambda>a l. do { I_check (a \<noteq> 0); Some a }),
     isValid = (\<lambda>l. l \<noteq> 0), isLocked = (\<lambda>_. False), initialize = (\<lambda>_. 0), invalidate = (\<lambda>_. 0)\<rparr>"

text \<open>The build: \<open>Energy\<close> is the template argument, \<open>SESC_SMP\<close> the macro.\<close>

record build =
  Energy :: bool
  SESC_SMP :: bool

subsection \<open>Geometry\<close>

record geometry =
  g_size :: nat
  lineSize :: nat
  addrUnit :: nat
  assoc :: nat
  log2Assoc :: nat
  log2AddrLs :: nat
  maskAssoc :: nat
  sets :: nat
  maskSets :: nat
  numLines :: nat

definition geometry_new :: "nat \<Rightarrow> nat \<Rightarrow> nat \<Rightarrow> nat \<Rightarrow> geometry option" where
  "geometry_new s a b u = do {
     la \<leftarrow> log2i (of_nat a);
     ls \<leftarrow> log2i (of_nat (b div u));
     Some \<lparr>g_size = s, lineSize = b, addrUnit = u, assoc = a, log2Assoc = unat la,
       log2AddrLs = unat ls, maskAssoc = u64 (int a - 1), sets = (s div b) div a,
       maskSets = u64 (int ((s div b) div a) - 1), numLines = s div b\<rparr> }"

definition calcTag :: "'a geometry_scheme \<Rightarrow> nat \<Rightarrow> nat" where
  "calcTag g addr = drop_bit (log2AddrLs g) addr"

definition calcSet4Tag :: "'a geometry_scheme \<Rightarrow> nat \<Rightarrow> nat" where
  "calcSet4Tag g tag = tag AND maskSets g"

definition calcSet4Addr :: "'a geometry_scheme \<Rightarrow> nat \<Rightarrow> nat" where
  "calcSet4Addr g addr = calcSet4Tag g (calcTag g addr)"

definition calcIndex4Set :: "'a geometry_scheme \<Rightarrow> nat \<Rightarrow> nat" where
  "calcIndex4Set g st = take_bit 64 (push_bit (log2Assoc g) st)"

definition calcIndex4Tag :: "'a geometry_scheme \<Rightarrow> nat \<Rightarrow> nat" where
  "calcIndex4Tag g tag = calcIndex4Set g (calcSet4Tag g tag)"

definition calcIndex4Addr :: "'a geometry_scheme \<Rightarrow> nat \<Rightarrow> nat" where
  "calcIndex4Addr g addr = calcIndex4Set g (calcSet4Addr g addr)"

definition calcAddr4Tag :: "'a geometry_scheme \<Rightarrow> nat \<Rightarrow> nat" where
  "calcAddr4Tag g tag = take_bit 64 (push_bit (log2AddrLs g) tag)"

subsection \<open>State of a cache\<close>

datatype policy = LRU | RANDOM

record 'l cache = geometry +
  mem :: "'l list"
  content :: "nat list"
  irand :: nat
  repl_policy :: policy
  goodInterface :: bool

abbreviation line_at :: "'l cache \<Rightarrow> nat \<Rightarrow> 'l" where
  "line_at c l \<equiv> mem c ! (content c ! l)"

definition tolower :: "char \<Rightarrow> char" where
  "tolower ch = (let n = (of_char ch :: nat) in if 65 \<le> n \<and> n \<le> 90 then char_of (n + 32) else ch)"

definition parse_policy :: "string \<Rightarrow> policy option" where
  "parse_policy pStr =
     (if map tolower pStr = map tolower ''RANDOM'' then Some RANDOM
      else if map tolower pStr = map tolower ''LRU'' then Some LRU
      else None)"

text \<open>The lines of \<open>new Line[numLines + 1]\<close> start with arbitrary contents \<open>junk\<close>.\<close>

definition init_lines :: "'l line_ops \<Rightarrow> nat \<Rightarrow> 'l list \<Rightarrow> 'l list" where
  "init_lines S n junk = map (\<lambda>l. invalidate S (initialize S l)) (take n junk) @ drop n junk"

definition CacheAssoc_new :: "'l line_ops \<Rightarrow> 'l list \<Rightarrow> nat \<Rightarrow> nat \<Rightarrow> nat \<Rightarrow> nat \<Rightarrow> string \<Rightarrow> 'l cache option" where
  "CacheAssoc_new S junk s a b u pStr = do {
     g \<leftarrow> geometry_new s a b u;
     I_check (0 < numLines g);
     pol \<leftarrow> parse_policy pStr;
     Some (geometry.extend g
       \<lparr>mem = init_lines S (numLines g) junk, content = [0..<numLines g], irand = 0,
        repl_policy = pol, goodInterface = False\<rparr>) }"

definition CacheDM_new :: "'l line_ops \<Rightarrow> 'l list \<Rightarrow> nat \<Rightarrow> nat \<Rightarrow> nat \<Rightarrow> 'l cache option" where
  "CacheDM_new S junk s b u = do {
     g \<leftarrow> geometry_new s 1 b u;
     I_check (0 < numLines g);
     Some (geometry.extend g
       \<lparr>mem = init_lines S (numLines g) junk, content = [0..<numLines g], irand = 0,
        repl_policy = LRU, goodInterface = False\<rparr>) }"

subsection \<open>CacheAssoc: searching a set\<close>

text \<open>The loop that moves the pointers \<open>theSet .. l - 1\<close> up by one position.\<close>

fun shift_up :: "nat list \<Rightarrow> nat \<Rightarrow> nat \<Rightarrow> nat list" where
  "shift_up ct theSet 0 = ct"
| "shift_up ct theSet (Suc l) =
     (if theSet < Suc l then shift_up (ct[Suc l := ct ! l]) theSet l else ct)"

text \<open>Moves the pointer at \<open>l\<close> to the front of its set.\<close>

definition move_to_front :: "nat list \<Rightarrow> nat \<Rightarrow> nat \<Rightarrow> nat list" where
  "move_to_front ct theSet l = (let tmp = ct ! l in (shift_up ct theSet l)[theSet := tmp])"

text \<open>The forward scan for a tag, from \<open>l\<close> over \<open>k\<close> positions.\<close>

fun scan_tag :: "'l line_ops \<Rightarrow> 'l cache \<Rightarrow> nat \<Rightarrow> nat \<Rightarrow> nat \<Rightarrow> nat option" where
  "scan_tag S c tag l 0 = None"
| "scan_tag S c tag l (Suc k) =
     (if getTag S (line_at c l) = tag then Some l else scan_tag S c tag (Suc l) k)"

definition Assoc_findLineTag ::
  "build \<Rightarrow> 'l line_ops \<Rightarrow> 'l cache \<Rightarrow> nat \<Rightarrow> (nat option \<times> 'l cache) option" where
  "Assoc_findLineTag B S c tag = do {
     I_check (Energy B \<longrightarrow> goodInterface c);
     let theSet = calcIndex4Tag c tag;
     if getTag S (line_at c theSet) = tag then do {
       I_check (\<not> SESC_SMP B \<longrightarrow> isValid S (line_at c theSet));
       Some (Some (content c ! theSet), c) }
     else
       (case scan_tag S c tag (theSet + 1) (assoc c - 1) of
          None \<Rightarrow> Some (None, c)
        | Some lineHit \<Rightarrow> do {
            I_check (isValid S (line_at c lineHit));
            Some (Some (content c ! lineHit),
                  c\<lparr>content := move_to_front (content c) theSet lineHit\<rparr>) }) }"

subsection \<open>CacheAssoc: choosing a victim\<close>

text \<open>
  The backward scan over positions \<open>theSet + k - 1 .. theSet\<close>: the line with the tag, if
  any, and the preferred victim, the youngest invalid line or else the oldest line that is
  not locked.
\<close>

fun scan_free ::
  "'l line_ops \<Rightarrow> 'l cache \<Rightarrow> nat \<Rightarrow> nat \<Rightarrow> nat \<Rightarrow> nat option \<Rightarrow> (nat option \<times> nat option) option" where
  "scan_free S c tag theSet 0 lineFree = Some (None, lineFree)"
| "scan_free S c tag theSet (Suc k) lineFree =
     (let l = theSet + k; x = line_at c l in
      if getTag S x = tag then Some (Some l, lineFree)
      else do {
        let lineFree' = (if \<not> isValid S x then Some l
                         else if lineFree = None \<and> \<not> isLocked S x then Some l
                         else lineFree);
        I_check (\<not> isValid S x \<longrightarrow> \<not> isLocked S x);
        scan_free S c tag theSet k lineFree' })"

text \<open>The choice after the scan, and the new value of \<open>irand\<close>.\<close>

definition pick_victim ::
  "'l line_ops \<Rightarrow> 'l cache \<Rightarrow> nat \<Rightarrow> nat option \<Rightarrow> bool \<Rightarrow> nat \<times> nat" where
  "pick_victim S c theSet lineFree ignoreLocked =
     (let rnd = (theSet + irand c, (irand c + 1) AND maskAssoc c) in
      case lineFree of
        None \<Rightarrow> if repl_policy c = RANDOM then rnd else (theSet + assoc c - 1, irand c)
      | Some l \<Rightarrow>
          if ignoreLocked \<and> repl_policy c = RANDOM \<and> isValid S (line_at c l) then rnd
          else (l, irand c))"

definition Assoc_findLine2Replace ::
  "'l line_ops \<Rightarrow> 'l cache \<Rightarrow> nat \<Rightarrow> bool \<Rightarrow> (nat option \<times> 'l cache) option" where
  "Assoc_findLine2Replace S c addr ignoreLocked = do {
     let tag = calcTag c addr;
     let theSet = calcIndex4Tag c tag;
     if getTag S (line_at c theSet) = tag then do {
       I_check (tag \<noteq> 0 \<longrightarrow> isValid S (line_at c theSet));
       Some (Some (content c ! theSet), c) }
     else do {
       (lineHit, lineFree) \<leftarrow> scan_free S c tag theSet (assoc c) None;
       I_check (\<forall>l. lineFree = Some l \<longrightarrow> \<not> isValid S (line_at c l) \<or> \<not> isLocked S (line_at c l));
       case lineHit of
         Some l \<Rightarrow> Some (Some (content c ! l), c)
       | None \<Rightarrow>
           if lineFree = None \<and> \<not> ignoreLocked then Some (None, c)
           else do {
             let (l, ir) = pick_victim S c theSet lineFree ignoreLocked;
             let c1 = c\<lparr>irand := ir\<rparr>;
             I_check (\<not> ignoreLocked \<longrightarrow> \<not> isValid S (line_at c1 l) \<or> \<not> isLocked S (line_at c1 l));
             if l = theSet then Some (Some (content c1 ! l), c1)
             else Some (Some (content c1 ! l),
                        c1\<lparr>content := move_to_front (content c1) theSet l\<rparr>) } } }"

subsection \<open>CacheDM\<close>

definition DM_findLineTag ::
  "build \<Rightarrow> 'l line_ops \<Rightarrow> 'l cache \<Rightarrow> nat \<Rightarrow> (nat option \<times> 'l cache) option" where
  "DM_findLineTag B S c tag = do {
     I_check (Energy B \<longrightarrow> goodInterface c);
     let l = calcIndex4Tag c tag;
     if getTag S (line_at c l) = tag then do {
       I_check (isValid S (line_at c l));
       Some (Some (content c ! l), c) }
     else Some (None, c) }"

definition DM_findLine2Replace ::
  "'l line_ops \<Rightarrow> 'l cache \<Rightarrow> nat \<Rightarrow> bool \<Rightarrow> (nat option \<times> 'l cache) option" where
  "DM_findLine2Replace S c addr ignoreLocked = do {
     let tag = calcTag c addr;
     let l = calcIndex4Tag c tag;
     if ignoreLocked then Some (Some (content c ! l), c)
     else if getTag S (line_at c l) = tag then do {
       I_check (tag \<noteq> 0 \<longrightarrow> isValid S (line_at c l));
       Some (Some (content c ! l), c) }
     else if isLocked S (line_at c l) then Some (None, c)
     else Some (Some (content c ! l), c) }"

subsection \<open>CacheGeneric: what the users of a cache call\<close>

text \<open>
  The operations of the base class, over the two virtual functions \<open>fnd\<close>
  (\<open>findLineTag\<close>) and \<open>repl\<close> (\<open>findLine2Replace\<close>) of the subclass.
\<close>

definition cache_findLine ::
  "('l cache \<Rightarrow> nat \<Rightarrow> (nat option \<times> 'l cache) option) \<Rightarrow> 'l cache \<Rightarrow> nat \<Rightarrow> (nat option \<times> 'l cache) option" where
  "cache_findLine fnd c addr = fnd c (calcTag c addr)"

definition cache_findLineDebug ::
  "('l cache \<Rightarrow> nat \<Rightarrow> (nat option \<times> 'l cache) option) \<Rightarrow> 'l cache \<Rightarrow> nat \<Rightarrow> (nat option \<times> 'l cache) option" where
  "cache_findLineDebug fnd c addr = do {
     (l, c1) \<leftarrow> cache_findLine fnd (c\<lparr>goodInterface := True\<rparr>) addr;
     Some (l, c1\<lparr>goodInterface := False\<rparr>) }"

definition cache_readLine ::
  "('l cache \<Rightarrow> nat \<Rightarrow> (nat option \<times> 'l cache) option) \<Rightarrow> 'l cache \<Rightarrow> nat \<Rightarrow> (nat option \<times> 'l cache) option" where
  "cache_readLine fnd c addr = do {
     let tag = calcTag c addr;
     (l, c1) \<leftarrow> fnd (c\<lparr>goodInterface := True\<rparr>) tag;
     Some (l, c1\<lparr>goodInterface := False\<rparr>) }"

definition cache_findLineTagNoEffect ::
  "('l cache \<Rightarrow> nat \<Rightarrow> (nat option \<times> 'l cache) option) \<Rightarrow> 'l cache \<Rightarrow> nat \<Rightarrow> (nat option \<times> 'l cache) option" where
  "cache_findLineTagNoEffect fnd c addr = do {
     (l, c1) \<leftarrow> cache_findLine fnd (c\<lparr>goodInterface := True\<rparr>) addr;
     Some (l, c1\<lparr>goodInterface := False\<rparr>) }"

definition cache_writeLine ::
  "('l cache \<Rightarrow> nat \<Rightarrow> (nat option \<times> 'l cache) option) \<Rightarrow> 'l cache \<Rightarrow> nat \<Rightarrow> (nat option \<times> 'l cache) option" where
  "cache_writeLine fnd c addr = do {
     let tag = calcTag c addr;
     (l, c1) \<leftarrow> fnd (c\<lparr>goodInterface := True\<rparr>) tag;
     Some (l, c1\<lparr>goodInterface := False\<rparr>) }"

text \<open>\<open>fillLine(addr)\<close>, which does not report the displaced address.\<close>

definition cache_fillLine1 ::
  "'l line_ops \<Rightarrow> ('l cache \<Rightarrow> nat \<Rightarrow> bool \<Rightarrow> (nat option \<times> 'l cache) option) \<Rightarrow>
   'l cache \<Rightarrow> nat \<Rightarrow> (nat option \<times> 'l cache) option" where
  "cache_fillLine1 S repl c addr = do {
     (r, c1) \<leftarrow> repl c addr False;
     case r of
       None \<Rightarrow> Some (None, c1)
     | Some i \<Rightarrow> do {
         x' \<leftarrow> setTag S (calcTag c1 addr) (mem c1 ! i);
         Some (Some i, c1\<lparr>mem := (mem c1)[i := x']\<rparr>) } }"

text \<open>\<open>fillLine(addr, rplcAddr, ignoreLocked)\<close>: the line and the address that it displaced.\<close>

definition cache_fillLine ::
  "'l line_ops \<Rightarrow> ('l cache \<Rightarrow> nat \<Rightarrow> bool \<Rightarrow> (nat option \<times> 'l cache) option) \<Rightarrow>
   'l cache \<Rightarrow> nat \<Rightarrow> bool \<Rightarrow> (nat option \<times> nat \<times> 'l cache) option" where
  "cache_fillLine S repl c addr ignoreLocked = do {
     (r, c1) \<leftarrow> repl c addr ignoreLocked;
     case r of
       None \<Rightarrow> Some (None, 0, c1)
     | Some i \<Rightarrow> do {
         let newTag = calcTag c1 addr;
         let x = mem c1 ! i;
         let rplcAddr = (if isValid S x \<and> getTag S x \<noteq> newTag then calcAddr4Tag c1 (getTag S x) else 0);
         x' \<leftarrow> setTag S newTag x;
         Some (Some i, rplcAddr, c1\<lparr>mem := (mem c1)[i := x']\<rparr>) } }"

definition cache_getPLine :: "'l cache \<Rightarrow> nat \<Rightarrow> nat option" where
  "cache_getPLine c l = do { I_check (l < numLines c); Some (content c ! l) }"

text \<open>\<open>create\<close> chooses the subclass; the virtual functions are dispatched on it.\<close>

datatype cache_class = CacheDM | CacheAssoc

definition cache_create ::
  "'l line_ops \<Rightarrow> 'l list \<Rightarrow> nat \<Rightarrow> nat \<Rightarrow> nat \<Rightarrow> nat \<Rightarrow> string \<Rightarrow> (cache_class \<times> 'l cache) option" where
  "cache_create S junk sz assc bsize addrUnt pStr =
     (if assc = 1 then map_option (Pair CacheDM) (CacheDM_new S junk sz bsize addrUnt)
      else map_option (Pair CacheAssoc) (CacheAssoc_new S junk sz assc bsize addrUnt pStr))"

definition findLineTag ::
  "cache_class \<Rightarrow> build \<Rightarrow> 'l line_ops \<Rightarrow> 'l cache \<Rightarrow> nat \<Rightarrow> (nat option \<times> 'l cache) option" where
  "findLineTag k B S = (case k of CacheDM \<Rightarrow> DM_findLineTag B S | CacheAssoc \<Rightarrow> Assoc_findLineTag B S)"

definition findLine2Replace ::
  "cache_class \<Rightarrow> 'l line_ops \<Rightarrow> 'l cache \<Rightarrow> nat \<Rightarrow> bool \<Rightarrow> (nat option \<times> 'l cache) option" where
  "findLine2Replace k S =
     (case k of CacheDM \<Rightarrow> DM_findLine2Replace S | CacheAssoc \<Rightarrow> Assoc_findLine2Replace S)"

end
