(* ===== verification/Cache_Correct.thy ===== *)
theory Cache_Correct
  imports Cache_Model Snippets_Correct
begin

text \<open>
  The geometry of a cache, the order of the lines of a set, and what the searches of
  \<open>CacheAssoc\<close> do to it: a hit moves its line to the front of its set, a miss chooses the
  youngest invalid line or else the oldest line that is not locked. \<open>CacheDM\<close> is the
  associative cache with one line per set.
\<close>

subsection \<open>Geometry\<close>

definition geom_ok :: "'a geometry_scheme \<Rightarrow> bool" where
  "geom_ok g = (\<exists>ka ks. assoc g = 2 ^ ka \<and> log2Assoc g = ka \<and> maskAssoc g = 2 ^ ka - 1 \<and>
     sets g = 2 ^ ks \<and> maskSets g = 2 ^ ks - 1 \<and> numLines g = sets g * assoc g \<and>
     numLines g < 2 ^ 64 \<and> log2AddrLs g < 64)"

lemma geometry_new_ok:
  assumes "s = 2 ^ i" "a = 2 ^ j" "b = 2 ^ k" "u = 2 ^ l" and "l \<le> k" "j + k \<le> i" "i < 64"
  shows "\<exists>g. geometry_new s a b u = Some g \<and> geom_ok g \<and> assoc g = 2 ^ j \<and> sets g = 2 ^ (i - k - j) \<and>
    log2AddrLs g = k - l \<and> numLines g = 2 ^ (i - k)"
proof -
  have bu: "b div u = 2 ^ (k - l)" using assms by (simp add: power_diff)
  have sb: "s div b = 2 ^ (i - k)" using assms by (simp add: power_diff)
  have "(2::nat) ^ (i - k) div 2 ^ j = 2 ^ (i - k - j)"
    using assms by (intro power_diff [symmetric]) simp_all
  then have sba: "(s div b) div a = 2 ^ (i - k - j)" using assms(2) sb by simp
  have la: "log2i (of_nat a) = Some (of_nat j)" using log2i_pow2 [of j] assms by simp
  define lg where "lg = (of_nat (k - l) :: 16 word)"
  have lg: "unat lg = k - l" unfolding lg_def using assms by (intro unat_log2i) simp
  have ls: "log2i (of_nat (b div u)) = Some lg"
    unfolding lg_def using log2i_pow2 [of "k - l"] assms(6,7) bu by (simp add: less_imp_diff_less)
  have pow: "(2::nat) ^ n - 1 < 18446744073709551616" "0 < (2::nat) ^ n"  if "n < 64" for n
    using power_strict_increasing [OF that, of "2::nat"] by simp_all
  have m: "u64 (int (2 ^ n) - 1) = 2 ^ n - 1" if "n < 64" for n
  proof -
    have "int (2 ^ n) - 1 = int (2 ^ n - 1)" using pow [OF that] by (simp add: of_nat_diff)
    then show ?thesis using pow [OF that] by (simp only: u64_of_nat)
  qed
  have ex: "2 ^ (i - k) = 2 ^ (i - k - j) * (2::nat) ^ j" using assms by (simp flip: power_add)
  have "2 ^ (i - k) < (2::nat) ^ 64" using assms by (intro power_strict_increasing) simp_all
  then show ?thesis
    using assms la ls lg sb sba ex m [of j] m [of "i - k - j"]
    by (simp add: geometry_new_def geom_ok_def unat_log2i)
qed

lemma index_eq:
  assumes "geom_ok g"
  shows "calcIndex4Tag g tag = tag mod sets g * assoc g"
    and "calcIndex4Tag g tag + assoc g \<le> numLines g"
proof -
  obtain ka ks where g: "assoc g = 2 ^ ka" "log2Assoc g = ka" "sets g = 2 ^ ks" "maskSets g = 2 ^ ks - 1"
      "numLines g = sets g * assoc g" "numLines g < 2 ^ 64"
    using assms by (auto simp: geom_ok_def)
  have "tag mod sets g < sets g" using g by simp
  then have "tag mod sets g + 1 \<le> sets g" by simp
  from mult_le_mono1 [OF this, of "assoc g"]
  have le: "tag mod sets g * assoc g + assoc g \<le> numLines g" by (simp add: g(5) distrib_right)
  moreover have "0 < assoc g" using g by simp
  ultimately have "tag mod sets g * assoc g < 2 ^ 64" using g(6) by linarith
  then show eq: "calcIndex4Tag g tag = tag mod sets g * assoc g"
    using g by (simp add: calcIndex4Tag_def calcIndex4Set_def calcSet4Tag_def push_bit_eq_mult
        take_bit_nat_eq_self_iff)
  show "calcIndex4Tag g tag + assoc g \<le> numLines g" using le eq by simp
qed

lemma assoc_pos [simp]: "geom_ok g \<Longrightarrow> 0 < assoc g"
  by (auto simp: geom_ok_def)

lemma geom_ok_frame [simp]:
  "geom_ok (c\<lparr>content := x\<rparr>) = geom_ok c" "geom_ok (c\<lparr>irand := n\<rparr>) = geom_ok c"
  "geom_ok (c\<lparr>mem := m\<rparr>) = geom_ok c" "geom_ok (c\<lparr>goodInterface := b\<rparr>) = geom_ok c"
  by (simp_all add: geom_ok_def)

lemma calc_frame [simp]:
  "calcTag (c\<lparr>content := x\<rparr>) = calcTag c" "calcIndex4Tag (c\<lparr>content := x\<rparr>) = calcIndex4Tag c"
  "calcTag (c\<lparr>irand := n\<rparr>) = calcTag c" "calcIndex4Tag (c\<lparr>irand := n\<rparr>) = calcIndex4Tag c"
  "calcTag (c\<lparr>mem := m\<rparr>) = calcTag c" "calcIndex4Tag (c\<lparr>mem := m\<rparr>) = calcIndex4Tag c"
  "calcTag (c\<lparr>goodInterface := b\<rparr>) = calcTag c"
  "calcIndex4Tag (c\<lparr>goodInterface := b\<rparr>) = calcIndex4Tag c"
  by (simp_all add: calcTag_def calcIndex4Tag_def calcIndex4Set_def calcSet4Tag_def fun_eq_iff)

text \<open>Addresses and tags.\<close>

lemma addr_of_tag:
  assumes "log2AddrLs g < 64" "addr < 2 ^ 64"
  shows "calcAddr4Tag g (calcTag g addr) = addr - addr mod 2 ^ log2AddrLs g"
proof -
  have eq: "push_bit (log2AddrLs g) (drop_bit (log2AddrLs g) addr) = addr - addr mod 2 ^ log2AddrLs g"
    by (simp add: push_bit_eq_mult drop_bit_eq_div minus_mod_eq_div_mult)
  moreover have "addr - addr mod 2 ^ log2AddrLs g < 2 ^ 64" using assms(2) by simp
  ultimately show ?thesis
    by (simp add: calcAddr4Tag_def calcTag_def take_bit_nat_eq_self)
qed

lemma tag_of_addr:
  assumes "log2AddrLs g < 64" "tag < 2 ^ (64 - log2AddrLs g)"
  shows "calcTag g (calcAddr4Tag g tag) = tag"
proof -
  have "tag * 2 ^ log2AddrLs g < 2 ^ (64 - log2AddrLs g) * 2 ^ log2AddrLs g"
    using assms(2) by simp
  also have "\<dots> = 2 ^ 64" using assms(1) by (simp flip: power_add)
  finally show ?thesis
    by (simp add: calcAddr4Tag_def calcTag_def push_bit_eq_mult take_bit_nat_eq_self drop_bit_eq_div)
qed

subsection \<open>The order of a set\<close>

text \<open>The lines of the set that starts at \<open>b\<close>, the most recently used one first.\<close>

definition ways :: "'l cache \<Rightarrow> nat \<Rightarrow> nat list" where
  "ways c b = take (assoc c) (drop b (content c))"

lemma nth_ways: "b + assoc c \<le> length (content c) \<Longrightarrow> i < assoc c \<Longrightarrow> ways c b ! i = content c ! (b + i)"
  by (simp add: ways_def)

lemma length_ways: "b + assoc c \<le> length (content c) \<Longrightarrow> length (ways c b) = assoc c"
  by (simp add: ways_def)

lemma shift_up_length: "length (shift_up ct b l) = length ct"
  by (induction ct b l rule: shift_up.induct) simp_all

lemma shift_up_nth:
  "b \<le> l \<Longrightarrow> l < length ct \<Longrightarrow>
   shift_up ct b l ! i = (if b < i \<and> i \<le> l then ct ! (i - 1) else ct ! i)"
proof (induction ct b l rule: shift_up.induct)
  case (1 ct b)
  then show ?case by simp
next
  case (2 ct b l)
  show ?case
  proof (cases "b < Suc l")
    case True
    then show ?thesis using 2 by (auto simp: nth_list_update le_Suc_eq)
  next
    case False
    then show ?thesis using 2 by auto
  qed
qed

lemma shift_up_same: "shift_up ct b b = ct"
  by (cases b) simp_all

lemma move_to_front_nth:
  assumes "b \<le> l" "l < length ct"
  shows "move_to_front ct b l ! i =
    (if i = b then ct ! l else if b < i \<and> i \<le> l then ct ! (i - 1) else ct ! i)"
    and "length (move_to_front ct b l) = length ct"
proof -
  show "length (move_to_front ct b l) = length ct"
    by (simp add: move_to_front_def shift_up_length)
  have "i = b \<Longrightarrow> (shift_up ct b l)[b := ct ! l] ! i = ct ! l"
    using assms by (simp add: shift_up_length)
  then show "move_to_front ct b l ! i =
    (if i = b then ct ! l else if b < i \<and> i \<le> l then ct ! (i - 1) else ct ! i)"
    using assms by (simp add: move_to_front_def shift_up_nth)
qed

text \<open>The reference: position \<open>k\<close> of a list goes to the front.\<close>

definition to_front :: "nat \<Rightarrow> 'a list \<Rightarrow> 'a list" where
  "to_front k xs = xs ! k # take k xs @ drop (Suc k) xs"

lemma to_front_mset: "k < length xs \<Longrightarrow> mset (to_front k xs) = mset xs"
  using arg_cong [OF id_take_nth_drop [of k xs], of mset] by (simp add: to_front_def)

lemma to_front_set: "k < length xs \<Longrightarrow> set (to_front k xs) = set xs"
  using to_front_mset [of k xs] by (metis set_mset_mset)

lemma to_front_nth:
  "k < length xs \<Longrightarrow> i < length xs \<Longrightarrow>
   to_front k xs ! i = (if i = 0 then xs ! k else if i \<le> k then xs ! (i - 1) else xs ! i)"
  by (cases i) (auto simp: to_front_def nth_append min_def)

lemma to_front_remove1: "distinct xs \<Longrightarrow> k < length xs \<Longrightarrow> to_front k xs = xs ! k # remove1 (xs ! k) xs"
proof -
  assume d: "distinct xs" "k < length xs"
  have eq: "xs = take k xs @ xs ! k # drop (Suc k) xs" using d(2) by (rule id_take_nth_drop)
  then have "distinct (take k xs @ xs ! k # drop (Suc k) xs)" using d(1) by simp
  then have "xs ! k \<notin> set (take k xs)" by auto
  then have "remove1 (xs ! k) (take k xs @ xs ! k # drop (Suc k) xs) = take k xs @ drop (Suc k) xs"
    by (simp add: remove1_append)
  then show ?thesis using eq by (simp add: to_front_def)
qed

lemma ways_move:
  assumes b: "b + assoc c \<le> length (content c)" and k: "k < assoc c"
  shows "ways (c\<lparr>content := move_to_front (content c) b (b + k)\<rparr>) b = to_front k (ways c b)"
proof (rule nth_equalityI)
  let ?c = "c\<lparr>content := move_to_front (content c) b (b + k)\<rparr>"
  have lk: "b + k < length (content c)" using b k by simp
  have len: "b + assoc ?c \<le> length (content ?c)" using b lk by (simp add: move_to_front_nth(2))
  show "length (ways ?c b) = length (to_front k (ways c b))"
    using len b k by (simp add: length_ways to_front_def)
  fix i
  assume "i < length (ways ?c b)"
  then have i: "i < assoc c" using len by (simp add: length_ways)
  then show "ways ?c b ! i = to_front k (ways c b) ! i"
    using len b k lk by (auto simp: nth_ways to_front_nth length_ways move_to_front_nth(1))
qed

lemma ways_move_other:
  assumes b: "b + assoc c \<le> length (content c)" and k: "k < assoc c"
    and b': "b' + assoc c \<le> length (content c)" "b' + assoc c \<le> b \<or> b + assoc c \<le> b'"
  shows "ways (c\<lparr>content := move_to_front (content c) b (b + k)\<rparr>) b' = ways c b'"
proof (rule nth_equalityI)
  let ?c = "c\<lparr>content := move_to_front (content c) b (b + k)\<rparr>"
  have lk: "b + k < length (content c)" using b k by simp
  have len: "b' + assoc ?c \<le> length (content ?c)" using b' lk by (simp add: move_to_front_nth(2))
  show "length (ways ?c b') = length (ways c b')" using len b'(1) by (simp add: length_ways)
  fix i
  assume "i < length (ways ?c b')"
  then have i: "i < assoc c" using len by (simp add: length_ways)
  then show "ways ?c b' ! i = ways c b' ! i"
    using len b' k lk by (auto simp: nth_ways move_to_front_nth(1))
qed

lemma content_move_mset:
  assumes "b + k < length ct"
  shows "mset (move_to_front ct b (b + k)) = mset ct"
proof -
  have "move_to_front ct b (b + k) = take b ct @ to_front k (drop b ct)"
  proof (rule nth_equalityI)
    show "length (move_to_front ct b (b + k)) = length (take b ct @ to_front k (drop b ct))"
      using assms by (simp add: move_to_front_nth(2) to_front_def)
    fix i
    assume "i < length (move_to_front ct b (b + k))"
    then have i: "i < length ct" using assms by (simp add: move_to_front_nth(2))
    then show "move_to_front ct b (b + k) ! i = (take b ct @ to_front k (drop b ct)) ! i"
      using assms by (auto simp: move_to_front_nth(1) nth_append to_front_nth min_def)
  qed
  then have "mset (move_to_front ct b (b + k)) = mset (take b ct) + mset (to_front k (drop b ct))"
    by simp
  also have "mset (to_front k (drop b ct)) = mset (drop b ct)"
    using assms by (intro to_front_mset) simp
  also have "mset (take b ct) + mset (drop b ct) = mset ct"
    by (metis append_take_drop_id mset_append)
  finally show ?thesis .
qed

subsection \<open>Invariant of a cache\<close>

text \<open>
  \<open>content\<close> is a permutation of the lines. A line that is not valid has tag zero and is not
  locked; a tag is kept in the set it belongs to, and at most once.
\<close>

definition lines_ok :: "'l line_ops \<Rightarrow> 'l cache \<Rightarrow> bool" where
  "lines_ok S c =
     (\<forall>x\<in>set (content c). \<not> isValid S (mem c ! x) \<longrightarrow> getTag S (mem c ! x) = 0 \<and> \<not> isLocked S (mem c ! x))"

definition home_ok :: "'l line_ops \<Rightarrow> 'l cache \<Rightarrow> bool" where
  "home_ok S c = (\<forall>l<numLines c. getTag S (line_at c l) \<noteq> 0 \<longrightarrow>
     calcIndex4Tag c (getTag S (line_at c l)) \<le> l \<and>
     l < calcIndex4Tag c (getTag S (line_at c l)) + assoc c)"

definition unique_ok :: "'l line_ops \<Rightarrow> 'l cache \<Rightarrow> bool" where
  "unique_ok S c = (\<forall>x\<in>set (content c). \<forall>y\<in>set (content c).
     getTag S (mem c ! x) = getTag S (mem c ! y) \<and> getTag S (mem c ! x) \<noteq> 0 \<longrightarrow> x = y)"

definition cache_ok :: "'l line_ops \<Rightarrow> 'l cache \<Rightarrow> bool" where
  "cache_ok S c = (geom_ok c \<and> mset (content c) = mset [0..<numLines c] \<and>
     numLines c \<le> length (mem c) \<and> irand c < assoc c \<and>
     lines_ok S c \<and> home_ok S c \<and> unique_ok S c)"

lemma cache_okD:
  assumes "cache_ok S c"
  shows "length (content c) = numLines c" "distinct (content c)" "set (content c) = {0..<numLines c}"
    "geom_ok c"
proof -
  have m: "mset (content c) = mset [0..<numLines c]" using assms by (simp add: cache_ok_def)
  from mset_eq_length [OF m] show "length (content c) = numLines c" by simp
  from mset_eq_imp_distinct_iff [OF m] show "distinct (content c)" by simp
  from mset_eq_setD [OF m] show "set (content c) = {0..<numLines c}" by simp
  show "geom_ok c" using assms by (simp add: cache_ok_def)
qed

lemma base_le: "cache_ok S c \<Longrightarrow> calcIndex4Tag c tag + assoc c \<le> length (content c)"
  using cache_okD [of S c] index_eq(2) [of c tag] by simp

lemma in_ways:
  assumes "b + assoc c \<le> length (content c)"
  shows "(x \<in> set (ways c b)) = (\<exists>k<assoc c. x = content c ! (b + k))"
  using assms by (auto simp: in_set_conv_nth length_ways nth_ways)

text \<open>The order of other sets, and the lines themselves, do not matter to the invariant.\<close>

lemma move_ok:
  assumes ok: "cache_ok S c" and k: "k < assoc c" and ir: "ir < assoc c"
  shows "cache_ok S (c\<lparr>irand := ir, content := move_to_front (content c) (calcIndex4Tag c tag)
    (calcIndex4Tag c tag + k)\<rparr>)"
proof -
  let ?b = "calcIndex4Tag c tag"
  let ?ct = "move_to_front (content c) ?b (?b + k)"
  let ?c = "c\<lparr>irand := ir, content := ?ct\<rparr>"
  note D = cache_okD [OF ok] and b = base_le [OF ok, of tag]
  have lk: "?b + k < length (content c)" using b k by simp
  have ms: "mset ?ct = mset (content c)" by (rule content_move_mset [OF lk])
  then have st: "set ?ct = set (content c)" by (metis set_mset_mset)
  have "home_ok S ?c"
    unfolding home_ok_def
  proof (intro allI impI)
    fix l
    assume l: "l < numLines ?c" and t: "getTag S (line_at ?c l) \<noteq> 0"
    have old: "j < numLines c \<Longrightarrow> getTag S (line_at c j) \<noteq> 0 \<Longrightarrow>
        calcIndex4Tag c (getTag S (line_at c j)) \<le> j \<and>
        j < calcIndex4Tag c (getTag S (line_at c j)) + assoc c" for j
      using ok by (simp add: cache_ok_def home_ok_def)
    have same: "a = ?b \<or> a + assoc c \<le> ?b \<or> ?b + assoc c \<le> a" if "a = calcIndex4Tag c t'" for a t'
    proof -
      have "a = t' mod sets c * assoc c" "?b = tag mod sets c * assoc c"
        using that index_eq(1) [OF D(4)] by simp_all
      moreover have cmp: "x = y \<or> x * n + n \<le> y * n \<or> y * n + n \<le> x * n" for x y n :: nat
      proof -
        have "x = y \<or> Suc x \<le> y \<or> Suc y \<le> x" by linarith
        then show ?thesis
          using mult_le_mono1 [of "Suc x" y n] mult_le_mono1 [of "Suc y" x n] by auto
      qed
      ultimately show ?thesis
        using cmp [of "t' mod sets c" "assoc c" "tag mod sets c"] by auto
    qed
    obtain j where j: "?ct ! l = content c ! j" "j < numLines c"
        "j = l \<or> (?b \<le> j \<and> j < ?b + assoc c \<and> ?b \<le> l \<and> l < ?b + assoc c)"
    proof -
      consider "l = ?b" | "?b < l" "l \<le> ?b + k" | "l < ?b \<or> ?b + k < l" by linarith
      then show ?thesis
      proof cases
        case 1
        then show ?thesis using that [of "?b + k"] lk D(1) k by (simp add: move_to_front_nth(1))
      next
        case 2
        then have "l - 1 < numLines c" "?b \<le> l - 1" "l - 1 < ?b + assoc c" "l < ?b + assoc c"
            "?ct ! l = content c ! (l - 1)"
          using lk D(1) k by (simp_all add: move_to_front_nth(1))
        then show ?thesis using that [of "l - 1"] 2 by simp
      next
        case 3
        then show ?thesis using that [of l] lk l by (auto simp: move_to_front_nth(1))
      qed
    qed
    have "calcIndex4Tag c (getTag S (line_at c j)) \<le> j \<and>
        j < calcIndex4Tag c (getTag S (line_at c j)) + assoc c"
      using old [OF j(2)] t j(1) by simp
    then show "calcIndex4Tag ?c (getTag S (line_at ?c l)) \<le> l \<and>
        l < calcIndex4Tag ?c (getTag S (line_at ?c l)) + assoc ?c"
      using j same [OF refl, of "getTag S (line_at c j)"] by auto
  qed
  moreover have "lines_ok S ?c" "unique_ok S ?c"
    using ok st by (simp_all add: cache_ok_def lines_ok_def unique_ok_def)
  ultimately show ?thesis using ok ms ir by (simp add: cache_ok_def)
qed

text \<open>The search for a tag sees every line of the cache that has it.\<close>

lemma tag_in_set:
  assumes ok: "cache_ok S c" and tag: "tag \<noteq> 0"
  shows "(\<exists>x\<in>set (content c). getTag S (mem c ! x) = tag) =
    (\<exists>k<assoc c. getTag S (line_at c (calcIndex4Tag c tag + k)) = tag)"
proof
  note D = cache_okD [OF ok]
  assume "\<exists>x\<in>set (content c). getTag S (mem c ! x) = tag"
  then obtain l where l: "l < numLines c" "getTag S (line_at c l) = tag"
    using D(1) by (auto simp: in_set_conv_nth)
  then have "calcIndex4Tag c tag \<le> l" "l < calcIndex4Tag c tag + assoc c"
    using ok tag by (auto simp: cache_ok_def home_ok_def)
  then show "\<exists>k<assoc c. getTag S (line_at c (calcIndex4Tag c tag + k)) = tag"
    using l(2) by (intro exI [of _ "l - calcIndex4Tag c tag"]) auto
next
  assume "\<exists>k<assoc c. getTag S (line_at c (calcIndex4Tag c tag + k)) = tag"
  then show "\<exists>x\<in>set (content c). getTag S (mem c ! x) = tag"
    using base_le [OF ok, of tag] by (metis add_less_cancel_left less_le_trans nth_mem)
qed

subsection \<open>findLineTag\<close>

lemma scan_tag_Some:
  "scan_tag S c tag l k = Some j \<Longrightarrow> l \<le> j \<and> j < l + k \<and> getTag S (line_at c j) = tag"
  by (induction S c tag l k rule: scan_tag.induct) (auto split: if_splits)

lemma scan_tag_None:
  "scan_tag S c tag l k = None \<Longrightarrow> l \<le> j \<Longrightarrow> j < l + k \<Longrightarrow> getTag S (line_at c j) \<noteq> tag"
proof (induction S c tag l k rule: scan_tag.induct)
  case (1 S c tag l)
  then show ?case by simp
next
  case (2 S c tag l k)
  then show ?case by (cases "j = l") (auto split: if_splits)
qed

lemma irand_id [simp]: "c\<lparr>irand := irand c\<rparr> = c" "c\<lparr>content := content c\<rparr> = c"
  by simp_all

lemma findLineTag_ok:
  assumes ok: "cache_ok S c" and tag: "tag \<noteq> 0" and E: "Energy B \<longrightarrow> goodInterface c"
    and b: "b = calcIndex4Tag c tag"
  shows "\<exists>r c'. Assoc_findLineTag B S c tag = Some (r, c') \<and> cache_ok S c' \<and> mem c' = mem c \<and>
    (case r of
       None \<Rightarrow> c' = c \<and> (\<forall>x\<in>set (content c). getTag S (mem c ! x) \<noteq> tag)
     | Some x \<Rightarrow> x \<in> set (ways c b) \<and> getTag S (mem c ! x) = tag \<and> ways c' b = x # remove1 x (ways c b))"
proof -
  note D = cache_okD [OF ok] and bl = base_le [OF ok, of tag, folded b]
  have a0: "0 < assoc c" using D(4) by simp
  have dw: "distinct (ways c b)" using D(2) by (simp add: ways_def)
  have valid: "getTag S (line_at c l) = tag \<Longrightarrow> l < length (content c) \<Longrightarrow> isValid S (line_at c l)" for l
    using ok tag by (auto simp: cache_ok_def lines_ok_def)
  show ?thesis
  proof (cases "getTag S (line_at c b) = tag")
    case True
    have "ways c b = content c ! b # tl (ways c b)"
      using length_ways [OF bl] a0 nth_ways [OF bl a0] by (cases "ways c b") auto
    then obtain ys where ys: "ways c b = content c ! b # ys" by blast
    then have "content c ! b # remove1 (content c ! b) (ways c b) = ways c b"
        "content c ! b \<in> set (ways c b)" by simp_all
    moreover have "Assoc_findLineTag B S c tag = Some (Some (content c ! b), c)"
      using True E valid [OF True] bl a0 by (simp add: Assoc_findLineTag_def Let_def b)
    ultimately show ?thesis using ok True by simp
  next
    case miss: False
    show ?thesis
    proof (cases "scan_tag S c tag (b + 1) (assoc c - 1)")
      case None
      have "getTag S (line_at c (b + k)) \<noteq> tag" if "k < assoc c" for k
        using that miss scan_tag_None [OF None, of "b + k"] by (cases k) auto
      then have "\<forall>x\<in>set (content c). getTag S (mem c ! x) \<noteq> tag"
        using tag_in_set [OF ok tag] b by blast
      moreover have "Assoc_findLineTag B S c tag = Some (None, c)"
        using None miss E by (simp add: Assoc_findLineTag_def Let_def b)
      ultimately show ?thesis using ok by simp
    next
      case (Some l)
      note l = scan_tag_Some [OF Some]
      define k where "k = l - b"
      have k: "l = b + k" "k < assoc c" using l by (auto simp: k_def)
      have hit: "getTag S (line_at c l) = tag" "l < length (content c)" using l bl k by auto
      let ?c = "c\<lparr>content := move_to_front (content c) b l\<rparr>"
      have x: "content c ! l = ways c b ! k" using k bl by (simp add: nth_ways)
      have "ways ?c b = content c ! l # remove1 (content c ! l) (ways c b)"
        using ways_move [OF bl k(2)] to_front_remove1 [OF dw, of k] k bl x by (simp add: length_ways)
      moreover have "cache_ok S ?c"
        using move_ok [OF ok k(2), of "irand c" tag] ok k(1) b by (simp add: cache_ok_def)
      moreover have "Assoc_findLineTag B S c tag = Some (Some (content c ! l), ?c)"
        using Some miss E valid [OF hit] by (simp add: Assoc_findLineTag_def Let_def b)
      moreover have "content c ! l \<in> set (ways c b)" using k bl by (auto simp: in_ways)
      ultimately show ?thesis using hit by simp
    qed
  qed
qed

subsection \<open>findLine2Replace\<close>

text \<open>The preferred victim: the youngest invalid line, or else the oldest line that is not locked.\<close>

definition victim :: "'l line_ops \<Rightarrow> 'l cache \<Rightarrow> nat \<Rightarrow> nat option" where
  "victim S c b =
     (case List.find (\<lambda>x. \<not> isValid S (mem c ! x)) (ways c b) of
        Some x \<Rightarrow> Some x
      | None \<Rightarrow> List.find (\<lambda>x. \<not> isLocked S (mem c ! x)) (rev (ways c b)))"

lemma find_map: "List.find P (map f xs) = map_option f (List.find (\<lambda>x. P (f x)) xs)"
  by (induction xs) auto

lemma find_append: "List.find P (xs @ ys) =
    (case List.find P xs of None \<Rightarrow> List.find P ys | Some x \<Rightarrow> Some x)"
  by (induction xs) auto

lemma find_cong_set: "(\<And>x. x \<in> set xs \<Longrightarrow> P x = Q x) \<Longrightarrow> List.find P xs = List.find Q xs"
  by (induction xs) auto

lemma find_Some_set: "List.find P xs = Some x \<Longrightarrow> x \<in> set xs \<and> P x"
  by (induction xs) (auto split: if_splits)

text \<open>The line that is replaced when some line is, and \<open>irand\<close> afterwards: the preferred victim, or
  the oldest line when all are locked; but with the random policy, when the caller ignores
  locks and no line is invalid, the line at \<open>irand\<close>, locked or not.\<close>

definition replaced :: "'l line_ops \<Rightarrow> 'l cache \<Rightarrow> nat \<Rightarrow> bool \<Rightarrow> nat \<times> nat" where
  "replaced S c b ig =
     (if ig \<and> repl_policy c = RANDOM \<and> (\<forall>x\<in>set (ways c b). isValid S (mem c ! x))
      then (ways c b ! irand c, (irand c + 1) AND maskAssoc c)
      else (case victim S c b of Some v \<Rightarrow> v | None \<Rightarrow> last (ways c b), irand c))"

definition choice :: "'l line_ops \<Rightarrow> 'l cache \<Rightarrow> nat \<Rightarrow> nat \<Rightarrow> nat option \<Rightarrow> nat option" where
  "choice S c b k lf =
     (case List.find (\<lambda>i. \<not> isValid S (line_at c (b + i))) [0..<k] of
        Some i \<Rightarrow> Some (b + i)
      | None \<Rightarrow>
          (case lf of
             Some l \<Rightarrow> Some l
           | None \<Rightarrow> map_option ((+) b)
               (List.find (\<lambda>i. \<not> isLocked S (line_at c (b + i))) (rev [0..<k]))))"

lemma choice_Suc:
  "choice S c b (Suc k) lf =
     choice S c b k (if \<not> isValid S (line_at c (b + k)) then Some (b + k)
                     else if lf = None \<and> \<not> isLocked S (line_at c (b + k)) then Some (b + k) else lf)"
  by (auto simp: choice_def find_append split: option.splits)

lemma scan_free_ok:
  assumes "\<And>i. i < k \<Longrightarrow> \<not> isValid S (line_at c (b + i)) \<Longrightarrow> \<not> isLocked S (line_at c (b + i))"
  shows "\<exists>hit fr. scan_free S c tag b k lf = Some (hit, fr) \<and>
    (case hit of
       None \<Rightarrow> (\<forall>i<k. getTag S (line_at c (b + i)) \<noteq> tag) \<and> fr = choice S c b k lf
     | Some l \<Rightarrow> b \<le> l \<and> l < b + k \<and> getTag S (line_at c l) = tag) \<and>
    (\<forall>l. fr = Some l \<longrightarrow> lf = Some l \<or> \<not> isValid S (line_at c l) \<or> \<not> isLocked S (line_at c l))"
  using assms
proof (induction k arbitrary: lf)
  case 0
  then show ?case by (simp add: choice_def split: option.splits)
next
  case (Suc k)
  show ?case
  proof (cases "getTag S (line_at c (b + k)) = tag")
    case True
    then show ?thesis by (simp add: Let_def)
  next
    case False
    let ?lf = "if \<not> isValid S (line_at c (b + k)) then Some (b + k)
      else if lf = None \<and> \<not> isLocked S (line_at c (b + k)) then Some (b + k) else lf"
    have ok: "\<not> isValid S (line_at c (b + k)) \<longrightarrow> \<not> isLocked S (line_at c (b + k))"
      using Suc.prems by simp
    have ih: "\<And>i. i < k \<Longrightarrow> \<not> isValid S (line_at c (b + i)) \<Longrightarrow> \<not> isLocked S (line_at c (b + i))"
      using Suc.prems by simp
    from Suc.IH [of ?lf, OF ih] obtain hit fr where
      R: "scan_free S c tag b k ?lf = Some (hit, fr) \<and>
        (case hit of None \<Rightarrow> (\<forall>i<k. getTag S (line_at c (b + i)) \<noteq> tag) \<and> fr = choice S c b k ?lf
         | Some l \<Rightarrow> b \<le> l \<and> l < b + k \<and> getTag S (line_at c l) = tag) \<and>
        (\<forall>l. fr = Some l \<longrightarrow> ?lf = Some l \<or> \<not> isValid S (line_at c l) \<or> \<not> isLocked S (line_at c l))"
      by blast
    note r = R [THEN conjunct1] R [THEN conjunct2, THEN conjunct1] R [THEN conjunct2, THEN conjunct2]
    have "scan_free S c tag b (Suc k) lf = Some (hit, fr)"
      using False ok r(1) by (simp add: Let_def)
    moreover have "\<forall>i<Suc k. getTag S (line_at c (b + i)) \<noteq> tag" if "hit = None"
      using that r(2) False by (auto simp: less_Suc_eq)
    moreover have "fr = choice S c b (Suc k) lf" if "hit = None"
      using that r(2) by (simp only: choice_Suc) simp
    moreover have "\<forall>l. fr = Some l \<longrightarrow>
        lf = Some l \<or> \<not> isValid S (line_at c l) \<or> \<not> isLocked S (line_at c l)"
      using r(3) by (auto split: if_splits)
    ultimately show ?thesis using r(2) by (cases hit) auto
  qed
qed

lemma ways_map: "b + assoc c \<le> length (content c) \<Longrightarrow>
  ways c b = map (\<lambda>i. content c ! (b + i)) [0..<assoc c]"
  by (rule nth_equalityI) (simp_all add: length_ways nth_ways)

lemma choice_victim:
  assumes "b + assoc c \<le> length (content c)"
  shows "map_option ((!) (content c)) (choice S c b (assoc c) None) = victim S c b"
  by (auto simp: choice_def victim_def ways_map [OF assms] find_map rev_map option.map_comp o_def
      split: option.splits)

lemma choice_valid:
  assumes "b + assoc c \<le> length (content c)" "fr = choice S c b (assoc c) None"
    and "\<And>i. i < assoc c \<Longrightarrow> \<not> isValid S (line_at c (b + i)) \<Longrightarrow> \<not> isLocked S (line_at c (b + i))"
  shows "(\<forall>x\<in>set (ways c b). isValid S (mem c ! x)) =
    (case fr of None \<Rightarrow> True | Some l \<Rightarrow> isValid S (line_at c l))"
proof (cases "List.find (\<lambda>i. \<not> isValid S (line_at c (b + i))) [0..<assoc c]")
  case None
  then have all: "\<forall>i<assoc c. isValid S (line_at c (b + i))" by (auto simp: find_None_iff)
  then have "\<forall>x\<in>set (ways c b). isValid S (mem c ! x)" by (auto simp: ways_map [OF assms(1)])
  moreover have "case fr of None \<Rightarrow> True | Some l \<Rightarrow> isValid S (line_at c l)"
    using all assms(2) None by (auto simp: choice_def split: option.splits dest!: find_Some_set)
  ultimately show ?thesis by simp
next
  case (Some i)
  then have "i < assoc c" "\<not> isValid S (line_at c (b + i))" using find_Some_set by force+
  moreover have "fr = Some (b + i)" using assms(2) Some by (simp add: choice_def)
  ultimately show ?thesis by (auto simp: ways_map [OF assms(1)])
qed

lemma replace_ok:
  assumes ok: "cache_ok S c" and tag: "tag \<noteq> 0" "tag = calcTag c addr" and b: "b = calcIndex4Tag c tag"
  shows "\<exists>r c'. Assoc_findLine2Replace S c addr ig = Some (r, c') \<and> cache_ok S c' \<and> mem c' = mem c \<and>
    calcTag c' = calcTag c \<and> calcAddr4Tag c' = calcAddr4Tag c \<and>
    (if \<exists>x\<in>set (ways c b). getTag S (mem c ! x) = tag
     then c' = c \<and> (\<exists>x\<in>set (ways c b). r = Some x \<and> getTag S (mem c ! x) = tag)
     else case r of
            None \<Rightarrow> c' = c \<and> \<not> ig \<and> victim S c b = None
          | Some x \<Rightarrow> x \<in> set (ways c b) \<and> ways c' b = x # remove1 x (ways c b) \<and>
              (\<not> ig \<longrightarrow> victim S c b = Some x) \<and> (x, irand c') = replaced S c b ig)"
proof -
  note D = cache_okD [OF ok] and bl = base_le [OF ok, of tag, folded b]
  have a0: "0 < assoc c" using D(4) by simp
  have dw: "distinct (ways c b)" using D(2) by (simp add: ways_def)
  have inv: "i < assoc c \<Longrightarrow> \<not> isValid S (line_at c (b + i)) \<Longrightarrow>
      getTag S (line_at c (b + i)) = 0 \<and> \<not> isLocked S (line_at c (b + i))" for i
    using ok bl by (auto simp: cache_ok_def lines_ok_def)
  have has: "(\<exists>x\<in>set (ways c b). getTag S (mem c ! x) = tag) =
      (\<exists>k<assoc c. getTag S (line_at c (b + k)) = tag)"
    using in_ways [OF bl] by auto
  show ?thesis
  proof (cases "getTag S (line_at c b) = tag")
    case True
    have "isValid S (line_at c b)" using inv [of 0] a0 True tag(1) by auto
    then have "Assoc_findLine2Replace S c addr ig = Some (Some (content c ! b), c)"
      using True by (simp add: Assoc_findLine2Replace_def Let_def b tag(2))
    moreover have "content c ! b \<in> set (ways c b)" using in_ways [OF bl] a0 by force
    ultimately show ?thesis using ok True by auto
  next
    case miss: False
    obtain hit fr where sc: "scan_free S c tag b (assoc c) None = Some (hit, fr)"
        "case hit of None \<Rightarrow> (\<forall>i<assoc c. getTag S (line_at c (b + i)) \<noteq> tag) \<and>
             fr = choice S c b (assoc c) None
         | Some l \<Rightarrow> b \<le> l \<and> l < b + assoc c \<and> getTag S (line_at c l) = tag"
        "\<forall>l. fr = Some l \<longrightarrow> \<not> isValid S (line_at c l) \<or> \<not> isLocked S (line_at c l)"
      using scan_free_ok [of "assoc c" S c b tag None] inv by auto
    show ?thesis
    proof (cases hit)
      case (Some l)
      then have l: "b \<le> l" "l < b + assoc c" "getTag S (line_at c l) = tag" using sc(2) by simp_all
      have "Assoc_findLine2Replace S c addr ig = Some (Some (content c ! l), c)"
        using miss sc(1,3) Some by (simp add: Assoc_findLine2Replace_def Let_def b tag(2))
      moreover have "content c ! l \<in> set (ways c b)"
        using in_ways [OF bl] l by (metis le_Suc_ex nat_add_left_cancel_less)
      ultimately show ?thesis using ok l(3) by auto
    next
      case None
      then have no: "\<not> (\<exists>x\<in>set (ways c b). getTag S (mem c ! x) = tag)" and
          fr: "fr = choice S c b (assoc c) None" using sc(2) has by auto
      have vic: "victim S c b = map_option ((!) (content c)) fr"
        using choice_victim [OF bl] fr by simp
      show ?thesis
      proof (cases "fr = None \<and> \<not> ig")
        case True
        then have "Assoc_findLine2Replace S c addr ig = Some (None, c)"
          using miss sc(1) None by (simp add: Assoc_findLine2Replace_def Let_def b tag(2))
        then show ?thesis using ok no vic True by simp
      next
        case go: False
        obtain l ir where li: "pick_victim S c b fr ig = (l, ir)" by (cases "pick_victim S c b fr ig")
        have frb: "fr = Some l' \<Longrightarrow> b \<le> l' \<and> l' < b + assoc c" for l'
          using find_Some_set unfolding fr choice_def
          by (fastforce split: option.splits dest: find_Some_set)
        have irand: "irand c < assoc c" "(irand c + 1) AND maskAssoc c < assoc c"
          using ok by (auto simp: cache_ok_def geom_ok_def)
        have l: "b \<le> l" "l < b + assoc c" "ir < assoc c"
          using li frb irand a0 by (auto simp: pick_victim_def Let_def split: option.splits if_splits)
        define k where "k = l - b"
        have k: "l = b + k" "k < assoc c" using l by (auto simp: k_def)
        let ?c = "c\<lparr>irand := ir, content := move_to_front (content c) b l\<rparr>"
        let ?x = "content c ! l"
        have x: "?x = ways c b ! k" "?x \<in> set (ways c b)"
          using k bl in_ways [OF bl] by (auto simp: nth_ways)
        have front: "move_to_front (content c) b b = content c"
          by (simp add: move_to_front_def shift_up.simps(1) shift_up_same)
        have nolock: "\<not> ig \<longrightarrow> \<not> isValid S (line_at c l) \<or> \<not> isLocked S (line_at c l)"
          using sc(3) go li by (auto simp: pick_victim_def split: option.splits)
        have "Assoc_findLine2Replace S c addr ig = Some (Some ?x, ?c)"
          using miss sc(1,3) None go li nolock front
          by (auto simp: Assoc_findLine2Replace_def Let_def b tag(2))
        moreover have "cache_ok S ?c" using move_ok [OF ok k(2) l(3), of tag] k(1) b by simp
        moreover have "ways ?c b = ?x # remove1 ?x (ways c b)"
        proof -
          have "ways ?c b = ways (c\<lparr>content := move_to_front (content c) b (b + k)\<rparr>) b"
            using k by (simp add: ways_def)
          also have "\<dots> = to_front k (ways c b)" by (rule ways_move [OF bl k(2)])
          finally show ?thesis using to_front_remove1 [OF dw, of k] k bl x by (simp add: length_ways)
        qed
        moreover have "\<not> ig \<longrightarrow> victim S c b = Some ?x"
          using go li vic by (auto simp: pick_victim_def split: option.splits)
        moreover have "(?x, irand ?c) = replaced S c b ig"
        proof -
          have valid: "(\<forall>x\<in>set (ways c b). isValid S (mem c ! x)) =
              (case fr of None \<Rightarrow> True | Some l' \<Rightarrow> isValid S (line_at c l'))"
            using choice_valid [OF bl fr] inv by simp
          have lastx: "content c ! (b + assoc c - 1) = last (ways c b)"
            using a0 bl by (simp add: last_conv_nth length_ways nth_ways flip: length_greater_0_conv)
          have rnd: "content c ! (b + irand c) = ways c b ! irand c"
            using irand(1) bl by (simp add: nth_ways)
          show ?thesis
            using go li vic lastx rnd
            by (cases "repl_policy c") (auto simp: replaced_def valid pick_victim_def Let_def split: option.splits if_splits)
        qed
        ultimately show ?thesis using no x(2)
          by (simp add: calcTag_def calcAddr4Tag_def fun_eq_iff)
      qed
    qed
  qed
qed

subsection \<open>fillLine\<close>

definition fills :: "'l line_ops \<Rightarrow> bool" where
  "fills S = (\<forall>t x. t \<noteq> 0 \<longrightarrow>
     (\<exists>x'. setTag S t x = Some x' \<and> getTag S x' = t \<and> isValid S x'))"

lemma StateGeneric_fills: "fills StateGeneric"
  by (simp add: fills_def StateGeneric_def)

text \<open>Storing a line whose tag belongs to its set, and to no other line.\<close>

lemma store_ok:
  assumes ok: "cache_ok S c" and i: "i \<in> set (ways c (calcIndex4Tag c tag))"
    and x: "getTag S x = tag" "isValid S x" "tag \<noteq> 0"
    and new: "\<forall>y\<in>set (content c). getTag S (mem c ! y) = tag \<longrightarrow> y = i"
  shows "cache_ok S (c\<lparr>mem := (mem c)[i := x]\<rparr>)"
proof -
  let ?c = "c\<lparr>mem := (mem c)[i := x]\<rparr>"
  note D = cache_okD [OF ok] and bl = base_le [OF ok, of tag]
  obtain k where k: "k < assoc c" "i = content c ! (calcIndex4Tag c tag + k)" using i in_ways [OF bl] by auto
  have im: "i < length (mem c)"
  proof -
    have "i \<in> set (content c)" using k bl by auto
    then show ?thesis using D(3) ok by (auto simp: cache_ok_def)
  qed
  have "home_ok S ?c"
    unfolding home_ok_def
  proof (intro allI impI)
    fix l
    assume l: "l < numLines ?c" and t: "getTag S (line_at ?c l) \<noteq> 0"
    show "calcIndex4Tag ?c (getTag S (line_at ?c l)) \<le> l \<and>
        l < calcIndex4Tag ?c (getTag S (line_at ?c l)) + assoc ?c"
    proof (cases "content c ! l = i")
      case True
      have "l = calcIndex4Tag c tag + k"
        using True k bl D(1,2) l nth_eq_iff_index_eq [of "content c" l "calcIndex4Tag c tag + k"] by simp
      then show ?thesis using True x im k(1) by simp
    next
      case False
      then show ?thesis using ok l t by (simp add: cache_ok_def home_ok_def)
    qed
  qed
  moreover have "lines_ok S ?c" using ok x im by (auto simp: cache_ok_def lines_ok_def nth_list_update)
  moreover have "unique_ok S ?c"
    unfolding unique_ok_def
  proof (intro ballI impI)
    fix y z
    assume yz: "y \<in> set (content ?c)" "z \<in> set (content ?c)"
      and eq: "getTag S (mem ?c ! y) = getTag S (mem ?c ! z) \<and> getTag S (mem ?c ! y) \<noteq> 0"
    have upd: "mem ?c ! w = (if w = i then x else mem c ! w)" for w
      using im by (simp add: nth_list_update)
    have other: "w = i" if "w \<in> set (content c)" "getTag S (mem ?c ! w) = tag" for w
      using new that x(1) upd [of w] by (cases "w = i") simp_all
    show "y = z"
    proof (cases "y = i \<or> z = i")
      case True
      then have "getTag S (mem ?c ! y) = tag" "getTag S (mem ?c ! z) = tag"
        using eq x(1) upd by auto
      then show ?thesis using other [of y] other [of z] yz by simp
    next
      case False
      then have "getTag S (mem c ! y) = getTag S (mem c ! z)" "getTag S (mem c ! y) \<noteq> 0"
        using eq upd [of y] upd [of z] by simp_all
      then show ?thesis using ok yz by (simp add: cache_ok_def unique_ok_def)
    qed
  qed
  ultimately show ?thesis using ok by (simp add: cache_ok_def)
qed

lemma fill_ok:
  assumes ok: "cache_ok S c" and S: "fills S" and tag: "calcTag c addr \<noteq> 0"
  shows "\<exists>r rplcAddr c'. cache_fillLine S (Assoc_findLine2Replace S) c addr ig = Some (r, rplcAddr, c') \<and>
    cache_ok S c' \<and>
    (case r of
       None \<Rightarrow> c' = c \<and> rplcAddr = 0 \<and> victim S c (calcIndex4Addr c addr) = None
     | Some i \<Rightarrow> i \<in> set (ways c (calcIndex4Addr c addr)) \<and> getTag S (mem c' ! i) = calcTag c addr \<and>
         (\<forall>j. j \<noteq> i \<longrightarrow> mem c' ! j = mem c ! j) \<and>
         rplcAddr = (if isValid S (mem c ! i) \<and> getTag S (mem c ! i) \<noteq> calcTag c addr
                     then calcAddr4Tag c (getTag S (mem c ! i)) else 0) \<and>
         (\<exists>c''. Assoc_findLineTag \<lparr>Energy = False, SESC_SMP = False\<rparr> S c' (calcTag c addr) = Some (Some i, c'')))"
proof -
  let ?tag = "calcTag c addr" and ?b = "calcIndex4Addr c addr"
  have b: "?b = calcIndex4Tag c ?tag" by (simp add: calcIndex4Addr_def calcIndex4Tag_def calcSet4Addr_def)
  note bl = base_le [OF ok, of ?tag, folded b]
  obtain r c1 where R: "Assoc_findLine2Replace S c addr ig = Some (r, c1) \<and> cache_ok S c1 \<and> mem c1 = mem c \<and>
    calcTag c1 = calcTag c \<and> calcAddr4Tag c1 = calcAddr4Tag c \<and>
    (if \<exists>x\<in>set (ways c ?b). getTag S (mem c ! x) = ?tag
     then c1 = c \<and> (\<exists>x\<in>set (ways c ?b). r = Some x \<and> getTag S (mem c ! x) = ?tag)
     else case r of
            None \<Rightarrow> c1 = c \<and> \<not> ig \<and> victim S c ?b = None
          | Some x \<Rightarrow> x \<in> set (ways c ?b) \<and> ways c1 ?b = x # remove1 x (ways c ?b) \<and>
              (\<not> ig \<longrightarrow> victim S c ?b = Some x) \<and> (x, irand c1) = replaced S c ?b ig)"
    using replace_ok [OF ok tag refl b, of ig] by blast
  then have r: "Assoc_findLine2Replace S c addr ig = Some (r, c1)" "cache_ok S c1" "mem c1 = mem c"
      "calcTag c1 = calcTag c" "calcAddr4Tag c1 = calcAddr4Tag c"
    by blast+
  show ?thesis
  proof (cases r)
    case None
    then have "c1 = c \<and> victim S c ?b = None"
      using R by (cases "\<exists>x\<in>set (ways c ?b). getTag S (mem c ! x) = ?tag")
        (simp only: if_True, blast, simp only: if_False option.case)
    then show ?thesis using r(1) None ok by (simp add: cache_fillLine_def)
  next
    case (Some i)
    have iw: "i \<in> set (ways c ?b)"
    proof (cases "\<exists>x\<in>set (ways c ?b). getTag S (mem c ! x) = ?tag")
      case True
      then have "\<exists>x\<in>set (ways c ?b). r = Some x" using R by (simp only: if_True) blast
      then show ?thesis using Some by simp
    next
      case False
      then show ?thesis using R Some by (simp only: if_False option.case)
    qed
    have iw1: "i \<in> set (ways c1 ?b)"
    proof (cases "\<exists>x\<in>set (ways c ?b). getTag S (mem c ! x) = ?tag")
      case True
      then have "c1 = c" using R by (simp only: if_True)
      then show ?thesis using iw by simp
    next
      case False
      then have "ways c1 ?b = i # remove1 i (ways c ?b)" using R Some by (simp only: if_False option.case)
      then show ?thesis by (metis list.set_intros(1))
    qed
    obtain x where x: "setTag S ?tag (mem c ! i) = Some x" "getTag S x = ?tag" "isValid S x"
      using S tag by (auto simp: fills_def)
    let ?c = "c1\<lparr>mem := (mem c1)[i := x]\<rparr>"
    have same: "calcIndex4Tag c1 ?tag = ?b"
    proof -
      have "log2Assoc c1 = log2Assoc c \<and> maskSets c1 = maskSets c"
        using r(1) by (auto simp: Assoc_findLine2Replace_def Let_def split: if_splits option.splits prod.splits bind_splits)
      then show ?thesis by (simp add: b calcIndex4Tag_def calcIndex4Set_def calcSet4Tag_def)
    qed
    have new: "\<forall>y\<in>set (content c1). getTag S (mem c1 ! y) = ?tag \<longrightarrow> y = i"
    proof (intro ballI impI)
      fix y
      assume y: "y \<in> set (content c1)" "getTag S (mem c1 ! y) = ?tag"
      have sets: "set (content c1) = set (content c)"
        using cache_okD(3) [OF r(2)] cache_okD(3) [OF ok] r(1)
        by (auto simp: Assoc_findLine2Replace_def Let_def split: if_splits option.splits prod.splits bind_splits)
      then have "\<exists>k<assoc c. getTag S (line_at c (calcIndex4Tag c ?tag + k)) = ?tag"
        using y r(3) tag_in_set [OF ok tag] by auto
      then have hit: "\<exists>x\<in>set (ways c ?b). getTag S (mem c ! x) = ?tag"
        using in_ways [OF bl] b by auto
      then have "\<exists>x\<in>set (ways c ?b). r = Some x \<and> getTag S (mem c ! x) = ?tag"
        using R by (simp only: if_True)
      then have "getTag S (mem c ! i) = ?tag" using Some by simp
      moreover have "i \<in> set (content c)" using iw by (auto simp: ways_def dest: in_set_takeD in_set_dropD)
      ultimately show "y = i" using y ok sets r(3) tag by (simp add: cache_ok_def unique_ok_def)
    qed
    have okc: "cache_ok S ?c"
      by (rule store_ok [OF r(2), of i ?tag]) (use iw1 same x tag new in simp_all)
    have im: "i < length (mem c1)"
    proof -
      have "i \<in> set (content c1)" using iw1 by (auto simp: ways_def dest: in_set_takeD in_set_dropD)
      then show ?thesis using cache_okD(3) [OF r(2)] r(2) by (auto simp: cache_ok_def)
    qed
    obtain r' c'' where f: "Assoc_findLineTag \<lparr>Energy = False, SESC_SMP = False\<rparr> S ?c ?tag = Some (r', c'')"
        "case r' of None \<Rightarrow> c'' = ?c \<and> (\<forall>x\<in>set (content ?c). getTag S (mem ?c ! x) \<noteq> ?tag)
         | Some x \<Rightarrow> x \<in> set (ways ?c ?b) \<and> getTag S (mem ?c ! x) = ?tag \<and> ways c'' ?b = x # remove1 x (ways ?c ?b)"
      using findLineTag_ok [OF okc tag, of "\<lparr>Energy = False, SESC_SMP = False\<rparr>" ?b] same by auto
    have ic: "i \<in> set (content ?c)" "getTag S (mem ?c ! i) = ?tag"
      using iw1 im x by (auto simp: ways_def dest: in_set_takeD in_set_dropD)
    have "r' = Some i"
    proof (cases r')
      case None
      then show ?thesis using f(2) ic by auto
    next
      case (Some j)
      then have "j \<in> set (content ?c)" "getTag S (mem ?c ! j) = ?tag"
        using f(2) by (auto simp: ways_def dest: in_set_takeD in_set_dropD)
      then show ?thesis using okc ic tag Some unfolding cache_ok_def unique_ok_def by metis
    qed
    moreover have "cache_fillLine S (Assoc_findLine2Replace S) c addr ig = Some (Some i,
        if isValid S (mem c ! i) \<and> getTag S (mem c ! i) \<noteq> ?tag
        then calcAddr4Tag c (getTag S (mem c ! i)) else 0, ?c)"
      using r Some x by (simp add: cache_fillLine_def Let_def)
    ultimately show ?thesis using okc iw ic(2) f(1) r(3) by simp
  qed
qed

subsection \<open>A direct-mapped cache is an associative cache with one line per set\<close>

lemma DM_find_eq:
  assumes ok: "cache_ok S c" and one: "assoc c = 1" and tag: "tag \<noteq> 0"
  shows "DM_findLineTag B S c tag = Assoc_findLineTag B S c tag"
proof -
  let ?b = "calcIndex4Tag c tag"
  have "content c ! ?b \<in> set (content c)" using base_le [OF ok, of tag] one by simp
  then have "getTag S (line_at c ?b) = tag \<Longrightarrow> isValid S (line_at c ?b)"
    using ok tag by (auto simp: cache_ok_def lines_ok_def)
  then show ?thesis using one by (auto simp: DM_findLineTag_def Assoc_findLineTag_def Let_def)
qed

lemma DM_replace_eq:
  assumes ok: "cache_ok S c" and one: "assoc c = 1" and tag: "calcTag c addr \<noteq> 0"
  shows "DM_findLine2Replace S c addr ig = Assoc_findLine2Replace S c addr ig"
proof -
  let ?b = "calcIndex4Tag c (calcTag c addr)"
  have "content c ! ?b \<in> set (content c)" using base_le [OF ok, of "calcTag c addr"] one by simp
  then have v: "\<not> isValid S (line_at c ?b) \<Longrightarrow> getTag S (line_at c ?b) = 0 \<and> \<not> isLocked S (line_at c ?b)"
    using ok by (auto simp: cache_ok_def lines_ok_def)
  have "maskAssoc c = 0" "irand c = 0" using ok one by (auto simp: cache_ok_def geom_ok_def)
  then show ?thesis using one v tag
    by (auto simp: DM_findLine2Replace_def Assoc_findLine2Replace_def Let_def pick_victim_def
        split: option.splits)
qed

subsection \<open>A new cache\<close>

definition fresh_line :: "'l line_ops \<Rightarrow> bool" where
  "fresh_line S = (\<forall>x. let y = invalidate S (initialize S x) in
     \<not> isValid S y \<and> \<not> isLocked S y \<and> getTag S y = 0)"

lemma CacheAssoc_new_ok:
  assumes geo: "s = 2 ^ i" "a = 2 ^ j" "b = 2 ^ k" "u = 2 ^ l" "l \<le> k" "j + k \<le> i" "i < 64"
    and pol: "parse_policy pStr = Some pol" and S: "fresh_line S" and junk: "length junk = 2 ^ (i - k) + 1"
  shows "\<exists>c. CacheAssoc_new S junk s a b u pStr = Some c \<and> cache_ok S c \<and> assoc c = a \<and>
    repl_policy c = pol \<and> calcTag c = (\<lambda>addr. addr div 2 ^ (k - l)) \<and>
    (\<forall>x\<in>set (content c). \<not> isValid S (mem c ! x))"
proof -
  obtain g where g: "geometry_new s a b u = Some g" "geom_ok g" "assoc g = 2 ^ j"
      "log2AddrLs g = k - l" "numLines g = 2 ^ (i - k)"
    using geometry_new_ok [OF geo] by blast
  let ?c = "geometry.extend g \<lparr>mem = init_lines S (numLines g) junk, content = [0..<numLines g], irand = 0,
        repl_policy = pol, goodInterface = False\<rparr>"
  have new: "CacheAssoc_new S junk s a b u pStr = Some ?c"
    using g pol by (simp add: CacheAssoc_new_def)
  have inv: "\<not> isValid S (mem ?c ! x) \<and> \<not> isLocked S (mem ?c ! x) \<and> getTag S (mem ?c ! x) = 0"
    if "x < numLines g" for x
    using that S junk g(5) by (simp add: geometry.defs init_lines_def nth_append fresh_line_def Let_def)
  have "geom_ok ?c = geom_ok g" by (simp add: geometry.defs geom_ok_def)
  then have "geom_ok ?c" using g(2) by simp
  moreover have "assoc ?c = 2 ^ j" "numLines ?c = numLines g" "content ?c = [0..<numLines g]" "irand ?c = 0"
      "repl_policy ?c = pol" "log2AddrLs ?c = k - l" "length (mem ?c) = numLines g + 1"
    using g junk by (simp_all add: geometry.defs init_lines_def)
  ultimately show ?thesis
    using new inv geo(2)
    by (auto simp: cache_ok_def lines_ok_def home_ok_def unique_ok_def calcTag_def drop_bit_eq_div)
qed

lemma StateGeneric_fresh: "fresh_line StateGeneric"
  by (simp add: fresh_line_def StateGeneric_def)

end
