(* ===== verification/Memory_Properties.thy ===== *)
theory Memory_Properties
  imports Port_Occupy Cache_Correct Snippets_Correct
begin

text \<open>
  What the ports and the cache core guarantee, and the integer helpers under them.
\<close>

subsection \<open>Ports\<close>

text \<open>C13: whichever class \<open>create\<close> chooses, a port with \<open>n\<close> units and occupancy \<open>occ\<close> grants
  to requests in order of time the slots of the reference model, which keeps the times at
  which the units become free and always takes the earliest; in particular the specialised
  classes grant the same slots as \<open>PortNPipe\<close>.\<close>

theorem port_create_refines:
  assumes "Port_create c0 n occ = Some p" "0 < n" "0 < occ" "sorted (c0 # cs)"
  shows "\<exists>p' p''. slots Port_nextSlot cs p = Some (grants occ cs (replicate_mset n c0), p') \<and>
    slots NPipe_nextSlot cs (NPipe_new c0 n occ) = Some (grants occ cs (replicate_mset n c0), p'')"
  using create_slots [OF assms] npipe_new_slots [OF assms(2,4)] by blast

theorem port_create_refines_witness:
  "\<exists>p p'. Port_create 5 2 1 = Some p \<and> slots Port_nextSlot [5, 5, 5, 9] p = Some ([5, 5, 6, 9], p')"
proof -
  have p: "Port_create 5 2 1 = Some (PortFullyNPipe \<lparr>nUsers = 0, avgTime = GStatsAvg_new, lTime = 5,
      nUnitsMinusOne = 1, freeUnits = 2\<rparr>)"
    by (simp add: Port_create_def FullyNPipe_new_def)
  have "grants 1 [5, 5, 5, 9] (replicate_mset 2 5) = [5, 5, 6, 9]"
    by (simp add: grant_def at_clock_def numeral_2_eq_2)
  then show ?thesis using port_create_refines [OF p, of "[5, 5, 5, 9]"] p by auto
qed

text \<open>C17: a port with \<open>n\<close> units never grants a slot before the request, and starts at most
  \<open>n\<close> uses in any \<open>occ\<close> consecutive cycles.\<close>

theorem port_bandwidth:
  assumes "Port_create c0 n occ = Some p" "0 < n" "0 < occ" "sorted (c0 # cs)"
  shows "\<exists>ts p'. slots Port_nextSlot cs p = Some (ts, p') \<and> length ts = length cs \<and>
    bandwidth n occ ts \<and> (\<forall>i<length cs. cs ! i \<le> ts ! i)"
proof -
  have ne: "replicate_mset n c0 \<noteq> {#}" using assms(2) by (cases n) simp_all
  show ?thesis
    using create_slots [OF assms] grants_bandwidth_new [OF ne, of occ cs] grants_after [OF ne, of _ cs occ]
    by fastforce
qed

theorem port_bandwidth_witness:
  "\<exists>p ts p'. Port_create 5 3 4 = Some p \<and> slots Port_nextSlot [5, 6, 6, 6, 9] p = Some (ts, p') \<and>
    bandwidth 3 4 ts"
proof -
  obtain p where p: "Port_create 5 3 4 = Some p" by (simp add: Port_create_def)
  then show ?thesis using port_bandwidth [OF p, of "[5, 6, 6, 6, 9]"] by auto
qed

text \<open>C31: \<open>occupySlots\<close> of the pipelined ports with one unit returns the slot that the first of
  as many calls of \<open>nextSlot\<close> would return, and leaves the port busy for as long.\<close>

theorem port_occupySlots_iterates:
  assumes "0 < k"
  shows "(\<exists>p'. slots FullyPipe_nextSlot (replicate k c) p =
        Some (fst (FullyPipe_occupySlots c k p) # map (\<lambda>i. max c (lTime p) + i) [1..<k], p') \<and>
      lTime p' = lTime (snd (FullyPipe_occupySlots c k p))) \<and>
    (1 < pp_ocp u \<longrightarrow> (\<exists>t v u'. Pipe_occupySlots c k u = Some (t, v) \<and>
      slots Pipe_nextSlot (replicate k c) u =
        Some (t # map (\<lambda>i. max c (lTime u) + i * pp_ocp u) [1..<k], u') \<and> lTime u' = lTime v))"
proof -
  have up: "[0..<k] = 0 # [1..<k]" using assms by (simp add: upt_conv_Cons)
  have a: "fst (FullyPipe_occupySlots c k p) = max c (lTime p)"
      "lTime (snd (FullyPipe_occupySlots c k p)) = max c (lTime p) + k"
    by (simp_all add: FullyPipe_occupySlots_def Let_def)
  have b: "1 < pp_ocp u \<Longrightarrow> \<exists>v. Pipe_occupySlots c k u = Some (max c (lTime u), v) \<and>
      lTime v = max c (lTime u) + k * pp_ocp u"
    by (auto simp: Pipe_occupySlots_def Let_def port_sample_def)
  show ?thesis
    using FullyPipe_slots [of k c p] Pipe_slots [of k c u] assms b
    by (auto simp: up a simp del: upt.simps)
qed

theorem port_occupySlots_iterates_witness:
  "\<exists>p'. slots FullyPipe_nextSlot [4, 4, 4] (FullyPipe_new 2) = Some ([4, 5, 6], p')"
proof -
  have r: "replicate 3 4 = [4, 4, 4 :: nat]" "[Suc 0..<3] = [Suc 0, 2]"
    by (simp_all add: numeral_3_eq_3 numeral_2_eq_2)
  show ?thesis
    using port_occupySlots_iterates [of 3 4 "FullyPipe_new 2" "Pipe_new 0 2"]
    by (auto simp: r FullyPipe_occupySlots_def FullyPipe_new_def Let_def port_base.defs port_base_new_def)
qed

text \<open>\<open>PortFullyNPipe::occupySlots\<close> of fewer slots than units reserves nothing: the port
  afterwards has the same time and the same free units as before, and grants the same slot
  again, where \<open>nextSlot\<close> as often would have used units up.\<close>

theorem fullynpipe_occupySlots_free:
  assumes "nSlots \<le> nUnitsMinusOne p" "c \<le> lTime p"
  shows "\<exists>p'. FullyNPipe_occupySlots c nSlots p = (lTime p, p') \<and> lTime p' = lTime p \<and>
    freeUnits p' = freeUnits p \<and> nUnitsMinusOne p' = nUnitsMinusOne p \<and>
    FullyNPipe_calcNextSlot c p' = FullyNPipe_calcNextSlot c p"
proof -
  have "catch_up c p = p" using assms(2) by (simp add: catch_up_def)
  then show ?thesis using assms
    by (simp add: FullyNPipe_occupySlots_def Let_def port_sample_def FullyNPipe_calcNextSlot_def)
qed

theorem fullynpipe_occupySlots_free_witness:
  "\<exists>p p'. FullyNPipe_new 7 4 = Some p \<and> FullyNPipe_occupySlots 7 3 p = (7, p') \<and> freeUnits p' = 4"
proof -
  obtain p where p: "FullyNPipe_new 7 4 = Some p" "lTime p = 7" "nUnitsMinusOne p = 3" "freeUnits p = 4"
    by (auto simp: FullyNPipe_new_def)
  then show ?thesis using fullynpipe_occupySlots_free [of 3 p 7] by auto
qed

text \<open>\<open>PortNPipe::occupySlots\<close> records the wait of unit 0 without the test for an idle
  unit: on a port whose unit 0 has been idle for \<open>d\<close> cycles the average time goes down by
  \<open>d\<close>, although no request waits a negative time.\<close>

theorem npipe_occupySlots_negative_sample:
  assumes "npipe_ok p" "portBusyUntil p ! 0 + d = c"
  shows "\<exists>t p'. NPipe_occupySlots c nSlots p = Some (t, p') \<and>
    ga_data (avgTime p') = ga_data (avgTime p) - int d \<and>
    ga_nData (avgTime p') = ga_nData (avgTime p) + 1"
proof -
  have d: "int (portBusyUntil p ! 0) - int c = - int d" using assms(2) by linarith
  show ?thesis using NPipe_occupy_sample [OF assms(1), of c nSlots] unfolding d by auto
qed

theorem npipe_occupySlots_negative_sample_witness:
  "\<exists>t p'. NPipe_occupySlots 100 2 (NPipe_new 10 2 3) = Some (t, p') \<and> ga_data (avgTime p') = - 90"
proof -
  have "npipe_ok (NPipe_new 10 2 3)" "portBusyUntil (NPipe_new 10 2 3) ! 0 + 90 = 100"
      "ga_data (avgTime (NPipe_new 10 2 3)) = 0"
    by (simp_all add: npipe_ok_def NPipe_new_def GStatsAvg_new_def)
  then show ?thesis using npipe_occupySlots_negative_sample [of "NPipe_new 10 2 3" 90 100 2] by auto
qed



text \<open>\<open>nextSlotDelta\<close> returns the wait for the next slot as a 16-bit number: it is right
  exactly when the port is less than 65536 cycles behind, and too small otherwise.\<close>

theorem port_nextSlotDelta_bound:
  assumes "Port_nextSlot c p = Some (t, p')" "c \<le> t"
  shows "\<exists>d. Port_nextSlotDelta c p = Some (d, p') \<and> d < 65536 \<and> c + d \<le> t \<and>
    (c + d = t) = (t < c + 65536)"
proof -
  have i: "int t - int c = int (t - c)" using assms(2) by (rule of_nat_diff [symmetric])
  have "u16 (int n) = n mod 65536" for n :: nat
  proof -
    have "int n mod 2 ^ 16 = int (n mod 65536)" by (simp add: zmod_int)
    then show ?thesis by (simp only: u16_def nat_int)
  qed
  then have d: "u16 (int t - int c) = (t - c) mod 65536" by (simp only: i)
  have "c + (t - c) mod 65536 \<le> t" using assms(2) mod_less_eq_dividend [of "t - c" 65536] by linarith
  moreover have "(c + (t - c) mod 65536 = t) = (t < c + 65536)"
  proof
    assume "c + (t - c) mod 65536 = t"
    moreover have "(t - c) mod 65536 < 65536" by simp
    ultimately show "t < c + 65536" by linarith
  next
    assume "t < c + 65536"
    then show "c + (t - c) mod 65536 = t" using assms(2) by simp
  qed
  ultimately show ?thesis using assms(1) d by (simp add: Port_nextSlotDelta_def)
qed

theorem port_nextSlotDelta_bound_witness:
  "\<exists>d p'. Port_nextSlotDelta 7 (PortUnlimited (Unlimited_new 7)) = Some (d, p') \<and> 7 + d = 7"
proof -
  have "\<exists>p'. Port_nextSlot 7 (PortUnlimited (Unlimited_new 7)) = Some (7, p')"
    by (simp add: Port_nextSlot_def Unlimited_nextSlot_def Unlimited_new_def Let_def catch_up_def
        port_base.defs port_base_new_def)
  then obtain p' where "Port_nextSlot 7 (PortUnlimited (Unlimited_new 7)) = Some (7, p')" by blast
  from port_nextSlotDelta_bound [OF this] show ?thesis by auto
qed

subsection \<open>Caches\<close>

text \<open>C29: for sizes that are powers of two, a new associative cache is well formed, holds no
  valid line, and takes as tag the address without its offset in the line.\<close>

theorem cache_new_empty:
  assumes "s = 2 ^ i" "a = 2 ^ j" "b = 2 ^ k" "u = 2 ^ l" "l \<le> k" "j + k \<le> i" "i < 64"
    and "parse_policy pStr = Some pol" "fresh_line S" "length junk = 2 ^ (i - k) + 1"
  shows "\<exists>c. CacheAssoc_new S junk s a b u pStr = Some c \<and> cache_ok S c \<and> assoc c = a \<and>
    repl_policy c = pol \<and> calcTag c = (\<lambda>addr. addr div 2 ^ (k - l)) \<and>
    (\<forall>x\<in>set (content c). \<not> isValid S (mem c ! x))"
  using assms by (rule CacheAssoc_new_ok)

theorem cache_new_empty_witness:
  "\<exists>c. CacheAssoc_new StateGeneric (replicate 5 9) 128 2 32 1 ''lru'' = Some c \<and>
    cache_ok StateGeneric c \<and> repl_policy c = LRU"
proof -
  have "parse_policy ''lru'' = Some LRU" by code_simp
  then show ?thesis
    using cache_new_empty [of 128 7 2 1 32 5 1 0 "''lru''" LRU StateGeneric "replicate 5 9"]
      StateGeneric_fresh by auto
qed

text \<open>C15: a search for a tag in a well-formed cache returns; it finds the line with the tag
  when there is one, anywhere in the cache, moves it to the front of its set and keeps the
  order of the others, and otherwise changes nothing.\<close>

theorem cache_find_line:
  assumes "cache_ok S c" "tag \<noteq> 0" "Energy B \<longrightarrow> goodInterface c"
  shows "\<exists>r c'. Assoc_findLineTag B S c tag = Some (r, c') \<and> cache_ok S c' \<and> mem c' = mem c \<and>
    (case r of
       None \<Rightarrow> c' = c \<and> (\<forall>x\<in>set (content c). getTag S (mem c ! x) \<noteq> tag)
     | Some x \<Rightarrow> x \<in> set (ways c (calcIndex4Tag c tag)) \<and> getTag S (mem c ! x) = tag \<and>
         ways c' (calcIndex4Tag c tag) = x # remove1 x (ways c (calcIndex4Tag c tag)))"
  using findLineTag_ok [OF assms refl] .

definition cache4 :: "nat cache" where
  "cache4 = \<lparr>g_size = 128, lineSize = 32, addrUnit = 1, assoc = 4, log2Assoc = 2, log2AddrLs = 5,
     maskAssoc = 3, sets = 1, maskSets = 0, numLines = 4, mem = [11, 0, 13, 14, 0],
     content = [0, 1, 2, 3], irand = 0, repl_policy = LRU, goodInterface = False\<rparr>"

lemma cache4_ok: "cache_ok StateGeneric cache4"
proof -
  have g: "geom_ok cache4"
    unfolding geom_ok_def
    by (rule exI [of _ 2], rule exI [of _ 0]) (simp add: cache4_def)
  moreover have "mset (content cache4) = mset [0..<numLines cache4]"
  proof -
    have "[0..<4] = [0, 1, 2, 3]" by (simp add: upt_conv_Cons)
    then show ?thesis by (simp only: cache4_def cache.simps geometry.simps)
  qed
  moreover have "lines_ok StateGeneric cache4" "unique_ok StateGeneric cache4"
    by (simp_all add: lines_ok_def unique_ok_def StateGeneric_def cache4_def)
  moreover have "home_ok StateGeneric cache4"
  proof -
    have "calcIndex4Tag cache4 t = 0" for t
      by (simp add: calcIndex4Tag_def calcSet4Tag_def calcIndex4Set_def cache4_def)
    then show ?thesis by (simp add: home_ok_def) (simp add: cache4_def)
  qed
  ultimately show ?thesis by (simp add: cache_ok_def) (simp add: cache4_def)
qed

theorem cache_find_line_witness:
  "\<exists>c'. Assoc_findLineTag \<lparr>Energy = False, SESC_SMP = False\<rparr> StateGeneric cache4 13 = Some (Some 2, c') \<and>
    ways c' 0 = [2, 0, 1, 3]"
proof -
  have i: "calcIndex4Tag cache4 13 = 0" "ways cache4 0 = [0, 1, 2, 3]"
    by (simp_all add: calcIndex4Tag_def calcSet4Tag_def calcIndex4Set_def cache4_def ways_def)
  obtain r c' where r: "Assoc_findLineTag \<lparr>Energy = False, SESC_SMP = False\<rparr> StateGeneric cache4 13 = Some (r, c')"
     "case r of
       None \<Rightarrow> c' = cache4 \<and> (\<forall>x\<in>set (content cache4). getTag StateGeneric (mem cache4 ! x) \<noteq> 13)
     | Some x \<Rightarrow> x \<in> set [0, 1, 2, 3] \<and> getTag StateGeneric (mem cache4 ! x) = 13 \<and>
         ways c' 0 = x # remove1 x [0, 1, 2, 3]"
    using cache_find_line [OF cache4_ok, of 13 "\<lparr>Energy = False, SESC_SMP = False\<rparr>", unfolded i] by auto
  have "r = Some 2" using r(2) by (cases r) (auto simp: cache4_def StateGeneric_def)
  then show ?thesis using r by auto
qed



text \<open>C16: \<open>fillLine\<close> puts the tag of the address into the chosen line and changes no other;
  it returns the address of the line that it displaced, and a following search finds the
  new line. It fails only when every line of the set is locked.\<close>

theorem cache_fill_then_find:
  assumes "cache_ok S c" "fills S" "calcTag c addr \<noteq> 0"
  shows "\<exists>r rplcAddr c'. cache_fillLine S (Assoc_findLine2Replace S) c addr ig = Some (r, rplcAddr, c') \<and>
    cache_ok S c' \<and>
    (case r of
       None \<Rightarrow> c' = c \<and> rplcAddr = 0 \<and> victim S c (calcIndex4Addr c addr) = None
     | Some i \<Rightarrow> i \<in> set (ways c (calcIndex4Addr c addr)) \<and> getTag S (mem c' ! i) = calcTag c addr \<and>
         (\<forall>j. j \<noteq> i \<longrightarrow> mem c' ! j = mem c ! j) \<and>
         rplcAddr = (if isValid S (mem c ! i) \<and> getTag S (mem c ! i) \<noteq> calcTag c addr
                     then calcAddr4Tag c (getTag S (mem c ! i)) else 0) \<and>
         (\<exists>c''. Assoc_findLineTag \<lparr>Energy = False, SESC_SMP = False\<rparr> S c' (calcTag c addr) = Some (Some i, c'')))"
  using assms by (rule fill_ok)

theorem cache_fill_then_find_witness:
  "\<exists>r rplcAddr c'. cache_fillLine StateGeneric (Assoc_findLine2Replace StateGeneric) cache4 800 True =
     Some (r, rplcAddr, c') \<and> cache_ok StateGeneric c'"
proof -
  have "calcTag cache4 800 \<noteq> 0" by (simp add: calcTag_def cache4_def drop_bit_eq_div)
  then show ?thesis using cache_fill_then_find [OF cache4_ok StateGeneric_fills, of 800 True] by blast
qed

text \<open>C30: the direct-mapped cache is the associative cache with one way: both operations agree
  on every well-formed cache with associativity 1.\<close>

theorem cache_dm_is_assoc1:
  assumes "cache_ok S c" "assoc c = 1" "calcTag c addr \<noteq> 0"
  shows "DM_findLineTag B S c (calcTag c addr) = Assoc_findLineTag B S c (calcTag c addr) \<and>
    DM_findLine2Replace S c addr ig = Assoc_findLine2Replace S c addr ig"
  using DM_find_eq [OF assms] DM_replace_eq [OF assms] by blast

definition cache1 :: "nat cache" where
  "cache1 = \<lparr>g_size = 32, lineSize = 32, addrUnit = 1, assoc = 1, log2Assoc = 0, log2AddrLs = 5,
     maskAssoc = 0, sets = 1, maskSets = 0, numLines = 1, mem = [11, 0],
     content = [0], irand = 0, repl_policy = LRU, goodInterface = False\<rparr>"

lemma cache1_ok: "cache_ok StateGeneric cache1"
proof -
  have "geom_ok cache1"
    unfolding geom_ok_def by (rule exI [of _ 0], rule exI [of _ 0]) (simp add: cache1_def)
  moreover have "calcIndex4Tag cache1 t = 0" for t
    by (simp add: calcIndex4Tag_def calcSet4Tag_def calcIndex4Set_def cache1_def)
  ultimately show ?thesis
    by (auto simp: cache_ok_def lines_ok_def home_ok_def unique_ok_def StateGeneric_def)
      (simp_all add: cache1_def)
qed

theorem cache_dm_is_assoc1_witness:
  "DM_findLine2Replace StateGeneric cache1 800 True = Assoc_findLine2Replace StateGeneric cache1 800 True"
proof -
  have "assoc cache1 = 1" "calcTag cache1 800 \<noteq> 0"
    by (simp_all add: cache1_def calcTag_def drop_bit_eq_div)
  then show ?thesis using cache_dm_is_assoc1 [OF cache1_ok] by blast
qed

text \<open>\<open>calcTag\<close> and \<open>calcAddr4Tag\<close> are inverse: the address of the tag of an address is the
  address of its line, and a tag that fits an address comes back.\<close>

theorem cache_tag_roundtrip:
  assumes "geom_ok g" "addr < 2 ^ 64" "tag < 2 ^ (64 - log2AddrLs g)"
  shows "calcAddr4Tag g (calcTag g addr) = addr - addr mod 2 ^ log2AddrLs g \<and>
    calcTag g (calcAddr4Tag g tag) = tag"
proof -
  have "log2AddrLs g < 64" using assms(1) by (auto simp: geom_ok_def)
  then show ?thesis using addr_of_tag tag_of_addr assms(2,3) by blast
qed

theorem cache_tag_roundtrip_witness: "calcAddr4Tag cache4 (calcTag cache4 813) = 800"
proof -
  have "geom_ok cache4" "log2AddrLs cache4 = 5" using cache4_ok by (simp_all add: cache_ok_def cache4_def)
  then show ?thesis using cache_tag_roundtrip [of cache4 813 0] by simp
qed

subsection \<open>Integer helpers\<close>

text \<open>\<open>log2i\<close> of a power of two that fits a 64-bit word is its exponent; for an argument
  above 2^63 the loop, whose bound has shifted out of the word, does not return.\<close>

theorem log2i_exact:
  assumes "k < 64" "(2::64 word) ^ 63 < n"
  shows "map_option unat (log2i (2 ^ k)) = Some k \<and> log2i n = None"
  using log2i_pow2 [OF assms(1)] unat_log2i [OF assms(1)] log2i_diverges [OF assms(2)] by simp

theorem log2i_exact_witness: "map_option unat (log2i (2 ^ 63)) = Some 63 \<and> log2i (2 ^ 63 + 1) = None"
proof -
  have "(2::64 word) ^ 63 < 2 ^ 63 + 1" by simp
  then show ?thesis using log2i_exact [of 63 "2 ^ 63 + 1"] by simp
qed

text \<open>\<open>roundUpPower2\<close> of a number up to 2^31 is the least power of two that is not below
  it; in particular a power of two is its own result.\<close>

theorem roundUpPower2_least:
  assumes "0 < unat x" "unat x \<le> 2 ^ 31"
  shows "unat (roundUpPower2 x) = (2::nat) ^ (LEAST k. unat x \<le> 2 ^ k)"
  using roundUp_correct [OF assms] by (simp add: pow2_above_def)

theorem roundUpPower2_least_witness: "unat (roundUpPower2 5) = (2::nat) ^ (LEAST k. (5::nat) \<le> 2 ^ k)"
  using roundUpPower2_least [of 5] by simp

end
