(* ===== verification/SMP_State.thy ===== *)
theory SMP_State
  imports Cache_Model
begin

text \<open>
  The state of a line of a coherent cache: the encoding of libsmp/SMPCacheState.h and
  MESIProtocol.h (32-bit words whose bits mean transient, readable, writeable, dirty), the
  class \<open>SMPCacheState\<close> as a template argument of the cache core, and the transitions
  that \<open>MESIProtocol::changeState\<close> allows.
\<close>

subsection \<open>Encoding\<close>

definition SMP_INVALID :: "32 word" where "SMP_INVALID = 0x00000000"
definition SMP_TRANS_BIT :: "32 word" where "SMP_TRANS_BIT = 0x10000000"
definition SMP_TRANS_RSV :: "32 word" where "SMP_TRANS_RSV = 0x14000000"
definition SMP_TRANS_INV :: "32 word" where "SMP_TRANS_INV = 0x18000000"
definition SMP_TRANS_INV_D :: "32 word" where "SMP_TRANS_INV_D = 0x18000001"
definition SMP_INV_BIT :: "32 word" where "SMP_INV_BIT = 0x08000000"
definition SMP_VALID_BIT :: "32 word" where "SMP_VALID_BIT = 0x00100000"
definition SMP_DIRTY_BIT :: "32 word" where "SMP_DIRTY_BIT = 0x00000001"
definition SMP_READABLE_BIT :: "32 word" where "SMP_READABLE_BIT = 0x00100000"
definition SMP_WRITEABLE_BIT :: "32 word" where "SMP_WRITEABLE_BIT = 0x00200000"

definition MESI_INVALID :: "32 word" where "MESI_INVALID = 0x00000000"
definition MESI_TRANS :: "32 word" where "MESI_TRANS = 0x10000000"
definition MESI_TRANS_RD :: "32 word" where "MESI_TRANS_RD = 0x12000000"
definition MESI_TRANS_RD_MEM :: "32 word" where "MESI_TRANS_RD_MEM = 0x16000000"
definition MESI_TRANS_WR :: "32 word" where "MESI_TRANS_WR = 0x13000000"
definition MESI_TRANS_WR_MEM :: "32 word" where "MESI_TRANS_WR_MEM = 0x17000000"
definition MESI_TRANS_RSV :: "32 word" where "MESI_TRANS_RSV = 0x14000000"
definition MESI_TRANS_INV :: "32 word" where "MESI_TRANS_INV = 0x18000000"
definition MESI_TRANS_INV_D :: "32 word" where "MESI_TRANS_INV_D = 0x18000001"
definition MESI_MODIFIED :: "32 word" where "MESI_MODIFIED = 0x00300001"
definition MESI_EXCLUSIVE :: "32 word" where "MESI_EXCLUSIVE = 0x00300010"
definition MESI_SHARED :: "32 word" where "MESI_SHARED = 0x00100100"

lemmas mesi_consts = SMP_INVALID_def SMP_TRANS_BIT_def SMP_TRANS_RSV_def SMP_TRANS_INV_def
  SMP_TRANS_INV_D_def SMP_INV_BIT_def SMP_VALID_BIT_def SMP_DIRTY_BIT_def SMP_READABLE_BIT_def
  SMP_WRITEABLE_BIT_def MESI_INVALID_def MESI_TRANS_def MESI_TRANS_RD_def MESI_TRANS_RD_MEM_def
  MESI_TRANS_WR_def MESI_TRANS_WR_MEM_def MESI_TRANS_RSV_def MESI_TRANS_INV_def
  MESI_TRANS_INV_D_def MESI_MODIFIED_def MESI_EXCLUSIVE_def MESI_SHARED_def

subsection \<open>SMPCacheState\<close>

record smp_line =
  sl_tag :: nat
  sl_state :: "32 word"

definition st_isValid :: "32 word \<Rightarrow> bool" where
  "st_isValid st = (st \<noteq> SMP_INVALID)"

definition st_isLocked :: "32 word \<Rightarrow> bool" where
  "st_isLocked st = (st AND SMP_TRANS_BIT \<noteq> 0)"

definition st_isDirty :: "32 word \<Rightarrow> bool" where
  "st_isDirty st = (st AND SMP_DIRTY_BIT \<noteq> 0)"

definition st_canBeRead :: "32 word \<Rightarrow> bool" where
  "st_canBeRead st = (st AND SMP_READABLE_BIT \<noteq> 0)"

definition st_canBeWritten :: "32 word \<Rightarrow> bool" where
  "st_canBeWritten st = (st AND SMP_WRITEABLE_BIT \<noteq> 0)"

text \<open>
  \<open>invalidate\<close>: a locked line may be invalidated only at the end of an invalidation.
\<close>

definition SMPCacheState_invalidate :: "smp_line \<Rightarrow> smp_line option" where
  "SMPCacheState_invalidate l = do {
     I_check (st_isLocked (sl_state l) \<longrightarrow>
       sl_state l AND SMP_TRANS_BIT \<noteq> 0 \<and> sl_state l AND SMP_INV_BIT \<noteq> 0);
     Some \<lparr>sl_tag = 0, sl_state = SMP_INVALID\<rparr> }"

definition SMPCacheState_changeStateTo :: "32 word \<Rightarrow> smp_line \<Rightarrow> smp_line option" where
  "SMPCacheState_changeStateTo newstate l = do {
     I_check (newstate \<noteq> SMP_INVALID);
     Some (l\<lparr>sl_state := newstate\<rparr>) }"

text \<open>The instance of the cache core (the constructor leaves a line in the state invalid).\<close>

definition SMPCacheState :: "smp_line line_ops" where
  "SMPCacheState = \<lparr>getTag = sl_tag,
     setTag = (\<lambda>a l. do { I_check (a \<noteq> 0); Some (l\<lparr>sl_tag := a\<rparr>) }),
     isValid = (\<lambda>l. st_isValid (sl_state l)), isLocked = (\<lambda>l. st_isLocked (sl_state l)),
     initialize = (\<lambda>l. \<lparr>sl_tag = 0, sl_state = SMP_INVALID\<rparr>),
     invalidate = (\<lambda>l. \<lparr>sl_tag = 0, sl_state = SMP_INVALID\<rparr>)\<rparr>"

subsection \<open>Transitions\<close>

text \<open>\<open>MESIProtocol::changeState\<close> on the state of a line.\<close>

definition changeState :: "32 word \<Rightarrow> 32 word \<Rightarrow> 32 word option" where
  "changeState cur new = do {
     I_check (new \<noteq> MESI_INVALID);
     I_check (cur = MESI_INVALID \<longrightarrow> new = MESI_TRANS_RSV);
     I_check (cur = MESI_TRANS_RSV \<longrightarrow> new = MESI_TRANS_RD \<or> new = MESI_TRANS_WR);
     I_check (cur = MESI_TRANS_RD \<longrightarrow> new = MESI_SHARED \<or> new = MESI_TRANS_RD_MEM);
     I_check (cur = MESI_TRANS_RD_MEM \<longrightarrow> new = MESI_EXCLUSIVE);
     I_check (cur = MESI_TRANS_WR \<longrightarrow> new = MESI_MODIFIED \<or> new = MESI_TRANS_WR_MEM);
     I_check (cur = MESI_TRANS_WR_MEM \<longrightarrow> new = MESI_MODIFIED);
     I_check (cur = MESI_EXCLUSIVE \<longrightarrow>
       new = MESI_SHARED \<or> new = MESI_MODIFIED \<or> new = MESI_TRANS_INV);
     I_check (cur = MESI_SHARED \<longrightarrow>
       new = MESI_SHARED \<or> new = MESI_MODIFIED \<or> new = MESI_TRANS_INV \<or> new = MESI_TRANS_WR);
     I_check (cur = MESI_MODIFIED \<longrightarrow> new = MESI_SHARED \<or> new = MESI_TRANS_INV_D);
     Some new }"

definition makeDirty :: "32 word \<Rightarrow> 32 word option" where
  "makeDirty st = do { I_check (st_isValid st); changeState st MESI_MODIFIED }"

definition preInvalidate :: "32 word \<Rightarrow> 32 word option" where
  "preInvalidate st = do {
     I_check (st_isValid st);
     if st_isDirty st then changeState st MESI_TRANS_INV_D else changeState st MESI_TRANS_INV }"

subsection \<open>The states, tabulated\<close>

lemma mesi_distinct [simp]:
  "MESI_INVALID \<noteq> MESI_SHARED" "MESI_SHARED \<noteq> MESI_INVALID"
  "MESI_INVALID \<noteq> MESI_EXCLUSIVE" "MESI_EXCLUSIVE \<noteq> MESI_INVALID"
  "MESI_INVALID \<noteq> MESI_MODIFIED" "MESI_MODIFIED \<noteq> MESI_INVALID"
  "MESI_SHARED \<noteq> MESI_EXCLUSIVE" "MESI_EXCLUSIVE \<noteq> MESI_SHARED"
  "MESI_SHARED \<noteq> MESI_MODIFIED" "MESI_MODIFIED \<noteq> MESI_SHARED"
  "MESI_EXCLUSIVE \<noteq> MESI_MODIFIED" "MESI_MODIFIED \<noteq> MESI_EXCLUSIVE"
  by (simp_all add: mesi_consts)

definition mesi_trans :: "32 word set" where
  "mesi_trans = {MESI_TRANS_RD, MESI_TRANS_RD_MEM, MESI_TRANS_WR, MESI_TRANS_WR_MEM,
     MESI_TRANS_RSV, MESI_TRANS_INV, MESI_TRANS_INV_D}"

definition mesi_valid :: "32 word set" where
  "mesi_valid = {MESI_SHARED, MESI_EXCLUSIVE, MESI_MODIFIED}"

lemma mesi_trans_distinct [simp]:
  "x \<in> mesi_trans \<Longrightarrow> x \<noteq> MESI_INVALID \<and> x \<noteq> MESI_SHARED \<and> x \<noteq> MESI_EXCLUSIVE \<and> x \<noteq> MESI_MODIFIED"
  by (auto simp: mesi_trans_def mesi_consts)

lemma mesi_trans_states [simp]:
  "MESI_TRANS_RD \<noteq> MESI_TRANS_RD_MEM" "MESI_TRANS_RD \<noteq> MESI_TRANS_WR" "MESI_TRANS_RD \<noteq> MESI_TRANS_WR_MEM"
  "MESI_TRANS_RD \<noteq> MESI_TRANS_RSV" "MESI_TRANS_RD \<noteq> MESI_TRANS_INV" "MESI_TRANS_RD \<noteq> MESI_TRANS_INV_D"
  "MESI_TRANS_RD_MEM \<noteq> MESI_TRANS_RD" "MESI_TRANS_RD_MEM \<noteq> MESI_TRANS_WR"
  "MESI_TRANS_RD_MEM \<noteq> MESI_TRANS_WR_MEM" "MESI_TRANS_RD_MEM \<noteq> MESI_TRANS_RSV"
  "MESI_TRANS_RD_MEM \<noteq> MESI_TRANS_INV" "MESI_TRANS_RD_MEM \<noteq> MESI_TRANS_INV_D"
  "MESI_TRANS_WR \<noteq> MESI_TRANS_RD" "MESI_TRANS_WR \<noteq> MESI_TRANS_RD_MEM" "MESI_TRANS_WR \<noteq> MESI_TRANS_WR_MEM"
  "MESI_TRANS_WR \<noteq> MESI_TRANS_RSV" "MESI_TRANS_WR \<noteq> MESI_TRANS_INV" "MESI_TRANS_WR \<noteq> MESI_TRANS_INV_D"
  "MESI_TRANS_WR_MEM \<noteq> MESI_TRANS_RD" "MESI_TRANS_WR_MEM \<noteq> MESI_TRANS_RD_MEM"
  "MESI_TRANS_WR_MEM \<noteq> MESI_TRANS_WR" "MESI_TRANS_WR_MEM \<noteq> MESI_TRANS_RSV"
  "MESI_TRANS_WR_MEM \<noteq> MESI_TRANS_INV" "MESI_TRANS_WR_MEM \<noteq> MESI_TRANS_INV_D"
  "MESI_TRANS_RSV \<noteq> MESI_TRANS_RD" "MESI_TRANS_RSV \<noteq> MESI_TRANS_RD_MEM" "MESI_TRANS_RSV \<noteq> MESI_TRANS_WR"
  "MESI_TRANS_RSV \<noteq> MESI_TRANS_WR_MEM" "MESI_TRANS_RSV \<noteq> MESI_TRANS_INV" "MESI_TRANS_RSV \<noteq> MESI_TRANS_INV_D"
  "MESI_TRANS_INV \<noteq> MESI_TRANS_RD" "MESI_TRANS_INV \<noteq> MESI_TRANS_RD_MEM" "MESI_TRANS_INV \<noteq> MESI_TRANS_WR"
  "MESI_TRANS_INV \<noteq> MESI_TRANS_WR_MEM" "MESI_TRANS_INV \<noteq> MESI_TRANS_RSV" "MESI_TRANS_INV \<noteq> MESI_TRANS_INV_D"
  "MESI_TRANS_INV_D \<noteq> MESI_TRANS_RD" "MESI_TRANS_INV_D \<noteq> MESI_TRANS_RD_MEM"
  "MESI_TRANS_INV_D \<noteq> MESI_TRANS_WR" "MESI_TRANS_INV_D \<noteq> MESI_TRANS_WR_MEM"
  "MESI_TRANS_INV_D \<noteq> MESI_TRANS_RSV" "MESI_TRANS_INV_D \<noteq> MESI_TRANS_INV"
  by (simp_all add: mesi_consts)

lemma mesi_trans_mem [simp]:
  "MESI_TRANS_RD \<in> mesi_trans" "MESI_TRANS_RD_MEM \<in> mesi_trans" "MESI_TRANS_WR \<in> mesi_trans"
  "MESI_TRANS_WR_MEM \<in> mesi_trans" "MESI_TRANS_RSV \<in> mesi_trans" "MESI_TRANS_INV \<in> mesi_trans"
  "MESI_TRANS_INV_D \<in> mesi_trans"
  "MESI_INVALID \<notin> mesi_trans" "MESI_SHARED \<notin> mesi_trans" "MESI_EXCLUSIVE \<notin> mesi_trans"
  "MESI_MODIFIED \<notin> mesi_trans"
  by (auto simp: mesi_trans_def mesi_consts)

lemma mesi_trans_neq [simp]:
  "MESI_TRANS_RD \<noteq> MESI_INVALID" "MESI_TRANS_RD \<noteq> MESI_SHARED" "MESI_TRANS_RD \<noteq> MESI_EXCLUSIVE"
  "MESI_TRANS_RD \<noteq> MESI_MODIFIED" "MESI_TRANS_RD_MEM \<noteq> MESI_INVALID" "MESI_TRANS_RD_MEM \<noteq> MESI_SHARED"
  "MESI_TRANS_RD_MEM \<noteq> MESI_EXCLUSIVE" "MESI_TRANS_RD_MEM \<noteq> MESI_MODIFIED"
  "MESI_TRANS_WR \<noteq> MESI_INVALID" "MESI_TRANS_WR \<noteq> MESI_SHARED" "MESI_TRANS_WR \<noteq> MESI_EXCLUSIVE"
  "MESI_TRANS_WR \<noteq> MESI_MODIFIED" "MESI_TRANS_WR_MEM \<noteq> MESI_INVALID" "MESI_TRANS_WR_MEM \<noteq> MESI_SHARED"
  "MESI_TRANS_WR_MEM \<noteq> MESI_EXCLUSIVE" "MESI_TRANS_WR_MEM \<noteq> MESI_MODIFIED"
  "MESI_TRANS_RSV \<noteq> MESI_INVALID" "MESI_TRANS_RSV \<noteq> MESI_SHARED" "MESI_TRANS_RSV \<noteq> MESI_EXCLUSIVE"
  "MESI_TRANS_RSV \<noteq> MESI_MODIFIED" "MESI_TRANS_INV \<noteq> MESI_INVALID" "MESI_TRANS_INV \<noteq> MESI_SHARED"
  "MESI_TRANS_INV \<noteq> MESI_EXCLUSIVE" "MESI_TRANS_INV \<noteq> MESI_MODIFIED"
  "MESI_TRANS_INV_D \<noteq> MESI_INVALID" "MESI_TRANS_INV_D \<noteq> MESI_SHARED" "MESI_TRANS_INV_D \<noteq> MESI_EXCLUSIVE"
  "MESI_TRANS_INV_D \<noteq> MESI_MODIFIED"
  by (simp_all add: mesi_consts)

lemmas mesi_trans_neq_sym [simp] = mesi_trans_neq [symmetric]

lemma locked_iff_trans:
  "x \<in> mesi_trans \<Longrightarrow> st_isLocked x" "x \<in> mesi_valid \<Longrightarrow> \<not> st_isLocked x" "\<not> st_isLocked MESI_INVALID"
  by (auto simp: mesi_trans_def mesi_valid_def st_isLocked_def mesi_consts)

lemma mesi_bits [simp]:
  "st_isLocked MESI_TRANS_RD" "st_isLocked MESI_TRANS_RD_MEM" "st_isLocked MESI_TRANS_WR"
  "st_isLocked MESI_TRANS_WR_MEM" "st_isLocked MESI_TRANS_RSV" "st_isLocked MESI_TRANS_INV"
  "st_isLocked MESI_TRANS_INV_D"
  "\<not> st_isLocked MESI_INVALID" "\<not> st_isLocked MESI_SHARED" "\<not> st_isLocked MESI_EXCLUSIVE"
  "\<not> st_isLocked MESI_MODIFIED"
  "st_isDirty MESI_MODIFIED" "st_isDirty MESI_TRANS_INV_D"
  "\<not> st_isDirty MESI_SHARED" "\<not> st_isDirty MESI_EXCLUSIVE" "\<not> st_isDirty MESI_TRANS_INV"
  "\<not> st_isDirty MESI_TRANS_RD" "\<not> st_isDirty MESI_TRANS_RD_MEM" "\<not> st_isDirty MESI_TRANS_WR"
  "\<not> st_isDirty MESI_TRANS_WR_MEM" "\<not> st_isDirty MESI_INVALID"
  "st_canBeRead MESI_MODIFIED" "st_canBeRead MESI_EXCLUSIVE" "st_canBeRead MESI_SHARED"
  "\<not> st_canBeRead MESI_TRANS_RD" "\<not> st_canBeRead MESI_TRANS_RD_MEM" "\<not> st_canBeRead MESI_TRANS_WR"
  "\<not> st_canBeRead MESI_TRANS_WR_MEM" "\<not> st_canBeRead MESI_TRANS_INV" "\<not> st_canBeRead MESI_TRANS_INV_D"
  "\<not> st_canBeRead MESI_TRANS_RSV" "\<not> st_canBeRead MESI_INVALID"
  "st_canBeWritten MESI_MODIFIED" "st_canBeWritten MESI_EXCLUSIVE" "\<not> st_canBeWritten MESI_SHARED"
  "\<not> st_canBeWritten MESI_TRANS_RD" "\<not> st_canBeWritten MESI_TRANS_RD_MEM"
  "\<not> st_canBeWritten MESI_TRANS_WR" "\<not> st_canBeWritten MESI_TRANS_WR_MEM"
  "\<not> st_canBeWritten MESI_TRANS_INV" "\<not> st_canBeWritten MESI_TRANS_INV_D"
  "\<not> st_canBeWritten MESI_TRANS_RSV" "\<not> st_canBeWritten MESI_INVALID"
  "st_isValid MESI_SHARED" "st_isValid MESI_EXCLUSIVE" "st_isValid MESI_MODIFIED"
  "st_isValid MESI_TRANS_INV" "st_isValid MESI_TRANS_INV_D" "\<not> st_isValid MESI_INVALID"
  by (simp_all add: st_isLocked_def st_isDirty_def st_canBeRead_def st_canBeWritten_def st_isValid_def
      mesi_consts)

lemma mesi_masks [simp]:
  "MESI_SHARED AND MESI_TRANS = 0" "MESI_EXCLUSIVE AND MESI_TRANS = 0" "MESI_MODIFIED AND MESI_TRANS = 0"
  "MESI_TRANS_INV AND SMP_TRANS_BIT \<noteq> 0" "MESI_TRANS_INV_D AND SMP_TRANS_BIT \<noteq> 0"
  "MESI_TRANS_INV AND SMP_INV_BIT \<noteq> 0" "MESI_TRANS_INV_D AND SMP_INV_BIT \<noteq> 0"
  by (simp_all add: mesi_consts)

lemma changeState_new: "changeState cur new = Some st \<Longrightarrow> st = new"
  by (simp add: changeState_def)

lemma changeState_simps [simp]:
  "changeState MESI_INVALID MESI_TRANS_RSV = Some MESI_TRANS_RSV"
  "changeState MESI_TRANS_INV MESI_TRANS_RSV = Some MESI_TRANS_RSV"
  "changeState MESI_TRANS_INV_D MESI_TRANS_RSV = Some MESI_TRANS_RSV"
  "changeState MESI_TRANS_RSV MESI_TRANS_RD = Some MESI_TRANS_RD"
  "changeState MESI_TRANS_RSV MESI_TRANS_WR = Some MESI_TRANS_WR"
  "changeState MESI_TRANS_RD MESI_SHARED = Some MESI_SHARED"
  "changeState MESI_TRANS_RD MESI_TRANS_RD_MEM = Some MESI_TRANS_RD_MEM"
  "changeState MESI_TRANS_RD_MEM MESI_EXCLUSIVE = Some MESI_EXCLUSIVE"
  "changeState MESI_TRANS_WR MESI_MODIFIED = Some MESI_MODIFIED"
  "changeState MESI_TRANS_WR MESI_TRANS_WR_MEM = Some MESI_TRANS_WR_MEM"
  "changeState MESI_TRANS_WR_MEM MESI_MODIFIED = Some MESI_MODIFIED"
  "changeState MESI_EXCLUSIVE MESI_SHARED = Some MESI_SHARED"
  "changeState MESI_EXCLUSIVE MESI_MODIFIED = Some MESI_MODIFIED"
  "changeState MESI_EXCLUSIVE MESI_TRANS_INV = Some MESI_TRANS_INV"
  "changeState MESI_SHARED MESI_SHARED = Some MESI_SHARED"
  "changeState MESI_SHARED MESI_TRANS_INV = Some MESI_TRANS_INV"
  "changeState MESI_SHARED MESI_TRANS_WR = Some MESI_TRANS_WR"
  "changeState MESI_MODIFIED MESI_SHARED = Some MESI_SHARED"
  "changeState MESI_MODIFIED MESI_TRANS_INV_D = Some MESI_TRANS_INV_D"
  by (simp_all add: changeState_def)

lemma preInvalidate_simps [simp]:
  "preInvalidate MESI_SHARED = Some MESI_TRANS_INV" "preInvalidate MESI_EXCLUSIVE = Some MESI_TRANS_INV"
  "preInvalidate MESI_MODIFIED = Some MESI_TRANS_INV_D"
  by (simp_all add: preInvalidate_def)

lemma makeDirty_simps [simp]: "makeDirty MESI_EXCLUSIVE = Some MESI_MODIFIED"
  by (simp add: makeDirty_def)

end
