(* ===== verification/MESI_Model.thy ===== *)
theory MESI_Model
  imports SMP_State
begin

text \<open>
  The snooping MESI protocol of libsmp: the operations of SMPCache.cpp and MESIProtocol.cpp
  on one line address, the request object of SMPMemRequest.cpp and the bus of
  SMPSystemBus.cpp.

  A cache is seen through one address: \<open>ln\<close> is the state of the line that has the address
  as its tag (\<open>None\<close> when no line has, which is what \<open>findLine\<close> returns; \<open>Cache_Correct\<close>
  shows that the tag of a valid line is unique), \<open>pend\<close> the entry of the address in
  \<open>pendInvTable\<close>. The other fields record what the operation sent: write-backs, scheduled
  callbacks, requests and responses to the bus, and whether the access was concluded.
  Times and port occupancy are left to \<open>Port_Model\<close>.
\<close>

subsection \<open>Requests\<close>

datatype mem_op = MemRead | MemWrite | MemPush | MemReadW

record sreq =
  sr_memOp :: mem_op
  sr_requestor :: nat
  sr_supplier :: "nat option"
  sr_state :: "32 word"
  sr_found :: bool
  sr_needSnoop :: bool
  sr_needData :: bool
  sr_writeDown :: bool

definition SMPMemRequest_create :: "mem_op \<Rightarrow> nat \<Rightarrow> bool \<Rightarrow> sreq" where
  "SMPMemRequest_create memOp reqCache sendData =
     \<lparr>sr_memOp = memOp, sr_requestor = reqCache, sr_supplier = None, sr_state = SMP_INVALID,
      sr_found = False, sr_needSnoop = (memOp \<noteq> MemPush), sr_needData = sendData,
      sr_writeDown = False\<rparr>"

definition SMPMemRequest_create_push :: "nat \<Rightarrow> mem_op \<Rightarrow> bool \<Rightarrow> sreq" where
  "SMPMemRequest_create_push reqCache mOp needsWriteDown =
     \<lparr>sr_memOp = mOp, sr_requestor = reqCache, sr_supplier = None, sr_state = SMP_INVALID,
      sr_found = False, sr_needSnoop = (mOp \<noteq> MemPush), sr_needData = False,
      sr_writeDown = needsWriteDown\<rparr>"

text \<open>The assertion on \<open>wToRLevel\<close>, that a request is mutated once, is left out.\<close>

definition mutateWriteToRead :: "mem_op \<Rightarrow> mem_op" where
  "mutateWriteToRead memOp = (if memOp = MemWrite then MemReadW else memOp)"

subsection \<open>A cache, seen through one address\<close>

text \<open>Callbacks: the acknowledgement of a snoop, and the allocation that evicts the line.\<close>

datatype cbk = SendAck | DoAllocateLine

record pinv =
  outsResps :: int
  pi_cb :: cbk
  pi_invalidate :: bool

record loc =
  ln :: "32 word option"
  pend :: "pinv option"
  wbs :: nat
  cbs :: "cbk list"
  sent :: "sreq list"
  acked :: nat
  concl :: bool

definition loc_of :: "32 word option \<Rightarrow> pinv option \<Rightarrow> loc" where
  "loc_of l p = \<lparr>ln = l, pend = p, wbs = 0, cbs = [], sent = [], acked = 0, concl = False\<rparr>"

text \<open>The place of the cache in the hierarchy, and the number of caches.\<close>

record smp_config =
  nCaches :: nat
  isHighestLevel :: bool
  numUpper :: int

definition SMPCache_doWriteBack :: "loc \<Rightarrow> loc" where
  "SMPCache_doWriteBack l = l\<lparr>wbs := wbs l + 1\<rparr>"

definition SMPCache_sendBelow :: "sreq \<Rightarrow> loc \<Rightarrow> loc" where
  "SMPCache_sendBelow r l = l\<lparr>sent := sent l @ [r]\<rparr>"

definition SMPCache_respondBelow :: "nat \<Rightarrow> sreq \<Rightarrow> loc \<Rightarrow> loc" where
  "SMPCache_respondBelow this r l =
     (let l1 = (if sr_supplier r = Some this \<and> sr_writeDown r then SMPCache_doWriteBack l else l)
      in l1\<lparr>acked := acked l1 + 1\<rparr>)"

definition SMPCache_concludeAccess :: "loc \<Rightarrow> loc" where
  "SMPCache_concludeAccess l = l\<lparr>concl := True\<rparr>"

definition SMPCache_realInvalidate :: "loc \<Rightarrow> loc option" where
  "SMPCache_realInvalidate l =
     (case ln l of
        None \<Rightarrow> Some l
      | Some st \<Rightarrow> do {
          I_check (st_isValid st);
          let l1 = (if st_isDirty st then SMPCache_doWriteBack l else l);
          SMPCacheState_invalidate \<lparr>sl_tag = 0, sl_state = st\<rparr>;
          Some (l1\<lparr>ln := None\<rparr>) })"

definition SMPCache_doInvalidate :: "loc \<Rightarrow> loc option" where
  "SMPCache_doInvalidate l =
     (case pend l of
        None \<Rightarrow> None
      | Some rec \<Rightarrow>
          let outs = outsResps rec - 1 in
          if outs \<le> 0 then do {
            let l1 = l\<lparr>pend := None\<rparr>;
            l2 \<leftarrow> (if pi_invalidate rec then SMPCache_realInvalidate l1 else Some l1);
            Some (l2\<lparr>cbs := cbs l2 @ [pi_cb rec]\<rparr>) }
          else Some (l\<lparr>pend := Some (rec\<lparr>outsResps := outs\<rparr>)\<rparr>))"

definition SMPCache_invalidateLine :: "smp_config \<Rightarrow> cbk \<Rightarrow> loc \<Rightarrow> loc option" where
  "SMPCache_invalidateLine cfg cb l = do {
     st \<leftarrow> ln l;
     I_check (pend l = None);
     let l1 = l\<lparr>pend := Some \<lparr>outsResps = numUpper cfg, pi_cb = cb, pi_invalidate = True\<rparr>\<rparr>;
     st' \<leftarrow> preInvalidate st;
     let l2 = l1\<lparr>ln := Some st'\<rparr>;
     if \<not> isHighestLevel cfg then Some l2 else SMPCache_doInvalidate l2 }"

text \<open>
  \<open>invalidate\<close>, which \<open>SMPSystemBus::invalidate\<close> calls for a level below that gives the line up;
  \<open>cb\<close> is the callback \<open>doInvalidateCB::create(oc, addr, size)\<close>, which reports back to it.
\<close>

definition SMPCache_invalidate :: "smp_config \<Rightarrow> cbk \<Rightarrow> loc \<Rightarrow> loc option" where
  "SMPCache_invalidate cfg cb l = do {
     I_check (pend l = None);
     let l1 = l\<lparr>pend := Some \<lparr>outsResps = numUpper cfg, pi_cb = cb, pi_invalidate = True\<rparr>\<rparr>;
     if \<not> isHighestLevel cfg then Some l1 else SMPCache_doInvalidate l1 }"

text \<open>
  The eviction of the line by \<open>allocateLine\<close>, when it is the victim for another address:
  at the highest level the line changes its tag at once, otherwise the copies above are
  invalidated first and \<open>doAllocateLine\<close> finishes the work.
\<close>

definition SMPCache_allocateLine_victim :: "smp_config \<Rightarrow> loc \<Rightarrow> loc option" where
  "SMPCache_allocateLine_victim cfg l = do {
     st \<leftarrow> ln l;
     I_check (st_isValid st \<and> \<not> st_isLocked st);
     if isHighestLevel cfg then do {
       let l1 = (if st_isDirty st then SMPCache_doWriteBack l else l);
       preInvalidate st;
       Some (l1\<lparr>ln := None\<rparr>) }
     else do {
       I_check (pend l = None);
       st' \<leftarrow> preInvalidate st;
       Some (l\<lparr>pend := Some \<lparr>outsResps = numUpper cfg, pi_cb = DoAllocateLine, pi_invalidate = False\<rparr>,
               ln := Some st'\<rparr>) } }"

definition SMPCache_doAllocateLine_victim :: "loc \<Rightarrow> loc option" where
  "SMPCache_doAllocateLine_victim l = do {
     st \<leftarrow> ln l;
     I_check (st_isLocked st);
     let l1 = (if st_isDirty st then SMPCache_doWriteBack l else l);
     Some (l1\<lparr>ln := None\<rparr>) }"

subsection \<open>MESIProtocol: requests from above\<close>

definition MESI_doRead :: "nat \<Rightarrow> loc \<Rightarrow> loc option" where
  "MESI_doRead this l = do {
     st \<leftarrow> ln l;
     I_check (st_isLocked st \<longrightarrow> st = MESI_TRANS_RSV);
     st' \<leftarrow> changeState st MESI_TRANS_RD;
     Some (SMPCache_sendBelow (SMPMemRequest_create MemRead this True) (l\<lparr>ln := Some st'\<rparr>)) }"

definition MESI_doWrite :: "nat \<Rightarrow> mem_op \<Rightarrow> loc \<Rightarrow> loc option" where
  "MESI_doWrite this memOp l = do {
     st \<leftarrow> ln l;
     I_check (st_isLocked st \<longrightarrow> st = MESI_TRANS_RSV);
     st' \<leftarrow> changeState st MESI_TRANS_WR;
     Some (SMPCache_sendBelow (SMPMemRequest_create memOp this True) (l\<lparr>ln := Some st'\<rparr>)) }"

text \<open>
  \<open>read\<close> and \<open>write\<close>. The argument \<open>alloc\<close> is what \<open>allocateLine\<close> returns when the
  address has no line: the state of the line that now has its tag, or \<open>None\<close> when there
  is none to be had yet; the allocation then calls \<open>doRead\<close> or \<open>doWrite\<close> later. It is
  called only when there is no line (\<open>ln l = None\<close>), so its assertion on \<open>findLineDebug\<close> holds.
\<close>

definition MESI_read :: "nat \<Rightarrow> 32 word option \<Rightarrow> loc \<Rightarrow> loc option" where
  "MESI_read this alloc l = do {
     I_check (\<forall>st. ln l = Some st \<longrightarrow> \<not> st_isLocked st);
     case (if ln l = None then alloc else ln l) of
       None \<Rightarrow> Some l
     | Some st \<Rightarrow> do {
         st' \<leftarrow> changeState st MESI_TRANS_RSV;
         MESI_doRead this (l\<lparr>ln := Some st'\<rparr>) } }"

definition MESI_write :: "nat \<Rightarrow> mem_op \<Rightarrow> 32 word option \<Rightarrow> loc \<Rightarrow> loc option" where
  "MESI_write this memOp alloc l = do {
     I_check (\<forall>st. ln l = Some st \<longrightarrow> \<not> st_isLocked st \<and> st = MESI_SHARED);
     case ln l of
       Some st \<Rightarrow>
         if \<not> st_canBeWritten st then do {
           st' \<leftarrow> changeState st MESI_TRANS_WR;
           Some (SMPCache_sendBelow (SMPMemRequest_create memOp this False) (l\<lparr>ln := Some st'\<rparr>)) }
         else None
     | None \<Rightarrow>
         (case alloc of
            None \<Rightarrow> Some l
          | Some st \<Rightarrow> do {
              st' \<leftarrow> changeState st MESI_TRANS_RSV;
              MESI_doWrite this (mutateWriteToRead memOp) (l\<lparr>ln := Some st'\<rparr>) }) }"

text \<open>The end of an allocation that had to wait: \<open>cb->call()\<close> runs \<open>doRead\<close> or \<open>doWrite\<close>.\<close>

definition MESI_allocated :: "nat \<Rightarrow> mem_op \<Rightarrow> loc \<Rightarrow> loc option" where
  "MESI_allocated this memOp l =
     (let l1 = l\<lparr>ln := Some SMP_TRANS_RSV\<rparr> in
      if memOp = MemRead then MESI_doRead this l1 else MESI_doWrite this (mutateWriteToRead memOp) l1)"

subsection \<open>MESIProtocol: requests from other caches\<close>

definition combineResponses :: "nat \<Rightarrow> 32 word \<Rightarrow> sreq \<Rightarrow> sreq option" where
  "combineResponses this localState r =
     (let currentResponse = sr_state r in
      if localState = MESI_INVALID \<or> localState AND MESI_TRANS \<noteq> 0 then Some r
      else if localState = MESI_SHARED then do {
        I_check (currentResponse \<noteq> MESI_EXCLUSIVE \<and> currentResponse \<noteq> MESI_MODIFIED);
        Some (if \<not> sr_found r
              then r\<lparr>sr_found := True, sr_supplier := Some this, sr_state := localState\<rparr> else r) }
      else if localState = MESI_EXCLUSIVE then do {
        I_check (currentResponse \<noteq> MESI_EXCLUSIVE \<and> currentResponse \<noteq> MESI_MODIFIED);
        Some (r\<lparr>sr_found := True, sr_supplier := Some this, sr_state := localState\<rparr>) }
      else do {
        I_check (localState = MESI_MODIFIED);
        I_check (currentResponse \<noteq> MESI_EXCLUSIVE \<and> currentResponse \<noteq> MESI_MODIFIED);
        Some (r\<lparr>sr_found := True, sr_supplier := Some this, sr_writeDown := True,
                sr_state := localState\<rparr>) })"

definition readMissHandler :: "nat \<Rightarrow> sreq \<Rightarrow> loc \<Rightarrow> (sreq \<times> loc) option" where
  "readMissHandler this r l = do {
     (r1, l1) \<leftarrow>
       (case ln l of
          Some st \<Rightarrow>
            if \<not> st_isLocked st then do {
              r' \<leftarrow> combineResponses this st r;
              st' \<leftarrow> changeState st MESI_SHARED;
              Some (r', l\<lparr>ln := Some st'\<rparr>) }
            else Some (r, l)
        | None \<Rightarrow> Some (r, l));
     Some (r1, SMPCache_respondBelow this r1 l1) }"

text \<open>\<open>writeMissHandler\<close> and \<open>invalidateHandler\<close> have the same body.\<close>

definition writeMissHandler :: "smp_config \<Rightarrow> nat \<Rightarrow> sreq \<Rightarrow> loc \<Rightarrow> (sreq \<times> loc) option" where
  "writeMissHandler cfg this r l =
     (case ln l of
        Some st \<Rightarrow>
          if \<not> st_isLocked st then do {
            r1 \<leftarrow> combineResponses this st r;
            let r2 = (if sr_supplier r1 = Some this \<and> sr_writeDown r1 then r1\<lparr>sr_writeDown := False\<rparr> else r1);
            l1 \<leftarrow> SMPCache_invalidateLine cfg SendAck l;
            Some (r2, l1) }
          else Some (r, SMPCache_respondBelow this r l)
      | None \<Rightarrow> Some (r, SMPCache_respondBelow this r l))"

definition invalidateHandler :: "smp_config \<Rightarrow> nat \<Rightarrow> sreq \<Rightarrow> loc \<Rightarrow> (sreq \<times> loc) option" where
  "invalidateHandler cfg this r l =
     (case ln l of
        Some st \<Rightarrow>
          if \<not> st_isLocked st then do {
            r1 \<leftarrow> combineResponses this st r;
            let r2 = (if sr_supplier r1 = Some this \<and> sr_writeDown r1 then r1\<lparr>sr_writeDown := False\<rparr> else r1);
            l1 \<leftarrow> SMPCache_invalidateLine cfg SendAck l;
            Some (r2, l1) }
          else Some (r, SMPCache_respondBelow this r l)
      | None \<Rightarrow> Some (r, SMPCache_respondBelow this r l))"

definition SMPCache_doReceiveFromBelow :: "smp_config \<Rightarrow> nat \<Rightarrow> sreq \<Rightarrow> loc \<Rightarrow> (sreq \<times> loc) option" where
  "SMPCache_doReceiveFromBelow cfg this r l =
     (if sr_memOp r = MemRead then readMissHandler this r l
      else if sr_memOp r = MemReadW then
        (if sr_needData r then writeMissHandler cfg this r l else invalidateHandler cfg this r l)
      else if sr_memOp r = MemWrite then do {
        I_check (\<not> sr_needData r);
        invalidateHandler cfg this r l }
      else None)"

subsection \<open>MESIProtocol: the response\<close>

definition readMissAckHandler :: "sreq \<Rightarrow> loc \<Rightarrow> loc option" where
  "readMissAckHandler r l = do {
     st \<leftarrow> ln l;
     if sr_state r = MESI_INVALID \<and> st = MESI_TRANS_RD then do {
       I_check (\<not> sr_found r);
       st' \<leftarrow> changeState st MESI_TRANS_RD_MEM;
       Some (SMPCache_sendBelow (r\<lparr>sr_needSnoop := False\<rparr>) (l\<lparr>ln := Some st'\<rparr>)) }
     else if sr_state r = MESI_INVALID then do {
       I_check (st = MESI_TRANS_RD_MEM);
       st' \<leftarrow> changeState st MESI_EXCLUSIVE;
       Some (SMPCache_concludeAccess (l\<lparr>ln := Some st'\<rparr>)) }
     else do {
       I_check (st = MESI_TRANS_RD);
       st' \<leftarrow> changeState st MESI_SHARED;
       Some (SMPCache_concludeAccess (l\<lparr>ln := Some st'\<rparr>)) } }"

definition writeMissAckHandler :: "sreq \<Rightarrow> loc \<Rightarrow> loc option" where
  "writeMissAckHandler r l = do {
     st \<leftarrow> ln l;
     I_check (sr_needData r);
     if sr_state r = MESI_INVALID \<and> st = MESI_TRANS_WR then do {
       I_check (\<not> sr_found r);
       st' \<leftarrow> changeState st MESI_TRANS_WR_MEM;
       Some (SMPCache_sendBelow (r\<lparr>sr_needSnoop := False\<rparr>) (l\<lparr>ln := Some st'\<rparr>)) }
     else do {
       I_check (st = MESI_TRANS_WR \<or> st = MESI_TRANS_WR_MEM);
       st' \<leftarrow> changeState st MESI_MODIFIED;
       Some (SMPCache_concludeAccess (l\<lparr>ln := Some st'\<rparr>)) } }"

definition invalidateAckHandler :: "sreq \<Rightarrow> loc \<Rightarrow> loc option" where
  "invalidateAckHandler r l = do {
     st \<leftarrow> ln l;
     I_check (st = MESI_TRANS_WR);
     I_check (\<not> sr_needData r);
     st' \<leftarrow> changeState st MESI_MODIFIED;
     Some (SMPCache_concludeAccess (l\<lparr>ln := Some st'\<rparr>)) }"

text \<open>The branch of \<open>returnAccess\<close> for the requestor itself.\<close>

definition SMPCache_returnAccess :: "sreq \<Rightarrow> loc \<Rightarrow> loc option" where
  "SMPCache_returnAccess r l =
     (case sr_memOp r of
        MemRead \<Rightarrow> readMissAckHandler r l
      | MemReadW \<Rightarrow> if sr_needData r then writeMissAckHandler r l else invalidateAckHandler r l
      | MemWrite \<Rightarrow> do {
          I_check (\<not> sr_needData r);
          I_check (sr_needSnoop r);
          invalidateAckHandler r l }
      | MemPush \<Rightarrow> Some l)"

subsection \<open>SMPSystemBus\<close>

text \<open>
  What the bus does with a request: send it to memory, distribute it to the other caches,
  wait for more responses, or send it back to the requestor (\<open>True\<close> when the data comes
  from another cache and takes a slot of the data bus).
\<close>

datatype bus_out = ToMem | Distribute | Wait | GoUp bool

definition SMPSystemBus_finalizeAccess :: "sreq \<Rightarrow> bus_out option" where
  "SMPSystemBus_finalizeAccess r =
     (if sr_needData r \<and> sr_found r then do {
        I_check (sr_memOp r \<noteq> MemWrite);
        Some (GoUp True) }
      else Some (GoUp False))"

text \<open>
  \<open>doRead\<close> and \<open>doWrite\<close>, which have the same code: the argument \<open>cnt\<close> is the entry of the
  request in \<open>pendReqsTable\<close>.
\<close>

definition SMPSystemBus_doRead ::
  "smp_config \<Rightarrow> sreq \<Rightarrow> int option \<Rightarrow> (int option \<times> bus_out) option" where
  "SMPSystemBus_doRead cfg r cnt =
     (if \<not> sr_needSnoop r then Some (cnt, ToMem)
      else (case cnt of
              None \<Rightarrow>
                let numSnoops = int (nCaches cfg) - 1 in
                if numSnoops = 0 then map_option (Pair None) (SMPSystemBus_finalizeAccess r)
                else Some (Some numSnoops, Distribute)
            | Some k \<Rightarrow> do {
                I_check (0 < k);
                I_check (k \<le> int (nCaches cfg));
                if k - 1 \<noteq> 0 then Some (Some (k - 1), Wait)
                else map_option (Pair None) (SMPSystemBus_finalizeAccess r) }))"

definition SMPSystemBus_doWrite ::
  "smp_config \<Rightarrow> sreq \<Rightarrow> int option \<Rightarrow> (int option \<times> bus_out) option" where
  "SMPSystemBus_doWrite cfg r cnt =
     (if \<not> sr_needSnoop r then Some (cnt, ToMem)
      else (case cnt of
              None \<Rightarrow>
                let numSnoops = int (nCaches cfg) - 1 in
                if numSnoops = 0 then map_option (Pair None) (SMPSystemBus_finalizeAccess r)
                else Some (Some numSnoops, Distribute)
            | Some k \<Rightarrow> do {
                I_check (0 < k);
                I_check (k \<le> int (nCaches cfg));
                if k - 1 \<noteq> 0 then Some (Some (k - 1), Wait)
                else map_option (Pair None) (SMPSystemBus_finalizeAccess r) }))"

text \<open>A write-back goes to memory.\<close>

definition SMPSystemBus_access ::
  "smp_config \<Rightarrow> sreq \<Rightarrow> int option \<Rightarrow> (int option \<times> bus_out) option" where
  "SMPSystemBus_access cfg r cnt =
     (case sr_memOp r of
        MemRead \<Rightarrow> SMPSystemBus_doRead cfg r cnt
      | MemReadW \<Rightarrow> SMPSystemBus_doWrite cfg r cnt
      | MemWrite \<Rightarrow> SMPSystemBus_doWrite cfg r cnt
      | MemPush \<Rightarrow> Some (cnt, ToMem))"

lemma bus_access_eq: "sr_memOp r \<noteq> MemPush \<Longrightarrow> SMPSystemBus_access cfg r cnt = SMPSystemBus_doRead cfg r cnt"
  by (cases "sr_memOp r") (simp_all add: SMPSystemBus_access_def SMPSystemBus_doRead_def SMPSystemBus_doWrite_def)

end
