(* ===== verification/Coherence_Model.thy ===== *)
theory Coherence_Model
  imports MESI_Model
begin

text \<open>
  The caches of a system and their bus, seen through one line address, as a state machine.
  \<open>event\<close> lists what can happen next, \<open>guard\<close> when the simulator can come to it, and
  \<open>exec\<close> is the code that then runs, with the operations of \<open>MESI_Model\<close>; \<open>None\<close> is a
  failed assertion. The order of events is left open: ports, delays and the event
  scheduler decide it.

  \<open>mutExclBuffer\<close>, the MSHR that all caches share, lets one request per address through:
  it is \<open>txn\<close>, with the requests that wait for it in \<open>waiting\<close>.

  The simulator moves no data. The ghost variable \<open>home\<close> says where the last write to the
  line is, if the messages carried data: in memory (with the write-backs on their way to it)
  or in a cache. It is \<open>Stale\<close> from the moment when that goes wrong: memory answers a request
  for data while a cache has the last write, or a cache that does not have it overwrites
  memory that has.
\<close>

datatype data_home = InMemory | InCache nat | Stale

text \<open>A write by cache \<open>i\<close>, a write-back from cache \<open>j\<close>, and an answer from memory.\<close>

definition written_by :: "nat \<Rightarrow> data_home \<Rightarrow> data_home" where
  "written_by i h = (if h = Stale then Stale else InCache i)"

definition written_back :: "nat \<Rightarrow> data_home \<Rightarrow> data_home" where
  "written_back j h =
     (case h of
        InMemory \<Rightarrow> Stale
      | InCache i \<Rightarrow> if i = j then InMemory else InCache i
      | Stale \<Rightarrow> Stale)"

definition fetched :: "bool \<Rightarrow> data_home \<Rightarrow> data_home" where
  "fetched needData h =
     (case h of
        InMemory \<Rightarrow> InMemory
      | InCache i \<Rightarrow> if needData then Stale else InCache i
      | Stale \<Rightarrow> Stale)"

datatype place = AtAlloc | AtBus | AtSnoop | AtOwner | AtMem

record transaction =
  t_owner :: nat
  t_op :: mem_op
  t_req :: "sreq option"
  t_cnt :: "int option"
  t_at :: place
  t_todo :: "nat set"

record coh =
  lines :: "nat \<Rightarrow> 32 word option"
  pinvs :: "nat \<Rightarrow> pinv option"
  cbq :: "nat \<Rightarrow> cbk list"
  waiting :: "nat \<Rightarrow> mem_op option"
  txn :: "transaction option"
  home :: data_home

definition coh_init :: coh where
  "coh_init = \<lparr>lines = (\<lambda>_. None), pinvs = (\<lambda>_. None), cbq = (\<lambda>_. []), waiting = (\<lambda>_. None),
     txn = None, home = InMemory\<rparr>"

datatype event =
  Request nat mem_op "32 word option"
| Grant nat "32 word option"
| Allocated
| BusCycle
| Handle nat
| UpperAck nat
| Fire nat
| Evict nat
| MemReturn
| Response

definition loc_at :: "coh \<Rightarrow> nat \<Rightarrow> loc" where
  "loc_at s j = loc_of (lines s j) (pinvs s j)"

text \<open>Writes the result of an operation of cache \<open>j\<close> back.\<close>

definition put_loc :: "nat \<Rightarrow> loc \<Rightarrow> coh \<Rightarrow> coh" where
  "put_loc j l s = s\<lparr>lines := (lines s)(j := ln l), pinvs := (pinvs s)(j := pend l),
     cbq := (cbq s)(j := cbq s j @ cbs l), home := (if 0 < wbs l then written_back j (home s) else home s)\<rparr>"

text \<open>A request, or the next response to it, arrives at the bus.\<close>

definition bus_step :: "smp_config \<Rightarrow> transaction \<Rightarrow> transaction option" where
  "bus_step cfg t = do {
     r \<leftarrow> t_req t;
     (cnt, out) \<leftarrow> SMPSystemBus_access cfg r (t_cnt t);
     Some (case out of
             ToMem \<Rightarrow> t\<lparr>t_cnt := cnt, t_at := AtMem\<rparr>
           | Distribute \<Rightarrow> t\<lparr>t_cnt := cnt, t_at := AtSnoop, t_todo := {..<nCaches cfg} - {t_owner t}\<rparr>
           | Wait \<Rightarrow> t\<lparr>t_cnt := cnt\<rparr>
           | GoUp _ \<Rightarrow> t\<lparr>t_cnt := cnt, t_at := AtOwner\<rparr>) }"

text \<open>\<open>sendRead\<close> and \<open>sendWrite\<close>: the request has got the \<open>mutExclBuffer\<close> entry.\<close>

definition start :: "nat \<Rightarrow> mem_op \<Rightarrow> 32 word option \<Rightarrow> coh \<Rightarrow> coh option" where
  "start i memOp alloc s = do {
     l \<leftarrow> (if memOp = MemRead then MESI_read i alloc (loc_at s i)
           else MESI_write i memOp alloc (loc_at s i));
     let (req, place) = (case sent l of [] \<Rightarrow> (None, AtAlloc) | r # _ \<Rightarrow> (Some r, AtBus));
     Some ((put_loc i l s)\<lparr>txn := Some \<lparr>t_owner = i, t_op = memOp, t_req = req, t_cnt = None,
                             t_at = place, t_todo = {}\<rparr>\<rparr>) }"

text \<open>The request gets the entry of \<open>mutExclBuffer\<close>, or waits for it.\<close>

definition mutExcl :: "nat \<Rightarrow> mem_op \<Rightarrow> 32 word option \<Rightarrow> coh \<Rightarrow> coh option" where
  "mutExcl i memOp alloc s =
     (if txn s = None then start i memOp alloc s
      else Some (s\<lparr>waiting := (waiting s)(i := Some memOp)\<rparr>))"

text \<open>
  \<open>doRead\<close> and \<open>doWrite\<close>: a hit, a line in transition (the request is scheduled again), or
  a miss.
\<close>

definition SMPCache_doRead :: "nat \<Rightarrow> 32 word option \<Rightarrow> coh \<Rightarrow> coh option" where
  "SMPCache_doRead i alloc s =
     (case lines s i of
        None \<Rightarrow> mutExcl i MemRead alloc s
      | Some st \<Rightarrow>
          if st_canBeRead st then Some s
          else if st_isLocked st then Some s
          else mutExcl i MemRead alloc s)"

definition SMPCache_doWrite :: "nat \<Rightarrow> mem_op \<Rightarrow> 32 word option \<Rightarrow> coh \<Rightarrow> coh option" where
  "SMPCache_doWrite i memOp alloc s =
     (case lines s i of
        None \<Rightarrow> mutExcl i (if memOp = MemWrite then mutateWriteToRead memOp else memOp) alloc s
      | Some st \<Rightarrow>
          if st_canBeWritten st then do {
            st' \<leftarrow> (if \<not> st_isDirty st then do {
                       I_check (st = MESI_MODIFIED \<or> st = MESI_EXCLUSIVE);
                       makeDirty st }
                     else Some st);
            Some (s\<lparr>lines := (lines s)(i := Some st'), home := written_by i (home s)\<rparr>) }
          else if st_isLocked st then Some s
          else mutExcl i memOp alloc s)"

text \<open>The acknowledgements that an operation sent to the bus.\<close>

definition bus_acks :: "smp_config \<Rightarrow> nat \<Rightarrow> transaction \<Rightarrow> transaction option" where
  "bus_acks cfg n t = (if n = 0 then Some t else bus_step cfg t)"

fun guard :: "smp_config \<Rightarrow> coh \<Rightarrow> event \<Rightarrow> bool" where
  "guard cfg s (Request i memOp alloc) =
     (i < nCaches cfg \<and> memOp \<noteq> MemPush \<and> waiting s i = None \<and>
      (\<forall>t. txn s = Some t \<longrightarrow> t_owner t \<noteq> i) \<and>
      alloc \<in> {None, Some MESI_INVALID, Some MESI_TRANS_INV, Some MESI_TRANS_INV_D})"
| "guard cfg s (Grant i alloc) =
     (i < nCaches cfg \<and> waiting s i \<noteq> None \<and> txn s = None \<and>
      alloc \<in> {None, Some MESI_INVALID, Some MESI_TRANS_INV, Some MESI_TRANS_INV_D})"
| "guard cfg s Allocated = (\<exists>t. txn s = Some t \<and> t_at t = AtAlloc)"
| "guard cfg s BusCycle = (\<exists>t. txn s = Some t \<and> t_at t = AtBus)"
| "guard cfg s (Handle j) = (\<exists>t. txn s = Some t \<and> t_at t = AtSnoop \<and> j \<in> t_todo t)"
| "guard cfg s (UpperAck j) = (j < nCaches cfg \<and> \<not> isHighestLevel cfg \<and> pinvs s j \<noteq> None)"
| "guard cfg s (Fire j) = (j < nCaches cfg \<and> cbq s j \<noteq> [])"
| "guard cfg s (Evict j) =
     (j < nCaches cfg \<and> (\<exists>st. lines s j = Some st \<and> st_isValid st \<and> \<not> st_isLocked st))"
| "guard cfg s MemReturn = (\<exists>t. txn s = Some t \<and> t_at t = AtMem)"
| "guard cfg s Response = (\<exists>t. txn s = Some t \<and> t_at t = AtOwner)"

fun exec :: "smp_config \<Rightarrow> coh \<Rightarrow> event \<Rightarrow> coh option" where
  "exec cfg s (Request i memOp alloc) =
     (if memOp = MemRead then SMPCache_doRead i alloc s else SMPCache_doWrite i memOp alloc s)"
| "exec cfg s (Grant i alloc) = do {
     memOp \<leftarrow> waiting s i;
     start i memOp alloc (s\<lparr>waiting := (waiting s)(i := None)\<rparr>) }"
| "exec cfg s Allocated = do {
     t \<leftarrow> txn s;
     l \<leftarrow> MESI_allocated (t_owner t) (t_op t) (loc_at s (t_owner t));
     Some ((put_loc (t_owner t) l s)\<lparr>txn := Some (t\<lparr>t_req := Some (hd (sent l)), t_at := AtBus\<rparr>)\<rparr>) }"
| "exec cfg s BusCycle = do {
     t \<leftarrow> txn s;
     t' \<leftarrow> bus_step cfg t;
     Some (s\<lparr>txn := Some t'\<rparr>) }"
| "exec cfg s (Handle j) = do {
     t \<leftarrow> txn s;
     r \<leftarrow> t_req t;
     (r', l) \<leftarrow> SMPCache_doReceiveFromBelow cfg j r (loc_at s j);
     t' \<leftarrow> bus_acks cfg (acked l) (t\<lparr>t_req := Some r', t_todo := t_todo t - {j}\<rparr>);
     Some ((put_loc j l s)\<lparr>txn := Some t'\<rparr>) }"
| "exec cfg s (UpperAck j) = do {
     l \<leftarrow> SMPCache_doInvalidate (loc_at s j);
     Some (put_loc j l s) }"
| "exec cfg s (Fire j) =
     (case cbq s j of
        [] \<Rightarrow> None
      | cb # rest \<Rightarrow>
          let s1 = s\<lparr>cbq := (cbq s)(j := rest)\<rparr> in
          (case cb of
             SendAck \<Rightarrow> do {
               t \<leftarrow> txn s;
               r \<leftarrow> t_req t;
               let l = SMPCache_respondBelow j r (loc_at s j);
               t' \<leftarrow> bus_acks cfg (acked l) t;
               Some ((put_loc j l s1)\<lparr>txn := Some t'\<rparr>) }
           | DoAllocateLine \<Rightarrow> do {
               l \<leftarrow> SMPCache_doAllocateLine_victim (loc_at s j);
               Some (put_loc j l s1) }))"
| "exec cfg s (Evict j) = do {
     l \<leftarrow> SMPCache_allocateLine_victim cfg (loc_at s j);
     Some (put_loc j l s) }"
| "exec cfg s MemReturn = do {
     t \<leftarrow> txn s;
     r \<leftarrow> t_req t;
     Some (s\<lparr>txn := Some (t\<lparr>t_at := AtOwner\<rparr>), home := fetched (sr_needData r) (home s)\<rparr>) }"
| "exec cfg s Response = do {
     t \<leftarrow> txn s;
     r \<leftarrow> t_req t;
     l \<leftarrow> SMPCache_returnAccess r (loc_at s (t_owner t));
     let s1 = put_loc (t_owner t) l s;
     if concl l
     then Some (s1\<lparr>txn := None, 
                      home := if t_op t = MemRead then home s1 else written_by (t_owner t) (home s1)\<rparr>)
     else Some (s1\<lparr>txn := Some (t\<lparr>t_req := Some (hd (sent l)), t_at := AtBus\<rparr>)\<rparr>) }"

inductive reachable :: "smp_config \<Rightarrow> coh \<Rightarrow> bool" for cfg where
  init: "reachable cfg coh_init"
| step: "reachable cfg s \<Longrightarrow> guard cfg s e \<Longrightarrow> exec cfg s e = Some s' \<Longrightarrow> reachable cfg s'"

text \<open>Runs a list of events, as long as the guards hold; a failed assertion is \<open>None\<close>.\<close>

fun run_events :: "smp_config \<Rightarrow> coh \<Rightarrow> event list \<Rightarrow> coh option" where
  "run_events cfg s [] = Some s"
| "run_events cfg s (e # es) =
     (if guard cfg s e then (case exec cfg s e of None \<Rightarrow> None | Some s' \<Rightarrow> run_events cfg s' es)
      else None)"

lemma run_events_reachable:
  "reachable cfg s \<Longrightarrow> run_events cfg s es = Some s' \<Longrightarrow> reachable cfg s'"
  by (induction es arbitrary: s) (auto split: if_splits option.splits intro: reachable.step)

end
