(* ===== verification/Coherence_Correct.thy ===== *)
theory Coherence_Correct
  imports Coherence_Model
begin

text \<open>
  The invariant of the coherence protocol and its consequences: one writer or many readers;
  at the highest level of the hierarchy no assertion of the protocol can fail, and a dirty
  line is never lost.
\<close>

subsection \<open>Classes of line states\<close>

definition valid :: "32 word option \<Rightarrow> bool" where
  "valid l = (l \<in> {Some MESI_SHARED, Some MESI_EXCLUSIVE, Some MESI_MODIFIED})"

definition excl :: "32 word option \<Rightarrow> bool" where
  "excl l = (l \<in> {Some MESI_EXCLUSIVE, Some MESI_MODIFIED})"

definition inval :: "32 word option \<Rightarrow> bool" where
  "inval l = (l \<in> {Some MESI_TRANS_INV, Some MESI_TRANS_INV_D})"

definition busy :: "32 word option \<Rightarrow> bool" where
  "busy l = (l \<in> {Some MESI_TRANS_RD, Some MESI_TRANS_RD_MEM, Some MESI_TRANS_WR, Some MESI_TRANS_WR_MEM})"

lemmas classes = valid_def excl_def inval_def busy_def

lemma classes_simps [simp]:
  "\<not> valid None" "\<not> excl None" "\<not> inval None" "\<not> busy None"
  "valid (Some MESI_SHARED)" "valid (Some MESI_EXCLUSIVE)" "valid (Some MESI_MODIFIED)"
  "excl (Some MESI_EXCLUSIVE)" "excl (Some MESI_MODIFIED)" "\<not> excl (Some MESI_SHARED)"
  "inval (Some MESI_TRANS_INV)" "inval (Some MESI_TRANS_INV_D)"
  "\<not> inval (Some MESI_SHARED)" "\<not> inval (Some MESI_EXCLUSIVE)" "\<not> inval (Some MESI_MODIFIED)"
  "\<not> valid (Some MESI_TRANS_INV)" "\<not> valid (Some MESI_TRANS_INV_D)" "\<not> excl (Some MESI_TRANS_INV)"
  "\<not> excl (Some MESI_TRANS_INV_D)" "\<not> busy (Some MESI_TRANS_INV)" "\<not> busy (Some MESI_TRANS_INV_D)"
  "busy (Some MESI_TRANS_RD)" "busy (Some MESI_TRANS_RD_MEM)" "busy (Some MESI_TRANS_WR)"
  "busy (Some MESI_TRANS_WR_MEM)" "\<not> busy (Some MESI_SHARED)" "\<not> busy (Some MESI_EXCLUSIVE)"
  "\<not> busy (Some MESI_MODIFIED)"
  "\<not> inval (Some MESI_TRANS_RD)" "\<not> inval (Some MESI_TRANS_RD_MEM)" "\<not> inval (Some MESI_TRANS_WR)"
  "\<not> inval (Some MESI_TRANS_WR_MEM)" "\<not> valid (Some MESI_TRANS_RD)" "\<not> valid (Some MESI_TRANS_RD_MEM)"
  "\<not> valid (Some MESI_TRANS_WR)" "\<not> valid (Some MESI_TRANS_WR_MEM)" "\<not> excl (Some MESI_TRANS_RD)"
  "\<not> excl (Some MESI_TRANS_RD_MEM)" "\<not> excl (Some MESI_TRANS_WR)" "\<not> excl (Some MESI_TRANS_WR_MEM)"
  by (auto simp: classes)

lemma class_disj:
  "excl l \<Longrightarrow> valid l" "busy l \<Longrightarrow> \<not> valid l" "busy l \<Longrightarrow> \<not> excl l" "busy l \<Longrightarrow> \<not> inval l"
  "inval l \<Longrightarrow> \<not> valid l" "inval l \<Longrightarrow> \<not> excl l"
  by (auto simp: classes)

lemma locked_class: "busy (Some st) \<or> inval (Some st) \<Longrightarrow> st_isLocked st"
  "valid (Some st) \<Longrightarrow> \<not> st_isLocked st"
  by (auto simp: classes)

subsection \<open>The invariant\<close>

definition ackp :: "coh \<Rightarrow> nat \<Rightarrow> nat" where
  "ackp s j = (case pinvs s j of None \<Rightarrow> 0 | Some p \<Rightarrow> if pi_cb p = SendAck then 1 else 0) +
     count_list (cbq s j) SendAck"

definition ack_total :: "smp_config \<Rightarrow> coh \<Rightarrow> nat" where
  "ack_total cfg s = (\<Sum>j<nCaches cfg. ackp s j)"

definition line_inv :: "smp_config \<Rightarrow> coh \<Rightarrow> bool" where
  "line_inv cfg s = (\<forall>j. (lines s j = None \<or> valid (lines s j) \<or> inval (lines s j) \<or> busy (lines s j)) \<and>
     (nCaches cfg \<le> j \<longrightarrow> lines s j = None \<and> pinvs s j = None \<and> cbq s j = []))"

definition swmr :: "coh \<Rightarrow> bool" where
  "swmr s = (\<forall>i j. i \<noteq> j \<and> excl (lines s i) \<longrightarrow> \<not> valid (lines s j))"

definition pend_inv :: "coh \<Rightarrow> bool" where
  "pend_inv s = (\<forall>j. ((pinvs s j \<noteq> None \<or> DoAllocateLine \<in> set (cbq s j)) \<longrightarrow> inval (lines s j)) \<and>
     (if pinvs s j = None then 0 else 1) + count_list (cbq s j) DoAllocateLine \<le> (1::nat) \<and>
     (\<forall>p. pinvs s j = Some p \<longrightarrow> pi_invalidate p = (pi_cb p = SendAck)))"

definition is_read :: "sreq \<Rightarrow> bool" where
  "is_read r = (sr_memOp r = MemRead)"

definition req_ok :: "sreq \<Rightarrow> bool" where
  "req_ok r = (sr_memOp r \<noteq> MemPush \<and> (is_read r \<longrightarrow> sr_needData r) \<and>
     (sr_memOp r = MemWrite \<longrightarrow> \<not> sr_needData r) \<and>
     (\<not> sr_needSnoop r \<longrightarrow> sr_needData r) \<and>
     sr_found r = (sr_state r \<noteq> MESI_INVALID) \<and>
     sr_state r \<in> {MESI_INVALID, MESI_SHARED, MESI_EXCLUSIVE, MESI_MODIFIED})"

text \<open>The state of the owner's line.\<close>

definition owner_line :: "sreq \<Rightarrow> 32 word" where
  "owner_line r = (if is_read r then (if sr_needSnoop r then MESI_TRANS_RD else MESI_TRANS_RD_MEM)
     else (if sr_needSnoop r then MESI_TRANS_WR else MESI_TRANS_WR_MEM))"

lemma owner_line_simps [simp]:
  "busy (Some (owner_line r))" "\<not> valid (Some (owner_line r))" "\<not> excl (Some (owner_line r))"
  "\<not> inval (Some (owner_line r))" "st_isLocked (owner_line r)" "\<not> st_canBeWritten (owner_line r)"
  "\<not> st_canBeRead (owner_line r)"
  by (simp_all add: owner_line_def)

text \<open>The caches in \<open>K\<close> have answered the request.\<close>

definition seen :: "coh \<Rightarrow> sreq \<Rightarrow> nat set \<Rightarrow> bool" where
  "seen s r K = (\<forall>j\<in>K. if is_read r then \<not> excl (lines s j) \<and> (valid (lines s j) \<longrightarrow> sr_found r)
     else \<not> valid (lines s j))"

definition alone :: "coh \<Rightarrow> sreq \<Rightarrow> nat set \<Rightarrow> bool" where
  "alone s r K = (sr_state r = MESI_INVALID \<and> (\<forall>j\<in>K. \<not> valid (lines s j)))"

definition others :: "smp_config \<Rightarrow> transaction \<Rightarrow> nat set" where
  "others cfg t = {..<nCaches cfg} - {t_owner t}"

definition place_inv :: "smp_config \<Rightarrow> coh \<Rightarrow> transaction \<Rightarrow> sreq \<Rightarrow> bool" where
  "place_inv cfg s t r =
     (case t_at t of
        AtAlloc \<Rightarrow> False
      | AtBus \<Rightarrow> t_todo t = {} \<and> t_cnt t = None \<and> ack_total cfg s = 0 \<and>
          (if sr_needSnoop r then sr_state r = MESI_INVALID else alone s r (others cfg t))
      | AtSnoop \<Rightarrow> sr_needSnoop r \<and> t_cnt t = Some (int (card (t_todo t) + ack_total cfg s)) \<and>
          0 < card (t_todo t) + ack_total cfg s \<and> card (t_todo t) + ack_total cfg s < nCaches cfg \<and>
          seen s r (others cfg t - t_todo t) \<and>
          (sr_state r \<in> {MESI_EXCLUSIVE, MESI_MODIFIED} \<longrightarrow> (\<forall>j\<in>t_todo t. \<not> valid (lines s j)))
      | AtOwner \<Rightarrow> t_todo t = {} \<and> t_cnt t = None \<and> ack_total cfg s = 0 \<and>
          (if sr_needSnoop r then seen s r (others cfg t) else alone s r (others cfg t))
      | AtMem \<Rightarrow> t_todo t = {} \<and> t_cnt t = None \<and> ack_total cfg s = 0 \<and>
          \<not> sr_needSnoop r \<and> alone s r (others cfg t))"

definition txn_inv :: "smp_config \<Rightarrow> coh \<Rightarrow> bool" where
  "txn_inv cfg s =
     (case txn s of
        None \<Rightarrow> (\<forall>j. \<not> busy (lines s j)) \<and> ack_total cfg s = 0
      | Some t \<Rightarrow> t_owner t < nCaches cfg \<and> (\<forall>j. j \<noteq> t_owner t \<longrightarrow> \<not> busy (lines s j)) \<and>
          ackp s (t_owner t) = 0 \<and> t_todo t \<subseteq> others cfg t \<and> t_op t \<noteq> MemPush \<and>
          (case t_req t of
             None \<Rightarrow> t_at t = AtAlloc \<and> lines s (t_owner t) = None \<and> t_cnt t = None \<and> t_todo t = {} \<and>
               ack_total cfg s = 0
           | Some r \<Rightarrow> req_ok r \<and> lines s (t_owner t) = Some (owner_line r) \<and>
               is_read r = (t_op t = MemRead) \<and> place_inv cfg s t r))"

definition coh_inv :: "smp_config \<Rightarrow> coh \<Rightarrow> bool" where
  "coh_inv cfg s = (line_inv cfg s \<and> swmr s \<and> pend_inv s \<and> txn_inv cfg s \<and>
     (\<forall>i memOp. waiting s i = Some memOp \<longrightarrow> memOp \<noteq> MemPush))"

lemma init_inv: "coh_inv cfg coh_init"
  by (simp add: coh_inv_def coh_init_def line_inv_def swmr_def pend_inv_def txn_inv_def ack_total_def ackp_def)

subsection \<open>Counting acknowledgements\<close>

lemma ack_total_put:
  assumes "j < nCaches cfg" "\<And>i. i \<noteq> j \<Longrightarrow> ackp s' i = ackp s i"
  shows "ack_total cfg s' + ackp s j = ack_total cfg s + ackp s' j"
proof -
  have fin: "finite {..<nCaches cfg}" "j \<in> {..<nCaches cfg}" using assms(1) by simp_all
  have "(\<Sum>i\<in>{..<nCaches cfg} - {j}. ackp s' i) = (\<Sum>i\<in>{..<nCaches cfg} - {j}. ackp s i)"
    using assms(2) by (intro sum.cong) auto
  then show ?thesis
    unfolding ack_total_def sum.remove [OF fin] by simp
qed

lemma ackp_le_total: "j < nCaches cfg \<Longrightarrow> ackp s j \<le> ack_total cfg s"
  unfolding ack_total_def by (intro member_le_sum) auto

lemma ackp_other [simp]:
  "i \<noteq> j \<Longrightarrow> ackp (put_loc j l s) i = ackp s i"
  by (simp add: ackp_def put_loc_def)

lemma put_simps [simp]:
  "lines (put_loc j l s) = (lines s)(j := ln l)" "pinvs (put_loc j l s) = (pinvs s)(j := pend l)"
  "cbq (put_loc j l s) = (cbq s)(j := cbq s j @ cbs l)" "txn (put_loc j l s) = txn s"
  "waiting (put_loc j l s) = waiting s" "home (put_loc j l s) = (if 0 < wbs l then written_back j (home s) else home s)"
  by (simp_all add: put_loc_def)

lemma ack_frame [simp]:
  "ackp (s\<lparr>txn := t\<rparr>) = ackp s" "ack_total cfg (s\<lparr>txn := t\<rparr>) = ack_total cfg s"
  "ackp (s\<lparr>home := h\<rparr>) = ackp s" "ack_total cfg (s\<lparr>home := h\<rparr>) = ack_total cfg s"
  "ackp (s\<lparr>waiting := w\<rparr>) = ackp s" "ack_total cfg (s\<lparr>waiting := w\<rparr>) = ack_total cfg s"
  "ackp (s\<lparr>lines := f\<rparr>) = ackp s" "ack_total cfg (s\<lparr>lines := f\<rparr>) = ack_total cfg s"
  by (simp_all add: ackp_def ack_total_def fun_eq_iff)

lemma loc_at_simps [simp]:
  "ln (loc_at s j) = lines s j" "pend (loc_at s j) = pinvs s j" "wbs (loc_at s j) = 0"
  "cbs (loc_at s j) = []" "sent (loc_at s j) = []" "acked (loc_at s j) = 0" "concl (loc_at s j) = False"
  by (simp_all add: loc_at_def loc_of_def)

subsection \<open>Events of one cache\<close>

text \<open>
  A line may go from exclusive to modified, or stop being valid: that disturbs neither the
  single writer nor a request that is under way.
\<close>

definition weaker :: "32 word option \<Rightarrow> 32 word option \<Rightarrow> bool" where
  "weaker l' l = ((valid l' \<longrightarrow> valid l) \<and> (excl l' \<longrightarrow> excl l) \<and> \<not> busy l \<and> \<not> busy l')"

text \<open>What holds whether or not a request is under way.\<close>

definition base_inv :: "smp_config \<Rightarrow> coh \<Rightarrow> bool" where
  "base_inv cfg s = (line_inv cfg s \<and> swmr s \<and> pend_inv s \<and>
     (\<forall>i memOp. waiting s i = Some memOp \<longrightarrow> memOp \<noteq> MemPush))"

lemma coh_inv_split: "coh_inv cfg s = (base_inv cfg s \<and> txn_inv cfg s)"
  by (auto simp: coh_inv_def base_inv_def)

text \<open>The bookkeeping of the invalidations of one cache.\<close>

definition pend_ok :: "coh \<Rightarrow> nat \<Rightarrow> bool" where
  "pend_ok s j = (((pinvs s j \<noteq> None \<or> DoAllocateLine \<in> set (cbq s j)) \<longrightarrow> inval (lines s j)) \<and>
     (if pinvs s j = None then 0 else 1) + count_list (cbq s j) DoAllocateLine \<le> (1::nat) \<and>
     (\<forall>p. pinvs s j = Some p \<longrightarrow> pi_invalidate p = (pi_cb p = SendAck)))"

lemma pend_inv_iff: "pend_inv s = (\<forall>j. pend_ok s j)"
  by (simp add: pend_inv_def pend_ok_def)

lemma base_local:
  assumes inv: "base_inv cfg s" and j: "j < nCaches cfg"
    and lines: "lines s' = (lines s)(j := l)" and weak: "weaker l (lines s j)"
    and cls: "l = None \<or> valid l \<or> inval l" and same: "waiting s' = waiting s"
    and other: "\<And>i. i \<noteq> j \<Longrightarrow> pinvs s' i = pinvs s i \<and> cbq s' i = cbq s i"
    and pend: "pend_ok s' j"
  shows "base_inv cfg s'"
proof -
  have wv: "valid (lines s' i) \<Longrightarrow> valid (lines s i)" and we: "excl (lines s' i) \<Longrightarrow> excl (lines s i)" for i
    using weak lines by (cases "i = j"; simp add: weaker_def)+
  have "line_inv cfg s'" using inv lines cls j other by (auto simp: base_inv_def line_inv_def)
  moreover have "swmr s'" using inv wv we by (auto simp: base_inv_def swmr_def)
  moreover have "pend_ok s' i" for i
    using pend other [of i] lines inv
    by (cases "i = j") (auto simp: base_inv_def pend_inv_iff pend_ok_def)
  ultimately show ?thesis using inv same by (simp add: base_inv_def pend_inv_iff)
qed

lemma local_inv:
  assumes inv: "coh_inv cfg s" and j: "j < nCaches cfg"
    and lines: "lines s' = (lines s)(j := l)" and weak: "weaker l (lines s j)"
    and cls: "l = None \<or> valid l \<or> inval l" and own: "\<And>t. txn s = Some t \<Longrightarrow> t_owner t = j \<Longrightarrow> False"
    and same: "txn s' = txn s" "waiting s' = waiting s"
    and other: "\<And>i. i \<noteq> j \<Longrightarrow> pinvs s' i = pinvs s i \<and> cbq s' i = cbq s i"
    and ack: "ackp s' j = ackp s j"
    and pend: "pinvs s' j \<noteq> None \<or> DoAllocateLine \<in> set (cbq s' j) \<Longrightarrow> inval l"
      "(if pinvs s' j = None then 0 else 1) + count_list (cbq s' j) DoAllocateLine \<le> (1::nat)"
      "\<forall>p. pinvs s' j = Some p \<longrightarrow> pi_invalidate p = (pi_cb p = SendAck)"
  shows "coh_inv cfg s'"
proof -
  have wv: "valid (lines s' i) \<Longrightarrow> valid (lines s i)" and we: "excl (lines s' i) \<Longrightarrow> excl (lines s i)"
    and wb: "busy (lines s' i) = busy (lines s i)" for i
    using weak lines by (cases "i = j"; simp add: weaker_def)+
  have acki: "ackp s' i = ackp s i" for i using ack other by (cases "i = j") (auto simp: ackp_def)
  then have tot: "ack_total cfg s' = ack_total cfg s" by (simp add: ack_total_def)
  have "pend_ok s' j" using pend lines by (simp add: pend_ok_def)
  then have "base_inv cfg s'"
    using base_local [OF _ j lines weak cls same(2) other] inv by (simp add: coh_inv_split)
  moreover have "txn_inv cfg s'"
  proof (cases "txn s")
    case None
    then show ?thesis using inv same wb tot by (simp add: coh_inv_def txn_inv_def)
  next
    case (Some t)
    have oj: "t_owner t \<noteq> j" using own Some by blast
    have lo: "lines s' (t_owner t) = lines s (t_owner t)" using oj lines by simp
    have seen: "seen s r K \<Longrightarrow> seen s' r K" for r K
      using wv we by (fastforce simp: seen_def)
    have alone: "alone s r K \<Longrightarrow> alone s' r K" for r K using wv by (auto simp: alone_def)
    have place: "place_inv cfg s t r \<Longrightarrow> place_inv cfg s' t r" for r
      using seen alone tot wv by (cases "t_at t") (auto simp: place_inv_def)
    show ?thesis using inv same Some wb lo acki tot place
      by (auto simp: coh_inv_def txn_inv_def split: option.splits)
  qed
  ultimately show ?thesis by (simp add: coh_inv_split)
qed

text \<open>The owner of a request has no invalidation of its own line under way.\<close>

lemma owner_quiet:
  assumes inv: "coh_inv cfg s" and t: "txn s = Some t"
  shows "pinvs s (t_owner t) = None \<and> cbq s (t_owner t) = []"
proof -
  let ?o = "t_owner t"
  have "\<not> inval (lines s ?o)"
    using inv t by (auto simp: coh_inv_def txn_inv_def split: option.splits)
  then have p: "pinvs s ?o = None" "DoAllocateLine \<notin> set (cbq s ?o)"
    using inv by (auto simp: coh_inv_def pend_inv_def)
  have "ackp s ?o = 0" using inv t by (simp add: coh_inv_def txn_inv_def)
  then have "SendAck \<notin> set (cbq s ?o)" by (simp add: ackp_def count_list_0_iff)
  moreover have "set (cbq s ?o) \<subseteq> {SendAck, DoAllocateLine}" using cbk.exhaust by blast
  ultimately show ?thesis using p by (metis ex_in_conv insert_iff set_empty singletonD subsetD)
qed

lemma owner_locked:
  assumes "coh_inv cfg s" "txn s = Some t" "lines s (t_owner t) = Some st"
  shows "st_isLocked st \<and> \<not> st_canBeWritten st \<and> \<not> st_canBeRead st"
  using assms by (auto simp: coh_inv_def txn_inv_def split: option.splits)

lemma line_class:
  "coh_inv cfg s \<Longrightarrow> lines s j = None \<or> valid (lines s j) \<or> inval (lines s j) \<or> busy (lines s j)"
  unfolding coh_inv_def line_inv_def by blast

lemma pend_class:
  assumes "coh_inv cfg s"
  shows "pinvs s j \<noteq> None \<or> DoAllocateLine \<in> set (cbq s j) \<Longrightarrow> inval (lines s j)"
    and "(if pinvs s j = None then 0 else 1) + count_list (cbq s j) DoAllocateLine \<le> (1::nat)"
    and "pinvs s j = Some p \<Longrightarrow> pi_invalidate p = (pi_cb p = SendAck)"
  using assms unfolding coh_inv_def pend_inv_def by blast+

lemma not_inval_quiet:
  "coh_inv cfg s \<Longrightarrow> \<not> inval (lines s j) \<Longrightarrow> pinvs s j = None \<and> DoAllocateLine \<notin> set (cbq s j)"
  using pend_class(1) by blast

lemma unlocked_valid:
  assumes "coh_inv cfg s" "lines s j = Some st" "\<not> st_isLocked st"
  shows "st = MESI_SHARED \<or> st = MESI_EXCLUSIVE \<or> st = MESI_MODIFIED"
proof -
  have "valid (Some st) \<or> inval (Some st) \<or> busy (Some st)"
    using line_class [OF assms(1), of j] assms(2) by simp
  then show ?thesis using locked_class(1) [of st] assms(3) by (auto simp: valid_def)
qed

lemma count_zero: "x \<notin> set xs \<Longrightarrow> count_list xs x = 0"
  by (simp add: count_list_0_iff)

lemma evict_inv:
  assumes inv: "coh_inv cfg s" and g: "guard cfg s (Evict j)" and e: "exec cfg s (Evict j) = Some s'"
  shows "coh_inv cfg s'"
proof -
  obtain st where st: "j < nCaches cfg" "lines s j = Some st" "\<not> st_isLocked st" using g by auto
  note v = unlocked_valid [OF inv st(2,3)]
  have own: "txn s = Some t \<Longrightarrow> t_owner t = j \<Longrightarrow> False" for t
    using owner_locked [OF inv] st by blast
  have "\<not> inval (lines s j)" using v st(2) by auto
  then have p: "pinvs s j = None" "DoAllocateLine \<notin> set (cbq s j)" using inv
    by (auto simp: coh_inv_def pend_inv_def)
  have vl: "valid (lines s j)" using v st(2) by auto
  show ?thesis
  proof (cases "isHighestLevel cfg")
    case True
    then obtain l where l: "s' = put_loc j l s" "ln l = None" "pend l = None" "cbs l = []"
      using e st v p by (auto simp: SMPCache_allocateLine_victim_def SMPCache_doWriteBack_def)
    show ?thesis
      by (rule local_inv [OF inv st(1), of s' None])
        (use l own p vl in \<open>auto simp: weaker_def class_disj ackp_def count_zero dest: class_disj\<close>)
  next
    case False
    then obtain l q where l: "s' = put_loc j l s" "inval (ln l)"
        "pend l = Some \<lparr>outsResps = q, pi_cb = DoAllocateLine, pi_invalidate = False\<rparr>" "cbs l = []"
      using e st v p by (auto simp: SMPCache_allocateLine_victim_def SMPCache_doWriteBack_def)
    show ?thesis
      by (rule local_inv [OF inv st(1), of s' "ln l"])
        (use l own p vl in \<open>auto simp: weaker_def class_disj ackp_def count_zero dest: class_disj\<close>)
  qed
qed

text \<open>What a request does first, by the state of the line.\<close>

definition misses :: "coh \<Rightarrow> nat \<Rightarrow> mem_op \<Rightarrow> bool" where
  "misses s i memOp = (lines s i = None \<or> memOp \<noteq> MemRead \<and> lines s i = Some MESI_SHARED)"

definition miss_op :: "coh \<Rightarrow> nat \<Rightarrow> mem_op \<Rightarrow> mem_op" where
  "miss_op s i memOp = (if lines s i = None then mutateWriteToRead memOp else memOp)"

lemma request_exec:
  assumes inv: "coh_inv cfg s"
  shows "exec cfg s (Request i m a) =
    (if misses s i m then mutExcl i (miss_op s i m) a s
     else if m \<noteq> MemRead \<and> excl (lines s i)
     then Some (s\<lparr>lines := (lines s)(i := Some MESI_MODIFIED), home := written_by i (home s)\<rparr>)
     else Some s)"
proof (cases "lines s i")
  case None
  then show ?thesis
    by (cases m) (simp_all add: misses_def miss_op_def SMPCache_doRead_def SMPCache_doWrite_def mutateWriteToRead_def)
next
  case (Some st)
  consider "valid (Some st)" | "inval (Some st) \<or> busy (Some st)" using line_class [OF inv, of i] Some by auto
  then show ?thesis
  proof cases
    case 1
    then consider "st = MESI_SHARED" | "st = MESI_EXCLUSIVE" | "st = MESI_MODIFIED" by (auto simp: valid_def)
    then show ?thesis
      by cases (simp_all add: Some misses_def miss_op_def SMPCache_doRead_def SMPCache_doWrite_def)
  next
    case 2
    then have "\<not> st_canBeRead st" "\<not> st_canBeWritten st" "st \<noteq> MESI_SHARED" "\<not> excl (Some st)"
      by (auto simp: classes)
    moreover have "st_isLocked st" using locked_class(1) 2 by blast
    ultimately show ?thesis using Some
      by (simp add: misses_def miss_op_def SMPCache_doRead_def SMPCache_doWrite_def)
  qed
qed

lemma write_hit_inv:
  assumes inv: "coh_inv cfg s" and i: "i < nCaches cfg" and e: "excl (lines s i)"
  shows "coh_inv cfg (s\<lparr>lines := (lines s)(i := Some MESI_MODIFIED), home := written_by i (home s)\<rparr>)"
proof -
  obtain st where st: "lines s i = Some st" "\<not> st_isLocked st" using e by (auto simp: excl_def)
  have own: "txn s = Some t \<Longrightarrow> t_owner t = i \<Longrightarrow> False" for t
    using owner_locked [OF inv] st by blast
  have "\<not> inval (lines s i)" using e class_disj(6) by blast
  then have p: "pinvs s i = None" "DoAllocateLine \<notin> set (cbq s i)" using inv
    by (auto simp: coh_inv_def pend_inv_def)
  show ?thesis
    by (rule local_inv [OF inv i, of _ "Some MESI_MODIFIED"])
      (use own p e class_disj in \<open>auto simp: weaker_def count_zero\<close>)
qed

subsection \<open>Invalidations and evictions that finish\<close>

lemma upper_ack_inv:
  assumes inv: "coh_inv cfg s" and g: "guard cfg s (UpperAck j)" and e: "exec cfg s (UpperAck j) = Some s'"
  shows "coh_inv cfg s'"
proof -
  obtain p where p: "j < nCaches cfg" "pinvs s j = Some p" using g by auto
  have own: "txn s = Some t \<Longrightarrow> t_owner t = j \<Longrightarrow> False" for t
    using owner_quiet [OF inv] p by fastforce
  have iv: "inval (lines s j)" and cnt: "count_list (cbq s j) DoAllocateLine = 0"
    using inv p by (auto simp: coh_inv_def pend_inv_def dest: spec [of _ j])
  then have no: "DoAllocateLine \<notin> set (cbq s j)" by (simp add: count_list_0_iff)
  have pi: "pi_invalidate p = (pi_cb p = SendAck)" using pend_class(3) [OF inv p(2)] .
  have inv_line: "lines s j = Some MESI_TRANS_INV \<or> lines s j = Some MESI_TRANS_INV_D"
    using iv by (simp add: inval_def)
  have dis: "\<not> valid (lines s j)" "\<not> excl (lines s j)" "\<not> busy (lines s j)"
    using iv class_disj by blast+
  show ?thesis
  proof (cases "outsResps p - 1 \<le> 0")
    case False
    then have s': "s' = put_loc j (loc_at s j\<lparr>pend := Some (p\<lparr>outsResps := outsResps p - 1\<rparr>)\<rparr>) s"
      using e p by (simp add: SMPCache_doInvalidate_def Let_def)
    show ?thesis
      by (rule local_inv [OF inv p(1), of s' "lines s j"])
        (use s' own p iv dis no cnt pi in \<open>auto simp: weaker_def ackp_def\<close>)
  next
    case True
    note T = this
    show ?thesis
    proof (cases "pi_cb p")
      case SendAck
      obtain l where d: "SMPCache_doInvalidate (loc_at s j) = Some l" "s' = put_loc j l s"
        using e by (auto split: bind_splits)
      have "pend l = None \<and> cbs l = [SendAck] \<and> ln l = None"
        using d(1) p pi T inv_line SendAck
        by (auto simp: SMPCache_doInvalidate_def SMPCache_realInvalidate_def Let_def
            SMPCache_doWriteBack_def SMPCacheState_invalidate_def split: if_splits option.splits bind_splits)
      then have l: "s' = put_loc j l s" "pend l = None" "cbs l = [SendAck]" "ln l = None" using d(2) by simp_all
      show ?thesis
        by (rule local_inv [OF inv p(1), of s' None])
          (use l own p SendAck dis no cnt in \<open>auto simp: weaker_def ackp_def\<close>)
    next
      case DoAllocateLine
      then have l: "s' = put_loc j (loc_at s j\<lparr>pend := None, cbs := [DoAllocateLine]\<rparr>) s"
        using e p pi T by (auto simp: SMPCache_doInvalidate_def Let_def)
      show ?thesis
        by (rule local_inv [OF inv p(1), of s' "lines s j"])
          (use l own p DoAllocateLine iv dis no cnt in \<open>auto simp: weaker_def ackp_def\<close>)
    qed
  qed
qed

end
