(* ===== verification/Coherence_Steps.thy ===== *)
theory Coherence_Steps
  imports Coherence_Correct
begin

text \<open>
  The events of a request: every one of them keeps the invariant of \<open>Coherence_Correct\<close>.
\<close>

subsection \<open>The owner's line\<close>

text \<open>
  The line of the owner changes to a transient state, or at the end of the request to a
  state that the other lines allow.
\<close>

lemma base_owner:
  assumes inv: "base_inv cfg s" and i: "i < nCaches cfg"
    and lines: "lines s' = (lines s)(i := l)" and same: "pinvs s' = pinvs s" "cbq s' = cbq s"
    and wait: "\<forall>i memOp. waiting s' i = Some memOp \<longrightarrow> memOp \<noteq> MemPush"
    and quiet: "pinvs s i = None" "DoAllocateLine \<notin> set (cbq s i)"
    and l: "l = None \<or> busy l \<or> valid l \<and>
      (\<forall>j. j \<noteq> i \<longrightarrow> (excl l \<longrightarrow> \<not> valid (lines s j)) \<and> \<not> excl (lines s j))"
  shows "base_inv cfg s'"
proof -
  have "line_inv cfg s'" using inv lines i same l by (auto simp: base_inv_def line_inv_def)
  moreover have "swmr s'"
    using inv l class_disj unfolding base_inv_def swmr_def lines by (auto split: if_splits)
  moreover have "pend_ok s' j" for j
    using inv lines same quiet by (auto simp: base_inv_def pend_inv_iff pend_ok_def)
  ultimately show ?thesis using wait by (simp add: base_inv_def pend_inv_iff)
qed

lemma none_quiet:
  assumes inv: "coh_inv cfg s" and i: "\<not> inval (lines s i)" and ack: "ackp s i = 0"
  shows "pinvs s i = None \<and> cbq s i = []"
proof -
  have p: "pinvs s i = None" "DoAllocateLine \<notin> set (cbq s i)" using not_inval_quiet [OF inv i] by blast+
  have "SendAck \<notin> set (cbq s i)" using ack by (simp add: ackp_def count_list_0_iff)
  moreover have "set (cbq s i) \<subseteq> {SendAck, DoAllocateLine}" using cbk.exhaust by blast
  ultimately show ?thesis using p by (metis ex_in_conv insert_iff set_empty singletonD subsetD)
qed

subsection \<open>The bus\<close>

lemma access_eq: "req_ok r \<Longrightarrow> SMPSystemBus_access cfg r cnt = SMPSystemBus_doRead cfg r cnt"
  by (rule bus_access_eq) (simp add: req_ok_def)

lemma finalize_ok: "req_ok r \<Longrightarrow> \<exists>b. SMPSystemBus_finalizeAccess r = Some (GoUp b)"
  by (cases "sr_memOp r = MemWrite") (auto simp: SMPSystemBus_finalizeAccess_def req_ok_def)

text \<open>One more response arrives.\<close>

lemma bus_step_response:
  assumes t: "t_at t = AtSnoop" "t_req t = Some r" "sr_needSnoop r" "req_ok r" "finite (t_todo t)"
    and cnt: "t_cnt t = Some (int (card (t_todo t) + ack_total cfg s) + 1)"
      "card (t_todo t) + ack_total cfg s + 1 < nCaches cfg"
    and seen: "seen s r (others cfg t - t_todo t)"
    and ex: "sr_state r \<in> {MESI_EXCLUSIVE, MESI_MODIFIED} \<longrightarrow> (\<forall>j\<in>t_todo t. \<not> valid (lines s j))"
  shows "\<exists>t'. bus_step cfg t = Some t' \<and> t_req t' = Some r \<and> t_owner t' = t_owner t \<and>
    t_op t' = t_op t \<and> t_todo t' = t_todo t \<and> place_inv cfg s t' r"
proof -
  let ?k = "card (t_todo t) + ack_total cfg s"
  obtain b where b: "SMPSystemBus_finalizeAccess r = Some (GoUp b)" using finalize_ok [OF t(4)] by blast
  show ?thesis
  proof (cases "?k = 0")
    case True
    then have todo: "t_todo t = {}" "ack_total cfg s = 0" using t(5) by simp_all
    then show ?thesis using t b cnt seen
      by (auto simp: bus_step_def access_eq SMPSystemBus_doRead_def place_inv_def others_def)
  next
    case False
    then have "int ?k \<noteq> 0" by linarith
    then have "bus_step cfg t = Some (t\<lparr>t_cnt := Some (int ?k)\<rparr>)"
      using t cnt by (simp add: bus_step_def access_eq SMPSystemBus_doRead_def)
    then show ?thesis using t cnt(2) seen ex False by (auto simp: place_inv_def others_def)
  qed
qed

lemma txn_frame [simp]:
  "seen (s\<lparr>txn := x\<rparr>) r K = seen s r K" "alone (s\<lparr>txn := x\<rparr>) r K = alone s r K"
  "place_inv cfg (s\<lparr>txn := x\<rparr>) t r = place_inv cfg s t r"
  "base_inv cfg (s\<lparr>txn := x\<rparr>) = base_inv cfg s"
proof -
  show "seen (s\<lparr>txn := x\<rparr>) r K = seen s r K" "alone (s\<lparr>txn := x\<rparr>) r K = alone s r K" for K
    by (simp_all add: seen_def alone_def)
  then show "place_inv cfg (s\<lparr>txn := x\<rparr>) t r = place_inv cfg s t r" 
    by (cases "t_at t") (simp_all add: place_inv_def)
  show "base_inv cfg (s\<lparr>txn := x\<rparr>) = base_inv cfg s"
    by (simp add: base_inv_def line_inv_def swmr_def pend_inv_def)
qed

lemma others_finite [simp]: "finite (others cfg t)"
  by (simp add: others_def)

lemma snoopD:
  assumes "coh_inv cfg s" "txn s = Some t" "t_at t = AtSnoop"
  obtains r where "t_req t = Some r" "req_ok r" "lines s (t_owner t) = Some (owner_line r)"
    "is_read r = (t_op t = MemRead)" "sr_needSnoop r"
    "t_cnt t = Some (int (card (t_todo t) + ack_total cfg s))"
    "0 < card (t_todo t) + ack_total cfg s" "card (t_todo t) + ack_total cfg s < nCaches cfg"
    "seen s r (others cfg t - t_todo t)"
    "sr_state r \<in> {MESI_EXCLUSIVE, MESI_MODIFIED} \<longrightarrow> (\<forall>j\<in>t_todo t. \<not> valid (lines s j))"
    "t_owner t < nCaches cfg" "\<forall>j. j \<noteq> t_owner t \<longrightarrow> \<not> busy (lines s j)" "ackp s (t_owner t) = 0"
    "t_todo t \<subseteq> others cfg t" "t_op t \<noteq> MemPush"
proof -
  have T: "txn_inv cfg s" using assms(1) by (simp add: coh_inv_split)
  obtain r where r: "t_req t = Some r" using T assms(2,3) by (auto simp: txn_inv_def split: option.splits)
  show ?thesis
    by (rule that [OF r]) (use T assms(2,3) r in \<open>auto simp: txn_inv_def place_inv_def\<close>)
qed

text \<open>Cache \<open>j\<close> has answered, or a pending acknowledgement of it arrives.\<close>

lemma snoop_finish:
  assumes inv: "coh_inv cfg s" and t: "txn s = Some t" "t_at t = AtSnoop" "t_req t = Some r"
    and r': "req_ok r'" "is_read r' = is_read r" "sr_needSnoop r' = sr_needSnoop r"
    and s1: "base_inv cfg s1" "lines s1 = (lines s)(j := l)" "j \<noteq> t_owner t" "\<not> busy l"
      "ackp s1 (t_owner t) = 0"
    and todo: "todo' \<subseteq> t_todo t" and a: "a = 0 \<or> a = 1"
    and cnt: "card todo' + ack_total cfg s1 + a = card (t_todo t) + ack_total cfg s"
    and seen: "seen s1 r' (others cfg t - todo')"
    and ex: "sr_state r' \<in> {MESI_EXCLUSIVE, MESI_MODIFIED} \<longrightarrow> (\<forall>i\<in>todo'. \<not> valid (lines s1 i))"
  shows "\<exists>t'. bus_acks cfg a (t\<lparr>t_req := Some r', t_todo := todo'\<rparr>) = Some t' \<and>
    coh_inv cfg (s1\<lparr>txn := Some t'\<rparr>)"
proof -
  let ?t = "t\<lparr>t_req := Some r', t_todo := todo'\<rparr>"
  obtain r0 where T: "t_req t = Some r0" "req_ok r0" "lines s (t_owner t) = Some (owner_line r0)"
    "is_read r0 = (t_op t = MemRead)" "sr_needSnoop r0"
    "t_cnt t = Some (int (card (t_todo t) + ack_total cfg s))"
    "0 < card (t_todo t) + ack_total cfg s" "card (t_todo t) + ack_total cfg s < nCaches cfg"
    "t_owner t < nCaches cfg" "\<forall>j. j \<noteq> t_owner t \<longrightarrow> \<not> busy (lines s j)"
    "t_todo t \<subseteq> others cfg t" "t_op t \<noteq> MemPush"
    using snoopD [OF inv t(1,2)] by metis
  have rr: "r0 = r" using T(1) t(3) by simp
  have ns: "sr_needSnoop r'" using T(5) r'(3) rr by simp
  have oth: "others cfg ?t = others cfg t" by (simp add: others_def)
  have fin: "finite todo'" using todo T(11) finite_subset others_finite by metis
  have "\<exists>t'. bus_acks cfg a ?t = Some t' \<and> t_req t' = Some r' \<and> t_owner t' = t_owner t \<and>
    t_op t' = t_op t \<and> t_todo t' = todo' \<and> place_inv cfg s1 t' r'"
  proof (cases "a = 0")
    case True
    then have "place_inv cfg s1 ?t r'"
      using t(2) ns T(6-8) cnt seen ex by (simp add: place_inv_def oth)
    then show ?thesis using True by (simp add: bus_acks_def)
  next
    case False
    then have a1: "a = 1" using a by simp
    then have "card todo' + ack_total cfg s1 + 1 = card (t_todo t) + ack_total cfg s" using cnt by simp
    then have c: "t_cnt ?t = Some (int (card (t_todo ?t) + ack_total cfg s1) + 1)"
        "card (t_todo ?t) + ack_total cfg s1 + 1 < nCaches cfg" using T(6,8) by simp_all
    have "\<exists>t'. bus_step cfg ?t = Some t' \<and> t_req t' = Some r' \<and> t_owner t' = t_owner ?t \<and>
        t_op t' = t_op ?t \<and> t_todo t' = t_todo ?t \<and> place_inv cfg s1 t' r'"
      by (rule bus_step_response [OF _ _ ns r'(1) _ c]) (use t(2) fin seen ex oth in simp_all)
    then show ?thesis using a1 by (simp add: bus_acks_def)
  qed
  then obtain t' where t': "bus_acks cfg a ?t = Some t'" "t_req t' = Some r'" "t_owner t' = t_owner t"
      "t_op t' = t_op t" "t_todo t' = todo'" "place_inv cfg s1 t' r'" by blast
  have ol: "owner_line r' = owner_line r" using r'(2,3) by (simp add: owner_line_def)
  have "others cfg t' = others cfg t" using t'(3) by (simp add: others_def)
  then have "txn_inv cfg (s1\<lparr>txn := Some t'\<rparr>)"
    using t' T s1(2-5) todo r' ol rr by (auto simp: txn_inv_def)
  moreover have "base_inv cfg (s1\<lparr>txn := Some t'\<rparr>)" using s1(1) by simp
  ultimately show ?thesis using t'(1) by (auto simp: coh_inv_split)
qed

subsection \<open>Callbacks of a cache\<close>

lemma fire_alloc_inv:
  assumes inv: "coh_inv cfg s" and j: "j < nCaches cfg" and cb: "cbq s j = DoAllocateLine # rest"
    and e: "exec cfg s (Fire j) = Some s'"
  shows "coh_inv cfg s'"
proof -
  have iv: "inval (lines s j)" using pend_class(1) [OF inv, of j] cb by simp
  have p: "pinvs s j = None" "count_list rest DoAllocateLine = 0"
    using pend_class(2) [OF inv, of j] cb by (auto split: if_splits)
  have own: "txn s = Some t \<Longrightarrow> t_owner t = j \<Longrightarrow> False" for t
    using owner_quiet [OF inv, of t] cb by fastforce
  obtain w where w: "s' = put_loc j (loc_at s j\<lparr>wbs := w, ln := None\<rparr>) (s\<lparr>cbq := (cbq s)(j := rest)\<rparr>)"
    using e cb by (auto simp: SMPCache_doAllocateLine_victim_def SMPCache_doWriteBack_def loc_at_def loc_of_def
        split: bind_splits if_splits)
  show ?thesis
    by (rule local_inv [OF inv j, of s' None])
      (use w own p cb iv in \<open>auto simp: weaker_def ackp_def count_list_0_iff dest: class_disj\<close>)
qed

lemma fire_ack_inv:
  assumes inv: "coh_inv cfg s" and j: "j < nCaches cfg" and cb: "cbq s j = SendAck # rest"
  shows "\<exists>s'. exec cfg s (Fire j) = Some s' \<and> coh_inv cfg s'"
proof -
  have a: "ackp s j = (case pinvs s j of None \<Rightarrow> 0 | Some p \<Rightarrow> if pi_cb p = SendAck then 1 else 0) +
      count_list rest SendAck + 1"
    using cb by (simp add: ackp_def)
  then have pos: "0 < ack_total cfg s" using ackp_le_total [OF j, of s] by simp
  then obtain t where t: "txn s = Some t" using inv by (auto simp: coh_inv_def txn_inv_def split: option.splits)
  have at: "t_at t = AtSnoop"
    using inv t pos by (cases "t_at t") (auto simp: coh_inv_def txn_inv_def place_inv_def split: option.splits)
  obtain r where T: "t_req t = Some r" "req_ok r" "seen s r (others cfg t - t_todo t)"
      "sr_state r \<in> {MESI_EXCLUSIVE, MESI_MODIFIED} \<longrightarrow> (\<forall>j\<in>t_todo t. \<not> valid (lines s j))"
      "ackp s (t_owner t) = 0" "\<forall>j. j \<noteq> t_owner t \<longrightarrow> \<not> busy (lines s j)"
    using snoopD [OF inv t at] by metis
  have jo: "j \<noteq> t_owner t" using a T(5) by auto
  let ?s0 = "s\<lparr>cbq := (cbq s)(j := rest)\<rparr>"
  let ?l = "SMPCache_respondBelow j r (loc_at s j)" and ?t = "t\<lparr>t_req := Some r, t_todo := t_todo t\<rparr>"
  let ?s1 = "put_loc j ?l ?s0"
  have l: "ln ?l = lines s j" "pend ?l = pinvs s j" "cbs ?l = []" "acked ?l = 1"
    by (simp_all add: SMPCache_respondBelow_def SMPCache_doWriteBack_def Let_def)
  have lines1: "lines ?s1 = (lines s)(j := lines s j)" using l by simp
  have base: "base_inv cfg s" using inv by (simp add: coh_inv_split)
  have "pend_ok s j" using base by (simp add: base_inv_def pend_inv_iff)
  then have pk: "pend_ok ?s1 j" using cb l by (simp add: pend_ok_def)
  have nb: "\<not> busy (lines s j)" using T(6) jo by simp
  have cl: "lines s j = None \<or> valid (lines s j) \<or> inval (lines s j)" using line_class [OF inv, of j] nb by simp
  have base1: "base_inv cfg ?s1"
    by (rule base_local [OF base j lines1 _ cl _ _ pk]) (use nb in \<open>simp_all add: weaker_def\<close>)
  have ack1: "ackp ?s1 j + 1 = ackp s j" using a l by (simp add: ackp_def)
  have oth: "i \<noteq> j \<Longrightarrow> ackp ?s1 i = ackp s i" for i by (simp add: ackp_def)
  have tot: "ack_total cfg ?s1 + 1 = ack_total cfg s"
    using ack_total_put [OF j, of ?s1 s] oth ack1 by simp
  have lf: "lines ?s1 = lines s" using lines1 by simp
  have "\<exists>t'. bus_acks cfg 1 ?t = Some t' \<and> coh_inv cfg (?s1\<lparr>txn := Some t'\<rparr>)"
    by (rule snoop_finish [OF inv t at T(1,2) refl refl base1 lines1 jo nb])
      (use oth [OF jo [symmetric]] T tot lf in \<open>simp_all add: seen_def\<close>)
  moreover have "?t = t" using T(1) by simp
  ultimately show ?thesis using cb t T(1) l(4) by (auto simp: Let_def)
qed

subsection \<open>A cache answers\<close>

lemma swmrD: "coh_inv cfg s \<Longrightarrow> excl (lines s i) \<Longrightarrow> j \<noteq> i \<Longrightarrow> \<not> valid (lines s j)"
proof -
  assume a: "coh_inv cfg s" "excl (lines s i)" "j \<noteq> i"
  then have "swmr s" by (simp add: coh_inv_def)
  then have "i \<noteq> j \<and> excl (lines s i) \<longrightarrow> \<not> valid (lines s j)" unfolding swmr_def by (elim allE)
  then show ?thesis using a(2,3) by simp
qed

lemma combine_ok:
  assumes "valid (Some st)" "req_ok r" "sr_state r \<notin> {MESI_EXCLUSIVE, MESI_MODIFIED}"
  shows "\<exists>r'. combineResponses j st r = Some r' \<and> req_ok r' \<and> sr_memOp r' = sr_memOp r \<and>
    sr_needSnoop r' = sr_needSnoop r \<and> sr_needData r' = sr_needData r \<and> sr_found r' \<and>
    (sr_state r' \<in> {MESI_EXCLUSIVE, MESI_MODIFIED} \<longrightarrow> excl (Some st)) \<and>
    (st = MESI_MODIFIED \<longrightarrow> sr_supplier r' = Some j \<and> sr_writeDown r')"
proof -
  have n: "sr_state r \<noteq> MESI_EXCLUSIVE" "sr_state r \<noteq> MESI_MODIFIED" using assms(3) by simp_all
  consider "st = MESI_SHARED" | "st = MESI_EXCLUSIVE" | "st = MESI_MODIFIED"
    using assms(1) by (auto simp: valid_def)
  then show ?thesis
  proof cases
    case 1
    show ?thesis
      by (cases "sr_found r"; insert assms(2) n; auto simp: 1 combineResponses_def req_ok_def is_read_def Let_def)
  next
    case 2
    show ?thesis using assms(2) n by (simp add: 2 combineResponses_def req_ok_def is_read_def Let_def)
  next
    case 3
    show ?thesis using assms(2) n by (simp add: 3 combineResponses_def req_ok_def is_read_def Let_def)
  qed
qed

lemma receive_idle:
  assumes "\<not> valid (lines s j)" "\<not> busy (lines s j)" "req_ok r" "coh_inv cfg s"
  shows "SMPCache_doReceiveFromBelow cfg j r (loc_at s j) =
    Some (r, SMPCache_respondBelow j r (loc_at s j))"
proof -
  have "lines s j = None \<or> lines s j = Some MESI_TRANS_INV \<or> lines s j = Some MESI_TRANS_INV_D"
    using line_class [OF assms(4), of j] assms(1,2) by (auto simp: inval_def)
  then show ?thesis using assms(3)
    by (cases "sr_memOp r") (auto simp: SMPCache_doReceiveFromBelow_def readMissHandler_def
        writeMissHandler_def invalidateHandler_def req_ok_def)
qed

lemma receive_read:
  assumes "lines s j = Some st" "valid (Some st)" "is_read r" "combineResponses j st r = Some r'"
  shows "SMPCache_doReceiveFromBelow cfg j r (loc_at s j) =
    Some (r', SMPCache_respondBelow j r' (loc_at s j\<lparr>ln := Some MESI_SHARED\<rparr>))"
  using assms by (auto simp: SMPCache_doReceiveFromBelow_def readMissHandler_def is_read_def valid_def)

text \<open>An invalidation: at the highest level at once, otherwise it waits for the levels above.\<close>

lemma receive_write:
  assumes "lines s j = Some st" "valid (Some st)" "\<not> is_read r" "req_ok r"
    "combineResponses j st r = Some r'" "pinvs s j = None"
  shows "\<exists>r'' l. SMPCache_doReceiveFromBelow cfg j r (loc_at s j) = Some (r'', l) \<and>
    (r'' = r' \<or> r'' = r'\<lparr>sr_writeDown := False\<rparr>) \<and> acked l = 0 \<and>
    (ln l = None \<and> pend l = None \<and> cbs l = [SendAck] \<and> (st = MESI_MODIFIED \<longrightarrow> 0 < wbs l) \<or>
     (\<not> isHighestLevel cfg \<or> 1 < numUpper cfg) \<and> cbs l = [] \<and>
     ln l = (if st = MESI_MODIFIED then Some MESI_TRANS_INV_D else Some MESI_TRANS_INV) \<and>
     (\<exists>q. pend l = Some \<lparr>outsResps = q, pi_cb = SendAck, pi_invalidate = True\<rparr>))"
proof -
  have "\<exists>l. SMPCache_invalidateLine cfg SendAck (loc_at s j) = Some l \<and> acked l = 0 \<and>
    (ln l = None \<and> pend l = None \<and> cbs l = [SendAck] \<and> (st = MESI_MODIFIED \<longrightarrow> 0 < wbs l) \<or>
     (\<not> isHighestLevel cfg \<or> 1 < numUpper cfg) \<and> cbs l = [] \<and>
     ln l = (if st = MESI_MODIFIED then Some MESI_TRANS_INV_D else Some MESI_TRANS_INV) \<and>
     (\<exists>q. pend l = Some \<lparr>outsResps = q, pi_cb = SendAck, pi_invalidate = True\<rparr>))"
    using assms(1,2,6)
    by (auto simp: SMPCache_invalidateLine_def SMPCache_doInvalidate_def SMPCache_realInvalidate_def
        SMPCache_doWriteBack_def valid_def Let_def SMPCacheState_invalidate_def)
  then obtain l where l: "SMPCache_invalidateLine cfg SendAck (loc_at s j) = Some l" "acked l = 0"
    "ln l = None \<and> pend l = None \<and> cbs l = [SendAck] \<and> (st = MESI_MODIFIED \<longrightarrow> 0 < wbs l) \<or>
     (\<not> isHighestLevel cfg \<or> 1 < numUpper cfg) \<and> cbs l = [] \<and>
     ln l = (if st = MESI_MODIFIED then Some MESI_TRANS_INV_D else Some MESI_TRANS_INV) \<and>
     (\<exists>q. pend l = Some \<lparr>outsResps = q, pi_cb = SendAck, pi_invalidate = True\<rparr>)" by blast
  have nl: "\<not> st_isLocked st" using locked_class(2) [OF assms(2)] .
  have "SMPCache_doReceiveFromBelow cfg j r (loc_at s j) =
      Some (if sr_supplier r' = Some j \<and> sr_writeDown r' then r'\<lparr>sr_writeDown := False\<rparr> else r', l)"
    using assms(1,3,4,5) l(1) nl
    by (cases "sr_memOp r") (auto simp: SMPCache_doReceiveFromBelow_def writeMissHandler_def
        invalidateHandler_def is_read_def req_ok_def Let_def)
  then show ?thesis using l(2,3) by (cases "sr_supplier r' = Some j \<and> sr_writeDown r'") auto
qed

lemma handle_finish:
  assumes inv: "coh_inv cfg s" and t: "txn s = Some t" "t_at t = AtSnoop" "t_req t = Some r"
    and j: "j \<in> t_todo t"
    and rec: "SMPCache_doReceiveFromBelow cfg j r (loc_at s j) = Some (r', l)"
    and r': "req_ok r'" "is_read r' = is_read r" "sr_needSnoop r' = sr_needSnoop r"
    and l: "weaker (ln l) (lines s j)" "ln l = None \<or> valid (ln l) \<or> inval (ln l)"
      "pend_ok (put_loc j l s) j"
    and ack: "acked l = 0 \<or> acked l = 1" "ackp (put_loc j l s) j + acked l = ackp s j + 1"
    and answer: "if is_read r then \<not> excl (ln l) \<and> (valid (ln l) \<longrightarrow> sr_found r') else \<not> valid (ln l)"
    and mono: "sr_found r \<longrightarrow> sr_found r'"
    and ex: "sr_state r' \<in> {MESI_EXCLUSIVE, MESI_MODIFIED} \<longrightarrow> (\<forall>i\<in>t_todo t - {j}. \<not> valid (lines s i))"
  shows "\<exists>s'. exec cfg s (Handle j) = Some s' \<and> coh_inv cfg s'"
proof -
  let ?s1 = "put_loc j l s" and ?todo = "t_todo t - {j}"
  obtain r0 where T: "t_req t = Some r0" "seen s r0 (others cfg t - t_todo t)"
      "t_owner t < nCaches cfg" "ackp s (t_owner t) = 0" "t_todo t \<subseteq> others cfg t"
    using snoopD [OF inv t(1,2)] by metis
  have rr: "r0 = r" using T(1) t(3) by simp
  have jn: "j < nCaches cfg" "j \<noteq> t_owner t" using T(5) j by (auto simp: others_def)
  have nb: "\<not> busy (ln l)" using l(1) by (simp add: weaker_def)
  have lines1: "lines ?s1 = (lines s)(j := ln l)" by simp
  have base1: "base_inv cfg ?s1"
    by (rule base_local [OF _ jn(1) lines1 l(1,2) _ _ l(3)]) (use inv in \<open>simp_all add: coh_inv_split\<close>)
  have own: "ackp ?s1 (t_owner t) = 0" using T(4) jn(2) by simp
  have fin: "finite (t_todo t)" using T(5) finite_subset others_finite by metis
  have "ack_total cfg ?s1 + ackp s j = ack_total cfg s + ackp ?s1 j" using ack_total_put [OF jn(1)] by simp
  moreover have "card ?todo + 1 = card (t_todo t)" using fin j card_Suc_Diff1 by fastforce
  ultimately have cnt: "card ?todo + ack_total cfg ?s1 + acked l = card (t_todo t) + ack_total cfg s"
    using ack(2) by linarith
  have seen: "seen ?s1 r' (others cfg t - ?todo)"
    using T(2) answer mono r'(2) unfolding rr seen_def by (auto split: if_splits)
  have ex1: "sr_state r' \<in> {MESI_EXCLUSIVE, MESI_MODIFIED} \<longrightarrow> (\<forall>i\<in>?todo. \<not> valid (lines ?s1 i))"
    using ex by simp
  obtain t' where "bus_acks cfg (acked l) (t\<lparr>t_req := Some r', t_todo := ?todo\<rparr>) = Some t'"
      "coh_inv cfg (?s1\<lparr>txn := Some t'\<rparr>)"
    using snoop_finish [OF inv t r' base1 lines1 jn(2) nb own Diff_subset ack(1) cnt seen ex1] by blast
  then show ?thesis using t(1,3) rec by simp
qed

lemma handle_inv:
  assumes inv: "coh_inv cfg s" and g: "guard cfg s (Handle j)"
  shows "\<exists>s'. exec cfg s (Handle j) = Some s' \<and> coh_inv cfg s'"
proof -
  obtain t where t: "txn s = Some t" "t_at t = AtSnoop" and j: "j \<in> t_todo t" using g by auto
  obtain r where T: "t_req t = Some r" "req_ok r"
      "sr_state r \<in> {MESI_EXCLUSIVE, MESI_MODIFIED} \<longrightarrow> (\<forall>j\<in>t_todo t. \<not> valid (lines s j))"
      "\<forall>j. j \<noteq> t_owner t \<longrightarrow> \<not> busy (lines s j)" "t_todo t \<subseteq> others cfg t"
    using snoopD [OF inv t] by metis
  have jo: "j \<noteq> t_owner t" using T(5) j by (auto simp: others_def)
  have nb: "\<not> busy (lines s j)" using T(4) jo by simp
  have cl: "lines s j = None \<or> valid (lines s j) \<or> inval (lines s j)" using line_class [OF inv, of j] nb by simp
  have pk: "pend_ok s j" using inv by (simp add: coh_inv_split base_inv_def pend_inv_iff)
  note fin = handle_finish [OF inv t T(1) j]
  show ?thesis
  proof (cases "valid (lines s j)")
    case False
    show ?thesis
      by (rule fin [OF receive_idle [OF False nb T(2) inv] T(2)])
        (use pk False nb cl T(3) in \<open>auto simp: weaker_def pend_ok_def ackp_def SMPCache_respondBelow_def
          SMPCache_doWriteBack_def Let_def dest: class_disj\<close>)
  next
    case True
    then obtain st where st: "lines s j = Some st" "valid (Some st)" by (cases "lines s j") auto
    have q: "pinvs s j = None" "DoAllocateLine \<notin> set (cbq s j)"
      using not_inval_quiet [OF inv, of j] True class_disj by blast+
    have "sr_state r \<notin> {MESI_EXCLUSIVE, MESI_MODIFIED}" using T(3) True j by blast
    then obtain r' where r': "combineResponses j st r = Some r'" "req_ok r'" "sr_memOp r' = sr_memOp r"
        "sr_needSnoop r' = sr_needSnoop r" "sr_found r'"
        "sr_state r' \<in> {MESI_EXCLUSIVE, MESI_MODIFIED} \<longrightarrow> excl (Some st)"
      using combine_ok [OF st(2) T(2), of j] by blast
    have rd: "is_read r' = is_read r" using r'(3) by (simp add: is_read_def)
    have ex: "sr_state r' \<in> {MESI_EXCLUSIVE, MESI_MODIFIED} \<longrightarrow> (\<forall>i\<in>t_todo t - {j}. \<not> valid (lines s i))"
      using r'(6) st(1) swmrD [OF inv, of j] by auto
    show ?thesis
    proof (cases "is_read r")
      case rd1: True
      show ?thesis
        by (rule fin [OF receive_read [OF st rd1 r'(1)] r'(2) rd r'(4)])
          (use pk True nb q r'(5) ex rd1 in \<open>auto simp: weaker_def pend_ok_def ackp_def
            SMPCache_respondBelow_def SMPCache_doWriteBack_def Let_def\<close>)
    next
      case wr: False
      obtain r2 l where l: "SMPCache_doReceiveFromBelow cfg j r (loc_at s j) = Some (r2, l)"
          "r2 = r' \<or> r2 = r'\<lparr>sr_writeDown := False\<rparr>" "acked l = 0"
          "ln l = None \<and> pend l = None \<and> cbs l = [SendAck] \<or>
           cbs l = [] \<and> inval (ln l) \<and>
           (\<exists>q. pend l = Some \<lparr>outsResps = q, pi_cb = SendAck, pi_invalidate = True\<rparr>)"
        using receive_write [OF st wr T(2) r'(1) q(1), of cfg] by (auto split: if_splits)
      have r2: "req_ok r2" "is_read r2 = is_read r" "sr_needSnoop r2 = sr_needSnoop r" "sr_found r2"
          "sr_state r2 = sr_state r'"
        using l(2) r'(2,4,5) rd by (auto simp: req_ok_def is_read_def)
      have li: "ln l = None \<or> inval (ln l)" using l(4) by blast
      then have nv: "\<not> valid (ln l)" "\<not> excl (ln l)" "\<not> busy (ln l)" using class_disj by auto
      show ?thesis
        by (rule fin [OF l(1) r2(1-3)])
          (use pk q nv nb li l(3,4) r2(4,5) ex wr in \<open>auto simp: weaker_def pend_ok_def ackp_def
            count_list_0_iff\<close>)
    qed
  qed
qed

subsection \<open>The bus and memory\<close>

lemma txnD:
  assumes "coh_inv cfg s" "txn s = Some t" "t_at t \<noteq> AtAlloc"
  obtains r where "t_req t = Some r" "req_ok r" "lines s (t_owner t) = Some (owner_line r)"
    "is_read r = (t_op t = MemRead)" "place_inv cfg s t r" "t_owner t < nCaches cfg"
    "\<forall>j. j \<noteq> t_owner t \<longrightarrow> \<not> busy (lines s j)" "ackp s (t_owner t) = 0"
    "t_todo t \<subseteq> others cfg t" "t_op t \<noteq> MemPush"
proof -
  have T: "txn_inv cfg s" using assms(1) by (simp add: coh_inv_split)
  obtain r where r: "t_req t = Some r" using T assms(2,3) by (auto simp: txn_inv_def split: option.splits)
  show ?thesis
    by (rule that [OF r]) (use T assms(2) r in \<open>auto simp: txn_inv_def\<close>)
qed

text \<open>The request goes on, and no line changes.\<close>

lemma move_txn:
  assumes inv: "coh_inv cfg s" and t: "txn s = Some t" and r: "t_req t = Some r"
    and t': "t_req t' = Some r" "t_owner t' = t_owner t" "t_op t' = t_op t" "t_todo t' \<subseteq> others cfg t"
    and place: "place_inv cfg s t' r"
  shows "coh_inv cfg (s\<lparr>txn := Some t'\<rparr>)"
proof -
  have "others cfg t' = others cfg t" using t'(2) by (simp add: others_def)
  then have "txn_inv cfg (s\<lparr>txn := Some t'\<rparr>)"
    using inv t r t' place by (auto simp: coh_inv_split txn_inv_def)
  then show ?thesis using inv by (simp add: coh_inv_split)
qed

lemma bus_cycle_inv:
  assumes inv: "coh_inv cfg s" and g: "guard cfg s BusCycle"
  shows "\<exists>s'. exec cfg s BusCycle = Some s' \<and> coh_inv cfg s'"
proof -
  obtain t where t: "txn s = Some t" "t_at t = AtBus" using g by auto
  obtain r where T: "t_req t = Some r" "req_ok r" "place_inv cfg s t r" "t_owner t < nCaches cfg"
    using txnD [OF inv t(1)] t(2) by (metis place.distinct(1))
  have P: "t_todo t = {}" "t_cnt t = None" "ack_total cfg s = 0"
      "if sr_needSnoop r then sr_state r = MESI_INVALID else alone s r (others cfg t)"
    using T(3) t(2) by (simp_all add: place_inv_def)
  obtain b where b: "SMPSystemBus_finalizeAccess r = Some (GoUp b)" using finalize_ok [OF T(2)] by blast
  have card: "card (others cfg t) = nCaches cfg - 1" using T(4) by (simp add: others_def)
  have "\<exists>t'. bus_step cfg t = Some t' \<and> t_req t' = Some r \<and> t_owner t' = t_owner t \<and>
      t_op t' = t_op t \<and> t_todo t' \<subseteq> others cfg t \<and> place_inv cfg s t' r"
  proof (cases "sr_needSnoop r")
    case False
    then have "bus_step cfg t = Some (t\<lparr>t_cnt := None, t_at := AtMem\<rparr>)"
      using T(1,2) P(2) by (simp add: bus_step_def access_eq SMPSystemBus_doRead_def)
    then show ?thesis using False P T(1) by (simp add: place_inv_def others_def alone_def)
  next
    case True
    show ?thesis
    proof (cases "nCaches cfg = 1")
      case one: True
      then have "bus_step cfg t = Some (t\<lparr>t_cnt := None, t_at := AtOwner\<rparr>)"
        using T(1,2) P(2) b True by (simp add: bus_step_def access_eq SMPSystemBus_doRead_def)
      moreover have "others cfg t = {}" using one T(4) by (auto simp: others_def)
      moreover have "others cfg (t\<lparr>t_cnt := None, t_at := AtOwner\<rparr>) = others cfg t"
        by (simp add: others_def)
      ultimately show ?thesis using True P T(1) by (simp add: place_inv_def seen_def)
    next
      case many: False
      then have "int (nCaches cfg) - 1 \<noteq> 0" by linarith
      then have "bus_step cfg t = Some (t\<lparr>t_cnt := Some (int (nCaches cfg) - 1), t_at := AtSnoop,
          t_todo := others cfg t\<rparr>)"
        using T(1,2) P(2) True by (simp add: bus_step_def access_eq SMPSystemBus_doRead_def others_def)
      moreover have "place_inv cfg s (t\<lparr>t_cnt := Some (int (nCaches cfg) - 1), t_at := AtSnoop,
          t_todo := others cfg t\<rparr>) r"
        using many True P T(4) card by (auto simp: place_inv_def others_def seen_def of_nat_diff)
      ultimately show ?thesis using T(1) by simp
    qed
  qed
  then obtain t' where t': "bus_step cfg t = Some t'" "t_req t' = Some r" "t_owner t' = t_owner t"
      "t_op t' = t_op t" "t_todo t' \<subseteq> others cfg t" "place_inv cfg s t' r" by blast
  show ?thesis using move_txn [OF inv t(1) T(1) t'(2-6)] t(1) t'(1) by simp
qed

lemma inv_home_eq: "coh_inv cfg (s\<lparr>home := h\<rparr>) = coh_inv cfg s"
  by (simp add: coh_inv_def line_inv_def swmr_def pend_inv_def txn_inv_def place_inv_def seen_def alone_def
      cong: option.case_cong place.case_cong)

lemma inv_home: "coh_inv cfg s \<Longrightarrow> coh_inv cfg (s\<lparr>home := h\<rparr>)"
  by (simp only: inv_home_eq)

lemma mem_return_inv:
  assumes inv: "coh_inv cfg s" and g: "guard cfg s MemReturn"
  shows "\<exists>s'. exec cfg s MemReturn = Some s' \<and> coh_inv cfg s'"
proof -
  obtain t where t: "txn s = Some t" "t_at t = AtMem" using g by auto
  obtain r where T: "t_req t = Some r" "place_inv cfg s t r" "t_todo t \<subseteq> others cfg t"
    using txnD [OF inv t(1)] t(2) by (metis place.distinct(7))
  have "coh_inv cfg (s\<lparr>txn := Some (t\<lparr>t_at := AtOwner\<rparr>)\<rparr>)"
    by (rule move_txn [OF inv t(1) T(1)]) (use T t(2) in \<open>auto simp: place_inv_def others_def\<close>)
  then have "coh_inv cfg ((s\<lparr>txn := Some (t\<lparr>t_at := AtOwner\<rparr>)\<rparr>)\<lparr>home := fetched (sr_needData r) (home s)\<rparr>)"
    by (rule inv_home)
  then show ?thesis using t(1) T(1) by simp
qed

subsection \<open>The response\<close>

lemma conclude_inv:
  assumes inv: "coh_inv cfg s" and t: "txn s = Some t" "t_at t = AtOwner"
    and s': "lines s' = (lines s)(t_owner t := Some st)" "pinvs s' = pinvs s" "cbq s' = cbq s"
      "txn s' = None" "waiting s' = waiting s"
    and st: "valid (Some st)"
      "\<forall>j\<in>others cfg t. (excl (Some st) \<longrightarrow> \<not> valid (lines s j)) \<and> \<not> excl (lines s j)"
  shows "coh_inv cfg s'"
proof -
  obtain r where T: "place_inv cfg s t r" "t_owner t < nCaches cfg" "\<forall>j. j \<noteq> t_owner t \<longrightarrow> \<not> busy (lines s j)"
    using txnD [OF inv t(1)] t(2) by (metis place.distinct(5))
  have base: "base_inv cfg s" using inv by (simp add: coh_inv_split)
  have out: "lines s j = None" if "j \<notin> others cfg t" "j \<noteq> t_owner t" for j
    using base that by (auto simp: base_inv_def line_inv_def others_def)
  have "ack_total cfg s' = ack_total cfg s" using s'(2,3) by (simp add: ack_total_def ackp_def)
  then have "ack_total cfg s' = 0" using T(1) t(2) by (simp add: place_inv_def)
  moreover have "\<not> busy (lines s' j)" for j
    using s'(1) T(3) st(1) class_disj(2) by (cases "j = t_owner t") auto
  ultimately have "txn_inv cfg s'" using s'(4) by (simp add: txn_inv_def)
  moreover have "base_inv cfg s'"
  proof (rule base_owner [OF base T(2) s'(1-3)])
    show "\<forall>i memOp. waiting s' i = Some memOp \<longrightarrow> memOp \<noteq> MemPush"
      using base s'(5) by (simp add: base_inv_def)
    show "pinvs s (t_owner t) = None" "DoAllocateLine \<notin> set (cbq s (t_owner t))"
      using owner_quiet [OF inv t(1)] by simp_all
    have "(excl (Some st) \<longrightarrow> \<not> valid (lines s j)) \<and> \<not> excl (lines s j)" if "j \<noteq> t_owner t" for j
      using st(2) out [OF _ that] by (cases "j \<in> others cfg t") simp_all
    then show "Some st = None \<or> busy (Some st) \<or> valid (Some st) \<and>
        (\<forall>j. j \<noteq> t_owner t \<longrightarrow> (excl (Some st) \<longrightarrow> \<not> valid (lines s j)) \<and> \<not> excl (lines s j))"
      using st(1) by simp
  qed
  ultimately show ?thesis by (simp add: coh_inv_split)
qed

text \<open>No other cache has the line: the request goes to memory.\<close>

lemma resend_inv:
  assumes inv: "coh_inv cfg s" and t: "txn s = Some t" "t_at t = AtOwner" "t_req t = Some r"
    and r': "r' = r\<lparr>sr_needSnoop := False\<rparr>" "sr_needData r" "alone s r (others cfg t)"
    and s': "lines s' = (lines s)(t_owner t := Some (owner_line r'))" "pinvs s' = pinvs s" "cbq s' = cbq s"
      "txn s' = Some (t\<lparr>t_req := Some r', t_at := AtBus\<rparr>)" "waiting s' = waiting s"
  shows "coh_inv cfg s'"
proof -
  have at: "t_at t \<noteq> AtAlloc" using t(2) by simp
  obtain r0 where T: "t_req t = Some r0" "req_ok r0" "is_read r0 = (t_op t = MemRead)" "place_inv cfg s t r0"
      "t_owner t < nCaches cfg" "\<forall>j. j \<noteq> t_owner t \<longrightarrow> \<not> busy (lines s j)" "ackp s (t_owner t) = 0"
      "t_todo t \<subseteq> others cfg t" "t_op t \<noteq> MemPush"
    using txnD [OF inv t(1) at] by metis
  have rr: "r0 = r" using T(1) t(3) by simp
  let ?t = "t\<lparr>t_req := Some r', t_at := AtBus\<rparr>"
  have oth: "others cfg ?t = others cfg t" by (simp add: others_def)
  have ackp: "ackp s' = ackp s" using s'(2,3) by (simp add: ackp_def fun_eq_iff)
  then have tot: "ack_total cfg s' = ack_total cfg s" by (simp add: ack_total_def)
  have P: "t_todo t = {}" "t_cnt t = None" "ack_total cfg s = 0"
    using T(4) t(2) by (simp_all add: place_inv_def)
  have al: "alone s' r' (others cfg t)" using r'(1,3) s'(1) by (auto simp: alone_def others_def)
  have rq: "req_ok r'" using T(2) r'(1,2) rr by (simp add: req_ok_def is_read_def)
  have rd: "is_read r' = (t_op t = MemRead)" using T(3) r'(1) rr by (simp add: is_read_def)
  have "place_inv cfg s' ?t r'" unfolding place_inv_def using P tot al oth r'(1) by simp
  then have "txn_inv cfg s'"
    unfolding txn_inv_def s'(4) using T s'(1) oth ackp rq rd by simp
  moreover have base: "base_inv cfg s" using inv by (simp add: coh_inv_split)
  have "base_inv cfg s'"
  proof (rule base_owner [OF base T(5) s'(1-3)])
    show "\<forall>i memOp. waiting s' i = Some memOp \<longrightarrow> memOp \<noteq> MemPush"
      using base s'(5) by (simp add: base_inv_def)
    show "pinvs s (t_owner t) = None" "DoAllocateLine \<notin> set (cbq s (t_owner t))"
      using owner_quiet [OF inv t(1)] by simp_all
  qed simp
  ultimately show ?thesis by (simp add: coh_inv_split)
qed

text \<open>What \<open>returnAccess\<close> does, by the kind of request.\<close>

lemma return_access:
  assumes r: "req_ok r" and ln: "ln l = Some (owner_line r)" and ns: "\<not> sr_needSnoop r \<longrightarrow> sr_state r = MESI_INVALID"
  shows "SMPCache_returnAccess r l =
    Some (if sr_needSnoop r \<and> sr_needData r \<and> sr_state r = MESI_INVALID
      then SMPCache_sendBelow (r\<lparr>sr_needSnoop := False\<rparr>) (l\<lparr>ln := Some (owner_line (r\<lparr>sr_needSnoop := False\<rparr>))\<rparr>)
      else SMPCache_concludeAccess (l\<lparr>ln := Some (if is_read r
        then (if sr_needSnoop r then MESI_SHARED else MESI_EXCLUSIVE) else MESI_MODIFIED)\<rparr>))"
proof (cases "sr_memOp r")
  case MemRead
  then show ?thesis using r ln ns
    by (auto simp: SMPCache_returnAccess_def readMissAckHandler_def req_ok_def is_read_def owner_line_def)
next
  case MemWrite
  then show ?thesis using r ln ns
    by (auto simp: SMPCache_returnAccess_def invalidateAckHandler_def req_ok_def is_read_def owner_line_def)
next
  case MemPush
  then show ?thesis using r by (simp add: req_ok_def)
next
  case MemReadW
  then show ?thesis using r ln ns
    by (auto simp: SMPCache_returnAccess_def writeMissAckHandler_def invalidateAckHandler_def req_ok_def
        is_read_def owner_line_def)
qed

lemma response_inv:
  assumes inv: "coh_inv cfg s" and g: "guard cfg s Response"
  shows "\<exists>s'. exec cfg s Response = Some s' \<and> coh_inv cfg s'"
proof -
  obtain t where t: "txn s = Some t" "t_at t = AtOwner" using g by auto
  have at: "t_at t \<noteq> AtAlloc" using t(2) by simp
  obtain r where T: "t_req t = Some r" "req_ok r" "lines s (t_owner t) = Some (owner_line r)"
      "place_inv cfg s t r" using txnD [OF inv t(1) at] by metis
  have P: "if sr_needSnoop r then seen s r (others cfg t) else alone s r (others cfg t)"
    using T(4) t(2) by (simp add: place_inv_def)
  then have ns: "\<not> sr_needSnoop r \<longrightarrow> sr_state r = MESI_INVALID" by (auto simp: alone_def split: if_splits)
  have ln: "ln (loc_at s (t_owner t)) = Some (owner_line r)" using T(3) by simp
  note ra = return_access [OF T(2) ln ns]
  note q = owner_quiet [OF inv t(1)]
  show ?thesis
  proof (cases "sr_needSnoop r \<and> sr_needData r \<and> sr_state r = MESI_INVALID")
    case True
    then have "\<not> sr_found r" using T(2) by (simp add: req_ok_def)
    then have al: "alone s r (others cfg t)" using P True by (auto simp: seen_def alone_def split: if_splits)
    have "coh_inv cfg ((put_loc (t_owner t) (SMPCache_sendBelow (r\<lparr>sr_needSnoop := False\<rparr>) (loc_at s (t_owner t)\<lparr>
        ln := Some (owner_line (r\<lparr>sr_needSnoop := False\<rparr>))\<rparr>)) s)
        \<lparr>txn := Some (t\<lparr>t_req := Some (r\<lparr>sr_needSnoop := False\<rparr>), t_at := AtBus\<rparr>)\<rparr>)"
      by (rule resend_inv [OF inv t T(1) refl _ al]) (use True q in \<open>simp_all add: SMPCache_sendBelow_def fun_upd_idem\<close>)
    then show ?thesis using True t(1) T(1) ra by (simp add: SMPCache_sendBelow_def Let_def)
  next
    case False
    let ?st = "if is_read r then (if sr_needSnoop r then MESI_SHARED else MESI_EXCLUSIVE) else MESI_MODIFIED"
    let ?s1 = "put_loc (t_owner t) (SMPCache_concludeAccess (loc_at s (t_owner t)\<lparr>ln := Some ?st\<rparr>)) s"
    have ok: "\<forall>j\<in>others cfg t. (excl (Some ?st) \<longrightarrow> \<not> valid (lines s j)) \<and> \<not> excl (lines s j)"
      using P class_disj(1) by (auto simp: seen_def alone_def split: if_splits)
    have "coh_inv cfg (?s1\<lparr>txn := None, home := if t_op t = MemRead then home ?s1 else written_by (t_owner t) (home ?s1)\<rparr>)"
      by (rule conclude_inv [OF inv t, of _ ?st]) (use ok q in \<open>simp_all add: SMPCache_concludeAccess_def fun_upd_idem\<close>)
    moreover have "exec cfg s Response =
        Some (?s1\<lparr>txn := None, home := if t_op t = MemRead then home ?s1 else written_by (t_owner t) (home ?s1)\<rparr>)"
      using t(1) T(1) ra [unfolded if_not_P [OF False]] by (simp add: SMPCache_concludeAccess_def Let_def)
    ultimately show ?thesis by blast
  qed
qed

end
