(* ===== verification/Coherence_Safety.thy ===== *)
theory Coherence_Safety
  imports Coherence_Steps
begin

text \<open>
  Requests get the bus, and the invariant of \<open>Coherence_Correct\<close> holds in all reachable states.
\<close>

subsection \<open>The start of a request\<close>

lemma SMP_INVALID_eq [simp]: "SMP_INVALID = MESI_INVALID" "SMP_TRANS_RSV = MESI_TRANS_RSV"
  by (simp_all add: mesi_consts)

definition fresh_req :: "mem_op \<Rightarrow> sreq \<Rightarrow> bool" where
  "fresh_req memOp r = (req_ok r \<and> sr_needSnoop r \<and> sr_state r = MESI_INVALID \<and>
     sr_supplier r = None \<and> \<not> sr_writeDown r \<and>
     is_read r = (memOp = MemRead))"

lemma begin_inv:
  assumes base: "base_inv cfg s" and i: "i < nCaches cfg" and ack: "ack_total cfg s = 0"
    and quiet: "\<not> inval (lines s i)" and nb: "\<forall>j. j \<noteq> i \<longrightarrow> \<not> busy (lines s j)"
    and r: "fresh_req memOp r" "memOp \<noteq> MemPush"
    and s': "lines s' = (lines s)(i := Some (owner_line r))" "pinvs s' = pinvs s" "cbq s' = cbq s"
      "txn s' = Some \<lparr>t_owner = i, t_op = memOp, t_req = Some r, t_cnt = None, t_at = AtBus, t_todo = {}\<rparr>"
      "\<forall>i memOp. waiting s' i = Some memOp \<longrightarrow> memOp \<noteq> MemPush"
  shows "coh_inv cfg s'"
proof -
  have ackp: "ackp s' = ackp s" using s'(2,3) by (simp add: ackp_def fun_eq_iff)
  then have tot: "ack_total cfg s' = 0" using ack by (simp add: ack_total_def)
  have own: "ackp s' i = 0" using ackp_le_total [OF i, of s'] tot by simp
  have "pend_ok s i" using base by (simp add: base_inv_def pend_inv_iff)
  then have "pinvs s i = None" "DoAllocateLine \<notin> set (cbq s i)"
    using quiet by (simp_all add: pend_ok_def)
  then have "base_inv cfg s'" by (intro base_owner [OF base i s'(1-3,5)]) simp_all
  moreover have "txn_inv cfg s'"
    unfolding txn_inv_def s'(4) using i nb s'(1) own tot r by (simp add: fresh_req_def place_inv_def)
  ultimately show ?thesis by (simp add: coh_inv_split)
qed

definition no_line :: "32 word option \<Rightarrow> bool" where
  "no_line alloc = (alloc \<in> {None, Some MESI_INVALID, Some MESI_TRANS_INV, Some MESI_TRANS_INV_D})"

lemma fresh_create:
  "memOp \<noteq> MemPush \<Longrightarrow> memOp \<noteq> MemWrite \<Longrightarrow> fresh_req memOp (SMPMemRequest_create memOp i True)"
  "memOp \<noteq> MemPush \<Longrightarrow> memOp \<noteq> MemRead \<Longrightarrow> fresh_req memOp (SMPMemRequest_create memOp i False)"
  by (auto simp: fresh_req_def SMPMemRequest_create_def req_ok_def is_read_def)

lemma read_result:
  assumes "ln l = None" "no_line alloc"
  shows "MESI_read i alloc l = Some (if alloc = None then l
    else SMPCache_sendBelow (SMPMemRequest_create MemRead i True) (l\<lparr>ln := Some MESI_TRANS_RD\<rparr>))"
  using assms by (auto simp: MESI_read_def MESI_doRead_def no_line_def)

lemma write_result:
  assumes "ln l = None" "no_line alloc"
  shows "MESI_write i memOp alloc l = Some (if alloc = None then l
    else SMPCache_sendBelow (SMPMemRequest_create (mutateWriteToRead memOp) i True)
      (l\<lparr>ln := Some MESI_TRANS_WR\<rparr>))"
  using assms by (auto simp: MESI_write_def MESI_doWrite_def no_line_def)

lemma upgrade_result:
  assumes "ln l = Some MESI_SHARED"
  shows "MESI_write i memOp alloc l =
    Some (SMPCache_sendBelow (SMPMemRequest_create memOp i False) (l\<lparr>ln := Some MESI_TRANS_WR\<rparr>))"
  using assms by (simp add: MESI_write_def)

lemma read_needs_no_line:
  "MESI_read i alloc l = Some l' \<Longrightarrow> ln l = None \<or> inval (ln l) \<or> busy (ln l) \<or> valid (ln l) \<Longrightarrow> ln l = None"
  by (auto simp: MESI_read_def classes changeState_def split: bind_splits if_splits)

lemma write_needs_shared:
  "MESI_write i memOp alloc l = Some l' \<Longrightarrow> ln l = None \<or> ln l = Some MESI_SHARED"
  by (auto simp: MESI_write_def split: bind_splits if_splits option.splits)

lemma mutate_simps [simp]:
  "mutateWriteToRead m \<noteq> MemWrite" "mutateWriteToRead m = MemPush \<longleftrightarrow> m = MemPush"
  "mutateWriteToRead m = MemRead \<longleftrightarrow> m = MemRead"
  by (cases m; simp add: mutateWriteToRead_def)+

lemma fresh_mutate: "fresh_req (mutateWriteToRead m) r = fresh_req m r"
  by (simp add: fresh_req_def)

lemma owner_line_create [simp]:
  "owner_line (SMPMemRequest_create MemRead i b) = MESI_TRANS_RD"
  "m \<noteq> MemRead \<Longrightarrow> m \<noteq> MemPush \<Longrightarrow> owner_line (SMPMemRequest_create m i b) = MESI_TRANS_WR"
  by (simp_all add: owner_line_def SMPMemRequest_create_def is_read_def)

lemma start_shape:
  assumes "lines s i = None \<or> memOp \<noteq> MemRead \<and> lines s i = Some MESI_SHARED"
    and "no_line alloc" "memOp \<noteq> MemPush" "txn s = None"
  shows "(\<exists>r. start i memOp alloc s = Some (s\<lparr>lines := (lines s)(i := Some (owner_line r)),
      txn := Some \<lparr>t_owner = i, t_op = memOp, t_req = Some r, t_cnt = None, t_at = AtBus, t_todo = {}\<rparr>\<rparr>) \<and>
      fresh_req memOp r) \<or>
    lines s i = None \<and> start i memOp alloc s = Some (s\<lparr>txn := Some \<lparr>t_owner = i, t_op = memOp,
      t_req = None, t_cnt = None, t_at = AtAlloc, t_todo = {}\<rparr>\<rparr>)"
proof -
  consider "lines s i = None" "alloc = None" | "lines s i = None" "alloc \<noteq> None" "memOp = MemRead"
    | "lines s i = None" "alloc \<noteq> None" "memOp \<noteq> MemRead"
    | "memOp \<noteq> MemRead" "lines s i = Some MESI_SHARED" using assms(1) by (cases "alloc = None"; cases "memOp = MemRead") auto
  then show ?thesis
  proof cases
    case 1
    have "put_loc i (loc_at s i) s = s" using 1(1) by (simp add: put_loc_def fun_upd_idem)
    then show ?thesis using 1 assms(2)
      by (auto simp: start_def read_result write_result Let_def)
  next
    case 2
    have "start i memOp alloc s = Some (s\<lparr>lines := (lines s)(i := Some MESI_TRANS_RD),
        txn := Some \<lparr>t_owner = i, t_op = memOp, t_req = Some (SMPMemRequest_create MemRead i True),
          t_cnt = None, t_at = AtBus, t_todo = {}\<rparr>\<rparr>)"
      using 2 assms(2) by (auto simp: start_def read_result SMPCache_sendBelow_def put_loc_def fun_upd_idem)
    then show ?thesis using 2(3) fresh_create(1) [of MemRead i]
      by (intro disjI1 exI [of _ "SMPMemRequest_create MemRead i True"]) simp
  next
    case 3
    let ?m = "mutateWriteToRead memOp"
    have "start i memOp alloc s = Some (s\<lparr>lines := (lines s)(i := Some MESI_TRANS_WR),
        txn := Some \<lparr>t_owner = i, t_op = memOp, t_req = Some (SMPMemRequest_create ?m i True),
          t_cnt = None, t_at = AtBus, t_todo = {}\<rparr>\<rparr>)"
      using 3 assms(2) by (auto simp: start_def write_result SMPCache_sendBelow_def put_loc_def fun_upd_idem)
    then show ?thesis using 3(3) assms(3) fresh_create(1) [of ?m i]
      by (intro disjI1 exI [of _ "SMPMemRequest_create ?m i True"]) (simp add: fresh_mutate)
  next
    case 4
    have "start i memOp alloc s = Some (s\<lparr>lines := (lines s)(i := Some MESI_TRANS_WR),
        txn := Some \<lparr>t_owner = i, t_op = memOp, t_req = Some (SMPMemRequest_create memOp i False),
          t_cnt = None, t_at = AtBus, t_todo = {}\<rparr>\<rparr>)"
      using 4 by (simp add: start_def upgrade_result SMPCache_sendBelow_def put_loc_def fun_upd_idem)
    then show ?thesis using 4(1) assms(3) fresh_create(2) [of memOp i]
      by (intro disjI1 exI [of _ "SMPMemRequest_create memOp i False"]) simp
  qed
qed

lemma start_inv:
  assumes inv: "coh_inv cfg s" and i: "i < nCaches cfg" and t: "txn s = None"
    and l: "lines s i = None \<or> memOp \<noteq> MemRead \<and> lines s i = Some MESI_SHARED"
    and a: "no_line alloc" "memOp \<noteq> MemPush"
  shows "\<exists>s'. start i memOp alloc s = Some s' \<and> coh_inv cfg s'"
proof -
  have T: "\<forall>j. \<not> busy (lines s j)" "ack_total cfg s = 0" and base: "base_inv cfg s"
    and w: "\<forall>i memOp. waiting s i = Some memOp \<longrightarrow> memOp \<noteq> MemPush"
    using inv t by (simp_all add: coh_inv_split txn_inv_def base_inv_def)
  have ni: "\<not> inval (lines s i)" using l by auto
  have nb: "\<forall>j. j \<noteq> i \<longrightarrow> \<not> busy (lines s j)" using T(1) by simp
  consider r where "start i memOp alloc s = Some (s\<lparr>lines := (lines s)(i := Some (owner_line r)),
      txn := Some \<lparr>t_owner = i, t_op = memOp, t_req = Some r, t_cnt = None, t_at = AtBus, t_todo = {}\<rparr>\<rparr>)"
      "fresh_req memOp r"
    | "lines s i = None" "start i memOp alloc s = Some (s\<lparr>txn := Some \<lparr>t_owner = i, t_op = memOp,
      t_req = None, t_cnt = None, t_at = AtAlloc, t_todo = {}\<rparr>\<rparr>)"
    using start_shape [OF l a t] by (elim disjE exE conjE) metis+
  then show ?thesis
  proof cases
    case (1 r)
    have "coh_inv cfg (s\<lparr>lines := (lines s)(i := Some (owner_line r)),
      txn := Some \<lparr>t_owner = i, t_op = memOp, t_req = Some r, t_cnt = None, t_at = AtBus, t_todo = {}\<rparr>\<rparr>)"
      by (rule begin_inv [OF base i T(2) ni nb 1(2) a(2)]) (use w in simp_all)
    then show ?thesis using 1(1) by blast
  next
    case 2
    have "ackp s i = 0" using ackp_le_total [OF i, of s] T(2) by simp
    then have "txn_inv cfg (s\<lparr>txn := Some \<lparr>t_owner = i, t_op = memOp,
      t_req = None, t_cnt = None, t_at = AtAlloc, t_todo = {}\<rparr>\<rparr>)"
      using T i 2(1) a(2) by (simp add: txn_inv_def)
    then show ?thesis using 2(2) base by (simp add: coh_inv_split)
  qed
qed

lemma allocated_inv:
  assumes inv: "coh_inv cfg s" and g: "guard cfg s Allocated"
  shows "\<exists>s'. exec cfg s Allocated = Some s' \<and> coh_inv cfg s'"
proof -
  obtain t where t: "txn s = Some t" "t_at t = AtAlloc" using g by auto
  let ?o = "t_owner t"
  have T: "t_req t = None" "lines s ?o = None" "t_cnt t = None" "t_todo t = {}" "ack_total cfg s = 0"
      "?o < nCaches cfg" "\<forall>j. j \<noteq> ?o \<longrightarrow> \<not> busy (lines s j)" "t_op t \<noteq> MemPush"
    using inv t by (auto simp: coh_inv_split txn_inv_def place_inv_def split: option.splits)
  have base: "base_inv cfg s" and w: "\<forall>i memOp. waiting s i = Some memOp \<longrightarrow> memOp \<noteq> MemPush"
    using inv by (simp_all add: coh_inv_split base_inv_def)
  define r where "r = SMPMemRequest_create (if t_op t = MemRead then MemRead else mutateWriteToRead (t_op t)) ?o True"
  have fr: "fresh_req (t_op t) r"
    using T(8) fresh_create(1) [of "mutateWriteToRead (t_op t)" ?o] fresh_create(1) [of MemRead ?o]
    by (auto simp: r_def fresh_mutate)
  have ol: "owner_line r = (if t_op t = MemRead then MESI_TRANS_RD else MESI_TRANS_WR)"
    using T(8) by (simp add: r_def)
  have "MESI_allocated ?o (t_op t) (loc_at s ?o) =
      Some (SMPCache_sendBelow r (loc_at s ?o\<lparr>ln := Some (owner_line r)\<rparr>))"
    using ol by (simp add: MESI_allocated_def MESI_doRead_def MESI_doWrite_def r_def Let_def)
  then have e: "exec cfg s Allocated = Some (s\<lparr>lines := (lines s)(?o := Some (owner_line r)),
      txn := Some (t\<lparr>t_req := Some r, t_at := AtBus\<rparr>)\<rparr>)"
    using t(1) by (simp add: SMPCache_sendBelow_def put_loc_def fun_upd_idem)
  have "coh_inv cfg (s\<lparr>lines := (lines s)(?o := Some (owner_line r)),
      txn := Some (t\<lparr>t_req := Some r, t_at := AtBus\<rparr>)\<rparr>)"
    by (rule begin_inv [OF base T(6,5) _ T(7) fr T(8)]) (use T w in simp_all)
  then show ?thesis using e by blast
qed

subsection \<open>Every event keeps the invariant\<close>

lemma wait_frame:
  assumes "coh_inv cfg s" "\<forall>i memOp. w i = Some memOp \<longrightarrow> memOp \<noteq> MemPush"
  shows "coh_inv cfg (s\<lparr>waiting := w\<rparr>)"
proof -
  have a: "seen (s\<lparr>waiting := w\<rparr>) r K = seen s r K" "alone (s\<lparr>waiting := w\<rparr>) r K = alone s r K" for r K
    by (simp_all add: seen_def alone_def)
  then have "place_inv cfg (s\<lparr>waiting := w\<rparr>) t r = place_inv cfg s t r" for t r
    by (cases "t_at t") (simp_all add: place_inv_def)
  then have "txn_inv cfg (s\<lparr>waiting := w\<rparr>) = txn_inv cfg s"
    by (simp add: txn_inv_def split: option.split)
  moreover have "line_inv cfg (s\<lparr>waiting := w\<rparr>) = line_inv cfg s" "swmr (s\<lparr>waiting := w\<rparr>) = swmr s"
    "pend_inv (s\<lparr>waiting := w\<rparr>) = pend_inv s"
    by (simp_all add: line_inv_def swmr_def pend_inv_def)
  ultimately show ?thesis using assms by (simp add: coh_inv_def)
qed

lemma waiting_op: "coh_inv cfg s \<Longrightarrow> waiting s i = Some m \<Longrightarrow> m \<noteq> MemPush"
  unfolding coh_inv_def by blast

lemma waiting_frame: "coh_inv cfg s \<Longrightarrow> coh_inv cfg (s\<lparr>waiting := (waiting s)(i := None)\<rparr>)"
  by (rule wait_frame) (auto dest: waiting_op)

lemma request_inv:
  assumes inv: "coh_inv cfg s" and g: "guard cfg s (Request i m alloc)"
  shows "\<exists>s'. exec cfg s (Request i m alloc) = Some s' \<and> coh_inv cfg s'"
proof -
  let ?m = "miss_op s i m"
  have G: "i < nCaches cfg" "m \<noteq> MemPush" "no_line alloc" using g by (auto simp: no_line_def)
  show ?thesis
  proof (cases "misses s i m")
    case True
    have l: "lines s i = None \<or> ?m \<noteq> MemRead \<and> lines s i = Some MESI_SHARED" "?m \<noteq> MemPush"
      using True G(2) by (auto simp: misses_def miss_op_def)
    have "\<exists>s'. mutExcl i ?m alloc s = Some s' \<and> coh_inv cfg s'"
    proof (cases "txn s")
      case None
      then show ?thesis using start_inv [OF inv G(1) None l(1) G(3) l(2)] by (simp add: mutExcl_def)
    next
      case (Some t)
      have "coh_inv cfg (s\<lparr>waiting := (waiting s)(i := Some ?m)\<rparr>)"
        by (rule wait_frame [OF inv]) (use l(2) waiting_op [OF inv] in auto)
      then show ?thesis using Some by (simp add: mutExcl_def)
    qed
    then show ?thesis unfolding request_exec [OF inv] using True by simp
  next
    case False
    then show ?thesis unfolding request_exec [OF inv] using write_hit_inv [OF inv G(1)] inv by auto
  qed
qed

lemma grant_inv:
  assumes inv: "coh_inv cfg s" and g: "guard cfg s (Grant i alloc)" and e: "exec cfg s (Grant i alloc) = Some s'"
  shows "coh_inv cfg s'"
proof -
  obtain m where m: "waiting s i = Some m" "i < nCaches cfg" "txn s = None" "no_line alloc"
    using g by (auto simp: no_line_def)
  let ?s = "s\<lparr>waiting := (waiting s)(i := None)\<rparr>"
  have inv1: "coh_inv cfg ?s" using waiting_frame [OF inv] .
  have mp: "m \<noteq> MemPush" using inv m(1) unfolding coh_inv_def by blast
  have st: "start i m alloc ?s = Some s'" using e m(1) by simp
  have "lines ?s i = None \<or> m \<noteq> MemRead \<and> lines ?s i = Some MESI_SHARED"
  proof (cases "m = MemRead")
    case True
    then obtain l where "MESI_read i alloc (loc_at ?s i) = Some l" using st by (auto simp: start_def split: bind_splits)
    then show ?thesis using read_needs_no_line line_class [OF inv, of i] by fastforce
  next
    case False
    then obtain l where "MESI_write i m alloc (loc_at ?s i) = Some l" using st by (auto simp: start_def split: bind_splits)
    then show ?thesis using write_needs_shared False by fastforce
  qed
  then show ?thesis using start_inv [OF inv1 m(2) _ _ m(4) mp] m(3) st by fastforce
qed

lemma fire_inv:
  assumes inv: "coh_inv cfg s" and g: "guard cfg s (Fire j)" and e: "exec cfg s (Fire j) = Some s'"
  shows "coh_inv cfg s'"
proof -
  obtain cb rest where cb: "j < nCaches cfg" "cbq s j = cb # rest"
    using g by (cases "cbq s j") auto
  show ?thesis
  proof (cases cb)
    case SendAck
    then show ?thesis using fire_ack_inv [OF inv cb(1)] cb(2) e by fastforce
  next
    case DoAllocateLine
    then show ?thesis using fire_alloc_inv [OF inv cb(1) _ e] cb(2) by blast
  qed
qed

theorem step_inv:
  assumes "coh_inv cfg s" "guard cfg s e" "exec cfg s e = Some s'"
  shows "coh_inv cfg s'"
proof (cases e)
  case (Request i m a)
  then show ?thesis using request_inv assms by (metis option.inject)
next
  case (Grant i a)
  then show ?thesis using grant_inv assms by metis
next
  case Allocated
  then show ?thesis using allocated_inv assms by (metis option.inject)
next
  case BusCycle
  then show ?thesis using bus_cycle_inv assms by (metis option.inject)
next
  case (Handle j)
  then show ?thesis using handle_inv assms by (metis option.inject)
next
  case (UpperAck j)
  then show ?thesis using upper_ack_inv assms by metis
next
  case (Fire j)
  then show ?thesis using fire_inv assms by metis
next
  case (Evict j)
  then show ?thesis using evict_inv assms by metis
next
  case MemReturn
  then show ?thesis using mem_return_inv assms by (metis option.inject)
next
  case Response
  then show ?thesis using response_inv assms by (metis option.inject)
qed

theorem reachable_inv: "reachable cfg s \<Longrightarrow> coh_inv cfg s"
  by (induction rule: reachable.induct) (auto intro: init_inv step_inv)

end
