(* ===== verification/Coherence_Data.thy ===== *)
theory Coherence_Data
  imports Coherence_Safety
begin

text \<open>
  Facts about single operations that the invariants of the highest level share.
\<close>

definition dirty :: "32 word option \<Rightarrow> bool" where
  "dirty l = (l = Some MESI_MODIFIED \<or> l = Some MESI_TRANS_INV_D)"

lemma dirty_owner [simp]: "\<not> dirty (Some (owner_line r))" "\<not> dirty None" "dirty (Some MESI_MODIFIED)"
  "\<not> dirty (Some MESI_SHARED)" "\<not> dirty (Some MESI_EXCLUSIVE)" "\<not> dirty (Some MESI_TRANS_INV)"
  "dirty (Some MESI_TRANS_INV_D)"
  by (simp_all add: dirty_def owner_line_def)

lemma invalidate_is_write_miss: "invalidateHandler = writeMissHandler"
  by (simp add: fun_eq_iff invalidateHandler_def writeMissHandler_def)

lemma request_line:
  "misses s i m \<Longrightarrow> lines s i = None \<or> miss_op s i m \<noteq> MemRead \<and> lines s i = Some MESI_SHARED"
  by (auto simp: misses_def miss_op_def)

lemma miss_op_push [simp]: "miss_op s i m = MemPush \<longleftrightarrow> m = MemPush"
  by (simp add: miss_op_def)

lemma grant_line:
  assumes inv: "coh_inv cfg s" and e: "exec cfg s (Grant i alloc) = Some s'" and m: "waiting s i = Some m"
  shows "lines s i = None \<or> m \<noteq> MemRead \<and> lines s i = Some MESI_SHARED"
proof (cases "m = MemRead")
  case True
  then have "start i MemRead alloc (s\<lparr>waiting := (waiting s)(i := None)\<rparr>) = Some s'" using e m by simp
  then obtain l where "MESI_read i alloc (loc_at (s\<lparr>waiting := (waiting s)(i := None)\<rparr>) i) = Some l"
    unfolding start_def by (cases "MESI_read i alloc (loc_at (s\<lparr>waiting := (waiting s)(i := None)\<rparr>) i)") auto
  then show ?thesis using read_needs_no_line line_class [OF inv, of i] by fastforce
next
  case False
  then have "start i m alloc (s\<lparr>waiting := (waiting s)(i := None)\<rparr>) = Some s'" using e m by simp
  then obtain l where "MESI_write i m alloc (loc_at (s\<lparr>waiting := (waiting s)(i := None)\<rparr>) i) = Some l"
    using False unfolding start_def
    by (cases "MESI_write i m alloc (loc_at (s\<lparr>waiting := (waiting s)(i := None)\<rparr>) i)") auto
  then show ?thesis using write_needs_shared False by fastforce
qed

lemma respond_data:
  "ln (SMPCache_respondBelow j r l) = ln l" "wbs l \<le> wbs (SMPCache_respondBelow j r l)"
  "sr_supplier r = Some j \<Longrightarrow> sr_writeDown r \<Longrightarrow> wbs (SMPCache_respondBelow j r l) = Suc (wbs l)"
  by (simp_all add: SMPCache_respondBelow_def SMPCache_doWriteBack_def Let_def)

end
