(* ===== verification/Coherence_Progress.thy ===== *)
theory Coherence_Progress
  imports Coherence_Data
begin

text \<open>
  At the highest level of the hierarchy no event can run into a failed assertion.
\<close>

subsection \<open>The highest level\<close>

text \<open>
  There is nothing above to wait for, so no invalidation is ever pending, and a cache that
  waits for the bus has no line or a shared one.
\<close>

definition wait_ok :: "coh \<Rightarrow> nat \<Rightarrow> bool" where
  "wait_ok s j = (\<forall>m. waiting s j = Some m \<longrightarrow>
     (lines s j = None \<or> m \<noteq> MemRead \<and> lines s j = Some MESI_SHARED) \<and>
     (\<forall>t. txn s = Some t \<longrightarrow> t_owner t \<noteq> j))"

definition top_inv :: "coh \<Rightarrow> bool" where
  "top_inv s = (\<forall>j. pinvs s j = None \<and> \<not> inval (lines s j) \<and> wait_ok s j)"

definition top_level :: "smp_config \<Rightarrow> bool" where
  "top_level cfg = (isHighestLevel cfg \<and> numUpper cfg \<le> 1)"

text \<open>No abort, given the two invariants.\<close>

lemma top_exec:
  assumes top: "top_level cfg" and inv: "coh_inv cfg s" and ti: "top_inv s" and g: "guard cfg s e"
  shows "\<exists>s'. exec cfg s e = Some s'"
proof (cases e)
  case (Request i m a)
  then show ?thesis using request_inv inv g by blast
next
  case (Grant i a)
  then obtain m where m: "waiting s i = Some m" "i < nCaches cfg" "txn s = None" "no_line a"
    using g by (auto simp: no_line_def)
  have "lines s i = None \<or> m \<noteq> MemRead \<and> lines s i = Some MESI_SHARED"
    using ti m(1) by (simp add: top_inv_def wait_ok_def)
  then show ?thesis
    using start_inv [OF waiting_frame [OF inv, of i] m(2) _ _ m(4) waiting_op [OF inv m(1)]] m Grant by fastforce
next
  case Allocated
  then show ?thesis using allocated_inv inv g by blast
next
  case BusCycle
  then show ?thesis using bus_cycle_inv inv g by blast
next
  case (Handle j)
  then show ?thesis using handle_inv inv g by blast
next
  case (UpperAck j)
  then show ?thesis using g top by (simp add: top_level_def)
next
  case (Fire j)
  then obtain cb rest where cb: "j < nCaches cfg" "cbq s j = cb # rest" using g by (cases "cbq s j") auto
  have "cb \<noteq> DoAllocateLine"
    using pend_class(1) [OF inv, of j] ti cb(2) by (auto simp: top_inv_def)
  then have "cb = SendAck" by (cases cb) simp_all
  then show ?thesis using fire_ack_inv [OF inv cb(1)] cb(2) Fire by blast
next
  case (Evict j)
  then obtain st where st: "lines s j = Some st" "\<not> st_isLocked st" using g by auto
  have "st = MESI_SHARED \<or> st = MESI_EXCLUSIVE \<or> st = MESI_MODIFIED" using unlocked_valid [OF inv st] .
  then show ?thesis using Evict st(1) top
    by (auto simp: SMPCache_allocateLine_victim_def top_level_def)
next
  case MemReturn
  then show ?thesis using mem_return_inv inv g by blast
next
  case Response
  then show ?thesis using response_inv inv g by blast
qed

text \<open>The invariant is kept.\<close>

lemma top_change:
  assumes ti: "top_inv s" and lines: "lines s' = (lines s)(j := l)" "\<not> inval l"
    and pinvs: "\<And>i. pinvs s' i = None"
    and wait: "\<And>i m. waiting s' i = Some m \<Longrightarrow> waiting s i = Some m"
    and own: "\<And>t. txn s' = Some t \<Longrightarrow> waiting s' (t_owner t) = None"
    and mono: "waiting s' j = None \<or> (lines s j = None \<longrightarrow> l = None) \<and>
      (lines s j = Some MESI_SHARED \<longrightarrow> l = None \<or> l = Some MESI_SHARED)"
  shows "top_inv s'"
proof -
  have "wait_ok s' i" for i
  proof (unfold wait_ok_def, intro allI impI conjI)
    fix m assume m: "waiting s' i = Some m"
    have "lines s i = None \<or> m \<noteq> MemRead \<and> lines s i = Some MESI_SHARED"
      using ti wait [OF m] by (simp add: top_inv_def wait_ok_def)
    then show "lines s' i = None \<or> m \<noteq> MemRead \<and> lines s' i = Some MESI_SHARED"
      using lines(1) mono m by (cases "i = j") auto
    show "t_owner t \<noteq> i" if "txn s' = Some t" for t using own [OF that] m by auto
  qed
  then show ?thesis using ti lines pinvs by (simp add: top_inv_def)
qed

lemma top_own: "top_inv s \<Longrightarrow> txn s = Some t \<Longrightarrow> waiting s (t_owner t) = None"
  unfolding top_inv_def wait_ok_def by (cases "waiting s (t_owner t)") auto

lemma top_none: "top_inv s \<Longrightarrow> pinvs s j = None \<and> \<not> inval (lines s j)"
  by (simp add: top_inv_def)

lemma invalidate_top:
  assumes "top_level cfg" "SMPCache_invalidateLine cfg cb l = Some l'"
  shows "ln l' = None \<and> pend l' = None"
  using assms by (auto simp: top_level_def SMPCache_invalidateLine_def SMPCache_doInvalidate_def
      SMPCache_realInvalidate_def SMPCache_doWriteBack_def Let_def split: bind_splits if_splits)

lemma respond_pend: "pend (SMPCache_respondBelow j r l) = pend l"
  by (simp add: SMPCache_respondBelow_def SMPCache_doWriteBack_def Let_def)

lemma read_miss_top:
  assumes "readMissHandler j r l = Some (r', l')"
  shows "pend l' = pend l \<and> (ln l' = ln l \<or> ln l \<noteq> None \<and> ln l' = Some MESI_SHARED)"
proof (cases "ln l = None \<or> (\<exists>st. ln l = Some st \<and> st_isLocked st)")
  case True
  then show ?thesis using assms by (auto simp: readMissHandler_def respond_data(1) respond_pend)
next
  case False
  then obtain st where st: "ln l = Some st" "\<not> st_isLocked st" by auto
  then obtain r1 st1 where "changeState st MESI_SHARED = Some st1"
      "l' = SMPCache_respondBelow j r1 (l\<lparr>ln := Some st1\<rparr>)"
    using assms by (auto simp: readMissHandler_def split: bind_splits)
  then show ?thesis using changeState_new [of st MESI_SHARED st1] st(1)
    by (simp add: respond_data(1) respond_pend)
qed

lemma write_miss_top:
  assumes "top_level cfg" "writeMissHandler cfg j r l = Some (r', l')"
  shows "ln l' = None \<and> pend l' = None \<or> ln l' = ln l \<and> pend l' = pend l"
proof (cases "ln l = None \<or> (\<exists>st. ln l = Some st \<and> st_isLocked st)")
  case True
  then show ?thesis using assms by (auto simp: writeMissHandler_def respond_data(1) respond_pend)
next
  case False
  then obtain st where st: "ln l = Some st" "\<not> st_isLocked st" by auto
  then obtain l1 where "SMPCache_invalidateLine cfg SendAck l = Some l1" "l' = l1"
    using assms(2) by (auto simp: writeMissHandler_def Let_def split: bind_splits)
  then show ?thesis using invalidate_top [OF assms(1), of SendAck l l1] by simp
qed

lemma receive_top:
  assumes "top_level cfg" "SMPCache_doReceiveFromBelow cfg j r l = Some (r', l')"
  shows "ln l' = None \<and> pend l' = None \<or>
    pend l' = pend l \<and> (ln l' = ln l \<or> ln l \<noteq> None \<and> ln l' = Some MESI_SHARED)"
proof -
  have "readMissHandler j r l = Some (r', l') \<or> writeMissHandler cfg j r l = Some (r', l')"
    using assms(2) unfolding SMPCache_doReceiveFromBelow_def invalidate_is_write_miss
    by (simp split: if_splits)
  then show ?thesis using read_miss_top write_miss_top [OF assms(1)] by blast
qed

lemma combine_keeps:
  "combineResponses j st r = Some r' \<Longrightarrow> sr_needSnoop r' = sr_needSnoop r \<and> sr_memOp r' = sr_memOp r"
  by (auto simp: combineResponses_def Let_def split: if_splits)

lemma read_miss_keeps:
  "readMissHandler j r l = Some (r', l') \<Longrightarrow> sr_needSnoop r' = sr_needSnoop r \<and> sr_memOp r' = sr_memOp r"
  using combine_keeps by (auto simp: readMissHandler_def split: bind_splits option.splits if_splits)

lemma write_miss_keeps:
  "writeMissHandler cfg j r l = Some (r', l') \<Longrightarrow> sr_needSnoop r' = sr_needSnoop r \<and> sr_memOp r' = sr_memOp r"
  by (auto simp: writeMissHandler_def Let_def dest!: combine_keeps split: bind_splits option.splits if_splits)

lemma receive_req:
  assumes "SMPCache_doReceiveFromBelow cfg j r l = Some (r', l')"
  shows "sr_needSnoop r' = sr_needSnoop r" "sr_memOp r' = sr_memOp r"
proof -
  have "readMissHandler j r l = Some (r', l') \<or> writeMissHandler cfg j r l = Some (r', l')"
    using assms unfolding SMPCache_doReceiveFromBelow_def invalidate_is_write_miss
    by (simp split: if_splits)
  then have "sr_needSnoop r' = sr_needSnoop r \<and> sr_memOp r' = sr_memOp r"
    using read_miss_keeps write_miss_keeps by blast
  then show "sr_needSnoop r' = sr_needSnoop r" "sr_memOp r' = sr_memOp r" by simp_all
qed

lemma bus_owner:
  assumes "bus_acks cfg n t = Some t'"
  shows "t_owner t' = t_owner t"
  using assms by (auto simp: bus_acks_def bus_step_def split: if_splits bind_splits bus_out.splits)

lemma handle_top:
  assumes "top_level cfg" "top_inv s" "exec cfg s (Handle j) = Some s'"
  shows "top_inv s'"
proof -
  obtain t r r' l t' where e: "txn s = Some t" "t_req t = Some r"
      "SMPCache_doReceiveFromBelow cfg j r (loc_at s j) = Some (r', l)"
      "bus_acks cfg (acked l) (t\<lparr>t_req := Some r', t_todo := t_todo t - {j}\<rparr>) = Some t'"
      "s' = (put_loc j l s)\<lparr>txn := Some t'\<rparr>"
    using assms(3) by (auto split: bind_splits)
  have l: "pend l = None" "ln l = None \<or> ln l = lines s j \<or> lines s j \<noteq> None \<and> ln l = Some MESI_SHARED"
    using receive_top [OF assms(1) e(3)] top_none [OF assms(2), of j] by auto
  have ni: "\<not> inval (ln l)" using l(2) top_none [OF assms(2), of j] by auto
  have "waiting s (t_owner t') = None" using top_own [OF assms(2) e(1)] bus_owner [OF e(4)] by simp
  then show ?thesis
    by (intro top_change [OF assms(2), of _ j "ln l", OF _ ni])
      (use e(5) l top_none [OF assms(2)] in auto)
qed

lemma fire_top:
  assumes inv: "coh_inv cfg s" and ti: "top_inv s" and g: "guard cfg s (Fire j)"
    and e: "exec cfg s (Fire j) = Some s'"
  shows "top_inv s'"
proof -
  obtain cb rest where cb: "j < nCaches cfg" "cbq s j = cb # rest" using g by (cases "cbq s j") auto
  have "cb \<noteq> DoAllocateLine"
    using pend_class(1) [OF inv, of j] top_none [OF ti, of j] cb(2) by auto
  then have "cb = SendAck" by (cases cb) simp_all
  then obtain t r t' where t: "txn s = Some t"
      "bus_acks cfg (acked (SMPCache_respondBelow j r (loc_at s j))) t = Some t'"
      "s' = (put_loc j (SMPCache_respondBelow j r (loc_at s j)) (s\<lparr>cbq := (cbq s)(j := rest)\<rparr>))\<lparr>txn := Some t'\<rparr>"
    using e cb(2) by (auto simp: Let_def split: bind_splits)
  have "waiting s (t_owner t') = None" using top_own [OF ti t(1)] bus_owner [OF t(2)] by simp
  then show ?thesis
    by (intro top_change [OF ti, of _ j "lines s j"])
      (use t(3) top_none [OF ti] in \<open>auto simp: respond_data(1) respond_pend\<close>)
qed

lemma evict_top:
  assumes "top_level cfg" "top_inv s" "exec cfg s (Evict j) = Some s'"
  shows "top_inv s'"
proof -
  obtain l where l: "SMPCache_allocateLine_victim cfg (loc_at s j) = Some l" "s' = put_loc j l s"
    using assms(3) by (auto split: bind_splits)
  have "ln l = None" "pend l = pinvs s j"
    using l(1) assms(1) by (auto simp: SMPCache_allocateLine_victim_def SMPCache_doWriteBack_def top_level_def
        split: bind_splits if_splits)
  then show ?thesis
    by (intro top_change [OF assms(2), of _ j None])
      (use l(2) top_none [OF assms(2)] top_own [OF assms(2)] in auto)
qed

lemma write_hit_top:
  assumes ti: "top_inv s" and e: "excl (lines s j)"
  shows "top_inv (s\<lparr>lines := (lines s)(j := Some MESI_MODIFIED), home := h\<rparr>)"
  by (rule top_change [OF ti, of _ j "Some MESI_MODIFIED"])
    (use e top_none [OF ti] top_own [OF ti] in \<open>auto simp: excl_def\<close>)

text \<open>The owner of a request does not wait: its line may change in any way.\<close>

lemma top_owner:
  assumes "top_inv s" "lines s' = (lines s)(i := l)" "\<not> inval l" "pinvs s' = pinvs s"
    "waiting s' = (waiting s)(i := None)" "\<And>t. txn s' = Some t \<Longrightarrow> t_owner t = i"
  shows "top_inv s'"
  by (rule top_change [OF assms(1-3)])
    (use assms(4-6) top_none [OF assms(1)] in \<open>auto split: if_splits\<close>)

lemma start_top:
  assumes ti: "top_inv s" and e: "start i m a s = Some s'" and w: "waiting s i = None" and t: "txn s = None"
    and l: "lines s i = None \<or> m \<noteq> MemRead \<and> lines s i = Some MESI_SHARED"
    and a: "no_line a" "m \<noteq> MemPush"
  shows "top_inv s'"
proof -
  have w': "waiting s = (waiting s)(i := None)" using w by (simp add: fun_upd_idem)
  consider r where "start i m a s = Some (s\<lparr>lines := (lines s)(i := Some (owner_line r)),
      txn := Some \<lparr>t_owner = i, t_op = m, t_req = Some r, t_cnt = None, t_at = AtBus, t_todo = {}\<rparr>\<rparr>)"
    | "start i m a s = Some (s\<lparr>txn := Some \<lparr>t_owner = i, t_op = m,
      t_req = None, t_cnt = None, t_at = AtAlloc, t_todo = {}\<rparr>\<rparr>)"
    using start_shape [OF l a t] by (elim disjE exE conjE) metis+
  then show ?thesis
  proof cases
    case (1 r)
    then show ?thesis
      by (intro top_owner [OF ti, of s' i "Some (owner_line r)"]) (use e w' in auto)
  next
    case 2
    then show ?thesis
      by (intro top_owner [OF ti, of s' i "lines s i"]) (use e w' l in auto)
  qed
qed

lemma move_top:
  assumes "exec cfg s e = Some s'" "e = BusCycle \<or> e = MemReturn" "top_inv s"
  shows "top_inv s'"
proof -
  obtain t t' h where t: "txn s = Some t" "s' = s\<lparr>txn := Some t', home := h\<rparr>" "t_owner t' = t_owner t"
  proof (cases "e = BusCycle")
    case True
    then obtain t t' where "txn s = Some t" "bus_step cfg t = Some t'" "s' = s\<lparr>txn := Some t'\<rparr>"
      using assms(1) by (auto split: bind_splits)
    then show ?thesis using that [where t = t and t' = t' and h = "home s"] bus_owner [of cfg 1 t t'] by (simp add: bus_acks_def)
  next
    case False
    then have e: "e = MemReturn" using assms(2) by simp
    then obtain t r where "txn s = Some t" "t_req t = Some r"
        "s' = s\<lparr>txn := Some (t\<lparr>t_at := AtOwner\<rparr>), home := fetched (sr_needData r) (home s)\<rparr>"
      using assms(1) by (auto split: bind_splits)
    then show ?thesis using that [where t = t and t' = "t\<lparr>t_at := AtOwner\<rparr>"] by simp
  qed
  have "lines s' = (lines s)(t_owner t := lines s (t_owner t))" using t(2) by simp
  then show ?thesis
    by (rule top_change [OF assms(3)]) (use t top_none [OF assms(3)] top_own [OF assms(3) t(1)] in auto)
qed

lemma allocated_top:
  assumes ti: "top_inv s" and e: "exec cfg s Allocated = Some s'"
  shows "top_inv s'"
proof -
  obtain t l where t: "txn s = Some t" "MESI_allocated (t_owner t) (t_op t) (loc_at s (t_owner t)) = Some l"
      "s' = (put_loc (t_owner t) l s)\<lparr>txn := Some (t\<lparr>t_req := Some (hd (sent l)), t_at := AtBus\<rparr>)\<rparr>"
    using e by (auto split: bind_splits)
  have l: "pend l = pinvs s (t_owner t)" "\<not> inval (ln l)"
    using t(2) by (auto simp: MESI_allocated_def MESI_doRead_def MESI_doWrite_def SMPCache_sendBelow_def Let_def
        split: if_splits)
  show ?thesis
    by (rule top_owner [OF ti, of s' "t_owner t" "ln l"])
      (use t(3) l top_own [OF ti t(1)] top_none [OF ti] in \<open>auto simp: fun_upd_idem\<close>)
qed

lemma response_top:
  assumes inv: "coh_inv cfg s" and ti: "top_inv s" and g: "guard cfg s Response"
    and e: "exec cfg s Response = Some s'"
  shows "top_inv s'"
proof -
  obtain t where t: "txn s = Some t" "t_at t = AtOwner" using g by auto
  have at: "t_at t \<noteq> AtAlloc" using t(2) by simp
  obtain r where T: "t_req t = Some r" "req_ok r" "lines s (t_owner t) = Some (owner_line r)"
      "place_inv cfg s t r" using txnD [OF inv t(1) at] by metis
  have ns: "\<not> sr_needSnoop r \<longrightarrow> sr_state r = MESI_INVALID"
    using T(4) t(2) by (auto simp: place_inv_def alone_def)
  have ln: "ln (loc_at s (t_owner t)) = Some (owner_line r)" using T(3) by simp
  note ra = return_access [OF T(2) ln ns]
  have w: "waiting s = (waiting s)(t_owner t := None)" using top_own [OF ti t(1)] by (simp add: fun_upd_idem)
  obtain l where l: "SMPCache_returnAccess r (loc_at s (t_owner t)) = Some l" using ra by simp
  then have lp: "pend l = pinvs s (t_owner t)" "\<not> inval (ln l)"
    using ra by (auto simp: SMPCache_sendBelow_def SMPCache_concludeAccess_def split: if_splits)
  have s': "lines s' = (lines s)(t_owner t := ln l)" "pinvs s' = pinvs s" "waiting s' = waiting s"
      "\<And>x. txn s' = Some x \<Longrightarrow> t_owner x = t_owner t"
    using e t(1) T(1) l lp(1) by (auto simp: Let_def fun_upd_idem split: if_splits)
  show ?thesis
    by (rule top_owner [OF ti s'(1) lp(2) s'(2) _ s'(4)]) (simp_all add: s'(3) w [symmetric])
qed

lemma wait_top:
  assumes ti: "top_inv s" and l: "lines s i = None \<or> m \<noteq> MemRead \<and> lines s i = Some MESI_SHARED"
    and ow: "\<And>t. txn s = Some t \<Longrightarrow> t_owner t \<noteq> i"
  shows "top_inv (s\<lparr>waiting := (waiting s)(i := Some m)\<rparr>)"
proof -
  have "wait_ok (s\<lparr>waiting := (waiting s)(i := Some m)\<rparr>) j" for j
  proof (cases "j = i")
    case True
    then show ?thesis using l ow by (auto simp: wait_ok_def)
  next
    case False
    have "wait_ok s j" using ti by (simp add: top_inv_def)
    then show ?thesis using False by (simp add: wait_ok_def)
  qed
  then show ?thesis using ti by (simp add: top_inv_def)
qed

lemma request_top:
  assumes inv: "coh_inv cfg s" and ti: "top_inv s" and g: "guard cfg s (Request i m a)"
    and e: "exec cfg s (Request i m a) = Some s'"
  shows "top_inv s'"
proof (cases "misses s i m")
  case True
  have l: "mutExcl i (miss_op s i m) a s = Some s'" using e True unfolding request_exec [OF inv] by simp
  have a: "no_line a" "miss_op s i m \<noteq> MemPush" "waiting s i = None" using g by (simp_all add: no_line_def)
  show ?thesis
  proof (cases "txn s")
    case None
    have "start i (miss_op s i m) a s = Some s'" using l None by (simp add: mutExcl_def)
    then show ?thesis by (rule start_top [OF ti _ a(3) None request_line [OF True] a(1,2)])
  next
    case (Some t)
    then have "s' = s\<lparr>waiting := (waiting s)(i := Some (miss_op s i m))\<rparr>" using l by (simp add: mutExcl_def)
    moreover have "top_inv (s\<lparr>waiting := (waiting s)(i := Some (miss_op s i m))\<rparr>)"
      by (rule wait_top [OF ti request_line [OF True]]) (use g in simp)
    ultimately show ?thesis by simp
  qed
next
  case False
  have e1: "(if m \<noteq> MemRead \<and> excl (lines s i)
      then Some (s\<lparr>lines := (lines s)(i := Some MESI_MODIFIED), home := written_by i (home s)\<rparr>) else Some s) = Some s'"
    using e unfolding request_exec [OF inv] if_not_P [OF False] .
  show ?thesis
  proof (cases "m \<noteq> MemRead \<and> excl (lines s i)")
    case True
    then have "s' = s\<lparr>lines := (lines s)(i := Some MESI_MODIFIED), home := written_by i (home s)\<rparr>" using e1 by simp
    then show ?thesis using write_hit_top [OF ti] True by simp
  next
    case False
    have "s' = s" using e1 unfolding if_not_P [OF False] by simp
    then show ?thesis using ti by simp
  qed
qed

lemma grant_top:
  assumes inv: "coh_inv cfg s" and ti: "top_inv s" and g: "guard cfg s (Grant i a)"
    and e: "exec cfg s (Grant i a) = Some s'"
  shows "top_inv s'"
proof -
  obtain m where m: "waiting s i = Some m" "txn s = None" "no_line a" using g by (auto simp: no_line_def)
  let ?s = "s\<lparr>waiting := (waiting s)(i := None)\<rparr>"
  have st: "start i m a ?s = Some s'" using e m(1) by simp
  have l: "lines ?s i = None \<or> m \<noteq> MemRead \<and> lines ?s i = Some MESI_SHARED"
    using grant_line [OF inv e m(1)] by simp
  have "top_inv ?s"
    by (rule top_owner [OF ti, of ?s i "lines s i"]) (use top_none [OF ti, of i] m(2) in auto)
  then show ?thesis by (rule start_top [OF _ st _ _ l m(3) waiting_op [OF inv m(1)]]) (use m(2) in simp_all)
qed

theorem step_top:
  assumes top: "top_level cfg" and inv: "coh_inv cfg s" and ti: "top_inv s" and g: "guard cfg s e"
    and e: "exec cfg s e = Some s'"
  shows "top_inv s'"
proof (cases e)
  case (Request i m a)
  show ?thesis by (rule request_top [OF inv ti g [unfolded Request] e [unfolded Request]])
next
  case (Grant i a)
  show ?thesis by (rule grant_top [OF inv ti g [unfolded Grant] e [unfolded Grant]])
next
  case Allocated
  show ?thesis by (rule allocated_top [OF ti e [unfolded Allocated]])
next
  case BusCycle
  show ?thesis by (rule move_top [OF e _ ti]) (simp add: BusCycle)
next
  case (Handle j)
  show ?thesis by (rule handle_top [OF top ti e [unfolded Handle]])
next
  case (UpperAck j)
  then show ?thesis using g top by (simp add: top_level_def)
next
  case (Fire j)
  show ?thesis by (rule fire_top [OF inv ti g [unfolded Fire] e [unfolded Fire]])
next
  case (Evict j)
  show ?thesis by (rule evict_top [OF top ti e [unfolded Evict]])
next
  case MemReturn
  show ?thesis by (rule move_top [OF e _ ti]) (simp add: MemReturn)
next
  case Response
  show ?thesis by (rule response_top [OF inv ti g [unfolded Response] e [unfolded Response]])
qed

theorem reachable_top: "reachable cfg s \<Longrightarrow> top_level cfg \<Longrightarrow> top_inv s"
proof (induction rule: reachable.induct)
  case init
  then show ?case by (simp add: top_inv_def coh_init_def wait_ok_def)
next
  case (step s e s')
  then show ?case using step_top reachable_inv by blast
qed

end
