(* ===== verification/Coherence_Liveness.thy ===== *)
theory Coherence_Liveness
  imports Coherence_Progress
begin

text \<open>
  A request under way at the highest level can always be finished, in a number of events
  that is bounded by the number of caches.
\<close>

definition cost_at :: "smp_config \<Rightarrow> transaction \<Rightarrow> nat" where
  "cost_at cfg t =
     (case t_at t of
        AtAlloc \<Rightarrow> 2 * nCaches cfg + 6
      | AtBus \<Rightarrow> if (\<exists>r. t_req t = Some r \<and> sr_needSnoop r) then 2 * nCaches cfg + 5 else 3
      | AtSnoop \<Rightarrow> card (t_todo t) + nat (the (t_cnt t)) + 4
      | AtOwner \<Rightarrow> if (\<exists>r. t_req t = Some r \<and> sr_needSnoop r) then 4 else 1
      | AtMem \<Rightarrow> 2)"

definition granted :: "coh \<Rightarrow> nat \<Rightarrow> mem_op \<Rightarrow> bool" where
  "granted s i m = (\<exists>st. lines s i = Some st \<and> (if m = MemRead then st_canBeRead st else st_canBeWritten st))"

text \<open>The events that belong to the request under way.\<close>

fun of_request :: "event \<Rightarrow> bool" where
  "of_request (Request i memOp alloc) = False"
| "of_request (Grant i alloc) = False"
| "of_request (UpperAck j) = False"
| "of_request (Evict j) = False"
| "of_request e = True"

text \<open>The event \<open>e\<close> brings the request of \<open>t\<close> further.\<close>

definition advances :: "smp_config \<Rightarrow> coh \<Rightarrow> transaction \<Rightarrow> event \<Rightarrow> bool" where
  "advances cfg s t e = (guard cfg s e \<and> (\<exists>s'. exec cfg s e = Some s' \<and>
     (case txn s' of
        None \<Rightarrow> granted s' (t_owner t) (t_op t)
      | Some t' \<Rightarrow> t_owner t' = t_owner t \<and> t_op t' = t_op t \<and> cost_at cfg t' < cost_at cfg t)))"

lemma advancesI:
  assumes "guard cfg s e" "exec cfg s e = Some s'" "txn s' = Some t'" "t_owner t' = t_owner t" "t_op t' = t_op t"
    "cost_at cfg t' < cost_at cfg t"
  shows "advances cfg s t e"
  unfolding advances_def using assms by simp

lemma allocated_advances:
  assumes inv: "coh_inv cfg s" and t: "txn s = Some t" "t_at t = AtAlloc"
  shows "advances cfg s t Allocated"
proof -
  have g: "guard cfg s Allocated" using t by simp
  obtain s' where s': "exec cfg s Allocated = Some s'" using allocated_inv [OF inv g] by blast
  then obtain l where "s' = (put_loc (t_owner t) l s)\<lparr>txn := Some (t\<lparr>t_req := Some (hd (sent l)), t_at := AtBus\<rparr>)\<rparr>"
    using t(1) by (auto split: bind_splits)
  then show ?thesis
    by (intro advancesI [OF g s', of "t\<lparr>t_req := Some (hd (sent l)), t_at := AtBus\<rparr>"])
      (simp_all add: cost_at_def t(2))
qed

lemma mem_advances:
  assumes t: "txn s = Some t" "t_at t = AtMem" and r: "t_req t = Some r" "\<not> sr_needSnoop r"
  shows "advances cfg s t MemReturn"
proof -
  have g: "guard cfg s MemReturn" using t by simp
  show ?thesis
    by (rule advancesI [OF g, of "s\<lparr>txn := Some (t\<lparr>t_at := AtOwner\<rparr>), home := fetched (sr_needData r) (home s)\<rparr>"
          "t\<lparr>t_at := AtOwner\<rparr>"])
      (use t r in \<open>simp_all add: cost_at_def\<close>)
qed

lemma bus_advances:
  assumes inv: "coh_inv cfg s" and t: "txn s = Some t" "t_at t = AtBus"
  shows "advances cfg s t BusCycle"
proof -
  have g: "guard cfg s BusCycle" using t by simp
  have at: "t_at t \<noteq> AtAlloc" using t(2) by simp
  obtain r where T: "t_req t = Some r" "req_ok r" "place_inv cfg s t r" "t_owner t < nCaches cfg"
    using txnD [OF inv t(1) at] by metis
  have P: "t_todo t = {}" "t_cnt t = None" using T(3) t(2) by (simp_all add: place_inv_def)
  obtain b where b: "SMPSystemBus_finalizeAccess r = Some (GoUp b)" using finalize_ok [OF T(2)] by blast
  have card: "card (others cfg t) = nCaches cfg - 1" using T(4) by (simp add: others_def)
  obtain t' where t': "bus_step cfg t = Some t'" "t_owner t' = t_owner t" "t_op t' = t_op t"
      "cost_at cfg t' < cost_at cfg t"
  proof (cases "sr_needSnoop r")
    case False
    then have "bus_step cfg t = Some (t\<lparr>t_cnt := None, t_at := AtMem\<rparr>)"
      using T(1,2) P(2) by (simp add: bus_step_def access_eq SMPSystemBus_doRead_def)
    then show ?thesis by (rule that) (use False T(1) t(2) in \<open>simp_all add: cost_at_def\<close>)
  next
    case True
    show ?thesis
    proof (cases "nCaches cfg = 1")
      case one: True
      then have "bus_step cfg t = Some (t\<lparr>t_cnt := None, t_at := AtOwner\<rparr>)"
        using T(1,2) P(2) b True by (simp add: bus_step_def access_eq SMPSystemBus_doRead_def)
      then show ?thesis by (rule that) (use True T(1) t(2) in \<open>simp_all add: cost_at_def\<close>)
    next
      case False
      then have "int (nCaches cfg) - 1 \<noteq> 0" by linarith
      then have "bus_step cfg t = Some (t\<lparr>t_cnt := Some (int (nCaches cfg) - 1), t_at := AtSnoop,
          t_todo := others cfg t\<rparr>)"
        using T(1,2) P(2) True by (simp add: bus_step_def access_eq SMPSystemBus_doRead_def others_def)
      then show ?thesis by (rule that) (use True T(1) t(2) card in \<open>simp_all add: cost_at_def\<close>)
    qed
  qed
  show ?thesis by (rule advancesI [OF g, of "s\<lparr>txn := Some t'\<rparr>" t']) (use t(1) t' in simp_all)
qed

text \<open>Acknowledgements that arrive at the bus do not add to the cost.\<close>

lemma bus_acks_cost:
  assumes t: "t_at t = AtSnoop" "t_cnt t = Some k" "0 < k" and e: "bus_acks cfg n t = Some t'"
    and r: "t_req t = Some r" "sr_needSnoop r" "sr_memOp r \<noteq> MemPush"
  shows "t_op t' = t_op t \<and> cost_at cfg t' \<le> cost_at cfg t \<and> (n \<noteq> 0 \<longrightarrow> cost_at cfg t' < cost_at cfg t)"
proof (cases "n = 0")
  case True
  then show ?thesis using e by (simp add: bus_acks_def)
next
  case False
  then have b: "bus_step cfg t = Some t'" using e by (simp add: bus_acks_def)
  show ?thesis
  proof (cases "k = 1")
    case True
    then have "t' = t\<lparr>t_cnt := None, t_at := AtOwner\<rparr>"
      using b t r by (auto simp: bus_step_def bus_access_eq SMPSystemBus_doRead_def
          SMPSystemBus_finalizeAccess_def split: if_splits bind_splits)
    then show ?thesis using t True r by (simp add: cost_at_def)
  next
    case False
    then have "t' = t\<lparr>t_cnt := Some (k - 1)\<rparr>"
      using b t r by (auto simp: bus_step_def bus_access_eq SMPSystemBus_doRead_def split: bind_splits)
    then show ?thesis using t False by (simp add: cost_at_def)
  qed
qed

lemma handle_advances:
  assumes inv: "coh_inv cfg s" and t: "txn s = Some t" "t_at t = AtSnoop" and j: "j \<in> t_todo t"
  shows "advances cfg s t (Handle j)"
proof -
  have g: "guard cfg s (Handle j)" using t j by simp
  obtain r where T: "t_req t = Some r" "sr_needSnoop r" "req_ok r"
      "t_cnt t = Some (int (card (t_todo t) + ack_total cfg s))" "0 < card (t_todo t) + ack_total cfg s"
      "t_todo t \<subseteq> others cfg t"
    using snoopD [OF inv t] by metis
  obtain s' where s': "exec cfg s (Handle j) = Some s'" using handle_inv [OF inv g] by blast
  then obtain r' l t' where e: "SMPCache_doReceiveFromBelow cfg j r (loc_at s j) = Some (r', l)"
      "bus_acks cfg (acked l) (t\<lparr>t_req := Some r', t_todo := t_todo t - {j}\<rparr>) = Some t'"
      "s' = (put_loc j l s)\<lparr>txn := Some t'\<rparr>"
    using t(1) T(1) by (auto split: bind_splits)
  have r': "sr_needSnoop r'" "sr_memOp r' \<noteq> MemPush"
    using receive_req [OF e(1)] T(2,3) by (simp_all add: req_ok_def)
  have fin: "finite (t_todo t)" using T(6) finite_subset others_finite by metis
  have "card (t_todo t - {j}) < card (t_todo t)" using fin j by (meson card_Diff1_less)
  then have c: "cost_at cfg (t\<lparr>t_req := Some r', t_todo := t_todo t - {j}\<rparr>) < cost_at cfg t"
    using t(2) by (simp add: cost_at_def)
  have "t_op t' = t_op t \<and> cost_at cfg t' < cost_at cfg t"
    using bus_acks_cost [OF _ _ _ e(2), of _ r'] t(2) T(4,5) r' c by fastforce
  then show ?thesis using bus_owner [OF e(2)]
    by (intro advancesI [OF g s', of t']) (simp_all add: e(3))
qed

text \<open>All caches have been asked, so an acknowledgement is on its way.\<close>

lemma fire_advances:
  assumes inv: "coh_inv cfg s" and ti: "top_inv s" and t: "txn s = Some t" and g: "guard cfg s (Fire j)"
  shows "advances cfg s t (Fire j)"
proof -
  have j: "j < nCaches cfg" using g by simp
  obtain cb rest where cb: "cbq s j = cb # rest" using g by (cases "cbq s j") simp_all
  have "cb \<noteq> DoAllocateLine" using pend_class(1) [OF inv, of j] top_none [OF ti, of j] cb by auto
  then have sa: "cb = SendAck" by (cases cb) simp_all
  have "0 < ackp s j" using cb sa by (simp add: ackp_def)
  then have pos: "0 < ack_total cfg s" using ackp_le_total [OF j, of s] by simp
  have at: "t_at t = AtSnoop"
    using inv t pos by (cases "t_at t") (auto simp: coh_inv_def txn_inv_def place_inv_def split: option.splits)
  obtain r where T: "t_req t = Some r" "sr_needSnoop r" "req_ok r"
      "t_cnt t = Some (int (card (t_todo t) + ack_total cfg s))" "0 < card (t_todo t) + ack_total cfg s"
    using snoopD [OF inv t at] by metis
  obtain s' where s': "exec cfg s (Fire j) = Some s'"
    using fire_ack_inv [OF inv j] cb sa by blast
  let ?l = "SMPCache_respondBelow j r (loc_at s j)"
  obtain t' where e: "bus_acks cfg (acked ?l) t = Some t'"
      "s' = (put_loc j ?l (s\<lparr>cbq := (cbq s)(j := rest)\<rparr>))\<lparr>txn := Some t'\<rparr>"
    using s' cb sa t T(1) by (auto simp: Let_def split: bind_splits)
  have "acked ?l \<noteq> 0" by (simp add: SMPCache_respondBelow_def SMPCache_doWriteBack_def Let_def)
  moreover have "sr_memOp r \<noteq> MemPush" using T(3) by (simp add: req_ok_def)
  moreover have "0 < int (card (t_todo t) + ack_total cfg s)" using T(5) by linarith
  ultimately have "t_op t' = t_op t \<and> cost_at cfg t' < cost_at cfg t"
    using bus_acks_cost [OF at T(4) _ e(1) T(1,2)] by blast
  then show ?thesis using bus_owner [OF e(1)]
    by (intro advancesI [OF g s', of t']) (simp_all add: e(2))
qed

lemma response_advances:
  assumes inv: "coh_inv cfg s" and t: "txn s = Some t" "t_at t = AtOwner"
  shows "advances cfg s t Response"
proof -
  have g: "guard cfg s Response" using t by simp
  have at: "t_at t \<noteq> AtAlloc" using t(2) by simp
  obtain r where T: "t_req t = Some r" "req_ok r" "lines s (t_owner t) = Some (owner_line r)"
      "place_inv cfg s t r" "is_read r = (t_op t = MemRead)" using txnD [OF inv t(1) at] by metis
  have ns: "\<not> sr_needSnoop r \<longrightarrow> sr_state r = MESI_INVALID"
    using T(4) t(2) by (auto simp: place_inv_def alone_def)
  have ln: "ln (loc_at s (t_owner t)) = Some (owner_line r)" using T(3) by simp
  note ra = return_access [OF T(2) ln ns]
  obtain s' where s': "exec cfg s Response = Some s'" using response_inv [OF inv g] by blast
  show ?thesis
  proof (cases "sr_needSnoop r \<and> sr_needData r \<and> sr_state r = MESI_INVALID")
    case True
    then have "txn s' = Some (t\<lparr>t_req := Some (r\<lparr>sr_needSnoop := False\<rparr>), t_at := AtBus\<rparr>)"
      using s' t(1) T(1) ra [unfolded if_P [OF True]] by (auto simp: SMPCache_sendBelow_def Let_def)
    then show ?thesis by (rule advancesI [OF g s']) (use True T(1) t(2) in \<open>simp_all add: cost_at_def\<close>)
  next
    case False
    let ?st = "if is_read r then (if sr_needSnoop r then MESI_SHARED else MESI_EXCLUSIVE) else MESI_MODIFIED"
    have e: "txn s' = None" "lines s' (t_owner t) = Some ?st"
      using s' t(1) T(1) ra [unfolded if_not_P [OF False]] by (auto simp: SMPCache_concludeAccess_def Let_def)
    have "granted s' (t_owner t) (t_op t)" using e(2) T(5) by (simp add: granted_def)
    then show ?thesis unfolding advances_def using g s' e(1) by simp
  qed
qed

text \<open>Every event of the request advances it, every other one leaves it alone, and one is possible.\<close>

lemma event_advances:
  assumes top: "top_level cfg" and inv: "coh_inv cfg s" and ti: "top_inv s" and t: "txn s = Some t"
    and g: "guard cfg s e"
  shows "if of_request e then advances cfg s t e else \<exists>s'. exec cfg s e = Some s' \<and> txn s' = txn s"
proof (cases e)
  case Allocated
  then show ?thesis using allocated_advances [OF inv t] g t by simp
next
  case BusCycle
  then show ?thesis using bus_advances [OF inv t] g t by simp
next
  case (Handle j)
  then show ?thesis using handle_advances [OF inv t] g t by auto
next
  case (Fire j)
  then show ?thesis using fire_advances [OF inv ti t] g by simp
next
  case MemReturn
  then have at: "t_at t = AtMem" using g t by simp
  then have "t_at t \<noteq> AtAlloc" by simp
  then obtain r where T: "t_req t = Some r" "place_inv cfg s t r" using txnD [OF inv t] by metis
  then show ?thesis using mem_advances [OF t at T(1)] at MemReturn by (simp add: place_inv_def)
next
  case Response
  then show ?thesis using response_advances [OF inv t] g t by simp
next
  case (Request i m a)
  obtain s' where s': "exec cfg s e = Some s'" using top_exec [OF top inv ti g] by blast
  have "txn s' = txn s"
    using s' t unfolding Request request_exec [OF inv]
    by (auto simp: mutExcl_def split: if_splits)
  then show ?thesis using s' Request by simp
next
  case (Evict j)
  obtain s' where "exec cfg s e = Some s'" using top_exec [OF top inv ti g] by blast
  then show ?thesis using Evict by (auto simp: put_loc_def split: bind_splits)
qed (use g t top in \<open>simp_all add: top_level_def\<close>)

lemma request_event:
  assumes inv: "coh_inv cfg s" and ti: "top_inv s" and t: "txn s = Some t"
  shows "\<exists>e. of_request e \<and> guard cfg s e"
proof (cases "t_at t")
  case AtSnoop
  obtain r where T: "0 < card (t_todo t) + ack_total cfg s"
    using snoopD [OF inv t AtSnoop] by metis
  show ?thesis
  proof (cases "t_todo t = {}")
    case True
    then have "0 < ack_total cfg s" using T by simp
    then obtain j where j: "j < nCaches cfg" "ackp s j \<noteq> 0"
      unfolding ack_total_def by (metis lessThan_iff neq0_conv sum.neutral)
    have "pinvs s j = None" using top_none [OF ti, of j] by simp
    then have "cbq s j \<noteq> []" using j(2) by (cases "cbq s j") (auto simp: ackp_def)
    then show ?thesis using j(1) by (intro exI [of _ "Fire j"]) simp
  next
    case False
    then obtain j where "j \<in> t_todo t" by blast
    then show ?thesis using t AtSnoop by (intro exI [of _ "Handle j"]) simp
  qed
qed (use t in \<open>auto intro: exI [of _ Allocated] exI [of _ BusCycle] exI [of _ MemReturn] exI [of _ Response]\<close>)

lemma txn_advances:
  assumes "top_level cfg" "coh_inv cfg s" "top_inv s" "txn s = Some t"
  shows "\<exists>e. advances cfg s t e"
  using request_event [OF assms(2-4)] event_advances [OF assms] by (metis (full_types))

lemma txn_completes:
  assumes top: "top_level cfg"
  shows "coh_inv cfg s \<Longrightarrow> top_inv s \<Longrightarrow> txn s = Some t \<Longrightarrow>
    \<exists>es s'. length es \<le> cost_at cfg t \<and> run_events cfg s es = Some s' \<and> txn s' = None \<and>
      granted s' (t_owner t) (t_op t)"
proof (induction "cost_at cfg t" arbitrary: s t rule: less_induct)
  case less
  obtain e s1 where e: "guard cfg s e" "exec cfg s e = Some s1" "case txn s1 of
        None \<Rightarrow> granted s1 (t_owner t) (t_op t)
      | Some t' \<Rightarrow> t_owner t' = t_owner t \<and> t_op t' = t_op t \<and> cost_at cfg t' < cost_at cfg t"
    using txn_advances [OF top less.prems] unfolding advances_def by blast
  have inv: "coh_inv cfg s1" "top_inv s1"
    using step_inv [OF less.prems(1) e(1,2)] step_top [OF top less.prems(1,2) e(1,2)] .
  show ?case
  proof (cases "txn s1")
    case None
    have "0 < cost_at cfg t" by (auto simp: cost_at_def split: place.splits)
    then show ?thesis using None e by (intro exI [of _ "[e]"] exI [of _ s1]) simp
  next
    case (Some t1)
    then have t1: "t_owner t1 = t_owner t" "t_op t1 = t_op t" "cost_at cfg t1 < cost_at cfg t" using e(3) by auto
    obtain es s2 where "length es \<le> cost_at cfg t1" "run_events cfg s1 es = Some s2" "txn s2 = None"
        "granted s2 (t_owner t1) (t_op t1)"
      using less.hyps [OF t1(3) inv Some] by blast
    then show ?thesis using e(1,2) t1 by (intro exI [of _ "e # es"] exI [of _ s2]) simp
  qed
qed

lemma cost_bound:
  assumes inv: "coh_inv cfg s" and t: "txn s = Some t"
  shows "cost_at cfg t \<le> 2 * nCaches cfg + 6"
proof (cases "t_at t = AtSnoop")
  case True
  obtain r where T: "t_cnt t = Some (int (card (t_todo t) + ack_total cfg s))"
      "card (t_todo t) + ack_total cfg s < nCaches cfg"
    using snoopD [OF inv t True] by metis
  then show ?thesis using True by (simp add: cost_at_def)
next
  case False
  then show ?thesis by (cases "t_at t") (simp_all add: cost_at_def)
qed

subsection \<open>Invalidation from below\<close>

text \<open>
  At the highest level the assertion of \<open>SMPCacheState::invalidate\<close> fails exactly on a line
  whose request is under way.
\<close>

lemma invalidate_in_transition:
  assumes "top_level cfg" "coh_inv cfg s" "top_inv s"
  shows "SMPCache_invalidate cfg cb (loc_at s j) = None \<longleftrightarrow> busy (lines s j)"
proof -
  have top: "isHighestLevel cfg" "numUpper cfg - 1 \<le> 0" using assms(1) by (simp_all add: top_level_def)
  have p: "pinvs s j = None" "\<not> inval (lines s j)" using assms(3) by (simp_all add: top_inv_def)
  show ?thesis
  proof (cases "lines s j")
    case None
    then show ?thesis using top p
      by (simp add: SMPCache_invalidate_def SMPCache_doInvalidate_def SMPCache_realInvalidate_def Let_def busy_def)
  next
    case (Some st)
    have c: "valid (Some st) \<or> busy (Some st)" using line_class [OF assms(2), of j] p(2) Some by simp
    have e: "SMPCache_invalidate cfg cb (loc_at s j) = None \<longleftrightarrow>
        \<not> st_isValid st \<or> SMPCacheState_invalidate \<lparr>sl_tag = 0, sl_state = st\<rparr> = None"
      using top p Some
      by (simp add: SMPCache_invalidate_def SMPCache_doInvalidate_def SMPCache_realInvalidate_def Let_def
          split: option.splits bind_splits)
    have i: "MESI_TRANS_RD AND SMP_INV_BIT = 0" "MESI_TRANS_RD_MEM AND SMP_INV_BIT = 0"
        "MESI_TRANS_WR AND SMP_INV_BIT = 0" "MESI_TRANS_WR_MEM AND SMP_INV_BIT = 0"
      by (simp_all add: mesi_consts)
    show ?thesis unfolding e Some using c
      by (auto simp: valid_def busy_def SMPCacheState_invalidate_def i)
  qed
qed

end
