(* ===== verification/Coherence_Home.thy ===== *)
theory Coherence_Home
  imports Coherence_Progress
begin

text \<open>
  At the highest level the last write is where it should be: in the one cache that has the
  line dirty, or in memory. Memory never answers while a cache has newer data, and only the
  cache with the last write writes back.
\<close>

text \<open>
  A request that asks for a write-down is a read whose supplier had the line modified. A supplier
  has answered, and a read leaves no acknowledgement pending.
\<close>

definition req_home :: "sreq \<Rightarrow> nat set \<Rightarrow> (nat \<Rightarrow> cbk list) \<Rightarrow> bool" where
  "req_home r todo q = ((sr_writeDown r \<longrightarrow> is_read r \<and> sr_state r = MESI_MODIFIED) \<and>
     (sr_state r = MESI_INVALID \<longrightarrow> sr_supplier r = None) \<and>
     (\<forall>j. sr_supplier r = Some j \<longrightarrow> j \<notin> todo) \<and>
     (is_read r \<longrightarrow> (\<forall>j. q j = [])))"

definition data_inv :: "coh \<Rightarrow> bool" where
  "data_inv s = (home s \<noteq> Stale \<and> (\<forall>j. dirty (lines s j) \<longleftrightarrow> home s = InCache j))"

definition home_inv :: "coh \<Rightarrow> bool" where
  "home_inv s = (data_inv s \<and>
     (\<forall>t r. txn s = Some t \<longrightarrow> t_req t = Some r \<longrightarrow> req_home r (t_todo t) (cbq s)))"

text \<open>What an operation of cache \<open>j\<close> may do to its line.\<close>

definition put_ok :: "32 word option \<Rightarrow> loc \<Rightarrow> bool" where
  "put_ok old l = (if 0 < wbs l then dirty old \<and> \<not> dirty (ln l) else dirty (ln l) = dirty old)"

lemma put_data:
  assumes d: "data_inv s" and p: "put_ok (lines s j) l"
    and s': "lines s' = lines (put_loc j l s)" "home s' = home (put_loc j l s)"
  shows "data_inv s'"
proof (cases "0 < wbs l")
  case True
  then have "dirty (lines s j)" "\<not> dirty (ln l)" using p by (simp_all add: put_ok_def)
  then have h: "home s = InCache j" using d by (simp add: data_inv_def)
  then show ?thesis using True \<open>\<not> dirty (ln l)\<close> d s' by (simp add: written_back_def data_inv_def)
next
  case False
  then show ?thesis using assms by (simp add: put_ok_def data_inv_def)
qed

lemma same_data: "data_inv s \<Longrightarrow> \<not> dirty (lines s i) \<Longrightarrow> \<not> dirty l \<Longrightarrow> lines s' = (lines s)(i := l) \<Longrightarrow>
    home s' = home s \<Longrightarrow> data_inv s'"
  by (auto simp: data_inv_def)

lemma dirty_valid: "top_inv s \<Longrightarrow> dirty (lines s j) \<Longrightarrow> valid (lines s j)"
  using top_none [of s j] by (auto simp: dirty_def)

lemma quiet_top:
  assumes inv: "coh_inv cfg s" and ti: "top_inv s" and a: "ack_total cfg s = 0"
  shows "cbq s j = []"
proof (cases "j < nCaches cfg")
  case True
  have "ackp s j = 0" using ackp_le_total [OF True, of s] a by simp
  then have "SendAck \<notin> set (cbq s j)" by (simp add: ackp_def count_list_0_iff)
  moreover have "DoAllocateLine \<notin> set (cbq s j)" using pend_class(1) [OF inv, of j] top_none [OF ti, of j] by auto
  ultimately show ?thesis by (cases "cbq s j") (auto, metis cbk.exhaust)
next
  case False
  then show ?thesis using inv by (simp add: coh_inv_def line_inv_def)
qed

lemma write_data:
  assumes inv: "coh_inv cfg s'" and ti: "top_inv s'" and l: "lines s' i = Some MESI_MODIFIED"
    and h: "home s' = InCache i"
  shows "data_inv s'"
proof -
  have "\<not> dirty (lines s' j)" if "j \<noteq> i" for j
  proof
    assume "dirty (lines s' j)"
    then have "valid (lines s' j)" by (rule dirty_valid [OF ti])
    then show False using swmrD [OF inv, of i j] that l by simp
  qed
  then have "dirty (lines s' j) \<longleftrightarrow> j = i" for j using l by (cases "j = i") simp_all
  then show ?thesis using h by (auto simp: data_inv_def)
qed

subsection \<open>Requests\<close>

lemma fresh_home: "fresh_req m r \<Longrightarrow> (\<And>j. q j = []) \<Longrightarrow> req_home r todo q"
  by (simp add: fresh_req_def req_home_def)

lemma start_home:
  assumes inv: "coh_inv cfg s" and ti: "top_inv s" and hi: "home_inv s" and t: "txn s = None"
    and e: "start i m a s = Some s'"
    and l: "lines s i = None \<or> m \<noteq> MemRead \<and> lines s i = Some MESI_SHARED" and a: "no_line a" "m \<noteq> MemPush"
  shows "home_inv s'"
proof -
  have q: "cbq s j = []" for j
    using quiet_top [OF inv ti] inv t by (simp add: coh_inv_def txn_inv_def)
  have nd: "\<not> dirty (lines s i)" using l by auto
  have d: "data_inv s" using hi by (simp add: home_inv_def)
  consider r where "s' = s\<lparr>lines := (lines s)(i := Some (owner_line r)),
      txn := Some \<lparr>t_owner = i, t_op = m, t_req = Some r, t_cnt = None, t_at = AtBus, t_todo = {}\<rparr>\<rparr>" "fresh_req m r"
    | "s' = s\<lparr>txn := Some \<lparr>t_owner = i, t_op = m,
      t_req = None, t_cnt = None, t_at = AtAlloc, t_todo = {}\<rparr>\<rparr>"
    using start_shape [OF l a t] e by fastforce
  then show ?thesis
  proof cases
    case (1 r)
    then have "data_inv s'" by (intro same_data [OF d nd, of "Some (owner_line r)"]) simp_all
    then show ?thesis using 1 fresh_home [OF 1(2), of "cbq s" "{}"] q by (simp add: home_inv_def)
  next
    case 2
    then show ?thesis using d by (simp add: home_inv_def data_inv_def)
  qed
qed

lemma request_home:
  assumes top: "top_level cfg" and inv: "coh_inv cfg s" and ti: "top_inv s" and hi: "home_inv s"
    and g: "guard cfg s (Request i m a)" and e: "exec cfg s (Request i m a) = Some s'"
  shows "home_inv s'"
proof (cases "misses s i m")
  case True
  have x: "mutExcl i (miss_op s i m) a s = Some s'" using e True unfolding request_exec [OF inv] by simp
  have a: "no_line a" "miss_op s i m \<noteq> MemPush" using g by (simp_all add: no_line_def)
  show ?thesis
  proof (cases "txn s")
    case None
    then show ?thesis using start_home [OF inv ti hi None _ request_line [OF True] a] x by (simp add: mutExcl_def)
  next
    case (Some t)
    then show ?thesis using x hi by (auto simp: mutExcl_def home_inv_def data_inv_def)
  qed
next
  case False
  have inv': "coh_inv cfg s'" "top_inv s'" using step_inv [OF inv g e] step_top [OF top inv ti g e] .
  consider "s' = s" | "s' = s\<lparr>lines := (lines s)(i := Some MESI_MODIFIED), home := written_by i (home s)\<rparr>"
    using e False unfolding request_exec [OF inv] by (auto split: if_splits)
  then show ?thesis
  proof cases
    case 1
    then show ?thesis using hi by simp
  next
    case 2
    have "home s \<noteq> Stale" using hi by (simp add: home_inv_def data_inv_def)
    then have "data_inv s'" by (intro write_data [OF inv', of i]) (simp_all add: 2 written_by_def)
    then show ?thesis using hi 2 by (simp add: home_inv_def)
  qed
qed

lemma grant_home:
  assumes inv: "coh_inv cfg s" and ti: "top_inv s" and hi: "home_inv s"
    and g: "guard cfg s (Grant i a)" and e: "exec cfg s (Grant i a) = Some s'"
  shows "home_inv s'"
proof -
  obtain m where m: "waiting s i = Some m" "txn s = None" "no_line a" using g by (auto simp: no_line_def)
  let ?s = "s\<lparr>waiting := (waiting s)(i := None)\<rparr>"
  have st: "start i m a ?s = Some s'" using e m(1) by simp
  have l: "lines ?s i = None \<or> m \<noteq> MemRead \<and> lines ?s i = Some MESI_SHARED"
    using grant_line [OF inv e m(1)] by simp
  have "top_inv ?s"
    by (rule top_owner [OF ti, of ?s i "lines s i"]) (use top_none [OF ti, of i] m(2) in auto)
  moreover have "home_inv ?s" using hi by (simp add: home_inv_def data_inv_def)
  ultimately show ?thesis
    by (rule start_home [OF waiting_frame [OF inv] _ _ _ st l m(3) waiting_op [OF inv m(1)]]) (use m(2) in simp)
qed

lemma allocated_home:
  assumes inv: "coh_inv cfg s" and ti: "top_inv s" and hi: "home_inv s"
    and g: "guard cfg s Allocated" and e: "exec cfg s Allocated = Some s'"
  shows "home_inv s'"
proof -
  obtain t where t: "txn s = Some t" "t_at t = AtAlloc" using g by auto
  have N: "lines s (t_owner t) = None" "ack_total cfg s = 0"
    using inv t by (auto simp: coh_inv_def txn_inv_def place_inv_def split: option.splits)
  obtain l where l: "MESI_allocated (t_owner t) (t_op t) (loc_at s (t_owner t)) = Some l"
      "s' = (put_loc (t_owner t) l s)\<lparr>txn := Some (t\<lparr>t_req := Some (hd (sent l)), t_at := AtBus\<rparr>)\<rparr>"
    using e t(1) by (auto split: bind_splits)
  have r: "\<not> dirty (ln l)" "wbs l = 0" "cbs l = []" "req_home (hd (sent l)) X (\<lambda>_. [])" for X
    using l(1) by (auto simp: MESI_allocated_def MESI_doRead_def MESI_doWrite_def SMPCache_sendBelow_def Let_def
        req_home_def SMPMemRequest_create_def dirty_def split: if_splits bind_splits)
  have q: "cbq s = (\<lambda>_. [])" using quiet_top [OF inv ti N(2)] by auto
  have "data_inv s'"
    by (rule put_data [of s "t_owner t" l]) (use hi N(1) r(1,2) l(2) in \<open>simp_all add: home_inv_def put_ok_def\<close>)
  moreover have "cbq s' = (\<lambda>_. [])" using q r(3) l(2) by (simp add: fun_eq_iff)
  ultimately show ?thesis using l(2) r(4) by (simp add: home_inv_def)
qed

subsection \<open>The bus and memory\<close>

lemma bus_cycle_home:
  assumes inv: "coh_inv cfg s" and hi: "home_inv s"
    and g: "guard cfg s BusCycle" and e: "exec cfg s BusCycle = Some s'"
  shows "home_inv s'"
proof -
  obtain t where t: "txn s = Some t" "t_at t = AtBus" using g by auto
  have at: "t_at t \<noteq> AtAlloc" using t(2) by simp
  obtain r where T: "t_req t = Some r" "place_inv cfg s t r" using txnD [OF inv t(1) at] by metis
  have h: "req_home r (t_todo t) (cbq s)" using hi t(1) T(1) by (simp add: home_inv_def)
  have "sr_state r = MESI_INVALID" using T(2) t(2) by (auto simp: place_inv_def alone_def split: if_splits)
  then have "req_home r todo (cbq s)" for todo using h by (simp add: req_home_def)
  moreover obtain t' where "s' = s\<lparr>txn := Some t'\<rparr>" "t_req t' = Some r"
    using e t(1) T(1) by (auto simp: bus_step_def split: bind_splits bus_out.splits)
  ultimately show ?thesis using hi by (simp add: home_inv_def data_inv_def)
qed

lemma mem_return_home:
  assumes inv: "coh_inv cfg s" and ti: "top_inv s" and hi: "home_inv s"
    and g: "guard cfg s MemReturn" and e: "exec cfg s MemReturn = Some s'"
  shows "home_inv s'"
proof -
  obtain t where t: "txn s = Some t" "t_at t = AtMem" using g by auto
  have at: "t_at t \<noteq> AtAlloc" using t(2) by simp
  obtain r where T: "t_req t = Some r" "lines s (t_owner t) = Some (owner_line r)" "place_inv cfg s t r"
    using txnD [OF inv t(1) at] by metis
  have al: "alone s r (others cfg t)" using T(3) t(2) by (simp add: place_inv_def)
  have "\<not> dirty (lines s j)" for j
  proof (cases "j = t_owner t")
    case True
    then show ?thesis using T(2) by simp
  next
    case False
    have "\<not> valid (lines s j)"
    proof (cases "j < nCaches cfg")
      case True
      then show ?thesis using al False by (simp add: alone_def others_def)
    next
      case False
      then show ?thesis using inv by (simp add: coh_inv_def line_inv_def)
    qed
    then show ?thesis using dirty_valid [OF ti] by blast
  qed
  then have "home s = InMemory" using hi by (cases "home s") (auto simp: home_inv_def data_inv_def)
  then have "s' = s\<lparr>txn := Some (t\<lparr>t_at := AtOwner\<rparr>), home := home s\<rparr>"
    using e t(1) T(1) by (simp add: fetched_def)
  then show ?thesis using hi t(1) T(1) by (simp add: home_inv_def data_inv_def)
qed

subsection \<open>Snoops\<close>

definition req_after :: "nat \<Rightarrow> sreq \<Rightarrow> sreq \<Rightarrow> bool" where
  "req_after j r r' = ((sr_writeDown r' \<longrightarrow> is_read r' \<and> sr_state r' = MESI_MODIFIED) \<and>
     (sr_state r' = MESI_INVALID \<longrightarrow> sr_supplier r' = None) \<and>
     (\<forall>i. sr_supplier r' = Some i \<longrightarrow> i = j \<or> sr_supplier r = Some i) \<and> is_read r' = is_read r)"

lemma respond_same:
  assumes "sr_supplier r \<noteq> Some j \<or> \<not> sr_writeDown r"
  shows "SMPCache_respondBelow j r l = l\<lparr>acked := acked l + 1\<rparr>"
  using assms by (auto simp: SMPCache_respondBelow_def Let_def)

lemma snoop_unlocked:
  assumes "valid (Some st)"
  shows "\<not> st_isLocked st" "st AND MESI_TRANS = 0" "st \<noteq> MESI_INVALID"
  using assms by (auto simp: valid_def mesi_consts st_isLocked_def)

lemma read_home:
  assumes r: "is_read r" "req_ok r" "sr_writeDown r \<longrightarrow> sr_state r = MESI_MODIFIED"
      "sr_state r = MESI_INVALID \<longrightarrow> sr_supplier r = None" "sr_supplier r \<noteq> Some j"
    and l: "ln l = None \<or> valid (ln l) \<or> busy (ln l)" "wbs l = 0" "cbs l = []"
    and e: "readMissHandler j r l = Some (r', l')"
  shows "put_ok (ln l) l' \<and> req_after j r r' \<and> cbs l' = []"
proof (cases "valid (ln l)")
  case False
  then have "ln l = None \<or> (\<exists>st. ln l = Some st \<and> st_isLocked st)" using l(1) by (auto simp: busy_def)
  then have "r' = r" "l' = l\<lparr>acked := acked l + 1\<rparr>"
    using e respond_same [of r j] r(5) by (auto simp: readMissHandler_def split: bind_splits)
  then show ?thesis using r l by (simp add: put_ok_def req_after_def)
next
  case True
  then obtain st where st: "ln l = Some st" "valid (Some st)" by (cases "ln l") auto
  obtain st' where c: "combineResponses j st r = Some r'" "changeState st MESI_SHARED = Some st'"
      "l' = SMPCache_respondBelow j r' (l\<lparr>ln := Some st'\<rparr>)"
    using e st(1) snoop_unlocked(1) [OF st(2)] by (auto simp: readMissHandler_def split: bind_splits)
  have st': "st' = MESI_SHARED" using changeState_new [OF c(2)] by simp
  consider "st = MESI_SHARED" | "st = MESI_EXCLUSIVE" | "st = MESI_MODIFIED" using st(2) by (auto simp: valid_def)
  then show ?thesis
  proof cases
    case 1
    then have nm: "sr_state r \<noteq> MESI_MODIFIED" and
        r': "r' = (if \<not> sr_found r then r\<lparr>sr_found := True, sr_supplier := Some j, sr_state := MESI_SHARED\<rparr> else r)"
      using c(1) snoop_unlocked [OF st(2)] by (auto simp: combineResponses_def Let_def split: if_splits bind_splits)
    have "\<not> sr_writeDown r'" using r(3) nm r' by (auto split: if_splits)
    then have "l' = l\<lparr>ln := Some MESI_SHARED, acked := acked l + 1\<rparr>" using c(3) st' respond_same [of r' j] by simp
    then show ?thesis using st(1) 1 l r \<open>\<not> sr_writeDown r'\<close> r' by (auto simp: put_ok_def req_after_def is_read_def)
  next
    case 2
    then have nm: "sr_state r \<noteq> MESI_MODIFIED" and
        r': "r' = r\<lparr>sr_found := True, sr_supplier := Some j, sr_state := MESI_EXCLUSIVE\<rparr>"
      using c(1) snoop_unlocked [OF st(2)] by (auto simp: combineResponses_def Let_def split: if_splits bind_splits)
    have "\<not> sr_writeDown r'" using r(3) nm r' by auto
    then have "l' = l\<lparr>ln := Some MESI_SHARED, acked := acked l + 1\<rparr>" using c(3) st' respond_same [of r' j] by simp
    then show ?thesis using st(1) 2 l r \<open>\<not> sr_writeDown r'\<close> r' by (auto simp: put_ok_def req_after_def is_read_def)
  next
    case 3
    then have r': "r' = r\<lparr>sr_found := True, sr_supplier := Some j, sr_writeDown := True, sr_state := MESI_MODIFIED\<rparr>"
      using c(1) snoop_unlocked [OF st(2)] by (auto simp: combineResponses_def Let_def split: if_splits bind_splits)
    then have "wbs l' = 1" "ln l' = Some MESI_SHARED" "cbs l' = []"
      using c(3) st' l by (simp_all add: SMPCache_respondBelow_def SMPCache_doWriteBack_def Let_def)
    then show ?thesis using st(1) 3 r r' by (auto simp: put_ok_def req_after_def is_read_def)
  qed
qed

lemma invalidate_line_home:
  assumes top: "top_level cfg" and st: "ln l = Some st" "valid (Some st)" and l: "wbs l = 0"
    and e: "SMPCache_invalidateLine cfg cb l = Some l'"
  shows "put_ok (ln l) l'"
proof -
  have "ln l' = None" using invalidate_top [OF top e] by simp
  moreover have "wbs l' = of_bool (st = MESI_MODIFIED)"
    using e top st l unfolding valid_def
    by (elim insertE emptyE) (auto simp: SMPCache_invalidateLine_def SMPCache_doInvalidate_def
        SMPCache_realInvalidate_def SMPCache_doWriteBack_def top_level_def Let_def split: bind_splits if_splits)
  ultimately show ?thesis using st by (auto simp: put_ok_def valid_def)
qed

lemma write_home:
  assumes top: "top_level cfg" and r: "\<not> is_read r" "\<not> sr_writeDown r"
      "sr_state r = MESI_INVALID \<longrightarrow> sr_supplier r = None"
    and l: "ln l = None \<or> valid (ln l) \<or> busy (ln l)" "wbs l = 0"
    and e: "writeMissHandler cfg j r l = Some (r', l')"
  shows "put_ok (ln l) l' \<and> req_after j r r'"
proof (cases "valid (ln l)")
  case False
  then have "ln l = None \<or> (\<exists>st. ln l = Some st \<and> st_isLocked st)" using l(1) by (auto simp: busy_def)
  then have "r' = r" "l' = l\<lparr>acked := acked l + 1\<rparr>"
    using e respond_same [of r j] r(2) by (auto simp: writeMissHandler_def split: bind_splits)
  then show ?thesis using r l by (simp add: put_ok_def req_after_def)
next
  case True
  then obtain st where st: "ln l = Some st" "valid (Some st)" by (cases "ln l") auto
  obtain r1 where c: "combineResponses j st r = Some r1" "SMPCache_invalidateLine cfg SendAck l = Some l'"
      "r' = (if sr_supplier r1 = Some j \<and> sr_writeDown r1 then r1\<lparr>sr_writeDown := False\<rparr> else r1)"
    using e st(1) snoop_unlocked(1) [OF st(2)] by (auto simp: writeMissHandler_def Let_def split: bind_splits)
  have "req_after j r r'"
    using c(1,3) r snoop_unlocked [OF st(2)] st(2) unfolding valid_def
    by (elim insertE emptyE)
      (auto simp: combineResponses_def Let_def req_after_def is_read_def split: if_splits bind_splits)
  then show ?thesis using invalidate_line_home [OF top st l(2) c(2)] by simp
qed

lemma receive_home:
  assumes top: "top_level cfg" and r: "req_ok r" "sr_writeDown r \<longrightarrow> is_read r \<and> sr_state r = MESI_MODIFIED"
      "sr_state r = MESI_INVALID \<longrightarrow> sr_supplier r = None" "sr_supplier r \<noteq> Some j"
    and l: "ln l = None \<or> valid (ln l) \<or> busy (ln l)" "wbs l = 0" "cbs l = []"
    and e: "SMPCache_doReceiveFromBelow cfg j r l = Some (r', l')"
  shows "put_ok (ln l) l' \<and> req_after j r r' \<and> (is_read r \<longrightarrow> cbs l' = [])"
proof (cases "is_read r")
  case True
  then have "readMissHandler j r l = Some (r', l')"
    using e by (simp add: SMPCache_doReceiveFromBelow_def is_read_def)
  then show ?thesis using read_home [OF True r(1) _ r(3,4) l] r(2) by blast
next
  case False
  then have "writeMissHandler cfg j r l = Some (r', l')"
    using e unfolding SMPCache_doReceiveFromBelow_def invalidate_is_write_miss is_read_def
    by (simp split: if_splits)
  then show ?thesis using write_home [OF top False _ r(3) l(1,2)] r(2) False by blast
qed

lemma bus_acks_req:
  assumes "bus_acks cfg n t = Some t'" "t_cnt t \<noteq> None" "t_req t = Some r" "sr_memOp r \<noteq> MemPush" "sr_needSnoop r"
  shows "t_req t' = Some r \<and> t_todo t' = t_todo t"
  using assms by (auto simp: bus_acks_def bus_step_def bus_access_eq SMPSystemBus_doRead_def
      SMPSystemBus_finalizeAccess_def split: if_splits bind_splits)

lemma handle_home:
  assumes top: "top_level cfg" and inv: "coh_inv cfg s" and ti: "top_inv s" and hi: "home_inv s"
    and g: "guard cfg s (Handle j)" and e: "exec cfg s (Handle j) = Some s'"
  shows "home_inv s'"
proof -
  obtain t where t: "txn s = Some t" "t_at t = AtSnoop" and j: "j \<in> t_todo t" using g by auto
  obtain r where T: "t_req t = Some r" "sr_needSnoop r" "req_ok r"
      "t_cnt t = Some (int (card (t_todo t) + ack_total cfg s))" using snoopD [OF inv t] by metis
  obtain r' l t' where x: "SMPCache_doReceiveFromBelow cfg j r (loc_at s j) = Some (r', l)"
      "bus_acks cfg (acked l) (t\<lparr>t_req := Some r', t_todo := t_todo t - {j}\<rparr>) = Some t'"
      "s' = (put_loc j l s)\<lparr>txn := Some t'\<rparr>"
    using e t(1) T(1) by (auto split: bind_splits)
  have h: "req_home r (t_todo t) (cbq s)" and d: "data_inv s" using hi t(1) T(1) by (simp_all add: home_inv_def)
  have ln: "ln (loc_at s j) = None \<or> valid (ln (loc_at s j)) \<or> busy (ln (loc_at s j))"
    using line_class [OF inv, of j] top_none [OF ti, of j] by auto
  have R: "put_ok (lines s j) l" "req_after j r r'" "is_read r \<longrightarrow> cbs l = []"
    using receive_home [OF top T(3) _ _ _ ln _ _ x(1)] h j by (auto simp: req_home_def loc_at_def loc_of_def)
  have r': "sr_memOp r' \<noteq> MemPush" "sr_needSnoop r'"
    using receive_req [OF x(1)] T(2,3) by (simp_all add: req_ok_def)
  have t': "t_req t' = Some r'" "t_todo t' = t_todo t - {j}"
    using bus_acks_req [OF x(2) _ _ r'] T(4) by simp_all
  have "req_home r' (t_todo t - {j}) (cbq s')"
    using h R(2,3) x(3) unfolding req_home_def req_after_def by auto
  moreover have "data_inv s'" by (rule put_data [OF d R(1)]) (simp_all add: x(3))
  ultimately show ?thesis using t' x(3) by (simp add: home_inv_def)
qed

lemma fire_home:
  assumes inv: "coh_inv cfg s" and ti: "top_inv s" and hi: "home_inv s"
    and g: "guard cfg s (Fire j)" and e: "exec cfg s (Fire j) = Some s'"
  shows "home_inv s'"
proof -
  have jn: "j < nCaches cfg" using g by simp
  obtain cb rest where cb: "cbq s j = cb # rest" using g by (cases "cbq s j") auto
  have "cb \<noteq> DoAllocateLine"
    using pend_class(1) [OF inv, of j] top_none [OF ti, of j] cb by auto
  then have sa: "cb = SendAck" by (cases cb) simp_all
  have "0 < ackp s j" using cb sa by (simp add: ackp_def)
  then have pos: "0 < ack_total cfg s" using ackp_le_total [OF jn, of s] by simp
  then obtain t where t: "txn s = Some t" using inv by (auto simp: coh_inv_def txn_inv_def split: option.splits)
  have at: "t_at t = AtSnoop"
    using inv t pos by (cases "t_at t") (auto simp: coh_inv_def txn_inv_def place_inv_def split: option.splits)
  obtain r where T: "t_req t = Some r" "sr_needSnoop r" "req_ok r"
      "t_cnt t = Some (int (card (t_todo t) + ack_total cfg s))" using snoopD [OF inv t at] by metis
  have h: "req_home r (t_todo t) (cbq s)" and d: "data_inv s" using hi t(1) T(1) by (simp_all add: home_inv_def)
  have nr: "\<not> is_read r" "\<not> sr_writeDown r" using h cb by (auto simp: req_home_def)
  let ?l = "SMPCache_respondBelow j r (loc_at s j)"
  obtain t' where x: "bus_acks cfg (acked ?l) t = Some t'"
      "s' = (put_loc j ?l (s\<lparr>cbq := (cbq s)(j := rest)\<rparr>))\<lparr>txn := Some t'\<rparr>"
    using e cb sa t T(1) by (auto simp: Let_def split: bind_splits)
  have t': "t_req t' = Some r" "t_todo t' = t_todo t" using bus_acks_req [OF x(1) _ T(1) _ T(2)] T(3,4) by (simp_all add: req_ok_def)
  have l: "?l = (loc_at s j)\<lparr>acked := acked (loc_at s j) + 1\<rparr>" using nr(2) by (intro respond_same) simp
  have "data_inv s'"
    by (rule put_data [OF d, of j ?l]) (simp_all add: x(2) l put_ok_def)
  moreover have "req_home r (t_todo t) (cbq s')" using h nr by (simp add: req_home_def)
  ultimately show ?thesis using t' x(2) by (simp add: home_inv_def)
qed

lemma evict_home:
  assumes top: "top_level cfg" and hi: "home_inv s" and inv: "coh_inv cfg s"
    and g: "guard cfg s (Evict j)" and e: "exec cfg s (Evict j) = Some s'"
  shows "home_inv s'"
proof -
  obtain st where st: "lines s j = Some st" "\<not> st_isLocked st" using g by auto
  have c: "st = MESI_SHARED \<or> st = MESI_EXCLUSIVE \<or> st = MESI_MODIFIED" using unlocked_valid [OF inv st] .
  obtain l where l: "SMPCache_allocateLine_victim cfg (loc_at s j) = Some l" "s' = put_loc j l s"
    using e by (auto split: bind_splits)
  have h: "isHighestLevel cfg" using top by (simp add: top_level_def)
  have p: "put_ok (lines s j) l \<and> cbs l = []" using c
  proof (elim disjE)
    assume m: "st = MESI_MODIFIED"
    have "l = (SMPCache_doWriteBack (loc_at s j))\<lparr>ln := None\<rparr>"
      using l(1) h st(1) m by (auto simp: SMPCache_allocateLine_victim_def split: bind_splits)
    then show ?thesis using st(1) m by (simp add: put_ok_def SMPCache_doWriteBack_def)
  next
    assume m: "st = MESI_SHARED"
    have "l = (loc_at s j)\<lparr>ln := None\<rparr>"
      using l(1) h st(1) m by (auto simp: SMPCache_allocateLine_victim_def split: bind_splits)
    then show ?thesis using st(1) m by (simp add: put_ok_def)
  next
    assume m: "st = MESI_EXCLUSIVE"
    have "l = (loc_at s j)\<lparr>ln := None\<rparr>"
      using l(1) h st(1) m by (auto simp: SMPCache_allocateLine_victim_def split: bind_splits)
    then show ?thesis using st(1) m by (simp add: put_ok_def)
  qed
  have d: "data_inv s" using hi by (simp add: home_inv_def)
  have "data_inv s'" by (rule put_data [OF d, of j l]) (simp_all add: l(2) p)
  moreover have "cbq s' = cbq s" "txn s' = txn s" by (simp_all add: l(2) p fun_upd_idem)
  ultimately show ?thesis using hi unfolding home_inv_def by simp
qed

subsection \<open>The response\<close>

lemma response_home:
  assumes top: "top_level cfg" and inv: "coh_inv cfg s" and ti: "top_inv s" and hi: "home_inv s"
    and g: "guard cfg s Response" and e: "exec cfg s Response = Some s'"
  shows "home_inv s'"
proof -
  obtain t where t: "txn s = Some t" "t_at t = AtOwner" using g by auto
  have at: "t_at t \<noteq> AtAlloc" using t(2) by simp
  obtain r where T: "t_req t = Some r" "req_ok r" "lines s (t_owner t) = Some (owner_line r)"
      "place_inv cfg s t r" "is_read r = (t_op t = MemRead)" using txnD [OF inv t(1) at] by metis
  have ns: "\<not> sr_needSnoop r \<longrightarrow> sr_state r = MESI_INVALID"
    using T(4) t(2) by (auto simp: place_inv_def alone_def)
  have ln: "ln (loc_at s (t_owner t)) = Some (owner_line r)" using T(3) by simp
  note ra = return_access [OF T(2) ln ns]
  have nd: "\<not> dirty (lines s (t_owner t))" using T(3) by simp
  have h: "req_home r (t_todo t) (cbq s)" and d: "data_inv s" using hi t(1) T(1) by (simp_all add: home_inv_def)
  have inv': "coh_inv cfg s'" "top_inv s'" using step_inv [OF inv g e] step_top [OF top inv ti g e] .
  show ?thesis
  proof (cases "sr_needSnoop r \<and> sr_needData r \<and> sr_state r = MESI_INVALID")
    case True
    let ?r = "r\<lparr>sr_needSnoop := False\<rparr>"
    have s': "lines s' = (lines s)(t_owner t := Some (owner_line ?r))" "home s' = home s" "cbq s' = cbq s"
        "txn s' = Some (t\<lparr>t_req := Some ?r, t_at := AtBus\<rparr>)"
      using e t(1) T(1) ra [unfolded if_P [OF True]] by (auto simp: SMPCache_sendBelow_def Let_def fun_upd_idem)
    have "data_inv s'" by (rule same_data [OF d nd _ s'(1,2)]) simp
    moreover have "req_home ?r (t_todo t) (cbq s)" using h by (simp add: req_home_def is_read_def)
    ultimately show ?thesis using s'(3,4) by (simp add: home_inv_def)
  next
    case False
    let ?st = "if is_read r then (if sr_needSnoop r then MESI_SHARED else MESI_EXCLUSIVE) else MESI_MODIFIED"
    have s': "lines s' = (lines s)(t_owner t := Some ?st)" "txn s' = None"
        "home s' = (if t_op t = MemRead then home s else written_by (t_owner t) (home s))"
      using e t(1) T(1) ra [unfolded if_not_P [OF False]] by (auto simp: SMPCache_concludeAccess_def Let_def)
    have "data_inv s'"
    proof (cases "is_read r")
      case True
      then show ?thesis using s' T(5) by (intro same_data [OF d nd _ s'(1)]) (auto simp: s'(3) T(5))
    next
      case wr: False
      have "home s \<noteq> Stale" using d by (simp add: data_inv_def)
      then show ?thesis using wr s' T(5) by (intro write_data [OF inv', of "t_owner t"]) (simp_all add: written_by_def)
    qed
    then show ?thesis using s'(2) by (simp add: home_inv_def)
  qed
qed

theorem step_home:
  assumes top: "top_level cfg" and inv: "coh_inv cfg s" and ti: "top_inv s" and hi: "home_inv s"
    and g: "guard cfg s e" and e: "exec cfg s e = Some s'"
  shows "home_inv s'"
proof (cases e)
  case (Request i m a)
  show ?thesis by (rule request_home [OF top inv ti hi g [unfolded Request] e [unfolded Request]])
next
  case (Grant i a)
  show ?thesis by (rule grant_home [OF inv ti hi g [unfolded Grant] e [unfolded Grant]])
next
  case Allocated
  show ?thesis by (rule allocated_home [OF inv ti hi g [unfolded Allocated] e [unfolded Allocated]])
next
  case BusCycle
  show ?thesis by (rule bus_cycle_home [OF inv hi g [unfolded BusCycle] e [unfolded BusCycle]])
next
  case (Handle j)
  show ?thesis by (rule handle_home [OF top inv ti hi g [unfolded Handle] e [unfolded Handle]])
next
  case (UpperAck j)
  then show ?thesis using g top by (simp add: top_level_def)
next
  case (Fire j)
  show ?thesis by (rule fire_home [OF inv ti hi g [unfolded Fire] e [unfolded Fire]])
next
  case (Evict j)
  show ?thesis by (rule evict_home [OF top hi inv g [unfolded Evict] e [unfolded Evict]])
next
  case MemReturn
  show ?thesis by (rule mem_return_home [OF inv ti hi g [unfolded MemReturn] e [unfolded MemReturn]])
next
  case Response
  show ?thesis by (rule response_home [OF top inv ti hi g [unfolded Response] e [unfolded Response]])
qed

theorem reachable_home: "reachable cfg s \<Longrightarrow> top_level cfg \<Longrightarrow> home_inv s"
proof (induction rule: reachable.induct)
  case init
  then show ?case by (simp add: home_inv_def data_inv_def coh_init_def)
next
  case (step s e s')
  then show ?case using step_home reachable_inv reachable_top by blast
qed

end
