(* ===== verification/Coherence_Properties.thy ===== *)
theory Coherence_Properties
  imports Coherence_Liveness Coherence_Home
begin

text \<open>
  The properties of the coherence protocol, for every number of caches and every order of
  events, with a run of two caches as the witness.
\<close>

subsection \<open>Two caches\<close>

definition top2 :: smp_config where
  "top2 = \<lparr>nCaches = 2, isHighestLevel = True, numUpper = 1\<rparr>"

definition lower2 :: smp_config where
  "lower2 = \<lparr>nCaches = 2, isHighestLevel = False, numUpper = 1\<rparr>"

text \<open>Cache 0 reads the line from memory, then cache 1 reads it from cache 0.\<close>

definition read_both :: "event list" where
  "read_both = [Request 0 MemRead (Some MESI_INVALID), BusCycle, Handle 1, Response, BusCycle,
     MemReturn, Response, Request 1 MemRead (Some MESI_INVALID), BusCycle, Handle 0, Response]"

text \<open>Cache 0 writes the shared line; cache 1 then wants it back.\<close>

definition write_first :: "event list" where
  "write_first = read_both @ [Request 0 MemWrite None, BusCycle, Handle 1, Fire 1, Response,
     Request 1 MemReadW (Some MESI_INVALID)]"

text \<open>
  Both caches want to write the shared line. While the request of cache 1 waits for the
  entry, the line is chosen as the victim for another address.
\<close>

definition upgrade_race :: "event list" where
  "upgrade_race = read_both @ [Request 0 MemWrite None, Request 1 MemWrite None, Evict 1,
     BusCycle, Handle 1, Response]"

lemmas run_simps = SMPCache_doRead_def SMPCache_doWrite_def mutExcl_def SMPSystemBus_access_def
  SMPSystemBus_doWrite_def coh_init_def read_both_def write_first_def upgrade_race_def start_def bus_step_def
  bus_acks_def put_loc_def loc_at_def loc_of_def MESI_read_def MESI_doRead_def MESI_write_def
  SMPMemRequest_create_def SMPCache_sendBelow_def SMPSystemBus_doRead_def
  SMPSystemBus_finalizeAccess_def SMPCache_doReceiveFromBelow_def readMissHandler_def
  writeMissHandler_def invalidateHandler_def combineResponses_def SMPCache_respondBelow_def
  SMPCache_doWriteBack_def SMPCache_invalidateLine_def SMPCache_doInvalidate_def
  SMPCache_realInvalidate_def SMPCacheState_invalidate_def SMPCache_returnAccess_def
  readMissAckHandler_def writeMissAckHandler_def invalidateAckHandler_def
  SMPCache_concludeAccess_def SMPCache_allocateLine_victim_def MESI_doWrite_def mutateWriteToRead_def

lemma reach_run:
  "run_events cfg coh_init es = Some s \<Longrightarrow> reachable cfg s"
  by (rule run_events_reachable [OF reachable.init])

lemma run_write_first:
  "\<exists>s. run_events top2 coh_init write_first = Some s \<and> lines s 0 = Some MESI_MODIFIED \<and>
    lines s 1 = Some MESI_TRANS_WR \<and> guard top2 s BusCycle"
  by (simp add: run_simps top2_def Let_def)

subsection \<open>One writer or many readers\<close>

text \<open>C6: In every state that caches and bus can reach, with any number of caches at any level
of the hierarchy, a line that one cache may write (state modified or exclusive) can be
neither read nor written in any other cache.\<close>

theorem coherence_one_writer:
  assumes "reachable cfg s" "i \<noteq> j" "lines s i = Some x" "st_canBeWritten x" "lines s j = Some y"
  shows "\<not> st_canBeRead y \<and> \<not> st_canBeWritten y"
proof -
  have inv: "coh_inv cfg s" using reachable_inv [OF assms(1)] .
  have "excl (lines s i)" using line_class [OF inv, of i] assms(3,4) by (auto simp: classes)
  then have "\<not> valid (Some y)" using swmrD [OF inv, of i j] assms(2,5) by simp
  then show ?thesis using line_class [OF inv, of j] assms(5) by (auto simp: classes)
qed

theorem coherence_one_writer_witness:
  "\<exists>s. reachable top2 s \<and> lines s 0 = Some MESI_MODIFIED \<and> lines s 1 = Some MESI_TRANS_WR \<and>
     \<not> st_canBeRead MESI_TRANS_WR \<and> \<not> st_canBeWritten MESI_TRANS_WR"
proof -
  obtain s where s: "run_events top2 coh_init write_first = Some s" "lines s 0 = Some MESI_MODIFIED"
      "lines s 1 = Some MESI_TRANS_WR" using run_write_first by blast
  have r: "reachable top2 s" using reach_run [OF s(1)] .
  have "\<not> st_canBeRead MESI_TRANS_WR \<and> \<not> st_canBeWritten MESI_TRANS_WR"
    by (rule coherence_one_writer [OF r _ s(2) _ s(3)]) simp_all
  then show ?thesis using r s by blast
qed

subsection \<open>The states of a line\<close>

text \<open>C23: A line that a cache holds is always in one of the nine states of the protocol between
two events, never in the reserved state or in any other 32-bit word; and it is in one of the
four states of a request under way only in the cache whose request has the shared MSHR
entry.\<close>

theorem coherence_line_states:
  assumes "reachable cfg s" "lines s j = Some st"
  shows "st \<in> {MESI_SHARED, MESI_EXCLUSIVE, MESI_MODIFIED, MESI_TRANS_INV, MESI_TRANS_INV_D} \<or>
    st \<in> {MESI_TRANS_RD, MESI_TRANS_RD_MEM, MESI_TRANS_WR, MESI_TRANS_WR_MEM} \<and>
      (\<exists>t. txn s = Some t \<and> t_owner t = j)"
proof -
  have inv: "coh_inv cfg s" using reachable_inv [OF assms(1)] .
  have c: "valid (Some st) \<or> inval (Some st) \<or> busy (Some st)"
    using line_class [OF inv, of j] assms(2) by simp
  have "\<exists>t. txn s = Some t \<and> t_owner t = j" if b: "busy (lines s j)"
  proof (cases "txn s")
    case None
    then show ?thesis using inv b by (simp add: coh_inv_def txn_inv_def)
  next
    case (Some t)
    then have "j \<noteq> t_owner t \<longrightarrow> \<not> busy (lines s j)" using inv by (simp add: coh_inv_def txn_inv_def)
    then show ?thesis using b Some by blast
  qed
  then show ?thesis using c assms(2) by (auto simp: classes)
qed

theorem coherence_line_states_witness:
  "\<exists>s. reachable top2 s \<and> lines s 1 = Some MESI_TRANS_WR \<and>
     (MESI_TRANS_WR \<in> {MESI_SHARED, MESI_EXCLUSIVE, MESI_MODIFIED, MESI_TRANS_INV, MESI_TRANS_INV_D} \<or>
      MESI_TRANS_WR \<in> {MESI_TRANS_RD, MESI_TRANS_RD_MEM, MESI_TRANS_WR, MESI_TRANS_WR_MEM} \<and>
      (\<exists>t. txn s = Some t \<and> t_owner t = 1))"
proof -
  obtain s where s: "run_events top2 coh_init write_first = Some s" "lines s 1 = Some MESI_TRANS_WR"
    using run_write_first by blast
  have r: "reachable top2 s" using reach_run [OF s(1)] .
  show ?thesis using r s(2) coherence_line_states [OF r s(2)] by blast
qed

subsection \<open>Modified data\<close>



text \<open>
  Below the highest level a write can be lost. Cache 0 has written the line, which is then
  chosen as the victim for another address; while its copies above are being invalidated, cache
  0 answers the write miss of cache 1 as if it had no line. Cache 1 gets the old data from
  memory and writes it, and both caches have dirty data, each without the write of the other.
\<close>

definition lost_write :: "event list" where
  "lost_write = [Request 0 MemReadW (Some MESI_INVALID), BusCycle, Handle 1, Response, BusCycle,
     MemReturn, Response, Evict 0, Request 1 MemReadW (Some MESI_INVALID), BusCycle, Handle 0, Response,
     BusCycle, MemReturn, Response]"

theorem coherence_lower_loses_write:
  "\<exists>s. run_events lower2 coh_init lost_write = Some s \<and> reachable lower2 s \<and> home s = Stale \<and>
     lines s 0 = Some MESI_TRANS_INV_D \<and> lines s 1 = Some MESI_MODIFIED"
proof -
  have "\<exists>s. run_events lower2 coh_init lost_write = Some s \<and> home s = Stale \<and>
     lines s 0 = Some MESI_TRANS_INV_D \<and> lines s 1 = Some MESI_MODIFIED"
    by (simp add: run_simps lower2_def Let_def lost_write_def written_by_def written_back_def fetched_def)
  then show ?thesis using reach_run by blast
qed

subsection \<open>Assertions\<close>



subsection \<open>Requests are served\<close>

text \<open>C7: A request under way at the highest level is finished after at most 2n + 6 of its own
events, for n caches, whatever else happens between them. In every reachable state with a
request some event of the request is possible; every event that is possible runs through;
one of the request lowers \<open>cost_at\<close>, which is at most 2n + 6, or concludes the request and
leaves its cache with the line in a state that lets it read, or write when it asked to write;
any other event leaves the request as it is. So there is also a sequence of at most 2n + 6
events that concludes it.\<close>

theorem coherence_request_completes:
  assumes "reachable cfg s" "isHighestLevel cfg" "numUpper cfg \<le> 1" "txn s = Some t"
  shows "cost_at cfg t \<le> 2 * nCaches cfg + 6 \<and>
    (\<exists>e. of_request e \<and> guard cfg s e) \<and>
    (\<forall>e. guard cfg s e \<longrightarrow> (\<exists>s'. exec cfg s e = Some s' \<and>
      (if of_request e then
         (case txn s' of
            None \<Rightarrow> granted s' (t_owner t) (t_op t)
          | Some t' \<Rightarrow> t_owner t' = t_owner t \<and> t_op t' = t_op t \<and> cost_at cfg t' < cost_at cfg t)
       else txn s' = txn s))) \<and>
    (\<exists>es s' st. length es \<le> 2 * nCaches cfg + 6 \<and> run_events cfg s es = Some s' \<and> txn s' = None \<and>
      lines s' (t_owner t) = Some st \<and> (if t_op t = MemRead then st_canBeRead st else st_canBeWritten st))"
proof -
  have top: "top_level cfg" using assms(2,3) by (simp add: top_level_def)
  have inv: "coh_inv cfg s" using reachable_inv [OF assms(1)] .
  note ti = reachable_top [OF assms(1) top]
  obtain es s' where "length es \<le> cost_at cfg t" "run_events cfg s es = Some s'" "txn s' = None"
      "granted s' (t_owner t) (t_op t)"
    using txn_completes [OF top inv ti assms(4)] by blast
  moreover note b = cost_bound [OF inv assms(4)]
  ultimately have "\<exists>es s' st. length es \<le> 2 * nCaches cfg + 6 \<and> run_events cfg s es = Some s' \<and> txn s' = None \<and>
      lines s' (t_owner t) = Some st \<and> (if t_op t = MemRead then st_canBeRead st else st_canBeWritten st)"
    unfolding granted_def by (meson le_trans)
  moreover have "\<exists>s'. exec cfg s e = Some s' \<and> (if of_request e then
         (case txn s' of
            None \<Rightarrow> granted s' (t_owner t) (t_op t)
          | Some t' \<Rightarrow> t_owner t' = t_owner t \<and> t_op t' = t_op t \<and> cost_at cfg t' < cost_at cfg t)
       else txn s' = txn s)" if "guard cfg s e" for e
    using event_advances [OF top inv ti assms(4) that] by (cases "of_request e") (auto simp: advances_def)
  ultimately show ?thesis using b request_event [OF inv ti assms(4)] by blast
qed

theorem coherence_request_completes_witness:
  "\<exists>s t. reachable top2 s \<and> txn s = Some t \<and> t_owner t = 1 \<and>
    (\<exists>es s' st. length es \<le> 10 \<and> run_events top2 s es = Some s' \<and> txn s' = None \<and>
      lines s' 1 = Some st \<and> (if t_op t = MemRead then st_canBeRead st else st_canBeWritten st))"
proof -
  have "\<exists>s t. run_events top2 coh_init write_first = Some s \<and> txn s = Some t \<and> t_owner t = 1"
    by (simp add: run_simps top2_def Let_def)
  then obtain s t where s: "run_events top2 coh_init write_first = Some s" "txn s = Some t" "t_owner t = 1"
    by blast
  have r: "reachable top2 s" using reach_run [OF s(1)] .
  have n: "2 * nCaches top2 + 6 = 10" by (simp add: top2_def)
  have "\<exists>es s' st. length es \<le> 2 * nCaches top2 + 6 \<and> run_events top2 s es = Some s' \<and> txn s' = None \<and>
      lines s' (t_owner t) = Some st \<and> (if t_op t = MemRead then st_canBeRead st else st_canBeWritten st)"
    using coherence_request_completes [OF r _ _ s(2)] by (simp add: top2_def)
  note c = this [unfolded n s(3)]
  show ?thesis by (intro exI [of _ s] exI [of _ t] conjI r s(2,3) c)
qed

subsection \<open>Below the highest level\<close>

text \<open>C36: Below the highest level an assertion can fail. Two caches share a line and both want to
write it. While the request of the second one waits for the MSHR entry, the line is chosen
as the victim for another address, and its copies above are being invalidated. When the
entry is free, \<open>MESIProtocol::write\<close> finds the line locked, which it asserts it is not.\<close>

theorem coherence_upgrade_race:
  "\<exists>s. run_events lower2 coh_init upgrade_race = Some s \<and> reachable lower2 s \<and>
     lines s 1 = Some MESI_TRANS_INV \<and> waiting s 1 = Some MemWrite \<and>
     guard lower2 s (Grant 1 None) \<and> exec lower2 s (Grant 1 None) = None"
proof -
  have "\<exists>s. run_events lower2 coh_init upgrade_race = Some s \<and>
     lines s 1 = Some MESI_TRANS_INV \<and> waiting s 1 = Some MemWrite \<and>
     guard lower2 s (Grant 1 None) \<and> exec lower2 s (Grant 1 None) = None"
    by (simp add: run_simps lower2_def Let_def)
  then show ?thesis using reach_run by blast
qed

end
