(* ===== verification/SCTable_Model.thy ===== *)
theory SCTable_Model
  imports Sesc_Prelude
begin

text \<open>
  The table of saturating counters of libsuc/SCTable.h and SCTable.cpp, from which the branch
  predictors are built. A counter is a \<open>uchar\<close>; an index is reduced by a mask, so only its
  low bits matter. An access outside of the table is \<open>None\<close>.
\<close>

record sctable =
  sizeMask :: "64 word"
  Saturate :: "8 word"
  MaxValue :: "8 word"
  counters :: "8 word list"

text \<open>
  The counters start on both sides of the threshold in turn. A size that is not a power of
  two or a number of bits out of range leaves the object without a table: \<open>None\<close>.
\<close>

fun flipflop_init :: "nat \<Rightarrow> 8 word \<Rightarrow> 8 word \<Rightarrow> 8 word list" where
  "flipflop_init 0 flipflop saturate = []"
| "flipflop_init (Suc n) flipflop saturate = flipflop # flipflop_init n (saturate - flipflop) saturate"

definition SCTable_new :: "nat \<Rightarrow> nat \<Rightarrow> sctable option" where
  "SCTable_new sz bits =
     (let saturate = (if 1 < bits then push_bit (bits - 1) 1 else 1) in
      if sz AND (sz - 1) \<noteq> 0 then None
      else if 7 < bits \<or> bits < 1 then None
      else Some \<lparr>sizeMask = word_of_int (int sz - 1), Saturate = saturate,
                 MaxValue = push_bit bits 1 - 1, counters = flipflop_init sz 1 saturate\<rparr>)"

definition sc_index :: "sctable \<Rightarrow> 64 word \<Rightarrow> nat" where
  "sc_index t cid = unat (cid AND sizeMask t)"

definition sc_entry :: "sctable \<Rightarrow> 64 word \<Rightarrow> (8 word) option" where
  "sc_entry t cid = (if sc_index t cid < length (counters t) then Some (counters t ! sc_index t cid) else None)"

definition sc_set :: "sctable \<Rightarrow> 64 word \<Rightarrow> 8 word \<Rightarrow> sctable" where
  "sc_set t cid v = t\<lparr>counters := (counters t)[sc_index t cid := v]\<rparr>"

definition SCTable_reset :: "64 word \<Rightarrow> bool \<Rightarrow> sctable \<Rightarrow> sctable option" where
  "SCTable_reset cid taken t = do {
     sc_entry t cid;
     Some (sc_set t cid (if taken then Saturate t else Saturate t - 1)) }"

definition SCTable_clear :: "64 word \<Rightarrow> sctable \<Rightarrow> sctable option" where
  "SCTable_clear cid t = do { sc_entry t cid; Some (sc_set t cid 0) }"

text \<open>\<open>update\<close>, and \<open>predict\<close> with two arguments, which returns the prediction before the update.\<close>

definition SCTable_update :: "64 word \<Rightarrow> bool \<Rightarrow> sctable \<Rightarrow> sctable option" where
  "SCTable_update cid taken t = do {
     entry \<leftarrow> sc_entry t cid;
     Some (if taken
           then if entry < MaxValue t then sc_set t cid (entry + 1) else t
           else if 0 < entry then sc_set t cid (entry - 1) else t) }"

definition SCTable_predict2 :: "64 word \<Rightarrow> bool \<Rightarrow> sctable \<Rightarrow> (bool \<times> sctable) option" where
  "SCTable_predict2 cid taken t = do {
     entry \<leftarrow> sc_entry t cid;
     let ptaken = (Saturate t \<le> entry);
     Some (ptaken, if taken
           then if entry < MaxValue t then sc_set t cid (entry + 1) else t
           else if 0 < entry then sc_set t cid (entry - 1) else t) }"

definition SCTable_predict :: "64 word \<Rightarrow> sctable \<Rightarrow> bool option" where
  "SCTable_predict cid t = do { entry \<leftarrow> sc_entry t cid; Some (Saturate t \<le> entry) }"

definition SCTable_isLowest :: "64 word \<Rightarrow> sctable \<Rightarrow> bool option" where
  "SCTable_isLowest cid t = do { entry \<leftarrow> sc_entry t cid; Some (entry = 0) }"

definition SCTable_isHighest :: "64 word \<Rightarrow> sctable \<Rightarrow> bool option" where
  "SCTable_isHighest cid t = do { entry \<leftarrow> sc_entry t cid; Some (entry = MaxValue t) }"

subsection \<open>Well-formed tables\<close>

text \<open>A table of \<open>2 ^ k\<close> counters of \<open>b\<close> bits.\<close>

definition sc_ok :: "nat \<Rightarrow> nat \<Rightarrow> sctable \<Rightarrow> bool" where
  "sc_ok k b t = (k < 64 \<and> 1 \<le> b \<and> b \<le> 7 \<and> sizeMask t = mask k \<and> length (counters t) = 2 ^ k \<and>
     unat (Saturate t) = 2 ^ (b - 1) \<and> unat (MaxValue t) = 2 ^ b - 1 \<and>
     (\<forall>v\<in>set (counters t). v \<le> MaxValue t))"

text \<open>The value of the counter of an index.\<close>

definition counter :: "sctable \<Rightarrow> 64 word \<Rightarrow> nat" where
  "counter t cid = unat (counters t ! sc_index t cid)"

lemma flipflop_length [simp]: "length (flipflop_init n f s) = n"
  by (induction n f s rule: flipflop_init.induct) simp_all

lemma flipflop_values: "v \<in> set (flipflop_init n f s) \<Longrightarrow> v = f \<or> v = s - f"
  by (induction n f s rule: flipflop_init.induct) auto

lemma flipflop_le: "f \<le> m \<Longrightarrow> s - f \<le> m \<Longrightarrow> v \<in> set (flipflop_init n f s) \<Longrightarrow> v \<le> m"
  using flipflop_values [of v n f s] by blast

lemma sc_index_less: "sc_ok k b t \<Longrightarrow> sc_index t cid < length (counters t)"
  by (simp add: sc_ok_def sc_index_def unsigned_take_bit_eq take_bit_nat_less_exp flip: take_bit_eq_mask)

lemma SCTable_new_ok:
  assumes "k < 64" "1 \<le> b" "b \<le> 7"
  shows "\<exists>t. SCTable_new (2 ^ k) b = Some t \<and> sc_ok k b t"
proof -
  let ?s = "if 1 < b then push_bit (b - 1) 1 else 1 :: 8 word"
  let ?t = "\<lparr>sizeMask = word_of_int (int (2 ^ k) - 1), Saturate = ?s, MaxValue = push_bit b 1 - 1,
    counters = flipflop_init (2 ^ k) 1 ?s\<rparr>"
  have "SCTable_new (2 ^ k) b = Some ?t"
    using assms(2,3) pow2_test_exp [of k] by (simp add: SCTable_new_def Let_def)
  moreover have b: "b \<in> {1, 2, 3, 4, 5, 6, 7}" using assms(2,3) by auto
  have "unat ?s = 2 ^ (b - 1)" using b by (elim insertE emptyE; simp)
  moreover have "unat (push_bit b 1 - 1 :: 8 word) = 2 ^ b - 1" using b by (elim insertE emptyE; simp)
  moreover have "1 \<le> (push_bit b 1 - 1 :: 8 word)" "?s - 1 \<le> (push_bit b 1 - 1 :: 8 word)"
    using b by (elim insertE emptyE; simp)+
  moreover have "word_of_int (int (2 ^ k) - 1) = (mask k :: 64 word)"
    by (simp add: mask_eq_exp_minus_1)
  ultimately show ?thesis
    using assms flipflop_le [of 1 "push_bit b 1 - 1" ?s _ "2 ^ k"] unfolding sc_ok_def
    by (intro exI [of _ ?t]) (simp only: sctable.simps flipflop_length, blast)
qed

text \<open>One outcome moves a counter one step, and no other.\<close>

definition sc_step :: "nat \<Rightarrow> bool \<Rightarrow> nat \<Rightarrow> nat" where
  "sc_step b taken n = (if taken then min (2 ^ b - 1) (n + 1) else n - 1)"

lemma sc_entry_ok: "sc_ok k b t \<Longrightarrow> sc_entry t cid = Some (counters t ! sc_index t cid)"
  by (simp add: sc_entry_def sc_index_less)

lemma sc_set_ok:
  assumes "sc_ok k b t" "v \<le> MaxValue t"
  shows "sc_ok k b (sc_set t cid v)"
  using assms set_update_subset_insert [of "counters t" "sc_index t cid" v]
  by (auto simp: sc_ok_def sc_set_def)

lemma sc_set_counter:
  assumes "sc_ok k b t"
  shows "counter (sc_set t cid v) c = (if sc_index t c = sc_index t cid then unat v else counter t c)"
  using sc_index_less [OF assms, of cid] by (simp add: counter_def sc_set_def sc_index_def)

lemma sc_set_index [simp]: "sc_index (sc_set t cid v) c = sc_index t c"
  by (simp add: sc_set_def sc_index_def)

definition sc_next :: "64 word \<Rightarrow> bool \<Rightarrow> sctable \<Rightarrow> sctable" where
  "sc_next cid taken t = (let entry = counters t ! sc_index t cid in
     if taken then if entry < MaxValue t then sc_set t cid (entry + 1) else t
     else if 0 < entry then sc_set t cid (entry - 1) else t)"

lemma entry_max: "sc_ok k b t \<Longrightarrow> counters t ! sc_index t cid \<le> MaxValue t"
  using sc_index_less [of k b t cid] by (auto simp: sc_ok_def)

lemma counter_max:
  assumes "sc_ok k b t"
  shows "counter t cid \<le> 2 ^ b - 1"
proof -
  have "unat (MaxValue t) = 2 ^ b - 1" using assms by (simp add: sc_ok_def)
  then show ?thesis using entry_max [OF assms, of cid] by (simp add: counter_def word_le_nat_alt)
qed

lemma unat_lt256: "unat (v :: 8 word) < 256"
  using unsigned_less [of v] by (simp add: take_bit_nat_less_exp)

lemma sc_next_ok:
  assumes ok: "sc_ok k b t"
  shows "sc_ok k b (sc_next cid taken t)"
    and "counter (sc_next cid taken t) c =
      (if sc_index t c = sc_index t cid then sc_step b taken (counter t cid) else counter t c)"
proof -
  let ?e = "counters t ! sc_index t cid"
  note le = entry_max [OF ok, of cid]
  have mx: "unat (MaxValue t) = 2 ^ b - 1" using ok by (simp add: sc_ok_def)
  have same: "counter t c = counter t cid" if "sc_index t c = sc_index t cid" using that by (simp add: counter_def)
  have "sc_ok k b (sc_next cid taken t) \<and> counter (sc_next cid taken t) c =
      (if sc_index t c = sc_index t cid then sc_step b taken (counter t cid) else counter t c)"
  proof (cases taken)
    case True
    show ?thesis
    proof (cases "?e < MaxValue t")
      case lt: True
      have "?e + 1 \<le> MaxValue t" using lt by (rule inc_le)
      moreover have "unat (MaxValue t) < 256" using unat_lt256 .
      then have "unat ?e + 1 < 256" using lt by (simp add: word_less_nat_alt)
      then have u: "unat (?e + 1) = unat ?e + 1" by (simp add: unat_word_ariths)
      moreover have "unat ?e < 2 ^ b - 1" using lt mx by (simp add: word_less_nat_alt)
      ultimately show ?thesis using True lt u sc_set_ok [OF ok] sc_set_counter [OF ok]
        by (simp add: sc_next_def sc_step_def counter_def Let_def)
    next
      case False
      then have "unat ?e = 2 ^ b - 1" using le mx by simp
      then show ?thesis using True False ok same
        by (simp add: sc_next_def sc_step_def Let_def) (simp add: counter_def)
    qed
  next
    case False
    show ?thesis
    proof (cases "0 < ?e")
      case gt: True
      then have u: "unat (?e - 1) = unat ?e - 1" by (simp add: unat_minus_one word_gt_0)
      then have "?e - 1 \<le> MaxValue t" using le by (simp add: word_le_nat_alt)
      then show ?thesis using False gt u sc_set_ok [OF ok] sc_set_counter [OF ok]
        by (simp add: sc_next_def sc_step_def counter_def Let_def)
    next
      case zero: False
      then have "unat ?e = 0" by (simp add: word_gt_0)
      then show ?thesis using False zero ok same
        by (simp add: sc_next_def sc_step_def Let_def) (simp add: counter_def)
    qed
  qed
  then show "sc_ok k b (sc_next cid taken t)" "counter (sc_next cid taken t) c =
      (if sc_index t c = sc_index t cid then sc_step b taken (counter t cid) else counter t c)" by simp_all
qed

lemma sc_next_index [simp]: "sc_index (sc_next cid taken t) c = sc_index t c"
  by (simp add: sc_next_def Let_def)

lemma SCTable_update_eq: "sc_ok k b t \<Longrightarrow> SCTable_update cid taken t = Some (sc_next cid taken t)"
  by (simp add: SCTable_update_def sc_entry_ok sc_next_def Let_def)

lemma saturate_le: "sc_ok k b t \<Longrightarrow> (Saturate t \<le> counters t ! sc_index t cid) = (2 ^ (b - 1) \<le> counter t cid)"
  by (simp add: sc_ok_def counter_def word_le_nat_alt)

lemma SCTable_predict2_eq:
  "sc_ok k b t \<Longrightarrow> SCTable_predict2 cid taken t = Some (2 ^ (b - 1) \<le> counter t cid, sc_next cid taken t)"
  by (simp add: SCTable_predict2_def sc_entry_ok sc_next_def saturate_le Let_def)

lemma SCTable_predict_eq:
  "sc_ok k b t \<Longrightarrow> SCTable_predict cid t = Some (2 ^ (b - 1) \<le> counter t cid)"
  by (simp add: SCTable_predict_def sc_entry_ok saturate_le)

lemma SCTable_reset_ok:
  assumes ok: "sc_ok k b t"
  shows "\<exists>t'. SCTable_reset cid taken t = Some t' \<and> sc_ok k b t' \<and>
    counter t' cid = (if taken then 2 ^ (b - 1) else 2 ^ (b - 1) - 1)"
proof -
  have b: "b \<in> {1, 2, 3, 4, 5, 6, 7}" using ok by (auto simp: sc_ok_def)
  have le: "(2::nat) ^ (b - 1) \<le> 2 ^ b - 1" using b by (elim insertE emptyE; simp)
  have s: "unat (Saturate t) = 2 ^ (b - 1)" "unat (MaxValue t) = 2 ^ b - 1" using ok by (simp_all add: sc_ok_def)
  have n: "unat (Saturate t - 1) = 2 ^ (b - 1) - 1"
    using s(1) by (metis power_not_zero unat_0 unat_minus_one zero_neq_numeral)
  have "Saturate t \<le> MaxValue t" "Saturate t - 1 \<le> MaxValue t"
    using s n le by (simp_all add: word_le_nat_alt)
  then show ?thesis using s(1) n sc_set_ok [OF ok] sc_set_counter [OF ok]
    by (simp add: SCTable_reset_def sc_entry_ok [OF ok])
qed

subsection \<open>Training\<close>

text \<open>A run of outcomes of one branch.\<close>

fun sc_train :: "64 word \<Rightarrow> bool list \<Rightarrow> sctable \<Rightarrow> (bool list \<times> sctable) option" where
  "sc_train cid [] t = Some ([], t)"
| "sc_train cid (taken # ts) t = do {
     (p, t1) \<leftarrow> SCTable_predict2 cid taken t;
     (ps, t2) \<leftarrow> sc_train cid ts t1;
     Some (p # ps, t2) }"

lemma sc_train_ok:
  assumes "sc_ok k b t"
  shows "\<exists>ps t'. sc_train cid ts t = Some (ps, t') \<and> sc_ok k b t' \<and> length ps = length ts \<and>
    counter t' cid = fold (sc_step b) ts (counter t cid) \<and> sc_index t' = sc_index t \<and>
    (\<forall>c. sc_index t c \<noteq> sc_index t cid \<longrightarrow> counter t' c = counter t c)"
  using assms
proof (induction ts arbitrary: t)
  case (Cons x ts)
  let ?t = "sc_next cid x t"
  note n = sc_next_ok [OF Cons.prems, of cid x]
  have idx: "sc_index ?t = sc_index t" by (simp add: fun_eq_iff)
  obtain ps t' where "sc_train cid ts ?t = Some (ps, t')" "sc_ok k b t'" "length ps = length ts"
      "counter t' cid = fold (sc_step b) ts (counter ?t cid)" "sc_index t' = sc_index ?t"
      "\<forall>c. sc_index ?t c \<noteq> sc_index ?t cid \<longrightarrow> counter t' c = counter ?t c"
    using Cons.IH [OF n(1)] by blast
  then show ?case using n(2) idx SCTable_predict2_eq [OF Cons.prems, of cid x] by simp
qed simp

lemma train_taken: "fold (sc_step b) (replicate n True) c = (if n = 0 then c else min (2 ^ b - 1) (c + n))"
proof (induction n arbitrary: c)
  case (Suc n)
  then show ?case by (cases n) (auto simp: sc_step_def)
qed simp

lemma train_not_taken: "fold (sc_step b) (replicate n False) c = c - n"
  by (induction n arbitrary: c) (simp_all add: sc_step_def)

text \<open>The number of outcomes \<open>taken\<close> until the counter predicts it.\<close>

definition sc_distance :: "nat \<Rightarrow> bool \<Rightarrow> nat \<Rightarrow> nat" where
  "sc_distance b taken c = (if taken then 2 ^ (b - 1) - c else c + 1 - 2 ^ (b - 1))"

lemma sc_distance_step:
  assumes "1 \<le> b" "c \<le> 2 ^ b - 1"
  shows "sc_distance b taken (sc_step b taken c) = sc_distance b taken c - 1"
    and "((2 ^ (b - 1) \<le> c) = taken) = (sc_distance b taken c = 0)"
    and "sc_distance b taken c \<le> 2 ^ (b - 1)"
proof -
  obtain m where m: "b = Suc m" using assms(1) by (cases b) auto
  obtain h where h: "(2::nat) ^ (b - 1) = Suc h" by (metis nat.exhaust power_not_zero zero_neq_numeral)
  then have B: "(2::nat) ^ b = Suc h + Suc h" by (simp add: m)
  show "sc_distance b taken (sc_step b taken c) = sc_distance b taken c - 1"
    using assms(2) unfolding sc_distance_def sc_step_def h B by (cases taken) auto
  show "((2 ^ (b - 1) \<le> c) = taken) = (sc_distance b taken c = 0)"
    unfolding sc_distance_def h by (cases taken) auto
  show "sc_distance b taken c \<le> 2 ^ (b - 1)"
    using assms(2) unfolding sc_distance_def h B by (cases taken) auto
qed

lemma sc_train_same:
  assumes "sc_ok k b t"
  shows "\<exists>ps t'. sc_train cid (replicate n taken) t = Some (ps, t') \<and> sc_ok k b t' \<and>
    length (filter (\<lambda>p. p \<noteq> taken) ps) = min n (sc_distance b taken (counter t cid)) \<and>
    sc_distance b taken (counter t' cid) = sc_distance b taken (counter t cid) - n \<and>
    (\<forall>c. sc_index t c \<noteq> sc_index t cid \<longrightarrow> counter t' c = counter t c)"
  using assms
proof (induction n arbitrary: t)
  case (Suc n)
  let ?t = "sc_next cid taken t" and ?d = "sc_distance b taken (counter t cid)"
  note nx = sc_next_ok [OF Suc.prems, of cid taken]
  have b: "1 \<le> b" using Suc.prems by (simp add: sc_ok_def)
  note st = sc_distance_step [OF b counter_max [OF Suc.prems, of cid], of taken]
  obtain ps t' where i: "sc_train cid (replicate n taken) ?t = Some (ps, t')" "sc_ok k b t'"
      "length (filter (\<lambda>p. p \<noteq> taken) ps) = min n (sc_distance b taken (counter ?t cid))"
      "sc_distance b taken (counter t' cid) = sc_distance b taken (counter ?t cid) - n"
      "\<forall>c. sc_index ?t c \<noteq> sc_index ?t cid \<longrightarrow> counter t' c = counter ?t c"
    using Suc.IH [OF nx(1)] by blast
  have d: "sc_distance b taken (counter ?t cid) = ?d - 1" using nx(2) [of cid] st(1) by simp
  let ?p = "2 ^ (b - 1) \<le> counter t cid"
  have e: "sc_train cid (replicate (Suc n) taken) t = Some (?p # ps, t')"
    using SCTable_predict2_eq [OF Suc.prems, of cid taken] i(1) by simp
  have "length (filter (\<lambda>p. p \<noteq> taken) (?p # ps)) = min (Suc n) ?d"
    using i(3) d st(2) by (cases "?p = taken") auto
  moreover have "sc_distance b taken (counter t' cid) = ?d - Suc n" using i(4) d by simp
  moreover have "\<forall>c. sc_index t c \<noteq> sc_index t cid \<longrightarrow> counter t' c = counter t c"
    using i(5) nx(2) by simp
  ultimately show ?case using e i(2) by blast
qed simp

end
