(* ===== verification/Branch_Model.thy ===== *)
theory Branch_Model
  imports SCTable_Model Cache_Model
begin

text \<open>
  The branch predictors of libcore/BPred.h and BPred.cpp: the return address stack, the
  branch target buffer and ten direction predictors, and \<open>BPredictor\<close>, which puts them
  together. Histories and instruction numbers are 64-bit words (\<open>HistoryType\<close>, \<open>ulong\<close>).

  A prediction returns the predictor in its new state. \<open>oracleID\<close> is the instruction that
  is really executed next. Array accesses out of range, null lines and failed assertions
  are \<open>None\<close>. Memory that the constructors leave uninitialised is a parameter of them.
  Energy counters are left out.
\<close>

subsection \<open>Instructions\<close>

datatype InstType = iOpInvalid | iALU | iMult | iDiv | iBJ | iLoad | iStore | fpALU | fpMult | fpDiv
  | iFence | iEvent

datatype InstSubType = iSubInvalid | iNop | iMemory | iFetchOp | iMemFence | iAcquire | iRelease
  | BJUncond | BJCall | BJRet | BJCond | iFake

text \<open>What the predictors read of an instruction.\<close>

record instruction =
  currentID :: "64 word"
  skipDelay :: nat
  getAddr :: "64 word"
  opcode :: InstType
  subCode :: InstSubType
  guessTaken :: bool

definition calcNextInstID :: "instruction \<Rightarrow> 64 word" where
  "calcNextInstID i = currentID i + of_nat (skipDelay i)"

definition isBranch :: "instruction \<Rightarrow> bool" where
  "isBranch i = (opcode i = iBJ)"

definition isBranchTaken :: "instruction \<Rightarrow> bool" where
  "isBranchTaken i = (subCode i = BJUncond)"

definition isFuncCall :: "instruction \<Rightarrow> bool" where
  "isFuncCall i = (subCode i = BJCall)"

definition isFuncRet :: "instruction \<Rightarrow> bool" where
  "isFuncRet i = (subCode i = BJRet)"

datatype PredType = CorrectPrediction | NoPrediction | NoBTBPrediction | MissPrediction

definition calcInstID :: "instruction \<Rightarrow> 64 word" where
  "calcInstID i = (let cid = currentID i in drop_bit 17 cid XOR cid)"

subsection \<open>Return address stack\<close>

text \<open>A null \<open>stack\<close> stands for an ideal stack; \<open>index\<close> is then not used.\<close>

record ras =
  RasSize :: nat
  stack :: "64 word list option"
  index :: int

definition BPRas_new :: "nat \<Rightarrow> (nat \<Rightarrow> 64 word) \<Rightarrow> ras option" where
  "BPRas_new rasSize junk = do {
     I_check (rasSize \<le> 128);
     Some (if rasSize = 0 then \<lparr>RasSize = 0, stack = None, index = 0\<rparr>
           else \<lparr>RasSize = rasSize, stack = Some (map junk [0..<rasSize]), index = 0\<rparr>) }"

definition BPRas_predict :: "instruction \<Rightarrow> 64 word \<Rightarrow> bool \<Rightarrow> ras \<Rightarrow> (PredType \<times> ras) option" where
  "BPRas_predict inst oracleID doUpdate r =
     (if isFuncRet inst then
        (case stack r of
           None \<Rightarrow> Some (CorrectPrediction, r)
         | Some st \<Rightarrow> do {
             I_check (oracleID \<noteq> 0);
             let r1 = (if doUpdate then
                         r\<lparr>index := if index r - 1 < 0 then int (RasSize r) - 1 else index r - 1\<rparr>
                       else r);
             top \<leftarrow> arr_get st (index r1);
             Some (if top = oracleID then CorrectPrediction else MissPrediction, r1) })
      else if isFuncCall inst then
        (case stack r of
           None \<Rightarrow> Some (NoPrediction, r)
         | Some st \<Rightarrow>
             if doUpdate then do {
               st' \<leftarrow> arr_set st (index r) (calcNextInstID inst);
               Some (NoPrediction,
                 r\<lparr>stack := Some st', index := if index r + 1 \<ge> int (RasSize r) then 0 else index r + 1\<rparr>) }
             else Some (NoPrediction, r))
      else Some (NoPrediction, r))"

subsection \<open>Branch target buffer\<close>

record btb_line =
  bt_tag :: nat
  bt_inst :: "64 word"

text \<open>\<open>BTBState\<close> inherits from \<open>StateGeneric\<close>.\<close>

definition BTBState :: "btb_line line_ops" where
  "BTBState = \<lparr>getTag = bt_tag, setTag = (\<lambda>a l. do { I_check (a \<noteq> 0); Some (l\<lparr>bt_tag := a\<rparr>) }),
     isValid = (\<lambda>l. bt_tag l \<noteq> 0), isLocked = (\<lambda>_. False),
     initialize = (\<lambda>l. l\<lparr>bt_tag := 0\<rparr>), invalidate = (\<lambda>l. l\<lparr>bt_tag := 0\<rparr>)\<rparr>"

text \<open>\<open>data\<close> is null when the configured size is zero. \<open>bt_build\<close> is the build.\<close>

record btb =
  bt_build :: build
  data :: "(cache_class \<times> btb_line cache) option"
  bt_nHit :: nat
  bt_nMiss :: nat

definition btb_hit :: "bool \<Rightarrow> btb \<Rightarrow> btb" where
  "btb_hit doUpdate b = (if doUpdate then b\<lparr>bt_nHit := bt_nHit b + 1\<rparr> else b)"

definition btb_miss :: "bool \<Rightarrow> btb \<Rightarrow> btb" where
  "btb_miss doUpdate b = (if doUpdate then b\<lparr>bt_nMiss := bt_nMiss b + 1\<rparr> else b)"

definition set_inst :: "nat \<Rightarrow> 64 word \<Rightarrow> btb_line cache \<Rightarrow> btb_line cache" where
  "set_inst i x c = c\<lparr>mem := (mem c)[i := (mem c ! i)\<lparr>bt_inst := x\<rparr>]\<rparr>"

definition BPBTB_updateOnly :: "instruction \<Rightarrow> 64 word \<Rightarrow> btb \<Rightarrow> btb option" where
  "BPBTB_updateOnly inst oracleID b =
     (case data b of
        None \<Rightarrow> Some b
      | Some (k, c) \<Rightarrow>
          let ntaken = (calcNextInstID inst = oracleID); key = unat (getAddr inst) in
          if ntaken then Some b
          else do {
            (r, c1) \<leftarrow> cache_fillLine1 BTBState (findLine2Replace k BTBState) c key;
            cl \<leftarrow> r;
            Some (b\<lparr>data := Some (k, set_inst cl oracleID c1)\<rparr>) })"

definition BPBTB_predict :: "instruction \<Rightarrow> 64 word \<Rightarrow> bool \<Rightarrow> btb \<Rightarrow> (PredType \<times> btb) option" where
  "BPBTB_predict inst oracleID doUpdate b =
     (let ntaken = (calcNextInstID inst = oracleID) in
      case data b of
        None \<Rightarrow> do {
          let b1 = btb_hit doUpdate b;
          I_check (oracleID \<noteq> 0);
          Some (if ntaken then NoBTBPrediction else CorrectPrediction, b1) }
      | Some (k, c) \<Rightarrow>
          let key = unat (getAddr inst) in
          if ntaken \<or> \<not> doUpdate then do {
            (r, c1) \<leftarrow> cache_readLine (findLineTag k (bt_build b) BTBState) c key;
            let b1 = b\<lparr>data := Some (k, c1)\<rparr>;
            case r of
              None \<Rightarrow> Some (NoBTBPrediction, btb_miss doUpdate b1)
            | Some cl \<Rightarrow>
                if bt_inst (mem c1 ! cl) = oracleID then Some (CorrectPrediction, btb_hit doUpdate b1)
                else Some (NoBTBPrediction, btb_miss doUpdate b1) }
          else do {
            (r, c1) \<leftarrow> cache_fillLine1 BTBState (findLine2Replace k BTBState) c key;
            cl \<leftarrow> r;
            let predictID = bt_inst (mem c1 ! cl);
            let b1 = b\<lparr>data := Some (k, set_inst cl oracleID c1)\<rparr>;
            if predictID = oracleID then Some (CorrectPrediction, btb_hit True b1)
            else Some (NoBTBPrediction, btb_miss True b1) })"

subsection \<open>Predictors without a table\<close>

definition BPOracle_predict :: "instruction \<Rightarrow> 64 word \<Rightarrow> bool \<Rightarrow> btb \<Rightarrow> (PredType \<times> btb) option" where
  "BPOracle_predict inst oracleID doUpdate b =
     (if calcNextInstID inst = oracleID then Some (CorrectPrediction, b)
      else BPBTB_predict inst oracleID doUpdate b)"

definition BPTaken_predict :: "instruction \<Rightarrow> 64 word \<Rightarrow> bool \<Rightarrow> btb \<Rightarrow> (PredType \<times> btb) option" where
  "BPTaken_predict inst oracleID doUpdate b =
     (if calcNextInstID inst = oracleID then Some (MissPrediction, b)
      else BPBTB_predict inst oracleID doUpdate b)"

definition BPNotTaken_predict :: "instruction \<Rightarrow> 64 word \<Rightarrow> PredType" where
  "BPNotTaken_predict inst oracleID =
     (if calcNextInstID inst = oracleID then CorrectPrediction else MissPrediction)"

text \<open>
  The end of every direction predictor: a wrong direction is a misprediction and trains the
  target buffer; a branch that is taken as predicted is up to the target buffer.
\<close>

definition bp_conclude ::
  "bool \<Rightarrow> bool \<Rightarrow> instruction \<Rightarrow> 64 word \<Rightarrow> bool \<Rightarrow> btb \<Rightarrow> (PredType \<times> btb) option" where
  "bp_conclude taken ptaken inst oracleID doUpdate b =
     (if taken \<noteq> ptaken then do {
        b1 \<leftarrow> (if doUpdate then BPBTB_updateOnly inst oracleID b else Some b);
        Some (MissPrediction, b1) }
      else if ptaken then BPBTB_predict inst oracleID doUpdate b
      else Some (CorrectPrediction, b))"

definition BPStatic_predict :: "instruction \<Rightarrow> 64 word \<Rightarrow> bool \<Rightarrow> btb \<Rightarrow> (PredType \<times> btb) option" where
  "BPStatic_predict inst oracleID doUpdate b =
     (let ptaken = guessTaken inst; taken = (calcNextInstID inst \<noteq> oracleID) in
      bp_conclude taken ptaken inst oracleID doUpdate b)"

subsection \<open>2bit\<close>

text \<open>Prediction from a table of counters, with the update when \<open>doUpdate\<close> is set.\<close>

definition sc_query :: "bool \<Rightarrow> 64 word \<Rightarrow> bool \<Rightarrow> sctable \<Rightarrow> (bool \<times> sctable) option" where
  "sc_query doUpdate cid taken t =
     (if doUpdate then SCTable_predict2 cid taken t
      else do { p \<leftarrow> SCTable_predict cid t; Some (p, t) })"

definition is_pow2 :: "nat \<Rightarrow> bool" where
  "is_pow2 n = (n AND (n - 1) = 0)"

record bp2bit =
  b2_btb :: btb
  b2_table :: sctable

text \<open>A configuration is a function from the names of its entries to their values.\<close>

definition BP2bit_new :: "btb \<Rightarrow> (string \<Rightarrow> nat) \<Rightarrow> bp2bit option" where
  "BP2bit_new b conf = do {
     t \<leftarrow> SCTable_new (conf ''size'') (conf ''bits'');
     I_check (is_pow2 (conf ''size'') \<and> 1 < conf ''size'' \<and> 1 \<le> conf ''bits'' \<and> conf ''bits'' \<le> 7);
     Some \<lparr>b2_btb = b, b2_table = t\<rparr> }"

definition BP2bit_predict ::
  "instruction \<Rightarrow> 64 word \<Rightarrow> bool \<Rightarrow> bp2bit \<Rightarrow> (PredType \<times> bp2bit) option" where
  "BP2bit_predict inst oracleID doUpdate s =
     (if isBranchTaken inst then do {
        (p, b) \<leftarrow> BPBTB_predict inst oracleID doUpdate (b2_btb s);
        Some (p, s\<lparr>b2_btb := b\<rparr>) }
      else do {
        let taken = (calcNextInstID inst \<noteq> oracleID);
        (ptaken, t) \<leftarrow> sc_query doUpdate (calcInstID inst) taken (b2_table s);
        (p, b) \<leftarrow> bp_conclude taken ptaken inst oracleID doUpdate (b2_btb s);
        Some (p, s\<lparr>b2_btb := b, b2_table := t\<rparr>) })"

subsection \<open>2level\<close>

text \<open>
  \<open>(1 << n) - 1\<close> in 32-bit \<open>int\<close>: the shift is undefined from \<open>n = 31\<close> on, although
  the constraints of some predictors admit up to 63.
\<close>

definition shift_mask :: "nat \<Rightarrow> (64 word) option" where
  "shift_mask n = (if n < 31 then Some (push_bit n 1 - 1) else None)"

record bp2level =
  l2_btb :: btb
  l1SizeMask :: "64 word"
  historySize :: nat
  historyMask :: "64 word"
  l2_globalTable :: sctable
  historyTable :: "64 word list"

definition BP2level_new :: "btb \<Rightarrow> (string \<Rightarrow> nat) \<Rightarrow> (nat \<Rightarrow> 64 word) \<Rightarrow> bp2level option" where
  "BP2level_new b conf junk = do {
     let l1Size = u16 (int (conf ''l1Size''));
     let hsize = u16 (int (conf ''historySize''));
     hmask \<leftarrow> shift_mask hsize;
     t \<leftarrow> SCTable_new (conf ''l2Size'') (conf ''l2Bits'');
     I_check (is_pow2 (conf ''l1Size'') \<and> conf ''l1Size'' \<le> 32768 \<and>
              1 \<le> conf ''historySize'' \<and> conf ''historySize'' \<le> 63 \<and>
              is_pow2 (conf ''l2Size'') \<and> 1 \<le> conf ''l2Bits'' \<and> conf ''l2Bits'' \<le> 7);
     I_check (is_pow2 l1Size);
     Some \<lparr>l2_btb = b, l1SizeMask = word_of_int (int l1Size - 1), historySize = hsize,
           historyMask = hmask, l2_globalTable = t, historyTable = map junk [0..<l1Size]\<rparr> }"

definition BP2level_predict ::
  "instruction \<Rightarrow> 64 word \<Rightarrow> bool \<Rightarrow> bp2level \<Rightarrow> (PredType \<times> bp2level) option" where
  "BP2level_predict inst oracleID doUpdate s =
     (if isBranchTaken inst then do {
        (p, b) \<leftarrow> BPBTB_predict inst oracleID doUpdate (l2_btb s);
        Some (p, s\<lparr>l2_btb := b\<rparr>) }
      else do {
        let taken = (calcNextInstID inst \<noteq> oracleID);
        let iID = calcInstID inst;
        let l1Index = take_bit 16 (iID AND l1SizeMask s);
        l2Index \<leftarrow> arr_get (historyTable s) (uint l1Index);
        let hist = (if doUpdate
          then (historyTable s)[unat l1Index :=
            (push_bit 1 l2Index OR ((drop_bit 2 iID AND 1) XOR (if taken then 1 else 0))) AND historyMask s]
          else historyTable s);
        let l2Index' = ((l2Index XOR iID) AND historyMask s) OR push_bit (historySize s) iID;
        (ptaken, t) \<leftarrow> sc_query doUpdate l2Index' taken (l2_globalTable s);
        (p, b) \<leftarrow> bp_conclude taken ptaken inst oracleID doUpdate (l2_btb s);
        Some (p, s\<lparr>l2_btb := b, l2_globalTable := t, historyTable := hist\<rparr>) })"

end
