(* ===== verification/Branch_Tables.thy ===== *)
theory Branch_Tables
  imports Branch_Model
begin

text \<open>
  The predictors of libcore/BPred.cpp with several tables: A21264, Hybrid, 2BcgSkew and
  yags, the choice of a predictor by its name, and \<open>BPredictor\<close>.
\<close>

subsection \<open>A21264 and Hybrid\<close>

text \<open>The two classes have the same members.\<close>

record tournament =
  h_btb :: btb
  gHistMask :: "64 word"
  lHistMask :: "64 word"
  bhtSize :: nat
  bhtMask :: "64 word"
  mMask :: "64 word"
  ghr :: "64 word"
  bht :: "64 word list"
  localTable :: sctable
  globalTable :: sctable
  metaTable :: sctable

text \<open>
  The constructors: sizes and \<open>bhtMask\<close> are \<open>ushort\<close> in A21264 and 64 bits wide in Hybrid, where the
  loop that clears the table counts in \<open>ushort\<close> and ends only for sizes below \<open>2 ^ 16\<close>.
  \<open>ghr\<close> is not initialised by either.
\<close>

definition tournament_new ::
  "(nat \<Rightarrow> nat) \<Rightarrow> (int \<Rightarrow> 64 word) \<Rightarrow> btb \<Rightarrow> (string \<Rightarrow> nat) \<Rightarrow> 64 word \<Rightarrow> tournament option" where
  "tournament_new narrow toMask b conf junk = do {
     let gsize = narrow (conf ''gHistSize'');
     let lsize = narrow (conf ''lHistSize'');
     let bsize = narrow (conf ''bhtSize'');
     gm \<leftarrow> shift_mask gsize;
     lm \<leftarrow> shift_mask lsize;
     lt \<leftarrow> SCTable_new (2 ^ lsize) (conf ''lBits'');
     gt \<leftarrow> SCTable_new (2 ^ gsize) (conf ''gBits'');
     mt \<leftarrow> SCTable_new (conf ''mSize'') (conf ''mBits'');
     I_check (1 \<le> conf ''lBits'' \<and> conf ''lBits'' \<le> 7 \<and> 1 \<le> conf ''gBits'' \<and> conf ''gBits'' \<le> 7 \<and>
              is_pow2 (conf ''mSize'') \<and> is_pow2 (conf ''bhtSize'') \<and>
              1 \<le> conf ''mBits'' \<and> conf ''mBits'' \<le> 7);
     I_check (bsize < 2 ^ 16);
     Some \<lparr>h_btb = b, gHistMask = gm, lHistMask = lm, bhtSize = bsize,
           bhtMask = toMask (int bsize - 1), mMask = word_of_int (int (conf ''mSize'') - 1),
           ghr = junk, bht = replicate bsize 0, localTable = lt, globalTable = gt, metaTable = mt\<rparr> }"

definition BPA21264_new :: "btb \<Rightarrow> (string \<Rightarrow> nat) \<Rightarrow> 64 word \<Rightarrow> tournament option" where
  "BPA21264_new = tournament_new (\<lambda>n. u16 (int n)) (\<lambda>z. of_nat (u16 z))"

definition BPHybrid_new :: "btb \<Rightarrow> (string \<Rightarrow> nat) \<Rightarrow> 64 word \<Rightarrow> tournament option" where
  "BPHybrid_new = tournament_new (\<lambda>n. n) word_of_int"

text \<open>
  The second half of both \<open>predict\<close> functions: the tables are asked (and trained), and the
  meta table, which learns from the cases where the two disagree, chooses between them.
\<close>

definition tournament_choose ::
  "64 word \<Rightarrow> 64 word \<Rightarrow> 64 word \<Rightarrow> bool \<Rightarrow> instruction \<Rightarrow> 64 word \<Rightarrow> bool \<Rightarrow> tournament \<Rightarrow>
   (PredType \<times> tournament) option" where
  "tournament_choose globalIndex localL2Index metaIndex taken inst oracleID doUpdate s = do {
     (globalTaken, gt) \<leftarrow> sc_query doUpdate globalIndex taken (globalTable s);
     (localTaken, lt) \<leftarrow> sc_query doUpdate localL2Index taken (localTable s);
     (metaOut, mt) \<leftarrow>
       (if \<not> doUpdate then sc_query False metaIndex taken (metaTable s)
        else if globalTaken = taken \<and> localTaken \<noteq> taken then SCTable_predict2 metaIndex False (metaTable s)
        else if globalTaken \<noteq> taken \<and> localTaken = taken then SCTable_predict2 metaIndex True (metaTable s)
        else sc_query False metaIndex taken (metaTable s));
     let ptaken = (if metaOut then localTaken else globalTaken);
     (p, b) \<leftarrow> bp_conclude taken ptaken inst oracleID doUpdate (h_btb s);
     Some (p, s\<lparr>h_btb := b, globalTable := gt, localTable := lt, metaTable := mt\<rparr>) }"

definition shift_in :: "64 word \<Rightarrow> bool \<Rightarrow> 64 word" where
  "shift_in h taken = push_bit 1 h OR (if taken then 1 else 0)"

text \<open>A21264 updates the history of entry \<open>localL2Index\<close>, not of entry \<open>localL1Index\<close>.\<close>

definition BPA21264_predict ::
  "instruction \<Rightarrow> 64 word \<Rightarrow> bool \<Rightarrow> tournament \<Rightarrow> (PredType \<times> tournament) option" where
  "BPA21264_predict inst oracleID doUpdate s =
     (if isBranchTaken inst then do {
        (p, b) \<leftarrow> BPBTB_predict inst oracleID doUpdate (h_btb s);
        Some (p, s\<lparr>h_btb := b\<rparr>) }
      else do {
        let taken = (calcNextInstID inst \<noteq> oracleID);
        let iID = calcInstID inst;
        let globalIndex = ghr s AND gHistMask s;
        let localL1Index = iID AND bhtMask s;
        h \<leftarrow> arr_get (bht s) (uint localL1Index);
        let localL2Index = h AND lHistMask s;
        let metaIndex = iID AND mMask s;
        s1 \<leftarrow> (if doUpdate then do {
                  old \<leftarrow> arr_get (bht s) (uint localL2Index);
                  bht' \<leftarrow> arr_set (bht s) (uint localL2Index) (shift_in old taken);
                  Some (s\<lparr>ghr := shift_in (ghr s) taken, bht := bht'\<rparr>) }
                else Some s);
        tournament_choose globalIndex localL2Index metaIndex taken inst oracleID doUpdate s1 })"

definition BPHybrid_predict ::
  "instruction \<Rightarrow> 64 word \<Rightarrow> bool \<Rightarrow> tournament \<Rightarrow> (PredType \<times> tournament) option" where
  "BPHybrid_predict inst oracleID doUpdate s =
     (if isBranchTaken inst then do {
        (p, b) \<leftarrow> BPBTB_predict inst oracleID doUpdate (h_btb s);
        Some (p, s\<lparr>h_btb := b\<rparr>) }
      else do {
        let taken = (calcNextInstID inst \<noteq> oracleID);
        let iID = signed_drop_bit 2 (getAddr inst);
        let globalIndex = ghr s AND gHistMask s;
        let localL1Index = iID AND bhtMask s;
        h \<leftarrow> arr_get (bht s) (uint localL1Index);
        let localL2Index = h AND lHistMask s;
        let metaIndex = iID AND mMask s;
        s1 \<leftarrow> (if doUpdate then do {
                  bht' \<leftarrow> arr_set (bht s) (uint localL1Index) (shift_in h taken);
                  Some (s\<lparr>ghr := shift_in (ghr s) taken, bht := bht'\<rparr>) }
                else Some s);
        tournament_choose globalIndex localL2Index metaIndex taken inst oracleID doUpdate s1 })"

subsection \<open>2BcgSkew\<close>

record skew =
  k_btb :: btb
  BIM :: sctable
  G0 :: sctable
  G0HistorySize :: nat
  G0HistoryMask :: "64 word"
  G1 :: sctable
  G1HistorySize :: nat
  G1HistoryMask :: "64 word"
  k_meta :: sctable
  MetaHistorySize :: nat
  MetaHistoryMask :: "64 word"
  k_history :: "64 word"

definition BP2BcgSkew_new :: "btb \<Rightarrow> (string \<Rightarrow> nat) \<Rightarrow> skew option" where
  "BP2BcgSkew_new b conf = do {
     bim \<leftarrow> SCTable_new (conf ''BIMSize'') 2;
     g0 \<leftarrow> SCTable_new (conf ''G0Size'') 2;
     let h0 = u16 (int (conf ''G0HistorySize''));
     m0 \<leftarrow> shift_mask h0;
     g1 \<leftarrow> SCTable_new (conf ''G1Size'') 2;
     let h1 = u16 (int (conf ''G1HistorySize''));
     m1 \<leftarrow> shift_mask h1;
     meta \<leftarrow> SCTable_new (conf ''MetaSize'') 2;
     let hm = u16 (int (conf ''MetaHistorySize''));
     mm \<leftarrow> shift_mask hm;
     I_check (\<forall>n\<in>{''BIMSize'', ''G0Size'', ''G1Size'', ''MetaSize''}. is_pow2 (conf n) \<and> 1 < conf n);
     I_check (\<forall>n\<in>{''G0HistorySize'', ''G1HistorySize'', ''MetaHistorySize''}. 1 \<le> conf n \<and> conf n \<le> 63);
     Some \<lparr>k_btb = b, BIM = bim, G0 = g0, G0HistorySize = h0, G0HistoryMask = m0,
           G1 = g1, G1HistorySize = h1, G1HistoryMask = m1,
           k_meta = meta, MetaHistorySize = hm, MetaHistoryMask = mm, k_history = 0x55555555\<rparr> }"

definition majority :: "bool \<Rightarrow> bool \<Rightarrow> bool \<Rightarrow> bool" where
  "majority a b c = (of_bool a + of_bool b + of_bool c \<ge> (2::nat))"

text \<open>The training after a misprediction: all three tables, then the meta table.\<close>

definition skew_correct ::
  "64 word \<Rightarrow> 64 word \<Rightarrow> 64 word \<Rightarrow> 64 word \<Rightarrow> bool \<Rightarrow> skew \<Rightarrow> skew option" where
  "skew_correct iID G0Index G1Index metaIndex taken s = do {
     (_, bim) \<leftarrow> SCTable_predict2 iID taken (BIM s);
     (_, g0) \<leftarrow> SCTable_predict2 G0Index taken (G0 s);
     (_, g1) \<leftarrow> SCTable_predict2 G1Index taken (G1 s);
     BIMOut \<leftarrow> SCTable_predict iID bim;
     G0Out \<leftarrow> SCTable_predict G0Index g0;
     G1Out \<leftarrow> SCTable_predict G1Index g1;
     let gskewOut = majority G0Out G1Out BIMOut;
     meta \<leftarrow> (if BIMOut \<noteq> gskewOut then map_option snd (SCTable_predict2 metaIndex (BIMOut = taken) (k_meta s))
             else SCTable_reset metaIndex (BIMOut = taken) (k_meta s));
     Some (s\<lparr>BIM := bim, G0 := g0, G1 := g1, k_meta := meta\<rparr>) }"

text \<open>The training after a correct prediction: the tables that agreed.\<close>

definition train_if :: "bool \<Rightarrow> 64 word \<Rightarrow> bool \<Rightarrow> sctable \<Rightarrow> sctable option" where
  "train_if c cid taken t = (if c then map_option snd (SCTable_predict2 cid taken t) else Some t)"

definition skew_confirm ::
  "64 word \<Rightarrow> 64 word \<Rightarrow> 64 word \<Rightarrow> 64 word \<Rightarrow> bool \<Rightarrow> bool \<Rightarrow> bool \<Rightarrow> bool \<Rightarrow> bool \<Rightarrow> skew \<Rightarrow> skew option" where
  "skew_confirm iID G0Index G1Index metaIndex taken metaOut BIMOut G0Out G1Out s = do {
     bim \<leftarrow> train_if (metaOut \<or> BIMOut = taken) iID taken (BIM s);
     g0 \<leftarrow> train_if (\<not> metaOut \<and> G0Out = taken) G0Index taken (G0 s);
     g1 \<leftarrow> train_if (\<not> metaOut \<and> G1Out = taken) G1Index taken (G1 s);
     meta \<leftarrow> train_if (BIMOut \<noteq> majority G0Out G1Out BIMOut) metaIndex (BIMOut = taken) (k_meta s);
     Some (s\<lparr>BIM := bim, G0 := g0, G1 := g1, k_meta := meta,
             k_history := push_bit 1 (k_history s) OR ((drop_bit 2 iID AND 1) XOR (if taken then 1 else 0))\<rparr>) }"

definition BP2BcgSkew_predict ::
  "instruction \<Rightarrow> 64 word \<Rightarrow> bool \<Rightarrow> skew \<Rightarrow> (PredType \<times> skew) option" where
  "BP2BcgSkew_predict inst oracleID doUpdate s =
     (if isBranchTaken inst then do {
        (p, b) \<leftarrow> BPBTB_predict inst oracleID doUpdate (k_btb s);
        Some (p, s\<lparr>k_btb := b\<rparr>) }
      else do {
        let iID = calcInstID inst;
        let taken = (calcNextInstID inst \<noteq> oracleID);
        let xorKey1 = k_history s XOR iID;
        let xorKey2 = k_history s XOR drop_bit 2 iID;
        let xorKey3 = k_history s XOR drop_bit 4 iID;
        let metaIndex = (xorKey1 AND MetaHistoryMask s) OR push_bit (MetaHistorySize s) iID;
        let G0Index = (xorKey2 AND G0HistoryMask s) OR push_bit (G0HistorySize s) iID;
        let G1Index = (xorKey3 AND G1HistoryMask s) OR push_bit (G1HistorySize s) iID;
        metaOut \<leftarrow> SCTable_predict metaIndex (k_meta s);
        BIMOut \<leftarrow> SCTable_predict iID (BIM s);
        G0Out \<leftarrow> SCTable_predict G0Index (G0 s);
        G1Out \<leftarrow> SCTable_predict G1Index (G1 s);
        let gskewOut = majority G0Out G1Out BIMOut;
        let ptaken = (if metaOut then BIMOut else gskewOut);
        if ptaken \<noteq> taken then
          if \<not> doUpdate then Some (MissPrediction, s)
          else do {
            s1 \<leftarrow> skew_correct iID G0Index G1Index metaIndex taken s;
            b \<leftarrow> BPBTB_updateOnly inst oracleID (k_btb s);
            Some (MissPrediction, s1\<lparr>k_btb := b\<rparr>) }
        else do {
          s1 \<leftarrow> (if doUpdate then skew_confirm iID G0Index G1Index metaIndex taken metaOut BIMOut G0Out G1Out s
                else Some s);
          if ptaken then do {
            (p, b) \<leftarrow> BPBTB_predict inst oracleID doUpdate (k_btb s);
            Some (p, s1\<lparr>k_btb := b\<rparr>) }
          else Some (CorrectPrediction, s1) } })"

subsection \<open>yags\<close>

record yags =
  y_btb :: btb
  y_historySize :: nat
  y_historyMask :: "64 word"
  choice_table :: sctable
  ctableTaken :: sctable
  ctableNotTaken :: sctable
  y_ghr :: "64 word"
  CacheTaken :: "8 word list"
  CacheTakenMask :: "64 word"
  CacheTakenTagMask :: "64 word"
  CacheNotTaken :: "8 word list"
  CacheNotTakenMask :: "64 word"
  CacheNotTakenTagMask :: "64 word"

text \<open>
  The constraints of the source ask for powers of two in \<open>l1bits\<close> and \<open>l2bits\<close>, and test
  \<open>size\<close> twice; nothing constrains \<open>l1size\<close> to a power of two, nor \<open>l2size\<close> from below.
\<close>

definition BPyags_new ::
  "btb \<Rightarrow> (string \<Rightarrow> nat) \<Rightarrow> 64 word \<Rightarrow> (nat \<Rightarrow> 8 word) \<Rightarrow> (nat \<Rightarrow> 8 word) \<Rightarrow> yags option" where
  "BPyags_new b conf junk junk1 junk2 = do {
     t \<leftarrow> SCTable_new (conf ''size'') (conf ''bits'');
     t1 \<leftarrow> SCTable_new (conf ''l1size'') (conf ''l1bits'');
     t2 \<leftarrow> SCTable_new (conf ''l2size'') (conf ''l2bits'');
     I_check (is_pow2 (conf ''size'') \<and> 1 < conf ''size'' \<and> 1 \<le> conf ''bits'' \<and> conf ''bits'' \<le> 7);
     I_check (is_pow2 (conf ''l1bits'') \<and> 1 < conf ''l1size'' \<and> 1 \<le> conf ''l1bits'' \<and> conf ''l1bits'' \<le> 7);
     I_check (is_pow2 (conf ''l2bits'') \<and> 1 < conf ''size'' \<and> 1 \<le> conf ''l2bits'' \<and> conf ''l2bits'' \<le> 7);
     I_check (1 \<le> conf ''tagbits'' \<and> conf ''tagbits'' \<le> 7);
     Some \<lparr>y_btb = b, y_historySize = 24, y_historyMask = push_bit 24 1 - 1,
           choice_table = t, ctableTaken = t1, ctableNotTaken = t2, y_ghr = junk,
           CacheTaken = map junk1 [0..<conf ''l1size''],
           CacheTakenMask = word_of_int (int (conf ''l1size'') - 1),
           CacheTakenTagMask = push_bit (conf ''tagbits'') 1 - 1,
           CacheNotTaken = map junk2 [0..<conf ''l2size''],
           CacheNotTakenMask = word_of_int (int (conf ''l2size'') - 1),
           CacheNotTakenTagMask = push_bit (conf ''tagbits'') 1 - 1\<rparr> }"

text \<open>
  The two direction caches. On a miss with the other outcome the branch gets an entry; the
  cache of branches that are not taken then trains the counter at \<open>iID\<close>, although it is
  read at \<open>iIDHist\<close>.
\<close>

definition yags_choice_taken ::
  "64 word \<Rightarrow> 64 word \<Rightarrow> bool \<Rightarrow> bool \<Rightarrow> yags \<Rightarrow> (bool \<times> yags) option" where
  "yags_choice_taken iID iIDHist taken doUpdate s = do {
     let cacheIndex = iIDHist AND CacheNotTakenMask s;
     let tag = iID AND CacheNotTakenTagMask s;
     entry \<leftarrow> arr_get (CacheNotTaken s) (uint cacheIndex);
     let store = (CacheNotTaken s)[unat cacheIndex := ucast tag];
     if ucast entry = tag then
       if doUpdate then do {
         (ptaken, t) \<leftarrow> SCTable_predict2 iIDHist taken (ctableNotTaken s);
         Some (ptaken, s\<lparr>CacheNotTaken := store, ctableNotTaken := t\<rparr>) }
       else do {
         ptaken \<leftarrow> SCTable_predict iIDHist (ctableNotTaken s);
         Some (ptaken, s) }
     else if doUpdate \<and> \<not> taken then do {
       (_, t) \<leftarrow> SCTable_predict2 iID taken (ctableNotTaken s);
       Some (True, s\<lparr>CacheNotTaken := store, ctableNotTaken := t\<rparr>) }
     else Some (True, s) }"

definition yags_choice_not_taken ::
  "64 word \<Rightarrow> 64 word \<Rightarrow> bool \<Rightarrow> bool \<Rightarrow> yags \<Rightarrow> (bool \<times> yags) option" where
  "yags_choice_not_taken iID iIDHist taken doUpdate s = do {
     let cacheIndex = iIDHist AND CacheTakenMask s;
     let tag = iID AND CacheTakenTagMask s;
     entry \<leftarrow> arr_get (CacheTaken s) (uint cacheIndex);
     let store = (CacheTaken s)[unat cacheIndex := ucast tag];
     if ucast entry = tag then
       if doUpdate then do {
         (ptaken, t) \<leftarrow> SCTable_predict2 iIDHist taken (ctableTaken s);
         Some (ptaken, s\<lparr>CacheTaken := store, ctableTaken := t\<rparr>) }
       else do {
         ptaken \<leftarrow> SCTable_predict iIDHist (ctableTaken s);
         Some (ptaken, s) }
     else if doUpdate \<and> taken then do {
       (_, t) \<leftarrow> SCTable_predict2 iIDHist taken (ctableTaken s);
       Some (False, s\<lparr>CacheTaken := store, ctableTaken := t\<rparr>) }
     else Some (False, s) }"

definition BPyags_predict ::
  "instruction \<Rightarrow> 64 word \<Rightarrow> bool \<Rightarrow> yags \<Rightarrow> (PredType \<times> yags) option" where
  "BPyags_predict inst oracleID doUpdate s =
     (if isBranchTaken inst then do {
        (p, b) \<leftarrow> BPBTB_predict inst oracleID doUpdate (y_btb s);
        Some (p, s\<lparr>y_btb := b\<rparr>) }
      else do {
        let taken = (calcNextInstID inst \<noteq> oracleID);
        let iID = calcInstID inst;
        let s1 = (if doUpdate then s\<lparr>y_ghr :=
            (push_bit 1 (y_ghr s) OR ((drop_bit 2 iID AND 1) XOR (if taken then 1 else 0))) AND y_historyMask s\<rparr>
          else s);
        (choice, t) \<leftarrow> sc_query doUpdate iID taken (choice_table s);
        let s2 = s1\<lparr>choice_table := t\<rparr>;
        let iIDHist = ((y_ghr s XOR iID) AND y_historyMask s) OR push_bit (y_historySize s) iID;
        (ptaken, s3) \<leftarrow> (if choice then yags_choice_taken iID iIDHist taken doUpdate s2
                         else yags_choice_not_taken iID iIDHist taken doUpdate s2);
        (p, b) \<leftarrow> bp_conclude taken ptaken inst oracleID doUpdate (y_btb s3);
        Some (p, s3\<lparr>y_btb := b\<rparr>) })"

subsection \<open>The choice of the predictor\<close>

datatype bpred =
  Oracle btb | NotTaken | Taken btb | Static btb | TwoBit bp2bit | TwoLevel bp2level
| Skew skew | Hybrid tournament | Yags yags | A21264 tournament

text \<open>What the constructors read besides the configuration: uninitialised memory.\<close>

record bp_junk =
  j_history :: "nat \<Rightarrow> 64 word"
  j_ghr :: "64 word"
  j_cache :: "nat \<Rightarrow> 8 word"
  j_cache2 :: "nat \<Rightarrow> 8 word"

definition strcasecmp_eq :: "string \<Rightarrow> string \<Rightarrow> bool" where
  "strcasecmp_eq s t = (map tolower s = map tolower t)"

definition BPredictor_getBPred :: "string \<Rightarrow> btb \<Rightarrow> (string \<Rightarrow> nat) \<Rightarrow> bp_junk \<Rightarrow> bpred option" where
  "BPredictor_getBPred type b conf j =
     (if strcasecmp_eq type ''oracle'' then Some (Oracle b)
      else if strcasecmp_eq type ''NotTaken'' then Some NotTaken
      else if strcasecmp_eq type ''Taken'' then Some (Taken b)
      else if strcasecmp_eq type ''2bit'' then map_option TwoBit (BP2bit_new b conf)
      else if strcasecmp_eq type ''2level'' then map_option TwoLevel (BP2level_new b conf (j_history j))
      else if strcasecmp_eq type ''Static'' then Some (Static b)
      else if strcasecmp_eq type ''2BcgSkew'' then map_option Skew (BP2BcgSkew_new b conf)
      else if strcasecmp_eq type ''Hybrid'' then map_option Hybrid (BPHybrid_new b conf (j_ghr j))
      else if strcasecmp_eq type ''yags'' then map_option Yags (BPyags_new b conf (j_ghr j) (j_cache j) (j_cache2 j))
      else if strcasecmp_eq type ''A21264'' then map_option A21264 (BPA21264_new b conf (j_ghr j))
      else None)"

text \<open>The virtual function \<open>predict\<close>.\<close>

fun BPred_predict :: "instruction \<Rightarrow> 64 word \<Rightarrow> bool \<Rightarrow> bpred \<Rightarrow> (PredType \<times> bpred) option" where
  "BPred_predict inst oracleID doUpdate (Oracle b) =
     map_option (apsnd Oracle) (BPOracle_predict inst oracleID doUpdate b)"
| "BPred_predict inst oracleID doUpdate NotTaken = Some (BPNotTaken_predict inst oracleID, NotTaken)"
| "BPred_predict inst oracleID doUpdate (Taken b) =
     map_option (apsnd Taken) (BPTaken_predict inst oracleID doUpdate b)"
| "BPred_predict inst oracleID doUpdate (Static b) =
     map_option (apsnd Static) (BPStatic_predict inst oracleID doUpdate b)"
| "BPred_predict inst oracleID doUpdate (TwoBit s) =
     map_option (apsnd TwoBit) (BP2bit_predict inst oracleID doUpdate s)"
| "BPred_predict inst oracleID doUpdate (TwoLevel s) =
     map_option (apsnd TwoLevel) (BP2level_predict inst oracleID doUpdate s)"
| "BPred_predict inst oracleID doUpdate (Skew s) =
     map_option (apsnd Skew) (BP2BcgSkew_predict inst oracleID doUpdate s)"
| "BPred_predict inst oracleID doUpdate (Hybrid s) =
     map_option (apsnd Hybrid) (BPHybrid_predict inst oracleID doUpdate s)"
| "BPred_predict inst oracleID doUpdate (Yags s) =
     map_option (apsnd Yags) (BPyags_predict inst oracleID doUpdate s)"
| "BPred_predict inst oracleID doUpdate (A21264 s) =
     map_option (apsnd A21264) (BPA21264_predict inst oracleID doUpdate s)"

subsection \<open>BPredictor\<close>

text \<open>The counters of \<open>doPredict\<close>, for the stack and for the predictor, and of \<open>BPredictor\<close>.\<close>

record bp_stats =
  nHit :: nat
  nMiss :: nat

definition BPred_doPredict ::
  "('s \<Rightarrow> (PredType \<times> 's) option) \<Rightarrow> bool \<Rightarrow> 's \<times> bp_stats \<Rightarrow> (PredType \<times> 's \<times> bp_stats) option" where
  "BPred_doPredict predict doUpdate = (\<lambda>(s, st). do {
     (pred, s1) \<leftarrow> predict s;
     if \<not> doUpdate \<or> pred = NoPrediction then Some (pred, s1, st)
     else Some (pred, s1, st\<lparr>nHit := nHit st + of_bool (pred = CorrectPrediction),
                             nMiss := nMiss st + of_bool (pred \<noteq> CorrectPrediction)\<rparr>) })"

record bpredictor =
  bp_ras :: "ras \<times> bp_stats"
  bp_pred :: "bpred \<times> bp_stats"
  bp_nBranches :: nat
  bp_nTaken :: nat
  bp_nMiss :: nat

definition BPredictor_new ::
  "nat \<Rightarrow> string \<Rightarrow> btb \<Rightarrow> (string \<Rightarrow> nat) \<Rightarrow> bp_junk \<Rightarrow> (bpred \<times> bp_stats) option \<Rightarrow> bpredictor option" where
  "BPredictor_new rasSize type b conf j shared = do {
     r \<leftarrow> BPRas_new rasSize (j_history j);
     p \<leftarrow> (case shared of
            Some p \<Rightarrow> Some p
          | None \<Rightarrow> map_option (\<lambda>p. (p, \<lparr>nHit = 0, nMiss = 0\<rparr>)) (BPredictor_getBPred type b conf j));
     Some \<lparr>bp_ras = (r, \<lparr>nHit = 0, nMiss = 0\<rparr>), bp_pred = p, bp_nBranches = 0, bp_nTaken = 0, bp_nMiss = 0\<rparr> }"

definition BPredictor_predict ::
  "instruction \<Rightarrow> 64 word \<Rightarrow> bool \<Rightarrow> bpredictor \<Rightarrow> (PredType \<times> bpredictor) option" where
  "BPredictor_predict inst oracleID doUpdate s = do {
     I_check (isBranch inst);
     let s1 = s\<lparr>bp_nBranches := bp_nBranches s + of_bool doUpdate,
                bp_nTaken := bp_nTaken s + of_bool (calcNextInstID inst \<noteq> oracleID)\<rparr>;
     (p, r) \<leftarrow> BPred_doPredict (BPRas_predict inst oracleID doUpdate) doUpdate (bp_ras s1);
     let s2 = s1\<lparr>bp_ras := r\<rparr>;
     if p \<noteq> NoPrediction then
       Some (p, s2\<lparr>bp_nMiss := bp_nMiss s2 + of_bool (p \<noteq> CorrectPrediction \<and> doUpdate)\<rparr>)
     else do {
       (p', q) \<leftarrow> BPred_doPredict (BPred_predict inst oracleID doUpdate) doUpdate (bp_pred s2);
       Some (p', s2\<lparr>bp_pred := q,
                    bp_nMiss := bp_nMiss s2 + of_bool (p' \<noteq> CorrectPrediction \<and> doUpdate)\<rparr>) } }"

end
