(* ===== verification/BTB_Correct.thy ===== *)
theory BTB_Correct
  imports Branch_Tables Cache_Correct
begin

text \<open>
  The return address stack refines a bounded stack that forgets its oldest entries, and the
  branch target buffer keeps the invariant of the cache that it is built on.
\<close>

subsection \<open>Return address stack\<close>

definition ras_ok :: "ras \<Rightarrow> bool" where
  "ras_ok r = (case stack r of
     None \<Rightarrow> True
   | Some st \<Rightarrow> length st = RasSize r \<and> 0 \<le> index r \<and> index r < int (RasSize r))"

text \<open>The entry that is \<open>i\<close> places below the top.\<close>

definition ras_entry :: "ras \<Rightarrow> 64 word list \<Rightarrow> nat \<Rightarrow> 64 word" where
  "ras_entry r st i = st ! nat ((index r - 1 - int i) mod int (RasSize r))"

text \<open>The newest entries of the stack, the top first.\<close>

definition ras_holds :: "ras \<Rightarrow> 64 word list \<Rightarrow> bool" where
  "ras_holds r xs = (\<exists>st. stack r = Some st \<and> length xs \<le> RasSize r \<and>
     (\<forall>i<length xs. ras_entry r st i = xs ! i))"

lemma mod_neg:
  "0 \<le> (i::int) \<Longrightarrow> i < n \<Longrightarrow> (if i - 1 < 0 then n - 1 else i - 1) = (i - 1) mod n"
  by (cases "i = 0") (auto simp: zmod_minus1)

lemma ras_push:
  assumes ok: "ras_ok r" and holds: "ras_holds r xs" and call: "isFuncCall inst"
  shows "\<exists>r'. BPRas_predict inst oracleID True r = Some (NoPrediction, r') \<and> ras_ok r' \<and>
    RasSize r' = RasSize r \<and> ras_holds r' (take (RasSize r) (calcNextInstID inst # xs))"
proof -
  obtain st where st: "stack r = Some st" "length xs \<le> RasSize r" "\<forall>i<length xs. ras_entry r st i = xs ! i"
    using holds by (auto simp: ras_holds_def)
  have I: "length st = RasSize r" "0 \<le> index r" "index r < int (RasSize r)" using ok st(1) by (simp_all add: ras_ok_def)
  let ?n = "int (RasSize r)" and ?x = "calcNextInstID inst"
  let ?st = "st[nat (index r) := ?x]"
  let ?i = "if index r + 1 \<ge> ?n then 0 else index r + 1"
  let ?r = "r\<lparr>stack := Some ?st, index := ?i\<rparr>"
  have n0: "0 < RasSize r" using I by linarith
  have im: "?i mod ?n = (index r + 1) mod ?n"
  proof (cases "index r + 1 \<ge> ?n")
    case True
    then have "index r + 1 = ?n" using I by simp
    then show ?thesis by simp
  qed simp
  have nr: "\<not> isFuncRet inst" using call by (simp add: isFuncCall_def isFuncRet_def)
  have "BPRas_predict inst oracleID True r = Some (NoPrediction, ?r)"
    using call nr st(1) I by (simp add: BPRas_predict_def arr_set_def)
  moreover have "ras_ok ?r" using I by (auto simp: ras_ok_def)
  moreover have "ras_entry ?r ?st k = (?x # xs) ! k" if k: "k < RasSize r" "k < Suc (length xs)" for k
  proof -
    have e: "(?i - 1 - int k) mod ?n = (index r - int k) mod ?n"
      using mod_diff_cong [OF im refl, of "1 + int k"] by (simp add: algebra_simps)
    show ?thesis
    proof (cases k)
      case 0
      then have "(?i - 1 - int k) mod ?n = index r" using e I by simp
      then show ?thesis using 0 I by (simp add: ras_entry_def)
    next
      case (Suc j)
      have "(index r - int k) mod ?n \<noteq> index r"
      proof
        assume "(index r - int k) mod ?n = index r"
        then have "(index r - int k) mod ?n = index r mod ?n" using I by simp
        then have "?n dvd int k" by (metis mod_eq_dvd_iff minus_diff_eq diff_add_cancel dvd_minus_iff add_diff_cancel_left')
        then show False using k(1) Suc by (simp add: zdvd_not_zless)
      qed
      then have ne: "nat ((index r - int k) mod ?n) \<noteq> nat (index r)"
        using I n0 by (simp add: nat_eq_iff)
      have eq: "index r - int k = index r - 1 - int j" using Suc by simp
      have "ras_entry r st j = st ! nat ((index r - int k) mod ?n)" unfolding ras_entry_def eq ..
      then have "ras_entry ?r ?st k = ras_entry r st j"
        using e ne by (simp add: ras_entry_def)
      then show ?thesis using st(3) Suc k by simp
    qed
  qed
  then have "ras_holds ?r (take (RasSize r) (?x # xs))"
    using st(2) by (simp add: ras_holds_def)
  ultimately show ?thesis by (intro exI [of _ ?r]) simp
qed

lemma ras_pop:
  assumes ok: "ras_ok r" and holds: "ras_holds r xs" and ret: "isFuncRet inst" and oid: "oracleID \<noteq> 0"
  shows "\<exists>p r'. BPRas_predict inst oracleID True r = Some (p, r') \<and> ras_ok r' \<and>
    RasSize r' = RasSize r \<and> ras_holds r' (tl xs) \<and>
    (xs \<noteq> [] \<longrightarrow> p = (if oracleID = hd xs then CorrectPrediction else MissPrediction))"
proof -
  obtain st where st: "stack r = Some st" "length xs \<le> RasSize r" "\<forall>i<length xs. ras_entry r st i = xs ! i"
    using holds by (auto simp: ras_holds_def)
  have I: "length st = RasSize r" "0 \<le> index r" "index r < int (RasSize r)" using ok st(1) by (simp_all add: ras_ok_def)
  let ?n = "int (RasSize r)"
  let ?r = "r\<lparr>index := (index r - 1) mod ?n\<rparr>"
  have n0: "0 < ?n" using I by linarith
  have b: "0 \<le> (index r - 1) mod ?n" "(index r - 1) mod ?n < ?n" using n0 by simp_all
  define top where "top = ras_entry r st 0"
  have "BPRas_predict inst oracleID True r =
      Some (if top = oracleID then CorrectPrediction else MissPrediction, ?r)"
    using ret st(1) oid b I(1) mod_neg [OF I(2,3)]
    by (simp add: BPRas_predict_def arr_get_def top_def ras_entry_def Let_def)
  moreover have "ras_ok ?r" using st(1) I(1) b by (simp add: ras_ok_def)
  moreover have "ras_entry ?r st i = ras_entry r st (Suc i)" for i
    by (simp add: ras_entry_def mod_diff_left_eq algebra_simps)
  then have "ras_holds ?r (tl xs)" using st by (auto simp: ras_holds_def nth_tl)
  moreover have "xs \<noteq> [] \<longrightarrow> top = hd xs" using st(3) by (auto simp: top_def hd_conv_nth)
  ultimately show ?thesis
    by (intro exI [of _ "if top = oracleID then CorrectPrediction else MissPrediction"] exI [of _ ?r]) auto
qed

subsection \<open>The cache of the target buffer\<close>

lemma BTBState_fills: "fills BTBState"
  by (simp add: fills_def BTBState_def)

lemma BTBState_simps [simp]:
  "getTag BTBState l = bt_tag l" "isValid BTBState l = (bt_tag l \<noteq> 0)" "\<not> isLocked BTBState l"
  by (simp_all add: BTBState_def)

lemma fillLine1_eq:
  "cache_fillLine1 S repl c addr =
     map_option (\<lambda>(r, _, c'). (r, c')) (cache_fillLine S repl c addr False)"
  by (auto simp: cache_fillLine1_def cache_fillLine_def Let_def split: option.splits bind_splits)

text \<open>The geometry never changes.\<close>

definition same_geometry :: "'l cache \<Rightarrow> 'l cache \<Rightarrow> bool" where
  "same_geometry c c' = (log2AddrLs c' = log2AddrLs c \<and> assoc c' = assoc c \<and>
     numLines c' = numLines c \<and> calcIndex4Tag c' = calcIndex4Tag c)"

lemma same_geometry_refl [simp]: "same_geometry c c"
  by (simp add: same_geometry_def)

lemma find_geometry: "Assoc_findLineTag B S c tag = Some (r, c') \<Longrightarrow> same_geometry c c'"
  by (auto simp: Assoc_findLineTag_def same_geometry_def Let_def split: if_splits option.splits)

lemma replace_geometry:
  assumes "Assoc_findLine2Replace S c addr ig = Some (r, c')"
  shows "same_geometry c c'"
proof (cases "getTag S (line_at c (calcIndex4Tag c (calcTag c addr))) = calcTag c addr")
  case True
  then show ?thesis using assms by (auto simp: Assoc_findLine2Replace_def Let_def)
next
  case False
  then show ?thesis using assms
    by (auto simp: Assoc_findLine2Replace_def same_geometry_def Let_def
        split: if_splits option.splits bind_splits prod.splits)
qed

lemma fill_geometry:
  assumes "cache_fillLine S (Assoc_findLine2Replace S) c addr ig = Some (r, ra, c')"
  shows "same_geometry c c'"
proof -
  obtain i c1 where c1: "Assoc_findLine2Replace S c addr ig = Some (i, c1)"
    using assms by (auto simp: cache_fillLine_def split: bind_splits)
  then have "c' = c1 \<or> (\<exists>m. c' = c1\<lparr>mem := m\<rparr>)"
    using assms by (auto simp: cache_fillLine_def Let_def split: option.splits bind_splits)
  then show ?thesis using replace_geometry [OF c1] by (auto simp: same_geometry_def)
qed

lemma cache_ok_interface [simp]: "cache_ok S (c\<lparr>goodInterface := g\<rparr>) = cache_ok S c"
  by (simp add: cache_ok_def lines_ok_def home_ok_def unique_ok_def)

text \<open>Writing the target of a line keeps the invariant.\<close>

lemma set_inst_simps [simp]:
  "length (mem (set_inst i x c)) = length (mem c)" "content (set_inst i x c) = content c"
  "geom_ok (set_inst i x c) = geom_ok c" "numLines (set_inst i x c) = numLines c"
  "irand (set_inst i x c) = irand c" "assoc (set_inst i x c) = assoc c"
  "log2AddrLs (set_inst i x c) = log2AddrLs c" "calcIndex4Tag (set_inst i x c) = calcIndex4Tag c"
  "calcTag (set_inst i x c) = calcTag c"
  by (simp_all add: set_inst_def)

lemma set_inst_tag [simp]: "bt_tag (mem (set_inst i x c) ! j) = bt_tag (mem c ! j)"
proof (cases "i < length (mem c)")
  case True
  then show ?thesis by (simp add: set_inst_def nth_list_update)
next
  case False
  then show ?thesis by (simp add: set_inst_def list_update_beyond)
qed

lemma set_inst_ok [simp]: "cache_ok BTBState (set_inst i x c) = cache_ok BTBState c"
  by (simp add: cache_ok_def lines_ok_def home_ok_def unique_ok_def)

lemma victim_exists:
  assumes "cache_ok BTBState c" "b = calcIndex4Tag c tag"
  shows "victim BTBState c b \<noteq> None"
proof -
  have "0 < assoc c" using cache_okD(4) [OF assms(1)] by simp
  then have "ways c b \<noteq> []" using length_ways [OF base_le [OF assms(1), of tag, folded assms(2)]]
    by (cases "ways c b") auto
  then have "rev (ways c b) \<noteq> []" by simp
  then have "List.find (\<lambda>x. True) (rev (ways c b)) \<noteq> None" by (cases "rev (ways c b)") auto
  then show ?thesis by (auto simp: victim_def split: option.splits)
qed

definition dispatch_ok :: "cache_class \<Rightarrow> 'l cache \<Rightarrow> bool" where
  "dispatch_ok k c = (k = CacheDM \<longrightarrow> assoc c = 1)"

lemma ways_mem:
  assumes ok: "cache_ok S c" and i: "i \<in> set (ways c (calcIndex4Tag c tag))"
  shows "i < length (mem c)" "i \<in> set (content c)"
proof -
  show c: "i \<in> set (content c)" using i by (auto simp: ways_def dest!: in_set_takeD in_set_dropD)
  then show "i < length (mem c)" using cache_okD(3) [OF ok] ok by (auto simp: cache_ok_def)
qed

lemma btb_read:
  assumes ok: "cache_ok BTBState c" and k: "dispatch_ok k c" and tag: "calcTag c key \<noteq> 0"
  shows "\<exists>r c'. cache_readLine (findLineTag k B BTBState) c key = Some (r, c') \<and> cache_ok BTBState c' \<and>
    same_geometry c c' \<and> mem c' = mem c \<and>
    (case r of
       None \<Rightarrow> \<forall>x\<in>set (content c). bt_tag (mem c ! x) \<noteq> calcTag c key
     | Some i \<Rightarrow> i \<in> set (content c) \<and> bt_tag (mem c ! i) = calcTag c key)"
proof -
  let ?c = "c\<lparr>goodInterface := True\<rparr>" and ?tag = "calcTag c key"
  have okc: "cache_ok BTBState ?c" using ok by simp
  obtain r c' where f: "Assoc_findLineTag B BTBState ?c ?tag = Some (r, c')" "cache_ok BTBState c'"
      "mem c' = mem ?c"
      "case r of None \<Rightarrow> c' = ?c \<and> (\<forall>x\<in>set (content ?c). getTag BTBState (mem ?c ! x) \<noteq> ?tag)
       | Some x \<Rightarrow> x \<in> set (ways ?c (calcIndex4Tag ?c ?tag)) \<and> getTag BTBState (mem ?c ! x) = ?tag \<and>
           ways c' (calcIndex4Tag ?c ?tag) = x # remove1 x (ways ?c (calcIndex4Tag ?c ?tag))"
    using findLineTag_ok [OF okc tag, of B "calcIndex4Tag ?c ?tag"] by auto
  have "findLineTag k B BTBState ?c ?tag = Some (r, c')"
    using f(1) DM_find_eq [OF okc _ tag] k by (cases k) (simp_all add: findLineTag_def dispatch_ok_def)
  then have "cache_readLine (findLineTag k B BTBState) c key = Some (r, c'\<lparr>goodInterface := False\<rparr>)"
    by (simp add: cache_readLine_def Let_def)
  moreover have "same_geometry c (c'\<lparr>goodInterface := False\<rparr>)"
    using find_geometry [OF f(1)] by (simp add: same_geometry_def)
  moreover have "case r of
       None \<Rightarrow> \<forall>x\<in>set (content c). bt_tag (mem c ! x) \<noteq> calcTag c key
     | Some i \<Rightarrow> i \<in> set (content c) \<and> bt_tag (mem c ! i) = calcTag c key"
    using f(4) ways_mem(2) [OF okc] by (auto split: option.splits)
  ultimately show ?thesis using f(2,3) by (intro exI [of _ r] exI [of _ "c'\<lparr>goodInterface := False\<rparr>"]) simp
qed

lemma btb_fill:
  assumes ok: "cache_ok BTBState c" and k: "dispatch_ok k c" and tag: "calcTag c key \<noteq> 0"
  shows "\<exists>i c'. cache_fillLine1 BTBState (findLine2Replace k BTBState) c key = Some (Some i, c') \<and>
    cache_ok BTBState c' \<and> same_geometry c c' \<and> i < length (mem c') \<and> i \<in> set (content c') \<and>
    bt_tag (mem c' ! i) = calcTag c key"
proof -
  have eq: "cache_fillLine1 BTBState (findLine2Replace k BTBState) c key =
      cache_fillLine1 BTBState (Assoc_findLine2Replace BTBState) c key"
    using DM_replace_eq [OF ok _ tag, of False] k
    by (cases k) (simp_all add: findLine2Replace_def dispatch_ok_def cache_fillLine1_def)
  obtain r ra c' where f: "cache_fillLine BTBState (Assoc_findLine2Replace BTBState) c key False = Some (r, ra, c')"
      "cache_ok BTBState c'"
      "case r of None \<Rightarrow> victim BTBState c (calcIndex4Addr c key) = None
       | Some i \<Rightarrow> i \<in> set (ways c (calcIndex4Addr c key)) \<and> getTag BTBState (mem c' ! i) = calcTag c key"
    using fill_ok [OF ok BTBState_fills tag, of False] by (auto split: option.splits)
  have b: "calcIndex4Addr c key = calcIndex4Tag c (calcTag c key)"
    by (simp add: calcIndex4Addr_def calcIndex4Tag_def calcSet4Addr_def)
  obtain i where i: "r = Some i" using f(3) victim_exists [OF ok b] by (cases r) auto
  have g: "same_geometry c c'" using fill_geometry [OF f(1)] .
  have "i \<in> set (content c)" 
    using f(3) i b ways_mem(2) [OF ok, of i "calcTag c key"] by simp
  moreover have "set (content c') = set (content c)" "numLines c' \<le> length (mem c')"
    using cache_okD(3) [OF f(2)] cache_okD(3) [OF ok] f(2) g by (simp_all add: cache_ok_def same_geometry_def)
  ultimately have ic: "i \<in> set (content c')" and le: "numLines c' \<le> length (mem c')" by simp_all
  then have "i < numLines c'" using cache_okD(3) [OF f(2)] by auto
  then have "i < length (mem c')" using le by simp
  moreover have "cache_fillLine1 BTBState (findLine2Replace k BTBState) c key = Some (Some i, c')"
    unfolding eq by (simp add: fillLine1_eq f(1) i)
  ultimately show ?thesis using ic f(2,3) i g by (intro exI [of _ i] exI [of _ c']) simp
qed

subsection \<open>The target buffer\<close>

definition btb_ok :: "nat \<Rightarrow> btb \<Rightarrow> bool" where
  "btb_ok ls b = (case data b of
     None \<Rightarrow> True
   | Some (k, c) \<Rightarrow> cache_ok BTBState c \<and> dispatch_ok k c \<and> log2AddrLs c = ls)"

text \<open>
  What the callers rely on: the address of the branch has a tag that is not zero (zero
  stands for an invalid line), and the next instruction exists.
\<close>

definition branch_ok :: "nat \<Rightarrow> instruction \<Rightarrow> 64 word \<Rightarrow> bool" where
  "branch_ok ls inst oracleID = (drop_bit ls (unat (getAddr inst)) \<noteq> 0 \<and> oracleID \<noteq> 0)"

lemma hit_miss_simps [simp]:
  "btb_ok ls (btb_hit u b) = btb_ok ls b" "btb_ok ls (btb_miss u b) = btb_ok ls b"
  "data (btb_hit u b) = data b" "data (btb_miss u b) = data b"
  by (simp_all add: btb_hit_def btb_miss_def btb_ok_def)

lemma geometry_keeps:
  "same_geometry c c' \<Longrightarrow> dispatch_ok k c \<Longrightarrow> dispatch_ok k c'"
  "same_geometry c c' \<Longrightarrow> log2AddrLs c' = log2AddrLs c"
  "same_geometry c c' \<Longrightarrow> calcTag c' = calcTag c"
  by (simp_all add: same_geometry_def dispatch_ok_def calcTag_def fun_eq_iff)

lemma dispatch_set_inst [simp]: "dispatch_ok k (set_inst i x c) = dispatch_ok k c"
  by (simp add: dispatch_ok_def)

lemma btb_total:
  assumes ok: "btb_ok ls b" and br: "branch_ok ls inst oracleID"
  shows "\<exists>p b'. BPBTB_predict inst oracleID upd b = Some (p, b') \<and> btb_ok ls b' \<and>
    (p = CorrectPrediction \<or> p = NoBTBPrediction)"
proof (cases "data b")
  case None
  then show ?thesis using ok br by (simp add: BPBTB_predict_def branch_ok_def Let_def)
next
  case (Some kc)
  obtain k c where kc: "kc = (k, c)" by (cases kc)
  have I: "cache_ok BTBState c" "dispatch_ok k c" "log2AddrLs c = ls" using ok Some kc by (simp_all add: btb_ok_def)
  let ?key = "unat (getAddr inst)"
  have tag: "calcTag c ?key \<noteq> 0" using br I(3) by (simp add: branch_ok_def calcTag_def)
  show ?thesis
  proof (cases "calcNextInstID inst = oracleID \<or> \<not> upd")
    case True
    obtain r c' where r: "cache_readLine (findLineTag k (bt_build b) BTBState) c ?key = Some (r, c')"
        "cache_ok BTBState c'" "same_geometry c c'"
      using btb_read [OF I(1,2) tag, of "bt_build b"] by blast
    have "btb_ok ls (b\<lparr>data := Some (k, c')\<rparr>)"
      using r(2) geometry_keeps [OF r(3)] I by (simp add: btb_ok_def)
    then show ?thesis using True Some kc r(1) by (cases r) (auto simp: BPBTB_predict_def Let_def)
  next
    case False
    obtain i c' where f: "cache_fillLine1 BTBState (findLine2Replace k BTBState) c ?key = Some (Some i, c')"
        "cache_ok BTBState c'" "same_geometry c c'"
      using btb_fill [OF I(1,2) tag] by blast
    have "btb_ok ls (b\<lparr>data := Some (k, set_inst i oracleID c')\<rparr>)"
      using f(2) geometry_keeps [OF f(3)] I by (simp add: btb_ok_def)
    then show ?thesis using False Some kc f(1) by (auto simp: BPBTB_predict_def Let_def)
  qed
qed

text \<open>After an update the buffer knows the target of the branch.\<close>

lemma btb_learns:
  assumes ok: "btb_ok ls b" and br: "branch_ok ls inst oracleID"
  shows "\<exists>b'. BPBTB_updateOnly inst oracleID b = Some b' \<and> btb_ok ls b' \<and>
    (calcNextInstID inst \<noteq> oracleID \<longrightarrow>
      (\<exists>b''. BPBTB_predict inst oracleID False b' = Some (CorrectPrediction, b'')))"
proof (cases "data b")
  case None
  then show ?thesis using ok br
    by (simp add: BPBTB_updateOnly_def BPBTB_predict_def branch_ok_def Let_def)
next
  case (Some kc)
  obtain k c where kc: "kc = (k, c)" by (cases kc)
  have I: "cache_ok BTBState c" "dispatch_ok k c" "log2AddrLs c = ls" using ok Some kc by (simp_all add: btb_ok_def)
  let ?key = "unat (getAddr inst)"
  have tag: "calcTag c ?key \<noteq> 0" using br I(3) by (simp add: branch_ok_def calcTag_def)
  show ?thesis
  proof (cases "calcNextInstID inst = oracleID")
    case True
    then show ?thesis using ok Some kc by (simp add: BPBTB_updateOnly_def)
  next
    case False
    obtain i c1 where f: "cache_fillLine1 BTBState (findLine2Replace k BTBState) c ?key = Some (Some i, c1)"
        "cache_ok BTBState c1" "same_geometry c c1" "i < length (mem c1)" "i \<in> set (content c1)"
        "bt_tag (mem c1 ! i) = calcTag c ?key"
      using btb_fill [OF I(1,2) tag] by blast
    let ?c = "set_inst i oracleID c1" and ?b = "b\<lparr>data := Some (k, set_inst i oracleID c1)\<rparr>"
    have u: "BPBTB_updateOnly inst oracleID b = Some ?b"
      using False Some kc f(1) by (simp add: BPBTB_updateOnly_def Let_def)
    have okc: "cache_ok BTBState ?c" "dispatch_ok k ?c" "calcTag ?c ?key = calcTag c ?key"
      using f(2) geometry_keeps [OF f(3)] I(2) by simp_all
    have okb: "btb_ok ls ?b" using okc geometry_keeps(2) [OF f(3)] I(3) by (simp add: btb_ok_def)
    have tag1: "calcTag ?c ?key \<noteq> 0" using tag okc(3) by simp
    obtain r c' where r: "cache_readLine (findLineTag k (bt_build b) BTBState) ?c ?key = Some (r, c')"
        "mem c' = mem ?c"
        "case r of None \<Rightarrow> \<forall>x\<in>set (content ?c). bt_tag (mem ?c ! x) \<noteq> calcTag ?c ?key
         | Some x \<Rightarrow> x \<in> set (content ?c) \<and> bt_tag (mem ?c ! x) = calcTag ?c ?key"
      using btb_read [OF okc(1,2) tag1, of "bt_build b"] by blast
    have it: "bt_tag (mem ?c ! i) = calcTag ?c ?key" using f(6) okc(3) by simp
    have "r = Some i"
    proof (cases r)
      case None
      then show ?thesis using r(3) it f(5) by simp
    next
      case (Some x)
      then have x: "x \<in> set (content ?c)" "bt_tag (mem ?c ! x) = calcTag ?c ?key" using r(3) by simp_all
      have "unique_ok BTBState ?c" using okc(1) by (simp add: cache_ok_def)
      then have "x = i" using x it f(5) tag1 unfolding unique_ok_def by (simp del: set_inst_tag)
      then show ?thesis using Some by simp
    qed
    moreover have "bt_inst (mem ?c ! i) = oracleID" using f(4) by (simp add: set_inst_def)
    ultimately have "\<exists>b''. BPBTB_predict inst oracleID False ?b = Some (CorrectPrediction, b'')"
      using r(1,2) by (simp add: BPBTB_predict_def Let_def)
    then show ?thesis using u okb by blast
  qed
qed

lemma conclude_total:
  assumes ok: "btb_ok ls b" and br: "branch_ok ls inst oracleID"
  shows "\<exists>p b'. bp_conclude taken ptaken inst oracleID upd b = Some (p, b') \<and> btb_ok ls b' \<and>
    p \<noteq> NoPrediction \<and> (p = MissPrediction) = (taken \<noteq> ptaken)"
proof -
  obtain p b1 where p: "BPBTB_predict inst oracleID upd b = Some (p, b1)" "btb_ok ls b1"
      "p = CorrectPrediction \<or> p = NoBTBPrediction" using btb_total [OF ok br] by blast
  obtain b2 where u: "BPBTB_updateOnly inst oracleID b = Some b2" "btb_ok ls b2"
    using btb_learns [OF ok br] by blast
  show ?thesis using p u ok by (auto simp: bp_conclude_def)
qed

end
