(* ===== verification/Branch_Correct.thy ===== *)
theory Branch_Correct
  imports BTB_Correct
begin

text \<open>
  Every direction predictor keeps its tables in their bounds and runs through on every
  branch; the exception is A21264, which does so only when its histories index its table.
  The contract that \<open>BPredictor\<close> needs of a predictor is the locale \<open>predictor\<close>.
\<close>

subsection \<open>Tables\<close>

definition table_ok :: "sctable \<Rightarrow> bool" where
  "table_ok t = (\<exists>k b. sc_ok k b t)"

lemma predict2_total: "table_ok t \<Longrightarrow> \<exists>p t'. SCTable_predict2 cid taken t = Some (p, t') \<and> table_ok t'"
  using SCTable_predict2_eq sc_next_ok(1) unfolding table_ok_def by blast

lemma predict_total: "table_ok t \<Longrightarrow> \<exists>p. SCTable_predict cid t = Some p"
  using SCTable_predict_eq unfolding table_ok_def by blast

lemma reset_total: "table_ok t \<Longrightarrow> \<exists>t'. SCTable_reset cid taken t = Some t' \<and> table_ok t'"
  using SCTable_reset_ok unfolding table_ok_def by blast

lemma query_total: "table_ok t \<Longrightarrow> \<exists>p t'. sc_query upd cid taken t = Some (p, t') \<and> table_ok t'"
  using predict2_total [of t cid taken] predict_total [of t cid] by (cases upd) (auto simp: sc_query_def)

lemma train_if_total: "table_ok t \<Longrightarrow> \<exists>t'. train_if c cid taken t = Some t' \<and> table_ok t'"
  using predict2_total [of t cid taken] by (cases c) (auto simp: train_if_def)

lemma pow2_cases: "0 < n \<Longrightarrow> is_pow2 n \<Longrightarrow> n < 2 ^ 64 \<Longrightarrow> \<exists>k<64. n = 2 ^ k"
proof -
  assume a: "0 < n" "is_pow2 n" "n < 2 ^ 64"
  then obtain k where k: "n = 2 ^ k" using pow2_test_iff [of n] by (auto simp: is_pow2_def)
  have "k < 64"
  proof (rule ccontr)
    assume "\<not> k < 64"
    then have "(2::nat) ^ 64 \<le> 2 ^ k" by (intro power_increasing) simp_all
    then show False using a(3) k by simp
  qed
  then show ?thesis using k by blast
qed

lemma table_new:
  assumes "SCTable_new n b = Some t" "0 < n" "n < 2 ^ 64"
  shows "table_ok t" "is_pow2 n"
proof -
  have b: "1 \<le> b" "b \<le> 7" and p: "is_pow2 n"
    using assms(1) by (simp_all add: SCTable_new_def is_pow2_def Let_def split: if_splits)
  then obtain k where "k < 64" "n = 2 ^ k" using pow2_cases assms(2,3) by blast
  then show "table_ok t" using SCTable_new_ok [of k b] b assms(1) by (auto simp: table_ok_def)
  show "is_pow2 n" by (rule p)
qed

lemma size_mask: "word_of_int (int (2 ^ k) - 1) = (mask k :: 64 word)"
  by (simp add: mask_eq_exp_minus_1)

lemma and_mask_less: "k < 64 \<Longrightarrow> unat (w AND mask k :: 64 word) < 2 ^ k"
  by (simp add: unsigned_take_bit_eq take_bit_nat_less_exp flip: take_bit_eq_mask)

lemma arr_mask:
  "k < 64 \<Longrightarrow> length xs = 2 ^ k \<Longrightarrow> arr_get xs (uint (w AND mask k :: 64 word)) = Some (xs ! unat (w AND mask k))"
  "k < 64 \<Longrightarrow> length xs = 2 ^ k \<Longrightarrow> arr_set xs (uint (w AND mask k :: 64 word)) v = Some (xs[unat (w AND mask k) := v])"
  using and_mask_less [of k w] by (simp_all add: arr_word)

subsection \<open>Invariants\<close>

definition bp2bit_ok :: "nat \<Rightarrow> bp2bit \<Rightarrow> bool" where
  "bp2bit_ok ls s = (btb_ok ls (b2_btb s) \<and> table_ok (b2_table s))"

definition bp2level_ok :: "nat \<Rightarrow> bp2level \<Rightarrow> bool" where
  "bp2level_ok ls s = (btb_ok ls (l2_btb s) \<and> table_ok (l2_globalTable s) \<and>
     (\<exists>k\<le>16. l1SizeMask s = mask k \<and> length (historyTable s) = 2 ^ k))"

definition tournament_ok :: "nat \<Rightarrow> tournament \<Rightarrow> bool" where
  "tournament_ok ls s = (btb_ok ls (h_btb s) \<and> table_ok (localTable s) \<and> table_ok (globalTable s) \<and>
     table_ok (metaTable s) \<and> (\<exists>k<64. bhtMask s = mask k \<and> length (bht s) = 2 ^ k))"

text \<open>What A21264 needs because it uses a history as the index of \<open>bht\<close>.\<close>

definition history_fits :: "tournament \<Rightarrow> bool" where
  "history_fits s = (\<exists>k<64. lHistMask s = mask k \<and> 2 ^ k \<le> length (bht s))"

definition skew_ok :: "nat \<Rightarrow> skew \<Rightarrow> bool" where
  "skew_ok ls s = (btb_ok ls (k_btb s) \<and> table_ok (BIM s) \<and> table_ok (G0 s) \<and> table_ok (G1 s) \<and>
     table_ok (k_meta s))"

definition yags_ok :: "nat \<Rightarrow> yags \<Rightarrow> bool" where
  "yags_ok ls s = (btb_ok ls (y_btb s) \<and> table_ok (choice_table s) \<and> table_ok (ctableTaken s) \<and>
     table_ok (ctableNotTaken s) \<and>
     (\<exists>k<64. CacheTakenMask s = mask k \<and> length (CacheTaken s) = 2 ^ k) \<and>
     (\<exists>k<64. CacheNotTakenMask s = mask k \<and> length (CacheNotTaken s) = 2 ^ k))"

fun bp_ok :: "nat \<Rightarrow> bpred \<Rightarrow> bool" where
  "bp_ok ls (Oracle b) = btb_ok ls b"
| "bp_ok ls NotTaken = True"
| "bp_ok ls (Taken b) = btb_ok ls b"
| "bp_ok ls (Static b) = btb_ok ls b"
| "bp_ok ls (TwoBit s) = bp2bit_ok ls s"
| "bp_ok ls (TwoLevel s) = bp2level_ok ls s"
| "bp_ok ls (Skew s) = skew_ok ls s"
| "bp_ok ls (Hybrid s) = tournament_ok ls s"
| "bp_ok ls (Yags s) = yags_ok ls s"
| "bp_ok ls (A21264 s) = (tournament_ok ls s \<and> history_fits s)"

subsection \<open>One lemma per predictor\<close>

lemma bp2bit_total:
  assumes ok: "bp2bit_ok ls s" and br: "branch_ok ls inst oid"
  shows "\<exists>p s'. BP2bit_predict inst oid upd s = Some (p, s') \<and> bp2bit_ok ls s' \<and> p \<noteq> NoPrediction"
proof -
  have I: "btb_ok ls (b2_btb s)" "table_ok (b2_table s)" using ok by (simp_all add: bp2bit_ok_def)
  obtain p b where j: "BPBTB_predict inst oid upd (b2_btb s) = Some (p, b)" "btb_ok ls b" "p \<noteq> NoPrediction"
    using btb_total [OF I(1) br, of upd] by auto
  obtain pt t where q: "sc_query upd (calcInstID inst) (calcNextInstID inst \<noteq> oid) (b2_table s) = Some (pt, t)"
      "table_ok t" using query_total [OF I(2)] by blast
  obtain p2 b2 where c: "bp_conclude (calcNextInstID inst \<noteq> oid) pt inst oid upd (b2_btb s) = Some (p2, b2)"
      "btb_ok ls b2" "p2 \<noteq> NoPrediction" using conclude_total [OF I(1) br] by metis
  show ?thesis
    by (cases "isBranchTaken inst") (use j q c I in \<open>simp_all add: BP2bit_predict_def bp2bit_ok_def Let_def\<close>)
qed

lemma bp2level_total:
  assumes ok: "bp2level_ok ls s" and br: "branch_ok ls inst oid"
  shows "\<exists>p s'. BP2level_predict inst oid upd s = Some (p, s') \<and> bp2level_ok ls s' \<and> p \<noteq> NoPrediction"
proof -
  have I: "btb_ok ls (l2_btb s)" "table_ok (l2_globalTable s)" using ok by (simp_all add: bp2level_ok_def)
  obtain k where k: "k \<le> 16" "l1SizeMask s = mask k" "length (historyTable s) = 2 ^ k"
    using ok by (auto simp: bp2level_ok_def)
  obtain p b where j: "BPBTB_predict inst oid upd (l2_btb s) = Some (p, b)" "btb_ok ls b" "p \<noteq> NoPrediction"
    using btb_total [OF I(1) br, of upd] by auto
  let ?taken = "calcNextInstID inst \<noteq> oid"
  have "take_bit 16 (calcInstID inst AND mask k) = calcInstID inst AND mask k"
    using k(1) by (simp add: min_def flip: take_bit_eq_mask)
  then have a: "arr_get (historyTable s) (uint (take_bit 16 (calcInstID inst AND l1SizeMask s))) =
      Some (historyTable s ! unat (calcInstID inst AND mask k))"
    using arr_mask(1) [of k "historyTable s"] k by simp
  have q: "\<exists>pt t. sc_query upd i ?taken (l2_globalTable s) = Some (pt, t) \<and> table_ok t" for i
    using query_total [OF I(2)] by blast
  have c: "\<exists>p2 b2. bp_conclude ?taken pt inst oid upd (l2_btb s) = Some (p2, b2) \<and>
      btb_ok ls b2 \<and> p2 \<noteq> NoPrediction" for pt using conclude_total [OF I(1) br] by metis
  show ?thesis
  proof (cases "isBranchTaken inst")
    case True
    then show ?thesis using j I k by (auto simp: BP2level_predict_def bp2level_ok_def)
  next
    case False
    let ?l = "historyTable s ! unat (calcInstID inst AND mask k)"
    let ?i = "((?l XOR calcInstID inst) AND historyMask s) OR push_bit (historySize s) (calcInstID inst)"
    obtain pt t where q1: "sc_query upd ?i ?taken (l2_globalTable s) = Some (pt, t)" "table_ok t" using q by blast
    obtain p2 b2 where c1: "bp_conclude ?taken pt inst oid upd (l2_btb s) = Some (p2, b2)"
      "btb_ok ls b2" "p2 \<noteq> NoPrediction" using c by blast
    show ?thesis using False a q1 c1 k
      by (auto simp: BP2level_predict_def bp2level_ok_def Let_def intro!: exI [of _ k])
  qed
qed

lemma choose_total:
  assumes ok: "tournament_ok ls s" and br: "branch_ok ls inst oid"
  shows "\<exists>p s'. tournament_choose gi li mi taken inst oid upd s = Some (p, s') \<and> tournament_ok ls s' \<and>
    p \<noteq> NoPrediction \<and> bht s' = bht s \<and> lHistMask s' = lHistMask s"
proof -
  have I: "btb_ok ls (h_btb s)" "table_ok (globalTable s)" "table_ok (localTable s)" "table_ok (metaTable s)"
    using ok by (simp_all add: tournament_ok_def)
  obtain g gt where g: "sc_query upd gi taken (globalTable s) = Some (g, gt)" "table_ok gt"
    using query_total [OF I(2)] by blast
  obtain l lt where l: "sc_query upd li taken (localTable s) = Some (l, lt)" "table_ok lt"
    using query_total [OF I(3)] by blast
  have "\<exists>m mt. (if \<not> upd then sc_query False mi taken (metaTable s)
        else if g = taken \<and> l \<noteq> taken then SCTable_predict2 mi False (metaTable s)
        else if g \<noteq> taken \<and> l = taken then SCTable_predict2 mi True (metaTable s)
        else sc_query False mi taken (metaTable s)) = Some (m, mt) \<and> table_ok mt"
    using query_total [OF I(4), of False mi taken] predict2_total [OF I(4), of mi] by simp
  then obtain m mt where m: "(if \<not> upd then sc_query False mi taken (metaTable s)
        else if g = taken \<and> l \<noteq> taken then SCTable_predict2 mi False (metaTable s)
        else if g \<noteq> taken \<and> l = taken then SCTable_predict2 mi True (metaTable s)
        else sc_query False mi taken (metaTable s)) = Some (m, mt)" "table_ok mt" by blast
  obtain p b where p: "bp_conclude taken (if m then l else g) inst oid upd (h_btb s) = Some (p, b)"
      "btb_ok ls b" "p \<noteq> NoPrediction" using conclude_total [OF I(1) br] by metis
  have "tournament_choose gi li mi taken inst oid upd s =
      Some (p, s\<lparr>h_btb := b, globalTable := gt, localTable := lt, metaTable := mt\<rparr>)"
    unfolding tournament_choose_def by (simp add: g(1) l(1) m(1) p(1) del: if_split)
  then show ?thesis using ok g(2) l(2) m(2) p(2,3) by (simp add: tournament_ok_def)
qed

lemma hybrid_total:
  assumes ok: "tournament_ok ls s" and br: "branch_ok ls inst oid"
  shows "\<exists>p s'. BPHybrid_predict inst oid upd s = Some (p, s') \<and> tournament_ok ls s' \<and> p \<noteq> NoPrediction"
proof (cases "isBranchTaken inst")
  case True
  obtain p b where "BPBTB_predict inst oid upd (h_btb s) = Some (p, b)" "btb_ok ls b" "p \<noteq> NoPrediction"
    using btb_total [OF _ br, of "h_btb s" upd] ok by (auto simp: tournament_ok_def)
  then show ?thesis using True ok by (simp add: BPHybrid_predict_def tournament_ok_def)
next
  case False
  obtain k where k: "k < 64" "bhtMask s = mask k" "length (bht s) = 2 ^ k" using ok by (auto simp: tournament_ok_def)
  let ?taken = "calcNextInstID inst \<noteq> oid" and ?i = "signed_drop_bit 2 (getAddr inst) :: 64 word"
  let ?h = "bht s ! unat (?i AND mask k)"
  let ?s = "if upd then s\<lparr>ghr := shift_in (ghr s) ?taken, bht := (bht s)[unat (?i AND mask k) := shift_in ?h ?taken]\<rparr> else s"
  have oks: "tournament_ok ls ?s" using ok by (auto simp: tournament_ok_def)
  have "BPHybrid_predict inst oid upd s =
      tournament_choose (ghr s AND gHistMask s) (?h AND lHistMask s) (?i AND mMask s) ?taken inst oid upd ?s"
    using False k by (simp add: BPHybrid_predict_def Let_def arr_mask)
  then show ?thesis using choose_total [OF oks br, of "ghr s AND gHistMask s" "?h AND lHistMask s" "?i AND mMask s" ?taken upd] by metis
qed

lemma a21264_total:
  assumes ok: "tournament_ok ls s" "history_fits s" and br: "branch_ok ls inst oid"
  shows "\<exists>p s'. BPA21264_predict inst oid upd s = Some (p, s') \<and> tournament_ok ls s' \<and> history_fits s' \<and>
    p \<noteq> NoPrediction"
proof (cases "isBranchTaken inst")
  case True
  obtain p b where "BPBTB_predict inst oid upd (h_btb s) = Some (p, b)" "btb_ok ls b" "p \<noteq> NoPrediction"
    using btb_total [OF _ br, of "h_btb s" upd] ok by (auto simp: tournament_ok_def)
  then show ?thesis using True ok by (simp add: BPA21264_predict_def tournament_ok_def history_fits_def)
next
  case False
  obtain k where k: "k < 64" "bhtMask s = mask k" "length (bht s) = 2 ^ k" using ok by (auto simp: tournament_ok_def)
  obtain l where l: "l < 64" "lHistMask s = mask l" "2 ^ l \<le> length (bht s)" using ok(2) by (auto simp: history_fits_def)
  let ?taken = "calcNextInstID inst \<noteq> oid" and ?i = "calcInstID inst"
  let ?h = "bht s ! unat (?i AND mask k)"
  let ?j = "?h AND mask l"
  have j: "unat ?j < length (bht s)" using and_mask_less [OF l(1), of ?h] l(3) by simp
  let ?s = "if upd then s\<lparr>ghr := shift_in (ghr s) ?taken, bht := (bht s)[unat ?j := shift_in (bht s ! unat ?j) ?taken]\<rparr> else s"
  have oks: "tournament_ok ls ?s" using ok by (auto simp: tournament_ok_def)
  have fits: "bht s' = bht ?s \<Longrightarrow> lHistMask s' = lHistMask ?s \<Longrightarrow> history_fits s'" for s'
    using l by (auto simp: history_fits_def)
  have "BPA21264_predict inst oid upd s =
      tournament_choose (ghr s AND gHistMask s) ?j (?i AND mMask s) ?taken inst oid upd ?s"
    using False k l(2) j and_mask_less [OF k(1), of ?i] by (simp add: BPA21264_predict_def Let_def arr_word)
  moreover obtain p s' where "tournament_choose (ghr s AND gHistMask s) ?j (?i AND mMask s) ?taken inst oid upd ?s = Some (p, s')"
      "tournament_ok ls s'" "p \<noteq> NoPrediction" "bht s' = bht ?s" "lHistMask s' = lHistMask ?s"
    using choose_total [OF oks br] by blast
  ultimately show ?thesis using fits by metis
qed

end
