(* ===== verification/BPredictor_Correct.thy ===== *)
theory BPredictor_Correct
  imports Branch_Correct
begin

text \<open>
  2BcgSkew and yags, the contract of a predictor as a locale with its interpretation on
  \<open>BPred_predict\<close>, and what \<open>BPredictor\<close> counts.
\<close>

subsection \<open>2BcgSkew and yags\<close>

lemma skew_correct_total:
  assumes "skew_ok ls s"
  shows "\<exists>s'. skew_correct i g0 g1 mi taken s = Some s' \<and> skew_ok ls s' \<and> k_btb s' = k_btb s"
proof -
  have I: "table_ok (BIM s)" "table_ok (G0 s)" "table_ok (G1 s)" "table_ok (k_meta s)"
    using assms by (simp_all add: skew_ok_def)
  obtain x1 b where b: "SCTable_predict2 i taken (BIM s) = Some (x1, b)" "table_ok b" using predict2_total [OF I(1)] by blast
  obtain x2 t0 where t0: "SCTable_predict2 g0 taken (G0 s) = Some (x2, t0)" "table_ok t0" using predict2_total [OF I(2)] by blast
  obtain x3 t1 where t1: "SCTable_predict2 g1 taken (G1 s) = Some (x3, t1)" "table_ok t1" using predict2_total [OF I(3)] by blast
  obtain ob where ob: "SCTable_predict i b = Some ob" using predict_total [OF b(2)] by blast
  obtain o0 where o0: "SCTable_predict g0 t0 = Some o0" using predict_total [OF t0(2)] by blast
  obtain o1 where o1: "SCTable_predict g1 t1 = Some o1" using predict_total [OF t1(2)] by blast
  obtain x4 m where m: "SCTable_predict2 mi (ob = taken) (k_meta s) = Some (x4, m)" "table_ok m"
    using predict2_total [OF I(4)] by blast
  obtain m' where m': "SCTable_reset mi (ob = taken) (k_meta s) = Some m'" "table_ok m'"
    using reset_total [OF I(4)] by blast
  show ?thesis using b t0 t1 ob o0 o1 m m' assms
    by (cases "ob = majority o0 o1 ob") (simp_all add: skew_correct_def skew_ok_def Let_def)
qed

lemma skew_confirm_total:
  assumes "skew_ok ls s"
  shows "\<exists>s'. skew_confirm i g0 g1 mi taken mo bo o0 o1 s = Some s' \<and> skew_ok ls s' \<and> k_btb s' = k_btb s"
proof -
  have I: "table_ok (BIM s)" "table_ok (G0 s)" "table_ok (G1 s)" "table_ok (k_meta s)"
    using assms by (simp_all add: skew_ok_def)
  obtain b where b: "train_if (mo \<or> bo = taken) i taken (BIM s) = Some b" "table_ok b" using train_if_total [OF I(1)] by blast
  obtain t0 where t0: "train_if (\<not> mo \<and> o0 = taken) g0 taken (G0 s) = Some t0" "table_ok t0"
    using train_if_total [OF I(2)] by blast
  obtain t1 where t1: "train_if (\<not> mo \<and> o1 = taken) g1 taken (G1 s) = Some t1" "table_ok t1"
    using train_if_total [OF I(3)] by blast
  obtain m where m: "train_if (bo \<noteq> majority o0 o1 bo) mi (bo = taken) (k_meta s) = Some m" "table_ok m"
    using train_if_total [OF I(4)] by blast
  show ?thesis using b t0 t1 m assms by (simp add: skew_confirm_def skew_ok_def)
qed

lemma skew_btb: "skew_ok ls s \<Longrightarrow> btb_ok ls b \<Longrightarrow> skew_ok ls (s\<lparr>k_btb := b\<rparr>)"
  by (simp add: skew_ok_def)

lemma skew_total:
  assumes ok: "skew_ok ls s" and br: "branch_ok ls inst oid"
  shows "\<exists>p s'. BP2BcgSkew_predict inst oid upd s = Some (p, s') \<and> skew_ok ls s' \<and> p \<noteq> NoPrediction"
proof -
  have I: "btb_ok ls (k_btb s)" "table_ok (BIM s)" "table_ok (G0 s)" "table_ok (G1 s)" "table_ok (k_meta s)"
    using ok by (simp_all add: skew_ok_def)
  obtain p b where j: "BPBTB_predict inst oid upd (k_btb s) = Some (p, b)" "btb_ok ls b" "p \<noteq> NoPrediction"
    using btb_total [OF I(1) br, of upd] by auto
  obtain b2 where u: "BPBTB_updateOnly inst oid (k_btb s) = Some b2" "btb_ok ls b2"
    using btb_learns [OF I(1) br] by blast
  show ?thesis
  proof (cases "isBranchTaken inst")
    case True
    then show ?thesis using j skew_btb [OF ok] by (simp add: BP2BcgSkew_predict_def)
  next
    case False
    let ?i = "calcInstID inst" and ?taken = "calcNextInstID inst \<noteq> oid"
    let ?mi = "((k_history s XOR ?i) AND MetaHistoryMask s) OR push_bit (MetaHistorySize s) ?i"
    let ?g0 = "((k_history s XOR drop_bit 2 ?i) AND G0HistoryMask s) OR push_bit (G0HistorySize s) ?i"
    let ?g1 = "((k_history s XOR drop_bit 4 ?i) AND G1HistoryMask s) OR push_bit (G1HistorySize s) ?i"
    obtain mo where mo: "SCTable_predict ?mi (k_meta s) = Some mo" using predict_total [OF I(5)] by blast
    obtain bo where bo: "SCTable_predict ?i (BIM s) = Some bo" using predict_total [OF I(2)] by blast
    obtain o0 where o0: "SCTable_predict ?g0 (G0 s) = Some o0" using predict_total [OF I(3)] by blast
    obtain o1 where o1: "SCTable_predict ?g1 (G1 s) = Some o1" using predict_total [OF I(4)] by blast
    obtain s1 where s1: "skew_correct ?i ?g0 ?g1 ?mi ?taken s = Some s1" "skew_ok ls s1"
      using skew_correct_total [OF ok] by blast
    obtain s2 where s2: "skew_confirm ?i ?g0 ?g1 ?mi ?taken mo bo o0 o1 s = Some s2" "skew_ok ls s2"
      using skew_confirm_total [OF ok] by blast
    let ?pt = "if mo then bo else majority o0 o1 bo"
    have e: "BP2BcgSkew_predict inst oid upd s =
        (if ?pt \<noteq> ?taken then
          if \<not> upd then Some (MissPrediction, s)
          else do { s1 \<leftarrow> skew_correct ?i ?g0 ?g1 ?mi ?taken s;
                    b \<leftarrow> BPBTB_updateOnly inst oid (k_btb s);
                    Some (MissPrediction, s1\<lparr>k_btb := b\<rparr>) }
        else do {
          s1 \<leftarrow> (if upd then skew_confirm ?i ?g0 ?g1 ?mi ?taken mo bo o0 o1 s else Some s);
          if ?pt then do { (p, b) \<leftarrow> BPBTB_predict inst oid upd (k_btb s); Some (p, s1\<lparr>k_btb := b\<rparr>) }
          else Some (CorrectPrediction, s1) })"
      unfolding BP2BcgSkew_predict_def Let_def using False mo bo o0 o1 by simp
    show ?thesis
    proof (cases "?pt = ?taken")
      case True
      show ?thesis
      proof (cases upd)
        case True
        then show ?thesis unfolding e using \<open>?pt = ?taken\<close> s2 j skew_btb [OF s2(2)] by (auto simp del: if_split_asm)
      next
        case False
        then show ?thesis unfolding e using \<open>?pt = ?taken\<close> ok j skew_btb [OF ok] by (auto simp del: if_split_asm)
      qed
    next
      case False
      then show ?thesis unfolding e using s1 u skew_btb [OF s1(2)] ok by (cases upd) auto
    qed
  qed
qed

lemma yags_taken_total:
  assumes ok: "yags_ok ls s"
  shows "\<exists>p s'. yags_choice_taken i h taken upd s = Some (p, s') \<and> yags_ok ls s'"
proof -
  obtain k where k: "k < 64" "CacheNotTakenMask s = mask k" "length (CacheNotTaken s) = 2 ^ k"
    using ok by (auto simp: yags_ok_def)
  have t: "table_ok (ctableNotTaken s)" using ok by (simp add: yags_ok_def)
  obtain p1 t1 where p1: "SCTable_predict2 h taken (ctableNotTaken s) = Some (p1, t1)" "table_ok t1"
    using predict2_total [OF t] by blast
  obtain p2 t2 where p2: "SCTable_predict2 i taken (ctableNotTaken s) = Some (p2, t2)" "table_ok t2"
    using predict2_total [OF t] by blast
  obtain p3 where p3: "SCTable_predict h (ctableNotTaken s) = Some p3" using predict_total [OF t] by blast
  have "arr_get (CacheNotTaken s) (uint (h AND mask k)) = Some (CacheNotTaken s ! unat (h AND mask k))"
    using arr_mask(1) [OF k(1,3)] .
  then show ?thesis using p1 p2 p3 ok k
    by (auto simp: yags_choice_taken_def yags_ok_def Let_def)
qed

lemma yags_not_taken_total:
  assumes ok: "yags_ok ls s"
  shows "\<exists>p s'. yags_choice_not_taken i h taken upd s = Some (p, s') \<and> yags_ok ls s'"
proof -
  obtain k where k: "k < 64" "CacheTakenMask s = mask k" "length (CacheTaken s) = 2 ^ k"
    using ok by (auto simp: yags_ok_def)
  have t: "table_ok (ctableTaken s)" using ok by (simp add: yags_ok_def)
  obtain p1 t1 where p1: "SCTable_predict2 h taken (ctableTaken s) = Some (p1, t1)" "table_ok t1"
    using predict2_total [OF t] by blast
  obtain p3 where p3: "SCTable_predict h (ctableTaken s) = Some p3" using predict_total [OF t] by blast
  have "arr_get (CacheTaken s) (uint (h AND mask k)) = Some (CacheTaken s ! unat (h AND mask k))"
    using arr_mask(1) [OF k(1,3)] .
  then show ?thesis using p1 p3 ok k
    by (auto simp: yags_choice_not_taken_def yags_ok_def Let_def)
qed

lemma yags_total:
  assumes ok: "yags_ok ls s" and br: "branch_ok ls inst oid"
  shows "\<exists>p s'. BPyags_predict inst oid upd s = Some (p, s') \<and> yags_ok ls s' \<and> p \<noteq> NoPrediction"
proof (cases "isBranchTaken inst")
  case True
  obtain p b where "BPBTB_predict inst oid upd (y_btb s) = Some (p, b)" "btb_ok ls b" "p \<noteq> NoPrediction"
    using btb_total [OF _ br, of "y_btb s" upd] ok by (auto simp: yags_ok_def)
  then show ?thesis using True ok by (simp add: BPyags_predict_def yags_ok_def)
next
  case False
  let ?i = "calcInstID inst" and ?taken = "calcNextInstID inst \<noteq> oid"
  have t: "table_ok (choice_table s)" using ok by (simp add: yags_ok_def)
  obtain ch tb where q: "sc_query upd ?i ?taken (choice_table s) = Some (ch, tb)" "table_ok tb"
    using query_total [OF t] by blast
  let ?g = "(push_bit 1 (y_ghr s) OR ((drop_bit 2 ?i AND 1) XOR (if ?taken then 1 else 0))) AND y_historyMask s"
  let ?s = "(if upd then s\<lparr>y_ghr := ?g\<rparr> else s)\<lparr>choice_table := tb\<rparr>"
  let ?h = "((y_ghr s XOR ?i) AND y_historyMask s) OR push_bit (y_historySize s) ?i"
  have oks: "yags_ok ls ?s" using ok q(2) by (simp add: yags_ok_def)
  obtain pt s3 where c: "(if ch then yags_choice_taken ?i ?h ?taken upd ?s
      else yags_choice_not_taken ?i ?h ?taken upd ?s) = Some (pt, s3)" "yags_ok ls s3"
    using yags_taken_total [OF oks] yags_not_taken_total [OF oks] by (cases ch) (simp, blast)+
  have "btb_ok ls (y_btb s3)" using c(2) by (simp add: yags_ok_def)
  then obtain p b where p: "bp_conclude ?taken pt inst oid upd (y_btb s3) = Some (p, b)" "btb_ok ls b" "p \<noteq> NoPrediction"
    using conclude_total [OF _ br] by metis
  have "BPyags_predict inst oid upd s = Some (p, s3\<lparr>y_btb := b\<rparr>)"
    unfolding BPyags_predict_def Let_def using False q(1) c(1) p(1) by (simp del: if_split)
  then show ?thesis using c(2) p(2,3) by (simp add: yags_ok_def)
qed

subsection \<open>The contract\<close>

text \<open>
  What \<open>BPred::doPredict\<close> and \<open>BPredictor\<close> rely on: on every branch the predictor returns
  and stays well-formed. The stack may abstain (\<open>NoPrediction\<close>); a predictor that never
  does is \<open>direction_predictor\<close>.
\<close>

locale predictor =
  fixes predict :: "instruction \<Rightarrow> 64 word \<Rightarrow> bool \<Rightarrow> 's \<Rightarrow> (PredType \<times> 's) option"
    and ok :: "'s \<Rightarrow> bool"
    and good :: "instruction \<Rightarrow> 64 word \<Rightarrow> bool"
  assumes runs: "ok s \<Longrightarrow> good inst oid \<Longrightarrow> \<exists>p s'. predict inst oid upd s = Some (p, s') \<and> ok s'"
begin

lemma doPredict_runs:
  assumes "ok s" "good inst oid"
  shows "\<exists>p s' st'. BPred_doPredict (predict inst oid upd) upd (s, st) = Some (p, s', st') \<and> ok s' \<and>
    nHit st' = nHit st + of_bool (upd \<and> p = CorrectPrediction) \<and>
    nMiss st' = nMiss st + of_bool (upd \<and> p \<noteq> NoPrediction \<and> p \<noteq> CorrectPrediction) \<and>
    (\<exists>s1. predict inst oid upd s = Some (p, s1))"
  using runs [OF assms, of upd] by (auto simp: BPred_doPredict_def)

end

locale direction_predictor = predictor +
  assumes answers: "ok s \<Longrightarrow> good inst oid \<Longrightarrow> predict inst oid upd s = Some (p, s') \<Longrightarrow> p \<noteq> NoPrediction"
begin

lemma doPredict_counts:
  assumes "ok s" "good inst oid"
  shows "\<exists>p s' st'. BPred_doPredict (predict inst oid upd) upd (s, st) = Some (p, s', st') \<and> ok s' \<and>
    nHit st' + nMiss st' = nHit st + nMiss st + of_bool upd \<and>
    nMiss st' = nMiss st + of_bool (p \<noteq> CorrectPrediction \<and> upd)"
proof -
  obtain p s' st' s1 where d: "BPred_doPredict (predict inst oid upd) upd (s, st) = Some (p, s', st')" "ok s'"
      "nHit st' = nHit st + of_bool (upd \<and> p = CorrectPrediction)"
      "nMiss st' = nMiss st + of_bool (upd \<and> p \<noteq> NoPrediction \<and> p \<noteq> CorrectPrediction)"
      "predict inst oid upd s = Some (p, s1)"
    using doPredict_runs [OF assms, of upd st] by blast
  have "p \<noteq> NoPrediction" using answers [OF assms d(5)] .
  then show ?thesis using d(1-4) by auto
qed

end

lemma ras_total:
  assumes "ras_ok r" "oid \<noteq> 0"
  shows "\<exists>p r'. BPRas_predict inst oid upd r = Some (p, r') \<and> ras_ok r' \<and> (p = NoPrediction) = (\<not> isFuncRet inst)"
proof (cases "stack r")
  case None
  then show ?thesis using assms by (auto simp: BPRas_predict_def)
next
  case (Some st)
  then have I: "length st = RasSize r" "0 \<le> index r" "index r < int (RasSize r)" using assms by (simp_all add: ras_ok_def)
  then show ?thesis using Some assms(2)
    by (auto simp: BPRas_predict_def ras_ok_def arr_get_def arr_set_def Let_def)
qed

lemma bp_total:
  assumes "bp_ok ls s" "branch_ok ls inst oid"
  shows "\<exists>p s'. BPred_predict inst oid upd s = Some (p, s') \<and> bp_ok ls s' \<and> p \<noteq> NoPrediction"
proof (cases s)
  case (Oracle b)
  then show ?thesis using assms btb_total [of ls b inst oid upd] by (auto simp: BPOracle_predict_def)
next
  case NotTaken
  then show ?thesis by (simp add: BPNotTaken_predict_def)
next
  case (Taken b)
  then show ?thesis using assms btb_total [of ls b inst oid upd] by (auto simp: BPTaken_predict_def)
next
  case (Static b)
  then show ?thesis
    using assms conclude_total [of ls b inst oid "calcNextInstID inst \<noteq> oid" "guessTaken inst" upd]
    by (auto simp: BPStatic_predict_def Let_def)
next
  case (TwoBit x)
  then show ?thesis using assms bp2bit_total [of ls x inst oid upd] by auto
next
  case (TwoLevel x)
  then show ?thesis using assms bp2level_total [of ls x inst oid upd] by auto
next
  case (Skew x)
  then show ?thesis using assms skew_total [of ls x inst oid upd] by auto
next
  case (Hybrid x)
  then show ?thesis using assms hybrid_total [of ls x inst oid upd] by auto
next
  case (Yags x)
  then show ?thesis using assms yags_total [of ls x inst oid upd] by auto
next
  case (A21264 x)
  then show ?thesis using assms a21264_total [of ls x inst oid upd] by auto
qed

interpretation rasp: predictor BPRas_predict ras_ok "\<lambda>inst oid. oid \<noteq> 0"
  using ras_total by unfold_locales blast

interpretation bp: direction_predictor BPred_predict "bp_ok ls" "branch_ok ls" for ls
proof unfold_locales
  show "\<exists>p s'. BPred_predict inst oid upd s = Some (p, s') \<and> bp_ok ls s'" if "bp_ok ls s" "branch_ok ls inst oid"
    for s inst oid upd using bp_total [OF that] by blast
  show "p \<noteq> NoPrediction" if "bp_ok ls s" "branch_ok ls inst oid" "BPred_predict inst oid upd s = Some (p, s')"
    for s inst oid upd p s' using bp_total [OF that(1,2), of upd] that(3) by auto
qed

subsection \<open>BPredictor\<close>

text \<open>Both parts are well-formed, and the counters agree.\<close>

definition bpredictor_ok :: "nat \<Rightarrow> bpredictor \<Rightarrow> bool" where
  "bpredictor_ok ls s = (case bp_ras s of (r, rs) \<Rightarrow> case bp_pred s of (q, qs) \<Rightarrow>
     ras_ok r \<and> bp_ok ls q \<and>
     bp_nBranches s = nHit rs + nMiss rs + nHit qs + nMiss qs \<and>
     bp_nMiss s = nMiss rs + nMiss qs)"

lemma bpredictor_step:
  assumes ok: "bpredictor_ok ls s" and br: "branch_ok ls inst oid" "isBranch inst"
  shows "\<exists>p s'. BPredictor_predict inst oid upd s = Some (p, s') \<and> bpredictor_ok ls s' \<and>
    bp_nBranches s' = bp_nBranches s + of_bool upd \<and>
    bp_nMiss s' = bp_nMiss s + of_bool (p \<noteq> CorrectPrediction \<and> upd) \<and>
    bp_nTaken s' = bp_nTaken s + of_bool (calcNextInstID inst \<noteq> oid)"
proof -
  obtain r rs q qs where s: "bp_ras s = (r, rs)" "bp_pred s = (q, qs)" by (metis surj_pair)
  have I: "ras_ok r" "bp_ok ls q" "bp_nBranches s = nHit rs + nMiss rs + nHit qs + nMiss qs"
      "bp_nMiss s = nMiss rs + nMiss qs" using ok s by (simp_all add: bpredictor_ok_def)
  have oid: "oid \<noteq> 0" using br(1) by (simp add: branch_ok_def)
  obtain p r1 rs1 where r: "BPred_doPredict (BPRas_predict inst oid upd) upd (r, rs) = Some (p, r1, rs1)"
      "ras_ok r1" "nHit rs1 = nHit rs + of_bool (upd \<and> p = CorrectPrediction)"
      "nMiss rs1 = nMiss rs + of_bool (upd \<and> p \<noteq> NoPrediction \<and> p \<noteq> CorrectPrediction)"
    using rasp.doPredict_runs [OF I(1), of oid inst upd rs] oid by blast
  obtain p2 q1 qs1 where q: "BPred_doPredict (BPred_predict inst oid upd) upd (q, qs) = Some (p2, q1, qs1)"
      "bp_ok ls q1" "nHit qs1 + nMiss qs1 = nHit qs + nMiss qs + of_bool upd"
      "nMiss qs1 = nMiss qs + of_bool (p2 \<noteq> CorrectPrediction \<and> upd)"
    using bp.doPredict_counts [OF I(2) br(1), of upd qs] by blast
  show ?thesis
  proof (cases "p = NoPrediction")
    case True
    have n: "nHit rs1 = nHit rs" "nMiss rs1 = nMiss rs" using r(3,4) True by simp_all
    show ?thesis
      unfolding BPredictor_predict_def Let_def using s r(1) q(1) br(2) True n I r(2) q(2-4)
      by (simp add: bpredictor_ok_def)
  next
    case False
    then show ?thesis
      unfolding BPredictor_predict_def Let_def using s r br(2) I
      by (cases upd) (auto simp: bpredictor_ok_def)
  qed
qed

text \<open>A run over a trace of branches: instruction, next instruction, update or not.\<close>

fun bp_run :: "(instruction \<times> 64 word \<times> bool) list \<Rightarrow> bpredictor \<Rightarrow> (PredType list \<times> bpredictor) option" where
  "bp_run [] s = Some ([], s)"
| "bp_run ((inst, oid, upd) # tr) s = do {
     (p, s1) \<leftarrow> BPredictor_predict inst oid upd s;
     (ps, s2) \<leftarrow> bp_run tr s1;
     Some (p # ps, s2) }"

lemma bp_run_counts:
  assumes "bpredictor_ok ls s" "\<forall>(inst, oid, upd)\<in>set tr. isBranch inst \<and> branch_ok ls inst oid"
  shows "\<exists>ps s'. bp_run tr s = Some (ps, s') \<and> bpredictor_ok ls s' \<and> length ps = length tr \<and>
    bp_nBranches s' = bp_nBranches s + length (filter (\<lambda>(inst, oid, upd). upd) tr) \<and>
    bp_nMiss s' = bp_nMiss s +
      length (filter (\<lambda>(p, inst, oid, upd). upd \<and> p \<noteq> CorrectPrediction) (zip ps tr))"
  using assms
proof (induction tr arbitrary: s)
  case (Cons e tr)
  obtain inst oid upd where e: "e = (inst, oid, upd)" by (cases e)
  obtain p s1 where p: "BPredictor_predict inst oid upd s = Some (p, s1)" "bpredictor_ok ls s1"
      "bp_nBranches s1 = bp_nBranches s + of_bool upd"
      "bp_nMiss s1 = bp_nMiss s + of_bool (p \<noteq> CorrectPrediction \<and> upd)"
    using bpredictor_step [OF Cons.prems(1), of inst oid upd] Cons.prems(2) e by auto
  obtain ps s2 where r: "bp_run tr s1 = Some (ps, s2)" "bpredictor_ok ls s2" "length ps = length tr"
      "bp_nBranches s2 = bp_nBranches s1 + length (filter (\<lambda>(inst, oid, upd). upd) tr)"
      "bp_nMiss s2 = bp_nMiss s1 +
        length (filter (\<lambda>(p, inst, oid, upd). upd \<and> p \<noteq> CorrectPrediction) (zip ps tr))"
    using Cons.IH [OF p(2)] Cons.prems(2) by auto
  show ?case using p r e by (cases upd) auto
qed simp

subsection \<open>Construction\<close>

text \<open>
  The entries that the checks of the constructors admit to be zero, although a table of
  that size follows, are positive; all entries fit a \<open>long\<close>.
\<close>

definition conf_ok :: "(string \<Rightarrow> nat) \<Rightarrow> bool" where
  "conf_ok conf = ((\<forall>n\<in>{''l1Size'', ''l2Size'', ''l2size'', ''mSize'', ''bhtSize''}. 0 < conf n) \<and>
     (\<forall>n. conf n < 2 ^ 63))"

lemma conf_less: "conf_ok conf \<Longrightarrow> conf n < 2 ^ 64"
  by (auto simp: conf_ok_def dest: spec [of _ n])

lemma conf_table:
  "conf_ok conf \<Longrightarrow> SCTable_new (conf n) b = Some t \<Longrightarrow> 0 < conf n \<Longrightarrow> table_ok t \<and> is_pow2 (conf n)"
  using table_new [of "conf n" b t] conf_less [of conf n] by simp

lemma conf_pow2: "conf_ok conf \<Longrightarrow> is_pow2 (conf n) \<Longrightarrow> 0 < conf n \<Longrightarrow> \<exists>k<64. conf n = 2 ^ k"
  using pow2_cases [of "conf n"] conf_less [of conf n] by simp

lemma conf_pos:
  assumes "conf_ok conf"
  shows "0 < conf ''l1Size''" "0 < conf ''l2Size''" "0 < conf ''l2size''" "0 < conf ''mSize''" "0 < conf ''bhtSize''"
  using assms by (simp_all add: conf_ok_def)

lemma bp2bit_new_ok: "conf_ok conf \<Longrightarrow> btb_ok ls b \<Longrightarrow> BP2bit_new b conf = Some s \<Longrightarrow> bp2bit_ok ls s"
  using conf_table by (auto simp: BP2bit_new_def bp2bit_ok_def split: bind_splits)

lemma u16_of_nat: "n < 65536 \<Longrightarrow> u16 (int n) = n"
  by (simp add: u16_def)

lemma bp2level_new_ok:
  assumes c: "conf_ok conf" and b: "btb_ok ls b" and n: "BP2level_new b conf junk = Some s"
  shows "bp2level_ok ls s"
proof -
  have h: "is_pow2 (conf ''l1Size'')" "conf ''l1Size'' \<le> 32768"
    using n by (auto simp: BP2level_new_def Let_def split: bind_splits)
  obtain k where k: "k < 64" "conf ''l1Size'' = 2 ^ k" using conf_pow2 [OF c h(1)] conf_pos [OF c] by blast
  have "k \<le> 15"
  proof (rule ccontr)
    assume "\<not> k \<le> 15"
    then have "(2::nat) ^ 16 \<le> 2 ^ k" by (intro power_increasing) simp_all
    then show False using h(2) k(2) by simp
  qed
  moreover have "u16 (int (conf ''l1Size'')) = conf ''l1Size''" using h(2) by (intro u16_of_nat) simp
  then have u: "u16 (int (conf ''l1Size'')) = 2 ^ k" unfolding k(2) .
  moreover from n u obtain t hm where t: "SCTable_new (conf ''l2Size'') (conf ''l2Bits'') = Some t"
      "s = \<lparr>l2_btb = b, l1SizeMask = word_of_int (int (2 ^ k) - 1),
        historySize = u16 (int (conf ''historySize'')), historyMask = hm, l2_globalTable = t,
        historyTable = map junk [0..<2 ^ k]\<rparr>"
    by (auto simp: BP2level_new_def Let_def split: bind_splits)
  ultimately show ?thesis using b conf_table [OF c t(1) conf_pos(2) [OF c]]
    unfolding bp2level_ok_def t(2) size_mask by (intro conjI exI [of _ k]) simp_all
qed

lemma tournament_new_ok:
  assumes c: "conf_ok conf" and b: "btb_ok ls b" and n: "tournament_new narrow toMask b conf junk = Some s"
    and nb: "narrow (conf ''bhtSize'') = conf ''bhtSize''"
    and mk: "\<And>n. 0 < n \<Longrightarrow> n < 2 ^ 16 \<Longrightarrow> toMask (int n - 1) = word_of_int (int n - 1)"
  shows "tournament_ok ls s"
    and "2 ^ narrow (conf ''lHistSize'') \<le> conf ''bhtSize'' \<Longrightarrow> history_fits s"
proof -
  let ?g = "narrow (conf ''gHistSize'')" and ?l = "narrow (conf ''lHistSize'')"
  have h: "is_pow2 (conf ''bhtSize'')" "conf ''bhtSize'' < 2 ^ 16"
    using n nb by (auto simp: tournament_new_def Let_def split: bind_splits)
  obtain k where k: "k < 64" "conf ''bhtSize'' = 2 ^ k" using conf_pow2 [OF c h(1)] conf_pos [OF c] by blast
  obtain gm lm lt gt mt where t: "shift_mask ?g = Some gm" "shift_mask ?l = Some lm"
      "SCTable_new (2 ^ ?l) (conf ''lBits'') = Some lt" "SCTable_new (2 ^ ?g) (conf ''gBits'') = Some gt"
      "SCTable_new (conf ''mSize'') (conf ''mBits'') = Some mt"
      "s = \<lparr>h_btb = b, gHistMask = gm, lHistMask = lm, bhtSize = conf ''bhtSize'',
           bhtMask = word_of_int (int (conf ''bhtSize'') - 1), mMask = word_of_int (int (conf ''mSize'') - 1),
           ghr = junk, bht = replicate (conf ''bhtSize'') 0, localTable = lt, globalTable = gt, metaTable = mt\<rparr>"
    using n nb mk [OF conf_pos(5) [OF c] h(2)] by (auto simp: tournament_new_def Let_def split: bind_splits)
  have small: "?g < 31" "?l < 31" and lm: "lm = mask ?l"
    using t(1,2) by (simp_all add: shift_mask_def push_bit_eq_mult mask_eq_exp_minus_1 split: if_splits)
  have p: "(2::nat) ^ m < 2 ^ 64" if "m < 31" for m
    using that by (intro power_strict_increasing) simp_all
  have "table_ok lt" "table_ok gt" using table_new(1) [OF t(3)] table_new(1) [OF t(4)] p small by simp_all
  then show "tournament_ok ls s" using b conf_table [OF c t(5) conf_pos(4) [OF c]] k(1)
    unfolding tournament_ok_def t(6) k(2) size_mask by (intro conjI exI [of _ k]) simp_all
  show "history_fits s" if "2 ^ ?l \<le> conf ''bhtSize''"
    using that small(2) unfolding history_fits_def t(6) lm by (intro exI [of _ ?l]) simp
qed

lemma skew_new_ok: "conf_ok conf \<Longrightarrow> btb_ok ls b \<Longrightarrow> BP2BcgSkew_new b conf = Some s \<Longrightarrow> skew_ok ls s"
  using conf_table by (auto simp: BP2BcgSkew_new_def skew_ok_def Let_def split: bind_splits)

lemma yags_new_ok:
  assumes c: "conf_ok conf" and b: "btb_ok ls b" and n: "BPyags_new b conf j j1 j2 = Some s"
  shows "yags_ok ls s"
proof -
  obtain t t1 t2 where t: "SCTable_new (conf ''size'') (conf ''bits'') = Some t"
      "SCTable_new (conf ''l1size'') (conf ''l1bits'') = Some t1"
      "SCTable_new (conf ''l2size'') (conf ''l2bits'') = Some t2"
      "s = \<lparr>y_btb = b, y_historySize = 24, y_historyMask = push_bit 24 1 - 1,
           choice_table = t, ctableTaken = t1, ctableNotTaken = t2, y_ghr = j,
           CacheTaken = map j1 [0..<conf ''l1size''],
           CacheTakenMask = word_of_int (int (conf ''l1size'') - 1),
           CacheTakenTagMask = push_bit (conf ''tagbits'') 1 - 1,
           CacheNotTaken = map j2 [0..<conf ''l2size''],
           CacheNotTakenMask = word_of_int (int (conf ''l2size'') - 1),
           CacheNotTakenTagMask = push_bit (conf ''tagbits'') 1 - 1\<rparr>"
    using n by (auto simp: BPyags_new_def split: bind_splits)
  have pos: "0 < conf ''size''" "0 < conf ''l1size''" "0 < conf ''l2size''"
    using n conf_pos(3) [OF c] by (auto simp: BPyags_new_def split: bind_splits)
  obtain k1 where k1: "k1 < 64" "conf ''l1size'' = 2 ^ k1" using conf_pow2 [OF c] conf_table [OF c t(2)] pos by blast
  obtain k2 where k2: "k2 < 64" "conf ''l2size'' = 2 ^ k2" using conf_pow2 [OF c] conf_table [OF c t(3)] pos by blast
  show ?thesis
    using b conf_table [OF c t(1) pos(1)] conf_table [OF c t(2) pos(2)] conf_table [OF c t(3) pos(3)] k1(1) k2(1)
    unfolding yags_ok_def t(4) k1(2) k2(2) size_mask
    by (intro conjI exI [of _ k1] exI [of _ k2]) simp_all
qed

lemma getBPred_ok:
  assumes c: "conf_ok conf" and b: "btb_ok ls b" and n: "BPredictor_getBPred type b conf j = Some p"
    and fits: "strcasecmp_eq type ''A21264'' \<Longrightarrow>
      2 ^ conf ''lHistSize'' \<le> conf ''bhtSize'' \<and> conf ''bhtSize'' < 2 ^ 16"
  shows "bp_ok ls p"
proof (cases p)
  case (A21264 s)
  then have e: "strcasecmp_eq type ''A21264''" and s: "BPA21264_new b conf (j_ghr j) = Some s"
    using n by (auto simp: BPredictor_getBPred_def split: if_splits)
  have f: "2 ^ conf ''lHistSize'' \<le> conf ''bhtSize''" "conf ''bhtSize'' < 2 ^ 16" using fits [OF e] by simp_all
  have "conf ''lHistSize'' < 2 ^ conf ''lHistSize''" by (rule less_exp)
  also have "\<dots> < 2 ^ 16" using f by (rule le_less_trans)
  finally have l: "conf ''lHistSize'' < 65536" by simp
  have u: "u16 (int (conf ''bhtSize'')) = conf ''bhtSize''" "u16 (int (conf ''lHistSize'')) = conf ''lHistSize''"
    using f(2) l by (simp_all add: u16_def)
  have "of_nat (u16 (int n - 1)) = (word_of_int (int n - 1) :: 64 word)" if "0 < n" "n < 2 ^ 16" for n :: nat
  proof -
    have i: "int n - 1 = int (n - 1)" using that(1) by simp
    have "u16 (int (n - 1)) = n - 1" using that(2) by (intro u16_of_nat) simp
    then show ?thesis unfolding i by simp
  qed
  then show ?thesis using tournament_new_ok [OF c b s [unfolded BPA21264_new_def]] u f(1) A21264 by simp
next
  case (Hybrid s)
  then have "BPHybrid_new b conf (j_ghr j) = Some s"
    using n by (auto simp: BPredictor_getBPred_def split: if_splits)
  then show ?thesis using tournament_new_ok(1) [OF c b, of "\<lambda>n. n" word_of_int] Hybrid by (simp add: BPHybrid_new_def)
next
  case (TwoBit s)
  then have "BP2bit_new b conf = Some s" using n by (auto simp: BPredictor_getBPred_def split: if_splits)
  then show ?thesis using bp2bit_new_ok [OF c b] TwoBit by simp
next
  case (TwoLevel s)
  then have "BP2level_new b conf (j_history j) = Some s"
    using n by (auto simp: BPredictor_getBPred_def split: if_splits)
  then show ?thesis using bp2level_new_ok [OF c b] TwoLevel by simp
next
  case (Skew s)
  then have "BP2BcgSkew_new b conf = Some s" using n by (auto simp: BPredictor_getBPred_def split: if_splits)
  then show ?thesis using skew_new_ok [OF c b] Skew by simp
next
  case (Yags s)
  then have "BPyags_new b conf (j_ghr j) (j_cache j) (j_cache2 j) = Some s"
    using n by (auto simp: BPredictor_getBPred_def split: if_splits)
  then show ?thesis using yags_new_ok [OF c b] Yags by simp
qed (use n b in \<open>auto simp: BPredictor_getBPred_def split: if_splits\<close>)

lemma bpredictor_new_ok:
  assumes c: "conf_ok conf" and b: "btb_ok ls b" and n: "BPredictor_new rasSize type b conf j None = Some s"
    and fits: "strcasecmp_eq type ''A21264'' \<Longrightarrow>
      2 ^ conf ''lHistSize'' \<le> conf ''bhtSize'' \<and> conf ''bhtSize'' < 2 ^ 16"
  shows "bpredictor_ok ls s \<and> bp_nBranches s = 0 \<and> bp_nMiss s = 0"
proof -
  obtain r p where r: "BPRas_new rasSize (j_history j) = Some r" "BPredictor_getBPred type b conf j = Some p"
      "s = \<lparr>bp_ras = (r, \<lparr>nHit = 0, nMiss = 0\<rparr>), bp_pred = (p, \<lparr>nHit = 0, nMiss = 0\<rparr>), bp_nBranches = 0,
        bp_nTaken = 0, bp_nMiss = 0\<rparr>"
    using n by (auto simp: BPredictor_new_def split: bind_splits)
  have "ras_ok r" using r(1) by (auto simp: BPRas_new_def ras_ok_def split: if_splits)
  then show ?thesis using getBPred_ok [OF c b r(2) fits] r(3) by (simp add: bpredictor_ok_def)
qed

subsection \<open>Tables of size zero\<close>

text \<open>
  The checks of BP2Level accept a first level of size zero (zero passes both \<open>isPower2\<close> and
  \<open>isBetween\<close>): the predictor is built, and its first prediction of a conditional branch
  reads beyond the empty history table.
\<close>

theorem level2_zero_size:
  assumes "BP2level_new b conf junk = Some s" "conf ''l1Size'' = 0" "\<not> isBranchTaken inst"
  shows "BP2level_predict inst oracleID doUpdate s = None"
proof -
  have "historyTable s = []" using assms(1,2) by (auto simp: BP2level_new_def Let_def u16_def split: bind_splits)
  then show ?thesis using assms(3) by (simp add: BP2level_predict_def Let_def arr_get_def)
qed

theorem level2_zero_size_built:
  "\<exists>s. BP2level_new b (\<lambda>n. if n = ''l1Size'' then 0 else 2) junk = Some s \<and>
    (\<not> isBranchTaken inst \<longrightarrow> BP2level_predict inst oracleID doUpdate s = None)"
proof -
  let ?conf = "\<lambda>n. if n = ''l1Size'' then 0 else 2 :: nat"
  obtain t where "SCTable_new 2 2 = Some t" using SCTable_new_ok [of 1 2] by auto
  moreover have "is_pow2 2" "is_pow2 0" using pow2_test_exp [of 1] by (simp_all add: is_pow2_def)
  ultimately obtain s where s: "BP2level_new b ?conf junk = Some s"
    by (simp add: BP2level_new_def Let_def u16_def shift_mask_def)
  then show ?thesis using level2_zero_size [OF s] by simp
qed

end
