(* ===== verification/Branch_Properties.thy ===== *)
theory Branch_Properties
  imports BPredictor_Correct
begin

text \<open>The properties of the branch predictors, with their witnesses.\<close>

subsection \<open>Examples\<close>

text \<open>A target buffer with one set of two entries, and some branches.\<close>

definition btb_cache2 :: "btb_line cache" where
  "btb_cache2 = \<lparr>g_size = 2, lineSize = 1, addrUnit = 1, assoc = 2, log2Assoc = 1, log2AddrLs = 0,
     maskAssoc = 1, sets = 1, maskSets = 0, numLines = 2,
     mem = [\<lparr>bt_tag = 0, bt_inst = 0\<rparr>, \<lparr>bt_tag = 0, bt_inst = 0\<rparr>, \<lparr>bt_tag = 0, bt_inst = 0\<rparr>],
     content = [0, 1], irand = 0, repl_policy = LRU, goodInterface = False\<rparr>"

definition btb2 :: btb where
  "btb2 = \<lparr>bt_build = \<lparr>Energy = False, SESC_SMP = False\<rparr>, data = Some (CacheAssoc, btb_cache2),
     bt_nHit = 0, bt_nMiss = 0\<rparr>"

definition branch_at :: "64 word \<Rightarrow> InstSubType \<Rightarrow> instruction" where
  "branch_at i sub = \<lparr>currentID = i, skipDelay = 1, getAddr = 4 * i, opcode = iBJ, subCode = sub, guessTaken = False\<rparr>"

lemma btb2_ok: "btb_ok 0 btb2"
proof -
  have g: "geom_ok btb_cache2"
    unfolding geom_ok_def
    by (rule exI [of _ 1], rule exI [of _ 0]) (simp add: btb_cache2_def)
  moreover have "mset (content btb_cache2) = mset [0..<numLines btb_cache2]"
  proof -
    have "[0..<2] = [0, 1]" by (simp add: upt_conv_Cons)
    then show ?thesis by (simp only: btb_cache2_def cache.simps geometry.simps)
  qed
  moreover have "lines_ok BTBState btb_cache2" "unique_ok BTBState btb_cache2"
    by (simp_all add: lines_ok_def unique_ok_def btb_cache2_def)
  moreover have "home_ok BTBState btb_cache2"
    unfolding home_ok_def by (simp add: btb_cache2_def less_Suc_eq numeral_2_eq_2)
  ultimately have "cache_ok BTBState btb_cache2" by (simp add: cache_ok_def) (simp add: btb_cache2_def)
  then show ?thesis by (simp add: btb_ok_def btb2_def dispatch_ok_def) (simp add: btb_cache2_def)
qed

subsection \<open>Return address stack\<close>

text \<open>C26: The return address stack is a stack of bounded depth that forgets its oldest entry. A
call pushes its return address; a return that updates the stack pops the top, and the
prediction is correct exactly when the top is the address that is returned to. Indices wrap
around and stay in range.\<close>

theorem ras_bounded_stack:
  assumes "ras_ok r" "ras_holds r xs" "oracleID \<noteq> 0"
  shows "(isFuncCall inst \<longrightarrow>
      (\<exists>r'. BPRas_predict inst oracleID True r = Some (NoPrediction, r') \<and> ras_ok r' \<and>
         ras_holds r' (take (RasSize r) (calcNextInstID inst # xs)))) \<and>
    (isFuncRet inst \<longrightarrow>
      (\<exists>p r'. BPRas_predict inst oracleID True r = Some (p, r') \<and> ras_ok r' \<and> ras_holds r' (tl xs) \<and>
         (xs \<noteq> [] \<longrightarrow> p = (if oracleID = hd xs then CorrectPrediction else MissPrediction))))"
  using ras_push [OF assms(1,2), of inst oracleID] ras_pop [OF assms(1,2) _ assms(3), of inst] by blast

definition ras2 :: ras where
  "ras2 = \<lparr>RasSize = 2, stack = Some [8, 5], index = 0\<rparr>"

lemma ras2_ok: "ras_ok ras2" "ras_holds ras2 [5, 8]"
proof -
  show "ras_ok ras2" by (simp add: ras_ok_def ras2_def)
  have "ras_entry ras2 [8, 5] 0 = 5" "ras_entry ras2 [8, 5] 1 = 8"
    by (simp_all add: ras_entry_def ras2_def)
  then have "\<forall>i<length [5, 8 :: 64 word]. ras_entry ras2 [8, 5] i = [5, 8] ! i"
    by (simp add: less_Suc_eq numeral_2_eq_2)
  then show "ras_holds ras2 [5, 8]"
    unfolding ras_holds_def by (intro exI [of _ "[8, 5]"]) (simp add: ras2_def)
qed

theorem ras_bounded_stack_witness:
  "(\<exists>r'. BPRas_predict (branch_at 6 BJCall) 9 True ras2 = Some (NoPrediction, r') \<and> ras_holds r' [7, 5]) \<and>
   (\<exists>p r'. BPRas_predict (branch_at 6 BJRet) 5 True ras2 = Some (p, r') \<and> p = CorrectPrediction \<and> ras_holds r' [8])"
proof -
  have s: "isFuncCall (branch_at 6 BJCall)" "isFuncRet (branch_at 6 BJRet)"
      "calcNextInstID (branch_at 6 BJCall) = 7" "RasSize ras2 = 2"
    by (simp_all add: isFuncCall_def isFuncRet_def calcNextInstID_def branch_at_def ras2_def)
  note c = ras_bounded_stack [OF ras2_ok, of 9 "branch_at 6 BJCall"]
  note d = ras_bounded_stack [OF ras2_ok, of 5 "branch_at 6 BJRet"]
  have t: "take (RasSize ras2) (calcNextInstID (branch_at 6 BJCall) # [5, 8]) = [7, 5]" using s(3,4) by simp
  have "\<exists>r'. BPRas_predict (branch_at 6 BJCall) 9 True ras2 = Some (NoPrediction, r') \<and> ras_holds r' [7, 5]"
    using c s(1) unfolding t by auto
  moreover have "\<exists>p r'. BPRas_predict (branch_at 6 BJRet) 5 True ras2 = Some (p, r') \<and> p = CorrectPrediction \<and> ras_holds r' [8]"
    using d s(2) by auto
  ultimately show ?thesis by blast
qed

text \<open>A return that is predicted without an update (every prediction, in a build that trains at
retirement) looks at the slot above the top, not at the top: it is predicted correctly only
when the abandoned entry there happens to be the return address.\<close>

theorem ras_peek_above_top:
  assumes "ras_ok r" "stack r = Some st" "ras_holds r (x # xs)" "isFuncRet inst" "x \<noteq> 0"
  shows "BPRas_predict inst x False r =
      Some (if st ! nat (index r) = x then CorrectPrediction else MissPrediction, r) \<and>
    (\<exists>r'. BPRas_predict inst x True r = Some (CorrectPrediction, r'))"
proof -
  have I: "length st = RasSize r" "0 \<le> index r" "index r < int (RasSize r)" using assms(1,2) by (simp_all add: ras_ok_def)
  have "BPRas_predict inst x False r =
      Some (if st ! nat (index r) = x then CorrectPrediction else MissPrediction, r)"
    using assms(2,4,5) I by (simp add: BPRas_predict_def arr_get_def Let_def)
  moreover have "\<exists>r'. BPRas_predict inst x True r = Some (CorrectPrediction, r')"
    using ras_pop [OF assms(1,3,4,5)] by auto
  ultimately show ?thesis by blast
qed

theorem ras_peek_above_top_witness:
  "BPRas_predict (branch_at 6 BJRet) 5 False ras2 = Some (MissPrediction, ras2) \<and>
   (\<exists>r'. BPRas_predict (branch_at 6 BJRet) 5 True ras2 = Some (CorrectPrediction, r'))"
proof -
  have s: "isFuncRet (branch_at 6 BJRet)" "stack ras2 = Some [8, 5]" "index ras2 = 0"
    by (simp_all add: isFuncRet_def branch_at_def ras2_def)
  show ?thesis using ras_peek_above_top [OF ras2_ok(1) s(2) ras2_ok(2) s(1)] s(3) by simp
qed

subsection \<open>Target buffer\<close>

text \<open>C34: After the target buffer is told the target of a taken branch, it predicts that target for
the branch, whatever it held before and whichever cache class it is built on.\<close>

theorem btb_learns_target:
  assumes "btb_ok ls b" "branch_ok ls inst oracleID" "calcNextInstID inst \<noteq> oracleID"
  shows "\<exists>b' b''. BPBTB_updateOnly inst oracleID b = Some b' \<and> btb_ok ls b' \<and>
    BPBTB_predict inst oracleID False b' = Some (CorrectPrediction, b'')"
  using btb_learns [OF assms(1,2)] assms(3) by blast

theorem btb_learns_target_witness:
  "\<exists>b' b''. BPBTB_updateOnly (branch_at 6 BJCond) 20 btb2 = Some b' \<and>
    BPBTB_predict (branch_at 6 BJCond) 20 False b' = Some (CorrectPrediction, b'')"
proof -
  have "branch_ok 0 (branch_at 6 BJCond) 20" "calcNextInstID (branch_at 6 BJCond) \<noteq> 20"
    by (simp_all add: branch_ok_def branch_at_def calcNextInstID_def)
  then show ?thesis using btb_learns_target [OF btb2_ok] by blast
qed

subsection \<open>Counters\<close>

text \<open>C33: A saturating counter of b bits learns a constant outcome: in a run of n equal outcomes of
one branch it errs at most 2^(b-1) times, and after 2^(b-1) of them it predicts that outcome.
The counters of other indices keep their values, and so their predictions, and no counter
leaves its range.\<close>

theorem counters_learn:
  assumes "sc_ok k b t"
  shows "\<exists>ps t'. sc_train cid (replicate n taken) t = Some (ps, t') \<and> sc_ok k b t' \<and>
    length (filter (\<lambda>p. p \<noteq> taken) ps) \<le> 2 ^ (b - 1) \<and>
    (2 ^ (b - 1) \<le> n \<longrightarrow> SCTable_predict cid t' = Some taken) \<and>
    (\<forall>c. sc_index t c \<noteq> sc_index t cid \<longrightarrow>
      counters t' ! sc_index t c = counters t ! sc_index t c \<and> SCTable_predict c t' = SCTable_predict c t)"
proof -
  have b: "1 \<le> b" using assms by (simp add: sc_ok_def)
  obtain ps t' where t: "sc_train cid (replicate n taken) t = Some (ps, t')" "sc_ok k b t'"
      "length (filter (\<lambda>p. p \<noteq> taken) ps) = min n (sc_distance b taken (counter t cid))"
      "sc_distance b taken (counter t' cid) = sc_distance b taken (counter t cid) - n"
      "\<forall>c. sc_index t c \<noteq> sc_index t cid \<longrightarrow> counter t' c = counter t c"
    using sc_train_same [OF assms] by blast
  have d: "sc_distance b taken (counter t cid) \<le> 2 ^ (b - 1)"
    using sc_distance_step(3) [OF b counter_max [OF assms]] .
  moreover have "SCTable_predict cid t' = Some taken" if "2 ^ (b - 1) \<le> n"
    using sc_distance_step(2) [OF b counter_max [OF t(2)], of cid taken] SCTable_predict_eq [OF t(2), of cid]
      t(4) d that by auto
  moreover have same: "counters t' ! sc_index t c = counters t ! sc_index t c"
    if "sc_index t c \<noteq> sc_index t cid" for c
  proof -
    have "sizeMask t' = sizeMask t" using assms t(2) by (simp add: sc_ok_def)
    then have "sc_index t' c = sc_index t c" by (simp add: sc_index_def)
    then show ?thesis using t(5) [rule_format, OF that] unfolding counter_def by (metis unsigned_word_eqI)
  qed
  ultimately show ?thesis
    using t same SCTable_predict_eq [OF assms] SCTable_predict_eq [OF t(2)]
    by (intro exI [of _ ps] exI [of _ t']) simp
qed

theorem counters_learn_witness:
  "\<exists>t ps t'. SCTable_new 4 2 = Some t \<and> sc_train 5 [True, True, True] t = Some (ps, t') \<and>
    length (filter (\<lambda>p. p \<noteq> True) ps) \<le> 2 \<and> SCTable_predict 5 t' = Some True"
proof -
  obtain t where t: "SCTable_new 4 2 = Some t" "sc_ok 2 2 t" using SCTable_new_ok [of 2 2] by auto
  obtain ps t' where "sc_train 5 (replicate 3 True) t = Some (ps, t')"
      "length (filter (\<lambda>p. p \<noteq> True) ps) \<le> 2" "SCTable_predict 5 t' = Some True"
    using counters_learn [OF t(2), of 5 3 True] by auto
  moreover have "replicate 3 True = [True, True, True]" by (simp add: numeral_3_eq_3)
  ultimately show ?thesis using t(1) by metis
qed

subsection \<open>A21264\<close>

text \<open>C35: A21264 keeps one history per branch, and reads the one at index L1, but a branch that
updates it shifts its outcome into the entry at L2, the history it read: the history that
predicts the branch stays as it is unless L1 = L2, and a history beyond the table is an
access out of bounds.\<close>

theorem a21264_history:
  assumes "tournament_ok ls s" "branch_ok ls inst oracleID" "\<not> isBranchTaken inst"
    and "L1 = unat (calcInstID inst AND bhtMask s)" "L2 = unat (bht s ! L1 AND lHistMask s)"
  shows "(length (bht s) \<le> L2 \<longrightarrow> BPA21264_predict inst oracleID True s = None) \<and>
    (L2 < length (bht s) \<longrightarrow>
      (\<exists>p s'. BPA21264_predict inst oracleID True s = Some (p, s') \<and> tournament_ok ls s' \<and>
        bht s' = (bht s)[L2 := shift_in (bht s ! L2) (calcNextInstID inst \<noteq> oracleID)] \<and>
        (L1 \<noteq> L2 \<longrightarrow> bht s' ! L1 = bht s ! L1)))"
proof -
  obtain k where k: "k < 64" "bhtMask s = mask k" "length (bht s) = 2 ^ k" using assms(1) by (auto simp: tournament_ok_def)
  let ?taken = "calcNextInstID inst \<noteq> oracleID" and ?i = "calcInstID inst"
  have L: "unat (?i AND mask k) = L1" "L1 < length (bht s)"
    using and_mask_less [OF k(1), of ?i] assms(4) k by simp_all
  let ?j = "bht s ! L1 AND lHistMask s"
  let ?s = "s\<lparr>ghr := shift_in (ghr s) ?taken, bht := (bht s)[L2 := shift_in (bht s ! L2) ?taken]\<rparr>"
  have "BPA21264_predict inst oracleID True s = None" if "length (bht s) \<le> L2"
    using that assms(3,5) k L by (simp add: BPA21264_predict_def Let_def arr_word)
  moreover have "BPA21264_predict inst oracleID True s =
      tournament_choose (ghr s AND gHistMask s) ?j (?i AND mMask s) ?taken inst oracleID True ?s"
    if "L2 < length (bht s)"
    using that assms(3,5) k L by (simp add: BPA21264_predict_def Let_def arr_word)
  moreover have "tournament_ok ls ?s" using assms(1) by (simp add: tournament_ok_def)
  then obtain p s' where "tournament_choose (ghr s AND gHistMask s) ?j (?i AND mMask s) ?taken inst oracleID True ?s = Some (p, s')"
      "tournament_ok ls s'" "bht s' = bht ?s"
    using choose_total [OF _ assms(2)] by blast
  ultimately show ?thesis by simp
qed

text \<open>Sixteen entries with a history of four bits, where the branch at 6 has seen the
outcomes 1 and 1: entry 3 gets its outcome.\<close>

definition a21264_16 :: "sctable \<Rightarrow> tournament" where
  "a21264_16 t = \<lparr>h_btb = btb2, gHistMask = mask 4, lHistMask = mask 4, bhtSize = 16, bhtMask = mask 4,
     mMask = mask 2, ghr = 0, bht = (replicate 16 0)[6 := 3], localTable = t, globalTable = t, metaTable = t\<rparr>"

theorem a21264_history_witness:
  "\<exists>t p s'. SCTable_new 4 2 = Some t \<and>
    BPA21264_predict (branch_at 6 BJCond) 20 True (a21264_16 t) = Some (p, s') \<and>
    bht s' = (replicate 16 0)[6 := 3, 3 := 1] \<and> bht s' ! 6 = 3"
proof -
  obtain t where t: "SCTable_new 4 2 = Some t" "sc_ok 2 2 t" using SCTable_new_ok [of 2 2] by auto
  let ?s = "a21264_16 t" and ?i = "branch_at 6 BJCond"
  have tt: "table_ok t" using t(2) unfolding table_ok_def by blast
  have ok: "tournament_ok 0 ?s"
    unfolding tournament_ok_def
    using btb2_ok tt by (auto simp: a21264_16_def intro!: exI [of _ 4])
  have b: "branch_ok 0 ?i 20" "\<not> isBranchTaken ?i" "calcInstID ?i = 6" "calcNextInstID ?i \<noteq> 20"
    by (simp_all add: branch_ok_def branch_at_def calcNextInstID_def calcInstID_def isBranchTaken_def)
  have i: "6 = unat (calcInstID ?i AND bhtMask ?s)" unfolding b(3) by (simp add: a21264_16_def mask_eq_exp_minus_1)
  have j: "3 = unat (bht ?s ! 6 AND lHistMask ?s)" by (simp add: a21264_16_def mask_eq_exp_minus_1)
  have n: "3 < length (bht ?s)" "(6 :: nat) \<noteq> 3" by (simp_all add: a21264_16_def)
  note h = a21264_history [OF ok b(1,2) i j]
  obtain p s' where r: "BPA21264_predict ?i 20 True ?s = Some (p, s')"
      "bht s' = (bht ?s)[3 := shift_in (bht ?s ! 3) (calcNextInstID ?i \<noteq> 20)]" "bht s' ! 6 = bht ?s ! 6"
    using conjunct2 [OF h] n by blast
  have "shift_in (bht ?s ! 3) True = 1" by (simp add: shift_in_def a21264_16_def)
  then have "bht s' = (bht ?s)[3 := 1]" using r(2) b(4) by simp
  moreover have "bht ?s = (replicate 16 0)[6 := 3]" "bht ?s ! 6 = 3" by (simp_all add: a21264_16_def)
  ultimately show ?thesis using t(1) r(1,3) by metis
qed

subsection \<open>BPredictor\<close>




end
