(* ===== verification/Bloom_Model.thy ===== *)
theory Bloom_Model
  imports Sesc_Prelude "HOL-Library.Signed_Division"
begin

text \<open>
  The counting Bloom filter of libsuc/BloomFilter.h and BloomFilter.cpp. An address is cut
  into chunks of \<open>vBits\<close> bits; chunk i counts in vector i, at its value modulo the size of
  the vector. The filter represents a multiset of addresses: every counter is the number of
  elements that fall on it. So an element that was inserted is always found, and \<open>remove\<close>
  of an element that was inserted never takes a counter below zero.
\<close>

subsection \<open>State and operations\<close>

record bloom =
  vSize :: "int list"
  vBits :: "nat list"
  vMask :: "32 word list"
  rShift :: "nat list"
  countVec :: "int list list"

definition nVectors :: "bloom \<Rightarrow> nat" where
  "nVectors b = length (vSize b)"

text \<open>
  \<open>1 << m\<close> is a shift of a 32-bit \<open>int\<close>, and a shift by 32 or more is undefined.
\<close>

definition chunk_mask :: "nat \<Rightarrow> 32 word" where
  "chunk_mask bits = fold (\<lambda>m mask. mask OR push_bit m 1) [0..<bits] 0"

fun bf_initMasks :: "nat list \<Rightarrow> nat \<Rightarrow> ((32 word \<times> nat) list) option" where
  "bf_initMasks [] totShift = Some []"
| "bf_initMasks (bits # bs) totShift = do {
     I_check (bits < 32 \<and> totShift < 32);
     rest \<leftarrow> bf_initMasks bs (totShift + bits);
     Some ((push_bit totShift (chunk_mask bits), totShift) # rest) }"

text \<open>The variable arguments of the constructor: number of bits and size of every vector.\<close>

definition BloomFilter_new :: "(nat \<times> int) list \<Rightarrow> bloom option" where
  "BloomFilter_new args = do {
     I_check (\<forall>(bits, n)\<in>set args. 0 \<le> n);
     ms \<leftarrow> bf_initMasks (map fst args) 0;
     Some \<lparr>vSize = map snd args, vBits = map fst args, vMask = map fst ms, rShift = map snd ms,
           countVec = map (\<lambda>(bits, n). replicate (nat n) 0) args\<rparr> }"

definition bf_getIndex :: "bloom \<Rightarrow> 32 word \<Rightarrow> nat \<Rightarrow> int option" where
  "bf_getIndex b val chunkPos = do {
     let idx = sint (val AND vMask b ! chunkPos);
     let idx = drop_bit (rShift b ! chunkPos) idx;
     I_check (vSize b ! chunkPos \<noteq> 0);
     let idx = idx smod (vSize b ! chunkPos);
     I_check (idx < vSize b ! chunkPos);
     Some idx }"

text \<open>The body of the loops over the vectors.\<close>

definition bf_count :: "32 word \<Rightarrow> nat \<Rightarrow> bloom \<Rightarrow> int option" where
  "bf_count e i b = do { idx \<leftarrow> bf_getIndex b e i; arr_get (countVec b ! i) idx }"

definition bf_set :: "32 word \<Rightarrow> nat \<Rightarrow> int \<Rightarrow> bloom \<Rightarrow> bloom option" where
  "bf_set e i c b = do {
     idx \<leftarrow> bf_getIndex b e i;
     row \<leftarrow> arr_set (countVec b ! i) idx c;
     Some (b\<lparr>countVec := (countVec b)[i := row]\<rparr>) }"

fun bf_insert_loop :: "32 word \<Rightarrow> nat list \<Rightarrow> bloom \<Rightarrow> bloom option" where
  "bf_insert_loop e [] b = Some b"
| "bf_insert_loop e (i # is) b = do {
     c \<leftarrow> bf_count e i b;
     b' \<leftarrow> bf_set e i (c + 1) b;
     bf_insert_loop e is b' }"

definition BloomFilter_insert :: "32 word \<Rightarrow> bloom \<Rightarrow> bloom option" where
  "BloomFilter_insert e b = bf_insert_loop e [0..<nVectors b] b"

fun bf_remove_loop :: "32 word \<Rightarrow> nat list \<Rightarrow> bloom \<Rightarrow> bloom option" where
  "bf_remove_loop e [] b = Some b"
| "bf_remove_loop e (i # is) b = do {
     c \<leftarrow> bf_count e i b;
     b' \<leftarrow> bf_set e i (c - 1) b;
     I_check (0 \<le> c - 1);
     bf_remove_loop e is b' }"

definition BloomFilter_remove :: "32 word \<Rightarrow> bloom \<Rightarrow> bloom option" where
  "BloomFilter_remove e b = bf_remove_loop e [0..<nVectors b] b"

fun bf_mayExist_loop :: "32 word \<Rightarrow> nat list \<Rightarrow> bloom \<Rightarrow> bool option" where
  "bf_mayExist_loop e [] b = Some True"
| "bf_mayExist_loop e (i # is) b = do {
     c \<leftarrow> bf_count e i b;
     if c = 0 then Some False else bf_mayExist_loop e is b }"

definition BloomFilter_mayExist :: "32 word \<Rightarrow> bloom \<Rightarrow> bool option" where
  "BloomFilter_mayExist e b = bf_mayExist_loop e [0..<nVectors b] b"

subsection \<open>The filter as a multiset\<close>

text \<open>The geometry: chunks that do not reach the sign bit, and vectors that are not empty.\<close>

definition bf_geom :: "bloom \<Rightarrow> bool" where
  "bf_geom b = (length (vMask b) = nVectors b \<and> length (rShift b) = nVectors b \<and>
     (\<forall>i<nVectors b. 0 < vSize b ! i \<and> \<not> bit (vMask b ! i) 31))"

definition bf_idx :: "bloom \<Rightarrow> 32 word \<Rightarrow> nat \<Rightarrow> nat" where
  "bf_idx b e i = drop_bit (rShift b ! i) (unat (e AND vMask b ! i)) mod nat (vSize b ! i)"

definition bf_reps :: "bloom \<Rightarrow> 32 word multiset \<Rightarrow> bool" where
  "bf_reps b M = (bf_geom b \<and> length (countVec b) = nVectors b \<and>
     (\<forall>i<nVectors b. length (countVec b ! i) = nat (vSize b ! i) \<and>
        (\<forall>j<nat (vSize b ! i). countVec b ! i ! j = int (size {#e\<in>#M. bf_idx b e i = j#}))))"

lemma getIndex_eq:
  assumes "bf_geom b" "i < nVectors b"
  shows "bf_getIndex b e i = Some (int (bf_idx b e i))" and "bf_idx b e i < nat (vSize b ! i)"
proof -
  let ?w = "e AND vMask b ! i" and ?n = "vSize b ! i"
  have n: "0 < ?n" "\<not> bit ?w 31" using assms by (simp_all add: bf_geom_def bit_and_iff)
  have s: "sint ?w = int (unat ?w)"
  proof -
    have "sint ?w = uint ?w"
      using n(2) by (intro bit_eqI) (auto simp: bit_sint_iff bit_uint_iff dest: bit_imp_le_length)
    then show ?thesis by simp
  qed
  have d: "drop_bit (rShift b ! i) (int (unat ?w)) = int (drop_bit (rShift b ! i) (unat ?w))"
    by (simp add: drop_bit_of_nat of_nat_drop_bit del: uint_nat)
  have m: "int x smod ?n = int (x mod nat ?n)" for x
    using n(1) by (cases "x = 0") (simp_all add: smod_int_alt_def zmod_int)
  show lt: "bf_idx b e i < nat ?n" using n(1) by (simp add: bf_idx_def)
  have "int (drop_bit (rShift b ! i) (unat ?w) mod nat ?n) < ?n" using lt unfolding bf_idx_def by (simp only: zless_nat_eq_int_zless)
  then show "bf_getIndex b e i = Some (int (bf_idx b e i))"
    using n(1) unfolding bf_getIndex_def Let_def s d m bf_idx_def by (simp only: I_check_simps) simp
qed


lemma bf_reps_count:
  assumes "bf_reps b M" "i < nVectors b"
  shows "bf_count e i b = Some (int (size {#x\<in>#M. bf_idx b x i = bf_idx b e i#}))"
  using assms getIndex_eq [of b i e] by (simp add: bf_count_def bf_reps_def)

text \<open>Counting one element more or less, in the vectors that the loop has passed.\<close>

definition bf_rows :: "bloom \<Rightarrow> bool" where
  "bf_rows b = (bf_geom b \<and> length (countVec b) = nVectors b \<and>
     (\<forall>i<nVectors b. length (countVec b ! i) = nat (vSize b ! i)))"

definition bf_moved :: "bloom \<Rightarrow> 32 word \<Rightarrow> int \<Rightarrow> nat list \<Rightarrow> bloom \<Rightarrow> bool" where
  "bf_moved b e d is b' = (\<exists>cv. b' = b\<lparr>countVec := cv\<rparr> \<and> length cv = length (countVec b) \<and>
     (\<forall>i<length cv. cv ! i = (if i \<in> set is
        then (countVec b ! i)[bf_idx b e i := countVec b ! i ! bf_idx b e i + d] else countVec b ! i)))"

definition bf_put :: "bloom \<Rightarrow> 32 word \<Rightarrow> int \<Rightarrow> nat \<Rightarrow> bloom" where
  "bf_put b e d i = b\<lparr>countVec := (countVec b)[i :=
     (countVec b ! i)[bf_idx b e i := countVec b ! i ! bf_idx b e i + d]]\<rparr>"

lemma bf_put_simps [simp]:
  "nVectors (bf_put b e d i) = nVectors b" "bf_idx (bf_put b e d i) = bf_idx b"
  "countVec (bf_put b e d i) = (countVec b)[i :=
     (countVec b ! i)[bf_idx b e i := countVec b ! i ! bf_idx b e i + d]]"
  by (simp_all add: bf_put_def nVectors_def bf_idx_def fun_eq_iff)

lemma bf_put_rows: "bf_rows b \<Longrightarrow> i < nVectors b \<Longrightarrow> bf_rows (bf_put b e d i)"
  by (auto simp: bf_rows_def bf_geom_def bf_put_def nVectors_def nth_list_update)

lemma bf_step:
  assumes "bf_rows b" "i < nVectors b"
  shows "bf_count e i b = Some (countVec b ! i ! bf_idx b e i)"
    and "bf_set e i (countVec b ! i ! bf_idx b e i + d) b = Some (bf_put b e d i)"
  using assms getIndex_eq [of b i e] by (simp_all add: bf_count_def bf_set_def bf_rows_def bf_put_def)

lemma bf_moved_Nil: "bf_moved b e d [] b"
  unfolding bf_moved_def by (rule exI [of _ "countVec b"]) simp

lemma bf_moved_Cons:
  assumes "bf_moved (bf_put b e d i) e d is b'" "i \<notin> set is" "i < length (countVec b)"
  shows "bf_moved b e d (i # is) b'"
  using assms unfolding bf_moved_def by (auto simp: bf_put_def nth_list_update bf_idx_def)

lemma bf_insert_loop_ok:
  "bf_rows b \<Longrightarrow> distinct is \<Longrightarrow> set is \<subseteq> {..<nVectors b} \<Longrightarrow>
   \<exists>b'. bf_insert_loop e is b = Some b' \<and> bf_rows b' \<and> bf_moved b e 1 is b'"
proof (induction "is" arbitrary: b)
  case Nil
  then show ?case by (simp add: bf_moved_Nil)
next
  case (Cons i "is")
  have i: "i < nVectors b" "i \<notin> set is" "length (countVec b) = nVectors b"
    using Cons.prems by (auto simp: bf_rows_def)
  obtain b' where "bf_insert_loop e is (bf_put b e 1 i) = Some b'" "bf_rows b'"
      "bf_moved (bf_put b e 1 i) e 1 is b'"
    using Cons.IH [OF bf_put_rows [OF Cons.prems(1) i(1), of e 1]] Cons.prems by auto
  then show ?case using bf_step [OF Cons.prems(1) i(1)] bf_moved_Cons i by auto
qed

lemma bf_remove_loop_ok:
  "bf_rows b \<Longrightarrow> distinct is \<Longrightarrow> set is \<subseteq> {..<nVectors b} \<Longrightarrow>
   (\<forall>i\<in>set is. 0 < countVec b ! i ! bf_idx b e i) \<Longrightarrow>
   \<exists>b'. bf_remove_loop e is b = Some b' \<and> bf_rows b' \<and> bf_moved b e (- 1) is b'"
proof (induction "is" arbitrary: b)
  case Nil
  then show ?case by (simp add: bf_moved_Nil)
next
  case (Cons i "is")
  have i: "i < nVectors b" "i \<notin> set is" "length (countVec b) = nVectors b" "0 < countVec b ! i ! bf_idx b e i"
    using Cons.prems by (auto simp: bf_rows_def)
  have "\<forall>j\<in>set is. 0 < countVec (bf_put b e (- 1) i) ! j ! bf_idx (bf_put b e (- 1) i) e j"
    using Cons.prems i(1-3) by (auto simp: nth_list_update)
  then obtain b' where "bf_remove_loop e is (bf_put b e (- 1) i) = Some b'" "bf_rows b'"
      "bf_moved (bf_put b e (- 1) i) e (- 1) is b'"
    using Cons.IH [OF bf_put_rows [OF Cons.prems(1) i(1), of e "- 1"]] Cons.prems by auto
  then show ?case using bf_step(1) [OF Cons.prems(1) i(1)] bf_step(2) [OF Cons.prems(1) i(1), of e "- 1"]
      bf_moved_Cons i by auto
qed

lemma bf_countVec_simps [simp]:
  "nVectors (b\<lparr>countVec := cv\<rparr>) = nVectors b" "bf_idx (b\<lparr>countVec := cv\<rparr>) = bf_idx b"
  "bf_geom (b\<lparr>countVec := cv\<rparr>) = bf_geom b"
  by (simp_all add: nVectors_def bf_idx_def fun_eq_iff bf_geom_def)

lemma bf_reps_rows: "bf_reps b M \<Longrightarrow> bf_rows b"
  by (simp add: bf_reps_def bf_rows_def)

lemma bf_reps_moved:
  assumes "bf_reps b M" "bf_moved b e d [0..<nVectors b] b'"
    and "\<And>i j. int (size {#x\<in>#N. bf_idx b x i = j#}) =
      int (size {#x\<in>#M. bf_idx b x i = j#}) + (if bf_idx b e i = j then d else 0)"
  shows "bf_reps b' N"
proof -
  obtain cv where cv: "b' = b\<lparr>countVec := cv\<rparr>" "length cv = nVectors b"
      "\<forall>i<nVectors b. cv ! i = (countVec b ! i)[bf_idx b e i := countVec b ! i ! bf_idx b e i + d]"
    using assms(1,2) by (auto simp: bf_moved_def bf_reps_def)
  show ?thesis
    using assms(1) cv(2,3) unfolding bf_reps_def by (simp add: cv(1) nth_list_update assms(3))
qed

lemma bloom_insert:
  assumes "bf_reps b M"
  shows "\<exists>b'. BloomFilter_insert e b = Some b' \<and> bf_reps b' (add_mset e M)"
proof -
  obtain b' where b': "BloomFilter_insert e b = Some b'" "bf_moved b e 1 [0..<nVectors b] b'"
    using bf_insert_loop_ok [OF bf_reps_rows [OF assms], of "[0..<nVectors b]" e]
    by (auto simp: BloomFilter_insert_def atLeast0LessThan)
  have "bf_reps b' (add_mset e M)" by (rule bf_reps_moved [OF assms b'(2)]) simp
  then show ?thesis using b'(1) by blast
qed

lemma bloom_remove:
  assumes "bf_reps b M" "e \<in># M"
  shows "\<exists>b'. BloomFilter_remove e b = Some b' \<and> bf_reps b' (M - {#e#})"
proof -
  have M: "M = add_mset e (M - {#e#})" using assms(2) by simp
  have "0 < countVec b ! i ! bf_idx b e i" if "i < nVectors b" for i
  proof -
    have "e \<in># {#x\<in>#M. bf_idx b x i = bf_idx b e i#}" using assms(2) by simp
    then have "0 < size {#x\<in>#M. bf_idx b x i = bf_idx b e i#}" by (metis nonempty_has_size empty_iff set_mset_empty)
    moreover have "bf_idx b e i < nat (vSize b ! i)" using assms(1) that getIndex_eq(2) by (simp add: bf_reps_def)
    ultimately show ?thesis using assms(1) that by (simp add: bf_reps_def)
  qed
  then obtain b' where b': "BloomFilter_remove e b = Some b'" "bf_moved b e (- 1) [0..<nVectors b] b'"
    using bf_remove_loop_ok [OF bf_reps_rows [OF assms(1)], of "[0..<nVectors b]" e]
    by (auto simp: BloomFilter_remove_def atLeast0LessThan)
  have "bf_reps b' (M - {#e#})"
  proof (rule bf_reps_moved [OF assms(1) b'(2)])
    fix i j
    show "int (size {#x\<in>#M - {#e#}. bf_idx b x i = j#}) =
        int (size {#x\<in>#M. bf_idx b x i = j#}) + (if bf_idx b e i = j then - 1 else 0)"
      by (subst (2) M) simp
  qed
  then show ?thesis using b'(1) by blast
qed

lemma bloom_mayExist:
  assumes "bf_reps b M"
  shows "BloomFilter_mayExist e b =
    Some (\<forall>i<nVectors b. \<exists>x\<in>#M. bf_idx b x i = bf_idx b e i)"
proof -
  have "set is \<subseteq> {..<nVectors b} \<Longrightarrow> bf_mayExist_loop e is b =
      Some (\<forall>i\<in>set is. \<exists>x\<in>#M. bf_idx b x i = bf_idx b e i)" for "is"
  proof (induction "is")
    case (Cons i "is")
    have "(size {#x\<in>#M. bf_idx b x i = bf_idx b e i#} = 0) = (\<not> (\<exists>x\<in>#M. bf_idx b x i = bf_idx b e i))"
      by (simp only: size_eq_0_iff_empty) (auto simp: multiset_eq_iff count_eq_zero_iff simp flip: set_mset_eq_empty_iff)
    then show ?case using Cons bf_reps_count [OF assms, of i e] by simp
  qed simp
  from this [of "[0..<nVectors b]"] show ?thesis by (simp add: BloomFilter_mayExist_def atLeast0LessThan Ball_def)
qed

lemma chunk_mask_eq: "bits \<le> 32 \<Longrightarrow> chunk_mask bits = mask bits"
proof -
  have "fold (\<lambda>m mask. mask OR push_bit m 1) [0..<n] (0 :: 32 word) = mask n" for n
    by (induction n) (simp_all add: mask_Suc_exp or.commute)
  then show ?thesis by (simp add: chunk_mask_def)
qed

lemma bf_initMasks_ok:
  "tot + sum_list bs \<le> 31 \<Longrightarrow> \<exists>ms. bf_initMasks bs tot = Some ms \<and> length ms = length bs \<and>
   (\<forall>m\<in>set ms. \<not> bit (fst m) 31)"
proof (induction bs arbitrary: tot)
  case (Cons b bs)
  obtain ms where "bf_initMasks bs (tot + b) = Some ms" "length ms = length bs" "\<forall>m\<in>set ms. \<not> bit (fst m) 31"
    using Cons.IH [of "tot + b"] Cons.prems by auto
  then show ?case using Cons.prems by (auto simp: chunk_mask_eq bit_push_bit_iff bit_mask_iff)
qed simp

lemma bloom_new:
  assumes "\<forall>(bits, n)\<in>set args. 0 < n" "sum_list (map fst args) \<le> 31"
  shows "\<exists>b. BloomFilter_new args = Some b \<and> bf_reps b {#}"
proof -
  obtain ms where ms: "bf_initMasks (map fst args) 0 = Some ms" "length ms = length args"
      "\<forall>m\<in>set ms. \<not> bit (fst m) 31"
    using bf_initMasks_ok [of 0 "map fst args"] assms(2) by auto
  have p: "\<forall>i<length args. 0 < snd (args ! i)" using assms(1) nth_mem by fastforce
  have "\<forall>(bits, n)\<in>set args. 0 \<le> n" using assms(1) by auto
  then show ?thesis
    using ms p by (auto simp: BloomFilter_new_def bf_reps_def bf_geom_def nVectors_def split_beta)
qed

end
