(* ===== verification/MSHR_Model.thy ===== *)
theory MSHR_Model
  imports MESI_Model Bloom_Model Snippets_Model
begin

text \<open>
  The miss status handling registers of libsuc/MSHR.h and MSHR.cpp. Before a cache works on a
  line it asks the MSHR: \<open>issue\<close> returns true when the caller is the first and shall go on;
  otherwise the caller leaves a callback with \<open>addEntry\<close>, which is called when its turn
  comes, and \<open>retire\<close> ends the work of one caller. A request that finds no room waits in an
  overflow queue with two callbacks, of which one will be called and the other destroyed.

  What calling or destroying a callback does is the parameter \<open>act\<close> of the operations. It
  acts on the whole state, so a callback may use the MSHR that is calling it, as the
  callbacks of SMPCache.cpp do. Objects of \<open>SingleMSHR\<close> are numbered; the banks of
  \<open>BankedMSHR\<close> are such objects, which share the occupancy statistics. The callbacks that wait
  on an entry are a \<open>CallbackContainer\<close>, here the list that \<open>CallbackContainer.thy\<close>
  proves it to be. Statistics on which no assertion depends are left out.
\<close>

subsection \<open>Data\<close>

datatype 'n cb_act = CallCB 'n | DestroyCB 'n

datatype MSHRAllocPolicy = CONVENTIONAL | SPECIAL

record 'n overflow_field =
  f_paddr :: "64 word"
  f_cb :: 'n
  f_ovflwcb :: "'n option"
  f_mo :: mem_op

record mshr_stats =
  entries :: "nat \<Rightarrow> int"
  totalEntries :: int
  outsRdReqs :: int

definition sampleEntryOcc :: "nat \<Rightarrow> int \<Rightarrow> mshr_stats \<Rightarrow> mshr_stats option" where
  "sampleEntryOcc this numEntries st = do {
     let oldNum = entries st this;
     let st1 = st\<lparr>totalEntries := totalEntries st + numEntries - oldNum\<rparr>;
     I_check (totalEntries st1 \<ge> 0);
     Some (st1\<lparr>entries := (entries st1)(this := numEntries)\<rparr>) }"

definition incRdReqs :: "int \<Rightarrow> mshr_stats \<Rightarrow> mshr_stats" where
  "incRdReqs nr st = st\<lparr>outsRdReqs := outsRdReqs st + nr\<rparr>"

definition decRdReqs :: "int \<Rightarrow> mshr_stats \<Rightarrow> mshr_stats option" where
  "decRdReqs nr st = do {
     let st1 = st\<lparr>outsRdReqs := outsRdReqs st - nr\<rparr>;
     I_check (outsRdReqs st1 \<ge> 0);
     Some st1 }"

subsection \<open>MSHRentry\<close>

text \<open>
  An entry has room for \<open>nReads\<close> reads and \<open>nWrites\<close> writes of one line, or, when
  \<open>rdWrSharing\<close> is set, for \<open>nReads\<close> requests of both kinds together.
\<close>

record 'n mshr_entry =
  e_nReads :: int
  nFreeReads :: int
  e_nWrites :: int
  rdWrSharing :: bool
  nFreeWrites :: int
  nFreeSEntries :: int
  cc :: "'n list"
  reqLineAddr :: "64 word"
  displaced :: bool
  whenAllocated :: nat
  l2Hit :: bool
  writeSet :: "64 word set"

definition MSHRentry_new :: "nat \<Rightarrow> 'n mshr_entry" where
  "MSHRentry_new globalClock = \<lparr>e_nReads = 0, nFreeReads = 0, e_nWrites = 0, rdWrSharing = False,
     nFreeWrites = 0, nFreeSEntries = 0, cc = [], reqLineAddr = 0, displaced = False,
     whenAllocated = globalClock, l2Hit = False, writeSet = {}\<rparr>"

definition firstRequest ::
  "64 word \<Rightarrow> 64 word \<Rightarrow> int \<Rightarrow> int \<Rightarrow> mem_op \<Rightarrow> 'n mshr_entry \<Rightarrow> 'n mshr_entry option" where
  "firstRequest addr lineAddr nrd nwr mo e = do {
     I_check (nFreeSEntries e = 0);
     let e1 = (if nwr = 0 then e\<lparr>e_nReads := nrd, e_nWrites := nrd, rdWrSharing := True\<rparr>
               else e\<lparr>e_nReads := nrd, e_nWrites := nwr, rdWrSharing := False\<rparr>);
     let e2 = e1\<lparr>nFreeReads := e_nReads e1, nFreeWrites := e_nWrites e1,
                nFreeSEntries := if nwr = 0 then nrd - 1 else e_nReads e1 + e_nWrites e1 - 1\<rparr>;
     e3 \<leftarrow> (if mo = MemWrite
            then Some (e2\<lparr>nFreeWrites := nFreeWrites e2 - 1,
                         writeSet := insert (addr AND 0xfffffffc) (writeSet e2)\<rparr>)
            else do { I_check (mo = MemRead); Some (e2\<lparr>nFreeReads := nFreeReads e2 - 1\<rparr>) });
     Some (e3\<lparr>reqLineAddr := lineAddr\<rparr>) }"

definition entry_canAcceptRequest :: "mem_op \<Rightarrow> 'n mshr_entry \<Rightarrow> bool" where
  "entry_canAcceptRequest mo e =
     (if nFreeSEntries e = 0 then False
      else if mo = MemWrite then nFreeWrites e > 0
      else nFreeReads e > 0)"

definition getUsedReads :: "'n mshr_entry \<Rightarrow> int" where
  "getUsedReads e = e_nReads e - nFreeReads e"

definition hasFreeReads :: "'n mshr_entry \<Rightarrow> bool" where
  "hasFreeReads e = (nFreeSEntries e > 0 \<and> nFreeReads e > 0)"

definition getUsedWrites :: "'n mshr_entry \<Rightarrow> int" where
  "getUsedWrites e = e_nWrites e - nFreeWrites e"

definition hasFreeWrites :: "'n mshr_entry \<Rightarrow> bool" where
  "hasFreeWrites e = (nFreeSEntries e > 0 \<and> nFreeWrites e > 0)"

definition getPendingReqs :: "'n mshr_entry \<Rightarrow> int" where
  "getPendingReqs e = e_nReads e + e_nWrites e - nFreeSEntries e"

definition addRequest ::
  "64 word \<Rightarrow> 'n \<Rightarrow> mem_op \<Rightarrow> 'n mshr_entry \<Rightarrow> (bool \<times> 'n mshr_entry) option" where
  "addRequest reqAddr rcb mo e = do {
     I_check (nFreeReads e \<ge> 0 \<and> nFreeReads e \<le> e_nReads e \<and> nFreeWrites e \<ge> 0 \<and>
              nFreeWrites e \<le> e_nWrites e \<and> nFreeSEntries e \<ge> 0);
     if nFreeSEntries e = 0 then Some (False, e)
     else if mo = MemRead \<and> nFreeReads e = 0 then Some (False, e)
     else if mo = MemWrite \<and> nFreeWrites e = 0 then Some (False, e)
     else do {
       e1 \<leftarrow> (if mo = MemRead then Some (e\<lparr>nFreeReads := nFreeReads e - 1\<rparr>)
              else do {
                I_check (mo = MemWrite);
                Some (e\<lparr>writeSet := insert (reqAddr AND 0xfffffffc) (writeSet e),
                       nFreeWrites := nFreeWrites e - 1\<rparr>) });
       Some (True, e1\<lparr>nFreeSEntries := nFreeSEntries e1 - 1, cc := cc e1 @ [rcb]\<rparr>) } }"

text \<open>The new owner of an entry has other bounds; sharing in the new owner calls \<open>exit(-1)\<close>.\<close>

definition adjustParameters :: "int \<Rightarrow> int \<Rightarrow> 'n mshr_entry \<Rightarrow> 'n mshr_entry option" where
  "adjustParameters nrd nwr e =
     (let rdWrSharingNewEntry = (nwr = 0) in
      if \<not> rdWrSharing e \<and> \<not> rdWrSharingNewEntry then
        Some (e\<lparr>nFreeSEntries := nFreeSEntries e + ((nrd - e_nReads e) + (nwr - e_nWrites e)),
               nFreeReads := nFreeReads e + (nrd - e_nReads e), e_nReads := nrd,
               nFreeWrites := nFreeWrites e + (nwr - e_nWrites e), e_nWrites := nwr\<rparr>)
      else if rdWrSharing e \<and> \<not> rdWrSharingNewEntry then
        (let nUsedWrites = e_nWrites e - nFreeWrites e; nUsedReads = e_nReads e - nFreeReads e in
         Some (e\<lparr>nFreeSEntries := (nrd - nUsedReads) + (nwr - nUsedWrites),
                nFreeReads := nrd - nUsedReads, e_nReads := nrd,
                nFreeWrites := nwr - nUsedWrites, e_nWrites := nwr, rdWrSharing := False\<rparr>))
      else None)"

definition displace :: "'n mshr_entry \<Rightarrow> 'n mshr_entry" where
  "displace e = e\<lparr>displaced := True\<rparr>"

subsection \<open>SingleMSHR\<close>

record 'n smshr =
  nEntries :: int
  nFreeEntries :: int
  Log2LineSize :: nat
  allocPolicy :: MSHRAllocPolicy
  s_nReads :: int
  s_nWrites :: int
  nOutsReqs :: int
  bf :: bloom
  checkingOverflow :: bool
  nFullReadEntries :: int
  nFullWriteEntries :: int
  overflow :: "'n overflow_field list"
  ms :: "64 word \<Rightarrow> 'n mshr_entry option"

record ('n, 'w) mshrs =
  globalClock :: nat
  objs :: "nat \<Rightarrow> 'n smshr"
  occStats :: mshr_stats
  world :: 'w

text \<open>The constructor, including that of the base class.\<close>

definition SingleMSHR_new ::
  "int \<Rightarrow> 64 word \<Rightarrow> int \<Rightarrow> int \<Rightarrow> MSHRAllocPolicy \<Rightarrow> 'n smshr option" where
  "SingleMSHR_new sz lsz nrd nwr aPolicy = do {
     l \<leftarrow> log2i lsz;
     I_check (sz > 0 \<and> sz < 1024 * 32);
     b \<leftarrow> BloomFilter_new [(8, 256), (6, 64), (6, 64), (6, 64)];
     Some \<lparr>nEntries = sz, nFreeEntries = sz, Log2LineSize = unat l, allocPolicy = aPolicy,
           s_nReads = nrd, s_nWrites = nwr, nOutsReqs = 0, bf = b, checkingOverflow = False,
           nFullReadEntries = 0, nFullWriteEntries = 0, overflow = [], ms = Map.empty\<rparr> }"

definition calcLineAddr :: "'n smshr \<Rightarrow> 64 word \<Rightarrow> 64 word" where
  "calcLineAddr m paddr = drop_bit (Log2LineSize m) paddr"

definition upd :: "nat \<Rightarrow> ('n smshr \<Rightarrow> 'n smshr) \<Rightarrow> ('n, 'w, 'z) mshrs_scheme \<Rightarrow> ('n, 'w, 'z) mshrs_scheme" where
  "upd this f s = s\<lparr>objs := (objs s)(this := f (objs s this))\<rparr>"

definition updateOccHistogram :: "nat \<Rightarrow> ('n, 'w, 'z) mshrs_scheme \<Rightarrow> ('n, 'w, 'z) mshrs_scheme option" where
  "updateOccHistogram this s = do {
     st \<leftarrow> sampleEntryOcc this (nEntries (objs s this) - nFreeEntries (objs s this)) (occStats s);
     Some (s\<lparr>occStats := st\<rparr>) }"

definition count_read :: "mem_op \<Rightarrow> ('n, 'w, 'z) mshrs_scheme \<Rightarrow> ('n, 'w, 'z) mshrs_scheme" where
  "count_read mo s = (if mo = MemRead then s\<lparr>occStats := incRdReqs 1 (occStats s)\<rparr> else s)"

definition single_checkSubEntries ::
  "nat \<Rightarrow> 64 word \<Rightarrow> mem_op \<Rightarrow> ('n, 'w, 'z) mshrs_scheme \<Rightarrow> ('n, 'w, 'z) mshrs_scheme option" where
  "single_checkSubEntries this paddr mo s =
     (let m = objs s this in
      case ms m (calcLineAddr m paddr) of
        None \<Rightarrow> None
      | Some e \<Rightarrow> Some (
          if rdWrSharing e then
            (if \<not> hasFreeReads e \<or> \<not> hasFreeWrites e
             then upd this (\<lambda>m. m\<lparr>nFullReadEntries := nFullReadEntries m + 1,
                                 nFullWriteEntries := nFullWriteEntries m + 1\<rparr>) s
             else s)
          else
            (let s1 = (if \<not> hasFreeReads e \<and> mo = MemRead
                       then upd this (\<lambda>m. m\<lparr>nFullReadEntries := nFullReadEntries m + 1\<rparr>) s else s)
             in if \<not> hasFreeWrites e \<and> mo = MemWrite
                then upd this (\<lambda>m. m\<lparr>nFullWriteEntries := nFullWriteEntries m + 1\<rparr>) s1 else s1)))"

text \<open>The two halves of taking an entry for a line, which \<open>issue\<close> and \<open>checkOverflow\<close> share.\<close>

definition single_first ::
  "nat \<Rightarrow> 64 word \<Rightarrow> mem_op \<Rightarrow> ('n, 'w, 'z) mshrs_scheme \<Rightarrow> ('n, 'w, 'z) mshrs_scheme option" where
  "single_first this paddr mo s = do {
     let m = objs s this;
     let line = calcLineAddr m paddr;
     e \<leftarrow> firstRequest paddr line (s_nReads m) (s_nWrites m) mo (MSHRentry_new (globalClock s));
     Some (upd this (\<lambda>m. m\<lparr>ms := (ms m)(line \<mapsto> e)\<rparr>) s) }"

definition single_take ::
  "nat \<Rightarrow> 64 word \<Rightarrow> mem_op \<Rightarrow> ('n, 'w, 'z) mshrs_scheme \<Rightarrow> ('n, 'w, 'z) mshrs_scheme option" where
  "single_take this paddr mo s = do {
     b \<leftarrow> BloomFilter_insert (ucast (calcLineAddr (objs s this) paddr)) (bf (objs s this));
     s1 \<leftarrow> updateOccHistogram this (upd this (\<lambda>m. m\<lparr>bf := b, nFreeEntries := nFreeEntries m - 1\<rparr>) s);
     Some (count_read mo (upd this (\<lambda>m. m\<lparr>nOutsReqs := nOutsReqs m + 1\<rparr>) s1)) }"

definition single_issue ::
  "nat \<Rightarrow> 64 word \<Rightarrow> mem_op \<Rightarrow> ('n, 'w, 'z) mshrs_scheme \<Rightarrow> (bool \<times> ('n, 'w, 'z) mshrs_scheme) option" where
  "single_issue this paddr mo s =
     (let m = objs s this in
      if overflow m \<noteq> [] then Some (False, s)
      else do {
        I_check (nFreeEntries m \<ge> 0 \<and> nFreeEntries m \<le> nEntries m);
        if ms m (calcLineAddr m paddr) = None \<and> nFreeEntries m > 0 then do {
          s1 \<leftarrow> single_first this paddr mo s;
          s2 \<leftarrow> single_take this paddr mo s1;
          s3 \<leftarrow> single_checkSubEntries this paddr mo s2;
          Some (True, s3) }
        else Some (False, s) })"

definition single_toOverflow ::
  "nat \<Rightarrow> 64 word \<Rightarrow> 'n \<Rightarrow> 'n option \<Rightarrow> mem_op \<Rightarrow> ('n, 'w, 'z) mshrs_scheme \<Rightarrow> ('n, 'w, 'z) mshrs_scheme" where
  "single_toOverflow this paddr c ovflwc mo s =
     upd this (\<lambda>m. m\<lparr>overflow := overflow m @
       [\<lparr>f_paddr = paddr, f_cb = c, f_ovflwcb = ovflwc, f_mo = mo\<rparr>]\<rparr>) s"

text \<open>Calls and destructions of a callback that may be null.\<close>

definition act_opt :: "('n cb_act \<Rightarrow> 's \<Rightarrow> 's option) \<Rightarrow> ('n \<Rightarrow> 'n cb_act) \<Rightarrow> 'n option \<Rightarrow> 's \<Rightarrow> 's option" where
  "act_opt act f c s = (case c of None \<Rightarrow> None | Some n \<Rightarrow> act (f n) s)"

definition single_pop :: "nat \<Rightarrow> ('n, 'w, 'z) mshrs_scheme \<Rightarrow> ('n, 'w, 'z) mshrs_scheme option" where
  "single_pop this s = do {
     I_check (overflow (objs s this) \<noteq> []);
     Some (upd this (\<lambda>m. m\<lparr>overflow := tl (overflow m)\<rparr>) s) }"

text \<open>The body of the loop of \<open>checkOverflow\<close>; \<open>False\<close> is its \<open>break\<close>.\<close>

definition single_overflow_step ::
  "('n cb_act \<Rightarrow> ('n, 'w, 'z) mshrs_scheme \<Rightarrow> ('n, 'w, 'z) mshrs_scheme option) \<Rightarrow> nat \<Rightarrow> 'n overflow_field \<Rightarrow>
   ('n, 'w, 'z) mshrs_scheme \<Rightarrow> (bool \<times> ('n, 'w, 'z) mshrs_scheme) option" where
  "single_overflow_step act this f s =
     (let m = objs s this; line = calcLineAddr m (f_paddr f) in
      case ms m line of
        None \<Rightarrow>
          if nFreeEntries m > 0 then do {
            s1 \<leftarrow> single_first this (f_paddr f) (f_mo f) s;
            s2 \<leftarrow> single_checkSubEntries this (f_paddr f) (f_mo f) s1;
            s3 \<leftarrow> single_take this (f_paddr f) (f_mo f) s2;
            s4 \<leftarrow> act_opt act CallCB (f_ovflwcb f) s3;
            s5 \<leftarrow> act (DestroyCB (f_cb f)) s4;
            s6 \<leftarrow> single_pop this s5;
            Some (True, s6) }
          else Some (False, s)
      | Some e \<Rightarrow> do {
          (ok, e') \<leftarrow> addRequest (f_paddr f) (f_cb f) (f_mo f) e;
          if ok then do {
            let s1 = upd this (\<lambda>m. m\<lparr>ms := (ms m)(line \<mapsto> e')\<rparr>) s;
            s2 \<leftarrow> act_opt act DestroyCB (f_ovflwcb f) s1;
            s3 \<leftarrow> single_pop this s2;
            let s4 = count_read (f_mo f) (upd this (\<lambda>m. m\<lparr>nOutsReqs := nOutsReqs m + 1\<rparr>) s3);
            s5 \<leftarrow> single_checkSubEntries this (f_paddr f) (f_mo f) s4;
            Some (True, s5) }
          else Some (False, s) })"

partial_function (option) single_overflow_loop ::
  "('n cb_act \<Rightarrow> ('n, 'w, 'z) mshrs_scheme \<Rightarrow> ('n, 'w, 'z) mshrs_scheme option) \<Rightarrow> nat \<Rightarrow>
   ('n, 'w, 'z) mshrs_scheme \<Rightarrow> ('n, 'w, 'z) mshrs_scheme option" where
  "single_overflow_loop act this s =
     (if overflow (objs s this) = [] then Some s
      else (case single_overflow_step act this (hd (overflow (objs s this))) s of
              None \<Rightarrow> None
            | Some r \<Rightarrow> if fst r then single_overflow_loop act this (snd r) else Some (snd r)))"

definition single_checkOverflow ::
  "('n cb_act \<Rightarrow> ('n, 'w, 'z) mshrs_scheme \<Rightarrow> ('n, 'w, 'z) mshrs_scheme option) \<Rightarrow> nat \<Rightarrow>
   ('n, 'w, 'z) mshrs_scheme \<Rightarrow> ('n, 'w, 'z) mshrs_scheme option" where
  "single_checkOverflow act this s =
     (if overflow (objs s this) = [] then Some s
      else if checkingOverflow (objs s this) then Some s
      else do {
        s1 \<leftarrow> single_overflow_loop act this (upd this (\<lambda>m. m\<lparr>checkingOverflow := True\<rparr>) s);
        Some (upd this (\<lambda>m. m\<lparr>checkingOverflow := False\<rparr>) s1) })"

definition single_addEntry ::
  "('n cb_act \<Rightarrow> ('n, 'w, 'z) mshrs_scheme \<Rightarrow> ('n, 'w, 'z) mshrs_scheme option) \<Rightarrow> nat \<Rightarrow>
   64 word \<Rightarrow> 'n \<Rightarrow> 'n option \<Rightarrow> mem_op \<Rightarrow> ('n, 'w, 'z) mshrs_scheme \<Rightarrow> ('n, 'w, 'z) mshrs_scheme option" where
  "single_addEntry act this paddr c ovflwc mo s = do {
     let m = objs s this;
     let line = calcLineAddr m paddr;
     I_check (ovflwc \<noteq> None);
     if overflow m \<noteq> [] then Some (single_toOverflow this paddr c ovflwc mo s)
     else (case ms m line of
             None \<Rightarrow> Some (single_toOverflow this paddr c ovflwc mo s)
           | Some e \<Rightarrow> do {
               (ok, e') \<leftarrow> addRequest paddr c mo e;
               if ok then do {
                 let s1 = upd this (\<lambda>m. m\<lparr>ms := (ms m)(line \<mapsto> e'), nOutsReqs := nOutsReqs m + 1\<rparr>) s;
                 s2 \<leftarrow> act_opt act DestroyCB ovflwc (count_read mo s1);
                 single_checkSubEntries this paddr mo s2 }
               else Some (single_toOverflow this paddr c ovflwc mo s) }) }"

text \<open>The end of the last request of an entry.\<close>

definition single_release ::
  "nat \<Rightarrow> 64 word \<Rightarrow> 'n mshr_entry \<Rightarrow> ('n, 'w, 'z) mshrs_scheme \<Rightarrow> ('n, 'w, 'z) mshrs_scheme option" where
  "single_release this line e s = do {
     st \<leftarrow> decRdReqs (getUsedReads e) (occStats s);
     let s1 = s\<lparr>occStats := st\<rparr>;
     let s2 = (if \<not> hasFreeReads e then upd this (\<lambda>m. m\<lparr>nFullReadEntries := nFullReadEntries m - 1\<rparr>) s1 else s1);
     I_check (\<not> hasFreeReads e \<longrightarrow> nFullReadEntries (objs s2 this) \<ge> 0);
     let s3 = (if \<not> hasFreeWrites e then upd this (\<lambda>m. m\<lparr>nFullWriteEntries := nFullWriteEntries m - 1\<rparr>) s2 else s2);
     I_check (\<not> hasFreeWrites e \<longrightarrow> nFullWriteEntries (objs s3 this) \<ge> 0);
     s4 \<leftarrow> updateOccHistogram this (upd this (\<lambda>m. m\<lparr>nFreeEntries := nFreeEntries m + 1\<rparr>) s3);
     b \<leftarrow> BloomFilter_remove (ucast (reqLineAddr e)) (bf (objs s4 this));
     Some (upd this (\<lambda>m. m\<lparr>bf := b, ms := (ms m)(line := None)\<rparr>) s4) }"

definition single_retire ::
  "('n cb_act \<Rightarrow> ('n, 'w, 'z) mshrs_scheme \<Rightarrow> ('n, 'w, 'z) mshrs_scheme option) \<Rightarrow> nat \<Rightarrow>
   64 word \<Rightarrow> ('n, 'w, 'z) mshrs_scheme \<Rightarrow> (bool \<times> ('n, 'w, 'z) mshrs_scheme) option" where
  "single_retire act this paddr s = do {
     let line = calcLineAddr (objs s this) paddr;
     e \<leftarrow> ms (objs s this) line;
     I_check (line = reqLineAddr e);
     let s1 = upd this (\<lambda>m. m\<lparr>nOutsReqs := nOutsReqs m - 1\<rparr>) s;
     (rmEntry, s2) \<leftarrow>
       (case cc e of
          [] \<Rightarrow> do { s2 \<leftarrow> single_release this line e s1; Some (True, s2) }
        | cb # rest \<Rightarrow> do {
            s2 \<leftarrow> act (CallCB cb) (upd this (\<lambda>m. m\<lparr>ms := (ms m)(line \<mapsto> e\<lparr>cc := rest\<rparr>)\<rparr>) s1);
            Some (False, s2) });
     s3 \<leftarrow> single_checkOverflow act this s2;
     Some (rmEntry, s3) }"

definition single_canAllocateEntry :: "'n smshr \<Rightarrow> bool" where
  "single_canAllocateEntry m = (nFreeEntries m > 0 \<and> nFullReadEntries m = 0 \<and> nFullWriteEntries m = 0)"

definition single_readSEntryFull :: "'n smshr \<Rightarrow> bool" where
  "single_readSEntryFull m = (nFullReadEntries m \<noteq> 0)"

definition single_writeSEntryFull :: "'n smshr \<Rightarrow> bool" where
  "single_writeSEntryFull m = (nFullWriteEntries m \<noteq> 0)"

definition single_canAcceptRequestSpecial :: "64 word \<Rightarrow> mem_op \<Rightarrow> 'n smshr \<Rightarrow> bool option" where
  "single_canAcceptRequestSpecial paddr mo m =
     (if overflow m \<noteq> [] then Some False
      else do {
        I_check (nFreeEntries m \<ge> 0 \<and> nFreeEntries m \<le> nEntries m);
        Some (case ms m (calcLineAddr m paddr) of
                None \<Rightarrow> nFreeEntries m > 0
              | Some e \<Rightarrow> entry_canAcceptRequest mo e) })"

text \<open>\<open>MSHR::canAcceptRequest\<close>, for an object of this class.\<close>

definition single_canAcceptRequest :: "64 word \<Rightarrow> mem_op \<Rightarrow> 'n smshr \<Rightarrow> bool option" where
  "single_canAcceptRequest paddr mo m =
     (if allocPolicy m = CONVENTIONAL \<and> \<not> single_canAllocateEntry m then Some False
      else single_canAcceptRequestSpecial paddr mo m)"

definition single_isOnlyWrites :: "64 word \<Rightarrow> 'n smshr \<Rightarrow> bool option" where
  "single_isOnlyWrites paddr m =
     map_option (\<lambda>e. getUsedReads e = 0) (ms m (calcLineAddr m paddr))"

definition single_hasLineReq :: "64 word \<Rightarrow> 'n smshr \<Rightarrow> bool" where
  "single_hasLineReq line m = (ms m line \<noteq> None)"

definition single_getUsedReads :: "64 word \<Rightarrow> 'n smshr \<Rightarrow> int option" where
  "single_getUsedReads paddr m = map_option getUsedReads (ms m (calcLineAddr m paddr))"

definition single_getUsedWrites :: "64 word \<Rightarrow> 'n smshr \<Rightarrow> int option" where
  "single_getUsedWrites paddr m = map_option getUsedWrites (ms m (calcLineAddr m paddr))"

text \<open>
  The oldest entry. The order in which a hash map is walked is unspecified; it is the
  argument \<open>ls\<close>, the lines that have an entry.
\<close>

fun oldest_line :: "'n smshr \<Rightarrow> 64 word \<Rightarrow> 64 word list \<Rightarrow> 64 word option" where
  "oldest_line m best [] = Some best"
| "oldest_line m best (l # ls) = do {
     e \<leftarrow> ms m l;
     b \<leftarrow> ms m best;
     oldest_line m (if whenAllocated e < whenAllocated b then l else best) ls }"

definition single_selectEntryToDrop :: "64 word list \<Rightarrow> 'n smshr \<Rightarrow> 64 word option" where
  "single_selectEntryToDrop ls m = do {
     I_check (ls \<noteq> []);
     oldest_line m (hd ls) ls }"

definition single_dropEntry ::
  "nat \<Rightarrow> 64 word \<Rightarrow> ('n, 'w, 'z) mshrs_scheme \<Rightarrow> ('n, 'w, 'z) mshrs_scheme option" where
  "single_dropEntry this lineAddr s = do {
     e0 \<leftarrow> ms (objs s this) lineAddr;
     let e = displace e0;
     let s1 = upd this (\<lambda>m. m\<lparr>
       nFullReadEntries := if \<not> hasFreeReads e then nFullReadEntries m - 1 else nFullReadEntries m,
       nFullWriteEntries := if \<not> hasFreeWrites e then nFullWriteEntries m - 1 else nFullWriteEntries m,
       nOutsReqs := nOutsReqs m - getPendingReqs e, nFreeEntries := nFreeEntries m + 1\<rparr>) s;
     s2 \<leftarrow> updateOccHistogram this s1;
     st \<leftarrow> decRdReqs (getUsedReads e) (occStats s2);
     b \<leftarrow> BloomFilter_remove (ucast lineAddr) (bf (objs s2 this));
     Some (upd this (\<lambda>m. m\<lparr>ms := (ms m)(lineAddr := None), bf := b\<rparr>) (s2\<lparr>occStats := st\<rparr>)) }"

definition single_getEntry :: "64 word \<Rightarrow> 'n smshr \<Rightarrow> 'n mshr_entry option" where
  "single_getEntry paddr m = ms m (calcLineAddr m paddr)"

definition single_putEntry ::
  "nat \<Rightarrow> 'n mshr_entry \<Rightarrow> ('n, 'w, 'z) mshrs_scheme \<Rightarrow> ('n, 'w, 'z) mshrs_scheme option" where
  "single_putEntry this me s = do {
     let m = objs s this;
     let l = reqLineAddr me;
     I_check (ms m l = None);
     I_check (nFreeEntries m > 0);
     pme \<leftarrow> adjustParameters (s_nReads m) (s_nWrites m) me;
     b \<leftarrow> BloomFilter_insert (ucast (reqLineAddr pme)) (bf m);
     s1 \<leftarrow> updateOccHistogram this (upd this (\<lambda>m. m\<lparr>ms := (ms m)(l \<mapsto> pme), bf := b,
             nOutsReqs := nOutsReqs m + getPendingReqs pme, nFreeEntries := nFreeEntries m - 1\<rparr>) s);
     let s2 = s1\<lparr>occStats := incRdReqs (getUsedReads me) (occStats s1)\<rparr>;
     let s3 = upd this (\<lambda>m. m\<lparr>
       nFullReadEntries := if \<not> hasFreeReads pme then nFullReadEntries m + 1 else nFullReadEntries m,
       nFullWriteEntries := if \<not> hasFreeWrites pme then nFullWriteEntries m + 1 else nFullWriteEntries m\<rparr>) s2;
     I_check (nFreeEntries (objs s3 this) \<ge> 0);
     Some s3 }"

subsection \<open>How SMPCache uses it\<close>

text \<open>
  The beginning of \<open>SMPCache::read\<close> and \<open>write\<close>: \<open>True\<close> when the caller goes on at once.
  They leave \<open>mo\<close> at its default, \<open>MemRead\<close>.
\<close>

definition SMPCache_request ::
  "('n cb_act \<Rightarrow> ('n, 'w, 'z) mshrs_scheme \<Rightarrow> ('n, 'w, 'z) mshrs_scheme option) \<Rightarrow> nat \<Rightarrow> 64 word \<Rightarrow> mem_op \<Rightarrow>
   'n \<Rightarrow> 'n \<Rightarrow> ('n, 'w, 'z) mshrs_scheme \<Rightarrow> (bool \<times> ('n, 'w, 'z) mshrs_scheme) option" where
  "SMPCache_request act this paddr mo c q s = do {
     (issued, s1) \<leftarrow> single_issue this paddr mo s;
     if issued then Some (True, s1)
     else do {
       s2 \<leftarrow> single_addEntry act this paddr c (Some q) mo s1;
       Some (False, s2) } }"

end
