(* ===== verification/MSHR_Correct.thy ===== *)
theory MSHR_Correct
  imports MSHR_Model
begin

text \<open>
  The invariant of \<open>SingleMSHR\<close>: its counters are what they count, an entry never holds more
  requests than it has room for, and the Bloom filter holds the lines that have an entry.
  All operations keep it and run through, also when the callbacks that they call use the
  MSHR again.
\<close>

subsection \<open>Sums over a map\<close>

definition msum :: "('v \<Rightarrow> int) \<Rightarrow> ('k \<Rightarrow> 'v option) \<Rightarrow> int" where
  "msum g m = (\<Sum>k\<in>dom m. g (the (m k)))"

lemma msum_empty [simp]: "msum g Map.empty = 0"
  by (simp add: msum_def)

lemma msum_new: "finite (dom m) \<Longrightarrow> m k = None \<Longrightarrow> msum g (m(k \<mapsto> v)) = msum g m + g v"
  unfolding msum_def by (subst dom_fun_upd) (auto simp: domIff intro!: sum.cong)

lemma msum_upd: "finite (dom m) \<Longrightarrow> m k = Some e \<Longrightarrow> msum g (m(k \<mapsto> v)) = msum g m - g e + g v"
proof -
  assume a: "finite (dom m)" "m k = Some e"
  have "msum g (m(k \<mapsto> v)) = g v + (\<Sum>j\<in>dom m - {k}. g (the (m j)))"
    using a unfolding msum_def by (subst sum.remove [of _ k]) (auto intro!: sum.cong)
  moreover have "msum g m = g e + (\<Sum>j\<in>dom m - {k}. g (the (m j)))"
    using a unfolding msum_def by (subst sum.remove [of _ k]) auto
  ultimately show ?thesis by simp
qed

lemma msum_del: "finite (dom m) \<Longrightarrow> m k = Some e \<Longrightarrow> msum g (m(k := None)) = msum g m - g e"
proof -
  assume a: "finite (dom m)" "m k = Some e"
  have "msum g (m(k := None)) = (\<Sum>j\<in>dom m - {k}. g (the (m j)))"
    unfolding msum_def by (rule sum.cong) auto
  moreover have "msum g m = g e + (\<Sum>j\<in>dom m - {k}. g (the (m j)))"
    using a unfolding msum_def by (subst sum.remove [of _ k]) auto
  ultimately show ?thesis by simp
qed

lemma msum_nonneg: "(\<And>k e. m k = Some e \<Longrightarrow> 0 \<le> g e) \<Longrightarrow> 0 \<le> msum g m"
  unfolding msum_def by (rule sum_nonneg) auto

lemma msum_ge:
  assumes "finite (dom m)" "m k = Some e" "\<And>k e. m k = Some e \<Longrightarrow> 0 \<le> g e"
  shows "g e \<le> msum g m"
proof -
  have "0 \<le> msum g (m(k := None))" using assms(3) by (intro msum_nonneg) (auto split: if_splits)
  then show ?thesis using msum_del [OF assms(1,2), of g] by simp
qed

lemma msum_count_zero:
  assumes "finite (dom m)"
  shows "msum (\<lambda>e. of_bool (\<not> P e)) m = 0 \<longleftrightarrow> (\<forall>e\<in>ran m. P e)"
proof
  assume z: "msum (\<lambda>e. of_bool (\<not> P e)) m = 0"
  show "\<forall>e\<in>ran m. P e"
  proof
    fix e assume "e \<in> ran m"
    then obtain k where "m k = Some e" by (auto simp: ran_def)
    then have "of_bool (\<not> P e) \<le> msum (\<lambda>e. of_bool (\<not> P e)) m" by (intro msum_ge [OF assms]) simp_all
    then show "P e" using z by (cases "P e") simp_all
  qed
next
  assume "\<forall>e\<in>ran m. P e"
  then show "msum (\<lambda>e. of_bool (\<not> P e)) m = 0"
    unfolding msum_def by (intro sum.neutral) (auto simp: ran_def)
qed

lemma msum_card: "msum (\<lambda>_. 1) m = int (card (dom m))"
  by (simp add: msum_def)

lemma sum_at:
  fixes f :: "'a \<Rightarrow> int"
  assumes "finite I" "i \<in> I"
  shows "(\<Sum>j\<in>I. f ((h(i := x)) j)) = (\<Sum>j\<in>I. f (h j)) - f (h i) + f x"
proof -
  have "(\<Sum>j\<in>I. f ((h(i := x)) j)) = f x + (\<Sum>j\<in>I - {i}. f (h j))"
    using assms by (subst sum.remove [of _ i]) (auto intro!: sum.cong)
  moreover have "(\<Sum>j\<in>I. f (h j)) = f (h i) + (\<Sum>j\<in>I - {i}. f (h j))"
    using assms by (subst sum.remove [of _ i]) auto
  ultimately show ?thesis by simp
qed

subsection \<open>The invariant\<close>

definition entry_ok :: "int \<Rightarrow> int \<Rightarrow> 64 word \<Rightarrow> 'n mshr_entry \<Rightarrow> bool" where
  "entry_ok nR nW line e = (reqLineAddr e = line \<and> e_nReads e = nR \<and>
     e_nWrites e = (if nW = 0 then nR else nW) \<and> rdWrSharing e = (nW = 0) \<and>
     0 \<le> nFreeReads e \<and> nFreeReads e \<le> nR \<and> 0 \<le> nFreeWrites e \<and> nFreeWrites e \<le> e_nWrites e \<and>
     0 \<le> nFreeSEntries e \<and>
     nFreeSEntries e = (if nW = 0 then nFreeReads e + nFreeWrites e - nR else nFreeReads e + nFreeWrites e) \<and>
     1 + int (length (cc e)) \<le> getUsedReads e + getUsedWrites e)"

definition obj_ok :: "'n smshr \<Rightarrow> bool" where
  "obj_ok m = (0 < nEntries m \<and> 1 \<le> s_nReads m \<and> 0 \<le> s_nWrites m \<and> finite (dom (ms m)) \<and>
     0 \<le> nFreeEntries m \<and> msum (\<lambda>_. 1) (ms m) = nEntries m - nFreeEntries m \<and>
     (\<forall>line e. ms m line = Some e \<longrightarrow> entry_ok (s_nReads m) (s_nWrites m) line e) \<and>
     (\<forall>line\<in>dom (ms m). drop_bit (Log2LineSize m) (push_bit (Log2LineSize m) line) = line) \<and>
     nOutsReqs m = msum (\<lambda>e. 1 + int (length (cc e))) (ms m) \<and>
     nFullReadEntries m = msum (\<lambda>e. of_bool (\<not> hasFreeReads e)) (ms m) \<and>
     nFullWriteEntries m = msum (\<lambda>e. of_bool (\<not> hasFreeWrites e)) (ms m) \<and>
     (\<forall>f\<in>set (overflow m). f_ovflwcb f \<noteq> None \<and> f_mo f \<in> {MemRead, MemWrite}) \<and>
     bf_reps (bf m) (image_mset ucast (mset_set (dom (ms m)))))"

text \<open>The objects \<open>I\<close> share the statistics.\<close>

definition mshr_inv :: "nat set \<Rightarrow> ('n, 'w, 'z) mshrs_scheme \<Rightarrow> bool" where
  "mshr_inv I s = (finite I \<and> (\<forall>i\<in>I. obj_ok (objs s i) \<and>
       entries (occStats s) i = msum (\<lambda>_. 1) (ms (objs s i))) \<and>
     totalEntries (occStats s) = (\<Sum>i\<in>I. msum (\<lambda>_. 1) (ms (objs s i))) \<and>
     outsRdReqs (occStats s) = (\<Sum>i\<in>I. msum getUsedReads (ms (objs s i))))"

lemma mshr_inv_update:
  assumes inv: "mshr_inv I s" and i: "i \<in> I" and ok: "obj_ok m"
    and o: "objs s' = (objs s)(i := m)"
    and e: "entries (occStats s') = (entries (occStats s))(i := msum (\<lambda>_. 1) (ms m))"
    and t: "totalEntries (occStats s') = totalEntries (occStats s) + msum (\<lambda>_. 1) (ms m) - msum (\<lambda>_. 1) (ms (objs s i))"
    and r: "outsRdReqs (occStats s') = outsRdReqs (occStats s) + msum getUsedReads (ms m) - msum getUsedReads (ms (objs s i))"
  shows "mshr_inv I s'"
proof -
  have "finite I" using inv by (simp add: mshr_inv_def)
  note sums = sum_at [OF this i, of "\<lambda>m. msum (\<lambda>_. 1) (ms m)" "objs s" m]
    sum_at [OF this i, of "\<lambda>m. msum getUsedReads (ms m)" "objs s" m]
  show ?thesis
    using inv i ok unfolding mshr_inv_def o e t r sums by auto
qed

lemma mshr_invD:
  assumes "mshr_inv I s" "i \<in> I"
  shows "obj_ok (objs s i)" "entries (occStats s) i = msum (\<lambda>_. 1) (ms (objs s i))"
    "msum (\<lambda>_. 1) (ms (objs s i)) \<le> totalEntries (occStats s)"
    "msum getUsedReads (ms (objs s i)) \<le> outsRdReqs (occStats s)"
proof -
  have f: "finite I" and ok: "\<And>j. j \<in> I \<Longrightarrow> obj_ok (objs s j)" using assms(1) by (auto simp: mshr_inv_def)
  show "obj_ok (objs s i)" "entries (occStats s) i = msum (\<lambda>_. 1) (ms (objs s i))"
    using assms by (auto simp: mshr_inv_def)
  show "msum (\<lambda>_. 1) (ms (objs s i)) \<le> totalEntries (occStats s)"
    using assms f by (auto simp: mshr_inv_def msum_card intro!: member_le_sum)
  have "0 \<le> msum getUsedReads (ms (objs s j))" if "j \<in> I" for j
    using ok [OF that] by (intro msum_nonneg) (auto simp: obj_ok_def entry_ok_def getUsedReads_def)
  then show "msum getUsedReads (ms (objs s i)) \<le> outsRdReqs (occStats s)"
    using assms f by (auto simp: mshr_inv_def intro!: member_le_sum)
qed

text \<open>What an operation leaves as it is.\<close>

definition same_conf :: "'n smshr \<Rightarrow> 'n smshr \<Rightarrow> bool" where
  "same_conf m m' = (nEntries m' = nEntries m \<and> Log2LineSize m' = Log2LineSize m \<and>
     allocPolicy m' = allocPolicy m \<and> s_nReads m' = s_nReads m \<and> s_nWrites m' = s_nWrites m \<and>
     checkingOverflow m' = checkingOverflow m)"

definition same_params :: "'n smshr \<Rightarrow> 'n smshr \<Rightarrow> bool" where
  "same_params m m' = (same_conf m m' \<and> (checkingOverflow m \<longrightarrow> (\<exists>fs. overflow m' = overflow m @ fs)))"

lemma same_conf_refl [simp]: "same_conf m m"
  by (simp add: same_conf_def)

lemma same_params_refl [simp]: "same_params m m"
  by (simp add: same_params_def)

lemma same_conf_trans: "same_conf m1 m2 \<Longrightarrow> same_conf m2 m3 \<Longrightarrow> same_conf m1 m3"
  by (simp add: same_conf_def)

lemma same_params_trans: "same_params m1 m2 \<Longrightarrow> same_params m2 m3 \<Longrightarrow> same_params m1 m3"
  by (auto simp: same_params_def same_conf_def)

subsection \<open>A new entry\<close>

text \<open>
  When \<open>checkSubEntries\<close> counts exactly the bounds that the last request has reached; \<open>r\<close> and
  \<open>w\<close> say which were reached before.
\<close>

definition counted :: "bool \<Rightarrow> bool \<Rightarrow> mem_op \<Rightarrow> 'n mshr_entry \<Rightarrow> bool" where
  "counted r w mo e = (if rdWrSharing e then \<not> r \<and> \<not> w \<and> hasFreeReads e = hasFreeWrites e
     else (\<not> hasFreeReads e \<longrightarrow> (mo = MemRead) = (\<not> r)) \<and> (\<not> hasFreeWrites e \<longrightarrow> (mo = MemWrite) = (\<not> w)))"

definition count_full :: "bool \<Rightarrow> bool \<Rightarrow> 'n mshr_entry \<Rightarrow> 'n smshr \<Rightarrow> 'n smshr" where
  "count_full r w e m = m\<lparr>nFullReadEntries := nFullReadEntries m + of_bool (\<not> hasFreeReads e \<and> \<not> r),
     nFullWriteEntries := nFullWriteEntries m + of_bool (\<not> hasFreeWrites e \<and> \<not> w)\<rparr>"

lemma upd_simps [simp]:
  "objs (upd this f s) = (objs s)(this := f (objs s this))" "globalClock (upd this f s) = globalClock s"
  "occStats (upd this f s) = occStats s" "world (upd this f s) = world s"
  "mshrs.more (upd this f s) = mshrs.more s"
  by (simp_all add: upd_def)

lemma mshrs_swap: "s\<lparr>occStats := a, objs := b\<rparr> = s\<lparr>objs := b, occStats := a\<rparr>"
  by (rule mshrs.equality) simp_all

lemma upd_upd: "upd this f (upd this g s) = upd this (f \<circ> g) s"
  by (simp add: upd_def)

lemma upd_id: "(\<And>m. m = objs s this \<Longrightarrow> f m = m) \<Longrightarrow> upd this f s = s"
  by (simp add: upd_def)

lemma count_full_sel:
  "bf (count_full r w e m) = bf m" "Log2LineSize (count_full r w e m) = Log2LineSize m"
  "nEntries (count_full r w e m) = nEntries m" "nFreeEntries (count_full r w e m) = nFreeEntries m"
  "nOutsReqs (count_full r w e m) = nOutsReqs m"
  by (simp_all add: count_full_def)

lemma checkSubEntries_eq:
  assumes "ms (objs s this) (calcLineAddr (objs s this) paddr) = Some e" "counted r w mo e"
  shows "single_checkSubEntries this paddr mo s = Some (upd this (count_full r w e) s)"
  using assms unfolding single_checkSubEntries_def counted_def Let_def
  by (auto simp: upd_def count_full_def split: if_splits)

definition first_entry :: "64 word \<Rightarrow> 64 word \<Rightarrow> int \<Rightarrow> int \<Rightarrow> mem_op \<Rightarrow> nat \<Rightarrow> 'n mshr_entry" where
  "first_entry paddr line nR nW mo clk =
     \<lparr>e_nReads = nR, nFreeReads = nR - of_bool (mo = MemRead), e_nWrites = (if nW = 0 then nR else nW),
      rdWrSharing = (nW = 0), nFreeWrites = (if nW = 0 then nR else nW) - of_bool (mo = MemWrite),
      nFreeSEntries = (if nW = 0 then nR else nR + nW) - 1, cc = [], reqLineAddr = line, displaced = False,
      whenAllocated = clk, l2Hit = False, writeSet = (if mo = MemWrite then {paddr AND 0xfffffffc} else {})\<rparr>"

lemma firstRequest_eq:
  "mo \<in> {MemRead, MemWrite} \<Longrightarrow>
   firstRequest paddr line nR nW mo (MSHRentry_new clk) = Some (first_entry paddr line nR nW mo clk)"
  unfolding firstRequest_def MSHRentry_new_def first_entry_def by (cases "nW = 0"; cases "mo = MemWrite") simp_all

lemma first_entry_simps [simp]:
  "cc (first_entry paddr line nR nW mo clk) = []"
  "getUsedReads (first_entry paddr line nR nW mo clk) = of_bool (mo = MemRead)"
  by (simp_all add: first_entry_def getUsedReads_def)

lemma first_entry_ok:
  assumes "1 \<le> nR" "0 \<le> nW" "mo \<in> {MemRead, MemWrite}"
  shows "entry_ok nR nW line (first_entry paddr line nR nW mo clk)"
    and "counted False False mo (first_entry paddr line nR nW mo clk)"
proof -
  have "mo = MemRead \<or> mo = MemWrite" using assms(3) by simp
  then show "entry_ok nR nW line (first_entry paddr line nR nW mo clk)"
    "counted False False mo (first_entry paddr line nR nW mo clk)"
    using assms(1,2)
    by (elim disjE; simp add: first_entry_def entry_ok_def getUsedReads_def getUsedWrites_def
        counted_def hasFreeReads_def hasFreeWrites_def)+
qed

lemma addRequest_refused:
  assumes "entry_ok nR nW line e" "\<not> entry_canAcceptRequest mo e" "mo \<in> {MemRead, MemWrite}"
  shows "addRequest paddr c mo e = Some (False, e)"
  using assms by (auto simp: addRequest_def entry_canAcceptRequest_def entry_ok_def split: if_splits)

definition entry_add :: "64 word \<Rightarrow> 'n \<Rightarrow> mem_op \<Rightarrow> 'n mshr_entry \<Rightarrow> 'n mshr_entry" where
  "entry_add paddr c mo e =
     (if mo = MemRead then e\<lparr>nFreeReads := nFreeReads e - 1, nFreeSEntries := nFreeSEntries e - 1, cc := cc e @ [c]\<rparr>
      else e\<lparr>writeSet := insert (paddr AND 0xfffffffc) (writeSet e), nFreeWrites := nFreeWrites e - 1,
             nFreeSEntries := nFreeSEntries e - 1, cc := cc e @ [c]\<rparr>)"

lemma addRequest_accepted:
  assumes "entry_ok nR nW line e" "entry_canAcceptRequest mo e" "mo \<in> {MemRead, MemWrite}"
  shows "addRequest paddr c mo e = Some (True, entry_add paddr c mo e)"
  using assms by (auto simp: addRequest_def entry_canAcceptRequest_def entry_ok_def entry_add_def split: if_splits)

lemma entry_add_cc [simp]: "cc (entry_add paddr c mo e) = cc e @ [c]"
  by (simp add: entry_add_def)

lemma entry_add_ok:
  assumes "entry_ok nR nW line e" "entry_canAcceptRequest mo e" "mo \<in> {MemRead, MemWrite}"
  shows "entry_ok nR nW line (entry_add paddr c mo e)"
  using assms by (auto simp: entry_canAcceptRequest_def entry_ok_def entry_add_def getUsedReads_def getUsedWrites_def split: if_splits)

lemma entry_add_used:
  "mo \<in> {MemRead, MemWrite} \<Longrightarrow> getUsedReads (entry_add paddr c mo e) = getUsedReads e + of_bool (mo = MemRead)"
  by (auto simp: entry_add_def getUsedReads_def)

lemma entry_add_counted:
  assumes "entry_ok nR nW line e" "entry_canAcceptRequest mo e" "mo \<in> {MemRead, MemWrite}" "1 \<le> nR" "0 \<le> nW"
  shows "counted (\<not> hasFreeReads e) (\<not> hasFreeWrites e) mo (entry_add paddr c mo e)"
    and "\<not> hasFreeReads e \<longrightarrow> \<not> hasFreeReads (entry_add paddr c mo e)"
    and "\<not> hasFreeWrites e \<longrightarrow> \<not> hasFreeWrites (entry_add paddr c mo e)"
proof -
  show "\<not> hasFreeReads e \<longrightarrow> \<not> hasFreeReads (entry_add paddr c mo e)"
    and "\<not> hasFreeWrites e \<longrightarrow> \<not> hasFreeWrites (entry_add paddr c mo e)"
    by (auto simp: entry_add_def hasFreeReads_def hasFreeWrites_def)
  show "counted (\<not> hasFreeReads e) (\<not> hasFreeWrites e) mo (entry_add paddr c mo e)"
  proof (cases "nW = 0")
    case True
    then show ?thesis using assms
      by (auto simp: counted_def entry_canAcceptRequest_def entry_ok_def entry_add_def hasFreeReads_def hasFreeWrites_def split: if_splits)
  next
    case False
    then show ?thesis using assms
      by (auto simp: counted_def entry_canAcceptRequest_def entry_ok_def entry_add_def hasFreeReads_def hasFreeWrites_def split: if_splits)
  qed
qed

lemma updateOcc_eq:
  assumes "n = nEntries (objs s this) - nFreeEntries (objs s this)"
    and "0 \<le> totalEntries (occStats s) + n - entries (occStats s) this"
  shows "updateOccHistogram this s = Some (s\<lparr>occStats := (occStats s)\<lparr>
    totalEntries := totalEntries (occStats s) + n - entries (occStats s) this,
    entries := (entries (occStats s))(this := n)\<rparr>\<rparr>)"
  using assms by (simp add: updateOccHistogram_def sampleEntryOcc_def Let_def)

definition inst_obj :: "'n smshr \<Rightarrow> 64 word \<Rightarrow> mem_op \<Rightarrow> nat \<Rightarrow> bloom \<Rightarrow> 'n smshr" where
  "inst_obj m paddr mo clk b =
     (let line = calcLineAddr m paddr; e = first_entry paddr line (s_nReads m) (s_nWrites m) mo clk in
      m\<lparr>ms := (ms m)(line \<mapsto> e), bf := b, nFreeEntries := nFreeEntries m - 1, nOutsReqs := nOutsReqs m + 1,
        nFullReadEntries := nFullReadEntries m + of_bool (\<not> hasFreeReads e),
        nFullWriteEntries := nFullWriteEntries m + of_bool (\<not> hasFreeWrites e)\<rparr>)"

lemma drop_push_drop: "drop_bit n (push_bit n (drop_bit n w)) = (drop_bit n w :: 'a::len word)"
  by (rule bit_word_eqI) (auto simp: bit_drop_bit_eq bit_push_bit_iff dest: bit_imp_le_length)

definition inst_stats :: "nat \<Rightarrow> mem_op \<Rightarrow> mshr_stats \<Rightarrow> mshr_stats" where
  "inst_stats this mo st = st\<lparr>totalEntries := totalEntries st + 1,
     entries := (entries st)(this := entries st this + 1),
     outsRdReqs := outsRdReqs st + of_bool (mo = MemRead)\<rparr>"

lemma inst_obj_ok:
  assumes ok: "obj_ok m" and free: "0 < nFreeEntries m" and new: "ms m (calcLineAddr m paddr) = None"
    and mo: "mo \<in> {MemRead, MemWrite}"
    and b: "bf_reps b (add_mset (ucast (calcLineAddr m paddr)) (image_mset ucast (mset_set (dom (ms m)))))"
  shows "obj_ok (inst_obj m paddr mo clk b)"
proof -
  let ?l = "calcLineAddr m paddr"
  let ?e = "first_entry paddr ?l (s_nReads m) (s_nWrites m) mo clk"
  have f: "finite (dom (ms m))" "?l \<notin> dom (ms m)" using ok new by (auto simp: obj_ok_def)
  have e: "entry_ok (s_nReads m) (s_nWrites m) ?l ?e"
    using first_entry_ok(1) [OF _ _ mo] ok by (auto simp: obj_ok_def)
  have L: "drop_bit (Log2LineSize m) (push_bit (Log2LineSize m) ?l) = ?l"
    by (simp add: calcLineAddr_def drop_push_drop)
  note sums = msum_new [of "ms m" ?l, OF f(1) new]
  show ?thesis
    unfolding obj_ok_def inst_obj_def Let_def
    using ok free b f e L by (simp add: sums obj_ok_def)
qed

lemma install_ok:
  fixes s :: "('n, 'w, 'z) mshrs_scheme"
  assumes inv: "mshr_inv I s" and i: "this \<in> I" and m: "m = objs s this"
    and free: "0 < nFreeEntries m" and new: "ms m (calcLineAddr m paddr) = None"
    and mo: "mo \<in> {MemRead, MemWrite}"
  shows "\<exists>b s'. s' = s\<lparr>objs := (objs s)(this := inst_obj m paddr mo (globalClock s) b),
        occStats := inst_stats this mo (occStats s)\<rparr> \<and> mshr_inv I s' \<and>
    do { s1 \<leftarrow> single_first this paddr mo s; s2 \<leftarrow> single_take this paddr mo s1;
         single_checkSubEntries this paddr mo s2 } = Some s' \<and>
    do { s1 \<leftarrow> single_first this paddr mo s; s2 \<leftarrow> single_checkSubEntries this paddr mo s1;
         single_take this paddr mo s2 } = Some s'"
proof -
  let ?l = "calcLineAddr m paddr"
  let ?e = "first_entry paddr ?l (s_nReads m) (s_nWrites m) mo (globalClock s)"
  note D = mshr_invD [OF inv i]
  have ok: "obj_ok m" using D(1) m by simp
  then have nR: "1 \<le> s_nReads m" "0 \<le> s_nWrites m" "finite (dom (ms m))"
    and card: "msum (\<lambda>_. 1) (ms m) = nEntries m - nFreeEntries m" by (simp_all add: obj_ok_def)
  obtain b where b: "BloomFilter_insert (ucast ?l) (bf m) = Some b"
      "bf_reps b (add_mset (ucast ?l) (image_mset ucast (mset_set (dom (ms m)))))"
    using bloom_insert ok unfolding obj_ok_def by blast
  let ?s' = "s\<lparr>objs := (objs s)(this := inst_obj m paddr mo (globalClock s) b),
        occStats := inst_stats this mo (occStats s)\<rparr>"
  note iok = inst_obj_ok [OF ok free new mo b(2), of "globalClock s"]
  have ent: "entries (occStats s) this = nEntries m - nFreeEntries m" using D(2) card m by simp
  have sums: "msum g (ms (inst_obj m paddr mo (globalClock s) b)) = msum g (ms m) + g ?e" for g
    using msum_new [OF nR(3) new, of g] by (simp add: inst_obj_def Let_def)
  have "mshr_inv I ?s'"
    using D(2) by (intro mshr_inv_update [OF inv i iok]) (simp_all add: inst_stats_def sums flip: m)
  moreover have tot: "0 \<le> totalEntries (occStats s)" using D(3) msum_nonneg [of "ms (objs s this)" "\<lambda>_. 1"] by simp
  have S1: "single_first this paddr mo s = Some (upd this (\<lambda>m. m\<lparr>ms := (ms m)(?l \<mapsto> ?e)\<rparr>) s)" (is "_ = Some ?s1")
    unfolding single_first_def using m by (simp add: Let_def firstRequest_eq [OF mo])
  have T: "single_take this paddr mo x = Some (upd this (\<lambda>m. m\<lparr>bf := b, nFreeEntries := nFreeEntries m - 1, nOutsReqs := nOutsReqs m + 1\<rparr>)
        (x\<lparr>occStats := inst_stats this mo (occStats s)\<rparr>))"
    if x: "occStats x = occStats s" "bf (objs x this) = bf m" "Log2LineSize (objs x this) = Log2LineSize m"
      "nEntries (objs x this) = nEntries m" "nFreeEntries (objs x this) = nFreeEntries m" for x :: "('n, 'w, 'z) mshrs_scheme"
  proof -
    have l: "calcLineAddr (objs x this) paddr = ?l" using x(3) by (simp add: calcLineAddr_def)
    let ?x = "upd this (\<lambda>m. m\<lparr>bf := b, nFreeEntries := nFreeEntries m - 1\<rparr>) x"
    have "updateOccHistogram this ?x = Some (?x\<lparr>occStats := (occStats s)\<lparr>
        totalEntries := totalEntries (occStats s) + 1, entries := (entries (occStats s))(this := entries (occStats s) this + 1)\<rparr>\<rparr>)"
      using updateOcc_eq [of "nEntries m - nFreeEntries m + 1" ?x this] x ent tot by simp
    then show ?thesis
      unfolding single_take_def l x(2) b(1)
      by (simp add: inst_stats_def count_read_def incRdReqs_def upd_def)
  qed
  have C: "single_checkSubEntries this paddr mo x = Some (upd this (count_full False False ?e) x)"
    if "ms (objs x this) (calcLineAddr (objs x this) paddr) = Some ?e" for x :: "('n, 'w, 'z) mshrs_scheme"
    using checkSubEntries_eq [OF that first_entry_ok(2) [OF nR(1,2) mo]] .
  have I1: "count_full False False ?e (m\<lparr>ms := (ms m)(?l \<mapsto> ?e), bf := b, nFreeEntries := nFreeEntries m - 1,
        nOutsReqs := nOutsReqs m + 1\<rparr>) = inst_obj m paddr mo (globalClock s) b"
    "(count_full False False ?e (m\<lparr>ms := (ms m)(?l \<mapsto> ?e)\<rparr>))\<lparr>bf := b, nFreeEntries := nFreeEntries m - 1,
        nOutsReqs := nOutsReqs m + 1\<rparr> = inst_obj m paddr mo (globalClock s) b"
    by (rule smshr.equality; simp add: count_full_def inst_obj_def Let_def)+
  have "single_checkSubEntries this paddr mo (upd this (\<lambda>m. m\<lparr>bf := b, nFreeEntries := nFreeEntries m - 1, nOutsReqs := nOutsReqs m + 1\<rparr>)
        (?s1\<lparr>occStats := inst_stats this mo (occStats s)\<rparr>)) = Some ?s'"
    using m I1(1) by (subst C) (simp_all add: calcLineAddr_def upd_def mshrs_swap)
  moreover have "single_checkSubEntries this paddr mo ?s1 = Some (upd this (count_full False False ?e) ?s1)"
    using m by (intro C) (simp add: calcLineAddr_def)
  moreover have "single_take this paddr mo (upd this (count_full False False ?e) ?s1) = Some ?s'"
    using m I1(2) by (subst T) (simp_all add: calcLineAddr_def upd_def mshrs_swap count_full_sel)
  moreover have "single_take this paddr mo ?s1 = Some (upd this (\<lambda>m. m\<lparr>bf := b, nFreeEntries := nFreeEntries m - 1, nOutsReqs := nOutsReqs m + 1\<rparr>)
        (?s1\<lparr>occStats := inst_stats this mo (occStats s)\<rparr>))"
    using m by (intro T) (simp_all add: calcLineAddr_def)
  ultimately show ?thesis using S1 by (intro exI [of _ b] exI [of _ ?s']) simp
qed

subsection \<open>One more request of an entry\<close>

definition add_obj :: "'n smshr \<Rightarrow> 64 word \<Rightarrow> 'n \<Rightarrow> mem_op \<Rightarrow> 'n mshr_entry \<Rightarrow> 'n smshr" where
  "add_obj m paddr c mo e =
     (let e' = entry_add paddr c mo e in
      m\<lparr>ms := (ms m)(calcLineAddr m paddr \<mapsto> e'), nOutsReqs := nOutsReqs m + 1,
        nFullReadEntries := nFullReadEntries m + of_bool (\<not> hasFreeReads e' \<and> hasFreeReads e),
        nFullWriteEntries := nFullWriteEntries m + of_bool (\<not> hasFreeWrites e' \<and> hasFreeWrites e)\<rparr>)"

lemma add_obj_ok:
  assumes ok: "obj_ok m" and e: "ms m (calcLineAddr m paddr) = Some e" "entry_canAcceptRequest mo e"
    and mo: "mo \<in> {MemRead, MemWrite}"
  shows "obj_ok (add_obj m paddr c mo e)"
    and "msum (\<lambda>_. 1) (ms (add_obj m paddr c mo e)) = msum (\<lambda>_. 1) (ms m)"
    and "msum getUsedReads (ms (add_obj m paddr c mo e)) = msum getUsedReads (ms m) + of_bool (mo = MemRead)"
proof -
  let ?l = "calcLineAddr m paddr" and ?e = "entry_add paddr c mo e"
  have O: "finite (dom (ms m))" "1 \<le> s_nReads m" "0 \<le> s_nWrites m" "entry_ok (s_nReads m) (s_nWrites m) ?l e"
    using ok e(1) by (auto simp: obj_ok_def)
  note sums = msum_upd [of "ms m" ?l, OF O(1) e(1)]
  note cnt = entry_add_counted(2,3) [OF O(4) e(2) mo O(2,3), of paddr c]
  have d: "dom ((ms m)(?l \<mapsto> ?e)) = dom (ms m)" using e(1) by auto
  have "msum (\<lambda>e. of_bool (\<not> hasFreeReads e)) ((ms m)(?l \<mapsto> ?e)) =
      msum (\<lambda>e. of_bool (\<not> hasFreeReads e)) (ms m) + of_bool (\<not> hasFreeReads ?e \<and> hasFreeReads e)"
    "msum (\<lambda>e. of_bool (\<not> hasFreeWrites e)) ((ms m)(?l \<mapsto> ?e)) =
      msum (\<lambda>e. of_bool (\<not> hasFreeWrites e)) (ms m) + of_bool (\<not> hasFreeWrites ?e \<and> hasFreeWrites e)"
    using cnt by (auto simp: sums)
  then show "obj_ok (add_obj m paddr c mo e)"
    using ok entry_add_ok [OF O(4) e(2) mo, of paddr c] d
    unfolding obj_ok_def add_obj_def Let_def by (simp add: sums)
  show "msum (\<lambda>_. 1) (ms (add_obj m paddr c mo e)) = msum (\<lambda>_. 1) (ms m)"
    "msum getUsedReads (ms (add_obj m paddr c mo e)) = msum getUsedReads (ms m) + of_bool (mo = MemRead)"
    using entry_add_used [OF mo, of paddr c e] by (simp_all add: add_obj_def Let_def sums)
qed

lemma add_inv:
  assumes inv: "mshr_inv I s" and i: "this \<in> I" and m: "m = objs s this"
    and e: "ms m (calcLineAddr m paddr) = Some e" "entry_canAcceptRequest mo e" and mo: "mo \<in> {MemRead, MemWrite}"
    and ovf: "set fs \<subseteq> set (overflow m)"
  shows "mshr_inv I (s\<lparr>objs := (objs s)(this := (add_obj m paddr c mo e)\<lparr>overflow := fs\<rparr>),
     occStats := occStats (count_read mo s), world := w\<rparr>)"
proof -
  have ok: "obj_ok m" using mshr_invD(1) [OF inv i] m by simp
  note A = add_obj_ok [OF ok e mo, of c]
  have ok': "obj_ok ((add_obj m paddr c mo e)\<lparr>overflow := fs\<rparr>)"
    using A(1) ovf by (auto simp: obj_ok_def add_obj_def Let_def)
  show ?thesis
    using mshr_invD(2) [OF inv i] A(2,3)
    by (intro mshr_inv_update [OF inv i ok']) (auto simp: count_read_def incRdReqs_def simp flip: m)
qed

subsection \<open>Callbacks\<close>

text \<open>
  What the MSHR needs of its client: a callback that is called keeps the invariant and does
  not take requests off a queue that is being worked on; a callback that is destroyed leaves
  the MSHR alone. \<open>\<mu>\<close> bounds the number of requests that callbacks can still put into an
  overflow queue.
\<close>

definition load :: "nat set \<Rightarrow> ('w \<Rightarrow> nat) \<Rightarrow> ('n, 'w, 'z) mshrs_scheme \<Rightarrow> nat" where
  "load I \<mu> s = (\<Sum>i\<in>I. length (overflow (objs s i))) + \<mu> (world s)"

definition keeps :: "nat set \<Rightarrow> ('w \<Rightarrow> nat) \<Rightarrow> ('n, 'w, 'z) mshrs_scheme \<Rightarrow> ('n, 'w, 'z) mshrs_scheme \<Rightarrow> bool" where
  "keeps I \<mu> s s' = (mshr_inv I s' \<and> (\<forall>i\<in>I. same_params (objs s i) (objs s' i)) \<and> load I \<mu> s' \<le> load I \<mu> s)"

definition client_ok :: "nat set \<Rightarrow> ('w \<Rightarrow> nat) \<Rightarrow>
    ('n cb_act \<Rightarrow> ('n, 'w, 'z) mshrs_scheme \<Rightarrow> ('n, 'w, 'z) mshrs_scheme option) \<Rightarrow> bool" where
  "client_ok I \<mu> act = (
     (\<forall>n s. \<exists>w. act (DestroyCB n) s = Some (s\<lparr>world := w\<rparr>) \<and> \<mu> w \<le> \<mu> (world s)) \<and>
     (\<forall>n s. mshr_inv I s \<longrightarrow> (\<exists>s'. act (CallCB n) s = Some s' \<and> keeps I \<mu> s s')))"

lemma keeps_refl: "mshr_inv I s \<Longrightarrow> keeps I \<mu> s s"
  by (simp add: keeps_def)

lemma keeps_trans: "keeps I \<mu> s1 s2 \<Longrightarrow> keeps I \<mu> s2 s3 \<Longrightarrow> keeps I \<mu> s1 s3"
  unfolding keeps_def using same_params_trans by (meson order_trans)

lemma mshr_inv_cong:
  "objs s' = objs s \<Longrightarrow> occStats s' = occStats s \<Longrightarrow> mshr_inv I s' = mshr_inv I s"
  by (simp add: mshr_inv_def)

lemma load_at:
  assumes "finite I" "i \<in> I" "objs s' = (objs s)(i := m)"
  shows "load I \<mu> s' + length (overflow (objs s i)) + \<mu> (world s) =
    load I \<mu> s + length (overflow m) + \<mu> (world s')"
proof -
  have "(\<Sum>j\<in>I. int (length (overflow (objs s' j)))) =
      (\<Sum>j\<in>I. int (length (overflow (objs s j)))) - int (length (overflow (objs s i))) + int (length (overflow m))"
    using sum_at [OF assms(1,2), of "\<lambda>m. int (length (overflow m))" "objs s" m] unfolding assms(3) .
  then show ?thesis unfolding load_def of_nat_sum [symmetric] by linarith
qed

lemma load_same:
  assumes "finite I" "i \<in> I" "objs s' = (objs s)(i := m)" "overflow m = overflow (objs s i)" "world s' = world s"
  shows "load I \<mu> s' = load I \<mu> s"
  using load_at [OF assms(1,2,3), of \<mu>] assms(4,5) by simp

lemma destroyD:
  assumes "client_ok I \<mu> act"
  obtains w where "act (DestroyCB n) s = Some (s\<lparr>world := w\<rparr>)" "\<mu> w \<le> \<mu> (world s)"
  using assms unfolding client_ok_def by blast

lemma callD:
  assumes "client_ok I \<mu> act" "mshr_inv I s"
  obtains s' where "act (CallCB n) s = Some s'" "keeps I \<mu> s s'"
  using assms unfolding client_ok_def by blast

subsection \<open>The overflow queue\<close>

definition refused :: "'n smshr \<Rightarrow> 'n overflow_field \<Rightarrow> bool" where
  "refused m f = (case ms m (calcLineAddr m (f_paddr f)) of
     None \<Rightarrow> nFreeEntries m \<le> 0 | Some e \<Rightarrow> \<not> entry_canAcceptRequest (f_mo f) e)"

text \<open>The first request of the queue cannot be taken yet.\<close>

definition stalled :: "'n smshr \<Rightarrow> bool" where
  "stalled m = (overflow m = [] \<or> refused m (hd (overflow m)))"

definition stepped :: "nat set \<Rightarrow> ('w \<Rightarrow> nat) \<Rightarrow> nat \<Rightarrow> ('n, 'w, 'z) mshrs_scheme \<Rightarrow> ('n, 'w, 'z) mshrs_scheme \<Rightarrow> bool" where
  "stepped I \<mu> this s s' = (mshr_inv I s' \<and> (\<forall>i\<in>I - {this}. same_params (objs s i) (objs s' i)) \<and>
     same_conf (objs s this) (objs s' this) \<and> load I \<mu> s' < load I \<mu> s)"

lemma obj_ok_overflow: "obj_ok m \<Longrightarrow> set fs \<subseteq> set (overflow m) \<Longrightarrow> obj_ok (m\<lparr>overflow := fs\<rparr>)"
  by (auto simp: obj_ok_def)

lemma inst_obj_simps [simp]:
  "overflow (inst_obj m paddr mo clk b) = overflow m" "same_conf m (inst_obj m paddr mo clk b)"
  by (simp_all add: inst_obj_def Let_def same_conf_def)

lemma step_new:
  assumes act: "client_ok I \<mu> act" and inv: "mshr_inv I s" and i: "this \<in> I" and m: "m = objs s this"
    and chk: "checkingOverflow m" and f: "overflow m = f # rest"
    and new: "ms m (calcLineAddr m (f_paddr f)) = None" and free: "0 < nFreeEntries m"
  shows "\<exists>cb b s4 w s'. single_overflow_step act this f s = Some (True, s') \<and> stepped I \<mu> this s s' \<and>
    f_ovflwcb f = Some cb \<and>
    act (CallCB cb) (s\<lparr>objs := (objs s)(this := inst_obj m (f_paddr f) (f_mo f) (globalClock s) b),
        occStats := inst_stats this (f_mo f) (occStats s)\<rparr>) = Some s4 \<and>
    act (DestroyCB (f_cb f)) s4 = Some (s4\<lparr>world := w\<rparr>) \<and>
    s' = upd this (\<lambda>m. m\<lparr>overflow := tl (overflow m)\<rparr>) (s4\<lparr>world := w\<rparr>)"
proof -
  have fin: "finite I" using inv by (simp add: mshr_inv_def)
  have ok: "obj_ok m" using mshr_invD(1) [OF inv i] m by simp
  then have fok: "f_mo f \<in> {MemRead, MemWrite}" and "f_ovflwcb f \<noteq> None" using f by (auto simp: obj_ok_def)
  then obtain cb where o: "f_ovflwcb f = Some cb" by blast
  obtain b s3 where s3: "s3 = s\<lparr>objs := (objs s)(this := inst_obj m (f_paddr f) (f_mo f) (globalClock s) b),
        occStats := inst_stats this (f_mo f) (occStats s)\<rparr>" "mshr_inv I s3"
      "do { s1 \<leftarrow> single_first this (f_paddr f) (f_mo f) s; s2 \<leftarrow> single_checkSubEntries this (f_paddr f) (f_mo f) s1;
         single_take this (f_paddr f) (f_mo f) s2 } = Some s3"
    using install_ok [OF inv i m free new fok] by blast
  obtain s4 where s4: "act (CallCB cb) s3 = Some s4" "keeps I \<mu> s3 s4" using callD [OF act s3(2)] .
  obtain w where w: "act (DestroyCB (f_cb f)) s4 = Some (s4\<lparr>world := w\<rparr>)" "\<mu> w \<le> \<mu> (world s4)" using destroyD [OF act] .
  let ?m4 = "objs s4 this"
  have o3: "objs s3 this = inst_obj m (f_paddr f) (f_mo f) (globalClock s) b" by (simp add: s3(1))
  have sp: "same_params (objs s3 this) ?m4" using s4(2) i by (simp add: keeps_def)
  moreover have "checkingOverflow (objs s3 this)" using chk o3 by (simp add: inst_obj_def Let_def)
  ultimately obtain fs where ov: "overflow ?m4 = f # rest @ fs" using f o3 by (auto simp: same_params_def)
  let ?s' = "upd this (\<lambda>m. m\<lparr>overflow := tl (overflow m)\<rparr>) (s4\<lparr>world := w\<rparr>)"
  have inv4: "mshr_inv I s4" using s4(2) by (simp add: keeps_def)
  have "mshr_inv I ?s'"
    using mshr_invD(2) [OF inv4 i] obj_ok_overflow [OF mshr_invD(1) [OF inv4 i], of "tl (overflow ?m4)"] ov
    by (intro mshr_inv_update [OF inv4 i, of "?m4\<lparr>overflow := tl (overflow ?m4)\<rparr>"]) auto
  moreover have "load I \<mu> s3 = load I \<mu> s" using load_same [OF fin i, of s3 s "inst_obj m (f_paddr f) (f_mo f) (globalClock s) b"] s3(1) m by simp
  then have "load I \<mu> ?s' < load I \<mu> s"
    using load_at [OF fin i, of ?s' s4 "?m4\<lparr>overflow := tl (overflow ?m4)\<rparr>" \<mu>] ov w(2) s4(2) by (simp add: keeps_def)
  moreover have "same_conf (objs s3 this) ?m4" using sp by (simp add: same_params_def)
  then have "same_conf m ?m4" unfolding o3 by (rule same_conf_trans [OF inst_obj_simps(2)])
  then have "same_conf m (objs ?s' this)" by (simp add: same_conf_def)
  moreover have "\<forall>i\<in>I - {this}. same_params (objs s i) (objs ?s' i)"
  proof
    fix j assume j: "j \<in> I - {this}"
    then have "same_params (objs s3 j) (objs s4 j)" using s4(2) by (simp add: keeps_def)
    then show "same_params (objs s j) (objs ?s' j)" using j s3(1) by simp
  qed
  moreover obtain s1 s2 where "single_first this (f_paddr f) (f_mo f) s = Some s1"
      "single_checkSubEntries this (f_paddr f) (f_mo f) s1 = Some s2" "single_take this (f_paddr f) (f_mo f) s2 = Some s3"
    using s3(3) by (auto simp: bind_eq_Some_conv)
  then have "single_overflow_step act this f s = Some (True, ?s')"
    using new free s4(1) w(1) o ov m unfolding single_overflow_step_def
    by (simp add: Let_def act_opt_def single_pop_def)
  ultimately have "single_overflow_step act this f s = Some (True, ?s')" "stepped I \<mu> this s ?s'"
    using m by (auto simp: stepped_def)
  then show ?thesis using o s4(1) w(1) unfolding s3(1)
    by (intro exI [of _ cb] exI [of _ b] exI [of _ s4] exI [of _ w] exI [of _ ?s'] conjI) simp_all
qed

lemma count_read_simps [simp]:
  "objs (count_read mo s) = objs s" "world (count_read mo s) = world s" "globalClock (count_read mo s) = globalClock s"
  "mshrs.more (count_read mo s) = mshrs.more s"
  by (simp_all add: count_read_def)

lemma occStats_count_read:
  "occStats (count_read mo s) = (if mo = MemRead then incRdReqs 1 (occStats s) else occStats s)"
  by (simp add: count_read_def)

lemma add_obj_simps [simp]:
  "overflow (add_obj m paddr c mo e) = overflow m" "same_conf m (add_obj m paddr c mo e)"
  "same_conf m ((add_obj m paddr c mo e)\<lparr>overflow := fs\<rparr>)"
  by (simp_all add: add_obj_def Let_def same_conf_def)

lemma step_add:
  assumes act: "client_ok I \<mu> act" and inv: "mshr_inv I s" and i: "this \<in> I" and m: "m = objs s this"
    and f: "overflow m = f # rest"
    and e: "ms m (calcLineAddr m (f_paddr f)) = Some e" "entry_canAcceptRequest (f_mo f) e"
  shows "\<exists>cb w s'. single_overflow_step act this f s = Some (True, s') \<and> stepped I \<mu> this s s' \<and>
    f_ovflwcb f = Some cb \<and>
    act (DestroyCB cb) (upd this (\<lambda>k. k\<lparr>ms := (ms k)(calcLineAddr m (f_paddr f) \<mapsto>
        entry_add (f_paddr f) (f_cb f) (f_mo f) e)\<rparr>) s) =
      Some ((upd this (\<lambda>k. k\<lparr>ms := (ms k)(calcLineAddr m (f_paddr f) \<mapsto>
        entry_add (f_paddr f) (f_cb f) (f_mo f) e)\<rparr>) s)\<lparr>world := w\<rparr>) \<and>
    s' = s\<lparr>objs := (objs s)(this := (add_obj m (f_paddr f) (f_cb f) (f_mo f) e)\<lparr>overflow := rest\<rparr>),
        occStats := occStats (count_read (f_mo f) s), world := w\<rparr>"
proof -
  have fin: "finite I" using inv by (simp add: mshr_inv_def)
  have ok: "obj_ok m" using mshr_invD(1) [OF inv i] m by simp
  let ?l = "calcLineAddr m (f_paddr f)" and ?e = "entry_add (f_paddr f) (f_cb f) (f_mo f) e"
  have mo: "f_mo f \<in> {MemRead, MemWrite}" and "f_ovflwcb f \<noteq> None"
    and eok: "entry_ok (s_nReads m) (s_nWrites m) ?l e" "1 \<le> s_nReads m" "0 \<le> s_nWrites m"
    using ok f e by (auto simp: obj_ok_def)
  then obtain cb where o: "f_ovflwcb f = Some cb" by blast
  let ?s1 = "upd this (\<lambda>m. m\<lparr>ms := (ms m)(?l \<mapsto> ?e)\<rparr>) s"
  obtain w where w: "act (DestroyCB cb) ?s1 = Some (?s1\<lparr>world := w\<rparr>)" "\<mu> w \<le> \<mu> (world s)"
    using destroyD [OF act, of cb ?s1] by auto
  let ?m' = "(add_obj m (f_paddr f) (f_cb f) (f_mo f) e)\<lparr>overflow := rest\<rparr>"
  let ?s' = "s\<lparr>objs := (objs s)(this := ?m'), occStats := occStats (count_read (f_mo f) s), world := w\<rparr>"
  have "mshr_inv I ?s'" using add_inv [OF inv i m e mo] f by auto
  moreover have "load I \<mu> ?s' < load I \<mu> s"
    using load_at [OF fin i, of ?s' s ?m' \<mu>] f w(2) m by simp
  moreover have "single_overflow_step act this f s = Some (True, ?s')"
  proof -
    note cnt = entry_add_counted(1) [OF eok(1) e(2) mo eok(2,3), of "f_paddr f" "f_cb f"]
    let ?s4 = "count_read (f_mo f) (upd this (\<lambda>m. m\<lparr>nOutsReqs := nOutsReqs m + 1\<rparr>)
        (upd this (\<lambda>m. m\<lparr>overflow := tl (overflow m)\<rparr>) (?s1\<lparr>world := w\<rparr>)))"
    have "single_checkSubEntries this (f_paddr f) (f_mo f) ?s4 =
        Some (upd this (count_full (\<not> hasFreeReads e) (\<not> hasFreeWrites e) ?e) ?s4)"
      using m cnt by (intro checkSubEntries_eq) (simp_all add: calcLineAddr_def)
    moreover have I: "count_full (\<not> hasFreeReads e) (\<not> hasFreeWrites e) ?e
        (m\<lparr>ms := (ms m)(?l \<mapsto> ?e), overflow := rest, nOutsReqs := nOutsReqs m + 1\<rparr>) = ?m'"
      by (rule smshr.equality) (simp_all add: count_full_def add_obj_def Let_def conj_commute)
    have "upd this (count_full (\<not> hasFreeReads e) (\<not> hasFreeWrites e) ?e) ?s4 = ?s'"
      using f I by (intro mshrs.equality) (simp_all add: occStats_count_read flip: m)
    moreover have "single_pop this (?s1\<lparr>world := w\<rparr>) =
        Some (upd this (\<lambda>m. m\<lparr>overflow := tl (overflow m)\<rparr>) (?s1\<lparr>world := w\<rparr>))"
      using f m by (simp add: single_pop_def)
    ultimately show ?thesis
      using e(1) addRequest_accepted [OF eok(1) e(2) mo, of "f_paddr f" "f_cb f"] o w(1) m
      unfolding single_overflow_step_def Let_def act_opt_def by simp
  qed
  ultimately have "single_overflow_step act this f s = Some (True, ?s')" "stepped I \<mu> this s ?s'"
    using m by (auto simp: stepped_def)
  then show ?thesis using o w(1)
    by (intro exI [of _ cb] exI [of _ w] exI [of _ ?s'] conjI) simp_all
qed

lemma step_refused:
  assumes ok: "obj_ok m" and m: "m = objs s this" and f: "f \<in> set (overflow m)" and r: "refused m f"
  shows "single_overflow_step act this f s = Some (False, s)"
proof (cases "ms m (calcLineAddr m (f_paddr f))")
  case None
  then show ?thesis using r m by (simp add: single_overflow_step_def refused_def Let_def)
next
  case (Some e)
  then have "entry_ok (s_nReads m) (s_nWrites m) (calcLineAddr m (f_paddr f)) e" "f_mo f \<in> {MemRead, MemWrite}"
    using ok f by (auto simp: obj_ok_def)
  then have "addRequest (f_paddr f) (f_cb f) (f_mo f) e = Some (False, e)"
    using r Some by (intro addRequest_refused) (auto simp: refused_def)
  then show ?thesis using Some m by (simp add: single_overflow_step_def Let_def)
qed

lemma loop_ok:
  assumes act: "client_ok I \<mu> act" and i: "this \<in> I"
  shows "mshr_inv I s \<Longrightarrow> checkingOverflow (objs s this) \<Longrightarrow>
    \<exists>s'. single_overflow_loop act this s = Some s' \<and> mshr_inv I s' \<and>
      (\<forall>i\<in>I - {this}. same_params (objs s i) (objs s' i)) \<and> same_conf (objs s this) (objs s' this) \<and>
      load I \<mu> s' \<le> load I \<mu> s \<and> stalled (objs s' this)"
proof (induction "load I \<mu> s" arbitrary: s rule: less_induct)
  case less
  let ?m = "objs s this"
  have ok: "obj_ok ?m" using mshr_invD(1) [OF less.prems(1) i] .
  show ?case
  proof (cases "overflow ?m")
    case Nil
    then show ?thesis using less.prems
      by (intro exI [of _ s]) (simp add: single_overflow_loop.simps stalled_def same_conf_def)
  next
    case (Cons f rest)
    show ?thesis
    proof (cases "refused ?m f")
      case True
      then show ?thesis using step_refused [OF ok refl _ True, of act] Cons less.prems
        by (intro exI [of _ s]) (simp add: single_overflow_loop.simps stalled_def same_conf_def)
    next
      case False
      have "\<exists>s1. single_overflow_step act this f s = Some (True, s1) \<and> stepped I \<mu> this s s1"
      proof (cases "ms ?m (calcLineAddr ?m (f_paddr f))")
        case None
        then have "0 < nFreeEntries ?m" using False by (simp add: refused_def)
        then show ?thesis using step_new [OF act less.prems(1) i refl less.prems(2) Cons None] by blast
      next
        case (Some e)
        then have "entry_canAcceptRequest (f_mo f) e" using False by (simp add: refused_def)
        then show ?thesis using step_add [OF act less.prems(1) i refl Cons Some] by blast
      qed
      then obtain s1 where s1: "single_overflow_step act this f s = Some (True, s1)" "stepped I \<mu> this s s1" by blast
      then have "checkingOverflow (objs s1 this)" using less.prems(2) by (simp add: stepped_def same_conf_def)
      then obtain s' where s': "single_overflow_loop act this s1 = Some s'" "mshr_inv I s'"
          "\<forall>i\<in>I - {this}. same_params (objs s1 i) (objs s' i)" "same_conf (objs s1 this) (objs s' this)"
          "load I \<mu> s' \<le> load I \<mu> s1" "stalled (objs s' this)"
        using less.hyps [of s1] s1(2) by (auto simp: stepped_def)
      have "single_overflow_loop act this s = Some s'"
        using Cons s1(1) s'(1) by (subst single_overflow_loop.simps) simp
      moreover have "\<forall>i\<in>I - {this}. same_params (objs s i) (objs s' i)"
        using s'(3) s1(2) same_params_trans unfolding stepped_def by blast
      moreover have "same_conf (objs s this) (objs s' this)"
        using s'(4) s1(2) same_conf_trans unfolding stepped_def by blast
      moreover have "load I \<mu> s' \<le> load I \<mu> s" using s'(5) s1(2) by (simp add: stepped_def)
      ultimately show ?thesis using s'(2,6) by blast
    qed
  qed
qed

end
