(* ===== verification/MSHR_Safety.thy ===== *)
theory MSHR_Safety
  imports MSHR_Correct
begin

text \<open>
  Every operation of \<open>SingleMSHR\<close> keeps the invariant and runs through, for every client
  that satisfies \<open>client_ok\<close>; and a client that only uses these operations satisfies it.
\<close>

subsection \<open>The loop of checkOverflow\<close>

lemma obj_ok_flags [simp]:
  "obj_ok (m\<lparr>checkingOverflow := c\<rparr>) = obj_ok m"
  by (simp add: obj_ok_def)

lemma stalled_flag [simp]: "stalled (m\<lparr>checkingOverflow := c\<rparr>) = stalled m"
  by (auto simp: stalled_def refused_def calcLineAddr_def split: option.splits)

lemma upd_same_inv:
  assumes "mshr_inv I s" "this \<in> I" "obj_ok (f (objs s this))" "ms (f (objs s this)) = ms (objs s this)"
  shows "mshr_inv I (upd this f s)"
  using mshr_invD(2) [OF assms(1,2)] by (intro mshr_inv_update [OF assms(1-3)]) (auto simp: assms(4))

lemma checkOverflow_ok:
  assumes act: "client_ok I \<mu> act" and inv: "mshr_inv I s" and i: "this \<in> I"
  shows "\<exists>s'. single_checkOverflow act this s = Some s' \<and> keeps I \<mu> s s' \<and>
    (\<not> checkingOverflow (objs s this) \<longrightarrow> stalled (objs s' this))"
proof -
  let ?m = "objs s this"
  have fin: "finite I" using inv by (simp add: mshr_inv_def)
  show ?thesis
  proof (cases "overflow ?m = [] \<or> checkingOverflow ?m")
    case True
    then show ?thesis using inv
      by (intro exI [of _ s]) (auto simp: single_checkOverflow_def keeps_refl stalled_def)
  next
    case False
    let ?s1 = "upd this (\<lambda>m. m\<lparr>checkingOverflow := True\<rparr>) s"
    have inv1: "mshr_inv I ?s1" using mshr_invD(1) [OF inv i] by (intro upd_same_inv [OF inv i]) simp_all
    obtain s2 where s2: "single_overflow_loop act this ?s1 = Some s2" "mshr_inv I s2"
        "\<forall>i\<in>I - {this}. same_params (objs ?s1 i) (objs s2 i)" "same_conf (objs ?s1 this) (objs s2 this)"
        "load I \<mu> s2 \<le> load I \<mu> ?s1" "stalled (objs s2 this)"
      using loop_ok [OF act i inv1] by auto
    let ?s' = "upd this (\<lambda>m. m\<lparr>checkingOverflow := False\<rparr>) s2"
    have "mshr_inv I ?s'" using mshr_invD(1) [OF s2(2) i] by (intro upd_same_inv [OF s2(2) i]) simp_all
    moreover have "load I \<mu> ?s1 = load I \<mu> s"
      using load_same [OF fin i, of ?s1 s "?m\<lparr>checkingOverflow := True\<rparr>"] by simp
    moreover have "load I \<mu> ?s' = load I \<mu> s2"
      using load_same [OF fin i, of ?s' s2 "(objs s2 this)\<lparr>checkingOverflow := False\<rparr>"] by simp
    moreover have "same_params (objs s j) (objs ?s' j)" if "j \<in> I" for j
      using s2(3,4) that False by (cases "j = this") (auto simp: same_params_def same_conf_def)
    ultimately have "keeps I \<mu> s ?s'" using s2(5) by (simp add: keeps_def)
    moreover have "single_checkOverflow act this s = Some ?s'"
      using False s2(1) by (simp add: single_checkOverflow_def)
    ultimately show ?thesis using s2(6) by (intro exI [of _ ?s']) simp
  qed
qed

subsection \<open>retire\<close>

definition release_obj :: "64 word \<Rightarrow> 'n mshr_entry \<Rightarrow> bloom \<Rightarrow> 'n smshr \<Rightarrow> 'n smshr" where
  "release_obj line e b m = m\<lparr>nOutsReqs := nOutsReqs m - 1,
     nFullReadEntries := nFullReadEntries m - of_bool (\<not> hasFreeReads e),
     nFullWriteEntries := nFullWriteEntries m - of_bool (\<not> hasFreeWrites e),
     nFreeEntries := nFreeEntries m + 1, bf := b, ms := (ms m)(line := None)\<rparr>"

definition release_stats :: "nat \<Rightarrow> 'n mshr_entry \<Rightarrow> mshr_stats \<Rightarrow> mshr_stats" where
  "release_stats this e st = st\<lparr>outsRdReqs := outsRdReqs st - getUsedReads e,
     totalEntries := totalEntries st - 1, entries := (entries st)(this := entries st this - 1)\<rparr>"

lemma release_obj_ok:
  assumes ok: "obj_ok m" and e: "ms m line = Some e" "cc e = []"
    and b: "bf_reps b (image_mset ucast (mset_set (dom (ms m))) - {#ucast line#})"
  shows "obj_ok (release_obj line e b m)"
proof -
  have f: "finite (dom (ms m))" "line \<in> dom (ms m)" using ok e by (auto simp: obj_ok_def)
  note sums = msum_del [of "ms m" line, OF f(1) e(1)]
  have "mset_set (dom (ms m)) = add_mset line (mset_set (dom (ms m) - {line}))"
    using f mset_set.remove by metis
  then have "image_mset ucast (mset_set (dom (ms m))) - {#ucast line :: 32 word#} = image_mset ucast (mset_set (dom (ms m) - {line}))"
    by simp
  then have "bf_reps b (image_mset ucast (mset_set (dom (ms m) - {line})))" using b by simp
  then show ?thesis
    using ok e(2) f by (auto simp: obj_ok_def release_obj_def sums split: if_splits)
qed

definition cond_dec :: "nat \<Rightarrow> 'n mshr_entry \<Rightarrow> ('n, 'w, 'z) mshrs_scheme \<Rightarrow> ('n, 'w, 'z) mshrs_scheme" where
  "cond_dec this e s1 =
     (let s2 = (if \<not> hasFreeReads e then upd this (\<lambda>m. m\<lparr>nFullReadEntries := nFullReadEntries m - 1\<rparr>) s1 else s1)
      in if \<not> hasFreeWrites e then upd this (\<lambda>m. m\<lparr>nFullWriteEntries := nFullWriteEntries m - 1\<rparr>) s2 else s2)"

lemma cond_dec_eq:
  "cond_dec this e s = upd this (\<lambda>m. m\<lparr>nFullReadEntries := nFullReadEntries m - of_bool (\<not> hasFreeReads e),
     nFullWriteEntries := nFullWriteEntries m - of_bool (\<not> hasFreeWrites e)\<rparr>) s"
  by (rule mshrs.equality) (simp_all add: cond_dec_def Let_def)

lemma release_ok:
  fixes s :: "('n, 'w, 'z) mshrs_scheme"
  assumes inv: "mshr_inv I s" and i: "this \<in> I" and m: "m = objs s this"
    and e: "ms m line = Some e" "cc e = []"
  shows "\<exists>b s'. single_release this line e (upd this (\<lambda>m. m\<lparr>nOutsReqs := nOutsReqs m - 1\<rparr>) s) = Some s' \<and>
    s' = s\<lparr>objs := (objs s)(this := release_obj line e b m), occStats := release_stats this e (occStats s)\<rparr> \<and>
    mshr_inv I s'"
proof -
  note D = mshr_invD [OF inv i, folded m]
  have ok: "obj_ok m" by (rule D(1))
  then have f: "finite (dom (ms m))" "line \<in> dom (ms m)" and eok: "entry_ok (s_nReads m) (s_nWrites m) line e"
    and card: "msum (\<lambda>_. 1) (ms m) = nEntries m - nFreeEntries m" and bl: "bf_reps (bf m) (image_mset ucast (mset_set (dom (ms m))))"
    and full: "nFullReadEntries m = msum (\<lambda>e. of_bool (\<not> hasFreeReads e)) (ms m)"
      "nFullWriteEntries m = msum (\<lambda>e. of_bool (\<not> hasFreeWrites e)) (ms m)"
    and eoks: "\<And>k x. ms m k = Some x \<Longrightarrow> entry_ok (s_nReads m) (s_nWrites m) k x"
    using e by (auto simp: obj_ok_def)
  have used: "\<And>k x. ms m k = Some x \<Longrightarrow> 0 \<le> getUsedReads x"
    using eoks by (auto simp: entry_ok_def getUsedReads_def)
  have "(ucast line :: 32 word) \<in># image_mset ucast (mset_set (dom (ms m)))" using f by auto
  then obtain b where b: "BloomFilter_remove (ucast line) (bf m) = Some b"
      "bf_reps b (image_mset ucast (mset_set (dom (ms m))) - {#ucast line#})"
    using bloom_remove [OF bl] by blast
  have line: "reqLineAddr e = line" using eok by (simp add: entry_ok_def)
  note iok = release_obj_ok [OF ok e b(2)]
  let ?s' = "s\<lparr>objs := (objs s)(this := release_obj line e b m), occStats := release_stats this e (occStats s)\<rparr>"
  have sums: "msum g (ms (release_obj line e b m)) = msum g (ms m) - g e" for g
    using msum_del [OF f(1) e(1), of g] by (simp add: release_obj_def)
  have "mshr_inv I ?s'"
    using D(2) by (intro mshr_inv_update [OF inv i iok]) (simp_all add: release_stats_def sums flip: m)
  moreover have rd: "getUsedReads e \<le> outsRdReqs (occStats s)"
  proof -
    have "getUsedReads e \<le> msum getUsedReads (ms m)" by (rule msum_ge [OF f(1) e(1)]) (erule used)
    then show ?thesis using D(4) by simp
  qed
  moreover have full01: "of_bool (\<not> hasFreeReads e) \<le> nFullReadEntries m" "of_bool (\<not> hasFreeWrites e) \<le> nFullWriteEntries m"
    using msum_ge [of "ms m" line e "\<lambda>e. of_bool (\<not> hasFreeReads e)", OF f(1) e(1)]
      msum_ge [of "ms m" line e "\<lambda>e. of_bool (\<not> hasFreeWrites e)", OF f(1) e(1)] full by simp_all
  moreover have one: "1 \<le> totalEntries (occStats s)"
    using msum_ge [of "ms m" line e "\<lambda>_. 1", OF f(1) e(1)] D(3) by simp
  define x where "x = upd this (\<lambda>m. m\<lparr>nOutsReqs := nOutsReqs m - 1,
     nFullReadEntries := nFullReadEntries m - of_bool (\<not> hasFreeReads e),
     nFullWriteEntries := nFullWriteEntries m - of_bool (\<not> hasFreeWrites e),
     nFreeEntries := nFreeEntries m + 1\<rparr>) (s\<lparr>occStats := (occStats s)\<lparr>outsRdReqs := outsRdReqs (occStats s) - getUsedReads e\<rparr>\<rparr>)"
  have occ: "updateOccHistogram this x = Some (x\<lparr>occStats := release_stats this e (occStats s)\<rparr>)"
    using updateOcc_eq [of "nEntries m - nFreeEntries m - 1" x this] D(2) card one
    by (simp add: x_def release_stats_def flip: m)
  have bfx: "bf (objs x this) = bf m" by (simp add: x_def flip: m)
  have "upd this (\<lambda>m. m\<lparr>bf := b, ms := (ms m)(line := None)\<rparr>) (x\<lparr>occStats := release_stats this e (occStats s)\<rparr>) = ?s'"
    by (rule mshrs.equality) (simp_all add: x_def release_obj_def flip: m)
  moreover have "single_release this line e (upd this (\<lambda>m. m\<lparr>nOutsReqs := nOutsReqs m - 1\<rparr>) s) =
      do { s4 \<leftarrow> updateOccHistogram this x;
           b \<leftarrow> BloomFilter_remove (ucast (reqLineAddr e)) (bf (objs s4 this));
           Some (upd this (\<lambda>m. m\<lparr>bf := b, ms := (ms m)(line := None)\<rparr>) s4) }"
  proof -
    let ?s0 = "upd this (\<lambda>m. m\<lparr>nOutsReqs := nOutsReqs m - 1\<rparr>) s"
    let ?st = "(occStats s)\<lparr>outsRdReqs := outsRdReqs (occStats s) - getUsedReads e\<rparr>"
    have "decRdReqs (getUsedReads e) (occStats ?s0) = Some ?st" using rd by (simp add: decRdReqs_def Let_def)
    moreover have "upd this (\<lambda>m. m\<lparr>nFreeEntries := nFreeEntries m + 1\<rparr>) (cond_dec this e (?s0\<lparr>occStats := ?st\<rparr>)) = x"
      unfolding cond_dec_eq by (rule mshrs.equality) (simp_all add: x_def)
    ultimately show ?thesis
      using full01 unfolding single_release_def cond_dec_def
      by (cases "hasFreeReads e"; cases "hasFreeWrites e"; simp add: Let_def flip: m)
  qed
  ultimately show ?thesis using occ bfx b(1) line by (intro exI [of _ b] exI [of _ ?s']) simp
qed

text \<open>The first waiting callback is taken off the entry.\<close>

definition next_obj :: "64 word \<Rightarrow> 'n mshr_entry \<Rightarrow> 'n list \<Rightarrow> 'n smshr \<Rightarrow> 'n smshr" where
  "next_obj line e cbs' m = m\<lparr>nOutsReqs := nOutsReqs m - 1, ms := (ms m)(line \<mapsto> e\<lparr>cc := cbs'\<rparr>)\<rparr>"

lemma next_obj_ok:
  assumes ok: "obj_ok m" and e: "ms m line = Some e" "cc e = x # xs"
  shows "obj_ok (next_obj line e xs m)"
    and "msum (\<lambda>_. 1) (ms (next_obj line e xs m)) = msum (\<lambda>_. 1) (ms m)"
    and "msum getUsedReads (ms (next_obj line e xs m)) = msum getUsedReads (ms m)"
proof -
  have f: "finite (dom (ms m))" "dom ((ms m)(line \<mapsto> e\<lparr>cc := xs\<rparr>)) = dom (ms m)"
    and eok: "entry_ok (s_nReads m) (s_nWrites m) line e" using ok e by (auto simp: obj_ok_def)
  note sums = msum_upd [of "ms m" line, OF f(1) e(1)]
  have flags: "hasFreeReads (e\<lparr>cc := xs\<rparr>) = hasFreeReads e" "hasFreeWrites (e\<lparr>cc := xs\<rparr>) = hasFreeWrites e"
      "getUsedReads (e\<lparr>cc := xs\<rparr>) = getUsedReads e" "getUsedWrites (e\<lparr>cc := xs\<rparr>) = getUsedWrites e"
    by (simp_all add: hasFreeReads_def hasFreeWrites_def getUsedReads_def getUsedWrites_def)
  have "entry_ok (s_nReads m) (s_nWrites m) line (e\<lparr>cc := xs\<rparr>)"
    using eok e(2) by (simp add: entry_ok_def flags)
  then show "obj_ok (next_obj line e xs m)"
    using ok e(2) f(2) unfolding obj_ok_def next_obj_def by (simp add: sums flags)
  show "msum (\<lambda>_. 1) (ms (next_obj line e xs m)) = msum (\<lambda>_. 1) (ms m)"
    "msum getUsedReads (ms (next_obj line e xs m)) = msum getUsedReads (ms m)"
    by (simp_all add: next_obj_def sums flags)
qed

lemma retire_ok:
  assumes act: "client_ok I \<mu> act" and inv: "mshr_inv I s" and i: "this \<in> I"
    and e: "ms (objs s this) (calcLineAddr (objs s this) paddr) = Some e"
  shows "\<exists>s'. single_retire act this paddr s = Some (cc e = [], s') \<and> keeps I \<mu> s s' \<and>
    (\<not> checkingOverflow (objs s this) \<longrightarrow> stalled (objs s' this))"
proof -
  let ?m = "objs s this"
  let ?l = "calcLineAddr ?m paddr"
  have fin: "finite I" using inv by (simp add: mshr_inv_def)
  have ok: "obj_ok ?m" using mshr_invD(1) [OF inv i] .
  have line: "reqLineAddr e = ?l" using ok e by (auto simp: obj_ok_def entry_ok_def)
  let ?s1 = "upd this (\<lambda>m. m\<lparr>nOutsReqs := nOutsReqs m - 1\<rparr>) s"
  have "\<exists>s2. (case cc e of
          [] \<Rightarrow> do { s2 \<leftarrow> single_release this ?l e ?s1; Some (True, s2) }
        | cb # rest \<Rightarrow> do {
            s2 \<leftarrow> act (CallCB cb) (upd this (\<lambda>m. m\<lparr>ms := (ms m)(?l \<mapsto> e\<lparr>cc := rest\<rparr>)\<rparr>) ?s1);
            Some (False, s2) }) = Some (cc e = [], s2) \<and> keeps I \<mu> s s2"
  proof (cases "cc e")
    case Nil
    obtain b s2 where s2: "single_release this ?l e ?s1 = Some s2"
        "s2 = s\<lparr>objs := (objs s)(this := release_obj ?l e b ?m), occStats := release_stats this e (occStats s)\<rparr>"
        "mshr_inv I s2"
      using release_ok [OF inv i refl e Nil] by blast
    have "load I \<mu> s2 = load I \<mu> s"
      using load_same [OF fin i, of s2 s "release_obj ?l e b ?m"] s2(2) by (simp add: release_obj_def)
    moreover have "same_params (objs s j) (objs s2 j)" for j
      by (cases "j = this") (simp_all add: s2(2) release_obj_def same_params_def same_conf_def)
    ultimately have "keeps I \<mu> s s2" using s2(3) by (simp add: keeps_def)
    then show ?thesis using Nil s2(1) by simp
  next
    case (Cons x xs)
    let ?s2 = "upd this (\<lambda>m. m\<lparr>ms := (ms m)(?l \<mapsto> e\<lparr>cc := xs\<rparr>)\<rparr>) ?s1"
    note N = next_obj_ok [OF ok e Cons]
    have O: "objs ?s2 = (objs s)(this := next_obj ?l e xs ?m)"
      by (auto simp: next_obj_def fun_eq_iff intro!: smshr.equality)
    have inv2: "mshr_inv I ?s2"
      using mshr_invD(2) [OF inv i] N by (intro mshr_inv_update [OF inv i N(1) O]) auto
    obtain s2 where s2: "act (CallCB x) ?s2 = Some s2" "keeps I \<mu> ?s2 s2" using callD [OF act inv2] .
    have "load I \<mu> ?s2 = load I \<mu> s" using load_same [OF fin i O] by (simp add: next_obj_def)
    moreover have "same_params (objs s j) (objs ?s2 j)" for j
      unfolding O by (cases "j = this") (simp_all add: next_obj_def same_params_def same_conf_def)
    ultimately have "keeps I \<mu> s ?s2" using inv2 by (simp add: keeps_def)
    then show ?thesis using Cons s2 keeps_trans by fastforce
  qed
  then obtain s2 where s2: "(case cc e of
          [] \<Rightarrow> do { s2 \<leftarrow> single_release this ?l e ?s1; Some (True, s2) }
        | cb # rest \<Rightarrow> do {
            s2 \<leftarrow> act (CallCB cb) (upd this (\<lambda>m. m\<lparr>ms := (ms m)(?l \<mapsto> e\<lparr>cc := rest\<rparr>)\<rparr>) ?s1);
            Some (False, s2) }) = Some (cc e = [], s2)" "keeps I \<mu> s s2" by blast
  have inv2: "mshr_inv I s2" and chk: "checkingOverflow (objs s2 this) = checkingOverflow ?m"
    using s2(2) i by (auto simp: keeps_def same_params_def same_conf_def)
  obtain s3 where s3: "single_checkOverflow act this s2 = Some s3" "keeps I \<mu> s2 s3"
      "\<not> checkingOverflow (objs s2 this) \<longrightarrow> stalled (objs s3 this)"
    using checkOverflow_ok [OF act inv2 i] by blast
  have "single_retire act this paddr s = Some (cc e = [], s3)"
    unfolding single_retire_def using e line s2(1) s3(1) by (simp add: Let_def)
  then show ?thesis using keeps_trans [OF s2(2) s3(2)] s3(3) chk by (intro exI [of _ s3]) simp
qed

subsection \<open>issue and addEntry\<close>

lemma issue_ok:
  assumes inv: "mshr_inv I s" and i: "this \<in> I" and m: "m = objs s this"
    and mo: "mo \<in> {MemRead, MemWrite}"
  shows "\<exists>s'. single_issue this paddr mo s = Some
      (overflow m = [] \<and> ms m (calcLineAddr m paddr) = None \<and> 0 < nFreeEntries m, s') \<and> keeps I \<mu> s s' \<and>
    (\<not> (overflow m = [] \<and> ms m (calcLineAddr m paddr) = None \<and> 0 < nFreeEntries m) \<longrightarrow> s' = s) \<and>
    (overflow m = [] \<and> ms m (calcLineAddr m paddr) = None \<and> 0 < nFreeEntries m \<longrightarrow>
      (\<exists>b. s' = s\<lparr>objs := (objs s)(this := inst_obj m paddr mo (globalClock s) b),
        occStats := inst_stats this mo (occStats s)\<rparr>))"
proof (cases "overflow m = [] \<and> ms m (calcLineAddr m paddr) = None \<and> 0 < nFreeEntries m")
  case True
  have fin: "finite I" using inv by (simp add: mshr_inv_def)
  obtain b s' where s': "s' = s\<lparr>objs := (objs s)(this := inst_obj m paddr mo (globalClock s) b),
        occStats := inst_stats this mo (occStats s)\<rparr>" "mshr_inv I s'"
      "do { s1 \<leftarrow> single_first this paddr mo s; s2 \<leftarrow> single_take this paddr mo s1;
         single_checkSubEntries this paddr mo s2 } = Some s'"
    using install_ok [OF inv i m _ _ mo] True by blast
  have "load I \<mu> s' = load I \<mu> s"
    using load_same [OF fin i, of s' s "inst_obj m paddr mo (globalClock s) b"] s'(1) m by simp
  moreover have "same_params (objs s j) (objs s' j)" for j
    using True m by (cases "j = this") (simp_all add: s'(1) same_params_def)
  ultimately have "keeps I \<mu> s s'" using s'(2) by (simp add: keeps_def)
  moreover have "nFreeEntries m \<le> nEntries m"
  proof -
    have "msum (\<lambda>_. 1) (ms m) = nEntries m - nFreeEntries m"
      using mshr_invD(1) [OF inv i, folded m] by (simp add: obj_ok_def)
    then show ?thesis using msum_nonneg [of "ms m" "\<lambda>_. 1"] by simp
  qed
  moreover obtain s1 s2 where "single_first this paddr mo s = Some s1" "single_take this paddr mo s1 = Some s2"
      "single_checkSubEntries this paddr mo s2 = Some s'"
    using s'(3) by (auto simp: bind_eq_Some_conv)
  ultimately show ?thesis using True s'(1) unfolding single_issue_def m [symmetric] Let_def
    by (intro exI [of _ s']) auto
next
  case False
  have ok: "obj_ok m" using mshr_invD(1) [OF inv i] m by simp
  then have "msum (\<lambda>_. 1) (ms m) = nEntries m - nFreeEntries m" "0 \<le> nFreeEntries m" by (simp_all add: obj_ok_def)
  then have "nFreeEntries m \<le> nEntries m" using msum_nonneg [of "ms m" "\<lambda>_. 1"] by simp
  then have "single_issue this paddr mo s = Some (False, s)"
    using False \<open>0 \<le> nFreeEntries m\<close> unfolding single_issue_def m [symmetric] Let_def by auto
  then show ?thesis using False keeps_refl [OF inv] by (intro exI [of _ s]) auto
qed

definition queue_obj :: "64 word \<Rightarrow> 'n \<Rightarrow> 'n \<Rightarrow> mem_op \<Rightarrow> 'n smshr \<Rightarrow> 'n smshr" where
  "queue_obj paddr c q mo m =
     m\<lparr>overflow := overflow m @ [\<lparr>f_paddr = paddr, f_cb = c, f_ovflwcb = Some q, f_mo = mo\<rparr>]\<rparr>"

text \<open>The request joins the entry of its line, or it goes into the queue.\<close>

lemma queue_ok:
  assumes inv: "mshr_inv I s" and i: "this \<in> I" and mo: "mo \<in> {MemRead, MemWrite}"
  shows "mshr_inv I (upd this (queue_obj paddr c q mo) s)"
    and "\<forall>j\<in>I. same_params (objs s j) (objs (upd this (queue_obj paddr c q mo) s) j)"
    and "load I \<mu> (upd this (queue_obj paddr c q mo) s) = load I \<mu> s + 1"
proof -
  have fin: "finite I" using inv by (simp add: mshr_inv_def)
  have "obj_ok (queue_obj paddr c q mo (objs s this))"
    using mshr_invD(1) [OF inv i] mo by (auto simp: obj_ok_def queue_obj_def)
  then show "mshr_inv I (upd this (queue_obj paddr c q mo) s)"
    by (intro upd_same_inv [OF inv i]) (simp_all add: queue_obj_def)
  show "\<forall>j\<in>I. same_params (objs s j) (objs (upd this (queue_obj paddr c q mo) s) j)"
    by (simp add: same_params_def same_conf_def queue_obj_def)
  show "load I \<mu> (upd this (queue_obj paddr c q mo) s) = load I \<mu> s + 1"
    using load_at [OF fin i, of "upd this (queue_obj paddr c q mo) s" s "queue_obj paddr c q mo (objs s this)" \<mu>]
    by (simp add: queue_obj_def)
qed

definition joins :: "64 word \<Rightarrow> mem_op \<Rightarrow> 'n smshr \<Rightarrow> bool" where
  "joins paddr mo m = (overflow m = [] \<and>
     (case ms m (calcLineAddr m paddr) of None \<Rightarrow> False | Some e \<Rightarrow> entry_canAcceptRequest mo e))"

lemma addEntry_join:
  assumes act: "client_ok I \<mu> act" and inv: "mshr_inv I s" and i: "this \<in> I" and m: "m = objs s this"
    and mo: "mo \<in> {MemRead, MemWrite}" and ov: "overflow m = []"
    and e: "ms m (calcLineAddr m paddr) = Some e" "entry_canAcceptRequest mo e"
  shows "\<exists>w s'. single_addEntry act this paddr c (Some q) mo s = Some s' \<and> \<mu> w \<le> \<mu> (world s) \<and>
    s' = s\<lparr>objs := (objs s)(this := add_obj m paddr c mo e), occStats := occStats (count_read mo s), world := w\<rparr>"
proof -
  have ok: "obj_ok m" using mshr_invD(1) [OF inv i] m by simp
  let ?l = "calcLineAddr m paddr" and ?e = "entry_add paddr c mo e"
  have eok: "entry_ok (s_nReads m) (s_nWrites m) ?l e" "1 \<le> s_nReads m" "0 \<le> s_nWrites m"
    using ok e by (auto simp: obj_ok_def)
  note cnt = entry_add_counted(1) [OF eok(1) e(2) mo eok(2,3), of paddr c]
  let ?s1 = "count_read mo (upd this (\<lambda>m. m\<lparr>ms := (ms m)(?l \<mapsto> ?e), nOutsReqs := nOutsReqs m + 1\<rparr>) s)"
  obtain w where w: "act (DestroyCB q) ?s1 = Some (?s1\<lparr>world := w\<rparr>)" "\<mu> w \<le> \<mu> (world s)"
    using destroyD [OF act, of q ?s1] by auto
  let ?s' = "s\<lparr>objs := (objs s)(this := add_obj m paddr c mo e), occStats := occStats (count_read mo s), world := w\<rparr>"
  have "single_checkSubEntries this paddr mo (?s1\<lparr>world := w\<rparr>) =
      Some (upd this (count_full (\<not> hasFreeReads e) (\<not> hasFreeWrites e) ?e) (?s1\<lparr>world := w\<rparr>))"
    using m cnt by (intro checkSubEntries_eq) (simp_all add: calcLineAddr_def)
  moreover have I: "count_full (\<not> hasFreeReads e) (\<not> hasFreeWrites e) ?e
      (m\<lparr>ms := (ms m)(?l \<mapsto> ?e), nOutsReqs := nOutsReqs m + 1\<rparr>) = add_obj m paddr c mo e"
    by (rule smshr.equality) (simp_all add: count_full_def add_obj_def Let_def conj_commute)
  have "upd this (count_full (\<not> hasFreeReads e) (\<not> hasFreeWrites e) ?e) (?s1\<lparr>world := w\<rparr>) = ?s'"
    using I by (intro mshrs.equality) (simp_all add: occStats_count_read flip: m)
  ultimately have "single_addEntry act this paddr c (Some q) mo s = Some ?s'"
    using ov e(1) addRequest_accepted [OF eok(1) e(2) mo, of paddr c] w(1)
    unfolding single_addEntry_def Let_def act_opt_def m [symmetric] by simp
  then show ?thesis using w(2) by blast
qed

lemma addEntry_queue:
  assumes inv: "mshr_inv I s" and i: "this \<in> I" and mo: "mo \<in> {MemRead, MemWrite}"
    and q: "\<not> joins paddr mo (objs s this)"
  shows "single_addEntry act this paddr c (Some q) mo s = Some (upd this (queue_obj paddr c q mo) s)"
proof -
  let ?m = "objs s this"
  have u: "single_toOverflow this paddr c (Some q) mo s = upd this (queue_obj paddr c q mo) s"
    by (simp add: single_toOverflow_def upd_def queue_obj_def)
  show ?thesis
  proof (cases "overflow ?m = []")
    case False
    then show ?thesis by (simp add: single_addEntry_def Let_def u)
  next
    case True
    show ?thesis
    proof (cases "ms ?m (calcLineAddr ?m paddr)")
      case None
      then show ?thesis by (simp add: single_addEntry_def Let_def u)
    next
      case (Some e)
      then have "entry_ok (s_nReads ?m) (s_nWrites ?m) (calcLineAddr ?m paddr) e"
        using mshr_invD(1) [OF inv i] by (auto simp: obj_ok_def)
      then have "addRequest paddr c mo e = Some (False, e)"
        using q True Some by (intro addRequest_refused [OF _ _ mo]) (auto simp: joins_def)
      then show ?thesis using True Some by (simp add: single_addEntry_def Let_def u)
    qed
  qed
qed

text \<open>The request joins the entry of its line, or it goes into the queue.\<close>

lemma addEntry_ok:
  assumes act: "client_ok I \<mu> act" and inv: "mshr_inv I s" and i: "this \<in> I" and m: "m = objs s this"
    and mo: "mo \<in> {MemRead, MemWrite}"
  shows "\<exists>s'. single_addEntry act this paddr c (Some q) mo s = Some s' \<and> mshr_inv I s' \<and>
    (\<forall>j\<in>I. same_params (objs s j) (objs s' j)) \<and> load I \<mu> s' \<le> load I \<mu> s + of_bool (\<not> joins paddr mo m)"
proof (cases "joins paddr mo m")
  case True
  then obtain e where e: "overflow m = []" "ms m (calcLineAddr m paddr) = Some e" "entry_canAcceptRequest mo e"
    by (auto simp: joins_def split: option.splits)
  have fin: "finite I" using inv by (simp add: mshr_inv_def)
  obtain w s' where s': "single_addEntry act this paddr c (Some q) mo s = Some s'" "\<mu> w \<le> \<mu> (world s)"
      "s' = s\<lparr>objs := (objs s)(this := add_obj m paddr c mo e), occStats := occStats (count_read mo s), world := w\<rparr>"
    using addEntry_join [OF act inv i m mo e] by blast
  have "mshr_inv I s'"
    using add_inv [OF inv i m e(2,3) mo, of "overflow m" w c] unfolding s'(3) by (simp add: add_obj_def Let_def)
  moreover have "load I \<mu> s' \<le> load I \<mu> s"
    using load_at [OF fin i, of s' s "add_obj m paddr c mo e" \<mu>] s'(2,3) m by simp
  moreover have "\<forall>j\<in>I. same_params (objs s j) (objs s' j)"
    using m by (simp add: s'(3) same_params_def)
  ultimately show ?thesis using s'(1) by (intro exI [of _ s']) simp
next
  case False
  then show ?thesis
    using addEntry_queue [OF inv i mo, of paddr] queue_ok [OF inv i mo] m by simp
qed

subsection \<open>Callbacks that use the MSHR\<close>

text \<open>
  A callback that goes on to retire a request of its own, as \<open>SMPCache::doRead\<close> does on a
  hit: it is called from \<open>retire\<close> and calls \<open>retire\<close>.
\<close>

definition then_retire ::
  "('n cb_act \<Rightarrow> ('n, 'w, 'z) mshrs_scheme \<Rightarrow> ('n, 'w, 'z) mshrs_scheme option) \<Rightarrow> ('n \<Rightarrow> nat \<times> 64 word) \<Rightarrow>
   'n cb_act \<Rightarrow> ('n, 'w, 'z) mshrs_scheme \<Rightarrow> ('n, 'w, 'z) mshrs_scheme option" where
  "then_retire act target a s =
     (case a of
        DestroyCB n \<Rightarrow> act a s
      | CallCB n \<Rightarrow> do {
          s1 \<leftarrow> act a s;
          let m = objs s1 (fst (target n));
          if ms m (calcLineAddr m (snd (target n))) = None then Some s1
          else map_option snd (single_retire act (fst (target n)) (snd (target n)) s1) })"

lemma then_retire_ok:
  assumes act: "client_ok I \<mu> act" and t: "\<And>n. fst (target n) \<in> I"
  shows "client_ok I \<mu> (then_retire act target)"
proof -
  have "\<exists>s'. then_retire act target (CallCB n) s = Some s' \<and> keeps I \<mu> s s'" if inv: "mshr_inv I s" for n s
  proof -
    obtain s1 where s1: "act (CallCB n) s = Some s1" "keeps I \<mu> s s1" using callD [OF act inv] .
    then have inv1: "mshr_inv I s1" by (simp add: keeps_def)
    show ?thesis
    proof (cases "ms (objs s1 (fst (target n))) (calcLineAddr (objs s1 (fst (target n))) (snd (target n)))")
      case None
      then show ?thesis using s1 by (simp add: then_retire_def Let_def)
    next
      case (Some e)
      obtain s2 where "single_retire act (fst (target n)) (snd (target n)) s1 = Some (cc e = [], s2)" "keeps I \<mu> s1 s2"
        using retire_ok [OF act inv1 t Some] by blast
      then show ?thesis using s1 Some keeps_trans by (fastforce simp: then_retire_def Let_def)
    qed
  qed
  moreover have "then_retire act target (DestroyCB n) = act (DestroyCB n)" for n
    by (simp add: then_retire_def fun_eq_iff)
  ultimately show ?thesis using act unfolding client_ok_def by simp
qed

subsection \<open>New objects\<close>

definition stats_new :: mshr_stats where
  "stats_new = \<lparr>entries = \<lambda>_. 0, totalEntries = 0, outsRdReqs = 0\<rparr>"

lemma obj_new_ok:
  assumes "SingleMSHR_new sz lsz nrd nwr pol = Some m" "1 \<le> nrd" "0 \<le> nwr"
  shows "obj_ok m" "ms m = Map.empty" "overflow m = []" "\<not> checkingOverflow m" "nOutsReqs m = 0"
proof -
  obtain l b where m: "BloomFilter_new [(8, 256), (6, 64), (6, 64), (6, 64)] = Some b" "0 < sz"
      "m = \<lparr>nEntries = sz, nFreeEntries = sz, Log2LineSize = l, allocPolicy = pol,
           s_nReads = nrd, s_nWrites = nwr, nOutsReqs = 0, bf = b, checkingOverflow = False,
           nFullReadEntries = 0, nFullWriteEntries = 0, overflow = [], ms = Map.empty\<rparr>"
    using assms(1) by (auto simp: SingleMSHR_new_def bind_eq_Some_conv)
  have "bf_reps b {#}" using bloom_new [of "[(8, 256), (6, 64), (6, 64), (6, 64)]"] m(1) by auto
  then show "obj_ok m" using m(2,3) assms(2,3) by (simp add: obj_ok_def)
  show "ms m = Map.empty" "overflow m = []" "\<not> checkingOverflow m" "nOutsReqs m = 0" by (simp_all add: m(3))
qed

lemma mshr_inv_new:
  assumes "finite I" "\<And>i. i \<in> I \<Longrightarrow> SingleMSHR_new sz lsz nrd nwr pol = Some (objs s i)" "1 \<le> nrd" "0 \<le> nwr"
    and "occStats s = stats_new"
  shows "mshr_inv I s"
proof -
  have "obj_ok (objs s i) \<and> ms (objs s i) = Map.empty" if "i \<in> I" for i
    using obj_new_ok [OF assms(2) [OF that] assms(3,4)] by simp
  then show ?thesis using assms(1,5) by (simp add: mshr_inv_def stats_new_def)
qed

end
