(* ===== verification/MSHR_Live.thy ===== *)
theory MSHR_Live
  imports MSHR_Safety
begin

text \<open>
  No request is lost: with callbacks that are only noted down, every request is served after
  as many calls of \<open>retire\<close> as there are requests, in whatever order the lines come back, and
  of its two callbacks exactly one is called and the other destroyed.
\<close>

subsection \<open>A client that keeps a log\<close>

definition log_act :: "'n cb_act \<Rightarrow> ('n, 'n cb_act list, 'z) mshrs_scheme \<Rightarrow> ('n, 'n cb_act list, 'z) mshrs_scheme option" where
  "log_act a s = Some (s\<lparr>world := world s @ [a]\<rparr>)"

lemma log_client: "client_ok I (\<lambda>_. 0) log_act"
  by (auto simp: client_ok_def log_act_def keeps_def load_def mshr_inv_def)

text \<open>
  What is conserved: a weight \<open>G\<close> of the callbacks that wait on an entry, a weight \<open>h\<close> of a
  request in the queue and a weight \<open>k\<close> of what has been done. \<open>retire\<close> takes \<open>d\<close> away,
  which may depend on its result. Requests in the queue satisfy \<open>F\<close>, and callbacks that wait
  on an entry \<open>X\<close>.
\<close>

definition conserving :: "('n overflow_field \<Rightarrow> bool) \<Rightarrow> ('n \<Rightarrow> bool) \<Rightarrow>
    ('n list \<Rightarrow> int) \<Rightarrow> ('n overflow_field \<Rightarrow> int) \<Rightarrow> ('n cb_act \<Rightarrow> int) \<Rightarrow> (bool \<Rightarrow> int) \<Rightarrow> bool" where
  "conserving F X G h k d = (
     (\<forall>f. F f \<longrightarrow> X (f_cb f)) \<and>
     (\<forall>f q. F f \<longrightarrow> f_ovflwcb f = Some q \<longrightarrow> G [] + k (CallCB q) + k (DestroyCB (f_cb f)) = h f) \<and>
     (\<forall>f q xs. F f \<longrightarrow> f_ovflwcb f = Some q \<longrightarrow> G (xs @ [f_cb f]) + k (DestroyCB q) = G xs + h f) \<and>
     (\<forall>x xs. X x \<longrightarrow> G xs + k (CallCB x) = G (x # xs) - d False) \<and> G [] = d True)"

lemma conservingD:
  assumes "conserving F X G h k d"
  shows "F f \<Longrightarrow> X (f_cb f)"
    and "F f \<Longrightarrow> f_ovflwcb f = Some q \<Longrightarrow> G [] + k (CallCB q) + k (DestroyCB (f_cb f)) = h f"
    and "F f \<Longrightarrow> f_ovflwcb f = Some q \<Longrightarrow> G (xs @ [f_cb f]) + k (DestroyCB q) = G xs + h f"
    and "X x \<Longrightarrow> G xs + k (CallCB x) = G (x # xs) - d False"
    and "G [] = d True"
  using assms unfolding conserving_def by blast+

definition fits :: "('n overflow_field \<Rightarrow> bool) \<Rightarrow> ('n \<Rightarrow> bool) \<Rightarrow> 'n smshr \<Rightarrow> bool" where
  "fits F X m = ((\<forall>f\<in>set (overflow m). F f) \<and> (\<forall>l e. ms m l = Some e \<longrightarrow> (\<forall>x\<in>set (cc e). X x)))"

definition tally :: "('n list \<Rightarrow> int) \<Rightarrow> ('n overflow_field \<Rightarrow> int) \<Rightarrow> ('n cb_act \<Rightarrow> int) \<Rightarrow> nat \<Rightarrow>
    ('n, 'n cb_act list, 'z) mshrs_scheme \<Rightarrow> int" where
  "tally G h k this s = msum (\<lambda>e. G (cc e)) (ms (objs s this)) + sum_list (map h (overflow (objs s this))) +
     sum_list (map k (world s))"

lemma tally_upd:
  "tally G h k this (upd this f s) = msum (\<lambda>e. G (cc e)) (ms (f (objs s this))) +
     sum_list (map h (overflow (f (objs s this)))) + sum_list (map k (world s))"
  by (simp add: tally_def)

lemma inst_obj_ms:
  "ms (inst_obj m paddr mo clk b) = (ms m)(calcLineAddr m paddr \<mapsto>
     first_entry paddr (calcLineAddr m paddr) (s_nReads m) (s_nWrites m) mo clk)"
  by (simp add: inst_obj_def Let_def)

lemma add_obj_ms: "ms (add_obj m paddr c mo e) = (ms m)(calcLineAddr m paddr \<mapsto> entry_add paddr c mo e)"
  by (simp add: add_obj_def Let_def)

text \<open>The body of the loop of \<open>checkOverflow\<close>.\<close>

lemma log_step:
  fixes s :: "('n, 'n cb_act list, 'z) mshrs_scheme"
  assumes inv: "mshr_inv I s" and i: "this \<in> I" and m: "m = objs s this" and ov: "overflow m = f # rest"
    and chk: "checkingOverflow m"
    and step: "single_overflow_step log_act this f s = Some (True, s')" and c: "conserving F X G h k d"
    and fit: "fits F X m"
  shows "tally G h k this s' = tally G h k this s" and "fits F X (objs s' this)"
    and "dom (ms (objs s' this)) \<subseteq> insert (calcLineAddr m (f_paddr f)) (dom (ms m))"
proof -
  have ok: "obj_ok m" using mshr_invD(1) [OF inv i] m by simp
  then have fin: "finite (dom (ms m))" by (simp add: obj_ok_def)
  have Ff: "F f" and rest: "\<forall>f\<in>set rest. F f"
    and ccX: "\<And>l e x. ms m l = Some e \<Longrightarrow> x \<in> set (cc e) \<Longrightarrow> X x"
    using fit ov by (auto simp: fits_def)
  have "tally G h k this s' = tally G h k this s \<and> fits F X (objs s' this) \<and>
      dom (ms (objs s' this)) \<subseteq> insert (calcLineAddr m (f_paddr f)) (dom (ms m))"
  proof (cases "ms m (calcLineAddr m (f_paddr f))")
    case None
    then have free: "0 < nFreeEntries m" using step m by (auto simp: single_overflow_step_def Let_def split: if_splits)
    obtain cb b s4 w where r: "s' = upd this (\<lambda>m. m\<lparr>overflow := tl (overflow m)\<rparr>) (s4\<lparr>world := w\<rparr>)"
        "f_ovflwcb f = Some cb"
        "log_act (CallCB cb) (s\<lparr>objs := (objs s)(this := inst_obj m (f_paddr f) (f_mo f) (globalClock s) b),
          occStats := inst_stats this (f_mo f) (occStats s)\<rparr>) = Some s4"
        "log_act (DestroyCB (f_cb f)) s4 = Some (s4\<lparr>world := w\<rparr>)"
      using step_new [OF log_client inv i m chk ov None free] step by auto
    have s4: "objs s4 = (objs s)(this := inst_obj m (f_paddr f) (f_mo f) (globalClock s) b)" "world s4 = world s @ [CallCB cb]"
      using r(3) by (auto simp: log_act_def)
    have w: "w = world s4 @ [DestroyCB (f_cb f)]"
      using arg_cong [OF r(4), of "\<lambda>x. world (the x)"] by (simp add: log_act_def)
    have "G [] + k (CallCB cb) + k (DestroyCB (f_cb f)) = h f" using conservingD(2) [OF c Ff r(2)] .
    moreover have "fits F X (objs s' this)"
      using rest ccX ov m by (auto simp: fits_def r(1) s4 inst_obj_ms inst_obj_def Let_def first_entry_def split: if_splits)
    ultimately show ?thesis
      using ov None fin m by (simp add: r(1) tally_def s4 w inst_obj_ms msum_new)
  next
    case (Some e)
    have "entry_canAcceptRequest (f_mo f) e"
    proof (rule ccontr)
      assume "\<not> entry_canAcceptRequest (f_mo f) e"
      then have "refused m f" using Some by (simp add: refused_def)
      then show False using step_refused [OF ok m, of f log_act] ov step by simp
    qed
    then obtain cb w where r: "f_ovflwcb f = Some cb"
        "log_act (DestroyCB cb) (upd this (\<lambda>k. k\<lparr>ms := (ms k)(calcLineAddr m (f_paddr f) \<mapsto>
          entry_add (f_paddr f) (f_cb f) (f_mo f) e)\<rparr>) s) =
        Some ((upd this (\<lambda>k. k\<lparr>ms := (ms k)(calcLineAddr m (f_paddr f) \<mapsto>
          entry_add (f_paddr f) (f_cb f) (f_mo f) e)\<rparr>) s)\<lparr>world := w\<rparr>)"
        "s' = s\<lparr>objs := (objs s)(this := (add_obj m (f_paddr f) (f_cb f) (f_mo f) e)\<lparr>overflow := rest\<rparr>),
          occStats := occStats (count_read (f_mo f) s), world := w\<rparr>"
      using step_add [OF log_client inv i m ov Some] step by auto
    have w: "w = world s @ [DestroyCB cb]"
      using arg_cong [OF r(2), of "\<lambda>x. world (the x)"] by (simp add: log_act_def)
    have "G (cc e @ [f_cb f]) + k (DestroyCB cb) = G (cc e) + h f" using conservingD(3) [OF c Ff r(1)] .
    moreover have "fits F X (objs s' this)"
      using rest ccX conservingD(1) [OF c Ff] Some by (auto simp: fits_def r(3) add_obj_ms split: if_splits)
    ultimately show ?thesis
      using ov Some fin m by (auto simp: r(3) tally_def w add_obj_ms msum_upd)
  qed
  then show "tally G h k this s' = tally G h k this s" and "fits F X (objs s' this)"
    and "dom (ms (objs s' this)) \<subseteq> insert (calcLineAddr m (f_paddr f)) (dom (ms m))" by blast+
qed

lemma log_loop:
  fixes s :: "('n, 'n cb_act list, 'z) mshrs_scheme"
  assumes i: "this \<in> I" and c: "conserving F X G h k d"
  shows "mshr_inv I s \<Longrightarrow> checkingOverflow (objs s this) \<Longrightarrow> fits F X (objs s this) \<Longrightarrow>
    single_overflow_loop log_act this s = Some s' \<Longrightarrow>
    tally G h k this s' = tally G h k this s \<and> fits F X (objs s' this)"
proof (induction "load I (\<lambda>_. 0) s" arbitrary: s rule: less_induct)
  case less
  let ?m = "objs s this"
  have ok: "obj_ok ?m" using mshr_invD(1) [OF less.prems(1) i] .
  show ?case
  proof (cases "overflow ?m")
    case Nil
    then show ?thesis using less.prems(3,4) by (simp add: single_overflow_loop.simps)
  next
    case (Cons f rest)
    obtain ok' s1 where st: "single_overflow_step log_act this f s = Some (ok', s1)"
      using less.prems(4) Cons by (subst (asm) single_overflow_loop.simps) (auto split: option.splits)
    show ?thesis
    proof (cases "refused ?m f")
      case True
      then show ?thesis using step_refused [OF ok refl _ True, of log_act] Cons less.prems(3,4)
        by (subst (asm) single_overflow_loop.simps) simp
    next
      case False
      have "\<exists>s1. single_overflow_step log_act this f s = Some (True, s1) \<and> stepped I (\<lambda>_. 0) this s s1"
      proof (cases "ms ?m (calcLineAddr ?m (f_paddr f))")
        case None
        then have "0 < nFreeEntries ?m" using False by (simp add: refused_def)
        then show ?thesis using step_new [OF log_client less.prems(1) i refl less.prems(2) Cons None] by blast
      next
        case (Some e)
        then have "entry_canAcceptRequest (f_mo f) e" using False by (simp add: refused_def)
        then show ?thesis using step_add [OF log_client less.prems(1) i refl Cons Some] by blast
      qed
      then have s1: "single_overflow_step log_act this f s = Some (True, s1)" "stepped I (\<lambda>_. 0) this s s1"
        using st by auto
      have "single_overflow_loop log_act this s1 = Some s'"
        using less.prems(4) Cons s1(1) by (subst (asm) single_overflow_loop.simps) simp
      moreover have "checkingOverflow (objs s1 this)" using less.prems(2) s1(2) by (simp add: stepped_def same_conf_def)
      moreover note L = log_step [OF less.prems(1) i refl Cons less.prems(2) s1(1) c less.prems(3)]
      ultimately have "tally G h k this s' = tally G h k this s1 \<and> fits F X (objs s' this)"
        using less.hyps [of s1] s1(2) by (simp add: stepped_def)
      then show ?thesis using L(1) by simp
    qed
  qed
qed

lemma log_checkOverflow:
  assumes i: "this \<in> I" and c: "conserving F X G h k d" and inv: "mshr_inv I s" and fit: "fits F X (objs s this)"
    and r: "single_checkOverflow log_act this s = Some s'"
  shows "tally G h k this s' = tally G h k this s \<and> fits F X (objs s' this)"
proof (cases "overflow (objs s this) = [] \<or> checkingOverflow (objs s this)")
  case True
  then have "s' = s" using r by (auto simp: single_checkOverflow_def split: if_splits)
  then show ?thesis using fit by simp
next
  case False
  let ?s1 = "upd this (\<lambda>m. m\<lparr>checkingOverflow := True\<rparr>) s"
  obtain s2 where s2: "single_overflow_loop log_act this ?s1 = Some s2" "s' = upd this (\<lambda>m. m\<lparr>checkingOverflow := False\<rparr>) s2"
    using False r by (auto simp: single_checkOverflow_def bind_eq_Some_conv)
  have "mshr_inv I ?s1" using mshr_invD(1) [OF inv i] by (intro upd_same_inv [OF inv i]) simp_all
  moreover have "fits F X (objs ?s1 this)" using fit by (simp add: fits_def)
  ultimately have "tally G h k this s2 = tally G h k this ?s1 \<and> fits F X (objs s2 this)"
    using log_loop [OF i c _ _ _ s2(1)] by simp
  then show ?thesis by (simp add: s2(2) tally_def fits_def)
qed

lemma log_retire:
  assumes i: "this \<in> I" and c: "conserving F X G h k d" and inv: "mshr_inv I s" and fit: "fits F X (objs s this)"
    and r: "single_retire log_act this paddr s = Some (rm, s')"
  shows "tally G h k this s' = tally G h k this s - d rm \<and> fits F X (objs s' this)"
proof -
  let ?m = "objs s this"
  let ?l = "calcLineAddr ?m paddr"
  let ?s1 = "upd this (\<lambda>m. m\<lparr>nOutsReqs := nOutsReqs m - 1\<rparr>) s"
  have fin: "finite (dom (ms ?m))" using mshr_invD(1) [OF inv i] by (simp add: obj_ok_def)
  obtain e where e: "ms ?m ?l = Some e" using r by (auto simp: single_retire_def Let_def bind_eq_Some_conv)
  show ?thesis
  proof (cases "cc e")
    case Nil
    obtain b s2 where s2: "single_release this ?l e ?s1 = Some s2"
        "s2 = s\<lparr>objs := (objs s)(this := release_obj ?l e b ?m), occStats := release_stats this e (occStats s)\<rparr>"
        "mshr_inv I s2"
      using release_ok [OF inv i refl e Nil] by blast
    have "single_checkOverflow log_act this s2 = Some s'"
      using r e Nil s2(1) by (auto simp: single_retire_def Let_def bind_eq_Some_conv)
    moreover have "fits F X (objs s2 this)" using fit by (auto simp: fits_def s2(2) release_obj_def split: if_splits)
    ultimately have "tally G h k this s' = tally G h k this s2 \<and> fits F X (objs s' this)"
      using log_checkOverflow [OF i c s2(3)] by blast
    moreover have "rm = True" using r e Nil by (auto simp: single_retire_def Let_def bind_eq_Some_conv)
    moreover note conservingD(5) [OF c]
    ultimately show ?thesis using Nil msum_del [OF fin e, of "\<lambda>e. G (cc e)"]
      by (simp add: s2(2) tally_def release_obj_def)
  next
    case (Cons x xs)
    let ?s2 = "upd this (\<lambda>m. m\<lparr>ms := (ms m)(?l \<mapsto> e\<lparr>cc := xs\<rparr>)\<rparr>) ?s1"
    let ?s3 = "?s2\<lparr>world := world s @ [CallCB x]\<rparr>"
    note N = next_obj_ok [OF mshr_invD(1) [OF inv i] e Cons]
    have O: "objs ?s2 = (objs s)(this := next_obj ?l e xs ?m)"
      by (auto simp: next_obj_def fun_eq_iff intro!: smshr.equality)
    have inv2: "mshr_inv I ?s2"
      using mshr_invD(2) [OF inv i] N by (intro mshr_inv_update [OF inv i N(1) O]) auto
    then have inv3: "mshr_inv I ?s3" using mshr_inv_cong [of ?s3 ?s2 I] by simp
    have "single_checkOverflow log_act this ?s3 = Some s'"
      using r e Cons by (auto simp: single_retire_def Let_def bind_eq_Some_conv log_act_def)
    moreover have "fits F X (objs ?s3 this)" using fit e Cons by (auto simp: fits_def split: if_splits)
    ultimately have "tally G h k this s' = tally G h k this ?s3 \<and> fits F X (objs s' this)"
      using log_checkOverflow [OF i c inv3] by blast
    moreover have "X x" using fit e Cons by (auto simp: fits_def)
    then have "G xs + k (CallCB x) = G (x # xs) - d False" by (rule conservingD(4) [OF c])
    moreover have "rm = False" using r e Cons by (auto simp: single_retire_def Let_def bind_eq_Some_conv)
    ultimately show ?thesis using Cons msum_upd [OF fin e, of "\<lambda>e. G (cc e)"]
      by (simp add: tally_def)
  qed
qed

subsection \<open>Requests and retirements\<close>

definition mshr_ready :: "nat \<Rightarrow> ('n, 'w, 'z) mshrs_scheme \<Rightarrow> bool" where
  "mshr_ready this s = (mshr_inv {this} s \<and> \<not> checkingOverflow (objs s this) \<and> stalled (objs s this))"

lemma keeps_checking: "keeps I \<mu> s s' \<Longrightarrow> i \<in> I \<Longrightarrow> checkingOverflow (objs s' i) = checkingOverflow (objs s i)"
  by (simp add: keeps_def same_params_def same_conf_def)

lemma request_ready:
  assumes act: "client_ok {this} \<mu> act" and r: "mshr_ready this s" and mo: "mo \<in> {MemRead, MemWrite}"
  shows "\<exists>b s'. SMPCache_request act this paddr mo c q s = Some (b, s') \<and> mshr_ready this s'"
proof -
  let ?m = "objs s this"
  have inv: "mshr_inv {this} s" and i: "this \<in> {this}" using r by (simp_all add: mshr_ready_def)
  let ?b = "overflow ?m = [] \<and> ms ?m (calcLineAddr ?m paddr) = None \<and> 0 < nFreeEntries ?m"
  obtain s1 where s1: "single_issue this paddr mo s = Some (?b, s1)" "keeps {this} \<mu> s s1" "\<not> ?b \<longrightarrow> s1 = s"
      "?b \<longrightarrow> (\<exists>b. s1 = s\<lparr>objs := (objs s)(this := inst_obj ?m paddr mo (globalClock s) b),
        occStats := inst_stats this mo (occStats s)\<rparr>)"
    using issue_ok [OF inv i refl mo, of paddr \<mu>] by blast
  show ?thesis
  proof (cases ?b)
    case True
    then have "overflow (objs s1 this) = []" using s1(4) by auto
    then have "mshr_ready this s1"
      using s1(2) keeps_checking [OF s1(2)] r by (simp add: mshr_ready_def keeps_def stalled_def)
    then show ?thesis using True s1(1) by (intro exI [of _ True] exI [of _ s1]) (simp add: SMPCache_request_def)
  next
    case False
    then have s: "s1 = s" "single_issue this paddr mo s = Some (False, s)" using s1(1,3) by auto
    obtain s' where s': "single_addEntry act this paddr c (Some q) mo s = Some s'" "mshr_inv {this} s'"
        "\<forall>j\<in>{this}. same_params (objs s j) (objs s' j)"
      using addEntry_ok [OF act inv i refl mo] by blast
    have "stalled (objs s' this)"
    proof (cases "joins paddr mo ?m")
      case True
      then obtain e where e: "overflow ?m = []" "ms ?m (calcLineAddr ?m paddr) = Some e" "entry_canAcceptRequest mo e"
        by (auto simp: joins_def split: option.splits)
      show ?thesis using addEntry_join [OF act inv i refl mo e, of c q] s'(1) e(1) by (auto simp: stalled_def)
    next
      case nj: False
      have "objs s' this = queue_obj paddr c q mo ?m" using addEntry_queue [OF inv i mo nj] s'(1) by auto
      moreover have "refused ?m \<lparr>f_paddr = paddr, f_cb = c, f_ovflwcb = Some q, f_mo = mo\<rparr>" if "overflow ?m = []"
        using that nj False by (auto simp: refused_def joins_def split: option.splits)
      moreover have "refused (queue_obj paddr c q mo ?m) f = refused ?m f" for f
        by (simp add: refused_def queue_obj_def calcLineAddr_def split: option.splits)
      ultimately show ?thesis using r
        by (cases "overflow ?m") (auto simp: stalled_def mshr_ready_def queue_obj_def)
    qed
    then have "mshr_ready this s'" using s'(2,3) r by (simp add: mshr_ready_def same_params_def same_conf_def)
    then show ?thesis using s(2) s'(1) by (intro exI [of _ False] exI [of _ s']) (simp add: SMPCache_request_def)
  qed
qed

lemma retire_ready:
  assumes act: "client_ok {this} \<mu> act" and r: "mshr_ready this s"
    and e: "ms (objs s this) (calcLineAddr (objs s this) paddr) = Some e"
  shows "\<exists>s'. single_retire act this paddr s = Some (cc e = [], s') \<and> mshr_ready this s'"
proof -
  have inv: "mshr_inv {this} s" and i: "this \<in> {this}" using r by (simp_all add: mshr_ready_def)
  obtain s' where s': "single_retire act this paddr s = Some (cc e = [], s')" "keeps {this} \<mu> s s'"
      "stalled (objs s' this)"
    using retire_ok [OF act inv i e] r by (auto simp: mshr_ready_def)
  then have "mshr_ready this s'" using keeps_checking [OF s'(2)] r by (simp add: mshr_ready_def keeps_def)
  then show ?thesis using s'(1) by blast
qed

text \<open>Requests that are not finished, and the callbacks that wait.\<close>

definition requests :: "'n smshr \<Rightarrow> int" where
  "requests m = nOutsReqs m + int (length (overflow m))"

definition waits :: "'n \<Rightarrow> 'n smshr \<Rightarrow> int" where
  "waits n m = msum (\<lambda>e. int (count_list (cc e) n)) (ms m) +
     sum_list (map (\<lambda>f. of_bool (f_cb f = n) + of_bool (f_ovflwcb f = Some n)) (overflow m))"

text \<open>The requests that wait in the queue, and those that wait at all, whose callback is in \<open>P\<close>.\<close>

definition queued_of :: "('n \<Rightarrow> bool) \<Rightarrow> 'n smshr \<Rightarrow> int" where
  "queued_of P m = int (length (filter (\<lambda>f. P (f_cb f)) (overflow m)))"

definition waiting_of :: "('n \<Rightarrow> bool) \<Rightarrow> 'n smshr \<Rightarrow> int" where
  "waiting_of P m = msum (\<lambda>e. int (length (filter P (cc e)))) (ms m) + queued_of P m"

fun is_call :: "('n \<Rightarrow> bool) \<Rightarrow> 'n cb_act \<Rightarrow> bool" where
  "is_call P (CallCB n) = P n"
| "is_call P (DestroyCB n) = False"

fun is_destroy :: "('n \<Rightarrow> bool) \<Rightarrow> 'n cb_act \<Rightarrow> bool" where
  "is_destroy P (CallCB n) = False"
| "is_destroy P (DestroyCB n) = P n"

definition calls_of :: "('n \<Rightarrow> bool) \<Rightarrow> 'n cb_act list \<Rightarrow> int" where
  "calls_of P log = int (length (filter (is_call P) log))"

definition destroys_of :: "('n \<Rightarrow> bool) \<Rightarrow> 'n cb_act list \<Rightarrow> int" where
  "destroys_of P log = int (length (filter (is_destroy P) log))"

text \<open>Retirements one after the other, with their results.\<close>

fun retires :: "nat \<Rightarrow> 64 word list \<Rightarrow> ('n, 'n cb_act list, 'z) mshrs_scheme \<Rightarrow>
    (bool list \<times> ('n, 'n cb_act list, 'z) mshrs_scheme) option" where
  "retires this [] s = Some ([], s)"
| "retires this (p # ps) s = do {
     (b, s1) \<leftarrow> single_retire log_act this p s;
     (bs, s2) \<leftarrow> retires this ps s1;
     Some (b # bs, s2) }"

lemma sum_count: "sum_list (map (\<lambda>a. of_bool (a = x) :: int) xs) = int (count_list xs x)"
  by (induction xs) auto

lemma sum_filter: "sum_list (map (\<lambda>a. of_bool (P a) :: int) xs) = int (length (filter P xs))"
  by (induction xs) auto

lemma conserving_requests:
  "conserving (\<lambda>_. True) (\<lambda>_. True) (\<lambda>cs. 1 + int (length cs)) (\<lambda>_. 1) (\<lambda>_. 0) (\<lambda>_. 1)"
  by (simp add: conserving_def)

lemma conserving_waits: "conserving (\<lambda>_. True) (\<lambda>_. True) (\<lambda>cs. int (count_list cs n))
    (\<lambda>f. of_bool (f_cb f = n) + of_bool (f_ovflwcb f = Some n))
    (\<lambda>a. of_bool (a = CallCB n) + of_bool (a = DestroyCB n)) (\<lambda>_. 0)"
  by (auto simp: conserving_def)

text \<open>A set \<open>P\<close> of callbacks that has both callbacks of a request or none.\<close>

definition both_in :: "('n \<Rightarrow> bool) \<Rightarrow> 'n overflow_field \<Rightarrow> bool" where
  "both_in P f = (P (f_cb f) = P (the (f_ovflwcb f)))"

lemma conserving_calls: "conserving (both_in P) (\<lambda>_. True) (\<lambda>cs. int (length (filter P cs)))
    (\<lambda>f. of_bool (P (f_cb f))) (\<lambda>a. of_bool (is_call P a)) (\<lambda>_. 0)"
  by (auto simp: conserving_def both_in_def)

lemma conserving_destroys: "conserving (both_in P) (\<lambda>_. True) (\<lambda>_. 0)
    (\<lambda>f. of_bool (P (f_cb f))) (\<lambda>a. of_bool (is_destroy P a)) (\<lambda>_. 0)"
  by (auto simp: conserving_def both_in_def)

text \<open>
  A set \<open>J\<close> that has the callbacks which join an entry, and none of those which are called
  when a request takes an entry for itself.
\<close>

definition joins_only :: "('n \<Rightarrow> bool) \<Rightarrow> 'n overflow_field \<Rightarrow> bool" where
  "joins_only J f = (J (f_cb f) \<and> \<not> J (the (f_ovflwcb f)))"

lemma conserving_joined: "conserving (joins_only J) J (\<lambda>_. 0) (\<lambda>_. 0) (\<lambda>a. of_bool (is_call J a)) (\<lambda>b. - of_bool (\<not> b))"
  by (auto simp: conserving_def joins_only_def)

lemma conserving_first: "conserving (joins_only J) J (\<lambda>_. 1) (\<lambda>_. 0)
    (\<lambda>a. - of_bool (is_call (\<lambda>n. \<not> J n) a)) of_bool"
  by (auto simp: conserving_def joins_only_def)

lemma tally_requests:
  "mshr_inv {this} s \<Longrightarrow> tally (\<lambda>cs. 1 + int (length cs)) (\<lambda>_. 1) (\<lambda>_. 0) this s = requests (objs s this)"
  using mshr_invD(1) [of "{this}" s this]
  by (simp add: tally_def requests_def obj_ok_def map_replicate_const sum_list_replicate)

lemma tally_waits:
  "tally (\<lambda>cs. int (count_list cs n)) (\<lambda>f. of_bool (f_cb f = n) + of_bool (f_ovflwcb f = Some n))
    (\<lambda>a. of_bool (a = CallCB n) + of_bool (a = DestroyCB n)) this s =
   waits n (objs s this) + int (count_list (world s) (CallCB n)) + int (count_list (world s) (DestroyCB n))"
  by (simp add: tally_def waits_def sum_list_addf sum_count)

lemma tally_calls:
  "tally (\<lambda>cs. int (length (filter P cs))) (\<lambda>f. of_bool (P (f_cb f))) (\<lambda>a. of_bool (is_call P a)) this s =
   waiting_of P (objs s this) + calls_of P (world s)"
  by (simp add: tally_def waiting_of_def queued_of_def calls_of_def sum_filter)

lemma msum_zero [simp]: "msum (\<lambda>_. 0) m = 0"
  by (simp add: msum_def)

lemma tally_destroys:
  "tally (\<lambda>_. 0) (\<lambda>f. of_bool (P (f_cb f))) (\<lambda>a. of_bool (is_destroy P a)) this s =
   queued_of P (objs s this) + destroys_of P (world s)"
  by (simp add: tally_def queued_of_def destroys_of_def sum_filter)

lemma tally_joined:
  "tally (\<lambda>_. 0) (\<lambda>_. 0) (\<lambda>a. of_bool (is_call J a)) this s = calls_of J (world s)"
  by (simp add: tally_def calls_of_def sum_filter map_replicate_const sum_list_replicate)

lemma sum_filter_neg: "sum_list (map (\<lambda>a. - of_bool (P a) :: int) xs) = - int (length (filter P xs))"
  by (induction xs) auto

lemma tally_first:
  "mshr_inv {this} s \<Longrightarrow> tally (\<lambda>_. 1) (\<lambda>_. 0) (\<lambda>a. - of_bool (is_call P a)) this s =
   int (card (dom (ms (objs s this)))) - calls_of P (world s)"
  using mshr_invD(1) [of "{this}" s this]
  by (simp add: tally_def calls_of_def sum_filter_neg obj_ok_def msum_card map_replicate_const sum_list_replicate)

lemma retires_conserve:
  assumes c: "conserving F X G h k d"
  shows "mshr_ready this s \<Longrightarrow> fits F X (objs s this) \<Longrightarrow> retires this ps s = Some (bs, s') \<Longrightarrow>
    mshr_ready this s' \<and> length bs = length ps \<and> tally G h k this s' = tally G h k this s - sum_list (map d bs)"
proof (induction ps arbitrary: s bs)
  case (Cons p ps)
  obtain b bs' s1 where s1: "single_retire log_act this p s = Some (b, s1)" "retires this ps s1 = Some (bs', s')"
      "bs = b # bs'"
    using Cons.prems(3) by (auto simp: bind_eq_Some_conv)
  obtain e where e: "ms (objs s this) (calcLineAddr (objs s this) p) = Some e"
    using s1(1) by (auto simp: single_retire_def Let_def bind_eq_Some_conv)
  have "mshr_ready this s1" using retire_ready [OF log_client Cons.prems(1) e] s1(1) by auto
  moreover have "tally G h k this s1 = tally G h k this s - d b \<and> fits F X (objs s1 this)"
    using log_retire [OF _ c _ Cons.prems(2) s1(1), of "{this}"] Cons.prems(1) by (simp add: mshr_ready_def)
  ultimately show ?case using Cons.IH [OF _ _ s1(2)] s1(3) by simp
qed simp

lemma fits_all: "fits (\<lambda>_. True) (\<lambda>_. True) m"
  by (simp add: fits_def)

text \<open>Every retirement finishes one request.\<close>

lemma sum_one: "sum_list (map (\<lambda>_. 1 :: int) xs) = int (length xs)"
  by (induction xs) auto

lemma retires_requests:
  assumes "mshr_ready this s" "retires this ps s = Some (bs, s')"
  shows "mshr_ready this s'" "length bs = length ps"
    and "requests (objs s' this) = requests (objs s this) - int (length ps)"
proof -
  note R = retires_conserve [OF conserving_requests assms(1) fits_all assms(2)]
  then show r: "mshr_ready this s'" "length bs = length ps" by simp_all
  have "mshr_inv {this} s" "mshr_inv {this} s'" using assms(1) r(1) by (simp_all add: mshr_ready_def)
  then show "requests (objs s' this) = requests (objs s this) - int (length ps)"
    using R tally_requests [of this s] tally_requests [of this s'] sum_one [of bs] by simp
qed

lemma requests_zero:
  assumes "mshr_ready this s"
  shows "0 \<le> requests (objs s this)" and "requests (objs s this) = 0 \<longleftrightarrow> ms (objs s this) = Map.empty"
    and "ms (objs s this) = Map.empty \<Longrightarrow> overflow (objs s this) = []"
proof -
  let ?m = "objs s this"
  have ok: "obj_ok ?m" using assms mshr_invD(1) by (fastforce simp: mshr_ready_def)
  then have fin: "finite (dom (ms ?m))" and n: "nOutsReqs ?m = msum (\<lambda>e. 1 + int (length (cc e))) (ms ?m)"
    and free: "msum (\<lambda>_. 1) (ms ?m) = nEntries ?m - nFreeEntries ?m" "0 < nEntries ?m" by (simp_all add: obj_ok_def)
  have nn: "0 \<le> nOutsReqs ?m" unfolding n by (rule msum_nonneg) simp
  then show "0 \<le> requests ?m" by (simp add: requests_def)
  show E: "overflow ?m = []" if "ms ?m = Map.empty"
    using assms free that by (auto simp: mshr_ready_def stalled_def refused_def)
  show "requests ?m = 0 \<longleftrightarrow> ms ?m = Map.empty"
  proof
    assume "requests ?m = 0"
    then have z: "nOutsReqs ?m = 0" using nn by (simp add: requests_def)
    show "ms ?m = Map.empty"
    proof (rule ccontr)
      assume "ms ?m \<noteq> Map.empty"
      then obtain k e where "ms ?m k = Some e" by (metis not_None_eq ext)
      then have "1 + int (length (cc e)) \<le> nOutsReqs ?m" unfolding n by (intro msum_ge [OF fin]) simp_all
      then show False using z by simp
    qed
  next
    assume a: "ms ?m = Map.empty"
    then show "requests ?m = 0" using n E by (simp add: requests_def)
  qed
qed

lemma retire_progress:
  assumes act: "client_ok {this} \<mu> act" and r: "mshr_ready this s" and "0 < requests (objs s this)"
  shows "\<exists>p b s'. single_retire act this p s = Some (b, s')"
proof -
  let ?m = "objs s this"
  have "ms ?m \<noteq> Map.empty" using requests_zero(2) [OF r] assms(3) by auto
  then obtain l e where l: "ms ?m l = Some e" by (metis not_None_eq ext)
  have "obj_ok ?m" using r mshr_invD(1) by (fastforce simp: mshr_ready_def)
  then have "calcLineAddr ?m (push_bit (Log2LineSize ?m) l) = l"
    using l by (auto simp: obj_ok_def calcLineAddr_def)
  then show ?thesis using retire_ready [OF act r, of "push_bit (Log2LineSize ?m) l"] l by auto
qed

lemma request_counts:
  assumes r: "mshr_ready this s" and mo: "mo \<in> {MemRead, MemWrite}"
    and q: "SMPCache_request log_act this paddr mo c q s = Some (b, s')"
  shows "requests (objs s' this) = requests (objs s this) + 1"
proof -
  let ?m = "objs s this"
  have inv: "mshr_inv {this} s" and i: "this \<in> {this}" using r by (simp_all add: mshr_ready_def)
  let ?b = "overflow ?m = [] \<and> ms ?m (calcLineAddr ?m paddr) = None \<and> 0 < nFreeEntries ?m"
  obtain s1 where s1: "single_issue this paddr mo s = Some (?b, s1)" "\<not> ?b \<longrightarrow> s1 = s"
      "?b \<longrightarrow> (\<exists>b. s1 = s\<lparr>objs := (objs s)(this := inst_obj ?m paddr mo (globalClock s) b),
        occStats := inst_stats this mo (occStats s)\<rparr>)"
    using issue_ok [OF inv i refl mo, of paddr "\<lambda>_. 0"] by blast
  show ?thesis
  proof (cases ?b)
    case True
    then have "s' = s1" using q s1(1) by (simp add: SMPCache_request_def)
    then show ?thesis using True s1(3) by (auto simp: requests_def inst_obj_def Let_def)
  next
    case False
    then have a: "single_addEntry log_act this paddr c (Some q) mo s = Some s'"
      using q s1(1,2) by (auto simp: SMPCache_request_def bind_eq_Some_conv)
    show ?thesis
    proof (cases "joins paddr mo ?m")
      case True
      then obtain e where e: "overflow ?m = []" "ms ?m (calcLineAddr ?m paddr) = Some e" "entry_canAcceptRequest mo e"
        by (auto simp: joins_def split: option.splits)
      show ?thesis using addEntry_join [OF log_client inv i refl mo e, of c q] a e(1)
        by (auto simp: requests_def add_obj_def Let_def)
    next
      case nj: False
      then show ?thesis using addEntry_queue [OF inv i mo nj, of log_act c q] a
        by (auto simp: requests_def queue_obj_def)
    qed
  qed
qed

lemma retires_exist:
  "mshr_ready this s \<Longrightarrow> int n \<le> requests (objs s this) \<Longrightarrow>
   \<exists>ps bs s'. retires this ps s = Some (bs, s') \<and> length ps = n"
proof (induction n arbitrary: s)
  case 0
  then show ?case by (intro exI [of _ "[]"]) simp
next
  case (Suc n)
  obtain p b s1 where s1: "single_retire log_act this p s = Some (b, s1)"
    using retire_progress [OF log_client Suc.prems(1)] Suc.prems(2) by auto
  then have 1: "retires this [p] s = Some ([b], s1)" by simp
  note R = retires_requests [OF Suc.prems(1) 1]
  obtain ps bs s' where "retires this ps s1 = Some (bs, s')" "length ps = n"
    using Suc.IH [OF R(1)] R(3) Suc.prems(2) by auto
  then show ?case using s1 by (intro exI [of _ "p # ps"] exI [of _ "b # bs"] exI [of _ s']) simp
qed

end
