(* ===== verification/MSHR_Classes.thy ===== *)
theory MSHR_Classes
  imports MSHR_Live
begin

text \<open>
  The other classes of libsuc/MSHR.h: \<open>NoMSHR\<close>, which lets everything go, \<open>NoDepsMSHR\<close>,
  which only bounds the number of requests, \<open>FullMSHR\<close>, which serialises the requests that
  hash to the same of its entries, and \<open>BankedMSHR\<close>, an array of \<open>SingleMSHR\<close>.
\<close>

subsection \<open>Choice of the class\<close>

datatype mshr_kind = K_NoMSHR | K_NoDepsMSHR | K_FullMSHR | K_SingleMSHR | K_BankedMSHR

definition mshr_kind_of :: "string \<Rightarrow> mshr_kind" where
  "mshr_kind_of type =
     (if type = ''none'' then K_NoMSHR
      else if type = ''nodeps'' then K_NoDepsMSHR
      else if type = ''full'' then K_FullMSHR
      else if type = ''single'' then K_SingleMSHR
      else K_NoMSHR)"

text \<open>From a section of the configuration: class, bounds of an entry and allocation policy.\<close>

definition mshr_create_section ::
  "string \<Rightarrow> string option \<Rightarrow> int option \<Rightarrow> int option \<Rightarrow> mshr_kind \<times> int \<times> int \<times> MSHRAllocPolicy" where
  "mshr_create_section type alloc rpl maxWrites =
     (if type = ''banked'' then K_BankedMSHR else mshr_kind_of type,
      case rpl of None \<Rightarrow> 16 | Some n \<Rightarrow> n,
      case maxWrites of None \<Rightarrow> 0 | Some n \<Rightarrow> n,
      if alloc = Some ''conventional'' then CONVENTIONAL else SPECIAL)"

subsection \<open>NoMSHR\<close>

definition NoMSHR_issue :: bool where "NoMSHR_issue = True"
definition NoMSHR_retire :: bool where "NoMSHR_retire = True"
definition NoMSHR_canAcceptRequestSpecial :: bool where "NoMSHR_canAcceptRequestSpecial = True"

text \<open>\<open>addEntry\<close> is \<open>I(0)\<close>.\<close>

definition NoMSHR_addEntry :: "'s \<Rightarrow> 's option" where
  "NoMSHR_addEntry s = do { I_check False; Some s }"

subsection \<open>NoDepsMSHR\<close>

record ('n, 'w) nodeps =
  nd_nEntries :: int
  nd_nFreeEntries :: int
  nd_overflow :: "'n overflow_field list"
  nd_world :: 'w

definition NoDepsMSHR_issue :: "('n, 'w) nodeps \<Rightarrow> bool \<times> ('n, 'w) nodeps" where
  "NoDepsMSHR_issue s =
     (let s1 = s\<lparr>nd_nFreeEntries := nd_nFreeEntries s - 1\<rparr>
      in (\<not> (nd_overflow s1 \<noteq> [] \<or> nd_nFreeEntries s1 < 0), s1))"

definition NoDepsMSHR_addEntry :: "64 word \<Rightarrow> 'n \<Rightarrow> 'n option \<Rightarrow> mem_op \<Rightarrow> ('n, 'w) nodeps \<Rightarrow> ('n, 'w) nodeps" where
  "NoDepsMSHR_addEntry paddr c ovflwc mo s =
     s\<lparr>nd_overflow := nd_overflow s @ [\<lparr>f_paddr = paddr, f_cb = c, f_ovflwcb = ovflwc, f_mo = mo\<rparr>]\<rparr>"

definition NoDepsMSHR_retire ::
  "('n cb_act \<Rightarrow> ('n, 'w) nodeps \<Rightarrow> ('n, 'w) nodeps option) \<Rightarrow> ('n, 'w) nodeps \<Rightarrow> (bool \<times> ('n, 'w) nodeps) option" where
  "NoDepsMSHR_retire act s =
     (let s1 = s\<lparr>nd_nFreeEntries := nd_nFreeEntries s + 1\<rparr> in
      case nd_overflow s1 of
        [] \<Rightarrow> Some (True, s1)
      | f # rest \<Rightarrow>
          let s2 = s1\<lparr>nd_overflow := rest\<rparr> in
          (case f_ovflwcb f of
             Some q \<Rightarrow> do {
               s3 \<leftarrow> act (CallCB q) s2;
               s4 \<leftarrow> act (DestroyCB (f_cb f)) s3;
               Some (True, s4) }
           | None \<Rightarrow> do { s3 \<leftarrow> act (CallCB (f_cb f)) s2; Some (True, s3) }))"

definition NoDepsMSHR_canAcceptRequestSpecial :: "('n, 'w) nodeps \<Rightarrow> bool" where
  "NoDepsMSHR_canAcceptRequestSpecial s = (nd_nFreeEntries s > 0)"

text \<open>A request, as the caches make it.\<close>

definition NoDepsMSHR_request :: "64 word \<Rightarrow> mem_op \<Rightarrow> 'n \<Rightarrow> 'n \<Rightarrow> ('n, 'w) nodeps \<Rightarrow> bool \<times> ('n, 'w) nodeps" where
  "NoDepsMSHR_request paddr mo c q s =
     (let (issued, s1) = NoDepsMSHR_issue s
      in if issued then (True, s1) else (False, NoDepsMSHR_addEntry paddr c (Some q) mo s1))"

subsection \<open>FullMSHR\<close>

record 'n full_entry =
  fe_cc :: "'n list"
  inUse :: bool

record ('n, 'w) fmshr =
  fm_nEntries :: int
  fm_nFreeEntries :: int
  fm_Log2LineSize :: nat
  MSHRMask :: int
  overflowing :: bool
  fm_entry :: "'n full_entry list"
  fm_overflow :: "'n overflow_field list"
  fm_world :: 'w

definition FullMSHR_new :: "32 word \<Rightarrow> 64 word \<Rightarrow> 'w \<Rightarrow> ('n, 'w) fmshr option" where
  "FullMSHR_new sz lsz w = do {
     l \<leftarrow> log2i lsz;
     I_check (sint sz > 0 \<and> sint sz < 1024 * 32);
     let MSHRSize = sint (roundUpPower2 sz * 4);
     I_check (unat l < 8 * 8 - 1);
     Some \<lparr>fm_nEntries = sint sz, fm_nFreeEntries = sint sz, fm_Log2LineSize = unat l,
           MSHRMask = MSHRSize - 1, overflowing = False,
           fm_entry = replicate (nat MSHRSize) \<lparr>fe_cc = [], inUse = False\<rparr>, fm_overflow = [], fm_world = w\<rparr> }"

definition calcEntry :: "('n, 'w) fmshr \<Rightarrow> 64 word \<Rightarrow> nat" where
  "calcEntry s paddr =
     (let p = drop_bit (fm_Log2LineSize s) paddr in unat ((p XOR drop_bit 11 p) AND word_of_int (MSHRMask s)))"

definition set_entry :: "nat \<Rightarrow> 'n full_entry \<Rightarrow> ('n, 'w) fmshr \<Rightarrow> ('n, 'w) fmshr" where
  "set_entry pos e s = s\<lparr>fm_entry := (fm_entry s)[pos := e]\<rparr>"

definition FullMSHR_issue :: "64 word \<Rightarrow> ('n, 'w) fmshr \<Rightarrow> (bool \<times> ('n, 'w) fmshr) option" where
  "FullMSHR_issue paddr s =
     (if overflowing s \<or> fm_nFreeEntries s = 0 then Some (False, s\<lparr>overflowing := True\<rparr>)
      else do {
        let s1 = s\<lparr>fm_nFreeEntries := fm_nFreeEntries s - 1\<rparr>;
        I_check (fm_nFreeEntries s1 \<ge> 0);
        let pos = calcEntry s1 paddr;
        e \<leftarrow> arr_get (fm_entry s1) (int pos);
        if inUse e then Some (False, s1)
        else do {
          I_check (fe_cc e = []);
          Some (True, set_entry pos (e\<lparr>inUse := True\<rparr>) s1) } })"

definition FullMSHR_addEntry ::
  "('n cb_act \<Rightarrow> ('n, 'w) fmshr \<Rightarrow> ('n, 'w) fmshr option) \<Rightarrow> 64 word \<Rightarrow> 'n \<Rightarrow> 'n option \<Rightarrow> mem_op \<Rightarrow>
   ('n, 'w) fmshr \<Rightarrow> ('n, 'w) fmshr option" where
  "FullMSHR_addEntry act paddr c ovflwc mo s = do {
     I_check (fm_nFreeEntries s \<ge> 0 \<and> fm_nFreeEntries s \<le> fm_nEntries s);
     if overflowing s then
       Some (s\<lparr>fm_overflow := fm_overflow s @ [\<lparr>f_paddr = paddr, f_cb = c, f_ovflwcb = ovflwc, f_mo = mo\<rparr>]\<rparr>)
     else do {
       s1 \<leftarrow> (case ovflwc of None \<Rightarrow> Some s | Some q \<Rightarrow> act (DestroyCB q) s);
       let pos = calcEntry s1 paddr;
       e \<leftarrow> arr_get (fm_entry s1) (int pos);
       I_check (inUse e);
       Some (set_entry pos (e\<lparr>fe_cc := fe_cc e @ [c]\<rparr>) s1) } }"

text \<open>A retirement while requests wait hands its slot to the first of them.\<close>

definition FullMSHR_next ::
  "('n cb_act \<Rightarrow> ('n, 'w) fmshr \<Rightarrow> ('n, 'w) fmshr option) \<Rightarrow> ('n, 'w) fmshr \<Rightarrow> ('n, 'w) fmshr option" where
  "FullMSHR_next act s =
     (case fm_overflow s of
        [] \<Rightarrow> None
      | f # rest \<Rightarrow> do {
          let s1 = s\<lparr>fm_overflow := rest, overflowing := rest \<noteq> []\<rparr>;
          let opos = calcEntry s1 (f_paddr f);
          e \<leftarrow> arr_get (fm_entry s1) (int opos);
          if inUse e then do {
            let s2 = set_entry opos (e\<lparr>fe_cc := fe_cc e @ [f_cb f]\<rparr>) s1;
            (case f_ovflwcb f of None \<Rightarrow> Some s2 | Some q \<Rightarrow> act (DestroyCB q) s2) }
          else do {
            let s2 = set_entry opos (e\<lparr>inUse := True\<rparr>) s1;
            (case f_ovflwcb f of
               Some q \<Rightarrow> do { s3 \<leftarrow> act (CallCB q) s2; act (DestroyCB (f_cb f)) s3 }
             | None \<Rightarrow> act (CallCB (f_cb f)) s2) } })"

definition FullMSHR_retire ::
  "('n cb_act \<Rightarrow> ('n, 'w) fmshr \<Rightarrow> ('n, 'w) fmshr option) \<Rightarrow> 64 word \<Rightarrow> ('n, 'w) fmshr \<Rightarrow>
   (bool \<times> ('n, 'w) fmshr) option" where
  "FullMSHR_retire act paddr s = do {
     s1 \<leftarrow> (if overflowing s then FullMSHR_next act s
           else Some (s\<lparr>fm_nFreeEntries := fm_nFreeEntries s + 1\<rparr>));
     I_check (fm_nFreeEntries s1 \<ge> 0);
     I_check (fm_nFreeEntries s1 \<le> fm_nEntries s1);
     let pos = calcEntry s1 paddr;
     e \<leftarrow> arr_get (fm_entry s1) (int pos);
     I_check (inUse e);
     (case fe_cc e of
        cb # rest \<Rightarrow> do {
          s2 \<leftarrow> act (CallCB cb) (set_entry pos (e\<lparr>fe_cc := rest\<rparr>) s1);
          Some (False, s2) }
      | [] \<Rightarrow> Some (True, set_entry pos (e\<lparr>inUse := False\<rparr>) s1)) }"

definition FullMSHR_request ::
  "('n cb_act \<Rightarrow> ('n, 'w) fmshr \<Rightarrow> ('n, 'w) fmshr option) \<Rightarrow> 64 word \<Rightarrow> mem_op \<Rightarrow> 'n \<Rightarrow> 'n \<Rightarrow>
   ('n, 'w) fmshr \<Rightarrow> (bool \<times> ('n, 'w) fmshr) option" where
  "FullMSHR_request act paddr mo c q s = do {
     (issued, s1) \<leftarrow> FullMSHR_issue paddr s;
     if issued then Some (True, s1)
     else do { s2 \<leftarrow> FullMSHR_addEntry act paddr c (Some q) mo s1; Some (False, s2) } }"

subsection \<open>BankedMSHR\<close>

record ('n, 'w) bmshr = "('n, 'w) mshrs" +
  nBanks :: nat
  bk_Log2LineSize :: nat
  bk_allocPolicy :: MSHRAllocPolicy
  bk_nOutsReqs :: int
  bk_checkingOverflow :: bool
  bk_overflow :: "'n overflow_field list"

text \<open>The constructor: all banks have the size of the whole, and the default policy.\<close>

definition BankedMSHR_new ::
  "int \<Rightarrow> 64 word \<Rightarrow> nat \<Rightarrow> int \<Rightarrow> int \<Rightarrow> MSHRAllocPolicy \<Rightarrow> nat \<Rightarrow> 'w \<Rightarrow> ('n, 'w) bmshr option" where
  "BankedMSHR_new sz lsz nb nrd nwr aPolicy clk w = do {
     l \<leftarrow> log2i lsz;
     I_check (sz > 0 \<and> sz < 1024 * 32);
     b \<leftarrow> SingleMSHR_new sz lsz nrd nwr SPECIAL;
     Some \<lparr>globalClock = clk, objs = \<lambda>_. b,
           occStats = \<lparr>entries = \<lambda>_. 0, totalEntries = 0, outsRdReqs = 0\<rparr>, world = w,
           nBanks = nb, bk_Log2LineSize = unat l, bk_allocPolicy = aPolicy, bk_nOutsReqs = 0,
           bk_checkingOverflow = False, bk_overflow = []\<rparr> }"

text \<open>For \<open>0 < nBanks\<close> and lines of at most \<open>2 ^ 32\<close> bytes.\<close>

definition calcBankIndex :: "('n, 'w) bmshr \<Rightarrow> 64 word \<Rightarrow> nat" where
  "calcBankIndex s paddr0 =
     (let paddr = drop_bit (bk_Log2LineSize s) paddr0;
          idx = drop_bit (16 - bk_Log2LineSize s div 2) paddr XOR (paddr AND 0x0000ffff)
      in unat idx mod nBanks s)"

definition banked_canAllocateEntry :: "('n, 'w) bmshr \<Rightarrow> bool" where
  "banked_canAllocateEntry s = list_all (\<lambda>i. single_canAllocateEntry (objs s i)) [0..<nBanks s]"

definition banked_readSEntryFull :: "('n, 'w) bmshr \<Rightarrow> bool" where
  "banked_readSEntryFull s = list_ex (\<lambda>i. single_readSEntryFull (objs s i)) [0..<nBanks s]"

definition banked_writeSEntryFull :: "('n, 'w) bmshr \<Rightarrow> bool" where
  "banked_writeSEntryFull s = list_ex (\<lambda>i. single_writeSEntryFull (objs s i)) [0..<nBanks s]"

definition banked_canAcceptRequestSpecial :: "64 word \<Rightarrow> mem_op \<Rightarrow> ('n, 'w) bmshr \<Rightarrow> bool option" where
  "banked_canAcceptRequestSpecial paddr mo s =
     (if bk_overflow s \<noteq> [] then Some False
      else single_canAcceptRequest paddr mo (objs s (calcBankIndex s paddr)))"

definition banked_canAcceptRequest :: "64 word \<Rightarrow> mem_op \<Rightarrow> ('n, 'w) bmshr \<Rightarrow> bool option" where
  "banked_canAcceptRequest paddr mo s =
     (if bk_allocPolicy s = CONVENTIONAL \<and> \<not> banked_canAllocateEntry s then Some False
      else banked_canAcceptRequestSpecial paddr mo s)"

definition banked_issue :: "64 word \<Rightarrow> mem_op \<Rightarrow> ('n, 'w) bmshr \<Rightarrow> (bool \<times> ('n, 'w) bmshr) option" where
  "banked_issue paddr mo s =
     (if bk_overflow s \<noteq> [] then Some (False, s)
      else do {
        (issued, s1) \<leftarrow> single_issue (calcBankIndex s paddr) paddr mo s;
        Some (issued, if issued then s1\<lparr>bk_nOutsReqs := bk_nOutsReqs s1 + 1\<rparr> else s1) })"

definition banked_toOverflow :: "64 word \<Rightarrow> 'n \<Rightarrow> 'n option \<Rightarrow> mem_op \<Rightarrow> ('n, 'w) bmshr \<Rightarrow> ('n, 'w) bmshr" where
  "banked_toOverflow paddr c ovflwc mo s =
     s\<lparr>bk_overflow := bk_overflow s @ [\<lparr>f_paddr = paddr, f_cb = c, f_ovflwcb = ovflwc, f_mo = mo\<rparr>]\<rparr>"

definition banked_addEntry ::
  "('n cb_act \<Rightarrow> ('n, 'w) bmshr \<Rightarrow> ('n, 'w) bmshr option) \<Rightarrow> 64 word \<Rightarrow> 'n \<Rightarrow> 'n option \<Rightarrow> mem_op \<Rightarrow>
   ('n, 'w) bmshr \<Rightarrow> ('n, 'w) bmshr option" where
  "banked_addEntry act paddr c ovflwc mo s =
     (if bk_overflow s \<noteq> [] then Some (banked_toOverflow paddr c ovflwc mo s)
      else do {
        let i = calcBankIndex s paddr;
        can \<leftarrow> single_canAcceptRequest paddr mo (objs s i);
        if can then do {
          s1 \<leftarrow> single_addEntry act i paddr c ovflwc mo (s\<lparr>bk_nOutsReqs := bk_nOutsReqs s + 1\<rparr>);
          I_check (overflow (objs s1 i) = []);
          Some s1 }
        else Some (banked_toOverflow paddr c ovflwc mo s) })"

text \<open>The body of the loop; \<open>False\<close> is its \<open>break\<close>.\<close>

definition banked_overflow_step ::
  "('n cb_act \<Rightarrow> ('n, 'w) bmshr \<Rightarrow> ('n, 'w) bmshr option) \<Rightarrow> 'n overflow_field \<Rightarrow>
   ('n, 'w) bmshr \<Rightarrow> (bool \<times> ('n, 'w) bmshr) option" where
  "banked_overflow_step act f s = do {
     let i = calcBankIndex s (f_paddr f);
     can \<leftarrow> single_canAcceptRequest (f_paddr f) (f_mo f) (objs s i);
     if \<not> can then Some (False, s)
     else do {
       let s1 = s\<lparr>bk_overflow := tl (bk_overflow s), bk_nOutsReqs := bk_nOutsReqs s + 1\<rparr>;
       (issued, s2) \<leftarrow> single_issue i (f_paddr f) (f_mo f) s1;
       if issued then do {
         s3 \<leftarrow> act_opt act CallCB (f_ovflwcb f) s2;
         s4 \<leftarrow> act (DestroyCB (f_cb f)) s3;
         Some (True, s4) }
       else do {
         s3 \<leftarrow> single_addEntry act i (f_paddr f) (f_cb f) (f_ovflwcb f) (f_mo f) s2;
         I_check (overflow (objs s3 i) = []);
         Some (True, s3) } } }"

partial_function (option) banked_overflow_loop ::
  "('n cb_act \<Rightarrow> ('n, 'w) bmshr \<Rightarrow> ('n, 'w) bmshr option) \<Rightarrow> ('n, 'w) bmshr \<Rightarrow> ('n, 'w) bmshr option" where
  "banked_overflow_loop act s =
     (if bk_overflow s = [] then Some s
      else (case banked_overflow_step act (hd (bk_overflow s)) s of
              None \<Rightarrow> None
            | Some r \<Rightarrow> if fst r then banked_overflow_loop act (snd r) else Some (snd r)))"

definition banked_checkOverflow ::
  "('n cb_act \<Rightarrow> ('n, 'w) bmshr \<Rightarrow> ('n, 'w) bmshr option) \<Rightarrow> ('n, 'w) bmshr \<Rightarrow> ('n, 'w) bmshr option" where
  "banked_checkOverflow act s =
     (if bk_overflow s = [] then Some s
      else if bk_checkingOverflow s then Some s
      else do {
        s1 \<leftarrow> banked_overflow_loop act (s\<lparr>bk_checkingOverflow := True\<rparr>);
        Some (s1\<lparr>bk_checkingOverflow := False\<rparr>) })"

definition banked_retire ::
  "('n cb_act \<Rightarrow> ('n, 'w) bmshr \<Rightarrow> ('n, 'w) bmshr option) \<Rightarrow> 64 word \<Rightarrow> ('n, 'w) bmshr \<Rightarrow>
   (bool \<times> ('n, 'w) bmshr) option" where
  "banked_retire act paddr s = do {
     (rmEntry, s1) \<leftarrow> single_retire act (calcBankIndex s paddr) paddr s;
     s2 \<leftarrow> banked_checkOverflow act (s1\<lparr>bk_nOutsReqs := bk_nOutsReqs s1 - 1\<rparr>);
     Some (rmEntry, s2) }"

definition banked_hasLineReq :: "64 word \<Rightarrow> ('n, 'w) bmshr \<Rightarrow> bool" where
  "banked_hasLineReq line s =
     single_hasLineReq line (objs s (calcBankIndex s (push_bit (bk_Log2LineSize s) line)))"

definition banked_isOnlyWrites :: "64 word \<Rightarrow> ('n, 'w) bmshr \<Rightarrow> bool option" where
  "banked_isOnlyWrites paddr s = single_isOnlyWrites paddr (objs s (calcBankIndex s paddr))"

definition banked_getUsedReads :: "64 word \<Rightarrow> ('n, 'w) bmshr \<Rightarrow> int option" where
  "banked_getUsedReads paddr s = single_getUsedReads paddr (objs s (calcBankIndex s paddr))"

definition banked_getUsedWrites :: "64 word \<Rightarrow> ('n, 'w) bmshr \<Rightarrow> int option" where
  "banked_getUsedWrites paddr s = single_getUsedWrites paddr (objs s (calcBankIndex s paddr))"

definition banked_selectEntryToDrop :: "64 word list \<Rightarrow> 64 word \<Rightarrow> ('n, 'w) bmshr \<Rightarrow> 64 word option" where
  "banked_selectEntryToDrop ls paddr s = single_selectEntryToDrop ls (objs s (calcBankIndex s paddr))"

definition banked_dropEntry :: "64 word \<Rightarrow> ('n, 'w) bmshr \<Rightarrow> ('n, 'w) bmshr option" where
  "banked_dropEntry lineAddr s =
     single_dropEntry (calcBankIndex s (push_bit (bk_Log2LineSize s) lineAddr)) lineAddr s"

definition banked_getEntry :: "64 word \<Rightarrow> ('n, 'w) bmshr \<Rightarrow> 'n mshr_entry option" where
  "banked_getEntry paddr s = single_getEntry paddr (objs s (calcBankIndex s paddr))"

definition banked_putEntry :: "'n mshr_entry \<Rightarrow> ('n, 'w) bmshr \<Rightarrow> ('n, 'w) bmshr option" where
  "banked_putEntry me s =
     single_putEntry (calcBankIndex s (push_bit (bk_Log2LineSize s) (reqLineAddr me))) me s"

definition banked_request ::
  "('n cb_act \<Rightarrow> ('n, 'w) bmshr \<Rightarrow> ('n, 'w) bmshr option) \<Rightarrow> 64 word \<Rightarrow> mem_op \<Rightarrow> 'n \<Rightarrow> 'n \<Rightarrow>
   ('n, 'w) bmshr \<Rightarrow> (bool \<times> ('n, 'w) bmshr) option" where
  "banked_request act paddr mo c q s = do {
     (issued, s1) \<leftarrow> banked_issue paddr mo s;
     if issued then Some (True, s1)
     else do { s2 \<leftarrow> banked_addEntry act paddr c (Some q) mo s1; Some (False, s2) } }"

end
