(* ===== verification/MSHR_Kinds.thy ===== *)
theory MSHR_Kinds
  imports MSHR_Classes Snippets_Correct
begin

text \<open>
  One contract for all classes of miss status registers, and the proof that each class keeps
  it: a request always runs through, a line that is outstanding can be retired, and requests
  run out after as many retirements as there were requests.
\<close>

subsection \<open>The contract\<close>

text \<open>Requests one after the other, and retirements of outstanding lines.\<close>

fun serve_requests :: "(64 word \<Rightarrow> mem_op \<Rightarrow> 'n \<Rightarrow> 'n \<Rightarrow> 's \<Rightarrow> (bool \<times> 's) option) \<Rightarrow>
    (64 word \<times> mem_op \<times> 'n \<times> 'n) list \<Rightarrow> 's \<Rightarrow> 's option" where
  "serve_requests request [] s = Some s"
| "serve_requests request ((p, mo, c, q) # rs) s = do { (_, s1) \<leftarrow> request p mo c q s; serve_requests request rs s1 }"

fun serve_retires :: "(64 word \<Rightarrow> 's \<Rightarrow> bool) \<Rightarrow> (64 word \<Rightarrow> 's \<Rightarrow> (bool \<times> 's) option) \<Rightarrow>
    64 word list \<Rightarrow> 's \<Rightarrow> 's option" where
  "serve_retires busy retire [] s = Some s"
| "serve_retires busy retire (p # ps) s =
     (if busy p s then do { (_, s1) \<leftarrow> retire p s; serve_retires busy retire ps s1 } else None)"

text \<open>
  All requests of \<open>rs\<close> are finished by as many retirements of busy lines, in any order: before
  that some line is busy, and the retirement of any busy line runs through.
\<close>

definition serves :: "('s \<Rightarrow> bool) \<Rightarrow> (64 word \<Rightarrow> 's \<Rightarrow> bool) \<Rightarrow>
    (64 word \<Rightarrow> mem_op \<Rightarrow> 'n \<Rightarrow> 'n \<Rightarrow> 's \<Rightarrow> (bool \<times> 's) option) \<Rightarrow> (64 word \<Rightarrow> 's \<Rightarrow> (bool \<times> 's) option) \<Rightarrow>
    (64 word \<times> mem_op \<times> 'n \<times> 'n) list \<Rightarrow> 's \<Rightarrow> bool" where
  "serves idle busy request retire rs s = (\<exists>s1. serve_requests request rs s = Some s1 \<and>
     (\<forall>ps s2. serve_retires busy retire ps s1 = Some s2 \<longrightarrow> length ps \<le> length rs \<and>
        (\<forall>p. busy p s2 \<longrightarrow> (\<exists>b s3. retire p s2 = Some (b, s3))) \<and>
        (length ps < length rs \<longrightarrow> (\<exists>p. busy p s2)) \<and>
        (length ps = length rs \<longrightarrow> idle s2)))"

locale miss_registers =
  fixes ready :: "'s \<Rightarrow> bool"
    and pending :: "'s \<Rightarrow> int"
    and busy :: "64 word \<Rightarrow> 's \<Rightarrow> bool"
    and request :: "64 word \<Rightarrow> mem_op \<Rightarrow> 'n \<Rightarrow> 'n \<Rightarrow> 's \<Rightarrow> (bool \<times> 's) option"
    and retire :: "64 word \<Rightarrow> 's \<Rightarrow> (bool \<times> 's) option"
  assumes pending_nonneg: "ready s \<Longrightarrow> 0 \<le> pending s"
    and some_busy: "ready s \<Longrightarrow> 0 < pending s \<Longrightarrow> \<exists>p. busy p s"
    and request_runs: "ready s \<Longrightarrow> mo \<in> {MemRead, MemWrite} \<Longrightarrow>
      \<exists>b s'. request p mo c q s = Some (b, s') \<and> ready s' \<and> pending s' = pending s + 1"
    and retire_runs: "ready s \<Longrightarrow> busy p s \<Longrightarrow>
      \<exists>b s'. retire p s = Some (b, s') \<and> ready s' \<and> pending s' = pending s - 1"
begin

abbreviation request_all :: "(64 word \<times> mem_op \<times> 'n \<times> 'n) list \<Rightarrow> 's \<Rightarrow> 's option" where
  "request_all \<equiv> serve_requests request"

abbreviation retire_all :: "64 word list \<Rightarrow> 's \<Rightarrow> 's option" where
  "retire_all \<equiv> serve_retires busy retire"

lemma request_all_runs:
  "ready s \<Longrightarrow> \<forall>(p, mo, c, q)\<in>set rs. mo \<in> {MemRead, MemWrite} \<Longrightarrow>
   \<exists>s'. request_all rs s = Some s' \<and> ready s' \<and> pending s' = pending s + int (length rs)"
proof (induction rs arbitrary: s)
  case (Cons r rs)
  obtain p mo c q where r: "r = (p, mo, c, q)" by (cases r)
  obtain b s1 where s1: "request p mo c q s = Some (b, s1)" "ready s1" "pending s1 = pending s + 1"
    using request_runs [OF Cons.prems(1), of mo p c q] Cons.prems(2) r by auto
  obtain s' where "request_all rs s1 = Some s'" "ready s'" "pending s' = pending s1 + int (length rs)"
    using Cons.IH [OF s1(2)] Cons.prems(2) by auto
  then show ?case using s1 r by auto
qed simp

lemma retire_all_counts:
  "ready s \<Longrightarrow> retire_all ps s = Some s' \<Longrightarrow> ready s' \<and> pending s' = pending s - int (length ps)"
proof (induction ps arbitrary: s)
  case (Cons p ps)
  then obtain b s1 where s1: "busy p s" "retire p s = Some (b, s1)" "retire_all ps s1 = Some s'"
    by (auto simp: bind_eq_Some_conv split: if_splits)
  then have "ready s1 \<and> pending s1 = pending s - 1" using retire_runs [OF Cons.prems(1) s1(1)] by auto
  then show ?case using Cons.IH [OF _ s1(3)] by simp
qed simp

lemma retire_all_ends:
  assumes "ready s" "retire_all ps s = Some s'"
  shows "int (length ps) \<le> pending s"
    and "int (length ps) < pending s \<Longrightarrow> \<exists>p b s''. busy p s' \<and> retire p s' = Some (b, s'')"
    and "int (length ps) = pending s \<Longrightarrow> pending s' = 0"
proof -
  have R: "ready s'" "pending s' = pending s - int (length ps)" using retire_all_counts [OF assms] by auto
  then show "int (length ps) \<le> pending s" "int (length ps) = pending s \<Longrightarrow> pending s' = 0"
    using pending_nonneg [OF R(1)] by simp_all
  show "\<exists>p b s''. busy p s' \<and> retire p s' = Some (b, s'')" if "int (length ps) < pending s"
    using some_busy [OF R(1)] R that retire_runs [OF R(1)] by fastforce
qed

lemma retire_all_exists:
  "ready s \<Longrightarrow> int n \<le> pending s \<Longrightarrow> \<exists>ps s'. retire_all ps s = Some s' \<and> length ps = n"
proof (induction n arbitrary: s)
  case 0
  then show ?case by (intro exI [of _ "[]"]) simp
next
  case (Suc n)
  obtain p where p: "busy p s" using some_busy [OF Suc.prems(1)] Suc.prems(2) by auto
  obtain b s1 where s1: "retire p s = Some (b, s1)" "ready s1" "pending s1 = pending s - 1"
    using retire_runs [OF Suc.prems(1) p] by blast
  obtain ps s' where "retire_all ps s1 = Some s'" "length ps = n" using Suc.IH [OF s1(2)] s1(3) Suc.prems(2) by auto
  then show ?case using p s1(1) by (intro exI [of _ "p # ps"] exI [of _ s']) simp
qed

text \<open>From a state in which nothing is pending.\<close>

lemma serve_all:
  assumes "ready s" "pending s = 0" "\<forall>(p, mo, c, q)\<in>set rs. mo \<in> {MemRead, MemWrite}"
    and idle: "\<And>s. ready s \<Longrightarrow> pending s = 0 \<Longrightarrow> idle s"
  shows "serves idle busy request retire rs s"
proof -
  obtain s1 where s1: "request_all rs s = Some s1" "ready s1" "pending s1 = int (length rs)"
    using request_all_runs [OF assms(1,3)] assms(2) by auto
  have "length ps \<le> length rs \<and> (\<forall>p. busy p s2 \<longrightarrow> (\<exists>b s3. retire p s2 = Some (b, s3))) \<and>
      (length ps < length rs \<longrightarrow> (\<exists>p. busy p s2)) \<and> (length ps = length rs \<longrightarrow> idle s2)" if "retire_all ps s1 = Some s2" for ps s2
    using retire_all_ends [OF s1(2) that] retire_all_counts [OF s1(2) that] s1(3) idle
      retire_runs [of s2] by fastforce
  then show ?thesis using s1(1) by (auto simp: serves_def)
qed

end

subsection \<open>SingleMSHR\<close>

interpretation single: miss_registers "mshr_ready this" "\<lambda>s. requests (objs s this)"
  "\<lambda>p s. ms (objs s this) (calcLineAddr (objs s this) p) \<noteq> None"
  "SMPCache_request log_act this" "single_retire log_act this" for this
proof unfold_locales
  fix s :: "('n, 'n cb_act list, 'z) mshrs_scheme" and p c q and mo
  assume r: "mshr_ready this s"
  show "0 \<le> requests (objs s this)" using requests_zero(1) [OF r] .
  {
    assume "0 < requests (objs s this)"
    then obtain p b s' where "single_retire log_act this p s = Some (b, s')"
      using retire_progress [OF log_client r] by blast
    then show "\<exists>p. ms (objs s this) (calcLineAddr (objs s this) p) \<noteq> None"
      by (auto simp: single_retire_def Let_def bind_eq_Some_conv)
  }
  {
    assume mo: "mo \<in> {MemRead, MemWrite}"
    obtain b s' where "SMPCache_request log_act this p mo c q s = Some (b, s')" "mshr_ready this s'"
      using request_ready [OF log_client r mo] by blast
    then show "\<exists>b s'. SMPCache_request log_act this p mo c q s = Some (b, s') \<and> mshr_ready this s' \<and>
        requests (objs s' this) = requests (objs s this) + 1"
      using request_counts [OF r mo] by blast
  }
  assume "ms (objs s this) (calcLineAddr (objs s this) p) \<noteq> None"
  then obtain e where e: "ms (objs s this) (calcLineAddr (objs s this) p) = Some e" by blast
  obtain s' where s': "single_retire log_act this p s = Some (cc e = [], s')" "mshr_ready this s'"
    using retire_ready [OF log_client r e] by blast
  have "retires this [p] s = Some ([cc e = []], s')" using s'(1) by simp
  then have "requests (objs s' this) = requests (objs s this) - 1"
    using retires_requests(3) [OF r] by fastforce
  then show "\<exists>b s'. single_retire log_act this p s = Some (b, s') \<and> mshr_ready this s' \<and>
      requests (objs s' this) = requests (objs s this) - 1"
    using s' by blast
qed

subsection \<open>NoDepsMSHR\<close>

text \<open>A client that changes its own state only.\<close>

definition nodeps_ready :: "('n, 'w) nodeps \<Rightarrow> bool" where
  "nodeps_ready s = (0 < nd_nEntries s \<and> nd_nFreeEntries s \<le> nd_nEntries s \<and>
     nat (- nd_nFreeEntries s) = length (nd_overflow s))"

definition nodeps_pending :: "('n, 'w) nodeps \<Rightarrow> int" where
  "nodeps_pending s = nd_nEntries s - nd_nFreeEntries s"

definition nodeps_log :: "'n cb_act \<Rightarrow> ('n, 'n cb_act list) nodeps \<Rightarrow> ('n, 'n cb_act list) nodeps option" where
  "nodeps_log a s = Some (s\<lparr>nd_world := nd_world s @ [a]\<rparr>)"

lemma nodeps_issue:
  assumes "nodeps_ready s"
  shows "fst (NoDepsMSHR_issue s) \<longleftrightarrow> 0 < nd_nFreeEntries s"
  using assms by (auto simp: nodeps_ready_def NoDepsMSHR_issue_def Let_def)

interpretation nodeps: miss_registers nodeps_ready nodeps_pending "\<lambda>p s. nd_nFreeEntries s < nd_nEntries s"
  "\<lambda>p mo c q s. Some (NoDepsMSHR_request p mo c q s)" "\<lambda>p. NoDepsMSHR_retire nodeps_log"
proof unfold_locales
  fix s :: "('n, 'n cb_act list) nodeps" and p c q and mo :: mem_op
  assume r: "nodeps_ready s"
  then show "0 \<le> nodeps_pending s" by (simp add: nodeps_ready_def nodeps_pending_def)
  show "\<exists>p :: 64 word. nd_nFreeEntries s < nd_nEntries s" if "0 < nodeps_pending s" using that by (simp add: nodeps_pending_def)
  show "\<exists>b s'. Some (NoDepsMSHR_request p mo c q s) = Some (b, s') \<and> nodeps_ready s' \<and> nodeps_pending s' = nodeps_pending s + 1"
    using r by (cases "nd_overflow s")
      (auto simp: NoDepsMSHR_request_def NoDepsMSHR_issue_def NoDepsMSHR_addEntry_def Let_def
        nodeps_ready_def nodeps_pending_def)
  assume "nd_nFreeEntries s < nd_nEntries s"
  then show "\<exists>b s'. NoDepsMSHR_retire nodeps_log s = Some (b, s') \<and> nodeps_ready s' \<and> nodeps_pending s' = nodeps_pending s - 1"
    using r by (cases "nd_overflow s")
      (auto simp: NoDepsMSHR_retire_def nodeps_log_def Let_def nodeps_ready_def nodeps_pending_def split: option.splits)
qed

subsection \<open>FullMSHR\<close>

definition full_used :: "'n full_entry list \<Rightarrow> int" where
  "full_used es = sum_list (map (\<lambda>e. of_bool (inUse e) + int (length (fe_cc e))) es)"

text \<open>\<open>d\<close> requests more than \<open>nFreeEntries\<close> accounts for: one in the middle of \<open>retire\<close>.\<close>

definition full_inv :: "int \<Rightarrow> ('n, 'w) fmshr \<Rightarrow> bool" where
  "full_inv d s = ((\<exists>k. MSHRMask s = 2 ^ k - 1 \<and> length (fm_entry s) = 2 ^ k) \<and>
     0 < fm_nEntries s \<and> 0 \<le> fm_nFreeEntries s \<and>
     full_used (fm_entry s) = fm_nEntries s - fm_nFreeEntries s + d \<and>
     (\<forall>e\<in>set (fm_entry s). \<not> inUse e \<longrightarrow> fe_cc e = []) \<and>
     (\<forall>i<length (fm_entry s). inUse (fm_entry s ! i) \<longrightarrow> (\<exists>p. calcEntry s p = i)) \<and>
     (overflowing s \<longrightarrow> fm_nFreeEntries s = 0) \<and> (fm_overflow s \<noteq> [] \<longrightarrow> overflowing s))"

definition full_ready :: "('n, 'w) fmshr \<Rightarrow> bool" where
  "full_ready s = (full_inv 0 s \<and> (overflowing s \<longrightarrow> fm_overflow s \<noteq> []))"

definition full_pending :: "('n, 'w) fmshr \<Rightarrow> int" where
  "full_pending s = fm_nEntries s - fm_nFreeEntries s + int (length (fm_overflow s))"

definition full_busy :: "64 word \<Rightarrow> ('n, 'w) fmshr \<Rightarrow> bool" where
  "full_busy p s = inUse (fm_entry s ! calcEntry s p)"

definition full_log :: "'n cb_act \<Rightarrow> ('n, 'n cb_act list) fmshr \<Rightarrow> ('n, 'n cb_act list) fmshr option" where
  "full_log a s = Some (s\<lparr>fm_world := fm_world s @ [a]\<rparr>)"

lemma full_used_update:
  "i < length es \<Longrightarrow> full_used (es[i := e]) = full_used es -
     (of_bool (inUse (es ! i)) + int (length (fe_cc (es ! i)))) + (of_bool (inUse e) + int (length (fe_cc e)))"
proof (induction es arbitrary: i)
  case (Cons x es)
  then show ?case by (cases i) (auto simp: full_used_def)
qed simp

lemma full_used_nonneg: "0 \<le> full_used es"
  by (auto simp: full_used_def intro!: sum_list_nonneg)

lemma full_used_ge: "x \<in> set es \<Longrightarrow> of_bool (inUse x) + int (length (fe_cc x)) \<le> full_used es"
  by (induction es) (force simp: full_used_def intro: add_increasing sum_list_nonneg)+

lemma calcEntry_less: "full_inv d s \<Longrightarrow> calcEntry s p < length (fm_entry s)"
proof -
  assume "full_inv d s"
  then obtain k where k: "MSHRMask s = 2 ^ k - 1" "length (fm_entry s) = 2 ^ k" by (auto simp: full_inv_def)
  have "(word_of_int (2 ^ k - 1) :: 64 word) = mask k" by (simp add: mask_eq_exp_minus_1)
  then have "\<exists>x. calcEntry s p = unat (take_bit k x :: 64 word)"
    unfolding calcEntry_def Let_def k(1) by (metis take_bit_eq_mask)
  then show ?thesis using k(2) by (auto simp: unsigned_take_bit_eq take_bit_nat_less_exp)
qed

lemma calcEntry_cong: "fm_Log2LineSize s' = fm_Log2LineSize s \<Longrightarrow> MSHRMask s' = MSHRMask s \<Longrightarrow> calcEntry s' p = calcEntry s p"
  by (simp add: calcEntry_def)

lemma set_entry_simps [simp]:
  "fm_entry (set_entry i e s) = (fm_entry s)[i := e]" "fm_overflow (set_entry i e s) = fm_overflow s"
  "fm_nFreeEntries (set_entry i e s) = fm_nFreeEntries s" "fm_nEntries (set_entry i e s) = fm_nEntries s"
  "MSHRMask (set_entry i e s) = MSHRMask s" "overflowing (set_entry i e s) = overflowing s"
  "fm_Log2LineSize (set_entry i e s) = fm_Log2LineSize s" "fm_world (set_entry i e s) = fm_world s"
  by (simp_all add: set_entry_def)

text \<open>An entry is changed.\<close>

lemma full_inv_set:
  assumes inv: "full_inv d s" and i: "i = calcEntry s p" and e: "\<not> inUse e \<longrightarrow> fe_cc e = []"
    and conf: "fm_nEntries s' = fm_nEntries s" "MSHRMask s' = MSHRMask s" "fm_entry s' = (fm_entry s)[i := e]"
      "fm_Log2LineSize s' = fm_Log2LineSize s"
    and free: "0 \<le> fm_nFreeEntries s'" "overflowing s' \<longrightarrow> fm_nFreeEntries s' = 0" "fm_overflow s' \<noteq> [] \<longrightarrow> overflowing s'"
    and d: "d' = d + of_bool (inUse e) + int (length (fe_cc e)) -
      (of_bool (inUse (fm_entry s ! i)) + int (length (fe_cc (fm_entry s ! i)))) +
      fm_nFreeEntries s' - fm_nFreeEntries s"
  shows "full_inv d' s'"
proof -
  have il: "i < length (fm_entry s)" using calcEntry_less [OF inv] i by simp
  have c: "calcEntry s' q = calcEntry s q" for q by (simp add: calcEntry_def conf)
  have "\<forall>x\<in>set (fm_entry s'). \<not> inUse x \<longrightarrow> fe_cc x = []"
    using inv e set_update_subset_insert [of "fm_entry s" i e] unfolding conf(3) full_inv_def by blast
  moreover have "full_used (fm_entry s') = fm_nEntries s' - fm_nFreeEntries s' + d'"
    using inv unfolding conf full_used_update [OF il] d full_inv_def by simp
  moreover have "length (fm_entry s') = length (fm_entry s)" by (simp add: conf(3))
  moreover have "\<exists>q. calcEntry s' q = j" if "j < length (fm_entry s')" "inUse (fm_entry s' ! j)" for j
    using that inv i by (cases "j = i") (auto simp: conf(3) c full_inv_def)
  ultimately show ?thesis using inv free unfolding full_inv_def conf(1,2) by auto
qed

lemma calcEntry_simps [simp]:
  "calcEntry (s\<lparr>fm_nFreeEntries := n\<rparr>) q = calcEntry s q" "calcEntry (s\<lparr>overflowing := b\<rparr>) q = calcEntry s q"
  "calcEntry (s\<lparr>fm_overflow := fs\<rparr>) q = calcEntry s q" "calcEntry (s\<lparr>fm_world := w\<rparr>) q = calcEntry s q"
  "calcEntry (set_entry i e s) q = calcEntry s q"
  by (simp_all add: calcEntry_def)

lemma full_request_ok:
  assumes r: "full_ready s"
  shows "\<exists>b s'. FullMSHR_request full_log p mo c q s = Some (b, s') \<and> full_ready s' \<and>
    full_pending s' = full_pending s + 1"
proof (cases "overflowing s \<or> fm_nFreeEntries s = 0")
  case True
  have "full_inv 0 s" using r by (simp add: full_ready_def)
  then have "0 \<le> fm_nFreeEntries s" "fm_nFreeEntries s \<le> fm_nEntries s" "full_inv 0 s"
    using True by (auto simp: full_inv_def)
  then show ?thesis using r True
    by (auto simp: FullMSHR_request_def FullMSHR_issue_def FullMSHR_addEntry_def full_ready_def full_pending_def full_inv_def)
next
  case False
  have inv: "full_inv 0 s" using r by (simp add: full_ready_def)
  then have f: "0 < fm_nFreeEntries s" "fm_overflow s = []" "0 \<le> full_used (fm_entry s)"
    using False full_used_nonneg [of "fm_entry s"] by (auto simp: full_inv_def)
  then have le: "fm_nFreeEntries s \<le> fm_nEntries s" using inv by (auto simp: full_inv_def)
  let ?i = "calcEntry s p"
  let ?s1 = "s\<lparr>fm_nFreeEntries := fm_nFreeEntries s - 1\<rparr>"
  have i: "?i < length (fm_entry s)" "calcEntry ?s1 p = ?i" "calcEntry (?s1\<lparr>fm_world := w\<rparr>) p = ?i" for w
    using calcEntry_less [OF inv] by (simp_all add: calcEntry_def)
  let ?e = "fm_entry s ! ?i"
  show ?thesis
  proof (cases "inUse ?e")
    case True
    let ?s' = "set_entry ?i (?e\<lparr>fe_cc := fe_cc ?e @ [c]\<rparr>) (?s1\<lparr>fm_world := fm_world s @ [DestroyCB q]\<rparr>)"
    have "full_inv 0 ?s'" using True False f by (intro full_inv_set [OF inv refl, where p = p and e = "?e\<lparr>fe_cc := fe_cc ?e @ [c]\<rparr>"]) simp_all
    moreover have "FullMSHR_request full_log p mo c q s = Some (False, ?s')"
      using True False f le i
      by (simp add: FullMSHR_request_def FullMSHR_issue_def FullMSHR_addEntry_def full_log_def Let_def)
    ultimately show ?thesis using False by (auto simp: full_ready_def full_pending_def f)
  next
    case idle: False
    then have cc: "fe_cc ?e = []" using inv i(1) by (simp add: full_inv_def)
    let ?s' = "set_entry ?i (?e\<lparr>inUse := True\<rparr>) ?s1"
    have "full_inv 0 ?s'" using idle False f cc by (intro full_inv_set [OF inv refl, where p = p and e = "?e\<lparr>inUse := True\<rparr>"]) simp_all
    moreover have "FullMSHR_request full_log p mo c q s = Some (True, ?s')"
      using idle False f le i cc
      by (simp add: FullMSHR_request_def FullMSHR_issue_def Let_def)
    ultimately show ?thesis using False by (auto simp: full_ready_def full_pending_def f)
  qed
qed

text \<open>The first part of \<open>retire\<close> gives the slot to a request that waits.\<close>

lemma full_next_ok:
  assumes r: "full_ready s" and b: "full_busy p s" and ov: "overflowing s"
  shows "\<exists>s'. FullMSHR_next full_log s = Some s' \<and> full_inv 1 s' \<and> (overflowing s' \<longrightarrow> fm_overflow s' \<noteq> []) \<and>
    fm_nFreeEntries s' = 0 \<and> fm_nEntries s' = fm_nEntries s \<and> length (fm_overflow s) = Suc (length (fm_overflow s')) \<and>
    full_busy p s' \<and> (\<forall>q. calcEntry s' q = calcEntry s q)"
proof -
  have inv: "full_inv 0 s" and z: "fm_nFreeEntries s = 0" using r ov by (auto simp: full_ready_def full_inv_def)
  obtain f rest where f: "fm_overflow s = f # rest" using r ov by (cases "fm_overflow s") (auto simp: full_ready_def)
  let ?s1 = "s\<lparr>fm_overflow := rest, overflowing := rest \<noteq> []\<rparr>"
  let ?i = "calcEntry s (f_paddr f)"
  have i: "?i < length (fm_entry s)" "calcEntry ?s1 (f_paddr f) = ?i"
    using calcEntry_less [OF inv] by (simp_all add: calcEntry_def)
  let ?e = "fm_entry s ! ?i"
  have j: "calcEntry s p < length (fm_entry s)" by (rule calcEntry_less [OF inv])
  define e' where "e' = (if inUse ?e then ?e\<lparr>fe_cc := fe_cc ?e @ [f_cb f]\<rparr> else ?e\<lparr>inUse := True\<rparr>)"
  have u: "inUse e'" by (simp add: e'_def)
  have "\<exists>w. FullMSHR_next full_log s = Some ((set_entry ?i e' ?s1)\<lparr>fm_world := w\<rparr>)"
    using f i by (cases "f_ovflwcb f")
      (auto simp: FullMSHR_next_def full_log_def e'_def set_entry_def Let_def intro!: exI fmshr.equality)
  then obtain w where w: "FullMSHR_next full_log s = Some ((set_entry ?i e' ?s1)\<lparr>fm_world := w\<rparr>)" by blast
  have "\<not> inUse ?e \<Longrightarrow> fe_cc ?e = []" using inv i(1) by (simp add: full_inv_def)
  then have "full_inv 1 ((set_entry ?i e' ?s1)\<lparr>fm_world := w\<rparr>)"
    using z u by (intro full_inv_set [OF inv refl, where p = "f_paddr f" and e = e']) (auto simp: e'_def)
  moreover have "full_busy p ((set_entry ?i e' ?s1)\<lparr>fm_world := w\<rparr>)"
  proof -
    have "calcEntry ((set_entry ?i e' ?s1)\<lparr>fm_world := w\<rparr>) p = calcEntry s p" by (simp add: calcEntry_def)
    then show ?thesis using b u j by (cases "calcEntry s p = ?i") (simp_all add: full_busy_def)
  qed
  ultimately show ?thesis using w f z
    by (intro exI [of _ "(set_entry ?i e' ?s1)\<lparr>fm_world := w\<rparr>"]) (simp add: calcEntry_def)
qed

lemma full_retire_ok:
  assumes r: "full_ready s" and b: "full_busy p s"
  shows "\<exists>b s'. FullMSHR_retire full_log p s = Some (b, s') \<and> full_ready s' \<and> full_pending s' = full_pending s - 1"
proof -
  have inv: "full_inv 0 s" using r by (simp add: full_ready_def)
  have "\<exists>s1. (if overflowing s then FullMSHR_next full_log s else Some (s\<lparr>fm_nFreeEntries := fm_nFreeEntries s + 1\<rparr>)) = Some s1 \<and>
    full_inv 1 s1 \<and> (overflowing s1 \<longrightarrow> fm_overflow s1 \<noteq> []) \<and> fm_nFreeEntries s1 \<le> fm_nEntries s1 \<and>
    full_busy p s1 \<and> full_pending s1 = full_pending s - 1"
  proof (cases "overflowing s")
    case True
    obtain s1 where s1: "FullMSHR_next full_log s = Some s1" "full_inv 1 s1" "overflowing s1 \<longrightarrow> fm_overflow s1 \<noteq> []"
        "fm_nFreeEntries s1 = 0" "fm_nEntries s1 = fm_nEntries s" "length (fm_overflow s) = Suc (length (fm_overflow s1))"
        "full_busy p s1"
      using full_next_ok [OF r b True] by blast
    then show ?thesis using True inv by (intro exI [of _ s1]) (auto simp: full_pending_def full_inv_def)
  next
    case False
    have "of_bool (inUse (fm_entry s ! calcEntry s p)) + int (length (fe_cc (fm_entry s ! calcEntry s p))) \<le> full_used (fm_entry s)"
      using calcEntry_less [OF inv] by (intro full_used_ge) simp
    then have "1 \<le> full_used (fm_entry s)" using b by (simp add: full_busy_def)
    then show ?thesis using False inv b
      by (auto simp: full_inv_def full_pending_def full_busy_def calcEntry_def)
  qed
  then obtain s1 where s1: "(if overflowing s then FullMSHR_next full_log s else Some (s\<lparr>fm_nFreeEntries := fm_nFreeEntries s + 1\<rparr>)) = Some s1"
    "full_inv 1 s1" "overflowing s1 \<longrightarrow> fm_overflow s1 \<noteq> []" "fm_nFreeEntries s1 \<le> fm_nEntries s1"
    "full_busy p s1" "full_pending s1 = full_pending s - 1" by blast
  let ?i = "calcEntry s1 p"
  let ?e = "fm_entry s1 ! ?i"
  have i: "?i < length (fm_entry s1)" by (rule calcEntry_less [OF s1(2)])
  have u: "inUse ?e" using s1(5) by (simp add: full_busy_def)
  have nn: "0 \<le> fm_nFreeEntries s1" "overflowing s1 \<longrightarrow> fm_nFreeEntries s1 = 0" "fm_overflow s1 \<noteq> [] \<longrightarrow> overflowing s1"
    using s1(2) by (auto simp: full_inv_def)
  show ?thesis
  proof (cases "fe_cc ?e")
    case Nil
    let ?s' = "set_entry ?i (?e\<lparr>inUse := False\<rparr>) s1"
    have "FullMSHR_retire full_log p s = Some (True, ?s')"
      using s1(1,4) i u nn(1) Nil by (simp add: FullMSHR_retire_def Let_def)
    moreover have "full_inv 0 ?s'" using Nil u nn by (intro full_inv_set [OF s1(2) refl, where p = p and e = "?e\<lparr>inUse := False\<rparr>"]) simp_all
    ultimately show ?thesis using s1(3,6) by (intro exI [of _ True] exI [of _ ?s']) (simp add: full_ready_def full_pending_def)
  next
    case (Cons x xs)
    let ?s' = "(set_entry ?i (?e\<lparr>fe_cc := xs\<rparr>) s1)\<lparr>fm_world := fm_world s1 @ [CallCB x]\<rparr>"
    have "FullMSHR_retire full_log p s = Some (False, ?s')"
      using s1(1,4) i u nn(1) Cons by (simp add: FullMSHR_retire_def Let_def full_log_def)
    moreover have "full_inv 0 ?s'" using Cons u nn by (intro full_inv_set [OF s1(2) refl, where p = p and e = "?e\<lparr>fe_cc := xs\<rparr>"]) simp_all
    ultimately show ?thesis using s1(3,6) by (intro exI [of _ False] exI [of _ ?s']) (simp add: full_ready_def full_pending_def)
  qed
qed

lemma full_some_busy:
  assumes r: "full_ready s" and "0 < full_pending s"
  shows "\<exists>p. full_busy p s"
proof -
  have "\<exists>e\<in>set (fm_entry s). inUse e"
  proof (rule ccontr)
    assume a: "\<not> ?thesis"
    then have "\<forall>e\<in>set (fm_entry s). of_bool (inUse e) + int (length (fe_cc e)) = 0"
      using r by (auto simp: full_ready_def full_inv_def)
    then have "full_used (fm_entry s) = 0" unfolding full_used_def by (simp cong: map_cong)
    then show False using assms by (auto simp: full_ready_def full_inv_def full_pending_def)
  qed
  then obtain i where "i < length (fm_entry s)" "inUse (fm_entry s ! i)" by (auto simp: in_set_conv_nth)
  then show ?thesis using r by (auto simp: full_ready_def full_inv_def full_busy_def)
qed

interpretation full: miss_registers full_ready full_pending full_busy
  "FullMSHR_request full_log" "FullMSHR_retire full_log"
proof unfold_locales
  fix s :: "('n, 'n cb_act list) fmshr"
  assume r: "full_ready s"
  then show "0 \<le> full_pending s"
    using full_used_nonneg [of "fm_entry s"] by (simp add: full_ready_def full_inv_def full_pending_def)
  show "0 < full_pending s \<Longrightarrow> \<exists>p. full_busy p s" by (rule full_some_busy [OF r])
  fix p c q and mo :: mem_op
  show "\<exists>b s'. FullMSHR_request full_log p mo c q s = Some (b, s') \<and> full_ready s' \<and> full_pending s' = full_pending s + 1"
    by (rule full_request_ok [OF r])
  show "\<exists>b s'. FullMSHR_retire full_log p s = Some (b, s') \<and> full_ready s' \<and> full_pending s' = full_pending s - 1"
    if "full_busy p s" using full_retire_ok [OF r that] .
qed

lemma FullMSHR_new_ready:
  assumes "FullMSHR_new sz lsz w = Some s"
  shows "full_ready s" "full_pending s = 0" "fm_nEntries s = sint sz"
proof -
  obtain l where l: "0 < sint sz" "sint sz < 1024 * 32"
    and s: "s = \<lparr>fm_nEntries = sint sz, fm_nFreeEntries = sint sz, fm_Log2LineSize = l,
           MSHRMask = sint (roundUpPower2 sz * 4) - 1, overflowing = False,
           fm_entry = replicate (nat (sint (roundUpPower2 sz * 4))) \<lparr>fe_cc = [], inUse = False\<rparr>, fm_overflow = [], fm_world = w\<rparr>"
    using assms by (auto simp: FullMSHR_new_def bind_eq_Some_conv Let_def)
  have "uint sz = take_bit 32 (sint sz)" by (simp add: uint_sint)
  then have "uint sz = sint sz" using l by (simp add: take_bit_int_eq_self)
  then have u: "0 < unat sz" "unat sz < 2 ^ 15" using l by (simp_all add: unat_eq_nat_uint)
  define h where "h = (LEAST k. unat sz \<le> 2 ^ k)"
  have h: "h \<le> 15" unfolding h_def using u(2) by (intro Least_le) simp
  have un: "unat (roundUpPower2 sz) = 2 ^ h" using roundUp_correct [of sz] u by (simp add: pow2_above_def h_def)
  have "(2 :: nat) ^ h \<le> 2 ^ 15" using h by (intro power_increasing) simp_all
  then have p: "(2 :: nat) ^ h \<le> 32768" by simp
  have un4: "unat (roundUpPower2 sz * 4) = 2 ^ h * 4"
    using p unat_mult_lem [of "roundUpPower2 sz" 4] un by simp
  have "signed_take_bit 31 (int n) = int n" if "n \<le> 131072" for n :: nat
    using that by (intro signed_take_bit_int_eq_self) simp_all
  from this [of "2 ^ h * 4"] have "signed_take_bit 31 (int (2 ^ h * 4)) = int (2 ^ h * 4)" using p by simp
  then have "sint (roundUpPower2 sz * 4) = int (2 ^ h * 4)" by (simp only: sint_uint uint_nat un4) simp
  then have sz: "sint (roundUpPower2 sz * 4) = 2 ^ (h + 2)" by simp
  then have "full_inv 0 s" using l by (auto simp: s full_inv_def full_used_def sum_list_replicate nat_power_eq intro!: exI [of _ "h + 2"])
  then show "full_ready s" "full_pending s = 0" "fm_nEntries s = sint sz" by (simp_all add: s full_ready_def full_pending_def)
qed

subsection \<open>BankedMSHR\<close>

definition banked_log :: "'n cb_act \<Rightarrow> ('n, 'n cb_act list) bmshr \<Rightarrow> ('n, 'n cb_act list) bmshr option" where
  "banked_log = log_act"

definition banks :: "('n, 'w) bmshr \<Rightarrow> nat set" where
  "banks s = {..<nBanks s}"

text \<open>The queues of the banks stay empty, and no bank works on its queue.\<close>

definition banked_inv :: "('n, 'w) bmshr \<Rightarrow> bool" where
  "banked_inv s = (0 < nBanks s \<and> mshr_inv (banks s) s \<and>
     (\<forall>i\<in>banks s. overflow (objs s i) = [] \<and> \<not> checkingOverflow (objs s i) \<and> allocPolicy (objs s i) = SPECIAL \<and>
        Log2LineSize (objs s i) = bk_Log2LineSize s \<and>
        (\<forall>line\<in>dom (ms (objs s i)). calcBankIndex s (push_bit (bk_Log2LineSize s) line) = i)) \<and>
     (\<forall>f\<in>set (bk_overflow s). f_ovflwcb f \<noteq> None \<and> f_mo f \<in> {MemRead, MemWrite}) \<and>
     bk_nOutsReqs s = (\<Sum>i\<in>banks s. nOutsReqs (objs s i)))"

definition bank_refuses :: "('n, 'w) bmshr \<Rightarrow> 'n overflow_field \<Rightarrow> bool" where
  "bank_refuses s f = refused (objs s (calcBankIndex s (f_paddr f))) f"

definition banked_ready :: "('n, 'w) bmshr \<Rightarrow> bool" where
  "banked_ready s = (banked_inv s \<and> \<not> bk_checkingOverflow s \<and>
     (bk_overflow s = [] \<or> bank_refuses s (hd (bk_overflow s))))"

definition banked_pending :: "('n, 'w) bmshr \<Rightarrow> int" where
  "banked_pending s = bk_nOutsReqs s + int (length (bk_overflow s))"

definition banked_busy :: "64 word \<Rightarrow> ('n, 'w) bmshr \<Rightarrow> bool" where
  "banked_busy p s = (let m = objs s (calcBankIndex s p) in ms m (calcLineAddr m p) \<noteq> None)"

lemma calcBankIndex_bank: "0 < nBanks s \<Longrightarrow> calcBankIndex s p \<in> banks s"
  by (simp add: calcBankIndex_def banks_def Let_def)

lemma calcBankIndex_upd [simp]:
  "calcBankIndex (s\<lparr>bk_overflow := fs\<rparr>) = calcBankIndex s"
  "calcBankIndex (s\<lparr>bk_checkingOverflow := b\<rparr>) = calcBankIndex s"
  by (simp_all add: calcBankIndex_def fun_eq_iff)

lemma calcBankIndex_line: "calcBankIndex s (push_bit (bk_Log2LineSize s) (drop_bit (bk_Log2LineSize s) p)) = calcBankIndex s p"
proof -
  have "drop_bit n (push_bit n (drop_bit n p)) = drop_bit n p" for n
    by (rule bit_word_eqI) (auto simp: bit_simps dest: bit_imp_le_length)
  then show ?thesis by (simp add: calcBankIndex_def)
qed

lemma bank_can:
  assumes "banked_inv s" "i \<in> banks s"
  shows "single_canAcceptRequest paddr mo (objs s i) =
    Some (\<not> refused (objs s i) \<lparr>f_paddr = paddr, f_cb = c, f_ovflwcb = q, f_mo = mo\<rparr>)"
proof -
  have ok: "obj_ok (objs s i)" using assms mshr_invD(1) by (auto simp: banked_inv_def)
  then have "msum (\<lambda>_. 1) (ms (objs s i)) = nEntries (objs s i) - nFreeEntries (objs s i)" by (simp add: obj_ok_def)
  then have "nFreeEntries (objs s i) \<le> nEntries (objs s i)" using msum_nonneg [of "ms (objs s i)" "\<lambda>_. 1"] by simp
  moreover have "0 \<le> nFreeEntries (objs s i)" using ok by (simp add: obj_ok_def)
  ultimately show ?thesis using assms
    by (auto simp: single_canAcceptRequest_def single_canAcceptRequestSpecial_def banked_inv_def refused_def split: option.splits)
qed

lemma refused_cb: "refused m \<lparr>f_paddr = f_paddr f, f_cb = c, f_ovflwcb = q, f_mo = f_mo f\<rparr> = refused m f"
  by (simp add: refused_def split: option.splits)

lemma retire_quiet:
  assumes inv: "mshr_inv I s" and i: "this \<in> I" and m: "m = objs s this" and ov: "overflow m = []"
    and e: "ms m (calcLineAddr m paddr) = Some e"
  shows "\<exists>m' x w. single_retire log_act this paddr s =
      Some (cc e = [], s\<lparr>objs := (objs s)(this := m'), occStats := x, world := w\<rparr>) \<and>
    mshr_inv I (s\<lparr>objs := (objs s)(this := m'), occStats := x, world := w\<rparr>) \<and>
    overflow m' = [] \<and> same_conf m m' \<and> nOutsReqs m' = nOutsReqs m - 1 \<and> dom (ms m') \<subseteq> insert (calcLineAddr m paddr) (dom (ms m))"
proof -
  let ?l = "calcLineAddr m paddr"
  have ok: "obj_ok m" using mshr_invD(1) [OF inv i] m by simp
  have line: "reqLineAddr e = ?l" using ok e by (auto simp: obj_ok_def entry_ok_def)
  have q: "single_checkOverflow log_act this x = Some x" if "overflow (objs x this) = []" for x :: "('n, 'n cb_act list, 'z) mshrs_scheme"
    using that by (simp add: single_checkOverflow_def)
  show ?thesis
  proof (cases "cc e")
    case Nil
    obtain b s' where r: "single_release this ?l e (upd this (\<lambda>m. m\<lparr>nOutsReqs := nOutsReqs m - 1\<rparr>) s) = Some s'"
      "s' = s\<lparr>objs := (objs s)(this := release_obj ?l e b m), occStats := release_stats this e (occStats s)\<rparr>" "mshr_inv I s'"
      using release_ok [OF inv i m e Nil] by blast
    have s': "s' = s\<lparr>objs := (objs s)(this := release_obj ?l e b m), occStats := release_stats this e (occStats s), world := world s\<rparr>"
      by (simp add: r(2))
    have "single_retire log_act this paddr s = Some (cc e = [], s')"
      unfolding single_retire_def using e line Nil r(1) m q [of s'] ov by (simp add: Let_def r(2) release_obj_def)
    then show ?thesis using r(3) ov unfolding s'
      by (intro exI [of _ "release_obj ?l e b m"] exI [of _ "release_stats this e (occStats s)"] exI [of _ "world s"])
        (auto simp: release_obj_def same_conf_def)
  next
    case (Cons c cs)
    let ?m' = "next_obj ?l e cs m"
    let ?s' = "s\<lparr>objs := (objs s)(this := ?m'), occStats := occStats s, world := world s @ [CallCB c]\<rparr>"
    note N = next_obj_ok [OF ok e Cons]
    have U: "upd this (\<lambda>m. m\<lparr>ms := (ms m)(?l \<mapsto> e\<lparr>cc := cs\<rparr>)\<rparr>) (upd this (\<lambda>m. m\<lparr>nOutsReqs := nOutsReqs m - 1\<rparr>) s) =
        s\<lparr>objs := (objs s)(this := ?m')\<rparr>"
      by (simp add: upd_def next_obj_def m)
    have "overflow ?m' = []" using ov by (simp add: next_obj_def)
    then have "single_retire log_act this paddr s = Some (cc e = [], ?s')"
      unfolding single_retire_def m [symmetric] Let_def using e line Cons q [of ?s'] U
      by (simp add: log_act_def)
    moreover have "mshr_inv I ?s'"
      using mshr_invD(2) [OF inv i] N by (intro mshr_inv_update [OF inv i N(1)]) (auto simp flip: m)
    ultimately show ?thesis using ov
      by (intro exI [of _ ?m'] exI [of _ "occStats s"] exI [of _ "world s @ [CallCB c]"]) (auto simp: next_obj_def same_conf_def)
  qed
qed

text \<open>A bank is changed, and requests are taken off the common queue.\<close>

definition put_bank :: "nat \<Rightarrow> 'n smshr \<Rightarrow> mshr_stats \<Rightarrow> 'w \<Rightarrow> int \<Rightarrow> 'n overflow_field list \<Rightarrow> ('n, 'w) bmshr \<Rightarrow> ('n, 'w) bmshr" where
  "put_bank i m x w d fs s = s\<lparr>objs := (objs s)(i := m), occStats := x, world := w,
     bk_nOutsReqs := bk_nOutsReqs s + d, bk_overflow := fs\<rparr>"

lemma put_bank_simps [simp]:
  "objs (put_bank i m x w d fs s) = (objs s)(i := m)" "occStats (put_bank i m x w d fs s) = x"
  "world (put_bank i m x w d fs s) = w" "bk_nOutsReqs (put_bank i m x w d fs s) = bk_nOutsReqs s + d"
  "bk_overflow (put_bank i m x w d fs s) = fs" "nBanks (put_bank i m x w d fs s) = nBanks s"
  "bk_checkingOverflow (put_bank i m x w d fs s) = bk_checkingOverflow s"
  "bk_Log2LineSize (put_bank i m x w d fs s) = bk_Log2LineSize s"
  "banks (put_bank i m x w d fs s) = banks s" "calcBankIndex (put_bank i m x w d fs s) p = calcBankIndex s p"
  by (simp_all add: put_bank_def banks_def calcBankIndex_def)

lemma put_bank_inv:
  assumes inv: "banked_inv s" and i: "i \<in> banks s" and m: "overflow m = []" "same_conf (objs s i) m"
    and d: "nOutsReqs m = nOutsReqs (objs s i) + d" and fs: "set fs \<subseteq> set (bk_overflow s)"
    and minv: "mshr_inv (banks s) (s\<lparr>objs := (objs s)(i := m), occStats := x, world := w\<rparr>)"
    and p: "i = calcBankIndex s p" "dom (ms m) \<subseteq> insert (calcLineAddr (objs s i) p) (dom (ms (objs s i)))"
  shows "banked_inv (put_bank i m x w d fs s)"
proof -
  have fin: "finite (banks s)" by (simp add: banks_def)
  have "mshr_inv (banks s) (put_bank i m x w d fs s)" using minv by (simp add: mshr_inv_def)
  moreover have "calcBankIndex s (push_bit (bk_Log2LineSize s) line) = i" if l: "line \<in> dom (ms m)" for line
  proof (cases "line \<in> dom (ms (objs s i))")
    case False
    then have "line = drop_bit (bk_Log2LineSize s) p" using l p(2) inv i by (auto simp: banked_inv_def calcLineAddr_def)
    then show ?thesis using p(1) calcBankIndex_line by simp
  qed (use inv i in \<open>simp add: banked_inv_def\<close>)
  moreover have "Log2LineSize m = bk_Log2LineSize s" using inv i m(2) by (simp add: banked_inv_def same_conf_def)
  moreover have "bk_nOutsReqs s + d = (\<Sum>j\<in>banks s. nOutsReqs (((objs s)(i := m)) j))"
    using inv sum_at [OF fin i, of nOutsReqs "objs s" m] d by (simp add: banked_inv_def)
  ultimately show ?thesis using inv i m fs unfolding banked_inv_def same_conf_def by auto
qed

lemma banked_issue_joins:
  assumes inv: "banked_inv s" and i: "i = calcBankIndex s (f_paddr f)"
    and can: "\<not> refused (objs s i) f" and f: "f_mo f \<in> {MemRead, MemWrite}" "f_ovflwcb f = Some q"
    and x: "x = put_bank i (objs s i) (occStats s) (world s) d fs s"
  shows "(\<exists>m' st. ms (objs s i) (calcLineAddr (objs s i) (f_paddr f)) = None \<and>
      single_issue i (f_paddr f) (f_mo f) x = Some (True, put_bank i m' st (world s) d fs s) \<and>
      overflow m' = [] \<and> same_conf (objs s i) m' \<and> nOutsReqs m' = nOutsReqs (objs s i) + 1 \<and>
      dom (ms m') \<subseteq> insert (calcLineAddr (objs s i) (f_paddr f)) (dom (ms (objs s i))) \<and>
      (\<forall>w. mshr_inv (banks s) (s\<lparr>objs := (objs s)(i := m'), occStats := st, world := w\<rparr>))) \<or>
    (ms (objs s i) (calcLineAddr (objs s i) (f_paddr f)) \<noteq> None \<and>
      single_issue i (f_paddr f) (f_mo f) x = Some (False, x) \<and>
      (\<exists>m' st w. single_addEntry log_act i (f_paddr f) c (Some q) (f_mo f) x = Some (put_bank i m' st w d fs s) \<and>
      overflow m' = [] \<and> same_conf (objs s i) m' \<and> nOutsReqs m' = nOutsReqs (objs s i) + 1 \<and>
      dom (ms m') \<subseteq> insert (calcLineAddr (objs s i) (f_paddr f)) (dom (ms (objs s i))) \<and>
      (\<forall>w. mshr_inv (banks s) (s\<lparr>objs := (objs s)(i := m'), occStats := st, world := w\<rparr>))))"
proof -
  let ?m = "objs s i" and ?I = "banks s"
  have ib: "i \<in> ?I" using inv i calcBankIndex_bank [of s] by (simp add: banked_inv_def)
  have minv: "mshr_inv ?I s" and ov: "overflow ?m = []" using inv ib by (auto simp: banked_inv_def)
  have cong: "mshr_inv ?I (s\<lparr>objs := h, occStats := st, world := w\<rparr>)" if "mshr_inv ?I (x\<lparr>objs := h, occStats := st\<rparr>)" for h st w
    using that by (simp add: mshr_inv_def)
  have xinv: "mshr_inv ?I x" using minv by (simp add: x mshr_inv_def)
  have o: "?m = objs x i" "globalClock x = globalClock s" "occStats x = occStats s" "world x = world s"
    by (simp_all add: x put_bank_def)
  obtain x' where I: "single_issue i (f_paddr f) (f_mo f) x = Some
      (overflow ?m = [] \<and> ms ?m (calcLineAddr ?m (f_paddr f)) = None \<and> 0 < nFreeEntries ?m, x')"
      "\<not> (overflow ?m = [] \<and> ms ?m (calcLineAddr ?m (f_paddr f)) = None \<and> 0 < nFreeEntries ?m) \<longrightarrow> x' = x"
      "overflow ?m = [] \<and> ms ?m (calcLineAddr ?m (f_paddr f)) = None \<and> 0 < nFreeEntries ?m \<longrightarrow>
      (\<exists>b. x' = x\<lparr>objs := (objs x)(i := inst_obj ?m (f_paddr f) (f_mo f) (globalClock x) b),
        occStats := inst_stats i (f_mo f) (occStats x)\<rparr>)" "keeps ?I (\<lambda>_. 0) x x'"
    using issue_ok [OF xinv ib o(1) f(1), of "f_paddr f" "\<lambda>_. 0"] by blast
  show ?thesis
  proof (cases "ms ?m (calcLineAddr ?m (f_paddr f))")
    case None
    then have "0 < nFreeEntries ?m" using can by (simp add: refused_def)
    then obtain b where b: "x' = x\<lparr>objs := (objs x)(i := inst_obj ?m (f_paddr f) (f_mo f) (globalClock x) b),
        occStats := inst_stats i (f_mo f) (occStats x)\<rparr>" "single_issue i (f_paddr f) (f_mo f) x = Some (True, x')"
      using I(1,3) None ov by auto
    define M where "M = inst_obj ?m (f_paddr f) (f_mo f) (globalClock x) b"
    have "x' = put_bank i M (inst_stats i (f_mo f) (occStats x)) (world s) d fs s"
      unfolding b(1) M_def [symmetric] by (simp add: x put_bank_def)
    moreover have "mshr_inv ?I (s\<lparr>objs := (objs s)(i := M), occStats := inst_stats i (f_mo f) (occStats x), world := w\<rparr>)" for w
    proof -
      have "objs x = objs s" by (simp add: x)
      then show ?thesis using I(4) unfolding keeps_def by (subst mshr_inv_cong [of _ x']) (simp_all add: b(1) M_def)
    qed
    moreover have "overflow M = []" "same_conf ?m M" "nOutsReqs M = nOutsReqs ?m + 1"
      "dom (ms M) \<subseteq> insert (calcLineAddr ?m (f_paddr f)) (dom (ms ?m))"
      using ov by (auto simp: M_def inst_obj_ms) (simp add: inst_obj_def Let_def)
    ultimately show ?thesis using None b(2) by blast
  next
    case (Some e)
    then have a: "entry_canAcceptRequest (f_mo f) e" using can by (simp add: refused_def)
    obtain w x2 where A: "single_addEntry log_act i (f_paddr f) c (Some q) (f_mo f) x = Some x2"
      "x2 = x\<lparr>objs := (objs x)(i := add_obj ?m (f_paddr f) c (f_mo f) e), occStats := occStats (count_read (f_mo f) x), world := w\<rparr>"
      using addEntry_join [OF log_client xinv ib o(1) f(1) ov Some a, of c q] by blast
    have "x2 = put_bank i (add_obj ?m (f_paddr f) c (f_mo f) e) (occStats (count_read (f_mo f) x)) w d fs s"
      by (simp add: A(2) x put_bank_def)
    moreover have "mshr_inv ?I (s\<lparr>objs := (objs s)(i := add_obj ?m (f_paddr f) c (f_mo f) e), occStats := occStats (count_read (f_mo f) x), world := w\<rparr>)" for w
    proof -
      have N: "(add_obj ?m (f_paddr f) c (f_mo f) e)\<lparr>overflow := []\<rparr> = add_obj ?m (f_paddr f) c (f_mo f) e"
        using ov by (intro smshr.equality) (simp_all add: add_obj_def Let_def)
      have S: "occStats (count_read (f_mo f) x) = occStats (count_read (f_mo f) s)" by (simp add: occStats_count_read o)
      show ?thesis using add_inv [OF minv ib refl Some a f(1), of "[]" w c] unfolding N S by simp
    qed
    moreover define M where "M = add_obj ?m (f_paddr f) c (f_mo f) e"
    moreover have "overflow M = []" "same_conf ?m M" "nOutsReqs M = nOutsReqs ?m + 1"
      "dom (ms M) \<subseteq> insert (calcLineAddr ?m (f_paddr f)) (dom (ms ?m))"
      using ov by (auto simp: M_def add_obj_ms) (simp add: add_obj_def Let_def)
    moreover have "single_issue i (f_paddr f) (f_mo f) x = Some (False, x)" using Some I(1,2) by simp
    ultimately show ?thesis using Some A(1) by blast
  qed
qed

lemma banked_request_ok:
  assumes r: "banked_ready s" and mo: "mo \<in> {MemRead, MemWrite}"
  shows "\<exists>b s'. banked_request banked_log p mo c q s = Some (b, s') \<and> banked_ready s' \<and>
    banked_pending s' = banked_pending s + 1"
proof -
  have inv: "banked_inv s" using r by (simp add: banked_ready_def)
  let ?f = "\<lparr>f_paddr = p, f_cb = c, f_ovflwcb = Some q, f_mo = mo\<rparr>"
  let ?i = "calcBankIndex s p"
  let ?q = "banked_toOverflow p c (Some q) mo s"
  have ib: "?i \<in> banks s" using inv calcBankIndex_bank [of s p] by (simp add: banked_inv_def)
  have idx: "calcBankIndex ?q = calcBankIndex s" by (simp add: banked_toOverflow_def calcBankIndex_def fun_eq_iff)
  have qinv: "banked_inv ?q" using inv mo by (auto simp: banked_inv_def banked_toOverflow_def mshr_inv_def banks_def)
  have qok: "banked_ready ?q \<and> banked_pending ?q = banked_pending s + 1" if "bk_overflow s \<noteq> [] \<or> refused (objs s ?i) ?f"
    using that qinv r unfolding banked_ready_def bank_refuses_def idx
    by (cases "bk_overflow s") (simp_all add: banked_toOverflow_def banked_pending_def)
  show ?thesis
  proof (cases "bk_overflow s = []")
    case False
    then have "banked_request banked_log p mo c q s = Some (False, ?q)"
      by (simp add: banked_request_def banked_issue_def banked_addEntry_def)
    then show ?thesis using qok False by blast
  next
    case True
    have can: "single_canAcceptRequest p mo (objs s ?i) = Some (\<not> refused (objs s ?i) ?f)" by (rule bank_can [OF inv ib])
    show ?thesis
    proof (cases "refused (objs s ?i) ?f")
      case ref: True
      have ov: "overflow (objs s ?i) = []" and mi: "mshr_inv (banks s) s" using inv ib by (auto simp: banked_inv_def)
      have "single_issue ?i p mo s = Some (False, s)"
        using ov issue_ok [OF mi ib refl mo, where paddr = p and \<mu> = "\<lambda>_. 0"] ref by (auto simp: refused_def split: option.splits)
      then have "banked_request banked_log p mo c q s = Some (False, ?q)"
        using True ref can by (simp add: banked_request_def banked_issue_def banked_addEntry_def)
      then show ?thesis using qok ref by blast
    next
      case False
      have ready: "banked_ready (put_bank ?i m' st w 1 [] s) \<and> banked_pending (put_bank ?i m' st w 1 [] s) = banked_pending s + 1"
        if "overflow m' = []" "same_conf (objs s ?i) m'" "nOutsReqs m' = nOutsReqs (objs s ?i) + 1"
            "dom (ms m') \<subseteq> insert (calcLineAddr (objs s ?i) p) (dom (ms (objs s ?i)))"
          "mshr_inv (banks s) (s\<lparr>objs := (objs s)(?i := m'), occStats := st, world := w\<rparr>)" for m' st w
        using put_bank_inv [OF inv ib that(1,2,3) _ that(5) refl that(4)] r True by (simp add: banked_ready_def banked_pending_def)
      have s0: "s = put_bank ?i (objs s ?i) (occStats s) (world s) 0 [] s" using True by (simp add: put_bank_def)
      have s1: "s\<lparr>bk_nOutsReqs := bk_nOutsReqs s + 1\<rparr> = put_bank ?i (objs s ?i) (occStats s) (world s) 1 [] s"
        using True by (simp add: put_bank_def)
      have J: "?i = calcBankIndex s (f_paddr ?f)" "f_mo ?f \<in> {MemRead, MemWrite}" "f_ovflwcb ?f = Some q" using mo by simp_all
      note J0 = banked_issue_joins [OF inv J(1) False J(2,3) s0, of c, simplified overflow_field.simps] and
        J1 = banked_issue_joins [OF inv J(1) False J(2,3) s1, of c, simplified overflow_field.simps]
      show ?thesis
      proof (cases "ms (objs s ?i) (calcLineAddr (objs s ?i) p)")
        case None
        then obtain m' st where m': "single_issue ?i p mo s = Some (True, put_bank ?i m' st (world s) 0 [] s)"
            "overflow m' = []" "same_conf (objs s ?i) m'" "nOutsReqs m' = nOutsReqs (objs s ?i) + 1"
            "dom (ms m') \<subseteq> insert (calcLineAddr (objs s ?i) p) (dom (ms (objs s ?i)))"
            "\<forall>w. mshr_inv (banks s) (s\<lparr>objs := (objs s)(?i := m'), occStats := st, world := w\<rparr>)"
          using J0 by auto
        have "banked_request banked_log p mo c q s = Some (True, put_bank ?i m' st (world s) 1 [] s)"
          using True m'(1) by (simp add: banked_request_def banked_issue_def put_bank_def)
        then show ?thesis using ready [OF m'(2-5)] m'(6) by blast
      next
        case (Some e)
        then have no: "single_issue ?i p mo s = Some (False, s)" using J0 by auto
        obtain m' st w where m': "single_addEntry log_act ?i p c (Some q) mo (s\<lparr>bk_nOutsReqs := bk_nOutsReqs s + 1\<rparr>) =
              Some (put_bank ?i m' st w 1 [] s)"
            "overflow m' = []" "same_conf (objs s ?i) m'" "nOutsReqs m' = nOutsReqs (objs s ?i) + 1"
            "dom (ms m') \<subseteq> insert (calcLineAddr (objs s ?i) p) (dom (ms (objs s ?i)))"
            "\<forall>w. mshr_inv (banks s) (s\<lparr>objs := (objs s)(?i := m'), occStats := st, world := w\<rparr>)"
          using J1 Some by auto
        have "banked_request banked_log p mo c q s = Some (False, put_bank ?i m' st w 1 [] s)"
          using True m'(1,2) can False no
          by (simp add: banked_request_def banked_issue_def banked_addEntry_def banked_log_def)
        then show ?thesis using ready [OF m'(2-5)] m'(6) by blast
      qed
    qed
  qed
qed

text \<open>The loop of \<open>checkOverflow\<close> over the common queue.\<close>

lemma banked_step_ok:
  assumes inv: "banked_inv s" and ov: "bk_overflow s = f # rest"
  shows "if bank_refuses s f then banked_overflow_step banked_log f s = Some (False, s)
    else \<exists>s'. banked_overflow_step banked_log f s = Some (True, s') \<and> banked_inv s' \<and> bk_overflow s' = rest \<and>
      bk_nOutsReqs s' = bk_nOutsReqs s + 1 \<and> bk_checkingOverflow s' = bk_checkingOverflow s"
proof -
  let ?i = "calcBankIndex s (f_paddr f)"
  have ib: "?i \<in> banks s" using inv calcBankIndex_bank [of s] by (simp add: banked_inv_def)
  have mo: "f_mo f \<in> {MemRead, MemWrite}" and "f_ovflwcb f \<noteq> None" using inv ov by (auto simp: banked_inv_def)
  then obtain q where q: "f_ovflwcb f = Some q" by blast
  have can: "single_canAcceptRequest (f_paddr f) (f_mo f) (objs s ?i) = Some (\<not> refused (objs s ?i) f)"
    using bank_can [OF inv ib, of "f_paddr f" "f_mo f"] by (simp add: refused_cb)
  show ?thesis
  proof (cases "bank_refuses s f")
    case True
    then show ?thesis using can by (simp add: banked_overflow_step_def bank_refuses_def)
  next
    case False
    then have ref: "\<not> refused (objs s ?i) f" by (simp add: bank_refuses_def)
    let ?x = "s\<lparr>bk_overflow := rest, bk_nOutsReqs := bk_nOutsReqs s + 1\<rparr>"
    have x: "?x = put_bank ?i (objs s ?i) (occStats s) (world s) 1 rest s" by (simp add: put_bank_def)
    note J = banked_issue_joins [OF inv refl ref mo q x, of "f_cb f"]
    have fin: "banked_inv (put_bank ?i m' st w 1 rest s)"
      if "overflow m' = []" "same_conf (objs s ?i) m'" "nOutsReqs m' = nOutsReqs (objs s ?i) + 1"
            "dom (ms m') \<subseteq> insert (calcLineAddr (objs s ?i) (f_paddr f)) (dom (ms (objs s ?i)))"
        "mshr_inv (banks s) (s\<lparr>objs := (objs s)(?i := m'), occStats := st, world := w\<rparr>)" for m' st w
      using ov by (intro put_bank_inv [OF inv ib that(1,2,3) _ that(5) refl that(4)]) auto
    show ?thesis
    proof (cases "ms (objs s ?i) (calcLineAddr (objs s ?i) (f_paddr f))")
      case None
      then obtain m' st where m': "single_issue ?i (f_paddr f) (f_mo f) ?x = Some (True, put_bank ?i m' st (world s) 1 rest s)"
            "overflow m' = []" "same_conf (objs s ?i) m'" "nOutsReqs m' = nOutsReqs (objs s ?i) + 1"
            "dom (ms m') \<subseteq> insert (calcLineAddr (objs s ?i) (f_paddr f)) (dom (ms (objs s ?i)))"
            "\<forall>w. mshr_inv (banks s) (s\<lparr>objs := (objs s)(?i := m'), occStats := st, world := w\<rparr>)"
        using J by auto
      have w: "put_bank ?i m' st (world s) 1 rest s\<lparr>world := w\<rparr> = put_bank ?i m' st w 1 rest s" for w by (simp add: put_bank_def)
      have "banked_overflow_step banked_log f s = Some (True, put_bank ?i m' st (world s @ [CallCB q] @ [DestroyCB (f_cb f)]) 1 rest s)"
        using m'(1) can ref ov q
        by (simp add: banked_overflow_step_def banked_log_def log_act_def act_opt_def Let_def w)
      then show ?thesis using False fin [OF m'(2-5)] m'(6) by simp
    next
      case (Some e)
      then obtain m' st w where m': "single_issue ?i (f_paddr f) (f_mo f) ?x = Some (False, ?x)"
            "single_addEntry log_act ?i (f_paddr f) (f_cb f) (Some q) (f_mo f) ?x = Some (put_bank ?i m' st w 1 rest s)"
            "overflow m' = []" "same_conf (objs s ?i) m'" "nOutsReqs m' = nOutsReqs (objs s ?i) + 1"
            "dom (ms m') \<subseteq> insert (calcLineAddr (objs s ?i) (f_paddr f)) (dom (ms (objs s ?i)))"
            "\<forall>w. mshr_inv (banks s) (s\<lparr>objs := (objs s)(?i := m'), occStats := st, world := w\<rparr>)"
        using J by auto
      have "banked_overflow_step banked_log f s = Some (True, put_bank ?i m' st w 1 rest s)"
        using m'(1,2,3) can ref ov q by (simp add: banked_overflow_step_def banked_log_def Let_def)
      then show ?thesis using False fin [OF m'(3-6)] m'(7) by simp
    qed
  qed
qed

lemma banked_loop_ok:
  "banked_inv s \<Longrightarrow> \<exists>s'. banked_overflow_loop banked_log s = Some s' \<and> banked_inv s' \<and>
    (bk_overflow s' = [] \<or> bank_refuses s' (hd (bk_overflow s'))) \<and> banked_pending s' = banked_pending s \<and>
    bk_checkingOverflow s' = bk_checkingOverflow s"
proof (induction "length (bk_overflow s)" arbitrary: s rule: less_induct)
  case less
  show ?case
  proof (cases "bk_overflow s")
    case Nil
    then show ?thesis using less.prems by (subst banked_overflow_loop.simps) simp
  next
    case (Cons f rest)
    note S = banked_step_ok [OF less.prems Cons]
    show ?thesis
    proof (cases "bank_refuses s f")
      case True
      then show ?thesis using less.prems S Cons by (subst banked_overflow_loop.simps) simp
    next
      case False
      then obtain s1 where s1: "banked_overflow_step banked_log f s = Some (True, s1)" "banked_inv s1" "bk_overflow s1 = rest"
          "bk_nOutsReqs s1 = bk_nOutsReqs s + 1" "bk_checkingOverflow s1 = bk_checkingOverflow s"
        using S by auto
      have "banked_overflow_loop banked_log s = banked_overflow_loop banked_log s1"
        using Cons s1(1) by (subst banked_overflow_loop.simps) simp
      moreover have "banked_pending s1 = banked_pending s" using s1(3,4) Cons by (simp add: banked_pending_def)
      ultimately show ?thesis using less.hyps [of s1] s1(2,3,5) Cons by simp
    qed
  qed
qed

lemma banked_flag [simp]:
  "banked_inv (s\<lparr>bk_checkingOverflow := b\<rparr>) = banked_inv s" "bank_refuses (s\<lparr>bk_checkingOverflow := b\<rparr>) f = bank_refuses s f"
  "banked_pending (s\<lparr>bk_checkingOverflow := b\<rparr>) = banked_pending s"
  by (simp_all add: banked_inv_def bank_refuses_def banked_pending_def mshr_inv_def banks_def calcBankIndex_def)

lemma banked_retire_ok:
  assumes r: "banked_ready s" and b: "banked_busy p s"
  shows "\<exists>b s'. banked_retire banked_log p s = Some (b, s') \<and> banked_ready s' \<and> banked_pending s' = banked_pending s - 1"
proof -
  have inv: "banked_inv s" using r by (simp add: banked_ready_def)
  let ?i = "calcBankIndex s p"
  have ib: "?i \<in> banks s" using inv calcBankIndex_bank [of s] by (simp add: banked_inv_def)
  have minv: "mshr_inv (banks s) s" and ov: "overflow (objs s ?i) = []" using inv ib by (auto simp: banked_inv_def)
  obtain e where e: "ms (objs s ?i) (calcLineAddr (objs s ?i) p) = Some e" using b by (auto simp: banked_busy_def Let_def)
  obtain m' x w where m': "single_retire log_act ?i p s = Some (cc e = [], s\<lparr>objs := (objs s)(?i := m'), occStats := x, world := w\<rparr>)"
    "mshr_inv (banks s) (s\<lparr>objs := (objs s)(?i := m'), occStats := x, world := w\<rparr>)"
    "overflow m' = []" "same_conf (objs s ?i) m'" "nOutsReqs m' = nOutsReqs (objs s ?i) - 1"
    "dom (ms m') \<subseteq> insert (calcLineAddr (objs s ?i) p) (dom (ms (objs s ?i)))"
    using retire_quiet [OF minv ib refl ov e] by blast
  let ?s1 = "put_bank ?i m' x w (- 1) (bk_overflow s) s"
  have s1: "banked_inv ?s1" "banked_pending ?s1 = banked_pending s - 1"
    using m' by (intro put_bank_inv [OF inv ib _ _ _ _ _ refl]) (simp_all add: banked_pending_def)
  have ret: "banked_retire banked_log p s = do { s2 \<leftarrow> banked_checkOverflow banked_log ?s1; Some (cc e = [], s2) }"
    using m'(1) by (simp add: banked_retire_def banked_log_def put_bank_def)
  show ?thesis
  proof (cases "bk_overflow s = []")
    case True
    then have "banked_checkOverflow banked_log ?s1 = Some ?s1" by (simp add: banked_checkOverflow_def)
    then show ?thesis using ret s1 r True by (intro exI [of _ "cc e = []"] exI [of _ ?s1]) (simp add: banked_ready_def)
  next
    case False
    obtain s2 where s2: "banked_overflow_loop banked_log (?s1\<lparr>bk_checkingOverflow := True\<rparr>) = Some s2" "banked_inv s2"
      "bk_overflow s2 = [] \<or> bank_refuses s2 (hd (bk_overflow s2))" "banked_pending s2 = banked_pending ?s1"
      using banked_loop_ok [of "?s1\<lparr>bk_checkingOverflow := True\<rparr>"] s1(1) by auto
    let ?s3 = "s2\<lparr>bk_checkingOverflow := False\<rparr>"
    have "banked_checkOverflow banked_log ?s1 = Some ?s3"
      using False r s2(1) by (simp add: banked_checkOverflow_def banked_ready_def)
    moreover have "banked_ready ?s3" using s2(2,3) by (simp add: banked_ready_def)
    ultimately show ?thesis using ret s2(4) s1(2) by (intro exI [of _ "cc e = []"] exI [of _ ?s3]) simp
  qed
qed

lemma banked_some_busy:
  assumes r: "banked_ready s" and pos: "0 < banked_pending s"
  shows "\<exists>p. banked_busy p s"
proof -
  have inv: "banked_inv s" using r by (simp add: banked_ready_def)
  have ok: "obj_ok (objs s i)" if "i \<in> banks s" for i using inv that mshr_invD(1) by (auto simp: banked_inv_def)
  have "\<exists>i\<in>banks s. ms (objs s i) \<noteq> Map.empty"
  proof (cases "bk_overflow s")
    case Nil
    then have "(\<Sum>i\<in>banks s. nOutsReqs (objs s i)) \<noteq> 0" using pos inv by (simp add: banked_pending_def banked_inv_def)
    then obtain i where i: "i \<in> banks s" "nOutsReqs (objs s i) \<noteq> 0" by (meson sum.neutral)
    then have "ms (objs s i) \<noteq> Map.empty" using ok [OF i(1)] by (auto simp: obj_ok_def)
    then show ?thesis using i(1) by blast
  next
    case (Cons f rest)
    let ?i = "calcBankIndex s (f_paddr f)"
    have i: "?i \<in> banks s" using inv calcBankIndex_bank [of s] by (simp add: banked_inv_def)
    have ref: "refused (objs s ?i) f" using r Cons by (simp add: banked_ready_def bank_refuses_def)
    have "ms (objs s ?i) \<noteq> Map.empty"
    proof
      assume e: "ms (objs s ?i) = Map.empty"
      then have "nFreeEntries (objs s ?i) \<le> 0" using ref by (simp add: refused_def)
      then show False using ok [OF i] e by (auto simp: obj_ok_def)
    qed
    then show ?thesis using i by blast
  qed
  then obtain i l where i: "i \<in> banks s" and l: "l \<in> dom (ms (objs s i))" by (auto simp: fun_eq_iff)
  then have "calcBankIndex s (push_bit (bk_Log2LineSize s) l) = i" "Log2LineSize (objs s i) = bk_Log2LineSize s"
    using inv by (auto simp: banked_inv_def)
  moreover have "drop_bit (Log2LineSize (objs s i)) (push_bit (Log2LineSize (objs s i)) l) = l"
    using ok [OF i] l by (auto simp: obj_ok_def)
  ultimately have "banked_busy (push_bit (bk_Log2LineSize s) l) s"
    using l by (auto simp: banked_busy_def Let_def calcLineAddr_def)
  then show ?thesis by blast
qed

interpretation banked: miss_registers banked_ready banked_pending banked_busy
  "banked_request banked_log" "banked_retire banked_log"
proof unfold_locales
  fix s :: "('n, 'n cb_act list) bmshr"
  assume r: "banked_ready s"
  have inv: "banked_inv s" using r by (simp add: banked_ready_def)
  have "0 \<le> nOutsReqs (objs s i)" if "i \<in> banks s" for i
  proof -
    have "obj_ok (objs s i)" using inv that mshr_invD(1) by (auto simp: banked_inv_def)
    then have n: "nOutsReqs (objs s i) = msum (\<lambda>e. 1 + int (length (cc e))) (ms (objs s i))" by (simp add: obj_ok_def)
    show ?thesis unfolding n by (rule msum_nonneg) simp
  qed
  then have "0 \<le> (\<Sum>i\<in>banks s. nOutsReqs (objs s i))" by (rule sum_nonneg)
  then show "0 \<le> banked_pending s" using inv by (simp add: banked_inv_def banked_pending_def)
  show "0 < banked_pending s \<Longrightarrow> \<exists>p. banked_busy p s" by (rule banked_some_busy [OF r])
  fix p c q and mo :: mem_op
  show "\<exists>b s'. banked_request banked_log p mo c q s = Some (b, s') \<and> banked_ready s' \<and> banked_pending s' = banked_pending s + 1"
    if "mo \<in> {MemRead, MemWrite}" by (rule banked_request_ok [OF r that])
  show "\<exists>b s'. banked_retire banked_log p s = Some (b, s') \<and> banked_ready s' \<and> banked_pending s' = banked_pending s - 1"
    if "banked_busy p s" by (rule banked_retire_ok [OF r that])
qed

lemma BankedMSHR_new_ready:
  assumes "BankedMSHR_new sz lsz nb nrd nwr aPolicy clk w = Some s" "0 < nb" "1 \<le> nrd" "0 \<le> nwr"
  shows "banked_ready s" "banked_pending s = 0"
proof -
  obtain l b where b: "log2i lsz = Some l" "SingleMSHR_new sz lsz nrd nwr SPECIAL = Some b"
    and s: "s = \<lparr>globalClock = clk, objs = \<lambda>_. b, occStats = stats_new, world = w,
           nBanks = nb, bk_Log2LineSize = unat l, bk_allocPolicy = aPolicy, bk_nOutsReqs = 0,
           bk_checkingOverflow = False, bk_overflow = []\<rparr>"
    using assms(1) by (auto simp: BankedMSHR_new_def stats_new_def bind_eq_Some_conv)
  note N = obj_new_ok [OF b(2) assms(3,4)]
  have "mshr_inv (banks s) s"
    using b(2) assms(3,4) by (intro mshr_inv_new [of _ sz lsz nrd nwr SPECIAL]) (simp_all add: s banks_def)
  moreover have "Log2LineSize b = unat l" "allocPolicy b = SPECIAL"
    using b by (auto simp: SingleMSHR_new_def bind_eq_Some_conv)
  moreover have "0 \<le> nFreeEntries b" using N(1) by (simp add: obj_ok_def)
  ultimately show "banked_ready s" "banked_pending s = 0"
    using N assms(2) by (simp_all add: banked_ready_def banked_inv_def banked_pending_def s banks_def)
qed

subsection \<open>Nothing is pending\<close>

definition full_idle :: "('n, 'w) fmshr \<Rightarrow> bool" where
  "full_idle s = (fm_overflow s = [] \<and> \<not> overflowing s \<and> fm_nFreeEntries s = fm_nEntries s \<and>
     (\<forall>e\<in>set (fm_entry s). \<not> inUse e \<and> fe_cc e = []))"

lemma full_idle:
  assumes "full_ready s" "full_pending s = 0"
  shows "full_idle s"
proof -
  have "fm_nFreeEntries s \<le> fm_nEntries s"
    using assms(1) full_used_nonneg [of "fm_entry s"] by (auto simp: full_ready_def full_inv_def)
  then have "length (fm_overflow s) = 0" "fm_nFreeEntries s = fm_nEntries s" using assms(2) unfolding full_pending_def by linarith+
  then have z: "fm_overflow s = []" "fm_nFreeEntries s = fm_nEntries s" by simp_all
  then have "full_used (fm_entry s) = 0" "\<not> overflowing s" using assms(1) by (auto simp: full_ready_def full_inv_def)
  moreover have "\<not> inUse e \<and> fe_cc e = []" if "e \<in> set (fm_entry s)" for e
    using full_used_ge [OF that] \<open>full_used (fm_entry s) = 0\<close> by (cases "inUse e") simp_all
  ultimately show ?thesis using z by (simp add: full_idle_def)
qed

text \<open>Every member of the banks and of the whole has the value that the constructor gave it.\<close>

definition banked_idle :: "('n, 'w) bmshr \<Rightarrow> bool" where
  "banked_idle s = (bk_overflow s = [] \<and> bk_nOutsReqs s = 0 \<and> \<not> bk_checkingOverflow s \<and>
     totalEntries (occStats s) = 0 \<and> outsRdReqs (occStats s) = 0 \<and>
     (\<forall>i<nBanks s. ms (objs s i) = Map.empty \<and> overflow (objs s i) = [] \<and> \<not> checkingOverflow (objs s i) \<and>
        nFreeEntries (objs s i) = nEntries (objs s i) \<and> nOutsReqs (objs s i) = 0 \<and>
        nFullReadEntries (objs s i) = 0 \<and> nFullWriteEntries (objs s i) = 0 \<and>
        entries (occStats s) i = 0 \<and> bf_reps (bf (objs s i)) {#}))"

lemma banked_idle:
  assumes r: "banked_ready s" and "banked_pending s = 0"
  shows "banked_idle s"
proof -
  have inv: "banked_inv s" using r by (simp add: banked_ready_def)
  have n: "nOutsReqs (objs s i) = msum (\<lambda>e. 1 + int (length (cc e))) (ms (objs s i))" "finite (dom (ms (objs s i)))" if "i \<in> banks s" for i
    using inv that mshr_invD(1) by (auto simp: banked_inv_def obj_ok_def)
  have nn: "0 \<le> nOutsReqs (objs s i)" if "i \<in> banks s" for i
    unfolding n [OF that] by (rule msum_nonneg) simp
  have "bk_nOutsReqs s = (\<Sum>i\<in>banks s. nOutsReqs (objs s i))" using inv by (simp add: banked_inv_def)
  moreover have "0 \<le> (\<Sum>i\<in>banks s. nOutsReqs (objs s i))" using nn by (rule sum_nonneg)
  ultimately have "length (bk_overflow s) = 0" "(\<Sum>i\<in>banks s. nOutsReqs (objs s i)) = 0"
    using assms(2) unfolding banked_pending_def by linarith+
  then have z: "bk_overflow s = []" "(\<Sum>i\<in>banks s. nOutsReqs (objs s i)) = 0" by simp_all
  have "finite (banks s)" by (simp add: banks_def)
  then have z': "nOutsReqs (objs s i) = 0" if "i \<in> banks s" for i
    using sum_nonneg_eq_0_iff [of "banks s" "\<lambda>i. nOutsReqs (objs s i)"] nn z(2) that by blast
  have "ms (objs s i) = Map.empty" if i: "i \<in> banks s" for i
  proof (rule ccontr)
    assume "ms (objs s i) \<noteq> Map.empty"
    then obtain k e where "ms (objs s i) k = Some e" by (metis not_None_eq ext)
    then have "1 + int (length (cc e)) \<le> nOutsReqs (objs s i)" unfolding n(1) [OF i] by (intro msum_ge [OF n(2) [OF i]]) simp_all
    then show False using z' [OF i] by simp
  qed
  note e = this
  have o: "obj_ok (objs s i) \<and> entries (occStats s) i = msum (\<lambda>_. 1) (ms (objs s i)) \<and>
      overflow (objs s i) = [] \<and> \<not> checkingOverflow (objs s i)" if "i \<in> banks s" for i
    using inv that by (auto simp: banked_inv_def mshr_inv_def)
  have "nFreeEntries (objs s i) = nEntries (objs s i) \<and> nOutsReqs (objs s i) = 0 \<and>
      nFullReadEntries (objs s i) = 0 \<and> nFullWriteEntries (objs s i) = 0 \<and> entries (occStats s) i = 0 \<and>
      bf_reps (bf (objs s i)) {#} \<and> overflow (objs s i) = [] \<and> \<not> checkingOverflow (objs s i)"
    if "i \<in> banks s" for i
    using o [OF that] e [OF that] by (simp add: obj_ok_def)
  moreover have "totalEntries (occStats s) = 0 \<and> outsRdReqs (occStats s) = 0"
    using inv e by (simp add: banked_inv_def mshr_inv_def)
  moreover have "bk_nOutsReqs s = 0" using inv z(2) by (simp add: banked_inv_def)
  ultimately show ?thesis using z(1) e r by (auto simp: banked_idle_def banked_ready_def banks_def)
qed

lemmas full_serves = full.serve_all [where idle = full_idle, OF _ _ _ full_idle]
lemmas banked_serves = banked.serve_all [where idle = banked_idle, OF _ _ _ banked_idle]

end
