(* ===== verification/MSHR_Properties.thy ===== *)
theory MSHR_Properties
  imports MSHR_Kinds
begin

text \<open>The properties of the Bloom filter and of the miss status registers, with their witnesses.\<close>

subsection \<open>Bloom filter\<close>

text \<open>C22: The counting Bloom filter that was built for a geometry of at most 31 bits represents the
multiset of what was inserted and not yet removed: insertion always works, the assertion of
\<open>remove\<close> cannot fail for an element that is in the multiset, and \<open>mayExist\<close> answers no only
for addresses that are not in it.\<close>

theorem bloom_filter:
  assumes "\<forall>(bits, n)\<in>set args. 0 < n" "sum_list (map fst args) \<le> 31"
  shows "(\<exists>b. BloomFilter_new args = Some b \<and> bf_reps b {#}) \<and>
    (\<forall>b M e. bf_reps b M \<longrightarrow>
      (\<exists>b'. BloomFilter_insert e b = Some b' \<and> bf_reps b' (add_mset e M)) \<and>
      (e \<in># M \<longrightarrow> (\<exists>b'. BloomFilter_remove e b = Some b' \<and> bf_reps b' (M - {#e#})) \<and>
        BloomFilter_mayExist e b = Some True) \<and>
      BloomFilter_mayExist e b \<noteq> None)"
  using bloom_new [OF assms] bloom_insert bloom_remove bloom_mayExist by auto

theorem bloom_filter_witness:
  "\<exists>b b'. BloomFilter_new [(8, 256), (6, 64), (6, 64), (6, 64)] = Some b \<and>
    BloomFilter_insert 0x12345 b = Some b' \<and> BloomFilter_mayExist 0x12345 b' = Some True"
proof -
  have "\<forall>(bits, n)\<in>set [(8, 256), (6, 64), (6, 64), (6 :: nat, 64 :: int)]. 0 < n"
    "sum_list (map fst [(8, 256), (6, 64), (6, 64), (6 :: nat, 64 :: int)]) \<le> 31" by simp_all
  note B = bloom_filter [OF this]
  obtain b where b: "BloomFilter_new [(8, 256), (6, 64), (6, 64), (6, 64)] = Some b" "bf_reps b {#}"
    using B by blast
  then obtain b' where b': "BloomFilter_insert 0x12345 b = Some b'" "bf_reps b' {#0x12345#}" using B by blast
  then have "BloomFilter_mayExist 0x12345 b' = Some True" using B by simp
  then show ?thesis using b(1) b'(1) by blast
qed

subsection \<open>SingleMSHR\<close>

text \<open>C12: Whatever the callbacks do (they may use the MSHR that calls them, as long as they keep its
contract), requests and retirements of outstanding lines run through, no assertion fails, and
afterwards: an entry exists for at most \<open>nEntries\<close> lines, an entry never holds more reads
and writes than its bounds, the counters of full entries are zero exactly when no entry is
full, and the first request of the overflow queue is one that cannot be taken yet.\<close>

theorem mshr_contract:
  assumes "client_ok {this} \<mu> act" "mshr_ready this s" "mo \<in> {MemRead, MemWrite}"
  shows "(\<exists>b s'. SMPCache_request act this paddr mo c q s = Some (b, s') \<and> mshr_ready this s') \<and>
    (ms (objs s this) (calcLineAddr (objs s this) paddr) \<noteq> None \<longrightarrow>
      (\<exists>b s'. single_retire act this paddr s = Some (b, s') \<and> mshr_ready this s')) \<and>
    int (card (dom (ms (objs s this)))) \<le> nEntries (objs s this) \<and>
    (\<forall>line e. ms (objs s this) line = Some e \<longrightarrow>
      getUsedReads e \<le> s_nReads (objs s this) \<and> 1 + int (length (cc e)) \<le> getUsedReads e + getUsedWrites e \<and>
      (s_nWrites (objs s this) = 0 \<longrightarrow> getUsedReads e + getUsedWrites e \<le> s_nReads (objs s this)) \<and>
      (s_nWrites (objs s this) \<noteq> 0 \<longrightarrow> getUsedWrites e \<le> s_nWrites (objs s this))) \<and>
    (nFullReadEntries (objs s this) = 0 \<longleftrightarrow> (\<forall>e\<in>ran (ms (objs s this)). hasFreeReads e)) \<and>
    (nFullWriteEntries (objs s this) = 0 \<longleftrightarrow> (\<forall>e\<in>ran (ms (objs s this)). hasFreeWrites e)) \<and>
    stalled (objs s this)"
proof -
  let ?m = "objs s this"
  have ok: "obj_ok ?m" and st: "stalled ?m" using assms(2) mshr_invD(1) [of "{this}" s this] by (auto simp: mshr_ready_def)
  then have fin: "finite (dom (ms ?m))" and card: "int (card (dom (ms ?m))) = nEntries ?m - nFreeEntries ?m" "0 \<le> nFreeEntries ?m"
    and eok: "\<And>l e. ms ?m l = Some e \<Longrightarrow> entry_ok (s_nReads ?m) (s_nWrites ?m) l e"
    and full: "nFullReadEntries ?m = msum (\<lambda>e. of_bool (\<not> hasFreeReads e)) (ms ?m)"
      "nFullWriteEntries ?m = msum (\<lambda>e. of_bool (\<not> hasFreeWrites e)) (ms ?m)"
    by (auto simp: obj_ok_def msum_card)
  have "getUsedReads e \<le> s_nReads ?m \<and> 1 + int (length (cc e)) \<le> getUsedReads e + getUsedWrites e \<and>
      (s_nWrites ?m = 0 \<longrightarrow> getUsedReads e + getUsedWrites e \<le> s_nReads ?m) \<and>
      (s_nWrites ?m \<noteq> 0 \<longrightarrow> getUsedWrites e \<le> s_nWrites ?m)" if "ms ?m l = Some e" for l e
    using eok [OF that] by (auto simp: entry_ok_def getUsedReads_def getUsedWrites_def)
  moreover have "(nFullReadEntries ?m = 0) = (\<forall>e\<in>ran (ms ?m). hasFreeReads e)"
    "(nFullWriteEntries ?m = 0) = (\<forall>e\<in>ran (ms ?m). hasFreeWrites e)"
    unfolding full by (simp_all add: msum_count_zero [OF fin])
  ultimately show ?thesis
    using request_ready [OF assms] retire_ready [OF assms(1,2), of paddr] card st by auto
qed

text \<open>A fresh MSHR with one entry, which has room for two reads.\<close>

definition mshr_state :: "'n smshr \<Rightarrow> ('n, 'n cb_act list) mshrs" where
  "mshr_state m = \<lparr>globalClock = 0, objs = \<lambda>_. m, occStats = stats_new, world = []\<rparr>"

lemma mshr_new_64:
  "\<exists>m :: 'n smshr. SingleMSHR_new 1 64 2 0 SPECIAL = Some m \<and> mshr_ready 0 (mshr_state m) \<and> Log2LineSize m = 6"
proof -
  obtain b where b: "BloomFilter_new [(8, 256), (6, 64), (6, 64), (6, 64)] = Some b"
    using bloom_new [of "[(8, 256), (6, 64), (6, 64), (6, 64)]"] by auto
  have l: "log2i 64 = Some 6" using log2i_pow2 [of 6] by simp
  obtain m :: "'n smshr" where m: "SingleMSHR_new 1 64 2 0 SPECIAL = Some m" "Log2LineSize m = 6"
    using b l by (simp add: SingleMSHR_new_def)
  note N = obj_new_ok [OF m(1)]
  have "mshr_inv {0} (mshr_state m)"
    using m(1) by (intro mshr_inv_new [of _ 1 64 2 0 SPECIAL]) (simp_all add: mshr_state_def)
  then have "mshr_ready 0 (mshr_state m)" using N by (simp add: mshr_ready_def mshr_state_def stalled_def)
  then show ?thesis using m by blast
qed

theorem mshr_contract_witness:
  "\<exists>m b s'. SingleMSHR_new 1 64 2 0 SPECIAL = Some m \<and>
    SMPCache_request log_act 0 0x1000 MemRead (1 :: nat) 2 (mshr_state m) = Some (b, s') \<and> mshr_ready 0 s' \<and>
    nFullReadEntries (objs (mshr_state m) 0) = 0"
proof -
  obtain m :: "nat smshr" where m: "SingleMSHR_new 1 64 2 0 SPECIAL = Some m" "mshr_ready 0 (mshr_state m)"
    using mshr_new_64 by blast
  have M: "MemRead \<in> {MemRead, MemWrite}" by simp
  note C = mshr_contract [OF log_client m(2) M, of "0x1000" 1 2]
  have "ms (objs (mshr_state m) 0) = Map.empty" using obj_new_ok(2) [OF m(1)] by (simp add: mshr_state_def)
  then show ?thesis using C m(1) by auto
qed


text \<open>C10: No request is lost. Start from any state in which requests wait, with callbacks that only
keep a log, and retire outstanding lines in any order: every outstanding line can be retired,
as long as a request is unfinished some line is outstanding, and after exactly as many
retirements as there were requests the MSHR is empty and every callback that waited has been
called or destroyed, once. For every set \<open>P\<close> of callbacks that has both callbacks of a
request or none (such as those of one request), as many were called as \<open>P\<close> has requests, and
one was destroyed for each of them that was in the queue: of the two callbacks of a request one
is called and the other destroyed. And it is the right one: when \<open>J\<close> has the first callbacks
and not the overflow callbacks, then one of \<open>J\<close> was called by every retirement that passed the
entry on to a request that had joined it, and one outside of \<open>J\<close> for every entry that was
taken and released since.\<close>

theorem mshr_serves_all:
  fixes s :: "('a, 'a cb_act list, 'z) mshrs_scheme"
  assumes "mshr_ready this s" "world s = []" "retires this ps s = Some (bs, s')"
  shows "int (length ps) \<le> requests (objs s this) \<and>
    (\<forall>p. ms (objs s' this) (calcLineAddr (objs s' this) p) \<noteq> None \<longrightarrow>
      (\<exists>b s''. single_retire log_act this p s' = Some (b, s''))) \<and>
    (int (length ps) < requests (objs s this) \<longrightarrow>
      (\<exists>p. ms (objs s' this) (calcLineAddr (objs s' this) p) \<noteq> None)) \<and>
    (int (length ps) = requests (objs s this) \<longrightarrow>
      ms (objs s' this) = Map.empty \<and> overflow (objs s' this) = [] \<and>
      (\<forall>n. int (count_list (world s') (CallCB n)) + int (count_list (world s') (DestroyCB n)) = waits n (objs s this)) \<and>
      (\<forall>P. (\<forall>f\<in>set (overflow (objs s this)). P (f_cb f) = P (the (f_ovflwcb f))) \<longrightarrow>
        calls_of P (world s') = waiting_of P (objs s this) \<and>
        destroys_of P (world s') = queued_of P (objs s this)) \<and>
      (\<forall>J. (\<forall>f\<in>set (overflow (objs s this)). J (f_cb f) \<and> \<not> J (the (f_ovflwcb f))) \<and>
          (\<forall>e\<in>ran (ms (objs s this)). \<forall>n\<in>set (cc e). J n) \<longrightarrow>
        calls_of J (world s') = int (length (filter Not bs)) \<and>
        calls_of (\<lambda>n. \<not> J n) (world s') = int (length (filter id bs)) - int (card (dom (ms (objs s this))))))"
proof -
  note R = retires_requests [OF assms(1,3)] and C = retires_conserve [OF _ assms(1) _ assms(3)]
  note Z = requests_zero [OF R(1)]
  have inv: "mshr_inv {this} s" "mshr_inv {this} s'" using assms(1) R(1) by (simp_all add: mshr_ready_def)
  have w0: "calls_of P (world s) = 0" "destroys_of P (world s) = 0" for P
    by (simp_all add: assms(2) calls_of_def destroys_of_def)
  have sums: "sum_list (map (\<lambda>_. 0 :: int) bs) = 0" "sum_list (map (\<lambda>b. - of_bool (\<not> b)) bs) = - int (length (filter Not bs))"
    "sum_list (map (of_bool :: bool \<Rightarrow> int) bs) = int (length (filter id bs))"
    by (induction bs) auto
  show ?thesis
  proof (intro conjI allI impI)
    show "int (length ps) \<le> requests (objs s this)" using Z(1) R(3) by simp
    show "\<exists>b s''. single_retire log_act this p s' = Some (b, s'')"
      if "ms (objs s' this) (calcLineAddr (objs s' this) p) \<noteq> None" for p
      using that retire_ready [OF log_client R(1)] by blast
    show "\<exists>p. ms (objs s' this) (calcLineAddr (objs s' this) p) \<noteq> None"
      if lt: "int (length ps) < requests (objs s this)"
      using single.some_busy [OF R(1)] R(3) lt by simp
    assume "int (length ps) = requests (objs s this)"
    then show e: "ms (objs s' this) = Map.empty" using Z(2) R(3) by simp
    then show ov: "overflow (objs s' this) = []" by (rule Z(3))
    show "int (count_list (world s') (CallCB n)) + int (count_list (world s') (DestroyCB n)) = waits n (objs s this)" for n
      using C [OF conserving_waits [of n] fits_all] e ov sums(1) unfolding tally_waits
      by (simp add: waits_def assms(2))
    {
      fix P :: "'a \<Rightarrow> bool" assume P: "\<forall>f\<in>set (overflow (objs s this)). P (f_cb f) = P (the (f_ovflwcb f))"
      then have F: "fits (both_in P) (\<lambda>_. True) (objs s this)" by (simp add: fits_def both_in_def)
      show "calls_of P (world s') = waiting_of P (objs s this)"
        using C [OF conserving_calls F] e ov sums(1) w0 unfolding tally_calls
        by (simp add: waiting_of_def queued_of_def)
      show "destroys_of P (world s') = queued_of P (objs s this)"
        using C [OF conserving_destroys F] ov sums(1) w0 unfolding tally_destroys by (simp add: queued_of_def)
    }
    fix J assume J: "(\<forall>f\<in>set (overflow (objs s this)). J (f_cb f) \<and> \<not> J (the (f_ovflwcb f))) \<and>
        (\<forall>e\<in>ran (ms (objs s this)). \<forall>n\<in>set (cc e). J n)"
    then have F: "fits (joins_only J) J (objs s this)" by (auto simp: fits_def joins_only_def ran_def)
    show "calls_of J (world s') = int (length (filter Not bs))"
      using C [OF conserving_joined F] sums(2) w0 unfolding tally_joined by simp
    show "calls_of (\<lambda>n. \<not> J n) (world s') = int (length (filter id bs)) - int (card (dom (ms (objs s this))))"
      using C [OF conserving_first F] sums(3) w0 e tally_first [OF inv(1)] tally_first [OF inv(2)] by simp
  qed
qed

text \<open>
  One entry with room for two reads. The first request takes it, the second joins it, the third
  is for another line and waits in the queue: its overflow callback 6 is called, and callback 5
  destroyed.
\<close>

theorem mshr_serves_all_witness:
  "\<exists>m s1 s2 s3 ps bs s'. SingleMSHR_new 1 64 2 0 SPECIAL = Some m \<and>
    map_option snd (SMPCache_request log_act 0 0x1000 MemRead (1 :: nat) 2 (mshr_state m)) = Some s1 \<and>
    map_option snd (SMPCache_request log_act 0 0x1010 MemRead 3 4 s1) = Some s2 \<and>
    map_option snd (SMPCache_request log_act 0 0x2000 MemRead 5 6 s2) = Some s3 \<and>
    length ps = 3 \<and> retires 0 ps (s3\<lparr>world := []\<rparr>) = Some (bs, s') \<and>
    ms (objs s' 0) = Map.empty \<and> overflow (objs s' 0) = []"
proof -
  obtain m :: "nat smshr" where m: "SingleMSHR_new 1 64 2 0 SPECIAL = Some m" "mshr_ready 0 (mshr_state m)"
    using mshr_new_64 by blast
  have M: "MemRead \<in> {MemRead, MemWrite}" by simp
  have z: "requests (objs (mshr_state m) 0) = 0"
    using obj_new_ok [OF m(1)] by (simp add: requests_def mshr_state_def)
  obtain b1 s1 where s1: "SMPCache_request log_act 0 0x1000 MemRead (1 :: nat) 2 (mshr_state m) = Some (b1, s1)" "mshr_ready 0 s1"
    using request_ready [OF log_client m(2) M] by blast
  obtain b2 s2 where s2: "SMPCache_request log_act 0 0x1010 MemRead 3 4 s1 = Some (b2, s2)" "mshr_ready 0 s2"
    using request_ready [OF log_client s1(2) M] by blast
  obtain b3 s3 where s3: "SMPCache_request log_act 0 0x2000 MemRead 5 6 s2 = Some (b3, s3)" "mshr_ready 0 s3"
    using request_ready [OF log_client s2(2) M] by blast
  let ?s = "s3\<lparr>world := []\<rparr>"
  have n: "requests (objs s3 0) = 3"
    using request_counts [OF m(2) M s1(1)] request_counts [OF s1(2) M s2(1)] request_counts [OF s2(2) M s3(1)] z by simp
  have r: "mshr_ready 0 ?s" "world ?s = []" using s3(2) by (simp_all add: mshr_ready_def mshr_inv_def)
  obtain ps bs s' where ps: "retires 0 ps ?s = Some (bs, s')" "length ps = 3" using retires_exist [OF r(1), of 3] n by auto
  have "ms (objs s' 0) = Map.empty \<and> overflow (objs s' 0) = []"
    using mshr_serves_all [OF r ps(1)] n ps(2) by simp
  then show ?thesis using m(1) s1(1) s2(1) s3(1) ps
    by (intro exI [of _ m] exI [of _ s1] exI [of _ s2] exI [of _ s3] exI [of _ ps] exI [of _ bs] exI [of _ s']) simp
qed

subsection \<open>FullMSHR and BankedMSHR\<close>

text \<open>C21: The other two classes finish all requests too. A new \<open>FullMSHR\<close> or \<open>BankedMSHR\<close> takes any
sequence of reads and writes; then lines that are in use can be retired, in any order: at every
moment the retirement of any such line runs through, no assertion fails (also not the one of
the banks, that a bank never uses its own overflow queue), and some line is in use until as
many were retired as requests were made. At the end no entry is in use, no request waits, and
the counters of the object, of every bank and of the occupancy statistics are those of a new
object.\<close>

theorem mshr_kinds_serve:
  assumes "\<forall>(p, mo, c, q)\<in>set rs. mo \<in> {MemRead, MemWrite}"
    and "FullMSHR_new sz lsz [] = Some f"
    and "BankedMSHR_new n lsz nb nrd nwr pol clk [] = Some b" "0 < nb" "1 \<le> nrd" "0 \<le> nwr"
  shows "serves full_idle full_busy (FullMSHR_request full_log) (FullMSHR_retire full_log) rs f \<and>
    serves banked_idle banked_busy (banked_request banked_log) (banked_retire banked_log) rs b"
  using full_serves [OF FullMSHR_new_ready(1,2) [OF assms(2)] assms(1)]
    banked_serves [OF BankedMSHR_new_ready [OF assms(3-6)] assms(1)] by simp

theorem mshr_kinds_serve_witness:
  "\<exists>f b. FullMSHR_new 2 64 [] = Some f \<and> BankedMSHR_new 2 64 4 2 0 SPECIAL 0 [] = Some b \<and>
    serves full_idle full_busy (FullMSHR_request full_log) (FullMSHR_retire full_log)
      [(0x1000, MemRead, 1 :: nat, 2), (0x1010, MemWrite, 3, 4), (0x2000, MemRead, 5, 6)] f \<and>
    serves banked_idle banked_busy (banked_request banked_log) (banked_retire banked_log)
      [(0x1000, MemRead, 1 :: nat, 2), (0x1010, MemWrite, 3, 4), (0x2000, MemRead, 5, 6)] b"
proof -
  have l: "log2i 64 = Some 6" using log2i_pow2 [of 6] by simp
  obtain bl where bl: "BloomFilter_new [(8, 256), (6, 64), (6, 64), (6, 64)] = Some bl"
    using bloom_new [of "[(8, 256), (6, 64), (6, 64), (6, 64)]"] by auto
  obtain f :: "(nat, nat cb_act list) fmshr" where f: "FullMSHR_new 2 64 [] = Some f"
    using l by (simp add: FullMSHR_new_def Let_def)
  obtain b :: "(nat, nat cb_act list) bmshr" where b: "BankedMSHR_new 2 64 4 2 0 SPECIAL 0 [] = Some b"
    using l bl by (simp add: BankedMSHR_new_def SingleMSHR_new_def)
  have "\<forall>(p, mo, c, q)\<in>set [(0x1000, MemRead, 1 :: nat, 2), (0x1010, MemWrite, 3, 4), (0x2000 :: 64 word, MemRead, 5, 6 :: nat)].
      mo \<in> {MemRead, MemWrite}" by simp
  from mshr_kinds_serve [OF this f b] show ?thesis using f b by (intro exI [of _ f] exI [of _ b]) simp
qed

end
