(* ===== verification/Sync_Model.thy ===== *)
theory Sync_Model
  imports Sesc_Prelude
begin

text \<open>
  The synchronisation of libapp/sesc_locks.c: spin lock, two phase barrier and semaphore, without
  \<open>NOSPIN_DOSUSPEND\<close> and \<open>SYNC_PROF\<close>. Threads are numbered. A step of a thread is one access
  to shared memory; a schedule is the list of the threads that make the next steps. Every thread
  calls the operations again and again. A \<open>long\<close> is an integer without bounds: the counters
  are bounded by the number of the threads and of the calls.
\<close>

subsection \<open>Schedules\<close>

fun run :: "('t \<Rightarrow> 's \<Rightarrow> 's) \<Rightarrow> 't list \<Rightarrow> 's \<Rightarrow> 's" where
  "run step [] s = s"
| "run step (t # ts) s = run step ts (step t s)"

lemma run_append [simp]: "run step (ts @ us) s = run step us (run step ts s)"
  by (induction ts arbitrary: s) auto

text \<open>An invariant of the steps that are allowed holds after every schedule of allowed steps.\<close>

locale invariant_steps =
  fixes step :: "'t \<Rightarrow> 's \<Rightarrow> 's" and allowed :: "'t \<Rightarrow> bool" and inv :: "'s \<Rightarrow> bool"
  assumes step_inv: "inv s \<Longrightarrow> allowed t \<Longrightarrow> inv (step t s)"
begin

lemma run_inv: "inv s \<Longrightarrow> \<forall>t\<in>set ts. allowed t \<Longrightarrow> inv (run step ts s)"
  by (induction ts arbitrary: s) (auto intro: step_inv)

lemma run_inv_prefix: "inv s \<Longrightarrow> \<forall>t\<in>set (ts @ us). allowed t \<Longrightarrow> inv (run step ts s)"
  by (rule run_inv) auto

end

subsection \<open>The atomic operation of sesc\_thread.c\<close>

datatype FetchOpType = FetchIncOp | FetchDecOp | FetchSwapOp

text \<open>The old value, and the new one.\<close>

fun sesc_fetch_op :: "FetchOpType \<Rightarrow> int \<Rightarrow> int \<Rightarrow> int \<times> int" where
  "sesc_fetch_op FetchIncOp odata val = (odata, odata + 1)"
| "sesc_fetch_op FetchDecOp odata val = (odata, odata - 1)"
| "sesc_fetch_op FetchSwapOp odata val = (odata, val)"

definition LOCKED :: int where "LOCKED = 1"
definition UNLOCKED :: int where "UNLOCKED = 0"

text \<open>The counter of the waiting loops, which yields every 1000 turns.\<close>

definition backoff :: "int \<Rightarrow> int" where
  "backoff i = (if i - 1 < 0 then 1000 else i - 1)"

subsection \<open>Spin lock\<close>

datatype lock_pc = Outside | Swapping | Spinning int | Inside

record lock_sys =
  spin :: int
  lpc :: "nat \<Rightarrow> lock_pc"

definition sesc_lock_init :: lock_sys where
  "sesc_lock_init = \<lparr>spin = UNLOCKED, lpc = \<lambda>_. Outside\<rparr>"

text \<open>\<open>sesc_lock\<close> up to \<open>Inside\<close>, then \<open>sesc_unlock\<close>.\<close>

definition lock_step :: "nat \<Rightarrow> lock_sys \<Rightarrow> lock_sys" where
  "lock_step t s =
     (case lpc s t of
        Outside \<Rightarrow> s\<lparr>lpc := (lpc s)(t := Swapping)\<rparr>
      | Swapping \<Rightarrow>
          let (old, new) = sesc_fetch_op FetchSwapOp (spin s) LOCKED
          in s\<lparr>spin := new, lpc := (lpc s)(t := if old = LOCKED then Spinning 0 else Inside)\<rparr>
      | Spinning i \<Rightarrow>
          s\<lparr>lpc := (lpc s)(t := if spin s = LOCKED then Spinning (backoff i) else Swapping)\<rparr>
      | Inside \<Rightarrow>
          let (old, new) = sesc_fetch_op FetchSwapOp (spin s) UNLOCKED
          in s\<lparr>spin := new, lpc := (lpc s)(t := Outside)\<rparr>)"

definition inside :: "lock_sys \<Rightarrow> nat set" where
  "inside s = {t. lpc s t = Inside}"

definition lock_inv :: "lock_sys \<Rightarrow> bool" where
  "lock_inv s = ((spin s = UNLOCKED \<and> inside s = {}) \<or> (spin s = LOCKED \<and> (\<exists>t. inside s = {t})))"

lemma lock_inv_init: "lock_inv sesc_lock_init"
  by (simp add: lock_inv_def sesc_lock_init_def inside_def)

lemma lock_step_inv:
  assumes "lock_inv s"
  shows "lock_inv (lock_step t s)"
proof (cases "lpc s t")
  case Swapping
  then have "t \<notin> inside s" by (simp add: inside_def)
  moreover have "inside (lock_step t s) = (if spin s = LOCKED then inside s else insert t (inside s))"
    using Swapping by (auto simp: inside_def lock_step_def)
  ultimately show ?thesis using assms Swapping
    by (auto simp: lock_inv_def lock_step_def LOCKED_def UNLOCKED_def)
next
  case Inside
  then have "inside (lock_step t s) = inside s - {t}" "t \<in> inside s"
    by (auto simp: inside_def lock_step_def)
  then show ?thesis using assms Inside by (auto simp: lock_inv_def lock_step_def)
next
  case Outside
  then have "inside (lock_step t s) = inside s" by (auto simp: inside_def lock_step_def)
  then show ?thesis using assms Outside by (simp add: lock_inv_def lock_step_def)
next
  case (Spinning i)
  then have "inside (lock_step t s) = inside s" by (auto simp: inside_def lock_step_def)
  then show ?thesis using assms Spinning by (simp add: lock_inv_def lock_step_def)
qed

interpretation lk: invariant_steps lock_step "\<lambda>_. True" lock_inv
  by unfold_locales (rule lock_step_inv)

definition waits_for_lock :: "nat \<Rightarrow> lock_sys \<Rightarrow> bool" where
  "waits_for_lock t s = (lpc s t = Swapping \<or> (\<exists>i. lpc s t = Spinning i))"

lemma lock_other: "u \<noteq> t \<Longrightarrow> lpc (lock_step u s) t = lpc s t"
  by (simp add: lock_step_def split: lock_pc.split)

text \<open>As long as nobody is inside, a thread that waits goes in at its second step at the latest.\<close>

lemma lock_enters_1:
  assumes "lock_inv s" "lpc s t = Swapping" "t \<in> set ts"
  shows "\<exists>n\<le>length ts. inside (run lock_step (take n ts) s) \<noteq> {}"
  using assms
proof (induction ts arbitrary: s)
  case (Cons u ts)
  show ?case
  proof (cases "inside s = {}")
    case False
    then show ?thesis by (intro exI [of _ 0]) simp
  next
    case True
    show ?thesis
    proof (cases "u = t")
      case u: True
      then have "t \<in> inside (lock_step u s)"
        using True Cons.prems(1,2) by (auto simp: inside_def lock_step_def lock_inv_def LOCKED_def UNLOCKED_def)
      then show ?thesis by (intro exI [of _ 1]) auto
    next
      case False
      then obtain n where "n \<le> length ts" "inside (run lock_step (take n ts) (lock_step u s)) \<noteq> {}"
        using Cons.IH [OF lock_step_inv [OF Cons.prems(1), of u]] Cons.prems(2,3) lock_other [of u t s] by force
      then show ?thesis by (intro exI [of _ "Suc n"]) simp
    qed
  qed
qed simp

lemma lock_enters:
  assumes "lock_inv s" "waits_for_lock t s" "2 \<le> count_list ts t"
  shows "\<exists>n\<le>length ts. inside (run lock_step (take n ts) s) \<noteq> {}"
  using assms
proof (induction ts arbitrary: s)
  case (Cons u ts)
  show ?case
  proof (cases "inside s = {}")
    case False
    then show ?thesis by (intro exI [of _ 0]) simp
  next
    case True
    have inv: "lock_inv (lock_step u s)" using lock_step_inv [OF Cons.prems(1)] .
    show ?thesis
    proof (cases "u = t")
      case u: True
      have "t \<in> set ts" using Cons.prems(3) u by (cases "t \<in> set ts") auto
      show ?thesis
      proof (cases "lpc s t = Swapping")
        case swap: True
        then have "t \<in> inside (lock_step u s)"
          using u True Cons.prems(1) by (auto simp: inside_def lock_step_def lock_inv_def LOCKED_def UNLOCKED_def)
        then show ?thesis by (intro exI [of _ 1]) auto
      next
        case False
        then have "lpc (lock_step u s) t = Swapping"
          using u True Cons.prems(1,2) by (auto simp: lock_step_def lock_inv_def waits_for_lock_def LOCKED_def UNLOCKED_def)
        then obtain n where "n \<le> length ts" "inside (run lock_step (take n ts) (lock_step u s)) \<noteq> {}"
          using lock_enters_1 [OF inv _ \<open>t \<in> set ts\<close>] by blast
        then show ?thesis by (intro exI [of _ "Suc n"]) simp
      qed
    next
      case False
      then have "waits_for_lock t (lock_step u s)" using Cons.prems(2) lock_other [of u t s] by (simp add: waits_for_lock_def)
      then obtain n where "n \<le> length ts" "inside (run lock_step (take n ts) (lock_step u s)) \<noteq> {}"
        using Cons.IH [OF inv] Cons.prems(3) False by auto
      then show ?thesis by (intro exI [of _ "Suc n"]) simp
    qed
  qed
qed simp

end
