(* ===== verification/Sync_Barrier.thy ===== *)
theory Sync_Barrier
  imports Sync_Model
begin

text \<open>The two phase barrier of libapp/sesc_locks.c, used by \<open>n\<close> threads.\<close>

subsection \<open>Model\<close>

datatype bar_pc =
    B_call              \<comment> \<open>about to call, and to read \<open>gsense\<close>\<close>
  | B_inc int           \<comment> \<open>about to increment \<open>count\<close>; the argument is \<open>lsense\<close>\<close>
  | B_clear int
  | B_set int
  | B_wait int int

text \<open>\<open>arrived\<close> and \<open>left\<close> count the increments and the returns of a thread; the code has no such counters.\<close>

record bar_sys =
  gsense :: int
  b_count :: int
  bpc :: "nat \<Rightarrow> bar_pc"
  arrived :: "nat \<Rightarrow> nat"
  left :: "nat \<Rightarrow> nat"

definition sesc_barrier_init :: bar_sys where
  "sesc_barrier_init = \<lparr>gsense = 0, b_count = 0, bpc = \<lambda>_. B_call, arrived = \<lambda>_. 0, left = \<lambda>_. 0\<rparr>"

definition bar_goto :: "nat \<Rightarrow> bar_pc \<Rightarrow> bar_sys \<Rightarrow> bar_sys" where
  "bar_goto t pc s = s\<lparr>bpc := (bpc s)(t := pc)\<rparr>"

definition bar_return :: "nat \<Rightarrow> bar_sys \<Rightarrow> bar_sys" where
  "bar_return t s = s\<lparr>bpc := (bpc s)(t := B_call), left := (left s)(t := Suc (left s t))\<rparr>"

definition barrier_step :: "int \<Rightarrow> nat \<Rightarrow> bar_sys \<Rightarrow> bar_sys" where
  "barrier_step num_proc t s =
     (case bpc s t of
        B_call \<Rightarrow> bar_goto t (B_inc (of_bool (gsense s = 0))) s
      | B_inc lsense \<Rightarrow>
          let (old, new) = sesc_fetch_op FetchIncOp (b_count s) 0;
              s1 = s\<lparr>b_count := new, arrived := (arrived s)(t := Suc (arrived s t))\<rparr>
          in bar_goto t (if old = num_proc - 1 then B_clear lsense else B_wait lsense 1000) s1
      | B_clear lsense \<Rightarrow> bar_goto t (B_set lsense) (s\<lparr>b_count := 0\<rparr>)
      | B_set lsense \<Rightarrow> bar_return t (s\<lparr>gsense := lsense\<rparr>)
      | B_wait lsense i \<Rightarrow>
          if lsense \<noteq> gsense s then bar_goto t (B_wait lsense (backoff i)) s else bar_return t s)"

subsection \<open>The invariant\<close>

text \<open>The sense of the barrier after \<open>e\<close> rounds.\<close>

definition par :: "nat \<Rightarrow> int" where
  "par e = int (e mod 2)"

lemma par_Suc [simp]: "par (Suc e) \<noteq> par e" "par e \<noteq> par (Suc e)" "of_bool (par e = 0) = par (Suc e)"
  by (auto simp: par_def mod_Suc)

text \<open>Where a thread can be while round \<open>e\<close> goes on.\<close>

definition bar_thread :: "nat \<Rightarrow> nat \<Rightarrow> bar_sys \<Rightarrow> bool" where
  "bar_thread e t s =
     (case bpc s t of
        B_call \<Rightarrow> arrived s t = e \<and> left s t = e
      | B_inc l \<Rightarrow> arrived s t = e \<and> left s t = e \<and> l = par (Suc e)
      | B_clear l \<Rightarrow> arrived s t = Suc e \<and> left s t = e \<and> l = par (Suc e)
      | B_set l \<Rightarrow> arrived s t = Suc e \<and> left s t = e \<and> l = par (Suc e)
      | B_wait l i \<Rightarrow> (arrived s t = Suc e \<and> left s t = e \<and> l = par (Suc e)) \<or>
          (arrived s t = e \<and> Suc (left s t) = e \<and> l = par e))"

lemma bar_thread_cong:
  "bpc s' t = bpc s t \<Longrightarrow> arrived s' t = arrived s t \<Longrightarrow> left s' t = left s t \<Longrightarrow> bar_thread e t s' = bar_thread e t s"
  by (simp add: bar_thread_def cong: bar_pc.case_cong)

lemma barrier_other:
  assumes "u \<noteq> t"
  shows "bpc (barrier_step n t s) u = bpc s u" "arrived (barrier_step n t s) u = arrived s u"
    "left (barrier_step n t s) u = left s u" "bar_thread e u (barrier_step n t s) = bar_thread e u s"
proof -
  show "bpc (barrier_step n t s) u = bpc s u" "arrived (barrier_step n t s) u = arrived s u"
    "left (barrier_step n t s) u = left s u"
    using assms by (auto simp: barrier_step_def bar_goto_def bar_return_def split: bar_pc.split)
  then show "bar_thread e u (barrier_step n t s) = bar_thread e u s" by (rule bar_thread_cong)
qed

definition present :: "nat \<Rightarrow> nat \<Rightarrow> bar_sys \<Rightarrow> nat set" where
  "present n e s = {t. t < n \<and> arrived s t = Suc e}"

fun is_last :: "bar_pc \<Rightarrow> bool" where
  "is_last (B_clear l) = True"
| "is_last (B_set l) = True"
| "is_last B_call = False"
| "is_last (B_inc l) = False"
| "is_last (B_wait l i) = False"

text \<open>The last thread that arrives closes the round.\<close>

definition bar_count_ok :: "nat \<Rightarrow> nat \<Rightarrow> bar_sys \<Rightarrow> bool" where
  "bar_count_ok n e s =
     (((\<forall>t<n. \<not> is_last (bpc s t)) \<and> b_count s = int (card (present n e s)) \<and> card (present n e s) < n) \<or>
      (\<exists>m<n. (\<forall>t<n. is_last (bpc s t) \<longleftrightarrow> t = m) \<and> present n e s = {..<n} \<and>
         ((\<exists>l. bpc s m = B_set l) \<longrightarrow> b_count s = 0)))"

definition bar_inv :: "nat \<Rightarrow> nat \<Rightarrow> bar_sys \<Rightarrow> bool" where
  "bar_inv n e s = (gsense s = par e \<and> (\<forall>t<n. bar_thread e t s) \<and> bar_count_ok n e s)"

lemma bar_count_last:
  assumes "bar_count_ok n e s" "t < n" "is_last (bpc s t)"
  shows "\<forall>u<n. is_last (bpc s u) \<longleftrightarrow> u = t" "present n e s = {..<n}" "bpc s t = B_set l \<Longrightarrow> b_count s = 0"
  using assms by (auto simp: bar_count_ok_def)

lemma bar_count_cong:
  assumes "bar_count_ok n e s" "b_count s' = b_count s" "present n e s' = present n e s"
    and "\<forall>u<n. is_last (bpc s' u) = is_last (bpc s u)" "\<And>u l. u < n \<Longrightarrow> bpc s' u = B_set l \<Longrightarrow> bpc s u = B_set l"
  shows "bar_count_ok n e s'"
  using assms(1) unfolding bar_count_ok_def
proof (elim disjE)
  assume "\<exists>m<n. (\<forall>t<n. is_last (bpc s t) = (t = m)) \<and> present n e s = {..<n} \<and> ((\<exists>l. bpc s m = B_set l) \<longrightarrow> b_count s = 0)"
  then obtain m where m: "m < n" "\<forall>t<n. is_last (bpc s t) = (t = m)" "present n e s = {..<n}"
      "(\<exists>l. bpc s m = B_set l) \<longrightarrow> b_count s = 0" by blast
  have "\<forall>t<n. is_last (bpc s' t) = (t = m)" using m(2) assms(4) by simp
  moreover have "(\<exists>l. bpc s' m = B_set l) \<longrightarrow> b_count s' = 0" using m(1,4) assms(2,5) by auto
  ultimately show "(\<forall>t<n. \<not> is_last (bpc s' t)) \<and> b_count s' = int (card (present n e s')) \<and> card (present n e s') < n \<or>
      (\<exists>m<n. (\<forall>t<n. is_last (bpc s' t) = (t = m)) \<and> present n e s' = {..<n} \<and> ((\<exists>l. bpc s' m = B_set l) \<longrightarrow> b_count s' = 0))"
    using m(1,3) assms(3) by auto
qed (use assms(2-4) in auto)

lemma present_finite [simp]: "finite (present n e s)"
  by (simp add: present_def)

lemma bar_inv_init: "0 < n \<Longrightarrow> bar_inv n 0 sesc_barrier_init"
  by (simp add: bar_inv_def sesc_barrier_init_def bar_thread_def bar_count_ok_def present_def par_def)

lemma bar_threads:
  assumes "bar_inv n e s" "bar_thread e t (barrier_step k t s)" "u < n"
  shows "bar_thread e u (barrier_step k t s)"
  using assms barrier_other(4) [of u t e k s] by (cases "u = t") (simp_all add: bar_inv_def)

text \<open>A step that does not touch the counters.\<close>

lemma bar_local:
  assumes inv: "bar_inv n e s" and t: "t < n" and pc: "\<not> is_last (bpc s t)" "\<not> is_last pc"
    and s': "gsense s' = gsense s" "b_count s' = b_count s" "bpc s' = (bpc s)(t := pc)" "arrived s' = arrived s"
      "\<forall>u. u \<noteq> t \<longrightarrow> left s' u = left s u"
    and th: "bar_thread e t s'"
  shows "bar_inv n e s'"
proof -
  have p: "present n e s' = present n e s" by (simp add: present_def s'(4))
  have l: "\<forall>u<n. is_last (bpc s' u) = is_last (bpc s u)" using pc by (simp add: s'(3))
  have b: "bpc s u = B_set l" if "bpc s' u = B_set l" for u l
    using that pc by (cases "u = t") (auto simp: s'(3))
  have "bar_count_ok n e s" using inv by (simp add: bar_inv_def)
  then have "bar_count_ok n e s'" by (rule bar_count_cong [OF _ s'(2) p l]) (rule b)
  moreover have "bar_thread e u s'" if "u < n" for u
    using th inv that s' bar_thread_cong [of s' u s e] by (cases "u = t") (auto simp: bar_inv_def)
  ultimately show ?thesis using inv s'(1) by (simp add: bar_inv_def)
qed

lemma barrier_step_inv:
  assumes inv: "bar_inv n e s" and t: "t < n"
  shows "bar_inv n e (barrier_step (int n) t s) \<or> bar_inv n (Suc e) (barrier_step (int n) t s)"
proof (cases "bpc s t")
  case B_call
  have "bar_inv n e (barrier_step (int n) t s)"
    using inv t B_call
    by (intro bar_local [OF inv t, where pc = "B_inc (par (Suc e))"])
      (auto simp: barrier_step_def bar_goto_def bar_inv_def bar_thread_def)
  then show ?thesis by simp
next
  case (B_inc l)
  let ?s = "barrier_step (int n) t s"
  have th: "arrived s t = e" "left s t = e" "l = par (Suc e)"
    using inv t B_inc by (auto simp: bar_inv_def bar_thread_def)
  have P: "present n e ?s = insert t (present n e s)" "t \<notin> present n e s"
    using t th B_inc by (auto simp: present_def barrier_step_def bar_goto_def)
  have ne: "present n e s \<noteq> {..<n}" using P(2) t by auto
  then have c: "\<forall>t<n. \<not> is_last (bpc s t)" "b_count s = int (card (present n e s))" "card (present n e s) < n"
    using inv by (auto simp: bar_inv_def bar_count_ok_def)
  have card: "card (present n e ?s) = Suc (card (present n e s))" using P by simp
  have sub: "present n e ?s \<subseteq> {..<n}" by (auto simp: present_def)
  have "bar_thread e t ?s" using th B_inc by (simp add: bar_thread_def barrier_step_def bar_goto_def)
  then have ths: "\<forall>u<n. bar_thread e u ?s" using bar_threads [OF inv] by blast
  have "bar_count_ok n e ?s"
  proof (cases "b_count s = int n - 1")
    case True
    then have "card (present n e ?s) = n" using card c(2) t by simp
    then have "present n e ?s = {..<n}" using sub card_subset_eq [of "{..<n}" "present n e ?s"] by simp
    then show ?thesis using True t c(1) B_inc
      by (auto simp: bar_count_ok_def barrier_step_def bar_goto_def intro!: exI [of _ t])
  next
    case False
    then have "card (present n e ?s) < n" using card c(2,3) by auto
    moreover have "b_count ?s = int (card (present n e ?s))" using c(2) card B_inc by (simp add: barrier_step_def bar_goto_def)
    moreover have "\<forall>u<n. \<not> is_last (bpc ?s u)" using False c(1) B_inc by (simp add: barrier_step_def bar_goto_def)
    ultimately show ?thesis by (simp add: bar_count_ok_def)
  qed
  then have "bar_inv n e ?s" using inv ths B_inc by (simp add: bar_inv_def barrier_step_def bar_goto_def)
  then show ?thesis by simp
next
  case (B_clear l)
  let ?s = "barrier_step (int n) t s"
  have m: "\<forall>u<n. is_last (bpc s u) \<longleftrightarrow> u = t" "present n e s = {..<n}"
    using inv t B_clear bar_count_last [of n e s t] by (simp_all add: bar_inv_def)
  have "present n e ?s = {..<n}" using m(2) B_clear by (simp add: present_def barrier_step_def bar_goto_def)
  moreover have "\<forall>u<n. is_last (bpc ?s u) \<longleftrightarrow> u = t" using m(1) B_clear by (auto simp: barrier_step_def bar_goto_def)
  moreover have "bar_thread e t s" using inv t by (simp add: bar_inv_def)
  then have "bar_thread e t ?s" using B_clear by (simp add: bar_thread_def barrier_step_def bar_goto_def)
  then have "\<forall>u<n. bar_thread e u ?s" using bar_threads [OF inv] by blast
  ultimately have "bar_inv n e ?s" using inv t B_clear
    by (auto simp: bar_inv_def bar_count_ok_def barrier_step_def bar_goto_def)
  then show ?thesis by simp
next
  case (B_set l)
  let ?s = "barrier_step (int n) t s"
  have m: "\<forall>u<n. is_last (bpc s u) \<longleftrightarrow> u = t" "present n e s = {..<n}" "b_count s = 0"
    using inv t B_set bar_count_last [of n e s t] by (simp_all add: bar_inv_def)
  have a: "arrived s u = Suc e" if "u < n" for u using m(2) that by (auto simp: present_def)
  have l: "l = par (Suc e)" "left s t = e" using inv t B_set by (auto simp: bar_inv_def bar_thread_def)
  have "bar_thread (Suc e) u ?s" if u: "u < n" for u
  proof (cases "u = t")
    case True
    then show ?thesis using a [OF u] l B_set by (simp add: bar_thread_def barrier_step_def bar_return_def)
  next
    case False
    then have "\<not> is_last (bpc s u)" using m(1) u by simp
    moreover have "bar_thread e u s" using inv u by (simp add: bar_inv_def)
    ultimately show ?thesis using a [OF u] False B_set
      by (cases "bpc s u") (auto simp: bar_thread_def barrier_step_def bar_return_def)
  qed
  moreover have "present n (Suc e) ?s = {}" using a B_set by (auto simp: present_def barrier_step_def bar_return_def)
  then have "bar_count_ok n (Suc e) ?s"
    using m(1,3) t B_set by (auto simp: bar_count_ok_def barrier_step_def bar_return_def)
  ultimately have "bar_inv n (Suc e) ?s" using l(1) B_set by (simp add: bar_inv_def barrier_step_def bar_return_def)
  then show ?thesis by simp
next
  case (B_wait l i)
  have th: "bar_thread e t s" "gsense s = par e" using inv t by (simp_all add: bar_inv_def)
  have "bar_inv n e (barrier_step (int n) t s)"
  proof (cases "l = gsense s")
    case True
    then show ?thesis using th B_wait
      by (intro bar_local [OF inv t, where pc = B_call])
        (auto simp: barrier_step_def bar_return_def bar_thread_def)
  next
    case False
    then show ?thesis using th B_wait
      by (intro bar_local [OF inv t, where pc = "B_wait l (backoff i)"])
        (auto simp: barrier_step_def bar_goto_def bar_thread_def)
  qed
  then show ?thesis by simp
qed

interpretation br: invariant_steps "barrier_step (int n)" "\<lambda>t. t < n" "\<lambda>s. \<exists>e. bar_inv n e s" for n
  by unfold_locales (use barrier_step_inv in blast)

subsection \<open>What the invariant says\<close>

lemma bar_thread_bounds:
  assumes "bar_thread e t s"
  shows "left s t \<le> e" "e \<le> arrived s t" "arrived s t \<le> Suc e" "left s t \<le> arrived s t" "arrived s t \<le> Suc (left s t)"
  using assms by (auto simp: bar_thread_def split: bar_pc.splits)

text \<open>Waiting threads whose round is over return at their next step.\<close>

definition released :: "bar_sys \<Rightarrow> nat \<Rightarrow> bool" where
  "released s t = (\<exists>i. bpc s t = B_wait (gsense s) i)"

lemma released_step:
  assumes "released s t"
  shows "barrier_step n t s = bar_return t s"
  using assms by (auto simp: released_def barrier_step_def)

lemma release_all:
  "distinct us \<Longrightarrow> \<forall>t\<in>set us. released s t \<Longrightarrow>
   left (run (barrier_step n) us s) = (\<lambda>t. if t \<in> set us then Suc (left s t) else left s t)"
proof (induction us arbitrary: s)
  case (Cons u us)
  have "\<forall>t\<in>set us. released (bar_return u s) t"
    using Cons.prems by (auto simp: released_def bar_return_def)
  then show ?case using Cons released_step [of s u n] by (auto simp: bar_return_def fun_eq_iff)
qed simp

lemma bar_drains:
  assumes inv: "bar_inv n e s"
  shows "\<exists>us. set us \<subseteq> {..<n} \<and> length us \<le> n \<and> (\<forall>t<n. left (run (barrier_step (int n)) us s) t = e)"
proof -
  let ?us = "filter (\<lambda>t. left s t < e) [0..<n]"
  have th: "bar_thread e t s" if "t < n" for t using inv that by (simp add: bar_inv_def)
  have g: "gsense s = par e" using inv by (simp add: bar_inv_def)
  have "released s t \<and> Suc (left s t) = e" if "t < n" "left s t < e" for t
    using th [OF that(1)] that(2) g by (cases "bpc s t") (auto simp: bar_thread_def released_def)
  then have R: "\<forall>t\<in>set ?us. released s t" "\<forall>t\<in>set ?us. Suc (left s t) = e" by auto
  have L: "left (run (barrier_step (int n)) ?us s) = (\<lambda>t. if t \<in> set ?us then Suc (left s t) else left s t)"
    by (rule release_all [OF _ R(1)]) simp
  have "left (run (barrier_step (int n)) ?us s) t = e" if t: "t < n" for t
  proof (cases "t \<in> set ?us")
    case True
    then show ?thesis using R(2) unfolding L by simp
  next
    case False
    then have "\<not> left s t < e" using t by simp
    then show ?thesis using False bar_thread_bounds(1) [OF th [OF t]] unfolding L by simp
  qed
  then show ?thesis using length_filter_le [of "\<lambda>t. left s t < e" "[0..<n]"] by (intro exI [of _ ?us]) auto
qed

text \<open>When all threads have arrived, the last one opens the barrier in two steps.\<close>

lemma bar_opens:
  assumes inv: "bar_inv n e s" and all: "present n e s = {..<n}" and n: "0 < n"
  shows "\<exists>us. set us \<subseteq> {..<n} \<and> length us \<le> 2 \<and> bar_inv n (Suc e) (run (barrier_step (int n)) us s)"
proof -
  have opens: "bar_inv n (Suc e) (barrier_step (int n) m x)" if "bar_inv n e x" "m < n" "bpc x m = B_set l" for m x l
  proof -
    have "bar_thread e m x" using that by (simp add: bar_inv_def)
    then have "l = par (Suc e)" using that(3) by (simp add: bar_thread_def)
    then have "gsense (barrier_step (int n) m x) \<noteq> par e" using that(3) by (simp add: barrier_step_def bar_return_def)
    then show ?thesis using barrier_step_inv [OF that(1,2)] by (auto simp: bar_inv_def)
  qed
  have "\<not> card (present n e s) < n" using all by simp
  then obtain m where m: "m < n" "is_last (bpc s m)" using inv by (auto simp: bar_inv_def bar_count_ok_def)
  then consider l where "bpc s m = B_clear l" | l where "bpc s m = B_set l" by (cases "bpc s m") auto
  then show ?thesis
  proof cases
    case 1
    let ?s = "barrier_step (int n) m s"
    have s: "bpc ?s m = B_set l" "gsense ?s = par e" using 1 inv by (simp_all add: barrier_step_def bar_goto_def bar_inv_def)
    then have "bar_inv n e ?s" using barrier_step_inv [OF inv m(1)] by (auto simp: bar_inv_def)
    then have "bar_inv n (Suc e) (run (barrier_step (int n)) [m, m] s)" using opens m(1) s(1) by simp
    then show ?thesis using m(1) by (intro exI [of _ "[m, m]"]) simp
  next
    case 2
    then have "bar_inv n (Suc e) (run (barrier_step (int n)) [m] s)" using opens [OF inv m(1)] by simp
    then show ?thesis using m(1) by (intro exI [of _ "[m]"]) simp
  qed
qed

lemma bar_completes:
  assumes inv: "bar_inv n e s" and n: "0 < n" and k: "\<forall>t<n. arrived s t = k"
  shows "\<exists>us. set us \<subseteq> {..<n} \<and> length us \<le> n + 2 \<and> (\<forall>t<n. left (run (barrier_step (int n)) us s) t = k)"
proof -
  have "bar_thread e 0 s" using inv n by (simp add: bar_inv_def)
  then have "k = e \<or> k = Suc e" using bar_thread_bounds(2,3) [of e 0 s] k n by fastforce
  then show ?thesis
  proof
    assume "k = e"
    then show ?thesis using bar_drains [OF inv] trans_le_add1 by blast
  next
    assume "k = Suc e"
    then have "present n e s = {..<n}" using k by (auto simp: present_def)
    then obtain us where us: "set us \<subseteq> {..<n}" "length us \<le> 2" "bar_inv n (Suc e) (run (barrier_step (int n)) us s)"
      using bar_opens [OF inv _ n] by blast
    obtain vs where vs: "set vs \<subseteq> {..<n}" "length vs \<le> n"
        "\<forall>t<n. left (run (barrier_step (int n)) vs (run (barrier_step (int n)) us s)) t = Suc e"
      using bar_drains [OF us(3)] by blast
    then show ?thesis using us \<open>k = Suc e\<close> by (intro exI [of _ "us @ vs"]) simp
  qed
qed

end
