(* ===== verification/Sync_Threads.thy ===== *)
theory Sync_Threads
  imports Sync_Model
begin

text \<open>
  The semaphore of libapp/sesc_locks.c, and the table of threads of libapp/sesc_thread.c, which maps
  the number that the host gives a thread to a slot. An operation of the table holds \<open>hash_lock\<close>
  while it changes it, so it is one step here; the mutex of a slot and the parameters of
  \<open>sesc_spawn\<close> that the slot also holds are left out.
\<close>

subsection \<open>Semaphore\<close>

datatype sema_pc = P_idle | P_test int | P_dec

text \<open>\<open>passed\<close> counts the returns of \<open>sesc_psema\<close>, \<open>raised\<close> the calls of \<open>sesc_vsema\<close>.\<close>

record sema_sys =
  s_count :: int
  spc :: "nat \<Rightarrow> sema_pc"
  passed :: "nat \<Rightarrow> nat"
  raised :: nat

definition sesc_sema_init :: "int \<Rightarrow> sema_sys" where
  "sesc_sema_init initValue = \<lparr>s_count = initValue, spc = \<lambda>_. P_idle, passed = \<lambda>_. 0, raised = 0\<rparr>"

definition psema_step :: "nat \<Rightarrow> sema_sys \<Rightarrow> sema_sys" where
  "psema_step t s =
     (case spc s t of
        P_idle \<Rightarrow> s\<lparr>spc := (spc s)(t := P_test 0)\<rparr>
      | P_test i \<Rightarrow> s\<lparr>spc := (spc s)(t := if s_count s \<le> 0 then P_test (backoff i) else P_dec)\<rparr>
      | P_dec \<Rightarrow>
          let (old, new) = sesc_fetch_op FetchDecOp (s_count s) 0
          in s\<lparr>s_count := new, spc := (spc s)(t := P_idle), passed := (passed s)(t := Suc (passed s t))\<rparr>)"

definition sesc_vsema :: "sema_sys \<Rightarrow> sema_sys" where
  "sesc_vsema s = (let (old, new) = sesc_fetch_op FetchIncOp (s_count s) 0 in s\<lparr>s_count := new, raised := Suc (raised s)\<rparr>)"

datatype sema_event = P nat | V

fun sema_step :: "sema_event \<Rightarrow> sema_sys \<Rightarrow> sema_sys" where
  "sema_step (P t) s = psema_step t s"
| "sema_step V s = sesc_vsema s"

text \<open>One consumer: it only decrements a positive count.\<close>

definition sema_inv :: "int \<Rightarrow> sema_sys \<Rightarrow> bool" where
  "sema_inv v s = (0 \<le> s_count s \<and> (spc s 0 = P_dec \<longrightarrow> 0 < s_count s) \<and>
     s_count s = v + int (raised s) - int (passed s 0))"

interpretation sm: invariant_steps sema_step "\<lambda>ev. ev = P 0 \<or> ev = V" "sema_inv v" for v
proof unfold_locales
  fix s ev
  assume "sema_inv v s" "ev = P 0 \<or> ev = V"
  then show "sema_inv v (sema_step ev s)"
    by (cases "spc s 0") (auto simp: sema_inv_def psema_step_def sesc_vsema_def split: if_splits)
qed

text \<open>Two consumers: the test and the decrement are two accesses.\<close>

lemma sema_two_pass:
  defines "s \<equiv> run sema_step [P 0, P 1, P 0, P 1, P 0, P 1] (sesc_sema_init 1)"
  shows "s_count s = - 1" "passed s 0 = 1" "passed s 1 = 1" "raised s = 0"
  by (simp_all add: s_def sesc_sema_init_def psema_step_def)

subsection \<open>Table of threads\<close>

record TableField =
  tinUse :: bool
  doWait :: bool
  doKill :: bool
  nWaiting :: int
  nPid :: int
  iPid :: int

definition TABLESIZE :: nat where
  "TABLESIZE = 2 * (2 * 1023) - 1"

text \<open>\<open>x % SESC_TABLESIZE\<close> in C; the result is negative for negative \<open>x\<close>.\<close>

definition table_hash :: "int \<Rightarrow> int \<Rightarrow> int" where
  "table_hash sz x = (if 0 \<le> x then x mod sz else - ((- x) mod sz))"

text \<open>The loops take the size of the table from the list. \<open>None\<close> of the outer option is an access out of bounds.\<close>

fun find_loop :: "nat \<Rightarrow> TableField list \<Rightarrow> int \<Rightarrow> int \<Rightarrow> nat option option" where
  "find_loop 0 table nPid0 pos = Some None"
| "find_loop (Suc k) table nPid0 pos = do {
     f \<leftarrow> arr_get table pos;
     if nPid f = nPid0 \<and> tinUse f then Some (Some (nat pos))
     else find_loop k table nPid0 ((pos + 1) mod int (length table)) }"

definition TableFindEntry :: "TableField list \<Rightarrow> int \<Rightarrow> nat option option" where
  "TableFindEntry table nPid0 = find_loop (length table) table nPid0 (table_hash (int (length table)) nPid0)"

partial_function (option) new_loop :: "TableField list \<Rightarrow> int \<Rightarrow> int option" where
  "new_loop table pos =
     (case arr_get table pos of
        None \<Rightarrow> None
      | Some f \<Rightarrow> if tinUse f then new_loop table ((pos + 1) mod int (length table)) else Some pos)"

definition TableNewEntry :: "TableField list \<Rightarrow> int \<Rightarrow> (nat \<times> TableField list) option" where
  "TableNewEntry table nPid0 = do {
     pos \<leftarrow> new_loop table (table_hash (int (length table)) nPid0);
     table' \<leftarrow> arr_set table pos \<lparr>tinUse = True, doWait = False, doKill = False, nWaiting = 0, nPid = nPid0, iPid = pos\<rparr>;
     Some (nat pos, table') }"

definition TableFreeEntry :: "nat \<Rightarrow> TableField list \<Rightarrow> TableField list option" where
  "TableFreeEntry tf table = do {
     f \<leftarrow> arr_get table (int tf);
     arr_set table (int tf) (f\<lparr>tinUse := False\<rparr>) }"

definition sesc_init_table :: "TableField list \<Rightarrow> TableField list" where
  "sesc_init_table table = map (\<lambda>f. f\<lparr>tinUse := False\<rparr>) table"

subsection \<open>The table as a map\<close>

text \<open>No number is in use twice.\<close>

definition table_ok :: "TableField list \<Rightarrow> bool" where
  "table_ok table = (0 < length table \<and>
     (\<forall>i<length table. \<forall>j<length table. tinUse (table ! i) \<longrightarrow> tinUse (table ! j) \<longrightarrow>
        nPid (table ! i) = nPid (table ! j) \<longrightarrow> i = j))"

definition slot_of_pid :: "TableField list \<Rightarrow> int \<Rightarrow> nat \<Rightarrow> bool" where
  "slot_of_pid table p i = (i < length table \<and> tinUse (table ! i) \<and> nPid (table ! i) = p)"

lemma table_hash_range: "0 < sz \<Longrightarrow> 0 \<le> p \<Longrightarrow> 0 \<le> table_hash sz p \<and> table_hash sz p < sz"
  by (simp add: table_hash_def)

lemma ring_next: "(int pos + 1) mod int n = int ((pos + 1) mod n)"
  by (simp add: zmod_int add.commute)

lemma find_loop_spec:
  assumes "0 < length table" "pos < length table"
  shows "\<exists>r. find_loop k table p (int pos) = Some r \<and>
    (case r of None \<Rightarrow> \<forall>d<k. \<not> slot_of_pid table p ((pos + d) mod length table) | Some i \<Rightarrow> slot_of_pid table p i)"
  using assms(2)
proof (induction k arbitrary: pos)
  case (Suc k)
  let ?pos' = "(pos + 1) mod length table"
  have pos': "(int pos + 1) mod int (length table) = int ?pos'" by (rule ring_next)
  show ?case
  proof (cases "slot_of_pid table p pos")
    case True
    then show ?thesis using Suc.prems by (simp add: slot_of_pid_def)
  next
    case False
    obtain r where r: "find_loop k table p (int ?pos') = Some r"
        "case r of None \<Rightarrow> \<forall>d<k. \<not> slot_of_pid table p ((?pos' + d) mod length table) | Some i \<Rightarrow> slot_of_pid table p i"
      using Suc.IH [of ?pos'] assms(1) by auto
    have "\<not> slot_of_pid table p ((pos + d) mod length table)" if "r = None" "d < Suc k" for d
    proof (cases d)
      case 0
      then show ?thesis using False Suc.prems by simp
    next
      case (Suc e)
      then have "\<not> slot_of_pid table p ((?pos' + e) mod length table)" using r(2) that by simp
      then show ?thesis using Suc by (simp add: mod_simps)
    qed
    moreover have "find_loop (Suc k) table p (int pos) = Some r"
      using False Suc.prems r(1) pos' by (auto simp: slot_of_pid_def)
    ultimately show ?thesis using r(2) by (intro exI [of _ r]) (simp split: option.splits)
  qed
qed simp

lemma ring_reaches:
  assumes "i < (n::nat)" "pos < n"
  shows "\<exists>d<n. (pos + d) mod n = i"
proof (cases "pos \<le> i")
  case True
  then show ?thesis using assms by (intro exI [of _ "i - pos"]) simp
next
  case False
  then have "(pos + (n - pos + i)) mod n = i" using assms by simp
  moreover have "n - pos + i < n" using False assms by simp
  ultimately show ?thesis by blast
qed

lemma TableFindEntry_spec:
  assumes ok: "table_ok table" and p: "0 \<le> p"
  shows "\<exists>r. TableFindEntry table p = Some r \<and> (\<forall>i. r = Some i \<longleftrightarrow> slot_of_pid table p i)"
proof -
  have n: "0 < length table" using ok by (simp add: table_ok_def)
  define pos where "pos = nat (table_hash (int (length table)) p)"
  have pos: "pos < length table" "table_hash (int (length table)) p = int pos"
    using table_hash_range [of "int (length table)" p] n p by (auto simp: pos_def)
  obtain r where r: "find_loop (length table) table p (int pos) = Some r"
    "case r of None \<Rightarrow> \<forall>d<length table. \<not> slot_of_pid table p ((pos + d) mod length table) | Some i \<Rightarrow> slot_of_pid table p i"
    using find_loop_spec [OF n pos(1)] by blast
  have "r = Some i" if s: "slot_of_pid table p i" for i
  proof (cases r)
    case None
    then show ?thesis using r(2) s ring_reaches [OF _ pos(1), of i] by (auto simp: slot_of_pid_def)
  next
    case (Some j)
    then have "slot_of_pid table p j" using r(2) by simp
    then have "i = j" using s ok by (auto simp: slot_of_pid_def table_ok_def)
    then show ?thesis using Some by simp
  qed
  moreover have "slot_of_pid table p i" if "r = Some i" for i using r(2) that by simp
  ultimately have "\<forall>i. r = Some i \<longleftrightarrow> slot_of_pid table p i" by blast
  then show ?thesis using r(1) pos(2) by (intro exI [of _ r]) (simp add: TableFindEntry_def)
qed

lemma new_loop_finds:
  assumes n: "0 < length table"
  shows "pos < length table \<Longrightarrow> \<not> tinUse (table ! ((pos + d) mod length table)) \<Longrightarrow>
    \<exists>i<length table. \<not> tinUse (table ! i) \<and> new_loop table (int pos) = Some (int i)"
proof (induction d arbitrary: pos)
  case 0
  then show ?case by (intro exI [of _ pos]) (simp add: new_loop.simps)
next
  case (Suc d)
  let ?pos' = "(pos + 1) mod length table"
  show ?case
  proof (cases "tinUse (table ! pos)")
    case False
    then show ?thesis using Suc.prems(1) by (intro exI [of _ pos]) (simp add: new_loop.simps)
  next
    case True
    have "\<not> tinUse (table ! ((?pos' + d) mod length table))" using Suc.prems(2) by (simp add: mod_simps)
    then obtain i where "i < length table" "\<not> tinUse (table ! i)" "new_loop table (int ?pos') = Some (int i)"
      using Suc.IH [of ?pos'] n by auto
    moreover have "new_loop table (int pos) = new_loop table (int ?pos')"
      using True Suc.prems(1) ring_next [of pos "length table"] by (subst new_loop.simps) simp
    ultimately show ?thesis by auto
  qed
qed

lemma new_loop_full:
  assumes "\<forall>i<length table. tinUse (table ! i)" "new_loop table pos = Some r"
  shows "\<not> (0 \<le> pos \<and> pos < int (length table))"
proof -
  have "(\<forall>i<length table. tinUse (table ! i)) \<longrightarrow> \<not> (0 \<le> pos \<and> pos < int (length table))"
  proof (rule new_loop.raw_induct [OF _ assms(2), where P = "\<lambda>table pos r.
      (\<forall>i<length table. tinUse (table ! i)) \<longrightarrow> \<not> (0 \<le> pos \<and> pos < int (length table))"])
    fix new_loop' :: "TableField list \<Rightarrow> int \<Rightarrow> int option" and table :: "TableField list" and pos y
    assume IH: "\<And>table pos y. new_loop' table pos = Some y \<Longrightarrow>
        (\<forall>i<length table. tinUse (table ! i)) \<longrightarrow> \<not> (0 \<le> pos \<and> pos < int (length table))"
      and step: "(case arr_get table pos of None \<Rightarrow> None
        | Some f \<Rightarrow> if tinUse f then new_loop' table ((pos + 1) mod int (length table)) else Some pos) = Some y"
    show "(\<forall>i<length table. tinUse (table ! i)) \<longrightarrow> \<not> (0 \<le> pos \<and> pos < int (length table))"
    proof (intro impI notI)
      assume full: "\<forall>i<length table. tinUse (table ! i)" and pos: "0 \<le> pos \<and> pos < int (length table)"
      then have "new_loop' table ((pos + 1) mod int (length table)) = Some y"
        using step by (auto simp: arr_get_def split: if_splits)
      then have "\<not> (0 \<le> (pos + 1) mod int (length table) \<and> (pos + 1) mod int (length table) < int (length table))"
        using IH full by blast
      moreover have "0 < int (length table)" using pos by linarith
      ultimately show False by simp
    qed
  qed
  then show ?thesis using assms(1) by blast
qed

lemma TableNewEntry_spec:
  assumes n: "0 < length table" and p: "0 \<le> p"
  shows "TableNewEntry table p = None \<longleftrightarrow> (\<forall>i<length table. tinUse (table ! i))"
    and "TableNewEntry table p = Some (i, table') \<Longrightarrow> i < length table \<and> \<not> tinUse (table ! i) \<and>
      table' = table[i := \<lparr>tinUse = True, doWait = False, doKill = False, nWaiting = 0, nPid = p, iPid = int i\<rparr>]"
proof -
  define pos where "pos = nat (table_hash (int (length table)) p)"
  have pos: "pos < length table" "table_hash (int (length table)) p = int pos"
    using table_hash_range [of "int (length table)" p] n p by (auto simp: pos_def)
  have some: "\<exists>i<length table. \<not> tinUse (table ! i) \<and> TableNewEntry table p =
      Some (i, table[i := \<lparr>tinUse = True, doWait = False, doKill = False, nWaiting = 0, nPid = p, iPid = int i\<rparr>])"
    if "\<exists>j<length table. \<not> tinUse (table ! j)"
  proof -
    from that obtain j where j: "j < length table" "\<not> tinUse (table ! j)" by blast
    obtain d where "(pos + d) mod length table = j" using ring_reaches [OF j(1) pos(1)] by blast
    then have "\<not> tinUse (table ! ((pos + d) mod length table))" using j(2) by simp
    then obtain i where "i < length table" "\<not> tinUse (table ! i)" "new_loop table (int pos) = Some (int i)"
      using new_loop_finds [OF n pos(1)] by blast
    then show ?thesis by (intro exI [of _ i]) (simp add: TableNewEntry_def pos(2))
  qed
  have none: "TableNewEntry table p = None" if full: "\<forall>i<length table. tinUse (table ! i)"
  proof -
    have "new_loop table (int pos) = None"
      using new_loop_full [OF full, of "int pos"] pos(1) by (cases "new_loop table (int pos)") auto
    then show ?thesis by (simp add: TableNewEntry_def pos(2))
  qed
  show "TableNewEntry table p = None \<longleftrightarrow> (\<forall>i<length table. tinUse (table ! i))"
    using none by (cases "\<exists>j<length table. \<not> tinUse (table ! j)") (use some in fastforce)+
  show "TableNewEntry table p = Some (i, table') \<Longrightarrow> i < length table \<and> \<not> tinUse (table ! i) \<and>
      table' = table[i := \<lparr>tinUse = True, doWait = False, doKill = False, nWaiting = 0, nPid = p, iPid = int i\<rparr>]"
    using none by (cases "\<exists>j<length table. \<not> tinUse (table ! j)") (use some in fastforce)+
qed

text \<open>A number that is not in use yet is added; no other number is affected.\<close>

lemma table_new_ok:
  assumes ok: "table_ok table" and p: "0 \<le> p" and fresh: "\<forall>j. \<not> slot_of_pid table p j"
    and new: "TableNewEntry table p = Some (i, table')"
  shows "table_ok table'" "slot_of_pid table' q j \<longleftrightarrow> (if q = p then j = i else slot_of_pid table q j)"
proof -
  have n: "0 < length table" using ok by (simp add: table_ok_def)
  note N = TableNewEntry_spec(2) [OF n p new]
  have x: "\<forall>k<length table. tinUse (table ! k) \<longrightarrow> nPid (table ! k) \<noteq> p" using fresh by (simp add: slot_of_pid_def)
  show "table_ok table'" using ok x N by (auto simp: table_ok_def nth_list_update)
  show "slot_of_pid table' q j \<longleftrightarrow> (if q = p then j = i else slot_of_pid table q j)"
    using x N by (auto simp: slot_of_pid_def nth_list_update)
qed

lemma table_free_ok:
  assumes ok: "table_ok table" and i: "slot_of_pid table p i"
  shows "\<exists>table'. TableFreeEntry i table = Some table' \<and> table_ok table' \<and>
    (\<forall>q j. slot_of_pid table' q j \<longleftrightarrow> q \<noteq> p \<and> slot_of_pid table q j)"
proof -
  have il: "i < length table" "tinUse (table ! i)" "nPid (table ! i) = p" using i by (simp_all add: slot_of_pid_def)
  let ?t = "table[i := (table ! i)\<lparr>tinUse := False\<rparr>]"
  have "TableFreeEntry i table = Some ?t" using il by (simp add: TableFreeEntry_def)
  moreover have "table_ok ?t" using ok il(1) by (auto simp: table_ok_def nth_list_update split: if_splits)
  moreover have "\<forall>q j. slot_of_pid ?t q j \<longleftrightarrow> q \<noteq> p \<and> slot_of_pid table q j"
    using il ok by (auto simp: slot_of_pid_def nth_list_update table_ok_def)
  ultimately show ?thesis by blast
qed

text \<open>A negative number, unless it is a multiple of the size, is looked for out of bounds.\<close>

lemma TableFindEntry_negative:
  assumes "0 < length table" "p < 0" "(- p) mod int (length table) \<noteq> 0"
  shows "TableFindEntry table p = None"
proof -
  have "0 \<le> (- p) mod int (length table)" using assms(1) by simp
  then have "table_hash (int (length table)) p < 0" using assms(2,3) by (simp add: table_hash_def)
  then show ?thesis using assms(1) by (cases "length table") (simp_all add: TableFindEntry_def arr_get_def)
qed

end
