(* ===== verification/Sync_Properties.thy ===== *)
theory Sync_Properties
  imports Sync_Barrier Sync_Threads
begin

text \<open>The properties of the application library, with their witnesses.\<close>

text \<open>C19: The spin lock, for any number of threads and any interleaving: at most one thread is
between \<open>sesc_lock\<close> and \<open>sesc_unlock\<close>, the lock word is \<open>LOCKED\<close> exactly when one is, and
the lock cannot get stuck: as soon as a waiting thread has made two more steps, some thread
holds the lock or has held it in between.\<close>

theorem spin_lock_excludes:
  "(lpc (run lock_step ts sesc_lock_init) t = Inside \<longrightarrow> lpc (run lock_step ts sesc_lock_init) u = Inside \<longrightarrow> t = u) \<and>
   (spin (run lock_step ts sesc_lock_init) = LOCKED \<longleftrightarrow> (\<exists>v. lpc (run lock_step ts sesc_lock_init) v = Inside)) \<and>
   (waits_for_lock t (run lock_step ts sesc_lock_init) \<longrightarrow> 2 \<le> count_list us t \<longrightarrow>
     (\<exists>n\<le>length us. \<exists>v. lpc (run lock_step (ts @ take n us) sesc_lock_init) v = Inside))"
proof -
  let ?s = "run lock_step ts sesc_lock_init"
  have inv: "lock_inv ?s" using lk.run_inv [OF lock_inv_init] by simp
  then have "lpc ?s t = Inside \<longrightarrow> lpc ?s u = Inside \<longrightarrow> t = u" "spin ?s = LOCKED \<longleftrightarrow> (\<exists>v. lpc ?s v = Inside)"
    by (auto simp: lock_inv_def inside_def set_eq_iff LOCKED_def UNLOCKED_def)
  moreover have "\<exists>n\<le>length us. \<exists>v. lpc (run lock_step (ts @ take n us) sesc_lock_init) v = Inside"
    if "waits_for_lock t ?s" "2 \<le> count_list us t"
    using lock_enters [OF inv that] by (auto simp: inside_def)
  ultimately show ?thesis by blast
qed

theorem spin_lock_excludes_witness:
  "lpc (run lock_step [0, 1, 0, 1, 1] sesc_lock_init) 0 = Inside \<and> waits_for_lock 1 (run lock_step [0, 1, 0, 1, 1] sesc_lock_init) \<and>
   (\<exists>n\<le>length [0 :: nat, 1, 1]. \<exists>v. lpc (run lock_step ([0, 1, 0, 1, 1] @ take n [0, 1, 1]) sesc_lock_init) v = Inside)"
proof -
  have a: "lpc (run lock_step [0, 1, 0, 1, 1] sesc_lock_init) 0 = Inside" "waits_for_lock 1 (run lock_step [0, 1, 0, 1, 1] sesc_lock_init)"
    by (simp_all add: sesc_lock_init_def lock_step_def waits_for_lock_def LOCKED_def UNLOCKED_def)
  have "2 \<le> count_list [0, 1, 1] (1 :: nat)" by simp
  then show ?thesis using a spin_lock_excludes [of "[0, 1, 0, 1, 1]" 1 1 "[0, 1, 1]"] by blast
qed

text \<open>C11: The two phase barrier, for \<open>n\<close> threads that call it again and again in any interleaving: no
thread returns from its k-th call before all threads have made their k-th call, no thread is more
than one call ahead, and the barrier cannot get stuck: when all threads have arrived as often, at
most \<open>n + 2\<close> further steps let all of them return.\<close>

theorem barrier_separates_rounds:
  assumes "0 < n" "set ts \<subseteq> {..<n}"
  shows "(\<forall>t<n. \<forall>u<n. left (run (barrier_step (int n)) ts sesc_barrier_init) t
        \<le> arrived (run (barrier_step (int n)) ts sesc_barrier_init) u) \<and>
    (\<forall>t<n. arrived (run (barrier_step (int n)) ts sesc_barrier_init) t
        \<le> left (run (barrier_step (int n)) ts sesc_barrier_init) t + 1) \<and>
    (\<forall>k. (\<forall>t<n. arrived (run (barrier_step (int n)) ts sesc_barrier_init) t = k) \<longrightarrow>
      (\<exists>us. set us \<subseteq> {..<n} \<and> length us \<le> n + 2 \<and>
        (\<forall>t<n. left (run (barrier_step (int n)) (ts @ us) sesc_barrier_init) t = k)))"
proof -
  let ?s = "run (barrier_step (int n)) ts sesc_barrier_init"
  obtain e where e: "bar_inv n e ?s"
    using br.run_inv [of n sesc_barrier_init ts] bar_inv_init [OF assms(1)] assms(2) by auto
  then have th: "\<And>t. t < n \<Longrightarrow> bar_thread e t ?s" by (simp add: bar_inv_def)
  note B = bar_thread_bounds [OF th]
  have "left ?s t \<le> arrived ?s u" if "t < n" "u < n" for t u
    using B(1) [OF that(1)] B(2) [OF that(2)] by simp
  moreover have "arrived ?s t \<le> left ?s t + 1" if "t < n" for t using B(5) [OF that] by simp
  ultimately show ?thesis using bar_completes [OF e assms(1)] by simp
qed

theorem barrier_separates_rounds_witness:
  "\<exists>us. length us \<le> 4 \<and>
    left (run (barrier_step 2) ([0, 0, 1, 1] @ us) sesc_barrier_init) 0 = 1 \<and>
    left (run (barrier_step 2) ([0, 0, 1, 1] @ us) sesc_barrier_init) 1 = 1"
proof -
  have a: "\<forall>t<2. arrived (run (barrier_step (int 2)) [0, 0, 1, 1] sesc_barrier_init) t = 1"
    by (simp add: sesc_barrier_init_def barrier_step_def bar_goto_def less_2_cases_iff)
  have "0 < (2 :: nat)" "set [0, 0, 1, 1] \<subseteq> {..<2 :: nat}" by auto
  from barrier_separates_rounds [OF this] a
  obtain us where "length us \<le> 4" "\<forall>t<2. left (run (barrier_step (int 2)) ([0, 0, 1, 1] @ us) sesc_barrier_init) t = 1"
    by auto
  then show ?thesis by (intro exI [of _ us]) auto
qed

text \<open>C40: The semaphore is right for one consumer only. If a single thread calls \<open>sesc_psema\<close>, the
count never becomes negative, whatever the producers do. The test of the count and its decrement
are two accesses, so with two consumers both can pass on a single unit, and the count becomes
negative.\<close>

theorem semaphore_one_consumer:
  "(0 \<le> v \<and> set evs \<subseteq> {P 0, V} \<longrightarrow>
     0 \<le> s_count (run sema_step evs (sesc_sema_init v)) \<and>
     s_count (run sema_step evs (sesc_sema_init v)) = v + int (raised (run sema_step evs (sesc_sema_init v))) -
       int (passed (run sema_step evs (sesc_sema_init v)) 0)) \<and>
   (\<exists>evs. set evs \<subseteq> {P 0, P 1} \<and> s_count (run sema_step evs (sesc_sema_init 1)) = - 1 \<and>
     passed (run sema_step evs (sesc_sema_init 1)) 0 = 1 \<and> passed (run sema_step evs (sesc_sema_init 1)) 1 = 1)"
proof -
  have "sema_inv v (run sema_step evs (sesc_sema_init v))" if "0 \<le> v \<and> set evs \<subseteq> {P 0, V}"
    using that by (intro sm.run_inv) (auto simp: sema_inv_def sesc_sema_init_def)
  then show ?thesis using sema_two_pass by (auto simp: sema_inv_def intro!: exI [of _ "[P 0, P 1, P 0, P 1, P 0, P 1]"])
qed

theorem semaphore_one_consumer_witness:
  "passed (run sema_step [P 0, P 0, V, P 0, P 0] (sesc_sema_init 0)) 0 = 1 \<and>
   0 \<le> s_count (run sema_step [P 0, P 0, V, P 0, P 0] (sesc_sema_init 0))"
proof -
  have "passed (run sema_step [P 0, P 0, V, P 0, P 0] (sesc_sema_init 0)) 0 = 1"
    by (simp add: sesc_sema_init_def psema_step_def sesc_vsema_def)
  then show ?thesis using semaphore_one_consumer [of 0 "[P 0, P 0, V, P 0, P 0]"] by simp
qed

text \<open>C20: The table of threads is a map from thread numbers to slots. For a number that is not negative,
\<open>TableFindEntry\<close> returns its slot, or null when it has none; \<open>TableNewEntry\<close> gives a free slot to
a new number and leaves the others where they are, and it never returns exactly when the table is
full; \<open>TableFreeEntry\<close> takes one number out. For a negative number (the number of a thread is cast
to \<open>int\<close>) that is not a multiple of the size of the table the lookup starts in front of the table.\<close>

theorem thread_table_is_map:
  assumes "table_ok table" "0 \<le> p"
  shows "(\<exists>r. TableFindEntry table p = Some r \<and> (\<forall>i. r = Some i \<longleftrightarrow> slot_of_pid table p i)) \<and>
    (TableNewEntry table p = None \<longleftrightarrow> (\<forall>i<length table. tinUse (table ! i))) \<and>
    (\<forall>i table'. (\<forall>j. \<not> slot_of_pid table p j) \<longrightarrow> TableNewEntry table p = Some (i, table') \<longrightarrow> table_ok table' \<and>
      (\<forall>q j. slot_of_pid table' q j \<longleftrightarrow> (if q = p then j = i else slot_of_pid table q j))) \<and>
    (\<forall>i. slot_of_pid table p i \<longrightarrow> (\<exists>table'. TableFreeEntry i table = Some table' \<and> table_ok table' \<and>
      (\<forall>q j. slot_of_pid table' q j \<longleftrightarrow> q \<noteq> p \<and> slot_of_pid table q j))) \<and>
    (\<forall>q<0. (- q) mod int (length table) \<noteq> 0 \<longrightarrow> TableFindEntry table q = None)"
proof -
  have n: "0 < length table" using assms(1) by (simp add: table_ok_def)
  show ?thesis
    using TableFindEntry_spec [OF assms] TableNewEntry_spec(1) [OF n assms(2)] table_new_ok [OF assms]
      table_free_ok [OF assms(1)] TableFindEntry_negative [OF n] by blast
qed

theorem thread_table_is_map_witness:
  "\<exists>t1 t2. TableNewEntry (replicate 3 \<lparr>tinUse = False, doWait = False, doKill = False, nWaiting = 0, nPid = 0, iPid = 0\<rparr>) 7 = Some (1, t1) \<and>
    TableNewEntry t1 10 = Some (2, t2) \<and> TableFindEntry t2 10 = Some (Some 2) \<and> TableFindEntry t2 (- 1) = None"
proof -
  let ?e = "\<lparr>tinUse = False, doWait = False, doKill = False, nWaiting = 0, nPid = 0, iPid = 0\<rparr>"
  let ?f = "\<lambda>p i. \<lparr>tinUse = True, doWait = False, doKill = False, nWaiting = 0, nPid = p, iPid = i\<rparr>"
  have ok: "table_ok [?e, ?f 7 1, ?f 10 2]" by (auto simp: table_ok_def nth_Cons less_Suc_eq)
  have 1: "TableNewEntry (replicate 3 ?e) 7 = Some (1, [?e, ?f 7 1, ?e])" "TableNewEntry [?e, ?f 7 1, ?e] 10 = Some (2, [?e, ?f 7 1, ?f 10 2])"
    by (simp_all add: TableNewEntry_def table_hash_def new_loop.simps arr_get_def arr_set_def numeral_3_eq_3 numeral_2_eq_2)
  note T = thread_table_is_map [OF ok, of 10]
  have s: "slot_of_pid [?e, ?f 7 1, ?f 10 2] 10 2" by (simp add: slot_of_pid_def)
  then have "TableFindEntry [?e, ?f 7 1, ?f 10 2] 10 = Some (Some 2)" using T by auto
  moreover have "TableFindEntry [?e, ?f 7 1, ?f 10 2] (- 1) = None" using T by simp
  ultimately show ?thesis using 1 by blast
qed

end
