(* ===== verification/Core_Data.thy ===== *)
theory Core_Data
  imports Branch_Model Port_Correct
begin

text \<open>
  The data of the out-of-order core and its smaller parts: dynamic instructions (libcore/DInst.h
  and DInst.cpp) with their intrusive lists of dependents, the load/store buffer
  (LDSTBuffer.cpp) and the load/store queue (LDSTQ.cpp). The build is the plain one, without
  \<open>TASKSCALAR\<close>, \<open>TLS\<close>, \<open>SESC_MISPATH\<close>, \<open>SESC_INORDER\<close>, \<open>DOREPLAY\<close>, \<open>LDSTQ_FWD\<close> and
  \<open>BPRED_UPDATE_RETIRE\<close>.

  The objects of the class \<open>DInst\<close> are numbered. \<open>live\<close> holds those that are out of the pool;
  the others keep their contents, as in the code, but an access to one is \<open>None\<close>. An
  instruction has two nodes, \<open>pend[0]\<close> and \<open>pend[1]\<close>, which are the elements of the lists of
  dependents of other instructions.
\<close>

subsection \<open>Instructions\<close>

datatype EventType = NoEvent | PreEvent | PostEvent | FetchOpEvent | MemFenceEvent | AcquireEvent
  | ReleaseEvent | UnlockEvent | FastSimBeginEvent | FastSimEndEvent | LibCallEvent | FakeInst

record instr = instruction +
  getSrc1 :: nat
  getSrc2 :: nat
  getDest :: nat
  getDstPool :: nat
  getEvent :: EventType

definition NoDependence :: nat where "NoDependence = 0"
definition InvalidOutput :: nat where "InvalidOutput = 68"
definition NumArchRegs :: nat where "NumArchRegs = 69"

definition isLoad :: "instr \<Rightarrow> bool" where "isLoad i = (opcode i = iLoad)"
definition isStore :: "instr \<Rightarrow> bool" where "isStore i = (opcode i = iStore)"
definition isFence :: "instr \<Rightarrow> bool" where "isFence i = (opcode i = iFence)"

type_synonym node = "nat \<times> nat"

record dinst =
  d_inst :: instr
  d_vaddr :: nat
  d_cId :: nat
  d_first :: "node option"
  d_last :: "node option"
  nextDep :: "nat \<Rightarrow> node option"
  isUsed :: "nat \<Rightarrow> bool"
  nDeps :: nat
  loadForwarded :: bool
  issued :: bool
  executed :: bool
  depsAtRetire :: bool
  deadStore :: bool
  deadInst :: bool
  resolved :: bool
  wakeUpTime :: nat
  d_resource :: "(nat \<times> InstType) option"
  RATEntry :: "(nat \<times> nat) option"
  pendEvent :: "nat option"
  d_fetch :: "nat option"
  sequenceNum :: int
  coreID :: int

subsection \<open>Cores\<close>

text \<open>The resources of a cluster share their ports by name; \<open>u_gen\<close> is the number of the port.\<close>

record unit_conf =
  u_cluster :: nat
  u_gen :: nat
  u_lat :: nat

datatype recycle = AtIssue | AtExecute | AtRetire

record cluster =
  recycleAt :: recycle
  MaxWinSize :: int
  WakeUpDelay :: nat
  SchedDelay :: nat
  windowSize :: int
  wakeUpPort :: port
  schedPort :: port

datatype StallCause = NoStall | SmallWinStall | SmallROBStall | SmallREGStall | OutsLoadsStall
  | OutsStoresStall | OutsBranchesStall | ReplayStall | PortConflictStall | SwitchStall

text \<open>
  A processor with its functional units and its load/store queue. Above \<open>ROB\<close> are the parameters
  of the configuration. \<open>pipe\<close> holds the buckets that were fetched; \<open>unblocked\<close> counts the calls
  of \<open>FetchEngine::unBlockFetch\<close>; the last three fields are what the data cache answers to
  \<open>canAcceptLoad\<close>, \<open>canAcceptStore\<close> and \<open>getNextFreeCycle\<close>. The queues of fixed capacity are lists
  (\<open>FastQueue\<close> is a queue as long as it is not full).
\<close>

record core =
  FetchWidth :: nat
  IssueWidth :: nat
  RetireWidth :: nat
  InstQueueSize :: nat
  InOrderCore :: bool
  MaxROBSize :: nat
  intRegs :: int
  fpRegs :: int
  InterClusterLat :: nat
  RegFileDelay :: nat
  LSDelay :: nat
  misCommLat :: nat
  units :: "InstType \<Rightarrow> unit_conf"
  ROB :: "nat list"
  replayQ :: "nat list"
  pipe :: "nat list list"
  instQueue :: "nat list list"
  spaceInInstQueue :: int
  RAT :: "nat \<Rightarrow> nat option"
  regPool :: "nat \<Rightarrow> int"
  sequenceCount :: int
  clockTicks :: nat
  clusters :: "nat \<Rightarrow> cluster"
  gens :: "nat \<Rightarrow> port"
  freeLoads :: int
  freeStores :: int
  freeBranches :: int
  pendingFence :: bool
  nOutsStores :: int
  inflightInsts :: "nat set"
  instMap :: "nat \<Rightarrow> nat list option"
  unblocked :: nat
  canAcceptLoad :: "nat \<Rightarrow> bool"
  canAcceptStore :: "nat \<Rightarrow> bool"
  getNextFreeCycle :: nat

text \<open>The callbacks of the core that can be under way.\<close>

datatype cev =
    SelectCB nat                  \<comment> \<open>\<open>DInst::doAtSelect\<close>\<close>
  | SimTimeCB nat                 \<comment> \<open>\<open>DInst::doAtSimTime\<close>\<close>
  | ExecutedCB nat                \<comment> \<open>\<open>DInst::doAtExecuted\<close>\<close>
  | IssuedCB nat InstType nat     \<comment> \<open>\<open>Resource::issued\<close> of a resource of a core\<close>
  | DispatchedCB nat nat          \<comment> \<open>\<open>FULoad::cacheDispatched\<close> of a core\<close>

text \<open>
  \<open>events\<close> are the scheduled callbacks with their times, \<open>memReads\<close> and \<open>memWrites\<close> the
  instructions with a request in the memory system, \<open>called\<close> the event callbacks that have been
  called. \<open>issueNo\<close> and \<open>stamp\<close> number the instructions in the order in which they are issued;
  the code has no such numbers.
\<close>

record world =
  now :: nat
  heap :: "nat \<Rightarrow> dinst"
  live :: "nat set"
  events :: "(nat \<times> cev) multiset"
  memReads :: "nat multiset"
  memWrites :: "nat multiset"
  stores :: "nat \<Rightarrow> nat option"
  fences :: "nat \<Rightarrow> nat option"
  cores :: "nat \<Rightarrow> core"
  validVAddr :: "nat \<Rightarrow> bool"
  InstTable :: "nat \<Rightarrow> instr"
  called :: "nat list"
  issueNo :: nat
  stamp :: "nat \<Rightarrow> nat"

definition deref :: "nat \<Rightarrow> world \<Rightarrow> dinst option" where
  "deref d s = (if d \<in> live s then Some (heap s d) else None)"

definition upd_d :: "nat \<Rightarrow> (dinst \<Rightarrow> dinst) \<Rightarrow> world \<Rightarrow> world" where
  "upd_d d f s = s\<lparr>heap := (heap s)(d := f (heap s d))\<rparr>"

definition upd_c :: "nat \<Rightarrow> (core \<Rightarrow> core) \<Rightarrow> world \<Rightarrow> world" where
  "upd_c p f s = s\<lparr>cores := (cores s)(p := f (cores s p))\<rparr>"

definition upd_cluster :: "nat \<Rightarrow> nat \<Rightarrow> (cluster \<Rightarrow> cluster) \<Rightarrow> world \<Rightarrow> world" where
  "upd_cluster p k f = upd_c p (\<lambda>c. c\<lparr>clusters := (clusters c)(k := f (clusters c k))\<rparr>)"

subsection \<open>Dynamic instructions\<close>

text \<open>\<open>createDInst\<close>: the object \<open>d\<close> comes from the pool.\<close>

definition createDInst :: "nat \<Rightarrow> instr \<Rightarrow> nat \<Rightarrow> nat \<Rightarrow> world \<Rightarrow> world" where
  "createDInst d i va cid s = upd_d d (\<lambda>x. x\<lparr>d_inst := i, d_cId := cid, wakeUpTime := 0, d_vaddr := va,
     d_first := None, sequenceNum := - 1, coreID := - 1, d_resource := None, RATEntry := None,
     pendEvent := None, d_fetch := None, loadForwarded := False, issued := False, executed := False,
     depsAtRetire := False, deadStore := False, resolved := False, deadInst := False,
     isUsed := (isUsed x)(0 := False, 1 := False)\<rparr>) (s\<lparr>live := insert d (live s)\<rparr>)"

definition createInst :: "nat \<Rightarrow> nat \<Rightarrow> nat \<Rightarrow> nat \<Rightarrow> world \<Rightarrow> world" where
  "createInst d pc va cid s = createDInst d (InstTable s pc) va cid s"

definition hasDeps :: "nat \<Rightarrow> world \<Rightarrow> bool option" where
  "hasDeps d s = do {
     x \<leftarrow> deref d s;
     I_check (\<not> isUsed x 0 \<and> \<not> isUsed x 1 \<longrightarrow> nDeps x = 0);
     Some (nDeps x \<noteq> 0) }"

text \<open>\<open>addSrc1\<close>, \<open>addSrc2\<close> and \<open>addFakeSrc\<close> differ in the node only.\<close>

definition addSrc :: "nat \<Rightarrow> nat \<Rightarrow> nat \<Rightarrow> world \<Rightarrow> world option" where
  "addSrc k this d s = do {
     x \<leftarrow> deref d s;
     I_check (nDeps x < 2);
     I_check (\<not> isUsed x k);
     let s1 = upd_d d (\<lambda>x. x\<lparr>nDeps := nDeps x + 1, isUsed := (isUsed x)(k := True)\<rparr>) s;
     t \<leftarrow> deref this s1;
     s2 \<leftarrow> (if d_first t = None then Some (upd_d this (\<lambda>x. x\<lparr>d_first := Some (d, k)\<rparr>) s1)
            else do {
              l \<leftarrow> d_last t;
              e \<leftarrow> deref (fst l) s1;
              Some (upd_d (fst l) (\<lambda>x. x\<lparr>nextDep := (nextDep x)(snd l := Some (d, k))\<rparr>) s1) });
     let s3 = upd_d d (\<lambda>x. x\<lparr>nextDep := (nextDep x)(k := None)\<rparr>) s2;
     Some (upd_d this (\<lambda>x. x\<lparr>d_last := Some (d, k)\<rparr>) s3) }"

definition addSrc1 :: "nat \<Rightarrow> nat \<Rightarrow> world \<Rightarrow> world option" where "addSrc1 = addSrc 0"
definition addSrc2 :: "nat \<Rightarrow> nat \<Rightarrow> world \<Rightarrow> world option" where "addSrc2 = addSrc 1"
definition addFakeSrc :: "nat \<Rightarrow> nat \<Rightarrow> world \<Rightarrow> world option" where "addFakeSrc = addSrc 1"

definition getNextPending :: "nat \<Rightarrow> world \<Rightarrow> (nat \<times> world) option" where
  "getNextPending this s = do {
     t \<leftarrow> deref this s;
     n \<leftarrow> d_first t;
     x \<leftarrow> deref (fst n) s;
     I_check (0 < nDeps x);
     let s1 = upd_d (fst n) (\<lambda>x. x\<lparr>nDeps := nDeps x - 1, isUsed := (isUsed x)(snd n := False)\<rparr>) s;
     let s2 = upd_d this (\<lambda>t. t\<lparr>d_first := nextDep x (snd n)\<rparr>) s1;
     Some (fst n, s2) }"

definition markIssued :: "nat \<Rightarrow> world \<Rightarrow> world option" where
  "markIssued d s = do {
     x \<leftarrow> deref d s;
     I_check (\<not> issued x);
     I_check (\<not> executed x);
     Some (upd_d d (\<lambda>x. x\<lparr>issued := True\<rparr>) (s\<lparr>stamp := (stamp s)(d := issueNo s), issueNo := Suc (issueNo s)\<rparr>)) }"

definition markExecuted :: "nat \<Rightarrow> world \<Rightarrow> world option" where
  "markExecuted d s = do {
     x \<leftarrow> deref d s;
     I_check (issued x);
     I_check (\<not> executed x);
     Some (upd_d d (\<lambda>x. x\<lparr>executed := True\<rparr>) s) }"

definition setDeadStore :: "nat \<Rightarrow> world \<Rightarrow> world option" where
  "setDeadStore d s = do {
     x \<leftarrow> deref d s;
     I_check (\<not> deadStore x);
     I_check (d_first x = None);
     Some (upd_d d (\<lambda>x. x\<lparr>deadStore := True\<rparr>) s) }"

definition setDepsAtRetire :: "nat \<Rightarrow> world \<Rightarrow> world option" where
  "setDepsAtRetire d s = do {
     x \<leftarrow> deref d s;
     I_check (\<not> depsAtRetire x);
     Some (upd_d d (\<lambda>x. x\<lparr>depsAtRetire := True\<rparr>) s) }"

definition clearDepsAtRetire :: "nat \<Rightarrow> world \<Rightarrow> world option" where
  "clearDepsAtRetire d s = do {
     x \<leftarrow> deref d s;
     I_check (depsAtRetire x);
     Some (upd_d d (\<lambda>x. x\<lparr>depsAtRetire := False\<rparr>) s) }"

definition setLoadForwarded :: "nat \<Rightarrow> world \<Rightarrow> world option" where
  "setLoadForwarded d s = do {
     x \<leftarrow> deref d s;
     I_check (\<not> loadForwarded x);
     Some (upd_d d (\<lambda>x. x\<lparr>loadForwarded := True\<rparr>) s) }"

definition scrap :: "nat \<Rightarrow> world \<Rightarrow> world option" where
  "scrap d s = do {
     x \<leftarrow> deref d s;
     I_check (nDeps x = 0);
     I_check (d_first x = None);
     Some (s\<lparr>live := live s - {d}\<rparr>) }"

subsection \<open>Load/store buffer\<close>

definition calcWord :: "dinst \<Rightarrow> nat" where
  "calcWord x = d_vaddr x div 4"

definition getFenceEntry :: "nat \<Rightarrow> world \<Rightarrow> world option" where
  "getFenceEntry d s = do {
     x \<leftarrow> deref d s;
     I_check (isFence (d_inst x));
     Some (s\<lparr>fences := (fences s)(d_cId x \<mapsto> d)\<rparr>) }"

text \<open>The result of \<open>find\<close> is followed without a test.\<close>

definition fenceLocallyPerformed :: "nat \<Rightarrow> world \<Rightarrow> world option" where
  "fenceLocallyPerformed d s = do {
     x \<leftarrow> deref d s;
     e \<leftarrow> fences s (d_cId x);
     Some (if e = d then s\<lparr>fences := (fences s)(d_cId x := None)\<rparr> else s) }"

definition getStoreEntry :: "nat \<Rightarrow> world \<Rightarrow> world option" where
  "getStoreEntry d s = do {
     x \<leftarrow> deref d s;
     I_check (isStore (d_inst x));
     s1 \<leftarrow> (case stores s (calcWord x) of
              None \<Rightarrow> Some s
            | Some q \<Rightarrow> do {
                qo \<leftarrow> deref q s;
                I_check (isStore (d_inst qo));
                if d_first qo = None \<and> d_cId x = d_cId qo then setDeadStore q s else Some s });
     Some (s1\<lparr>stores := (stores s1)(calcWord x \<mapsto> d)\<rparr>) }"

definition getLoadEntry :: "nat \<Rightarrow> world \<Rightarrow> world option" where
  "getLoadEntry d s = do {
     x \<leftarrow> deref d s;
     I_check (isLoad (d_inst x));
     case stores s (calcWord x) of
       None \<Rightarrow> Some s
     | Some q \<Rightarrow> do {
         qo \<leftarrow> deref q s;
         I_check (isStore (d_inst qo));
         if d_cId x \<noteq> d_cId qo then do {
           s1 \<leftarrow> setDepsAtRetire d s;
           I_check (getAddr (d_inst qo) \<noteq> getAddr (d_inst x));
           addFakeSrc q d s1 }
         else do {
           s1 \<leftarrow> setLoadForwarded d s;
           if \<not> executed qo then do {
             I_check (getAddr (d_inst qo) \<noteq> getAddr (d_inst x));
             addFakeSrc q d s1 }
           else Some s1 } } }"

definition storeLocallyPerformed :: "nat \<Rightarrow> world \<Rightarrow> world option" where
  "storeLocallyPerformed d s = do {
     x \<leftarrow> deref d s;
     I_check (isStore (d_inst x));
     Some (if stores s (calcWord x) = Some d then s\<lparr>stores := (stores s)(calcWord x := None)\<rparr> else s) }"

subsection \<open>Load/store queue\<close>

definition lsq_insert :: "nat \<Rightarrow> nat \<Rightarrow> world \<Rightarrow> world option" where
  "lsq_insert p d s = do {
     x \<leftarrow> deref d s;
     let c = cores s p;
     I_check (d \<notin> inflightInsts c);
     let q = (case instMap c (calcWord x) of None \<Rightarrow> [] | Some q \<Rightarrow> q);
     Some (upd_c p (\<lambda>c. c\<lparr>instMap := (instMap c)(calcWord x \<mapsto> q @ [d]),
       inflightInsts := insert d (inflightInsts c)\<rparr>) s) }"

text \<open>
  The loop of \<open>executed\<close>, from the youngest entry of the word to the second oldest; the oldest is
  left out. \<open>replay\<close> returns at once. The result is the flag \<open>doReplay\<close>.
\<close>

fun lsq_scan :: "instr \<Rightarrow> nat \<Rightarrow> nat list \<Rightarrow> bool \<Rightarrow> bool \<Rightarrow> world \<Rightarrow> bool option" where
  "lsq_scan i d [] beforeInst doReplay s = Some doReplay"
| "lsq_scan i d (q # qs) beforeInst doReplay s = do {
     let earlier = beforeInst \<and> q \<noteq> d;
     qo \<leftarrow> deref q s;
     let qi = d_inst qo;
     let r = doReplay \<or> (earlier \<and> resolved qo \<and> (isLoad i \<and> isLoad qi \<or> isStore i \<and> isLoad qi));
     if \<not> earlier \<and> isLoad i \<and> isStore qi \<and> resolved qo then Some r
     else lsq_scan i d qs earlier r s }"

definition lsq_executed :: "nat \<Rightarrow> nat \<Rightarrow> world \<Rightarrow> (bool \<times> world) option" where
  "lsq_executed p d s = do {
     x \<leftarrow> deref d s;
     if deadInst x then Some (False, s)
     else do {
       let c = cores s p;
       I_check (d \<in> inflightInsts c);
       q \<leftarrow> instMap c (calcWord x);
       let s1 = upd_d d (\<lambda>x. x\<lparr>resolved := True\<rparr>) s;
       r \<leftarrow> lsq_scan (d_inst x) d (rev (tl q)) True False s1;
       Some (r, s1) } }"

definition lsq_remove :: "nat \<Rightarrow> nat \<Rightarrow> world \<Rightarrow> world option" where
  "lsq_remove p d s = do {
     x \<leftarrow> deref d s;
     let c = cores s p;
     I_check (d \<in> inflightInsts c);
     q \<leftarrow> instMap c (calcWord x);
     I_check (d \<in> set q);
     let q' = remove1 d q;
     Some (upd_c p (\<lambda>c. c\<lparr>instMap := (instMap c)(calcWord x := if q' = [] then None else Some q'),
       inflightInsts := inflightInsts c - {d}\<rparr>) s) }"

end
