(* ===== verification/Core_Model.thy ===== *)
theory Core_Model
  imports Core_Data
begin

text \<open>
  The out-of-order core of libcore: the scheduling window (DepWindow.cpp), the clusters
  (Cluster.cpp), the functional units (Resource.cpp), and the processor (GProcessor.cpp and
  Processor.cpp), for any number of processors that share the load/store buffer.

  A callback whose time is the current cycle is called at once, inside the operation that
  schedules it. The operations have a parameter \<open>call\<close> for that, and \<open>run_cb\<close> ties the knot;
  its first argument bounds the depth of nested calls.
\<close>

subsection \<open>Callbacks\<close>

text \<open>\<open>CallbackMember1::scheduleAbs\<close> and \<open>schedule\<close>, on the scheduler of libsuc/callback.h.\<close>

definition cb_at :: "(cev \<Rightarrow> world \<Rightarrow> world option) \<Rightarrow> cev \<Rightarrow> nat \<Rightarrow> world \<Rightarrow> world option" where
  "cb_at call ev t s =
     (if t = now s then call ev s
      else do { I_check (now s < t); Some (s\<lparr>events := add_mset (t, ev) (events s)\<rparr>) })"

definition cb_in :: "(cev \<Rightarrow> world \<Rightarrow> world option) \<Rightarrow> cev \<Rightarrow> nat \<Rightarrow> world \<Rightarrow> world option" where
  "cb_in call ev delta s =
     (if delta = 0 then call ev s
      else Some (s\<lparr>events := add_mset (now s + delta, ev) (events s)\<rparr>))"

text \<open>\<open>StaticCallbackMember0\<close>: the callback is a field of the instruction and must be free.\<close>

definition isFree :: "cev \<Rightarrow> world \<Rightarrow> bool" where
  "isFree ev s = (ev \<notin># image_mset snd (events s))"

definition scb_at :: "(cev \<Rightarrow> world \<Rightarrow> world option) \<Rightarrow> cev \<Rightarrow> nat \<Rightarrow> world \<Rightarrow> world option" where
  "scb_at call ev t s = do { I_check (isFree ev s); cb_at call ev t s }"

definition scb_in :: "(cev \<Rightarrow> world \<Rightarrow> world option) \<Rightarrow> cev \<Rightarrow> nat \<Rightarrow> world \<Rightarrow> world option" where
  "scb_in call ev delta s = do { I_check (isFree ev s); cb_in call ev delta s }"

subsection \<open>Ports\<close>

definition wakeUp_nextSlot :: "nat \<Rightarrow> nat \<Rightarrow> world \<Rightarrow> (nat \<times> world) option" where
  "wakeUp_nextSlot p k s = do {
     (t, q) \<leftarrow> Port_nextSlot (now s) (wakeUpPort (clusters (cores s p) k));
     Some (t, upd_cluster p k (\<lambda>c. c\<lparr>wakeUpPort := q\<rparr>) s) }"

definition sched_nextSlot :: "nat \<Rightarrow> nat \<Rightarrow> world \<Rightarrow> (nat \<times> world) option" where
  "sched_nextSlot p k s = do {
     (t, q) \<leftarrow> Port_nextSlot (now s) (schedPort (clusters (cores s p) k));
     Some (t, upd_cluster p k (\<lambda>c. c\<lparr>schedPort := q\<rparr>) s) }"

definition gen_nextSlot :: "nat \<Rightarrow> InstType \<Rightarrow> world \<Rightarrow> (nat \<times> world) option" where
  "gen_nextSlot p ty s = do {
     let g = u_gen (units (cores s p) ty);
     (t, q) \<leftarrow> Port_nextSlot (now s) (gens (cores s p) g);
     Some (t, upd_c p (\<lambda>c. c\<lparr>gens := (gens c)(g := q)\<rparr>) s) }"

text \<open>\<open>getResource()->getCluster()\<close>\<close>

definition getCluster :: "nat \<times> InstType \<Rightarrow> world \<Rightarrow> nat \<times> nat" where
  "getCluster r s = (fst r, u_cluster (units (cores s (fst r)) (snd r)))"

subsection \<open>Scheduling window\<close>

definition setWakeUpTime :: "nat \<Rightarrow> nat \<Rightarrow> world \<Rightarrow> world" where
  "setWakeUpTime d t = upd_d d (\<lambda>x. x\<lparr>wakeUpTime := t\<rparr>)"

definition DepWindow_select ::
  "(cev \<Rightarrow> world \<Rightarrow> world option) \<Rightarrow> nat \<Rightarrow> nat \<Rightarrow> nat \<Rightarrow> world \<Rightarrow> world option" where
  "DepWindow_select call p k d s = do {
     x \<leftarrow> deref d s;
     I_check (wakeUpTime x = 0);
     (t, s1) \<leftarrow> sched_nextSlot p k s;
     scb_at call (SimTimeCB d) (t + SchedDelay (clusters (cores s1 p) k)) s1 }"

definition preSelect ::
  "(cev \<Rightarrow> world \<Rightarrow> world option) \<Rightarrow> nat \<Rightarrow> nat \<Rightarrow> nat \<Rightarrow> world \<Rightarrow> world option" where
  "preSelect call p k d s = do {
     x \<leftarrow> deref d s;
     I_check (wakeUpTime x \<noteq> 0);
     let wakeTime = wakeUpTime x + RegFileDelay (cores s p);
     let s1 = setWakeUpTime d 0 s;
     if now s1 < wakeTime then scb_at call (SelectCB d) wakeTime s1
     else DepWindow_select call p k d s1 }"

definition DepWindow_addInst ::
  "(cev \<Rightarrow> world \<Rightarrow> world option) \<Rightarrow> nat \<Rightarrow> nat \<Rightarrow> nat \<Rightarrow> world \<Rightarrow> world option" where
  "DepWindow_addInst call p k d s = do {
     x \<leftarrow> deref d s;
     I_check (d_resource x \<noteq> None);
     b \<leftarrow> hasDeps d s;
     if \<not> b then do {
       (t, s1) \<leftarrow> wakeUp_nextSlot p k s;
       preSelect call p k d (setWakeUpTime d (t + WakeUpDelay (clusters (cores s1 p) k)) s1) }
     else Some s }"

partial_function (option) wakeUp_loop ::
  "nat \<times> nat \<Rightarrow> nat \<Rightarrow> node option \<Rightarrow> world \<Rightarrow> world option" where
  "wakeUp_loop srcCluster t it s =
     (case it of
        None \<Rightarrow> Some s
      | Some n \<Rightarrow>
          (case deref (fst n) s of
             None \<Rightarrow> None
           | Some x \<Rightarrow>
               wakeUp_loop srcCluster t (nextDep x (snd n))
                 (case d_resource x of
                    None \<Rightarrow> s
                  | Some r \<Rightarrow> if getCluster r s = srcCluster \<and> wakeUpTime x < t
                              then setWakeUpTime (fst n) t s else s)))"

declare wakeUp_loop.simps [code]

definition DepWindow_wakeUpDeps :: "nat \<Rightarrow> nat \<Rightarrow> nat \<Rightarrow> world \<Rightarrow> world option" where
  "DepWindow_wakeUpDeps p k d s = do {
     b \<leftarrow> hasDeps d s;
     I_check (\<not> b);
     (t, s1) \<leftarrow> wakeUp_nextSlot p k s;
     x \<leftarrow> deref d s1;
     if d_first x = None then Some s1
     else do {
       r \<leftarrow> d_resource x;
       wakeUp_loop (getCluster r s1) (t + WakeUpDelay (clusters (cores s1 p) k)) (d_first x) s1 } }"

text \<open>The cases of the loop of \<open>executed\<close>, after \<open>x\<close> has been taken off the list of \<open>d\<close>.\<close>

definition wake_one ::
  "(cev \<Rightarrow> world \<Rightarrow> world option) \<Rightarrow> nat \<Rightarrow> nat \<Rightarrow> nat \<Rightarrow> nat option \<Rightarrow> nat \<Rightarrow> world \<Rightarrow> (nat option \<times> world) option" where
  "wake_one call p k d stopAtDst x s = do {
     y \<leftarrow> deref d s;
     z \<leftarrow> deref x s;
     if \<not> issued z then do {
       I_check (isStore (d_inst y));
       s1 \<leftarrow> (if depsAtRetire z then clearDepsAtRetire x s else Some s);
       b \<leftarrow> hasDeps x s1;
       I_check (\<not> b);
       Some (stopAtDst, s1) }
     else if executed z then do {
       b \<leftarrow> hasDeps x s;
       s1 \<leftarrow> (if \<not> b then scrap x s else Some s);
       Some (stopAtDst, s1) }
     else if depsAtRetire z \<and> isStore (d_inst y) then do {
       I_check (\<not> isUsed z 1);
       I_check (isLoad (d_inst z));
       s1 \<leftarrow> addFakeSrc d x s;
       Some (if stopAtDst = None then Some x else stopAtDst, s1) }
     else do {
       I_check (depsAtRetire z \<longrightarrow> isUsed z 1);
       b \<leftarrow> hasDeps x s;
       if \<not> b then do {
         I_check (d_resource z \<noteq> None);
         (t, s1) \<leftarrow> wakeUp_nextSlot p k s;
         s2 \<leftarrow> preSelect call p k x (setWakeUpTime x (t + InterClusterLat (cores s1 p)) s1);
         Some (stopAtDst, s2) }
       else Some (stopAtDst, s) } }"

partial_function (option) executed_loop ::
  "(cev \<Rightarrow> world \<Rightarrow> world option) \<Rightarrow> nat \<Rightarrow> nat \<Rightarrow> nat \<Rightarrow> nat option \<Rightarrow> world \<Rightarrow> world option" where
  "executed_loop call p k d stopAtDst s =
     (case deref d s of
        None \<Rightarrow> None
      | Some y \<Rightarrow>
          (case d_first y of
             None \<Rightarrow> Some s
           | Some n \<Rightarrow>
               if stopAtDst = Some (fst n) then Some s
               else (case getNextPending d s of
                       None \<Rightarrow> None
                     | Some (x, s1) \<Rightarrow>
                         (case wake_one call p k d stopAtDst x s1 of
                            None \<Rightarrow> None
                          | Some (stop', s2) \<Rightarrow> executed_loop call p k d stop' s2))))"

declare executed_loop.simps [code]

definition DepWindow_executed ::
  "(cev \<Rightarrow> world \<Rightarrow> world option) \<Rightarrow> nat \<Rightarrow> nat \<Rightarrow> nat \<Rightarrow> world \<Rightarrow> world option" where
  "DepWindow_executed call p k d s = do {
     b \<leftarrow> hasDeps d s;
     I_check (\<not> b);
     x \<leftarrow> deref d s;
     if d_first x = None then Some s
     else do {
       I_check (\<not> InOrderCore (cores s p));
       I_check (d_resource x \<noteq> None);
       executed_loop call p k d None s } }"

subsection \<open>Clusters\<close>

definition newEntry :: "nat \<Rightarrow> nat \<Rightarrow> world \<Rightarrow> world option" where
  "newEntry p k s = do {
     let s1 = upd_cluster p k (\<lambda>c. c\<lparr>windowSize := windowSize c - 1\<rparr>) s;
     I_check (0 \<le> windowSize (clusters (cores s1 p) k));
     Some s1 }"

definition delEntry :: "nat \<Rightarrow> nat \<Rightarrow> world \<Rightarrow> world option" where
  "delEntry p k s = do {
     let s1 = upd_cluster p k (\<lambda>c. c\<lparr>windowSize := windowSize c + 1\<rparr>) s;
     I_check (windowSize (clusters (cores s1 p) k) \<le> MaxWinSize (clusters (cores s1 p) k));
     Some s1 }"

definition Cluster_canIssue :: "nat \<Rightarrow> nat \<Rightarrow> world \<Rightarrow> StallCause" where
  "Cluster_canIssue p k s = (if 0 < windowSize (clusters (cores s p) k) then NoStall else SmallWinStall)"

definition Cluster_issued :: "nat \<Rightarrow> nat \<Rightarrow> world \<Rightarrow> world option" where
  "Cluster_issued p k s = (if recycleAt (clusters (cores s p) k) = AtIssue then delEntry p k s else Some s)"

definition Cluster_executed ::
  "(cev \<Rightarrow> world \<Rightarrow> world option) \<Rightarrow> nat \<Rightarrow> nat \<Rightarrow> nat \<Rightarrow> world \<Rightarrow> world option" where
  "Cluster_executed call p k d s = do {
     s1 \<leftarrow> markExecuted d s;
     s2 \<leftarrow> (if recycleAt (clusters (cores s1 p) k) = AtExecute then delEntry p k s1 else Some s1);
     DepWindow_executed call p k d s2 }"

definition Cluster_retire :: "nat \<Rightarrow> nat \<Rightarrow> world \<Rightarrow> world option" where
  "Cluster_retire p k s = (if recycleAt (clusters (cores s p) k) = AtRetire then delEntry p k s else Some s)"

subsection \<open>Functional units: issue\<close>

definition cluster_no :: "nat \<Rightarrow> InstType \<Rightarrow> world \<Rightarrow> nat" where
  "cluster_no p ty s = u_cluster (units (cores s p) ty)"

definition FULoad_canIssue :: "nat \<Rightarrow> nat \<Rightarrow> world \<Rightarrow> (StallCause \<times> world) option" where
  "FULoad_canIssue p d s =
     (if freeLoads (cores s p) \<le> 0 then do { I_check (freeLoads (cores s p) = 0); Some (OutsLoadsStall, s) }
      else do {
        s1 \<leftarrow> newEntry p (cluster_no p iLoad s) s;
        s2 \<leftarrow> getLoadEntry d s1;
        s3 \<leftarrow> lsq_insert p d s2;
        Some (NoStall, upd_c p (\<lambda>c. c\<lparr>freeLoads := freeLoads c - 1\<rparr>) s3) })"

definition FUStore_canIssue :: "nat \<Rightarrow> nat \<Rightarrow> world \<Rightarrow> (StallCause \<times> world) option" where
  "FUStore_canIssue p d s =
     (if freeStores (cores s p) \<le> 0 then do { I_check (freeStores (cores s p) = 0); Some (OutsStoresStall, s) }
      else do {
        s1 \<leftarrow> newEntry p (cluster_no p iStore s) s;
        s2 \<leftarrow> getStoreEntry d s1;
        s3 \<leftarrow> lsq_insert p d s2;
        Some (NoStall, upd_c p (\<lambda>c. c\<lparr>freeStores := freeStores c - 1\<rparr>) s3) })"

definition FUBranch_canIssue :: "nat \<Rightarrow> world \<Rightarrow> (StallCause \<times> world) option" where
  "FUBranch_canIssue p s =
     (if freeBranches (cores s p) = 0 then Some (OutsBranchesStall, s)
      else do {
        s1 \<leftarrow> newEntry p (cluster_no p iBJ s) s;
        Some (NoStall, upd_c p (\<lambda>c. c\<lparr>freeBranches := freeBranches c - 1\<rparr>) s1) })"

text \<open>\<open>FUGeneric\<close>, \<open>FUMemory\<close> and \<open>FUEvent\<close> only take an entry of the window.\<close>

definition FU_canIssue :: "nat \<Rightarrow> InstType \<Rightarrow> world \<Rightarrow> (StallCause \<times> world) option" where
  "FU_canIssue p ty s = do {
     s1 \<leftarrow> newEntry p (cluster_no p ty s) s;
     Some (NoStall, s1) }"

text \<open>The virtual function; \<open>buildUnit\<close> chooses the class from the type of the instruction.\<close>

definition Resource_canIssue :: "nat \<Rightarrow> InstType \<Rightarrow> nat \<Rightarrow> world \<Rightarrow> (StallCause \<times> world) option" where
  "Resource_canIssue p ty d s =
     (if ty = iLoad then FULoad_canIssue p d s
      else if ty = iStore then FUStore_canIssue p d s
      else if ty = iBJ then FUBranch_canIssue p s
      else FU_canIssue p ty s)"

subsection \<open>Functional units: execution\<close>

definition FUGeneric_simTime ::
  "(cev \<Rightarrow> world \<Rightarrow> world option) \<Rightarrow> nat \<Rightarrow> InstType \<Rightarrow> nat \<Rightarrow> world \<Rightarrow> world option" where
  "FUGeneric_simTime call p ty d s = do {
     (t, s1) \<leftarrow> gen_nextSlot p ty s;
     s2 \<leftarrow> cb_at call (IssuedCB p ty d) t s1;
     scb_at call (ExecutedCB d) (t + u_lat (units (cores s p) ty)) s2 }"

definition FUBranch_simTime ::
  "(cev \<Rightarrow> world \<Rightarrow> world option) \<Rightarrow> nat \<Rightarrow> nat \<Rightarrow> world \<Rightarrow> world option" where
  "FUBranch_simTime call p d s = do {
     (t, s1) \<leftarrow> gen_nextSlot p iBJ s;
     s2 \<leftarrow> cb_at call (IssuedCB p iBJ d) t s1;
     x \<leftarrow> deref d s2;
     let lat = u_lat (units (cores s p) iBJ);
     scb_at call (ExecutedCB d) (t + (if d_fetch x \<noteq> None then lat + misCommLat (cores s p) else lat)) s2 }"

definition FULoad_simTime ::
  "(cev \<Rightarrow> world \<Rightarrow> world option) \<Rightarrow> nat \<Rightarrow> nat \<Rightarrow> world \<Rightarrow> world option" where
  "FULoad_simTime call p d s = do {
     (t, s1) \<leftarrow> gen_nextSlot p iLoad s;
     (r, s2) \<leftarrow> lsq_executed p d s1;
     s3 \<leftarrow> cb_at call (IssuedCB p iLoad d) t s2;
     let t1 = t + u_lat (units (cores s p) iLoad);
     x \<leftarrow> deref d s3;
     if loadForwarded x then scb_at call (ExecutedCB d) (t1 + LSDelay (cores s p)) s3
     else if deadInst x then call (ExecutedCB d) s3
     else cb_at call (DispatchedCB p d) t1 s3 }"

definition FUStore_simTime ::
  "(cev \<Rightarrow> world \<Rightarrow> world option) \<Rightarrow> nat \<Rightarrow> nat \<Rightarrow> world \<Rightarrow> world option" where
  "FUStore_simTime call p d s = do {
     (t, s1) \<leftarrow> gen_nextSlot p iStore s;
     s2 \<leftarrow> cb_at call (IssuedCB p iStore d) t s1;
     scb_at call (ExecutedCB d) (t + u_lat (units (cores s p) iStore)) s2 }"

definition FUMemory_simTime ::
  "(cev \<Rightarrow> world \<Rightarrow> world option) \<Rightarrow> nat \<Rightarrow> nat \<Rightarrow> world \<Rightarrow> world option" where
  "FUMemory_simTime call p d s = do {
     x \<leftarrow> deref d s;
     I_check (isFence (d_inst x));
     I_check (\<not> isLoad (d_inst x));
     I_check (\<not> isStore (d_inst x));
     s1 \<leftarrow> Cluster_issued p (cluster_no p iFence s) s;
     scb_in call (ExecutedCB d) 1 s1 }"

definition FUEvent_simTime ::
  "(cev \<Rightarrow> world \<Rightarrow> world option) \<Rightarrow> nat \<Rightarrow> nat \<Rightarrow> world \<Rightarrow> world option" where
  "FUEvent_simTime call p d s = do {
     x \<leftarrow> deref d s;
     I_check (getEvent (d_inst x) = PostEvent);
     I_check (d_vaddr x = 0);
     cb \<leftarrow> pendEvent x;
     s1 \<leftarrow> Cluster_issued p (cluster_no p iEvent s) (s\<lparr>called := called s @ [cb]\<rparr>);
     Cluster_executed call p (cluster_no p iEvent s) d s1 }"

definition Resource_simTime ::
  "(cev \<Rightarrow> world \<Rightarrow> world option) \<Rightarrow> nat \<Rightarrow> InstType \<Rightarrow> nat \<Rightarrow> world \<Rightarrow> world option" where
  "Resource_simTime call p ty d s =
     (if ty = iLoad then FULoad_simTime call p d s
      else if ty = iStore then FUStore_simTime call p d s
      else if ty = iBJ then FUBranch_simTime call p d s
      else if ty = iFence then FUMemory_simTime call p d s
      else if ty = iEvent then FUEvent_simTime call p d s
      else FUGeneric_simTime call p ty d s)"

definition FUStore_executed ::
  "(cev \<Rightarrow> world \<Rightarrow> world option) \<Rightarrow> nat \<Rightarrow> nat \<Rightarrow> world \<Rightarrow> world option" where
  "FUStore_executed call p d s = do {
     s1 \<leftarrow> Cluster_executed call p (cluster_no p iStore s) d s;
     (r, s2) \<leftarrow> lsq_executed p d s1;
     Some s2 }"

definition FUBranch_executed ::
  "(cev \<Rightarrow> world \<Rightarrow> world option) \<Rightarrow> nat \<Rightarrow> nat \<Rightarrow> world \<Rightarrow> world option" where
  "FUBranch_executed call p d s = do {
     x \<leftarrow> deref d s;
     let s1 = (case d_fetch x of None \<Rightarrow> s | Some f \<Rightarrow> upd_c f (\<lambda>c. c\<lparr>unblocked := Suc (unblocked c)\<rparr>) s);
     let s2 = upd_c p (\<lambda>c. c\<lparr>freeBranches := freeBranches c + 1\<rparr>) s1;
     Cluster_executed call p (cluster_no p iBJ s) d s2 }"

definition Resource_executed ::
  "(cev \<Rightarrow> world \<Rightarrow> world option) \<Rightarrow> nat \<Rightarrow> InstType \<Rightarrow> nat \<Rightarrow> world \<Rightarrow> world option" where
  "Resource_executed call p ty d s =
     (if ty = iStore then FUStore_executed call p d s
      else if ty = iBJ then FUBranch_executed call p d s
      else Cluster_executed call p (cluster_no p ty s) d s)"

subsection \<open>Callbacks of instructions\<close>

definition doAtSimTime :: "(cev \<Rightarrow> world \<Rightarrow> world option) \<Rightarrow> nat \<Rightarrow> world \<Rightarrow> world option" where
  "doAtSimTime call d s = do {
     x \<leftarrow> deref d s;
     (p, ty) \<leftarrow> d_resource x;
     I_check (\<not> executed x);
     s1 \<leftarrow> DepWindow_wakeUpDeps p (cluster_no p ty s) d s;
     Resource_simTime call p ty d s1 }"

definition doAtSelect :: "(cev \<Rightarrow> world \<Rightarrow> world option) \<Rightarrow> nat \<Rightarrow> world \<Rightarrow> world option" where
  "doAtSelect call d s = do {
     x \<leftarrow> deref d s;
     (p, ty) \<leftarrow> d_resource x;
     DepWindow_select call p (cluster_no p ty s) d s }"

definition doAtExecuted :: "(cev \<Rightarrow> world \<Rightarrow> world option) \<Rightarrow> nat \<Rightarrow> world \<Rightarrow> world option" where
  "doAtExecuted call d s = do {
     x \<leftarrow> deref d s;
     (q, r) \<leftarrow> RATEntry x;
     let s1 = (if RAT (cores s q) r = Some d then upd_c q (\<lambda>c. c\<lparr>RAT := (RAT c)(r := None)\<rparr>) s else s);
     (p, ty) \<leftarrow> d_resource x;
     Resource_executed call p ty d s1 }"

text \<open>\<open>DInst::awakeRemoteInstructions\<close>\<close>

definition awake_one :: "(cev \<Rightarrow> world \<Rightarrow> world option) \<Rightarrow> nat \<Rightarrow> nat \<Rightarrow> world \<Rightarrow> world option" where
  "awake_one call d x s = do {
     y \<leftarrow> deref d s;
     z \<leftarrow> deref x s;
     I_check (isStore (d_inst y));
     I_check (isLoad (d_inst z));
     I_check (\<not> executed z);
     I_check (depsAtRetire z);
     I_check (\<not> isUsed z 1);
     s1 \<leftarrow> clearDepsAtRetire x s;
     b \<leftarrow> hasDeps x s1;
     if issued z \<and> \<not> b then do {
       (p, ty) \<leftarrow> d_resource z;
       Resource_simTime call p ty x s1 }
     else Some s1 }"

partial_function (option) awakeRemote ::
  "(cev \<Rightarrow> world \<Rightarrow> world option) \<Rightarrow> nat \<Rightarrow> world \<Rightarrow> world option" where
  "awakeRemote call d s =
     (case deref d s of
        None \<Rightarrow> None
      | Some y \<Rightarrow>
          if d_first y = None then Some s
          else (case getNextPending d s of
                  None \<Rightarrow> None
                | Some (x, s1) \<Rightarrow>
                    (case awake_one call d x s1 of
                       None \<Rightarrow> None
                     | Some s2 \<Rightarrow> awakeRemote call d s2)))"

declare awakeRemote.simps [code]

definition DInst_destroy :: "(cev \<Rightarrow> world \<Rightarrow> world option) \<Rightarrow> nat \<Rightarrow> world \<Rightarrow> world option" where
  "DInst_destroy call d s = do {
     x \<leftarrow> deref d s;
     I_check (nDeps x = 0);
     I_check (issued x);
     I_check (executed x);
     s1 \<leftarrow> awakeRemote call d s;
     y \<leftarrow> deref d s1;
     I_check (d_first y = None);
     scrap d (upd_d d (\<lambda>x. x\<lparr>sequenceNum := - 1, coreID := - 1\<rparr>) s1) }"

subsection \<open>Memory requests\<close>

definition storeCompleted :: "nat \<Rightarrow> world \<Rightarrow> world option" where
  "storeCompleted p s = do {
     I_check (0 < nOutsStores (cores s p));
     Some (upd_c p (\<lambda>c. c\<lparr>nOutsStores := nOutsStores c - 1,
       pendingFence := (if nOutsStores c - 1 = 0 then False else pendingFence c)\<rparr>) s) }"

text \<open>\<open>DMemRequest::dinstAck\<close>. The store unit of the cluster must be there.\<close>

definition ack_write :: "(cev \<Rightarrow> world \<Rightarrow> world option) \<Rightarrow> nat \<Rightarrow> world \<Rightarrow> world option" where
  "ack_write call d s = do {
     x \<leftarrow> deref d s;
     I_check (\<not> loadForwarded x);
     (p, ty) \<leftarrow> d_resource x;
     I_check (cluster_no p iStore s = cluster_no p ty s);
     s1 \<leftarrow> storeCompleted p s;
     I_check (executed x);
     DInst_destroy call d s1 }"

definition ack_read :: "(cev \<Rightarrow> world \<Rightarrow> world option) \<Rightarrow> nat \<Rightarrow> nat \<Rightarrow> world \<Rightarrow> world option" where
  "ack_read call d lat s = do {
     x \<leftarrow> deref d s;
     I_check (\<not> loadForwarded x);
     I_check (d_resource x \<noteq> None);
     scb_in call (ExecutedCB d) lat s }"

definition create_read :: "(cev \<Rightarrow> world \<Rightarrow> world option) \<Rightarrow> nat \<Rightarrow> world \<Rightarrow> world option" where
  "create_read call d s = do {
     x \<leftarrow> deref d s;
     if \<not> validVAddr s (d_vaddr x) then ack_read call d 0 s
     else Some (s\<lparr>memReads := add_mset d (memReads s)\<rparr>) }"

definition create_write :: "(cev \<Rightarrow> world \<Rightarrow> world option) \<Rightarrow> nat \<Rightarrow> world \<Rightarrow> world option" where
  "create_write call d s = do {
     x \<leftarrow> deref d s;
     if \<not> validVAddr s (d_vaddr x) then ack_write call d s
     else Some (s\<lparr>memWrites := add_mset d (memWrites s)\<rparr>) }"

definition FULoad_cacheDispatched ::
  "(cev \<Rightarrow> world \<Rightarrow> world option) \<Rightarrow> nat \<Rightarrow> nat \<Rightarrow> world \<Rightarrow> world option" where
  "FULoad_cacheDispatched call p d s = do {
     x \<leftarrow> deref d s;
     I_check (\<not> loadForwarded x);
     if \<not> canAcceptLoad (cores s p) (d_vaddr x) then cb_in call (DispatchedCB p d) 7 s
     else if \<not> canAcceptLoad (cores s p) (d_vaddr x) then do {
       (t, s1) \<leftarrow> gen_nextSlot p iLoad s;
       cb_at call (DispatchedCB p d) (t + 1) s1 }
     else create_read call d s }"

subsection \<open>The callbacks, tied together\<close>

fun run_cb :: "nat \<Rightarrow> cev \<Rightarrow> world \<Rightarrow> world option" where
  "run_cb 0 ev s = None"
| "run_cb (Suc n) ev s =
     (case ev of
        SelectCB d \<Rightarrow> doAtSelect (run_cb n) d s
      | SimTimeCB d \<Rightarrow> doAtSimTime (run_cb n) d s
      | ExecutedCB d \<Rightarrow> doAtExecuted (run_cb n) d s
      | IssuedCB p ty d \<Rightarrow> Cluster_issued p (cluster_no p ty s) s
      | DispatchedCB p d \<Rightarrow> FULoad_cacheDispatched (run_cb n) p d s)"

subsection \<open>Retirement\<close>

definition Resource_retire_base ::
  "(cev \<Rightarrow> world \<Rightarrow> world option) \<Rightarrow> nat \<Rightarrow> InstType \<Rightarrow> nat \<Rightarrow> world \<Rightarrow> (bool \<times> world) option" where
  "Resource_retire_base call p ty d s = do {
     s1 \<leftarrow> Cluster_retire p (cluster_no p ty s) s;
     s2 \<leftarrow> DInst_destroy call d s1;
     Some (True, s2) }"

definition FULoad_retire ::
  "(cev \<Rightarrow> world \<Rightarrow> world option) \<Rightarrow> nat \<Rightarrow> nat \<Rightarrow> world \<Rightarrow> (bool \<times> world) option" where
  "FULoad_retire call p d s = do {
     s1 \<leftarrow> Cluster_retire p (cluster_no p iLoad s) s;
     s2 \<leftarrow> lsq_remove p d s1;
     s3 \<leftarrow> DInst_destroy call d (upd_c p (\<lambda>c. c\<lparr>freeLoads := freeLoads c + 1\<rparr>) s2);
     Some (True, s3) }"

definition FUStore_doRetire :: "nat \<Rightarrow> nat \<Rightarrow> world \<Rightarrow> world option" where
  "FUStore_doRetire p d s = do {
     s1 \<leftarrow> Cluster_retire p (cluster_no p iStore s) s;
     s2 \<leftarrow> storeLocallyPerformed d s1;
     s3 \<leftarrow> lsq_remove p d s2;
     Some (upd_c p (\<lambda>c. c\<lparr>freeStores := freeStores c + 1\<rparr>) s3) }"

definition storeSent :: "nat \<Rightarrow> world \<Rightarrow> world" where
  "storeSent p = upd_c p (\<lambda>c. c\<lparr>nOutsStores := nOutsStores c + 1\<rparr>)"

definition doFence :: "nat \<Rightarrow> world \<Rightarrow> world" where
  "doFence p = upd_c p (\<lambda>c. c\<lparr>pendingFence := (if 0 < nOutsStores c then True else pendingFence c)\<rparr>)"

definition FUStore_retire ::
  "(cev \<Rightarrow> world \<Rightarrow> world option) \<Rightarrow> nat \<Rightarrow> nat \<Rightarrow> world \<Rightarrow> (bool \<times> world) option" where
  "FUStore_retire call p d s = do {
     x \<leftarrow> deref d s;
     if deadInst x then do {
       s1 \<leftarrow> FUStore_doRetire p d s;
       s2 \<leftarrow> DInst_destroy call d s1;
       Some (True, s2) }
     else if now s < getNextFreeCycle (cores s p) then Some (False, s)
     else if \<not> canAcceptStore (cores s p) (d_vaddr x) then Some (False, s)
     else if pendingFence (cores s p) then Some (False, s)
     else do {
       (t, s1) \<leftarrow> gen_nextSlot p iStore (storeSent p s);
       let s2 = (case pendEvent x of None \<Rightarrow> s1 | Some cb \<Rightarrow> s1\<lparr>called := called s1 @ [cb]\<rparr>);
       s3 \<leftarrow> create_write call d s2;
       s4 \<leftarrow> FUStore_doRetire p d s3;
       Some (True, s4) } }"

definition FUMemory_retire ::
  "(cev \<Rightarrow> world \<Rightarrow> world option) \<Rightarrow> nat \<Rightarrow> nat \<Rightarrow> world \<Rightarrow> (bool \<times> world) option" where
  "FUMemory_retire call p d s = do {
     x \<leftarrow> deref d s;
     let sc = subCode (d_inst x);
     if sc = iFetchOp then
       (if \<not> canAcceptStore (cores s p) (d_vaddr x) then Some (False, s)
        else do {
          I_check (cluster_no p iStore s = cluster_no p iFence s);
          if pendingFence (cores s p) then Some (False, s)
          else do {
            s1 \<leftarrow> create_write call d (storeSent p s);
            Some (True, s1) } })
     else if sc = iMemFence then do {
       I_check (cluster_no p iStore s = cluster_no p iFence s);
       s1 \<leftarrow> DInst_destroy call d (doFence p s);
       Some (True, s1) }
     else do {
       I_check (sc = iAcquire \<or> sc = iRelease);
       s1 \<leftarrow> DInst_destroy call d s;
       Some (True, s1) } }"

definition Resource_retire ::
  "(cev \<Rightarrow> world \<Rightarrow> world option) \<Rightarrow> nat \<Rightarrow> InstType \<Rightarrow> nat \<Rightarrow> world \<Rightarrow> (bool \<times> world) option" where
  "Resource_retire call p ty d s =
     (if ty = iLoad then FULoad_retire call p d s
      else if ty = iStore then FUStore_retire call p d s
      else if ty = iFence then FUMemory_retire call p d s
      else Resource_retire_base call p ty d s)"

text \<open>The loop of \<open>GProcessor::retire\<close>; the watchdog of the debug build is left out.\<close>

fun retire_loop :: "(cev \<Rightarrow> world \<Rightarrow> world option) \<Rightarrow> nat \<Rightarrow> nat \<Rightarrow> world \<Rightarrow> world option" where
  "retire_loop call p 0 s = Some s"
| "retire_loop call p (Suc n) s =
     (case ROB (cores s p) of
        [] \<Rightarrow> Some s
      | d # _ \<Rightarrow> do {
          x \<leftarrow> deref d s;
          if \<not> executed x then Some s
          else do {
            let rp = getDstPool (d_inst x);
            (q, ty) \<leftarrow> d_resource x;
            (done, s1) \<leftarrow> Resource_retire call q ty d s;
            if \<not> done then Some s1
            else retire_loop call p n (upd_c p (\<lambda>c. c\<lparr>regPool := (regPool c)(rp := regPool c rp + 1),
                   ROB := tl (ROB c)\<rparr>) s1) } })"

definition GProcessor_retire :: "(cev \<Rightarrow> world \<Rightarrow> world option) \<Rightarrow> nat \<Rightarrow> world \<Rightarrow> world option" where
  "GProcessor_retire call p s = retire_loop call p (RetireWidth (cores s p)) s"

subsection \<open>Issue\<close>

definition sharedAddInst :: "nat \<Rightarrow> nat \<Rightarrow> world \<Rightarrow> (StallCause \<times> world) option" where
  "sharedAddInst p d s = do {
     let c = cores s p;
     if MaxROBSize c \<le> length (ROB c) then Some (SmallROBStall, s)
     else do {
       x \<leftarrow> deref d s;
       let rp = getDstPool (d_inst x);
       I_check (rp < 3);
       if regPool c rp \<le> 0 then Some (SmallREGStall, s)
       else do {
         let ty = opcode (d_inst x);
         let sc = Cluster_canIssue p (cluster_no p ty s) s;
         if sc \<noteq> NoStall then Some (sc, s)
         else do {
           (sc, s1) \<leftarrow> Resource_canIssue p ty d s;
           if sc \<noteq> NoStall then Some (sc, s1)
           else do {
             s2 \<leftarrow> markIssued d s1;
             let s3 = upd_c p (\<lambda>c. c\<lparr>regPool := (regPool c)(rp := regPool c rp - 1)\<rparr>) s2;
             let c3 = cores s3 p;
             I_check (0 \<le> regPool c3 rp);
             I_check (rp = 0 \<longrightarrow> regPool c3 0 \<le> intRegs c3);
             I_check (rp = 1 \<longrightarrow> regPool c3 1 \<le> fpRegs c3);
             let s4 = upd_d d (\<lambda>x. x\<lparr>coreID := int p, sequenceNum := sequenceCount c3\<rparr>) s3;
             I_check (length (ROB c3) < MaxROBSize c3);
             let s5 = upd_c p (\<lambda>c. c\<lparr>sequenceCount := sequenceCount c + 1, ROB := ROB c @ [d]\<rparr>) s4;
             y \<leftarrow> deref d s5;
             I_check (d_resource y = None);
             Some (NoStall, upd_d d (\<lambda>x. x\<lparr>d_resource := Some (p, ty)\<rparr>) s5) } } } } }"

text \<open>An entry of the rename table; the table has \<open>NumArchRegs\<close> entries.\<close>

definition RAT_get :: "nat \<Rightarrow> nat \<Rightarrow> world \<Rightarrow> nat option option" where
  "RAT_get p r s = (if r < NumArchRegs then Some (RAT (cores s p) r) else None)"

definition Processor_addInst ::
  "(cev \<Rightarrow> world \<Rightarrow> world option) \<Rightarrow> nat \<Rightarrow> nat \<Rightarrow> world \<Rightarrow> (StallCause \<times> world) option" where
  "Processor_addInst call p d s = do {
     x \<leftarrow> deref d s;
     let i = d_inst x;
     a \<leftarrow> RAT_get p (getSrc1 i) s;
     b \<leftarrow> RAT_get p (getSrc2 i) s;
     c \<leftarrow> RAT_get p (getDest i) s;
     if InOrderCore (cores s p) \<and> (a \<noteq> None \<or> b \<noteq> None \<or> c \<noteq> None) then Some (SmallWinStall, s)
     else do {
       (sc, s1) \<leftarrow> sharedAddInst p d s;
       if sc \<noteq> NoStall then Some (sc, s1)
       else do {
         y \<leftarrow> deref d s1;
         I_check (d_resource y \<noteq> None);
         s2 \<leftarrow> (case RAT (cores s1 p) (getSrc1 i) of None \<Rightarrow> Some s1 | Some q \<Rightarrow> addSrc1 q d s1);
         s3 \<leftarrow> (if isUsed y 1 then Some s2
                else (case RAT (cores s2 p) (getSrc2 i) of None \<Rightarrow> Some s2 | Some q \<Rightarrow> addSrc2 q d s2));
         I_check (RATEntry y = None);
         let s4 = upd_d d (\<lambda>x. x\<lparr>RATEntry := Some (p, getDest i)\<rparr>) s3;
         let s5 = upd_c p (\<lambda>c. c\<lparr>RAT := (RAT c)(getDest i \<mapsto> d)\<rparr>) s4;
         (q, ty) \<leftarrow> d_resource y;
         s6 \<leftarrow> DepWindow_addInst call q (cluster_no q ty s5) d s5;
         Some (NoStall, s6) } } }"

fun issueFromReplayQ ::
  "(cev \<Rightarrow> world \<Rightarrow> world option) \<Rightarrow> nat \<Rightarrow> nat \<Rightarrow> world \<Rightarrow> world option" where
  "issueFromReplayQ call p n s =
     (case replayQ (cores s p) of
        [] \<Rightarrow> Some s
      | d # _ \<Rightarrow> do {
          (sc, s1) \<leftarrow> Processor_addInst call p d s;
          if sc \<noteq> NoStall then Some s1
          else do {
            let s2 = upd_c p (\<lambda>c. c\<lparr>replayQ := tl (replayQ c)\<rparr>) s1;
            (case n of 0 \<Rightarrow> Some s2 | Suc m \<Rightarrow> if m = 0 then Some s2 else issueFromReplayQ call p m s2) } })"

text \<open>
  The loops of \<open>issue\<close>, with \<open>i\<close> instructions issued so far and \<open>n\<close> that may still be: the
  number that is returned, and the state. The buckets that are used up are taken off the queue.
\<close>

fun issue_loop ::
  "(cev \<Rightarrow> world \<Rightarrow> world option) \<Rightarrow> nat \<Rightarrow> nat \<Rightarrow> nat \<Rightarrow> world \<Rightarrow> (nat \<times> world) option" where
  "issue_loop call p n i s =
     (case instQueue (cores s p) of
        [] \<Rightarrow> Some (i, s)
      | bucket # rest \<Rightarrow>
          (case bucket of
             [] \<Rightarrow> None
           | d # ds \<Rightarrow>
               (case n of
                  0 \<Rightarrow> Some (i, s)
                | Suc m \<Rightarrow> do {
                    (sc, s1) \<leftarrow> Processor_addInst call p d s;
                    if sc \<noteq> NoStall then Some (i, s1)
                    else issue_loop call p m (Suc i) (upd_c p (\<lambda>c. c\<lparr>instQueue :=
                           (if ds = [] then rest else ds # rest)\<rparr>) s1) })))"

definition GProcessor_issue ::
  "(cev \<Rightarrow> world \<Rightarrow> world option) \<Rightarrow> nat \<Rightarrow> world \<Rightarrow> (nat \<times> world) option" where
  "GProcessor_issue call p s = do {
     I_check (instQueue (cores s p) \<noteq> []);
     if replayQ (cores s p) \<noteq> [] then do {
       s1 \<leftarrow> issueFromReplayQ call p (IssueWidth (cores s p)) s;
       Some (0, s1) }
     else issue_loop call p (IssueWidth (cores s p)) 0 s }"

text \<open>
  \<open>Processor::advanceClock\<close> after the fetch stage. \<open>ready\<close> says whether \<open>pipeLine.nextItem\<close>
  returns a bucket in this cycle.
\<close>

definition Processor_advanceClock ::
  "(cev \<Rightarrow> world \<Rightarrow> world option) \<Rightarrow> nat \<Rightarrow> bool \<Rightarrow> world \<Rightarrow> world option" where
  "Processor_advanceClock call p ready s = do {
     let s1 = upd_c p (\<lambda>c. c\<lparr>clockTicks := Suc (clockTicks c)\<rparr>) s;
     let c = cores s1 p;
     s2 \<leftarrow> (if int (FetchWidth c) \<le> spaceInInstQueue c \<and> ready \<and> pipe c \<noteq> [] then do {
              let bucket = hd (pipe c);
              I_check (bucket \<noteq> []);
              Some (upd_c p (\<lambda>c. c\<lparr>spaceInInstQueue := spaceInInstQueue c - int (length bucket),
                instQueue := instQueue c @ [bucket], pipe := tl (pipe c)\<rparr>) s1) }
            else Some s1);
     s3 \<leftarrow> (if instQueue (cores s2 p) \<noteq> [] then do {
              (n, s3) \<leftarrow> GProcessor_issue call p s2;
              Some (upd_c p (\<lambda>c. c\<lparr>spaceInInstQueue := spaceInInstQueue c + int n\<rparr>) s3) }
            else Some s2);
     GProcessor_retire call p s3 }"

end
