(* ===== verification/Core_Deps.thy ===== *)
theory Core_Deps
  imports Core_Model
begin

text \<open>
  The lists of dependents: \<open>deps_ok D s\<close> says that the intrusive lists of the heap are the lists
  \<open>D\<close> of nodes, that no node is in two lists, and that the fields \<open>isUsed\<close> and \<open>nDeps\<close> agree with
  them. \<open>addSrc\<close> appends to a list and \<open>getNextPending\<close> takes its head off.
\<close>

subsection \<open>Updates of one object\<close>

lemma upd_d_simps [simp]:
  "heap (upd_d d f s) = (heap s)(d := f (heap s d))" "live (upd_d d f s) = live s"
  "now (upd_d d f s) = now s" "events (upd_d d f s) = events s" "memReads (upd_d d f s) = memReads s"
  "memWrites (upd_d d f s) = memWrites s" "stores (upd_d d f s) = stores s" "fences (upd_d d f s) = fences s"
  "cores (upd_d d f s) = cores s" "validVAddr (upd_d d f s) = validVAddr s" "InstTable (upd_d d f s) = InstTable s" "called (upd_d d f s) = called s"
  "issueNo (upd_d d f s) = issueNo s" "stamp (upd_d d f s) = stamp s"
  "heap (upd_c p g s) = heap s" "live (upd_c p g s) = live s"
  "now (upd_c p g s) = now s" "events (upd_c p g s) = events s" "memReads (upd_c p g s) = memReads s"
  "memWrites (upd_c p g s) = memWrites s" "stores (upd_c p g s) = stores s" "fences (upd_c p g s) = fences s"
  "cores (upd_c p g s) = (cores s)(p := g (cores s p))" "validVAddr (upd_c p g s) = validVAddr s" "InstTable (upd_c p g s) = InstTable s"
  "called (upd_c p g s) = called s" "issueNo (upd_c p g s) = issueNo s" "stamp (upd_c p g s) = stamp s"
  by (simp_all add: upd_d_def upd_c_def)

lemma deref_live [simp]: "d \<in> live s \<Longrightarrow> deref d s = Some (heap s d)"
  by (simp add: deref_def)

subsection \<open>Chains of nodes\<close>

fun chain :: "(nat \<Rightarrow> dinst) \<Rightarrow> node option \<Rightarrow> node list \<Rightarrow> bool" where
  "chain h e [] = (e = None)"
| "chain h e (n # ns) = (e = Some n \<and> chain h (nextDep (h (fst n)) (snd n)) ns)"

lemma deps_chain_cong:
  "(\<And>n. n \<in> set ns \<Longrightarrow> nextDep (h' (fst n)) (snd n) = nextDep (h (fst n)) (snd n)) \<Longrightarrow> chain h' e ns = chain h e ns"
  by (induction ns arbitrary: e) auto

lemma deps_chain_None: "chain h None ns \<longleftrightarrow> ns = []"
  by (cases ns) auto

lemma chain_append_node:
  assumes "chain h e (ns @ [l])" "\<And>n. n \<in> set ns \<Longrightarrow> nextDep (h' (fst n)) (snd n) = nextDep (h (fst n)) (snd n)"
    "nextDep (h' (fst l)) (snd l) = Some m" "nextDep (h' (fst m)) (snd m) = None"
  shows "chain h' e (ns @ [l, m])"
  using assms by (induction ns arbitrary: e) auto

subsection \<open>The invariant of the lists\<close>

definition nodes :: "(nat \<Rightarrow> node list) \<Rightarrow> node set" where
  "nodes D = (\<Union>q. set (D q))"

definition deps_ok :: "(nat \<Rightarrow> node list) \<Rightarrow> world \<Rightarrow> bool" where
  "deps_ok D s \<longleftrightarrow>
     (\<forall>q\<in>live s. chain (heap s) (d_first (heap s q)) (D q) \<and>
        (D q \<noteq> [] \<longrightarrow> d_last (heap s q) = Some (last (D q)))) \<and>
     (\<forall>q. q \<notin> live s \<longrightarrow> D q = []) \<and>
     (\<forall>q. distinct (D q)) \<and>
     (\<forall>q r. q \<noteq> r \<longrightarrow> set (D q) \<inter> set (D r) = {}) \<and>
     (\<forall>n\<in>nodes D. fst n \<in> live s \<and> snd n < 2) \<and>
     (\<forall>d\<in>live s. \<forall>k<2. isUsed (heap s d) k \<longleftrightarrow> (d, k) \<in> nodes D) \<and>
     (\<forall>d\<in>live s. nDeps (heap s d) = of_bool (isUsed (heap s d) 0) + of_bool (isUsed (heap s d) 1)) \<and>
     (\<forall>d. d \<notin> live s \<longrightarrow> nDeps (heap s d) = 0)"

lemma deps_okD:
  assumes "deps_ok D s"
  shows "q \<in> live s \<Longrightarrow> chain (heap s) (d_first (heap s q)) (D q)"
    and "q \<in> live s \<Longrightarrow> D q \<noteq> [] \<Longrightarrow> d_last (heap s q) = Some (last (D q))"
    and "q \<notin> live s \<Longrightarrow> D q = []"
    and "distinct (D q)"
    and "n \<in> set (D q) \<Longrightarrow> n \<in> set (D r) \<Longrightarrow> q = r"
    and "n \<in> set (D q) \<Longrightarrow> fst n \<in> live s"
    and "n \<in> set (D q) \<Longrightarrow> snd n < 2"
    and "n \<in> set (D q) \<Longrightarrow> isUsed (heap s (fst n)) (snd n)"
    and "d \<in> live s \<Longrightarrow> nDeps (heap s d) = of_bool (isUsed (heap s d) 0) + of_bool (isUsed (heap s d) 1)"
    and "d \<in> live s \<Longrightarrow> k < 2 \<Longrightarrow> isUsed (heap s d) k \<Longrightarrow> \<exists>q. (d, k) \<in> set (D q)"
    and "d \<notin> live s \<Longrightarrow> nDeps (heap s d) = 0"
proof -
  note A = assms [unfolded deps_ok_def]
  have nd: "n \<in> set (D q) \<Longrightarrow> n \<in> nodes D" for n q by (auto simp: nodes_def)
  show "q \<in> live s \<Longrightarrow> chain (heap s) (d_first (heap s q)) (D q)"
    "q \<in> live s \<Longrightarrow> D q \<noteq> [] \<Longrightarrow> d_last (heap s q) = Some (last (D q))"
    "q \<notin> live s \<Longrightarrow> D q = []" "distinct (D q)"
    "d \<in> live s \<Longrightarrow> nDeps (heap s d) = of_bool (isUsed (heap s d) 0) + of_bool (isUsed (heap s d) 1)"
    "d \<notin> live s \<Longrightarrow> nDeps (heap s d) = 0"
    using A by blast+
  show "n \<in> set (D q) \<Longrightarrow> n \<in> set (D r) \<Longrightarrow> q = r" using A by blast
  show lv: "n \<in> set (D q) \<Longrightarrow> fst n \<in> live s" and k: "n \<in> set (D q) \<Longrightarrow> snd n < 2"
    using A nd by blast+
  show "n \<in> set (D q) \<Longrightarrow> isUsed (heap s (fst n)) (snd n)"
  proof -
    assume n: "n \<in> set (D q)"
    have "\<forall>d\<in>live s. \<forall>k<2. isUsed (heap s d) k \<longleftrightarrow> (d, k) \<in> nodes D" using A by blast
    then show ?thesis using lv [OF n] k [OF n] nd [OF n] by simp
  qed
  show "d \<in> live s \<Longrightarrow> k < 2 \<Longrightarrow> isUsed (heap s d) k \<Longrightarrow> \<exists>q. (d, k) \<in> set (D q)"
  proof -
    assume "d \<in> live s" "k < 2" "isUsed (heap s d) k"
    then have "(d, k) \<in> nodes D" using A by blast
    then show ?thesis by (auto simp: nodes_def)
  qed
qed

text \<open>The fields that the lists consist of.\<close>

definition links :: "dinst \<Rightarrow> node option \<times> node option \<times> (nat \<Rightarrow> node option) \<times> (nat \<Rightarrow> bool) \<times> nat" where
  "links x = (d_first x, d_last x, nextDep x, isUsed x, nDeps x)"

lemma links_eq: "links x = links y \<longleftrightarrow> d_first x = d_first y \<and> d_last x = d_last y \<and> nextDep x = nextDep y \<and>
    isUsed x = isUsed y \<and> nDeps x = nDeps y"
  by (auto simp: links_def)

lemma deps_ok_cong:
  assumes "live s' = live s" "\<And>d. links (heap s' d) = links (heap s d)"
  shows "deps_ok D s' = deps_ok D s"
proof -
  have e: "d_first (heap s' d) = d_first (heap s d)" "d_last (heap s' d) = d_last (heap s d)"
      "nextDep (heap s' d) = nextDep (heap s d)" "isUsed (heap s' d) = isUsed (heap s d)" "nDeps (heap s' d) = nDeps (heap s d)" for d
    using assms(2) [of d] by (simp_all add: links_eq)
  have "chain (heap s') x ns = chain (heap s) x ns" for x ns by (rule deps_chain_cong) (simp add: e)
  then show ?thesis unfolding deps_ok_def assms(1) e by simp
qed

lemma deps_first:
  assumes "deps_ok D s" "q \<in> live s"
  shows "d_first (heap s q) = (case D q of [] \<Rightarrow> None | n # _ \<Rightarrow> Some n)"
  using deps_okD(1) [OF assms] by (cases "D q") auto

lemma hasDeps_ok:
  assumes "deps_ok D s" "d \<in> live s"
  shows "hasDeps d s = Some (nDeps (heap s d) \<noteq> 0)"
  using deps_okD(9) [OF assms] assms(2) by (simp add: hasDeps_def I_check_def)

lemma deps_use:
  assumes "deps_ok D s" "d \<in> live s"
  shows "nDeps (heap s d) = 0 \<longleftrightarrow> (d, 0) \<notin> nodes D \<and> (d, 1) \<notin> nodes D"
    and "k < 2 \<Longrightarrow> isUsed (heap s d) k \<longleftrightarrow> (d, k) \<in> nodes D"
proof -
  have u: "k < 2 \<Longrightarrow> isUsed (heap s d) k \<longleftrightarrow> (d, k) \<in> nodes D" for k
    using assms unfolding deps_ok_def by blast
  then show "k < 2 \<Longrightarrow> isUsed (heap s d) k \<longleftrightarrow> (d, k) \<in> nodes D" .
  show "nDeps (heap s d) = 0 \<longleftrightarrow> (d, 0) \<notin> nodes D \<and> (d, 1) \<notin> nodes D"
    using deps_okD(9) [OF assms] u [of 0] u [of 1] by simp
qed

subsection \<open>Changes of the lists\<close>

text \<open>Two states that differ in the links only.\<close>

definition unlink :: "dinst \<Rightarrow> dinst" where
  "unlink x = x\<lparr>d_first := None, d_last := None, nextDep := \<lambda>_. None, isUsed := \<lambda>_. False, nDeps := 0\<rparr>"

definition relinked :: "world \<Rightarrow> world \<Rightarrow> bool" where
  "relinked s s' \<longleftrightarrow> (\<exists>h. s' = s\<lparr>heap := h\<rparr> \<and> (\<forall>x. unlink (h x) = unlink (heap s x)))"

lemma unlink_fields:
  assumes "unlink x = unlink y"
  shows "d_inst x = d_inst y" "d_vaddr x = d_vaddr y" "d_cId x = d_cId y" "loadForwarded x = loadForwarded y"
    "issued x = issued y" "executed x = executed y" "depsAtRetire x = depsAtRetire y" "deadStore x = deadStore y"
    "deadInst x = deadInst y" "resolved x = resolved y" "wakeUpTime x = wakeUpTime y" "d_resource x = d_resource y"
    "RATEntry x = RATEntry y" "pendEvent x = pendEvent y" "d_fetch x = d_fetch y"
  using arg_cong [OF assms, of d_inst]
    arg_cong [OF assms, of d_vaddr]
    arg_cong [OF assms, of d_cId]
    arg_cong [OF assms, of loadForwarded]
    arg_cong [OF assms, of issued]
    arg_cong [OF assms, of executed]
    arg_cong [OF assms, of depsAtRetire]
    arg_cong [OF assms, of deadStore]
    arg_cong [OF assms, of deadInst]
    arg_cong [OF assms, of resolved]
    arg_cong [OF assms, of wakeUpTime]
    arg_cong [OF assms, of d_resource]
    arg_cong [OF assms, of RATEntry]
    arg_cong [OF assms, of pendEvent]
    arg_cong [OF assms, of d_fetch]
  by (simp_all add: unlink_def)

lemma relinked_simps:
  assumes "relinked s s'"
  shows "live s' = live s" "now s' = now s" "events s' = events s" "memReads s' = memReads s"
    "memWrites s' = memWrites s" "stores s' = stores s" "fences s' = fences s" "cores s' = cores s"
    "validVAddr s' = validVAddr s" "InstTable s' = InstTable s" "called s' = called s" "issueNo s' = issueNo s" "stamp s' = stamp s"
    "d_inst (heap s' x) = d_inst (heap s x)" "d_vaddr (heap s' x) = d_vaddr (heap s x)"
    "d_cId (heap s' x) = d_cId (heap s x)" "loadForwarded (heap s' x) = loadForwarded (heap s x)"
    "issued (heap s' x) = issued (heap s x)" "executed (heap s' x) = executed (heap s x)"
    "depsAtRetire (heap s' x) = depsAtRetire (heap s x)" "deadStore (heap s' x) = deadStore (heap s x)"
    "deadInst (heap s' x) = deadInst (heap s x)" "resolved (heap s' x) = resolved (heap s x)"
    "wakeUpTime (heap s' x) = wakeUpTime (heap s x)" "d_resource (heap s' x) = d_resource (heap s x)"
    "RATEntry (heap s' x) = RATEntry (heap s x)" "pendEvent (heap s' x) = pendEvent (heap s x)"
    "d_fetch (heap s' x) = d_fetch (heap s x)"
  using assms unlink_fields [of "heap s' x" "heap s x"] by (auto simp: relinked_def)

lemma nodes_append: "nodes (D(q := D q @ [n])) = insert n (nodes D)"
  by (auto simp: nodes_def split: if_splits)

lemma addSrc_ok:
  assumes D: "deps_ok D s" and q: "q \<in> live s" and d: "d \<in> live s" and k: "k < 2" and u: "\<not> isUsed (heap s d) k"
  shows "\<exists>s'. addSrc k q d s = Some s' \<and> deps_ok (D(q := D q @ [(d, k)])) s' \<and> relinked s s'"
proof -
  note I = deps_okD [OF D]
  have nd: "nDeps (heap s d) < 2" using I(9) [OF d] u k by (auto simp: less_2_cases_iff)
  define s1 where "s1 = upd_d d (\<lambda>x. x\<lparr>nDeps := nDeps x + 1, isUsed := (isUsed x)(k := True)\<rparr>) s"
  define s2 where "s2 = (if D q = [] then upd_d q (\<lambda>x. x\<lparr>d_first := Some (d, k)\<rparr>) s1
    else upd_d (fst (last (D q))) (\<lambda>x. x\<lparr>nextDep := (nextDep x)(snd (last (D q)) := Some (d, k))\<rparr>) s1)"
  define s3 where "s3 = upd_d d (\<lambda>x. x\<lparr>nextDep := (nextDep x)(k := None)\<rparr>) s2"
  define s' where "s' = upd_d q (\<lambda>x. x\<lparr>d_last := Some (d, k)\<rparr>) s3"
  note sd = s1_def s2_def s3_def s'_def
  have lastI: "D q \<noteq> [] \<Longrightarrow> fst (last (D q)) \<in> live s" using I(6) [of "last (D q)" q] by simp
  have fN: "d_first (heap s q) = None \<longleftrightarrow> D q = []" using deps_first [OF D q] by (auto split: list.split)
  have fN1: "d_first (heap s1 q) = None \<longleftrightarrow> D q = []" "d_last (heap s1 q) = d_last (heap s q)"
    using fN by (auto simp: s1_def)
  have "addSrc k q d s = Some s'"
    using nd u d q lastI I(2) [OF q] fN1
    by (auto simp: addSrc_def Let_def s1_def [symmetric] s2_def s3_def s'_def deref_def I_check_def s1_def)
  moreover have rl: "relinked s s'"
    unfolding relinked_def by (intro exI [of _ "heap s'"]) (auto simp: sd upd_d_def unlink_def)
  moreover have f: "d_first (heap s' x) = (if x = q \<and> D q = [] then Some (d, k) else d_first (heap s x))"
      and l: "d_last (heap s' x) = (if x = q then Some (d, k) else d_last (heap s x))"
      and us: "isUsed (heap s' x) = (if x = d then (isUsed (heap s d))(k := True) else isUsed (heap s x))"
      and ns: "nDeps (heap s' x) = (if x = d then nDeps (heap s d) + 1 else nDeps (heap s x))"
      and nx: "nextDep (heap s' x) j = (if (x, j) = (d, k) then None
        else if D q \<noteq> [] \<and> (x, j) = last (D q) then Some (d, k) else nextDep (heap s x) j)" for x j
    by (cases "last (D q)"; auto simp: sd)+
  have notin: "(d, k) \<notin> set (D r)" for r using I(8) [of "(d, k)" r] u by auto
  have lv: "live s' = live s" using relinked_simps(1) [OF rl] .
  have lq: "last (D q) \<notin> set (D r)" if "D q \<noteq> []" "r \<noteq> q" for r
    using I(5) [of "last (D q)" q r] that by auto
  have ch: "chain (heap s') (d_first (heap s' r)) ((D(q := D q @ [(d, k)])) r)" if "r \<in> live s" for r
  proof (cases "r = q")
    case False
    have "chain (heap s') (d_first (heap s r)) (D r) = chain (heap s) (d_first (heap s r)) (D r)"
    proof (rule deps_chain_cong)
      fix n assume "n \<in> set (D r)"
      then have "n \<noteq> (d, k)" "D q \<noteq> [] \<longrightarrow> n \<noteq> last (D q)" using notin lq False by auto
      then show "nextDep (heap s' (fst n)) (snd n) = nextDep (heap s (fst n)) (snd n)" by (auto simp: nx)
    qed
    then show ?thesis using False f I(1) [OF that] by simp
  next
    case True
    show ?thesis
    proof (cases "D q = []")
      case D0: True
      then show ?thesis using True nx [of d k] by (simp add: f)
    next
      case False
      then obtain ms l where ms: "D q = ms @ [l]" by (metis rev_exhaust)
      have "chain (heap s') (d_first (heap s q)) (ms @ [l, (d, k)])"
      proof (rule chain_append_node)
        show "chain (heap s) (d_first (heap s q)) (ms @ [l])" using I(1) [OF q] ms by simp
        fix n assume "n \<in> set ms"
        moreover have "n \<noteq> l" using \<open>n \<in> set ms\<close> I(4) [of q] ms by auto
        moreover have "n \<noteq> (d, k)" using notin [of q] \<open>n \<in> set ms\<close> ms by auto
        ultimately show "nextDep (heap s' (fst n)) (snd n) = nextDep (heap s (fst n)) (snd n)"
          using ms by (auto simp: nx)
      next
        have "l \<noteq> (d, k)" using notin [of q] ms by auto
        then show "nextDep (heap s' (fst l)) (snd l) = Some (d, k)" using ms by (auto simp: nx)
      qed (simp add: nx)
      then show ?thesis using True False ms by (simp add: f)
    qed
  qed
  have "deps_ok (D(q := D q @ [(d, k)])) s'"
    unfolding deps_ok_def nodes_append lv
  proof (intro conjI)
    let ?D = "D(q := D q @ [(d, k)])"
    show "\<forall>r\<in>live s. chain (heap s') (d_first (heap s' r)) (?D r) \<and> (?D r \<noteq> [] \<longrightarrow> d_last (heap s' r) = Some (last (?D r)))"
      using ch I(2) by (auto simp: l)
    show "\<forall>r. r \<notin> live s \<longrightarrow> ?D r = []" using I(3) q by auto
    show "\<forall>r. distinct (?D r)" using I(4) notin by auto
    show "\<forall>x y. x \<noteq> y \<longrightarrow> set (?D x) \<inter> set (?D y) = {}"
    proof (intro allI impI)
      fix x y :: nat assume "x \<noteq> y"
      then have "set (D x) \<inter> set (D y) = {}" using I(5) [of _ x y] by blast
      then show "set (?D x) \<inter> set (?D y) = {}" using notin \<open>x \<noteq> y\<close> by auto
    qed
    show "\<forall>n\<in>insert (d, k) (nodes D). fst n \<in> live s \<and> snd n < 2"
      using d k I(6,7) by (auto simp: nodes_def)
    show "\<forall>x\<in>live s. \<forall>j<2. isUsed (heap s' x) j \<longleftrightarrow> (x, j) \<in> insert (d, k) (nodes D)"
      using deps_use(2) [OF D] by (auto simp: us)
    show "\<forall>x\<in>live s. nDeps (heap s' x) = of_bool (isUsed (heap s' x) 0) + of_bool (isUsed (heap s' x) 1)"
      using I(9) u k by (auto simp: us ns less_2_cases_iff)
    show "\<forall>x. x \<notin> live s \<longrightarrow> nDeps (heap s' x) = 0" using I(11) d by (auto simp: ns)
  qed
  then show ?thesis using calculation by blast
qed

lemma getNextPending_ok:
  assumes D: "deps_ok D s" and q: "q \<in> live s" and n: "D q = (d, k) # ns"
  shows "\<exists>s'. getNextPending q s = Some (d, s') \<and> deps_ok (D(q := ns)) s' \<and> relinked s s'"
proof -
  note I = deps_okD [OF D]
  have m: "(d, k) \<in> set (D q)" using n by simp
  have d: "d \<in> live s" and k: "k < 2" and u: "isUsed (heap s d) k" using I(6-8) [OF m] by simp_all
  have fq: "d_first (heap s q) = Some (d, k)" using deps_first [OF D q] n by simp
  have nd: "0 < nDeps (heap s d)" using I(9) [OF d] u k by (auto simp: less_2_cases_iff)
  define s1 where "s1 = upd_d d (\<lambda>x. x\<lparr>nDeps := nDeps x - 1, isUsed := (isUsed x)(k := False)\<rparr>) s"
  define s' where "s' = upd_d q (\<lambda>t. t\<lparr>d_first := nextDep (heap s d) k\<rparr>) s1"
  note sd = s1_def s'_def
  have "getNextPending q s = Some (d, s')"
    using d q fq nd by (simp add: getNextPending_def Let_def sd)
  moreover have rl: "relinked s s'"
    unfolding relinked_def by (intro exI [of _ "heap s'"]) (auto simp: sd upd_d_def unlink_def)
  moreover have f: "d_first (heap s' x) = (if x = q then nextDep (heap s d) k else d_first (heap s x))"
      and l: "d_last (heap s' x) = d_last (heap s x)"
      and us: "isUsed (heap s' x) = (if x = d then (isUsed (heap s d))(k := False) else isUsed (heap s x))"
      and nds: "nDeps (heap s' x) = (if x = d then nDeps (heap s d) - 1 else nDeps (heap s x))"
      and nx: "nextDep (heap s' x) = nextDep (heap s x)" for x
    by (auto simp: sd)
  have lv: "live s' = live s" using relinked_simps(1) [OF rl] .
  have cc: "chain (heap s') e ms = chain (heap s) e ms" for e ms by (rule deps_chain_cong) (simp add: nx)
  have out: "(d, k) \<notin> set ns" and out': "r \<noteq> q \<Longrightarrow> (d, k) \<notin> set (D r)" for r
    using I(4) [of q] I(5) [OF m, of r] n by auto
  have nodes: "nodes (D(q := ns)) = nodes D - {(d, k)}"
  proof -
    have "n \<in> nodes (D(q := ns)) \<longleftrightarrow> n \<in> nodes D - {(d, k)}" for n
    proof (cases "n = (d, k)")
      case True
      then show ?thesis using out out' by (auto simp: nodes_def)
    next
      case False
      have "n \<in> set ((D(q := ns)) r) \<longleftrightarrow> n \<in> set (D r)" for r using False n by auto
      then show ?thesis using False by (simp add: nodes_def)
    qed
    then show ?thesis by blast
  qed
  have "deps_ok (D(q := ns)) s'"
    unfolding deps_ok_def nodes lv
  proof (intro conjI)
    let ?D = "D(q := ns)"
    show "\<forall>r\<in>live s. chain (heap s') (d_first (heap s' r)) (?D r) \<and> (?D r \<noteq> [] \<longrightarrow> d_last (heap s' r) = Some (last (?D r)))"
    proof (intro ballI conjI impI)
      fix r assume r: "r \<in> live s"
      have "chain (heap s) (nextDep (heap s d) k) ns" using I(1) [OF q] n by simp
      then show "chain (heap s') (d_first (heap s' r)) (?D r)" using I(1) [OF r] by (auto simp: cc f)
      show "d_last (heap s' r) = Some (last (?D r))" if "?D r \<noteq> []"
        using I(2) [OF r] that n by (auto simp: l split: if_splits)
    qed
    show "\<forall>r. r \<notin> live s \<longrightarrow> ?D r = []" using I(3) q by auto
    show "\<forall>r. distinct (?D r)" using I(4) [of q] I(4) n by auto
    show "\<forall>x y. x \<noteq> y \<longrightarrow> set (?D x) \<inter> set (?D y) = {}"
    proof (intro allI impI)
      fix x y :: nat assume "x \<noteq> y"
      then have "set (D x) \<inter> set (D y) = {}" using I(5) [of _ x y] by blast
      then show "set (?D x) \<inter> set (?D y) = {}" using n \<open>x \<noteq> y\<close> by (auto simp: fun_upd_def split: if_splits)
    qed
    show "\<forall>n\<in>nodes D - {(d, k)}. fst n \<in> live s \<and> snd n < 2"
      using I(6,7) by (auto simp: nodes_def)
    show "\<forall>x\<in>live s. \<forall>j<2. isUsed (heap s' x) j \<longleftrightarrow> (x, j) \<in> nodes D - {(d, k)}"
      using deps_use(2) [OF D] by (auto simp: us)
    show "\<forall>x\<in>live s. nDeps (heap s' x) = of_bool (isUsed (heap s' x) 0) + of_bool (isUsed (heap s' x) 1)"
      using I(9) u k by (auto simp: us nds less_2_cases_iff)
    show "\<forall>x. x \<notin> live s \<longrightarrow> nDeps (heap s' x) = 0" using I(11) d by (auto simp: nds)
  qed
  then show ?thesis using calculation by blast
qed

end
