(* ===== verification/Core_Inv.thy ===== *)
theory Core_Inv
  imports Core_Deps
begin

text \<open>
  The invariant of the cores. \<open>pl\<close> says where an instruction is, \<open>D\<close> gives the lists of dependents,
  and \<open>E\<close> holds the instructions that have executed but whose dependents are still being woken, which
  is the empty set between two steps. \<open>static_ok\<close> collects what the execution of instructions
  does not touch.
\<close>

subsection \<open>Ports\<close>

definition port_ok :: "port \<Rightarrow> bool" where
  "port_ok p = (case p of PortFullyNPipe u \<Rightarrow> fully_ok u | PortNPipe u \<Rightarrow> npipe_ok u | _ \<Rightarrow> True)"

lemma grant_after: "B \<noteq> {#} \<Longrightarrow> c \<le> fst (grant occ (at_clock c B))"
proof -
  assume "B \<noteq> {#}"
  then have "Min_mset (at_clock c B) \<in># at_clock c B" by (intro Min_in) auto
  then show ?thesis by (auto simp: grant_def)
qed

lemma port_nextSlot_ok:
  assumes "port_ok p"
  shows "\<exists>t q. Port_nextSlot c p = Some (t, q) \<and> port_ok q \<and> c \<le> t"
proof (cases p)
  case (PortUnlimited u)
  then show ?thesis by (simp add: Port_nextSlot_def port_ok_def Unlimited_nextSlot_def apsnd_def)
next
  case (PortFullyPipe u)
  then show ?thesis using fully_pipe.nextSlot_law [OF TrueI, of c u] grant_after [of "{#lTime u#}" c 1]
    by (auto simp: Port_nextSlot_def port_ok_def apsnd_def)
next
  case (PortFullyNPipe u)
  then have "fully_ok u" using assms by (simp add: port_ok_def)
  then show ?thesis using fully_npipe.nextSlot_law [of u c] grant_after [of "fully_units u" c 1]
      fully_npipe.units_ne [of u] PortFullyNPipe
    by (auto simp: Port_nextSlot_def port_ok_def apsnd_def)
next
  case (PortPipe u)
  then show ?thesis using pipe.nextSlot_law [OF TrueI, of c u] grant_after [of "{#lTime u#}" c "pp_ocp u"]
    by (auto simp: Port_nextSlot_def port_ok_def apsnd_def)
next
  case (PortNPipe u)
  then have "npipe_ok u" using assms by (simp add: port_ok_def)
  then show ?thesis using npipe.nextSlot_law [of u c] grant_after [of "mset (portBusyUntil u)" c "np_ocp u"]
      npipe.units_ne [of u] PortNPipe
    by (auto simp: Port_nextSlot_def port_ok_def apsnd_def)
qed

lemma port_create_ok: "Port_create c n occ = Some p \<Longrightarrow> port_ok p"
  by (auto simp: Port_create_def port_ok_def npipe_ok_def NPipe_new_def fully_ok_def FullyNPipe_new_def split: if_splits)

subsection \<open>What does not change while instructions execute\<close>

definition body :: "dinst \<Rightarrow> dinst" where
  "body x = (unlink x)\<lparr>executed := False, resolved := False, wakeUpTime := 0, sequenceNum := 0, coreID := 0\<rparr>"

definition core_body :: "core \<Rightarrow> core" where
  "core_body c = c\<lparr>clusters := undefined, gens := undefined, RAT := undefined, freeBranches := 0, unblocked := 0,
     clockTicks := 0, sequenceCount := 0\<rparr>"

definition cluster_body :: "cluster \<Rightarrow> cluster" where
  "cluster_body c = c\<lparr>windowSize := 0, wakeUpPort := undefined, schedPort := undefined\<rparr>"

definition frame :: "world \<Rightarrow> world \<Rightarrow> bool" where
  "frame s s' \<longleftrightarrow> now s' = now s \<and> live s' = live s \<and> memWrites s' = memWrites s \<and> stores s' = stores s \<and>
     validVAddr s' = validVAddr s \<and> InstTable s' = InstTable s \<and> issueNo s' = issueNo s \<and> stamp s' = stamp s \<and>
     (\<forall>d. body (heap s' d) = body (heap s d)) \<and> (\<forall>d. executed (heap s d) \<longrightarrow> executed (heap s' d)) \<and>
     (\<forall>p. core_body (cores s' p) = core_body (cores s p)) \<and>
     (\<forall>p k. cluster_body (clusters (cores s' p) k) = cluster_body (clusters (cores s p) k))"

lemma body_fields:
  assumes "body x = body y"
  shows "d_inst x = d_inst y" "d_vaddr x = d_vaddr y" "d_cId x = d_cId y" "loadForwarded x = loadForwarded y"
    "issued x = issued y" "depsAtRetire x = depsAtRetire y" "deadStore x = deadStore y"
    "deadInst x = deadInst y" "d_resource x = d_resource y"
    "RATEntry x = RATEntry y" "pendEvent x = pendEvent y" "d_fetch x = d_fetch y"
  using arg_cong [OF assms, of d_inst]
    arg_cong [OF assms, of d_vaddr]
    arg_cong [OF assms, of d_cId]
    arg_cong [OF assms, of loadForwarded]
    arg_cong [OF assms, of issued]
    arg_cong [OF assms, of depsAtRetire]
    arg_cong [OF assms, of deadStore]
    arg_cong [OF assms, of deadInst]
    arg_cong [OF assms, of d_resource]
    arg_cong [OF assms, of RATEntry]
    arg_cong [OF assms, of pendEvent]
    arg_cong [OF assms, of d_fetch]
  by (simp_all add: body_def unlink_def)

lemma core_body_fields:
  assumes "core_body x = core_body y"
  shows "FetchWidth x = FetchWidth y" "IssueWidth x = IssueWidth y" "RetireWidth x = RetireWidth y"
    "InstQueueSize x = InstQueueSize y" "InOrderCore x = InOrderCore y" "MaxROBSize x = MaxROBSize y"
    "intRegs x = intRegs y" "fpRegs x = fpRegs y" "units x = units y" "ROB x = ROB y" "replayQ x = replayQ y"
    "pipe x = pipe y" "instQueue x = instQueue y" "spaceInInstQueue x = spaceInInstQueue y"
    "regPool x = regPool y" "freeLoads x = freeLoads y" "freeStores x = freeStores y"
    "pendingFence x = pendingFence y" "nOutsStores x = nOutsStores y" "inflightInsts x = inflightInsts y"
    "instMap x = instMap y" "canAcceptLoad x = canAcceptLoad y"
  using arg_cong [OF assms, of FetchWidth]
    arg_cong [OF assms, of IssueWidth]
    arg_cong [OF assms, of RetireWidth]
    arg_cong [OF assms, of InstQueueSize]
    arg_cong [OF assms, of InOrderCore]
    arg_cong [OF assms, of MaxROBSize]
    arg_cong [OF assms, of intRegs]
    arg_cong [OF assms, of fpRegs]
    arg_cong [OF assms, of units]
    arg_cong [OF assms, of ROB]
    arg_cong [OF assms, of replayQ]
    arg_cong [OF assms, of pipe]
    arg_cong [OF assms, of instQueue]
    arg_cong [OF assms, of spaceInInstQueue]
    arg_cong [OF assms, of regPool]
    arg_cong [OF assms, of freeLoads]
    arg_cong [OF assms, of freeStores]
    arg_cong [OF assms, of pendingFence]
    arg_cong [OF assms, of nOutsStores]
    arg_cong [OF assms, of inflightInsts]
    arg_cong [OF assms, of instMap]
    arg_cong [OF assms, of canAcceptLoad]
  by (simp_all add: core_body_def)

lemma cluster_body_fields:
  assumes "cluster_body x = cluster_body y"
  shows "recycleAt x = recycleAt y" "MaxWinSize x = MaxWinSize y"
  using arg_cong [OF assms, of recycleAt]
    arg_cong [OF assms, of MaxWinSize]
  by (simp_all add: cluster_body_def)

lemma frame_simps:
  assumes "frame s s'"
  shows "now s' = now s" "live s' = live s" "memWrites s' = memWrites s" "stores s' = stores s"
    "validVAddr s' = validVAddr s" "InstTable s' = InstTable s" "issueNo s' = issueNo s" "stamp s' = stamp s"
    "d_inst (heap s' x) = d_inst (heap s x)" "d_vaddr (heap s' x) = d_vaddr (heap s x)"
    "d_cId (heap s' x) = d_cId (heap s x)" "loadForwarded (heap s' x) = loadForwarded (heap s x)"
    "issued (heap s' x) = issued (heap s x)" "depsAtRetire (heap s' x) = depsAtRetire (heap s x)"
    "deadStore (heap s' x) = deadStore (heap s x)" "deadInst (heap s' x) = deadInst (heap s x)"
    "d_resource (heap s' x) = d_resource (heap s x)" "RATEntry (heap s' x) = RATEntry (heap s x)"
    "pendEvent (heap s' x) = pendEvent (heap s x)" "d_fetch (heap s' x) = d_fetch (heap s x)"
    "FetchWidth (cores s' p) = FetchWidth (cores s p)" "IssueWidth (cores s' p) = IssueWidth (cores s p)"
    "RetireWidth (cores s' p) = RetireWidth (cores s p)" "InstQueueSize (cores s' p) = InstQueueSize (cores s p)"
    "InOrderCore (cores s' p) = InOrderCore (cores s p)" "MaxROBSize (cores s' p) = MaxROBSize (cores s p)"
    "intRegs (cores s' p) = intRegs (cores s p)" "fpRegs (cores s' p) = fpRegs (cores s p)"
    "units (cores s' p) = units (cores s p)" "ROB (cores s' p) = ROB (cores s p)"
    "replayQ (cores s' p) = replayQ (cores s p)" "pipe (cores s' p) = pipe (cores s p)"
    "instQueue (cores s' p) = instQueue (cores s p)" "spaceInInstQueue (cores s' p) = spaceInInstQueue (cores s p)"
    "regPool (cores s' p) = regPool (cores s p)" "freeLoads (cores s' p) = freeLoads (cores s p)"
    "freeStores (cores s' p) = freeStores (cores s p)" "pendingFence (cores s' p) = pendingFence (cores s p)"
    "nOutsStores (cores s' p) = nOutsStores (cores s p)" "inflightInsts (cores s' p) = inflightInsts (cores s p)"
    "instMap (cores s' p) = instMap (cores s p)" "canAcceptLoad (cores s' p) = canAcceptLoad (cores s p)"
    "recycleAt (clusters (cores s' p) k) = recycleAt (clusters (cores s p) k)"
    "MaxWinSize (clusters (cores s' p) k) = MaxWinSize (clusters (cores s p) k)"
    "cluster_no p ty s' = cluster_no p ty s"
  using assms body_fields [of "heap s' x" "heap s x"] core_body_fields [of "cores s' p" "cores s p"]
    cluster_body_fields [of "clusters (cores s' p) k" "clusters (cores s p) k"]
  by (auto simp: frame_def cluster_no_def)

lemma frame_refl [simp]: "frame s s" by (simp add: frame_def)

lemma frame_trans [trans]: "frame s t \<Longrightarrow> frame t u \<Longrightarrow> frame s u"
  by (auto simp: frame_def)

lemma frame_executed: "frame s s' \<Longrightarrow> executed (heap s d) \<Longrightarrow> executed (heap s' d)"
  by (simp add: frame_def)

subsection \<open>Places and counters\<close>

datatype place = Waiting nat | InROB nat | Sent nat | Dying nat

definition instr_ok :: "instr \<Rightarrow> bool" where
  "instr_ok i \<longleftrightarrow> opcode i \<noteq> iOpInvalid \<and> getSrc1 i < InvalidOutput \<and> getSrc2 i < InvalidOutput \<and>
     getDest i \<noteq> NoDependence \<and> getDest i \<le> InvalidOutput \<and> getDstPool i < 3 \<and>
     (isLoad i \<longrightarrow> getSrc2 i = NoDependence) \<and> (isStore i \<longrightarrow> getDest i = InvalidOutput) \<and>
     (opcode i = iEvent \<longrightarrow> getDest i = InvalidOutput \<and> getEvent i = PostEvent) \<and>
     (isFence i \<longrightarrow> subCode i \<in> {iFetchOp, iMemFence, iAcquire, iRelease})"

definition dyn_ok :: "world \<Rightarrow> dinst \<Rightarrow> bool" where
  "dyn_ok s x \<longleftrightarrow> instr_ok (d_inst x) \<and> d_inst x \<in> range (InstTable s) \<and> \<not> deadInst x \<and>
     (loadForwarded x \<longrightarrow> isLoad (d_inst x)) \<and>
     (opcode (d_inst x) = iEvent \<longrightarrow> d_vaddr x = 0 \<and> pendEvent x \<noteq> None) \<and>
     (isStore (d_inst x) \<or> isFence (d_inst x) \<longrightarrow> validVAddr s (d_vaddr x))"

definition fresh :: "dinst \<Rightarrow> bool" where
  "fresh x \<longleftrightarrow> \<not> issued x \<and> \<not> depsAtRetire x \<and> \<not> loadForwarded x \<and> \<not> deadStore x \<and>
     d_resource x = None \<and> RATEntry x = None"

definition runs_on :: "nat \<Rightarrow> dinst \<Rightarrow> bool" where
  "runs_on p x \<longleftrightarrow> issued x \<and> d_resource x = Some (p, opcode (d_inst x)) \<and> RATEntry x = Some (p, getDest (d_inst x))"

definition place_ok :: "(nat \<Rightarrow> place option) \<Rightarrow> world \<Rightarrow> bool" where
  "place_ok pl s \<longleftrightarrow>
     finite (live s) \<and> live s = dom pl \<and>
     (\<forall>p. distinct (ROB (cores s p)) \<and> set (ROB (cores s p)) = {d. pl d = Some (InROB p)}) \<and>
     (\<forall>p. distinct (concat (instQueue (cores s p)) @ concat (pipe (cores s p))) \<and>
        {d. pl d = Some (Waiting p)} \<subseteq> set (concat (instQueue (cores s p)) @ concat (pipe (cores s p))) \<and>
        [] \<notin> set (instQueue (cores s p)) \<and> [] \<notin> set (pipe (cores s p)) \<and> replayQ (cores s p) = []) \<and>
     (\<forall>d. count (memWrites s) d = of_bool (\<exists>p. pl d = Some (Sent p))) \<and>
     (\<forall>d\<in>live s. dyn_ok s (heap s d)) \<and>
     (\<forall>d p. pl d = Some (Waiting p) \<longrightarrow> fresh (heap s d)) \<and>
     (\<forall>d p. pl d = Some (InROB p) \<or> pl d = Some (Sent p) \<or> pl d = Some (Dying p) \<longrightarrow> runs_on p (heap s d)) \<and>
     (\<forall>d p. pl d = Some (Sent p) \<longrightarrow> isStore (d_inst (heap s d)) \<or> isFence (d_inst (heap s d)))"

definition isMem :: "instr \<Rightarrow> bool" where "isMem i \<longleftrightarrow> isLoad i \<or> isStore i"

definition regs :: "core \<Rightarrow> nat \<Rightarrow> int" where
  "regs c r = (if r = 0 then intRegs c else if r = 1 then fpRegs c else 262144)"

definition count_ok :: "(nat \<Rightarrow> place option) \<Rightarrow> world \<Rightarrow> bool" where
  "count_ok pl s \<longleftrightarrow> (\<forall>p. let c = cores s p in
     (\<forall>r<3. 0 \<le> regPool c r \<and>
        regPool c r + int (length (filter (\<lambda>d. getDstPool (d_inst (heap s d)) = r) (ROB c))) = regs c r) \<and>
     0 \<le> freeLoads c \<and> 0 \<le> freeStores c \<and>
     nOutsStores c = int (card {d. pl d = Some (Sent p)}) \<and> (pendingFence c \<longrightarrow> 0 < nOutsStores c) \<and>
     length (ROB c) \<le> MaxROBSize c \<and>
     spaceInInstQueue c + int (length (concat (instQueue c))) \<le> int (InstQueueSize c) \<and> 0 \<le> spaceInInstQueue c \<and>
     (\<forall>b\<in>set (pipe c). length b \<le> FetchWidth c))"

definition lsq_ok :: "(nat \<Rightarrow> place option) \<Rightarrow> world \<Rightarrow> bool" where
  "lsq_ok pl s \<longleftrightarrow>
     (\<forall>p. let c = cores s p; ms = filter (\<lambda>d. isMem (d_inst (heap s d))) (ROB c) in
        inflightInsts c = set ms \<and>
        (\<forall>w. instMap c w = (let ws = filter (\<lambda>d. calcWord (heap s d) = w) ms in if ws = [] then None else Some ws))) \<and>
     (\<forall>w d. stores s w = Some d \<longrightarrow> (\<exists>p. pl d = Some (InROB p)) \<and> isStore (d_inst (heap s d)) \<and>
        calcWord (heap s d) = w \<and> \<not> deadStore (heap s d))"

definition conf_ok :: "world \<Rightarrow> bool" where
  "conf_ok s \<longleftrightarrow> 0 < now s \<and>
     (\<forall>i j. getAddr (InstTable s i) = getAddr (InstTable s j) \<longrightarrow> opcode (InstTable s i) = opcode (InstTable s j)) \<and>
     (\<forall>p. \<not> InOrderCore (cores s p) \<and> units (cores s p) iStore = units (cores s p) iFence \<and>
        0 < FetchWidth (cores s p) \<and> 0 < RetireWidth (cores s p))"

definition static_ok :: "(nat \<Rightarrow> place option) \<Rightarrow> world \<Rightarrow> bool" where
  "static_ok pl s \<longleftrightarrow> place_ok pl s \<and> count_ok pl s \<and> lsq_ok pl s \<and> conf_ok s"

lemma placeD:
  assumes "place_ok pl s"
  shows "finite (live s)" "live s = dom pl" "distinct (ROB (cores s p))"
    "d \<in> set (ROB (cores s p)) \<longleftrightarrow> pl d = Some (InROB p)"
    "distinct (concat (instQueue (cores s p)) @ concat (pipe (cores s p)))"
    "pl d = Some (Waiting p) \<Longrightarrow> d \<in> set (concat (instQueue (cores s p)) @ concat (pipe (cores s p)))"
    "[] \<notin> set (instQueue (cores s p))" "[] \<notin> set (pipe (cores s p))" "replayQ (cores s p) = []"
    "count (memWrites s) d = of_bool (\<exists>p. pl d = Some (Sent p))"
    "d \<in> live s \<Longrightarrow> dyn_ok s (heap s d)" "pl d = Some (Waiting p) \<Longrightarrow> fresh (heap s d)"
    "pl d = Some (InROB p) \<Longrightarrow> runs_on p (heap s d)" "pl d = Some (Sent p) \<Longrightarrow> runs_on p (heap s d)"
    "pl d = Some (Dying p) \<Longrightarrow> runs_on p (heap s d)"
    "pl d = Some (Sent p) \<Longrightarrow> isStore (d_inst (heap s d)) \<or> isFence (d_inst (heap s d))"
proof -
  note P = assms [unfolded place_ok_def]
  show "finite (live s)" "live s = dom pl" "distinct (ROB (cores s p))"
    "distinct (concat (instQueue (cores s p)) @ concat (pipe (cores s p)))"
    "[] \<notin> set (instQueue (cores s p))" "[] \<notin> set (pipe (cores s p))" "replayQ (cores s p) = []"
    "count (memWrites s) d = of_bool (\<exists>p. pl d = Some (Sent p))"
    "d \<in> live s \<Longrightarrow> dyn_ok s (heap s d)" "pl d = Some (Waiting p) \<Longrightarrow> fresh (heap s d)"
    "pl d = Some (InROB p) \<Longrightarrow> runs_on p (heap s d)" "pl d = Some (Sent p) \<Longrightarrow> runs_on p (heap s d)"
    "pl d = Some (Dying p) \<Longrightarrow> runs_on p (heap s d)"
    "pl d = Some (Sent p) \<Longrightarrow> isStore (d_inst (heap s d)) \<or> isFence (d_inst (heap s d))"
    using P by blast+
  have "set (ROB (cores s p)) = {d. pl d = Some (InROB p)}" using P by blast
  then show "d \<in> set (ROB (cores s p)) \<longleftrightarrow> pl d = Some (InROB p)" by simp
  have "{d. pl d = Some (Waiting p)} \<subseteq> set (concat (instQueue (cores s p)) @ concat (pipe (cores s p)))" using P by blast
  then show "pl d = Some (Waiting p) \<Longrightarrow> d \<in> set (concat (instQueue (cores s p)) @ concat (pipe (cores s p)))" by blast
qed

lemma staticD:
  assumes "static_ok pl s"
  shows "place_ok pl s" "count_ok pl s" "lsq_ok pl s" "conf_ok s"
  using assms by (simp_all add: static_ok_def)

lemma static_frame:
  assumes "frame s s'"
  shows "static_ok pl s' = static_ok pl s"
proof -
  note F = frame_simps [OF assms]
  have 1: "dyn_ok s' (heap s' d) = dyn_ok s (heap s d)" "fresh (heap s' d) = fresh (heap s d)"
    "runs_on p (heap s' d) = runs_on p (heap s d)" "calcWord (heap s' d) = calcWord (heap s d)" for d p
    by (simp_all add: dyn_ok_def fresh_def runs_on_def calcWord_def F)
  have 2: "regs (cores s' p) = regs (cores s p)" for p by (simp add: regs_def F fun_eq_iff)
  show ?thesis
    unfolding static_ok_def place_ok_def count_ok_def lsq_ok_def conf_ok_def Let_def F 1 2 by simp
qed

end
