(* ===== verification/Core_Dyn.thy ===== *)
theory Core_Dyn
  imports Core_Inv
begin

text \<open>
  The parts of the invariant that execution changes: every issued instruction that has not executed
  and waits for nobody has exactly one activity under way; the windows count the instructions that
  hold an entry; the rename table names the youngest writer of a register; an instruction is in the
  list of the youngest older writer of its sources until that one has executed.
\<close>

subsection \<open>Activities\<close>

definition evs :: "world \<Rightarrow> cev multiset" where
  "evs s = image_mset snd (events s)"

fun about :: "cev \<Rightarrow> nat option" where
  "about (SelectCB d) = Some d"
| "about (SimTimeCB d) = Some d"
| "about (ExecutedCB d) = Some d"
| "about (DispatchedCB p d) = Some d"
| "about (IssuedCB p ty d) = None"

definition acts :: "world \<Rightarrow> nat \<Rightarrow> nat" where
  "acts s d = count (image_mset about (evs s)) (Some d) + count (memReads s) d"

definition ready :: "world \<Rightarrow> nat \<Rightarrow> bool" where
  "ready s d \<longleftrightarrow> d \<in> live s \<and> issued (heap s d) \<and> \<not> executed (heap s d) \<and> nDeps (heap s d) = 0"

definition act_ok :: "world \<Rightarrow> bool" where
  "act_ok s \<longleftrightarrow> (\<forall>d. acts s d = of_bool (ready s d)) \<and>
     (\<forall>d\<in>live s. executed (heap s d) \<longrightarrow> issued (heap s d) \<and> nDeps (heap s d) = 0) \<and>
     (\<forall>d. SelectCB d \<in># evs s \<longrightarrow> wakeUpTime (heap s d) = 0) \<and>
     (\<forall>p d. DispatchedCB p d \<in># evs s \<longrightarrow> isLoad (d_inst (heap s d)) \<and> \<not> loadForwarded (heap s d)) \<and>
     (\<forall>d. d \<in># memReads s \<longrightarrow> isLoad (d_inst (heap s d)) \<and> \<not> loadForwarded (heap s d))"

definition time_ok :: "world \<Rightarrow> bool" where
  "time_ok s \<longleftrightarrow> (\<forall>e\<in>#events s. now s \<le> fst e)"

definition ports_ok :: "world \<Rightarrow> bool" where
  "ports_ok s \<longleftrightarrow> (\<forall>p k. port_ok (wakeUpPort (clusters (cores s p) k)) \<and> port_ok (schedPort (clusters (cores s p) k))) \<and>
     (\<forall>p g. port_ok (gens (cores s p) g))"

subsection \<open>Windows\<close>

definition unstarted :: "world \<Rightarrow> nat \<Rightarrow> bool" where
  "unstarted s d \<longleftrightarrow> \<not> executed (heap s d) \<and>
     (nDeps (heap s d) \<noteq> 0 \<or> SelectCB d \<in># evs s \<or> SimTimeCB d \<in># evs s)"

definition holds :: "world \<Rightarrow> nat \<Rightarrow> nat \<Rightarrow> nat \<Rightarrow> bool" where
  "holds s p k d \<longleftrightarrow> cluster_no p (opcode (d_inst (heap s d))) s = k \<and>
     (case recycleAt (clusters (cores s p) k) of
        AtIssue \<Rightarrow> unstarted s d | AtExecute \<Rightarrow> \<not> executed (heap s d) | AtRetire \<Rightarrow> True)"

definition is_issued_cb :: "world \<Rightarrow> nat \<Rightarrow> nat \<Rightarrow> cev \<Rightarrow> bool" where
  "is_issued_cb s p k e = (case e of IssuedCB q ty d \<Rightarrow> q = p \<and> cluster_no p ty s = k | _ \<Rightarrow> False)"

definition used :: "world \<Rightarrow> nat \<Rightarrow> nat \<Rightarrow> nat" where
  "used s p k = length (filter (holds s p k) (ROB (cores s p))) +
     (if recycleAt (clusters (cores s p) k) = AtIssue then size (filter_mset (is_issued_cb s p k) (evs s)) else 0)"

definition win_at :: "cluster \<Rightarrow> nat \<Rightarrow> bool" where
  "win_at c u \<longleftrightarrow> 0 \<le> windowSize c \<and> windowSize c + int u \<le> MaxWinSize c \<and>
     (recycleAt c \<noteq> AtRetire \<longrightarrow> windowSize c + int u = MaxWinSize c)"

definition win_ok :: "world \<Rightarrow> bool" where
  "win_ok s \<longleftrightarrow> (\<forall>p k. win_at (clusters (cores s p) k) (used s p k))"

subsection \<open>Registers and dependences\<close>

definition dest :: "world \<Rightarrow> nat \<Rightarrow> nat" where
  "dest s d = getDest (d_inst (heap s d))"

definition writer :: "world \<Rightarrow> nat \<Rightarrow> nat list \<Rightarrow> nat option" where
  "writer s r xs = (case filter (\<lambda>d. dest s d = r) xs of [] \<Rightarrow> None | ds \<Rightarrow> Some (last ds))"

definition rat_ok :: "world \<Rightarrow> bool" where
  "rat_ok s \<longleftrightarrow> (\<forall>p. \<forall>r<InvalidOutput. RAT (cores s p) r =
     (case writer s r (ROB (cores s p)) of None \<Rightarrow> None | Some d \<Rightarrow> if executed (heap s d) then None else Some d))"

definition dep_ok :: "(nat \<Rightarrow> node list) \<Rightarrow> world \<Rightarrow> bool" where
  "dep_ok D s \<longleftrightarrow> (\<forall>p pre d post q k. ROB (cores s p) = pre @ d # post \<longrightarrow>
     (k = 0 \<and> writer s (getSrc1 (d_inst (heap s d))) pre = Some q \<or>
      k = 1 \<and> writer s (getSrc2 (d_inst (heap s d))) pre = Some q) \<longrightarrow>
     executed (heap s q) \<or> (d, k) \<in> set (D q))"

definition ret_ok :: "nat set \<Rightarrow> (nat \<Rightarrow> node list) \<Rightarrow> (nat \<Rightarrow> place option) \<Rightarrow> world \<Rightarrow> bool" where
  "ret_ok E D pl s \<longleftrightarrow>
     (\<forall>q\<in>E. q \<in> live s \<and> executed (heap s q)) \<and>
     (\<forall>q\<in>live s. executed (heap s q) \<longrightarrow> q \<notin> E \<longrightarrow> \<not> isStore (d_inst (heap s q)) \<longrightarrow> D q = []) \<and>
     (\<forall>q\<in>live s. isStore (d_inst (heap s q)) \<longrightarrow> (\<forall>n\<in>set (D q). snd n = 1 \<and> isLoad (d_inst (heap s (fst n))) \<and>
        (executed (heap s q) \<longrightarrow> q \<notin> E \<longrightarrow> depsAtRetire (heap s (fst n))))) \<and>
     (\<forall>x\<in>live s. depsAtRetire (heap s x) \<longrightarrow> (\<exists>q\<in>live s. isStore (d_inst (heap s q)) \<and> (x, 1) \<in> set (D q))) \<and>
     (\<forall>d p. pl d = Some (Waiting p) \<longrightarrow> D d = [] \<and> (d, 0) \<notin> nodes D \<and> (d, 1) \<notin> nodes D) \<and>
     (\<forall>d p. pl d = Some (Sent p) \<or> pl d = Some (Dying p) \<longrightarrow> executed (heap s d))"

lemma ret_okD:
  assumes "ret_ok E D pl s"
  shows "q \<in> E \<Longrightarrow> q \<in> live s" "q \<in> E \<Longrightarrow> executed (heap s q)"
    "q \<in> live s \<Longrightarrow> executed (heap s q) \<Longrightarrow> q \<notin> E \<Longrightarrow> \<not> isStore (d_inst (heap s q)) \<Longrightarrow> D q = []"
    "q \<in> live s \<Longrightarrow> isStore (d_inst (heap s q)) \<Longrightarrow> n \<in> set (D q) \<Longrightarrow> snd n = 1"
    "q \<in> live s \<Longrightarrow> isStore (d_inst (heap s q)) \<Longrightarrow> n \<in> set (D q) \<Longrightarrow> isLoad (d_inst (heap s (fst n)))"
    "q \<in> live s \<Longrightarrow> isStore (d_inst (heap s q)) \<Longrightarrow> n \<in> set (D q) \<Longrightarrow> executed (heap s q) \<Longrightarrow> q \<notin> E \<Longrightarrow>
       depsAtRetire (heap s (fst n))"
    "x \<in> live s \<Longrightarrow> depsAtRetire (heap s x) \<Longrightarrow> \<exists>q\<in>live s. isStore (d_inst (heap s q)) \<and> (x, 1) \<in> set (D q)"
    "pl d = Some (Waiting p) \<Longrightarrow> D d = []" "pl d = Some (Waiting p) \<Longrightarrow> (d, 0) \<notin> nodes D"
    "pl d = Some (Waiting p) \<Longrightarrow> (d, 1) \<notin> nodes D"
    "pl d = Some (Sent p) \<Longrightarrow> executed (heap s d)" "pl d = Some (Dying p) \<Longrightarrow> executed (heap s d)"
  using assms unfolding ret_ok_def by blast+

definition stamp_ok :: "(nat \<Rightarrow> node list) \<Rightarrow> world \<Rightarrow> bool" where
  "stamp_ok D s \<longleftrightarrow> (\<forall>q. \<forall>n\<in>set (D q). stamp s q < stamp s (fst n)) \<and>
     (\<forall>p. sorted_wrt (\<lambda>a b. stamp s a < stamp s b) (ROB (cores s p))) \<and>
     (\<forall>d\<in>live s. issued (heap s d) \<longrightarrow> stamp s d < issueNo s)"

definition core_inv :: "nat set \<Rightarrow> (nat \<Rightarrow> node list) \<Rightarrow> (nat \<Rightarrow> place option) \<Rightarrow> world \<Rightarrow> bool" where
  "core_inv E D pl s \<longleftrightarrow> static_ok pl s \<and> deps_ok D s \<and> act_ok s \<and> win_ok s \<and> rat_ok s \<and> dep_ok D s \<and>
     ret_ok E D pl s \<and> stamp_ok D s \<and> ports_ok s \<and> time_ok s"

lemma core_invD:
  assumes "core_inv E D pl s"
  shows "static_ok pl s" "deps_ok D s" "act_ok s" "win_ok s" "rat_ok s" "dep_ok D s" "ret_ok E D pl s"
    "stamp_ok D s" "ports_ok s" "time_ok s"
  using assms by (simp_all add: core_inv_def)

lemma dep_okD:
  assumes "dep_ok D s" "ROB (cores s p) = pre @ d # post"
    "k = 0 \<and> writer s (getSrc1 (d_inst (heap s d))) pre = Some q \<or> k = 1 \<and> writer s (getSrc2 (d_inst (heap s d))) pre = Some q"
  shows "executed (heap s q) \<or> (d, k) \<in> set (D q)"
  using assms unfolding dep_ok_def by blast

subsection \<open>States that agree\<close>

lemma writer_frame: "frame s s' \<Longrightarrow> writer s' r xs = writer s r xs"
  by (simp add: writer_def dest_def frame_simps)

lemma unlinks:
  assumes "links x = links y"
  shows "nDeps x = nDeps y" "d_first x = d_first y" "isUsed x = isUsed y"
  using assms by (simp_all add: links_eq)

lemma stamp_frame: "frame s s' \<Longrightarrow> (\<And>q. set (D' q) \<subseteq> set (D q)) \<Longrightarrow> stamp_ok D s \<Longrightarrow> stamp_ok D' s'"
  unfolding stamp_ok_def by (simp add: frame_simps) blast

lemma core_inv_cong:
  assumes "core_inv E D pl s" and F: "frame s s'" and L: "\<And>d. links (heap s' d) = links (heap s d)"
    and X: "\<And>d. executed (heap s' d) = executed (heap s d)" and ev: "evs s' = evs s" and mr: "memReads s' = memReads s"
    and rt: "\<And>p r. r < InvalidOutput \<Longrightarrow> RAT (cores s' p) r = RAT (cores s p) r"
    and w: "\<And>p k. windowSize (clusters (cores s' p) k) = windowSize (clusters (cores s p) k)"
    and "ports_ok s'" "time_ok s'" and wk: "\<And>d. SelectCB d \<in># evs s \<Longrightarrow> wakeUpTime (heap s' d) = 0"
  shows "core_inv E D pl s'"
proof -
  note I = core_invD [OF assms(1)] and Fs = frame_simps [OF F] and U = unlinks [OF L]
  have "holds s' p k = holds s p k" for p k
    by (simp add: fun_eq_iff holds_def unstarted_def X U ev Fs split: recycle.split)
  moreover have "is_issued_cb s' p k = is_issued_cb s p k" for p k
    by (simp add: fun_eq_iff is_issued_cb_def Fs split: cev.split)
  ultimately have u: "used s' p k = used s p k" for p k by (simp add: used_def ev Fs)
  have r: "ready s' d = ready s d" for d by (simp add: ready_def X U Fs)
  have "static_ok pl s'" using I(1) static_frame [OF F] by simp
  moreover have "deps_ok D s'" using I(2) deps_ok_cong [of s' s D] L Fs(2) by simp
  moreover have "act_ok s'" using I(3) wk by (simp add: act_ok_def acts_def r ev mr X U Fs)
  moreover have "win_ok s'" using I(4) by (simp add: win_ok_def win_at_def w u Fs)
  moreover have "rat_ok s'" using I(5) by (simp add: rat_ok_def rt writer_frame [OF F] X Fs split: option.split)
  moreover have "dep_ok D s'" using I(6) by (simp add: dep_ok_def writer_frame [OF F] X Fs)
  moreover have "ret_ok E D pl s'" using I(7) by (simp add: ret_ok_def X Fs)
  moreover have "stamp_ok D s'" using stamp_frame [OF F _ I(8)] by simp
  ultimately show ?thesis using assms by (simp add: core_inv_def)
qed

end
