(* ===== verification/Core_Act.thy ===== *)
theory Core_Act
  imports Core_Dyn
begin

text \<open>
  Steps of one activity: an activity is replaced by the next one of the same instruction. \<open>put ev s\<close>
  is the state in which \<open>ev\<close> is due now; an operation that handles \<open>ev\<close> starts in \<open>s\<close> when the
  invariant holds in \<open>put ev s\<close>.
\<close>

subsection \<open>Callbacks in hand\<close>

definition put :: "cev \<Rightarrow> world \<Rightarrow> world" where
  "put ev s = s\<lparr>events := add_mset (now s, ev) (events s)\<rparr>"

lemma put_event_simps [simp]:
  "now (put ev s) = now s" "heap (put ev s) = heap s" "live (put ev s) = live s" "memReads (put ev s) = memReads s"
  "memWrites (put ev s) = memWrites s" "stores (put ev s) = stores s" "cores (put ev s) = cores s"
  "validVAddr (put ev s) = validVAddr s" "InstTable (put ev s) = InstTable s" "issueNo (put ev s) = issueNo s"
  "stamp (put ev s) = stamp s" "evs (put ev s) = add_mset ev (evs s)" "cluster_no p ty (put ev s) = cluster_no p ty s"
  by (simp_all add: put_def evs_def cluster_no_def)

lemma frame_put [simp]: "frame (put ev s) s' = frame s s'" "frame s (put ev s') = frame s s'"
  by (simp_all add: frame_def)

lemma time_put [simp]: "time_ok (put ev s) = time_ok s"
  by (simp add: time_ok_def put_def)

lemma ports_put [simp]: "ports_ok (put ev s) = ports_ok s"
  by (simp add: ports_ok_def)

lemma ready_put [simp]: "ready (put ev s) d = ready s d"
  by (simp add: ready_def)

lemma acts_put: "acts (put ev s) d = acts s d + of_bool (about ev = Some d)"
  by (simp add: acts_def)

lemma evs_about: "ev \<in># evs s \<Longrightarrow> about ev = Some d \<Longrightarrow> 0 < acts s d"
  by (metis (no_types, opaque_lifting) acts_def add_gr_0 count_greater_zero_iff image_eqI in_image_mset)

lemma in_hand:
  assumes "core_inv E D pl (put ev s)" "about ev = Some d"
  shows "ready s d" "acts s d = 0" "\<And>ev'. about ev' = Some d \<Longrightarrow> ev' \<notin># evs s" "d \<notin># memReads s"
proof -
  have "acts (put ev s) d = of_bool (ready s d)" using core_invD(3) [OF assms(1)] by (simp add: act_ok_def)
  then show r: "ready s d" and z: "acts s d = 0" using assms(2) by (cases "ready s d"; simp add: acts_put)+
  show "ev' \<notin># evs s" if "about ev' = Some d" for ev' using evs_about [OF _ that, of s] z by auto
  show "d \<notin># memReads s" using z by (simp add: acts_def count_eq_zero_iff)
qed

lemma ready_place:
  assumes "core_inv E D pl s" "ready s d"
  shows "\<exists>p. pl d = Some (InROB p) \<and> d \<in> set (ROB (cores s p)) \<and> d_resource (heap s d) = Some (p, opcode (d_inst (heap s d))) \<and>
    RATEntry (heap s d) = Some (p, getDest (d_inst (heap s d)))"
proof -
  note P = placeD [OF staticD(1) [OF core_invD(1) [OF assms(1)]]] and R = core_invD(7) [OF assms(1)]
  have d: "d \<in> live s" "issued (heap s d)" "\<not> executed (heap s d)" using assms(2) by (simp_all add: ready_def)
  then obtain x where x: "pl d = Some x" using P(2) by auto
  have "x \<noteq> Waiting p" for p using P(12) [of d p] x d by (auto simp: fresh_def)
  moreover have "x \<noteq> Sent p \<and> x \<noteq> Dying p" for p using R x d by (auto simp: ret_ok_def)
  ultimately obtain p where p: "pl d = Some (InROB p)" using x by (cases x) auto
  then show ?thesis using P(13) [OF p] P(4) [of d p] by (auto simp: runs_on_def)
qed

lemma place_unique:
  assumes "place_ok pl s" "pl d = Some (InROB p)"
  shows "d \<in> set (ROB (cores s q)) \<longleftrightarrow> q = p"
  using placeD(4) [OF assms(1), of d q] assms(2) by auto

subsection \<open>The work that is left\<close>

definition rank :: "world \<Rightarrow> nat \<Rightarrow> nat" where
  "rank s d = (if issued (heap s d) \<and> \<not> executed (heap s d) then
     (if nDeps (heap s d) \<noteq> 0 then 5 else if SelectCB d \<in># evs s then 4 else if SimTimeCB d \<in># evs s then 3
      else if \<exists>p. DispatchedCB p d \<in># evs s then 2 else 1) else 0)"

definition W :: "world \<Rightarrow> nat" where
  "W s = (\<Sum>d\<in>live s. rank s d)"

lemma W_same: "live s' = live s \<Longrightarrow> (\<And>x. x \<in> live s \<Longrightarrow> rank s' x = rank s x) \<Longrightarrow> W s' = W s"
  by (simp add: W_def)

lemma W_less:
  assumes "finite (live s)" "live s' = live s" "d \<in> live s" "\<And>x. x \<in> live s \<Longrightarrow> x \<noteq> d \<Longrightarrow> rank s' x = rank s x" "rank s' d < rank s d"
  shows "W s' < W s"
  unfolding W_def assms(2) using assms by (intro sum_strict_mono_ex1) (auto intro: le_refl, metis le_refl less_imp_le_nat)

lemma W_pos:
  assumes "finite (live s)" "d \<in> live s"
  shows "rank s d \<le> W s"
  using assms by (simp add: W_def member_le_sum)

lemma live_finite: "core_inv E D pl s \<Longrightarrow> finite (live s)"
  using placeD(1) staticD(1) core_invD(1) by blast

lemma rank_cong:
  assumes "issued (heap s' x) = issued (heap s x)" "executed (heap s' x) = executed (heap s x)" "nDeps (heap s' x) = nDeps (heap s x)"
    "\<And>ev. about ev = Some x \<Longrightarrow> ev \<in># evs s' \<longleftrightarrow> ev \<in># evs s"
  shows "rank s' x = rank s x"
proof -
  have "DispatchedCB p x \<in># evs s' \<longleftrightarrow> DispatchedCB p x \<in># evs s" for p using assms(4) by simp
  then show ?thesis using assms(4) [of "SelectCB x"] assms(4) [of "SimTimeCB x"] by (simp add: rank_def assms(1-3))
qed

subsection \<open>Counting in a window\<close>

lemma filter_one:
  assumes "distinct xs" "d \<in> set xs" "\<And>x. x \<in> set xs \<Longrightarrow> x \<noteq> d \<Longrightarrow> P' x = P x"
  shows "int (length (filter P' xs)) = int (length (filter P xs)) + of_bool (P' d) - of_bool (P d)"
  using assms
proof (induction xs)
  case (Cons y ys)
  show ?case
  proof (cases "y = d")
    case True
    then have "filter P' ys = filter P ys" using Cons.prems by (intro filter_cong) auto
    then show ?thesis using True by simp
  next
    case False
    then show ?thesis using Cons.IH Cons.prems by auto
  qed
qed simp

text \<open>An activity is replaced by another one of the same instruction.\<close>

lemma act_step:
  assumes I: "core_inv E D pl (put ev s)" and d: "about ev = Some d" "about ev' = Some d" and F: "frame s s'"
    and L: "\<And>x. links (heap s' x) = links (heap s x)" and X: "\<And>x. executed (heap s' x) = executed (heap s x)"
    and mr: "memReads s' = memReads s"
    and rt: "\<And>p r. r < InvalidOutput \<Longrightarrow> RAT (cores s' p) r = RAT (cores s p) r"
    and "ports_ok s'" "time_ok s'" and wk: "\<And>x. wakeUpTime (heap s' x) = wakeUpTime (heap s x)"
    and ev: "evs s' = evs s + N" "\<And>e. e \<in># N \<Longrightarrow> about e = None"
    and win: "win_ok (put ev' s')"
    and sel: "ev' = SelectCB d \<Longrightarrow> wakeUpTime (heap s d) = 0"
    and disp: "\<And>p. ev' = DispatchedCB p d \<Longrightarrow> isLoad (d_inst (heap s d)) \<and> \<not> loadForwarded (heap s d)"
  shows "core_inv E D pl (put ev' s')"
proof -
  note C = core_invD [OF I] and Fs = frame_simps [OF F] and U = unlinks [OF L]
  have nf: "frame (put ev s) (put ev' s')" using F by simp
  have N0: "count (image_mset about N) (Some x) = 0" for x using ev(2) by (auto simp: count_eq_zero_iff)
  have ac: "acts (put ev' s') x = acts (put ev s) x" for x
    using N0 d by (simp add: acts_put) (simp add: acts_def ev mr)
  have r: "ready s' x = ready s x" for x by (simp add: ready_def X U Fs)
  have nosel: "e \<in># evs (put ev' s') \<longleftrightarrow> e = ev' \<or> e \<in># evs s" if "about e \<noteq> None" for e
    using that ev by auto
  have "static_ok pl (put ev' s')" using C(1) static_frame [OF nf] by simp
  moreover have "deps_ok D (put ev' s')" using C(2) deps_ok_cong [of "put ev' s'" "put ev s" D] L Fs(2) by simp
  moreover have "act_ok (put ev' s')"
    unfolding act_ok_def
  proof (intro conjI allI ballI impI)
    fix x
    show "acts (put ev' s') x = of_bool (ready (put ev' s') x)" using C(3) ac by (simp add: act_ok_def r)
    show "issued (heap (put ev' s') x)" "nDeps (heap (put ev' s') x) = 0"
      if "x \<in> live (put ev' s')" "executed (heap (put ev' s') x)"
      using C(3) that by (simp_all add: act_ok_def X U Fs)
    show "wakeUpTime (heap (put ev' s') x) = 0" if "SelectCB x \<in># evs (put ev' s')"
      using that C(3) nosel [of "SelectCB x"] sel d(2) by (auto simp: act_ok_def wk)
    show "isLoad (d_inst (heap (put ev' s') x))" "\<not> loadForwarded (heap (put ev' s') x)"
      if "DispatchedCB p x \<in># evs (put ev' s')" for p
      using that C(3) nosel [of "DispatchedCB p x"] disp [of p] d(2) by (auto simp: act_ok_def Fs)
    show "isLoad (d_inst (heap (put ev' s') x))" "\<not> loadForwarded (heap (put ev' s') x)"
      if "x \<in># memReads (put ev' s')" using that C(3) by (auto simp: act_ok_def Fs mr)
  qed
  moreover have "rat_ok (put ev' s')" using C(5) by (simp add: rat_ok_def rt writer_frame [OF nf] X Fs split: option.split)
  moreover have "dep_ok D (put ev' s')" using C(6) by (simp add: dep_ok_def writer_frame [OF nf] X Fs)
  moreover have "ret_ok E D pl (put ev' s')" using C(7) by (simp add: ret_ok_def X Fs)
  moreover have "stamp_ok D (put ev' s')" using stamp_frame [OF nf _ C(8)] by simp
  ultimately show ?thesis using win assms(9,10) by (simp add: core_inv_def)
qed

end
