(* ===== verification/Core_Exec.thy ===== *)
theory Core_Exec
  imports Core_Act
begin

text \<open>
  Execution keeps the invariant: every operation from the selection of an instruction to its execution,
  for any function \<open>call\<close> that handles the callbacks that are due at once.
\<close>

subsection \<open>From one activity to the next\<close>

fun starts :: "cev \<Rightarrow> bool" where
  "starts (SelectCB d) = True" | "starts (SimTimeCB d) = True" | "starts (ExecutedCB d) = False"
| "starts (DispatchedCB p d) = False" | "starts (IssuedCB p ty d) = False"

fun rk :: "cev \<Rightarrow> nat" where
  "rk (SelectCB d) = 4" | "rk (SimTimeCB d) = 3" | "rk (DispatchedCB p d) = 2" | "rk (ExecutedCB d) = 1"
| "rk (IssuedCB p ty d) = 0"

lemma unstarted_put:
  assumes "core_inv E D pl (put ev s)" "about ev = Some d"
  shows "unstarted (put ev s) x = (if x = d then starts ev else unstarted s x)"
proof (cases "x = d")
  case True
  have "\<not> executed (heap s d)" "nDeps (heap s d) = 0" "SelectCB d \<notin># evs s" "SimTimeCB d \<notin># evs s"
    using in_hand [OF assms] by (simp_all add: ready_def)
  then show ?thesis using True assms(2) by (cases ev) (auto simp: unstarted_def)
next
  case False
  then show ?thesis using assms(2) by (cases ev) (auto simp: unstarted_def)
qed

lemma rank_put:
  assumes "core_inv E D pl (put ev s)" "about ev = Some d"
  shows "rank (put ev s) x = (if x = d then rk ev else rank s x)"
proof (cases "x = d")
  case True
  note H = in_hand [OF assms]
  have "issued (heap s d)" "\<not> executed (heap s d)" "nDeps (heap s d) = 0" "SelectCB d \<notin># evs s" "SimTimeCB d \<notin># evs s"
      "DispatchedCB p d \<notin># evs s" for p
    using H(1,3) by (simp_all add: ready_def)
  then show ?thesis using True assms(2) by (cases ev) (auto simp: rank_def)
next
  case False
  have "rank (put ev s) x = rank s x"
  proof (rule rank_cong)
    fix e assume "about e = Some x"
    then show "e \<in># evs (put ev s) \<longleftrightarrow> e \<in># evs s" using False assms(2) by auto
  qed simp_all
  then show ?thesis using False by simp
qed

lemma W_move:
  assumes I: "core_inv E D pl (put ev s)" and J: "core_inv E D' pl (put ev' s')" and d: "about ev = Some d" "about ev' = Some d"
    and F: "frame s s'" and X: "\<And>x. executed (heap s' x) = executed (heap s x)"
    and nd: "\<And>x. x \<noteq> d \<Longrightarrow> nDeps (heap s' x) = nDeps (heap s x)"
    and ev: "\<And>e x. about e = Some x \<Longrightarrow> x \<noteq> d \<Longrightarrow> e \<in># evs s' \<longleftrightarrow> e \<in># evs s" and k: "rk ev' < rk ev"
  shows "W (put ev' s') < W (put ev s)"
proof (rule W_less [of _ _ d])
  show "finite (live (put ev s))" using live_finite [OF I] .
  show "live (put ev' s') = live (put ev s)" using frame_simps(2) [OF F] by simp
  show "d \<in> live (put ev s)" using in_hand(1) [OF I d(1)] by (simp add: ready_def)
  show "rank (put ev' s') d < rank (put ev s) d" using rank_put [OF I d(1), of d] rank_put [OF J d(2), of d] k by simp
  fix x assume x: "x \<noteq> d"
  have "rank s' x = rank s x" using frame_simps(13) [OF F] X nd x ev by (intro rank_cong) auto
  then show "rank (put ev' s') x = rank (put ev s) x" using rank_put [OF I d(1), of x] rank_put [OF J d(2), of x] x by simp
qed

lemma used_move:
  assumes I: "core_inv E D pl (put ev s)" and d: "about ev = Some d" "about ev' = Some d" and F: "frame s s'"
    and L: "\<And>x. links (heap s' x) = links (heap s x)" and X: "\<And>x. executed (heap s' x) = executed (heap s x)"
    and ev: "evs s' = evs s + N" "\<And>e. e \<in># N \<Longrightarrow> about e = None" and p0: "pl d = Some (InROB p0)"
  shows "int (used (put ev' s') p k) = int (used (put ev s) p k) +
    (if recycleAt (clusters (cores s p) k) = AtIssue then
       (if p = p0 \<and> cluster_no p (opcode (d_inst (heap s d))) s = k then of_bool (starts ev') - of_bool (starts ev) else 0) +
       int (size (filter_mset (is_issued_cb s p k) N)) else 0)"
proof -
  note Fs = frame_simps [OF F] and U = unlinks [OF L] and H = in_hand [OF I d(1)]
  note P = placeD [OF staticD(1) [OF core_invD(1) [OF I]]]
  have un: "unstarted (put ev s) x = (if x = d then starts ev else unstarted s x)" for x
    using unstarted_put [OF I d(1)] .
  have un': "unstarted (put ev' s') x = (if x = d then starts ev' else unstarted s x)" for x
  proof -
    have "e \<in># evs s' \<longleftrightarrow> e \<in># evs s" if "about e = Some x" for e using ev that by auto
    then have "SelectCB x \<in># evs s' \<longleftrightarrow> SelectCB x \<in># evs s" "SimTimeCB x \<in># evs s' \<longleftrightarrow> SimTimeCB x \<in># evs s" by simp_all
    moreover have "\<not> executed (heap s d)" "nDeps (heap s d) = 0" using H(1) by (simp_all add: ready_def)
    ultimately show ?thesis using d(2) H(3) [of "SelectCB d"] H(3) [of "SimTimeCB d"]
      by (cases ev') (auto simp: unstarted_def X U)
  qed
  have cb: "is_issued_cb (put ev' s') p k = is_issued_cb s p k" "is_issued_cb (put ev s) p k = is_issued_cb s p k"
    by (simp_all add: fun_eq_iff is_issued_cb_def Fs split: cev.split)
  have ne: "\<not> is_issued_cb s p k ev" "\<not> is_issued_cb s p k ev'" using d by (cases ev; cases ev'; simp add: is_issued_cb_def)+
  have h: "holds (put ev' s') p k x = holds (put ev s) p k x" if "x \<noteq> d" for x
    using un un' that by (simp add: holds_def X Fs split: recycle.split)
  have hd: "holds (put ev' s') p k d = (if recycleAt (clusters (cores s p) k) = AtIssue then
      cluster_no p (opcode (d_inst (heap s d))) s = k \<and> starts ev' else holds (put ev s) p k d)"
    using un' by (auto simp: holds_def X Fs split: recycle.split)
  have hd0: "recycleAt (clusters (cores s p) k) = AtIssue \<Longrightarrow> holds (put ev s) p k d =
      (cluster_no p (opcode (d_inst (heap s d))) s = k \<and> starts ev)"
    using un by (auto simp: holds_def)
  have R: "ROB (cores (put ev' s') p) = ROB (cores s p)" by (simp add: Fs)
  have "int (length (filter (holds (put ev' s') p k) (ROB (cores s p)))) =
      int (length (filter (holds (put ev s) p k) (ROB (cores s p)))) +
      (if p = p0 \<and> recycleAt (clusters (cores s p) k) = AtIssue \<and> cluster_no p (opcode (d_inst (heap s d))) s = k
       then of_bool (starts ev') - of_bool (starts ev) else 0)"
  proof (cases "p = p0")
    case True
    have "distinct (ROB (cores s p))" "d \<in> set (ROB (cores s p))" using P(3) [of p] P(4) [of d p] p0 True by simp_all
    from filter_one [OF this h] show ?thesis using True hd hd0 by auto
  next
    case False
    then have "d \<notin> set (ROB (cores s p))" using P(4) [of d p] p0 by simp
    then have "filter (holds (put ev' s') p k) (ROB (cores s p)) = filter (holds (put ev s) p k) (ROB (cores s p))"
      using h by (intro filter_cong refl) (metis)
    then show ?thesis using False by simp
  qed
  then show ?thesis using ne by (simp add: used_def cb R Fs ev)
qed

subsection \<open>The contract of callbacks that are due at once\<close>

definition fin :: "nat \<Rightarrow> nat set \<Rightarrow> (nat \<Rightarrow> node list) \<Rightarrow> (nat \<Rightarrow> place option) \<Rightarrow> world \<Rightarrow> world option \<Rightarrow> bool" where
  "fin w E D pl s r \<longleftrightarrow> (\<exists>s' D'. r = Some s' \<and> core_inv E D' pl s' \<and> W s' \<le> w \<and> frame s s' \<and> (\<forall>q\<in>E. D' q = D q))"

definition good :: "nat \<Rightarrow> (cev \<Rightarrow> world \<Rightarrow> world option) \<Rightarrow> bool" where
  "good n call \<longleftrightarrow>
     (0 < n \<longrightarrow> (\<forall>p ty d s. call (IssuedCB p ty d) s = Cluster_issued p (cluster_no p ty s) s)) \<and>
     (\<forall>ev d E D pl s. about ev = Some d \<longrightarrow> core_inv E D pl (put ev s) \<longrightarrow> W (put ev s) \<le> n \<longrightarrow>
        fin (W (put ev s)) E D pl s (call ev s))"

lemma fin_frame: "frame s s1 \<Longrightarrow> fin w E D pl s1 r \<Longrightarrow> fin w E D pl s r"
  unfolding fin_def by (blast intro: frame_trans)

lemma fin_le: "fin w E D pl s r \<Longrightarrow> w \<le> w' \<Longrightarrow> fin w' E D pl s r"
  unfolding fin_def by (blast intro: le_trans)

lemma finI: "core_inv E D pl s' \<Longrightarrow> W s' \<le> w \<Longrightarrow> frame s s' \<Longrightarrow> fin w E D pl s (Some s')"
  unfolding fin_def by blast

lemma good_le: "good n call \<Longrightarrow> m \<le> n \<Longrightarrow> good m call"
  by (simp add: good_def)

lemma delayed:
  assumes "core_inv E D pl (put ev s)" "now s \<le> t"
  shows "core_inv E D pl (s\<lparr>events := add_mset (t, ev) (events s)\<rparr>)" "W (s\<lparr>events := add_mset (t, ev) (events s)\<rparr>) = W (put ev s)"
proof -
  let ?s = "s\<lparr>events := add_mset (t, ev) (events s)\<rparr>"
  have f: "frame (put ev s) ?s" by (simp add: frame_def)
  have e: "evs ?s = evs (put ev s)" by (simp add: evs_def put_def)
  have "time_ok (put ev s)" "ports_ok (put ev s)" using core_invD [OF assms(1)] by simp_all
  then have "time_ok ?s" "ports_ok ?s" using assms(2) by (simp_all add: time_ok_def put_def ports_ok_def)
  then show "core_inv E D pl ?s"
    using core_invD(3) [OF assms(1)] by (intro core_inv_cong [OF assms(1) f _ _ e]) (auto simp: act_ok_def)
  show "W ?s = W (put ev s)" by (rule W_same) (auto intro!: rank_cong simp: e)
qed

lemma cb_at_ok:
  assumes "good n call" "core_inv E D pl (put ev s)" "about ev = Some d" "W (put ev s) \<le> n" "now s \<le> t"
  shows "fin (W (put ev s)) E D pl s (cb_at call ev t s)"
proof (cases "t = now s")
  case True
  have "fin (W (put ev s)) E D pl s (call ev s)" using assms by (simp add: good_def)
  then show ?thesis using True by (simp add: cb_at_def)
next
  case False
  then have "cb_at call ev t s = Some (s\<lparr>events := add_mset (t, ev) (events s)\<rparr>)" using assms(5) by (simp add: cb_at_def)
  then show ?thesis using delayed [OF assms(2,5)] by (auto intro!: finI simp: frame_def)
qed

lemma cb_in_ok:
  assumes "good n call" "core_inv E D pl (put ev s)" "about ev = Some d" "W (put ev s) \<le> n"
  shows "fin (W (put ev s)) E D pl s (cb_in call ev t s)"
  using cb_at_ok [OF assms, of "now s + t"] by (simp add: cb_in_def cb_at_def split: if_splits)

lemma isFree_in_hand:
  assumes "core_inv E D pl (put ev s)" "about ev = Some d" "about ev' = Some d"
  shows "isFree ev' s"
  using in_hand(3) [OF assms(1,2,3)] by (simp add: isFree_def evs_def)

lemma scb_at_ok:
  assumes "good n call" "core_inv E D pl (put ev s)" "about ev = Some d" "W (put ev s) \<le> n" "now s \<le> t"
  shows "fin (W (put ev s)) E D pl s (scb_at call ev t s)"
  using cb_at_ok [OF assms] isFree_in_hand [OF assms(2,3,3)] by (simp add: scb_at_def)

lemma scb_in_ok:
  assumes "good n call" "core_inv E D pl (put ev s)" "about ev = Some d" "W (put ev s) \<le> n"
  shows "fin (W (put ev s)) E D pl s (scb_in call ev t s)"
  using cb_in_ok [OF assms] isFree_in_hand [OF assms(2,3,3)] by (simp add: scb_in_def)

end
