(* ===== verification/Core_Sel.thy ===== *)
theory Core_Sel
  imports Core_Exec
begin

text \<open>Selection, the start of execution in the functional units, and the requests of loads.\<close>

subsection \<open>Ports\<close>

lemma cluster_simps [simp]:
  "heap (upd_cluster p k f s) = heap s" "live (upd_cluster p k f s) = live s" "now (upd_cluster p k f s) = now s"
  "events (upd_cluster p k f s) = events s" "evs (upd_cluster p k f s) = evs s"
  "memReads (upd_cluster p k f s) = memReads s" "memWrites (upd_cluster p k f s) = memWrites s"
  "stores (upd_cluster p k f s) = stores s" "validVAddr (upd_cluster p k f s) = validVAddr s"
  "InstTable (upd_cluster p k f s) = InstTable s" "issueNo (upd_cluster p k f s) = issueNo s"
  "stamp (upd_cluster p k f s) = stamp s" "called (upd_cluster p k f s) = called s"
  "units (cores (upd_cluster p k f s) q) = units (cores s q)" "RAT (cores (upd_cluster p k f s) q) = RAT (cores s q)"
  "gens (cores (upd_cluster p k f s) q) = gens (cores s q)"
  "clusters (cores (upd_cluster p k f s) q) j = (if q = p \<and> j = k then f (clusters (cores s p) k) else clusters (cores s q) j)"
  "core_body (cores (upd_cluster p k f s) q) = core_body (cores s q)"
  by (auto simp: upd_cluster_def evs_def core_body_def)

lemma core_body_simps [simp]:
  "core_body (c\<lparr>gens := g\<rparr>) = core_body c" "core_body (c\<lparr>freeBranches := b\<rparr>) = core_body c"
  "core_body (c\<lparr>unblocked := u\<rparr>) = core_body c" "core_body (c\<lparr>RAT := r\<rparr>) = core_body c"
  "core_body (c\<lparr>clockTicks := t\<rparr>) = core_body c"
  by (simp_all add: core_body_def)

lemma body_simps [simp]:
  "body (x\<lparr>wakeUpTime := t\<rparr>) = body x" "body (x\<lparr>executed := b\<rparr>) = body x" "body (x\<lparr>resolved := b\<rparr>) = body x"
  by (simp_all add: body_def unlink_def)

lemma links_simps [simp]:
  "links (x\<lparr>wakeUpTime := t\<rparr>) = links x" "links (x\<lparr>executed := b\<rparr>) = links x" "links (x\<lparr>resolved := b\<rparr>) = links x"
  "links (x\<lparr>depsAtRetire := b\<rparr>) = links x"
  by (simp_all add: links_def)

text \<open>A change that leaves the heap, the events and the windows alone.\<close>

definition quiet :: "world \<Rightarrow> world \<Rightarrow> bool" where
  "quiet s s' \<longleftrightarrow> frame s s' \<and> heap s' = heap s \<and> events s' = events s \<and> memReads s' = memReads s \<and>
     (\<forall>p. RAT (cores s' p) = RAT (cores s p)) \<and>
     (\<forall>p k. windowSize (clusters (cores s' p) k) = windowSize (clusters (cores s p) k)) \<and> (ports_ok s \<longrightarrow> ports_ok s')"

lemma quiet_inv:
  assumes "quiet s s'" "core_inv E D pl s"
  shows "core_inv E D pl s'"
proof -
  have e: "events s' = events s" and n: "now s' = now s" using assms(1) frame_simps(1) [of s s'] by (simp_all add: quiet_def)
  then have "time_ok s'" using core_invD(10) [OF assms(2)] by (simp add: time_ok_def)
  then show ?thesis using assms core_invD(3,9) [OF assms(2)] e
    by (intro core_inv_cong [OF assms(2)]) (auto simp: quiet_def act_ok_def evs_def)
qed

lemma quiet_put: "quiet s s' \<Longrightarrow> quiet (put ev s) (put ev s')"
  by (auto simp: quiet_def put_def frame_def ports_ok_def)

lemma quiet_W: "quiet s s' \<Longrightarrow> W s' = W s"
  by (intro W_same) (auto simp: quiet_def frame_def intro!: rank_cong simp: evs_def)

lemma port_slot:
  assumes "ports_ok s"
  shows "\<exists>t s'. wakeUp_nextSlot p k s = Some (t, s') \<and> quiet s s' \<and> now s \<le> t"
    and "\<exists>t s'. sched_nextSlot p k s = Some (t, s') \<and> quiet s s' \<and> now s \<le> t"
    and "\<exists>t s'. gen_nextSlot p ty s = Some (t, s') \<and> quiet s s' \<and> now s \<le> t"
proof -
  have P: "port_ok (wakeUpPort (clusters (cores s p) k))" "port_ok (schedPort (clusters (cores s p) k))"
      "port_ok (gens (cores s p) g)" for p k g
    using assms by (simp_all add: ports_ok_def)
  obtain t q where "Port_nextSlot (now s) (wakeUpPort (clusters (cores s p) k)) = Some (t, q)" "port_ok q" "now s \<le> t"
    using port_nextSlot_ok [OF P(1)] by blast
  then show "\<exists>t s'. wakeUp_nextSlot p k s = Some (t, s') \<and> quiet s s' \<and> now s \<le> t"
    by (intro exI [of _ t] exI [of _ "upd_cluster p k (\<lambda>c. c\<lparr>wakeUpPort := q\<rparr>) s"])
      (auto simp: wakeUp_nextSlot_def quiet_def frame_def cluster_body_def ports_ok_def)
  obtain t q where "Port_nextSlot (now s) (schedPort (clusters (cores s p) k)) = Some (t, q)" "port_ok q" "now s \<le> t"
    using port_nextSlot_ok [OF P(2)] by blast
  then show "\<exists>t s'. sched_nextSlot p k s = Some (t, s') \<and> quiet s s' \<and> now s \<le> t"
    by (intro exI [of _ t] exI [of _ "upd_cluster p k (\<lambda>c. c\<lparr>schedPort := q\<rparr>) s"])
      (auto simp: sched_nextSlot_def quiet_def frame_def cluster_body_def ports_ok_def)
  let ?g = "u_gen (units (cores s p) ty)"
  obtain t q where "Port_nextSlot (now s) (gens (cores s p) ?g) = Some (t, q)" "port_ok q" "now s \<le> t"
    using port_nextSlot_ok [OF P(3)] by blast
  then show "\<exists>t s'. gen_nextSlot p ty s = Some (t, s') \<and> quiet s s' \<and> now s \<le> t"
    by (intro exI [of _ t] exI [of _ "upd_c p (\<lambda>c. c\<lparr>gens := (gens c)(?g := q)\<rparr>) s"])
      (auto simp: gen_nextSlot_def quiet_def frame_def ports_ok_def)
qed

subsection \<open>Selection\<close>

lemma select_move:
  assumes I: "core_inv E D pl (put (SelectCB d) s)"
  shows "core_inv E D pl (put (SimTimeCB d) s)" "W (put (SimTimeCB d) s) < W (put (SelectCB d) s)"
proof -
  note C = core_invD [OF I]
  obtain p0 where p0: "pl d = Some (InROB p0)" using ready_place [OF I, of d] in_hand(1) [OF I] by auto
  have u: "int (used (put (SimTimeCB d) s) p k) = int (used (put (SelectCB d) s) p k)" for p k
    using used_move [OF I, of d "SimTimeCB d" s "{#}" p0 p k] p0 by simp
  have "win_ok (put (SimTimeCB d) s)" using C(4) u by (simp add: win_ok_def win_at_def)
  then show J: "core_inv E D pl (put (SimTimeCB d) s)"
    using C(9,10) by (intro act_step [OF I, of d "SimTimeCB d" s "{#}"]) simp_all
  show "W (put (SimTimeCB d) s) < W (put (SelectCB d) s)" by (rule W_move [OF I J]) simp_all
qed

lemma select_ok:
  assumes g: "good n call" and I: "core_inv E D pl (put (SelectCB d) s)" and w: "W (put (SelectCB d) s) \<le> Suc n"
  shows "fin (W (put (SelectCB d) s) - 1) E D pl s (DepWindow_select call p k d s)"
proof -
  note C = core_invD [OF I]
  have d: "d \<in> live s" "wakeUpTime (heap s d) = 0" using in_hand(1) [OF I] C(3) by (auto simp: ready_def act_ok_def)
  have "ports_ok s" using C(9) by simp
  then obtain t s1 where s1: "sched_nextSlot p k s = Some (t, s1)" "quiet s s1" "now s \<le> t" using port_slot(2) by blast
  have J: "core_inv E D pl (put (SimTimeCB d) s1)" using quiet_inv [OF quiet_put [OF s1(2)]] select_move(1) [OF I] by blast
  have w1: "W (put (SimTimeCB d) s1) < W (put (SelectCB d) s)"
    using select_move(2) [OF I] quiet_W [OF quiet_put [OF s1(2)], of "SimTimeCB d"] by simp
  have f: "frame s s1" "now s1 = now s" using s1(2) frame_simps(1) by (auto simp: quiet_def)
  have "fin (W (put (SimTimeCB d) s1)) E D pl s1 (scb_at call (SimTimeCB d) (t + SchedDelay (clusters (cores s1 p) k)) s1)"
    using w w1 s1(3) f(2) by (intro scb_at_ok [OF g J]) auto
  then have "fin (W (put (SelectCB d) s) - 1) E D pl s
      (scb_at call (SimTimeCB d) (t + SchedDelay (clusters (cores s1 p) k)) s1)"
    using w1 by (intro fin_frame [OF f(1)]) (auto intro: fin_le)
  then show ?thesis using d s1(1) by (simp add: DepWindow_select_def)
qed

lemma preSelect_ok:
  assumes g: "good n call" and I: "core_inv E D pl (put (SelectCB d) (setWakeUpTime d 0 s))"
    and w: "W (put (SelectCB d) (setWakeUpTime d 0 s)) \<le> Suc n" and wk: "wakeUpTime (heap s d) \<noteq> 0"
  shows "fin (W (put (SelectCB d) (setWakeUpTime d 0 s))) E D pl s (preSelect call p k d s)"
proof -
  let ?s = "setWakeUpTime d 0 s"
  have d: "d \<in> live s" using in_hand(1) [OF I] by (simp add: ready_def setWakeUpTime_def)
  have f: "frame s ?s" by (simp add: frame_def setWakeUpTime_def)
  let ?w = "wakeUpTime (heap s d) + RegFileDelay (cores s p)"
  show ?thesis
  proof (cases "now s < ?w")
    case True
    have ns: "now ?s = now s" by (simp add: setWakeUpTime_def)
    have "cb_at call (SelectCB d) ?w ?s = Some (?s\<lparr>events := add_mset (?w, SelectCB d) (events ?s)\<rparr>)"
      using True by (simp add: cb_at_def ns)
    moreover have "isFree (SelectCB d) ?s" by (rule isFree_in_hand [OF I]) simp_all
    moreover have "frame s (?s\<lparr>events := add_mset (?w, SelectCB d) (events ?s)\<rparr>)" using f by (simp add: frame_def)
    ultimately show ?thesis using True wk d delayed [OF I, of ?w]
      by (auto simp: preSelect_def scb_at_def ns Let_def intro!: finI)
  next
    case False
    have "fin (W (put (SelectCB d) ?s)) E D pl s (DepWindow_select call p k d ?s)"
      using fin_frame [OF f fin_le [OF select_ok [OF g I w, of p k]]] by simp
    then show ?thesis using False wk d by (simp add: preSelect_def setWakeUpTime_def Let_def)
  qed
qed

subsection \<open>Times of dependents\<close>

text \<open>\<open>wakeUpDeps\<close> only moves the wake up times of instructions that still wait.\<close>

definition rewake :: "world \<Rightarrow> world \<Rightarrow> bool" where
  "rewake s s' \<longleftrightarrow> frame s s' \<and> (\<forall>x. links (heap s' x) = links (heap s x)) \<and>
     (\<forall>x. executed (heap s' x) = executed (heap s x)) \<and> events s' = events s \<and> memReads s' = memReads s \<and>
     cores s' = cores s \<and> (\<forall>x. wakeUpTime (heap s' x) = wakeUpTime (heap s x) \<or> nDeps (heap s x) \<noteq> 0)"

lemma rewake_refl [simp]: "rewake s s"
  by (simp add: rewake_def)

lemma rewake_nDeps: "rewake s s' \<Longrightarrow> nDeps (heap s' x) = nDeps (heap s x) \<and> nextDep (heap s' x) = nextDep (heap s x)"
  using links_eq by (auto simp: rewake_def)

lemma rewake_trans:
  assumes "rewake s t" "rewake t u"
  shows "rewake s u"
proof -
  have "wakeUpTime (heap u x) = wakeUpTime (heap s x) \<or> nDeps (heap s x) \<noteq> 0" for x
    using assms rewake_nDeps [OF assms(1), of x] unfolding rewake_def by metis
  then show ?thesis using assms frame_trans [of s t u] by (auto simp: rewake_def)
qed

lemma rewake_set: "nDeps (heap s x) \<noteq> 0 \<Longrightarrow> rewake s (setWakeUpTime x t s)"
  by (auto simp: rewake_def setWakeUpTime_def frame_def)

lemma rewake_put: "rewake s s' \<Longrightarrow> rewake (put ev s) (put ev s')"
  by (auto simp: rewake_def put_def frame_def)

lemma rewake_inv:
  assumes "rewake s s'" "core_inv E D pl s"
  shows "core_inv E D pl s'" "W s' = W s"
proof -
  note C = core_invD [OF assms(2)]
  have F: "frame s s'" "cores s' = cores s" "events s' = events s" "memReads s' = memReads s"
      "\<And>x. links (heap s' x) = links (heap s x)" "\<And>x. executed (heap s' x) = executed (heap s x)"
    using assms(1) by (simp_all add: rewake_def)
  have n: "nDeps (heap s' x) = nDeps (heap s x)" for x using rewake_nDeps [OF assms(1)] by simp
  have "time_ok s'" "ports_ok s'" using C(9,10) F frame_simps(1) [OF F(1)] by (simp_all add: time_ok_def ports_ok_def)
  moreover have "wakeUpTime (heap s' x) = 0" if "SelectCB x \<in># evs s" for x
  proof -
    have "0 < acts s x" using evs_about [OF that] by simp
    then have "nDeps (heap s x) = 0" "wakeUpTime (heap s x) = 0"
      using C(3) that by (auto simp: act_ok_def ready_def split: if_splits)
    then show ?thesis using assms(1) unfolding rewake_def by metis
  qed
  ultimately show "core_inv E D pl s'" using F by (intro core_inv_cong [OF assms(2)]) (simp_all add: evs_def)
  show "W s' = W s" using F frame_simps(2,13) [OF F(1)] n by (intro W_same) (auto intro!: rank_cong simp: evs_def)
qed

lemma wakeUp_loop_ok:
  assumes "chain (heap s) it ns" "\<And>n. n \<in> set ns \<Longrightarrow> fst n \<in> live s \<and> nDeps (heap s (fst n)) \<noteq> 0"
  shows "\<exists>s'. wakeUp_loop c t it s = Some s' \<and> rewake s s'"
  using assms
proof (induction ns arbitrary: it s)
  case Nil
  then show ?case by (simp add: wakeUp_loop.simps)
next
  case (Cons n ns)
  let ?x = "heap s (fst n)"
  let ?s = "case d_resource ?x of None \<Rightarrow> s
    | Some r \<Rightarrow> if getCluster r s = c \<and> wakeUpTime ?x < t then setWakeUpTime (fst n) t s else s"
  have n: "fst n \<in> live s" "nDeps ?x \<noteq> 0" using Cons.prems(2) [of n] by auto
  have r: "rewake s ?s" using rewake_set [OF n(2), of t] by (simp split: option.split)
  have nd: "nextDep (heap ?s x) = nextDep (heap s x)" "nDeps (heap ?s x) = nDeps (heap s x)" for x
    using rewake_nDeps [OF r] by simp_all
  have lv: "live ?s = live s" using r frame_simps(2) [of s ?s] by (simp add: rewake_def)
  have "chain (heap ?s) (nextDep ?x (snd n)) ns"
    using Cons.prems(1) deps_chain_cong [of ns "heap ?s" "heap s"] nd by simp
  moreover have "fst m \<in> live ?s \<and> nDeps (heap ?s (fst m)) \<noteq> 0" if "m \<in> set ns" for m
    using Cons.prems(2) [of m] that nd lv by simp
  ultimately obtain s' where s': "wakeUp_loop c t (nextDep ?x (snd n)) ?s = Some s'" "rewake ?s s'"
    using Cons.IH by blast
  have "it = Some n" using Cons.prems(1) by simp
  then have "wakeUp_loop c t it s = Some s'" using s'(1) n(1) by (simp add: wakeUp_loop.simps [of c t "Some n"])
  then show ?case using rewake_trans [OF r s'(2)] by blast
qed

lemma wakeUpDeps_ok:
  assumes I: "core_inv E D pl (put (SimTimeCB d) s)"
  shows "\<exists>s'. DepWindow_wakeUpDeps p k d s = Some s' \<and> core_inv E D pl (put (SimTimeCB d) s') \<and>
    W (put (SimTimeCB d) s') = W (put (SimTimeCB d) s) \<and> frame s s'"
proof -
  note C = core_invD [OF I]
  have d: "d \<in> live s" "nDeps (heap s d) = 0" using in_hand(1) [OF I] by (auto simp: ready_def)
  have D: "deps_ok D s" using C(2) deps_ok_cong [of "put (SimTimeCB d) s" s D] by simp
  obtain p0 where p0: "d_resource (heap s d) = Some (p0, opcode (d_inst (heap s d)))"
    using ready_place [OF I, of d] in_hand(1) [OF I] by auto
  obtain t s1 where s1: "wakeUp_nextSlot p k s = Some (t, s1)" "quiet s s1"
    using port_slot(1) [of s p k] C(9) by auto
  have q: "frame s s1" "heap s1 = heap s" "live s1 = live s" using s1(2) frame_simps(2) by (auto simp: quiet_def)
  have J: "core_inv E D pl (put (SimTimeCB d) s1)" "W (put (SimTimeCB d) s1) = W (put (SimTimeCB d) s)"
    using quiet_inv [OF quiet_put [OF s1(2)] I] quiet_W [OF quiet_put [OF s1(2)]] by auto
  show ?thesis
  proof (cases "d_first (heap s d) = None")
    case True
    then have "DepWindow_wakeUpDeps p k d s = Some s1"
      using hasDeps_ok [OF D d(1)] d s1 q by (simp add: DepWindow_wakeUpDeps_def)
    then show ?thesis using J q by blast
  next
    case False
    have nz: "fst n \<in> live s1 \<and> nDeps (heap s1 (fst n)) \<noteq> 0" if "n \<in> set (D d)" for n
    proof -
      have "(fst n, snd n) \<in> nodes D" using that by (auto simp: nodes_def)
      moreover have "snd n = 0 \<or> snd n = 1" using deps_okD(7) [OF D that] by auto
      ultimately have "nDeps (heap s (fst n)) \<noteq> 0" using deps_use(1) [OF D deps_okD(6) [OF D that]] by metis
      then show ?thesis using deps_okD(6) [OF D that] q by simp
    qed
    obtain s2 where s2: "wakeUp_loop (getCluster (p0, opcode (d_inst (heap s d))) s1)
        (t + WakeUpDelay (clusters (cores s1 p) k)) (d_first (heap s d)) s1 = Some s2" "rewake s1 s2"
      using wakeUp_loop_ok [OF _ nz, of "d_first (heap s d)"] deps_okD(1) [OF D d(1)] q by metis
    have "DepWindow_wakeUpDeps p k d s = Some s2"
      using hasDeps_ok [OF D d(1)] d s1 q False p0 s2(1) by (auto simp: DepWindow_wakeUpDeps_def)
    moreover have "frame s s2" using frame_trans [OF q(1)] s2(2) by (simp add: rewake_def)
    ultimately show ?thesis using rewake_inv [OF rewake_put [OF s2(2)] J(1)] J(2) by auto
  qed
qed

subsection \<open>The start of execution\<close>

lemma issued_quiet:
  assumes "recycleAt (clusters (cores s p) k) \<noteq> AtIssue"
  shows "Cluster_issued p k s = Some s"
  using assms by (simp add: Cluster_issued_def)

text \<open>The window entry is given back at once, or later by the callback that is scheduled.\<close>

lemma start_ok:
  assumes I: "core_inv E D pl (put (SimTimeCB d) s)" and p: "pl d = Some (InROB p)" and ty: "ty = opcode (d_inst (heap s d))"
    and d': "about ev' = Some d" "\<not> starts ev'" "rk ev' < 3" and t: "now s \<le> t"
    and disp: "\<And>q. ev' = DispatchedCB q d \<Longrightarrow> isLoad (d_inst (heap s d)) \<and> \<not> loadForwarded (heap s d)"
    and call: "\<And>u. call (IssuedCB p ty d) u = Cluster_issued p (cluster_no p ty u) u"
  shows "\<exists>s1. cb_at call (IssuedCB p ty d) t s = Some s1 \<and> core_inv E D pl (put ev' s1) \<and> frame s s1 \<and>
    W (put ev' s1) < W (put (SimTimeCB d) s) \<and> heap s1 = heap s"
    and "\<exists>s1. Cluster_issued p (cluster_no p ty s) s = Some s1 \<and> core_inv E D pl (put ev' s1) \<and> frame s s1 \<and>
    W (put ev' s1) < W (put (SimTimeCB d) s) \<and> heap s1 = heap s"
proof -
  note C = core_invD [OF I]
  have T: "ports_ok s" "time_ok s" using C(9,10) by simp_all
  have fin: "\<exists>s1. r = Some s1 \<and> core_inv E D pl (put ev' s1) \<and> frame s s1 \<and>
    W (put ev' s1) < W (put (SimTimeCB d) s) \<and> heap s1 = heap s"
    if s1: "r = Some s1" "frame s s1" "heap s1 = heap s" "memReads s1 = memReads s" "\<And>q. RAT (cores s1 q) = RAT (cores s q)"
      "ports_ok s1" "time_ok s1" "evs s1 = evs s + N" "\<And>e. e \<in># N \<Longrightarrow> about e = None"
      and w: "\<And>q k. win_at (clusters (cores s1 q) k) (used (put ev' s1) q k)" for s1 N r
  proof -
    have "win_ok (put ev' s1)" using w by (simp add: win_ok_def)
    then have J: "core_inv E D pl (put ev' s1)"
      using s1 disp d' by (intro act_step [OF I, of d ev' s1 N]) auto
    have "W (put ev' s1) < W (put (SimTimeCB d) s)"
    proof (rule W_move [OF I J])
      fix e x assume "about e = Some x"
      then show "e \<in># evs s1 \<longleftrightarrow> e \<in># evs s" using s1(8,9) by auto
    qed (use s1 d' in auto)
    then show ?thesis using s1 J by blast
  qed
  have um: "int (used (put ev' s1) q k) = int (used (put (SimTimeCB d) s) q k) +
    (if recycleAt (clusters (cores s q) k) = AtIssue then
       (if q = p \<and> cluster_no p ty s = k then - 1 else 0) + int (size (filter_mset (is_issued_cb s q k) N)) else 0)"
    if "frame s s1" "heap s1 = heap s" "evs s1 = evs s + N" "\<And>e. e \<in># N \<Longrightarrow> about e = None" for s1 N q k
    using used_move [OF I _ d'(1) that(1) _ _ that(3,4) p, of q k] that(2) d'(2) ty by auto
  have w0: "win_at (clusters (cores s q) k) (used (put (SimTimeCB d) s) q k)" for q k
    using C(4) by (simp add: win_ok_def)
  let ?k = "cluster_no p ty s"
  show now: "\<exists>s1. Cluster_issued p ?k s = Some s1 \<and> core_inv E D pl (put ev' s1) \<and> frame s s1 \<and>
    W (put ev' s1) < W (put (SimTimeCB d) s) \<and> heap s1 = heap s"
  proof (cases "recycleAt (clusters (cores s p) ?k) = AtIssue")
    case False
    show ?thesis
    proof (rule fin [of _ s "{#}"])
      show "win_at (clusters (cores s q) k) (used (put ev' s) q k)" for q k
        using um [of s "{#}" q k] w0 [of q k] False by (auto simp: win_at_def)
    qed (use False T in \<open>auto simp: Cluster_issued_def\<close>)
  next
    case True
    let ?s = "upd_cluster p ?k (\<lambda>c. c\<lparr>windowSize := windowSize c + 1\<rparr>) s"
    have f: "frame s ?s" by (auto simp: frame_def cluster_body_def)
    have u: "int (used (put ev' ?s) q k) = int (used (put (SimTimeCB d) s) q k) +
      (if q = p \<and> k = ?k then - 1 else 0)" for q k
      using um [OF f, of "{#}" q k] True by auto
    have w: "win_at (clusters (cores ?s q) k) (used (put ev' ?s) q k)" for q k
      using u [of q k] w0 [of q k] True by (auto simp: win_at_def)
    have "windowSize (clusters (cores ?s p) ?k) \<le> MaxWinSize (clusters (cores ?s p) ?k)"
      using w [of p ?k] by (simp add: win_at_def)
    then have "Cluster_issued p ?k s = Some ?s"
      using True by (simp add: Cluster_issued_def delEntry_def Let_def)
    then show ?thesis using f w T by (intro fin [of _ ?s "{#}"]) (auto simp: ports_ok_def time_ok_def)
  qed
  show "\<exists>s1. cb_at call (IssuedCB p ty d) t s = Some s1 \<and> core_inv E D pl (put ev' s1) \<and> frame s s1 \<and>
    W (put ev' s1) < W (put (SimTimeCB d) s) \<and> heap s1 = heap s"
  proof (cases "t = now s")
    case True
    then show ?thesis using now call by (simp add: cb_at_def)
  next
    case False
    let ?s = "s\<lparr>events := add_mset (t, IssuedCB p ty d) (events s)\<rparr>"
    have f: "frame s ?s" by (simp add: frame_def)
    have e: "evs ?s = evs s + {#IssuedCB p ty d#}" by (simp add: evs_def)
    have "cb_at call (IssuedCB p ty d) t s = Some ?s" using False t by (simp add: cb_at_def)
    moreover have "win_at (clusters (cores ?s q) k) (used (put ev' ?s) q k)" for q k
      using um [OF f _ e, of q k] w0 [of q k] by (auto simp: win_at_def is_issued_cb_def split: if_splits)
    ultimately show ?thesis using f e T t
      by (intro fin [of _ ?s "{#IssuedCB p ty d#}"]) (auto simp: time_ok_def ports_ok_def)
  qed
qed

end
