(* ===== verification/Core_Wake.thy ===== *)
theory Core_Wake
  imports Core_Sel
begin

text \<open>
  The end of execution: an instruction is marked as executed, and its dependents are taken off its list
  and selected when they wait for nobody else.
\<close>

subsection \<open>Marking\<close>

lemma mark_inv:
  assumes I: "core_inv E D pl (put ev s0)" and d: "about ev = Some d" "\<not> starts ev" and p: "pl d = Some (InROB p)"
    and k: "k = cluster_no p (opcode (d_inst (heap s0 d))) s0"
    and F: "frame s0 s" and h: "heap s = (heap s0)(d := (heap s0 d)\<lparr>executed := True\<rparr>)" and e: "events s = events s0" "memReads s = memReads s0"
    and rat: "\<And>q r. r < InvalidOutput \<Longrightarrow> RAT (cores s q) r = (if RAT (cores s0 q) r = Some d then None else RAT (cores s0 q) r)"
    and w: "\<And>q j. windowSize (clusters (cores s q) j) = windowSize (clusters (cores s0 q) j) +
      of_bool (q = p \<and> j = k \<and> recycleAt (clusters (cores s0 p) k) = AtExecute)"
    and "ports_ok s"
  shows "core_inv (insert d E) D pl s" "W s < W (put ev s0)"
proof -
  note C = core_invD [OF I] and Fs = frame_simps [OF F] and H = in_hand [OF I d(1)]
  note P = placeD [OF staticD(1) [OF C(1)]]
  have dl: "d \<in> live s0" "issued (heap s0 d)" "\<not> executed (heap s0 d)" "nDeps (heap s0 d) = 0" using H(1) by (simp_all add: ready_def)
  have L: "links (heap s x) = links (heap s0 x)" and X: "executed (heap s x) = (x = d \<or> executed (heap s0 x))"
      and wk: "wakeUpTime (heap s x) = wakeUpTime (heap s0 x)" for x
    by (simp_all add: h)
  note U = unlinks [OF L]
  have ev: "evs s = evs s0" by (simp add: evs_def e)
  have nf: "frame (put ev s0) s" using F by simp
  have "static_ok pl s" using C(1) static_frame [OF nf] by simp
  moreover have "deps_ok D s" using C(2) deps_ok_cong [of s "put ev s0" D] L Fs(2) by simp
  moreover have "act_ok s"
    unfolding act_ok_def
  proof (intro conjI allI ballI impI)
    fix x
    have "acts (put ev s0) x = of_bool (ready s0 x)" using C(3) by (simp add: act_ok_def)
    moreover have "acts s x = acts s0 x" by (simp add: acts_def ev e)
    ultimately show "acts s x = of_bool (ready s x)"
      using H(1,2) d(1) by (cases "x = d") (auto simp: acts_put ready_def X U Fs)
    show "issued (heap s x)" "nDeps (heap s x) = 0" if "x \<in> live s" "executed (heap s x)"
      using C(3) that dl by (auto simp: act_ok_def X U Fs)
    show "wakeUpTime (heap s x) = 0" if "SelectCB x \<in># evs s" using that C(3) by (simp add: act_ok_def ev wk)
    show "isLoad (d_inst (heap s x))" "\<not> loadForwarded (heap s x)" if "DispatchedCB q x \<in># evs s" for q
      using that C(3) by (auto simp: act_ok_def ev Fs)
    show "isLoad (d_inst (heap s x))" "\<not> loadForwarded (heap s x)" if "x \<in># memReads s"
      using that C(3) by (auto simp: act_ok_def e Fs)
  qed
  moreover have "win_ok s"
    unfolding win_ok_def
  proof (intro allI)
    fix q j
    have w0: "win_at (clusters (cores s0 q) j) (used (put ev s0) q j)" using C(4) by (simp add: win_ok_def)
    have un: "unstarted (put ev s0) x = unstarted s x" if "x \<noteq> d" for x
      using unstarted_put [OF I d(1), of x] that by (simp add: unstarted_def X U ev)
    have h1: "holds s q j x = holds (put ev s0) q j x" if "x \<noteq> d" for x
      using un that by (simp add: holds_def X Fs split: recycle.split)
    have h2: "holds s q j d \<longleftrightarrow> cluster_no q (opcode (d_inst (heap s0 d))) s0 = j \<and> recycleAt (clusters (cores s0 q) j) = AtRetire"
      by (simp add: holds_def unstarted_def X Fs split: recycle.split)
    have h3: "holds (put ev s0) q j d \<longleftrightarrow> cluster_no q (opcode (d_inst (heap s0 d))) s0 = j \<and> recycleAt (clusters (cores s0 q) j) \<noteq> AtIssue"
      using unstarted_put [OF I d(1), of d] d(2) dl by (simp add: holds_def split: recycle.split)
    have cb: "is_issued_cb s q j = is_issued_cb s0 q j" "is_issued_cb (put ev s0) q j = is_issued_cb s0 q j"
      by (simp_all add: fun_eq_iff is_issued_cb_def Fs split: cev.split)
    have ne: "\<not> is_issued_cb s0 q j ev" using d by (cases ev; simp add: is_issued_cb_def)
    have "int (length (filter (holds s q j) (ROB (cores s0 q)))) = int (length (filter (holds (put ev s0) q j) (ROB (cores s0 q)))) -
        of_bool (q = p \<and> j = k \<and> recycleAt (clusters (cores s0 p) k) = AtExecute)"
    proof (cases "q = p")
      case True
      have "distinct (ROB (cores s0 q))" "d \<in> set (ROB (cores s0 q))" using P(3) [of q] P(4) [of d q] p True by simp_all
      from filter_one [OF this h1] show ?thesis using True h2 h3 k by (cases "recycleAt (clusters (cores s0 q) j)") auto
    next
      case False
      then have "d \<notin> set (ROB (cores s0 q))" using P(4) [of d q] p by simp
      then have "filter (holds s q j) (ROB (cores s0 q)) = filter (holds (put ev s0) q j) (ROB (cores s0 q))"
        using h1 by (intro filter_cong refl) (metis)
      then show ?thesis using False by simp
    qed
    then have "int (used s q j) = int (used (put ev s0) q j) - of_bool (q = p \<and> j = k \<and> recycleAt (clusters (cores s0 p) k) = AtExecute)"
      using ne by (simp add: used_def cb Fs ev)
    then show "win_at (clusters (cores s q) j) (used s q j)" using w0 w [of q j] by (auto simp: win_at_def Fs)
  qed
  moreover have "rat_ok s" using C(5) by (auto simp: rat_ok_def rat writer_frame [OF nf] X Fs split: option.splits)
  moreover have "dep_ok D s" using C(6) by (auto simp: dep_ok_def writer_frame [OF nf] X Fs)
  moreover have "ret_ok (insert d E) D pl s" using C(7) dl by (auto simp: ret_ok_def X Fs)
  moreover have "stamp_ok D s" using stamp_frame [OF nf _ C(8)] by simp
  moreover have "time_ok s" using C(10) by (simp add: time_ok_def e Fs put_def)
  ultimately show "core_inv (insert d E) D pl s" using assms by (simp add: core_inv_def)
  show "W s < W (put ev s0)"
  proof (rule W_less [of _ _ d])
    show "finite (live (put ev s0))" using live_finite [OF I] .
    have "rank s d = 0" by (simp add: rank_def X)
    moreover have "rank (put ev s0) d = rk ev" "0 < rk ev" using rank_put [OF I d(1), of d] d by (simp, cases ev) simp_all
    ultimately show "rank s d < rank (put ev s0) d" by simp
    fix x assume "x \<noteq> d"
    then have "rank s x = rank s0 x" by (intro rank_cong) (simp_all add: X U Fs ev)
    then show "rank s x = rank (put ev s0) x" using rank_put [OF I d(1), of x] \<open>x \<noteq> d\<close> by simp
  qed (use dl Fs in auto)
qed

subsection \<open>Instructions that are being executed\<close>

lemma inv_enlarge:
  assumes "core_inv E D pl s" "d \<in> live s" "executed (heap s d)"
  shows "core_inv (insert d E) D pl s"
  using assms by (auto simp: core_inv_def ret_ok_def)

lemma inv_drop:
  assumes "core_inv (insert d E) D pl s" "\<forall>n\<in>set (D d). depsAtRetire (heap s (fst n))" "D d \<noteq> [] \<longrightarrow> isStore (d_inst (heap s d))"
  shows "core_inv E D pl s"
proof -
  have "ret_ok (insert d E) D pl s" using core_invD(7) [OF assms(1)] .
  note R = ret_okD [OF this]
  have "ret_ok E D pl s"
    unfolding ret_ok_def
  proof (intro conjI ballI allI impI)
    show "D q = []" if "q \<in> live s" "executed (heap s q)" "q \<notin> E" "\<not> isStore (d_inst (heap s q))" for q
      using R(3) [of q] that assms(3) by (cases "q = d") auto
    show "depsAtRetire (heap s (fst m))" if "q \<in> live s" "isStore (d_inst (heap s q))" "m \<in> set (D q)"
        "executed (heap s q)" "q \<notin> E" for q m
      using R(6) [of q m] that assms(2) by (cases "q = d") auto
    show "q \<in> live s" "executed (heap s q)" if "q \<in> E" for q using R(1,2) [of q] that by simp_all
    show "snd m = 1" "isLoad (d_inst (heap s (fst m)))"
      if "q \<in> live s" "isStore (d_inst (heap s q))" "m \<in> set (D q)" for q m using R(4,5) [of q m] that by simp_all
    show "\<exists>q\<in>live s. isStore (d_inst (heap s q)) \<and> (x, 1) \<in> set (D q)" if "x \<in> live s" "depsAtRetire (heap s x)" for x
      using R(7) [of x] that by simp
    show "D x = []" "(x, 0) \<notin> nodes D" "(x, 1) \<notin> nodes D" if "pl x = Some (Waiting q)" for x q
      using R(8-10) [of x q] that by simp_all
    show "executed (heap s x)" if "pl x = Some (Sent q) \<or> pl x = Some (Dying q)" for x q
      using R(11,12) [of x q] that by auto
  qed
  then show ?thesis using core_invD [OF assms(1)] by (simp add: core_inv_def)
qed

subsection \<open>Taking a dependent off the list\<close>

lemma nodes_pop:
  assumes D: "deps_ok D s" and n: "D q = n # ns"
  shows "nodes (D(q := ns)) = nodes D - {n}"
proof -
  have m: "n \<in> set (D q)" using n by simp
  have out: "n \<notin> set ns" and out': "\<And>r. r \<noteq> q \<Longrightarrow> n \<notin> set (D r)"
    using deps_okD(4) [OF D, of q] deps_okD(5) [OF D m] n by auto
  have "x \<in> nodes (D(q := ns)) \<longleftrightarrow> x \<in> nodes D - {n}" for x
  proof (cases "x = n")
    case True
    then show ?thesis using out out' by (auto simp: nodes_def)
  next
    case False
    have "x \<in> set ((D(q := ns)) r) \<longleftrightarrow> x \<in> set (D r)" for r using False n by auto
    then show ?thesis using False by (simp add: nodes_def)
  qed
  then show ?thesis by blast
qed

lemma nDeps_nodes:
  assumes "deps_ok D s" "x \<in> live s"
  shows "nDeps (heap s x) = of_bool ((x, 0) \<in> nodes D) + of_bool ((x, 1) \<in> nodes D)"
  using deps_okD(9) [OF assms] deps_use(2) [OF assms, of 0] deps_use(2) [OF assms, of 1] by simp

lemma relinked_frame: "relinked s s' \<Longrightarrow> frame s s'"
  unfolding frame_def using relinked_simps [of s s']
  by (auto simp: body_def relinked_def)

lemma node_issued:
  assumes I: "core_inv E D pl s" and n: "(x, k) \<in> set (D q)"
  shows "x \<in> live s" "issued (heap s x)" "\<not> executed (heap s x)" "nDeps (heap s x) \<noteq> 0" "k < 2"
    "\<exists>p. pl x = Some (InROB p) \<and> d_resource (heap s x) = Some (p, opcode (d_inst (heap s x)))"
proof -
  note C = core_invD [OF I]
  note P = placeD [OF staticD(1) [OF C(1)]]
  show l: "x \<in> live s" and k: "k < 2" using deps_okD(6,7) [OF C(2) n] by simp_all
  have "(x, k) \<in> nodes D" using n by (auto simp: nodes_def)
  then have m: "(x, 0) \<in> nodes D \<or> (x, 1) \<in> nodes D" using k by (auto simp: less_2_cases_iff)
  then show nz: "nDeps (heap s x) \<noteq> 0" using nDeps_nodes [OF C(2) l] by auto
  then show ne: "\<not> executed (heap s x)" using C(3) l by (auto simp: act_ok_def)
  obtain y where y: "pl x = Some y" using P(2) l by auto
  have "y \<noteq> Waiting p" for p using C(7) y m by (auto simp: ret_ok_def)
  moreover have "y \<noteq> Sent p \<and> y \<noteq> Dying p" for p using C(7) y ne by (auto simp: ret_ok_def)
  ultimately obtain p where p: "pl x = Some (InROB p)" using y by (cases y) auto
  then show "issued (heap s x)" "\<exists>p. pl x = Some (InROB p) \<and> d_resource (heap s x) = Some (p, opcode (d_inst (heap s x)))"
    using P(13) [OF p] by (simp_all add: runs_on_def)
qed

text \<open>
  The state \<open>s'\<close> after the node \<open>(x, k)\<close> has been taken off the list of \<open>d\<close>. When \<open>x\<close> waits for nobody
  else it gets an activity \<open>ev\<close>.
\<close>

lemma pop_inv:
  assumes I: "core_inv E D pl s" and E: "d \<in> E" and n: "D d = (x, k) # ns"
    and D': "deps_ok (D(d := ns)) s'" and F: "frame s s'"
    and ot: "\<And>y. executed (heap s' y) = executed (heap s y)" "events s' = events s" "memReads s' = memReads s"
      "cores s' = cores s" "\<And>y. y \<noteq> x \<Longrightarrow> wakeUpTime (heap s' y) = wakeUpTime (heap s y)"
    and nr: "k = 1 \<longrightarrow> \<not> depsAtRetire (heap s x)"
    and ev: "about ev = Some x" "starts ev" "ev = SelectCB x \<longrightarrow> wakeUpTime (heap s' x) = 0"
  shows "if nDeps (heap s' x) = 0 then core_inv E (D(d := ns)) pl (put ev s') \<and> W (put ev s') < W s
    else core_inv E (D(d := ns)) pl s' \<and> W s' = W s"
proof -
  let ?D = "D(d := ns)"
  define b where "b = (nDeps (heap s' x) = 0)"
  define t where "t = (if b then put ev s' else s')"
  note C = core_invD [OF I] and Fs = frame_simps [OF F]
  note N = node_issued [OF I, of x k d]
  have xl: "x \<in> live s" "issued (heap s x)" "\<not> executed (heap s x)" "nDeps (heap s x) \<noteq> 0" using N n by simp_all
  have dx: "executed (heap s d)" "d \<in> live s" using C(7) E by (auto simp: ret_ok_def)
  have nod: "nodes ?D = nodes D - {(x, k)}" using nodes_pop [OF C(2) n] .
  have th: "heap t = heap s'" "live t = live s" "memReads t = memReads s" "cores t = cores s"
    by (auto simp: t_def Fs ot)
  have tev: "evs t = (if b then add_mset ev (evs s) else evs s)" by (simp add: t_def evs_def ot put_def)
  have nd: "nDeps (heap s' y) = nDeps (heap s y)" if "y \<noteq> x" for y
  proof (cases "y \<in> live s")
    case True
    then show ?thesis using nDeps_nodes [OF C(2) True] nDeps_nodes [OF D', of y] that by (simp add: nod Fs)
  next
    case False
    then show ?thesis using deps_okD(11) [OF C(2)] deps_okD(11) [OF D'] by (simp add: Fs)
  qed
  have nf: "frame s t" using F by (simp add: t_def)
  have noev: "e \<notin># evs s" if "about e = Some x" for e
  proof -
    have "acts s x = 0" using C(3) xl by (simp add: act_ok_def ready_def)
    then show ?thesis using evs_about [OF _ that, of s] by auto
  qed
  have evin: "e \<in># evs t \<longleftrightarrow> e \<in># evs s" if "about e = Some y" "y \<noteq> x" for e y using that ev(1) by (auto simp: tev)
  have "static_ok pl t" using C(1) static_frame [OF nf] by simp
  moreover have "deps_ok ?D t" using D' deps_ok_cong [of t s' ?D] th Fs by simp
  moreover have "act_ok t"
    unfolding act_ok_def
  proof (intro conjI allI ballI impI)
    fix y
    have a: "acts s y = of_bool (ready s y)" using C(3) by (simp add: act_ok_def)
    have "acts t y = acts s y + of_bool (b \<and> y = x)" using ev(1) by (simp add: acts_def tev th)
    moreover have "ready t y \<longleftrightarrow> (if y = x then b else ready s y)"
      using xl by (simp add: ready_def th Fs ot nd b_def)
    moreover have "\<not> ready s x" using xl by (simp add: ready_def)
    ultimately show "acts t y = of_bool (ready t y)" using a by auto
    show "issued (heap t y)" "nDeps (heap t y) = 0" if "y \<in> live t" "executed (heap t y)"
      using C(3) that xl by (cases "y = x"; simp add: act_ok_def th Fs ot nd)+
    show "wakeUpTime (heap t y) = 0" if "SelectCB y \<in># evs t"
    proof (cases "y = x")
      case True
      then show ?thesis using that noev [of "SelectCB x"] ev(3) by (auto simp: th tev split: if_splits)
    next
      case False
      then show ?thesis using that evin [of "SelectCB y" y] C(3) by (simp add: act_ok_def th ot)
    qed
    show "isLoad (d_inst (heap t y))" "\<not> loadForwarded (heap t y)" if "DispatchedCB q y \<in># evs t" for q
    proof -
      have "DispatchedCB q y \<in># evs s" using that ev(2) by (auto simp: tev split: if_splits)
      then show "isLoad (d_inst (heap t y))" "\<not> loadForwarded (heap t y)" using C(3) by (auto simp: act_ok_def th Fs)
    qed
    show "isLoad (d_inst (heap t y))" "\<not> loadForwarded (heap t y)" if "y \<in># memReads t"
      using that C(3) by (auto simp: act_ok_def th Fs)
  qed
  moreover have "win_ok t"
  proof -
    have un: "unstarted t y = unstarted s y" for y
    proof (cases "y = x")
      case True
      have "unstarted t x"
        using xl ev(1,2) by (cases ev) (auto simp: unstarted_def th ot tev b_def)
      then show ?thesis using True xl by (simp add: unstarted_def)
    next
      case False
      then show ?thesis using evin [of "SelectCB y" y] evin [of "SimTimeCB y" y] by (simp add: unstarted_def th ot nd)
    qed
    have "holds t q j = holds s q j" "is_issued_cb t q j = is_issued_cb s q j" for q j
      by (simp_all add: fun_eq_iff holds_def un th ot Fs frame_simps [OF nf] is_issued_cb_def split: recycle.split cev.split)
    moreover have "\<not> is_issued_cb s q j ev" for q j using ev(1) by (cases ev) (auto simp: is_issued_cb_def)
    ultimately have "used t q j = used s q j" for q j by (simp add: used_def th tev)
    then show ?thesis using C(4) by (simp add: win_ok_def th)
  qed
  moreover have "rat_ok t" using C(5) by (simp add: rat_ok_def writer_frame [OF nf] th ot cong: option.case_cong)
  moreover have "dep_ok ?D t"
    unfolding dep_ok_def
  proof (intro allI impI)
    fix q pre y post r and j :: nat
    assume "ROB (cores t q) = pre @ y # post"
      "j = 0 \<and> writer t (getSrc1 (d_inst (heap t y))) pre = Some r \<or> j = 1 \<and> writer t (getSrc2 (d_inst (heap t y))) pre = Some r"
    then have "executed (heap s r) \<or> (y, j) \<in> set (D r)"
      using dep_okD [OF C(6)] unfolding th writer_frame [OF nf] Fs by blast
    then show "executed (heap t r) \<or> (y, j) \<in> set (?D r)" using dx n by (auto simp: th ot)
  qed
  moreover have "ret_ok E ?D pl t"
  proof -
    have sub: "set (?D q) \<subseteq> set (D q)" for q using n by auto
    have keep: "(y, 1) \<in> set (?D q)" if "(y, 1) \<in> set (D q)" "depsAtRetire (heap s y)" for y q
      using that nr n by auto
    show ?thesis
      unfolding ret_ok_def
    proof (intro conjI ballI allI impI)
      show "q \<in> live t" "executed (heap t q)" if "q \<in> E" for q using C(7) that by (auto simp: ret_ok_def th ot)
      show "?D q = []" if "q \<in> live t" "executed (heap t q)" "q \<notin> E" "\<not> isStore (d_inst (heap t q))" for q
        using C(7) that E by (auto simp: ret_ok_def th ot Fs)
      show "snd m = 1" "isLoad (d_inst (heap t (fst m)))" if "q \<in> live t" "isStore (d_inst (heap t q))" "m \<in> set (?D q)" for q m
        using C(7) that sub [of q] by (auto simp: ret_ok_def th Fs)
      show "depsAtRetire (heap t (fst m))" if "q \<in> live t" "isStore (d_inst (heap t q))" "m \<in> set (?D q)"
          "executed (heap t q)" "q \<notin> E" for q m
        using C(7) that sub [of q] by (auto simp: ret_ok_def th Fs ot)
      show "\<exists>q\<in>live t. isStore (d_inst (heap t q)) \<and> (y, 1) \<in> set (?D q)" if "y \<in> live t" "depsAtRetire (heap t y)" for y
      proof -
        have "y \<in> live s" "depsAtRetire (heap s y)" using that by (simp_all add: th Fs)
        then obtain q where "q \<in> live s" "isStore (d_inst (heap s q))" "(y, 1) \<in> set (D q)"
          using C(7) by (auto simp: ret_ok_def)
        then show ?thesis using keep [OF _ \<open>depsAtRetire (heap s y)\<close>] by (auto simp only: th Fs)
      qed
      show "?D y = []" "(y, 0) \<notin> nodes ?D" "(y, 1) \<notin> nodes ?D" if "pl y = Some (Waiting q)" for y q
        using C(7) that sub [of y] by (auto simp: ret_ok_def nod)
      show "executed (heap t y)" if "pl y = Some (Sent q) \<or> pl y = Some (Dying q)" for y q
        using C(7) that by (auto simp: ret_ok_def th ot)
    qed
  qed
  moreover have "stamp_ok ?D t" using n by (intro stamp_frame [OF nf _ C(8)]) auto
  moreover have "ports_ok t" using C(9) by (simp add: ports_ok_def th)
  moreover have "time_ok t" using C(10) by (auto simp: t_def time_ok_def ot Fs put_def)
  ultimately have inv: "core_inv E ?D pl t" by (simp add: core_inv_def)
  have rk: "rank t y = rank s y" if "y \<noteq> x" for y using that evin by (intro rank_cong) (auto simp: th ot Fs nd)
  have r5: "rank s x = 5" using xl by (simp add: rank_def)
  show ?thesis
  proof (cases b)
    case True
    have "rank t x = rk ev" using inv rank_put [of E ?D pl ev s' x x] ev(1) True by (simp add: t_def)
    then have "W t < W s" using r5 rk ev(2) xl live_finite [OF I] th by (intro W_less [of _ _ x]) (cases ev; auto)+
    then show ?thesis using inv True by (simp add: t_def b_def)
  next
    case False
    then have "rank t x = 5" using xl by (simp add: rank_def th ot Fs b_def)
    then have "rank t y = rank s y" for y using rk [of y] r5 by (cases "y = x") auto
    then have "W t = W s" using th by (intro W_same) auto
    then show ?thesis using inv False by (simp add: t_def b_def)
  qed
qed

subsection \<open>The loop over the dependents\<close>

lemma relist:
  assumes I: "core_inv E D pl s" and D': "deps_ok D' s'" and R: "relinked s s'" and S: "\<And>q. set (D' q) = set (D q)"
  shows "core_inv E D' pl s'" "W s' = W s"
proof -
  note C = core_invD [OF I] and F = relinked_frame [OF R] and r = relinked_simps [OF R]
  have nodes: "nodes D' = nodes D" by (simp add: nodes_def S)
  have emp: "D' q = [] \<longleftrightarrow> D q = []" for q using S [of q] by (metis set_empty)
  have nd: "nDeps (heap s' y) = nDeps (heap s y)" for y
  proof (cases "y \<in> live s")
    case True
    then show ?thesis using nDeps_nodes [OF C(2) True] nDeps_nodes [OF D', of y] by (simp add: nodes r)
  next
    case False
    then show ?thesis using deps_okD(11) [OF C(2)] deps_okD(11) [OF D'] by (simp add: r)
  qed
  have ev: "evs s' = evs s" by (simp add: evs_def r)
  have st: "ready s' y = ready s y" "unstarted s' y = unstarted s y" "rank s' y = rank s y" for y
    by (simp_all add: ready_def unstarted_def rank_def r nd ev)
  have cn: "cluster_no p ty s' = cluster_no p ty s" for p ty by (simp add: cluster_no_def r)
  have h: "holds s' p k = holds s p k" for p k by (simp add: fun_eq_iff holds_def st r cn cong: recycle.case_cong)
  have i: "is_issued_cb s' p k = is_issued_cb s p k" for p k by (simp add: fun_eq_iff is_issued_cb_def cn split: cev.split)
  have u: "used s' p k = used s p k" for p k by (simp add: used_def h i r ev)
  have "static_ok pl s'" using C(1) static_frame [OF F] by simp
  moreover have "act_ok s'" using C(3) by (simp add: act_ok_def acts_def st r nd ev)
  moreover have "win_ok s'" using C(4) by (simp add: win_ok_def u r)
  moreover have "rat_ok s'" using C(5) by (simp add: rat_ok_def writer_frame [OF F] r cong: option.case_cong)
  moreover have "dep_ok D' s'" using C(6) by (simp add: dep_ok_def writer_frame [OF F] r S)
  moreover have "ret_ok E D' pl s'" using C(7) by (simp add: ret_ok_def r S emp nodes)
  moreover have "stamp_ok D' s'" using S by (intro stamp_frame [OF F _ C(8)]) auto
  moreover have "ports_ok s'" "time_ok s'" using C(9,10) by (simp_all add: ports_ok_def time_ok_def r)
  ultimately show "core_inv E D' pl s'" using D' by (simp add: core_inv_def)
  show "W s' = W s" by (rule W_same) (simp_all add: r st)
qed

lemma quiet_setWake: "quiet s s' \<Longrightarrow> quiet (setWakeUpTime x t s) (setWakeUpTime x t s')"
  by (auto simp: quiet_def frame_def setWakeUpTime_def ports_ok_def)

lemma setWake_twice: "setWakeUpTime x t (setWakeUpTime x u s) = setWakeUpTime x t s"
  by (simp add: setWakeUpTime_def upd_d_def)

lemma setWake_facts:
  "frame s (setWakeUpTime x t s)" "links (heap (setWakeUpTime x t s) y) = links (heap s y)"
  "executed (heap (setWakeUpTime x t s) y) = executed (heap s y)" "live (setWakeUpTime x t s) = live s"
  "events (setWakeUpTime x t s) = events s" "memReads (setWakeUpTime x t s) = memReads s"
  "cores (setWakeUpTime x t s) = cores s" "y \<noteq> x \<Longrightarrow> wakeUpTime (heap (setWakeUpTime x t s) y) = wakeUpTime (heap s y)"
  "wakeUpTime (heap (setWakeUpTime x t s) x) = t" "nDeps (heap (setWakeUpTime x t s) y) = nDeps (heap s y)"
  by (auto simp: setWakeUpTime_def frame_def)

lemma wake_step:
  assumes g: "good n call" and I: "core_inv (insert d E) D pl s" and w: "W s \<le> Suc n" and D: "D d = (x, k) # ns"
  defines "b \<equiv> depsAtRetire (heap s x) \<and> isStore (d_inst (heap s d))"
  shows "\<exists>s1 s2 D'. getNextPending d s = Some (x, s1) \<and>
    wake_one call p c d stop x s1 = Some (if b \<and> stop = None then Some x else stop, s2) \<and>
    core_inv (insert d E) D' pl s2 \<and> W s2 \<le> W s \<and> frame s s2 \<and> (\<forall>q\<in>E. q \<noteq> d \<longrightarrow> D' q = D q) \<and>
    D' d = (if b then ns @ [(x, 1)] else ns)"
proof -
  let ?D = "D(d := ns)"
  note C = core_invD [OF I]
  note R = ret_okD [OF C(7)] and N = node_issued [OF I, of x k d]
  have dl: "d \<in> live s" "executed (heap s d)" using R(1,2) [of d] by simp_all
  have n: "(x, k) \<in> set (D d)" using D by simp
  have x: "x \<in> live s" "issued (heap s x)" "\<not> executed (heap s x)" "k < 2" "d_resource (heap s x) \<noteq> None"
    using N n by auto
  obtain s1 where s1: "getNextPending d s = Some (x, s1)" "deps_ok ?D s1" "relinked s s1"
    using getNextPending_ok [OF C(2) dl(1) D] by blast
  note r = relinked_simps [OF s1(3)] and F1 = relinked_frame [OF s1(3)]
  have xu: "isUsed (heap s1 x) 1 \<longleftrightarrow> (x, 1) \<in> nodes D \<and> k \<noteq> 1"
    using deps_use(2) [OF s1(2), of x 1] nodes_pop [OF C(2) D] x r by auto
  have hd: "hasDeps x s1 = Some (nDeps (heap s1 x) \<noteq> 0)" using hasDeps_ok [OF s1(2)] x r by simp
  have goal: ?thesis if "wake_one call p c d stop x s1 = Some (if b \<and> stop = None then Some x else stop, s2)"
    "core_inv (insert d E) D' pl s2" "W s2 \<le> W s" "frame s s2" "\<And>q. q \<in> E \<Longrightarrow> q \<noteq> d \<Longrightarrow> D' q = D q"
    "D' d = (if b then ns @ [(x, 1)] else ns)" for s2 D'
    using that s1(1) by blast
  show ?thesis
  proof (cases b)
    case True
    then have bb: "depsAtRetire (heap s x)" "isStore (d_inst (heap s d))" by (simp_all add: b_def)
    have k1: "k = 1" and ld: "isLoad (d_inst (heap s x))" using R(4,5) [OF dl(1) bb(2) n] by simp_all
    have "\<not> isUsed (heap s1 x) 1" using xu k1 by simp
    then obtain s2 where s2: "addSrc 1 d x s1 = Some s2" "deps_ok (?D(d := ?D d @ [(x, 1)])) s2" "relinked s1 s2"
      using addSrc_ok [OF s1(2), of d x 1] dl x r by auto
    have "relinked s s2" using s1(3) s2(3) by (auto simp: relinked_def)
    moreover have "set ((?D(d := ?D d @ [(x, 1)])) q) = set (D q)" for q using D k1 by auto
    ultimately have J: "core_inv (insert d E) (?D(d := ?D d @ [(x, 1)])) pl s2" "W s2 = W s"
      using relist [OF I s2(2)] by blast+
    have "wake_one call p c d stop x s1 = Some (if b \<and> stop = None then Some x else stop, s2)"
      using True bb ld x dl r xu k1 s2(1) by (simp add: wake_one_def addFakeSrc_def)
    then show ?thesis
      using J True relinked_frame [OF \<open>relinked s s2\<close>] by (intro goal [of s2 "?D(d := ?D d @ [(x, 1)])"]) auto
  next
    case False
    have nr: "\<not> depsAtRetire (heap s x) \<or> k \<noteq> 1 \<and> (x, 1) \<in> nodes D"
    proof (rule disjCI)
      assume "\<not> (k \<noteq> 1 \<and> (x, 1) \<in> nodes D)"
      show "\<not> depsAtRetire (heap s x)"
      proof
        assume dr: "depsAtRetire (heap s x)"
        then obtain q where q: "q \<in> live s" "isStore (d_inst (heap s q))" "(x, 1) \<in> set (D q)" using R(7) [OF x(1)] by blast
        then have "(x, 1) \<in> nodes D" by (auto simp: nodes_def)
        then have "k = 1" using \<open>\<not> (k \<noteq> 1 \<and> (x, 1) \<in> nodes D)\<close> by simp
        then have "q = d" using deps_okD(5) [OF C(2) q(3), of d] n by simp
        then show False using False q dr by (simp add: b_def)
      qed
    qed
    then have xu1: "depsAtRetire (heap s1 x) \<longrightarrow> isUsed (heap s1 x) 1" using xu r by auto
    show ?thesis
    proof (cases "nDeps (heap s1 x) = 0")
      case nd: True
      let ?s = "setWakeUpTime x 0 s1"
      note f = setWake_facts [where x = x and t = 0 and s = s1]
      have "deps_ok ?D ?s" using deps_ok_cong [of ?s s1 ?D] s1(2) f by simp
      from pop_inv [OF I _ D this, of "SelectCB x"] have
        J: "core_inv (insert d E) ?D pl (put (SelectCB x) ?s)" "W (put (SelectCB x) ?s) < W s"
        using nr nd f r frame_trans [OF F1 f(1)] by auto
      have "ports_ok s1" using C(9) r by (simp add: ports_ok_def)
      then obtain t s2 where s2: "wakeUp_nextSlot p c s1 = Some (t, s2)" "quiet s1 s2" "now s1 \<le> t"
        using port_slot(1) by blast
      let ?t = "t + InterClusterLat (cores s2 p)"
      have q: "quiet (put (SelectCB x) ?s) (put (SelectCB x) (setWakeUpTime x 0 s2))"
        by (intro quiet_put quiet_setWake s2(2))
      have K: "core_inv (insert d E) ?D pl (put (SelectCB x) (setWakeUpTime x 0 (setWakeUpTime x ?t s2)))"
        "W (put (SelectCB x) (setWakeUpTime x 0 (setWakeUpTime x ?t s2))) < W s"
        using quiet_inv [OF q J(1)] quiet_W [OF q] J(2) by (simp_all add: setWake_twice)
      have "0 < ?t" using s2(3) staticD(4) [OF C(1)] r by (simp add: conf_ok_def)
      then have "fin (W (put (SelectCB x) (setWakeUpTime x 0 (setWakeUpTime x ?t s2)))) (insert d E) ?D pl (setWakeUpTime x ?t s2)
          (preSelect call p c x (setWakeUpTime x ?t s2))"
        using K w setWake_facts(9) [of x ?t s2] by (intro preSelect_ok [OF g]) auto
      then obtain s3 D' where s3: "preSelect call p c x (setWakeUpTime x ?t s2) = Some s3" "core_inv (insert d E) D' pl s3"
          "W s3 \<le> W s" "frame (setWakeUpTime x ?t s2) s3" "\<forall>q\<in>insert d E. D' q = ?D q"
        using K(2) by (auto simp: fin_def)
      have "frame s s3" using frame_trans [OF frame_trans [OF F1] frame_trans [OF setWake_facts(1) s3(4)]] s2(2)
        by (simp add: quiet_def)
      moreover have "wake_one call p c d stop x s1 = Some (stop, s3)"
        using x dl r False hd nd xu1 s2(1) s3(1) by (auto simp: wake_one_def b_def)
      ultimately show ?thesis using s3 False by (intro goal [of s3 D']) auto
    next
      case nd: False
      have J: "core_inv (insert d E) ?D pl s1" "W s1 = W s"
        using pop_inv [OF I _ D s1(2) F1, of "SimTimeCB x"] nr nd r by auto
      have "wake_one call p c d stop x s1 = Some (stop, s1)"
        using x dl r False hd nd xu1 by (auto simp: wake_one_def b_def)
      then show ?thesis using J False F1 by (intro goal [of s1 ?D]) auto
    qed
  qed
qed

text \<open>The nodes that have been put back are behind those that are still to do.\<close>

lemma executed_loop_ok:
  assumes g: "good n call" and I: "core_inv (insert d E) D pl s" and w: "W s \<le> Suc n" and D: "D d = todo @ bk"
    and b: "\<And>m. m \<in> set bk \<Longrightarrow> depsAtRetire (heap s (fst m))" "bk \<noteq> [] \<Longrightarrow> isStore (d_inst (heap s d))"
    and stop: "stop = (case bk of [] \<Rightarrow> None | m # _ \<Rightarrow> Some (fst m))"
  shows "\<exists>s' D'. executed_loop call p c d stop s = Some s' \<and> core_inv (insert d E) D' pl s' \<and> W s' \<le> W s \<and> frame s s' \<and>
    (\<forall>q\<in>E. q \<noteq> d \<longrightarrow> D' q = D q) \<and> (\<forall>m\<in>set (D' d). depsAtRetire (heap s' (fst m))) \<and>
    (D' d \<noteq> [] \<longrightarrow> isStore (d_inst (heap s' d)))"
  using I w D b stop
proof (induction todo arbitrary: D s bk stop)
  case Nil
  have dl: "d \<in> live s" using ret_okD(1) [OF core_invD(7) [OF Nil.prems(1)], of d] by simp
  have "d_first (heap s d) = (case bk of [] \<Rightarrow> None | m # _ \<Rightarrow> Some m)"
    using deps_first [OF core_invD(2) [OF Nil.prems(1)] dl] Nil.prems(3) by simp
  then have "executed_loop call p c d stop s = Some s"
    using dl Nil.prems(6) by (subst executed_loop.simps) (simp split: list.split)
  then show ?case using Nil.prems by (intro exI [of _ s] exI [of _ D]) auto
next
  case (Cons m todo)
  note C = core_invD [OF Cons.prems(1)]
  obtain x k where m: "m = (x, k)" by (cases m)
  have dl: "d \<in> live s" using ret_okD(1) [OF C(7), of d] by simp
  have ff: "d_first (heap s d) = Some m" using deps_first [OF C(2) dl] Cons.prems(3) by simp
  let ?b = "depsAtRetire (heap s x) \<and> isStore (d_inst (heap s d))"
  let ?st = "if ?b \<and> stop = None then Some x else stop"
  obtain s1 s2 D' where S: "getNextPending d s = Some (x, s1)" "wake_one call p c d stop x s1 = Some (?st, s2)"
      "core_inv (insert d E) D' pl s2" "W s2 \<le> W s" "frame s s2" "\<forall>q\<in>E. q \<noteq> d \<longrightarrow> D' q = D q"
      "D' d = (if ?b then (todo @ bk) @ [(x, 1)] else todo @ bk)"
    using wake_step [OF g Cons.prems(1,2), of x k "todo @ bk" p c stop] Cons.prems(3) m by auto
  have go: "stop \<noteq> Some x"
  proof
    assume "stop = Some x"
    then obtain j rest where bk: "bk = (x, j) # rest" using Cons.prems(6) by (cases bk) auto
    then have "isStore (d_inst (heap s d))" using Cons.prems(5) by simp
    moreover have "(x, k) \<in> set (D d)" "(x, j) \<in> set (D d)" using Cons.prems(3) m bk by simp_all
    ultimately have "k = 1" "j = 1" using ret_okD(4) [OF C(7) dl] by fastforce+
    then show False using deps_okD(4) [OF C(2), of d] Cons.prems(3) m bk by simp
  qed
  have "executed_loop call p c d stop s = executed_loop call p c d ?st s2"
    using dl ff m go S(1,2) by (subst executed_loop.simps) simp
  moreover have "\<exists>s' D''. executed_loop call p c d ?st s2 = Some s' \<and> core_inv (insert d E) D'' pl s' \<and> W s' \<le> W s2 \<and>
    frame s2 s' \<and> (\<forall>q\<in>E. q \<noteq> d \<longrightarrow> D'' q = D' q) \<and> (\<forall>m\<in>set (D'' d). depsAtRetire (heap s' (fst m))) \<and>
    (D'' d \<noteq> [] \<longrightarrow> isStore (d_inst (heap s' d)))"
  proof (rule Cons.IH [of D' s2 "if ?b then bk @ [(x, 1)] else bk"])
    show "W s2 \<le> Suc n" using S(4) Cons.prems(2) by simp
    show "?st = (case if ?b then bk @ [(x, 1)] else bk of [] \<Rightarrow> None | m # _ \<Rightarrow> Some (fst m))"
      using Cons.prems(6) by (cases bk) auto
    show "depsAtRetire (heap s2 (fst j))" if "j \<in> set (if ?b then bk @ [(x, 1)] else bk)" for j
      using that Cons.prems(4) [of j] frame_simps(14) [OF S(5)] by (auto split: if_splits)
    show "isStore (d_inst (heap s2 d))" if "(if ?b then bk @ [(x, 1)] else bk) \<noteq> []"
      using that Cons.prems(5) frame_simps(9) [OF S(5)] by (auto split: if_splits)
  qed (use S in auto)
  ultimately obtain s' D'' where "executed_loop call p c d stop s = Some s'" "core_inv (insert d E) D'' pl s'" "W s' \<le> W s2"
    "frame s2 s'" "\<forall>q\<in>E. q \<noteq> d \<longrightarrow> D'' q = D' q" "\<forall>m\<in>set (D'' d). depsAtRetire (heap s' (fst m))"
    "D'' d \<noteq> [] \<longrightarrow> isStore (d_inst (heap s' d))" by auto
  then show ?case using S by (intro exI [of _ s'] exI [of _ D'']) (auto intro: frame_trans)
qed

subsection \<open>The end of execution in the cluster\<close>

text \<open>\<open>s1\<close> is the state before \<open>markExecuted\<close>; the register file may have been cleared before.\<close>

lemma win_le: "core_inv E D pl s \<Longrightarrow> windowSize (clusters (cores s p) k) \<le> MaxWinSize (clusters (cores s p) k)"
proof -
  assume "core_inv E D pl s"
  then have "win_at (clusters (cores s p) k) (used s p k)" using core_invD(4) by (simp add: win_ok_def)
  then show ?thesis by (simp add: win_at_def)
qed

lemma Cluster_executed_ok:
  assumes g: "good n call" and I: "core_inv E D pl (put ev s0)" and d: "about ev = Some d" "\<not> starts ev"
    and w: "W (put ev s0) \<le> Suc n"
    and F: "frame s0 s" and h: "heap s = heap s0" and e: "events s = events s0" "memReads s = memReads s0"
    and rat: "\<And>q r. r < InvalidOutput \<Longrightarrow> RAT (cores s q) r = (if RAT (cores s0 q) r = Some d then None else RAT (cores s0 q) r)"
    and w0: "\<And>q j. clusters (cores s q) j = clusters (cores s0 q) j" and gn: "\<And>q. gens (cores s q) = gens (cores s0 q)"
    and p: "pl d = Some (InROB p)" and k: "k = cluster_no p (opcode (d_inst (heap s0 d))) s0"
  shows "fin (W (put ev s0) - 1) E D pl s0 (Cluster_executed call p k d s)"
proof -
  note C = core_invD [OF I] and H = in_hand [OF I d(1)]
  note P = placeD [OF staticD(1) [OF C(1)]]
  have dl: "d \<in> live s0" "issued (heap s0 d)" "\<not> executed (heap s0 d)" "nDeps (heap s0 d) = 0" using H(1) by (simp_all add: ready_def)
  let ?s1 = "upd_d d (\<lambda>x. x\<lparr>executed := True\<rparr>) s"
  let ?r = "recycleAt (clusters (cores s0 p) k) = AtExecute"
  define s2 where "s2 = (if ?r then upd_cluster p k (\<lambda>c. c\<lparr>windowSize := windowSize c + 1\<rparr>) ?s1 else ?s1)"
  have F1: "frame s0 ?s1" using F frame_trans [of s0 s ?s1] by (simp add: frame_def)
  have F2: "frame s0 s2" using frame_trans [OF F1, of s2] by (auto simp: s2_def frame_def cluster_body_def)
  have m: "core_inv (insert d E) D pl s2" "W s2 < W (put ev s0)"
  proof -
    have "heap s2 = (heap s0)(d := (heap s0 d)\<lparr>executed := True\<rparr>)" by (simp add: s2_def h)
    moreover have "ports_ok s2" using C(9) by (auto simp: ports_ok_def s2_def w0 gn)
    ultimately show "core_inv (insert d E) D pl s2" "W s2 < W (put ev s0)"
      using e rat w0 by (intro mark_inv [OF I d p k F2]; simp add: s2_def)+
  qed
  have dl2: "d \<in> live s2" using dl frame_simps(2) [OF F2] by simp
  have "?r \<longrightarrow> windowSize (clusters (cores s0 p) k) + 1 \<le> MaxWinSize (clusters (cores s0 p) k)"
    using win_le [OF m(1), of p k] by (auto simp: s2_def w0)
  then have "Cluster_executed call p k d s = DepWindow_executed call p k d s2"
    using dl frame_simps(2) [OF F] h by (simp add: Cluster_executed_def markExecuted_def delEntry_def Let_def s2_def w0)
  moreover have "hasDeps d s2 = Some False" using hasDeps_ok [OF core_invD(2) [OF m(1)] dl2] dl by (simp add: s2_def h)
  moreover have "fin (W (put ev s0) - 1) E D pl s0
      (if d_first (heap s2 d) = None then Some s2 else executed_loop call p k d None s2)"
  proof (cases "D d = []")
    case True
    then have "d_first (heap s2 d) = None" using deps_first [OF core_invD(2) [OF m(1)] dl2] by simp
    moreover have "core_inv E D pl s2" using inv_drop [OF m(1)] True by simp
    ultimately show ?thesis using m(2) F2 by (auto intro!: finI)
  next
    case False
    then have "d_first (heap s2 d) \<noteq> None" using deps_first [OF core_invD(2) [OF m(1)] dl2] by (simp split: list.split)
    moreover obtain s' D' where s': "executed_loop call p k d None s2 = Some s'" "core_inv (insert d E) D' pl s'" "W s' \<le> W s2"
        "frame s2 s'" "\<forall>q\<in>E. q \<noteq> d \<longrightarrow> D' q = D q" "\<forall>m\<in>set (D' d). depsAtRetire (heap s' (fst m))"
        "D' d \<noteq> [] \<longrightarrow> isStore (d_inst (heap s' d))"
      using executed_loop_ok [OF g m(1), of "D d" "[]" None p k] m(2) w by auto
    moreover have "d \<notin> E" using ret_okD(2) [OF C(7), of d] dl by auto
    moreover have "core_inv E D' pl s'" using inv_drop [OF s'(2)] s' by blast
    ultimately show ?thesis using m(2) frame_trans [OF F2 s'(4)] by (auto simp: fin_def intro!: exI [of _ s'] exI [of _ D'])
  qed
  moreover have "\<not> InOrderCore (cores s2 p)" using staticD(4) [OF core_invD(1) [OF m(1)]] by (simp add: conf_ok_def)
  moreover have "d_resource (heap s2 d) \<noteq> None"
    using ready_place [OF I, of d] H(1) by (auto simp: s2_def h)
  ultimately show ?thesis using dl2 by (cases "d_first (heap s2 d) = None") (auto simp: DepWindow_executed_def)
qed

end
