(* ===== verification/Core_Fire.thy ===== *)
theory Core_Fire
  imports Core_Wake
begin

text \<open>
  The functional units and the callbacks: whatever callback is due, it returns, keeps the invariant, and
  the nested calls are not deeper than the work that is left.
\<close>

subsection \<open>The load/store queue\<close>

lemma lsq_scan_ok: "set qs \<subseteq> live s \<Longrightarrow> \<exists>r'. lsq_scan i d qs b r s = Some r'"
  by (induction qs arbitrary: b r) (auto simp: Let_def)

lemma lsq_executed_ok:
  assumes S: "static_ok pl s" and p: "pl d = Some (InROB p)" and m: "isMem (d_inst (heap s d))"
  shows "\<exists>r. lsq_executed p d s = Some (r, upd_d d (\<lambda>x. x\<lparr>resolved := True\<rparr>) s)"
proof -
  note P = placeD [OF staticD(1) [OF S]]
  have d: "d \<in> live s" "d \<in> set (ROB (cores s p))" using P(2,4) p by auto
  have da: "\<not> deadInst (heap s d)" using P(11) [OF d(1)] by (simp add: dyn_ok_def)
  let ?ms = "filter (\<lambda>d. isMem (d_inst (heap s d))) (ROB (cores s p))"
  let ?ws = "filter (\<lambda>x. calcWord (heap s x) = calcWord (heap s d)) ?ms"
  have L: "inflightInsts (cores s p) = set ?ms" "instMap (cores s p) (calcWord (heap s d)) = (if ?ws = [] then None else Some ?ws)"
    using staticD(3) [OF S] by (simp_all add: lsq_ok_def Let_def)
  have w: "d \<in> set ?ws" using d m by simp
  then have ne: "?ws \<noteq> []" by (metis list.distinct(1) list.set_cases)
  have "set (rev (tl ?ws)) \<subseteq> live s"
  proof
    fix x assume "x \<in> set (rev (tl ?ws))"
    then have "x \<in> set ?ws" using list.set_sel(2) [OF ne] by (simp only: set_rev)
    then have "pl x = Some (InROB p)" using P(4) [of x p] by simp
    then show "x \<in> live s" using P(2) by auto
  qed
  then obtain r where "lsq_scan (d_inst (heap s d)) d (rev (tl ?ws)) True False (upd_d d (\<lambda>x. x\<lparr>resolved := True\<rparr>) s) = Some r"
    using lsq_scan_ok [of "rev (tl ?ws)" "upd_d d (\<lambda>x. x\<lparr>resolved := True\<rparr>) s" "d_inst (heap s d)" d True False]
    unfolding upd_d_simps by blast
  then show ?thesis using d m da L ne by (simp add: lsq_executed_def Let_def)
qed

lemma resolve_inv:
  assumes I: "core_inv E D pl s"
  shows "core_inv E D pl (upd_d d (\<lambda>x. x\<lparr>resolved := True\<rparr>) s)" "W (upd_d d (\<lambda>x. x\<lparr>resolved := True\<rparr>) s) = W s"
    "frame s (upd_d d (\<lambda>x. x\<lparr>resolved := True\<rparr>) s)"
proof -
  let ?s = "upd_d d (\<lambda>x. x\<lparr>resolved := True\<rparr>) s"
  show f: "frame s ?s" by (simp add: frame_def)
  show "core_inv E D pl ?s" using core_invD [OF I] f
    by (intro core_inv_cong [OF I f]) (auto simp: evs_def ports_ok_def time_ok_def act_ok_def)
  show "W ?s = W s" by (rule W_same) (simp_all add: rank_def evs_def)
qed

lemma put_upd: "put ev (upd_d d f s) = upd_d d f (put ev s)"
  by (simp add: put_def upd_d_def)

subsection \<open>Requests of loads\<close>

text \<open>The activity of an instruction is an \<open>ExecutedCB\<close> or a request in the memory system.\<close>

lemma swap_inv:
  assumes I: "core_inv E D pl a" and F: "frame a b" and h: "heap b = heap a" "cores b = cores a"
    and ac: "\<And>x. acts b x = acts a x" and ev: "\<And>e. (\<And>x. e \<noteq> ExecutedCB x) \<Longrightarrow> count (evs b) e = count (evs a) e"
    and mr: "\<And>x. x \<in># memReads b \<Longrightarrow> isLoad (d_inst (heap a x)) \<and> \<not> loadForwarded (heap a x)" and "time_ok b"
  shows "core_inv E D pl b" "W b = W a"
proof -
  note C = core_invD [OF I] and Fs = frame_simps [OF F]
  have e: "SelectCB x \<in># evs b \<longleftrightarrow> SelectCB x \<in># evs a" "SimTimeCB x \<in># evs b \<longleftrightarrow> SimTimeCB x \<in># evs a"
    "DispatchedCB p x \<in># evs b \<longleftrightarrow> DispatchedCB p x \<in># evs a" for x p
    using ev [of "SelectCB x"] ev [of "SimTimeCB x"] ev [of "DispatchedCB p x"] by (simp_all flip: count_greater_zero_iff)
  have st: "ready b y = ready a y" "unstarted b y = unstarted a y" "rank b y = rank a y" for y
    by (simp_all add: ready_def unstarted_def rank_def h e Fs)
  have hh: "holds b p k = holds a p k" for p k by (simp add: fun_eq_iff holds_def st h Fs cong: recycle.case_cong)
  have i: "is_issued_cb b p k = is_issued_cb a p k" for p k by (simp add: fun_eq_iff is_issued_cb_def Fs split: cev.split)
  have fi: "filter_mset (is_issued_cb a p k) (evs b) = filter_mset (is_issued_cb a p k) (evs a)" for p k
  proof (rule multiset_eqI)
    fix x show "count (filter_mset (is_issued_cb a p k) (evs b)) x = count (filter_mset (is_issued_cb a p k) (evs a)) x"
      using ev [of x] by (cases x) (auto simp: is_issued_cb_def)
  qed
  have u: "used b p k = used a p k" for p k by (simp add: used_def hh i fi h)
  have "static_ok pl b" using C(1) static_frame [OF F] by simp
  moreover have "deps_ok D b" using C(2) deps_ok_cong [of b a D] h Fs by simp
  moreover have "act_ok b" using C(3) mr by (simp add: act_ok_def ac st e h Fs)
  moreover have "win_ok b" using C(4) by (simp add: win_ok_def u h)
  moreover have "rat_ok b" using C(5) by (simp add: rat_ok_def writer_frame [OF F] h cong: option.case_cong)
  moreover have "dep_ok D b" using C(6) by (simp add: dep_ok_def writer_frame [OF F] h)
  moreover have "ret_ok E D pl b" using C(7) by (simp add: ret_ok_def h Fs)
  moreover have "stamp_ok D b" by (intro stamp_frame [OF F _ C(8)]) auto
  moreover have "ports_ok b" using C(9) by (simp add: ports_ok_def h)
  ultimately show "core_inv E D pl b" using assms(8) by (simp add: core_inv_def)
  show "W b = W a" by (rule W_same) (simp_all add: Fs st)
qed

lemma to_mem:
  assumes I: "core_inv E D pl (put (ExecutedCB d) s)" and d: "isLoad (d_inst (heap s d))" "\<not> loadForwarded (heap s d)"
  shows "core_inv E D pl (s\<lparr>memReads := add_mset d (memReads s)\<rparr>)"
    "W (s\<lparr>memReads := add_mset d (memReads s)\<rparr>) = W (put (ExecutedCB d) s)"
proof -
  let ?s = "s\<lparr>memReads := add_mset d (memReads s)\<rparr>"
  have f: "frame (put (ExecutedCB d) s) ?s" by (simp add: frame_def)
  have "time_ok ?s" using core_invD(10) [OF I] by (simp add: time_ok_def put_def)
  moreover have "isLoad (d_inst (heap s x)) \<and> \<not> loadForwarded (heap s x)" if "x \<in># memReads ?s" for x
    using that d core_invD(3) [OF I] by (auto simp: act_ok_def)
  ultimately show "core_inv E D pl ?s" "W ?s = W (put (ExecutedCB d) s)"
    by (intro swap_inv [OF I f]; auto simp: acts_def evs_def put_def)+
qed

lemma from_mem:
  assumes I: "core_inv E D pl s" and d: "d \<in># memReads s"
  defines "s' \<equiv> s\<lparr>memReads := memReads s - {#d#}\<rparr>"
  shows "core_inv E D pl (put (ExecutedCB d) s')" "W (put (ExecutedCB d) s') = W s"
proof -
  have f: "frame s (put (ExecutedCB d) s')" by (simp add: frame_def s'_def)
  have "time_ok (put (ExecutedCB d) s')" using core_invD(10) [OF I] by (simp add: time_ok_def put_def s'_def)
  moreover have "isLoad (d_inst (heap s x)) \<and> \<not> loadForwarded (heap s x)" if "x \<in># memReads s'" for x
    using in_diffD [of x "memReads s" "{#d#}"] that core_invD(3) [OF I] by (auto simp: act_ok_def s'_def)
  moreover have "count (memReads s) d > 0" using d by simp
  ultimately show "core_inv E D pl (put (ExecutedCB d) s')" "W (put (ExecutedCB d) s') = W s"
    by (intro swap_inv [OF I f]; auto simp: acts_def evs_def put_def s'_def)+
qed

subsection \<open>The start of execution in the functional units\<close>

lemma good_issued: "good n call \<Longrightarrow> 0 < n \<Longrightarrow> call (IssuedCB p ty d) u = Cluster_issued p (cluster_no p ty u) u"
  by (simp add: good_def)

lemma W_put_pos:
  assumes "core_inv E D pl (put ev s)" "about ev = Some d"
  shows "rk ev \<le> W (put ev s)"
proof -
  have "d \<in> live (put ev s)" using in_hand(1) [OF assms] by (simp add: ready_def)
  then have "rank (put ev s) d \<le> W (put ev s)" using W_pos live_finite [OF assms(1)] by blast
  then show ?thesis using rank_put [OF assms, of d] by simp
qed

text \<open>Most units schedule \<open>issued\<close> and, after the latency of the unit, the next activity.\<close>

lemma sched_act:
  assumes g: "good n call" and I: "core_inv E D pl (put (SimTimeCB d) s)" and w: "W (put (SimTimeCB d) s) \<le> Suc n"
    and p: "pl d = Some (InROB p)" and ty: "ty = opcode (d_inst (heap s d))"
    and d': "about ev' = Some d" "\<not> starts ev'" "rk ev' < 3" and t: "now s \<le> t"
    and disp: "\<And>q. ev' = DispatchedCB q d \<Longrightarrow> isLoad (d_inst (heap s d)) \<and> \<not> loadForwarded (heap s d)"
    and u: "\<And>s2. now s2 = now s \<Longrightarrow> live s2 = live s \<Longrightarrow> heap s2 = heap s \<Longrightarrow> isFree ev' s2 \<Longrightarrow> f s2 = cb_at call ev' (t + l) s2"
  shows "fin (W (put (SimTimeCB d) s) - 1) E D pl s (do { s2 \<leftarrow> cb_at call (IssuedCB p ty d) t s; f s2 })"
proof -
  have "0 < n" using W_put_pos [OF I] w by simp
  then have c: "\<And>u. call (IssuedCB p ty d) u = Cluster_issued p (cluster_no p ty u) u" using good_issued [OF g] by simp
  obtain s1 where s1: "cb_at call (IssuedCB p ty d) t s = Some s1" "core_inv E D pl (put ev' s1)" "frame s s1"
      "W (put ev' s1) < W (put (SimTimeCB d) s)" "heap s1 = heap s"
    using start_ok(1) [of E D pl d s p ty ev' t call, OF I p ty d' t _ c] disp by blast
  have n: "now s1 = now s" "live s1 = live s" using frame_simps(1,2) [OF s1(3)] by simp_all
  have "fin (W (put ev' s1)) E D pl s1 (cb_at call ev' (t + l) s1)"
    using s1(4) w t n(1) by (intro cb_at_ok [OF g s1(2) d'(1)]) auto
  moreover have "f s1 = cb_at call ev' (t + l) s1" using u [OF n s1(5)] isFree_in_hand [OF s1(2) d'(1,1)] by blast
  ultimately have "fin (W (put ev' s1)) E D pl s (f s1)" using fin_frame [OF s1(3)] by (simp only:)
  then have "fin (W (put (SimTimeCB d) s) - 1) E D pl s (f s1)" by (rule fin_le) (use s1(4) in linarith)
  then show ?thesis using s1(1) by simp
qed

text \<open>The slot of the port of the unit comes first.\<close>

lemma gen_slot:
  assumes "core_inv E D pl (put ev s)"
    and "\<And>t s1. quiet s s1 \<Longrightarrow> core_inv E D pl (put ev s1) \<Longrightarrow> W (put ev s1) = W (put ev s) \<Longrightarrow> heap s1 = heap s \<Longrightarrow>
      now s \<le> t \<Longrightarrow> now s1 = now s \<Longrightarrow> fin w E D pl s1 (f (t, s1))"
  shows "fin w E D pl s (gen_nextSlot p ty s \<bind> f)"
proof -
  have "ports_ok s" using core_invD(9) [OF assms(1)] by simp
  then obtain t s1 where s1: "gen_nextSlot p ty s = Some (t, s1)" "quiet s s1" "now s \<le> t" using port_slot(3) by blast
  have f: "frame s s1" "heap s1 = heap s" "now s1 = now s" using s1(2) frame_simps(1) by (auto simp: quiet_def)
  have "fin w E D pl s1 (f (t, s1))"
    using assms(2) [OF s1(2) _ _ f(2) s1(3) f(3)] quiet_inv [OF quiet_put [OF s1(2)] assms(1)] quiet_W [OF quiet_put [OF s1(2)]]
    by simp
  then show ?thesis using s1(1) fin_frame [OF f(1)] by simp
qed

lemma FUGeneric_simTime_ok:
  assumes g: "good n call" and I: "core_inv E D pl (put (SimTimeCB d) s)" and w: "W (put (SimTimeCB d) s) \<le> Suc n"
    and p: "pl d = Some (InROB p)" and ty: "ty = opcode (d_inst (heap s d))"
  shows "fin (W (put (SimTimeCB d) s) - 1) E D pl s (FUGeneric_simTime call p ty d s)"
  unfolding FUGeneric_simTime_def
proof (rule gen_slot [OF I], unfold split)
  fix t s1
  assume "quiet s s1" "core_inv E D pl (put (SimTimeCB d) s1)" "W (put (SimTimeCB d) s1) = W (put (SimTimeCB d) s)"
    "heap s1 = heap s" "now s \<le> t" "now s1 = now s"
  then show "fin (W (put (SimTimeCB d) s) - 1) E D pl s1
      (do { s2 \<leftarrow> cb_at call (IssuedCB p ty d) t s1; scb_at call (ExecutedCB d) (t + u_lat (units (cores s p) ty)) s2 })"
    using sched_act [OF g, of E D pl d s1 p ty "ExecutedCB d" t _ "u_lat (units (cores s p) ty)"] w p ty
    by (simp add: scb_at_def)
qed

lemma FUBranch_simTime_ok:
  assumes g: "good n call" and I: "core_inv E D pl (put (SimTimeCB d) s)" and w: "W (put (SimTimeCB d) s) \<le> Suc n"
    and p: "pl d = Some (InROB p)" and ty: "opcode (d_inst (heap s d)) = iBJ"
  shows "fin (W (put (SimTimeCB d) s) - 1) E D pl s (FUBranch_simTime call p d s)"
  unfolding FUBranch_simTime_def
proof (rule gen_slot [OF I], unfold split)
  fix t s1
  let ?l = "u_lat (units (cores s p) iBJ)"
  assume s1: "quiet s s1" "core_inv E D pl (put (SimTimeCB d) s1)" "W (put (SimTimeCB d) s1) = W (put (SimTimeCB d) s)"
    "heap s1 = heap s" "now s \<le> t" "now s1 = now s"
  then show "fin (W (put (SimTimeCB d) s) - 1) E D pl s1
      (do { s2 \<leftarrow> cb_at call (IssuedCB p iBJ d) t s1; x \<leftarrow> deref d s2; let lat = ?l;
        scb_at call (ExecutedCB d) (t + (if d_fetch x \<noteq> None then lat + misCommLat (cores s p) else lat)) s2 })"
    using sched_act [OF g, of E D pl d s1 p iBJ "ExecutedCB d" t
        _ "if d_fetch (heap s d) \<noteq> None then ?l + misCommLat (cores s p) else ?l"] w p ty in_hand(1) [OF s1(2)]
    by (simp add: scb_at_def ready_def)
qed

lemma FUStore_simTime_ok:
  assumes g: "good n call" and I: "core_inv E D pl (put (SimTimeCB d) s)" and w: "W (put (SimTimeCB d) s) \<le> Suc n"
    and p: "pl d = Some (InROB p)" and ty: "opcode (d_inst (heap s d)) = iStore"
  shows "fin (W (put (SimTimeCB d) s) - 1) E D pl s (FUStore_simTime call p d s)"
  using FUGeneric_simTime_ok [OF g I w p, of iStore] ty by (simp add: FUStore_simTime_def FUGeneric_simTime_def)

lemma FULoad_simTime_ok:
  assumes g: "good n call" and I: "core_inv E D pl (put (SimTimeCB d) s)" and w: "W (put (SimTimeCB d) s) \<le> Suc n"
    and p: "pl d = Some (InROB p)" and ty: "opcode (d_inst (heap s d)) = iLoad"
  shows "fin (W (put (SimTimeCB d) s) - 1) E D pl s (FULoad_simTime call p d s)"
  unfolding FULoad_simTime_def
proof (rule gen_slot [OF I], unfold split)
  fix t s1
  let ?l = "u_lat (units (cores s p) iLoad)" and ?s = "upd_d d (\<lambda>x. x\<lparr>resolved := True\<rparr>) s1"
  let ?fw = "loadForwarded (heap s d)"
  let ?ev = "if ?fw then ExecutedCB d else DispatchedCB p d"
  let ?f = "\<lambda>s3. do { let t1 = t + ?l; x \<leftarrow> deref d s3; if loadForwarded x then scb_at call (ExecutedCB d) (t1 + LSDelay (cores s p)) s3
     else if deadInst x then call (ExecutedCB d) s3 else cb_at call (DispatchedCB p d) t1 s3 }"
  assume s1: "quiet s s1" "core_inv E D pl (put (SimTimeCB d) s1)" "W (put (SimTimeCB d) s1) = W (put (SimTimeCB d) s)"
    "heap s1 = heap s" "now s \<le> t" "now s1 = now s"
  have S: "static_ok pl s1" using static_frame [of "put (SimTimeCB d) s1" s1 pl] core_invD(1) [OF s1(2)] by simp
  obtain r where r: "lsq_executed p d s1 = Some (r, ?s)"
    using lsq_executed_ok [OF S p] ty s1(4) by (auto simp: isMem_def isLoad_def)
  have J: "core_inv E D pl (put (SimTimeCB d) ?s)" "W (put (SimTimeCB d) ?s) = W (put (SimTimeCB d) s)"
    using resolve_inv [OF s1(2), of d] s1(3) by (simp_all add: put_upd)
  have d: "d \<in> live s1" using in_hand(1) [OF s1(2)] by (simp add: ready_def)
  have da: "\<not> deadInst (heap s d)" using placeD(11) [OF staticD(1) [OF S] d] s1(4) by (simp add: dyn_ok_def)
  have "fin (W (put (SimTimeCB d) ?s) - 1) E D pl ?s (do { s3 \<leftarrow> cb_at call (IssuedCB p iLoad d) t ?s; ?f s3 })"
  proof (rule sched_act [OF g J(1), of p iLoad ?ev t ?f "if ?fw then ?l + LSDelay (cores s p) else ?l"])
    show "?f s2 = cb_at call ?ev (t + (if ?fw then ?l + LSDelay (cores s p) else ?l)) s2"
      if "now s2 = now ?s" "live s2 = live ?s" "heap s2 = heap ?s" "isFree ?ev s2" for s2
      using that d da s1(4) by (cases ?fw) (simp_all add: scb_at_def add.assoc)
  qed (use w p ty J s1 in \<open>auto simp: isLoad_def split: if_splits\<close>)
  then show "fin (W (put (SimTimeCB d) s) - 1) E D pl s1
      (do { (r, s2) \<leftarrow> lsq_executed p d s1; s3 \<leftarrow> cb_at call (IssuedCB p iLoad d) t s2; ?f s3 })"
    using fin_frame [of s1 ?s] J(2) r by (simp add: frame_def)
qed

lemma FUMemory_simTime_ok:
  assumes g: "good n call" and I: "core_inv E D pl (put (SimTimeCB d) s)" and w: "W (put (SimTimeCB d) s) \<le> Suc n"
    and p: "pl d = Some (InROB p)" and ty: "opcode (d_inst (heap s d)) = iFence"
  shows "fin (W (put (SimTimeCB d) s) - 1) E D pl s (FUMemory_simTime call p d s)"
proof -
  have d: "d \<in> live s" using in_hand(1) [OF I] by (simp add: ready_def)
  obtain s1 where s1: "Cluster_issued p (cluster_no p iFence s) s = Some s1" "core_inv E D pl (put (ExecutedCB d) s1)"
      "frame s s1" "W (put (ExecutedCB d) s1) < W (put (SimTimeCB d) s)"
    using start_ok(2) [of E D pl d s p iFence "ExecutedCB d" "now s" "\<lambda>ev s. Cluster_issued p (cluster_no p iFence s) s"] I p ty by auto
  have "fin (W (put (ExecutedCB d) s1)) E D pl s1 (scb_in call (ExecutedCB d) 1 s1)"
    using s1(4) w by (intro scb_in_ok [OF g s1(2)]) auto
  then show ?thesis using s1 fin_frame [OF s1(3) fin_le [of "W (put (ExecutedCB d) s1)"]] d ty
    by (simp add: FUMemory_simTime_def isFence_def isLoad_def isStore_def)
qed

subsection \<open>The rename table\<close>

lemma RAT_writer:
  assumes I: "core_inv E D pl s" and r: "r < InvalidOutput" "RAT (cores s q) r = Some d"
  shows "getDest (d_inst (heap s d)) = r" "d \<in> set (ROB (cores s q))" "\<not> executed (heap s d)"
proof -
  have e: "RAT (cores s q) r = (case writer s r (ROB (cores s q)) of None \<Rightarrow> None | Some d \<Rightarrow> if executed (heap s d) then None else Some d)"
    using core_invD(5) [OF I] r(1) by (simp add: rat_ok_def)
  then have w: "writer s r (ROB (cores s q)) = Some d" and x: "\<not> executed (heap s d)"
    using r(2) by (auto split: option.splits if_splits)
  show "\<not> executed (heap s d)" by (rule x)
  have "d \<in> set (filter (\<lambda>d. dest s d = r) (ROB (cores s q)))"
    using w last_in_set [of "filter (\<lambda>d. dest s d = r) (ROB (cores s q))"]
    by (cases "filter (\<lambda>d. dest s d = r) (ROB (cores s q))") (simp_all add: writer_def)
  then show "getDest (d_inst (heap s d)) = r" "d \<in> set (ROB (cores s q))" by (auto simp: dest_def)
qed

lemma FUEvent_simTime_ok:
  assumes g: "good n call" and I: "core_inv E D pl (put (SimTimeCB d) s)" and w: "W (put (SimTimeCB d) s) \<le> Suc n"
    and p: "pl d = Some (InROB p)" and ty: "opcode (d_inst (heap s d)) = iEvent"
  shows "fin (W (put (SimTimeCB d) s) - 1) E D pl s (FUEvent_simTime call p d s)"
proof -
  note C = core_invD [OF I]
  have d: "d \<in> live s" using in_hand(1) [OF I] by (simp add: ready_def)
  have dy: "dyn_ok s (heap s d)" using placeD(11) [OF staticD(1) [OF C(1)], of d] d by (simp add: dyn_ok_def)
  then obtain cb where cb: "pendEvent (heap s d) = Some cb" using ty by (auto simp: dyn_ok_def)
  let ?s = "s\<lparr>called := called s @ [cb]\<rparr>"
  have q: "quiet s ?s" by (simp add: quiet_def frame_def ports_ok_def)
  have J: "core_inv E D pl (put (SimTimeCB d) ?s)" "W (put (SimTimeCB d) ?s) = W (put (SimTimeCB d) s)"
    using quiet_inv [OF quiet_put [OF q] I] quiet_W [OF quiet_put [OF q]] by simp_all
  have cn: "cluster_no p ty' ?s = cluster_no p ty' s" for ty' by (simp add: cluster_no_def)
  obtain s1 where s1: "Cluster_issued p (cluster_no p iEvent s) ?s = Some s1" "core_inv E D pl (put (ExecutedCB d) s1)"
      "frame ?s s1" "W (put (ExecutedCB d) s1) < W (put (SimTimeCB d) s)" "heap s1 = heap s"
    using start_ok(2) [of E D pl d ?s p iEvent "ExecutedCB d" "now s" "\<lambda>ev s. Cluster_issued p (cluster_no p iEvent s) s"] J p ty
    by (auto simp: cn)
  have cn1: "cluster_no p iEvent s = cluster_no p (opcode (d_inst (heap s1 d))) s1"
    using frame_simps(45) [OF s1(3)] ty s1(5) cn by simp
  have dest: "getDest (d_inst (heap s1 d)) = InvalidOutput"
    using dy ty s1(5) by (simp add: dyn_ok_def instr_ok_def)
  have "RAT (cores s1 q) r \<noteq> Some d" if "r < InvalidOutput" for q r
    using RAT_writer(1) [OF s1(2) that, of q d] dest that by auto
  then have "fin (W (put (ExecutedCB d) s1) - 1) E D pl s1 (Cluster_executed call p (cluster_no p iEvent s) d s1)"
    using s1 w by (intro Cluster_executed_ok [OF g s1(2)] p cn1) auto
  moreover have "frame s s1" using frame_trans [of s ?s s1] s1(3) q by (simp add: quiet_def)
  ultimately have "fin (W (put (ExecutedCB d) s1) - 1) E D pl s (Cluster_executed call p (cluster_no p iEvent s) d s1)"
    by (blast intro: fin_frame)
  then have "fin (W (put (SimTimeCB d) s) - 1) E D pl s (Cluster_executed call p (cluster_no p iEvent s) d s1)"
    by (rule fin_le) (use s1(4) in linarith)
  then show ?thesis using dy d ty cb s1(1) by (simp add: FUEvent_simTime_def dyn_ok_def instr_ok_def cluster_no_def)
qed

lemma Resource_simTime_ok:
  assumes "good n call" "core_inv E D pl (put (SimTimeCB d) s)" "W (put (SimTimeCB d) s) \<le> Suc n"
    "pl d = Some (InROB p)" "ty = opcode (d_inst (heap s d))"
  shows "fin (W (put (SimTimeCB d) s) - 1) E D pl s (Resource_simTime call p ty d s)"
  using assms FULoad_simTime_ok [OF assms(1-4)] FUStore_simTime_ok [OF assms(1-4)] FUBranch_simTime_ok [OF assms(1-4)]
    FUMemory_simTime_ok [OF assms(1-4)] FUEvent_simTime_ok [OF assms(1-4)] FUGeneric_simTime_ok [OF assms]
  by (simp add: Resource_simTime_def)

subsection \<open>The end of execution in the functional units\<close>

lemma Resource_executed_ok:
  assumes g: "good n call" and I: "core_inv E D pl (put (ExecutedCB d) s0)" and w: "W (put (ExecutedCB d) s0) \<le> Suc n"
    and F: "frame s0 s" and h: "heap s = heap s0" and e: "events s = events s0" "memReads s = memReads s0"
    and rat: "\<And>q r. r < InvalidOutput \<Longrightarrow> RAT (cores s q) r = (if RAT (cores s0 q) r = Some d then None else RAT (cores s0 q) r)"
    and w0: "\<And>q j. clusters (cores s q) j = clusters (cores s0 q) j" and gn: "\<And>q. gens (cores s q) = gens (cores s0 q)"
    and p: "pl d = Some (InROB p)" and ty: "ty = opcode (d_inst (heap s0 d))"
  shows "fin (W (put (ExecutedCB d) s0) - 1) E D pl s0 (Resource_executed call p ty d s)"
proof -
  have cn: "cluster_no p t s' = cluster_no p t s0" if "frame s0 s'" for t s' using frame_simps(45) [OF that] .
  have d: "d \<in> live s0" using in_hand(1) [OF I] by (simp add: ready_def)
  have main: "fin (W (put (ExecutedCB d) s0) - 1) E D pl s0 (Cluster_executed call p (cluster_no p ty s0) d s')"
    if "frame s0 s'" "heap s' = heap s0" "events s' = events s0" "memReads s' = memReads s0"
      "\<And>q r. r < InvalidOutput \<Longrightarrow> RAT (cores s' q) r = (if RAT (cores s0 q) r = Some d then None else RAT (cores s0 q) r)"
      "\<And>q j. clusters (cores s' q) j = clusters (cores s0 q) j" "\<And>q. gens (cores s' q) = gens (cores s0 q)" for s'
    using Cluster_executed_ok [OF g I _ _ w that p] ty by simp
  consider "ty = iStore" | "ty = iBJ" | "ty \<noteq> iStore" "ty \<noteq> iBJ" by blast
  then show ?thesis
  proof cases
    case 1
    obtain s' D' where s': "Cluster_executed call p (cluster_no p iStore s) d s = Some s'" "core_inv E D' pl s'"
        "W s' \<le> W (put (ExecutedCB d) s0) - 1" "frame s0 s'" "\<forall>q\<in>E. D' q = D q"
      using main [OF F h e rat w0 gn] 1 cn [OF F] by (auto simp: fin_def)
    have "isMem (d_inst (heap s' d))" using 1 ty frame_simps(9) [OF s'(4), of d] by (simp add: isMem_def isStore_def)
    then obtain r where "lsq_executed p d s' = Some (r, upd_d d (\<lambda>x. x\<lparr>resolved := True\<rparr>) s')"
      using lsq_executed_ok [OF core_invD(1) [OF s'(2)] p] by blast
    then have "Resource_executed call p ty d s = Some (upd_d d (\<lambda>x. x\<lparr>resolved := True\<rparr>) s')"
      using 1 s'(1) by (simp add: Resource_executed_def FUStore_executed_def)
    then show ?thesis using resolve_inv [OF s'(2), of d] s' frame_trans [OF s'(4)] unfolding fin_def by metis
  next
    case 2
    obtain f where f: "d_fetch (heap s0 d) = f" by blast
    define s1 where "s1 = (case f of None \<Rightarrow> s | Some f \<Rightarrow> upd_c f (\<lambda>c. c\<lparr>unblocked := Suc (unblocked c)\<rparr>) s)"
    define s2 where "s2 = upd_c p (\<lambda>c. c\<lparr>freeBranches := freeBranches c + 1\<rparr>) s1"
    have F2: "frame s0 s2" using F by (rule frame_trans) (auto simp: frame_def s2_def s1_def split: option.split)
    have "fin (W (put (ExecutedCB d) s0) - 1) E D pl s0 (Cluster_executed call p (cluster_no p ty s0) d s2)"
      using h e rat w0 gn by (intro main F2) (auto simp: s2_def s1_def split: option.split)
    moreover have "cluster_no p iBJ s = cluster_no p ty s0" "deref d s = Some (heap s0 d)" using cn [OF F] 2 d h frame_simps(2) [OF F]
      by (simp_all add: deref_def)
    ultimately show ?thesis using 2 f
      by (simp add: Resource_executed_def FUBranch_executed_def Let_def s2_def s1_def)
  next
    case 3
    then show ?thesis using main [OF F h e rat w0 gn] cn [OF F] by (simp add: Resource_executed_def)
  qed
qed

subsection \<open>The callbacks\<close>

lemma ready_runs:
  assumes "core_inv E D pl (put ev s)" "about ev = Some d"
  shows "\<exists>p. d \<in> live s \<and> \<not> executed (heap s d) \<and> pl d = Some (InROB p) \<and> d_resource (heap s d) = Some (p, opcode (d_inst (heap s d))) \<and>
    RATEntry (heap s d) = Some (p, getDest (d_inst (heap s d)))"
  using ready_place [OF assms(1), of d] in_hand(1) [OF assms] by (auto simp: ready_def)

lemma doAtSelect_ok:
  assumes "good n call" and I: "core_inv E D pl (put (SelectCB d) s)" and "W (put (SelectCB d) s) \<le> Suc n"
  shows "fin (W (put (SelectCB d) s) - 1) E D pl s (doAtSelect call d s)"
  using ready_runs [OF I, of d] select_ok [OF assms] by (auto simp: doAtSelect_def)

lemma doAtSimTime_ok:
  assumes g: "good n call" and I: "core_inv E D pl (put (SimTimeCB d) s)" and w: "W (put (SimTimeCB d) s) \<le> Suc n"
  shows "fin (W (put (SimTimeCB d) s) - 1) E D pl s (doAtSimTime call d s)"
proof -
  obtain p where p: "d \<in> live s" "\<not> executed (heap s d)" "pl d = Some (InROB p)" "d_resource (heap s d) = Some (p, opcode (d_inst (heap s d)))"
    using ready_runs [OF I, of d] by auto
  obtain s' where s': "DepWindow_wakeUpDeps p (cluster_no p (opcode (d_inst (heap s d))) s) d s = Some s'"
      "core_inv E D pl (put (SimTimeCB d) s')" "W (put (SimTimeCB d) s') = W (put (SimTimeCB d) s)" "frame s s'"
    using wakeUpDeps_ok [OF I, of p "cluster_no p (opcode (d_inst (heap s d))) s"] by blast
  have "fin (W (put (SimTimeCB d) s') - 1) E D pl s' (Resource_simTime call p (opcode (d_inst (heap s d))) d s')"
    using w s' p(3) frame_simps(9) [OF s'(4), of d] by (intro Resource_simTime_ok [OF g]) auto
  then have "fin (W (put (SimTimeCB d) s) - 1) E D pl s (Resource_simTime call p (opcode (d_inst (heap s d))) d s')"
    unfolding s'(3) by (rule fin_frame [OF s'(4)])
  then show ?thesis using p s'(1) by (simp add: doAtSimTime_def)
qed

lemma doAtExecuted_ok:
  assumes g: "good n call" and I: "core_inv E D pl (put (ExecutedCB d) s)" and w: "W (put (ExecutedCB d) s) \<le> Suc n"
  shows "fin (W (put (ExecutedCB d) s) - 1) E D pl s (doAtExecuted call d s)"
proof -
  let ?r = "getDest (d_inst (heap s d))"
  obtain p where p: "d \<in> live s" "pl d = Some (InROB p)" "d_resource (heap s d) = Some (p, opcode (d_inst (heap s d)))"
      "RATEntry (heap s d) = Some (p, ?r)"
    using ready_runs [OF I, of d] by auto
  define s1 where "s1 = (if RAT (cores s p) ?r = Some d then upd_c p (\<lambda>c. c\<lparr>RAT := (RAT c)(?r := None)\<rparr>) s else s)"
  have F: "frame s s1" by (simp add: s1_def frame_def)
  have rat: "RAT (cores s1 q) r = (if RAT (cores s q) r = Some d then None else RAT (cores s q) r)" if "r < InvalidOutput" for q r
  proof (cases "RAT (cores s q) r = Some d")
    case True
    then have "r = ?r" "d \<in> set (ROB (cores s q))" using RAT_writer(1,2) [OF I that, of q d] by simp_all
    moreover have "q = p" using place_unique [OF staticD(1) [OF core_invD(1) [OF I]] p(2), of q] \<open>d \<in> set (ROB (cores s q))\<close> by simp
    ultimately show ?thesis using True by (simp add: s1_def)
  next
    case False
    then show ?thesis by (auto simp: s1_def)
  qed
  have "fin (W (put (ExecutedCB d) s) - 1) E D pl s (Resource_executed call p (opcode (d_inst (heap s d))) d s1)"
    by (rule Resource_executed_ok [OF g I w F _ _ _ rat _ _ p(2) refl]) (auto simp: s1_def)
  then show ?thesis using p by (simp add: doAtExecuted_def s1_def Let_def deref_def)
qed

lemma to_exec:
  assumes I: "core_inv E D pl (put (DispatchedCB p d) s)"
  shows "core_inv E D pl (put (ExecutedCB d) s)" "W (put (ExecutedCB d) s) < W (put (DispatchedCB p d) s)"
proof -
  note C = core_invD [OF I]
  obtain p0 where p0: "pl d = Some (InROB p0)" using ready_runs [OF I, of d] by auto
  have u: "int (used (put (ExecutedCB d) s) q k) = int (used (put (DispatchedCB p d) s) q k)" for q k
    using used_move [OF I, of d "ExecutedCB d" s "{#}" p0 q k] p0 by simp
  have "win_ok (put (ExecutedCB d) s)" using C(4) u by (simp add: win_ok_def win_at_def)
  then show J: "core_inv E D pl (put (ExecutedCB d) s)"
    using C(9,10) by (intro act_step [OF I, of d "ExecutedCB d" s "{#}"]) simp_all
  show "W (put (ExecutedCB d) s) < W (put (DispatchedCB p d) s)" by (rule W_move [OF I J]) simp_all
qed

lemma cacheDispatched_ok:
  assumes g: "good n call" and I: "core_inv E D pl (put (DispatchedCB p d) s)" and w: "W (put (DispatchedCB p d) s) \<le> Suc n"
  shows "fin (W (put (DispatchedCB p d) s) - of_bool (canAcceptLoad (cores s p) (d_vaddr (heap s d)))) E D pl s
    (FULoad_cacheDispatched call p d s)"
proof -
  note C = core_invD [OF I]
  have d: "d \<in> live s" "d_resource (heap s d) \<noteq> None" using ready_runs [OF I, of d] by auto
  have l: "isLoad (d_inst (heap s d))" "\<not> loadForwarded (heap s d)" using C(3) by (auto simp: act_ok_def)
  show ?thesis
  proof (cases "canAcceptLoad (cores s p) (d_vaddr (heap s d))")
    case False
    have "cb_in call (DispatchedCB p d) 7 s = Some (s\<lparr>events := add_mset (now s + 7, DispatchedCB p d) (events s)\<rparr>)"
      by (simp add: cb_in_def)
    then show ?thesis using delayed [OF I, of "now s + 7"] d l False
      by (auto simp: FULoad_cacheDispatched_def frame_def intro!: finI)
  next
    case ok: True
    show ?thesis
    proof (cases "validVAddr s (d_vaddr (heap s d))")
      case True
      then show ?thesis using to_mem [OF to_exec(1) [OF I] l] to_exec(2) [OF I] d l ok
        by (auto simp: FULoad_cacheDispatched_def create_read_def frame_def intro!: finI)
    next
      case False
      have "fin (W (put (ExecutedCB d) s)) E D pl s (scb_in call (ExecutedCB d) 0 s)"
        using to_exec [OF I] w by (intro scb_in_ok [OF g]) auto
      then have "fin (W (put (DispatchedCB p d) s) - 1) E D pl s (scb_in call (ExecutedCB d) 0 s)"
        by (rule fin_le) (use to_exec(2) [OF I] in linarith)
      then show ?thesis using d l ok False by (auto simp: FULoad_cacheDispatched_def create_read_def ack_read_def)
    qed
  qed
qed

text \<open>The work that is left does not grow, and shrinks unless the data cache turns a load away.\<close>

definition turned_away :: "cev \<Rightarrow> world \<Rightarrow> bool" where
  "turned_away ev s = (case ev of DispatchedCB p d \<Rightarrow> \<not> canAcceptLoad (cores s p) (d_vaddr (heap s d)) | _ \<Rightarrow> False)"

lemma run_cb_ok:
  assumes "core_inv E D pl (put ev s)" "about ev = Some d" "W (put ev s) \<le> n"
  shows "fin (W (put ev s) - of_bool (\<not> turned_away ev s)) E D pl s (run_cb n ev s)"
  using assms
proof (induction n arbitrary: ev d E D pl s)
  case 0
  then show ?case using W_put_pos [of E D pl ev s d] by (cases ev) simp_all
next
  case (Suc n)
  have g: "good n (run_cb n)"
    unfolding good_def
  proof (intro conjI impI allI)
    show "run_cb n (IssuedCB p ty d) s = Cluster_issued p (cluster_no p ty s) s" if "0 < n" for p ty d s
      using that by (cases n) simp_all
    show "fin (W (put ev s)) E D pl s (run_cb n ev s)" if "about ev = Some d" "core_inv E D pl (put ev s)" "W (put ev s) \<le> n"
      for ev d E D pl s
      using Suc.IH [OF that(2,1,3)] by (rule fin_le) simp
  qed
  show ?case
  proof (cases ev)
    case (SelectCB x)
    then show ?thesis using doAtSelect_ok [OF g] Suc.prems by (simp add: turned_away_def)
  next
    case (SimTimeCB x)
    then show ?thesis using doAtSimTime_ok [OF g] Suc.prems by (simp add: turned_away_def)
  next
    case (ExecutedCB x)
    then show ?thesis using doAtExecuted_ok [OF g] Suc.prems by (simp add: turned_away_def)
  next
    case (DispatchedCB p x)
    then show ?thesis using cacheDispatched_ok [OF g] Suc.prems by (simp add: turned_away_def)
  next
    case (IssuedCB p ty x)
    then show ?thesis using Suc.prems by simp
  qed
qed

lemma run_cb_good: "0 < n \<Longrightarrow> good n (run_cb n)"
  unfolding good_def
proof (intro conjI impI allI)
  fix p ty d s assume "0 < n"
  then show "run_cb n (IssuedCB p ty d) s = Cluster_issued p (cluster_no p ty s) s" by (cases n) simp_all
next
  fix ev d E D pl s
  assume "about ev = Some d" "core_inv E D pl (put ev s)" "W (put ev s) \<le> n"
  then show "fin (W (put ev s)) E D pl s (run_cb n ev s)" using run_cb_ok by (blast intro: fin_le diff_le_self)
qed

end
