(* ===== verification/Core_Leave.thy ===== *)
theory Core_Leave
  imports Core_Fire
begin

text \<open>
  How an instruction leaves the core: it moves from the head of the reorder buffer to the memory system
  (stores and fetch-and-op) or to the pool, and a store reaches the pool when the memory system has
  acknowledged it.
\<close>

subsection \<open>The head of the reorder buffer\<close>

text \<open>The fields that retirement does not change.\<close>

definition retire_body :: "core \<Rightarrow> core" where
  "retire_body c = c\<lparr>ROB := [], regPool := \<lambda>_. 0, freeLoads := 0, freeStores := 0, nOutsStores := 0,
     pendingFence := False, inflightInsts := {}, instMap := \<lambda>_. None, clusters := undefined, gens := undefined\<rparr>"

lemma retire_body_fields:
  assumes "retire_body x = retire_body y"
  shows "FetchWidth x = FetchWidth y" "InstQueueSize x = InstQueueSize y" "InOrderCore x = InOrderCore y"
    "MaxROBSize x = MaxROBSize y" "intRegs x = intRegs y" "fpRegs x = fpRegs y" "units x = units y"
    "replayQ x = replayQ y" "pipe x = pipe y" "instQueue x = instQueue y" "spaceInInstQueue x = spaceInInstQueue y"
    "RAT x = RAT y" "RetireWidth x = RetireWidth y"
  using arg_cong [OF assms, of FetchWidth] arg_cong [OF assms, of InstQueueSize] arg_cong [OF assms, of InOrderCore]
    arg_cong [OF assms, of MaxROBSize] arg_cong [OF assms, of intRegs] arg_cong [OF assms, of fpRegs]
    arg_cong [OF assms, of units] arg_cong [OF assms, of replayQ] arg_cong [OF assms, of pipe]
    arg_cong [OF assms, of instQueue] arg_cong [OF assms, of spaceInInstQueue] arg_cong [OF assms, of RAT]
    arg_cong [OF assms, of RetireWidth]
  by (simp_all add: retire_body_def)

lemma writer_Cons:
  "writer s r (d # xs) = (case writer s r xs of None \<Rightarrow> if dest s d = r then Some d else None | Some q \<Rightarrow> Some q)"
  by (cases "filter (\<lambda>d. dest s d = r) xs") (auto simp: writer_def)

definition by_word :: "world \<Rightarrow> nat list \<Rightarrow> nat \<Rightarrow> nat list option" where
  "by_word s ds w = (let ws = filter (\<lambda>d. calcWord (heap s d) = w) (filter (\<lambda>d. isMem (d_inst (heap s d))) ds) in
     if ws = [] then None else Some ws)"

lemma lsq_by_word:
  assumes "lsq_ok pl s"
  shows "inflightInsts (cores s p) = set (filter (\<lambda>d. isMem (d_inst (heap s d))) (ROB (cores s p)))"
    "instMap (cores s p) = by_word s (ROB (cores s p))"
    "stores s w = Some d \<Longrightarrow> \<exists>p. pl d = Some (InROB p)" "stores s w = Some d \<Longrightarrow> isStore (d_inst (heap s d))"
    "stores s w = Some d \<Longrightarrow> calcWord (heap s d) = w" "stores s w = Some d \<Longrightarrow> \<not> deadStore (heap s d)"
  using assms by (auto simp: lsq_ok_def by_word_def Let_def fun_eq_iff)

lemma lsq_okI:
  assumes "\<And>p. inflightInsts (cores s p) = set (filter (\<lambda>d. isMem (d_inst (heap s d))) (ROB (cores s p)))"
    "\<And>p. instMap (cores s p) = by_word s (ROB (cores s p))"
    "\<And>w d. stores s w = Some d \<Longrightarrow> (\<exists>p. pl d = Some (InROB p)) \<and> isStore (d_inst (heap s d)) \<and> calcWord (heap s d) = w \<and> \<not> deadStore (heap s d)"
  shows "lsq_ok pl s"
  using assms by (simp add: lsq_ok_def by_word_def Let_def)

text \<open>The state after the head \<open>d\<close> has left: \<open>c\<close> is the new core, \<open>sent\<close> says that a request has been made.\<close>

definition left_state :: "nat \<Rightarrow> core \<Rightarrow> nat multiset \<Rightarrow> (nat \<Rightarrow> nat option) \<Rightarrow> nat list \<Rightarrow> world \<Rightarrow> world" where
  "left_state p c mw st cl s = s\<lparr>memWrites := mw, stores := st, called := cl, cores := (cores s)(p := c)\<rparr>"

lemma left_simps [simp]:
  "now (left_state p c mw st cl s) = now s" "heap (left_state p c mw st cl s) = heap s" "live (left_state p c mw st cl s) = live s"
  "events (left_state p c mw st cl s) = events s" "memReads (left_state p c mw st cl s) = memReads s"
  "memWrites (left_state p c mw st cl s) = mw" "stores (left_state p c mw st cl s) = st"
  "cores (left_state p c mw st cl s) = (cores s)(p := c)" "validVAddr (left_state p c mw st cl s) = validVAddr s"
  "InstTable (left_state p c mw st cl s) = InstTable s" "issueNo (left_state p c mw st cl s) = issueNo s"
  "stamp (left_state p c mw st cl s) = stamp s" "evs (left_state p c mw st cl s) = evs s"
  by (simp_all add: left_state_def evs_def)

definition leaves :: "nat \<Rightarrow> nat \<Rightarrow> nat list \<Rightarrow> bool \<Rightarrow> bool \<Rightarrow> world \<Rightarrow> core \<Rightarrow> bool" where
  "leaves p d rs sent fl s c \<longleftrightarrow>
     (let c0 = cores s p; rp = getDstPool (d_inst (heap s d)); kk = cluster_no p (opcode (d_inst (heap s d))) s in
      retire_body c = retire_body c0 \<and> ROB c = rs \<and> regPool c = (regPool c0)(rp := regPool c0 rp + 1) \<and>
      0 \<le> freeLoads c \<and> 0 \<le> freeStores c \<and> nOutsStores c = nOutsStores c0 + of_bool sent \<and>
      (pendingFence c \<longrightarrow> 0 < nOutsStores c) \<and>
      inflightInsts c = set (filter (\<lambda>d. isMem (d_inst (heap s d))) rs) \<and> instMap c = by_word s rs \<and>
      (\<forall>k. cluster_body (clusters c k) = cluster_body (clusters c0 k) \<and>
         windowSize (clusters c k) = windowSize (clusters c0 k) + of_bool (fl \<and> k = kk \<and> recycleAt (clusters c0 k) = AtRetire)) \<and>
      (\<forall>k. port_ok (wakeUpPort (clusters c k)) \<and> port_ok (schedPort (clusters c k))) \<and> (\<forall>g. port_ok (gens c g)))"

lemma leave_static:
  assumes S: "static_ok pl s" and R: "ROB (cores s p) = d # rs" and L: "leaves p d rs sent fl s c"
    and k: "sent \<Longrightarrow> isStore (d_inst (heap s d)) \<or> isFence (d_inst (heap s d))"
    and mw: "mw = (if sent then add_mset d (memWrites s) else memWrites s)"
    and st: "\<And>w. st w = (if stores s w = Some d then None else stores s w)"
  shows "static_ok (pl(d := Some (if sent then Sent p else Dying p))) (left_state p c mw st cl s)"
proof -
  let ?t = "left_state p c mw st cl s" and ?pl = "pl(d := Some (if sent then Sent p else Dying p))"
  note P = placeD [OF staticD(1) [OF S]] and Q = lsq_by_word [OF staticD(3) [OF S]]
  note l = L [unfolded leaves_def Let_def]
  have rb: "retire_body c = retire_body (cores s p)" using l by blast
  note rb = retire_body_fields [OF rb]
  have d: "pl d = Some (InROB p)" using P(4) [of d p] R by simp
  have rs: "distinct (d # rs)" using P(3) [of p] R by simp
  have cs: "ROB (cores ?t q) = (if q = p then rs else ROB (cores s q))" for q using l by simp
  have same: "units (cores ?t q) = units (cores s q)" "replayQ (cores ?t q) = replayQ (cores s q)" "pipe (cores ?t q) = pipe (cores s q)"
    "instQueue (cores ?t q) = instQueue (cores s q)" "spaceInInstQueue (cores ?t q) = spaceInInstQueue (cores s q)"
    "FetchWidth (cores ?t q) = FetchWidth (cores s q)" "InstQueueSize (cores ?t q) = InstQueueSize (cores s q)"
    "InOrderCore (cores ?t q) = InOrderCore (cores s q)" "MaxROBSize (cores ?t q) = MaxROBSize (cores s q)"
    "regs (cores ?t q) = regs (cores s q)" "RetireWidth (cores ?t q) = RetireWidth (cores s q)" for q
    using rb by (simp_all add: regs_def fun_eq_iff)
  have "place_ok ?pl ?t"
    unfolding place_ok_def
  proof (intro conjI allI ballI impI)
    show "finite (live ?t)" "live ?t = dom ?pl" using P(1,2) d by auto
    show "distinct (ROB (cores ?t q))" for q using P(3) [of q] rs cs by simp
    show "set (ROB (cores ?t q)) = {x. ?pl x = Some (InROB q)}" for q
    proof (rule set_eqI)
      fix x show "x \<in> set (ROB (cores ?t q)) \<longleftrightarrow> x \<in> {x. ?pl x = Some (InROB q)}"
        using P(4) [of x q] rs R d unfolding cs by (cases "x = d"; cases "q = p"; simp)
    qed
    show "distinct (concat (instQueue (cores ?t q)) @ concat (pipe (cores ?t q)))" for q using P(5) [of q] by (simp only: same)
    show "{x. ?pl x = Some (Waiting q)} \<subseteq> set (concat (instQueue (cores ?t q)) @ concat (pipe (cores ?t q)))" for q
      using P(6) [of _ q] by (auto simp only: same fun_upd_apply split: if_splits)
    show "[] \<notin> set (instQueue (cores ?t q))" "[] \<notin> set (pipe (cores ?t q))" "replayQ (cores ?t q) = []" for q
      using P(7-9) [of q] unfolding same by blast+
    show "count (memWrites ?t) x = of_bool (\<exists>q. ?pl x = Some (Sent q))" for x using P(10) [of x] d mw by auto
    show "dyn_ok ?t (heap ?t x)" if "x \<in> live ?t" for x using P(11) [of x] that by (simp add: dyn_ok_def)
    show "fresh (heap ?t x)" if "?pl x = Some (Waiting q)" for x q using P(12) [of x q] that by (auto split: if_splits)
    show "runs_on q (heap ?t x)" if "?pl x = Some (InROB q) \<or> ?pl x = Some (Sent q) \<or> ?pl x = Some (Dying q)" for x q
      using P(13-15) [of x q] P(13) [OF d] that by (auto split: if_splits)
    show "isStore (d_inst (heap ?t x)) \<or> isFence (d_inst (heap ?t x))" if "?pl x = Some (Sent q)" for x q
      using P(16) [of x q] k that by (auto split: if_splits)
  qed
  moreover have "count_ok ?pl ?t"
  proof -
    have sset: "{x. ?pl x = Some (Sent q)} = (if sent \<and> q = p then insert d {x. pl x = Some (Sent q)} else {x. pl x = Some (Sent q)})" for q
      using d by auto
    have fin: "finite {x. pl x = Some (Sent q)}" for q by (rule finite_subset [OF _ P(1)]) (use P(2) in auto)
    have card: "card {x. ?pl x = Some (Sent q)} = card {x. pl x = Some (Sent q)} + of_bool (sent \<and> q = p)" for q
      unfolding sset using fin [of q] d by auto
    have C: "count_ok pl s" using staticD(2) [OF S] .
    show ?thesis
      unfolding count_ok_def Let_def card same
    proof (intro allI)
      fix q
      note Cq = C [unfolded count_ok_def Let_def, rule_format, of q]
      show "(\<forall>r<3. 0 \<le> regPool (cores ?t q) r \<and>
          regPool (cores ?t q) r + int (length (filter (\<lambda>d. getDstPool (d_inst (heap ?t d)) = r) (ROB (cores ?t q)))) = regs (cores s q) r) \<and>
        0 \<le> freeLoads (cores ?t q) \<and> 0 \<le> freeStores (cores ?t q) \<and>
        nOutsStores (cores ?t q) = int (card {x. pl x = Some (Sent q)} + of_bool (sent \<and> q = p)) \<and>
        (pendingFence (cores ?t q) \<longrightarrow> 0 < nOutsStores (cores ?t q)) \<and> length (ROB (cores ?t q)) \<le> MaxROBSize (cores s q) \<and>
        spaceInInstQueue (cores s q) + int (length (concat (instQueue (cores s q)))) \<le> int (InstQueueSize (cores s q)) \<and>
        0 \<le> spaceInInstQueue (cores s q) \<and> (\<forall>b\<in>set (pipe (cores s q)). length b \<le> FetchWidth (cores s q))"
      proof (cases "q = p")
        case False
        then show ?thesis using Cq by auto
      next
        case True
        have lr: "Suc (length rs) \<le> MaxROBSize (cores s p)" using Cq True R by simp
        have reg: "0 \<le> regPool c r \<and> regPool c r + int (length (filter (\<lambda>d. getDstPool (d_inst (heap s d)) = r) rs)) = regs (cores s p) r"
          if "r < 3" for r
        proof -
          have "0 \<le> regPool (cores s p) r \<and> regPool (cores s p) r +
              int (length (filter (\<lambda>d. getDstPool (d_inst (heap s d)) = r) (d # rs))) = regs (cores s p) r"
            using Cq True R that by auto
          moreover have "regPool c = (regPool (cores s p))(getDstPool (d_inst (heap s d)) := regPool (cores s p) (getDstPool (d_inst (heap s d))) + 1)"
            using l by blast
          ultimately show ?thesis by (auto split: if_splits)
        qed
        have rest: "0 \<le> freeLoads c" "0 \<le> freeStores c" "nOutsStores c = nOutsStores (cores s p) + of_bool sent"
          "pendingFence c \<longrightarrow> 0 < nOutsStores c" "ROB c = rs" using l by blast+
        show ?thesis using Cq True reg rest lr by simp
      qed
    qed
  qed
  moreover have "lsq_ok ?pl ?t"
  proof (rule lsq_okI)
    show "inflightInsts (cores ?t q) = set (filter (\<lambda>d. isMem (d_inst (heap ?t d))) (ROB (cores ?t q)))" for q
      using Q(1) [of q] l by (cases "q = p") simp_all
    have "by_word ?t = by_word s" by (simp add: by_word_def fun_eq_iff)
    then show "instMap (cores ?t q) = by_word ?t (ROB (cores ?t q))" for q using Q(2) [of q] l by (cases "q = p") simp_all
    show "(\<exists>q. ?pl x = Some (InROB q)) \<and> isStore (d_inst (heap ?t x)) \<and> calcWord (heap ?t x) = w \<and> \<not> deadStore (heap ?t x)"
      if "stores ?t w = Some x" for w x
    proof -
      have "stores s w = Some x" "x \<noteq> d" using that by (simp_all add: st split: if_splits)
      then show ?thesis using Q(3-6) [of w x] by simp
    qed
  qed
  moreover have "conf_ok ?t = conf_ok s" unfolding conf_ok_def same by (simp only: left_simps)
  ultimately show ?thesis using staticD(4) [OF S] by (simp only: static_ok_def)
qed

lemma win_leave:
  assumes "win_at c u" "u = u' + of_bool (a \<and> recycleAt c = AtRetire)"
    "windowSize c' = windowSize c + of_bool (fl \<and> a \<and> recycleAt c = AtRetire)" "recycleAt c' = recycleAt c" "MaxWinSize c' = MaxWinSize c"
  shows "win_at c' u'"
  using assms by (cases a; cases fl; cases "recycleAt c = AtRetire") (auto simp: win_at_def)

lemma leave_inv:
  assumes I: "core_inv {} D pl s" and R: "ROB (cores s p) = d # rs" and X: "executed (heap s d)" and L: "leaves p d rs sent fl s c"
    and k: "sent \<Longrightarrow> isStore (d_inst (heap s d)) \<or> isFence (d_inst (heap s d))"
    and mw: "mw = (if sent then add_mset d (memWrites s) else memWrites s)"
    and st: "\<And>w. st w = (if stores s w = Some d then None else stores s w)"
  shows "core_inv {} D (pl(d := Some (if sent then Sent p else Dying p))) (left_state p c mw st cl s)"
    "W (left_state p c mw st cl s) = W s"
proof -
  let ?t = "left_state p c mw st cl s" and ?pl = "pl(d := Some (if sent then Sent p else Dying p))"
  note C = core_invD [OF I]
  note P = placeD [OF staticD(1) [OF C(1)]]
  note l = L [unfolded leaves_def Let_def]
  have rb: "retire_body c = retire_body (cores s p)" using l by blast
  note rb = retire_body_fields [OF rb]
  have d: "pl d = Some (InROB p)" using P(4) [of d p] R by simp
  have rs: "ROB c = rs" using l by blast
  have dd: "dest ?t = dest s" by (simp add: dest_def fun_eq_iff)
  have wr: "writer ?t r xs = writer s r xs" for r xs by (simp add: writer_def dd)
  have cl: "cluster_body (clusters (cores ?t q) k) = cluster_body (clusters (cores s q) k)" for q k using l by simp
  note cb = cluster_body_fields [OF cl]
  have cn: "cluster_no q ty ?t = cluster_no q ty s" for q ty using rb by (simp add: cluster_no_def)
  have RAT: "RAT (cores ?t q) = RAT (cores s q)" for q using rb by simp
  have un: "unstarted ?t x = unstarted s x" for x by (simp add: unstarted_def)
  have ho: "holds ?t q k = holds s q k" for q k by (rule ext) (unfold holds_def un cn cb left_simps(2), rule refl)
  have ic: "is_issued_cb ?t q k = is_issued_cb s q k" for q k by (simp add: fun_eq_iff is_issued_cb_def cn split: cev.split)
  have "static_ok ?pl ?t" by (rule leave_static [OF C(1) R L k mw st])
  moreover have "deps_ok D ?t" using C(2) deps_ok_cong [of ?t s D] by simp
  moreover have "act_ok ?t" using C(3) by (simp add: act_ok_def acts_def ready_def)
  moreover have "win_ok ?t"
    unfolding win_ok_def
  proof (intro allI)
    fix q k
    have w0: "win_at (clusters (cores s q) k) (used s q k)" using C(4) by (simp add: win_ok_def)
    show "win_at (clusters (cores ?t q) k) (used ?t q k)"
    proof (cases "q = p")
      case False
      then have "used ?t q k = used s q k" by (simp add: used_def ho ic)
      then show ?thesis using w0 False by simp
    next
      case True
      let ?kk = "cluster_no p (opcode (d_inst (heap s d))) s"
      have "holds s p k d \<longleftrightarrow> k = ?kk \<and> recycleAt (clusters (cores s p) k) = AtRetire"
        using X by (auto simp: holds_def unstarted_def split: recycle.split)
      moreover have "filter (holds s p k) (d # rs) = (if holds s p k d then d # filter (holds s p k) rs else filter (holds s p k) rs)" by simp
      ultimately have "length (filter (holds s p k) (ROB (cores s p))) = length (filter (holds s p k) rs) +
          of_bool (k = ?kk \<and> recycleAt (clusters (cores s p) k) = AtRetire)" using R by auto
      then have "used s p k = used ?t p k + of_bool (k = ?kk \<and> recycleAt (clusters (cores s p) k) = AtRetire)"
        using True rs cb [of p k] by (simp add: used_def ho ic)
      moreover have "windowSize (clusters c k) = windowSize (clusters (cores s p) k) +
          of_bool (fl \<and> k = ?kk \<and> recycleAt (clusters (cores s p) k) = AtRetire)" using l by blast
      ultimately show ?thesis using win_leave [OF w0, of "used ?t p k" "k = ?kk" "clusters c k" fl] True cb [of p k] by simp
    qed
  qed
  moreover have "rat_ok ?t"
    unfolding rat_ok_def
  proof (intro allI impI)
    fix q r assume r: "r < InvalidOutput"
    have e: "RAT (cores s q) r = (case writer s r (ROB (cores s q)) of None \<Rightarrow> None | Some x \<Rightarrow> if executed (heap s x) then None else Some x)"
      using C(5) r by (simp add: rat_ok_def)
    show "RAT (cores ?t q) r = (case writer ?t r (ROB (cores ?t q)) of None \<Rightarrow> None | Some x \<Rightarrow> if executed (heap ?t x) then None else Some x)"
    proof (cases "q = p")
      case False
      then show ?thesis using e by (simp add: wr cong: option.case_cong)
    next
      case True
      then have "RAT c r = (case writer s r (d # rs) of None \<Rightarrow> None | Some x \<Rightarrow> if executed (heap s x) then None else Some x)"
        using e R rb by simp
      then show ?thesis using True rs X by (cases "writer s r rs") (simp_all add: wr writer_Cons cong: option.case_cong)
    qed
  qed
  moreover have "dep_ok D ?t"
    unfolding dep_ok_def
  proof (intro allI impI)
    fix q pre x post y and j :: nat
    assume x: "ROB (cores ?t q) = pre @ x # post" "j = 0 \<and> writer ?t (getSrc1 (d_inst (heap ?t x))) pre = Some y \<or>
      j = 1 \<and> writer ?t (getSrc2 (d_inst (heap ?t x))) pre = Some y"
    let ?pre = "if q = p then d # pre else pre"
    have "ROB (cores s q) = ?pre @ x # post" using x(1) R rs by (simp split: if_splits)
    moreover have "writer s r ?pre = Some y" if "writer s r pre = Some y" for r using that by (simp add: writer_Cons)
    ultimately show "executed (heap ?t y) \<or> (x, j) \<in> set (D y)"
      using dep_okD [OF C(6), of q ?pre x post j y] x(2) by (auto simp: wr)
  qed
  moreover have "ret_ok {} D ?pl ?t"
  proof -
    have "executed (heap s x)" if "?pl x = Some (Sent q) \<or> ?pl x = Some (Dying q)" for x q
      using C(7) X that by (auto simp: ret_ok_def split: if_splits)
    moreover have "D x = [] \<and> (x, 0) \<notin> nodes D \<and> (x, 1) \<notin> nodes D" if "?pl x = Some (Waiting q)" for x q
      using C(7) that by (auto simp: ret_ok_def split: if_splits)
    ultimately show ?thesis using C(7) by (simp add: ret_ok_def)
  qed
  moreover have "stamp_ok D ?t" using C(8) R rs by (auto simp: stamp_ok_def dest: spec [of _ p])
  moreover have "ports_ok ?t" using C(9) l by (auto simp: ports_ok_def)
  moreover have "time_ok ?t" using C(10) by (simp add: time_ok_def)
  ultimately show "core_inv {} D ?pl ?t" by (simp add: core_inv_def)
  show "W ?t = W s" by (rule W_same) (simp_all add: rank_def)
qed

subsection \<open>Instructions that go back to the pool\<close>

text \<open>A state that agrees with \<open>s\<close> except for an object \<open>d\<close> that is not in use.\<close>

definition without :: "nat \<Rightarrow> dinst \<Rightarrow> world \<Rightarrow> world" where
  "without d y s = s\<lparr>live := live s - {d}, heap := (heap s)(d := y)\<rparr>"

lemma without_simps [simp]:
  "now (without d y s) = now s" "heap (without d y s) = (heap s)(d := y)" "live (without d y s) = live s - {d}"
  "events (without d y s) = events s" "memReads (without d y s) = memReads s" "memWrites (without d y s) = memWrites s"
  "stores (without d y s) = stores s" "cores (without d y s) = cores s" "validVAddr (without d y s) = validVAddr s"
  "InstTable (without d y s) = InstTable s" "issueNo (without d y s) = issueNo s" "stamp (without d y s) = stamp s"
  "evs (without d y s) = evs s" "cluster_no p ty (without d y s) = cluster_no p ty s"
  by (simp_all add: without_def evs_def cluster_no_def)

lemma without_static:
  assumes S: "static_ok pl s" and d: "pl d = Some (Dying p)"
  shows "static_ok (pl(d := None)) (without d y s)"
proof -
  let ?t = "without d y s" and ?pl = "pl(d := None)"
  note P = placeD [OF staticD(1) [OF S]] and Q = lsq_by_word [OF staticD(3) [OF S]]
  have rob: "d \<notin> set (ROB (cores s q))" for q using P(4) [of d q] d by simp
  have fil: "filter (\<lambda>x. f (heap ?t x)) (ROB (cores s q)) = filter (\<lambda>x. f (heap s x)) (ROB (cores s q))" for f q
    using rob [of q] by (intro filter_cong) auto
  have "place_ok ?pl ?t"
    unfolding place_ok_def without_simps
  proof (intro conjI allI ballI impI)
    show "finite (live s - {d})" "live s - {d} = dom ?pl" using P(1,2) by auto
    show "distinct (ROB (cores s q))" for q using P(3) .
    show "set (ROB (cores s q)) = {x. ?pl x = Some (InROB q)}" for q
    proof (rule set_eqI)
      fix x show "x \<in> set (ROB (cores s q)) \<longleftrightarrow> x \<in> {x. ?pl x = Some (InROB q)}" using P(4) [of x q] rob [of q] by auto
    qed
    show "distinct (concat (instQueue (cores s q)) @ concat (pipe (cores s q)))" for q using P(5) .
    show "{x. ?pl x = Some (Waiting q)} \<subseteq> set (concat (instQueue (cores s q)) @ concat (pipe (cores s q)))" for q
      using P(6) [of _ q] by (auto simp only: fun_upd_apply mem_Collect_eq split: if_splits)
    show "[] \<notin> set (instQueue (cores s q))" "[] \<notin> set (pipe (cores s q))" "replayQ (cores s q) = []" for q
      using P(7-9) [of q] by blast+
    show "count (memWrites s) x = of_bool (\<exists>q. ?pl x = Some (Sent q))" for x using P(10) [of x] d by auto
    show "dyn_ok ?t (((heap s)(d := y)) x)" if "x \<in> live s - {d}" for x using P(11) [of x] that by (simp add: dyn_ok_def)
    show "fresh (((heap s)(d := y)) x)" if "?pl x = Some (Waiting q)" for x q using P(12) [of x q] that by (auto split: if_splits)
    show "runs_on q (((heap s)(d := y)) x)" if "?pl x = Some (InROB q) \<or> ?pl x = Some (Sent q) \<or> ?pl x = Some (Dying q)" for x q
      using P(13-15) [of x q] that by (auto split: if_splits)
    show "isStore (d_inst (((heap s)(d := y)) x)) \<or> isFence (d_inst (((heap s)(d := y)) x))" if "?pl x = Some (Sent q)" for x q
      using P(16) [of x q] that by (auto split: if_splits)
  qed
  moreover have "count_ok ?pl ?t"
  proof -
    have sset: "{x. ?pl x = Some (Sent q)} = {x. pl x = Some (Sent q)}" for q using d by auto
    have f: "filter (\<lambda>x. getDstPool (d_inst (heap ?t x)) = r) (ROB (cores s q)) = filter (\<lambda>x. getDstPool (d_inst (heap s x)) = r) (ROB (cores s q))" for q r
      by (rule fil)
    show ?thesis using staticD(2) [OF S] unfolding count_ok_def without_simps(8) sset f Let_def .
  qed
  moreover have "lsq_ok ?pl ?t"
  proof (rule lsq_okI)
    show "inflightInsts (cores ?t q) = set (filter (\<lambda>d. isMem (d_inst (heap ?t d))) (ROB (cores ?t q)))" for q
      using Q(1) [of q] fil [of "\<lambda>x. isMem (d_inst x)" q] by (simp only: without_simps(8))
    have "by_word ?t (ROB (cores s q)) = by_word s (ROB (cores s q))" for q
    proof (rule ext)
      fix w
      have "filter (\<lambda>x. calcWord (heap ?t x) = w) (filter (\<lambda>x. isMem (d_inst (heap ?t x))) (ROB (cores s q))) =
          filter (\<lambda>x. calcWord (heap s x) = w) (filter (\<lambda>x. isMem (d_inst (heap s x))) (ROB (cores s q)))"
        using rob [of q] by (simp only: filter_filter) (intro filter_cong, auto)
      then show "by_word ?t (ROB (cores s q)) w = by_word s (ROB (cores s q)) w" by (simp only: by_word_def)
    qed
    then show "instMap (cores ?t q) = by_word ?t (ROB (cores ?t q))" for q using Q(2) [of q] by (simp only: without_simps(8))
    show "(\<exists>q. ?pl x = Some (InROB q)) \<and> isStore (d_inst (heap ?t x)) \<and> calcWord (heap ?t x) = w \<and> \<not> deadStore (heap ?t x)"
      if "stores ?t w = Some x" for w x
    proof -
      have "stores s w = Some x" using that by simp
      then show ?thesis using Q(3-6) [of w x] d by auto
    qed
  qed
  moreover have "conf_ok ?t = conf_ok s" unfolding conf_ok_def without_simps ..
  ultimately show ?thesis using staticD(4) [OF S] by (simp only: static_ok_def)
qed

lemma without_inv:
  assumes I: "core_inv E D pl s" and d: "pl d = Some (Dying p)" and e: "D d = []" and y: "nDeps y = 0"
  shows "core_inv (E - {d}) D (pl(d := None)) (without d y s)" "W (without d y s) = W s"
proof -
  let ?t = "without d y s" and ?pl = "pl(d := None)"
  note C = core_invD [OF I]
  note P = placeD [OF staticD(1) [OF C(1)]] and R = ret_okD [OF C(7)] and A = deps_okD [OF C(2)]
  have dl: "d \<in> live s" using P(2) d by auto
  have x: "executed (heap s d)" using R(12) [OF d] .
  have nd: "nDeps (heap s d) = 0" using C(3) dl x by (simp add: act_ok_def)
  have nn: "(d, 0) \<notin> nodes D" "(d, 1) \<notin> nodes D" using deps_use(1) [OF C(2) dl] nd by simp_all
  have out: "fst n \<noteq> d" if "n \<in> set (D q)" for n q
  proof
    assume "fst n = d"
    then have "(d, snd n) \<in> nodes D" "snd n < 2" using that A(7) by (auto simp: nodes_def)
    then show False using nn by (auto simp: less_2_cases_iff)
  qed
  have rob: "d \<notin> set (ROB (cores s q))" for q using P(4) [of d q] d by simp
  have noact: "acts s d = 0" using C(3) x by (simp add: act_ok_def ready_def)
  have ev: "about f = Some d \<Longrightarrow> f \<notin># evs s" for f using evs_about [of f s d] noact by auto
  have mr: "d \<notin># memReads s" using noact by (simp add: acts_def count_eq_zero_iff)
  have wr: "writer ?t r xs = writer s r xs" if "d \<notin> set xs" for r xs
  proof -
    have "filter (\<lambda>z. dest ?t z = r) xs = filter (\<lambda>z. dest s z = r) xs" using that by (intro filter_cong) (auto simp: dest_def)
    then show ?thesis by (simp add: writer_def)
  qed
  have wm: "writer s r xs = Some z \<Longrightarrow> z \<in> set xs" for r xs z
    using last_in_set [of "filter (\<lambda>z. dest s z = r) xs"] by (auto simp: writer_def split: list.splits if_splits)
  have "static_ok ?pl ?t" by (rule without_static [OF C(1) d])
  moreover have "deps_ok D ?t"
  proof -
    have ch: "chain (heap ?t) f (D q) = chain (heap s) f (D q)" for f q using out [of _ q] by (intro deps_chain_cong) simp
    show ?thesis
      unfolding deps_ok_def
    proof (intro conjI allI ballI impI)
      show "chain (heap ?t) (d_first (heap ?t q)) (D q)" "D q \<noteq> [] \<Longrightarrow> d_last (heap ?t q) = Some (last (D q))"
        if "q \<in> live ?t" for q unfolding ch using A(1,2) [of q] that by simp_all
      show "D q = []" if "q \<notin> live ?t" for q using A(3) [of q] that e by (cases "q = d") auto
      show "distinct (D q)" for q using A(4) .
      show "set (D q) \<inter> set (D r) = {}" if "q \<noteq> r" for q r using A(5) that by blast
      show "fst n \<in> live ?t" "snd n < 2" if n: "n \<in> nodes D" for n
      proof -
        obtain q where "n \<in> set (D q)" using n by (auto simp: nodes_def)
        then show "fst n \<in> live ?t" "snd n < 2" using out [of n q] A(6,7) [of n q] by simp_all
      qed
      show "isUsed (heap ?t z) k = ((z, k) \<in> nodes D)" if "z \<in> live ?t" "k < 2" for z k
        using that deps_use(2) [OF C(2), of z k] by simp
      show "nDeps (heap ?t z) = of_bool (isUsed (heap ?t z) 0) + of_bool (isUsed (heap ?t z) 1)" if "z \<in> live ?t" for z
        using that A(9) [of z] by simp
      show "nDeps (heap ?t z) = 0" if "z \<notin> live ?t" for z using that A(11) [of z] y by auto
    qed
  qed
  moreover have "act_ok ?t"
    unfolding act_ok_def
  proof (intro conjI allI ballI impI)
    show "acts ?t z = of_bool (ready ?t z)" for z
      using C(3) noact by (cases "z = d") (simp_all add: act_ok_def acts_def ready_def)
    show "issued (heap ?t z)" "nDeps (heap ?t z) = 0" if "z \<in> live ?t" "executed (heap ?t z)" for z
      using C(3) that by (auto simp: act_ok_def)
    show "wakeUpTime (heap ?t z) = 0" if "SelectCB z \<in># evs ?t" for z
      using C(3) that ev [of "SelectCB z"] by (auto simp: act_ok_def)
    show "isLoad (d_inst (heap ?t z))" "\<not> loadForwarded (heap ?t z)" if "DispatchedCB q z \<in># evs ?t" for z q
      using C(3) that ev [of "DispatchedCB q z"] by (auto simp: act_ok_def)
    show "isLoad (d_inst (heap ?t z))" "\<not> loadForwarded (heap ?t z)" if "z \<in># memReads ?t" for z
      using C(3) that mr by (auto simp: act_ok_def)
  qed
  moreover have "win_ok ?t"
  proof -
    have "filter (holds ?t q k) (ROB (cores s q)) = filter (holds s q k) (ROB (cores s q))" for q k
      using rob [of q] by (intro filter_cong) (auto simp: holds_def unstarted_def split: recycle.split)
    moreover have "is_issued_cb ?t = is_issued_cb s" by (simp add: fun_eq_iff is_issued_cb_def split: cev.split)
    ultimately have "used ?t q k = used s q k" for q k by (simp add: used_def)
    then show ?thesis using C(4) by (simp add: win_ok_def)
  qed
  moreover have "rat_ok ?t"
  proof -
    have "(case writer ?t r (ROB (cores s q)) of None \<Rightarrow> None | Some z \<Rightarrow> if executed (heap ?t z) then None else Some z) =
        (case writer s r (ROB (cores s q)) of None \<Rightarrow> None | Some z \<Rightarrow> if executed (heap s z) then None else Some z)" for q r
      using rob [of q] wm [of r "ROB (cores s q)"] by (cases "writer s r (ROB (cores s q))") (auto simp: wr)
    then show ?thesis using C(5) by (simp add: rat_ok_def)
  qed
  moreover have "dep_ok D ?t"
    unfolding dep_ok_def
  proof (intro allI impI)
    fix q pre z post r and j :: nat
    assume z: "ROB (cores ?t q) = pre @ z # post" "j = 0 \<and> writer ?t (getSrc1 (d_inst (heap ?t z))) pre = Some r \<or>
      j = 1 \<and> writer ?t (getSrc2 (d_inst (heap ?t z))) pre = Some r"
    have o: "d \<notin> set pre" "z \<noteq> d" using rob [of q] z(1) by auto
    then have z2: "j = 0 \<and> writer s (getSrc1 (d_inst (heap s z))) pre = Some r \<or> j = 1 \<and> writer s (getSrc2 (d_inst (heap s z))) pre = Some r"
      using z(2) by (simp add: wr)
    then have "r \<noteq> d" using wm o(1) by blast
    then show "executed (heap ?t r) \<or> (z, j) \<in> set (D r)" using dep_okD [OF C(6) _ z2, of q post] z(1) by simp
  qed
  moreover have "ret_ok (E - {d}) D ?pl ?t"
    unfolding ret_ok_def
  proof (intro conjI ballI allI impI)
    show "q \<in> live ?t" "executed (heap ?t q)" if "q \<in> E - {d}" for q using R(1,2) [of q] that by simp_all
    show "D q = []" if "q \<in> live ?t" "executed (heap ?t q)" "q \<notin> E - {d}" "\<not> isStore (d_inst (heap ?t q))" for q
      using R(3) [of q] that by auto
    show "snd m = 1" "isLoad (d_inst (heap ?t (fst m)))" if "q \<in> live ?t" "isStore (d_inst (heap ?t q))" "m \<in> set (D q)" for q m
      using R(4,5) [of q m] that out [of m q] by auto
    show "depsAtRetire (heap ?t (fst m))" if "q \<in> live ?t" "isStore (d_inst (heap ?t q))" "m \<in> set (D q)"
        "executed (heap ?t q)" "q \<notin> E - {d}" for q m
      using R(6) [of q m] that out [of m q] by auto
    show "\<exists>q\<in>live ?t. isStore (d_inst (heap ?t q)) \<and> (z, 1) \<in> set (D q)" if z: "z \<in> live ?t" "depsAtRetire (heap ?t z)" for z
    proof -
      obtain q where q: "q \<in> live s" "isStore (d_inst (heap s q))" "(z, 1) \<in> set (D q)" using R(7) [of z] z by auto
      then have "q \<noteq> d" using e by auto
      then show ?thesis using q by (intro bexI [of _ q]) auto
    qed
    show "D z = []" "(z, 0) \<notin> nodes D" "(z, 1) \<notin> nodes D" if "?pl z = Some (Waiting q)" for z q
      using R(8-10) [of z q] that by (auto split: if_splits)
    show "executed (heap ?t z)" if "?pl z = Some (Sent q) \<or> ?pl z = Some (Dying q)" for z q
      using R(11,12) [of z q] that by (auto split: if_splits)
  qed
  moreover have "stamp_ok D ?t" using C(8) by (simp add: stamp_ok_def)
  moreover have "ports_ok ?t" "time_ok ?t" using C(9,10) by (simp_all add: ports_ok_def time_ok_def)
  ultimately show "core_inv (E - {d}) D ?pl ?t" by (simp add: core_inv_def)
  have "rank s d = 0" using x by (simp add: rank_def)
  moreover have "sum (rank ?t) (live s - {d}) = sum (rank s) (live s - {d})" by (rule sum.cong) (auto simp: rank_def)
  moreover have "sum (rank s) (live s) = rank s d + sum (rank s) (live s - {d})" using live_finite [OF I] dl by (rule sum.remove)
  ultimately show "W ?t = W s" by (simp add: W_def)
qed

end
