(* ===== verification/Core_Awake.thy ===== *)
theory Core_Awake
  imports Core_Leave
begin

text \<open>
  The answers of the memory system. When a store has been acknowledged, the loads that wait for it are
  woken, and the store goes back to the pool.
\<close>

subsection \<open>What an operation keeps of the cores\<close>

text \<open>\<open>frame\<close> without the flag \<open>depsAtRetire\<close>.\<close>

definition calm :: "world \<Rightarrow> world \<Rightarrow> bool" where
  "calm s s' \<longleftrightarrow> now s' = now s \<and> memWrites s' = memWrites s \<and> stores s' = stores s \<and> validVAddr s' = validVAddr s \<and>
     InstTable s' = InstTable s \<and> issueNo s' = issueNo s \<and> stamp s' = stamp s \<and> live s' = live s \<and>
     (\<forall>d. d_inst (heap s' d) = d_inst (heap s d)) \<and> (\<forall>d. executed (heap s d) \<longrightarrow> executed (heap s' d)) \<and>
     (\<forall>p. core_body (cores s' p) = core_body (cores s p)) \<and>
     (\<forall>p k. cluster_body (clusters (cores s' p) k) = cluster_body (clusters (cores s p) k))"

lemma calm_refl [simp]: "calm s s" by (simp add: calm_def)

lemma calm_trans: "calm s t \<Longrightarrow> calm t u \<Longrightarrow> calm s u"
  by (simp add: calm_def)

lemma frame_calm: "frame s t \<Longrightarrow> calm s t"
  using frame_simps(9) [of s t] by (auto simp: calm_def frame_def)

subsection \<open>The flag of a load that is woken by a store\<close>

lemma clear_inv:
  assumes I: "core_inv E D pl s" and d: "d \<in> E" and n: "(x, k) \<in> set (D d)" and st: "isStore (d_inst (heap s d))"
  defines "t \<equiv> upd_d x (\<lambda>z. z\<lparr>depsAtRetire := False\<rparr>) s"
  shows "core_inv E D pl t" "W t = W s" "calm s t"
proof -
  note C = core_invD [OF I] and N = node_issued [OF I n]
  have h: "d_inst (heap t z) = d_inst (heap s z)" "issued (heap t z) = issued (heap s z)" "executed (heap t z) = executed (heap s z)"
    "nDeps (heap t z) = nDeps (heap s z)" "links (heap t z) = links (heap s z)" "wakeUpTime (heap t z) = wakeUpTime (heap s z)"
    "loadForwarded (heap t z) = loadForwarded (heap s z)" "deadStore (heap t z) = deadStore (heap s z)"
    "dyn_ok t (heap t z) = dyn_ok s (heap s z)" "runs_on p (heap t z) = runs_on p (heap s z)" "calcWord (heap t z) = calcWord (heap s z)"
    "depsAtRetire (heap t z) \<longleftrightarrow> z \<noteq> x \<and> depsAtRetire (heap s z)" for z p
    by (simp_all add: t_def dyn_ok_def runs_on_def calcWord_def)
  have fr: "fresh (heap t z) = fresh (heap s z)" for z using N(2) by (simp add: t_def fresh_def)
  have w: "now t = now s" "live t = live s" "events t = events s" "evs t = evs s" "memReads t = memReads s" "memWrites t = memWrites s"
    "stores t = stores s" "cores t = cores s" "validVAddr t = validVAddr s" "InstTable t = InstTable s" "issueNo t = issueNo s"
    "stamp t = stamp s" "cluster_no p ty t = cluster_no p ty s" for p ty
    by (simp_all add: t_def evs_def cluster_no_def)
  have "static_ok pl t = static_ok pl s"
    unfolding static_ok_def place_ok_def count_ok_def lsq_ok_def conf_ok_def Let_def h fr w ..
  moreover have "deps_ok D t = deps_ok D s" using h(5) w(2) by (intro deps_ok_cong) auto
  moreover have "act_ok t = act_ok s" unfolding act_ok_def acts_def ready_def h w ..
  moreover have "win_ok t = win_ok s"
    unfolding win_ok_def used_def holds_def unstarted_def is_issued_cb_def h w ..
  moreover have "writer t = writer s" by (simp add: fun_eq_iff writer_def dest_def h)
  then have "rat_ok t = rat_ok s" "dep_ok D t = dep_ok D s"
    unfolding rat_ok_def dep_ok_def by (simp_all only: h w)
  moreover have "ret_ok E D pl t"
    unfolding ret_ok_def h w
  proof (intro conjI ballI allI impI)
    note R = ret_okD [OF C(7)]
    show "q \<in> live s" "executed (heap s q)" if "q \<in> E" for q using R(1,2) [of q] that by simp_all
    show "D q = []" if "q \<in> live s" "executed (heap s q)" "q \<notin> E" "\<not> isStore (d_inst (heap s q))" for q
      using R(3) [of q] that by auto
    show "snd m = 1" "isLoad (d_inst (heap s (fst m)))" if "q \<in> live s" "isStore (d_inst (heap s q))" "m \<in> set (D q)" for q m
      using R(4,5) [of q m] that by auto
    show dr: "depsAtRetire (heap s (fst m))" if "q \<in> live s" "isStore (d_inst (heap s q))" "m \<in> set (D q)"
        "executed (heap s q)" "q \<notin> E" for q m
      using R(6) [of q m] that by auto
    show "fst m \<noteq> x" if q: "q \<in> live s" "isStore (d_inst (heap s q))" "m \<in> set (D q)"
        "executed (heap s q)" "q \<notin> E" for q m
    proof
      assume "fst m = x"
      moreover have "snd m = 1" using R(4) [of q m] q by simp
      ultimately have m: "m = (x, 1)" by (cases m) auto
      then obtain q' where q': "q' \<in> live s" "isStore (d_inst (heap s q'))" "(x, 1) \<in> set (D q')"
        using R(7) [of x] dr [OF q] N(1) \<open>fst m = x\<close> by auto
      have "q = q'" using deps_okD(5) [OF C(2), of m q q'] q(3) q'(3) m by simp
      have "k = 1" using R(4) [of d "(x, k)"] R(1) [OF d] n st by simp
      then show False using deps_okD(5) [OF C(2), of m q d] q(3,5) d n m by auto
    qed
    show "\<exists>q\<in>live s. isStore (d_inst (heap s q)) \<and> (z, 1) \<in> set (D q)" if "z \<in> live s" "z \<noteq> x \<and> depsAtRetire (heap s z)" for z
      using R(7) [of z] that by auto
    show "D z = []" "(z, 0) \<notin> nodes D" "(z, 1) \<notin> nodes D" if "pl z = Some (Waiting q)" for z q
      using R(8-10) [of z q] that by auto
    show "executed (heap s z)" if "pl z = Some (Sent q) \<or> pl z = Some (Dying q)" for z q
      using R(11,12) [of z q] that by auto
  qed
  moreover have "stamp_ok D t = stamp_ok D s" unfolding stamp_ok_def h w ..
  moreover have "ports_ok t = ports_ok s" "time_ok t = time_ok s" unfolding ports_ok_def time_ok_def w by simp_all
  ultimately show "core_inv E D pl t" using C by (simp add: core_inv_def)
  show "W t = W s" by (rule W_same) (simp_all add: w rank_def h)
  show "calm s t" by (simp add: calm_def h w)
qed

subsection \<open>The loads that wait for a store\<close>

lemma awake_step:
  assumes g: "good n call" and I: "core_inv E D pl s" and E: "d \<in> E" and w: "W s \<le> Suc n" and D: "D d = (x, k) # ns"
    and st: "isStore (d_inst (heap s d))" and dr: "depsAtRetire (heap s x)"
  shows "\<exists>s1 s2 D'. getNextPending d s = Some (x, s1) \<and> awake_one call d x s1 = Some s2 \<and> core_inv E D' pl s2 \<and>
    W s2 \<le> W s \<and> calm s s2 \<and> (\<forall>q\<in>E. q \<noteq> d \<longrightarrow> D' q = D q) \<and> D' d = ns \<and>
    (\<forall>y. y \<noteq> x \<longrightarrow> depsAtRetire (heap s2 y) = depsAtRetire (heap s y))"
proof -
  let ?D = "D(d := ns)" and ?sc = "upd_d x (\<lambda>z. z\<lparr>depsAtRetire := False\<rparr>) s"
  note C = core_invD [OF I]
  note R = ret_okD [OF C(7)] and N = node_issued [OF I, of x k d]
  have dl: "d \<in> live s" using R(1) [OF E] .
  have n: "(x, k) \<in> set (D d)" using D by simp
  obtain p where x: "x \<in> live s" "issued (heap s x)" "\<not> executed (heap s x)" "pl x = Some (InROB p)"
      "d_resource (heap s x) = Some (p, opcode (d_inst (heap s x)))" "k < 2"
    using N n by auto
  have k: "k = 1" and ld: "isLoad (d_inst (heap s x))" using R(4,5) [OF dl st n] by simp_all
  obtain s1 where s1: "getNextPending d s = Some (x, s1)" "deps_ok ?D s1" "relinked s s1"
    using getNextPending_ok [OF C(2) dl D] by blast
  note r = relinked_simps [OF s1(3)]
  define s2 where "s2 = upd_d x (\<lambda>z. z\<lparr>depsAtRetire := False\<rparr>) s1"
  have lk: "links (heap s2 y) = links (heap s1 y)" for y by (simp add: s2_def)
  have D2: "deps_ok ?D s2" using s1(2) deps_ok_cong [of s2 s1 ?D] lk by (simp add: s2_def)
  have rl: "relinked ?sc s2"
  proof -
    obtain h where h: "s1 = s\<lparr>heap := h\<rparr>" "\<And>y. unlink (h y) = unlink (heap s y)" using s1(3) by (auto simp: relinked_def)
    have "unlink (h x\<lparr>depsAtRetire := False\<rparr>) = (unlink (h x))\<lparr>depsAtRetire := False\<rparr>" by (simp add: unlink_def)
    also have "\<dots> = unlink (heap s x\<lparr>depsAtRetire := False\<rparr>)" using h(2) by (simp add: unlink_def)
    finally show ?thesis
      using h by (auto simp: relinked_def s2_def upd_d_def intro!: exI [of _ "heap s2"])
  qed
  note c = clear_inv [OF I E n st] and F = relinked_frame [OF rl]
  have un: "\<not> isUsed (heap s1 x) 1" using deps_use(2) [OF s1(2), of x 1] nodes_pop [OF C(2) D] x r k by auto
  have hd: "hasDeps x s2 = Some (nDeps (heap s2 x) \<noteq> 0)" using hasDeps_ok [OF D2] x r by (simp add: s2_def)
  have pop: "if nDeps (heap s2 x) = 0 then core_inv E ?D pl (put (SimTimeCB x) s2) \<and> W (put (SimTimeCB x) s2) < W ?sc
      else core_inv E ?D pl s2 \<and> W s2 = W ?sc"
    by (rule pop_inv [OF c(1) E D D2 F]) (use r in \<open>auto simp: s2_def\<close>)
  have cs: "calm s s2" using calm_trans [OF c(3) frame_calm [OF F]] .
  have dk: "depsAtRetire (heap s2 y) = depsAtRetire (heap s y)" if "y \<noteq> x" for y using that r by (simp add: s2_def)
  have aw: "awake_one call d x s1 = (if nDeps (heap s2 x) \<noteq> 0 then Some s2 else Resource_simTime call p (opcode (d_inst (heap s x))) x s2)"
    using x dl st ld dr un r hd by (simp add: awake_one_def clearDepsAtRetire_def s2_def [symmetric])
  show ?thesis
  proof (cases "nDeps (heap s2 x) = 0")
    case False
    then show ?thesis using aw pop c(2) s1(1) cs dk by (intro exI [of _ s1] exI [of _ s2] exI [of _ ?D]) auto
  next
    case True
    have J: "core_inv E ?D pl (put (SimTimeCB x) s2)" "W (put (SimTimeCB x) s2) < W s" using pop True c(2) by auto
    have "fin (W (put (SimTimeCB x) s2) - 1) E ?D pl s2 (Resource_simTime call p (opcode (d_inst (heap s x))) x s2)"
      using w J(2) x(4) r by (intro Resource_simTime_ok [OF g J(1)]) (auto simp: s2_def)
    then obtain s3 D' where s3: "Resource_simTime call p (opcode (d_inst (heap s x))) x s2 = Some s3" "core_inv E D' pl s3"
        "W s3 \<le> W s" "frame s2 s3" "\<forall>q\<in>E. D' q = ?D q"
      using J(2) by (auto simp: fin_def)
    have "depsAtRetire (heap s3 y) = depsAtRetire (heap s y)" if "y \<noteq> x" for y using dk [OF that] frame_simps(14) [OF s3(4)] by simp
    then show ?thesis using aw True s1(1) s3 E calm_trans [OF cs frame_calm [OF s3(4)]]
      by (intro exI [of _ s1] exI [of _ s3] exI [of _ D']) auto
  qed
qed

lemma awakeRemote_ok:
  assumes g: "good n call" and "core_inv E D pl s" and E: "d \<in> E" and "W s \<le> Suc n" and "D d = ns"
    and "ns \<noteq> [] \<Longrightarrow> isStore (d_inst (heap s d))" and "\<And>m. m \<in> set ns \<Longrightarrow> depsAtRetire (heap s (fst m))"
  shows "\<exists>s' D'. awakeRemote call d s = Some s' \<and> core_inv E D' pl s' \<and> W s' \<le> W s \<and> calm s s' \<and>
    (\<forall>q\<in>E. q \<noteq> d \<longrightarrow> D' q = D q) \<and> D' d = []"
  using assms(2,4-)
proof (induction ns arbitrary: s D)
  case Nil
  have dl: "d \<in> live s" using ret_okD(1) [OF core_invD(7) [OF Nil.prems(1)] E] .
  have "d_first (heap s d) = None" using deps_first [OF core_invD(2) [OF Nil.prems(1)] dl] Nil.prems(3) by simp
  then have "awakeRemote call d s = Some s" using dl by (subst awakeRemote.simps) simp
  then show ?case using Nil.prems by (intro exI [of _ s] exI [of _ D]) simp
next
  case (Cons m ns)
  obtain x k where m: "m = (x, k)" by (cases m)
  note C = core_invD [OF Cons.prems(1)]
  have dl: "d \<in> live s" using ret_okD(1) [OF C(7) E] .
  have ff: "d_first (heap s d) = Some m" using deps_first [OF C(2) dl] Cons.prems(3) by simp
  have st: "isStore (d_inst (heap s d))" using Cons.prems(4) by simp
  obtain s1 s2 D' where S: "getNextPending d s = Some (x, s1)" "awake_one call d x s1 = Some s2" "core_inv E D' pl s2"
      "W s2 \<le> W s" "calm s s2" "\<forall>q\<in>E. q \<noteq> d \<longrightarrow> D' q = D q" "D' d = ns"
      "\<forall>y. y \<noteq> x \<longrightarrow> depsAtRetire (heap s2 y) = depsAtRetire (heap s y)"
    using awake_step [OF g Cons.prems(1) E Cons.prems(2), of x k ns] Cons.prems(3) Cons.prems(5) [of m] m st by auto
  have other: "fst j \<noteq> x" if "j \<in> set ns" for j
  proof
    assume "fst j = x"
    moreover have "snd j = 1" "k = 1" using ret_okD(4) [OF C(7) dl st, of j] ret_okD(4) [OF C(7) dl st, of m] that Cons.prems(3) m by auto
    ultimately have "j = m" using m by (cases j) auto
    then show False using deps_okD(4) [OF C(2), of d] Cons.prems(3) that by simp
  qed
  have "\<exists>s' D''. awakeRemote call d s2 = Some s' \<and> core_inv E D'' pl s' \<and> W s' \<le> W s2 \<and> calm s2 s' \<and>
    (\<forall>q\<in>E. q \<noteq> d \<longrightarrow> D'' q = D' q) \<and> D'' d = []"
  proof (rule Cons.IH)
    show "W s2 \<le> Suc n" using S(4) Cons.prems(2) by simp
    show "isStore (d_inst (heap s2 d))" using st S(5) by (simp add: calm_def)
    show "depsAtRetire (heap s2 (fst j))" if "j \<in> set ns" for j using other [OF that] S(8) Cons.prems(5) that by simp
  qed (use S in auto)
  then obtain s' D'' where T: "awakeRemote call d s2 = Some s'" "core_inv E D'' pl s'" "W s' \<le> W s2" "calm s2 s'"
    "\<forall>q\<in>E. q \<noteq> d \<longrightarrow> D'' q = D' q" "D'' d = []" by blast
  have "awakeRemote call d s = Some s'" using dl ff S(1,2) T(1) by (subst awakeRemote.simps) simp
  then show ?case using S T by (intro exI [of _ s'] exI [of _ D'']) (auto intro: calm_trans)
qed

subsection \<open>Destruction\<close>

lemma DInst_destroy_ok:
  assumes g: "good n call" and I: "core_inv E D pl s" and E: "d \<in> E" and w: "W s \<le> Suc n" and p: "pl d = Some (Dying p)"
    and st: "D d \<noteq> [] \<Longrightarrow> isStore (d_inst (heap s d))" "\<And>m. m \<in> set (D d) \<Longrightarrow> depsAtRetire (heap s (fst m))"
  shows "\<exists>s' y D'. DInst_destroy call d s = Some (without d y s') \<and> core_inv (E - {d}) D' (pl(d := None)) (without d y s') \<and>
    W (without d y s') \<le> W s \<and> calm s s' \<and> (D d = [] \<longrightarrow> s' = s)"
proof -
  note C = core_invD [OF I]
  note P = placeD [OF staticD(1) [OF C(1)]] and R = ret_okD [OF C(7)]
  have d: "d \<in> live s" "issued (heap s d)" "executed (heap s d)" "nDeps (heap s d) = 0"
    using R(1,2) [OF E] P(15) [OF p] C(3) by (auto simp: runs_on_def act_ok_def)
  obtain s' D' where s': "awakeRemote call d s = Some s'" "core_inv E D' pl s'" "W s' \<le> W s" "calm s s'" "D' d = []"
    using awakeRemote_ok [OF g I E w refl st] by blast
  have stay: "s' = s" if "D d = []"
  proof -
    have "d_first (heap s d) = None" using deps_first [OF C(2) d(1)] that by simp
    then have "awakeRemote call d s = Some s" using d(1) by (subst awakeRemote.simps) simp
    then show ?thesis using s'(1) by simp
  qed
  note C' = core_invD [OF s'(2)]
  have d': "d \<in> live s'" "executed (heap s' d)" using ret_okD(1,2) [OF C'(7) E] by simp_all
  then have nd: "nDeps (heap s' d) = 0" using C'(3) by (simp add: act_ok_def)
  have f: "d_first (heap s' d) = None" using deps_first [OF C'(2) d'(1)] s'(5) by simp
  let ?y = "(heap s' d)\<lparr>sequenceNum := - 1, coreID := - 1\<rparr>"
  have "DInst_destroy call d s = Some (without d ?y s')"
    using d s'(1) d'(1) nd f by (simp add: DInst_destroy_def scrap_def without_def upd_d_def deref_def)
  moreover have "core_inv (E - {d}) D' (pl(d := None)) (without d ?y s')" "W (without d ?y s') = W s'"
    using without_inv [OF s'(2) p s'(5), of ?y] nd by simp_all
  ultimately show ?thesis using s' stay by (intro exI [of _ s'] exI [of _ ?y] exI [of _ D']) simp
qed

subsection \<open>The acknowledgement of a store\<close>

definition acked :: "nat \<Rightarrow> nat \<Rightarrow> world \<Rightarrow> world" where
  "acked d p s = upd_c p (\<lambda>c. c\<lparr>nOutsStores := nOutsStores c - 1,
     pendingFence := (if nOutsStores c - 1 = 0 then False else pendingFence c)\<rparr>) (s\<lparr>memWrites := memWrites s - {#d#}\<rparr>)"

lemma acked_simps [simp]:
  "now (acked d p s) = now s" "heap (acked d p s) = heap s" "live (acked d p s) = live s" "events (acked d p s) = events s"
  "evs (acked d p s) = evs s" "memReads (acked d p s) = memReads s" "memWrites (acked d p s) = memWrites s - {#d#}"
  "stores (acked d p s) = stores s" "validVAddr (acked d p s) = validVAddr s" "InstTable (acked d p s) = InstTable s"
  "issueNo (acked d p s) = issueNo s" "stamp (acked d p s) = stamp s"
  "units (cores (acked d p s) q) = units (cores s q)" "ROB (cores (acked d p s) q) = ROB (cores s q)"
  "RAT (cores (acked d p s) q) = RAT (cores s q)" "clusters (cores (acked d p s) q) = clusters (cores s q)"
  "gens (cores (acked d p s) q) = gens (cores s q)" "instQueue (cores (acked d p s) q) = instQueue (cores s q)"
  "pipe (cores (acked d p s) q) = pipe (cores s q)" "replayQ (cores (acked d p s) q) = replayQ (cores s q)"
  "regPool (cores (acked d p s) q) = regPool (cores s q)" "freeLoads (cores (acked d p s) q) = freeLoads (cores s q)"
  "freeStores (cores (acked d p s) q) = freeStores (cores s q)" "MaxROBSize (cores (acked d p s) q) = MaxROBSize (cores s q)"
  "spaceInInstQueue (cores (acked d p s) q) = spaceInInstQueue (cores s q)"
  "InstQueueSize (cores (acked d p s) q) = InstQueueSize (cores s q)" "FetchWidth (cores (acked d p s) q) = FetchWidth (cores s q)"
  "inflightInsts (cores (acked d p s) q) = inflightInsts (cores s q)" "instMap (cores (acked d p s) q) = instMap (cores s q)"
  "RetireWidth (cores (acked d p s) q) = RetireWidth (cores s q)"
  "InOrderCore (cores (acked d p s) q) = InOrderCore (cores s q)" "regs (cores (acked d p s) q) = regs (cores s q)"
  "nOutsStores (cores (acked d p s) q) = nOutsStores (cores s q) - of_bool (q = p)"
  "pendingFence (cores (acked d p s) q) \<longleftrightarrow> pendingFence (cores s q) \<and> (q = p \<longrightarrow> nOutsStores (cores s p) \<noteq> 1)"
  "cluster_no q ty (acked d p s) = cluster_no q ty s"
  by (simp_all add: acked_def evs_def cluster_no_def regs_def fun_eq_iff)

lemma card_sent:
  assumes "place_ok pl s" "pl d = Some (Sent p)"
  shows "card {x. pl x = Some (Sent p)} = Suc (card {x. x \<noteq> d \<and> pl x = Some (Sent p)})"
proof -
  have "finite {x. x \<noteq> d \<and> pl x = Some (Sent p)}" by (rule finite_subset [OF _ placeD(1) [OF assms(1)]]) (use placeD(2) [OF assms(1)] in auto)
  moreover have "{x. pl x = Some (Sent p)} = insert d {x. x \<noteq> d \<and> pl x = Some (Sent p)}" using assms(2) by auto
  ultimately show ?thesis by simp
qed

lemma acked_inv:
  assumes I: "core_inv {} D pl s" and d: "pl d = Some (Sent p)"
  shows "core_inv {d} D (pl(d := Some (Dying p))) (acked d p s)" "W (acked d p s) = W s" "0 < nOutsStores (cores s p)"
proof -
  let ?t = "acked d p s" and ?pl = "pl(d := Some (Dying p))"
  note C = core_invD [OF I]
  note S = C(1)
  note P = placeD [OF staticD(1) [OF S]] and R = ret_okD [OF C(7)]
  have dl: "d \<in> live s" using P(2) d by auto
  have cnt: "count_ok pl s" using staticD(2) [OF S] .
  have no: "nOutsStores (cores s q) = int (card {x. pl x = Some (Sent q)})" for q using cnt by (simp add: count_ok_def Let_def)
  show "0 < nOutsStores (cores s p)" using no [of p] card_sent [OF staticD(1) [OF S] d] by simp
  have "place_ok ?pl ?t"
    unfolding place_ok_def acked_simps
  proof (intro conjI allI ballI impI)
    show "finite (live s)" "live s = dom ?pl" using P(1,2) dl by auto
    show "distinct (ROB (cores s q))" for q using P(3) .
    show "set (ROB (cores s q)) = {x. ?pl x = Some (InROB q)}" for q
    proof (rule set_eqI)
      fix x show "x \<in> set (ROB (cores s q)) \<longleftrightarrow> x \<in> {x. ?pl x = Some (InROB q)}" using P(4) [of x q] d by auto
    qed
    show "distinct (concat (instQueue (cores s q)) @ concat (pipe (cores s q)))" for q using P(5) .
    show "{x. ?pl x = Some (Waiting q)} \<subseteq> set (concat (instQueue (cores s q)) @ concat (pipe (cores s q)))" for q
      using P(6) [of _ q] by (auto simp only: fun_upd_apply mem_Collect_eq split: if_splits)
    show "[] \<notin> set (instQueue (cores s q))" "[] \<notin> set (pipe (cores s q))" "replayQ (cores s q) = []" for q
      using P(7-9) [of q] by blast+
    show "count (memWrites s - {#d#}) x = of_bool (\<exists>q. ?pl x = Some (Sent q))" for x using P(10) [of x] d by auto
    show "dyn_ok ?t (heap s x)" if "x \<in> live s" for x using P(11) [OF that] by (simp add: dyn_ok_def)
    show "fresh (heap s x)" if "?pl x = Some (Waiting q)" for x q using P(12) [of x q] that by (auto split: if_splits)
    show "runs_on q (heap s x)" if "?pl x = Some (InROB q) \<or> ?pl x = Some (Sent q) \<or> ?pl x = Some (Dying q)" for x q
      using P(13-15) [of x q] P(14) [OF d] that by (auto split: if_splits)
    show "isStore (d_inst (heap s x)) \<or> isFence (d_inst (heap s x))" if "?pl x = Some (Sent q)" for x q
      using P(16) [of x q] that by (auto split: if_splits)
  qed
  moreover have "count_ok ?pl ?t"
  proof -
    have "int (card {x. ?pl x = Some (Sent q)}) = nOutsStores (cores s q) - of_bool (q = p)" for q
    proof (cases "q = p")
      case True
      have "{x. ?pl x = Some (Sent p)} = {x. x \<noteq> d \<and> pl x = Some (Sent p)}" by auto
      then show ?thesis using True no [of p] card_sent [OF staticD(1) [OF S] d] by simp
    next
      case False
      then have "{x. ?pl x = Some (Sent q)} = {x. pl x = Some (Sent q)}" using d by auto
      then show ?thesis using False no [of q] by simp
    qed
    moreover have "pendingFence (cores ?t q) \<longrightarrow> 0 < nOutsStores (cores ?t q)" for q
      using cnt by (auto simp: count_ok_def Let_def)
    ultimately show ?thesis using cnt unfolding count_ok_def Let_def acked_simps by auto
  qed
  moreover have "lsq_ok ?pl ?t"
  proof -
    have "(\<exists>q. ?pl x = Some (InROB q)) \<longleftrightarrow> (\<exists>q. pl x = Some (InROB q))" for x using d by auto
    then show ?thesis using staticD(3) [OF S] unfolding lsq_ok_def Let_def acked_simps by simp
  qed
  moreover have "conf_ok ?t = conf_ok s" unfolding conf_ok_def acked_simps ..
  ultimately have "static_ok ?pl ?t" using staticD(4) [OF S] by (simp only: static_ok_def)
  moreover have "deps_ok D ?t" using C(2) deps_ok_cong [of ?t s D] by simp
  moreover have "act_ok ?t" using C(3) by (simp add: act_ok_def acts_def ready_def)
  moreover have "win_ok ?t = win_ok s"
    unfolding win_ok_def used_def holds_def unstarted_def is_issued_cb_def acked_simps ..
  moreover have "writer ?t = writer s" by (simp add: fun_eq_iff writer_def dest_def)
  then have "rat_ok ?t = rat_ok s" "dep_ok D ?t = dep_ok D s"
    unfolding rat_ok_def dep_ok_def by (simp_all only: acked_simps)
  moreover have "ret_ok {d} D ?pl ?t"
  proof -
    have "ret_ok {d} D pl s" using core_invD(7) [OF inv_enlarge [OF I dl]] R(11) [OF d] by simp
    moreover have "executed (heap s x)" if "?pl x = Some (Sent q) \<or> ?pl x = Some (Dying q)" for x q
      using R(11,12) [of x q] R(11) [OF d] that by (auto split: if_splits)
    moreover have "D x = [] \<and> (x, 0) \<notin> nodes D \<and> (x, 1) \<notin> nodes D" if "?pl x = Some (Waiting q)" for x q
      using R(8-10) [of x q] that by (auto split: if_splits)
    ultimately show ?thesis by (simp add: ret_ok_def)
  qed
  moreover have "stamp_ok D ?t" using C(8) by (simp add: stamp_ok_def)
  moreover have "ports_ok ?t" "time_ok ?t" using C(9,10) by (simp_all add: ports_ok_def time_ok_def)
  ultimately show "core_inv {d} D ?pl ?t" using C(4-6) by (simp add: core_inv_def)
  show "W ?t = W s" by (rule W_same) (simp_all add: rank_def)
qed

lemma ack_write_ok:
  assumes g: "good n call" and I: "core_inv {} D pl s" and w: "W s \<le> Suc n" and d: "pl d = Some (Sent p)"
  shows "\<exists>s' y D'. ack_write call d (s\<lparr>memWrites := memWrites s - {#d#}\<rparr>) = Some (without d y s') \<and>
    core_inv {} D' (pl(d := None)) (without d y s') \<and> W (without d y s') \<le> W s \<and> calm (acked d p s) s'"
proof -
  note C = core_invD [OF I]
  note P = placeD [OF staticD(1) [OF C(1)]] and R = ret_okD [OF C(7)]
  note A = acked_inv [OF I d]
  have dl: "d \<in> live s" "executed (heap s d)" using P(2) d R(11) [OF d] by auto
  have k: "isStore (d_inst (heap s d)) \<or> isFence (d_inst (heap s d))" using P(16) [OF d] .
  have lf: "\<not> loadForwarded (heap s d)" using P(11) [OF dl(1)] k by (auto simp: dyn_ok_def isLoad_def isStore_def isFence_def)
  have rs: "d_resource (heap s d) = Some (p, opcode (d_inst (heap s d)))" using P(14) [OF d] by (simp add: runs_on_def)
  have cn: "cluster_no p iStore s = cluster_no p (opcode (d_inst (heap s d))) s"
    using k staticD(4) [OF C(1)] by (auto simp: conf_ok_def cluster_no_def isStore_def isFence_def)
  have st: "isStore (d_inst (heap (acked d p s) d))" if "D d \<noteq> []" using R(3) [OF dl] that by auto
  have dr: "depsAtRetire (heap (acked d p s) (fst m))" if "m \<in> set (D d)" for m
    using R(6) [OF dl(1) _ that dl(2)] st that by (cases "D d") auto
  obtain s' y D' where s': "DInst_destroy call d (acked d p s) = Some (without d y s')"
      "core_inv ({d} - {d}) D' ((pl(d := Some (Dying p)))(d := None)) (without d y s')" "W (without d y s') \<le> W (acked d p s)" "calm (acked d p s) s'"
    using DInst_destroy_ok [OF g A(1) _ _ _ st dr] A(2) w by auto
  have "deref d (s\<lparr>memWrites := memWrites s - {#d#}\<rparr>) = Some (heap s d)" using dl by (simp add: deref_def)
  moreover have "cluster_no p ty (s\<lparr>memWrites := memWrites s - {#d#}\<rparr>) = cluster_no p ty s" for ty by (simp add: cluster_no_def)
  ultimately have "ack_write call d (s\<lparr>memWrites := memWrites s - {#d#}\<rparr>) = Some (without d y s')"
    using lf rs cn A(3) dl s'(1) by (simp add: ack_write_def storeCompleted_def acked_def)
  then show ?thesis using s' A(2) by (intro exI [of _ s'] exI [of _ y] exI [of _ D']) simp
qed

end
