(* ===== verification/Core_Retire.thy ===== *)
theory Core_Retire
  imports Core_Awake
begin

text \<open>
  Retirement: the functional units take the head of the reorder buffer back, or refuse to.
\<close>

subsection \<open>Between two steps\<close>

lemma fun_upd_cong: "x = y \<Longrightarrow> f(p := x) = f(p := y)"
  by simp

definition queued :: "(nat \<Rightarrow> place option) \<Rightarrow> world \<Rightarrow> bool" where
  "queued pl s \<longleftrightarrow> (\<forall>p. set (concat (instQueue (cores s p)) @ concat (pipe (cores s p))) = {d. pl d = Some (Waiting p)}) \<and>
     (\<forall>d p. pl d \<noteq> Some (Dying p))"

definition core_ok :: "(nat \<Rightarrow> node list) \<Rightarrow> (nat \<Rightarrow> place option) \<Rightarrow> world \<Rightarrow> bool" where
  "core_ok D pl s \<longleftrightarrow> core_inv {} D pl s \<and> queued pl s"

lemma queued_calm:
  assumes "queued pl s" "calm s s'"
  shows "queued pl s'"
proof -
  have "core_body (cores s' p) = core_body (cores s p)" for p using assms(2) by (simp add: calm_def)
  from core_body_fields [OF this] show ?thesis using assms(1) by (simp add: queued_def)
qed

lemma core_ok_fin:
  assumes "queued pl s" "fin w {} D pl s r"
  shows "\<exists>s' D'. r = Some s' \<and> core_ok D' pl s' \<and> W s' \<le> w \<and> frame s s'"
  using assms queued_calm frame_calm unfolding fin_def core_ok_def by blast

subsection \<open>The head of the reorder buffer\<close>

lemma destroy_plain:
  assumes "d \<in> live s" "issued (heap s d)" "executed (heap s d)" "nDeps (heap s d) = 0" "d_first (heap s d) = None"
  shows "DInst_destroy call d s = Some (without d ((heap s d)\<lparr>sequenceNum := - 1, coreID := - 1\<rparr>) s)"
proof -
  have "awakeRemote call d s = Some s" using assms by (subst awakeRemote.simps) simp
  then show ?thesis using assms by (simp add: DInst_destroy_def scrap_def without_def upd_d_def deref_def)
qed

lemma head_facts:
  assumes I: "core_inv {} D pl s" and R: "ROB (cores s p) = d # rs" and X: "executed (heap s d)"
  shows "d \<in> live s" "issued (heap s d)" "nDeps (heap s d) = 0" "d_resource (heap s d) = Some (p, opcode (d_inst (heap s d)))"
    "pl d = Some (InROB p)" "\<not> isStore (d_inst (heap s d)) \<Longrightarrow> D d = []" "D d = [] \<Longrightarrow> d_first (heap s d) = None"
    "dyn_ok s (heap s d)"
proof -
  note C = core_invD [OF I]
  note P = placeD [OF staticD(1) [OF C(1)]]
  show p: "pl d = Some (InROB p)" using P(4) [of d p] R by simp
  show l: "d \<in> live s" using P(2) p by auto
  show "issued (heap s d)" "d_resource (heap s d) = Some (p, opcode (d_inst (heap s d)))" using P(13) [OF p] by (simp_all add: runs_on_def)
  show "nDeps (heap s d) = 0" using C(3) l X by (simp add: act_ok_def)
  show "\<not> isStore (d_inst (heap s d)) \<Longrightarrow> D d = []" using ret_okD(3) [OF C(7) l X] by simp
  show "D d = [] \<Longrightarrow> d_first (heap s d) = None" using deps_first [OF C(2) l] by simp
  show "dyn_ok s (heap s d)" using P(11) [OF l] .
qed

definition up_win :: "bool \<Rightarrow> nat \<Rightarrow> (nat \<Rightarrow> cluster) \<Rightarrow> nat \<Rightarrow> cluster" where
  "up_win b k cl = (if b then cl(k := (cl k)\<lparr>windowSize := windowSize (cl k) + 1\<rparr>) else cl)"

lemma Cluster_retire_ok:
  assumes I: "core_inv {} D pl s" and R: "ROB (cores s p) = d # rs" and X: "executed (heap s d)"
    and k: "k = cluster_no p (opcode (d_inst (heap s d))) s" and c: "clusters (cores t p) = clusters (cores s p)"
  shows "Cluster_retire p k t = Some (upd_c p (\<lambda>c. c\<lparr>clusters := up_win (recycleAt (clusters (cores s p) k) = AtRetire) k (clusters c)\<rparr>) t)"
proof (cases "recycleAt (clusters (cores s p) k) = AtRetire")
  case True
  have "win_at (clusters (cores s p) k) (used s p k)" using core_invD(4) [OF I] by (simp add: win_ok_def)
  moreover have "holds s p k d" using True k by (simp add: holds_def)
  then have "0 < used s p k" using R by (simp add: used_def)
  ultimately have "windowSize (clusters (cores s p) k) + 1 \<le> MaxWinSize (clusters (cores s p) k)" by (simp add: win_at_def)
  then show ?thesis using True c by (simp add: Cluster_retire_def delEntry_def Let_def upd_cluster_def up_win_def)
next
  case False
  then show ?thesis using c by (simp add: Cluster_retire_def up_win_def upd_c_def)
qed

lemma lsq_remove_ok:
  assumes I: "core_inv {} D pl s" and R: "ROB (cores s p) = d # rs" and m: "isMem (d_inst (heap s d))"
    and t: "live t = live s" "heap t = heap s" "inflightInsts (cores t p) = inflightInsts (cores s p)" "instMap (cores t p) = instMap (cores s p)"
  shows "lsq_remove p d t = Some (upd_c p (\<lambda>c. c\<lparr>instMap := by_word s rs,
    inflightInsts := set (filter (\<lambda>d. isMem (d_inst (heap s d))) rs)\<rparr>) t)"
proof -
  note S = core_invD(1) [OF I]
  note P = placeD [OF staticD(1) [OF S]] and Q = lsq_by_word [OF staticD(3) [OF S]]
  have "pl d = Some (InROB p)" using P(4) [of d p] R by simp
  then have dl: "d \<in> live s" using P(2) by auto
  have dist: "d \<notin> set rs" using P(3) [of p] R by simp
  let ?w = "calcWord (heap s d)"
  let ?ws = "filter (\<lambda>x. calcWord (heap s x) = ?w) (filter (\<lambda>x. isMem (d_inst (heap s x))) rs)"
  have im: "instMap (cores t p) ?w = Some (d # ?ws)" using Q(2) [of p] t(4) R m by (simp add: by_word_def)
  have inf: "inflightInsts (cores t p) = insert d (set (filter (\<lambda>d. isMem (d_inst (heap s d))) rs))" using Q(1) [of p] t(3) R m by simp
  have "(instMap (cores t p))(?w := if ?ws = [] then None else Some ?ws) = by_word s rs"
  proof (rule ext)
    fix w show "((instMap (cores t p))(?w := if ?ws = [] then None else Some ?ws)) w = by_word s rs w"
      using Q(2) [of p] t(4) R m by (cases "w = ?w") (auto simp: by_word_def Let_def)
  qed
  moreover have "insert d (set (filter (\<lambda>d. isMem (d_inst (heap s d))) rs)) - {d} = set (filter (\<lambda>d. isMem (d_inst (heap s d))) rs)"
    using dist by auto
  ultimately show ?thesis using im inf dl t(1,2)
    by (cases "?ws = []") (simp_all add: lsq_remove_def Let_def upd_c_def deref_def)
qed

subsection \<open>What the core looks like afterwards\<close>

definition retired_core :: "nat \<Rightarrow> nat list \<Rightarrow> bool \<Rightarrow> bool \<Rightarrow> int \<Rightarrow> int \<Rightarrow> bool \<Rightarrow> (nat \<Rightarrow> port) \<Rightarrow> world \<Rightarrow> core \<Rightarrow> core" where
  "retired_core d rs sent fl lo st pf g s c =
     (let rp = getDstPool (d_inst (heap s d)); k = u_cluster (units c (opcode (d_inst (heap s d)))) in
      c\<lparr>ROB := rs, regPool := (regPool c)(rp := regPool c rp + 1), freeLoads := lo, freeStores := st,
        nOutsStores := nOutsStores c + of_bool sent, pendingFence := pf,
        inflightInsts := set (filter (\<lambda>d. isMem (d_inst (heap s d))) rs), instMap := by_word s rs,
        clusters := up_win (fl \<and> recycleAt (clusters c k) = AtRetire) k (clusters c), gens := g\<rparr>)"

lemma retired_leaves:
  assumes I: "core_inv {} D pl s" and g: "\<And>k. port_ok (g k)" and f: "freeLoads (cores s p) \<le> lo" "freeStores (cores s p) \<le> st"
    and pf: "pf \<longrightarrow> pendingFence (cores s p) \<or> 0 < nOutsStores (cores s p)"
  shows "leaves p d rs sent fl s (retired_core d rs sent fl lo st pf g s (cores s p))"
proof -
  note C = core_invD [OF I]
  have "\<forall>p. 0 \<le> freeLoads (cores s p) \<and> 0 \<le> freeStores (cores s p) \<and> (pendingFence (cores s p) \<longrightarrow> 0 < nOutsStores (cores s p))"
    using staticD(2) [OF C(1)] by (auto simp: count_ok_def Let_def)
  then have n: "0 \<le> lo" "0 \<le> st" "pf \<longrightarrow> 0 < nOutsStores (cores s p)" using f pf by (force dest: spec [of _ p])+
  have ports: "port_ok (wakeUpPort (clusters (cores s p) k)) \<and> port_ok (schedPort (clusters (cores s p) k))" for k
    using C(9) by (simp add: ports_ok_def)
  show ?thesis using n g ports
    by (auto simp: leaves_def Let_def retired_core_def retire_body_def up_win_def cluster_no_def cluster_body_def)
qed

text \<open>The head is gone, with a request to the memory system (\<open>sent\<close>) or to the pool.\<close>

lemma retired_sent:
  fixes cl :: "nat list" and fl :: bool
  assumes I: "core_inv {} D pl s" and q: "queued pl s" and R: "ROB (cores s p) = d # rs" and X: "executed (heap s d)"
    and g: "\<And>k. port_ok (g k)" and f: "freeLoads (cores s p) \<le> lo" "freeStores (cores s p) \<le> st"
    and pf: "pf \<longrightarrow> pendingFence (cores s p) \<or> 0 < nOutsStores (cores s p)"
    and k: "isStore (d_inst (heap s d)) \<or> isFence (d_inst (heap s d))"
    and sto: "\<And>w. sts w = (if stores s w = Some d then None else stores s w)"
  defines "t \<equiv> left_state p (retired_core d rs True fl lo st pf g s (cores s p)) (add_mset d (memWrites s)) sts cl s"
  shows "core_ok D (pl(d := Some (Sent p))) t" "W t = W s"
proof -
  have "core_inv {} D (pl(d := Some (if True then Sent p else Dying p))) t" "W t = W s"
    unfolding t_def by (rule leave_inv [OF I R X retired_leaves [OF I g f pf]]; simp add: k sto)+
  moreover have "queued (pl(d := Some (Sent p))) t"
    using q head_facts(5) [OF I R X] by (auto simp: queued_def t_def retired_core_def Let_def set_eq_iff split: if_splits)
  ultimately show "core_ok D (pl(d := Some (Sent p))) t" "W t = W s" by (simp_all add: core_ok_def)
qed

lemma retired_gone:
  fixes cl :: "nat list" and fl :: bool
  assumes I: "core_inv {} D pl s" and q: "queued pl s" and R: "ROB (cores s p) = d # rs" and X: "executed (heap s d)"
    and g: "\<And>k. port_ok (g k)" and f: "freeLoads (cores s p) \<le> lo" "freeStores (cores s p) \<le> st"
    and pf: "pf \<longrightarrow> pendingFence (cores s p) \<or> 0 < nOutsStores (cores s p)"
    and e: "D d = []" and no: "\<not> isStore (d_inst (heap s d))" and y: "nDeps y = 0"
  defines "t \<equiv> without d y (left_state p (retired_core d rs False fl lo st pf g s (cores s p)) (memWrites s) (stores s) cl s)"
  shows "core_ok D (pl(d := None)) t" "W t = W s"
proof -
  let ?u = "left_state p (retired_core d rs False fl lo st pf g s (cores s p)) (memWrites s) (stores s) cl s"
  have ns: "stores s w \<noteq> Some d" for w using lsq_by_word(4) [OF staticD(3) [OF core_invD(1) [OF I]], of w d] no by auto
  have u: "core_inv {} D (pl(d := Some (if False then Sent p else Dying p))) ?u" "W ?u = W s"
    by (intro leave_inv [OF I R X retired_leaves [OF I g f pf]]; simp add: ns)+
  have "core_inv ({} - {d}) D ((pl(d := Some (Dying p)))(d := None)) t" "W t = W ?u"
    using without_inv [of "{}" D "pl(d := Some (Dying p))" ?u d p y] u(1) e y by (simp_all add: t_def)
  moreover have "queued (pl(d := None)) t"
    using q head_facts(5) [OF I R X] by (auto simp: queued_def t_def retired_core_def Let_def set_eq_iff split: if_splits)
  ultimately show "core_ok D (pl(d := None)) t" "W t = W s" using u(2) by (simp_all add: core_ok_def)
qed

subsection \<open>The functional units\<close>

text \<open>The end of an iteration of the loop of \<open>retire\<close>.\<close>

definition pop_rob :: "nat \<Rightarrow> nat \<Rightarrow> world \<Rightarrow> world" where
  "pop_rob p rp = upd_c p (\<lambda>c. c\<lparr>regPool := (regPool c)(rp := regPool c rp + 1), ROB := tl (ROB c)\<rparr>)"

text \<open>What a store or a fence at the head waits for.\<close>

definition gate :: "nat \<Rightarrow> nat \<Rightarrow> world \<Rightarrow> bool" where
  "gate p d s \<longleftrightarrow> getNextFreeCycle (cores s p) \<le> now s \<and> canAcceptStore (cores s p) (d_vaddr (heap s d)) \<and>
     \<not> pendingFence (cores s p)"

definition retires :: "(nat \<Rightarrow> place option) \<Rightarrow> nat \<Rightarrow> nat \<Rightarrow> world \<Rightarrow> (bool \<times> world) option \<Rightarrow> bool" where
  "retires pl p d s r \<longleftrightarrow> (\<exists>ok s1. r = Some (ok, s1) \<and> (\<not> ok \<longrightarrow> s1 = s \<and> \<not> gate p d s) \<and>
     (ok \<longrightarrow> (\<exists>D' z. core_ok D' (pl(d := z)) (pop_rob p (getDstPool (d_inst (heap s d))) s1) \<and>
        W (pop_rob p (getDstPool (d_inst (heap s d))) s1) = W s \<and> (z = None \<or> z = Some (Sent p)))))"

lemma retiresI:
  assumes "r = Some (True, s1)" "core_ok D' (pl(d := z)) (pop_rob p (getDstPool (d_inst (heap s d))) s1)"
    "W (pop_rob p (getDstPool (d_inst (heap s d))) s1) = W s" "z = None \<or> z = Some (Sent p)"
  shows "retires pl p d s r"
  unfolding retires_def using assms by (intro exI [of _ True] exI [of _ s1] conjI impI exI [of _ D'] exI [of _ z]) simp_all

lemma retires_no: "\<not> gate p d s \<Longrightarrow> retires pl p d s (Some (False, s))"
  unfolding retires_def by (intro exI [of _ False] exI [of _ s]) simp

lemma retires_gone:
  assumes I: "core_inv {} D pl s" and q: "queued pl s" and R: "ROB (cores s p) = d # rs" and X: "executed (heap s d)"
    and g: "\<And>k. port_ok (g k)" and f: "freeLoads (cores s p) \<le> lo" "freeStores (cores s p) \<le> st"
    and pf: "pf \<longrightarrow> pendingFence (cores s p) \<or> 0 < nOutsStores (cores s p)" and no: "\<not> isStore (d_inst (heap s d))"
    and t: "pop_rob p (getDstPool (d_inst (heap s d))) t =
      left_state p (retired_core d rs False fl lo st pf g s (cores s p)) (memWrites s) (stores s) cl s"
  shows "retires pl p d s (do { s2 \<leftarrow> DInst_destroy call d t; Some (True, s2) })"
proof -
  note h = head_facts [OF I R X]
  have D: "D d = []" using h(6) no by simp
  let ?rp = "getDstPool (d_inst (heap s d))" and ?y = "(heap t d)\<lparr>sequenceNum := - 1, coreID := - 1\<rparr>"
  have e: "heap t = heap s" "live t = live s" using arg_cong [OF t, of heap] arg_cong [OF t, of live] by (simp_all add: pop_rob_def)
  have "DInst_destroy call d t = Some (without d ?y t)" using h(1-4) h(7) [OF D] X by (intro destroy_plain) (simp_all add: e)
  moreover have "pop_rob p ?rp (without d ?y t) = without d ?y (pop_rob p ?rp t)" by (simp add: pop_rob_def without_def upd_c_def)
  moreover have "nDeps ?y = 0" using h(3) by (simp add: e)
  ultimately show ?thesis
    using retired_gone [OF I q R X g f pf D no, where y = ?y and fl = fl and cl = cl] t
    by (intro retiresI [of _ "without d ?y t" D _ _ None]) simp_all
qed

lemma retires_sent:
  assumes I: "core_inv {} D pl s" and q: "queued pl s" and R: "ROB (cores s p) = d # rs" and X: "executed (heap s d)"
    and g: "\<And>k. port_ok (g k)" and f: "freeLoads (cores s p) \<le> lo" "freeStores (cores s p) \<le> st"
    and pf: "pf \<longrightarrow> pendingFence (cores s p) \<or> 0 < nOutsStores (cores s p)"
    and k: "isStore (d_inst (heap s d)) \<or> isFence (d_inst (heap s d))"
    and sto: "\<And>w. sts w = (if stores s w = Some d then None else stores s w)"
    and t: "pop_rob p (getDstPool (d_inst (heap s d))) t =
      left_state p (retired_core d rs True fl lo st pf g s (cores s p)) (add_mset d (memWrites s)) sts cl s"
  shows "retires pl p d s (Some (True, t))"
  using retired_sent [OF I q R X g f pf k sto, where fl = fl and cl = cl] t
  by (intro retiresI [of _ t D _ _ "Some (Sent p)"]) simp_all

lemma gens_ok: "core_inv {} D pl s \<Longrightarrow> port_ok (gens (cores s p) k)"
  using core_invD(9) by (simp add: ports_ok_def)

lemma base_retire_ok:
  assumes I: "core_inv {} D pl s" and q: "queued pl s" and R: "ROB (cores s p) = d # rs" and X: "executed (heap s d)"
    and ty: "ty = opcode (d_inst (heap s d))" "ty \<noteq> iLoad" "ty \<noteq> iStore"
  shows "retires pl p d s (Resource_retire_base call p ty d s)"
proof -
  let ?k = "cluster_no p ty s"
  let ?t = "upd_c p (\<lambda>c. c\<lparr>clusters := up_win (recycleAt (clusters (cores s p) ?k) = AtRetire) ?k (clusters c)\<rparr>) s"
  have m: "\<not> isMem (d_inst (heap s d))" "\<not> isStore (d_inst (heap s d))" using ty by (simp_all add: isMem_def isLoad_def isStore_def)
  have lsq: "inflightInsts (cores s p) = set (filter (\<lambda>d. isMem (d_inst (heap s d))) rs)" "instMap (cores s p) = by_word s rs"
    using lsq_by_word(1,2) [OF staticD(3) [OF core_invD(1) [OF I]], of p] R m by (simp_all add: by_word_def fun_eq_iff)
  have "pop_rob p (getDstPool (d_inst (heap s d))) ?t = left_state p (retired_core d rs False True (freeLoads (cores s p))
      (freeStores (cores s p)) (pendingFence (cores s p)) (gens (cores s p)) s (cores s p)) (memWrites s) (stores s) (called s) s"
    using R ty(1) lsq unfolding pop_rob_def left_state_def retired_core_def upd_c_def Let_def cluster_no_def
    by (intro world.equality core.equality ext) (auto intro!: core.equality)
  then have "retires pl p d s (do { s2 \<leftarrow> DInst_destroy call d ?t; Some (True, s2) })"
    using m by (intro retires_gone [OF I q R X gens_ok [OF I, of p] order_refl order_refl]) simp_all
  then show ?thesis using Cluster_retire_ok [OF I R X, of ?k s] ty by (simp add: Resource_retire_base_def)
qed

lemma load_retire_ok:
  assumes I: "core_inv {} D pl s" and q: "queued pl s" and R: "ROB (cores s p) = d # rs" and X: "executed (heap s d)"
    and ty: "opcode (d_inst (heap s d)) = iLoad"
  shows "retires pl p d s (FULoad_retire call p d s)"
proof -
  let ?k = "cluster_no p iLoad s" and ?rm = "\<lambda>c. c\<lparr>instMap := by_word s rs, inflightInsts := set (filter (\<lambda>d. isMem (d_inst (heap s d))) rs)\<rparr>"
  let ?t1 = "upd_c p (\<lambda>c. c\<lparr>clusters := up_win (recycleAt (clusters (cores s p) ?k) = AtRetire) ?k (clusters c)\<rparr>) s"
  let ?t = "upd_c p (\<lambda>c. c\<lparr>freeLoads := freeLoads c + 1\<rparr>) (upd_c p ?rm ?t1)"
  have m: "isMem (d_inst (heap s d))" "\<not> isStore (d_inst (heap s d))" using ty by (simp_all add: isMem_def isLoad_def isStore_def)
  have t: "pop_rob p (getDstPool (d_inst (heap s d))) ?t = left_state p (retired_core d rs False True (freeLoads (cores s p) + 1)
      (freeStores (cores s p)) (pendingFence (cores s p)) (gens (cores s p)) s (cores s p)) (memWrites s) (stores s) (called s) s"
    using R ty unfolding pop_rob_def left_state_def retired_core_def upd_c_def Let_def cluster_no_def
    by (intro world.equality core.equality ext) (auto intro!: core.equality)
  have "retires pl p d s (do { s2 \<leftarrow> DInst_destroy call d ?t; Some (True, s2) })"
    by (rule retires_gone [OF I q R X gens_ok [OF I, of p] _ order_refl _ m(2) t]) simp_all
  moreover have "Cluster_retire p ?k s = Some ?t1" using ty by (intro Cluster_retire_ok [OF I R X]) simp_all
  moreover have "lsq_remove p d ?t1 = Some (upd_c p ?rm ?t1)" by (rule lsq_remove_ok [OF I R m(1)]) simp_all
  ultimately show ?thesis by (simp add: FULoad_retire_def)
qed

lemma storeLocallyPerformed_ok:
  assumes "d \<in> live t" "isStore (d_inst (heap t d))" "stores t (calcWord (heap t d)) = Some d \<longrightarrow> sts = (stores t)(calcWord (heap t d) := None)"
    "stores t (calcWord (heap t d)) \<noteq> Some d \<longrightarrow> sts = stores t"
  shows "storeLocallyPerformed d t = Some (t\<lparr>stores := sts\<rparr>)"
  using assms by (simp add: storeLocallyPerformed_def)

lemma store_retire_ok:
  assumes I: "core_inv {} D pl s" and q: "queued pl s" and R: "ROB (cores s p) = d # rs" and X: "executed (heap s d)"
    and ty: "opcode (d_inst (heap s d)) = iStore"
  shows "retires pl p d s (FUStore_retire call p d s)"
proof -
  note h = head_facts [OF I R X] and S = core_invD(1) [OF I]
  have st: "isStore (d_inst (heap s d))" "isMem (d_inst (heap s d))" using ty by (simp_all add: isMem_def isStore_def)
  have da: "\<not> deadInst (heap s d)" "validVAddr s (d_vaddr (heap s d))" using h(8) st by (simp_all add: dyn_ok_def)
  consider "now s < getNextFreeCycle (cores s p) \<or> \<not> canAcceptStore (cores s p) (d_vaddr (heap s d)) \<or> pendingFence (cores s p)"
    | (go) "\<not> (now s < getNextFreeCycle (cores s p) \<or> \<not> canAcceptStore (cores s p) (d_vaddr (heap s d)) \<or> pendingFence (cores s p))"
    by blast
  then show ?thesis
  proof cases
    case 1
    then have "FUStore_retire call p d s = Some (False, s)" "\<not> gate p d s" using h(1) da by (auto simp: FUStore_retire_def gate_def)
    then show ?thesis using retires_no by simp
  next
    case go
    let ?s0 = "storeSent p s" and ?k = "cluster_no p iStore s" and ?g = "u_gen (units (cores s p) iStore)"
    let ?rm = "\<lambda>c. c\<lparr>instMap := by_word s rs, inflightInsts := set (filter (\<lambda>d. isMem (d_inst (heap s d))) rs)\<rparr>"
    let ?up = "\<lambda>c. c\<lparr>clusters := up_win (recycleAt (clusters (cores s p) ?k) = AtRetire) ?k (clusters c)\<rparr>"
    let ?sts = "\<lambda>w. if stores s w = Some d then None else stores s w"
    obtain t g where g: "Port_nextSlot (now s) (gens (cores s p) ?g) = Some (t, g)" "port_ok g"
      using port_nextSlot_ok [OF gens_ok [OF I, of p ?g], of "now s"] by auto
    define cl where "cl = (case pendEvent (heap s d) of None \<Rightarrow> called s | Some cb \<Rightarrow> called s @ [cb])"
    let ?s1 = "upd_c p (\<lambda>c. c\<lparr>gens := (gens c)(?g := g)\<rparr>) ?s0"
    let ?s3 = "?s1\<lparr>called := cl, memWrites := add_mset d (memWrites s)\<rparr>"
    let ?s4 = "upd_c p (\<lambda>c. c\<lparr>freeStores := freeStores c + 1\<rparr>) (upd_c p ?rm ((upd_c p ?up ?s3)\<lparr>stores := ?sts\<rparr>))"
    have slot: "gen_nextSlot p iStore ?s0 = Some (t, ?s1)" using g(1) by (simp add: gen_nextSlot_def storeSent_def)
    have s2: "(case pendEvent (heap s d) of None \<Rightarrow> ?s1 | Some cb \<Rightarrow> ?s1\<lparr>called := called ?s1 @ [cb]\<rparr>) = ?s1\<lparr>called := cl\<rparr>"
      by (simp add: cl_def storeSent_def split: option.split)
    have cw: "create_write call d (?s1\<lparr>called := cl\<rparr>) = Some ?s3"
      using h(1) da by (simp add: create_write_def storeSent_def deref_def)
    have nst: "stores s w \<noteq> Some d" if "w \<noteq> calcWord (heap s d)" for w
      using lsq_by_word(5) [OF staticD(3) [OF S], of w d] that by auto
    have do: "FUStore_doRetire p d ?s3 = Some ?s4"
    proof -
      have "cluster_no p iStore ?s3 = ?k" by (simp add: cluster_no_def storeSent_def)
      moreover have "Cluster_retire p ?k ?s3 = Some (upd_c p ?up ?s3)"
        using ty by (intro Cluster_retire_ok [OF I R X]) (simp_all add: storeSent_def)
      moreover have "storeLocallyPerformed d (upd_c p ?up ?s3) = Some ((upd_c p ?up ?s3)\<lparr>stores := ?sts\<rparr>)"
      proof (rule storeLocallyPerformed_ok)
        have "?sts w = (if w = calcWord (heap s d) \<and> stores s w = Some d then None else stores s w)" for w
          using nst [of w] by (cases "w = calcWord (heap s d)") simp_all
        then show "stores (upd_c p ?up ?s3) (calcWord (heap (upd_c p ?up ?s3) d)) = Some d \<longrightarrow>
            ?sts = (stores (upd_c p ?up ?s3))(calcWord (heap (upd_c p ?up ?s3) d) := None)"
          "stores (upd_c p ?up ?s3) (calcWord (heap (upd_c p ?up ?s3) d)) \<noteq> Some d \<longrightarrow> ?sts = stores (upd_c p ?up ?s3)"
          by (auto simp: storeSent_def fun_eq_iff)
      qed (use st(1) h(1) in \<open>simp_all add: storeSent_def\<close>)
      moreover have "lsq_remove p d ((upd_c p ?up ?s3)\<lparr>stores := ?sts\<rparr>) = Some (upd_c p ?rm ((upd_c p ?up ?s3)\<lparr>stores := ?sts\<rparr>))"
        by (rule lsq_remove_ok [OF I R st(2)]) (simp_all add: storeSent_def)
      ultimately show ?thesis by (simp add: FUStore_doRetire_def)
    qed
    have t4: "pop_rob p (getDstPool (d_inst (heap s d))) ?s4 = left_state p (retired_core d rs True True (freeLoads (cores s p))
        (freeStores (cores s p) + 1) (pendingFence (cores s p)) ((gens (cores s p))(?g := g)) s (cores s p))
        (add_mset d (memWrites s)) ?sts cl s"
      using R ty
      by (simp add: pop_rob_def left_state_def retired_core_def upd_c_def Let_def cluster_no_def storeSent_def)
        (intro world.equality arg_cong [where f = "fun_upd (cores s) p"]; simp; intro fun_upd_cong core.equality; simp)
    have "retires pl p d s (Some (True, ?s4))"
      by (rule retires_sent [OF I q R X _ order_refl _ _ _ _ t4]) (use gens_ok [OF I, of p] g(2) st in auto)
    moreover have "FUStore_retire call p d s = Some (True, ?s4)"
      using go h(1) da slot s2 cw do by (simp add: FUStore_retire_def Let_def)
    ultimately show ?thesis by simp
  qed
qed

lemma fence_retire_ok:
  assumes I: "core_inv {} D pl s" and q: "queued pl s" and R: "ROB (cores s p) = d # rs" and X: "executed (heap s d)"
    and ty: "opcode (d_inst (heap s d)) = iFence"
  shows "retires pl p d s (FUMemory_retire call p d s)"
proof -
  note h = head_facts [OF I R X] and S = core_invD(1) [OF I]
  let ?sc = "subCode (d_inst (heap s d))"
  have cn: "cluster_no p iStore s = cluster_no p iFence s" using staticD(4) [OF S] by (simp add: conf_ok_def cluster_no_def)
  have m: "isFence (d_inst (heap s d))" "\<not> isMem (d_inst (heap s d))" "\<not> isStore (d_inst (heap s d))"
    using ty by (simp_all add: isMem_def isLoad_def isStore_def isFence_def)
  have sc: "?sc \<in> {iFetchOp, iMemFence, iAcquire, iRelease}" "validVAddr s (d_vaddr (heap s d))"
    using h(8) m(1) by (simp_all add: dyn_ok_def instr_ok_def)
  have lsq: "inflightInsts (cores s p) = set (filter (\<lambda>d. isMem (d_inst (heap s d))) rs)" "instMap (cores s p) = by_word s rs"
    using lsq_by_word(1,2) [OF staticD(3) [OF S], of p] R m by (simp_all add: by_word_def fun_eq_iff)
  have ns: "stores s w \<noteq> Some d" for w using lsq_by_word(4) [OF staticD(3) [OF S], of w d] m(3) by auto
  show ?thesis
  proof (cases "?sc = iFetchOp")
    case True
    show ?thesis
    proof (cases "\<not> canAcceptStore (cores s p) (d_vaddr (heap s d)) \<or> pendingFence (cores s p)")
      case no: True
      then have "FUMemory_retire call p d s = Some (False, s)" "\<not> gate p d s" using h(1) True cn by (auto simp: FUMemory_retire_def Let_def gate_def)
      then show ?thesis using retires_no by simp
    next
      case False
      let ?t = "(storeSent p s)\<lparr>memWrites := add_mset d (memWrites s)\<rparr>"
      have t: "pop_rob p (getDstPool (d_inst (heap s d))) ?t = left_state p (retired_core d rs True False (freeLoads (cores s p))
          (freeStores (cores s p)) (pendingFence (cores s p)) (gens (cores s p)) s (cores s p)) (add_mset d (memWrites s)) (stores s) (called s) s"
        using R lsq unfolding pop_rob_def left_state_def retired_core_def upd_c_def Let_def cluster_no_def storeSent_def
        by (intro world.equality core.equality ext) (auto intro!: core.equality simp: up_win_def)
      have "retires pl p d s (Some (True, ?t))"
        by (rule retires_sent [OF I q R X gens_ok [OF I, of p] order_refl order_refl _ _ _ t]) (simp_all add: m ns)
      moreover have "FUMemory_retire call p d s = Some (True, ?t)"
        using False True cn h(1) sc(2) by (simp add: FUMemory_retire_def create_write_def storeSent_def deref_def Let_def)
      ultimately show ?thesis by simp
    qed
  next
    case nf: False
    have gone: "retires pl p d s (do { s2 \<leftarrow> DInst_destroy call d t; Some (True, s2) })"
      if t: "t = upd_c p (\<lambda>c. c\<lparr>pendingFence := pf\<rparr>) s" and pf: "pf \<longrightarrow> pendingFence (cores s p) \<or> 0 < nOutsStores (cores s p)" for t pf
    proof -
      have "pop_rob p (getDstPool (d_inst (heap s d))) t = left_state p (retired_core d rs False False (freeLoads (cores s p))
          (freeStores (cores s p)) pf (gens (cores s p)) s (cores s p)) (memWrites s) (stores s) (called s) s"
        using R lsq unfolding t pop_rob_def left_state_def retired_core_def upd_c_def Let_def cluster_no_def
        by (intro world.equality core.equality ext) (auto intro!: core.equality simp: up_win_def)
      then show ?thesis by (intro retires_gone [OF I q R X gens_ok [OF I, of p] order_refl order_refl pf m(3)])
    qed
    show ?thesis
    proof (cases "?sc = iMemFence")
      case True
      have "retires pl p d s (do { s2 \<leftarrow> DInst_destroy call d (doFence p s); Some (True, s2) })"
        by (rule gone [of _ "if 0 < nOutsStores (cores s p) then True else pendingFence (cores s p)"]) (simp_all add: doFence_def upd_c_def)
      then show ?thesis using True nf cn h(1) by (simp add: FUMemory_retire_def Let_def)
    next
      case False
      have "retires pl p d s (do { s2 \<leftarrow> DInst_destroy call d s; Some (True, s2) })"
        by (rule gone [of _ "pendingFence (cores s p)"]) (simp_all add: upd_c_def)
      then show ?thesis using False nf sc h(1) by (auto simp: FUMemory_retire_def Let_def)
    qed
  qed
qed

lemma Resource_retire_ok:
  assumes "core_inv {} D pl s" "queued pl s" "ROB (cores s p) = d # rs" "executed (heap s d)" "ty = opcode (d_inst (heap s d))"
  shows "retires pl p d s (Resource_retire call p ty d s)"
  using load_retire_ok [OF assms(1-4), of call] store_retire_ok [OF assms(1-4), of call] fence_retire_ok [OF assms(1-4), of call]
    base_retire_ok [OF assms, of call] assms(5)
  by (simp add: Resource_retire_def)

subsection \<open>The loop\<close>

lemma core_ok_pop_now: "now (pop_rob p rp s) = now s"
  by (simp add: pop_rob_def)

text \<open>Instructions leave the reorder buffer of \<open>p\<close>, for the memory system or for the pool.\<close>

definition left_rob :: "nat \<Rightarrow> (nat \<Rightarrow> place option) \<Rightarrow> (nat \<Rightarrow> place option) \<Rightarrow> bool" where
  "left_rob p pl pl' \<longleftrightarrow> (\<forall>d. pl' d = pl d \<or> pl d = Some (InROB p) \<and> (pl' d = None \<or> pl' d = Some (Sent p)))"

lemma left_rob_refl [simp]: "left_rob p pl pl"
  by (simp add: left_rob_def)

lemma left_rob_step: "pl d = Some (InROB p) \<Longrightarrow> z = None \<or> z = Some (Sent p) \<Longrightarrow> left_rob p (pl(d := z)) pl' \<Longrightarrow>
    left_rob p pl pl' \<and> pl' d = z"
  unfolding left_rob_def by (metis fun_upd_apply option.distinct(1) option.inject place.distinct(7))

lemma retire_loop_ok:
  assumes "core_ok D pl s"
  shows "\<exists>s' D' pl'. retire_loop call p n s = Some s' \<and> core_ok D' pl' s' \<and> W s' = W s \<and> left_rob p pl pl' \<and>
    (\<forall>h hs. 0 < n \<longrightarrow> ROB (cores s p) = h # hs \<longrightarrow> executed (heap s h) \<longrightarrow> gate p h s \<longrightarrow> pl' h \<noteq> pl h)"
  using assms
proof (induction n arbitrary: D pl s)
  case 0
  then show ?case by (intro exI [of _ s] exI [of _ D] exI [of _ pl]) simp
next
  case (Suc n)
  have I: "core_inv {} D pl s" and q: "queued pl s" using Suc.prems by (simp_all add: core_ok_def)
  have stay: ?case if "retire_loop call p (Suc n) s = Some s"
    "\<And>h hs. ROB (cores s p) = h # hs \<Longrightarrow> executed (heap s h) \<Longrightarrow> \<not> gate p h s"
    using that Suc.prems by (intro exI [of _ s] exI [of _ D] exI [of _ pl]) simp
  show ?case
  proof (cases "ROB (cores s p)")
    case Nil
    then show ?thesis by (intro stay) simp_all
  next
    case (Cons d rs)
    note P = placeD [OF staticD(1) [OF core_invD(1) [OF I]]]
    have l: "d \<in> live s" using P(2) P(4) [of d p] Cons by auto
    show ?thesis
    proof (cases "executed (heap s d)")
      case False
      then show ?thesis using Cons l by (intro stay) simp_all
    next
      case True
      note h = head_facts [OF I Cons True]
      let ?pop = "pop_rob p (getDstPool (d_inst (heap s d)))"
      obtain ok s1 where r: "Resource_retire call p (opcode (d_inst (heap s d))) d s = Some (ok, s1)" "\<not> ok \<longrightarrow> s1 = s \<and> \<not> gate p d s"
          "ok \<longrightarrow> (\<exists>D' z. core_ok D' (pl(d := z)) (?pop s1) \<and> W (?pop s1) = W s \<and> (z = None \<or> z = Some (Sent p)))"
        using Resource_retire_ok [OF I q Cons True refl, of call] unfolding retires_def by blast
      have e: "retire_loop call p (Suc n) s = (if \<not> ok then Some s1 else retire_loop call p n (?pop s1))"
        using Cons l True h(4) r(1) by (simp add: Let_def pop_rob_def)
      show ?thesis
      proof (cases ok)
        case False
        then show ?thesis using e r(2) Cons by (intro stay) simp_all
      next
        case True
        then obtain D' z where z: "core_ok D' (pl(d := z)) (?pop s1)" "W (?pop s1) = W s" "z = None \<or> z = Some (Sent p)" using r(3) by blast
        obtain s' D'' pl' where s': "retire_loop call p n (?pop s1) = Some s'" "core_ok D'' pl' s'" "W s' = W (?pop s1)"
          "left_rob p (pl(d := z)) pl'" using Suc.IH [OF z(1)] by blast
        have m: "left_rob p pl pl'" "pl' d = z" using left_rob_step [OF h(5) z(3) s'(4)] by simp_all
        then have "pl' d \<noteq> pl d" using z(3) h(5) by auto
        then show ?thesis using s' e True z(2) m Cons by (intro exI [of _ s'] exI [of _ D''] exI [of _ pl']) simp
      qed
    qed
  qed
qed

end
