(* ===== verification/Core_Issue.thy ===== *)
theory Core_Issue
  imports Core_Retire
begin

text \<open>
  Issue: an instruction of the queue gets its entries, is appended to the reorder buffer, and is
  put into the lists of the producers of its sources. \<open>hs\<close> are the nodes that are appended, with the
  instructions to whose lists they go.
\<close>

subsection \<open>The lists after an issue\<close>

definition hook :: "nat \<Rightarrow> (nat \<times> nat) list \<Rightarrow> (nat \<Rightarrow> node list) \<Rightarrow> nat \<Rightarrow> node list" where
  "hook d hs D q = D q @ map (\<lambda>h. (d, snd h)) (filter (\<lambda>h. fst h = q) hs)"

lemma hook_Nil [simp]: "hook d [] D = D"
  by (simp add: hook_def fun_eq_iff)

lemma hook_snoc: "hook d (hs @ [(q, k)]) D = (hook d hs D)(q := hook d hs D q @ [(d, k)])"
  by (auto simp: hook_def fun_eq_iff)

lemma hook_set: "n \<in> set (hook d hs D q) \<longleftrightarrow> n \<in> set (D q) \<or> (fst n = d \<and> (q, snd n) \<in> set hs)"
  by (cases n) (auto simp: hook_def image_iff)

lemma hook_nodes: "n \<in> nodes (hook d hs D) \<longleftrightarrow> n \<in> nodes D \<or> (fst n = d \<and> (\<exists>q. (q, snd n) \<in> set hs))"
  unfolding nodes_def by (auto simp: hook_set)

lemma hook_other: "(\<And>h. h \<in> set hs \<Longrightarrow> fst h \<noteq> q) \<Longrightarrow> hook d hs D q = D q"
  by (simp add: hook_def filter_empty_conv)

text \<open>What the instruction \<open>d\<close> is hooked to.\<close>

definition hooks_ok :: "world \<Rightarrow> nat \<Rightarrow> nat \<Rightarrow> dinst \<Rightarrow> (nat \<times> nat) list \<Rightarrow> bool" where
  "hooks_ok s p d x hs \<longleftrightarrow>
     (\<forall>(q, k)\<in>set hs. q \<in> live s \<and> q \<noteq> d \<and> issued (heap s q) \<and>
        (\<not> isStore (d_inst (heap s q)) \<longrightarrow> \<not> executed (heap s q)) \<and>
        (isStore (d_inst (heap s q)) \<longrightarrow> k = 1 \<and> isLoad (d_inst (heap s d)) \<and> (executed (heap s q) \<longrightarrow> depsAtRetire x))) \<and>
     (depsAtRetire x \<longrightarrow> (\<exists>q. (q, 1) \<in> set hs \<and> isStore (d_inst (heap s q)))) \<and>
     (\<forall>q. RAT (cores s p) (getSrc1 (d_inst (heap s d))) = Some q \<longrightarrow> (q, 0) \<in> set hs) \<and>
     (\<forall>q. RAT (cores s p) (getSrc2 (d_inst (heap s d))) = Some q \<longrightarrow> (q, 1) \<in> set hs)"

subsection \<open>The state after an issue\<close>

definition issue_body :: "core \<Rightarrow> core" where
  "issue_body c = c\<lparr>ROB := [], regPool := \<lambda>_. 0, freeLoads := 0, freeStores := 0, freeBranches := 0, sequenceCount := 0,
     RAT := \<lambda>_. None, inflightInsts := {}, instMap := \<lambda>_. None, clusters := undefined\<rparr>"

lemma issue_body_fields:
  assumes "issue_body x = issue_body y"
  shows "FetchWidth x = FetchWidth y" "InstQueueSize x = InstQueueSize y" "InOrderCore x = InOrderCore y"
    "MaxROBSize x = MaxROBSize y" "intRegs x = intRegs y" "fpRegs x = fpRegs y" "units x = units y"
    "replayQ x = replayQ y" "pipe x = pipe y" "instQueue x = instQueue y" "spaceInInstQueue x = spaceInInstQueue y"
    "nOutsStores x = nOutsStores y" "pendingFence x = pendingFence y" "gens x = gens y"
    "RetireWidth x = RetireWidth y"
  using arg_cong [OF assms, of FetchWidth] arg_cong [OF assms, of InstQueueSize] arg_cong [OF assms, of InOrderCore]
    arg_cong [OF assms, of MaxROBSize] arg_cong [OF assms, of intRegs] arg_cong [OF assms, of fpRegs]
    arg_cong [OF assms, of units] arg_cong [OF assms, of replayQ] arg_cong [OF assms, of pipe]
    arg_cong [OF assms, of instQueue] arg_cong [OF assms, of spaceInInstQueue] arg_cong [OF assms, of nOutsStores]
    arg_cong [OF assms, of pendingFence] arg_cong [OF assms, of gens]
    arg_cong [OF assms, of RetireWidth]
  by (simp_all add: issue_body_def)

definition core_issued :: "nat \<Rightarrow> world \<Rightarrow> core \<Rightarrow> core \<Rightarrow> bool" where
  "core_issued d s c0 c \<longleftrightarrow>
     (let i = d_inst (heap s d); rp = getDstPool i; kk = u_cluster (units c0 (opcode i)) in
      issue_body c = issue_body c0 \<and> ROB c = ROB c0 @ [d] \<and> length (ROB c0) < MaxROBSize c0 \<and>
      regPool c = (regPool c0)(rp := regPool c0 rp - 1) \<and> 0 < regPool c0 rp \<and>
      0 \<le> freeLoads c \<and> 0 \<le> freeStores c \<and> RAT c = (RAT c0)(getDest i \<mapsto> d) \<and>
      inflightInsts c = set (filter (\<lambda>d. isMem (d_inst (heap s d))) (ROB c0 @ [d])) \<and> instMap c = by_word s (ROB c0 @ [d]) \<and>
      0 < windowSize (clusters c0 kk) \<and>
      clusters c = (clusters c0)(kk := (clusters c0 kk)\<lparr>windowSize := windowSize (clusters c0 kk) - 1\<rparr>))"

text \<open>The fields of an instruction other than the links and \<open>deadStore\<close>.\<close>

definition same_inst :: "dinst \<Rightarrow> dinst \<Rightarrow> bool" where
  "same_inst x y \<longleftrightarrow> d_inst x = d_inst y \<and> d_vaddr x = d_vaddr y \<and> d_cId x = d_cId y \<and> issued x = issued y \<and>
     executed x = executed y \<and> depsAtRetire x = depsAtRetire y \<and> loadForwarded x = loadForwarded y \<and>
     deadInst x = deadInst y \<and> wakeUpTime x = wakeUpTime y \<and> d_resource x = d_resource y \<and>
     RATEntry x = RATEntry y \<and> pendEvent x = pendEvent y"

definition now_issued :: "nat \<Rightarrow> dinst \<Rightarrow> dinst \<Rightarrow> bool" where
  "now_issued p x y \<longleftrightarrow> d_inst x = d_inst y \<and> d_vaddr x = d_vaddr y \<and> d_cId x = d_cId y \<and> issued x \<and> \<not> executed x \<and>
     (loadForwarded x \<longrightarrow> isLoad (d_inst y)) \<and> deadInst x = deadInst y \<and> \<not> deadStore x \<and> wakeUpTime x = 0 \<and>
     d_resource x = Some (p, opcode (d_inst y)) \<and> RATEntry x = Some (p, getDest (d_inst y)) \<and> pendEvent x = pendEvent y"

definition issues :: "nat \<Rightarrow> nat \<Rightarrow> world \<Rightarrow> world \<Rightarrow> bool" where
  "issues p d s u \<longleftrightarrow>
     now u = now s \<and> events u = events s \<and> memReads u = memReads s \<and> memWrites u = memWrites s \<and> live u = live s \<and>
     validVAddr u = validVAddr s \<and> InstTable u = InstTable s \<and> issueNo u = Suc (issueNo s) \<and>
     stamp u = (stamp s)(d := issueNo s) \<and>
     stores u = (if isStore (d_inst (heap s d)) then (stores s)(calcWord (heap s d) \<mapsto> d) else stores s) \<and>
     (\<forall>q. q \<noteq> p \<longrightarrow> cores u q = cores s q) \<and> core_issued d s (cores s p) (cores u p) \<and>
     now_issued p (heap u d) (heap s d) \<and> (\<forall>y. y \<noteq> d \<longrightarrow> same_inst (heap u y) (heap s y)) \<and>
     (\<forall>y. y \<noteq> d \<longrightarrow> deadStore (heap u y) = deadStore (heap s y) \<or>
        isStore (d_inst (heap s d)) \<and> stores s (calcWord (heap s d)) = Some y)"

lemma issuesD:
  assumes "issues p d s u"
  shows "now u = now s" "events u = events s" "memReads u = memReads s" "memWrites u = memWrites s" "live u = live s"
    "validVAddr u = validVAddr s" "InstTable u = InstTable s" "issueNo u = Suc (issueNo s)" "stamp u = (stamp s)(d := issueNo s)"
    "stores u = (if isStore (d_inst (heap s d)) then (stores s)(calcWord (heap s d) \<mapsto> d) else stores s)"
    "q \<noteq> p \<Longrightarrow> cores u q = cores s q" "core_issued d s (cores s p) (cores u p)"
    "now_issued p (heap u d) (heap s d)" "y \<noteq> d \<Longrightarrow> same_inst (heap u y) (heap s y)"
    "y \<noteq> d \<Longrightarrow> deadStore (heap u y) = deadStore (heap s y) \<or>
       isStore (d_inst (heap s d)) \<and> stores s (calcWord (heap s d)) = Some y"
    "d_inst (heap u y) = d_inst (heap s y)" "calcWord (heap u y) = calcWord (heap s y)"
proof -
  note A = assms [unfolded issues_def]
  show "now u = now s" "events u = events s" "memReads u = memReads s" "memWrites u = memWrites s" "live u = live s"
    "validVAddr u = validVAddr s" "InstTable u = InstTable s" "issueNo u = Suc (issueNo s)" "stamp u = (stamp s)(d := issueNo s)"
    "stores u = (if isStore (d_inst (heap s d)) then (stores s)(calcWord (heap s d) \<mapsto> d) else stores s)"
    "q \<noteq> p \<Longrightarrow> cores u q = cores s q" "core_issued d s (cores s p) (cores u p)"
    "now_issued p (heap u d) (heap s d)" "y \<noteq> d \<Longrightarrow> same_inst (heap u y) (heap s y)"
    "y \<noteq> d \<Longrightarrow> deadStore (heap u y) = deadStore (heap s y) \<or>
       isStore (d_inst (heap s d)) \<and> stores s (calcWord (heap s d)) = Some y"
    using A by blast+
  have "y = d \<or> same_inst (heap u y) (heap s y)" and n: "now_issued p (heap u d) (heap s d)" using A by blast+
  then show "d_inst (heap u y) = d_inst (heap s y)" "calcWord (heap u y) = calcWord (heap s y)"
    by (auto simp: same_inst_def now_issued_def calcWord_def)
qed

lemma by_word_cong: "(\<And>y. d_inst (heap u y) = d_inst (heap s y)) \<Longrightarrow> (\<And>y. calcWord (heap u y) = calcWord (heap s y)) \<Longrightarrow> by_word u = by_word s"
  by (simp add: by_word_def fun_eq_iff)

lemma issue_static:
  assumes S: "static_ok pl s" and d: "pl d = Some (Waiting p)" and U: "issues p d s u"
  shows "static_ok (pl(d := Some (InROB p))) u"
proof -
  let ?pl = "pl(d := Some (InROB p))"
  note P = placeD [OF staticD(1) [OF S]] and Q = lsq_by_word [OF staticD(3) [OF S]]
  note u = issuesD [OF U]
  note c = u(12) [unfolded core_issued_def Let_def]
  have ib: "issue_body (cores u p) = issue_body (cores s p)" using c by blast
  note ib = issue_body_fields [OF ib]
  have dl: "d \<in> live s" using P(2) d by auto
  have drob: "d \<notin> set (ROB (cores s q))" for q using P(4) [of d q] d by simp
  have cs: "ROB (cores u q) = (if q = p then ROB (cores s p) @ [d] else ROB (cores s q))" for q using c u(11) [of q] by simp
  have same: "units (cores u q) = units (cores s q)" "replayQ (cores u q) = replayQ (cores s q)" "pipe (cores u q) = pipe (cores s q)"
    "instQueue (cores u q) = instQueue (cores s q)" "spaceInInstQueue (cores u q) = spaceInInstQueue (cores s q)"
    "FetchWidth (cores u q) = FetchWidth (cores s q)" "InstQueueSize (cores u q) = InstQueueSize (cores s q)"
    "InOrderCore (cores u q) = InOrderCore (cores s q)" "MaxROBSize (cores u q) = MaxROBSize (cores s q)"
    "regs (cores u q) = regs (cores s q)" "nOutsStores (cores u q) = nOutsStores (cores s q)"
    "pendingFence (cores u q) = pendingFence (cores s q)" "RetireWidth (cores u q) = RetireWidth (cores s q)" for q
    using ib u(11) [of q] by (cases "q = p"; simp add: regs_def fun_eq_iff)+
  have si: "same_inst (heap u y) (heap s y)" if "y \<noteq> d" for y using u(14) that .
  have "place_ok ?pl u"
    unfolding place_ok_def
  proof (intro conjI allI ballI impI)
    show "finite (live u)" "live u = dom ?pl" using P(1,2) dl u(5) by auto
    show "distinct (ROB (cores u q))" for q using P(3) [of q] P(3) [of p] drob by (simp add: cs)
    show "set (ROB (cores u q)) = {x. ?pl x = Some (InROB q)}" for q
    proof (rule set_eqI)
      fix x show "x \<in> set (ROB (cores u q)) \<longleftrightarrow> x \<in> {x. ?pl x = Some (InROB q)}"
        using P(4) [of x q] P(4) [of x p] drob [of q] unfolding cs by (cases "x = d"; cases "q = p"; simp)
    qed
    show "distinct (concat (instQueue (cores u q)) @ concat (pipe (cores u q)))" for q using P(5) [of q] by (simp only: same)
    show "{x. ?pl x = Some (Waiting q)} \<subseteq> set (concat (instQueue (cores u q)) @ concat (pipe (cores u q)))" for q
      using P(6) [of _ q] by (auto simp only: same fun_upd_apply mem_Collect_eq split: if_splits)
    show "[] \<notin> set (instQueue (cores u q))" "[] \<notin> set (pipe (cores u q))" "replayQ (cores u q) = []" for q
      using P(7-9) [of q] unfolding same by blast+
    show "count (memWrites u) x = of_bool (\<exists>q. ?pl x = Some (Sent q))" for x using P(10) [of x] d by (auto simp: u(4))
    show "dyn_ok u (heap u x)" if "x \<in> live u" for x
    proof (cases "x = d")
      case True
      then show ?thesis using P(11) [OF dl] u(13) by (auto simp: dyn_ok_def now_issued_def u(6,7))
    next
      case False
      then show ?thesis using P(11) [of x] that si [OF False] by (auto simp: dyn_ok_def same_inst_def u(5-7))
    qed
    show "fresh (heap u x)" if "?pl x = Some (Waiting q)" for x q
    proof -
      have "x \<noteq> d" "pl x = Some (Waiting q)" using that by (auto split: if_splits)
      moreover have "stores s w \<noteq> Some x" for w using Q(3) [of w x] calculation(2) by auto
      ultimately show ?thesis using P(12) [of x q] si [of x] u(15) [of x] by (auto simp: fresh_def same_inst_def)
    qed
    show "runs_on q (heap u x)" if "?pl x = Some (InROB q) \<or> ?pl x = Some (Sent q) \<or> ?pl x = Some (Dying q)" for x q
    proof (cases "x = d")
      case True
      then show ?thesis using that u(13) by (auto simp: runs_on_def now_issued_def)
    next
      case False
      then show ?thesis using P(13-15) [of x q] that si [OF False] by (auto simp: runs_on_def same_inst_def)
    qed
    show "isStore (d_inst (heap u x)) \<or> isFence (d_inst (heap u x))" if "?pl x = Some (Sent q)" for x q
      using P(16) [of x q] that by (auto simp: u(16) split: if_splits)
  qed
  moreover have "count_ok ?pl u"
  proof -
    have sset: "{x. ?pl x = Some (Sent q)} = {x. pl x = Some (Sent q)}" for q using d by auto
    have C: "count_ok pl s" using staticD(2) [OF S] .
    show ?thesis
      unfolding count_ok_def Let_def sset same u(16)
    proof (intro allI)
      fix q
      note Cq = C [unfolded count_ok_def Let_def, rule_format, of q]
      let ?rp = "getDstPool (d_inst (heap s d))"
      show "(\<forall>r<3. 0 \<le> regPool (cores u q) r \<and>
          regPool (cores u q) r + int (length (filter (\<lambda>d. getDstPool (d_inst (heap s d)) = r) (ROB (cores u q)))) = regs (cores s q) r) \<and>
        0 \<le> freeLoads (cores u q) \<and> 0 \<le> freeStores (cores u q) \<and>
        nOutsStores (cores s q) = int (card {x. pl x = Some (Sent q)}) \<and>
        (pendingFence (cores s q) \<longrightarrow> 0 < nOutsStores (cores s q)) \<and> length (ROB (cores u q)) \<le> MaxROBSize (cores s q) \<and>
        spaceInInstQueue (cores s q) + int (length (concat (instQueue (cores s q)))) \<le> int (InstQueueSize (cores s q)) \<and>
        0 \<le> spaceInInstQueue (cores s q) \<and> (\<forall>b\<in>set (pipe (cores s q)). length b \<le> FetchWidth (cores s q))"
      proof (cases "q = p")
        case False
        then show ?thesis using Cq u(11) [OF False] by auto
      next
        case True
        have reg: "0 \<le> regPool (cores u p) r \<and>
            regPool (cores u p) r + int (length (filter (\<lambda>d. getDstPool (d_inst (heap s d)) = r) (ROB (cores u p)))) = regs (cores s p) r"
          if "r < 3" for r
        proof -
          have "0 \<le> regPool (cores s p) r \<and> regPool (cores s p) r +
              int (length (filter (\<lambda>d. getDstPool (d_inst (heap s d)) = r) (ROB (cores s p)))) = regs (cores s p) r"
            using Cq True that by auto
          moreover have "regPool (cores u p) = (regPool (cores s p))(?rp := regPool (cores s p) ?rp - 1)" "0 < regPool (cores s p) ?rp"
            using c by blast+
          ultimately show ?thesis by (auto simp: cs)
        qed
        have rest: "0 \<le> freeLoads (cores u p)" "0 \<le> freeStores (cores u p)" "length (ROB (cores s p)) < MaxROBSize (cores s p)"
          using c by blast+
        show ?thesis using Cq True reg rest by (auto simp: cs)
      qed
    qed
  qed
  moreover have "lsq_ok ?pl u"
  proof (rule lsq_okI)
    show "inflightInsts (cores u q) = set (filter (\<lambda>d. isMem (d_inst (heap u d))) (ROB (cores u q)))" for q
      using Q(1) [of q] c u(11) [of q] by (cases "q = p") (simp_all add: u(16))
    have "by_word u = by_word s" by (rule by_word_cong; rule u)
    then show "instMap (cores u q) = by_word u (ROB (cores u q))" for q using Q(2) [of q] c u(11) [of q] by (cases "q = p") simp_all
    show "(\<exists>q. ?pl x = Some (InROB q)) \<and> isStore (d_inst (heap u x)) \<and> calcWord (heap u x) = w \<and> \<not> deadStore (heap u x)"
      if st: "stores u w = Some x" for w x
    proof (cases "x = d")
      case True
      have "stores s w \<noteq> Some d" for w using Q(3) [of w d] d by auto
      then show ?thesis using st True u(10,13) by (auto simp: u(16,17) now_issued_def split: if_splits)
    next
      case False
      then have s: "stores s w = Some x" using st by (auto simp: u(10) split: if_splits)
      have "deadStore (heap u x) = deadStore (heap s x)"
      proof (rule ccontr)
        assume "deadStore (heap u x) \<noteq> deadStore (heap s x)"
        then have a: "isStore (d_inst (heap s d))" "stores s (calcWord (heap s d)) = Some x" using u(15) [OF False] by auto
        then have "w = calcWord (heap s d)" using Q(5) [OF s] Q(5) [OF a(2)] by simp
        then show False using st False a(1) by (simp add: u(10))
      qed
      then show ?thesis using Q(3-6) [OF s] False by (simp add: u(16,17))
    qed
  qed
  moreover have "conf_ok u = conf_ok s" unfolding conf_ok_def same u(1,7) ..
  ultimately show ?thesis using staticD(4) [OF S] by (simp only: static_ok_def)
qed

lemma writer_snoc: "writer s r (xs @ [d]) = (if dest s d = r then Some d else writer s r xs)"
  by (cases "filter (\<lambda>d. dest s d = r) xs") (auto simp: writer_def)

lemma writer_mem: "writer s r xs = Some q \<Longrightarrow> q \<in> set xs \<and> dest s q = r"
  using last_in_set [of "filter (\<lambda>d. dest s d = r) xs"] by (auto simp: writer_def split: list.splits if_splits)

lemma waiting_facts:
  assumes I: "core_inv {} D pl s" and d: "pl d = Some (Waiting p)"
  shows "d \<in> live s" "\<not> issued (heap s d)" "\<not> executed (heap s d)" "nDeps (heap s d) = 0" "acts s d = 0" "D d = []"
    "(d, k) \<notin> set (D q)" "d \<notin> set (ROB (cores s q))" "\<not> isUsed (heap s d) 0" "\<not> isUsed (heap s d) 1"
proof -
  note C = core_invD [OF I]
  note P = placeD [OF staticD(1) [OF C(1)]] and R = ret_okD [OF C(7)]
  show l: "d \<in> live s" using P(2) d by auto
  show i: "\<not> issued (heap s d)" using P(12) [OF d] by (simp add: fresh_def)
  show "\<not> executed (heap s d)" using C(3) l i by (auto simp: act_ok_def)
  have n: "(d, 0) \<notin> nodes D" "(d, 1) \<notin> nodes D" using R(9,10) [OF d] by simp_all
  then show "nDeps (heap s d) = 0" "\<not> isUsed (heap s d) 0" "\<not> isUsed (heap s d) 1"
    using deps_use(1) [OF C(2) l] deps_use(2) [OF C(2) l, of 0] deps_use(2) [OF C(2) l, of 1] by simp_all
  show "acts s d = 0" using C(3) i by (simp add: act_ok_def ready_def)
  show "D d = []" using R(8) [OF d] .
  show "(d, k) \<notin> set (D q)"
  proof
    assume a: "(d, k) \<in> set (D q)"
    then have "k < 2" "(d, k) \<in> nodes D" using deps_okD(7) [OF C(2) a] by (auto simp: nodes_def)
    then show False using n by (auto simp: less_2_cases_iff)
  qed
  show "d \<notin> set (ROB (cores s q))" using P(4) [of d q] d by simp
qed

text \<open>The instruction gets an activity \<open>ev\<close> at once when it waits for nobody.\<close>

lemma issue_inv:
  assumes I: "core_inv {} D pl s" and d: "pl d = Some (Waiting p)" and U: "issues p d s u"
    and D': "deps_ok (hook d hs D) u" and H: "hooks_ok s p d (heap u d) hs"
  defines "v \<equiv> if nDeps (heap u d) = 0 then put (SelectCB d) u else u"
  shows "core_inv {} (hook d hs D) (pl(d := Some (InROB p))) v"
proof -
  let ?pl = "pl(d := Some (InROB p))" and ?D = "hook d hs D"
  note C = core_invD [OF I] and w = waiting_facts [OF I d]
  note P = placeD [OF staticD(1) [OF C(1)]] and R = ret_okD [OF C(7)] and u = issuesD [OF U]
  note c = u(12) [unfolded core_issued_def Let_def]
  have ib: "issue_body (cores u p) = issue_body (cores s p)" using c by blast
  note ib = issue_body_fields [OF ib]
  have hs: "q \<in> live s" "q \<noteq> d" "issued (heap s q)" "\<not> isStore (d_inst (heap s q)) \<Longrightarrow> \<not> executed (heap s q)"
    "isStore (d_inst (heap s q)) \<Longrightarrow> k = 1" "isStore (d_inst (heap s q)) \<Longrightarrow> isLoad (d_inst (heap s d))"
    "isStore (d_inst (heap s q)) \<Longrightarrow> executed (heap s q) \<Longrightarrow> depsAtRetire (heap u d)" if "(q, k) \<in> set hs" for q k
    using H that unfolding hooks_ok_def by blast+
  have Hd: "depsAtRetire (heap u d) \<Longrightarrow> \<exists>q. (q, 1) \<in> set hs \<and> isStore (d_inst (heap s q))"
    "RAT (cores s p) (getSrc1 (d_inst (heap s d))) = Some q \<Longrightarrow> (q, 0) \<in> set hs"
    "RAT (cores s p) (getSrc2 (d_inst (heap s d))) = Some q \<Longrightarrow> (q, 1) \<in> set hs" for q
    using H unfolding hooks_ok_def by blast+
  have sd: "issued (heap u d)" "\<not> executed (heap u d)" "wakeUpTime (heap u d) = 0" using u(13) by (simp_all add: now_issued_def)
  have si: "issued (heap u y) = issued (heap s y)" "executed (heap u y) = executed (heap s y)"
      "depsAtRetire (heap u y) = depsAtRetire (heap s y)" "loadForwarded (heap u y) = loadForwarded (heap s y)"
      "wakeUpTime (heap u y) = wakeUpTime (heap s y)" if "y \<noteq> d" for y
    using u(14) [OF that] by (simp_all add: same_inst_def)
  have ex: "executed (heap u y) = executed (heap s y)" for y using si(2) sd(2) w(3) by (cases "y = d") auto
  have iss: "issued (heap u y) \<longleftrightarrow> y = d \<or> issued (heap s y)" for y using si(1) sd(1) by (cases "y = d") auto
  have vv: "heap v = heap u" "live v = live s" "memReads v = memReads s" "cores v = cores u" "now v = now s"
    by (simp_all add: v_def u)
  have evs: "evs v = (if nDeps (heap u d) = 0 then add_mset (SelectCB d) (evs s) else evs s)"
    by (simp add: v_def evs_def u put_def)
  have nd: "nDeps (heap u y) = nDeps (heap s y)" if "y \<noteq> d" for y
  proof (cases "y \<in> live s")
    case True
    then show ?thesis using nDeps_nodes [OF C(2) True] nDeps_nodes [OF D', of y] that by (simp add: hook_nodes u)
  next
    case False
    then show ?thesis using deps_okD(11) [OF C(2)] deps_okD(11) [OF D'] by (simp add: u)
  qed
  have noev: "e \<notin># evs s" if "about e = Some d" for e using evs_about [OF _ that, of s] w(5) by auto
  have un: "units (cores u q) = units (cores s q)" for q using ib u(11) [of q] by (cases "q = p") simp_all
  have cn: "cluster_no q ty v = cluster_no q ty s" for q ty by (simp add: cluster_no_def vv un)
  have cl: "recycleAt (clusters (cores u q) k) = recycleAt (clusters (cores s q) k)" "MaxWinSize (clusters (cores u q) k) = MaxWinSize (clusters (cores s q) k)"
    for q k using c u(11) [of q] by (cases "q = p"; simp)+
  have "static_ok ?pl v"
    using issue_static [OF C(1) d U] static_frame [of u v ?pl] by (simp add: v_def)
  moreover have "deps_ok ?D v" using D' deps_ok_cong [of v u ?D] by (simp add: vv u)
  moreover have "act_ok v"
    unfolding act_ok_def
  proof (intro conjI allI ballI impI)
    show "acts v y = of_bool (ready v y)" for y
    proof (cases "y = d")
      case True
      then show ?thesis using w(1,5) sd by (simp add: acts_def evs vv ready_def)
    next
      case False
      have "acts s y = of_bool (ready s y)" using C(3) by (simp add: act_ok_def)
      then show ?thesis using False si(1,2) nd by (simp add: acts_def evs vv ready_def)
    qed
    show "issued (heap v y)" "nDeps (heap v y) = 0" if "y \<in> live v" "executed (heap v y)" for y
    proof -
      have "y \<noteq> d" "y \<in> live s" "executed (heap s y)" using that sd by (auto simp: vv ex)
      then show "issued (heap v y)" "nDeps (heap v y) = 0" using C(3) nd by (simp_all add: act_ok_def vv iss)
    qed
    show "wakeUpTime (heap v y) = 0" if "SelectCB y \<in># evs v" for y
    proof (cases "y = d")
      case True
      then show ?thesis using sd by (simp add: vv)
    next
      case False
      then show ?thesis using that C(3) si(5) by (simp add: act_ok_def vv evs split: if_splits)
    qed
    show "isLoad (d_inst (heap v y))" "\<not> loadForwarded (heap v y)" if "DispatchedCB q y \<in># evs v" for q y
    proof -
      have e: "DispatchedCB q y \<in># evs s" using that by (simp add: evs split: if_splits)
      then have "y \<noteq> d" using noev [of "DispatchedCB q y"] by auto
      then show "isLoad (d_inst (heap v y))" "\<not> loadForwarded (heap v y)" using C(3) e si(4) by (auto simp: act_ok_def vv u(16))
    qed
    show "isLoad (d_inst (heap v y))" "\<not> loadForwarded (heap v y)" if "y \<in># memReads v" for y
    proof -
      have "y \<noteq> d" using that w(5) by (auto simp: vv acts_def count_eq_zero_iff)
      then show "isLoad (d_inst (heap v y))" "\<not> loadForwarded (heap v y)" using C(3) that si(4) by (auto simp: act_ok_def vv u(16))
    qed
  qed
  moreover have "win_ok v"
    unfolding win_ok_def
  proof (intro allI)
    fix q k
    have w0: "win_at (clusters (cores s q) k) (used s q k)" using C(4) by (simp add: win_ok_def)
    have un1: "unstarted v y = unstarted s y" if "y \<noteq> d" for y
      using that si(2) nd by (simp add: unstarted_def vv evs)
    have un2: "unstarted v d" using sd by (simp add: unstarted_def vv evs)
    have ho: "holds v q k y = holds s q k y" if "y \<noteq> d" for y
      using un1 [OF that] by (simp add: holds_def vv cn cl u(16) ex cong: recycle.case_cong)
    have f: "filter (holds v q k) (ROB (cores s q)) = filter (holds s q k) (ROB (cores s q))"
      by (rule filter_cong [OF refl ho]) (use w(8) [of q] in auto)
    have hd: "holds v q k d \<longleftrightarrow> cluster_no q (opcode (d_inst (heap s d))) s = k"
      using un2 sd by (simp add: holds_def vv cn cl u(16) split: recycle.split)
    have ic: "is_issued_cb v q k = is_issued_cb s q k" by (simp add: fun_eq_iff is_issued_cb_def cn split: cev.split)
    have sz: "size (filter_mset (is_issued_cb s q k) (evs v)) = size (filter_mset (is_issued_cb s q k) (evs s))"
      by (simp add: evs is_issued_cb_def)
    show "win_at (clusters (cores v q) k) (used v q k)"
    proof (cases "q = p")
      case False
      then have "used v q k = used s q k" using f u(11) [OF False] by (simp add: used_def ic sz vv)
      then show ?thesis using w0 u(11) [OF False] by (simp add: vv)
    next
      case True
      let ?kk = "u_cluster (units (cores s p) (opcode (d_inst (heap s d))))"
      have rob: "ROB (cores u p) = ROB (cores s p) @ [d]" using c by blast
      have "used v p k = used s p k + of_bool (k = ?kk)"
        using f hd True by (simp add: used_def ic [unfolded True] sz [unfolded True] vv rob cl cluster_no_def)
      moreover have "0 < windowSize (clusters (cores s p) ?kk)"
        "clusters (cores u p) = (clusters (cores s p))(?kk := (clusters (cores s p) ?kk)\<lparr>windowSize := windowSize (clusters (cores s p) ?kk) - 1\<rparr>)"
        using c by blast+
      ultimately show ?thesis using w0 True by (auto simp: win_at_def vv)
    qed
  qed
  moreover have wr: "writer v r xs = writer s r xs" for r xs by (simp add: writer_def dest_def vv u(16))
  have rat: "rat_ok v"
    unfolding rat_ok_def
  proof (intro allI impI)
    fix q r assume r: "r < InvalidOutput"
    have e: "RAT (cores s q) r = (case writer s r (ROB (cores s q)) of None \<Rightarrow> None | Some x \<Rightarrow> if executed (heap s x) then None else Some x)"
      using C(5) r by (simp add: rat_ok_def)
    show "RAT (cores v q) r = (case writer v r (ROB (cores v q)) of None \<Rightarrow> None | Some x \<Rightarrow> if executed (heap v x) then None else Some x)"
    proof (cases "q = p")
      case False
      then show ?thesis using e u(11) [OF False] by (simp add: wr vv ex cong: option.case_cong)
    next
      case True
      have "ROB (cores u p) = ROB (cores s p) @ [d]" "RAT (cores u p) = (RAT (cores s p))(getDest (d_inst (heap s d)) \<mapsto> d)"
        using c by blast+
      moreover have "dest s d = getDest (d_inst (heap s d))" "dest v d = getDest (d_inst (heap s d))" by (simp_all add: dest_def vv u(16))
      ultimately show ?thesis using e True sd(2) by (auto simp: wr vv writer_snoc ex cong: option.case_cong)
    qed
  qed
  moreover have "dep_ok ?D v"
    unfolding dep_ok_def
  proof (intro allI impI)
    fix q pre x post y and j :: nat
    assume rob: "ROB (cores v q) = pre @ x # post" and wx: "j = 0 \<and> writer v (getSrc1 (d_inst (heap v x))) pre = Some y \<or>
      j = 1 \<and> writer v (getSrc2 (d_inst (heap v x))) pre = Some y"
    have wx: "j = 0 \<and> writer s (getSrc1 (d_inst (heap s x))) pre = Some y \<or> j = 1 \<and> writer s (getSrc2 (d_inst (heap s x))) pre = Some y"
      using wx by (simp add: wr vv u(16))
    have old: "executed (heap v y) \<or> (x, j) \<in> set (?D y)" if "ROB (cores s q) = pre @ x # post'" for post'
      using dep_okD [OF C(6) that wx] by (auto simp: vv ex hook_set)
    show "executed (heap v y) \<or> (x, j) \<in> set (?D y)"
    proof (cases "q = p")
      case False
      then show ?thesis using old rob u(11) [OF False] by (simp add: vv)
    next
      case True
      have rob': "ROB (cores s p) @ [d] = pre @ x # post" using rob True c by (simp add: vv)
      show ?thesis
      proof (cases post rule: rev_cases)
        case (snoc post' z)
        then show ?thesis using old [of post'] rob' True by simp
      next
        case Nil
        then have x: "x = d" "pre = ROB (cores s p)" using rob' by auto
        have io: "getSrc1 (d_inst (heap s d)) < InvalidOutput" "getSrc2 (d_inst (heap s d)) < InvalidOutput"
          using P(11) [OF w(1)] by (simp_all add: dyn_ok_def instr_ok_def)
        have e: "RAT (cores s p) r = (case writer s r pre of None \<Rightarrow> None | Some x \<Rightarrow> if executed (heap s x) then None else Some x)"
          if "r < InvalidOutput" for r using C(5) that x by (simp add: rat_ok_def)
        show ?thesis using wx x e [OF io(1)] e [OF io(2)] Hd(2,3) [of y] by (auto simp: vv ex hook_set split: if_splits)
      qed
    qed
  qed
  moreover have "ret_ok {} ?D ?pl v"
    unfolding ret_ok_def
  proof (intro conjI ballI allI impI)
    show "q \<in> live v" "executed (heap v q)" if "q \<in> {}" for q using that by simp_all
    show "?D q = []" if q: "q \<in> live v" "executed (heap v q)" "\<not> isStore (d_inst (heap v q))" for q
    proof -
      have "executed (heap s q)" "\<not> isStore (d_inst (heap s q))" using q by (simp_all add: vv ex u(16))
      moreover have "fst h \<noteq> q" if "h \<in> set hs" for h using hs(4) [of "fst h" "snd h"] that calculation by auto
      ultimately show ?thesis using hook_other [of hs q d D] R(3) [of q] q by (simp add: vv)
    qed
    show "snd m = 1" "isLoad (d_inst (heap v (fst m)))" if m: "q \<in> live v" "isStore (d_inst (heap v q))" "m \<in> set (?D q)" for q m
      using R(4,5) [of q m] hs(5,6) [of q "snd m"] m by (auto simp: vv u(16) hook_set)
    show "depsAtRetire (heap v (fst m))" if m: "q \<in> live v" "isStore (d_inst (heap v q))" "m \<in> set (?D q)" "executed (heap v q)" for q m
    proof -
      have "m \<in> set (D q) \<Longrightarrow> fst m \<noteq> d" using w(7) [of "snd m" q] by (cases m) auto
      then show ?thesis using R(6) [of q m] hs(7) [of q "snd m"] m si(3) by (auto simp: vv u(16) hook_set ex)
    qed
    show "\<exists>q\<in>live v. isStore (d_inst (heap v q)) \<and> (x, 1) \<in> set (?D q)" if x: "x \<in> live v" "depsAtRetire (heap v x)" for x
    proof (cases "x = d")
      case True
      then obtain q where q: "(q, 1) \<in> set hs" "isStore (d_inst (heap s q))" using Hd(1) x(2) by (auto simp: vv)
      then show ?thesis using hs(1) [OF q(1)] True by (auto simp: vv u(16) hook_set)
    next
      case False
      then show ?thesis using R(7) [of x] x si(3) by (auto simp: vv u(16) hook_set)
    qed
    show "?D x = []" "(x, 0) \<notin> nodes ?D" "(x, 1) \<notin> nodes ?D" if x: "?pl x = Some (Waiting q)" for x q
    proof -
      have x': "x \<noteq> d" "pl x = Some (Waiting q)" using x by (auto split: if_splits)
      then have "\<not> issued (heap s x)" using P(12) [of x q] by (simp add: fresh_def)
      then have "fst h \<noteq> x" if "h \<in> set hs" for h using hs(3) [of "fst h" "snd h"] that by auto
      then show "?D x = []" "(x, 0) \<notin> nodes ?D" "(x, 1) \<notin> nodes ?D"
        using hook_other [of hs x d D] R(8-10) [OF x'(2)] x' by (auto simp: hook_nodes)
    qed
    show "executed (heap v x)" if "?pl x = Some (Sent q) \<or> ?pl x = Some (Dying q)" for x q
      using R(11,12) [of x q] that by (auto simp: vv ex split: if_splits)
  qed
  moreover have "stamp_ok ?D v"
  proof -
    have st: "stamp v = (stamp s)(d := issueNo s)" "issueNo v = Suc (issueNo s)" by (simp_all add: v_def u)
    have lt: "stamp s y < issueNo s" if "y \<in> live s" "issued (heap s y)" for y using C(8) that by (simp add: stamp_ok_def)
    have robl: "y \<in> live s \<and> issued (heap s y)" if "y \<in> set (ROB (cores s q))" for y q
    proof -
      have "pl y = Some (InROB q)" using P(4) [of y q] that by simp
      then show ?thesis using P(2) P(13) [of y q] by (auto simp: runs_on_def)
    qed
    show ?thesis
      unfolding stamp_ok_def
    proof (intro conjI allI ballI impI)
      fix q m assume m: "m \<in> set (?D q)"
      show "stamp v q < stamp v (fst m)"
      proof (cases "m \<in> set (D q)")
        case True
        have "fst m \<noteq> d" using w(7) [of "snd m" q] True by (cases m) auto
        moreover have "q \<noteq> d" using w(6) True by auto
        ultimately show ?thesis using C(8) True by (simp add: stamp_ok_def st)
      next
        case False
        then have "fst m = d" "(q, snd m) \<in> set hs" using m by (simp_all add: hook_set)
        then show ?thesis using hs(1-3) [of q "snd m"] lt [of q] by (simp add: st)
      qed
    next
      fix q
      have so: "sorted_wrt (\<lambda>a b. stamp s a < stamp s b) (ROB (cores s q))" using C(8) by (simp add: stamp_ok_def)
      have so': "sorted_wrt (\<lambda>a b. stamp v a < stamp v b) (ROB (cores s q))"
        by (rule sorted_wrt_mono_rel [OF _ so]) (use w(8) [of q] in \<open>auto simp: st\<close>)
      show "sorted_wrt (\<lambda>a b. stamp v a < stamp v b) (ROB (cores v q))"
      proof (cases "q = p")
        case False
        then show ?thesis using so' u(11) [OF False] by (simp add: vv)
      next
        case True
        have "stamp v y < stamp v d" if "y \<in> set (ROB (cores s p))" for y
          using that robl [OF that] lt [of y] w(8) [of p] by (auto simp: st)
        then show ?thesis using so' True c by (simp add: vv sorted_wrt_append)
      qed
    next
      fix y assume "y \<in> live v" "issued (heap v y)"
      then show "stamp v y < issueNo v" using lt [of y] by (auto simp: vv iss st)
    qed
  qed
  moreover have "ports_ok v"
  proof -
    have o: "port_ok (wakeUpPort (clusters (cores s q) k))" "port_ok (schedPort (clusters (cores s q) k))" "port_ok (gens (cores s q) g)"
      for q k g using C(9) by (simp_all add: ports_ok_def)
    have "clusters (cores u p) = (clusters (cores s p))(cluster_no p (opcode (d_inst (heap s d))) s :=
        (clusters (cores s p) (cluster_no p (opcode (d_inst (heap s d))) s))\<lparr>windowSize :=
           windowSize (clusters (cores s p) (cluster_no p (opcode (d_inst (heap s d))) s)) - 1\<rparr>)"
      using c unfolding cluster_no_def by blast
    then have "port_ok (wakeUpPort (clusters (cores u q) k)) \<and> port_ok (schedPort (clusters (cores u q) k)) \<and> port_ok (gens (cores u q) g)"
      for q k g using o u(11) [of q] ib(14) by (cases "q = p") simp_all
    then show ?thesis by (simp add: ports_ok_def vv)
  qed
  moreover have "time_ok v" using C(10) u(1,2) by (auto simp: time_ok_def v_def put_def)
  ultimately show ?thesis by (simp add: core_inv_def)
qed

end
