(* ===== verification/Core_Add.thy ===== *)
theory Core_Add
  imports Core_Issue
begin

text \<open>
  The operations of an issue: the entries in the load/store buffer and queue, the functional unit, and
  \<open>sharedAddInst\<close> and \<open>addInst\<close> of the processor.
\<close>

subsection \<open>Entries in the load/store buffer\<close>

text \<open>The state after the functional unit has taken \<open>d\<close>.\<close>

definition taken_core :: "nat \<Rightarrow> world \<Rightarrow> core \<Rightarrow> core \<Rightarrow> bool" where
  "taken_core d s c0 c \<longleftrightarrow>
     (let kk = u_cluster (units c0 (opcode (d_inst (heap s d)))) in
      issue_body c = issue_body c0 \<and> ROB c = ROB c0 \<and> regPool c = regPool c0 \<and> RAT c = RAT c0 \<and>
      0 \<le> freeLoads c \<and> 0 \<le> freeStores c \<and> 0 < windowSize (clusters c0 kk) \<and>
      inflightInsts c = set (filter (\<lambda>d. isMem (d_inst (heap s d))) (ROB c0 @ [d])) \<and> instMap c = by_word s (ROB c0 @ [d]) \<and>
      clusters c = (clusters c0)(kk := (clusters c0 kk)\<lparr>windowSize := windowSize (clusters c0 kk) - 1\<rparr>))"

definition taken_heap :: "nat \<Rightarrow> world \<Rightarrow> (nat \<Rightarrow> dinst) \<Rightarrow> bool" where
  "taken_heap d s h \<longleftrightarrow>
     (\<forall>y. y \<noteq> d \<longrightarrow> same_inst (h y) (heap s y) \<and>
        (deadStore (h y) = deadStore (heap s y) \<or> isStore (d_inst (heap s d)) \<and> stores s (calcWord (heap s d)) = Some y)) \<and>
     same_inst ((h d)\<lparr>depsAtRetire := depsAtRetire (heap s d), loadForwarded := loadForwarded (heap s d)\<rparr>) (heap s d) \<and>
     \<not> deadStore (h d) \<and> (loadForwarded (h d) \<longrightarrow> isLoad (d_inst (heap s d)))"

definition taken_hooks :: "nat \<Rightarrow> world \<Rightarrow> dinst \<Rightarrow> (nat \<times> nat) list \<Rightarrow> bool" where
  "taken_hooks d s x hs \<longleftrightarrow> hs = [] \<and> \<not> depsAtRetire x \<or>
     (\<exists>q w. hs = [(q, 1)] \<and> isLoad (d_inst (heap s d)) \<and> stores s w = Some q \<and> (executed (heap s q) \<longrightarrow> depsAtRetire x))"

definition taken :: "nat \<Rightarrow> nat \<Rightarrow> world \<Rightarrow> (nat \<Rightarrow> node list) \<Rightarrow> (nat \<times> nat) list \<Rightarrow> world \<Rightarrow> bool" where
  "taken p d s D hs t \<longleftrightarrow> t = s\<lparr>heap := heap t, stores := stores t, cores := (cores s)(p := cores t p)\<rparr> \<and>
     stores t = (if isStore (d_inst (heap s d)) then (stores s)(calcWord (heap s d) \<mapsto> d) else stores s) \<and>
     deps_ok (hook d hs D) t \<and> taken_core d s (cores s p) (cores t p) \<and> taken_heap d s (heap t) \<and> taken_hooks d s (heap t d) hs"

lemma same_inst_refl [simp]: "same_inst x x"
  by (simp add: same_inst_def)

lemma same_inst_unlink: "unlink x = unlink y \<Longrightarrow> same_inst x y"
  using unlink_fields [of x y] by (simp add: same_inst_def)

lemma stores_facts:
  assumes I: "core_inv {} D pl s" and q: "stores s w = Some q"
  shows "q \<in> live s" "isStore (d_inst (heap s q))" "\<not> deadStore (heap s q)" "issued (heap s q)" "calcWord (heap s q) = w"
    "d_inst (heap s q) \<in> range (InstTable s)"
proof -
  note C = core_invD [OF I]
  note P = placeD [OF staticD(1) [OF C(1)]] and Q = lsq_by_word [OF staticD(3) [OF C(1)]]
  obtain p where p: "pl q = Some (InROB p)" using Q(3) [OF q] by blast
  show l: "q \<in> live s" using P(2) p by auto
  show "isStore (d_inst (heap s q))" "\<not> deadStore (heap s q)" "calcWord (heap s q) = w" using Q(4-6) [OF q] by simp_all
  show "issued (heap s q)" using P(13) [OF p] by (simp add: runs_on_def)
  show "d_inst (heap s q) \<in> range (InstTable s)" using P(11) [OF l] by (simp add: dyn_ok_def)
qed

lemma store_entry_ok:
  assumes I: "core_inv {} D pl s" and d: "pl d = Some (Waiting p)" and st: "isStore (d_inst (heap s d))"
    and t: "heap t = heap s" "live t = live s" "stores t = stores s"
  shows "\<exists>h. getStoreEntry d t = Some (t\<lparr>heap := h, stores := (stores s)(calcWord (heap s d) \<mapsto> d)\<rparr>) \<and>
    (\<forall>y. links (h y) = links (heap s y)) \<and> taken_heap d s h \<and> h d = heap s d"
proof -
  note w = waiting_facts [OF I d]
  have dd: "\<not> deadStore (heap s d)" "\<not> loadForwarded (heap s d)"
    using placeD(12) [OF staticD(1) [OF core_invD(1) [OF I]] d] by (simp_all add: fresh_def)
  let ?w = "calcWord (heap s d)"
  show ?thesis
  proof (cases "stores s ?w")
    case None
    then show ?thesis using w(1) st t dd
      by (intro exI [of _ "heap s"]) (auto simp: getStoreEntry_def taken_heap_def deref_def same_inst_def)
  next
    case (Some q)
    note q = stores_facts [OF I Some]
    have qd: "q \<noteq> d" using q(4) w(2) by auto
    let ?b = "d_first (heap s q) = None \<and> d_cId (heap s d) = d_cId (heap s q)"
    let ?h = "if ?b then (heap s)(q := (heap s q)\<lparr>deadStore := True\<rparr>) else heap s"
    have "getStoreEntry d t = Some (t\<lparr>heap := ?h, stores := (stores s)(?w \<mapsto> d)\<rparr>)"
      using w(1) st t q Some by (auto simp: getStoreEntry_def setDeadStore_def upd_d_def deref_def)
    moreover have "taken_heap d s ?h" using qd dd st Some by (auto simp: taken_heap_def same_inst_def)
    ultimately show ?thesis using qd by (intro exI [of _ ?h]) (auto simp: links_def)
  qed
qed

lemma load_entry_ok:
  assumes I: "core_inv {} D pl s" and d: "pl d = Some (Waiting p)" and ld: "isLoad (d_inst (heap s d))"
    and t: "heap t = heap s" "live t = live s" "stores t = stores s" "deps_ok D t"
  shows "\<exists>h hs. getLoadEntry d t = Some (t\<lparr>heap := h\<rparr>) \<and> deps_ok (hook d hs D) (t\<lparr>heap := h\<rparr>) \<and> taken_heap d s h \<and> taken_hooks d s (h d) hs"
proof -
  note w = waiting_facts [OF I d]
  note P = placeD [OF staticD(1) [OF core_invD(1) [OF I]]]
  have f: "\<not> deadStore (heap s d)" "\<not> loadForwarded (heap s d)" "\<not> depsAtRetire (heap s d)"
    using P(12) [OF d] by (simp_all add: fresh_def)
  let ?w = "calcWord (heap s d)"
  show ?thesis
  proof (cases "stores s ?w")
    case None
    have e: "t\<lparr>heap := heap s\<rparr> = t" using t(1) by simp
    have "getLoadEntry d t = Some (t\<lparr>heap := heap s\<rparr>)" unfolding e using None w(1) ld t by (simp add: getLoadEntry_def deref_def)
    then show ?thesis using t(4) f
      by (intro exI [of _ "heap s"] exI [of _ "[]"]) (simp add: e taken_heap_def taken_hooks_def same_inst_def)
  next
    case (Some q)
    note q = stores_facts [OF I Some]
    have qd: "q \<noteq> d" using q(4) w(2) by auto
    have addr: "getAddr (d_inst (heap s q)) \<noteq> getAddr (d_inst (heap s d))"
    proof
      assume e: "getAddr (d_inst (heap s q)) = getAddr (d_inst (heap s d))"
      have "d_inst (heap s d) \<in> range (InstTable s)" using P(11) [OF w(1)] unfolding dyn_ok_def by blast
      then obtain i j where "d_inst (heap s q) = InstTable s i" "d_inst (heap s d) = InstTable s j" using q(6) by blast
      moreover have "\<forall>i j. getAddr (InstTable s i) = getAddr (InstTable s j) \<longrightarrow> opcode (InstTable s i) = opcode (InstTable s j)"
        using staticD(4) [OF core_invD(1) [OF I]] unfolding conf_ok_def by blast
      ultimately have "opcode (d_inst (heap s q)) = opcode (d_inst (heap s d))" using e by metis
      then show False using q(2) ld by (simp add: isLoad_def isStore_def)
    qed
    have hook: "\<exists>h. addFakeSrc q d (upd_d d g t) = Some (t\<lparr>heap := h\<rparr>) \<and> deps_ok (hook d [(q, 1)] D) (t\<lparr>heap := h\<rparr>) \<and>
        (\<forall>y. unlink (h y) = unlink ((if y = d then g (heap s d) else heap s y)))"
      if g: "\<And>x. links (g x) = links x" for g
    proof -
      have "links (heap (upd_d d g t) y) = links (heap t y)" for y using g by simp
      then have "deps_ok D (upd_d d g t)" using t(4) deps_ok_cong [of "upd_d d g t" t D] by simp
      moreover have "isUsed (g (heap s d)) = isUsed (heap s d)" using g [of "heap s d"] by (simp add: links_eq)
      ultimately obtain t' where t': "addSrc 1 q d (upd_d d g t) = Some t'" "deps_ok (D(q := D q @ [(d, 1)])) t'" "relinked (upd_d d g t) t'"
        using addSrc_ok [of D "upd_d d g t" q d 1] q(1) w(1,10) t by auto
      then obtain h where h: "t' = (upd_d d g t)\<lparr>heap := h\<rparr>" "\<forall>y. unlink (h y) = unlink (heap (upd_d d g t) y)" by (auto simp: relinked_def)
      have "t' = t\<lparr>heap := h\<rparr>" using h(1) by (simp add: upd_d_def)
      moreover have "hook d [(q, 1)] D = D(q := D q @ [(d, 1)])" using hook_snoc [of d "[]" q 1 D] by simp
      ultimately show ?thesis using t' h(2) t(1) by (intro exI [of _ h]) (auto simp: addFakeSrc_def)
    qed
    have th: "taken_heap d s h"
      if h: "\<forall>y. unlink (h y) = unlink ((if y = d then g (heap s d) else heap s y))"
        and gd: "same_inst ((g (heap s d))\<lparr>depsAtRetire := depsAtRetire (heap s d), loadForwarded := loadForwarded (heap s d)\<rparr>) (heap s d)"
          "deadStore (g (heap s d)) = deadStore (heap s d)" for h g
    proof -
      have o: "unlink (h y) = unlink (heap s y)" if "y \<noteq> d" for y using h that by simp
      have "unlink (h d) = unlink (g (heap s d))" using h by simp
      note ud = unlink_fields [OF this]
      show ?thesis
        unfolding taken_heap_def
      proof (intro conjI allI impI)
        show "same_inst (h y) (heap s y)" if "y \<noteq> d" for y using same_inst_unlink [OF o [OF that]] .
        show "deadStore (h y) = deadStore (heap s y) \<or> isStore (d_inst (heap s d)) \<and> stores s (calcWord (heap s d)) = Some y"
          if "y \<noteq> d" for y using unlink_fields(8) [OF o [OF that]] by simp
        show "same_inst ((h d)\<lparr>depsAtRetire := depsAtRetire (heap s d), loadForwarded := loadForwarded (heap s d)\<rparr>) (heap s d)"
          using gd(1) ud by (simp add: same_inst_def)
        show "\<not> deadStore (h d)" using ud(8) gd(2) f by simp
        show "isLoad (d_inst (heap s d))" by (rule ld)
      qed
    qed
    show ?thesis
    proof (cases "d_cId (heap s d) = d_cId (heap s q)")
      case False
      let ?g = "\<lambda>x. x\<lparr>depsAtRetire := True\<rparr>"
      obtain h where h: "addFakeSrc q d (upd_d d ?g t) = Some (t\<lparr>heap := h\<rparr>)" "deps_ok (hook d [(q, 1)] D) (t\<lparr>heap := h\<rparr>)"
          "\<forall>y. unlink (h y) = unlink ((if y = d then ?g (heap s d) else heap s y))"
        using hook [of ?g] by auto
      have "getLoadEntry d t = Some (t\<lparr>heap := h\<rparr>)"
        using w(1) ld t f q Some False addr h(1) by (simp add: getLoadEntry_def setDepsAtRetire_def deref_def)
      moreover have "depsAtRetire (h d)" using h(3) unlink_fields(7) [of "h d" "?g (heap s d)"] by simp
      moreover have "taken_heap d s h" by (rule th [of h ?g]) (use h(3) in \<open>simp_all add: same_inst_def\<close>)
      ultimately show ?thesis using h(2) ld Some
        by (intro exI [of _ h] exI [of _ "[(q, 1)]"]) (auto simp: taken_hooks_def)
    next
      case same: True
      let ?g = "\<lambda>x. x\<lparr>loadForwarded := True\<rparr>"
      show ?thesis
      proof (cases "executed (heap s q)")
        case False
        obtain h where h: "addFakeSrc q d (upd_d d ?g t) = Some (t\<lparr>heap := h\<rparr>)" "deps_ok (hook d [(q, 1)] D) (t\<lparr>heap := h\<rparr>)"
            "\<forall>y. unlink (h y) = unlink ((if y = d then ?g (heap s d) else heap s y))"
          using hook [of ?g] by (auto simp: links_def)
        have "getLoadEntry d t = Some (t\<lparr>heap := h\<rparr>)"
          using w(1) ld t f q Some False same addr h(1) qd by (simp add: getLoadEntry_def setLoadForwarded_def deref_def)
        moreover have "taken_heap d s h" by (rule th [of h ?g]) (use h(3) in \<open>simp_all add: same_inst_def\<close>)
        ultimately show ?thesis using h(2) ld Some False
          by (intro exI [of _ h] exI [of _ "[(q, 1)]"]) (auto simp: taken_hooks_def)
      next
        case True
        let ?h = "(heap s)(d := ?g (heap s d))"
        have "getLoadEntry d t = Some (t\<lparr>heap := ?h\<rparr>)"
          using w(1) ld t f q Some True same qd by (simp add: getLoadEntry_def setLoadForwarded_def deref_def upd_d_def)
        moreover have "deps_ok D (t\<lparr>heap := ?h\<rparr>)" using t(1,4) deps_ok_cong [of "t\<lparr>heap := ?h\<rparr>" t D] by (simp add: links_def)
        moreover have "taken_heap d s ?h" using f ld by (simp add: taken_heap_def same_inst_def)
        ultimately show ?thesis using f by (intro exI [of _ ?h] exI [of _ "[]"]) (simp add: taken_hooks_def)
      qed
    qed
  qed
qed

subsection \<open>The functional unit takes the instruction\<close>

lemma lsq_insert_ok:
  assumes I: "core_inv {} D pl s" and d: "pl d = Some (Waiting p)" and m: "isMem (d_inst (heap s d))"
    and t: "live t = live s" "calcWord (heap t d) = calcWord (heap s d)"
      "inflightInsts (cores t p) = inflightInsts (cores s p)" "instMap (cores t p) = instMap (cores s p)"
  shows "lsq_insert p d t = Some (upd_c p (\<lambda>c. c\<lparr>instMap := by_word s (ROB (cores s p) @ [d]),
    inflightInsts := set (filter (\<lambda>d. isMem (d_inst (heap s d))) (ROB (cores s p) @ [d]))\<rparr>) t)"
proof -
  note w = waiting_facts [OF I d] and Q = lsq_by_word [OF staticD(3) [OF core_invD(1) [OF I]]]
  let ?w = "calcWord (heap s d)" and ?rob = "ROB (cores s p)"
  let ?ws = "filter (\<lambda>x. calcWord (heap s x) = ?w) (filter (\<lambda>x. isMem (d_inst (heap s x))) ?rob)"
  have im: "(case instMap (cores s p) ?w of None \<Rightarrow> [] | Some q \<Rightarrow> q) = ?ws" using Q(2) [of p] by (simp add: by_word_def Let_def)
  have inf: "inflightInsts (cores s p) = set (filter (\<lambda>d. isMem (d_inst (heap s d))) ?rob)" using Q(1) .
  have "(instMap (cores s p))(?w \<mapsto> ?ws @ [d]) = by_word s (?rob @ [d])"
  proof (rule ext)
    fix x show "((instMap (cores s p))(?w \<mapsto> ?ws @ [d])) x = by_word s (?rob @ [d]) x"
      using Q(2) [of p] m by (cases "x = ?w") (auto simp: by_word_def Let_def)
  qed
  moreover have "insert d (set (filter (\<lambda>d. isMem (d_inst (heap s d))) ?rob)) = set (filter (\<lambda>d. isMem (d_inst (heap s d))) (?rob @ [d]))"
    using m by auto
  moreover have "d \<notin> inflightInsts (cores s p)" using inf w(8) by simp
  ultimately show ?thesis using im inf w(1) t by (simp add: lsq_insert_def Let_def upd_c_def deref_def)
qed

lemma by_word_skip: "\<not> isMem (d_inst (heap s d)) \<Longrightarrow> by_word s (xs @ [d]) = by_word s xs"
  by (simp add: by_word_def fun_eq_iff)

lemma newEntry_ok: "0 < windowSize (clusters (cores s p) k) \<Longrightarrow>
    newEntry p k s = Some (upd_cluster p k (\<lambda>c. c\<lparr>windowSize := windowSize c - 1\<rparr>) s)"
  by (simp add: newEntry_def Let_def)

lemma taken_plain:
  assumes I: "core_inv {} D pl s" and d: "pl d = Some (Waiting p)" and m: "\<not> isMem (d_inst (heap s d))"
    and w: "0 < windowSize (clusters (cores s p) (u_cluster (units (cores s p) (opcode (d_inst (heap s d))))))"
    and f: "issue_body c = issue_body (cores s p)" "ROB c = ROB (cores s p)" "regPool c = regPool (cores s p)" "RAT c = RAT (cores s p)"
      "freeLoads c = freeLoads (cores s p)" "freeStores c = freeStores (cores s p)"
      "inflightInsts c = inflightInsts (cores s p)" "instMap c = instMap (cores s p)"
      "clusters c = (clusters (cores s p))(u_cluster (units (cores s p) (opcode (d_inst (heap s d)))) :=
         (clusters (cores s p) (u_cluster (units (cores s p) (opcode (d_inst (heap s d))))))\<lparr>windowSize :=
            windowSize (clusters (cores s p) (u_cluster (units (cores s p) (opcode (d_inst (heap s d)))))) - 1\<rparr>)"
  shows "taken p d s D [] (s\<lparr>cores := (cores s)(p := c)\<rparr>)"
proof -
  note C = core_invD [OF I]
  have "\<forall>p. 0 \<le> freeLoads (cores s p) \<and> 0 \<le> freeStores (cores s p)" using staticD(2) [OF C(1)] by (auto simp: count_ok_def Let_def)
  then have "taken_core d s (cores s p) c"
    using w f lsq_by_word(1,2) [OF staticD(3) [OF C(1)], of p] m by (simp add: taken_core_def Let_def by_word_skip)
  moreover have "\<not> deadStore (heap s d)" "\<not> loadForwarded (heap s d)" "\<not> depsAtRetire (heap s d)"
    using placeD(12) [OF staticD(1) [OF C(1)] d] by (simp_all add: fresh_def)
  moreover have "deps_ok D (s\<lparr>cores := (cores s)(p := c)\<rparr>)" using C(2) deps_ok_cong [of "s\<lparr>cores := (cores s)(p := c)\<rparr>" s D] by simp
  moreover have "\<not> isStore (d_inst (heap s d))" using m by (simp add: isMem_def)
  ultimately show ?thesis by (simp add: taken_def taken_heap_def taken_hooks_def same_inst_def)
qed

lemma taken_mem:
  assumes I: "core_inv {} D pl s" and w: "0 < windowSize (clusters (cores s p) (u_cluster (units (cores s p) (opcode (d_inst (heap s d))))))"
    and h: "taken_heap d s h" "taken_hooks d s (h d) hs"
    and D': "\<And>cs st. deps_ok (hook d hs D) (s\<lparr>heap := h, stores := st, cores := cs\<rparr>)"
    and st: "st = (if isStore (d_inst (heap s d)) then (stores s)(calcWord (heap s d) \<mapsto> d) else stores s)"
    and f: "issue_body c = issue_body (cores s p)" "ROB c = ROB (cores s p)" "regPool c = regPool (cores s p)" "RAT c = RAT (cores s p)"
      "0 \<le> freeLoads c" "0 \<le> freeStores c" "instMap c = by_word s (ROB (cores s p) @ [d])"
      "inflightInsts c = set (filter (\<lambda>d. isMem (d_inst (heap s d))) (ROB (cores s p) @ [d]))"
      "clusters c = (clusters (cores s p))(u_cluster (units (cores s p) (opcode (d_inst (heap s d)))) :=
         (clusters (cores s p) (u_cluster (units (cores s p) (opcode (d_inst (heap s d))))))\<lparr>windowSize :=
            windowSize (clusters (cores s p) (u_cluster (units (cores s p) (opcode (d_inst (heap s d)))))) - 1\<rparr>)"
  shows "taken p d s D hs (s\<lparr>heap := h, stores := st, cores := (cores s)(p := c)\<rparr>)"
proof -
  have "taken_core d s (cores s p) c" unfolding taken_core_def Let_def using w f by simp
  then show ?thesis using h D' [of _ st] st by (simp add: taken_def)
qed

lemma Resource_canIssue_ok:
  assumes I: "core_inv {} D pl s" and d: "pl d = Some (Waiting p)" and ty: "ty = opcode (d_inst (heap s d))"
    and w: "0 < windowSize (clusters (cores s p) (cluster_no p ty s))"
  shows "\<exists>sc t. Resource_canIssue p ty d s = Some (sc, t) \<and> (sc \<noteq> NoStall \<longrightarrow> t = s) \<and> (sc = NoStall \<longrightarrow> (\<exists>hs. taken p d s D hs t))"
proof -
  note C = core_invD [OF I]
  let ?k = "cluster_no p ty s"
  have nn: "0 \<le> freeLoads (cores s p)" "0 \<le> freeStores (cores s p)" using staticD(2) [OF C(1)] by (auto simp: count_ok_def Let_def)
  have w': "0 < windowSize (clusters (cores s p) (u_cluster (units (cores s p) (opcode (d_inst (heap s d))))))" using w ty by (simp add: cluster_no_def)
  let ?s1 = "upd_cluster p ?k (\<lambda>c. c\<lparr>windowSize := windowSize c - 1\<rparr>) s"
  have ne: "newEntry p ?k s = Some ?s1" using newEntry_ok [OF w] .
  have D1: "deps_ok D ?s1" using C(2) deps_ok_cong [of ?s1 s D] by simp
  let ?ins = "\<lambda>c. c\<lparr>instMap := by_word s (ROB (cores s p) @ [d]),
    inflightInsts := set (filter (\<lambda>d. isMem (d_inst (heap s d))) (ROB (cores s p) @ [d]))\<rparr>"
  consider (ld) "ty = iLoad" | (st) "ty = iStore" | (bj) "ty = iBJ" | (other) "ty \<noteq> iLoad" "ty \<noteq> iStore" "ty \<noteq> iBJ" by blast
  then show ?thesis
  proof cases
    case ld
    show ?thesis
    proof (cases "freeLoads (cores s p) \<le> 0")
      case True
      then show ?thesis using ld nn by (simp add: Resource_canIssue_def FULoad_canIssue_def)
    next
      case False
      have m: "isLoad (d_inst (heap s d))" "isMem (d_inst (heap s d))" using ld ty by (simp_all add: isMem_def isLoad_def)
      obtain h hs where h: "getLoadEntry d ?s1 = Some (?s1\<lparr>heap := h\<rparr>)" "deps_ok (hook d hs D) (?s1\<lparr>heap := h\<rparr>)"
          "taken_heap d s h" "taken_hooks d s (h d) hs"
        using load_entry_ok [OF I d m(1), of ?s1] D1 by auto
      have cw: "calcWord (h d) = calcWord (heap s d)" using h(3) by (simp add: taken_heap_def same_inst_def calcWord_def)
      let ?t = "upd_c p (\<lambda>c. c\<lparr>freeLoads := freeLoads c - 1\<rparr>) (upd_c p ?ins (?s1\<lparr>heap := h\<rparr>))"
      have "lsq_insert p d (?s1\<lparr>heap := h\<rparr>) = Some (upd_c p ?ins (?s1\<lparr>heap := h\<rparr>))"
        by (rule lsq_insert_ok [OF I d m(2)]) (simp_all add: cw upd_cluster_def)
      then have r: "Resource_canIssue p ty d s = Some (NoStall, ?t)"
        using ld False ne h(1) by (simp add: Resource_canIssue_def FULoad_canIssue_def)
      have dk: "deps_ok (hook d hs D) (s\<lparr>heap := h, stores := st, cores := cs\<rparr>)" for st cs
        using h(2) deps_ok_cong [of "s\<lparr>heap := h, stores := st, cores := cs\<rparr>" "?s1\<lparr>heap := h\<rparr>"] by simp
      have "taken p d s D hs ?t"
        using taken_mem [OF I w' h(3,4) dk, of "stores s" "cores ?t p"] False nn ty ld
        by (simp add: isStore_def upd_c_def upd_cluster_def cluster_no_def issue_body_def)
      then show ?thesis using r by auto
    qed
  next
    case st
    show ?thesis
    proof (cases "freeStores (cores s p) \<le> 0")
      case True
      then show ?thesis using st nn by (simp add: Resource_canIssue_def FUStore_canIssue_def)
    next
      case False
      have m: "isStore (d_inst (heap s d))" "isMem (d_inst (heap s d))" using st ty by (simp_all add: isMem_def isStore_def)
      let ?sto = "(stores s)(calcWord (heap s d) \<mapsto> d)"
      obtain h where h: "getStoreEntry d ?s1 = Some (?s1\<lparr>heap := h, stores := ?sto\<rparr>)" "\<forall>y. links (h y) = links (heap s y)"
          "taken_heap d s h" "h d = heap s d"
        using store_entry_ok [OF I d m(1), of ?s1] by auto
      have cw: "calcWord (h d) = calcWord (heap s d)" using h(4) by simp
      let ?t = "upd_c p (\<lambda>c. c\<lparr>freeStores := freeStores c - 1\<rparr>) (upd_c p ?ins (?s1\<lparr>heap := h, stores := ?sto\<rparr>))"
      have "lsq_insert p d (?s1\<lparr>heap := h, stores := ?sto\<rparr>) = Some (upd_c p ?ins (?s1\<lparr>heap := h, stores := ?sto\<rparr>))"
        by (rule lsq_insert_ok [OF I d m(2)]) (simp_all add: cw upd_cluster_def)
      then have r: "Resource_canIssue p ty d s = Some (NoStall, ?t)"
        using st False ne h(1) by (simp add: Resource_canIssue_def FUStore_canIssue_def)
      have dk: "deps_ok (hook d [] D) (s\<lparr>heap := h, stores := st, cores := cs\<rparr>)" for st cs
        using C(2) h(2) deps_ok_cong [of "s\<lparr>heap := h, stores := st, cores := cs\<rparr>" s D] by simp
      have hk: "taken_hooks d s (h d) []"
        using placeD(12) [OF staticD(1) [OF C(1)] d] h(4) by (simp add: taken_hooks_def fresh_def)
      have "taken p d s D [] ?t"
        using taken_mem [OF I w' h(3) hk dk, of ?sto "cores ?t p"] False nn ty st
        by (simp add: isStore_def upd_c_def upd_cluster_def cluster_no_def issue_body_def)
      then show ?thesis using r by auto
    qed
  next
    case bj
    have m: "\<not> isMem (d_inst (heap s d))" using bj ty by (simp add: isMem_def isLoad_def isStore_def)
    let ?t = "upd_c p (\<lambda>c. c\<lparr>freeBranches := freeBranches c - 1\<rparr>) ?s1"
    have "Resource_canIssue p ty d s = Some (if freeBranches (cores s p) = 0 then (OutsBranchesStall, s) else (NoStall, ?t))"
      using bj ne by (simp add: Resource_canIssue_def FUBranch_canIssue_def)
    moreover have "taken p d s D [] ?t"
      using taken_plain [OF I d m w', of "cores ?t p"] ty bj by (simp add: upd_c_def upd_cluster_def cluster_no_def issue_body_def)
    ultimately show ?thesis by (cases "freeBranches (cores s p) = 0") auto
  next
    case other
    have m: "\<not> isMem (d_inst (heap s d))" using other ty by (simp add: isMem_def isLoad_def isStore_def)
    have "taken p d s D [] ?s1"
      using taken_plain [OF I d m w', of "cores ?s1 p"] ty by (simp add: upd_c_def upd_cluster_def cluster_no_def issue_body_def)
    then show ?thesis using other ne by (auto simp: Resource_canIssue_def FU_canIssue_def)
  qed
qed

subsection \<open>The processor takes the instruction\<close>

text \<open>The rest of \<open>sharedAddInst\<close>, the end of \<open>addInst\<close>, and the two together.\<close>

definition added :: "nat \<Rightarrow> nat \<Rightarrow> nat \<Rightarrow> InstType \<Rightarrow> world \<Rightarrow> world" where
  "added p d rp ty t = upd_d d (\<lambda>x. x\<lparr>d_resource := Some (p, ty)\<rparr>)
     (upd_c p (\<lambda>c. c\<lparr>sequenceCount := sequenceCount c + 1, ROB := ROB c @ [d]\<rparr>)
       (upd_d d (\<lambda>x. x\<lparr>coreID := int p, sequenceNum := sequenceCount (cores t p)\<rparr>)
         (upd_c p (\<lambda>c. c\<lparr>regPool := (regPool c)(rp := regPool c rp - 1)\<rparr>)
           (upd_d d (\<lambda>x. x\<lparr>issued := True\<rparr>) (t\<lparr>stamp := (stamp t)(d := issueNo t), issueNo := Suc (issueNo t)\<rparr>)))))"

definition named :: "nat \<Rightarrow> nat \<Rightarrow> nat \<Rightarrow> world \<Rightarrow> world" where
  "named p d r t = upd_c p (\<lambda>c. c\<lparr>RAT := (RAT c)(r \<mapsto> d)\<rparr>) (upd_d d (\<lambda>x. x\<lparr>RATEntry := Some (p, r)\<rparr>) t)"

lemma added_simps [simp]:
  "now (added p d rp ty t) = now t" "events (added p d rp ty t) = events t" "memReads (added p d rp ty t) = memReads t"
  "memWrites (added p d rp ty t) = memWrites t" "live (added p d rp ty t) = live t" "stores (added p d rp ty t) = stores t"
  "validVAddr (added p d rp ty t) = validVAddr t" "InstTable (added p d rp ty t) = InstTable t"
  "issueNo (added p d rp ty t) = Suc (issueNo t)" "stamp (added p d rp ty t) = (stamp t)(d := issueNo t)"
  "y \<noteq> d \<Longrightarrow> heap (added p d rp ty t) y = heap t y"
  "heap (added p d rp ty t) d = (heap t d)\<lparr>issued := True, coreID := int p, sequenceNum := sequenceCount (cores t p), d_resource := Some (p, ty)\<rparr>"
  "q \<noteq> p \<Longrightarrow> cores (added p d rp ty t) q = cores t q"
  "cores (added p d rp ty t) p = (cores t p)\<lparr>regPool := (regPool (cores t p))(rp := regPool (cores t p) rp - 1),
     sequenceCount := sequenceCount (cores t p) + 1, ROB := ROB (cores t p) @ [d]\<rparr>"
  by (simp_all add: added_def)

lemma named_simps [simp]:
  "now (named p d r t) = now t" "events (named p d r t) = events t" "memReads (named p d r t) = memReads t"
  "memWrites (named p d r t) = memWrites t" "live (named p d r t) = live t" "stores (named p d r t) = stores t"
  "validVAddr (named p d r t) = validVAddr t" "InstTable (named p d r t) = InstTable t"
  "issueNo (named p d r t) = issueNo t" "stamp (named p d r t) = stamp t"
  "heap (named p d r t) y = (if y = d then (heap t d)\<lparr>RATEntry := Some (p, r)\<rparr> else heap t y)"
  "cores (named p d r t) q = (if q = p then (cores t p)\<lparr>RAT := (RAT (cores t p))(r \<mapsto> d)\<rparr> else cores t q)"
  by (simp_all add: named_def)

lemma takenD:
  assumes "taken p d s D hs t"
  shows "now t = now s" "events t = events s" "memReads t = memReads s" "memWrites t = memWrites s" "live t = live s"
    "validVAddr t = validVAddr s" "InstTable t = InstTable s" "issueNo t = issueNo s" "stamp t = stamp s"
    "q \<noteq> p \<Longrightarrow> cores t q = cores s q" "taken_core d s (cores s p) (cores t p)" "taken_heap d s (heap t)"
    "stores t = (if isStore (d_inst (heap s d)) then (stores s)(calcWord (heap s d) \<mapsto> d) else stores s)"
    "deps_ok (hook d hs D) t" "taken_hooks d s (heap t d) hs"
proof -
  note t = assms [unfolded taken_def]
  have t0: "t = s\<lparr>heap := heap t, stores := stores t, cores := (cores s)(p := cores t p)\<rparr>" using t by blast
  show "now t = now s" "events t = events s" "memReads t = memReads s" "memWrites t = memWrites s" "live t = live s"
    "validVAddr t = validVAddr s" "InstTable t = InstTable s" "issueNo t = issueNo s" "stamp t = stamp s"
    using arg_cong [OF t0, of now] arg_cong [OF t0, of events] arg_cong [OF t0, of memReads] arg_cong [OF t0, of memWrites]
      arg_cong [OF t0, of live] arg_cong [OF t0, of validVAddr] arg_cong [OF t0, of InstTable] arg_cong [OF t0, of issueNo]
      arg_cong [OF t0, of stamp]
    by simp_all
  show "cores t q = cores s q" if "q \<noteq> p" using arg_cong [OF t0, of "\<lambda>t. cores t q"] that by simp
  show "taken_core d s (cores s p) (cores t p)" "taken_heap d s (heap t)"
    "stores t = (if isStore (d_inst (heap s d)) then (stores s)(calcWord (heap s d) \<mapsto> d) else stores s)"
    "deps_ok (hook d hs D) t" "taken_hooks d s (heap t d) hs" using t by blast+
qed

lemma added_issues:
  assumes I: "core_inv {} D pl s" and d: "pl d = Some (Waiting p)" and T: "taken p d s D hs t"
    and r: "rp = getDstPool (d_inst (heap s d))" "0 < regPool (cores s p) rp" "length (ROB (cores s p)) < MaxROBSize (cores s p)"
    and ty: "ty = opcode (d_inst (heap s d))"
  shows "issues p d s (setWakeUpTime d 0 (named p d (getDest (d_inst (heap s d))) (added p d rp ty t)))"
proof -
  note w = waiting_facts [OF I d]
  note e = takenD [OF T]
  let ?u = "setWakeUpTime d 0 (named p d (getDest (d_inst (heap s d))) (added p d rp ty t))"
  have "core_issued d s (cores s p) (cores ?u p)"
    using e(11) r by (auto simp: core_issued_def taken_core_def Let_def setWakeUpTime_def issue_body_def)
  moreover have "now_issued p (heap ?u d) (heap s d)"
    using e(12) w ty by (simp add: now_issued_def taken_heap_def same_inst_def setWakeUpTime_def)
  moreover have "same_inst (heap ?u y) (heap s y)" "deadStore (heap ?u y) = deadStore (heap s y) \<or>
      isStore (d_inst (heap s d)) \<and> stores s (calcWord (heap s d)) = Some y" if "y \<noteq> d" for y
    using e(12) that by (simp_all add: taken_heap_def setWakeUpTime_def)
  ultimately show ?thesis
    unfolding issues_def using e(1-10,13) by (simp add: setWakeUpTime_def)
qed

lemma issues_relinked:
  assumes U: "issues p d s (setWakeUpTime d 0 (named p d (getDest (d_inst (heap s d))) t))" and R: "relinked t t'"
  shows "issues p d s (setWakeUpTime d 0 (named p d (getDest (d_inst (heap s d))) t'))"
proof -
  note R = relinked_simps [OF R]
  have "same_inst (heap t' y) (heap t y)" "deadStore (heap t' y) = deadStore (heap t y)" for y by (simp_all add: same_inst_def R)
  then show ?thesis using U unfolding issues_def now_issued_def same_inst_def by (simp add: setWakeUpTime_def R)
qed

lemma sharedAddInst_ok:
  assumes I: "core_inv {} D pl s" and d: "pl d = Some (Waiting p)" and ty: "ty = opcode (d_inst (heap s d))"
  shows "\<exists>sc t'. sharedAddInst p d s = Some (sc, t') \<and> (sc \<noteq> NoStall \<longrightarrow> t' = s) \<and>
    (sc = NoStall \<longrightarrow> (\<exists>hs t. taken p d s D hs t \<and> t' = added p d (getDstPool (d_inst (heap s d))) ty t \<and>
       length (ROB (cores s p)) < MaxROBSize (cores s p) \<and> 0 < regPool (cores s p) (getDstPool (d_inst (heap s d)))))"
proof -
  note C = core_invD [OF I] and w = waiting_facts [OF I d]
  let ?rp = "getDstPool (d_inst (heap s d))" and ?k = "cluster_no p ty s"
  have dy: "dyn_ok s (heap s d)" using placeD(11) [OF staticD(1) [OF C(1)] w(1)] .
  then have rp3: "?rp < 3" by (simp add: dyn_ok_def instr_ok_def)
  have fr: "d_resource (heap s d) = None" using placeD(12) [OF staticD(1) [OF C(1)] d] by (simp add: fresh_def)
  have "\<forall>p. \<forall>r<3. regPool (cores s p) r + int (length (filter (\<lambda>d. getDstPool (d_inst (heap s d)) = r) (ROB (cores s p)))) = regs (cores s p) r"
    using staticD(2) [OF C(1)] unfolding count_ok_def Let_def by blast
  then have rle: "regPool (cores s p) r \<le> regs (cores s p) r" if "r < 3" for r using that by (metis (no_types, lifting) le_add_same_cancel1 of_nat_0_le_iff)
  consider (rob) "MaxROBSize (cores s p) \<le> length (ROB (cores s p))"
    | (reg) "length (ROB (cores s p)) < MaxROBSize (cores s p)" "regPool (cores s p) ?rp \<le> 0"
    | (win) "length (ROB (cores s p)) < MaxROBSize (cores s p)" "0 < regPool (cores s p) ?rp" "windowSize (clusters (cores s p) ?k) \<le> 0"
    | (go) "length (ROB (cores s p)) < MaxROBSize (cores s p)" "0 < regPool (cores s p) ?rp" "0 < windowSize (clusters (cores s p) ?k)"
    by linarith
  then show ?thesis
  proof cases
    case rob
    then show ?thesis by (simp add: sharedAddInst_def)
  next
    case reg
    then show ?thesis using w(1) rp3 by (simp add: sharedAddInst_def Let_def)
  next
    case win
    then show ?thesis using w(1) rp3 ty by (simp add: sharedAddInst_def Cluster_canIssue_def Let_def)
  next
    case go
    obtain sc t where r: "Resource_canIssue p ty d s = Some (sc, t)" "sc \<noteq> NoStall \<longrightarrow> t = s" "sc = NoStall \<longrightarrow> (\<exists>hs. taken p d s D hs t)"
      using Resource_canIssue_ok [OF I d ty go(3)] by blast
    show ?thesis
    proof (cases "sc = NoStall")
      case False
      then show ?thesis using r w(1) rp3 ty go by (simp add: sharedAddInst_def Cluster_canIssue_def Let_def)
    next
      case True
      then obtain hs where T: "taken p d s D hs t" using r(3) by blast
      note e = takenD [OF T]
      have h: "issued (heap t d) = issued (heap s d)" "executed (heap t d) = executed (heap s d)" "d_resource (heap t d) = None"
        "d_inst (heap t d) = d_inst (heap s d)"
        using e(12) fr by (simp_all add: taken_heap_def same_inst_def)
      have c: "regPool (cores t p) = regPool (cores s p)" "ROB (cores t p) = ROB (cores s p)"
        using e(11) unfolding taken_core_def Let_def by blast+
      have ib: "issue_body (cores t p) = issue_body (cores s p)" using e(11) unfolding taken_core_def Let_def by blast
      note ib = issue_body_fields [OF ib]
      have "sharedAddInst p d s = Some (NoStall, added p d ?rp ty t)"
        using r(1) True w(1-3) rp3 ty go rle [of 0] rle [of 1] h c ib e(5)
        by (auto simp: sharedAddInst_def Cluster_canIssue_def Let_def markIssued_def added_def regs_def upd_d_def upd_c_def deref_def)
      then show ?thesis using T go by blast
    qed
  qed
qed

subsection \<open>The instruction enters the window\<close>

lemma W_le: "finite (live s) \<Longrightarrow> W s \<le> 5 * card (live s)"
proof -
  assume "finite (live s)"
  have "W s \<le> (\<Sum>d\<in>live s. 5)" unfolding W_def by (rule sum_mono) (simp add: rank_def)
  then show ?thesis by simp
qed

lemma DepWindow_addInst_ok:
  assumes g: "good n call" and n: "5 * card (live u) \<le> n"
    and I: "core_inv {} D pl (if nDeps (heap u d) = 0 then put (SelectCB d) (setWakeUpTime d 0 u) else setWakeUpTime d 0 u)"
    and d: "d \<in> live u" "d_resource (heap u d) \<noteq> None"
  shows "\<exists>s' D'. DepWindow_addInst call p k d u = Some s' \<and> core_inv {} D' pl s' \<and> frame u s'"
proof -
  have fin: "finite (live u)" using live_finite [OF I] by (simp split: if_splits add: setWake_facts(4))
  have "deps_ok D u"
    using core_invD(2) [OF I] deps_ok_cong [of "if nDeps (heap u d) = 0 then put (SelectCB d) (setWakeUpTime d 0 u) else setWakeUpTime d 0 u" u D]
    by (simp add: setWake_facts split: if_splits)
  then have hd: "hasDeps d u = Some (nDeps (heap u d) \<noteq> 0)" using hasDeps_ok d(1) by blast
  show ?thesis
  proof (cases "nDeps (heap u d) = 0")
    case False
    let ?u0 = "setWakeUpTime d 0 u"
    have J: "core_inv {} D pl ?u0" using I False by simp
    have "rewake ?u0 (setWakeUpTime d (wakeUpTime (heap u d)) ?u0)"
      by (rule rewake_set) (use False in \<open>simp add: setWake_facts\<close>)
    moreover have "setWakeUpTime d (wakeUpTime (heap u d)) ?u0 = u" by (simp add: setWakeUpTime_def upd_d_def)
    ultimately have "core_inv {} D pl u" using rewake_inv(1) [OF _ J] by simp
    then show ?thesis using hd d False by (auto simp: DepWindow_addInst_def)
  next
    case True
    have J: "core_inv {} D pl (put (SelectCB d) (setWakeUpTime d 0 u))" using I True by simp
    have "ports_ok u" using core_invD(9) [OF J] by (simp add: ports_ok_def setWake_facts)
    then obtain t u2 where u2: "wakeUp_nextSlot p k u = Some (t, u2)" "quiet u u2" "now u \<le> t" using port_slot(1) by blast
    let ?t = "t + WakeUpDelay (clusters (cores u2 p) k)"
    have q: "quiet (put (SelectCB d) (setWakeUpTime d 0 u)) (put (SelectCB d) (setWakeUpTime d 0 u2))"
      by (intro quiet_put quiet_setWake u2(2))
    have K: "core_inv {} D pl (put (SelectCB d) (setWakeUpTime d 0 (setWakeUpTime d ?t u2)))"
      using quiet_inv [OF q J] by (simp add: setWake_twice)
    have w: "W (put (SelectCB d) (setWakeUpTime d 0 (setWakeUpTime d ?t u2))) \<le> n"
      using W_le [OF live_finite [OF K]] n u2(2) frame_simps(2) [of u u2] by (auto simp: setWake_facts quiet_def)
    have "0 < now u" using staticD(4) [OF core_invD(1) [OF J]] by (simp add: conf_ok_def setWakeUpTime_def)
    then have "0 < ?t" using u2(3) by simp
    then have "fin (W (put (SelectCB d) (setWakeUpTime d 0 (setWakeUpTime d ?t u2)))) {} D pl (setWakeUpTime d ?t u2)
        (preSelect call p k d (setWakeUpTime d ?t u2))"
      using K w setWake_facts(9) [of d ?t u2] by (intro preSelect_ok [OF g]) auto
    then obtain s' D' where s': "preSelect call p k d (setWakeUpTime d ?t u2) = Some s'" "core_inv {} D' pl s'"
        "frame (setWakeUpTime d ?t u2) s'" by (auto simp: fin_def)
    have "frame u s'" using u2(2) frame_trans [OF frame_trans [OF _ setWake_facts(1)] s'(3)] by (auto simp: quiet_def)
    then show ?thesis using hd d True u2(1) s' by (auto simp: DepWindow_addInst_def)
  qed
qed

lemma RAT_producer:
  assumes I: "core_inv {} D pl s" and r: "r < InvalidOutput" "RAT (cores s p) r = Some q"
  shows "q \<in> live s" "issued (heap s q)" "\<not> executed (heap s q)" "\<not> isStore (d_inst (heap s q))" "r \<noteq> NoDependence"
proof -
  note P = placeD [OF staticD(1) [OF core_invD(1) [OF I]]] and R = RAT_writer [OF I r]
  have p: "pl q = Some (InROB p)" using P(4) [of q p] R(2) by simp
  show l: "q \<in> live s" using P(2) p by auto
  show "issued (heap s q)" using P(13) [OF p] by (simp add: runs_on_def)
  show "\<not> executed (heap s q)" using R(3) .
  have i: "instr_ok (d_inst (heap s q))" using P(11) [OF l] by (simp add: dyn_ok_def)
  then show "\<not> isStore (d_inst (heap s q))" "r \<noteq> NoDependence" using R(1) r(1) by (auto simp: instr_ok_def)
qed

text \<open>A source: the instruction goes into the list of the producer when there is one.\<close>

lemma add_source:
  assumes D: "deps_ok (hook d hs D) t" and q: "\<And>q. pr = Some q \<Longrightarrow> q \<in> live t" and d: "d \<in> live t" and k: "k < 2"
    and u: "\<And>q. pr = Some q \<Longrightarrow> \<not> isUsed (heap t d) k"
  shows "\<exists>t'. (case pr of None \<Rightarrow> Some t | Some q \<Rightarrow> addSrc k q d t) = Some t' \<and>
    deps_ok (hook d (hs @ (case pr of None \<Rightarrow> [] | Some q \<Rightarrow> [(q, k)])) D) t' \<and> relinked t t'"
proof (cases pr)
  case None
  have "relinked t t" unfolding relinked_def by (intro exI [of _ "heap t"]) simp
  then show ?thesis using D None by simp
next
  case (Some r)
  then show ?thesis using addSrc_ok [OF D q [OF Some] d k u [OF Some]] by (auto simp: hook_snoc)
qed

lemma relinked_trans: "relinked s t \<Longrightarrow> relinked t u \<Longrightarrow> relinked s u"
  by (auto simp: relinked_def)

end
