(* ===== verification/Core_AddInst.thy ===== *)
theory Core_AddInst
  imports Core_Add
begin

text \<open>\<open>Processor::addInst\<close>, the loops of \<open>issue\<close>, and \<open>advanceClock\<close>.\<close>

subsection \<open>The operation \<open>addInst\<close>\<close>

lemma taken_hookD:
  assumes I: "core_inv {} D pl s" and T: "taken_hooks d s x hs" and h: "(q, k) \<in> set hs"
  shows "k = 1" "q \<in> live s" "issued (heap s q)" "isStore (d_inst (heap s q))" "isLoad (d_inst (heap s d))"
    "executed (heap s q) \<Longrightarrow> depsAtRetire x"
proof -
  obtain w where w: "k = 1" "stores s w = Some q" "isLoad (d_inst (heap s d))" "executed (heap s q) \<longrightarrow> depsAtRetire x"
    using T h by (auto simp: taken_hooks_def)
  then show "k = 1" "isLoad (d_inst (heap s d))" "executed (heap s q) \<Longrightarrow> depsAtRetire x" by simp_all
  show "q \<in> live s" "issued (heap s q)" "isStore (d_inst (heap s q))" using stores_facts [OF I w(2)] by simp_all
qed

lemma addInst_ok:
  assumes g: "good n call" and I: "core_inv {} D pl s" and d: "pl d = Some (Waiting p)" and n: "5 * card (live s) \<le> n"
  shows "\<exists>sc s'. Processor_addInst call p d s = Some (sc, s') \<and> (sc \<noteq> NoStall \<longrightarrow> s' = s) \<and>
    (sc = NoStall \<longrightarrow> (\<exists>D' u. core_inv {} D' (pl(d := Some (InROB p))) s' \<and> issues p d s (setWakeUpTime d 0 u) \<and> frame u s'))"
proof -
  note C = core_invD [OF I] and w = waiting_facts [OF I d]
  let ?i = "d_inst (heap s d)"
  have dy: "dyn_ok s (heap s d)" using placeD(11) [OF staticD(1) [OF C(1)] w(1)] .
  then have io: "getSrc1 ?i < InvalidOutput" "getSrc2 ?i < InvalidOutput" "getDest ?i \<le> InvalidOutput"
      "isLoad ?i \<Longrightarrow> getSrc2 ?i = NoDependence" by (simp_all add: dyn_ok_def instr_ok_def)
  have fr: "RATEntry (heap s d) = None" using placeD(12) [OF staticD(1) [OF C(1)] d] by (simp add: fresh_def)
  have nio: "\<not> InOrderCore (cores s p)" using staticD(4) [OF C(1)] unfolding conf_ok_def by blast
  have rg: "RAT_get p (getSrc1 ?i) s = Some (RAT (cores s p) (getSrc1 ?i))" "RAT_get p (getSrc2 ?i) s = Some (RAT (cores s p) (getSrc2 ?i))"
    "RAT_get p (getDest ?i) s = Some (RAT (cores s p) (getDest ?i))"
    using io by (simp_all add: RAT_get_def InvalidOutput_def NumArchRegs_def)
  obtain sc t' where sa: "sharedAddInst p d s = Some (sc, t')" "sc \<noteq> NoStall \<longrightarrow> t' = s"
    "sc = NoStall \<longrightarrow> (\<exists>hs t. taken p d s D hs t \<and> t' = added p d (getDstPool ?i) (opcode ?i) t \<and>
       length (ROB (cores s p)) < MaxROBSize (cores s p) \<and> 0 < regPool (cores s p) (getDstPool ?i))"
    using sharedAddInst_ok [OF I d refl] by blast
  show ?thesis
  proof (cases "sc = NoStall")
    case False
    then show ?thesis using w(1) nio rg sa by (simp add: Processor_addInst_def Let_def)
  next
    case True
    then obtain hs t where T: "taken p d s D hs t" and t': "t' = added p d (getDstPool ?i) (opcode ?i) t"
      and r: "length (ROB (cores s p)) < MaxROBSize (cores s p)" "0 < regPool (cores s p) (getDstPool ?i)" using sa(3) by blast
    note e = takenD [OF T]
    have th: "same_inst ((heap t d)\<lparr>depsAtRetire := depsAtRetire (heap s d), loadForwarded := loadForwarded (heap s d)\<rparr>) (heap s d)"
      using e(12) by (simp add: taken_heap_def)
    let ?y = "heap t' d"
    have y: "d_resource ?y = Some (p, opcode ?i)" "RATEntry ?y = None" "depsAtRetire ?y = depsAtRetire (heap t d)" "d_inst ?y = ?i"
      using th fr by (simp_all add: t' same_inst_def)
    have lv: "live t' = live s" by (simp add: t' e)
    have RAT: "RAT (cores t' p) = RAT (cores s p)" using e(11) by (simp add: t' taken_core_def Let_def)
    have un: "units (cores t' p) = units (cores s p)"
    proof -
      have "issue_body (cores t p) = issue_body (cores s p)" using e(11) unfolding taken_core_def Let_def by blast
      from issue_body_fields(7) [OF this] show ?thesis by (simp add: t')
    qed
    have U: "issues p d s (setWakeUpTime d 0 (named p d (getDest ?i) t'))"
      unfolding t' by (rule added_issues [OF I d T refl r(2,1) refl])
    have Dt: "deps_ok (hook d hs D) t'"
    proof -
      have "links (heap t' z) = links (heap t z)" for z by (cases "z = d") (simp_all add: t' links_def)
      then show ?thesis using e(14) deps_ok_cong [of t' t "hook d hs D"] lv e(5) by simp
    qed
    have wn: "(d, k) \<notin> nodes D" for k using w(7) by (auto simp: nodes_def)
    note hk = taken_hookD [OF I e(15)]
    have used0: "\<not> isUsed ?y 0"
    proof -
      have "(d, 0) \<notin> nodes (hook d hs D)" using wn by (auto simp: hook_nodes dest: hk(1))
      then show ?thesis using deps_use(2) [OF Dt, of d 0] w(1) lv by simp
    qed
    have used1: "isUsed ?y 1 \<longleftrightarrow> hs \<noteq> []"
    proof -
      have "(d, 1) \<in> nodes (hook d hs D) \<longleftrightarrow> hs \<noteq> []" using wn e(15) by (auto simp: hook_nodes taken_hooks_def)
      then show ?thesis using deps_use(2) [OF Dt, of d 1] w(1) lv by simp
    qed
    let ?p1 = "RAT (cores s p) (getSrc1 ?i)"
    let ?p2 = "if hs = [] then RAT (cores s p) (getSrc2 ?i) else None"
    let ?h1 = "hs @ (case ?p1 of None \<Rightarrow> [] | Some q \<Rightarrow> [(q, 0)])"
    let ?h2 = "?h1 @ (case ?p2 of None \<Rightarrow> [] | Some q \<Rightarrow> [(q, 1)])"
    have p1: "q \<in> live s" "issued (heap s q)" "\<not> executed (heap s q)" "\<not> isStore (d_inst (heap s q))" "q \<noteq> d" if "?p1 = Some q" for q
      using RAT_producer [OF I io(1) that] w(2) by auto
    have p2: "q \<in> live s" "issued (heap s q)" "\<not> executed (heap s q)" "\<not> isStore (d_inst (heap s q))" "q \<noteq> d" "hs = []" if "?p2 = Some q" for q
      using RAT_producer [OF I io(2), of p q] w(2) that by (auto split: if_splits)
    obtain s2 where s2: "(case ?p1 of None \<Rightarrow> Some t' | Some q \<Rightarrow> addSrc 0 q d t') = Some s2" "deps_ok (hook d ?h1 D) s2" "relinked t' s2"
      using add_source [OF Dt, of ?p1 0] p1(1) used0 w(1) lv by auto
    note r2 = relinked_simps [OF s2(3)]
    have u2: "\<not> isUsed (heap s2 d) 1" if "?p2 = Some q" for q
    proof -
      have "(d, 1) \<notin> nodes (hook d ?h1 D)" using wn p2(6) [OF that] by (auto simp: hook_nodes split: option.splits)
      then show ?thesis using deps_use(2) [OF s2(2), of d 1] w(1) r2 lv by simp
    qed
    obtain s3 where s3: "(case ?p2 of None \<Rightarrow> Some s2 | Some q \<Rightarrow> addSrc 1 q d s2) = Some s3" "deps_ok (hook d ?h2 D) s3" "relinked s2 s3"
      using add_source [OF s2(2), of ?p2 1] p2(1) u2 w(1) lv r2 by (auto split del: if_split)
    note rl = relinked_trans [OF s2(3) s3(3)]
    note r3 = relinked_simps [OF rl]
    let ?u = "named p d (getDest ?i) s3"
    have U3: "issues p d s (setWakeUpTime d 0 ?u)" by (rule issues_relinked [OF U rl])
    have lk: "links (heap (setWakeUpTime d 0 ?u) z) = links (heap s3 z)" for z
      by (cases "z = d") (simp_all add: setWakeUpTime_def links_def)
    have D3: "deps_ok (hook d ?h2 D) (setWakeUpTime d 0 ?u)"
      using s3(2) deps_ok_cong [of "setWakeUpTime d 0 ?u" s3 "hook d ?h2 D"] lk by (simp add: setWakeUpTime_def)
    have mem: "(q, k) \<in> set ?h2 \<longleftrightarrow> (q, k) \<in> set hs \<or> ?p1 = Some q \<and> k = 0 \<or> ?p2 = Some q \<and> k = 1" for q k
      by (auto split: option.splits)
    have dr: "depsAtRetire (heap (setWakeUpTime d 0 ?u) d) = depsAtRetire (heap t d)"
      using y(3) r3 by (simp add: setWakeUpTime_def)
    have H: "hooks_ok s p d (heap (setWakeUpTime d 0 ?u) d) ?h2"
      unfolding hooks_ok_def dr
    proof (intro conjI allI impI)
      have "q \<in> live s \<and> q \<noteq> d \<and> issued (heap s q) \<and> (\<not> isStore (d_inst (heap s q)) \<longrightarrow> \<not> executed (heap s q)) \<and>
          (isStore (d_inst (heap s q)) \<longrightarrow> k = 1 \<and> isLoad ?i \<and> (executed (heap s q) \<longrightarrow> depsAtRetire (heap t d)))"
        if "(q, k) \<in> set ?h2" for q k
        using that [unfolded mem] hk [of q k] p1 [of q] p2 [of q] w(2) by blast
      then show "\<forall>(q, k)\<in>set ?h2. q \<in> live s \<and> q \<noteq> d \<and> issued (heap s q) \<and> (\<not> isStore (d_inst (heap s q)) \<longrightarrow> \<not> executed (heap s q)) \<and>
          (isStore (d_inst (heap s q)) \<longrightarrow> k = 1 \<and> isLoad ?i \<and> (executed (heap s q) \<longrightarrow> depsAtRetire (heap t d)))" by blast
      show "\<exists>q. (q, 1) \<in> set ?h2 \<and> isStore (d_inst (heap s q))" if "depsAtRetire (heap t d)"
        using that e(15) hk(4) unfolding mem by (auto simp: taken_hooks_def)
      show "(q, 0) \<in> set ?h2" if "?p1 = Some q" for q using that unfolding mem by blast
      show "(q, 1) \<in> set ?h2" if q: "RAT (cores s p) (getSrc2 ?i) = Some q" for q
      proof (cases "hs = []")
        case True
        then show ?thesis using q unfolding mem by simp
      next
        case False
        then obtain r k where "(r, k) \<in> set hs" by (cases hs) auto
        then have "getSrc2 ?i = NoDependence" using hk(5) io(4) by blast
        then show ?thesis using RAT_producer(5) [OF I io(2) q] by simp
      qed
    qed
    have J: "core_inv {} (hook d ?h2 D) (pl(d := Some (InROB p)))
        (if nDeps (heap ?u d) = 0 then put (SelectCB d) (setWakeUpTime d 0 ?u) else setWakeUpTime d 0 ?u)"
      using issue_inv [OF I d U3 D3 H] by (simp add: setWake_facts)
    obtain s' D' where s': "DepWindow_addInst call p (cluster_no p (opcode ?i) ?u) d ?u = Some s'" "core_inv {} D' (pl(d := Some (InROB p))) s'" "frame ?u s'"
      using DepWindow_addInst_ok [OF g _ J, of p "cluster_no p (opcode ?i) ?u"] n w(1) lv r3(1,25) y(1) by auto
    have a1: "(case RAT (cores t' p) (getSrc1 ?i) of None \<Rightarrow> Some t' | Some q \<Rightarrow> addSrc1 q d t') = Some s2"
      using s2(1) unfolding addSrc1_def RAT .
    have a2: "(if isUsed ?y 1 then Some s2 else (case RAT (cores s2 p) (getSrc2 ?i) of None \<Rightarrow> Some s2 | Some q \<Rightarrow> addSrc2 q d s2)) = Some s3"
      using s3(1) unfolding addSrc2_def r2(8) RAT used1 by (cases "hs = []") simp_all
    have "deref d t' = Some ?y" using w(1) lv by simp
    then have "Processor_addInst call p d s = Some (NoStall, s')"
      using w(1) nio rg sa(1) True y(1,2) a1 a2 s'(1) by (simp add: Processor_addInst_def Let_def named_def [symmetric])
    then show ?thesis using s' U3 True by blast
  qed
qed

end
