(* ===== verification/Core_Cycle.thy ===== *)
theory Core_Cycle
  imports Core_AddInst
begin

text \<open>The loops of \<open>issue\<close>, and \<open>advanceClock\<close>.\<close>

subsection \<open>The queues in front of the core\<close>

definition exec_body :: "core \<Rightarrow> core" where
  "exec_body c = c\<lparr>instQueue := [], pipe := [], spaceInInstQueue := 0, clockTicks := 0, canAcceptLoad := \<lambda>_. False,
     canAcceptStore := \<lambda>_. False, getNextFreeCycle := 0\<rparr>"

lemma exec_body_fields:
  assumes "exec_body x = exec_body y"
  shows "FetchWidth x = FetchWidth y" "InstQueueSize x = InstQueueSize y" "InOrderCore x = InOrderCore y"
    "MaxROBSize x = MaxROBSize y" "intRegs x = intRegs y" "fpRegs x = fpRegs y" "units x = units y"
    "replayQ x = replayQ y" "ROB x = ROB y" "RAT x = RAT y" "regPool x = regPool y" "clusters x = clusters y"
    "gens x = gens y" "freeLoads x = freeLoads y" "freeStores x = freeStores y" "pendingFence x = pendingFence y"
    "nOutsStores x = nOutsStores y" "inflightInsts x = inflightInsts y" "instMap x = instMap y"
    "RetireWidth x = RetireWidth y"
  using arg_cong [OF assms, of FetchWidth] arg_cong [OF assms, of InstQueueSize] arg_cong [OF assms, of InOrderCore]
    arg_cong [OF assms, of MaxROBSize] arg_cong [OF assms, of intRegs] arg_cong [OF assms, of fpRegs]
    arg_cong [OF assms, of units] arg_cong [OF assms, of replayQ] arg_cong [OF assms, of ROB] arg_cong [OF assms, of RAT]
    arg_cong [OF assms, of regPool] arg_cong [OF assms, of clusters] arg_cong [OF assms, of gens]
    arg_cong [OF assms, of freeLoads] arg_cong [OF assms, of freeStores] arg_cong [OF assms, of pendingFence]
    arg_cong [OF assms, of nOutsStores] arg_cong [OF assms, of inflightInsts] arg_cong [OF assms, of instMap]
    arg_cong [OF assms, of RetireWidth]
  by (simp_all add: exec_body_def)

definition front_ok :: "(nat \<Rightarrow> place option) \<Rightarrow> nat \<Rightarrow> core \<Rightarrow> bool" where
  "front_ok pl p c \<longleftrightarrow> distinct (concat (instQueue c) @ concat (pipe c)) \<and>
     {d. pl d = Some (Waiting p)} \<subseteq> set (concat (instQueue c) @ concat (pipe c)) \<and>
     [] \<notin> set (instQueue c) \<and> [] \<notin> set (pipe c) \<and>
     spaceInInstQueue c + int (length (concat (instQueue c))) \<le> int (InstQueueSize c) \<and> 0 \<le> spaceInInstQueue c \<and>
     (\<forall>b\<in>set (pipe c). length b \<le> FetchWidth c)"

lemma static_front: "static_ok pl s \<Longrightarrow> front_ok pl p (cores s p)"
  unfolding static_ok_def place_ok_def count_ok_def front_ok_def Let_def by blast

lemma core_inv_cores:
  assumes I: "core_inv E D pl s" and B: "\<And>p. exec_body (cs p) = exec_body (cores s p)" and F: "\<And>p. front_ok pl p (cs p)"
  shows "core_inv E D pl (s\<lparr>cores := cs\<rparr>)" "W (s\<lparr>cores := cs\<rparr>) = W s"
proof -
  let ?t = "s\<lparr>cores := cs\<rparr>"
  note C = core_invD [OF I] and e = exec_body_fields [OF B]
  note P = placeD [OF staticD(1) [OF C(1)]]
  have place: "place_ok pl ?t"
    unfolding place_ok_def
  proof (intro conjI allI ballI impI)
    show "finite (live ?t)" "live ?t = dom pl" using P(1,2) by simp_all
    show "distinct (ROB (cores ?t q))" "set (ROB (cores ?t q)) = {d. pl d = Some (InROB q)}" for q
      using P(3) [of q] P(4) [of _ q] by (auto simp: e)
    show "distinct (concat (instQueue (cores ?t q)) @ concat (pipe (cores ?t q)))"
      "{d. pl d = Some (Waiting q)} \<subseteq> set (concat (instQueue (cores ?t q)) @ concat (pipe (cores ?t q)))"
      "[] \<notin> set (instQueue (cores ?t q))" "[] \<notin> set (pipe (cores ?t q))" for q
      using F [of q] unfolding front_ok_def by simp_all
    show "replayQ (cores ?t q) = []" for q using P(9) [of q] by (simp add: e)
    show "count (memWrites ?t) d = of_bool (\<exists>p. pl d = Some (Sent p))" for d using P(10) [of d] by simp
    show "dyn_ok ?t (heap ?t d)" if "d \<in> live ?t" for d using P(11) [of d] that by (simp add: dyn_ok_def)
    show "fresh (heap ?t d)" if "pl d = Some (Waiting q)" for d q using P(12) [OF that] by simp
    show "runs_on q (heap ?t d)" if "pl d = Some (InROB q) \<or> pl d = Some (Sent q) \<or> pl d = Some (Dying q)" for d q
      using P(13-15) [of d q] that by auto
    show "isStore (d_inst (heap ?t d)) \<or> isFence (d_inst (heap ?t d))" if "pl d = Some (Sent q)" for d q
      using P(16) [OF that] by simp
  qed
  have rg: "regs (cs p) = regs (cores s p)" for p by (simp add: regs_def fun_eq_iff e)
  have "count_ok pl ?t"
  proof -
    have K: "count_ok pl s" using staticD(2) [OF C(1)] .
    show ?thesis
      unfolding count_ok_def Let_def
    proof (rule allI, intro conjI)
      fix p
      note k = K [unfolded count_ok_def Let_def, THEN spec, of p] and f = F [of p, unfolded front_ok_def]
      show "\<forall>r<3. 0 \<le> regPool (cores ?t p) r \<and> regPool (cores ?t p) r +
          int (length (filter (\<lambda>d. getDstPool (d_inst (heap ?t d)) = r) (ROB (cores ?t p)))) = regs (cores ?t p) r"
        using k by (simp add: e rg)
      show "0 \<le> freeLoads (cores ?t p)" "0 \<le> freeStores (cores ?t p)"
        "nOutsStores (cores ?t p) = int (card {d. pl d = Some (Sent p)})"
        "length (ROB (cores ?t p)) \<le> MaxROBSize (cores ?t p)"
        using k by (simp_all add: e)
      show "pendingFence (cores ?t p) \<longrightarrow> 0 < nOutsStores (cores ?t p)" using k by (auto simp: e)
      show "spaceInInstQueue (cores ?t p) + int (length (concat (instQueue (cores ?t p)))) \<le> int (InstQueueSize (cores ?t p))"
        "0 \<le> spaceInInstQueue (cores ?t p)" "\<forall>b\<in>set (pipe (cores ?t p)). length b \<le> FetchWidth (cores ?t p)"
        using f by simp_all
    qed
  qed
  moreover have "lsq_ok pl ?t" using C(1) unfolding static_ok_def lsq_ok_def Let_def by (simp add: e)
  moreover have "conf_ok ?t = conf_ok s" by (simp add: conf_ok_def e)
  ultimately have "static_ok pl ?t" using place C(1) by (simp add: static_ok_def)
  moreover have "deps_ok D ?t" using C(2) deps_ok_cong [of ?t s D] by simp
  moreover have ev: "evs ?t = evs s" by (simp add: evs_def)
  moreover have "act_ok ?t" using C(3) by (simp add: act_ok_def acts_def ready_def ev)
  moreover have "win_ok ?t"
  proof -
    have "holds ?t p k = holds s p k" "is_issued_cb ?t p k = is_issued_cb s p k" for p k
      by (simp_all add: fun_eq_iff holds_def unstarted_def is_issued_cb_def cluster_no_def ev e split: recycle.split cev.split)
    then have "used ?t p k = used s p k" for p k by (simp add: used_def ev e)
    then show ?thesis using C(4) by (simp add: win_ok_def e)
  qed
  moreover have "writer ?t = writer s" by (simp add: fun_eq_iff writer_def dest_def)
  moreover have "rat_ok ?t" using C(5) calculation(6) by (simp add: rat_ok_def e split: option.split)
  moreover have "dep_ok D ?t" using C(6) calculation(6) by (simp add: dep_ok_def e)
  moreover have "ret_ok E D pl ?t" using C(7) by (simp add: ret_ok_def)
  moreover have "stamp_ok D ?t" using C(8) by (simp add: stamp_ok_def e)
  moreover have "ports_ok ?t" "time_ok ?t" using C(9,10) by (simp_all add: ports_ok_def time_ok_def e)
  ultimately show "core_inv E D pl ?t" by (simp add: core_inv_def)
  show "W ?t = W s" by (rule W_same) (simp_all add: rank_def ev)
qed

lemma core_inv_upd_c:
  assumes "core_inv E D pl s" "exec_body (f (cores s p)) = exec_body (cores s p)" "front_ok pl p (f (cores s p))"
  shows "core_inv E D pl (upd_c p f s)" "W (upd_c p f s) = W s"
proof -
  have "front_ok pl q (cores s q)" for q using static_front core_invD(1) [OF assms(1)] by blast
  then show "core_inv E D pl (upd_c p f s)" "W (upd_c p f s) = W s"
    using core_inv_cores [OF assms(1), of "(cores s)(p := f (cores s p))"] assms(2,3) by (simp_all add: upd_c_def)
qed

subsection \<open>The loop of \<open>issue\<close>\<close>

lemma issues_front:
  assumes "issues p d s (setWakeUpTime d 0 u)" "frame u s'"
  shows "live s' = live s" "instQueue (cores s' q) = instQueue (cores s q)" "pipe (cores s' q) = pipe (cores s q)"
    "spaceInInstQueue (cores s' q) = spaceInInstQueue (cores s q)" "InstQueueSize (cores s' q) = InstQueueSize (cores s q)"
    "FetchWidth (cores s' q) = FetchWidth (cores s q)"
proof -
  note u = issuesD [OF assms(1)] and f = frame_simps [OF assms(2)]
  have "issue_body (cores u p) = issue_body (cores s p)"
    using u(12) unfolding core_issued_def Let_def by (simp add: setWakeUpTime_def)
  note ib = issue_body_fields [OF this]
  have o: "q \<noteq> p \<Longrightarrow> cores u q = cores s q" using u(11) [of q] by (simp add: setWakeUpTime_def)
  show "live s' = live s" using u(5) f by (simp add: setWakeUpTime_def)
  show "instQueue (cores s' q) = instQueue (cores s q)" "pipe (cores s' q) = pipe (cores s q)"
    "spaceInInstQueue (cores s' q) = spaceInInstQueue (cores s q)" "InstQueueSize (cores s' q) = InstQueueSize (cores s q)"
    "FetchWidth (cores s' q) = FetchWidth (cores s q)"
    using o ib f by (cases "q = p"; simp)+
qed

text \<open>The instruction at the head of the queue is taken off.\<close>

definition pop_inst :: "nat \<Rightarrow> nat list \<Rightarrow> nat list list \<Rightarrow> world \<Rightarrow> world" where
  "pop_inst p ds rest = upd_c p (\<lambda>c. c\<lparr>instQueue := (if ds = [] then rest else ds # rest)\<rparr>)"

lemma pop_inst_ok:
  assumes q: "queued pl s" and I: "core_inv {} D (pl(d := Some (InROB p))) s'" and iq: "instQueue (cores s p) = (d # ds) # rest"
    and f: "\<And>q. instQueue (cores s' q) = instQueue (cores s q)" "\<And>q. pipe (cores s' q) = pipe (cores s q)"
  shows "core_ok D (pl(d := Some (InROB p))) (pop_inst p ds rest s')" "W (pop_inst p ds rest s') = W s'"
proof -
  let ?pl = "pl(d := Some (InROB p))" and ?f = "\<lambda>c. c\<lparr>instQueue := (if ds = [] then rest else ds # rest)\<rparr>"
  have F: "front_ok ?pl p (cores s' p)" using static_front core_invD(1) [OF I] by blast
  have cc: "concat (instQueue (?f (cores s' p))) = ds @ concat rest" by simp
  have W: "pl z = Some (Waiting r) \<longleftrightarrow> z \<in> set (concat (instQueue (cores s r)) @ concat (pipe (cores s r)))" for z r
    using q unfolding queued_def by blast
  have dist: "distinct ((d # ds @ concat rest) @ concat (pipe (cores s p)))" using F iq f by (simp add: front_ok_def)
  have sets: "set (concat (instQueue (?f (cores s' p))) @ concat (pipe (?f (cores s' p)))) = {z. ?pl z = Some (Waiting p)}"
    unfolding cc set_eq_iff using W [of _ p] dist iq f by (auto split: if_splits)
  have "front_ok ?pl p (?f (cores s' p))"
    unfolding front_ok_def
  proof (intro conjI)
    show "distinct (concat (instQueue (?f (cores s' p))) @ concat (pipe (?f (cores s' p))))" using dist f unfolding cc by simp
    show "{z. ?pl z = Some (Waiting p)} \<subseteq> set (concat (instQueue (?f (cores s' p))) @ concat (pipe (?f (cores s' p))))" using sets by simp
    show "[] \<notin> set (instQueue (?f (cores s' p)))" "[] \<notin> set (pipe (?f (cores s' p)))" "0 \<le> spaceInInstQueue (?f (cores s' p))"
      "\<forall>b\<in>set (pipe (?f (cores s' p))). length b \<le> FetchWidth (?f (cores s' p))" using F iq f by (auto simp: front_ok_def)
    show "spaceInInstQueue (?f (cores s' p)) + int (length (concat (instQueue (?f (cores s' p))))) \<le> int (InstQueueSize (?f (cores s' p)))"
      using F iq f unfolding cc by (auto simp: front_ok_def)
  qed
  note J = core_inv_upd_c [where f = ?f and p = p, OF I _ this]
  have "queued ?pl (pop_inst p ds rest s')"
    unfolding queued_def
  proof (intro conjI allI)
    fix r z
    show "set (concat (instQueue (cores (pop_inst p ds rest s') r)) @ concat (pipe (cores (pop_inst p ds rest s') r))) = {z. ?pl z = Some (Waiting r)}"
    proof (cases "r = p")
      case True
      then show ?thesis using sets by (simp add: pop_inst_def upd_c_def)
    next
      case False
      have "pl d = Some (Waiting p)" using W [of d p] iq by simp
      then have "z \<noteq> d" if "pl z = Some (Waiting r)" for z using that False by auto
      moreover have "{z. pl z = Some (Waiting r)} = set (concat (instQueue (cores s r)) @ concat (pipe (cores s r)))" using W [of _ r] by blast
      ultimately have "{z. ?pl z = Some (Waiting r)} = set (concat (instQueue (cores s r)) @ concat (pipe (cores s r)))"
        by (auto simp: set_eq_iff)
      then show ?thesis using False f by (simp add: pop_inst_def upd_c_def)
    qed
    show "?pl z \<noteq> Some (Dying r)" using q unfolding queued_def by simp
  qed
  then show "core_ok D ?pl (pop_inst p ds rest s')" "W (pop_inst p ds rest s') = W s'"
    using J by (simp_all add: core_ok_def pop_inst_def exec_body_def)
qed

lemma issue_loop_ok:
  assumes g: "good N call" and "core_ok D pl s" "5 * card (live s) \<le> N"
  shows "\<exists>k s' D' pl'. issue_loop call p n i s = Some (i + k, s') \<and> core_ok D' pl' s' \<and> live s' = live s \<and>
    (\<forall>q. spaceInInstQueue (cores s' q) = spaceInInstQueue (cores s q)) \<and> (\<forall>q. InstQueueSize (cores s' q) = InstQueueSize (cores s q)) \<and>
    length (concat (instQueue (cores s' p))) + k = length (concat (instQueue (cores s p))) \<and> k \<le> n \<and>
    (\<forall>d q. pl' d = Some (Waiting q) \<longrightarrow> pl d = Some (Waiting q)) \<and> (k = 0 \<longrightarrow> s' = s \<and> pl' = pl) \<and>
    (0 < k \<longrightarrow> (\<exists>d. pl d = Some (Waiting p) \<and> pl' d \<noteq> Some (Waiting p)))"
  using assms(2,3)
proof (induction n arbitrary: i D pl s)
  have stay: "\<exists>k s' D' pl'. issue_loop call p n i s = Some (i + k, s') \<and> core_ok D' pl' s' \<and> live s' = live s \<and>
      (\<forall>q. spaceInInstQueue (cores s' q) = spaceInInstQueue (cores s q)) \<and> (\<forall>q. InstQueueSize (cores s' q) = InstQueueSize (cores s q)) \<and>
      length (concat (instQueue (cores s' p))) + k = length (concat (instQueue (cores s p))) \<and> k \<le> n \<and>
      (\<forall>d q. pl' d = Some (Waiting q) \<longrightarrow> pl d = Some (Waiting q)) \<and> (k = 0 \<longrightarrow> s' = s \<and> pl' = pl) \<and>
      (0 < k \<longrightarrow> (\<exists>d. pl d = Some (Waiting p) \<and> pl' d \<noteq> Some (Waiting p)))"
    if "issue_loop call p n i s = Some (i, s)" "core_ok D pl s" for n i D pl s
    using that by (intro exI [of _ 0] exI [of _ s] exI [of _ D] exI [of _ pl]) simp
  {
    case 0
    then show ?case
    proof (cases "instQueue (cores s p)")
      case (Cons b bs)
      then have "b \<noteq> []" using placeD(7) [OF staticD(1) [OF core_invD(1)], of "{}" D pl s p] 0 by (auto simp: core_ok_def)
      then show ?thesis using 0 Cons by (intro stay) (auto simp: neq_Nil_conv)
    qed (auto intro!: stay)
  next
    case (Suc n)
    have I: "core_inv {} D pl s" and q: "queued pl s" using Suc.prems by (simp_all add: core_ok_def)
    show ?case
    proof (cases "instQueue (cores s p)")
      case Nil
      then show ?thesis using Suc.prems by (intro stay) simp_all
    next
      case (Cons b rest)
      then obtain d ds where b: "b = d # ds" using placeD(7) [OF staticD(1) [OF core_invD(1) [OF I]], of p] by (cases b) auto
      note iq = Cons [unfolded b]
      have d: "pl d = Some (Waiting p)" using q iq unfolding queued_def by fastforce
      obtain sc s1 where a: "Processor_addInst call p d s = Some (sc, s1)" "sc \<noteq> NoStall \<longrightarrow> s1 = s"
        "sc = NoStall \<longrightarrow> (\<exists>D' u. core_inv {} D' (pl(d := Some (InROB p))) s1 \<and> issues p d s (setWakeUpTime d 0 u) \<and> frame u s1)"
        using addInst_ok [OF g I d Suc.prems(2)] by blast
      show ?thesis
      proof (cases "sc = NoStall")
        case False
        then show ?thesis using a iq Suc.prems by (intro stay) simp_all
      next
        case True
        then obtain D' u where J: "core_inv {} D' (pl(d := Some (InROB p))) s1" and U: "issues p d s (setWakeUpTime d 0 u)" "frame u s1"
          using a(3) by blast
        note f = issues_front [OF U]
        note K = pop_inst_ok [OF q J iq f(2,3)]
        let ?t = "pop_inst p ds rest s1"
        have t: "live ?t = live s" "spaceInInstQueue (cores ?t r) = spaceInInstQueue (cores s r)"
          "InstQueueSize (cores ?t r) = InstQueueSize (cores s r)"
          "length (concat (instQueue (cores ?t p))) + 1 = length (concat (instQueue (cores s p)))" for r
          using f iq by (simp_all add: pop_inst_def upd_c_def)
        obtain k s' D'' pl' where r: "issue_loop call p n (Suc i) ?t = Some (Suc i + k, s')" "core_ok D'' pl' s'" "live s' = live ?t"
          "\<forall>q. spaceInInstQueue (cores s' q) = spaceInInstQueue (cores ?t q)" "\<forall>q. InstQueueSize (cores s' q) = InstQueueSize (cores ?t q)"
          "length (concat (instQueue (cores s' p))) + k = length (concat (instQueue (cores ?t p)))" "k \<le> n"
          "\<forall>x q. pl' x = Some (Waiting q) \<longrightarrow> (pl(d := Some (InROB p))) x = Some (Waiting q)"
          using Suc.IH [OF K(1), of "Suc i"] Suc.prems(2) t(1) by auto
        have "issue_loop call p (Suc n) i s = Some (i + Suc k, s')" using iq a(1) True r(1) by (simp add: pop_inst_def)
        moreover have "pl' d \<noteq> Some (Waiting p)" using r(8) by (metis fun_upd_same option.inject place.distinct(1))
        moreover have "\<forall>x q. pl' x = Some (Waiting q) \<longrightarrow> pl x = Some (Waiting q)"
          using r(8) by (metis fun_upd_apply option.inject place.distinct(1))
        ultimately show ?thesis using r(2-7) t d by (intro exI [of _ "Suc k"] exI [of _ s'] exI [of _ D''] exI [of _ pl']) auto
      qed
    qed
  }
qed

subsection \<open>One clock of a processor\<close>

lemma core_ok_upd_c:
  assumes "core_ok D pl s" "exec_body (f (cores s p)) = exec_body (cores s p)"
    "concat (instQueue (f (cores s p))) @ concat (pipe (f (cores s p))) = concat (instQueue (cores s p)) @ concat (pipe (cores s p))"
    "[] \<notin> set (instQueue (f (cores s p)))" "set (pipe (f (cores s p))) \<subseteq> set (pipe (cores s p))"
    "spaceInInstQueue (f (cores s p)) + int (length (concat (instQueue (f (cores s p))))) \<le> int (InstQueueSize (cores s p))"
    "0 \<le> spaceInInstQueue (f (cores s p))"
  shows "core_ok D pl (upd_c p f s)" "W (upd_c p f s) = W s" "live (upd_c p f s) = live s"
proof -
  have I: "core_inv {} D pl s" and q: "queued pl s" using assms(1) by (simp_all add: core_ok_def)
  have F: "front_ok pl p (cores s p)" using static_front core_invD(1) [OF I] by blast
  note e = exec_body_fields [OF assms(2)]
  have G: "front_ok pl p (f (cores s p))"
    using F assms(3-7) unfolding front_ok_def assms(3) e by blast
  have "set (concat (instQueue (cores (upd_c p f s) r)) @ concat (pipe (cores (upd_c p f s) r))) =
      set (concat (instQueue (cores s r)) @ concat (pipe (cores s r)))" for r
    using arg_cong [OF assms(3), of set] by (cases "r = p") (simp_all add: upd_c_def)
  then have "queued pl (upd_c p f s)" using q unfolding queued_def by simp
  then show "core_ok D pl (upd_c p f s)" "W (upd_c p f s) = W s" "live (upd_c p f s) = live s"
    using core_inv_upd_c [OF I, of f p, OF assms(2) G] by (simp_all add: core_ok_def upd_c_def)
qed

text \<open>The rename stage: it leaves the state as it is when it issues nothing.\<close>

definition rename_stage :: "(cev \<Rightarrow> world \<Rightarrow> world option) \<Rightarrow> nat \<Rightarrow> world \<Rightarrow> world option" where
  "rename_stage call p t =
     (if instQueue (cores t p) \<noteq> [] then do {
        (n, u) \<leftarrow> GProcessor_issue call p t;
        Some (upd_c p (\<lambda>c. c\<lparr>spaceInInstQueue := spaceInInstQueue c + int n\<rparr>) u) }
      else Some t)"

definition same_rob :: "nat \<Rightarrow> world \<Rightarrow> world \<Rightarrow> bool" where
  "same_rob p t u \<longleftrightarrow> W u = W t \<and> ROB (cores u p) = ROB (cores t p) \<and> RetireWidth (cores u p) = RetireWidth (cores t p) \<and>
     heap u = heap t \<and> live u = live t \<and> (\<forall>h. gate p h u = gate p h t)"

lemma rename_stage_ok:
  assumes g: "good N call" and I: "core_ok D pl t" and N: "5 * card (live t) \<le> N"
  shows "\<exists>u D' pl'. rename_stage call p t = Some u \<and> core_ok D' pl' u \<and>
    (\<forall>d q. pl' d = Some (Waiting q) \<longrightarrow> pl d = Some (Waiting q)) \<and>
    ((\<exists>d. pl d = Some (Waiting p) \<and> pl' d \<noteq> Some (Waiting p)) \<or> pl' = pl \<and> same_rob p t u)"
proof (cases "instQueue (cores t p) = []")
  case True
  then show ?thesis using I by (intro exI [of _ t] exI [of _ D] exI [of _ pl]) (simp add: rename_stage_def same_rob_def)
next
  case False
  have J: "core_inv {} D pl t" using I by (simp add: core_ok_def)
  have F: "front_ok pl p (cores t p)" using static_front core_invD(1) [OF J] by blast
  have rq: "replayQ (cores t p) = []" using placeD(9) [OF staticD(1) [OF core_invD(1) [OF J]]] .
  obtain k u D' pl' where r: "issue_loop call p (IssueWidth (cores t p)) 0 t = Some (k, u)" "core_ok D' pl' u"
    "\<forall>q. spaceInInstQueue (cores u q) = spaceInInstQueue (cores t q)" "\<forall>q. InstQueueSize (cores u q) = InstQueueSize (cores t q)"
    "length (concat (instQueue (cores u p))) + k = length (concat (instQueue (cores t p)))"
    "\<forall>d q. pl' d = Some (Waiting q) \<longrightarrow> pl d = Some (Waiting q)" "k = 0 \<longrightarrow> u = t \<and> pl' = pl"
    "0 < k \<longrightarrow> (\<exists>d. pl d = Some (Waiting p) \<and> pl' d \<noteq> Some (Waiting p))"
    using issue_loop_ok [OF g I N, of p "IssueWidth (cores t p)" 0] unfolding add_0 by blast
  let ?g = "\<lambda>c. c\<lparr>spaceInInstQueue := spaceInInstQueue c + int k\<rparr>"
  have Fu: "front_ok pl' p (cores u p)" using static_front core_invD(1) r(2) unfolding core_ok_def by blast
  have sp: "spaceInInstQueue (cores u p) + int k + int (length (concat (instQueue (cores u p)))) \<le> int (InstQueueSize (cores u p))"
  proof -
    have "spaceInInstQueue (cores t p) + int (length (concat (instQueue (cores t p)))) \<le> int (InstQueueSize (cores t p))"
      using F unfolding front_ok_def by blast
    then show ?thesis using r(5) r(3,4) [THEN spec, of p] by linarith
  qed
  have K: "core_ok D' pl' (upd_c p ?g u)" "W (upd_c p ?g u) = W u"
    using core_ok_upd_c(1,2) [OF r(2), of ?g p] Fu sp by (simp_all add: front_ok_def exec_body_def)
  have e: "rename_stage call p t = Some (upd_c p ?g u)" using False rq r(1) by (simp add: rename_stage_def GProcessor_issue_def)
  have "same_rob p t (upd_c p ?g u)" if "u = t" using K(2) that by (simp add: same_rob_def gate_def)
  then have "(\<exists>d. pl d = Some (Waiting p) \<and> pl' d \<noteq> Some (Waiting p)) \<or> pl' = pl \<and> same_rob p t (upd_c p ?g u)"
    using r(7,8) by blast
  then show ?thesis using e K(1) r(6) by blast
qed

text \<open>The stage before it: a bucket leaves the pipe.\<close>

definition decode_stage :: "nat \<Rightarrow> bool \<Rightarrow> world \<Rightarrow> world option" where
  "decode_stage p rdy s =
     (let c = cores s p in
      if int (FetchWidth c) \<le> spaceInInstQueue c \<and> rdy \<and> pipe c \<noteq> [] then do {
        let bucket = hd (pipe c);
        I_check (bucket \<noteq> []);
        Some (upd_c p (\<lambda>c. c\<lparr>spaceInInstQueue := spaceInInstQueue c - int (length bucket),
          instQueue := instQueue c @ [bucket], pipe := tl (pipe c)\<rparr>) s) }
      else Some s)"

lemma decode_stage_ok:
  assumes I: "core_ok D pl s"
  shows "\<exists>t. decode_stage p rdy s = Some t \<and> core_ok D pl t \<and> same_rob p s t"
proof -
  have F: "front_ok pl p (cores s p)" using static_front core_invD(1) I unfolding core_ok_def by blast
  show ?thesis
  proof (cases "int (FetchWidth (cores s p)) \<le> spaceInInstQueue (cores s p) \<and> rdy \<and> pipe (cores s p) \<noteq> []")
    case True
    then obtain b bs where b: "pipe (cores s p) = b # bs" by (cases "pipe (cores s p)") auto
    let ?f = "\<lambda>c. c\<lparr>spaceInInstQueue := spaceInInstQueue c - int (length b), instQueue := instQueue c @ [b], pipe := tl (pipe c)\<rparr>"
    have "core_ok D pl (upd_c p ?f s)" "W (upd_c p ?f s) = W s"
      using core_ok_upd_c(1,2) [OF I, of ?f p] F True b by (auto simp: front_ok_def exec_body_def)
    moreover have "b \<noteq> []" using F b by (auto simp: front_ok_def)
    ultimately show ?thesis using True b by (simp add: decode_stage_def same_rob_def gate_def)
  next
    case False
    then have "decode_stage p rdy s = Some s" by (simp only: decode_stage_def Let_def if_False)
    then show ?thesis using I by (simp add: same_rob_def)
  qed
qed

lemma advanceClock_stages: "Processor_advanceClock call p rdy s = do {
    t \<leftarrow> decode_stage p rdy (upd_c p (\<lambda>c. c\<lparr>clockTicks := Suc (clockTicks c)\<rparr>) s);
    u \<leftarrow> rename_stage call p t;
    GProcessor_retire call p u }"
  by (simp add: Processor_advanceClock_def decode_stage_def rename_stage_def Let_def)

lemma advanceClock_ok:
  assumes g: "good N call" and I: "core_ok D pl s" and N: "5 * card (live s) \<le> N"
  shows "\<exists>s' D' pl'. Processor_advanceClock call p rdy s = Some s' \<and> core_ok D' pl' s' \<and>
    (\<forall>d q. pl' d = Some (Waiting q) \<longrightarrow> pl d = Some (Waiting q)) \<and>
    ((\<exists>d. pl d = Some (Waiting p) \<and> pl' d \<noteq> Some (Waiting p)) \<or>
     W s' = W s \<and> left_rob p pl pl' \<and> (\<forall>h hs. 0 < RetireWidth (cores s p) \<longrightarrow> ROB (cores s p) = h # hs \<longrightarrow>
       executed (heap s h) \<longrightarrow> gate p h s \<longrightarrow> pl' h \<noteq> pl h))"
proof -
  let ?s1 = "upd_c p (\<lambda>c. c\<lparr>clockTicks := Suc (clockTicks c)\<rparr>) s"
  have F: "front_ok pl p (cores s p)" using static_front core_invD(1) I unfolding core_ok_def by blast
  have 1: "core_ok D pl ?s1" "same_rob p s ?s1"
    using core_ok_upd_c [OF I, of "\<lambda>c. c\<lparr>clockTicks := Suc (clockTicks c)\<rparr>" p] F
    by (simp_all add: front_ok_def exec_body_def same_rob_def gate_def)
  obtain t where t: "decode_stage p rdy ?s1 = Some t" "core_ok D pl t" "same_rob p ?s1 t" using decode_stage_ok [OF 1(1)] by blast
  have "5 * card (live t) \<le> N" using N 1(2) t(3) by (simp add: same_rob_def)
  then obtain u D' pl' where u: "rename_stage call p t = Some u" "core_ok D' pl' u"
    "\<forall>d q. pl' d = Some (Waiting q) \<longrightarrow> pl d = Some (Waiting q)"
    "(\<exists>d. pl d = Some (Waiting p) \<and> pl' d \<noteq> Some (Waiting p)) \<or> pl' = pl \<and> same_rob p t u"
    using rename_stage_ok [OF g t(2), of p] by blast
  obtain s' D'' pl'' where r: "GProcessor_retire call p u = Some s'" "core_ok D'' pl'' s'" "W s' = W u" "left_rob p pl' pl''"
    "\<forall>h hs. 0 < RetireWidth (cores u p) \<longrightarrow> ROB (cores u p) = h # hs \<longrightarrow> executed (heap u h) \<longrightarrow> gate p h u \<longrightarrow> pl'' h \<noteq> pl' h"
    using retire_loop_ok [OF u(2), of call p "RetireWidth (cores u p)"] unfolding GProcessor_retire_def by blast
  have w: "pl' d = Some (Waiting q)" if "pl'' d = Some (Waiting q)" for d q
    using r(4) that unfolding left_rob_def by (metis option.distinct(1) option.inject place.distinct(3))
  have "Processor_advanceClock call p rdy s = Some s'" using t(1) u(1) r(1) by (simp add: advanceClock_stages)
  moreover have "(\<exists>d. pl d = Some (Waiting p) \<and> pl'' d \<noteq> Some (Waiting p)) \<or>
     W s' = W s \<and> left_rob p pl pl'' \<and> (\<forall>h hs. 0 < RetireWidth (cores s p) \<longrightarrow> ROB (cores s p) = h # hs \<longrightarrow>
       executed (heap s h) \<longrightarrow> gate p h s \<longrightarrow> pl'' h \<noteq> pl h)"
    using u(4)
  proof
    assume "\<exists>d. pl d = Some (Waiting p) \<and> pl' d \<noteq> Some (Waiting p)"
    then show ?thesis using w by blast
  next
    assume "pl' = pl \<and> same_rob p t u"
    then show ?thesis using 1(2) t(3) r(3-5) by (simp add: same_rob_def)
  qed
  ultimately show ?thesis using u(3) w r(2) by blast
qed

end
