(* ===== verification/Core_Fetch.thy ===== *)
theory Core_Fetch
  imports Core_Cycle "HOL-Library.Sublist"
begin

text \<open>
  The fetch stage (libcore/FetchEngine.cpp, and \<open>executePC\<close> of libll/ExecutionFlow.cpp): it takes
  instructions out of the pool and puts them into a bucket. What the emulator executes and what
  the branch predictor says are inputs.
\<close>

subsection \<open>The fetch engine\<close>

text \<open>
  \<open>Correct jumps\<close> and \<open>Missed fixed\<close> are the answers of the branch predictor; \<open>fixed\<close> says that the
  branch target address calculator corrects the prediction, so that the branch does not have
  to wake the fetch engine.
\<close>

datatype answer = Correct bool | Missed bool

record fetched =
  f_d :: nat
  f_pc :: nat
  f_vaddr :: nat
  f_cId :: nat
  f_event :: "nat option"
  f_answer :: answer

definition executePC :: "fetched \<Rightarrow> world \<Rightarrow> world" where
  "executePC f s = (let s1 = createInst (f_d f) (f_pc f) (f_vaddr f) (f_cId f) s in
     (case f_event f of None \<Rightarrow> s1 | Some cb \<Rightarrow> upd_d (f_d f) (\<lambda>x. x\<lparr>pendEvent := Some cb\<rparr>) s1))"

text \<open>The result says whether fetch goes on; \<open>maxBB\<close> is the number of basic blocks that are left.\<close>

definition processBranch :: "nat \<Rightarrow> fetched \<Rightarrow> nat \<Rightarrow> world \<Rightarrow> bool \<times> nat \<times> world" where
  "processBranch p f maxBB s =
     (case f_answer f of
        Correct jumps \<Rightarrow> if jumps then (maxBB - 1 \<noteq> 0, maxBB - 1, s) else (True, maxBB, s)
      | Missed fixed \<Rightarrow> (False, maxBB, if fixed then s else upd_d (f_d f) (\<lambda>x. x\<lparr>d_fetch := Some p\<rparr>) s))"

text \<open>The loop of \<open>realFetchAligned\<close>; \<open>fs\<close> ends when \<open>executePC\<close> returns nothing or the thread changes.\<close>

fun realFetchAligned ::
  "nat \<Rightarrow> nat \<Rightarrow> nat \<Rightarrow> nat \<Rightarrow> 64 word option \<Rightarrow> fetched list \<Rightarrow> world \<Rightarrow> nat list \<times> world" where
  "realFetchAligned p sizeLog2 n2Fetch maxBB lastPC [] s = ([], s)"
| "realFetchAligned p sizeLog2 n2Fetch maxBB lastPC (f # fs) s =
     (let s1 = executePC f s;
          i = d_inst (heap s1 (f_d f));
          (on, maxBB', s2) = (if opcode i = iBJ then processBranch p f maxBB s1 else (True, maxBB, s1));
          other = (case lastPC of None \<Rightarrow> False
                   | Some pc \<Rightarrow> drop_bit sizeLog2 (getAddr i) \<noteq> drop_bit sizeLog2 pc)
      in if \<not> on \<or> other \<or> n2Fetch - 1 = 0 then ([f_d f], s2)
         else (let (ds, s3) = realFetchAligned p sizeLog2 (n2Fetch - 1) maxBB' (Some (getAddr i)) fs s2
               in (f_d f # ds, s3)))"

text \<open>A bucket goes down the pipe unless it is empty.\<close>

definition fetchAligned :: "nat \<Rightarrow> nat \<Rightarrow> nat \<Rightarrow> fetched list \<Rightarrow> world \<Rightarrow> world" where
  "fetchAligned p sizeLog2 BB4Cycle fs s =
     (let (ds, s1) = realFetchAligned p sizeLog2 (FetchWidth (cores s p)) BB4Cycle None fs s
      in if ds = [] then s1 else upd_c p (\<lambda>c. c\<lparr>pipe := pipe c @ [ds]\<rparr>) s1)"

subsection \<open>A new instruction\<close>

definition fetched_ok :: "world \<Rightarrow> fetched \<Rightarrow> bool" where
  "fetched_ok s f \<longleftrightarrow> instr_ok (InstTable s (f_pc f)) \<and>
     (isStore (InstTable s (f_pc f)) \<or> isFence (InstTable s (f_pc f)) \<longrightarrow> validVAddr s (f_vaddr f)) \<and>
     (opcode (InstTable s (f_pc f)) = iEvent \<longrightarrow> f_vaddr f = 0 \<and> f_event f \<noteq> None)"

definition newborn :: "dinst \<Rightarrow> bool" where
  "newborn y \<longleftrightarrow> fresh y \<and> \<not> executed y \<and> d_first y = None \<and> nDeps y = 0 \<and> \<not> isUsed y 0 \<and> \<not> isUsed y 1"

definition born :: "nat \<Rightarrow> dinst \<Rightarrow> world \<Rightarrow> world" where
  "born d y s = s\<lparr>live := insert d (live s), heap := (heap s)(d := y)\<rparr>"

lemma born_simps [simp]:
  "live (born d y s) = insert d (live s)" "heap (born d y s) = (heap s)(d := y)" "now (born d y s) = now s"
  "events (born d y s) = events s" "memReads (born d y s) = memReads s" "memWrites (born d y s) = memWrites s"
  "stores (born d y s) = stores s" "cores (born d y s) = cores s" "validVAddr (born d y s) = validVAddr s"
  "InstTable (born d y s) = InstTable s" "issueNo (born d y s) = issueNo s" "stamp (born d y s) = stamp s"
  "evs (born d y s) = evs s" "cluster_no p ty (born d y s) = cluster_no p ty s"
  by (simp_all add: born_def evs_def cluster_no_def)

lemma born_static:
  assumes S: "static_ok pl s" and d: "d \<notin> live s" and y: "newborn y" "dyn_ok s y"
    and q: "d \<in> set (concat (instQueue (cores s p)) @ concat (pipe (cores s p)))"
  shows "static_ok (pl(d := Some (Waiting p))) (born d y s)"
proof -
  let ?pl = "pl(d := Some (Waiting p))" and ?t = "born d y s"
  note P = placeD [OF staticD(1) [OF S]]
  have n: "pl d = None" using P(2) d by auto
  have rob: "d \<notin> set (ROB (cores s r))" for r using P(4) [of d r] n by simp
  have "place_ok ?pl ?t"
    unfolding place_ok_def
  proof (intro conjI allI ballI impI)
    show "finite (live ?t)" "live ?t = dom ?pl" using P(1,2) by auto
    show "distinct (ROB (cores ?t r))" "set (ROB (cores ?t r)) = {z. ?pl z = Some (InROB r)}" for r
      using P(3) [of r] P(4) [of _ r] n by auto
    show "distinct (concat (instQueue (cores ?t r)) @ concat (pipe (cores ?t r)))" for r using P(5) [of r] by simp
    show "{z. ?pl z = Some (Waiting r)} \<subseteq> set (concat (instQueue (cores ?t r)) @ concat (pipe (cores ?t r)))" for r
      using P(6) [of _ r] q by (auto split: if_splits)
    show "[] \<notin> set (instQueue (cores ?t r))" "[] \<notin> set (pipe (cores ?t r))" "replayQ (cores ?t r) = []" for r
      using P(7-9) [of r] by simp_all
    show "count (memWrites ?t) z = of_bool (\<exists>p. ?pl z = Some (Sent p))" for z using P(10) [of z] n by auto
    show "dyn_ok ?t (heap ?t z)" if "z \<in> live ?t" for z
      using P(11) [of z] that y(2) by (auto simp: dyn_ok_def)
    show "fresh (heap ?t z)" if "?pl z = Some (Waiting r)" for z r
      using P(12) [of z r] that y(1) by (auto simp: newborn_def split: if_splits)
    show "runs_on r (heap ?t z)" if "?pl z = Some (InROB r) \<or> ?pl z = Some (Sent r) \<or> ?pl z = Some (Dying r)" for z r
      using P(13-15) [of z r] that by (auto split: if_splits)
    show "isStore (d_inst (heap ?t z)) \<or> isFence (d_inst (heap ?t z))" if "?pl z = Some (Sent r)" for z r
      using P(16) [of z r] that by (auto split: if_splits)
  qed
  moreover have "count_ok ?pl ?t"
  proof -
    have a: "{z. ?pl z = Some (Sent r)} = {z. pl z = Some (Sent r)}" for r using n by auto
    have b: "filter (\<lambda>z. getDstPool (d_inst (heap ?t z)) = k) (ROB (cores s r)) =
        filter (\<lambda>z. getDstPool (d_inst (heap s z)) = k) (ROB (cores s r))" for k r
      using rob [of r] by (intro filter_cong) auto
    show ?thesis using staticD(2) [OF S] unfolding count_ok_def Let_def a b born_simps(8) .
  qed
  moreover have "lsq_ok ?pl ?t"
  proof -
    have ms: "filter (\<lambda>z. isMem (d_inst (heap ?t z))) (ROB (cores s r)) = filter (\<lambda>z. isMem (d_inst (heap s z))) (ROB (cores s r))" for r
      using rob [of r] by (intro filter_cong) auto
    have ws: "filter (\<lambda>z. calcWord (heap ?t z) = w) (filter (\<lambda>z. isMem (d_inst (heap s z))) (ROB (cores s r))) =
        filter (\<lambda>z. calcWord (heap s z) = w) (filter (\<lambda>z. isMem (d_inst (heap s z))) (ROB (cores s r)))" for w r
      using rob [of r] by (intro filter_cong) auto
    have L: "lsq_ok pl s" using staticD(3) [OF S] .
    have st: "z \<noteq> d" if "stores s w = Some z" for w z
    proof -
      have "\<exists>p. pl z = Some (InROB p)" using L that unfolding lsq_ok_def by blast
      then show ?thesis using n by auto
    qed
    show ?thesis
      unfolding lsq_ok_def Let_def born_simps(8)
    proof (intro conjI allI impI)
      fix r w z
      show "inflightInsts (cores s r) = set (filter (\<lambda>z. isMem (d_inst (heap ?t z))) (ROB (cores s r)))"
        using L unfolding ms lsq_ok_def Let_def by blast
      show "instMap (cores s r) w =
          (if filter (\<lambda>z. calcWord (heap ?t z) = w) (filter (\<lambda>z. isMem (d_inst (heap ?t z))) (ROB (cores s r))) = [] then None
           else Some (filter (\<lambda>z. calcWord (heap ?t z) = w) (filter (\<lambda>z. isMem (d_inst (heap ?t z))) (ROB (cores s r)))))"
        using L unfolding ms ws lsq_ok_def Let_def by blast
      assume z: "stores ?t w = Some z"
      then have "z \<noteq> d" using st by simp
      then show "\<exists>p. ?pl z = Some (InROB p)" "isStore (d_inst (heap ?t z))" "calcWord (heap ?t z) = w" "\<not> deadStore (heap ?t z)"
        using L z unfolding lsq_ok_def by auto
    qed
  qed
  moreover have "conf_ok ?t = conf_ok s" by (simp add: conf_ok_def)
  ultimately show ?thesis using staticD(4) [OF S] by (simp add: static_ok_def)
qed

lemma born_inv:
  assumes I: "core_inv {} D pl s" and d: "d \<notin> live s" and y: "newborn y" "dyn_ok s y"
    and q: "d \<in> set (concat (instQueue (cores s p)) @ concat (pipe (cores s p)))"
  shows "core_inv {} D (pl(d := Some (Waiting p))) (born d y s)" "W (born d y s) = W s"
proof -
  let ?pl = "pl(d := Some (Waiting p))" and ?t = "born d y s"
  note C = core_invD [OF I]
  note P = placeD [OF staticD(1) [OF C(1)]] and R = ret_okD [OF C(7)]
  have yy: "\<not> issued y" "\<not> executed y" "d_first y = None" "nDeps y = 0" "\<not> isUsed y 0" "\<not> isUsed y 1" "\<not> depsAtRetire y"
    using y(1) by (simp_all add: newborn_def fresh_def)
  have n: "pl d = None" using P(2) d by auto
  have rob: "d \<notin> set (ROB (cores s r))" for r using P(4) [of d r] n by simp
  have Dd: "D d = []" using deps_okD(3) [OF C(2) d] .
  have out: "m \<in> set (D r) \<Longrightarrow> fst m \<noteq> d" for m r using deps_okD(6) [OF C(2), of m r] d by auto
  have wn: "(d, k) \<notin> nodes D" for k using out [of "(d, k)"] by (auto simp: nodes_def)
  have "acts s d = 0" using C(3) d by (simp add: act_ok_def ready_def)
  then have noev: "about e = Some d \<Longrightarrow> e \<notin># evs s" for e using evs_about [of e s d] by auto
  have nomem: "d \<notin># memReads s" using \<open>acts s d = 0\<close> by (simp add: acts_def count_eq_zero_iff)
  have "static_ok ?pl ?t" by (rule born_static [OF C(1) d y q])
  moreover have "deps_ok D ?t"
  proof -
    have ch: "chain (heap ?t) x (D r) = chain (heap s) x (D r)" for x r
      by (rule deps_chain_cong) (use out in auto)
    show ?thesis
      unfolding deps_ok_def ch
    proof (intro conjI allI ballI impI)
      show "chain (heap s) (d_first (heap ?t r)) (D r)" if "r \<in> live ?t" for r
        using that deps_okD(1) [OF C(2), of r] Dd yy by (cases "r = d") auto
      show "d_last (heap ?t r) = Some (last (D r))" if "r \<in> live ?t" "D r \<noteq> []" for r
        using that deps_okD(2) [OF C(2), of r] Dd by (cases "r = d") auto
      show "D r = []" if "r \<notin> live ?t" for r using that deps_okD(3) [OF C(2), of r] by simp
      show "distinct (D r)" for r using deps_okD(4) [OF C(2)] .
      show "set (D r) \<inter> set (D r') = {}" if "r \<noteq> r'" for r r' using deps_okD(5) [OF C(2)] that by blast
      show "fst m \<in> live ?t" "snd m < 2" if "m \<in> nodes D" for m
        using that deps_okD(6,7) [OF C(2), of m] by (auto simp: nodes_def)
      show "isUsed (heap ?t z) k \<longleftrightarrow> (z, k) \<in> nodes D" if "z \<in> live ?t" "k < 2" for z k
      proof (cases "z = d")
        case True
        then show ?thesis using that(2) wn yy by (auto simp: less_2_cases_iff)
      next
        case False
        then show ?thesis using deps_use(2) [OF C(2), of z k] that by auto
      qed
      show "nDeps (heap ?t z) = of_bool (isUsed (heap ?t z) 0) + of_bool (isUsed (heap ?t z) 1)" if "z \<in> live ?t" for z
        using that deps_okD(9) [OF C(2), of z] yy by (cases "z = d") auto
      show "nDeps (heap ?t z) = 0" if "z \<notin> live ?t" for z using that deps_okD(11) [OF C(2), of z] by auto
    qed
  qed
  moreover have "act_ok ?t"
    unfolding act_ok_def
  proof (intro conjI allI ballI impI)
    show "acts ?t z = of_bool (ready ?t z)" for z
    proof -
      have "acts ?t z = acts s z" by (simp add: acts_def)
      moreover have "ready ?t z = ready s z" using yy d by (auto simp: ready_def)
      ultimately show ?thesis using C(3) by (simp add: act_ok_def)
    qed
    show "issued (heap ?t z)" "nDeps (heap ?t z) = 0" if "z \<in> live ?t" "executed (heap ?t z)" for z
      using that C(3) yy by (auto simp: act_ok_def split: if_splits)
    show "wakeUpTime (heap ?t z) = 0" if "SelectCB z \<in># evs ?t" for z
      using that C(3) noev [of "SelectCB z"] by (auto simp: act_ok_def)
    show "isLoad (d_inst (heap ?t z))" "\<not> loadForwarded (heap ?t z)" if "DispatchedCB r z \<in># evs ?t" for r z
      using that C(3) noev [of "DispatchedCB r z"] by (auto simp: act_ok_def)
    show "isLoad (d_inst (heap ?t z))" "\<not> loadForwarded (heap ?t z)" if "z \<in># memReads ?t" for z
      using that C(3) nomem by (auto simp: act_ok_def)
  qed
  moreover have "win_ok ?t"
  proof -
    have "filter (holds ?t r k) (ROB (cores s r)) = filter (holds s r k) (ROB (cores s r))" for r k
      using rob [of r] by (intro filter_cong) (auto simp: holds_def unstarted_def split: recycle.split)
    moreover have "is_issued_cb ?t = is_issued_cb s" by (simp add: fun_eq_iff is_issued_cb_def split: cev.split)
    ultimately have "used ?t r k = used s r k" for r k by (simp add: used_def)
    then show ?thesis using C(4) by (simp add: win_ok_def)
  qed
  moreover have wr: "writer ?t r xs = writer s r xs" if "d \<notin> set xs" for r xs
  proof -
    have "filter (\<lambda>z. dest ?t z = r) xs = filter (\<lambda>z. dest s z = r) xs" using that by (intro filter_cong) (auto simp: dest_def)
    then show ?thesis by (simp add: writer_def)
  qed
  have wm: "z \<in> set xs" if "writer s r xs = Some z" for r xs z
  proof -
    have "filter (\<lambda>d. dest s d = r) xs \<noteq> []" "z = last (filter (\<lambda>d. dest s d = r) xs)"
      using that by (auto simp: writer_def split: list.splits)
    then have "z \<in> set (filter (\<lambda>d. dest s d = r) xs)" using last_in_set by blast
    then show ?thesis by simp
  qed
  moreover have "rat_ok ?t"
  proof -
    have "(case writer ?t r (ROB (cores s q)) of None \<Rightarrow> None | Some z \<Rightarrow> if executed (heap ?t z) then None else Some z) =
        (case writer s r (ROB (cores s q)) of None \<Rightarrow> None | Some z \<Rightarrow> if executed (heap s z) then None else Some z)" for q r
      using rob [of q] wm [of r "ROB (cores s q)"] by (cases "writer s r (ROB (cores s q))") (auto simp: wr)
    then show ?thesis using C(5) by (simp add: rat_ok_def)
  qed
  moreover have "dep_ok D ?t"
    unfolding dep_ok_def
  proof (intro allI impI)
    fix q pre z post r and j :: nat
    assume z: "ROB (cores ?t q) = pre @ z # post" "j = 0 \<and> writer ?t (getSrc1 (d_inst (heap ?t z))) pre = Some r \<or>
      j = 1 \<and> writer ?t (getSrc2 (d_inst (heap ?t z))) pre = Some r"
    have o: "d \<notin> set pre" "z \<noteq> d" using rob [of q] z(1) by auto
    then have z2: "j = 0 \<and> writer s (getSrc1 (d_inst (heap s z))) pre = Some r \<or> j = 1 \<and> writer s (getSrc2 (d_inst (heap s z))) pre = Some r"
      using z(2) by (simp add: wr)
    then have "r \<noteq> d" using wm o(1) by blast
    then show "executed (heap ?t r) \<or> (z, j) \<in> set (D r)" using dep_okD [OF C(6) _ z2, of q post] z(1) by simp
  qed
  moreover have "ret_ok {} D ?pl ?t"
    unfolding ret_ok_def
  proof (intro conjI ballI allI impI)
    show "q \<in> live ?t" "executed (heap ?t q)" if "q \<in> {}" for q using that by simp_all
    show "D q = []" if "q \<in> live ?t" "executed (heap ?t q)" "\<not> isStore (d_inst (heap ?t q))" for q
      using R(3) [of q] that yy(2) Dd by (cases "q = d") auto
    show "snd m = 1" "isLoad (d_inst (heap ?t (fst m)))" if "q \<in> live ?t" "isStore (d_inst (heap ?t q))" "m \<in> set (D q)" for q m
      using R(4,5) [of q m] that out [of m q] Dd by (cases "q = d"; auto)+
    show "depsAtRetire (heap ?t (fst m))" if "q \<in> live ?t" "isStore (d_inst (heap ?t q))" "m \<in> set (D q)" "executed (heap ?t q)" for q m
      using R(6) [of q m] that out [of m q] Dd by (cases "q = d") auto
    show "\<exists>q\<in>live ?t. isStore (d_inst (heap ?t q)) \<and> (z, 1) \<in> set (D q)" if z: "z \<in> live ?t" "depsAtRetire (heap ?t z)" for z
    proof -
      have "z \<noteq> d" using z yy(7) by auto
      then obtain q where q: "q \<in> live s" "isStore (d_inst (heap s q))" "(z, 1) \<in> set (D q)" using R(7) [of z] z by auto
      then have "q \<noteq> d" using d by auto
      then show ?thesis using q by (intro bexI [of _ q]) auto
    qed
    show "D z = []" "(z, 0) \<notin> nodes D" "(z, 1) \<notin> nodes D" if "?pl z = Some (Waiting q)" for z q
      using R(8-10) [of z q] that Dd wn by (auto split: if_splits)
    show "executed (heap ?t z)" if "?pl z = Some (Sent q) \<or> ?pl z = Some (Dying q)" for z q
      using R(11,12) [of z q] that by (auto split: if_splits)
  qed
  moreover have "stamp_ok D ?t"
    using C(8) yy(1) by (auto simp: stamp_ok_def)
  moreover have "ports_ok ?t" "time_ok ?t" using C(9,10) by (simp_all add: ports_ok_def time_ok_def)
  ultimately show "core_inv {} D ?pl ?t" by (simp add: core_inv_def)
  have "rank ?t d = 0" using yy by (simp add: rank_def)
  moreover have "sum (rank ?t) (live s) = sum (rank s) (live s)" using d by (intro sum.cong) (auto simp: rank_def)
  ultimately show "W ?t = W s" using d live_finite [OF I] by (simp add: W_def)
qed

subsection \<open>A bucket\<close>

lemma upd_born: "upd_d d g (born d y s) = born d (g y) s"
  by (simp add: upd_d_def born_def)

definition made :: "instr \<Rightarrow> nat \<Rightarrow> nat \<Rightarrow> dinst \<Rightarrow> dinst" where
  "made i va cid x = x\<lparr>d_inst := i, d_cId := cid, wakeUpTime := 0, d_vaddr := va,
     d_first := None, sequenceNum := - 1, coreID := - 1, d_resource := None, RATEntry := None,
     pendEvent := None, d_fetch := None, loadForwarded := False, issued := False, executed := False,
     depsAtRetire := False, deadStore := False, resolved := False, deadInst := False,
     isUsed := (isUsed x)(0 := False, 1 := False)\<rparr>"

lemma made_ok:
  assumes "nDeps x = 0"
  shows "newborn (made i va cid x)" "d_inst (made i va cid x) = i" "d_vaddr (made i va cid x) = va"
    "\<not> deadInst (made i va cid x)" "\<not> loadForwarded (made i va cid x)"
  using assms by (simp_all add: made_def newborn_def fresh_def)

lemma createInst_born: "createInst d pc va cid s = born d (made (InstTable s pc) va cid (heap s d)) s"
  by (simp add: createInst_def createDInst_def upd_d_def born_def made_def)

lemma fetch_one:
  assumes f: "fetched_ok s f" and n: "nDeps (heap s (f_d f)) = 0"
  shows "\<exists>y. executePC f s = born (f_d f) y s \<and> newborn y \<and> dyn_ok s y"
proof -
  let ?y = "made (InstTable s (f_pc f)) (f_vaddr f) (f_cId f) (heap s (f_d f))"
  note m = made_ok [OF n, of "InstTable s (f_pc f)" "f_vaddr f" "f_cId f"]
  show ?thesis
  proof (cases "f_event f")
    case None
    then show ?thesis using m f
      by (intro exI [of _ ?y]) (auto simp: executePC_def createInst_born dyn_ok_def fetched_ok_def)
  next
    case (Some cb)
    have "newborn (?y\<lparr>pendEvent := Some cb\<rparr>)" using m(1) by (simp add: newborn_def fresh_def)
    then show ?thesis using Some m f
      by (intro exI [of _ "?y\<lparr>pendEvent := Some cb\<rparr>"]) (auto simp: executePC_def createInst_born upd_born dyn_ok_def fetched_ok_def)
  qed
qed

lemma fetch_two:
  assumes f: "fetched_ok s f" and n: "nDeps (heap s (f_d f)) = 0"
    and s2: "(on, bb, s2) = (if b then processBranch p f maxBB (executePC f s) else (True, maxBB, executePC f s))"
  shows "\<exists>y. s2 = born (f_d f) y s \<and> newborn y \<and> dyn_ok s y"
proof -
  obtain y where y: "executePC f s = born (f_d f) y s" "newborn y" "dyn_ok s y" using fetch_one [OF f n] by blast
  have "newborn (y\<lparr>d_fetch := Some p\<rparr>)" "dyn_ok s (y\<lparr>d_fetch := Some p\<rparr>)"
    using y(2,3) by (simp_all add: newborn_def fresh_def dyn_ok_def)
  moreover have "s2 = born (f_d f) y s \<or> s2 = born (f_d f) (y\<lparr>d_fetch := Some p\<rparr>) s"
    using s2 y(1) by (auto simp: processBranch_def upd_born split: if_splits answer.splits)
  ultimately show ?thesis using y by blast
qed

text \<open>The bucket is put into the pipe first; its instructions come to life one after the other.\<close>

definition piped :: "nat \<Rightarrow> nat list \<Rightarrow> world \<Rightarrow> world" where
  "piped p B = upd_c p (\<lambda>c. c\<lparr>pipe := pipe c @ [B]\<rparr>)"

lemma piped_born: "piped p B (born d y s) = born d y (piped p B s)"
  by (simp add: piped_def upd_c_def born_def)

lemma fetch_cases:
  assumes "realFetchAligned p z n bb l (f # fs) s = (ds, s')"
  obtains (stop) on bb' where "(on, bb', s') = (if opcode (d_inst (heap (executePC f s) (f_d f))) = iBJ
      then processBranch p f bb (executePC f s) else (True, bb, executePC f s))" "ds = [f_d f]"
    | (more) on bb' s2 l' es where "(on, bb', s2) = (if opcode (d_inst (heap (executePC f s) (f_d f))) = iBJ
      then processBranch p f bb (executePC f s) else (True, bb, executePC f s))"
      "realFetchAligned p z (n - 1) bb' l' fs s2 = (es, s')" "ds = f_d f # es" "n - 1 \<noteq> 0"
proof -
  obtain on bb' s2 where o: "(on, bb', s2) = (if opcode (d_inst (heap (executePC f s) (f_d f))) = iBJ
      then processBranch p f bb (executePC f s) else (True, bb, executePC f s))"
    by (metis prod_cases3)
  have "ds = [f_d f] \<and> s' = s2 \<or> (\<exists>l' es. realFetchAligned p z (n - 1) bb' l' fs s2 = (es, s') \<and> ds = f_d f # es \<and> n - 1 \<noteq> 0)"
    using assms by (auto simp: Let_def o [symmetric] split: if_splits prod.splits)
  then show thesis using o stop more by blast
qed

lemma fetch_shape:
  assumes "realFetchAligned p z n bb l fs s = (ds, s')"
  shows "prefix ds (map f_d fs) \<and> (0 < n \<longrightarrow> length ds \<le> n)"
  using assms
proof (induction fs arbitrary: ds n bb l s)
  case (Cons f fs)
  show ?case
    using Cons.prems(1)
  proof (cases rule: fetch_cases)
    case (more on bb' s2 l' es)
    then show ?thesis using Cons.IH [OF more(2)] by auto
  qed auto
qed simp

lemma fetch_loop_ok:
  assumes "core_inv {} D pl (piped p B s)" "list_all (fetched_ok s) fs" "distinct (map f_d fs)" "f_d ` set fs \<inter> live s = {}"
    "realFetchAligned p z n bb l fs s = (ds, s')" "set ds \<subseteq> set B"
  shows "core_inv {} D (\<lambda>x. if x \<in> set ds then Some (Waiting p) else pl x) (piped p B s') \<and> W (piped p B s') = W (piped p B s) \<and>
    live s' = live s \<union> set ds \<and> cores s' = cores s"
  using assms
proof (induction fs arbitrary: pl n bb l s ds)
  case Nil
  then show ?case by simp
next
  case (Cons f fs)
  let ?b = "opcode (d_inst (heap (executePC f s) (f_d f))) = iBJ"
  obtain on bb' s2 where o: "(on, bb', s2) = (if ?b then processBranch p f bb (executePC f s) else (True, bb, executePC f s))"
    by (metis prod_cases3)
  have d: "f_d f \<notin> live s" using Cons.prems(4) by auto
  have n0: "nDeps (heap s (f_d f)) = 0" using deps_okD(11) [OF core_invD(2) [OF Cons.prems(1)], of "f_d f"] d by (simp add: piped_def)
  obtain y where y: "s2 = born (f_d f) y s" "newborn y" "dyn_ok s y"
    using fetch_two [OF _ n0 o] Cons.prems(2) by auto
  have dB: "f_d f \<in> set B" and dsne: "ds \<noteq> []"
    using Cons.prems(5,6) by (auto simp: Let_def o [symmetric] split: if_splits prod.splits)
  have q: "f_d f \<in> set (concat (instQueue (cores (piped p B s) p)) @ concat (pipe (cores (piped p B s) p)))"
    using dB by (simp add: piped_def)
  have dy: "dyn_ok (piped p B s) y" using y(3) by (simp add: dyn_ok_def piped_def)
  have J: "core_inv {} D (pl(f_d f := Some (Waiting p))) (piped p B s2)" "W (piped p B s2) = W (piped p B s)"
    using born_inv [OF Cons.prems(1) _ y(2) dy q] d unfolding y(1) piped_born by (simp_all add: piped_def)
  have s2: "live s2 = insert (f_d f) (live s)" "cores s2 = cores s" "InstTable s2 = InstTable s" "validVAddr s2 = validVAddr s" by (simp_all add: y(1))
  show ?case
  proof (cases "ds = [f_d f] \<and> s' = s2")
    case True
    have "(\<lambda>x. if x \<in> set ds then Some (Waiting p) else pl x) = pl(f_d f := Some (Waiting p))" using True by (auto simp: fun_eq_iff)
    then show ?thesis using True J s2 by auto
  next
    case False
    let ?l = "Some (getAddr (d_inst (heap (executePC f s) (f_d f))))"
    obtain es where es: "realFetchAligned p z (n - 1) bb' ?l fs s2 = (es, s')" "ds = f_d f # es" "n - 1 \<noteq> 0"
      using Cons.prems(5) False by (auto simp: Let_def o [symmetric] split: if_splits prod.splits)
    have "list_all (fetched_ok s2) fs" using Cons.prems(2) s2 by (simp add: list_all_iff fetched_ok_def)
    moreover have "f_d ` set fs \<inter> live s2 = {}" using Cons.prems(3,4) s2 by auto
    ultimately have H: "core_inv {} D (\<lambda>x. if x \<in> set es then Some (Waiting p) else (pl(f_d f := Some (Waiting p))) x) (piped p B s') \<and>
        W (piped p B s') = W (piped p B s2) \<and> live s' = live s2 \<union> set es \<and> cores s' = cores s2"
      using Cons.prems(3,6) es by (intro Cons.IH [OF J(1) _ _ _ es(1)]) auto
    moreover have "(\<lambda>x. if x \<in> set es then Some (Waiting p) else (pl(f_d f := Some (Waiting p))) x) = (\<lambda>x. if x \<in> set ds then Some (Waiting p) else pl x)"
      using es(2) by (auto simp: fun_eq_iff)
    ultimately show ?thesis using J(2) s2 es(2) by auto
  qed
qed

lemma fetch_ok:
  assumes "core_ok D pl s" "list_all (fetched_ok s) fs" "distinct (map f_d fs)" "f_d ` set fs \<inter> live s = {}"
  shows "\<exists>pl'. core_ok D pl' (fetchAligned p z bb fs s)"
proof -
  have I: "core_inv {} D pl s" and Q: "queued pl s" using assms(1) by (simp_all add: core_ok_def)
  obtain ds s1 where r: "realFetchAligned p z (FetchWidth (cores s p)) bb None fs s = (ds, s1)" by fastforce
  note sh = fetch_shape [OF r]
  have fw: "0 < FetchWidth (cores s p)" using staticD(4) [OF core_invD(1) [OF I]] unfolding conf_ok_def by blast
  show ?thesis
  proof (cases "ds = []")
    case True
    then have "s1 = s" using r by (cases fs) (auto simp: Let_def split: if_splits prod.splits)
    then show ?thesis using assms(1) r True by (auto simp: fetchAligned_def)
  next
    case False
    have sub: "distinct ds" "set ds \<inter> live s = {}"
    proof -
      obtain k where "ds = take k (map f_d fs)" using sh by (metis prefixE append_eq_conv_conj)
      then show "distinct ds" "set ds \<inter> live s = {}" using assms(3,4) set_take_subset [of k "map f_d fs"] by auto
    qed
    have F: "front_ok pl p (cores s p)" using static_front core_invD(1) [OF I] by blast
    have qq: "set (concat (instQueue (cores s r)) @ concat (pipe (cores s r))) = {z. pl z = Some (Waiting r)}" for r
      using Q unfolding queued_def by blast
    have lv: "live s = dom pl" using placeD(2) [OF staticD(1) [OF core_invD(1) [OF I]]] .
    have "front_ok pl p ((cores s p)\<lparr>pipe := pipe (cores s p) @ [ds]\<rparr>)"
    proof -
      have "set ds \<inter> set (concat (instQueue (cores s p)) @ concat (pipe (cores s p))) = {}"
        using sub(2) qq [of p] lv by auto
      then show ?thesis using F False sh fw sub by (auto simp: front_ok_def)
    qed
    then have P: "core_inv {} D pl (piped p ds s)" unfolding piped_def
      by (intro core_inv_upd_c [OF I]) (simp_all add: exec_body_def)
    let ?pl = "\<lambda>x. if x \<in> set ds then Some (Waiting p) else pl x"
    have L: "core_inv {} D ?pl (piped p ds s1)" "cores s1 = cores s"
      using fetch_loop_ok [OF P assms(2-4) r] by simp_all
    have "queued ?pl (piped p ds s1)"
      unfolding queued_def
    proof (intro conjI allI)
      show "set (concat (instQueue (cores (piped p ds s1) r)) @ concat (pipe (cores (piped p ds s1) r))) = {z. ?pl z = Some (Waiting r)}" for r
        using qq [of r] sub lv by (auto simp: piped_def upd_c_def L(2))
      show "?pl d \<noteq> Some (Dying r)" for d r using Q unfolding queued_def by simp
    qed
    moreover have "fetchAligned p z bb fs s = piped p ds s1" using r False by (simp add: fetchAligned_def piped_def)
    ultimately show ?thesis using L(1) by (auto simp: core_ok_def)
  qed
qed

end
