(* ===== verification/Core_Steps.thy ===== *)
theory Core_Steps
  imports Core_Fetch
begin

text \<open>
  The cores as a transition system. In each clock the callbacks that are due are called, the
  processors advance, and the memory system answers requests; the order is left open, and so
  is what the emulator executes and when the caches accept requests.
\<close>

subsection \<open>Steps\<close>

text \<open>
  The parameter \<open>n\<close> is the depth of nested callbacks. \<open>Busy\<close> changes what the data cache of a
  processor answers.
\<close>

datatype core_step =
    Fetch nat nat nat "fetched list"
  | Cycle nat bool
  | Fire nat cev
  | Tick
  | ReadDone nat nat
  | WriteDone nat
  | Busy nat "nat \<Rightarrow> bool" "nat \<Rightarrow> bool" nat

definition core_do :: "nat \<Rightarrow> core_step \<Rightarrow> world \<Rightarrow> world option" where
  "core_do n a s =
     (case a of
        Fetch p z bb fs \<Rightarrow> Some (fetchAligned p z bb fs s)
      | Cycle p rdy \<Rightarrow> Processor_advanceClock (run_cb n) p rdy s
      | Fire t ev \<Rightarrow> run_cb n ev (s\<lparr>events := events s - {#(t, ev)#}\<rparr>)
      | Tick \<Rightarrow> Some (s\<lparr>now := Suc (now s)\<rparr>)
      | ReadDone d lat \<Rightarrow> ack_read (run_cb n) d lat (s\<lparr>memReads := memReads s - {#d#}\<rparr>)
      | WriteDone d \<Rightarrow> ack_write (run_cb n) d (s\<lparr>memWrites := memWrites s - {#d#}\<rparr>)
      | Busy p l st t \<Rightarrow> Some (upd_c p (\<lambda>c. c\<lparr>canAcceptLoad := l, canAcceptStore := st, getNextFreeCycle := t\<rparr>) s))"

text \<open>
  What the rest of the program guarantees: objects come from the pool, instructions are well
  formed, callbacks are called in the clock for which they were scheduled, and the memory
  system answers only what was asked.
\<close>

definition core_allowed :: "core_step \<Rightarrow> world \<Rightarrow> bool" where
  "core_allowed a s =
     (case a of
        Fetch p z bb fs \<Rightarrow> list_all (fetched_ok s) fs \<and> distinct (map f_d fs) \<and> f_d ` set fs \<inter> live s = {}
      | Fire t ev \<Rightarrow> t = now s \<and> (t, ev) \<in># events s
      | Tick \<Rightarrow> \<forall>e\<in>#events s. now s < fst e
      | ReadDone d lat \<Rightarrow> d \<in># memReads s
      | WriteDone d \<Rightarrow> d \<in># memWrites s
      | _ \<Rightarrow> True)"

definition core_init :: "world \<Rightarrow> bool" where
  "core_init s \<longleftrightarrow> live s = {} \<and> events s = {#} \<and> memReads s = {#} \<and> memWrites s = {#} \<and> (\<forall>w. stores s w = None) \<and>
     (\<forall>d. nDeps (heap s d) = 0) \<and> conf_ok s \<and> ports_ok s \<and>
     (\<forall>p. let c = cores s p in ROB c = [] \<and> replayQ c = [] \<and> pipe c = [] \<and> instQueue c = [] \<and> (\<forall>r. RAT c r = None) \<and>
        spaceInInstQueue c = int (InstQueueSize c) \<and> (\<forall>r<3. regPool c r = regs c r \<and> 0 \<le> regs c r) \<and>
        0 \<le> freeLoads c \<and> 0 \<le> freeStores c \<and> nOutsStores c = 0 \<and> \<not> pendingFence c \<and>
        inflightInsts c = {} \<and> (\<forall>w. instMap c w = None) \<and>
        (\<forall>k. 0 \<le> windowSize (clusters c k) \<and> windowSize (clusters c k) = MaxWinSize (clusters c k)))"

inductive core_reach :: "world \<Rightarrow> bool" where
  start: "core_init s \<Longrightarrow> core_reach s"
| step: "core_reach s \<Longrightarrow> core_allowed a s \<Longrightarrow> 5 * card (live s) < n \<Longrightarrow> core_do n a s = Some s' \<Longrightarrow> core_reach s'"

subsection \<open>The start\<close>

lemma core_init_ok:
  assumes "core_init s"
  shows "core_ok (\<lambda>_. []) (\<lambda>_. None) s"
proof -
  note A = assms [unfolded core_init_def Let_def]
  have a: "live s = {}" "events s = {#}" "memReads s = {#}" "memWrites s = {#}" "\<And>w. stores s w = None"
    "\<And>d. nDeps (heap s d) = 0" "conf_ok s" "ports_ok s" using A by blast+
  have c: "ROB (cores s p) = []" "replayQ (cores s p) = []" "pipe (cores s p) = []" "instQueue (cores s p) = []"
    "\<And>r. RAT (cores s p) r = None" "spaceInInstQueue (cores s p) = int (InstQueueSize (cores s p))"
    "\<And>r. r < 3 \<Longrightarrow> regPool (cores s p) r = regs (cores s p) r \<and> 0 \<le> regs (cores s p) r"
    "0 \<le> freeLoads (cores s p)" "0 \<le> freeStores (cores s p)" "nOutsStores (cores s p) = 0" "\<not> pendingFence (cores s p)"
    "inflightInsts (cores s p) = {}" "\<And>w. instMap (cores s p) w = None"
    "\<And>k. 0 \<le> windowSize (clusters (cores s p) k)" "\<And>k. windowSize (clusters (cores s p) k) = MaxWinSize (clusters (cores s p) k)" for p
    using A by blast+
  have ev: "evs s = {#}" using a by (simp add: evs_def)
  have "place_ok (\<lambda>_. None) s" by (simp add: place_ok_def a c dom_def)
  moreover have "count_ok (\<lambda>_. None) s" unfolding count_ok_def Let_def using c(7-10,11) by (simp add: c(1,3,4,6))
  moreover have "lsq_ok (\<lambda>_. None) s" by (simp add: lsq_ok_def a c)
  ultimately have "static_ok (\<lambda>_. None) s" using a(7) by (simp add: static_ok_def)
  moreover have "deps_ok (\<lambda>_. []) s" by (simp add: deps_ok_def a nodes_def)
  moreover have "act_ok s" by (simp add: act_ok_def acts_def ev a ready_def)
  moreover have "win_ok s" using c(14,15) by (simp add: win_ok_def win_at_def used_def c(1) ev)
  moreover have "rat_ok s" by (simp add: rat_ok_def c writer_def)
  moreover have "dep_ok (\<lambda>_. []) s" by (simp add: dep_ok_def c)
  moreover have "ret_ok {} (\<lambda>_. []) (\<lambda>_. None) s" by (simp add: ret_ok_def a nodes_def)
  moreover have "stamp_ok (\<lambda>_. []) s" by (simp add: stamp_ok_def a c)
  moreover have "time_ok s" by (simp add: time_ok_def a)
  ultimately show ?thesis using a(8) by (simp add: core_ok_def core_inv_def queued_def c)
qed

subsection \<open>Callbacks that only give a window entry back\<close>

lemma drop_issued:
  assumes I: "core_inv E D pl (put (IssuedCB p ty d) s)"
  shows "\<exists>s1. Cluster_issued p (cluster_no p ty s) s = Some s1 \<and> core_inv E D pl s1 \<and> W s1 = W s \<and> frame s s1"
proof -
  let ?k = "cluster_no p ty s" and ?a = "put (IssuedCB p ty d) s"
  note C = core_invD [OF I]
  have fin: "core_inv E D pl t" "W t = W s"
    if F: "frame s t" and t: "heap t = heap s" "memReads t = memReads s" "evs t = evs s" "\<And>q. RAT (cores t q) = RAT (cores s q)"
      "ports_ok t" "time_ok t" and w: "win_ok t" for t
  proof -
    have Fa: "frame ?a t" using F by simp
    note Fs = frame_simps [OF Fa]
    have wr: "writer t = writer ?a" using writer_frame [OF Fa] by (simp add: fun_eq_iff)
    have "static_ok pl t" using C(1) static_frame [OF Fa] by simp
    moreover have "deps_ok D t" using C(2) deps_ok_cong [of t ?a D] t Fs by simp
    moreover have "act_ok t"
    proof -
      have "acts t x = acts ?a x" for x by (simp add: acts_put) (simp add: acts_def t)
      moreover have "ready t x = ready ?a x" for x by (simp add: ready_def t Fs)
      ultimately show ?thesis using C(3) by (auto simp: act_ok_def t Fs)
    qed
    moreover have "rat_ok t" using C(5) by (simp add: rat_ok_def wr t Fs cong: option.case_cong)
    moreover have "dep_ok D t" using C(6) by (simp add: dep_ok_def wr t Fs)
    moreover have "ret_ok E D pl t" using C(7) by (simp add: ret_ok_def t Fs)
    moreover have "stamp_ok D t" by (intro stamp_frame [OF Fa _ C(8)]) auto
    ultimately show "core_inv E D pl t" using w t by (simp add: core_inv_def)
    show "W t = W s" using frame_simps(2) [OF F] by (intro W_same) (auto intro!: rank_cong simp: t)
  qed
  have un: "used t q k = used s q k" if "frame s t" "heap t = heap s" "evs t = evs s" for t q k
  proof -
    note Fs = frame_simps [OF that(1)]
    have "holds t q k = holds s q k" "is_issued_cb t q k = is_issued_cb s q k"
      using that by (simp_all add: fun_eq_iff holds_def unstarted_def is_issued_cb_def Fs split: recycle.split cev.split)
    then show ?thesis by (simp add: used_def that Fs)
  qed
  have ua: "used ?a q k = used s q k + of_bool (q = p \<and> k = ?k \<and> recycleAt (clusters (cores s p) ?k) = AtIssue)" for q k
  proof -
    have "holds ?a q k = holds s q k" "is_issued_cb ?a q k = is_issued_cb s q k"
      by (simp_all add: fun_eq_iff holds_def unstarted_def is_issued_cb_def split: recycle.split cev.split)
    then show ?thesis by (auto simp: used_def is_issued_cb_def)
  qed
  have w0: "win_at (clusters (cores s q) k) (used ?a q k)" for q k using C(4) by (simp add: win_ok_def)
  have T: "ports_ok s" "time_ok s" using C(9,10) by simp_all
  show ?thesis
  proof (cases "recycleAt (clusters (cores s p) ?k) = AtIssue")
    case False
    have "win_ok s" using w0 ua False by (simp add: win_ok_def)
    then show ?thesis using fin [of s] T False by (auto simp: Cluster_issued_def)
  next
    case True
    let ?s = "upd_cluster p ?k (\<lambda>c. c\<lparr>windowSize := windowSize c + 1\<rparr>) s"
    have f: "frame s ?s" by (auto simp: frame_def cluster_body_def)
    have e: "evs ?s = evs s" by (simp add: evs_def)
    have w: "win_at (clusters (cores ?s q) k) (used ?s q k)" for q k
      using w0 [of q k] ua [of q k] un [OF f _ e, of q k] True by (auto simp: win_at_def)
    have "windowSize (clusters (cores ?s p) ?k) \<le> MaxWinSize (clusters (cores ?s p) ?k)"
      using w [of p ?k] by (simp add: win_at_def)
    then have "Cluster_issued p ?k s = Some ?s" using True by (simp add: Cluster_issued_def delEntry_def Let_def)
    then show ?thesis using fin [OF f _ _ e] f w T by (auto simp: win_ok_def ports_ok_def time_ok_def)
  qed
qed

subsection \<open>Every step\<close>

lemma W_bound:
  assumes "core_ok D pl s" "5 * card (live s) < n"
  shows "W s \<le> n"
proof -
  have "finite (live s)" using assms(1) live_finite by (auto simp: core_ok_def)
  moreover have "rank s x \<le> 5" for x by (simp add: rank_def)
  ultimately have "W s \<le> card (live s) * 5" unfolding W_def by (metis sum_bounded_above of_nat_id)
  then show ?thesis using assms(2) by simp
qed

lemma queued_events: "queued pl (s\<lparr>events := e\<rparr>) = queued pl s" "queued pl (s\<lparr>memReads := m\<rparr>) = queued pl s"
    "queued pl (s\<lparr>memWrites := w\<rparr>) = queued pl s" "queued pl (s\<lparr>now := t\<rparr>) = queued pl s"
  by (simp_all add: queued_def)

lemma fire_ok:
  assumes I: "core_ok D pl s" and e: "(now s, ev) \<in># events s" and n: "5 * card (live s) < n"
  shows "\<exists>s' D'. run_cb n ev (s\<lparr>events := events s - {#(now s, ev)#}\<rparr>) = Some s' \<and> core_ok D' pl s' \<and>
    W s' \<le> W s - of_bool (about ev \<noteq> None \<and> \<not> turned_away ev s) \<and> calm s s'"
proof -
  let ?s = "s\<lparr>events := events s - {#(now s, ev)#}\<rparr>"
  have p: "put ev ?s = s" using e by (simp add: put_def)
  have J: "core_inv {} D pl (put ev ?s)" and q: "queued pl ?s" using I p by (simp_all add: core_ok_def queued_events)
  have c: "calm s s'" if "frame ?s s'" for s' using frame_calm [OF that] by (simp add: calm_def)
  show ?thesis
  proof (cases "about ev")
    case None
    then obtain r ty d where ev: "ev = IssuedCB r ty d" by (cases ev) auto
    obtain s1 where s1: "Cluster_issued r (cluster_no r ty ?s) ?s = Some s1" "core_inv {} D pl s1" "W s1 = W ?s" "frame ?s s1"
      using drop_issued J unfolding ev by blast
    have "W ?s = W (put ev ?s)" by (rule W_same) (auto intro!: rank_cong simp: ev)
    moreover have "core_ok D pl s1" using s1(2) queued_calm [OF q frame_calm [OF s1(4)]] by (simp add: core_ok_def)
    moreover have "run_cb n ev ?s = Some s1" using s1(1) n by (cases n) (simp_all add: ev)
    ultimately show ?thesis using s1(3) p None c [OF s1(4)] by auto
  next
    case (Some d)
    have "W (put ev ?s) \<le> n" using W_bound [OF I n] p by simp
    then have "fin (W s - of_bool (\<not> turned_away ev s)) {} D pl ?s (run_cb n ev ?s)"
      using run_cb_ok [OF J Some] p by (simp add: turned_away_def cong: cev.case_cong)
    from core_ok_fin [OF q this] show ?thesis using Some c by auto
  qed
qed

lemma tick_ok:
  assumes I: "core_ok D pl s" and e: "\<forall>e\<in>#events s. now s < fst e"
  shows "core_ok D pl (s\<lparr>now := Suc (now s)\<rparr>)"
proof -
  let ?t = "s\<lparr>now := Suc (now s)\<rparr>"
  have J: "core_inv {} D pl s" using I by (simp add: core_ok_def)
  note C = core_invD [OF J]
  have f: "InstTable ?t = InstTable s" "cores ?t = cores s" "now ?t = Suc (now s)" by simp_all
  have "conf_ok ?t"
    using staticD(4) [OF C(1)] unfolding conf_ok_def f by (blast intro: zero_less_Suc)
  moreover have "dyn_ok ?t = dyn_ok s" by (simp add: fun_eq_iff dyn_ok_def)
  then have "place_ok pl ?t = place_ok pl s" "count_ok pl ?t = count_ok pl s" "lsq_ok pl ?t = lsq_ok pl s"
    by (simp_all add: place_ok_def count_ok_def lsq_ok_def)
  ultimately have "static_ok pl ?t" using staticD(1-3) [OF C(1)] by (simp add: static_ok_def)
  moreover have ev: "evs ?t = evs s" by (simp add: evs_def)
  moreover have "deps_ok D ?t" using C(2) deps_ok_cong [of ?t s D] by simp
  moreover have "act_ok ?t" using C(3) by (simp add: act_ok_def acts_def ready_def ev)
  moreover have "win_ok ?t"
  proof -
    have "holds ?t p k = holds s p k" "is_issued_cb ?t p k = is_issued_cb s p k" for p k
      by (simp_all add: fun_eq_iff holds_def unstarted_def is_issued_cb_def cluster_no_def ev split: recycle.split cev.split)
    then have "used ?t p k = used s p k" for p k by (simp add: used_def ev)
    then show ?thesis using C(4) by (simp add: win_ok_def)
  qed
  moreover have wr: "writer ?t = writer s" by (simp add: fun_eq_iff writer_def dest_def)
  moreover have "rat_ok ?t" using C(5) by (simp add: rat_ok_def wr cong: option.case_cong)
  moreover have "dep_ok D ?t" using C(6) by (simp add: dep_ok_def wr)
  moreover have "ret_ok {} D pl ?t" using C(7) by (simp add: ret_ok_def)
  moreover have "stamp_ok D ?t" using C(8) by (simp add: stamp_ok_def)
  moreover have "ports_ok ?t" using C(9) by (simp add: ports_ok_def)
  moreover have "time_ok ?t" using e by (auto simp: time_ok_def)
  ultimately show ?thesis using I by (simp add: core_ok_def core_inv_def queued_events)
qed

lemma read_ok:
  assumes I: "core_ok D pl s" and d: "d \<in># memReads s" and n: "5 * card (live s) < n"
  shows "\<exists>s' D'. ack_read (run_cb n) d lat (s\<lparr>memReads := memReads s - {#d#}\<rparr>) = Some s' \<and> core_ok D' pl s' \<and>
    W s' \<le> W s - of_bool (lat = 0) \<and> calm s s'"
proof -
  let ?s = "s\<lparr>memReads := memReads s - {#d#}\<rparr>" and ?ev = "ExecutedCB d"
  have J: "core_inv {} D pl s" and q: "queued pl ?s" using I by (simp_all add: core_ok_def queued_events)
  note K = from_mem [OF J d]
  have r: "d \<in> live s" "d_resource (heap s d) \<noteq> None" "\<not> loadForwarded (heap s d)"
    using in_hand(1) [OF K(1)] ready_place [OF K(1), of d] core_invD(3) [OF J] d by (auto simp: ready_def act_ok_def)
  have w: "W (put ?ev ?s) \<le> n" using W_bound [OF I n] K(2) by simp
  have fr: "isFree ?ev ?s" using isFree_in_hand [OF K(1), of d ?ev] by simp
  have "fin (W s - of_bool (lat = 0)) {} D pl ?s (scb_in (run_cb n) ?ev lat ?s)"
  proof (cases "lat = 0")
    case True
    then show ?thesis using run_cb_ok [OF K(1) _ w, of d] fr K(2) by (simp add: turned_away_def scb_in_def cb_in_def)
  next
    case False
    have "0 < n" using n by simp
    then show ?thesis using scb_in_ok [OF run_cb_good K(1) _ w, of d lat] K(2) False by simp
  qed
  moreover have "ack_read (run_cb n) d lat ?s = scb_in (run_cb n) ?ev lat ?s" using r by (simp add: ack_read_def deref_def)
  ultimately obtain s' D' where "ack_read (run_cb n) d lat ?s = Some s'" "core_ok D' pl s'" "W s' \<le> W s - of_bool (lat = 0)" "frame ?s s'"
    using core_ok_fin [OF q] by metis
  moreover have "calm s s'" using frame_calm [OF \<open>frame ?s s'\<close>] by (simp add: calm_def)
  ultimately show ?thesis by blast
qed

lemma write_ok:
  assumes I: "core_ok D pl s" and d: "d \<in># memWrites s" and n: "5 * card (live s) < n"
  shows "\<exists>s' D' p. ack_write (run_cb n) d (s\<lparr>memWrites := memWrites s - {#d#}\<rparr>) = Some s' \<and> core_ok D' (pl(d := None)) s' \<and>
    pl d = Some (Sent p) \<and> W s' \<le> W s \<and> live s' = live s - {d} \<and> memWrites s' = memWrites s - {#d#} \<and>
    (\<forall>q. ROB (cores s' q) = ROB (cores s q))"
proof -
  have J: "core_inv {} D pl s" and q: "queued pl s" using I by (simp_all add: core_ok_def)
  have "0 < count (memWrites s) d" using d by simp
  then obtain p where p: "pl d = Some (Sent p)" using placeD(10) [OF staticD(1) [OF core_invD(1) [OF J]], of d] by (auto split: if_splits)
  have "W s \<le> Suc n" "0 < n" using W_bound [OF I n] n by simp_all
  then obtain s' y D' where s': "ack_write (run_cb n) d (s\<lparr>memWrites := memWrites s - {#d#}\<rparr>) = Some (without d y s')"
    "core_inv {} D' (pl(d := None)) (without d y s')" "W (without d y s') \<le> W s" "calm (acked d p s) s'"
    using ack_write_ok [OF run_cb_good J _ p, of n] by blast
  have cb: "core_body (cores s' r) = core_body (cores (acked d p s) r)" for r using s'(4) by (simp add: calm_def)
  note cf = core_body_fields [OF cb]
  have "queued (pl(d := None)) (without d y s')"
    using q p by (auto simp: queued_def cf acked_def set_eq_iff split: if_splits)
  then have "core_ok D' (pl(d := None)) (without d y s')" using s'(2) by (simp add: core_ok_def)
  moreover have "live (without d y s') = live s - {d}" "memWrites (without d y s') = memWrites s - {#d#}"
    using s'(4) by (simp_all add: calm_def)
  moreover have "ROB (cores (without d y s') r) = ROB (cores s r)" for r by (simp add: cf acked_def)
  ultimately show ?thesis using s'(1,3) p by blast
qed

lemma busy_ok:
  fixes p m :: nat and l st :: "nat \<Rightarrow> bool"
  assumes I: "core_ok D pl s"
  defines "t \<equiv> upd_c p (\<lambda>c. c\<lparr>canAcceptLoad := l, canAcceptStore := st, getNextFreeCycle := m\<rparr>) s"
  shows "core_ok D pl t" "W t = W s" "live t = live s"
proof -
  have F: "front_ok pl p (cores s p)" using static_front core_invD(1) I unfolding core_ok_def by blast
  show "core_ok D pl t" "W t = W s" "live t = live s" unfolding t_def
    by (intro core_ok_upd_c [OF I]; use F in \<open>simp add: front_ok_def exec_body_def\<close>)+
qed

theorem core_step_ok:
  assumes I: "core_ok D pl s" and a: "core_allowed a s" and n: "5 * card (live s) < n"
  shows "\<exists>s' D' pl'. core_do n a s = Some s' \<and> core_ok D' pl' s'"
proof (cases a)
  case (Fetch p z bb fs)
  then show ?thesis using fetch_ok [OF I, of fs p z bb] a by (auto simp: core_do_def core_allowed_def)
next
  case (Cycle p rdy)
  have "5 * card (live s) \<le> n" "0 < n" using n by simp_all
  then show ?thesis using advanceClock_ok [OF run_cb_good I, of n p rdy] unfolding Cycle core_do_def core_step.simps by blast
next
  case (Fire t ev)
  then show ?thesis using fire_ok [OF I _ n, of ev] a by (auto simp: core_do_def core_allowed_def)
next
  case Tick
  then show ?thesis using tick_ok [OF I] a by (auto simp: core_do_def core_allowed_def)
next
  case (ReadDone d lat)
  then show ?thesis using read_ok [OF I _ n, of d lat] a by (auto simp: core_do_def core_allowed_def)
next
  case (WriteDone d)
  then show ?thesis using write_ok [OF I _ n, of d] a by (auto simp: core_do_def core_allowed_def)
next
  case (Busy p l st m)
  then show ?thesis using busy_ok(1) [OF I, where p = p and l = l and st = st and m = m] by (auto simp: core_do_def)
qed

lemma core_reach_ok: "core_reach s \<Longrightarrow> \<exists>D pl. core_ok D pl s"
proof (induction rule: core_reach.induct)
  case (start s)
  then show ?case using core_init_ok by blast
next
  case (step s a n s')
  then show ?case using core_step_ok by fastforce
qed

subsection \<open>No deadlock\<close>

lemma stuck_or_busy:
  assumes I: "core_ok D pl s" and d: "pl d = Some (InROB p)"
  shows "events s \<noteq> {#} \<or> memReads s \<noteq> {#} \<or> memWrites s \<noteq> {#} \<or>
    (\<exists>q h hs. ROB (cores s q) = h # hs \<and> executed (heap s h))"
proof -
  have J: "core_inv {} D pl s" using I by (simp add: core_ok_def)
  note C = core_invD [OF J]
  note P = placeD [OF staticD(1) [OF C(1)]] and R = ret_okD [OF C(7)]
  have inROB: "z \<in> live s" "issued (heap s z)" "z \<in> set (ROB (cores s q))" if "pl z = Some (InROB q)" for z q
    using P(2) P(4) [of z q] P(13) [OF that] that by (auto simp: runs_on_def)
  have head: "\<exists>h hs. ROB (cores s q) = h # hs \<and> pl h = Some (InROB q) \<and> (h = z \<or> stamp s h < stamp s z)" if "pl z = Some (InROB q)" for z q
  proof -
    have z: "z \<in> set (ROB (cores s q))" using inROB [OF that] by simp
    then obtain h hs where h: "ROB (cores s q) = h # hs" by (cases "ROB (cores s q)") auto
    moreover have "sorted_wrt (\<lambda>a b. stamp s a < stamp s b) (ROB (cores s q))" using C(8) by (simp add: stamp_ok_def)
    moreover have "pl h = Some (InROB q)" using P(4) [of h q] h by simp
    ultimately show ?thesis using z by auto
  qed
  show ?thesis
  proof (cases "\<exists>z q. pl z = Some (InROB q) \<and> \<not> executed (heap s z)")
    case False
    obtain h hs where "ROB (cores s p) = h # hs" "pl h = Some (InROB p)" using head [OF d] by blast
    then show ?thesis using False by blast
  next
    case True
    then obtain x q where x: "pl x = Some (InROB q)" "\<not> executed (heap s x)"
      and min: "\<And>z r. pl z = Some (InROB r) \<Longrightarrow> \<not> executed (heap s z) \<Longrightarrow> stamp s x \<le> stamp s z"
      using ex_has_least_nat [of "\<lambda>z. \<exists>q. pl z = Some (InROB q) \<and> \<not> executed (heap s z)" _ "stamp s"] by blast
    note xl = inROB [OF x(1)]
    show ?thesis
    proof (cases "nDeps (heap s x) = 0")
      case True
      then have "acts s x = 1" using C(3) x xl by (simp add: act_ok_def ready_def)
      then have "events s \<noteq> {#} \<or> memReads s \<noteq> {#}" by (auto simp: acts_def evs_def)
      then show ?thesis by blast
    next
      case False
      then obtain k r where r: "(x, k) \<in> set (D r)"
        using deps_use(1) [OF C(2) xl(1)] by (auto simp: nodes_def)
      have rl: "r \<in> live s" using deps_okD(3) [OF C(2)] r by force
      have st: "stamp s r < stamp s x" using C(8) r by (force simp: stamp_ok_def)
      obtain w where w: "pl r = Some w" using rl P(2) by auto
      show ?thesis
      proof (cases w)
        case (Waiting u)
        then show ?thesis using R(8) [of r u] w r by simp
      next
        case (Sent u)
        then have "0 < count (memWrites s) r" using P(10) [of r] w by auto
        then have "memWrites s \<noteq> {#}" by auto
        then show ?thesis by blast
      next
        case (Dying u)
        then show ?thesis using I w by (simp add: core_ok_def queued_def)
      next
        case (InROB u)
        then have ru: "pl r = Some (InROB u)" using w by simp
        obtain h hs where h: "ROB (cores s u) = h # hs" "pl h = Some (InROB u)" "h = r \<or> stamp s h < stamp s r" using head [OF ru] by blast
        then have "executed (heap s h)" using min [of h u] st by force
        then show ?thesis using h(1) by blast
      qed
    qed
  qed
qed

end
