(* ===== verification/Core_Drain.thy ===== *)
theory Core_Drain
  imports Core_Steps
begin

text \<open>
  Progress: as long as an instruction is in a reorder buffer or in the memory system, steps
  other than fetch lead on, and the work that is left runs out.
\<close>

subsection \<open>Steps without fetch\<close>

inductive core_run :: "world \<Rightarrow> world \<Rightarrow> bool" where
  stop: "core_run s s"
| go: "core_run s t \<Longrightarrow> core_allowed a t \<Longrightarrow> (\<forall>p z bb fs. a \<noteq> Fetch p z bb fs) \<Longrightarrow> 5 * card (live t) < n \<Longrightarrow>
    core_do n a t = Some u \<Longrightarrow> core_run s u"

lemma core_run_trans: "core_run t u \<Longrightarrow> core_run s t \<Longrightarrow> core_run s u"
  by (induction rule: core_run.induct) (auto intro: core_run.go)

lemma core_run_one:
  assumes "core_allowed a s" "\<forall>p z bb fs. a \<noteq> Fetch p z bb fs" "core_do (Suc (5 * card (live s))) a s = Some t"
  shows "core_run s t"
  using core_run.go [OF core_run.stop assms(1,2) _ assms(3)] by simp

lemma core_run_reach: "core_run s t \<Longrightarrow> core_reach s \<Longrightarrow> core_reach t"
  by (induction rule: core_run.induct) (auto intro: core_reach.step)

subsection \<open>The measure\<close>

definition waits :: "(nat \<Rightarrow> place option) \<Rightarrow> nat set" where
  "waits pl = {d. \<exists>p. pl d = Some (Waiting p)}"

definition in_rob :: "(nat \<Rightarrow> place option) \<Rightarrow> nat set" where
  "in_rob pl = {d. \<exists>p. pl d = Some (InROB p)}"

definition sent :: "(nat \<Rightarrow> place option) \<Rightarrow> nat set" where
  "sent pl = {d. \<exists>p. pl d = Some (Sent p)}"

definition jobs :: "(nat \<Rightarrow> place option) \<Rightarrow> world \<Rightarrow> nat" where
  "jobs pl s = W s + 2 * card (in_rob pl) + card (sent pl)"

definition handovers :: "world \<Rightarrow> nat" where
  "handovers s = size (filter_mset (\<lambda>e. about e = None) (evs s))"

lemma places_finite:
  assumes "core_ok D pl s"
  shows "finite (waits pl)" "finite (in_rob pl)" "finite (sent pl)"
proof -
  have "finite (live s)" "live s = dom pl"
    using placeD(1,2) [OF staticD(1) [OF core_invD(1)]] assms unfolding core_ok_def by blast+
  then have "finite (dom pl)" by simp
  then show "finite (waits pl)" "finite (in_rob pl)" "finite (sent pl)"
    by (rule finite_subset [rotated]; auto simp: waits_def in_rob_def sent_def)+
qed

lemma jobs_left:
  assumes fin: "finite (in_rob pl)" "finite (sent pl)" and m: "left_rob p pl pl'" and h: "pl' h \<noteq> pl h"
  shows "2 * card (in_rob pl') + card (sent pl') < 2 * card (in_rob pl) + card (sent pl)" "waits pl' = waits pl"
proof -
  have m': "pl' d = pl d \<or> pl d = Some (InROB p) \<and> (pl' d = None \<or> pl' d = Some (Sent p))" for d
    using m by (auto simp: left_rob_def)
  have sub: "in_rob pl' \<subseteq> in_rob pl"
  proof
    fix d assume "d \<in> in_rob pl'"
    then show "d \<in> in_rob pl" using m' [of d] by (auto simp: in_rob_def)
  qed
  have "h \<in> in_rob pl" "h \<notin> in_rob pl'" using m' [of h] h by (auto simp: in_rob_def)
  then have lt: "card (in_rob pl') < card (in_rob pl)" using sub fin by (intro psubset_card_mono) auto
  have "sent pl' \<subseteq> sent pl \<union> (in_rob pl - in_rob pl')"
  proof
    fix d assume "d \<in> sent pl'"
    then show "d \<in> sent pl \<union> (in_rob pl - in_rob pl')" using m' [of d] by (auto simp: sent_def in_rob_def)
  qed
  then have "card (sent pl') \<le> card (sent pl \<union> (in_rob pl - in_rob pl'))" using fin by (intro card_mono) auto
  also have "\<dots> \<le> card (sent pl) + card (in_rob pl - in_rob pl')" by (rule card_Un_le)
  also have "card (in_rob pl - in_rob pl') = card (in_rob pl) - card (in_rob pl')"
    using sub fin finite_subset by (intro card_Diff_subset) auto
  finally show "2 * card (in_rob pl') + card (sent pl') < 2 * card (in_rob pl) + card (sent pl)" using lt by simp
  have "d \<in> waits pl' \<longleftrightarrow> d \<in> waits pl" for d using m' [of d] unfolding waits_def mem_Collect_eq by (metis option.distinct(1) option.inject place.distinct(1,3))
  then show "waits pl' = waits pl" by blast
qed

lemma jobs_ack:
  assumes fin: "finite (in_rob pl)" "finite (sent pl)" and d: "pl d = Some (Sent p)"
  shows "2 * card (in_rob (pl(d := None))) + card (sent (pl(d := None))) < 2 * card (in_rob pl) + card (sent pl)"
    "waits (pl(d := None)) = waits pl"
proof -
  have "in_rob (pl(d := None)) = in_rob pl" "sent (pl(d := None)) = sent pl - {d}" "d \<in> sent pl" "waits (pl(d := None)) = waits pl"
    using d by (auto simp: in_rob_def sent_def waits_def)
  then show "2 * card (in_rob (pl(d := None))) + card (sent (pl(d := None))) < 2 * card (in_rob pl) + card (sent pl)"
    "waits (pl(d := None)) = waits pl" using card_Diff1_less [OF fin(2)] by simp_all
qed

text \<open>What is left, in lexicographic order.\<close>

definition left_order :: "((nat \<Rightarrow> place option) \<times> world) rel" where
  "left_order = inv_image (less_than <*lex*> less_than <*lex*> less_than) (\<lambda>(pl, s). (card (waits pl), jobs pl s, handovers s))"

lemma wf_left: "wf left_order"
  unfolding left_order_def by (intro wf_inv_image wf_lex_prod wf_less_than)

lemma left_orderI:
  "card (waits pl') < card (waits pl) \<Longrightarrow> ((pl', s'), (pl, s)) \<in> left_order"
  "waits pl' = waits pl \<Longrightarrow> jobs pl' s' < jobs pl s \<Longrightarrow> ((pl', s'), (pl, s)) \<in> left_order"
  "waits pl' = waits pl \<Longrightarrow> jobs pl' s' = jobs pl s \<Longrightarrow> handovers s' < handovers s \<Longrightarrow> ((pl', s'), (pl, s)) \<in> left_order"
  by (simp_all add: left_order_def)

subsection \<open>One round\<close>

text \<open>The caches of all processors accept requests.\<close>

definition open_caches :: "world \<Rightarrow> nat \<Rightarrow> bool" where
  "open_caches s p \<longleftrightarrow> canAcceptLoad (cores s p) = (\<lambda>_. True) \<and> canAcceptStore (cores s p) = (\<lambda>_. True) \<and> getNextFreeCycle (cores s p) = 0"

lemma open_cache:
  assumes "core_ok D pl s"
  shows "\<exists>t. core_run s t \<and> core_ok D pl t \<and> W t = W s \<and> handovers t = handovers s \<and> heap t = heap s \<and>
    events t = events s \<and> now t = now s \<and> memReads t = memReads s \<and> memWrites t = memWrites s \<and> live t = live s \<and>
    (\<forall>q. ROB (cores t q) = ROB (cores s q) \<and> pendingFence (cores t q) = pendingFence (cores s q)) \<and> open_caches t p"
proof -
  let ?t = "upd_c p (\<lambda>c. c\<lparr>canAcceptLoad := \<lambda>_. True, canAcceptStore := \<lambda>_. True, getNextFreeCycle := 0\<rparr>) s"
  have "core_run s ?t"
    by (rule core_run_one [of "Busy p (\<lambda>_. True) (\<lambda>_. True) 0"]) (simp_all add: core_do_def core_allowed_def)
  then show ?thesis using busy_ok [OF assms, where p = p and l = "\<lambda>_. True" and st = "\<lambda>_. True" and m = 0]
    by (intro exI [of _ ?t]) (simp add: open_caches_def handovers_def evs_def)
qed

lemma wait_for_event:
  assumes "core_ok D pl s" "events s \<noteq> {#}"
  shows "\<exists>t ev. core_run s t \<and> core_ok D pl t \<and> W t = W s \<and> handovers t = handovers s \<and> (now t, ev) \<in># events t"
  using assms
proof (induction "Min (fst ` set_mset (events s)) - now s" arbitrary: s)
  case 0
  let ?m = "Min (fst ` set_mset (events s))"
  have "?m \<in> fst ` set_mset (events s)" using 0(3) by (intro Min_in) auto
  then obtain ev where ev: "(?m, ev) \<in># events s" by force
  have "time_ok s" using 0(2) by (simp add: core_ok_def core_inv_def)
  then have "now s \<le> ?m" using ev by (force simp: time_ok_def)
  then have "?m = now s" using 0(1) by simp
  then show ?case using ev 0(2) by (intro exI [of _ s] exI [of _ ev]) (simp add: core_run.stop)
next
  case (Suc k)
  let ?m = "Min (fst ` set_mset (events s))" and ?t = "s\<lparr>now := Suc (now s)\<rparr>"
  have all: "\<forall>e\<in>#events s. now s < fst e"
  proof
    fix e assume "e \<in># events s"
    then have "?m \<le> fst e" by (intro Min_le) auto
    then show "now s < fst e" using Suc(2) by simp
  qed
  have ok: "core_ok D pl ?t" using tick_ok [OF Suc(3) all] .
  have run: "core_run s ?t" by (rule core_run_one [of Tick]) (simp_all add: core_do_def core_allowed_def all)
  have same: "W ?t = W s" "handovers ?t = handovers s"
    by (rule W_same; auto intro!: rank_cong simp: evs_def) (simp add: handovers_def evs_def)
  have "k = Min (fst ` set_mset (events ?t)) - now ?t" using Suc(2) by simp
  moreover have "events ?t \<noteq> {#}" using Suc(4) by simp
  ultimately obtain u ev where u: "core_run ?t u" "core_ok D pl u" "W u = W ?t" "handovers u = handovers ?t" "(now u, ev) \<in># events u"
    using Suc(1) [OF _ ok] by blast
  then show ?case using core_run_trans [OF u(1) run] same by auto
qed

lemma round_event:
  assumes "core_ok D pl s" "events s \<noteq> {#}"
  shows "\<exists>t D' pl'. core_run s t \<and> core_ok D' pl' t \<and> ((pl', t), (pl, s)) \<in> left_order"
proof -
  obtain t ev where t: "core_run s t" "core_ok D pl t" "W t = W s" "handovers t = handovers s" "(now t, ev) \<in># events t"
    using wait_for_event [OF assms] by blast
  let ?p = "case ev of DispatchedCB p d \<Rightarrow> p | _ \<Rightarrow> 0"
  obtain u where u: "core_run t u" "core_ok D pl u" "W u = W t" "handovers u = handovers t" "events u = events t" "now u = now t" "open_caches u ?p"
    using open_cache [OF t(2), of ?p] by blast
  have ev: "(now u, ev) \<in># events u" using t(5) u(5,6) by simp
  have na: "\<not> turned_away ev u" using u(7) by (auto simp: turned_away_def open_caches_def split: cev.splits)
  obtain v D' where v: "run_cb (Suc (5 * card (live u))) ev (u\<lparr>events := events u - {#(now u, ev)#}\<rparr>) = Some v" "core_ok D' pl v"
    "W v \<le> W u - of_bool (about ev \<noteq> None \<and> \<not> turned_away ev u)" using fire_ok [OF u(2) ev, of "Suc (5 * card (live u))"] by auto
  have "core_run u v" by (rule core_run_one [of "Fire (now u) ev"]) (simp_all add: core_do_def core_allowed_def ev v(1) del: run_cb.simps)
  then have run: "core_run s v" using core_run_trans t(1) u(1) by blast
  show ?thesis
  proof (cases "about ev")
    case None
    then obtain r ty d where e: "ev = IssuedCB r ty d" by (cases ev) auto
    have "evs v = evs (u\<lparr>events := events u - {#(now u, ev)#}\<rparr>)"
      using v(1) by (auto simp: e Cluster_issued_def delEntry_def Let_def evs_def upd_cluster_def I_check_def split: if_splits)
    then have h: "handovers v < handovers u"
    proof -
      have "ev \<in># evs u" using ev by (force simp: evs_def)
      moreover have "evs v = evs u - {#ev#}" using \<open>evs v = _\<close> ev by (simp add: evs_def image_mset_Diff)
      ultimately have "evs u = add_mset ev (evs v)" by simp
      then show ?thesis using None by (simp add: handovers_def)
    qed
    have "W v \<le> W s" using v(3) u(3) t(3) by simp
    then have "((pl, v), (pl, s)) \<in> left_order"
    proof (cases "W v = W s")
      case True
      then show ?thesis using h u(4) t(4) by (intro left_orderI(3)) (simp_all add: jobs_def)
    next
      case False
      then show ?thesis using \<open>W v \<le> W s\<close> by (intro left_orderI(2)) (simp_all add: jobs_def)
    qed
    then show ?thesis using run v(2) by blast
  next
    case (Some d)
    have "0 < W u"
    proof -
      let ?u = "u\<lparr>events := events u - {#(now u, ev)#}\<rparr>"
      have "put ev ?u = u" using ev by (simp add: put_def)
      then have "rk ev \<le> W u" using W_put_pos [OF _ Some, of "{}" D pl ?u] u(2) by (simp add: core_ok_def)
      then show ?thesis using Some by (cases ev) auto
    qed
    then have "W v < W s" using v(3) na Some u(3) t(3) by simp
    then have "((pl, v), (pl, s)) \<in> left_order" by (intro left_orderI(2)) (simp_all add: jobs_def)
    then show ?thesis using run v(2) by blast
  qed
qed

lemma round_read:
  assumes I: "core_ok D pl s" and d: "d \<in># memReads s"
  shows "\<exists>t D' pl'. core_run s t \<and> core_ok D' pl' t \<and> ((pl', t), (pl, s)) \<in> left_order"
proof -
  obtain v D' where v: "ack_read (run_cb (Suc (5 * card (live s)))) d 0 (s\<lparr>memReads := memReads s - {#d#}\<rparr>) = Some v" "core_ok D' pl v"
    "W v \<le> W s - 1" using read_ok [OF I d, of "Suc (5 * card (live s))" 0] by auto
  have J: "core_inv {} D pl s" using I by (simp add: core_ok_def)
  have "0 < W s"
    using W_put_pos [OF from_mem(1) [OF J d], of d] from_mem(2) [OF J d] by simp
  then have "((pl, v), (pl, s)) \<in> left_order" using v(3) by (intro left_orderI(2)) (simp_all add: jobs_def)
  moreover have "core_run s v" by (rule core_run_one [of "ReadDone d 0"]) (simp_all add: core_do_def core_allowed_def d v(1) del: run_cb.simps)
  ultimately show ?thesis using v(2) by blast
qed

lemma round_write:
  assumes I: "core_ok D pl s" and d: "d \<in># memWrites s"
  shows "\<exists>t D' pl'. core_run s t \<and> core_ok D' pl' t \<and> ((pl', t), (pl, s)) \<in> left_order"
proof -
  obtain v D' p where v: "ack_write (run_cb (Suc (5 * card (live s)))) d (s\<lparr>memWrites := memWrites s - {#d#}\<rparr>) = Some v"
    "core_ok D' (pl(d := None)) v" "pl d = Some (Sent p)" "W v \<le> W s"
    using write_ok [OF I d, of "Suc (5 * card (live s))"] by auto
  have "((pl(d := None), v), (pl, s)) \<in> left_order"
    using jobs_ack [OF places_finite(2,3) [OF I] v(3)] v(4) by (intro left_orderI(2)) (simp_all add: jobs_def)
  moreover have "core_run s v" by (rule core_run_one [of "WriteDone d"]) (simp_all add: core_do_def core_allowed_def d v(1) del: run_cb.simps)
  ultimately show ?thesis using v(2) by blast
qed

lemma round_retire:
  assumes I: "core_ok D pl s" and h: "ROB (cores s p) = h # hs" "executed (heap s h)" and w: "memWrites s = {#}"
  shows "\<exists>t D' pl'. core_run s t \<and> core_ok D' pl' t \<and> ((pl', t), (pl, s)) \<in> left_order"
proof -
  obtain t where t: "core_run s t" "core_ok D pl t" "W t = W s" "heap t = heap s" "memWrites t = memWrites s" "live t = live s"
    "\<And>q. ROB (cores t q) = ROB (cores s q)" "open_caches t p" using open_cache [OF I, of p] by blast
  have J: "core_inv {} D pl t" using t(2) by (simp add: core_ok_def)
  note S = core_invD(1) [OF J]
  have noS: "{d. pl d = Some (Sent p)} = {}" using placeD(10) [OF staticD(1) [OF S]] w t(5) by auto
  have "\<not> pendingFence (cores t p)"
  proof
    assume "pendingFence (cores t p)"
    then have "0 < nOutsStores (cores t p)" "nOutsStores (cores t p) = int (card {d. pl d = Some (Sent p)})"
      using staticD(2) [OF S] unfolding count_ok_def Let_def by blast+
    then show False using noS by simp
  qed
  then have g: "gate p h t" using t(8) by (simp add: gate_def open_caches_def)
  have rw: "0 < RetireWidth (cores t p)" using staticD(4) [OF S] unfolding conf_ok_def by blast
  obtain v D' pl' where v: "Processor_advanceClock (run_cb (Suc (5 * card (live t)))) p False t = Some v" "core_ok D' pl' v"
    "\<forall>d q. pl' d = Some (Waiting q) \<longrightarrow> pl d = Some (Waiting q)"
    "(\<exists>d. pl d = Some (Waiting p) \<and> pl' d \<noteq> Some (Waiting p)) \<or>
     W v = W t \<and> left_rob p pl pl' \<and> (\<forall>h hs. 0 < RetireWidth (cores t p) \<longrightarrow> ROB (cores t p) = h # hs \<longrightarrow>
       executed (heap t h) \<longrightarrow> gate p h t \<longrightarrow> pl' h \<noteq> pl h)"
    using advanceClock_ok [OF run_cb_good t(2), of "Suc (5 * card (live t))" p False] by auto
  have "core_run t v" by (rule core_run_one [of "Cycle p False"]) (simp_all add: core_do_def core_allowed_def v(1) del: run_cb.simps)
  then have run: "core_run s v" using core_run_trans t(1) by blast
  have "((pl', v), (pl, s)) \<in> left_order"
    using v(4)
  proof
    assume "\<exists>d. pl d = Some (Waiting p) \<and> pl' d \<noteq> Some (Waiting p)"
    then obtain d where d: "pl d = Some (Waiting p)" "pl' d \<noteq> Some (Waiting p)" by blast
    have "d \<notin> waits pl'" using d v(3) by (auto simp: waits_def)
    moreover have "waits pl' \<subseteq> waits pl" "d \<in> waits pl" using v(3) d by (auto simp: waits_def)
    ultimately have "card (waits pl') < card (waits pl)" using places_finite(1) [OF I] by (intro psubset_card_mono) auto
    then show ?thesis by (rule left_orderI(1))
  next
    assume a: "W v = W t \<and> left_rob p pl pl' \<and> (\<forall>h hs. 0 < RetireWidth (cores t p) \<longrightarrow> ROB (cores t p) = h # hs \<longrightarrow>
       executed (heap t h) \<longrightarrow> gate p h t \<longrightarrow> pl' h \<noteq> pl h)"
    then have "pl' h \<noteq> pl h" using rw g h t(4,7) by simp
    then show ?thesis using jobs_left [OF places_finite(2,3) [OF I], of p pl' h] a t(3)
      by (intro left_orderI(2)) (simp_all add: jobs_def)
  qed
  then show ?thesis using run v(2) by blast
qed

subsection \<open>Everything that has been issued leaves the cores\<close>

lemma core_drain_ok:
  "core_ok D pl s \<Longrightarrow> \<exists>t D' pl'. core_run s t \<and> core_ok D' pl' t \<and> (\<forall>p. ROB (cores t p) = []) \<and> memWrites t = {#}"
proof (induction "(pl, s)" arbitrary: D pl s rule: wf_induct_rule [OF wf_left])
  case 1
  note I = \<open>core_ok D pl s\<close>
  have next_round: ?case if r: "\<exists>t D' pl'. core_run s t \<and> core_ok D' pl' t \<and> ((pl', t), (pl, s)) \<in> left_order"
  proof -
    obtain t D' pl' where t: "core_run s t" "core_ok D' pl' t" "((pl', t), (pl, s)) \<in> left_order" using r by blast
    obtain u D'' pl'' where "core_run t u" "core_ok D'' pl'' u" "\<forall>p. ROB (cores u p) = []" "memWrites u = {#}"
      using 1(1) [OF t(3) t(2)] by blast
    then show ?thesis using core_run_trans t(1) by blast
  qed
  show ?case
  proof (cases "memWrites s = {#}")
    case False
    then obtain d where "d \<in># memWrites s" by (meson multiset_nonemptyE)
    then show ?thesis using round_write [OF I] next_round by blast
  next
    case w: True
    show ?thesis
    proof (cases "\<forall>p. ROB (cores s p) = []")
      case True
      then show ?thesis using I w core_run.stop by blast
    next
      case False
      then obtain p d where "d \<in> set (ROB (cores s p))" by (metis last_in_set)
      then have "pl d = Some (InROB p)"
        using placeD(4) [OF staticD(1) [OF core_invD(1)]] I unfolding core_ok_def by blast
      from stuck_or_busy [OF I this] w consider "events s \<noteq> {#}" | "memReads s \<noteq> {#}"
        | (head) q h hs where "ROB (cores s q) = h # hs" "executed (heap s h)" by blast
      then show ?thesis
      proof cases
        case 1
        then show ?thesis using round_event [OF I] by (intro next_round)
      next
        case 2
        then obtain d where "d \<in># memReads s" by (meson multiset_nonemptyE)
        then show ?thesis using round_read [OF I] by (intro next_round) blast
      next
        case head
        then show ?thesis using round_retire [OF I _ _ w] by (intro next_round) blast
      qed
    qed
  qed
qed

end
