(* ===== verification/Core_Example.thy ===== *)
theory Core_Example
  imports Core_Drain
begin

text \<open>
  A processor with one cluster, and a run of it: an instruction that writes register 1, one that
  reads it and writes register 2, and a store of both. The run is evaluated by the simplifier; the
  rules \<open>bind_weak\<close> and \<open>let_weak_cong\<close> make it evaluate the steps in their order.
\<close>

subsection \<open>The configuration and the program\<close>

definition ex_instr :: "InstType \<Rightarrow> nat \<Rightarrow> nat \<Rightarrow> nat \<Rightarrow> nat \<Rightarrow> 64 word \<Rightarrow> instr" where
  "ex_instr ty s1 s2 dst pool a = \<lparr>currentID = a, skipDelay = 1, getAddr = a, opcode = ty, subCode = (if ty = iFence then iMemFence else iNop),
     guessTaken = False, getSrc1 = s1, getSrc2 = s2, getDest = dst, getDstPool = pool, getEvent = NoEvent\<rparr>"

definition ex_cluster :: cluster where
  "ex_cluster = \<lparr>recycleAt = AtExecute, MaxWinSize = 8, WakeUpDelay = 1, SchedDelay = 1, windowSize = 8,
     wakeUpPort = PortUnlimited (Unlimited_new 1), schedPort = PortUnlimited (Unlimited_new 1)\<rparr>"

definition ex_core :: core where
  "ex_core = \<lparr>FetchWidth = 4, IssueWidth = 4, RetireWidth = 1, InstQueueSize = 8, InOrderCore = False, MaxROBSize = 16,
     intRegs = 32, fpRegs = 32, InterClusterLat = 1, RegFileDelay = 0, LSDelay = 1, misCommLat = 1,
     units = (\<lambda>_. \<lparr>u_cluster = 0, u_gen = 0, u_lat = 1\<rparr>), ROB = [], replayQ = [], pipe = [], instQueue = [],
     spaceInInstQueue = 8, RAT = (\<lambda>_. None), regPool = (\<lambda>r. if r < 2 then 32 else 262144), sequenceCount = 0, clockTicks = 0,
     clusters = (\<lambda>_. ex_cluster), gens = (\<lambda>_. PortUnlimited (Unlimited_new 1)), freeLoads = 4, freeStores = 4,
     freeBranches = 4, pendingFence = False, nOutsStores = 0, inflightInsts = {}, instMap = (\<lambda>_. None), unblocked = 0,
     canAcceptLoad = (\<lambda>_. True), canAcceptStore = (\<lambda>_. True), getNextFreeCycle = 0\<rparr>"

definition ex_dinst :: dinst where
  "ex_dinst = \<lparr>d_inst = ex_instr iALU 0 0 1 0 0, d_vaddr = 0, d_cId = 0, d_first = None, d_last = None, nextDep = (\<lambda>_. None),
     isUsed = (\<lambda>_. False), nDeps = 0, loadForwarded = False, issued = False, executed = False, depsAtRetire = False,
     deadStore = False, deadInst = False, resolved = False, wakeUpTime = 0, d_resource = None, RATEntry = None,
     pendEvent = None, d_fetch = None, sequenceNum = - 1, coreID = - 1\<rparr>"

definition ex_world :: world where
  "ex_world = \<lparr>now = 1, heap = (\<lambda>_. ex_dinst), live = {}, events = {#}, memReads = {#}, memWrites = {#},
     stores = (\<lambda>_. None), fences = (\<lambda>_. None), cores = (\<lambda>_. ex_core), validVAddr = (\<lambda>_. True),
     InstTable = (\<lambda>pc. if pc = 1 then ex_instr iALU 0 0 1 0 4 else if pc = 2 then ex_instr iALU 1 0 2 0 8
        else if pc = 3 then ex_instr iStore 1 2 68 2 12 else if pc = 4 then ex_instr iLoad 1 0 3 0 16
        else ex_instr iALU 0 0 1 0 0), called = [], issueNo = 0, stamp = (\<lambda>_. 0)\<rparr>"

fun core_steps :: "nat \<Rightarrow> core_step list \<Rightarrow> world \<Rightarrow> world option" where
  "core_steps n [] s = Some s"
| "core_steps n (a # as) s =
     (if core_allowed a s \<and> 5 * card (live s) < n then Option.bind (core_do n a s) (core_steps n as) else None)"

lemma core_steps_reach: "core_reach s \<Longrightarrow> core_steps n as s = Some t \<Longrightarrow> core_reach t"
  by (induction as arbitrary: s) (auto split: if_splits bind_splits intro: core_reach.step)

lemma ex_world_init: "core_init ex_world"
  by (simp add: core_init_def ex_world_def ex_core_def ex_dinst_def ex_cluster_def conf_ok_def ports_ok_def port_ok_def
      regs_def ex_instr_def)

definition ex_f :: "nat \<Rightarrow> nat \<Rightarrow> fetched" where
  "ex_f d pc = \<lparr>f_d = d, f_pc = pc, f_vaddr = 64, f_cId = 0, f_event = None, f_answer = Correct False\<rparr>"

subsection \<open>Evaluation\<close>

lemma bind_weak: "m = m' \<Longrightarrow> Option.bind m f = Option.bind m' f" by simp

lemma run_cb_numeral:
  "run_cb (numeral k) (SelectCB d) s = doAtSelect (run_cb (pred_numeral k)) d s"
  "run_cb (numeral k) (SimTimeCB d) s = doAtSimTime (run_cb (pred_numeral k)) d s"
  "run_cb (numeral k) (ExecutedCB d) s = doAtExecuted (run_cb (pred_numeral k)) d s"
  "run_cb (numeral k) (IssuedCB p ty d) s = Cluster_issued p (cluster_no p ty s) s"
  "run_cb (numeral k) (DispatchedCB p d) s = FULoad_cacheDispatched (run_cb (pred_numeral k)) p d s"
  by (simp_all add: numeral_eq_Suc)

lemmas core_eval = fetched_ok_def instr_ok_def InvalidOutput_def NoDependence_def core_do_def core_allowed_def Processor_advanceClock_def GProcessor_retire_def retire_loop.simps GProcessor_issue_def
  issue_loop.simps Processor_addInst_def RAT_get_def sharedAddInst_def Resource_canIssue_def FU_canIssue_def FULoad_canIssue_def
  FUStore_canIssue_def getStoreEntry_def getLoadEntry_def lsq_insert_def calcWord_def isStore_def isLoad_def isFence_def newEntry_def delEntry_def
  Cluster_canIssue_def markIssued_def DepWindow_addInst_def hasDeps_def wakeUp_nextSlot_def sched_nextSlot_def gen_nextSlot_def
  Port_nextSlot_def Unlimited_nextSlot_def preSelect_def DepWindow_select_def setWakeUpTime_def scb_at_def cb_at_def isFree_def
  upd_c_def upd_d_def upd_cluster_def deref_def cluster_no_def NumArchRegs_def addSrc1_def addSrc2_def addSrc_def
  run_cb_numeral doAtSelect_def doAtSimTime_def doAtExecuted_def DepWindow_wakeUpDeps_def wakeUp_loop.simps getCluster_def
  Resource_simTime_def FUGeneric_simTime_def Cluster_issued_def Resource_executed_def Cluster_executed_def markExecuted_def
  DepWindow_executed_def executed_loop.simps getNextPending_def wake_one_def

lemmas ex_defs = ex_world_def ex_core_def ex_cluster_def ex_dinst_def ex_f_def ex_instr_def executePC_def createInst_def createDInst_def
  fetchAligned_def Unlimited_new_def port_base_new_def GStatsAvg_new_def port_sample_def GStatsAvg_sample_def catch_up_def port_base.defs

text \<open>The first instruction has executed, and the second one has been woken.\<close>

lemma ex_run_steps:
  "\<exists>s. core_steps 16 [Fetch 0 6 1 [ex_f 0 1, ex_f 1 2, ex_f 2 3], Cycle 0 True, Tick, Fire (Suc 1) (SelectCB 0), Tick,
     Fire (Suc (Suc 1)) (SimTimeCB 0), Tick, Fire (Suc (Suc (Suc 1))) (ExecutedCB 0)] ex_world = Some s \<and>
     ROB (cores s 0) = [0, 1, 2] \<and> executed (heap s 0) \<and> \<not> executed (heap s 1) \<and> \<not> executed (heap s 2) \<and>
     events s = {#(Suc (Suc (Suc (Suc 1))), SelectCB 1)#} \<and> now s = Suc (Suc (Suc 1)) \<and> live s = {0, 1, 2} \<and>
     d_inst (heap s 0) = ex_instr iALU 0 0 1 0 4 \<and> d_inst (heap s 1) = ex_instr iALU 1 0 2 0 8 \<and>
     d_inst (heap s 2) = ex_instr iStore 1 2 68 2 12 \<and> d_vaddr (heap s 2) = 64 \<and> MaxROBSize (cores s 0) = 16"
  by (simp add: ex_defs core_eval insert_commute cong: bind_weak let_weak_cong)

lemma ex_run:
  obtains s where "core_reach s" "ROB (cores s 0) = [0, 1, 2]" "executed (heap s 0)" "\<not> executed (heap s 1)"
    "\<not> executed (heap s 2)" "events s = {#(5, SelectCB 1)#}" "now s = 4" "live s = {0, 1, 2}"
    "d_inst (heap s 0) = ex_instr iALU 0 0 1 0 4" "d_inst (heap s 1) = ex_instr iALU 1 0 2 0 8"
    "d_inst (heap s 2) = ex_instr iStore 1 2 68 2 12" "d_vaddr (heap s 2) = 64" "MaxROBSize (cores s 0) = 16"
proof -
  obtain s where s: "core_steps 16 [Fetch 0 6 1 [ex_f 0 1, ex_f 1 2, ex_f 2 3], Cycle 0 True, Tick, Fire (Suc 1) (SelectCB 0), Tick,
     Fire (Suc (Suc 1)) (SimTimeCB 0), Tick, Fire (Suc (Suc (Suc 1))) (ExecutedCB 0)] ex_world = Some s"
     and f: "ROB (cores s 0) = [0, 1, 2] \<and> executed (heap s 0) \<and> \<not> executed (heap s 1) \<and> \<not> executed (heap s 2) \<and>
     events s = {#(Suc (Suc (Suc (Suc 1))), SelectCB 1)#} \<and> now s = Suc (Suc (Suc 1)) \<and> live s = {0, 1, 2} \<and>
     d_inst (heap s 0) = ex_instr iALU 0 0 1 0 4 \<and> d_inst (heap s 1) = ex_instr iALU 1 0 2 0 8 \<and>
     d_inst (heap s 2) = ex_instr iStore 1 2 68 2 12 \<and> d_vaddr (heap s 2) = 64 \<and> MaxROBSize (cores s 0) = 16"
    using ex_run_steps by blast
  have "core_reach s" by (rule core_steps_reach [OF core_reach.start [OF ex_world_init] s])
  moreover have "events s = {#(5, SelectCB 1)#}" "now s = 4" using f by (simp_all add: eval_nat_numeral)
  ultimately show thesis using that f by blast
qed

end
