(* ===== verification/Core_Properties.thy ===== *)
theory Core_Properties
  imports Core_Example
begin

text \<open>
  The properties of the out-of-order core. \<open>core_reach\<close> holds for the states that any number of
  processors reach, whatever the emulator executes, the branch predictors answer, the caches
  accept and the memory system takes. \<open>core_init\<close> and \<open>fetched_ok\<close> are the assumptions: at the
  start nothing is under way, the processors are out of order (\<open>\<not> InOrderCore\<close>), stores and
  fences use the same unit, the fetch and retire widths are positive, and the register pools, the
  load/store queues and the windows are not negative; instructions at the same address have the same
  operation. What is fetched has sources below \<open>InvalidOutput\<close> and a destination that is at most
  \<open>InvalidOutput\<close> and not 0, loads have one source, stores no destination, events run a callback, and stores and fences have a valid address.
\<close>

subsection \<open>Facts of reachable states\<close>

lemma core_reach_inv:
  assumes "core_reach s"
  obtains D pl where "core_ok D pl s" "core_inv {} D pl s" "place_ok pl s" "count_ok pl s" "lsq_ok pl s"
    "deps_ok D s" "act_ok s" "win_ok s" "rat_ok s" "dep_ok D s" "stamp_ok D s"
proof -
  obtain D pl where I: "core_ok D pl s" using core_reach_ok assms by blast
  then have J: "core_inv {} D pl s" by (simp add: core_ok_def)
  note C = core_invD [OF J]
  show thesis by (rule that [OF I J]) (use C staticD [OF C(1)] in simp_all)
qed

lemma under_way_acts:
  assumes "(\<exists>t ev. (t, ev) \<in># events s \<and> about ev = Some d) \<or> d \<in># memReads s"
  shows "acts s d \<noteq> 0"
proof -
  have "Some d \<in># image_mset about (evs s)" if "(t, ev) \<in># events s" "about ev = Some d" for t ev
    using image_eqI [of "Some d" about ev] that by (force simp: evs_def)
  then show ?thesis using assms by (auto simp: acts_def)
qed

lemma started_free:
  assumes D: "deps_ok D s" and A: "act_ok s" and d: "d \<in> live s"
    and "executed (heap s d) \<or> acts s d \<noteq> 0"
  shows "(d, k) \<notin> set (D q)"
proof -
  have n: "nDeps (heap s d) = 0" using assms by (auto simp: act_ok_def ready_def split: if_splits)
  show ?thesis
  proof
    assume "(d, k) \<in> set (D q)"
    then have "(d, k) \<in> nodes D" by (auto simp: nodes_def)
    moreover have "k < 2" using D calculation by (force simp: deps_ok_def)
    ultimately show False using deps_use(1) [OF D d] n by (auto simp: less_2_cases_iff)
  qed
qed

lemma sent_mem:
  assumes P: "place_ok pl s"
  shows "{d. pl d = Some (Sent p)} = {d. d \<in># memWrites s \<and> d_resource (heap s d) = Some (p, opcode (d_inst (heap s d)))}"
proof -
  have m: "d \<in># memWrites s \<longleftrightarrow> (\<exists>q. pl d = Some (Sent q))" for d
    using placeD(10) [OF P, of d] by (simp flip: count_greater_zero_iff)
  have r: "d_resource (heap s d) = Some (q, opcode (d_inst (heap s d)))" if "pl d = Some (Sent q)" for d q
    using placeD(14) [OF P that] by (simp add: runs_on_def)
  show ?thesis using m r by fastforce
qed

subsection \<open>Properties\<close>

text \<open>C0: In every reachable state every step that the rest of the simulator may make (a fetch, the
  clock of a processor, a callback that is due, the answer of the memory system, a cache that
  becomes busy or free, the next cycle) runs to its end: no assertion of the core fails, no
  list of dependents is broken, no instruction is used after it went back to the pool, and the
  nesting of callbacks that call callbacks is at most five for every instruction.\<close>

theorem core_never_aborts:
  assumes "core_reach s" and "core_allowed a s" and "5 * card (live s) < n"
  shows "\<exists>s'. core_do n a s = Some s' \<and> core_reach s'"
proof -
  obtain D pl where "core_ok D pl s" using core_reach_inv assms(1) by blast
  then obtain s' where "core_do n a s = Some s'" using core_step_ok assms(2,3) by blast
  then show ?thesis using core_reach.step assms by blast
qed

theorem core_never_aborts_witness:
  "\<exists>s s'. ROB (cores s 0) = [0, 1, 2] \<and> core_do 16 Tick s = Some s' \<and> core_reach s'"
proof -
  obtain s where s: "core_reach s" "ROB (cores s 0) = [0, 1, 2]" "events s = {#(5, SelectCB 1)#}" "now s = 4" "live s = {0, 1, 2}"
    using ex_run by metis
  have "core_allowed Tick s" "5 * card (live s) < 16" using s(3-5) by (simp_all add: core_allowed_def)
  then show ?thesis using core_never_aborts [OF s(1)] s(2) by blast
qed

text \<open>C0: The cores never deadlock: from every reachable state there is a run of clock cycles,
  callbacks and answers of the memory system, with nothing more fetched, to a state where all reorder
  buffers are empty and all stores have been performed, so that every instruction that was issued has
  executed and retired.\<close>

theorem core_drains:
  assumes "core_reach s"
  shows "\<exists>t. core_run s t \<and> core_reach t \<and> (\<forall>p. ROB (cores t p) = []) \<and> memWrites t = {#}"
proof -
  obtain D pl where "core_ok D pl s" using core_reach_inv assms by blast
  from core_drain_ok [OF this] show ?thesis using core_run_reach assms by blast
qed

theorem core_drains_witness:
  "\<exists>s t. ROB (cores s 0) = [0, 1, 2] \<and> core_run s t \<and> ROB (cores t 0) = [] \<and> memWrites t = {#}"
proof -
  obtain s where "core_reach s" "ROB (cores s 0) = [0, 1, 2]" using ex_run by metis
  then show ?thesis using core_drains [of s] by blast
qed

text \<open>C0: Instructions execute in the order of the data flow: when an instruction of a reorder
  buffer has executed, or one of its callbacks is scheduled, or its read is in the memory system,
  the youngest older instruction that writes one of its sources has executed.\<close>

theorem core_dataflow:
  assumes "core_reach s" and "ROB (cores s p) = pre @ d # post"
    and "writer s (getSrc1 (d_inst (heap s d))) pre = Some q \<or> writer s (getSrc2 (d_inst (heap s d))) pre = Some q"
    and "executed (heap s d) \<or> (\<exists>t ev. (t, ev) \<in># events s \<and> about ev = Some d) \<or> d \<in># memReads s"
  shows "executed (heap s q)"
proof -
  obtain D pl where I: "place_ok pl s" "deps_ok D s" "act_ok s" "dep_ok D s" using core_reach_inv assms(1) by metis
  have "pl d = Some (InROB p)" using placeD(4) [OF I(1), of d p] assms(2) by simp
  then have "d \<in> live s" using placeD(2) [OF I(1)] by auto
  moreover have "executed (heap s d) \<or> acts s d \<noteq> 0" using under_way_acts assms(4) by blast
  ultimately have "(d, k) \<notin> set (D q)" for k using started_free I(2,3) by blast
  then show ?thesis using dep_okD [OF I(4) assms(2), of 0 q] dep_okD [OF I(4) assms(2), of 1 q] assms(3) by blast
qed

theorem core_dataflow_witness:
  "\<exists>s::world. ROB (cores s 0) = [0, 1, 2] \<and> events s = {#(5, SelectCB 1)#} \<and> executed (heap s 0)"
proof -
  obtain s where s: "core_reach s" "ROB (cores s 0) = [0, 1, 2]" "events s = {#(5, SelectCB 1)#}"
    "d_inst (heap s 0) = ex_instr iALU 0 0 1 0 4" "d_inst (heap s 1) = ex_instr iALU 1 0 2 0 8"
    using ex_run by metis
  have "writer s (getSrc1 (d_inst (heap s 1))) [0] = Some 0" using s(4,5) by (simp add: writer_def dest_def ex_instr_def)
  moreover have "ROB (cores s 0) = [0] @ 1 # [2]" using s(2) by simp
  moreover have "(5, SelectCB 1) \<in># events s" "about (SelectCB 1) = Some 1" using s(3) by simp_all
  ultimately have "executed (heap s 0)" using core_dataflow [OF s(1), of 0 "[0]" 1 "[2]" 0] by blast
  then show ?thesis using s(2,3) by (intro exI [of _ s]) simp
qed

text \<open>C0: The rename table is exact: for every register, it names the youngest instruction of the
  reorder buffer that writes the register, unless this one has executed or there is none; then the
  entry is null.\<close>

theorem core_rename_table:
  assumes "core_reach s" and "r < InvalidOutput"
  shows "RAT (cores s p) r = (case writer s r (ROB (cores s p)) of
    None \<Rightarrow> None | Some d \<Rightarrow> if executed (heap s d) then None else Some d)"
proof -
  obtain D pl where "rat_ok s" using core_reach_inv assms(1) by metis
  then show ?thesis using assms(2) by (simp add: rat_ok_def)
qed

theorem core_rename_table_witness:
  "\<exists>s::world. ROB (cores s 0) = [0, 1, 2] \<and> RAT (cores s 0) 1 = None \<and> RAT (cores s 0) 2 = Some 1"
proof -
  obtain s where s: "core_reach s" "ROB (cores s 0) = [0, 1, 2]" "executed (heap s 0)" "\<not> executed (heap s 1)"
    "d_inst (heap s 0) = ex_instr iALU 0 0 1 0 4" "d_inst (heap s 1) = ex_instr iALU 1 0 2 0 8"
    "d_inst (heap s 2) = ex_instr iStore 1 2 68 2 12" using ex_run by metis
  have "writer s 1 [0, 1, 2] = Some 0" "writer s 2 [0, 1, 2] = Some 1"
    using s(5-7) by (simp_all add: writer_def dest_def ex_instr_def)
  then have "RAT (cores s 0) 1 = None" "RAT (cores s 0) 2 = Some 1"
    using core_rename_table [OF s(1), of 1 0] core_rename_table [OF s(1), of 2 0] s(2-4) by (simp_all add: InvalidOutput_def)
  then show ?thesis using s(2) by (intro exI [of _ s]) simp
qed

text \<open>C0: The load/store queue of a processor holds exactly the loads and stores of its reorder
  buffer, by their words and in program order, and every entry of the shared table of stores is
  a store to that word which is still in a reorder buffer.\<close>

theorem core_memory_tables:
  assumes "core_reach s"
  shows "inflightInsts (cores s p) = {d \<in> set (ROB (cores s p)). isMem (d_inst (heap s d))} \<and>
    (case instMap (cores s p) w of None \<Rightarrow> [] | Some ds \<Rightarrow> ds) =
      filter (\<lambda>d. isMem (d_inst (heap s d)) \<and> calcWord (heap s d) = w) (ROB (cores s p)) \<and>
    instMap (cores s p) w \<noteq> Some [] \<and>
    (case stores s w of None \<Rightarrow> True
     | Some d \<Rightarrow> isStore (d_inst (heap s d)) \<and> calcWord (heap s d) = w \<and> (\<exists>q. d \<in> set (ROB (cores s q))))"
proof -
  obtain D pl where I: "place_ok pl s" "lsq_ok pl s" using core_reach_inv assms by metis
  let ?ms = "filter (\<lambda>d. isMem (d_inst (heap s d))) (ROB (cores s p))"
  let ?ws = "filter (\<lambda>d. calcWord (heap s d) = w) ?ms"
  have "inflightInsts (cores s p) = set ?ms" "instMap (cores s p) w = (if ?ws = [] then None else Some ?ws)"
    using I(2) unfolding lsq_ok_def Let_def by blast+
  moreover have "isStore (d_inst (heap s d)) \<and> calcWord (heap s d) = w \<and> (\<exists>q. d \<in> set (ROB (cores s q)))"
    if "stores s w = Some d" for d
    using I(2) that placeD(4) [OF I(1), of d] unfolding lsq_ok_def by blast
  ultimately show ?thesis by (auto simp: conj_commute split: option.split)
qed

theorem core_memory_tables_witness:
  "\<exists>s::world. ROB (cores s 0) = [0, 1, 2] \<and> inflightInsts (cores s 0) = {2} \<and> instMap (cores s 0) 16 = Some [2]"
proof -
  obtain s where s: "core_reach s" "ROB (cores s 0) = [0, 1, 2]" "d_vaddr (heap s 2) = 64"
    "d_inst (heap s 0) = ex_instr iALU 0 0 1 0 4" "d_inst (heap s 1) = ex_instr iALU 1 0 2 0 8"
    "d_inst (heap s 2) = ex_instr iStore 1 2 68 2 12" using ex_run by metis
  have m: "isMem (d_inst (heap s d)) \<longleftrightarrow> d = 2" if "d \<in> {0, 1, 2}" for d
    using that s(4-6) by (auto simp: isMem_def isLoad_def isStore_def ex_instr_def)
  note T = core_memory_tables [OF s(1), of 0 16, unfolded s(2)]
  have "inflightInsts (cores s 0) = {2}" using T m by auto
  moreover have "(case instMap (cores s 0) 16 of None \<Rightarrow> [] | Some ds \<Rightarrow> ds) = [2]"
    using T m s(3) by (simp add: calcWord_def)
  ultimately have "inflightInsts (cores s 0) = {2} \<and> instMap (cores s 0) 16 = Some [2]" by (simp split: option.splits)
  then show ?thesis using s(2) by (intro exI [of _ s]) simp
qed

text \<open>C0: Every resource is accounted for: the reorder buffer is not longer than \<open>MaxROBSize\<close>, has
  no instruction twice and is in the order of issue; the free registers and the instructions of
  the reorder buffer that took one add up to the pool; the free entries of a window and those in
  use add up to \<open>MaxWinSize\<close> (with \<open>AtRetire\<close> they may stay below it); \<open>nOutsStores\<close> is the number
  of stores of the processor in the memory system, and no fence is pending without one; the queue of
  instructions does not grow beyond its size.\<close>

theorem core_resources_bounded:
  assumes "core_reach s"
  defines "c p \<equiv> cores s p"
  shows "length (ROB (c p)) \<le> MaxROBSize (c p) \<and> distinct (ROB (c p)) \<and>
    sorted_wrt (\<lambda>x y. stamp s x < stamp s y) (ROB (c p)) \<and>
    list_all (\<lambda>r. 0 \<le> regPool (c p) r \<and>
      regPool (c p) r + int (length (filter (\<lambda>d. getDstPool (d_inst (heap s d)) = r) (ROB (c p)))) = regs (c p) r) [0, 1, 2] \<and>
    win_at (clusters (c p) k) (used s p k) \<and> 0 \<le> freeLoads (c p) \<and> 0 \<le> freeStores (c p) \<and>
    nOutsStores (c p) = int (card {d. d \<in># memWrites s \<and> d_resource (heap s d) = Some (p, opcode (d_inst (heap s d)))}) \<and>
    (pendingFence (c p) \<longrightarrow> 0 < nOutsStores (c p)) \<and>
    0 \<le> spaceInInstQueue (c p) \<and>
    spaceInInstQueue (c p) + int (length (concat (instQueue (c p)))) \<le> int (InstQueueSize (c p))"
proof -
  obtain D pl where I: "place_ok pl s" "count_ok pl s" "win_ok s" "stamp_ok D s" using core_reach_inv assms(1) by metis
  note C = I(2) [unfolded count_ok_def Let_def sent_mem [OF I(1)], rule_format, of p]
  let ?reg = "\<lambda>r. 0 \<le> regPool (c p) r \<and>
      regPool (c p) r + int (length (filter (\<lambda>d. getDstPool (d_inst (heap s d)) = r) (ROB (c p)))) = regs (c p) r"
  have "?reg r" if "r < 3" for r unfolding c_def using C that by blast
  then have "?reg 0" "?reg 1" "?reg 2" by simp_all
  then have "list_all ?reg [0, 1, 2]" by (simp only: list.pred_inject simp_thms)
  moreover have "win_at (clusters (c p) k) (used s p k)" "sorted_wrt (\<lambda>x y. stamp s x < stamp s y) (ROB (c p))"
    using I(3,4) by (simp_all add: win_ok_def stamp_ok_def c_def)
  moreover have "distinct (ROB (c p))" using placeD(3) [OF I(1)] by (simp add: c_def)
  ultimately show ?thesis using C unfolding c_def by blast
qed

theorem core_resources_bounded_witness:
  "\<exists>s::world. ROB (cores s 0) = [0, 1, 2] \<and> regPool (cores s 0) 0 = regs (cores s 0) 0 - 2"
proof -
  obtain s where s: "core_reach s" "ROB (cores s 0) = [0, 1, 2]"
    "d_inst (heap s 0) = ex_instr iALU 0 0 1 0 4" "d_inst (heap s 1) = ex_instr iALU 1 0 2 0 8"
    "d_inst (heap s 2) = ex_instr iStore 1 2 68 2 12" using ex_run by metis
  have "length (filter (\<lambda>d. getDstPool (d_inst (heap s d)) = 0) [0, 1, 2]) = 2"
    using s(3-5) by (simp add: ex_instr_def)
  then have "regPool (cores s 0) 0 = regs (cores s 0) 0 - 2" using core_resources_bounded [OF s(1), of 0 0] unfolding s(2) by simp
  then show ?thesis using s(2) by (intro exI [of _ s]) simp
qed

end
