(* ===== verification/Spec2Isabelle.thy ===== *)
theory Spec2Isabelle
  imports Engine_Properties Memory_Properties Coherence_Properties Branch_Properties MSHR_Properties Sync_Properties
    Core_Properties
begin

text \<open>
  A verification library for SESC, an execution-driven simulator of superscalar processors,
  caches and multiprocessors.

  SESC runs in cycles. A global clock advances; every cycle first calls the callbacks that are
  due (libsuc/callback.h on the time queue of libsuc/TQueue.h), and everything that takes time
  in the simulated machine is a callback that was scheduled some cycles ahead. Callbacks and
  requests are recycled through pools (libsuc/pool.h). Contention for a resource is a port
  (libsuc/Port.h), which hands out the next free slot. Caches, target buffers and TLBs are
  instances of one template (libsuc/CacheCore.h). On top of these stand the processor core
  with its branch predictors (libcore) and the memory hierarchy, here the snooping MESI
  protocol of the multiprocessor model (libsmp).

  \<^bold>\<open>Conventions.\<close> An operation returns its state updated. The assertions \<open>I(c)\<close> and
  \<open>GI(g, c)\<close> of libsuc/nanassert.h, the dereference of null and an array access out of its
  bounds are the result \<open>None\<close>, so a theorem that an operation returns \<open>Some\<close> says that
  none of them happens. Integers are words or naturals with the truncation written out
  where the source narrows them (\<open>u16\<close>, \<open>u32\<close>, \<open>u64\<close> of \<open>Sesc_Prelude\<close>). The
  model is of the DEBUG build. Statistics are kept where the code's results depend on them
  or where a property is about them; energy counters and messages are left out.

  \<^bold>\<open>Simulation engine.\<close>
  \<^item> \<open>Std_Heap\<close>: \<open>push_heap\<close>, \<open>pop_heap\<close>, \<open>make_heap\<close> of the C++ library on a
    vector, with the order of the keys and the elements that they keep.
  \<^item> \<open>TQueue_Model\<close>, \<open>TQueue_Correct\<close>, \<open>TQueue_Remove\<close>: TQueue.h, a calendar of
    \<open>AccessSize\<close> buckets plus a heap for the far future, with intrusive nodes in a store.
    The invariant \<open>tq_inv\<close> and an abstraction to a finite map of due times are kept by
    \<open>insert\<close> and \<open>nextJob\<close>; \<open>Agenda\<close> states that contract as a locale, which is
    interpreted on the queue. \<open>remove\<close> and \<open>reschedule\<close> are right for the first node
    of the current bucket and wrong for others, which the error properties show.
  \<^item> \<open>EventScheduler\<close>, \<open>Callbacks\<close>, \<open>CallbackContainer\<close>: callback.h. The
    scheduler is proved over the agenda; what a callback does is a parameter. The loop of
    \<open>advanceClock\<close> runs on fuel, the number of pending callbacks plus one, which is
    shown to be enough when callbacks schedule nothing for the same cycle.
  \<^item> \<open>Pool_Model\<close>, \<open>FastQueue\<close>: pool.h and FastQueue.h, each with its contract.
  \<^item> \<open>Engine_Examples\<close>, \<open>Engine_Properties\<close>: concrete states, and the properties.

  \<^bold>\<open>Ports, caches and helpers.\<close>
  \<^item> \<open>Port_Model\<close>, \<open>Port_Correct\<close>, \<open>Port_Occupy\<close>: Port.h and Port.cpp. All classes
    that \<open>Port_create\<close> can choose grant the slots of one reference, a multiset of free times.
  \<^item> \<open>Cache_Model\<close>, \<open>Cache_Correct\<close>: CacheCore.h and CacheCore.cpp. The state of a
    line is a record of operations (\<open>line_ops\<close>), as in the template. \<open>cache_ok\<close> is kept
    by every operation; the direct-mapped class agrees with the associative one at one way.
  \<^item> \<open>Snippets_Model\<close>, \<open>Snippets_Correct\<close>: Snippets.cpp; \<open>log2i\<close> on fuel 64, the
    number of shifts of a 64-bit word.
  \<^item> \<open>Memory_Properties\<close>: the properties of these.

  \<^bold>\<open>Coherence.\<close>
  \<^item> \<open>SMP_State\<close>: SMPCacheState.h and the encoding of MESIProtocol.h on 32-bit words.
  \<^item> \<open>MESI_Model\<close>: the operations of SMPCache.cpp, MESIProtocol.cpp, SMPMemRequest.cpp and
    SMPSystemBus.cpp on one line address. Addresses do not interact except by choosing each
    other's lines as victims, which is an event of its own.
  \<^item> \<open>Coherence_Model\<close>: any number of caches and their bus as a state machine; its events are
    the operations that the simulator can call next, in any order.
    Its field \<open>home\<close> is a ghost: it says where the last written data are (in memory, in a cache, or
    lost), and a write-back of older data makes it \<open>Stale\<close>.
  \<^item> \<open>Coherence_Correct\<close>, \<open>Coherence_Steps\<close>, \<open>Coherence_Safety\<close>, \<open>Coherence_Home\<close>,
    \<open>Coherence_Data\<close>, \<open>Coherence_Progress\<close>, \<open>Coherence_Liveness\<close>: the invariants, one
    lemma per event, and their consequences for reachable states.
  \<^item> \<open>Coherence_Properties\<close>: one writer or many readers; at the highest level no lost data, no
    failed assertion of the events of the bus and completion of requests; the assertion that fails
    and the write that is lost below it.

  \<^bold>\<open>Miss status registers.\<close>
  \<^item> \<open>Bloom_Model\<close>: BloomFilter.h and BloomFilter.cpp; a filter represents a multiset.
  \<^item> \<open>MSHR_Model\<close>: MSHR.h and MSHR.cpp, the base class, its entries and \<open>SingleMSHR\<close>. The
    objects are numbered in a store, because a callback that an operation calls may use the
    same MSHR again; what a callback does is a parameter. The loop of \<open>checkOverflow\<close> is a
    partial function; it returns because every turn takes a request off the queue and the
    callbacks can add a bounded number only (\<open>client_ok\<close>).
  \<^item> \<open>MSHR_Correct\<close>, \<open>MSHR_Safety\<close>, \<open>MSHR_Live\<close>: the invariant, that every operation
    keeps it and runs through, and the conservation of requests and callbacks.
  \<^item> \<open>MSHR_Classes\<close>, \<open>MSHR_Kinds\<close>: the other classes, and one contract for all of them, the
    locale \<open>miss_registers\<close>, interpreted on each class with callbacks that keep a log.
  \<^item> \<open>MSHR_Properties\<close>: the properties.

  \<^bold>\<open>Application library.\<close>
  \<^item> \<open>Sync_Model\<close>, \<open>Sync_Barrier\<close>, \<open>Sync_Threads\<close>: sesc\_locks.c and sesc\_thread.c, the spin
    lock, the two phase barrier and the semaphore as threads that make one access to memory per
    step, under any schedule, and the hash table of threads. \<open>invariant_steps\<close> is the contract of
    an invariant of the steps, interpreted on all three; the barrier's invariant says where each
    thread can be in round \<open>e\<close>, with counters of arrivals and returns that the code does not have.
  \<^item> \<open>Sync_Properties\<close>: the properties.

  \<^bold>\<open>Branch predictors.\<close>
  \<^item> \<open>SCTable_Model\<close>: SCTable.h and SCTable.cpp, saturating counters of 8 bits; \<open>sc_ok\<close>
    bounds them and \<open>sc_step\<close> is their reference.
  \<^item> \<open>Branch_Model\<close>, \<open>Branch_Tables\<close>: BPred.h and BPred.cpp.
  \<^item> \<open>BTB_Correct\<close>, \<open>Branch_Correct\<close>, \<open>BPredictor_Correct\<close>: the return stack as a
    bounded stack, the target buffer on the invariant of the cache core, every predictor total
    on its invariant; \<open>predictor\<close> is the contract that \<open>BPredictor\<close> needs, interpreted
    on the virtual function \<open>BPred_predict\<close>.
  \<^item> \<open>Branch_Properties\<close>: the properties.

  \<^bold>\<open>Out-of-order core.\<close> Any number of processors that share the load/store buffer, from fetch
  to retirement.
  \<^item> \<open>Core_Data\<close>: DInst.h and DInst.cpp, with the intrusive lists of dependents, LDSTBuffer.cpp,
    LDSTQ.cpp. The instructions are objects in a store, and \<open>live\<close> holds those out of the pool.
  \<^item> \<open>Core_Model\<close>: DepWindow.cpp, Cluster.cpp, Resource.cpp, GProcessor.cpp, Processor.cpp and the
    requests of MemRequest.cpp. A callback that is due at once is called inside the operation that
    schedules it; \<open>run_cb\<close> bounds the depth by its first argument, and five for every live
    instruction is enough (\<open>W_bound\<close>). The loops over intrusive lists are partial functions.
  \<^item> \<open>Core_Fetch\<close>: the fetch stage of FetchEngine.cpp; what the emulator executes and what the
    branch predictor answers are inputs. \<open>Core_Steps\<close>: the state machine of the cores, with the
    memory system as the steps that answer requests.
  \<^item> \<open>Core_Deps\<close>: the lists of dependents as abstract lists. \<open>Core_Inv\<close>, \<open>Core_Dyn\<close>: the
    invariant \<open>core_inv\<close>, where every instruction is, what the counters count, and that every
    instruction that waits for nobody has exactly one activity under way.
  \<^item> \<open>Core_Act\<close>, \<open>Core_Exec\<close>, \<open>Core_Sel\<close>, \<open>Core_Wake\<close>, \<open>Core_Fire\<close>: callbacks keep the invariant
    and use up the measure \<open>W\<close>. \<open>Core_Leave\<close>, \<open>Core_Awake\<close>, \<open>Core_Retire\<close>: retirement.
    \<open>Core_Issue\<close>, \<open>Core_Add\<close>, \<open>Core_AddInst\<close>, \<open>Core_Cycle\<close>: issue and the clock of a processor.
    \<open>Core_Drain\<close>: the measure that goes down until nothing is left.
  \<^item> \<open>Core_Example\<close>, \<open>Core_Properties\<close>: a run that is evaluated, and the properties.
  The fetch engine's own state (\<open>missInstID\<close> and its assertions), the requests of the instruction
  cache, replays (\<open>DOREPLAY\<close>) and the in-order and speculative builds are left out.

  \<^bold>\<open>Plan.\<close> Next: statistics, the DDR2 banks, the routing of the network.

  \<^bold>\<open>Not modelled.\<close> The configuration reader and the construction of the machine from it, the
  MIPS interpreter of mint and the emulation of the operating system (glue to the host), the
  power models (third-party floating point code), the report files (output), trace readers.
\<close>

end
